(* ===== verification/Kernel_Prelude.thy ===== *)
theory Kernel_Prelude
  imports Main "HOL-Library.Word" "HOL-Library.Signed_Division"
begin

text \<open>
  Shared vocabulary of the development: the machine integers of the 32-bit MIPS target, the
  result type of kernel code (a value, or the reason why the kernel stops), the error numbers of
  \<^verbatim>\<open>kern/include/kern/errno.h\<close>, the page geometry of \<^verbatim>\<open>kern/arch/mips/include/vm.h\<close>, and the
  generic lemmas on results, lists and words that the components use.
\<close>

unbundle bit_operations_syntax

named_theorems kdefs \<open>definitions of kernel operations that a component unfolds\<close>

type_synonym u8 = "8 word"
type_synonym u16 = "16 word"
type_synonym u32 = "32 word"
type_synonym u64 = "64 word"
type_synonym paddr = u32
type_synonym vaddr = u32
type_synonym errno = int

section \<open>Results of kernel code\<close>

text \<open>
  A C function of the kernel either returns or stops the machine: \<^verbatim>\<open>panic\<close>, a failed
  \<^verbatim>\<open>KASSERT\<close>, a wait for another CPU that never comes in a sequential run (\<open>Spinning\<close>), or
  behaviour that C leaves undefined (\<open>Undefined\<close>: a null or out-of-range access, a read of an
  uninitialised variable).
\<close>

datatype kfail = Panic string | AssertFail string | Spinning | Undefined string

type_synonym 'a kres = "kfail + 'a"

fun sbind :: "'e + 'a \<Rightarrow> ('a \<Rightarrow> 'e + 'b) \<Rightarrow> 'e + 'b" where
  "sbind (Inl e) f = Inl e"
| "sbind (Inr x) f = f x"

definition kassert :: "bool \<Rightarrow> string \<Rightarrow> 'a kres \<Rightarrow> 'a kres" where
  "kassert b msg k = (if b then k else Inl (AssertFail msg))"

section \<open>Error numbers\<close>

abbreviation (input) ENOSYS :: errno where "ENOSYS \<equiv> 1"
abbreviation (input) ENOMEM :: errno where "ENOMEM \<equiv> 3"
abbreviation (input) EAGAIN :: errno where "EAGAIN \<equiv> 4"
abbreviation (input) EFAULT :: errno where "EFAULT \<equiv> 6"
abbreviation (input) ENAMETOOLONG :: errno where "ENAMETOOLONG \<equiv> 7"
abbreviation (input) EINVAL :: errno where "EINVAL \<equiv> 8"
abbreviation (input) ENOEXEC :: errno where "ENOEXEC \<equiv> 13"
abbreviation (input) ENOTDIR :: errno where "ENOTDIR \<equiv> 17"
abbreviation (input) EISDIR :: errno where "EISDIR \<equiv> 18"
abbreviation (input) ENOENT :: errno where "ENOENT \<equiv> 19"
abbreviation (input) EEXIST :: errno where "EEXIST \<equiv> 22"
abbreviation (input) EBUSY :: errno where "EBUSY \<equiv> 27"
abbreviation (input) EMFILE :: errno where "EMFILE \<equiv> 28"
abbreviation (input) ENFILE :: errno where "ENFILE \<equiv> 29"
abbreviation (input) EIO :: errno where "EIO \<equiv> 32"
abbreviation (input) ENOSPC :: errno where "ENOSPC \<equiv> 36"
abbreviation (input) EFBIG :: errno where "EFBIG \<equiv> 38"

section \<open>Pages\<close>

abbreviation (input) PAGE_SIZE :: u32 where "PAGE_SIZE \<equiv> 4096"
abbreviation (input) PAGE_FRAME :: u32 where "PAGE_FRAME \<equiv> 0xfffff000"
abbreviation (input) MIPS_KSEG0 :: u32 where "MIPS_KSEG0 \<equiv> 0x80000000"
abbreviation (input) USERSPACETOP :: u32 where "USERSPACETOP \<equiv> MIPS_KSEG0"
abbreviation (input) USERSTACK :: u32 where "USERSTACK \<equiv> USERSPACETOP"

definition PADDR_TO_KVADDR :: "paddr \<Rightarrow> vaddr" where
  "PADDR_TO_KVADDR paddr = paddr + MIPS_KSEG0"

section \<open>Array loops\<close>

text \<open>\<^verbatim>\<open>for (i = a; i < a+n; i++) xs[i] = v;\<close>\<close>

fun fill_range :: "nat \<Rightarrow> nat \<Rightarrow> 'a \<Rightarrow> 'a list \<Rightarrow> 'a list" where
  "fill_range a 0 v xs = xs"
| "fill_range a (Suc n) v xs = fill_range (Suc a) n v (xs[a := v])"

text \<open>A \<^verbatim>\<open>for\<close> loop over known indices whose body may stop the kernel.\<close>

fun kfor :: "'i list \<Rightarrow> ('i \<Rightarrow> 's \<Rightarrow> 'e + 's) \<Rightarrow> 's \<Rightarrow> 'e + 's" where
  "kfor [] body s = Inr s"
| "kfor (i # is) body s = sbind (body i s) (kfor is body)"

text \<open>A loop that never ends hangs the kernel.\<close>

definition loop_result :: "'a kres option \<Rightarrow> 'a kres" where
  "loop_result r = (case r of None \<Rightarrow> Inl Spinning | Some x \<Rightarrow> x)"

text \<open>The index of the first element with a property, counted from \<open>i\<close>; \<open>-1\<close> when there is none.\<close>

fun find_first :: "('b \<Rightarrow> bool) \<Rightarrow> nat \<Rightarrow> 'b list \<Rightarrow> int" where
  "find_first P i [] = -1"
| "find_first P i (x # xs) = (if P x then int i else find_first P (Suc i) xs)"

text \<open>The result of a signed 32-bit addition as the machine computes it.\<close>

definition int32 :: "int \<Rightarrow> int" where
  "int32 x = signed_take_bit 31 x"

section \<open>Lemmas on results\<close>

lemma sbind_eq_Inr_iff: "sbind m f = Inr y \<longleftrightarrow> (\<exists>x. m = Inr x \<and> f x = Inr y)"
  by (cases m) auto

lemma sbind_eq_Inl_iff: "sbind m f = Inl e \<longleftrightarrow> m = Inl e \<or> (\<exists>x. m = Inr x \<and> f x = Inl e)"
  by (cases m) auto

lemma sbind_assoc: "sbind (sbind m f) g = sbind m (\<lambda>x. sbind (f x) g)"
  by (cases m) auto

lemma sbind_split:
  "P (sbind m f) \<longleftrightarrow> (\<forall>e. m = Inl e \<longrightarrow> P (Inl e)) \<and> (\<forall>x. m = Inr x \<longrightarrow> P (f x))"
  by (cases m) auto

lemma kassert_True [simp]: "kassert True msg k = k"
  by (simp add: kassert_def)

lemma kassert_False [simp]: "kassert False msg k = Inl (AssertFail msg)"
  by (simp add: kassert_def)

lemma kassert_eq_Inr_iff [simp]: "kassert b msg k = Inr y \<longleftrightarrow> b \<and> k = Inr y"
  by (simp add: kassert_def)

section \<open>Lemmas on array loops\<close>

lemma kfor_append: "kfor (xs @ ys) f s = sbind (kfor xs f s) (kfor ys f)"
proof (induction xs arbitrary: s)
  case Nil
  then show ?case by simp
next
  case (Cons x xs)
  then show ?case by (cases "f x s") simp_all
qed

lemma kfor_skip: "(\<And>i. i \<in> set xs \<Longrightarrow> f i s = Inr s) \<Longrightarrow> kfor xs f s = Inr s"
  by (induction xs) simp_all

lemma kfor_fail:
  assumes "i \<in> set xs" and "\<And>j. j \<in> set xs \<Longrightarrow> f j s = (if P j then Inl e else Inr s)" and "P i"
  shows "kfor xs f s = Inl e"
  using assms by (induction xs) auto

lemma kfor_pure: "(\<And>i s. i \<in> set xs \<Longrightarrow> f i s = Inr (g i s)) \<Longrightarrow> kfor xs f s = Inr (fold g xs s)"
  by (induction xs arbitrary: s) simp_all

lemma kfor_upt_invariant:
  assumes "I 0 s" and "\<And>i s. i < n \<Longrightarrow> I i s \<Longrightarrow> \<exists>s'. body i s = Inr s' \<and> I (Suc i) s'"
  shows "\<exists>s'. kfor [0..<n] body s = Inr s' \<and> I n s'"
  using assms(2)
proof (induction n)
  case 0
  then show ?case using assms(1) by simp
next
  case (Suc n)
  from Suc.IH Suc.prems obtain s1 where "kfor [0..<n] body s = Inr s1" "I n s1" by (metis less_SucI)
  then show ?case using Suc.prems [of n s1] by (auto simp: kfor_append)
qed

lemma int32_id [simp]: "- (2 ^ 31) \<le> x \<Longrightarrow> x < 2 ^ 31 \<Longrightarrow> int32 x = x"
  by (simp add: int32_def signed_take_bit_int_eq_self)

lemma length_fill_range [simp]: "length (fill_range a n v xs) = length xs"
  by (induction a n v xs rule: fill_range.induct) simp_all

lemma nth_fill_range [simp]:
  "j < length xs \<Longrightarrow> fill_range a n v xs ! j = (if a \<le> j \<and> j < a + n then v else xs ! j)"
  by (induction a n v xs rule: fill_range.induct) (auto simp: nth_list_update)

lemma fold_list_update:
  "n \<le> length xs \<Longrightarrow> fold (\<lambda>i xs. xs[i := f i]) [0..<n] xs = map f [0..<n] @ drop n xs"
proof (induction n)
  case (Suc n)
  then have "drop n xs = xs ! n # drop (Suc n) xs" by (simp add: Cons_nth_drop_Suc)
  with Suc show ?case by (simp add: list_update_append)
qed simp

lemma find_first_eq:
  assumes "find_first P k xs \<noteq> -1"
  shows "\<exists>i < length xs. find_first P k xs = int (k + i) \<and> P (xs ! i) \<and> (\<forall>j < i. \<not> P (xs ! j))"
  using assms
proof (induction xs arbitrary: k)
  case (Cons x xs)
  show ?case
  proof (cases "P x")
    case False
    with Cons obtain i where "i < length xs" "find_first P (Suc k) xs = int (Suc k + i)" "P (xs ! i)"
      "\<forall>j < i. \<not> P (xs ! j)"
      by fastforce
    with False show ?thesis by (intro exI [of _ "Suc i"]) (auto simp: less_Suc_eq_0_disj)
  qed (auto intro: exI [of _ 0])
qed simp

lemma find_first_none: "find_first P k xs = -1 \<longleftrightarrow> (\<forall>x \<in> set xs. \<not> P x)"
  by (induction P k xs rule: find_first.induct) auto

lemma find_first_unique:
  "i < length xs \<Longrightarrow> P (xs ! i) \<Longrightarrow> \<forall>j < i. \<not> P (xs ! j) \<Longrightarrow> find_first P k xs = int (k + i)"
proof (induction xs arbitrary: i k)
  case (Cons x xs)
  show ?case
  proof (cases i)
    case 0
    then show ?thesis using Cons.prems by simp
  next
    case (Suc i')
    then have "\<not> P x" "\<forall>j < i'. \<not> P (xs ! j)" using Cons.prems(3) by force+
    then show ?thesis using Cons.IH [of i' "Suc k"] Cons.prems(1,2) Suc by simp
  qed
qed simp

section \<open>Lemmas on words and pages\<close>

lemma page_frame_mask: "(PAGE_FRAME :: u32) = NOT (mask 12)"
  by (simp add: mask_eq_exp_minus_1)

lemma take_bit_12_mod: "unat (take_bit 12 (x :: u32)) = unat x mod 4096"
  by (simp add: take_bit_eq_mod unat_mod)

lemma page_base_sub: "x AND PAGE_FRAME = x - take_bit 12 x"
proof -
  have "(x AND NOT (mask 12)) + take_bit 12 x = (x AND NOT (mask 12)) OR take_bit 12 x"
    by (rule disjunctive_add) (auto simp: bit_simps)
  also have "\<dots> = x" by (rule bit_eqI) (auto simp: bit_simps)
  finally show ?thesis by (simp only: page_frame_mask) (metis add_diff_cancel)
qed

lemma unat_page_offset: "unat (x AND NOT PAGE_FRAME) = unat x mod 4096"
proof -
  have "x AND NOT PAGE_FRAME = take_bit 12 x"
    by (simp only: page_frame_mask bit.double_compl take_bit_eq_mask)
  then show ?thesis by (simp only: take_bit_12_mod)
qed

lemma unat_page_base: "unat (x AND PAGE_FRAME) = unat x div 4096 * 4096"
proof -
  have "take_bit 12 x \<le> x" by (simp add: word_le_nat_alt take_bit_12_mod)
  then have "unat (x - take_bit 12 x) = unat x - unat x mod 4096"
    by (simp add: unat_sub take_bit_12_mod)
  then show ?thesis by (simp add: page_base_sub minus_mod_eq_div_mult)
qed

lemma page_aligned_iff: "x AND PAGE_FRAME = x \<longleftrightarrow> 4096 dvd unat x"
  by (auto simp: word_unat_eq_iff unat_page_base dvd_eq_mod_eq_0 div_mult_mod_eq
      simp flip: minus_mod_eq_div_mult)

lemma unat_div_page: "unat (x div PAGE_SIZE) = unat x div 4096"
  by (simp add: unat_div)

lemma uint_less_of_unat: "unat (n :: u32) < numeral k \<Longrightarrow> uint n < numeral k"
  using of_nat_less_iff [of "unat n" "numeral k", where 'a = int] by simp

lemma sint_small:
  assumes "unat (n :: u32) < 2 ^ 31"
  shows "sint n = int (unat n)"
proof -
  have "uint n < 2 ^ 31" using assms by (simp add: uint_less_of_unat)
  moreover have "- (2 ^ 31) \<le> uint n" by (rule order_trans [OF _ uint_ge_0]) simp
  ultimately have "signed_take_bit 31 (uint n) = uint n" by (intro signed_take_bit_int_eq_self)
  then show ?thesis by (simp add: sint_uint)
qed

end
