(* ===== verification/Spinlock.thy ===== *)
theory Spinlock
  imports Kernel_Prelude
begin

text \<open>
  Interrupt levels (\<^verbatim>\<open>kern/thread/spl.c\<close>) and spinlocks (\<^verbatim>\<open>kern/thread/spinlock.c\<close>). The state
  of the CPU and of its current thread is the base record that every stateful component of the
  kernel extends. A second model of the same lock, a step relation over any number of CPUs that
  interleave the instructions of \<^verbatim>\<open>spinlock_acquire\<close> and \<^verbatim>\<open>spinlock_release\<close>, carries the mutual
  exclusion property.
\<close>

section \<open>CPU state and interrupt levels\<close>

record cpu_state =
  curcpu_exists :: bool
  c_self :: nat
  c_spinlocks :: nat
  t_curspl :: int
  t_iplhigh_count :: int
  t_in_interrupt :: bool
  irqs_on :: bool

abbreviation (input) IPL_NONE :: int where "IPL_NONE \<equiv> 0"
abbreviation (input) IPL_HIGH :: int where "IPL_HIGH \<equiv> 1"

definition splraise :: "int \<Rightarrow> int \<Rightarrow> 'a cpu_state_scheme \<Rightarrow> 'a cpu_state_scheme kres" where
  "splraise oldspl newspl s =
     kassert (oldspl = IPL_NONE) ''oldspl == IPL_NONE'' (
     kassert (newspl = IPL_HIGH) ''newspl == IPL_HIGH'' (
     if \<not> curcpu_exists s then Inr s
     else
       let s = (if t_iplhigh_count s = 0 then s\<lparr>irqs_on := False\<rparr> else s)
       in Inr (s\<lparr>t_iplhigh_count := t_iplhigh_count s + 1\<rparr>)))"

definition spllower :: "int \<Rightarrow> int \<Rightarrow> 'a cpu_state_scheme \<Rightarrow> 'a cpu_state_scheme kres" where
  "spllower oldspl newspl s =
     kassert (oldspl = IPL_HIGH) ''oldspl == IPL_HIGH'' (
     kassert (newspl = IPL_NONE) ''newspl == IPL_NONE'' (
     if \<not> curcpu_exists s then Inr s
     else
       let s = s\<lparr>t_iplhigh_count := t_iplhigh_count s - 1\<rparr>
       in Inr (if t_iplhigh_count s = 0 then s\<lparr>irqs_on := True\<rparr> else s)))"

definition splx :: "int \<Rightarrow> 'a cpu_state_scheme \<Rightarrow> (int \<times> 'a cpu_state_scheme) kres" where
  "splx spl s =
     (if \<not> curcpu_exists s then Inr (spl, s)
      else if t_curspl s < spl then
        sbind (splraise (t_curspl s) spl s) (\<lambda>s. Inr (t_curspl s, s\<lparr>t_curspl := spl\<rparr>))
      else if t_curspl s > spl then
        (let ret = t_curspl s
         in sbind (spllower ret spl (s\<lparr>t_curspl := spl\<rparr>)) (\<lambda>s. Inr (ret, s)))
      else Inr (spl, s))"

section \<open>Spinlocks\<close>

record spinlock =
  splk_lock :: u32
  splk_holder :: "nat option"

definition spinlock_init :: spinlock where
  "spinlock_init = \<lparr>splk_lock = 0, splk_holder = None\<rparr>"

definition spinlock_cleanup :: "spinlock \<Rightarrow> unit kres" where
  "spinlock_cleanup splk =
     kassert (splk_holder splk = None) ''splk_holder == NULL'' (
     kassert (splk_lock splk = 0) ''splk_lock == 0'' (Inr ()))"

text \<open>
  The test-and-set loop. The other CPUs do not move in a sequential run, so a set lock word is
  never cleared again.
\<close>

definition spinlock_spin ::
  "nat option \<Rightarrow> spinlock \<Rightarrow> 'a cpu_state_scheme \<Rightarrow> (spinlock \<times> 'a cpu_state_scheme) kres" where
  "spinlock_spin mycpu splk s =
     (if splk_lock splk \<noteq> 0 then Inl Spinning
      else Inr (splk\<lparr>splk_lock := 1, splk_holder := mycpu\<rparr>, s))"

definition spinlock_acquire ::
  "spinlock \<Rightarrow> 'a cpu_state_scheme \<Rightarrow> (spinlock \<times> 'a cpu_state_scheme) kres" where
  "spinlock_acquire splk s =
     sbind (splraise IPL_NONE IPL_HIGH s) (\<lambda>s.
       if curcpu_exists s then
         (if splk_holder splk = Some (c_self s) then Inl (Panic ''Deadlock on spinlock'')
          else spinlock_spin (Some (c_self s)) splk (s\<lparr>c_spinlocks := c_spinlocks s + 1\<rparr>))
       else spinlock_spin None splk s)"

definition spinlock_release ::
  "spinlock \<Rightarrow> 'a cpu_state_scheme \<Rightarrow> (spinlock \<times> 'a cpu_state_scheme) kres" where
  "spinlock_release splk s =
     sbind (if curcpu_exists s then
              kassert (splk_holder splk = Some (c_self s)) ''splk_holder == curcpu->c_self'' (
              kassert (c_spinlocks s > 0) ''c_spinlocks > 0'' (
              Inr (s\<lparr>c_spinlocks := c_spinlocks s - 1\<rparr>)))
            else Inr s) (\<lambda>s.
     let splk = splk\<lparr>splk_holder := None, splk_lock := 0\<rparr>
     in sbind (spllower IPL_HIGH IPL_NONE s) (\<lambda>s. Inr (splk, s)))"

definition spinlock_do_i_hold :: "spinlock \<Rightarrow> 'a cpu_state_scheme \<Rightarrow> bool" where
  "spinlock_do_i_hold splk s =
     (if \<not> curcpu_exists s then True else splk_holder splk = Some (c_self s))"

text \<open>A lock that lives in a field of the state, given by the field's selector and update.\<close>

definition lock_acq ::
  "('a cpu_state_scheme \<Rightarrow> spinlock) \<Rightarrow>
   ((spinlock \<Rightarrow> spinlock) \<Rightarrow> 'a cpu_state_scheme \<Rightarrow> 'a cpu_state_scheme) \<Rightarrow>
   'a cpu_state_scheme \<Rightarrow> 'a cpu_state_scheme kres" where
  "lock_acq get upd s = sbind (spinlock_acquire (get s) s) (\<lambda>(lk, s). Inr (upd (\<lambda>_. lk) s))"

definition lock_rel ::
  "('a cpu_state_scheme \<Rightarrow> spinlock) \<Rightarrow>
   ((spinlock \<Rightarrow> spinlock) \<Rightarrow> 'a cpu_state_scheme \<Rightarrow> 'a cpu_state_scheme) \<Rightarrow>
   'a cpu_state_scheme \<Rightarrow> 'a cpu_state_scheme kres" where
  "lock_rel get upd s = sbind (spinlock_release (get s) s) (\<lambda>(lk, s). Inr (upd (\<lambda>_. lk) s))"

text \<open>What a successful acquisition and release do to the CPU and to the lock field.\<close>

definition cpu_hold :: "'a cpu_state_scheme \<Rightarrow> 'a cpu_state_scheme" where
  "cpu_hold s = s\<lparr>irqs_on := False, t_iplhigh_count := t_iplhigh_count s + 1,
                  c_spinlocks := c_spinlocks s + 1\<rparr>"

definition cpu_unhold :: "'a cpu_state_scheme \<Rightarrow> 'a cpu_state_scheme" where
  "cpu_unhold s = s\<lparr>irqs_on := (t_iplhigh_count s = 1 \<or> irqs_on s),
                    t_iplhigh_count := t_iplhigh_count s - 1, c_spinlocks := c_spinlocks s - 1\<rparr>"

definition cpu_ok :: "'a cpu_state_scheme \<Rightarrow> bool" where
  "cpu_ok s \<longleftrightarrow> curcpu_exists s \<and> 0 \<le> t_iplhigh_count s \<and> (t_iplhigh_count s = 0 \<longleftrightarrow> irqs_on s)"

definition held_by :: "nat \<Rightarrow> spinlock" where
  "held_by c = \<lparr>splk_lock = 1, splk_holder = Some c\<rparr>"

definition lock_enter ::
  "((spinlock \<Rightarrow> spinlock) \<Rightarrow> 'a cpu_state_scheme \<Rightarrow> 'a cpu_state_scheme) \<Rightarrow>
   'a cpu_state_scheme \<Rightarrow> 'a cpu_state_scheme" where
  "lock_enter upd s = upd (\<lambda>_. held_by (c_self s)) (cpu_hold s)"

definition lock_leave ::
  "((spinlock \<Rightarrow> spinlock) \<Rightarrow> 'a cpu_state_scheme \<Rightarrow> 'a cpu_state_scheme) \<Rightarrow>
   'a cpu_state_scheme \<Rightarrow> 'a cpu_state_scheme" where
  "lock_leave upd s = upd (\<lambda>_. spinlock_init) (cpu_unhold s)"

section \<open>Several CPUs on one lock\<close>

text \<open>
  Where a CPU is in \<^verbatim>\<open>spinlock_acquire\<close> and \<^verbatim>\<open>spinlock_release\<close>: before the call, before the plain
  read of the lock word, before the atomic test-and-set, before the store of \<^verbatim>\<open>splk_holder\<close>, in
  the critical section, and between the two stores of the release.
\<close>

datatype splk_pc = Outside | ReadWord | TestAndSet | StoreHolder | Critical | ClearWord

record smp =
  smp_lock :: spinlock
  smp_pc :: "nat \<Rightarrow> splk_pc"

definition smp_init :: smp where
  "smp_init = \<lparr>smp_lock = spinlock_init, smp_pc = (\<lambda>_. Outside)\<rparr>"

inductive smp_step :: "smp \<Rightarrow> smp \<Rightarrow> bool" where
  enter: "smp_pc s i = Outside \<Longrightarrow> splk_holder (smp_lock s) \<noteq> Some i \<Longrightarrow>
    smp_step s (s\<lparr>smp_pc := (smp_pc s)(i := ReadWord)\<rparr>)"
| read_free: "smp_pc s i = ReadWord \<Longrightarrow> splk_lock (smp_lock s) = 0 \<Longrightarrow>
    smp_step s (s\<lparr>smp_pc := (smp_pc s)(i := TestAndSet)\<rparr>)"
| read_busy: "smp_pc s i = ReadWord \<Longrightarrow> splk_lock (smp_lock s) \<noteq> 0 \<Longrightarrow> smp_step s s"
| tas_lost: "smp_pc s i = TestAndSet \<Longrightarrow> splk_lock (smp_lock s) \<noteq> 0 \<Longrightarrow>
    smp_step s (s\<lparr>smp_lock := (smp_lock s)\<lparr>splk_lock := 1\<rparr>,
                  smp_pc := (smp_pc s)(i := ReadWord)\<rparr>)"
| tas_won: "smp_pc s i = TestAndSet \<Longrightarrow> splk_lock (smp_lock s) = 0 \<Longrightarrow>
    smp_step s (s\<lparr>smp_lock := (smp_lock s)\<lparr>splk_lock := 1\<rparr>,
                  smp_pc := (smp_pc s)(i := StoreHolder)\<rparr>)"
| store_holder: "smp_pc s i = StoreHolder \<Longrightarrow>
    smp_step s (s\<lparr>smp_lock := (smp_lock s)\<lparr>splk_holder := Some i\<rparr>,
                  smp_pc := (smp_pc s)(i := Critical)\<rparr>)"
| clear_holder: "smp_pc s i = Critical \<Longrightarrow> splk_holder (smp_lock s) = Some i \<Longrightarrow>
    smp_step s (s\<lparr>smp_lock := (smp_lock s)\<lparr>splk_holder := None\<rparr>,
                  smp_pc := (smp_pc s)(i := ClearWord)\<rparr>)"
| clear_word: "smp_pc s i = ClearWord \<Longrightarrow>
    smp_step s (s\<lparr>smp_lock := (smp_lock s)\<lparr>splk_lock := 0\<rparr>,
                  smp_pc := (smp_pc s)(i := Outside)\<rparr>)"

inductive smp_reachable :: "smp \<Rightarrow> bool" where
  smp_start: "smp_reachable smp_init"
| smp_next: "smp_reachable s \<Longrightarrow> smp_step s t \<Longrightarrow> smp_reachable t"

definition owns :: "smp \<Rightarrow> nat \<Rightarrow> bool" where
  "owns s i \<longleftrightarrow> smp_pc s i \<in> {StoreHolder, Critical, ClearWord}"

definition smp_inv :: "smp \<Rightarrow> bool" where
  "smp_inv s \<longleftrightarrow>
     (\<forall>i j. owns s i \<longrightarrow> owns s j \<longrightarrow> i = j) \<and>
     (\<forall>i. owns s i \<longrightarrow> splk_lock (smp_lock s) \<noteq> 0) \<and>
     (\<forall>i. splk_holder (smp_lock s) = Some i \<longleftrightarrow> smp_pc s i = Critical)"

section \<open>Sequential lemmas\<close>

lemma cpu_ok_hold [simp]: "cpu_ok s \<Longrightarrow> cpu_ok (cpu_hold s)"
  by (auto simp: cpu_ok_def cpu_hold_def)

lemma cpu_ok_count: "cpu_ok s \<Longrightarrow> (t_iplhigh_count s = 0) = irqs_on s"
  by (simp add: cpu_ok_def)

lemma cpu_unhold_hold [simp]: "cpu_ok s \<Longrightarrow> cpu_unhold (cpu_hold s) = s"
  by (simp add: cpu_unhold_def cpu_hold_def cpu_ok_count)

lemma spinlock_acquire_free:
  "cpu_ok s \<Longrightarrow> spinlock_acquire spinlock_init s = Inr (held_by (c_self s), cpu_hold s)"
  by (auto simp: spinlock_acquire_def splraise_def spinlock_spin_def spinlock_init_def held_by_def
      cpu_hold_def cpu_ok_def Let_def)

lemma spinlock_acquire_held:
  "curcpu_exists s \<Longrightarrow>
     spinlock_acquire (held_by (c_self s)) s = Inl (Panic ''Deadlock on spinlock'')"
  by (auto simp: spinlock_acquire_def splraise_def held_by_def Let_def)

lemma spinlock_release_held:
  "curcpu_exists s \<Longrightarrow> 0 < c_spinlocks s \<Longrightarrow>
     spinlock_release (held_by (c_self s)) s = Inr (spinlock_init, cpu_unhold s)"
  by (auto simp: spinlock_release_def spllower_def spinlock_init_def held_by_def cpu_unhold_def
      Let_def)

text \<open>
  The interface of a lock field: the update writes the field and nothing of the CPU. Acquire and
  release of any such lock then have the closed form of \<open>lock_enter\<close> and \<open>lock_leave\<close>.
\<close>

locale lock_field =
  fixes get :: "'a cpu_state_scheme \<Rightarrow> spinlock"
    and upd :: "(spinlock \<Rightarrow> spinlock) \<Rightarrow> 'a cpu_state_scheme \<Rightarrow> 'a cpu_state_scheme"
  assumes get_upd: "get (upd f s) = f (get s)"
    and upd_upd: "upd f (upd g s) = upd (\<lambda>x. f (g x)) s"
    and upd_get: "upd (\<lambda>_. get s) s = s"
    and get_cpu: "get (cpu_hold s) = get s" "get (cpu_unhold s) = get s"
    and upd_hold: "cpu_hold (upd f s) = upd f (cpu_hold s)"
    and upd_unhold: "cpu_unhold (upd f s) = upd f (cpu_unhold s)"
    and upd_cpu: "curcpu_exists (upd f s) = curcpu_exists s" "c_self (upd f s) = c_self s"
      "c_spinlocks (upd f s) = c_spinlocks s"
begin

lemma acq: "cpu_ok s \<Longrightarrow> get s = spinlock_init \<Longrightarrow> lock_acq get upd s = Inr (lock_enter upd s)"
  by (simp add: lock_acq_def lock_enter_def spinlock_acquire_free)

lemma acq_held:
  "curcpu_exists s \<Longrightarrow> get s = held_by (c_self s) \<Longrightarrow>
     lock_acq get upd s = Inl (Panic ''Deadlock on spinlock'')"
  by (simp add: lock_acq_def spinlock_acquire_held)

lemma rel:
  "curcpu_exists s \<Longrightarrow> 0 < c_spinlocks s \<Longrightarrow> get s = held_by (c_self s) \<Longrightarrow>
     lock_rel get upd s = Inr (lock_leave upd s)"
  by (simp add: lock_rel_def lock_leave_def spinlock_release_held)

lemma get_enter [simp]: "get (lock_enter upd s) = held_by (c_self s)"
  by (simp add: lock_enter_def get_upd)

lemma cpu_enter [simp]:
  "curcpu_exists (lock_enter upd s) = curcpu_exists s" "c_self (lock_enter upd s) = c_self s"
  "c_spinlocks (lock_enter upd s) = Suc (c_spinlocks s)"
  by (simp_all add: lock_enter_def upd_cpu cpu_hold_def)

lemma leave_enter:
  "cpu_ok s \<Longrightarrow> get s = spinlock_init \<Longrightarrow> lock_leave upd (lock_enter upd s) = s"
  by (simp add: lock_leave_def lock_enter_def upd_unhold upd_upd) (metis upd_get)

lemma rel_enter:
  assumes "cpu_ok s" and "get s = spinlock_init"
  shows "lock_rel get upd (lock_enter upd s) = Inr s"
proof -
  have "curcpu_exists s" using assms(1) by (simp add: cpu_ok_def)
  then show ?thesis using assms by (simp add: rel leave_enter)
qed

text \<open>A change of the state inside the critical section that does not touch the lock or the CPU.\<close>

lemma rel_mod:
  assumes "cpu_ok (g s)" and "get (g s) = spinlock_init"
    and "g (lock_enter upd s) = lock_enter upd (g s)"
  shows "lock_rel get upd (g (lock_enter upd s)) = Inr (g s)"
  unfolding assms(3) by (rule rel_enter [OF assms(1,2)])

lemma acq_rel:
  assumes "cpu_ok s" and "get s = spinlock_init"
  shows "sbind (lock_acq get upd s) (lock_rel get upd) = Inr s"
  using assms by (simp add: acq rel_enter)

end

section \<open>Interleaved lemmas\<close>

inductive_cases smp_stepE: "smp_step s t"

lemma smp_inv_init: "smp_inv smp_init"
  by (simp add: smp_inv_def owns_def smp_init_def spinlock_init_def)

lemma smp_inv_step: "smp_step s t \<Longrightarrow> smp_inv s \<Longrightarrow> smp_inv t"
  by (induction rule: smp_step.induct) (auto simp: smp_inv_def owns_def split: if_splits)

lemma smp_reachable_inv: "smp_reachable s \<Longrightarrow> smp_inv s"
  by (induction rule: smp_reachable.induct) (auto intro: smp_inv_init smp_inv_step)

section \<open>Properties\<close>

text \<open>C8: Two CPUs are never both past a successful acquisition of the same spinlock and before its
  release, whatever the interleaving, and \<^verbatim>\<open>splk_holder\<close> names the CPU that is in the critical section.\<close>

theorem spinlock_mutual_exclusion:
  assumes "smp_reachable s"
  shows "(\<forall>i j. smp_pc s i = Critical \<and> smp_pc s j = Critical \<longrightarrow> i = j) \<and>
    (\<forall>i. splk_holder (smp_lock s) = Some i \<longleftrightarrow> smp_pc s i = Critical)"
  using smp_reachable_inv [OF assms] unfolding smp_inv_def owns_def by blast

text \<open>A run in which CPU 1 enters the critical section while CPU 0 waits for the lock word.\<close>

definition smp_sample :: smp where
  "smp_sample = \<lparr>smp_lock = held_by 1, smp_pc = (\<lambda>_. Outside)(0 := ReadWord, 1 := Critical)\<rparr>"

lemma smp_sample_reachable: "smp_reachable smp_sample"
proof -
  let ?pc = "\<lambda>p q. (\<lambda>_. Outside)(0 := p, 1 := q)"
  have "smp_reachable \<lparr>smp_lock = spinlock_init, smp_pc = (\<lambda>_. Outside)(0 := ReadWord)\<rparr>"
    using smp_next [OF smp_start smp_step.enter [of smp_init 0]]
    by (simp add: smp_init_def spinlock_init_def)
  from smp_next [OF this smp_step.enter [of _ 1]]
  have "smp_reachable \<lparr>smp_lock = spinlock_init, smp_pc = ?pc ReadWord ReadWord\<rparr>"
    by (simp add: spinlock_init_def)
  from smp_next [OF this smp_step.read_free [of _ 1]]
  have "smp_reachable \<lparr>smp_lock = spinlock_init, smp_pc = ?pc ReadWord TestAndSet\<rparr>"
    by (simp add: spinlock_init_def)
  from smp_next [OF this smp_step.tas_won [of _ 1]]
  have "smp_reachable \<lparr>smp_lock = \<lparr>splk_lock = 1, splk_holder = None\<rparr>,
      smp_pc = ?pc ReadWord StoreHolder\<rparr>"
    by (simp add: spinlock_init_def)
  from smp_next [OF this smp_step.store_holder [of _ 1]]
  show ?thesis by (simp add: smp_sample_def held_by_def)
qed

theorem spinlock_mutual_exclusion_witness:
  "smp_pc smp_sample 1 = Critical \<and> splk_holder (smp_lock smp_sample) = Some 1"
  using spinlock_mutual_exclusion [OF smp_sample_reachable] by (simp add: smp_sample_def)

text \<open>On one CPU, an acquisition of a free lock succeeds with interrupts off and the lock held;
  acquiring it again panics; and releasing it gives back the lock, the lock count, the interrupt
  level count and the interrupt flag exactly as they were.\<close>

lemma spinlock_acquire_release:
  assumes "cpu_ok s"
  shows "\<exists>lk t. spinlock_acquire spinlock_init s = Inr (lk, t) \<and> \<not> irqs_on t \<and>
    spinlock_do_i_hold lk t \<and> spinlock_acquire lk t = Inl (Panic ''Deadlock on spinlock'') \<and>
    spinlock_release lk t = Inr (spinlock_init, s)"
proof -
  have s: "curcpu_exists s" using assms by (simp add: cpu_ok_def)
  have "spinlock_acquire (held_by (c_self s)) (cpu_hold s) = Inl (Panic ''Deadlock on spinlock'')"
    using s spinlock_acquire_held [of "cpu_hold s"] by (simp add: cpu_hold_def)
  moreover have "spinlock_release (held_by (c_self s)) (cpu_hold s) = Inr (spinlock_init, s)"
    using s assms spinlock_release_held [of "cpu_hold s"] cpu_unhold_hold [OF assms]
    by (simp add: cpu_hold_def)
  ultimately show ?thesis
    using assms s
    by (simp add: spinlock_acquire_free spinlock_do_i_hold_def held_by_def cpu_hold_def)
qed

definition cpu_sample :: cpu_state where
  "cpu_sample = \<lparr>curcpu_exists = True, c_self = 0, c_spinlocks = 0, t_curspl = 0,
     t_iplhigh_count = 0, t_in_interrupt = False, irqs_on = True\<rparr>"

end
