(* ===== verification/Ram.thy ===== *)
theory Ram
  imports Spinlock
begin

text \<open>
  Physical memory before the VM system takes over (\<^verbatim>\<open>kern/arch/mips/vm/ram.c\<close>): a watermark
  \<^verbatim>\<open>firstpaddr\<close> that \<^verbatim>\<open>ram_stealmem\<close> moves up towards \<^verbatim>\<open>lastpaddr\<close>. The RAM size that the bus
  reports and the first free address that \<^verbatim>\<open>start.S\<close> leaves are arguments.
\<close>

record ram_state = cpu_state +
  firstpaddr :: paddr
  lastpaddr :: paddr

definition ram_bootstrap :: "u32 \<Rightarrow> vaddr \<Rightarrow> 'a ram_state_scheme \<Rightarrow> 'a ram_state_scheme" where
  "ram_bootstrap mainbus_ramsize firstfree s =
     (let ramsize = mainbus_ramsize;
          ramsize = (if ramsize > 512 * 1024 * 1024 then 512 * 1024 * 1024 else ramsize)
      in s\<lparr>lastpaddr := ramsize, firstpaddr := firstfree - MIPS_KSEG0\<rparr>)"

definition ram_stealmem :: "u32 \<Rightarrow> 'a ram_state_scheme \<Rightarrow> paddr \<times> 'a ram_state_scheme" where
  "ram_stealmem npages s =
     (let size = npages * PAGE_SIZE
      in if firstpaddr s + size > lastpaddr s then (0, s)
         else
           let paddr = firstpaddr s
           in (paddr, s\<lparr>firstpaddr := firstpaddr s + size\<rparr>))"

definition ram_getsize :: "'a ram_state_scheme \<Rightarrow> paddr" where
  "ram_getsize s = lastpaddr s"

definition ram_getfirstfree :: "'a ram_state_scheme \<Rightarrow> paddr \<times> 'a ram_state_scheme" where
  "ram_getfirstfree s =
     (let ret = firstpaddr s in (ret, s\<lparr>firstpaddr := 0, lastpaddr := 0\<rparr>))"

text \<open>The watermark is page aligned, inside the RAM, and the RAM is within \<^verbatim>\<open>kseg0\<close>.\<close>

definition ram_inv :: "'a ram_state_scheme \<Rightarrow> bool" where
  "ram_inv s \<longleftrightarrow> 4096 dvd unat (firstpaddr s) \<and> firstpaddr s \<le> lastpaddr s \<and>
     unat (lastpaddr s) \<le> 512 * 1024 * 1024"

section \<open>Lemmas\<close>

lemma unat_pages:
  assumes "unat n < 2 ^ 19"
  shows "unat (n * PAGE_SIZE :: u32) = unat n * 4096"
  using assms by (simp add: unat_mult_lem [THEN iffD1])

lemma unat_add_pages:
  assumes "unat n < 2 ^ 19" and "unat a \<le> 512 * 1024 * 1024"
  shows "unat (a + n * PAGE_SIZE :: u32) = unat a + unat n * 4096"
  using assms unat_pages [OF assms(1)] by (simp add: unat_add_lem [THEN iffD1])

lemma ram_stealmem_cases:
  assumes "ram_inv s" and "unat n < 2 ^ 19"
  obtains
    (full) "unat (firstpaddr s) + unat n * 4096 > unat (lastpaddr s)" "ram_stealmem n s = (0, s)"
  | (ok) "unat (firstpaddr s) + unat n * 4096 \<le> unat (lastpaddr s)"
      "ram_stealmem n s = (firstpaddr s, s\<lparr>firstpaddr := firstpaddr s + n * PAGE_SIZE\<rparr>)"
      "unat (firstpaddr s + n * PAGE_SIZE) = unat (firstpaddr s) + unat n * 4096"
proof -
  have "unat (firstpaddr s) \<le> 512 * 1024 * 1024"
    using assms(1) by (simp add: ram_inv_def word_le_nat_alt)
  note sum = unat_add_pages [OF assms(2) this]
  show thesis
  proof (cases "unat (firstpaddr s) + unat n * 4096 > unat (lastpaddr s)")
    case True
    then show thesis
      using full sum by (simp add: ram_stealmem_def Let_def word_less_nat_alt)
  next
    case False
    then show thesis
      using ok sum by (simp add: ram_stealmem_def Let_def word_less_nat_alt)
  qed
qed

lemma ram_stealmem_inv:
  assumes "ram_inv s" and "unat n < 2 ^ 19"
  shows "ram_inv (snd (ram_stealmem n s))"
  using assms
proof (cases rule: ram_stealmem_cases)
  case full
  with assms show ?thesis by simp
next
  case ok
  with assms show ?thesis by (simp add: ram_inv_def word_le_nat_alt)
qed

section \<open>Properties\<close>

text \<open>A request of fewer than \<open>2 ^ 19\<close> pages is refused exactly when the pages do not fit below
  \<^verbatim>\<open>lastpaddr\<close>, and then changes nothing; otherwise the block starts at the old watermark, ends at the
  new one, and the watermark stays page aligned and within the RAM.\<close>

lemma ram_stealmem_correct:
  assumes "ram_inv s" and "unat n < 2 ^ 19" and "ram_stealmem n s = (p, s')"
  shows "ram_inv s' \<and> lastpaddr s' = lastpaddr s \<and>
    (if unat (firstpaddr s) + unat n * 4096 > unat (lastpaddr s) then p = 0 \<and> s' = s
     else p = firstpaddr s \<and> unat (firstpaddr s') = unat p + unat n * 4096)"
  using assms(1,2)
proof (cases rule: ram_stealmem_cases)
  case full
  with assms show ?thesis by simp
next
  case ok
  with assms ram_stealmem_inv [OF assms(1,2)] show ?thesis by auto
qed

definition ram_sample :: ram_state where
  "ram_sample = cpu_state.extend cpu_sample \<lparr>firstpaddr = 0x2000, lastpaddr = 0x8000\<rparr>"

lemma ram_sample_inv: "ram_inv ram_sample"
  by (simp add: ram_inv_def ram_sample_def cpu_state.extend_def)

text \<open>The size computation \<^verbatim>\<open>npages * PAGE_SIZE\<close> wraps at 32 bits: a request for \<open>2 ^ 20\<close>
  pages (4 GB) is granted in any RAM, with a block of length zero.\<close>

lemma ram_stealmem_wraps:
  assumes "ram_inv s"
  shows "ram_stealmem 0x100000 s = (firstpaddr s, s)"
proof -
  have "(0x100000 * PAGE_SIZE :: u32) = 0" by (simp add: word_unat_eq_iff)
  then show ?thesis
    using assms by (simp only: ram_stealmem_def Let_def) (auto simp: ram_inv_def)
qed

end
