(* ===== verification/Coremap.thy ===== *)
theory Coremap
  imports Ram
begin

text \<open>
  The physical frame allocator (\<^verbatim>\<open>kern/vm/coremap.c\<close>): a byte per frame that says whether the frame
  was freed, the length of every allocation at its first frame, and \<^verbatim>\<open>ram_stealmem\<close> as the
  fallback. The interface that the rest of the VM system relies on is the locale
  \<open>frame_allocator\<close>: frames that are handed out stay disjoint over any sequence of calls.
\<close>

section \<open>State and operations\<close>

record coremap_state = ram_state +
  freeRamFrames :: "u8 list option"
  allocSize :: "u32 list option"
  nRamFrames :: int
  allocTableActive :: int
  freemem_lock :: spinlock
  stealmem_lock :: spinlock

text \<open>\<^verbatim>\<open>kmalloc\<close>, which is built on these operations, is an argument here; it is closed with the \<^verbatim>\<open>kmalloc\<close> of the
  kernel in the theory \<open>Coremap_Boot\<close>.\<close>

definition coremap_bootstrap ::
  "(u32 \<Rightarrow> 'a coremap_state_scheme \<Rightarrow> (vaddr \<times> 'a coremap_state_scheme) kres) \<Rightarrow>
   'a coremap_state_scheme \<Rightarrow> 'a coremap_state_scheme kres" where
  "coremap_bootstrap kmalloc s =
     (let s = s\<lparr>nRamFrames := sint (ram_getsize s) sdiv 4096\<rparr>
      in sbind (kmalloc (of_int (nRamFrames s)) s) (\<lambda>(p1, s).
         sbind (kmalloc (4 * of_int (nRamFrames s)) s) (\<lambda>(p2, s).
         if p1 = 0 \<or> p2 = 0 then
           Inl (Panic ''coremap.c: error creating freeRamFrames or allocSize'')
         else
           let s = s\<lparr>freeRamFrames := Some (replicate (nat (nRamFrames s)) 0),
                     allocSize := Some (replicate (nat (nRamFrames s)) 0)\<rparr>
           in sbind (lock_acq freemem_lock freemem_lock_update s) (\<lambda>s.
              lock_rel freemem_lock freemem_lock_update (s\<lparr>allocTableActive := 1\<rparr>)))))"

definition isTableActive :: "'a coremap_state_scheme \<Rightarrow> (int \<times> 'a coremap_state_scheme) kres" where
  "isTableActive s =
     sbind (lock_acq freemem_lock freemem_lock_update s) (\<lambda>s.
     let active = allocTableActive s
     in sbind (lock_rel freemem_lock freemem_lock_update s) (\<lambda>s. Inr (active, s)))"

text \<open>
  The search loop of \<^verbatim>\<open>getfreeppages\<close>: \<open>first\<close> is the start of the current run of free frames, the
  result is the start of the first run of \<open>np\<close> frames, or \<open>-1\<close>.
\<close>

function free_run :: "u8 list \<Rightarrow> nat \<Rightarrow> int \<Rightarrow> nat \<Rightarrow> int \<Rightarrow> int" where
  "free_run fr n np i first =
     (if i < n then
        if fr ! i \<noteq> 0 then
          let first = (if i = 0 \<or> fr ! (i - 1) = 0 then int i else first)
          in if int i - first + 1 \<ge> np then first else free_run fr n np (Suc i) first
        else free_run fr n np (Suc i) first
      else -1)"
  by pat_completeness auto
termination
  by (relation "measure (\<lambda>(fr, n, np, i, first). n - i)") auto

declare free_run.simps [simp del]

definition getfreeppages ::
  "u32 \<Rightarrow> 'a coremap_state_scheme \<Rightarrow> (paddr \<times> 'a coremap_state_scheme) kres" where
  "getfreeppages npages s =
     sbind (isTableActive s) (\<lambda>(active, s).
     if active = 0 then Inr (0, s)
     else
       sbind (lock_acq freemem_lock freemem_lock_update s) (\<lambda>s.
       case (freeRamFrames s, allocSize s) of
         (Some fr, Some az) \<Rightarrow>
           let np = sint npages; n = nat (nRamFrames s)
           in if length fr < n \<or> length az < n then Inl (Undefined ''frame table index'')
              else
                let found = free_run fr n np 0 (-1);
                    (addr, s) =
                      (if found \<ge> 0 then
                         (of_int found * PAGE_SIZE,
                          s\<lparr>freeRamFrames := Some (fill_range (nat found) (nat np) 0 fr),
                            allocSize := Some (az[nat found := of_int np])\<rparr>)
                       else (0, s))
                in sbind (lock_rel freemem_lock freemem_lock_update s) (\<lambda>s. Inr (addr, s))
       | _ \<Rightarrow> Inl (Undefined ''null frame table'')))"

definition freeppages ::
  "paddr \<Rightarrow> 'a coremap_state_scheme \<Rightarrow> (int \<times> 'a coremap_state_scheme) kres" where
  "freeppages addr s =
     sbind (isTableActive s) (\<lambda>(active, s).
     if active = 0 then Inr (0, s)
     else
       let first = unat (addr div PAGE_SIZE)
       in kassert (allocSize s \<noteq> None) ''allocSize!=NULL'' (
          kassert (nRamFrames s > int first) ''nRamFrames>first'' (
          if length (the (allocSize s)) \<le> first then Inl (Undefined ''allocSize index'')
          else
            let np = sint (the (allocSize s) ! first)
            in sbind (lock_acq freemem_lock freemem_lock_update s) (\<lambda>s.
               case freeRamFrames s of
                 None \<Rightarrow> Inl (Undefined ''null frame table'')
               | Some fr \<Rightarrow>
                   if 0 < np \<and> length fr < first + nat np then Inl (Undefined ''freeRamFrames index'')
                   else
                     sbind (lock_rel freemem_lock freemem_lock_update
                              (s\<lparr>freeRamFrames := Some (fill_range first (nat np) 1 fr)\<rparr>)) (\<lambda>s.
                     Inr (1, s))))))"

text \<open>\<^verbatim>\<open>getppages\<close>: the fallback to \<^verbatim>\<open>ram_stealmem\<close>, the note of the allocation's length, and both.\<close>

definition steal_locked ::
  "u32 \<Rightarrow> 'a coremap_state_scheme \<Rightarrow> (paddr \<times> 'a coremap_state_scheme) kres" where
  "steal_locked npages s =
     sbind (lock_acq stealmem_lock stealmem_lock_update s) (\<lambda>s.
     let (addr, s) = ram_stealmem npages s
     in sbind (lock_rel stealmem_lock stealmem_lock_update s) (\<lambda>s. Inr (addr, s)))"

definition note_allocSize ::
  "u32 \<Rightarrow> paddr \<Rightarrow> 'a coremap_state_scheme \<Rightarrow> (paddr \<times> 'a coremap_state_scheme) kres" where
  "note_allocSize npages addr s =
     (if addr = 0 then Inr (addr, s)
      else
        sbind (isTableActive s) (\<lambda>(active, s).
        if active = 0 then Inr (addr, s)
        else
          sbind (lock_acq freemem_lock freemem_lock_update s) (\<lambda>s.
          case allocSize s of
            None \<Rightarrow> Inl (Undefined ''null frame table'')
          | Some az \<Rightarrow>
              let ix = unat (addr div PAGE_SIZE)
              in if length az \<le> ix then Inl (Undefined ''allocSize index'')
                 else
                   sbind (lock_rel freemem_lock freemem_lock_update
                            (s\<lparr>allocSize := Some (az[ix := npages])\<rparr>)) (\<lambda>s.
                   Inr (addr, s)))))"

definition getppages ::
  "u32 \<Rightarrow> 'a coremap_state_scheme \<Rightarrow> (paddr \<times> 'a coremap_state_scheme) kres" where
  "getppages npages s =
     sbind (getfreeppages npages s) (\<lambda>(addr, s).
     sbind (if addr = 0 then steal_locked npages s else Inr (addr, s)) (\<lambda>(addr, s).
     note_allocSize npages addr s))"

section \<open>The contract of a frame allocator\<close>

text \<open>
  \<open>live\<close> lists the regions (first frame, number of frames) that clients hold. A client asks for
  frames, or gives back one of the regions it holds.
\<close>

datatype frame_op = GetFrames u32 | PutFrames nat

fun run_frames ::
  "(u32 \<Rightarrow> 's \<Rightarrow> (paddr \<times> 's) kres) \<Rightarrow> (paddr \<Rightarrow> 's \<Rightarrow> (int \<times> 's) kres) \<Rightarrow>
   frame_op list \<Rightarrow> (nat \<times> nat) list \<Rightarrow> 's \<Rightarrow> ((nat \<times> nat) list \<times> 's) kres" where
  "run_frames alloc free [] live s = Inr (live, s)"
| "run_frames alloc free (GetFrames n # ops) live s =
     sbind (alloc n s) (\<lambda>(a, s).
       run_frames alloc free ops
         (if a = 0 then live else (unat a div 4096, unat n) # live) s)"
| "run_frames alloc free (PutFrames k # ops) live s =
     (if k < length live then
        sbind (free (of_nat (fst (live ! k)) * PAGE_SIZE) s) (\<lambda>(r, s).
          run_frames alloc free ops (take k live @ drop (Suc k) live) s)
      else run_frames alloc free ops live s)"

fun frame_op_ok :: "frame_op \<Rightarrow> bool" where
  "frame_op_ok (GetFrames n) = (0 < unat n \<and> unat n < 2 ^ 19)"
| "frame_op_ok (PutFrames k) = True"

fun region :: "nat \<times> nat \<Rightarrow> nat set" where
  "region (a, n) = {a..<a + n}"

fun regions_disjoint :: "(nat \<times> nat) list \<Rightarrow> bool" where
  "regions_disjoint [] = True"
| "regions_disjoint (r # rs) = ((\<forall>q \<in> set rs. region r \<inter> region q = {}) \<and> regions_disjoint rs)"

definition coremap_wf :: "'a coremap_state_scheme \<Rightarrow> bool" where
  "coremap_wf s \<longleftrightarrow> cpu_ok s \<and> freemem_lock s = spinlock_init \<and> stealmem_lock s = spinlock_init \<and>
     allocTableActive s = 1 \<and> ram_inv s \<and> 0 < unat (firstpaddr s) \<and>
     0 \<le> nRamFrames s \<and> nRamFrames s \<le> 131072 \<and>
     unat (lastpaddr s) \<le> nat (nRamFrames s) * 4096 \<and>
     (\<exists>fr az. freeRamFrames s = Some fr \<and> allocSize s = Some az \<and>
        length fr = nat (nRamFrames s) \<and> length az = nat (nRamFrames s))"

definition coremap_inv :: "(nat \<times> nat) list \<Rightarrow> 'a coremap_state_scheme \<Rightarrow> bool" where
  "coremap_inv live s \<longleftrightarrow> coremap_wf s \<and> regions_disjoint live \<and>
     (\<forall>i < nat (nRamFrames s). the (freeRamFrames s) ! i \<noteq> 0 \<longrightarrow>
        0 < i \<and> i < unat (firstpaddr s) div 4096) \<and>
     (\<forall>(a, n) \<in> set live. 0 < a \<and> 0 < n \<and> n < 2 ^ 19 \<and> a + n \<le> unat (firstpaddr s) div 4096 \<and>
        unat (the (allocSize s) ! a) = n \<and> (\<forall>i \<in> {a..<a + n}. the (freeRamFrames s) ! i = 0))"

locale frame_allocator =
  fixes alloc :: "u32 \<Rightarrow> 's \<Rightarrow> (paddr \<times> 's) kres"
    and free :: "paddr \<Rightarrow> 's \<Rightarrow> (int \<times> 's) kres"
    and inv :: "(nat \<times> nat) list \<Rightarrow> 's \<Rightarrow> bool"
  assumes inv_disjoint: "inv live s \<Longrightarrow> regions_disjoint live"
    and alloc_returns: "inv live s \<Longrightarrow> 0 < unat n \<Longrightarrow> unat n < 2 ^ 19 \<Longrightarrow>
      \<exists>a s'. alloc n s = Inr (a, s')"
    and alloc_inv: "inv live s \<Longrightarrow> 0 < unat n \<Longrightarrow> unat n < 2 ^ 19 \<Longrightarrow> alloc n s = Inr (a, s') \<Longrightarrow>
      inv (if a = 0 then live else (unat a div 4096, unat n) # live) s'"
    and free_inv: "inv live s \<Longrightarrow> k < length live \<Longrightarrow>
      \<exists>s'. free (of_nat (fst (live ! k)) * PAGE_SIZE) s = Inr (1, s') \<and>
        inv (take k live @ drop (Suc k) live) s'"
begin

lemma run_inv:
  assumes "inv live s" and "list_all frame_op_ok ops"
  shows "\<exists>live' s'. run_frames alloc free ops live s = Inr (live', s') \<and> inv live' s'"
  using assms
proof (induction ops arbitrary: live s)
  case Nil
  then show ?case by simp
next
  case (Cons op ops)
  show ?case
  proof (cases op)
    case (GetFrames n)
    with Cons.prems have n: "0 < unat n" "unat n < 2 ^ 19" by simp_all
    then obtain a s' where a: "alloc n s = Inr (a, s')"
      using alloc_returns Cons.prems(1) by blast
    with n Cons.prems(1) have "inv (if a = 0 then live else (unat a div 4096, unat n) # live) s'"
      by (blast intro: alloc_inv)
    with Cons.IH Cons.prems(2) show ?thesis by (simp add: GetFrames a)
  next
    case (PutFrames k)
    show ?thesis
    proof (cases "k < length live")
      case True
      then obtain s' where "free (of_nat (fst (live ! k)) * PAGE_SIZE) s = Inr (1, s')"
        and "inv (take k live @ drop (Suc k) live) s'"
        using free_inv Cons.prems(1) by blast
      with Cons.IH Cons.prems(2) True show ?thesis by (simp add: PutFrames)
    next
      case False
      with Cons show ?thesis by (simp add: PutFrames)
    qed
  qed
qed

lemma run_disjoint:
  assumes "inv live s" and "list_all frame_op_ok ops"
  shows "\<exists>live' s'. run_frames alloc free ops live s = Inr (live', s') \<and> regions_disjoint live'"
  using run_inv [OF assms] inv_disjoint by blast

end

interpretation freemem: lock_field freemem_lock freemem_lock_update
  by unfold_locales (simp_all add: cpu_hold_def cpu_unhold_def)

interpretation stealmem: lock_field stealmem_lock stealmem_lock_update
  by unfold_locales (simp_all add: cpu_hold_def cpu_unhold_def)

section \<open>The search finds the first fit\<close>

definition run_at :: "u8 list \<Rightarrow> nat \<Rightarrow> nat \<Rightarrow> nat \<Rightarrow> bool" where
  "run_at fr n np a \<longleftrightarrow> a + np \<le> n \<and> (\<forall>j \<in> {a..<a + np}. fr ! j \<noteq> 0)"

definition first_fit :: "u8 list \<Rightarrow> nat \<Rightarrow> nat \<Rightarrow> int" where
  "first_fit fr n np = (case find (run_at fr n np) [0..<n] of None \<Rightarrow> -1 | Some a \<Rightarrow> int a)"

lemma first_fit_eqI:
  assumes "run_at fr n np a" and "0 < np" and "\<And>b. b < a \<Longrightarrow> \<not> run_at fr n np b"
  shows "first_fit fr n np = int a"
proof -
  have "a < n" using assms(1,2) by (simp add: run_at_def)
  then have "find (run_at fr n np) [0..<n] = Some a"
    using assms by (auto simp: find_Some_iff intro!: exI [of _ a])
  then show ?thesis by (simp add: first_fit_def)
qed

lemma first_fit_noneI:
  assumes "\<And>b. \<not> run_at fr n np b"
  shows "first_fit fr n np = -1"
  using assms by (simp add: first_fit_def find_None_iff split: option.split)

text \<open>
  The loop invariant: no run of \<open>np\<close> frames ends at or before \<open>i\<close>, and inside a run of free
  frames \<open>first\<close> is its start.
\<close>

definition scan_inv :: "u8 list \<Rightarrow> nat \<Rightarrow> nat \<Rightarrow> int \<Rightarrow> bool" where
  "scan_inv fr np i first \<longleftrightarrow>
     (\<forall>a. a + np \<le> i \<longrightarrow> (\<exists>j \<in> {a..<a + np}. fr ! j = 0)) \<and>
     (0 < i \<and> fr ! (i - 1) \<noteq> 0 \<longrightarrow>
        (\<exists>f. first = int f \<and> f < i \<and> (\<forall>j \<in> {f..<i}. fr ! j \<noteq> 0) \<and> (f = 0 \<or> fr ! (f - 1) = 0)))"

lemma scan_inv_start: "0 < np \<Longrightarrow> scan_inv fr np 0 first"
  by (auto simp: scan_inv_def)

lemma scan_inv_busy:
  assumes "scan_inv fr np i first" and "fr ! i = 0" and "0 < np"
  shows "scan_inv fr np (Suc i) first"
proof -
  have "\<exists>j \<in> {a..<a + np}. fr ! j = 0" if "a + np \<le> Suc i" for a
    using that assms by (cases "a + np = Suc i") (auto simp: scan_inv_def intro: bexI [of _ i])
  then show ?thesis using assms(2) by (simp add: scan_inv_def)
qed

lemma scan_inv_free_start:
  assumes inv: "scan_inv fr np i first" and "fr ! i \<noteq> 0"
  obtains f where "(if i = 0 \<or> fr ! (i - 1) = 0 then int i else first) = int f" and "f \<le> i"
    and "\<forall>j \<in> {f..i}. fr ! j \<noteq> 0" and "f = 0 \<or> fr ! (f - 1) = 0"
proof (cases "i = 0 \<or> fr ! (i - 1) = 0")
  case True
  then show ?thesis using that [of i] assms(2) by auto
next
  case False
  then obtain f where f: "first = int f" "f < i" "\<forall>j \<in> {f..<i}. fr ! j \<noteq> 0"
    "f = 0 \<or> fr ! (f - 1) = 0"
    using inv by (auto simp: scan_inv_def)
  have "\<forall>j \<in> {f..i}. fr ! j \<noteq> 0"
    using f(3) assms(2) by (metis atLeastAtMost_iff atLeastLessThan_iff le_neq_implies_less)
  then show ?thesis using that [of f] f False by auto
qed

lemma no_run_before:
  assumes "scan_inv fr np i first" and "f \<le> i" and "f = 0 \<or> fr ! (f - 1) = 0"
    and "b < f" and "0 < np"
  shows "\<exists>j \<in> {b..<b + np}. fr ! j = 0"
proof (cases "b + np \<le> i")
  case True
  with assms(1) show ?thesis by (simp add: scan_inv_def)
next
  case False
  with assms show ?thesis by (intro bexI [of _ "f - 1"]) auto
qed

lemma scan_inv_free_step:
  assumes "scan_inv fr np i first" and "f \<le> i" and "\<forall>j \<in> {f..i}. fr ! j \<noteq> 0"
    and "f = 0 \<or> fr ! (f - 1) = 0" and "int i - int f + 1 < int np"
  shows "scan_inv fr np (Suc i) (int f)"
proof -
  have "\<exists>j \<in> {a..<a + np}. fr ! j = 0" if "a + np \<le> Suc i" for a
    using that assms(2,5) by (intro no_run_before [OF assms(1,2,4)]) linarith+
  then show ?thesis
    using assms(2,3,4) by (auto simp: scan_inv_def intro!: exI [of _ f])
qed

lemma free_run_free:
  assumes "i < n" and "fr ! i \<noteq> 0"
    and "(if i = 0 \<or> fr ! (i - 1) = 0 then int i else first) = int f"
  shows "free_run fr n np i first =
    (if int i - int f + 1 \<ge> np then int f else free_run fr n np (Suc i) (int f))"
  using assms(1,2) by (subst free_run.simps) (simp only: Let_def assms(3) if_True simp_thms)

lemma free_run_from:
  assumes "scan_inv fr np i first" and "i \<le> n" and "0 < np"
  shows "free_run fr n (int np) i first = first_fit fr n np"
  using assms
proof (induction fr n "int np" i first rule: free_run.induct)
  case (1 fr n i first)
  show ?case
  proof (cases "i < n")
    case False
    with "1.prems" have "\<not> run_at fr n np b" for b by (auto simp: scan_inv_def run_at_def)
    then show ?thesis using False by (simp add: first_fit_noneI free_run.simps)
  next
    case i: True
    show ?thesis
    proof (cases "fr ! i = 0")
      case True
      with i "1.prems" have "free_run fr n (int np) (Suc i) first = first_fit fr n np"
        by (intro "1.hyps") (auto intro: scan_inv_busy)
      with True i show ?thesis by (simp add: free_run.simps [of fr n "int np" i])
    next
      case free: False
      obtain f where f: "(if i = 0 \<or> fr ! (i - 1) = 0 then int i else first) = int f" "f \<le> i"
        "\<forall>j \<in> {f..i}. fr ! j \<noteq> 0" "f = 0 \<or> fr ! (f - 1) = 0"
        using scan_inv_free_start [OF "1.prems"(1) free] .
      show ?thesis
      proof (cases "int i - int f + 1 \<ge> int np")
        case True
        then have run: "run_at fr n np f" using f(2,3) i by (auto simp: run_at_def)
        have "\<not> run_at fr n np b" if "b < f" for b
          using no_run_before [OF "1.prems"(1) f(2,4) that "1.prems"(3)] by (auto simp: run_at_def)
        with run "1.prems"(3) have "first_fit fr n np = int f" by (rule first_fit_eqI)
        then show ?thesis using True by (simp add: free_run_free [OF i free f(1)])
      next
        case False
        then have "scan_inv fr np (Suc i) (int f)"
          by (intro scan_inv_free_step [OF "1.prems"(1) f(2,3,4)]) simp
        then have "free_run fr n (int np) (Suc i) (int f) = first_fit fr n np"
          using False i free "1.prems"(3) f(1) by (intro "1.hyps"(1)) auto
        then show ?thesis using False by (simp add: free_run_free [OF i free f(1)])
      qed
    qed
  qed
qed

lemma first_fit_run:
  assumes "first_fit fr n np \<ge> 0"
  shows "run_at fr n np (nat (first_fit fr n np))"
proof (cases "find (run_at fr n np) [0..<n]")
  case None
  with assms show ?thesis by (simp add: first_fit_def)
next
  case (Some a)
  then have "run_at fr n np a" by (auto simp: find_Some_iff)
  with Some show ?thesis by (simp add: first_fit_def)
qed

lemma first_fit_neg:
  assumes "first_fit fr n np < 0" and "0 < np"
  shows "\<not> run_at fr n np a"
proof
  assume "run_at fr n np a"
  moreover from this have "a < n" using assms(2) by (simp add: run_at_def)
  ultimately have "find (run_at fr n np) [0..<n] \<noteq> None" by (auto simp: find_None_iff)
  then show False using assms(1) by (auto simp: first_fit_def)
qed

section \<open>Closed forms of the operations\<close>

lemmas lock_defs = lock_enter_def lock_leave_def cpu_hold_def cpu_unhold_def

lemma coremap_wf_cpu: "coremap_wf s \<Longrightarrow> curcpu_exists s"
  by (simp add: coremap_wf_def cpu_ok_def)

lemma isTableActive_wf: "coremap_wf s \<Longrightarrow> isTableActive s = Inr (1, s)"
  using freemem.leave_enter [of s]
  by (simp add: isTableActive_def freemem.acq freemem.rel coremap_wf_def cpu_ok_def lock_defs)

lemma critical_freemem:
  assumes "coremap_wf s"
  shows "lock_acq freemem_lock freemem_lock_update s = Inr (lock_enter freemem_lock_update s)"
    and "lock_rel freemem_lock freemem_lock_update
           (lock_enter freemem_lock_update s\<lparr>freeRamFrames := f, allocSize := z\<rparr>) =
         Inr (s\<lparr>freeRamFrames := f, allocSize := z\<rparr>)"
proof -
  have cpu: "cpu_ok s" "freemem_lock s = spinlock_init" "curcpu_exists s"
    using assms by (auto simp: coremap_wf_def cpu_ok_def)
  show "lock_acq freemem_lock freemem_lock_update s = Inr (lock_enter freemem_lock_update s)"
    using cpu by (simp add: freemem.acq)
  have "lock_leave freemem_lock_update
      (lock_enter freemem_lock_update s\<lparr>freeRamFrames := f, allocSize := z\<rparr>) =
    lock_leave freemem_lock_update
      (lock_enter freemem_lock_update s)\<lparr>freeRamFrames := f, allocSize := z\<rparr>"
    by (simp add: lock_defs)
  then show "lock_rel freemem_lock freemem_lock_update
           (lock_enter freemem_lock_update s\<lparr>freeRamFrames := f, allocSize := z\<rparr>) =
         Inr (s\<lparr>freeRamFrames := f, allocSize := z\<rparr>)"
    using cpu by (simp add: freemem.rel freemem.leave_enter)
qed

lemma rel_freemem:
  assumes "coremap_wf s"
  shows "lock_rel freemem_lock freemem_lock_update (lock_enter freemem_lock_update s) = Inr s"
    and "lock_rel freemem_lock freemem_lock_update (lock_enter freemem_lock_update s\<lparr>allocSize := z\<rparr>)
      = Inr (s\<lparr>allocSize := z\<rparr>)"
    and "lock_rel freemem_lock freemem_lock_update
           (lock_enter freemem_lock_update s\<lparr>freeRamFrames := f\<rparr>) = Inr (s\<lparr>freeRamFrames := f\<rparr>)"
  using critical_freemem(2) [OF assms, where f = "freeRamFrames s" and z = "allocSize s"]
    critical_freemem(2) [OF assms, where f = "freeRamFrames s" and z = z]
    critical_freemem(2) [OF assms, where f = f and z = "allocSize s"]
  by (simp_all add: lock_defs)

lemma enter_frame [simp]:
  "freeRamFrames (lock_enter freemem_lock_update s) = freeRamFrames s"
  "allocSize (lock_enter freemem_lock_update s) = allocSize s"
  "nRamFrames (lock_enter freemem_lock_update s) = nRamFrames s"
  by (simp_all add: lock_defs)

lemma getfreeppages_eq:
  assumes wf: "coremap_wf s" and tables: "freeRamFrames s = Some fr" "allocSize s = Some az"
    and n: "0 < unat npages" "unat npages < 2 ^ 31"
  shows "getfreeppages npages s =
    (let ff = first_fit fr (nat (nRamFrames s)) (unat npages)
     in if ff < 0 then Inr (0, s)
        else Inr (of_int ff * PAGE_SIZE,
          s\<lparr>freeRamFrames := Some (fill_range (nat ff) (unat npages) 0 fr),
            allocSize := Some (az[nat ff := npages])\<rparr>))"
proof -
  have "free_run fr (nat (nRamFrames s)) (int (unat npages)) 0 (- 1) =
      first_fit fr (nat (nRamFrames s)) (unat npages)"
    using n(1) by (intro free_run_from) (auto intro: scan_inv_start)
  moreover have "length fr = nat (nRamFrames s)" "length az = nat (nRamFrames s)"
    using wf tables by (auto simp: coremap_wf_def)
  ultimately show ?thesis
    using tables n
    by (simp add: getfreeppages_def isTableActive_wf wf critical_freemem [OF wf] rel_freemem [OF wf]
        sint_small Let_def)
qed

lemma critical_stealmem:
  assumes "coremap_wf s"
  shows "lock_acq stealmem_lock stealmem_lock_update s = Inr (lock_enter stealmem_lock_update s)"
    and "lock_rel stealmem_lock stealmem_lock_update (lock_enter stealmem_lock_update s) = Inr s"
    and "lock_rel stealmem_lock stealmem_lock_update
           (lock_enter stealmem_lock_update s\<lparr>firstpaddr := p\<rparr>) = Inr (s\<lparr>firstpaddr := p\<rparr>)"
proof -
  have cpu: "cpu_ok s" "stealmem_lock s = spinlock_init" "curcpu_exists s"
    using assms by (auto simp: coremap_wf_def cpu_ok_def)
  then show "lock_acq stealmem_lock stealmem_lock_update s = Inr (lock_enter stealmem_lock_update s)"
    and "lock_rel stealmem_lock stealmem_lock_update (lock_enter stealmem_lock_update s) = Inr s"
    by (simp_all add: stealmem.acq stealmem.rel stealmem.leave_enter)
  have "lock_leave stealmem_lock_update (lock_enter stealmem_lock_update s\<lparr>firstpaddr := p\<rparr>) =
    lock_leave stealmem_lock_update (lock_enter stealmem_lock_update s)\<lparr>firstpaddr := p\<rparr>"
    by (simp add: lock_defs)
  then show "lock_rel stealmem_lock stealmem_lock_update
           (lock_enter stealmem_lock_update s\<lparr>firstpaddr := p\<rparr>) = Inr (s\<lparr>firstpaddr := p\<rparr>)"
    using cpu by (simp add: stealmem.rel stealmem.leave_enter)
qed

lemma steal_locked_eq: "coremap_wf s \<Longrightarrow> steal_locked n s = Inr (ram_stealmem n s)"
  using critical_stealmem [of s]
  by (simp add: steal_locked_def ram_stealmem_def Let_def lock_defs split: if_splits)

lemma note_allocSize_eq:
  assumes "coremap_wf s" and "allocSize s = Some az" and "unat addr div 4096 < length az"
    and "addr \<noteq> 0"
  shows "note_allocSize n addr s = Inr (addr, s\<lparr>allocSize := Some (az[unat addr div 4096 := n])\<rparr>)"
  using assms
  by (simp add: note_allocSize_def isTableActive_wf critical_freemem rel_freemem unat_div_page)

lemma freeppages_eq:
  assumes wf: "coremap_wf s" and tables: "freeRamFrames s = Some fr" "allocSize s = Some az"
    and "unat addr div 4096 + unat (az ! (unat addr div 4096)) \<le> nat (nRamFrames s)"
    and "unat addr div 4096 < nat (nRamFrames s)"
    and "unat (az ! (unat addr div 4096)) < 2 ^ 31"
  shows "freeppages addr s = Inr (1, s\<lparr>freeRamFrames :=
    Some (fill_range (unat addr div 4096) (unat (az ! (unat addr div 4096))) 1 fr)\<rparr>)"
proof -
  have "length fr = nat (nRamFrames s)" "length az = nat (nRamFrames s)"
    using wf tables by (auto simp: coremap_wf_def)
  with assms show ?thesis
    by (simp add: freeppages_def isTableActive_wf critical_freemem rel_freemem unat_div_page
        sint_small Let_def zless_nat_eq_int_zless)
qed

lemma coremap_wf_upd [simp]:
  assumes "coremap_wf s" and "length fr = nat (nRamFrames s)" and "length az = nat (nRamFrames s)"
  shows "coremap_wf (s\<lparr>freeRamFrames := Some fr, allocSize := Some az\<rparr>)"
  using assms by (auto simp: coremap_wf_def cpu_ok_def ram_inv_def)

lemma unat_frame_addr:
  assumes "coremap_wf s" and "a \<le> nat (nRamFrames s)"
  shows "unat (of_nat a * PAGE_SIZE :: u32) = a * 4096"
proof -
  have "a \<le> 131072" using assms by (auto simp: coremap_wf_def)
  then have "unat (of_nat a :: u32) = a" by (simp add: unat_of_nat)
  with \<open>a \<le> 131072\<close> show ?thesis using unat_pages [of "of_nat a"] by simp
qed

lemma getppages_reuse:
  assumes wf: "coremap_wf s" and tables: "freeRamFrames s = Some fr" "allocSize s = Some az"
    and n: "0 < unat n" "unat n < 2 ^ 31"
    and ff: "first_fit fr (nat (nRamFrames s)) (unat n) = int a" "0 < a"
  shows "getppages n s = Inr (of_nat a * PAGE_SIZE,
    s\<lparr>freeRamFrames := Some (fill_range a (unat n) 0 fr), allocSize := Some (az[a := n])\<rparr>)"
proof -
  let ?s = "s\<lparr>freeRamFrames := Some (fill_range a (unat n) 0 fr), allocSize := Some (az[a := n])\<rparr>"
  have len: "length fr = nat (nRamFrames s)" "length az = nat (nRamFrames s)"
    using wf tables by (auto simp: coremap_wf_def)
  have "run_at fr (nat (nRamFrames s)) (unat n) a"
    using first_fit_run [of fr "nat (nRamFrames s)" "unat n"] ff by simp
  then have a: "a < nat (nRamFrames s)" using n by (simp add: run_at_def)
  then have addr: "unat (of_nat a * PAGE_SIZE :: u32) = a * 4096"
    using unat_frame_addr [OF wf] by simp
  then have nz: "(of_nat a * PAGE_SIZE :: u32) \<noteq> 0" using ff(2) by (metis mult_is_0 unat_0 not_gr0 zero_neq_numeral)
  have "getfreeppages n s = Inr (of_nat a * PAGE_SIZE, ?s)"
    using ff n by (simp add: getfreeppages_eq [OF wf tables])
  moreover have wf': "coremap_wf ?s" using wf len by simp
  ultimately show ?thesis
    using nz addr a len
    by (simp add: getppages_def note_allocSize_eq [OF wf'])
qed

lemma getppages_steal:
  assumes wf: "coremap_wf s" and tables: "freeRamFrames s = Some fr" "allocSize s = Some az"
    and n: "0 < unat n" "unat n < 2 ^ 19"
    and ff: "first_fit fr (nat (nRamFrames s)) (unat n) < 0"
  shows "getppages n s =
    (if unat (firstpaddr s) + unat n * 4096 > unat (lastpaddr s) then Inr (0, s)
     else Inr (firstpaddr s, s\<lparr>firstpaddr := firstpaddr s + n * PAGE_SIZE,
       allocSize := Some (az[unat (firstpaddr s) div 4096 := n])\<rparr>))"
proof -
  have ram: "ram_inv s" and len: "length az = nat (nRamFrames s)"
    using wf tables by (auto simp: coremap_wf_def)
  have free: "getfreeppages n s = Inr (0, s)"
    using ff n by (simp add: getfreeppages_eq [OF wf tables])
  from ram n(2) show ?thesis
  proof (cases rule: ram_stealmem_cases)
    case full
    then show ?thesis by (simp add: getppages_def free steal_locked_eq [OF wf] note_allocSize_def)
  next
    case ok
    let ?s = "s\<lparr>firstpaddr := firstpaddr s + n * PAGE_SIZE\<rparr>"
    have wf': "coremap_wf ?s"
      using wf ok n ram_stealmem_inv [OF ram n(2)] by (auto simp: coremap_wf_def cpu_ok_def)
    have "firstpaddr s \<noteq> 0" using wf by (auto simp: coremap_wf_def)
    moreover have "unat (firstpaddr s) div 4096 < length az"
      using wf len ok(1) n(1) by (auto simp: coremap_wf_def)
    ultimately show ?thesis
      using ok tables
      by (simp add: getppages_def free steal_locked_eq [OF wf] note_allocSize_eq [OF wf'])
  qed
qed

section \<open>The frame allocator keeps its contract\<close>

lemma coremap_tables:
  assumes "coremap_wf s"
  obtains fr az where "freeRamFrames s = Some fr" and "allocSize s = Some az"
    and "length fr = nat (nRamFrames s)" and "length az = nat (nRamFrames s)"
  using assms by (auto simp: coremap_wf_def)

lemma first_frame_bound: "coremap_wf s \<Longrightarrow> unat (firstpaddr s) div 4096 \<le> nat (nRamFrames s)"
  by (auto simp: coremap_wf_def ram_inv_def word_le_nat_alt)

lemma inv_live:
  "coremap_inv live s \<Longrightarrow> (a, n) \<in> set live \<Longrightarrow>
     0 < a \<and> 0 < n \<and> n < 2 ^ 19 \<and> a + n \<le> unat (firstpaddr s) div 4096 \<and>
     unat (the (allocSize s) ! a) = n \<and> (\<forall>i \<in> {a..<a + n}. the (freeRamFrames s) ! i = 0)"
  unfolding coremap_inv_def by (elim conjE) (drule (1) bspec, simp)

lemma coremap_invI:
  assumes "coremap_wf s" and "regions_disjoint live"
    and "\<And>i. i < nat (nRamFrames s) \<Longrightarrow> the (freeRamFrames s) ! i \<noteq> 0 \<Longrightarrow>
      0 < i \<and> i < unat (firstpaddr s) div 4096"
    and "\<And>a n. (a, n) \<in> set live \<Longrightarrow>
     0 < a \<and> 0 < n \<and> n < 2 ^ 19 \<and> a + n \<le> unat (firstpaddr s) div 4096 \<and>
     unat (the (allocSize s) ! a) = n \<and> (\<forall>i \<in> {a..<a + n}. the (freeRamFrames s) ! i = 0)"
  shows "coremap_inv live s"
proof -
  have "(case r of (a, n) \<Rightarrow>
     0 < a \<and> 0 < n \<and> n < 2 ^ 19 \<and> a + n \<le> unat (firstpaddr s) div 4096 \<and>
     unat (the (allocSize s) ! a) = n \<and> (\<forall>i \<in> {a..<a + n}. the (freeRamFrames s) ! i = 0))"
    if "r \<in> set live" for r
    using that assms(4) [of "fst r" "snd r"] by (simp add: split_def)
  then show ?thesis unfolding coremap_inv_def using assms(1-3) by simp
qed

lemma inv_reuse:
  assumes inv: "coremap_inv live s" and tables: "freeRamFrames s = Some fr" "allocSize s = Some az"
    and n: "0 < n" "n < 2 ^ 19" and run: "run_at fr (nat (nRamFrames s)) n a" and sz: "unat z = n"
  shows "coremap_inv ((a, n) # live)
    (s\<lparr>freeRamFrames := Some (fill_range a n 0 fr), allocSize := Some (az[a := z])\<rparr>)"
proof -
  have wf: "coremap_wf s" using inv by (simp add: coremap_inv_def)
  have len: "length fr = nat (nRamFrames s)" "length az = nat (nRamFrames s)"
    using wf tables by (auto simp: coremap_wf_def)
  have an: "a + n \<le> nat (nRamFrames s)" "\<forall>i \<in> {a..<a + n}. fr ! i \<noteq> 0"
    using run by (simp_all add: run_at_def)
  have free: "0 < i" "i < unat (firstpaddr s) div 4096" if "i \<in> {a..<a + n}" for i
    using that an inv tables by (auto simp: coremap_inv_def)
  have dis: "region (a, n) \<inter> region r = {}" if "r \<in> set live" for r
  proof (cases r)
    case (Pair b m)
    then have "\<forall>i \<in> {b..<b + m}. fr ! i = 0" using that inv_live [OF inv, of b m] tables by simp
    then show ?thesis unfolding Pair region.simps disjoint_iff using an(2) by blast
  qed
  have notin: "b \<noteq> a" if "(b, m) \<in> set live" for b m
    using dis [OF that] inv_live [OF inv that] n(1) by auto
  note old = inv_live [OF inv, unfolded tables option.sel]
  have below: "b + m \<le> nat (nRamFrames s)" if "(b, m) \<in> set live" for b m
    using old [OF that] first_frame_bound [OF wf] by simp
  have regs: "0 < b \<and> 0 < m \<and> m < 2 ^ 19 \<and> b + m \<le> unat (firstpaddr s) div 4096 \<and>
      unat (az[a := z] ! b) = m \<and> (\<forall>i \<in> {b..<b + m}. fill_range a n 0 fr ! i = 0)"
    if "(b, m) \<in> set live" for b m
    using old [OF that] below [OF that] notin [OF that] len by simp
  have new: "0 < a" "a + n \<le> unat (firstpaddr s) div 4096" "a < length az"
    using free [of a] free(2) [of "a + n - 1"] n an len by (simp_all, linarith)
  have frames: "\<forall>i < nat (nRamFrames s). fill_range a n 0 fr ! i \<noteq> 0 \<longrightarrow>
      0 < i \<and> i < unat (firstpaddr s) div 4096"
    using inv len tables by (simp add: coremap_inv_def)
  have mine: "\<forall>i \<in> {a..<a + n}. fill_range a n 0 fr ! i = 0" using len an(1) by simp
  show ?thesis
  proof (rule coremap_invI, goal_cases)
    case 1
    then show ?case using wf len by simp
  next
    case 2
    then show ?case using inv dis by (simp add: coremap_inv_def)
  next
    case (3 i)
    then show ?case using frames by simp
  next
    case (4 b m)
    then show ?case using regs [of b m] new n sz mine by auto
  qed
qed

lemma inv_steal:
  assumes inv: "coremap_inv live s" and tables: "allocSize s = Some az"
    and n: "0 < unat n" "unat n < 2 ^ 19"
    and room: "unat (firstpaddr s) + unat n * 4096 \<le> unat (lastpaddr s)"
  shows "coremap_inv ((unat (firstpaddr s) div 4096, unat n) # live)
    (s\<lparr>firstpaddr := firstpaddr s + n * PAGE_SIZE,
       allocSize := Some (az[unat (firstpaddr s) div 4096 := n])\<rparr>)"
proof -
  let ?f = "unat (firstpaddr s) div 4096"
  have wf: "coremap_wf s" and ram: "ram_inv s" using inv by (auto simp: coremap_inv_def coremap_wf_def)
  have sum: "unat (firstpaddr s + n * PAGE_SIZE) = unat (firstpaddr s) + unat n * 4096"
    using ram n(2) by (intro unat_add_pages) (auto simp: ram_inv_def word_le_nat_alt)
  have wf': "coremap_wf (s\<lparr>firstpaddr := firstpaddr s + n * PAGE_SIZE,
       allocSize := Some (az[?f := n])\<rparr>)"
    using wf ram sum room tables
    by (simp add: coremap_wf_def cpu_ok_def ram_inv_def word_le_nat_alt)
  obtain fr where fr: "freeRamFrames s = Some fr" "length fr = nat (nRamFrames s)"
    using wf by (auto simp: coremap_wf_def)
  have len: "length az = nat (nRamFrames s)" using wf tables by (auto simp: coremap_wf_def)
  have last: "unat (lastpaddr s) \<le> nat (nRamFrames s) * 4096" "0 < unat (firstpaddr s)"
    and "4096 dvd unat (firstpaddr s)"
    using wf by (simp_all add: coremap_wf_def ram_inv_def)
  then obtain q where q: "unat (firstpaddr s) = 4096 * q" by (auto elim: dvdE)
  have top: "?f + unat n \<le> nat (nRamFrames s)" "0 < ?f"
    using room last q by simp_all
  have busy: "fr ! i = 0" if "?f \<le> i" "i < nat (nRamFrames s)" for i
    using that inv fr by (auto simp: coremap_inv_def)
  note live = inv_live [OF inv, unfolded tables fr option.sel]
  have dis: "region (?f, unat n) \<inter> region r = {}" if "r \<in> set live" for r
  proof (cases r)
    case (Pair b m)
    then have "b + m \<le> ?f" using that live [of b m] by simp
    then show ?thesis unfolding Pair region.simps disjoint_iff by auto
  qed
  have regs: "0 < b \<and> 0 < m \<and> m < 2 ^ 19 \<and> b + m \<le> ?f + unat n \<and>
      unat (az[?f := n] ! b) = m \<and> (\<forall>i \<in> {b..<b + m}. fr ! i = 0)"
    if "(b, m) \<in> set live" for b m
    using live [OF that] by simp
  have new: "0 < ?f \<and> 0 < unat n \<and> unat n < 2 ^ 19 \<and> unat (az[?f := n] ! ?f) = unat n \<and>
      (\<forall>i \<in> {?f..<?f + unat n}. fr ! i = 0)"
    using top n len busy by auto
  have f': "unat (firstpaddr s + n * PAGE_SIZE) div 4096 = ?f + unat n"
    using sum q by simp
  have frames: "\<forall>i < nat (nRamFrames s). fr ! i \<noteq> 0 \<longrightarrow> 0 < i \<and> i < ?f + unat n"
    using inv fr by (auto simp: coremap_inv_def)
  show ?thesis
  proof (rule coremap_invI, goal_cases)
    case 1
    then show ?case by (rule wf')
  next
    case 2
    then show ?case using inv dis by (simp add: coremap_inv_def)
  next
    case (3 i)
    then show ?case using frames fr f' by simp
  next
    case (4 b m)
    then show ?case using regs [of b m] new fr f' by auto
  qed
qed

lemma regions_disjoint_remove:
  "regions_disjoint live \<Longrightarrow> regions_disjoint (take k live @ drop (Suc k) live)"
proof (induction live arbitrary: k)
  case Nil
  then show ?case by simp
next
  case (Cons r rs)
  then show ?case
    by (cases k) (auto dest: in_set_takeD in_set_dropD)
qed

lemma regions_disjoint_nth:
  "regions_disjoint live \<Longrightarrow> k < length live \<Longrightarrow> r \<in> set (take k live @ drop (Suc k) live) \<Longrightarrow>
     region (live ! k) \<inter> region r = {}"
proof (induction live arbitrary: k)
  case Nil
  then show ?case by simp
next
  case (Cons q rs)
  show ?case
  proof (cases k)
    case 0
    with Cons.prems show ?thesis by simp
  next
    case (Suc k')
    with Cons.prems consider "r = q" | "r \<in> set (take k' rs @ drop (Suc k') rs)" by auto
    then show ?thesis
    proof cases
      case 1
      then have "region q \<inter> region (rs ! k') = {}" using Cons.prems Suc by simp
      then show ?thesis using 1 Suc by (simp add: Int_commute)
    next
      case 2
      then show ?thesis using Cons Suc by simp
    qed
  qed
qed

lemma inv_free:
  assumes inv: "coremap_inv live s" and k: "k < length live" and lk: "live ! k = (a, n)"
    and fr: "freeRamFrames s = Some fr"
  shows "coremap_inv (take k live @ drop (Suc k) live)
    (s\<lparr>freeRamFrames := Some (fill_range a n 1 fr)\<rparr>)"
proof -
  have wf: "coremap_wf s" using inv by (simp add: coremap_inv_def)
  have len: "length fr = nat (nRamFrames s)" using wf fr by (auto simp: coremap_wf_def)
  have wf': "coremap_wf (s\<lparr>freeRamFrames := Some (fill_range a n 1 fr)\<rparr>)"
    using wf len by (auto simp: coremap_wf_def cpu_ok_def ram_inv_def)
  have mem: "(a, n) \<in> set live" using k lk by (metis nth_mem)
  have live_dis: "regions_disjoint live" using inv by (simp add: coremap_inv_def)
  have rest: "r \<in> set live" "region (a, n) \<inter> region r = {}"
    if "r \<in> set (take k live @ drop (Suc k) live)" for r
    using that regions_disjoint_nth [OF live_dis k that] lk
    by (auto dest: in_set_takeD in_set_dropD)
  have own: "0 < a" "a + n \<le> unat (firstpaddr s) div 4096"
    using inv_live [OF inv mem] by simp_all
  have below: "b + m \<le> nat (nRamFrames s)" if "(b, m) \<in> set live" for b m
    using inv_live [OF inv that] first_frame_bound [OF wf] by simp
  have dis: "regions_disjoint (take k live @ drop (Suc k) live)"
    using inv by (simp add: coremap_inv_def regions_disjoint_remove)
  have frames: "\<forall>i < nat (nRamFrames s). fill_range a n 1 fr ! i \<noteq> 0 \<longrightarrow>
      0 < i \<and> i < unat (firstpaddr s) div 4096"
    using inv len own fr by (auto simp: coremap_inv_def)
  have regs: "0 < b \<and> 0 < m \<and> m < 2 ^ 19 \<and> b + m \<le> unat (firstpaddr s) div 4096 \<and>
      unat (the (allocSize s) ! b) = m \<and> (\<forall>i \<in> {b..<b + m}. fill_range a n 1 fr ! i = 0)"
    if "(b, m) \<in> set (take k live @ drop (Suc k) live)" for b m
  proof -
    note mem' = rest(1) [OF that] and dis_r = rest(2) [OF that, unfolded region.simps]
    note old = inv_live [OF inv mem']
    have "fill_range a n 1 fr ! i = 0" if "i \<in> {b..<b + m}" for i
    proof -
      have "i \<notin> {a..<a + n}" using that dis_r by (auto simp: disjoint_iff)
      then show ?thesis using that old below [OF mem'] len fr by auto
    qed
    then show ?thesis using old by simp
  qed
  show ?thesis
    using wf' dis by (rule coremap_invI) (use frames regs in auto)
qed

text \<open>Every call that asks for frames either reuses the first fit, steals frames, or finds none.\<close>

lemma getppages_cases [consumes 3, case_names reuse steal full]:
  assumes inv: "coremap_inv live s" and n: "0 < unat n" "unat n < 2 ^ 19"
  obtains (reuse) a fr az where "freeRamFrames s = Some fr" "allocSize s = Some az"
      "0 < a" "a + unat n \<le> nat (nRamFrames s)" "run_at fr (nat (nRamFrames s)) (unat n) a"
      "getppages n s = Inr (of_nat a * PAGE_SIZE,
        s\<lparr>freeRamFrames := Some (fill_range a (unat n) 0 fr), allocSize := Some (az[a := n])\<rparr>)"
  | (steal) az where "allocSize s = Some az"
      "unat (firstpaddr s) + unat n * 4096 \<le> unat (lastpaddr s)"
      "getppages n s = Inr (firstpaddr s, s\<lparr>firstpaddr := firstpaddr s + n * PAGE_SIZE,
         allocSize := Some (az[unat (firstpaddr s) div 4096 := n])\<rparr>)"
  | (full) "getppages n s = Inr (0, s)"
      "unat (lastpaddr s) < unat (firstpaddr s) + unat n * 4096"
      "\<And>fr a. freeRamFrames s = Some fr \<Longrightarrow> \<not> run_at fr (nat (nRamFrames s)) (unat n) a"
proof -
  have wf: "coremap_wf s" using inv by (simp add: coremap_inv_def)
  then obtain fr az where tables: "freeRamFrames s = Some fr" "allocSize s = Some az"
    by (rule coremap_tables)
  let ?ff = "first_fit fr (nat (nRamFrames s)) (unat n)"
  show thesis
  proof (cases "?ff < 0")
    case True
    then have none: "\<not> run_at fr (nat (nRamFrames s)) (unat n) a" for a
      using first_fit_neg [OF _ n(1)] by blast
    from getppages_steal [OF wf tables n True] steal [OF tables(2)] full tables none show thesis
      by (cases "unat (lastpaddr s) < unat (firstpaddr s) + unat n * 4096") (auto simp: not_less)
  next
    case False
    then obtain a where a: "?ff = int a" by (metis int_nat_eq linorder_not_less)
    then have run: "run_at fr (nat (nRamFrames s)) (unat n) a"
      using first_fit_run [of fr "nat (nRamFrames s)" "unat n"] by simp
    then have "fr ! a \<noteq> 0" and le: "a + unat n \<le> nat (nRamFrames s)"
      using n by (auto simp: run_at_def)
    then have "0 < a" using inv tables n by (auto simp: coremap_inv_def)
    moreover have "unat n < 2 ^ 31" using n by simp
    ultimately show thesis
      using reuse tables run le getppages_reuse [OF wf tables n(1) _ a] by blast
  qed
qed

text \<open>A frame is free when it has been given back or lies above the watermark.\<close>

definition frame_free :: "'a coremap_state_scheme \<Rightarrow> bool" where
  "frame_free s \<longleftrightarrow> (\<exists>i < nat (nRamFrames s). the (freeRamFrames s) ! i \<noteq> 0) \<or>
     unat (firstpaddr s) + 4096 \<le> unat (lastpaddr s)"

lemma getppages_inv:
  assumes inv: "coremap_inv live s" and n: "0 < unat n" "unat n < 2 ^ 19"
    and get: "getppages n s = Inr (a, s')"
  shows "coremap_inv (if a = 0 then live else (unat a div 4096, unat n) # live) s'"
  using inv n
proof (cases rule: getppages_cases)
  case (reuse b fr az)
  have "coremap_wf s" using inv by (simp add: coremap_inv_def)
  moreover have "b \<le> nat (nRamFrames s)" using reuse(4) by linarith
  ultimately have b: "unat (of_nat b * PAGE_SIZE :: u32) = b * 4096" by (rule unat_frame_addr)
  then have "(of_nat b * PAGE_SIZE :: u32) \<noteq> 0"
    using reuse(3) by (metis mult_is_0 unat_0 not_gr0 zero_neq_numeral)
  with get reuse b inv_reuse [OF inv reuse(1,2) n reuse(5) refl] show ?thesis by simp
next
  case (steal az)
  have "firstpaddr s \<noteq> 0" using inv by (auto simp: coremap_inv_def coremap_wf_def)
  with get steal(3) inv_steal [OF inv steal(1) n steal(2)] show ?thesis by auto
next
  case full
  with get inv show ?thesis by simp
qed

text \<open>While a frame is free a request for one frame succeeds, and changes the tables and the watermark only. The frame
  is none of those that are held.\<close>

lemma getppages_one:
  assumes inv: "coremap_inv live s" and room: "frame_free s"
  obtains p fp fr az where
    "getppages 1 s = Inr (p, s\<lparr>firstpaddr := fp, freeRamFrames := fr, allocSize := az\<rparr>)"
    and "p \<noteq> 0" and "4096 dvd unat p" and "unat p div 4096 < unat (lastpaddr s) div 4096"
    and "coremap_inv ((unat p div 4096, 1) # live) (s\<lparr>firstpaddr := fp, freeRamFrames := fr, allocSize := az\<rparr>)"
proof -
  have one: "0 < unat (1 :: u32)" "unat (1 :: u32) < 2 ^ 19" by simp_all
  have wf: "coremap_wf s" using inv by (simp add: coremap_inv_def)
  from inv one have "\<exists>p fp fr az. p \<noteq> 0 \<and> 4096 dvd unat p \<and>
      getppages 1 s = Inr (p, s\<lparr>firstpaddr := fp, freeRamFrames := fr, allocSize := az\<rparr>)"
  proof (cases rule: getppages_cases)
    case (reuse a fr az)
    have a: "unat (of_nat a * PAGE_SIZE :: u32) = a * 4096"
      using reuse(4) by (intro unat_frame_addr [OF wf]) simp
    then have "(of_nat a * PAGE_SIZE :: u32) \<noteq> 0"
      using reuse(3) by (metis mult_is_0 unat_0 not_gr0 zero_neq_numeral)
    moreover have "4096 dvd unat (of_nat a * PAGE_SIZE :: u32)" unfolding a by simp
    ultimately show ?thesis using reuse(6)
      by (intro exI [of _ "of_nat a * PAGE_SIZE"] exI [of _ "firstpaddr s"]
          exI [of _ "Some (fill_range a (unat (1 :: u32)) 0 fr)"] exI [of _ "Some (az[a := 1])"]) simp
  next
    case (steal az)
    have "firstpaddr s \<noteq> 0" "4096 dvd unat (firstpaddr s)"
      using wf by (auto simp: coremap_wf_def ram_inv_def)
    then show ?thesis using steal(3)
      by (intro exI [of _ "firstpaddr s"] exI [of _ "firstpaddr s + 1 * PAGE_SIZE"]
          exI [of _ "freeRamFrames s"] exI [of _ "Some (az[unat (firstpaddr s) div 4096 := 1])"]) simp
  next
    case full
    from full(2) room obtain i where i: "i < nat (nRamFrames s)" "the (freeRamFrames s) ! i \<noteq> 0"
      by (auto simp: frame_free_def)
    moreover obtain fr where "freeRamFrames s = Some fr" using wf by (auto simp: coremap_wf_def)
    ultimately have "run_at fr (nat (nRamFrames s)) (unat (1 :: u32)) i" by (simp add: run_at_def)
    then show ?thesis using full(3) \<open>freeRamFrames s = Some fr\<close> by blast
  qed
  then obtain p fp fr az where p: "p \<noteq> 0"
    "getppages 1 s = Inr (p, s\<lparr>firstpaddr := fp, freeRamFrames := fr, allocSize := az\<rparr>)"
    and al: "4096 dvd unat p" by blast
  let ?s = "s\<lparr>firstpaddr := fp, freeRamFrames := fr, allocSize := az\<rparr>"
  have inv': "coremap_inv ((unat p div 4096, 1) # live) ?s"
    using getppages_inv [OF inv one p(2)] p(1) by simp
  then have "unat p div 4096 + 1 \<le> unat (firstpaddr ?s) div 4096" and "ram_inv ?s"
    using inv_live [OF inv', of "unat p div 4096" 1] by (simp_all add: coremap_inv_def coremap_wf_def)
  then have "unat p div 4096 + 1 \<le> unat (lastpaddr s) div 4096"
    by (simp add: ram_inv_def word_le_nat_alt) (meson div_le_mono order_trans)
  then have "unat p div 4096 < unat (lastpaddr s) div 4096" by simp
  with p al inv' that show thesis by blast
qed

lemma freeppages_inv:
  assumes inv: "coremap_inv live s" and k: "k < length live"
  shows "\<exists>s'. freeppages (of_nat (fst (live ! k)) * PAGE_SIZE) s = Inr (1, s') \<and>
    coremap_inv (take k live @ drop (Suc k) live) s'"
proof -
  have wf: "coremap_wf s" using inv by (simp add: coremap_inv_def)
  then obtain fr az where tables: "freeRamFrames s = Some fr" "allocSize s = Some az"
    by (rule coremap_tables)
  obtain a n where an: "live ! k = (a, n)" by (cases "live ! k")
  then have "(a, n) \<in> set live" using k by (metis nth_mem)
  from inv_live [OF inv this] first_frame_bound [OF wf]
  have b: "0 < n" "n < 2 ^ 19" "a + n \<le> nat (nRamFrames s)" "unat (az ! a) = n"
    by (simp_all add: tables)
  then have addr: "unat (of_nat a * PAGE_SIZE :: u32) div 4096 = a"
    using unat_frame_addr [OF wf, of a] by simp
  have "freeppages (of_nat a * PAGE_SIZE) s =
      Inr (1, s\<lparr>freeRamFrames := Some (fill_range a n 1 fr)\<rparr>)"
    using freeppages_eq [OF wf tables, of "of_nat a * PAGE_SIZE"] b addr by simp
  with inv_free [OF inv k an tables(1)] an show ?thesis by simp
qed

interpretation coremap_alloc: frame_allocator getppages freeppages coremap_inv
proof unfold_locales
  fix live :: "(nat \<times> nat) list" and s :: "'a coremap_state_scheme" and n :: u32
  assume inv: "coremap_inv live s"
  then show "regions_disjoint live" by (simp add: coremap_inv_def)
  assume "0 < unat n" "unat n < 2 ^ 19"
  with inv show "\<exists>a s'. getppages n s = Inr (a, s')"
    by (cases rule: getppages_cases) auto
qed (blast intro: getppages_inv freeppages_inv)+

section \<open>Boot\<close>

text \<open>The state in which \<^verbatim>\<open>boot\<close> calls \<^verbatim>\<open>vm_bootstrap\<close>.\<close>

definition coremap_boot :: "'a coremap_state_scheme \<Rightarrow> bool" where
  "coremap_boot s \<longleftrightarrow> cpu_ok s \<and> freemem_lock s = spinlock_init \<and> stealmem_lock s = spinlock_init \<and>
     ram_inv s \<and> 0 < unat (firstpaddr s) \<and> 4096 dvd unat (lastpaddr s)"

lemma frames_of_size:
  assumes "unat r \<le> 512 * 1024 * 1024"
  shows "sint (r :: u32) sdiv 4096 = int (unat r div 4096)"
proof -
  have "sint r = int (unat r)" using assms by (intro sint_small) simp
  moreover have "int m sdiv 4096 = int (m div 4096)" for m
    by (cases "m = 0") (simp_all add: signed_divide_int_def zdiv_int)
  ultimately show ?thesis by (simp only:)
qed

text \<open>
  What \<^verbatim>\<open>coremap_bootstrap\<close> needs of \<^verbatim>\<open>kmalloc\<close> while the tables are not active, for requests of at most 1 MB: it keeps
  the state in order, and the size of the memory and the number of frames as they are.
\<close>

locale boot_allocator =
  fixes kmalloc :: "u32 \<Rightarrow> 'a coremap_state_scheme \<Rightarrow> (vaddr \<times> 'a coremap_state_scheme) kres"
    and inv :: "'a coremap_state_scheme \<Rightarrow> bool"
  assumes inv_boot: "inv s \<Longrightarrow> coremap_boot s"
    and inv_frames: "inv s \<Longrightarrow> inv (s\<lparr>nRamFrames := n\<rparr>)"
    and kmalloc_kept: "inv s \<Longrightarrow> unat sz \<le> 2 ^ 20 \<Longrightarrow> kmalloc sz s = Inr (p, s') \<Longrightarrow>
      inv s' \<and> lastpaddr s' = lastpaddr s \<and> nRamFrames s' = nRamFrames s"
begin

lemma bootstrap_inv:
  assumes boot: "inv s" and run: "coremap_bootstrap kmalloc s = Inr s'"
  shows "coremap_inv [] s'"
proof -
  define n where "n = unat (lastpaddr s) div 4096"
  have n: "n \<le> 131072" "sint (ram_getsize s) sdiv 4096 = int n" "unat (lastpaddr s) = n * 4096"
    using inv_boot [OF boot] frames_of_size [of "lastpaddr s"]
    by (auto simp: ram_inv_def coremap_boot_def n_def ram_getsize_def)
  define s0 where "s0 = s\<lparr>nRamFrames := int n\<rparr>"
  have s0: "inv s0" "nRamFrames s0 = int n" "lastpaddr s0 = lastpaddr s"
    using inv_frames [OF boot] by (simp_all add: s0_def)
  have small: "unat (of_nat n :: u32) \<le> 2 ^ 20" "unat (4 * of_nat n :: u32) \<le> 2 ^ 20"
    using n(1) by (simp_all add: unat_of_nat unat_mult_lem [THEN iffD1])
  obtain p1 s1 where k1: "kmalloc (of_nat n) s0 = Inr (p1, s1)"
    using run by (auto simp: coremap_bootstrap_def n(2) s0_def [symmetric] s0(2) Let_def sbind_eq_Inr_iff)
  note s1 = kmalloc_kept [OF s0(1) small(1) k1]
  obtain p2 s2 where k2: "kmalloc (4 * of_nat n) s1 = Inr (p2, s2)"
    using run s1 s0(2)
    by (auto simp: coremap_bootstrap_def n(2) s0_def [symmetric] Let_def sbind_eq_Inr_iff k1)
  note s2 = kmalloc_kept [OF _ small(2) k2]
  have "inv s2" "nRamFrames s2 = int n" "lastpaddr s2 = lastpaddr s" using s1 s2 s0 by simp_all
  note s2 = this(2,3) inv_boot [OF this(1)]
  let ?z = "s2\<lparr>freeRamFrames := Some (replicate n 0), allocSize := Some (replicate n 0)\<rparr>"
  have z: "cpu_ok ?z" "freemem_lock ?z = spinlock_init"
    using s2(3) by (simp_all add: coremap_boot_def cpu_ok_def)
  have "lock_enter freemem_lock_update ?z\<lparr>allocTableActive := 1\<rparr> =
      lock_enter freemem_lock_update (?z\<lparr>allocTableActive := 1\<rparr>)"
    by (simp add: lock_defs)
  moreover have "cpu_ok (?z\<lparr>allocTableActive := 1\<rparr>)" using z(1) by (simp add: cpu_ok_def)
  ultimately have "s' = ?z\<lparr>allocTableActive := 1\<rparr>"
    using run k1 k2 s1 s0(2) s2(1) z freemem.acq [OF z] freemem.rel_enter [of "?z\<lparr>allocTableActive := 1\<rparr>"]
    by (simp add: coremap_bootstrap_def n(2) s0_def [symmetric] Let_def split: if_splits)
  then show ?thesis
    using s2 n by (auto simp: coremap_inv_def coremap_wf_def coremap_boot_def cpu_ok_def ram_inv_def)
qed

end

section \<open>Properties\<close>

definition coremap_sample :: coremap_state where
  "coremap_sample = ram_state.extend ram_sample
     \<lparr>freeRamFrames = None, allocSize = None, nRamFrames = 0, allocTableActive = 0,
      freemem_lock = spinlock_init, stealmem_lock = spinlock_init\<rparr>"

definition coremap_sample_up :: coremap_state where
  "coremap_sample_up = coremap_sample\<lparr>firstpaddr := 0x4000, nRamFrames := 8, allocTableActive := 1,
     freeRamFrames := Some (replicate 8 0), allocSize := Some (replicate 8 0)\<rparr>"

lemma coremap_sample_up_inv: "coremap_inv [] coremap_sample_up"
  by (simp add: coremap_inv_def coremap_wf_def coremap_sample_up_def coremap_sample_def ram_sample_def cpu_sample_def
      ram_inv_def cpu_ok_def cpu_state.extend_def ram_state.extend_def)

text \<open>C21: The search of \<^verbatim>\<open>getfreeppages\<close> is a first fit: an address that it returns starts a run of
  \<^verbatim>\<open>npages\<close> free frames, no run starts lower, and these frames and no others are taken; it
  returns 0 only when there is no such run, and then changes nothing.\<close>

theorem getfreeppages_first_fit:
  assumes "coremap_wf s" and "freeRamFrames s = Some fr" and "0 < unat npages"
    and "unat npages < 2 ^ 31" and "fr ! 0 = 0"
  shows "\<exists>addr s'. getfreeppages npages s = Inr (addr, s') \<and>
    (if addr = 0 then s' = s \<and> (\<forall>a. \<not> run_at fr (nat (nRamFrames s)) (unat npages) a)
     else run_at fr (nat (nRamFrames s)) (unat npages) (unat addr div 4096) \<and>
       (\<forall>a < unat addr div 4096. \<not> run_at fr (nat (nRamFrames s)) (unat npages) a) \<and>
       freeRamFrames s' = Some (fill_range (unat addr div 4096) (unat npages) 0 fr))"
proof -
  obtain az where az: "allocSize s = Some az" using assms(1) by (auto simp: coremap_wf_def)
  let ?n = "nat (nRamFrames s)" and ?k = "unat npages"
  show ?thesis
  proof (cases "find (run_at fr ?n ?k) [0..<?n]")
    case None
    then have "\<not> run_at fr ?n ?k a" for a
      using assms(3) by (auto simp: find_None_iff run_at_def)
    with None show ?thesis
      by (simp add: getfreeppages_eq [OF assms(1,2) az assms(3,4)] first_fit_def)
  next
    case (Some a)
    then have a: "a < ?n" "run_at fr ?n ?k a" "\<forall>b < a. \<not> run_at fr ?n ?k b"
      by (auto simp: find_Some_iff)
    then have "a \<noteq> 0" using assms(3,5) by (auto simp: run_at_def)
    moreover have "unat (of_nat a * PAGE_SIZE :: u32) = a * 4096"
      using a(1) by (intro unat_frame_addr [OF assms(1)]) simp
    moreover from this have "(of_nat a * PAGE_SIZE :: u32) \<noteq> 0"
      using \<open>a \<noteq> 0\<close> by (metis mult_is_0 unat_0 zero_neq_numeral)
    ultimately show ?thesis
      using a Some by (simp add: getfreeppages_eq [OF assms(1,2) az assms(3,4)] first_fit_def)
  qed
qed

definition coremap_sample_holes :: coremap_state where
  "coremap_sample_holes = coremap_sample_up\<lparr>freeRamFrames := Some [0, 1, 0, 1, 1, 0, 0, 0]\<rparr>"

theorem getfreeppages_first_fit_witness:
  "\<exists>addr s'. getfreeppages 2 coremap_sample_holes = Inr (addr, s') \<and>
     run_at [0, 1, 0, 1, 1, 0, 0, 0] 8 2 (unat addr div 4096)"
proof -
  let ?fr = "[0, 1, 0, 1, 1, 0, 0, 0] :: u8 list"
  have wf: "coremap_wf coremap_sample_holes"
    using coremap_sample_up_inv
    by (simp add: coremap_inv_def coremap_wf_def coremap_sample_holes_def cpu_ok_def ram_inv_def)
      (simp add: coremap_sample_up_def)
  have fr: "freeRamFrames coremap_sample_holes = Some ?fr"
    by (simp add: coremap_sample_holes_def)
  have n: "nat (nRamFrames coremap_sample_holes) = 8"
    by (simp add: coremap_sample_holes_def coremap_sample_up_def)
  have "{3..<5} = {3, 4 :: nat}" by auto
  then have run: "run_at ?fr 8 2 3" by (simp add: run_at_def)
  have two: "unat (2 :: u32) = 2" by simp
  have "\<exists>addr s'. getfreeppages 2 coremap_sample_holes = Inr (addr, s') \<and>
    (if addr = 0 then s' = coremap_sample_holes \<and> (\<forall>a. \<not> run_at ?fr 8 2 a)
     else run_at ?fr 8 2 (unat addr div 4096) \<and>
       (\<forall>a < unat addr div 4096. \<not> run_at ?fr 8 2 a) \<and>
       freeRamFrames s' = Some (fill_range (unat addr div 4096) 2 0 ?fr))"
    using getfreeppages_first_fit [OF wf fr, of 2, unfolded n two] by simp
  with run show ?thesis by (metis (lifting))
qed

end
