(* ===== verification/Page_Table.thy ===== *)
theory Page_Table
  imports Coremap "HOL-Library.Multiset"
begin

text \<open>
  The inverted page table (\<^verbatim>\<open>kern/vm/pt.c\<close>, \<^verbatim>\<open>kern/include/pt.h\<close>): one entry per frame with the
  process and the virtual page that the frame holds, and a position in the queue of the process's
  pages. The contract of the table as a queue of frames per process is the locale \<open>page_queue\<close>.
\<close>

section \<open>State and operations\<close>

datatype permission_t = READ_ONLY | READ_WRITE

record entry =
  e_vaddr :: vaddr
  e_pid :: int
  e_status :: u32
  e_permission_flag :: permission_t
  e_position_fifo :: int

text \<open>
  The one \<^verbatim>\<open>table_t\<close> of the kernel: \<open>pt_exists\<close> says that the pointer \<^verbatim>\<open>page_table\<close> is not null, the
  array \<^verbatim>\<open>next_entry\<close> has the length that the field \<^verbatim>\<open>length\<close> repeats.
\<close>

record pt_state = coremap_state +
  pt_exists :: bool
  next_entry :: "entry list"
  table_lock :: spinlock

abbreviation (input) NULL_PT :: kfail where "NULL_PT \<equiv> Undefined ''page_table is null''"
abbreviation (input) PT_INDEX :: kfail where "PT_INDEX \<equiv> Undefined ''page_table index''"

definition lru_update_cnt :: "'a pt_state_scheme \<Rightarrow> 'a pt_state_scheme kres" where
  "lru_update_cnt s =
     (if pt_exists s then
        sbind (lock_acq table_lock table_lock_update s) (\<lambda>s.
        lock_rel table_lock table_lock_update
          (s\<lparr>next_entry := map (\<lambda>e. if e_pid e \<noteq> -1
             then e\<lparr>e_position_fifo := int32 (e_position_fifo e + 1)\<rparr> else e) (next_entry s)\<rparr>))
      else Inr s)"

text \<open>
  \<^verbatim>\<open>kmalloc\<close> returns the address of a block, or 0; \<open>block\<close> is what the second block holds before the
  loop writes to it (the loop leaves \<^verbatim>\<open>permission_flag\<close> as it is).
\<close>

definition page_table_init ::
  "(u32 \<Rightarrow> 'a pt_state_scheme \<Rightarrow> (vaddr \<times> 'a pt_state_scheme) kres) \<Rightarrow> (nat \<Rightarrow> entry) \<Rightarrow>
   'a pt_state_scheme \<Rightarrow> 'a pt_state_scheme kres" where
  "page_table_init kmalloc block s =
     (let len = ram_getsize s div PAGE_SIZE
      in sbind (kmalloc 12 s) (\<lambda>(p, s).
         if p = 0 then Inl (Panic ''pt.c: error to allocate page table'')
         else
           sbind (kmalloc (len * 20) (s\<lparr>pt_exists := True\<rparr>)) (\<lambda>(p, s).
           if p = 0 then Inl (Panic ''pt.c: error to allocate next entry in page table'')
           else
             sbind (lock_acq table_lock table_lock_update (s\<lparr>table_lock := spinlock_init\<rparr>)) (\<lambda>s.
             lock_rel table_lock table_lock_update
               (s\<lparr>next_entry := map (\<lambda>i. (block i)\<lparr>e_pid := -1, e_vaddr := 0, e_status := 0,
                    e_position_fifo := 0\<rparr>) [0..<unat len]\<rparr>)))))"

text \<open>The loop that looks for the last position among the pages of a process.\<close>

definition last_fifo :: "int \<Rightarrow> entry list \<Rightarrow> int" where
  "last_fifo pid es =
     fold (\<lambda>e m. if pid = e_pid e \<and> e_position_fifo e > m then e_position_fifo e else m) es (-1)"

definition page_table_add_entry ::
  "int \<Rightarrow> vaddr \<Rightarrow> paddr \<Rightarrow> u32 \<Rightarrow> 'a pt_state_scheme \<Rightarrow> 'a pt_state_scheme kres" where
  "page_table_add_entry pid vaddr paddr status s =
     (let frame_index = unat (of_int (sint paddr div 4096) :: u32)
      in if \<not> pt_exists s then Inl NULL_PT
         else
           kassert (frame_index < length (next_entry s)) ''frame_index < page_table->length'' (
           sbind (lock_acq table_lock table_lock_update s) (\<lambda>s.
           let last_position_fifo = last_fifo pid (next_entry s);
               e = next_entry s ! frame_index
           in lock_rel table_lock table_lock_update
                (s\<lparr>next_entry := (next_entry s)[frame_index := e\<lparr>e_pid := pid, e_vaddr := vaddr,
                     e_status := status, e_position_fifo := int32 (last_position_fifo + 1)\<rparr>]\<rparr>))))"

text \<open>The search loop has no \<^verbatim>\<open>break\<close>: it keeps the last match.\<close>

definition find_last :: "('b \<Rightarrow> bool) \<Rightarrow> 'b list \<Rightarrow> nat" where
  "find_last P xs = fold (\<lambda>i last. if P (xs ! i) then i else last) [0..<length xs] (length xs)"

definition page_table_get_paddr_entry ::
  "int \<Rightarrow> vaddr \<Rightarrow> 'a pt_state_scheme \<Rightarrow> ((paddr \<times> u32) option \<times> 'a pt_state_scheme) kres" where
  "page_table_get_paddr_entry pid vaddr s =
     (if \<not> pt_exists s then Inl NULL_PT
      else
        sbind (lock_acq table_lock table_lock_update s) (\<lambda>s.
        let last = find_last (\<lambda>e. e_pid e = pid \<and> e_vaddr e = vaddr) (next_entry s)
        in sbind (lock_rel table_lock table_lock_update s) (\<lambda>s.
           if last = length (next_entry s) then Inr (None, s)
           else Inr (Some (of_nat last * PAGE_SIZE, e_status (next_entry s ! last)), s))))"

text \<open>The victim's index and a copy of its entry; the index is \<open>-1\<close> when there is none.\<close>

definition page_table_replacement :: "int \<Rightarrow> 'a pt_state_scheme \<Rightarrow> (int \<times> entry option) kres" where
  "page_table_replacement pid s =
     (if \<not> pt_exists s then Inl NULL_PT
      else
        let index_replacement =
              find_first (\<lambda>e. e_position_fifo e = 0 \<and> e_pid e = pid) 0 (next_entry s)
        in Inr (index_replacement,
             if index_replacement = -1 then None
             else Some (next_entry s ! nat index_replacement)))"

definition close_gap :: "int \<Rightarrow> int \<Rightarrow> entry \<Rightarrow> entry" where
  "close_gap pid position_fifo e =
     (if pid = e_pid e \<and> e_position_fifo e > position_fifo
      then e\<lparr>e_position_fifo := e_position_fifo e - 1\<rparr> else e)"

definition page_table_reset_entry :: "int \<Rightarrow> 'a pt_state_scheme \<Rightarrow> 'a pt_state_scheme kres" where
  "page_table_reset_entry index s =
     (if \<not> pt_exists s then Inl NULL_PT
      else if index < 0 \<or> nat index \<ge> length (next_entry s) then Inl PT_INDEX
      else
        let pid = e_pid (next_entry s ! nat index);
            position_fifo = e_position_fifo (next_entry s ! nat index)
        in sbind (lock_acq table_lock table_lock_update s) (\<lambda>s.
           let e = next_entry s ! nat index;
               es = (next_entry s)[nat index := e\<lparr>e_pid := -1, e_vaddr := 0, e_status := 0,
                       e_position_fifo := 0\<rparr>]
           in lock_rel table_lock table_lock_update
                (s\<lparr>next_entry := map (close_gap pid position_fifo) es\<rparr>)))"

definition page_table_remove_on_pids :: "int \<Rightarrow> 'a pt_state_scheme \<Rightarrow> 'a pt_state_scheme kres" where
  "page_table_remove_on_pids pid s =
     (if pid < 0 then Inl (Panic ''error on pid: it is invalid'')
      else if \<not> pt_exists s then Inl NULL_PT
      else
        sbind (lock_acq table_lock table_lock_update s) (\<lambda>s.
        sbind (kfor [0..<length (next_entry s)] (\<lambda>i s.
                 if e_pid (next_entry s ! i) = pid then
                   sbind (page_table_reset_entry (int i) s) (\<lambda>s.
                   sbind (freeppages (of_nat i * PAGE_SIZE) s) (\<lambda>(r, s). Inr s))
                 else Inr s) s) (\<lambda>s.
        lock_rel table_lock table_lock_update s)))"

definition page_table_get_Status_on_Index :: "int \<Rightarrow> 'a pt_state_scheme \<Rightarrow> u8 kres" where
  "page_table_get_Status_on_Index index s =
     (if \<not> pt_exists s then Inl NULL_PT
      else if index < 0 \<or> nat index \<ge> length (next_entry s) then Inl PT_INDEX
      else Inr (ucast (e_status (next_entry s ! nat index))))"

definition page_table_set_status_at_index ::
  "int \<Rightarrow> u8 \<Rightarrow> 'a pt_state_scheme \<Rightarrow> 'a pt_state_scheme kres" where
  "page_table_set_status_at_index index val s =
     (if \<not> pt_exists s then Inl NULL_PT
      else if index < 0 \<or> nat index \<ge> length (next_entry s) then Inl PT_INDEX
      else
        let e = next_entry s ! nat index
        in Inr (s\<lparr>next_entry := (next_entry s)[nat index := e\<lparr>e_status := e_status e OR ucast val\<rparr>]\<rparr>))"

section \<open>The contract of a queue of pages per process\<close>

text \<open>Evicting \<open>n\<close> pages of a process: choose the victim, reset its entry.\<close>

fun evict_pages ::
  "(int \<Rightarrow> 's \<Rightarrow> (int \<times> 'e) kres) \<Rightarrow> (int \<Rightarrow> 's \<Rightarrow> 's kres) \<Rightarrow> int \<Rightarrow> nat \<Rightarrow> 's \<Rightarrow> (nat list \<times> 's) kres"
  where
  "evict_pages victim reset pid 0 s = Inr ([], s)"
| "evict_pages victim reset pid (Suc n) s =
     sbind (victim pid s) (\<lambda>(i, e).
     if i = -1 then Inr ([], s)
     else
       sbind (reset i s) (\<lambda>s.
       sbind (evict_pages victim reset pid n s) (\<lambda>(is, s). Inr (nat i # is, s))))"

locale page_queue =
  fixes add :: "int \<Rightarrow> nat \<Rightarrow> 's \<Rightarrow> 's kres"
    and reset :: "int \<Rightarrow> 's \<Rightarrow> 's kres"
    and victim :: "int \<Rightarrow> 's \<Rightarrow> (int \<times> 'e) kres"
    and inv :: "'s \<Rightarrow> bool"
    and free :: "'s \<Rightarrow> nat set"
    and queue :: "int \<Rightarrow> 's \<Rightarrow> nat list"
  assumes add_queue: "inv s \<Longrightarrow> pid \<noteq> -1 \<Longrightarrow> i \<in> free s \<Longrightarrow>
      \<exists>s'. add pid i s = Inr s' \<and> inv s' \<and> free s' = free s - {i} \<and> queue pid s' = queue pid s @ [i]"
    and reset_queue: "inv s \<Longrightarrow> pid \<noteq> -1 \<Longrightarrow> i \<in> set (queue pid s) \<Longrightarrow>
      \<exists>s'. reset (int i) s = Inr s' \<and> inv s' \<and> free s' = insert i (free s) \<and>
        queue pid s' = remove1 i (queue pid s)"
    and victim_none: "inv s \<Longrightarrow> pid \<noteq> -1 \<Longrightarrow> queue pid s = [] \<Longrightarrow> \<exists>e. victim pid s = Inr (-1, e)"
    and victim_hd: "inv s \<Longrightarrow> pid \<noteq> -1 \<Longrightarrow> queue pid s = i # is \<Longrightarrow> \<exists>e. victim pid s = Inr (int i, e)"
begin

lemma add_all:
  assumes "inv s" and "pid \<noteq> -1" and "distinct fs" and "set fs \<subseteq> free s"
  shows "\<exists>s'. kfor fs (add pid) s = Inr s' \<and> inv s' \<and> queue pid s' = queue pid s @ fs"
  using assms
proof (induction fs arbitrary: s)
  case Nil
  then show ?case by simp
next
  case (Cons i fs)
  then obtain s1 where s1: "add pid i s = Inr s1" "inv s1" "free s1 = free s - {i}"
    "queue pid s1 = queue pid s @ [i]"
    using add_queue [of s pid i] by auto
  with Cons.prems have "set fs \<subseteq> free s1" by auto
  from Cons.IH [OF s1(2) Cons.prems(2) _ this] Cons.prems s1 show ?case by simp
qed

lemma evict_order:
  assumes "inv s" and "pid \<noteq> -1"
  shows "\<exists>s'. evict_pages victim reset pid n s = Inr (take n (queue pid s), s') \<and> inv s' \<and>
    queue pid s' = drop n (queue pid s)"
  using assms
proof (induction n arbitrary: s)
  case 0
  then show ?case by simp
next
  case (Suc n)
  show ?case
  proof (cases "queue pid s")
    case Nil
    then obtain e where "victim pid s = Inr (-1, e)" using victim_none Suc.prems by blast
    then show ?thesis using Nil Suc.prems by simp
  next
    case (Cons i "is")
    then obtain e where e: "victim pid s = Inr (int i, e)" using victim_hd Suc.prems by blast
    from Cons obtain s1 where s1: "reset (int i) s = Inr s1" "inv s1" "queue pid s1 = is"
      using reset_queue [OF Suc.prems, of i] by auto
    from Suc.IH [OF s1(2) Suc.prems(2)] e s1 Cons show ?thesis by auto
  qed
qed

end

section \<open>The queue that the positions describe\<close>

definition frames_of :: "int \<Rightarrow> entry list \<Rightarrow> nat list" where
  "frames_of p es = filter (\<lambda>i. e_pid (es ! i) = p) [0..<length es]"

definition fifo_of :: "int \<Rightarrow> entry list \<Rightarrow> nat list" where
  "fifo_of p es = sort_key (\<lambda>i. e_position_fifo (es ! i)) (frames_of p es)"

text \<open>The positions of the pages of every process count up from 0.\<close>

definition pt_fifo :: "entry list \<Rightarrow> bool" where
  "pt_fifo es \<longleftrightarrow> (\<forall>p. p \<noteq> -1 \<longrightarrow>
     map (\<lambda>i. e_position_fifo (es ! i)) (fifo_of p es) = map int [0..<length (fifo_of p es)])"

text \<open>What holds of the table between two calls, clock ticks included, and what holds as long as the clock has not
  ticked since a page was added.\<close>

definition pt_ok :: "'a pt_state_scheme \<Rightarrow> bool" where
  "pt_ok s \<longleftrightarrow> cpu_ok s \<and> pt_exists s \<and> table_lock s = spinlock_init \<and> length (next_entry s) \<le> 131072"

definition pt_inv :: "'a pt_state_scheme \<Rightarrow> bool" where
  "pt_inv s \<longleftrightarrow> pt_ok s \<and> pt_fifo (next_entry s)"

lemma pt_inv_ok: "pt_inv s \<Longrightarrow> pt_ok s"
  by (simp add: pt_inv_def)

definition pt_free :: "'a pt_state_scheme \<Rightarrow> nat set" where
  "pt_free s = {i. i < length (next_entry s) \<and> e_pid (next_entry s ! i) = -1}"

definition is_fifo :: "int \<Rightarrow> entry list \<Rightarrow> nat list \<Rightarrow> bool" where
  "is_fifo p es q \<longleftrightarrow> set q = {i. i < length es \<and> e_pid (es ! i) = p} \<and>
     map (\<lambda>i. e_position_fifo (es ! i)) q = map int [0..<length q]"

lemma set_fifo_of: "set (fifo_of p es) = {i. i < length es \<and> e_pid (es ! i) = p}"
  by (auto simp: fifo_of_def frames_of_def)

lemma is_fifo_unique:
  assumes "is_fifo p es q"
  shows "fifo_of p es = q"
  unfolding fifo_of_def
proof (rule sort_key_inj_key_eq)
  let ?pos = "\<lambda>i. e_position_fifo (es ! i)"
  have pos: "map ?pos q = map int [0..<length q]" using assms by (simp add: is_fifo_def)
  then have "distinct (map ?pos q)" by (simp add: distinct_map)
  then have q: "distinct q" "inj_on ?pos (set q)" by (simp_all add: distinct_map)
  have same: "set (frames_of p es) = set q" using assms by (auto simp: is_fifo_def frames_of_def)
  then show "inj_on ?pos (set (frames_of p es))" using q by simp
  have "distinct (frames_of p es)" by (simp add: frames_of_def)
  then show "mset (frames_of p es) = mset q"
    using q same by (simp add: set_eq_iff_mset_eq_distinct)
  show "sorted (map ?pos q)" unfolding pos by (simp add: sorted_map sorted_wrt_upt)
qed

lemma pt_fifo_iff: "pt_fifo es \<longleftrightarrow> (\<forall>p. p \<noteq> -1 \<longrightarrow> is_fifo p es (fifo_of p es))"
  by (simp add: pt_fifo_def is_fifo_def set_fifo_of)

lemma pt_fifoI: "(\<And>p. p \<noteq> -1 \<Longrightarrow> is_fifo p es (q p)) \<Longrightarrow> pt_fifo es"
  unfolding pt_fifo_iff by (metis is_fifo_unique)

lemma is_fifo_distinct: "is_fifo p es q \<Longrightarrow> distinct q"
proof -
  assume "is_fifo p es q"
  then have "distinct (map (\<lambda>i. e_position_fifo (es ! i)) q)" by (simp add: is_fifo_def distinct_map)
  then show ?thesis by (simp add: distinct_map)
qed

lemma is_fifo_length:
  assumes "is_fifo p es q"
  shows "length q \<le> length es"
proof -
  have "length q = card (set q)" using is_fifo_distinct [OF assms] by (simp add: distinct_card)
  also have "\<dots> \<le> card {..<length es}" using assms by (intro card_mono) (auto simp: is_fifo_def)
  finally show ?thesis by simp
qed

lemma is_fifo_position:
  assumes "is_fifo p es q" and "k < length q"
  shows "e_position_fifo (es ! (q ! k)) = int k"
proof -
  have "map (\<lambda>i. e_position_fifo (es ! i)) q ! k = map int [0..<length q] ! k"
    using assms(1) by (simp add: is_fifo_def)
  with assms(2) show ?thesis by simp
qed

section \<open>The operations on the queue\<close>

interpretation table: lock_field table_lock table_lock_update
  by unfold_locales (simp_all add: cpu_hold_def cpu_unhold_def)

lemma critical_table:
  assumes "cpu_ok s" and "table_lock s = spinlock_init"
  shows "lock_acq table_lock table_lock_update s = Inr (lock_enter table_lock_update s)"
    and "lock_rel table_lock table_lock_update
      (lock_enter table_lock_update s\<lparr>next_entry := es\<rparr>) = Inr (s\<lparr>next_entry := es\<rparr>)"
    and "lock_rel table_lock table_lock_update (lock_enter table_lock_update s) = Inr s"
    and "next_entry (lock_enter table_lock_update s) = next_entry s"
  using assms table.acq [OF assms] table.rel_enter [OF assms]
    table.rel_mod [where g = "next_entry_update (\<lambda>_. es)" and s = s]
  by (simp_all add: lock_defs cpu_ok_def)

lemma frame_index_of_frame:
  assumes "i \<le> 131072"
  shows "unat (of_int (sint (of_nat i * PAGE_SIZE :: u32) div 4096) :: u32) = i"
proof -
  have i: "unat (of_nat i :: u32) = i" using assms by (simp add: unat_of_nat)
  have "unat (of_nat i * PAGE_SIZE :: u32) = i * 4096"
    using assms i unat_pages [of "of_nat i"] by simp
  then have "sint (of_nat i * PAGE_SIZE :: u32) = int (i * 4096)"
    using assms by (subst sint_small) simp_all
  then show ?thesis using assms by (simp add: unat_of_nat)
qed

lemma last_fifo_fold:
  "fold (\<lambda>e m. if pid = e_pid e \<and> e_position_fifo e > m then e_position_fifo e else m) es m =
     Max (insert m {e_position_fifo e | e. e \<in> set es \<and> e_pid e = pid})"
proof (induction es arbitrary: m)
  case Nil
  then show ?case by simp
next
  case (Cons e es)
  let ?S = "{e_position_fifo e | e. e \<in> set es \<and> e_pid e = pid}"
  have fin: "finite ?S" by simp
  have "{e_position_fifo e' | e'. e' \<in> set (e # es) \<and> e_pid e' = pid} =
      (if e_pid e = pid then insert (e_position_fifo e) ?S else ?S)" by auto
  moreover have "Max (insert m (insert x S)) = Max (insert (max m x) S)" if "finite S" for x S
    using that by (cases "S = {}") (simp_all add: max.assoc)
  ultimately show ?case using fin by (auto simp: Cons.IH max_def)
qed

lemma last_fifo_queue:
  assumes "is_fifo pid es q"
  shows "last_fifo pid es = int (length q) - 1"
proof -
  have "{e_position_fifo e | e. e \<in> set es \<and> e_pid e = pid} = (\<lambda>i. e_position_fifo (es ! i)) ` set q"
    using assms by (auto simp: is_fifo_def in_set_conv_nth)
  also have "\<dots> = int ` {0..<length q}"
    using assms by (metis is_fifo_def set_map set_upt)
  finally have "last_fifo pid es = Max (insert (-1) (int ` {0..<length q}))"
    by (simp add: last_fifo_def last_fifo_fold)
  also have "\<dots> = int (length q) - 1"
  proof (cases "length q")
    case (Suc n)
    have "Max (insert (-1) (int ` {0..<Suc n})) = int n" by (rule Max_eqI) auto
    with Suc show ?thesis by simp
  qed simp
  finally show ?thesis .
qed

definition pt_add :: "int \<Rightarrow> vaddr \<Rightarrow> nat \<Rightarrow> u32 \<Rightarrow> entry list \<Rightarrow> entry list" where
  "pt_add pid vaddr i status es = es[i := (es ! i)\<lparr>e_pid := pid, e_vaddr := vaddr, e_status := status,
     e_position_fifo := int32 (last_fifo pid es + 1)\<rparr>]"

definition pt_reset :: "nat \<Rightarrow> entry list \<Rightarrow> entry list" where
  "pt_reset i es = map (close_gap (e_pid (es ! i)) (e_position_fifo (es ! i)))
     (es[i := (es ! i)\<lparr>e_pid := -1, e_vaddr := 0, e_status := 0, e_position_fifo := 0\<rparr>])"

lemma page_table_add_entry_eq:
  assumes "pt_ok s" and "i < length (next_entry s)"
  shows "page_table_add_entry pid vaddr (of_nat i * PAGE_SIZE) status s =
    Inr (s\<lparr>next_entry := pt_add pid vaddr i status (next_entry s)\<rparr>)"
proof -
  have s: "cpu_ok s" "pt_exists s" "table_lock s = spinlock_init" and i: "i \<le> 131072" using assms by (simp_all add: pt_ok_def)
  note c = critical_table [OF s(1,3)]
  show ?thesis
    unfolding page_table_add_entry_def Let_def frame_index_of_frame [OF i] kassert_def c(1) sbind.simps c(4) pt_add_def
    by (simp only: s(2) assms(2) not_True_eq_False if_False if_True c(2))
qed

lemma page_table_reset_entry_eq:
  assumes "pt_ok s" and "i < length (next_entry s)"
  shows "page_table_reset_entry (int i) s =
    Inr (s\<lparr>next_entry := pt_reset i (next_entry s)\<rparr>)"
  using assms
  by (simp add: page_table_reset_entry_def pt_ok_def critical_table pt_reset_def Let_def)

lemma length_pt_add [simp]: "length (pt_add pid vaddr i status es) = length es"
  by (simp add: pt_add_def)

lemma pt_add_pid:
  "i < length es \<Longrightarrow> e_pid (pt_add pid vaddr i status es ! j) = (if i = j then pid else e_pid (es ! j))"
  by (simp add: pt_add_def)

lemma pt_add_queue:
  assumes "pt_fifo es" and "length es \<le> 131072" and "pid \<noteq> -1" and "i < length es"
    and "e_pid (es ! i) = -1" and "p \<noteq> -1"
  shows "is_fifo p (pt_add pid vaddr i status es)
    (if p = pid then fifo_of p es @ [i] else fifo_of p es)"
proof -
  have q: "is_fifo p es (fifo_of p es)" using assms by (simp add: pt_fifo_iff)
  have len: "length (fifo_of p es) \<le> 131072" using is_fifo_length [OF q] assms(2) by simp
  have "i \<noteq> j" if "j \<in> set (fifo_of p es)" for j
    using that assms(5,6) by (auto simp: set_fifo_of)
  then have old: "map (\<lambda>j. e_position_fifo (pt_add pid vaddr i status es ! j)) (fifo_of p es) =
      map (\<lambda>j. e_position_fifo (es ! j)) (fifo_of p es)"
    by (auto simp: pt_add_def)
  show ?thesis
  proof (cases "p = pid")
    case True
    have "e_position_fifo (pt_add pid vaddr i status es ! i) = int (length (fifo_of p es))"
      using True len assms(4) last_fifo_queue [OF q] by (simp add: pt_add_def)
    moreover have "map (\<lambda>j. e_position_fifo (es ! j)) (fifo_of p es) = map int [0..<length (fifo_of p es)]"
      using q by (simp only: is_fifo_def)
    ultimately show ?thesis using True old assms(4,5)
      by (auto simp: is_fifo_def pt_add_pid set_fifo_of)
  next
    case False
    then show ?thesis
      using q old assms(4-6) by (simp add: is_fifo_def) (auto simp: pt_add_pid)
  qed
qed

lemma remove1_middle: "distinct (xs @ i # ys) \<Longrightarrow> remove1 i (xs @ i # ys) = xs @ ys"
  by (simp add: remove1_append)

lemma pt_reset_nth:
  assumes "i < length es" and "j < length es"
  shows "pt_reset i es ! j =
    (if i = j then close_gap (e_pid (es ! i)) (e_position_fifo (es ! i))
        ((es ! i)\<lparr>e_pid := -1, e_vaddr := 0, e_status := 0, e_position_fifo := 0\<rparr>)
     else close_gap (e_pid (es ! i)) (e_position_fifo (es ! i)) (es ! j))"
  using assms by (simp add: pt_reset_def)

lemma pt_reset_pid:
  "i < length es \<Longrightarrow> j < length es \<Longrightarrow>
     e_pid (pt_reset i es ! j) = (if i = j then -1 else e_pid (es ! j))"
  by (simp add: pt_reset_nth close_gap_def)

lemma length_pt_reset [simp]: "length (pt_reset i es) = length es"
  by (simp add: pt_reset_def)

lemma pt_reset_queue:
  assumes fifo: "pt_fifo es" and i: "i < length es" and p: "p \<noteq> -1"
  shows "is_fifo p (pt_reset i es) (remove1 i (fifo_of p es))"
proof (cases "e_pid (es ! i) = p")
  case False
  have q: "is_fifo p es (fifo_of p es)" using fifo p by (simp add: pt_fifo_iff)
  from False have ni: "i \<notin> set (fifo_of p es)" by (simp add: set_fifo_of)
  have "e_position_fifo (pt_reset i es ! j) = e_position_fifo (es ! j)"
    if "j \<in> set (fifo_of p es)" for j
    using that False i ni by (auto simp: set_fifo_of pt_reset_nth close_gap_def)
  then have "map (\<lambda>j. e_position_fifo (pt_reset i es ! j)) (fifo_of p es) =
      map (\<lambda>j. e_position_fifo (es ! j)) (fifo_of p es)" by simp
  moreover have "{j. j < length es \<and> e_pid (pt_reset i es ! j) = p} = set (fifo_of p es)"
    using i False p by (auto simp: pt_reset_pid set_fifo_of split: if_splits)
  ultimately show ?thesis
    using q unfolding is_fifo_def remove1_idem [OF ni] length_pt_reset by (simp only:)
next
  case True
  have q: "is_fifo p es (fifo_of p es)" using fifo p by (simp add: pt_fifo_iff)
  then have dist: "distinct (fifo_of p es)" by (rule is_fifo_distinct)
  have "i \<in> set (fifo_of p es)" using True i by (simp add: set_fifo_of)
  then obtain xs ys where split: "fifo_of p es = xs @ i # ys" by (meson split_list)
  note pos = is_fifo_position [OF q, unfolded split]
  have k: "e_position_fifo (es ! i) = int (length xs)" using pos [of "length xs"] by simp
  have before: "e_position_fifo (pt_reset i es ! (xs ! j)) = int j" if "j < length xs" for j
  proof -
    have "xs ! j \<in> set (fifo_of p es)" "i \<noteq> xs ! j"
      using that dist by (auto simp: split)
    then show ?thesis
      using that pos [of j] i k by (simp add: set_fifo_of pt_reset_nth close_gap_def nth_append)
  qed
  have after: "e_position_fifo (pt_reset i es ! (ys ! j)) = int (length xs + j)"
    if "j < length ys" for j
  proof -
    have "ys ! j \<in> set (fifo_of p es)" "i \<noteq> ys ! j"
      using that dist by (auto simp: split)
    then show ?thesis
      using that pos [of "Suc (length xs + j)"] i k True
      by (simp add: set_fifo_of pt_reset_nth close_gap_def nth_append)
  qed
  have "map (\<lambda>j. e_position_fifo (pt_reset i es ! j)) (xs @ ys) = map int [0..<length (xs @ ys)]"
    by (rule nth_equalityI) (auto simp: nth_append before after)
  moreover have "set (xs @ ys) = {j. j < length (pt_reset i es) \<and> e_pid (pt_reset i es ! j) = p}"
  proof -
    have "set (xs @ ys) = set (fifo_of p es) - {i}" using dist by (auto simp: split)
    also have "\<dots> = {j. j < length es \<and> e_pid (pt_reset i es ! j) = p}"
      using i p by (auto simp: set_fifo_of pt_reset_pid split: if_splits)
    finally show ?thesis by simp
  qed
  ultimately show ?thesis
    using dist by (simp add: is_fifo_def split remove1_middle)
qed

lemma replacement_hd:
  assumes inv: "pt_inv s" and p: "pid \<noteq> -1" and q: "fifo_of pid (next_entry s) = i # is"
  shows "page_table_replacement pid s = Inr (int i, Some (next_entry s ! i))"
proof -
  let ?es = "next_entry s" and ?P = "\<lambda>e. e_position_fifo e = 0 \<and> e_pid e = pid"
  have fifo: "is_fifo pid ?es (i # is)" using inv p q by (metis pt_inv_def pt_fifo_iff)
  have i: "i < length ?es" "?P (?es ! i)"
    using is_fifo_position [OF fifo, of 0] fifo by (auto simp: is_fifo_def)
  then have "find_first ?P 0 ?es \<noteq> -1" by (auto simp: find_first_none)
  then obtain j where j: "j < length ?es" "find_first ?P 0 ?es = int j" "?P (?es ! j)"
    using find_first_eq [of ?P 0 ?es] by auto
  then have "j \<in> set (i # is)" using fifo by (simp add: is_fifo_def)
  then obtain k where "k < length (i # is)" "j = (i # is) ! k" by (metis in_set_conv_nth)
  then have "j = i" using is_fifo_position [OF fifo, of k] j(3) by simp
  with j inv show ?thesis by (simp add: page_table_replacement_def pt_inv_def pt_ok_def)
qed

lemma replacement_none:
  assumes "pt_inv s" and "fifo_of pid (next_entry s) = []"
  shows "page_table_replacement pid s = Inr (-1, None)"
proof -
  have "e_pid e \<noteq> pid" if "e \<in> set (next_entry s)" for e
    using that assms(2) set_fifo_of [of pid "next_entry s"] by (auto simp: in_set_conv_nth)
  then have "find_first (\<lambda>e. e_position_fifo e = 0 \<and> e_pid e = pid) 0 (next_entry s) = -1"
    by (simp add: find_first_none)
  with assms show ?thesis by (simp add: page_table_replacement_def pt_inv_def pt_ok_def)
qed

section \<open>The page table is such a queue\<close>

lemma pt_inv_upd:
  "pt_inv s \<Longrightarrow> pt_fifo es \<Longrightarrow> length es = length (next_entry s) \<Longrightarrow> pt_inv (s\<lparr>next_entry := es\<rparr>)"
  by (simp add: pt_inv_def pt_ok_def cpu_ok_def)

lemma pt_ok_upd: "pt_ok s \<Longrightarrow> length es = length (next_entry s) \<Longrightarrow> pt_ok (s\<lparr>next_entry := es\<rparr>)"
  by (simp add: pt_ok_def cpu_ok_def)

lemma add_entry_queue:
  assumes inv: "pt_inv s" and p: "pid \<noteq> -1" and i: "i \<in> pt_free s"
  shows "\<exists>s'. page_table_add_entry pid vaddr (of_nat i * PAGE_SIZE) status s = Inr s' \<and> pt_inv s' \<and>
    pt_free s' = pt_free s - {i} \<and>
    fifo_of pid (next_entry s') = fifo_of pid (next_entry s) @ [i]"
proof -
  let ?es = "pt_add pid vaddr i status (next_entry s)"
  have i': "i < length (next_entry s)" "e_pid (next_entry s ! i) = -1"
    using i by (simp_all add: pt_free_def)
  have es: "pt_fifo (next_entry s)" "length (next_entry s) \<le> 131072"
    using inv by (simp_all add: pt_inv_def pt_ok_def)
  note q = pt_add_queue [OF es p i']
  have "pt_fifo ?es" using q by (rule pt_fifoI)
  then have "pt_inv (s\<lparr>next_entry := ?es\<rparr>)" using inv by (simp add: pt_inv_upd)
  moreover have "fifo_of pid ?es = fifo_of pid (next_entry s) @ [i]"
    using is_fifo_unique [OF q [OF p]] by simp
  moreover have "pt_free (s\<lparr>next_entry := ?es\<rparr>) = pt_free s - {i}"
    using i' p by (auto simp: pt_free_def pt_add_pid)
  ultimately show ?thesis using page_table_add_entry_eq [OF pt_inv_ok [OF inv] i'(1)] by simp
qed

lemma reset_entry_queue:
  assumes inv: "pt_inv s" and p: "pid \<noteq> -1" and i: "i \<in> set (fifo_of pid (next_entry s))"
  shows "\<exists>s'. page_table_reset_entry (int i) s = Inr s' \<and> pt_inv s' \<and>
    pt_free s' = insert i (pt_free s) \<and>
    fifo_of pid (next_entry s') = remove1 i (fifo_of pid (next_entry s))"
proof -
  let ?es = "pt_reset i (next_entry s)"
  have i': "i < length (next_entry s)" using i by (simp add: set_fifo_of)
  have es: "pt_fifo (next_entry s)" using inv by (simp add: pt_inv_def)
  note q = pt_reset_queue [OF es i']
  have "pt_fifo ?es" using q by (rule pt_fifoI)
  then have "pt_inv (s\<lparr>next_entry := ?es\<rparr>)" using inv by (simp add: pt_inv_upd)
  moreover have "fifo_of pid ?es = remove1 i (fifo_of pid (next_entry s))"
    using is_fifo_unique [OF q [OF p]] by simp
  moreover have "pt_free (s\<lparr>next_entry := ?es\<rparr>) = insert i (pt_free s)"
    using i' by (auto simp: pt_free_def pt_reset_pid)
  ultimately show ?thesis using page_table_reset_entry_eq [OF pt_inv_ok [OF inv] i'] by simp
qed

interpretation pt_queue: page_queue
  "\<lambda>pid i. page_table_add_entry pid (va i) (of_nat i * PAGE_SIZE) status" page_table_reset_entry
  page_table_replacement pt_inv pt_free "\<lambda>pid s. fifo_of pid (next_entry s)" for va status
  by unfold_locales
    (auto intro: add_entry_queue reset_entry_queue simp: replacement_none replacement_hd)

lemma fifo_of_fresh:
  assumes "\<forall>e \<in> set es. e_pid e = -1" and "p \<noteq> -1"
  shows "fifo_of p es = []"
proof -
  have "\<not> (i < length es \<and> e_pid (es ! i) = p)" for i using assms nth_mem [of i es] by auto
  then have "set (fifo_of p es) = {}" unfolding set_fifo_of by blast
  then show ?thesis by simp
qed

lemma pt_fifo_fresh: "\<forall>e \<in> set es. e_pid e = -1 \<Longrightarrow> pt_fifo es"
  by (simp add: pt_fifo_def fifo_of_fresh)

section \<open>Lookup\<close>

lemma find_last_fold:
  "(\<forall>i < n. \<not> P (xs ! i)) \<and> fold (\<lambda>i last. if P (xs ! i) then i else last) [0..<n] d = d \<or>
   (\<exists>r < n. fold (\<lambda>i last. if P (xs ! i) then i else last) [0..<n] d = r \<and> P (xs ! r) \<and>
     (\<forall>i < n. P (xs ! i) \<longrightarrow> i \<le> r))"
  by (induction n) (auto simp: less_Suc_eq)

lemma find_last_cases [case_names none found]:
  obtains (none) "\<forall>x \<in> set xs. \<not> P x" and "find_last P xs = length xs"
  | (found) r where "find_last P xs = r" and "r < length xs" and "P (xs ! r)"
      and "\<forall>i < length xs. P (xs ! i) \<longrightarrow> i \<le> r"
  using find_last_fold [of "length xs" P xs "length xs"]
  by (auto simp: find_last_def all_set_conv_all_nth)

lemma find_last_unique:
  assumes "i < length xs" and "P (xs ! i)" and "\<And>j. j < length xs \<Longrightarrow> P (xs ! j) \<Longrightarrow> j = i"
  shows "find_last P xs = i"
proof (cases P xs rule: find_last_cases)
  case none
  then show ?thesis using assms(1,2) by simp
next
  case (found r)
  then show ?thesis using assms(3) [of r] by simp
qed

lemma find_last_none: "find_last P xs = length xs \<longleftrightarrow> (\<forall>x \<in> set xs. \<not> P x)"
  by (cases P xs rule: find_last_cases) auto

lemma find_last_hit: "find_last P xs \<noteq> length xs \<Longrightarrow> P (xs ! find_last P xs)"
  by (cases P xs rule: find_last_cases) auto

lemma get_paddr_entry_eq:
  assumes "pt_ok s"
  shows "page_table_get_paddr_entry pid vaddr s =
    (let last = find_last (\<lambda>e. e_pid e = pid \<and> e_vaddr e = vaddr) (next_entry s)
     in Inr (if last = length (next_entry s) then None
             else Some (of_nat last * PAGE_SIZE, e_status (next_entry s ! last)), s))"
  using assms by (simp add: page_table_get_paddr_entry_def pt_ok_def critical_table Let_def)

lemma find_last_cong:
  assumes "length xs = length ys" and "\<And>j. j < length xs \<Longrightarrow> P (xs ! j) = P (ys ! j)"
  shows "find_last P xs = find_last P ys"
  unfolding find_last_def using assms by (intro fold_cong) auto

section \<open>Clock ticks and the removal of a process\<close>

lemma pt_inv_position:
  assumes "pt_inv s" and "e \<in> set (next_entry s)" and "e_pid e \<noteq> -1"
  shows "0 \<le> e_position_fifo e \<and> e_position_fifo e < 131072"
proof -
  let ?es = "next_entry s" and ?q = "fifo_of (e_pid e) (next_entry s)"
  have q: "is_fifo (e_pid e) ?es ?q" using assms by (simp add: pt_inv_def pt_fifo_iff)
  obtain i where i: "i < length ?es" "e = ?es ! i" using assms(2) by (metis in_set_conv_nth)
  then have "i \<in> set ?q" by (simp add: set_fifo_of)
  then obtain k where k: "k < length ?q" "i = ?q ! k" by (metis in_set_conv_nth)
  have "length ?q \<le> 131072" using is_fifo_length [OF q] assms(1) by (simp add: pt_inv_def pt_ok_def)
  moreover have "e_position_fifo e = int k"
    using is_fifo_position [OF q k(1)] unfolding k(2) [symmetric] i(2) [symmetric] .
  ultimately show ?thesis using k(1) by simp
qed

lemma lru_update_cnt_eq:
  "pt_ok s \<Longrightarrow> lru_update_cnt s = Inr (s\<lparr>next_entry := map (\<lambda>e. if e_pid e \<noteq> -1
     then e\<lparr>e_position_fifo := int32 (e_position_fifo e + 1)\<rparr> else e) (next_entry s)\<rparr>)"
  by (simp add: lru_update_cnt_def pt_ok_def critical_table)

text \<open>\<^verbatim>\<open>lru_update_cnt\<close>, which the clock interrupt calls, adds one to the position of every
  page in use. No page is left at position 0, so that after a single tick
  \<^verbatim>\<open>page_table_replacement\<close> finds no victim for any process.\<close>

lemma lru_update_cnt_no_victim:
  assumes "pt_inv s"
  shows "\<exists>s'. lru_update_cnt s = Inr s' \<and>
    (\<forall>pid. pid \<noteq> -1 \<longrightarrow> page_table_replacement pid s' = Inr (-1, None))"
proof -
  let ?es = "map (\<lambda>e. if e_pid e \<noteq> -1
     then e\<lparr>e_position_fifo := int32 (e_position_fifo e + 1)\<rparr> else e) (next_entry s)"
  have "find_first (\<lambda>e. e_position_fifo e = 0 \<and> e_pid e = pid) 0 ?es = -1" if "pid \<noteq> -1" for pid
    unfolding find_first_none using pt_inv_position [OF assms] that by force
  moreover have "pt_exists s" using assms by (simp add: pt_inv_def pt_ok_def)
  ultimately show ?thesis
    by (simp add: lru_update_cnt_eq [OF pt_inv_ok [OF assms]] page_table_replacement_def del: map_map)
qed

lemma reset_entry_locked:
  assumes "pt_ok s" and "i < length (next_entry s)"
  shows "page_table_reset_entry (int i) (lock_enter table_lock_update s) =
    Inl (Panic ''Deadlock on spinlock'')"
proof -
  have "curcpu_exists s" "pt_exists s" using assms by (simp_all add: pt_ok_def cpu_ok_def)
  moreover have "lock_acq table_lock table_lock_update (lock_enter table_lock_update s) =
      Inl (Panic ''Deadlock on spinlock'')"
    using calculation by (intro table.acq_held) simp_all
  moreover have "pt_exists (lock_enter table_lock_update s) = pt_exists s" by (simp add: lock_defs)
  moreover have "next_entry (lock_enter table_lock_update s) = next_entry s" by (simp add: lock_defs)
  ultimately show ?thesis using assms by (simp add: page_table_reset_entry_def Let_def)
qed

lemma fifo_of_Nil: "fifo_of p es = [] \<longleftrightarrow> (\<forall>i < length es. e_pid (es ! i) \<noteq> p)"
  using set_fifo_of [of p es] by (metis (mono_tags, lifting) Collect_empty_eq set_empty)

lemma remove_on_pids_eq:
  assumes inv: "pt_ok s" and pid: "0 \<le> pid"
  shows "page_table_remove_on_pids pid s =
    (if fifo_of pid (next_entry s) = [] then Inr s else Inl (Panic ''Deadlock on spinlock''))"
proof -
  let ?t = "lock_enter table_lock_update s"
  let ?f = "\<lambda>i s. if e_pid (next_entry s ! i) = pid then
     sbind (page_table_reset_entry (int i) s) (\<lambda>s.
     sbind (freeppages (of_nat i * PAGE_SIZE) s) (\<lambda>(r, s). Inr s)) else Inr s"
  have ok: "cpu_ok s" "pt_exists s" "table_lock s = spinlock_init" using inv by (simp_all add: pt_ok_def)
  have es: "next_entry ?t = next_entry s" by (simp add: critical_table(4) ok)
  have body: "?f i ?t = (if e_pid (next_entry s ! i) = pid then Inl (Panic ''Deadlock on spinlock'')
      else Inr ?t)" if "i \<in> set [0..<length (next_entry s)]" for i
    using that by (simp add: es reset_entry_locked [OF inv])
  show ?thesis
  proof (cases "fifo_of pid (next_entry s) = []")
    case True
    then have "kfor [0..<length (next_entry s)] ?f ?t = Inr ?t"
      by (intro kfor_skip) (simp add: body fifo_of_Nil es)
    with True pid ok show ?thesis
      by (simp add: page_table_remove_on_pids_def critical_table es)
  next
    case False
    then obtain i where "i < length (next_entry s)" "e_pid (next_entry s ! i) = pid"
      by (auto simp: fifo_of_Nil)
    then have "kfor [0..<length (next_entry s)] ?f ?t = Inl (Panic ''Deadlock on spinlock'')"
      by (intro kfor_fail [where i = i and P = "\<lambda>i. e_pid (next_entry s ! i) = pid"] body) simp_all
    with False pid ok show ?thesis
      by (simp add: page_table_remove_on_pids_def critical_table es)
  qed
qed

section \<open>Properties\<close>

definition entry_free :: entry where
  "entry_free = \<lparr>e_vaddr = 0, e_pid = -1, e_status = 0, e_permission_flag = READ_ONLY, e_position_fifo = 0\<rparr>"

definition pt_sample :: pt_state where
  "pt_sample = coremap_state.extend coremap_sample_up
     \<lparr>pt_exists = True, next_entry = replicate 8 entry_free, table_lock = spinlock_init\<rparr>"

lemma pt_sample_simps [simp]:
  "next_entry pt_sample = replicate 8 entry_free" "pt_exists pt_sample"
  "table_lock pt_sample = spinlock_init"
  by (simp_all add: pt_sample_def coremap_state.extend_def)

lemma pt_sample_cpu [simp]: "cpu_ok pt_sample"
  by (simp add: pt_sample_def coremap_sample_up_def coremap_sample_def ram_sample_def cpu_sample_def
      coremap_state.extend_def ram_state.extend_def cpu_state.extend_def cpu_ok_def)

lemma pt_sample_inv: "pt_inv pt_sample"
  by (simp add: pt_inv_def pt_ok_def pt_fifo_fresh entry_free_def)

lemmas pt_sample_ok = pt_inv_ok [OF pt_sample_inv]

lemma pt_sample_free: "pt_free pt_sample = {..<8}"
  by (auto simp: pt_free_def entry_free_def)

text \<open>C5: As long as the clock does not tick, the table is a first-in first-out queue of the pages of each process. Let
  the positions of the pages of every process count up from 0, as they do in an empty table. After pages have been
  added to free frames in some order, choosing a victim with \<^verbatim>\<open>page_table_replacement\<close> and resetting it, again and
  again, yields the frames the process already had and then the added ones, in the order in which they were
  added, and the positions count up from 0 again. One clock tick, which calls \<^verbatim>\<open>lru_update_cnt\<close>, ends this: after it
  \<^verbatim>\<open>page_table_replacement\<close> finds no victim for any process.\<close>

theorem page_table_fifo_order:
  assumes "pt_inv s" and "pid \<noteq> -1" and "distinct fs" and "set fs \<subseteq> pt_free s"
  shows "\<exists>s1 s2 s3.
    kfor fs (\<lambda>i. page_table_add_entry pid (va i) (of_nat i * PAGE_SIZE) status) s = Inr s1 \<and>
    evict_pages page_table_replacement page_table_reset_entry pid n s1 =
      Inr (take n (fifo_of pid (next_entry s) @ fs), s2) \<and> pt_inv s2 \<and>
    lru_update_cnt s1 = Inr s3 \<and> (\<forall>q. q \<noteq> -1 \<longrightarrow> page_table_replacement q s3 = Inr (-1, None))"
proof -
  from pt_queue.add_all [OF assms, of va status] obtain s1 where s1:
    "kfor fs (\<lambda>i. page_table_add_entry pid (va i) (of_nat i * PAGE_SIZE) status) s = Inr s1"
    "pt_inv s1" "fifo_of pid (next_entry s1) = fifo_of pid (next_entry s) @ fs" by auto
  from pt_queue.evict_order [OF s1(2) assms(2), of n] s1 lru_update_cnt_no_victim [OF s1(2)] show ?thesis by auto
qed

theorem page_table_fifo_order_witness:
  "\<exists>s1 s2 s3. kfor [5, 2, 7] (\<lambda>i. page_table_add_entry 3 (of_nat i) (of_nat i * PAGE_SIZE) 0) pt_sample
      = Inr s1 \<and>
    evict_pages page_table_replacement page_table_reset_entry 3 2 s1 = Inr ([5, 2], s2) \<and>
    lru_update_cnt s1 = Inr s3 \<and> page_table_replacement 3 s3 = Inr (-1, None)"
proof -
  have "take 2 (fifo_of 3 (next_entry pt_sample) @ [5, 2, 7]) = [5, 2]" "set [5, 2, 7] \<subseteq> pt_free pt_sample"
    by (simp_all add: pt_sample_free fifo_of_fresh entry_free_def numeral_2_eq_2)
  then show ?thesis
    using page_table_fifo_order [OF pt_sample_inv, of 3 "[5, 2, 7]" of_nat 0 2] by force
qed

text \<open>C22: Looking up a page after it was added to a free frame returns that frame's address and the
  status it was added with, when the page was not in the table before; and adding it does not change
  what any other lookup returns.\<close>

theorem page_table_lookup_after_add:
  assumes inv: "pt_ok s" and p: "pid \<noteq> -1" and i: "i \<in> pt_free s"
    and new: "page_table_get_paddr_entry pid vaddr s = Inr (None, s)"
  shows "\<exists>s'. page_table_add_entry pid vaddr (of_nat i * PAGE_SIZE) status s = Inr s' \<and>
    page_table_get_paddr_entry pid vaddr s' = Inr (Some (of_nat i * PAGE_SIZE, status), s') \<and>
    (\<forall>pid' vaddr' r. pid' \<noteq> -1 \<longrightarrow> (pid', vaddr') \<noteq> (pid, vaddr) \<longrightarrow>
       page_table_get_paddr_entry pid' vaddr' s = Inr (r, s) \<longrightarrow>
       page_table_get_paddr_entry pid' vaddr' s' = Inr (r, s'))"
proof -
  let ?es = "next_entry s" and ?es' = "pt_add pid vaddr i status (next_entry s)"
  let ?s' = "s\<lparr>next_entry := ?es'\<rparr>" and ?P = "\<lambda>p v e. e_pid e = p \<and> e_vaddr e = v"
  have i': "i < length ?es" "e_pid (?es ! i) = -1" using i by (simp_all add: pt_free_def)
  have inv': "pt_ok ?s'" using inv by (simp add: pt_ok_upd)
  have miss: "\<not> ?P pid vaddr (?es ! j)" if "j < length ?es" for j
    using new that nth_mem [OF that]
    by (auto simp: get_paddr_entry_eq [OF inv] find_last_none Let_def split: if_splits)
  have at: "?es' ! i = (?es ! i)\<lparr>e_pid := pid, e_vaddr := vaddr, e_status := status,
      e_position_fifo := int32 (last_fifo pid ?es + 1)\<rparr>" "\<And>j. i \<noteq> j \<Longrightarrow> ?es' ! j = ?es ! j"
    using i'(1) by (simp_all add: pt_add_def)
  have "find_last (?P pid vaddr) ?es' = i"
  proof (rule find_last_unique)
    fix j assume "j < length ?es'" "?P pid vaddr (?es' ! j)"
    then show "j = i" using miss [of j] at(2) [of j] by (cases "i = j") simp_all
  qed (use i' at in simp_all)
  then have hit: "page_table_get_paddr_entry pid vaddr ?s' = Inr (Some (of_nat i * PAGE_SIZE, status), ?s')"
    using i' at by (simp add: get_paddr_entry_eq [OF inv'])
  have "page_table_get_paddr_entry p' v' ?s' = Inr (r, ?s')"
    if "p' \<noteq> -1" "(p', v') \<noteq> (pid, vaddr)" "page_table_get_paddr_entry p' v' s = Inr (r, s)" for p' v' r
  proof -
    have "?P p' v' (?es' ! j) = ?P p' v' (?es ! j)" for j
      using that(1,2) i' at by (cases "i = j") auto
    then have "find_last (?P p' v') ?es' = find_last (?P p' v') ?es" by (intro find_last_cong) simp_all
    moreover have "find_last (?P p' v') ?es \<noteq> i"
      using find_last_hit [of "?P p' v'" ?es] i' that(1) by auto
    ultimately show ?thesis
      using that(3) at(2) by (auto simp: get_paddr_entry_eq [OF inv'] get_paddr_entry_eq [OF inv] Let_def)
  qed
  with hit show ?thesis using page_table_add_entry_eq [OF inv i'(1)] by auto
qed

theorem page_table_lookup_after_add_witness:
  "\<exists>s'. page_table_add_entry 3 0x400000 (of_nat 5 * PAGE_SIZE) 1 pt_sample = Inr s' \<and>
    page_table_get_paddr_entry 3 0x400000 s' = Inr (Some (of_nat 5 * PAGE_SIZE, 1), s')"
proof -
  have "find_last (\<lambda>e. e_pid e = 3 \<and> e_vaddr e = 0x400000) (next_entry pt_sample) =
      length (next_entry pt_sample)"
    by (simp only: find_last_none) (simp add: entry_free_def)
  then have "page_table_get_paddr_entry 3 0x400000 pt_sample = Inr (None, pt_sample)"
    by (simp add: get_paddr_entry_eq [OF pt_sample_ok] Let_def)
  from page_table_lookup_after_add [OF pt_sample_ok _ _ this, of 5 1] show ?thesis
    by (auto simp: pt_sample_free)
qed

text \<open>C35: \<^verbatim>\<open>page_table_remove_on_pids\<close> leaves the table as it is when the process has no page;
  as soon as it has one, the call of \<^verbatim>\<open>page_table_reset_entry\<close> under \<^verbatim>\<open>table_lock\<close> takes the
  same spinlock again and the kernel panics.\<close>

theorem page_table_remove_on_pids_deadlock:
  assumes inv: "pt_ok s" and pid: "0 \<le> pid"
  shows "page_table_remove_on_pids pid s =
    (if fifo_of pid (next_entry s) = [] then Inr s else Inl (Panic ''Deadlock on spinlock''))"
  using assms by (rule remove_on_pids_eq)

theorem page_table_remove_on_pids_deadlock_witness:
  "page_table_remove_on_pids 3 pt_sample = Inr pt_sample \<and>
   (\<exists>s. page_table_add_entry 3 0x400000 (of_nat 5 * PAGE_SIZE) 0 pt_sample = Inr s \<and>
     page_table_remove_on_pids 3 s = Inl (Panic ''Deadlock on spinlock''))"
proof -
  have 5: "5 \<in> pt_free pt_sample" by (simp add: pt_sample_free)
  obtain s where s: "page_table_add_entry 3 0x400000 (of_nat 5 * PAGE_SIZE) 0 pt_sample = Inr s"
    "pt_inv s" "fifo_of 3 (next_entry s) = fifo_of 3 (next_entry pt_sample) @ [5]"
    using add_entry_queue [OF pt_sample_inv _ 5, of 3 "0x400000" 0] by auto
  then show ?thesis
    using page_table_remove_on_pids_deadlock [OF pt_sample_ok, of 3]
      page_table_remove_on_pids_deadlock [OF pt_inv_ok [OF s(2)], of 3]
    by (simp add: fifo_of_fresh entry_free_def)
qed

end
