(* ===== verification/Vm_Stats.thy ===== *)
theory Vm_Stats
  imports Page_Table
begin

text \<open>
  The event counters of the VM system (\<^verbatim>\<open>kern/vm/vm_stats.c\<close>): C \<^verbatim>\<open>int\<close> counters that wrap at
  32 bits, and the consistency checks that the report makes on them.
\<close>

record stats_state = pt_state +
  tlb_faults :: int
  tlb_faults_free :: int
  tlb_faults_replace :: int
  tlb_invalidations :: int
  tlb_reloads :: int
  page_faults_zeroed :: int
  page_faults_disk :: int
  page_faults_elf :: int
  page_faults_swapin :: int
  page_faults_swapout :: int
  swapfile_writes :: int

definition init_stats :: "'a stats_state_scheme \<Rightarrow> 'a stats_state_scheme" where
  "init_stats s = s\<lparr>tlb_faults := 0,
     tlb_faults_free := 0,
     tlb_faults_replace := 0,
     tlb_invalidations := 0,
     tlb_reloads := 0,
     page_faults_zeroed := 0,
     page_faults_disk := 0,
     page_faults_elf := 0,
     page_faults_swapin := 0,
     page_faults_swapout := 0,
     swapfile_writes := 0\<rparr>"

definition increment_tlb_faults :: "'a stats_state_scheme \<Rightarrow> 'a stats_state_scheme" where
  "increment_tlb_faults s = s\<lparr>tlb_faults := int32 (tlb_faults s + 1)\<rparr>"

definition increment_tlb_faults_free :: "'a stats_state_scheme \<Rightarrow> 'a stats_state_scheme" where
  "increment_tlb_faults_free s = s\<lparr>tlb_faults_free := int32 (tlb_faults_free s + 1)\<rparr>"

definition increment_tlb_faults_replace :: "'a stats_state_scheme \<Rightarrow> 'a stats_state_scheme" where
  "increment_tlb_faults_replace s = s\<lparr>tlb_faults_replace := int32 (tlb_faults_replace s + 1)\<rparr>"

definition increment_tlb_invalidations :: "'a stats_state_scheme \<Rightarrow> 'a stats_state_scheme" where
  "increment_tlb_invalidations s = s\<lparr>tlb_invalidations := int32 (tlb_invalidations s + 1)\<rparr>"

definition increment_tlb_reloads :: "'a stats_state_scheme \<Rightarrow> 'a stats_state_scheme" where
  "increment_tlb_reloads s = s\<lparr>tlb_reloads := int32 (tlb_reloads s + 1)\<rparr>"

definition increment_page_faults_zeroed :: "'a stats_state_scheme \<Rightarrow> 'a stats_state_scheme" where
  "increment_page_faults_zeroed s = s\<lparr>page_faults_zeroed := int32 (page_faults_zeroed s + 1)\<rparr>"

definition increment_page_faults_disk :: "'a stats_state_scheme \<Rightarrow> 'a stats_state_scheme" where
  "increment_page_faults_disk s = s\<lparr>page_faults_disk := int32 (page_faults_disk s + 1)\<rparr>"

definition increment_page_faults_elf :: "'a stats_state_scheme \<Rightarrow> 'a stats_state_scheme" where
  "increment_page_faults_elf s = s\<lparr>page_faults_elf := int32 (page_faults_elf s + 1)\<rparr>"

definition increment_page_faults_swapin :: "'a stats_state_scheme \<Rightarrow> 'a stats_state_scheme" where
  "increment_page_faults_swapin s = s\<lparr>page_faults_swapin := int32 (page_faults_swapin s + 1)\<rparr>"

definition increment_page_faults_swapout :: "'a stats_state_scheme \<Rightarrow> 'a stats_state_scheme" where
  "increment_page_faults_swapout s = s\<lparr>page_faults_swapout := int32 (page_faults_swapout s + 1)\<rparr>"

definition increment_swapfile_writes :: "'a stats_state_scheme \<Rightarrow> 'a stats_state_scheme" where
  "increment_swapfile_writes s = s\<lparr>swapfile_writes := int32 (swapfile_writes s + 1)\<rparr>"

text \<open>The counters in the order in which the report prints them, and the warnings that follow.\<close>

definition print_all_statistics :: "'a stats_state_scheme \<Rightarrow> int list \<times> string list" where
  "print_all_statistics s =
     ([tlb_faults s, tlb_faults_free s, tlb_faults_replace s, tlb_invalidations s, tlb_reloads s, page_faults_zeroed s, page_faults_disk s, page_faults_elf s, page_faults_swapin s, page_faults_swapout s, swapfile_writes s],
      (if int32 (tlb_faults_free s + tlb_faults_replace s) \<noteq> tlb_faults s
       then [''TLB FAULTS with Free + TLB Faults with Replace is NOT equal to TLB Faults''] else []) @
      (if int32 (int32 (tlb_reloads s + page_faults_disk s) + page_faults_zeroed s) \<noteq> tlb_faults s
       then [''TLB reloads + PF Disk + PF Zeroed is NOT equal to TLB Faults''] else []) @
      (if int32 (int32 (page_faults_elf s + page_faults_swapin s) + page_faults_swapout s)
          \<noteq> page_faults_disk s
       then [''PF from ELF + PF from Swapfile is NOT equal to PF Disk''] else []))"

lemmas stats_defs [kdefs] = init_stats_def
  increment_tlb_faults_def
  increment_tlb_faults_free_def
  increment_tlb_faults_replace_def
  increment_tlb_invalidations_def
  increment_tlb_reloads_def
  increment_page_faults_zeroed_def
  increment_page_faults_disk_def
  increment_page_faults_elf_def
  increment_page_faults_swapin_def
  increment_page_faults_swapout_def
  increment_swapfile_writes_def

end
