(* ===== verification/Vm_Tlb.thy ===== *)
theory Vm_Tlb
  imports Vm_Stats
begin

text \<open>
  The management of the 64 TLB slots (\<^verbatim>\<open>kern/vm/vm_tlb.c\<close>): a byte per slot that says whether the
  kernel has filled it, and a round-robin victim when all are filled. \<open>tlb_hw\<close> is the content of the
  slots of the processor, \<^verbatim>\<open>tlb_write\<close> and \<^verbatim>\<open>tlb_read\<close> are the routines of
  \<^verbatim>\<open>kern/arch/mips/vm/tlb-mips161.S\<close>. The processor's search (the instruction \<^verbatim>\<open>tlbp\<close>) is an argument.
\<close>

section \<open>State and operations\<close>

abbreviation (input) NUM_TLB :: nat where "NUM_TLB \<equiv> 64"
abbreviation (input) TLBHI_PID :: u32 where "TLBHI_PID \<equiv> 0x00000fc0"
abbreviation (input) TLBLO_DIRTY :: u32 where "TLBLO_DIRTY \<equiv> 0x00000400"
abbreviation (input) TLBLO_VALID :: u32 where "TLBLO_VALID \<equiv> 0x00000200"

definition TLBHI_INVALID :: "nat \<Rightarrow> u32" where
  "TLBHI_INVALID entryno = push_bit 12 (0x80000 + of_nat entryno)"

definition TLBLO_INVALID :: u32 where
  "TLBLO_INVALID = 0"

record tlb_state = stats_state +
  tlb_hw :: "(u32 \<times> u32) list"
  tlb_bitmap :: "u8 list"
  next_victim :: nat
  tlb_slock :: spinlock

definition tlb_write :: "u32 \<Rightarrow> u32 \<Rightarrow> nat \<Rightarrow> 'a tlb_state_scheme \<Rightarrow> 'a tlb_state_scheme" where
  "tlb_write entryhi entrylo index s = s\<lparr>tlb_hw := (tlb_hw s)[index := (entryhi, entrylo)]\<rparr>"

definition tlb_read :: "nat \<Rightarrow> 'a tlb_state_scheme \<Rightarrow> u32 \<times> u32" where
  "tlb_read index s = tlb_hw s ! index"

definition tlb_bootstrap :: "'a tlb_state_scheme \<Rightarrow> 'a tlb_state_scheme" where
  "tlb_bootstrap s = s\<lparr>tlb_bitmap := fill_range 0 NUM_TLB 0 (tlb_bitmap s)\<rparr>"

definition tlb_get_rr_victim :: "'a tlb_state_scheme \<Rightarrow> nat \<times> 'a tlb_state_scheme" where
  "tlb_get_rr_victim s =
     (let victim = next_victim s in (victim, s\<lparr>next_victim := (next_victim s + 1) mod NUM_TLB\<rparr>))"

definition write_entry :: "nat \<Rightarrow> u32 \<Rightarrow> u32 \<Rightarrow> 'a tlb_state_scheme \<Rightarrow> 'a tlb_state_scheme" where
  "write_entry index vaddr_no_offset_with_pid paddr_with_flags s =
     tlb_write vaddr_no_offset_with_pid paddr_with_flags index
       (s\<lparr>tlb_bitmap := (tlb_bitmap s)[index := 1]\<rparr>)"

text \<open>
  The choice of the slot. When \<^verbatim>\<open>*index_tlb\<close> is not \<open>-1\<close> the local variable \<^verbatim>\<open>index\<close> is used
  without a value.
\<close>

definition choose_slot :: "int \<Rightarrow> 'a tlb_state_scheme \<Rightarrow> (nat \<times> 'a tlb_state_scheme) kres" where
  "choose_slot index_tlb s =
     (if index_tlb = -1 then
        let index = find_first (\<lambda>b. b = 0) 0 (take NUM_TLB (tlb_bitmap s))
        in if index \<noteq> -1 then Inr (nat index, increment_tlb_faults_free s)
           else Inr (tlb_get_rr_victim (increment_tlb_faults_replace s))
      else Inl (Undefined ''add_entry: index is uninitialised''))"

definition add_entry ::
  "int \<Rightarrow> u32 \<Rightarrow> u32 \<Rightarrow> 'a tlb_state_scheme \<Rightarrow> (int \<times> 'a tlb_state_scheme) kres" where
  "add_entry index_tlb vaddr_no_offset_with_pid paddr_with_flags s =
     sbind (lock_acq tlb_slock tlb_slock_update s) (\<lambda>s.
     sbind (choose_slot index_tlb s) (\<lambda>(index, s).
     let s = increment_tlb_faults (write_entry index vaddr_no_offset_with_pid paddr_with_flags s)
     in sbind (lock_rel tlb_slock tlb_slock_update s) (\<lambda>s. Inr (int index, s))))"

text \<open>
  \<^verbatim>\<open>read_entry\<close> passes a null pointer for the high word, and \<^verbatim>\<open>tlb_read\<close> stores through it.
\<close>

definition read_entry ::
  "((u32 \<times> u32) list \<Rightarrow> u32 \<Rightarrow> int) \<Rightarrow> u32 \<Rightarrow> 'a tlb_state_scheme \<Rightarrow>
   (int \<times> u32 option \<times> 'a tlb_state_scheme) kres" where
  "read_entry tlb_probe vaddr s =
     sbind (lock_acq tlb_slock tlb_slock_update s) (\<lambda>s.
     let vaddr_no_offset = vaddr AND PAGE_FRAME;
         index = tlb_probe (tlb_hw s) vaddr_no_offset
     in if index < 0 then Inr (-1, None, s)
        else Inl (Undefined ''tlb_read: store through a null pointer''))"

definition reset_one_entry_by_index :: "nat \<Rightarrow> 'a tlb_state_scheme \<Rightarrow> 'a tlb_state_scheme kres" where
  "reset_one_entry_by_index index s =
     sbind (lock_acq tlb_slock tlb_slock_update s) (\<lambda>s.
     lock_rel tlb_slock tlb_slock_update
       (tlb_write (TLBHI_INVALID index) TLBLO_INVALID index
          (s\<lparr>tlb_bitmap := (tlb_bitmap s)[index := 0]\<rparr>)))"

definition reset_tlb :: "'a tlb_state_scheme \<Rightarrow> 'a tlb_state_scheme kres" where
  "reset_tlb s =
     sbind (lock_acq tlb_slock tlb_slock_update s) (\<lambda>s.
     let s = fold (\<lambda>index s. tlb_write (TLBHI_INVALID index) TLBLO_INVALID index
                     (s\<lparr>tlb_bitmap := (tlb_bitmap s)[index := 0]\<rparr>)) [0..<NUM_TLB] s
     in lock_rel tlb_slock tlb_slock_update (increment_tlb_invalidations s))"

text \<open>\<^verbatim>\<open>pid_t\<close> is signed, the field of the TLB entry is six bits.\<close>

definition tlb_pid :: "u32 \<Rightarrow> int" where
  "tlb_pid vaddr = uint (drop_bit 6 (vaddr AND TLBHI_PID))"

definition reset_tlb_pid_different :: "int \<Rightarrow> 'a tlb_state_scheme \<Rightarrow> 'a tlb_state_scheme kres" where
  "reset_tlb_pid_different current_pid s =
     sbind (lock_acq tlb_slock tlb_slock_update s) (\<lambda>s.
     sbind (kfor [0..<NUM_TLB] (\<lambda>index (every_entry_has_pid_different, s).
              if tlb_pid (fst (tlb_read index s)) = current_pid then Inr (False, s)
              else sbind (reset_one_entry_by_index index s) (\<lambda>s.
                   Inr (every_entry_has_pid_different, s))) (True, s))
       (\<lambda>(every_entry_has_pid_different, s).
     lock_rel tlb_slock tlb_slock_update
       (if every_entry_has_pid_different then increment_tlb_invalidations s else s)))"

section \<open>Lemmas\<close>

definition tlb_inv :: "'a tlb_state_scheme \<Rightarrow> bool" where
  "tlb_inv s \<longleftrightarrow> cpu_ok s \<and> tlb_slock s = spinlock_init \<and> length (tlb_bitmap s) = NUM_TLB \<and>
     length (tlb_hw s) = NUM_TLB \<and> next_victim s < NUM_TLB"

definition tlb_full :: "'a tlb_state_scheme \<Rightarrow> bool" where
  "tlb_full s \<longleftrightarrow> (\<forall>b \<in> set (tlb_bitmap s). b \<noteq> 0)"

interpretation tlb: lock_field tlb_slock tlb_slock_update
  by unfold_locales (simp_all add: cpu_hold_def cpu_unhold_def)

lemmas tlb_op_defs = write_entry_def tlb_write_def tlb_get_rr_victim_def stats_defs

lemma tlb_inv_lock: "tlb_inv s \<Longrightarrow> cpu_ok s" "tlb_inv s \<Longrightarrow> tlb_slock s = spinlock_init"
  by (simp_all add: tlb_inv_def)

lemma enter_tlb [simp]:
  "tlb_bitmap (lock_enter tlb_slock_update s) = tlb_bitmap s"
  "tlb_hw (lock_enter tlb_slock_update s) = tlb_hw s"
  "next_victim (lock_enter tlb_slock_update s) = next_victim s"
  by (simp_all add: lock_defs)

text \<open>What filling the slot \<open>i\<close> does, when it was free and when it is the round-robin victim.\<close>

definition fill_free :: "nat \<Rightarrow> u32 \<Rightarrow> u32 \<Rightarrow> 'a tlb_state_scheme \<Rightarrow> 'a tlb_state_scheme" where
  "fill_free i hi lo s = increment_tlb_faults (write_entry i hi lo (increment_tlb_faults_free s))"

definition fill_victim :: "u32 \<Rightarrow> u32 \<Rightarrow> 'a tlb_state_scheme \<Rightarrow> 'a tlb_state_scheme" where
  "fill_victim hi lo s = increment_tlb_faults (write_entry (next_victim s) hi lo
     (snd (tlb_get_rr_victim (increment_tlb_faults_replace s))))"

lemma add_entry_full:
  assumes "tlb_inv s" and "tlb_full s"
  shows "add_entry (-1) hi lo s = Inr (int (next_victim s), fill_victim hi lo s)"
proof -
  let ?t = "lock_enter tlb_slock_update s"
  have "find_first (\<lambda>b. b = 0) 0 (take NUM_TLB (tlb_bitmap s)) = -1"
    unfolding find_first_none using assms(2) by (auto simp: tlb_full_def dest: in_set_takeD)
  then have "choose_slot (-1) ?t = Inr (next_victim s, snd (tlb_get_rr_victim (increment_tlb_faults_replace ?t)))"
    by (simp add: choose_slot_def tlb_op_defs Let_def)
  moreover have "lock_rel tlb_slock tlb_slock_update (fill_victim hi lo ?t) = Inr (fill_victim hi lo s)"
    using assms(1) by (intro tlb.rel_mod)
      (simp_all add: tlb_inv_def fill_victim_def tlb_op_defs cpu_ok_def Let_def lock_defs)
  ultimately show ?thesis
    using tlb.acq [OF tlb_inv_lock [OF assms(1)]]
    by (simp add: add_entry_def fill_victim_def)
qed

lemma add_entry_free:
  assumes inv: "tlb_inv s" and "\<not> tlb_full s"
  obtains i where "add_entry (-1) hi lo s = Inr (int i, fill_free i hi lo s)"
    and "i < NUM_TLB" and "tlb_bitmap s ! i = 0" and "\<forall>j < i. tlb_bitmap s ! j \<noteq> 0"
proof -
  let ?t = "lock_enter tlb_slock_update s" and ?P = "\<lambda>b :: u8. b = 0"
  have len: "take NUM_TLB (tlb_bitmap s) = tlb_bitmap s" "length (tlb_bitmap s) = NUM_TLB"
    using inv by (simp_all add: tlb_inv_def)
  have "find_first ?P 0 (tlb_bitmap s) \<noteq> -1"
    using assms(2) by (auto simp: find_first_none tlb_full_def)
  then obtain i where i: "i < NUM_TLB" "find_first ?P 0 (tlb_bitmap s) = int i" "tlb_bitmap s ! i = 0"
    "\<forall>j < i. tlb_bitmap s ! j \<noteq> 0"
    using find_first_eq [of ?P 0 "tlb_bitmap s"] len(2) by auto
  then have "choose_slot (-1) ?t = Inr (i, increment_tlb_faults_free ?t)"
    using len by (simp add: choose_slot_def Let_def)
  moreover have "lock_rel tlb_slock tlb_slock_update (fill_free i hi lo ?t) = Inr (fill_free i hi lo s)"
    using inv by (intro tlb.rel_mod)
      (simp_all add: tlb_inv_def fill_free_def tlb_op_defs cpu_ok_def Let_def lock_defs)
  ultimately have "add_entry (-1) hi lo s = Inr (int i, fill_free i hi lo s)"
    using tlb.acq [OF tlb_inv_lock [OF inv]] by (simp add: add_entry_def fill_free_def)
  with i that show thesis by blast
qed

lemma fill_inv:
  "tlb_inv s \<Longrightarrow> tlb_inv (fill_victim hi lo s)" "tlb_inv s \<Longrightarrow> tlb_inv (fill_free i hi lo s)"
  by (simp_all add: fill_victim_def fill_free_def tlb_inv_def tlb_op_defs cpu_ok_def Let_def)

lemma fill_victim_full: "tlb_full s \<Longrightarrow> tlb_full (fill_victim hi lo s)"
  by (auto simp: fill_victim_def tlb_full_def tlb_op_defs Let_def dest!: set_update_subset_insert [THEN subsetD])

lemma fill_victim_next: "next_victim (fill_victim hi lo s) = (next_victim s + 1) mod NUM_TLB"
  by (simp add: fill_victim_def tlb_op_defs Let_def)

text \<open>A sequence of TLB misses.\<close>

fun add_entries ::
  "(u32 \<times> u32) list \<Rightarrow> 'a tlb_state_scheme \<Rightarrow> (int list \<times> 'a tlb_state_scheme) kres" where
  "add_entries [] s = Inr ([], s)"
| "add_entries ((hi, lo) # es) s =
     sbind (add_entry (-1) hi lo s) (\<lambda>(i, s).
     sbind (add_entries es s) (\<lambda>(is, s). Inr (i # is, s)))"

lemma add_entries_full:
  assumes "tlb_inv s" and "tlb_full s"
  shows "\<exists>s'. add_entries es s = Inr (map (\<lambda>k. int ((next_victim s + k) mod NUM_TLB)) [0..<length es], s')"
  using assms
proof (induction es arbitrary: s)
  case Nil
  then show ?case by simp
next
  case (Cons e es)
  obtain hi lo where e: "e = (hi, lo)" by (cases e)
  let ?s = "fill_victim hi lo s"
  from Cons.IH [of ?s] Cons.prems obtain s' where
    "add_entries es ?s = Inr (map (\<lambda>k. int ((next_victim ?s + k) mod NUM_TLB)) [0..<length es], s')"
    by (auto simp: fill_inv fill_victim_full)
  moreover have "int (next_victim s) # map (\<lambda>k. int ((next_victim ?s + k) mod NUM_TLB)) [0..<length es] =
      map (\<lambda>k. int ((next_victim s + k) mod NUM_TLB)) [0..<length (e # es)]"
    using Cons.prems(1)
    by (simp add: fill_victim_next tlb_inv_def upt_conv_Cons map_Suc_upt [symmetric] mod_simps
        del: upt_Suc)
  ultimately show ?case using Cons.prems by (simp add: e add_entry_full)
qed

lemma fold_reset_slots:
  "fold (\<lambda>index s. tlb_write (hi index) lo index (s\<lparr>tlb_bitmap := (tlb_bitmap s)[index := 0]\<rparr>)) is s =
     s\<lparr>tlb_bitmap := fold (\<lambda>i xs. xs[i := 0]) is (tlb_bitmap s),
       tlb_hw := fold (\<lambda>i xs. xs[i := (hi i, lo)]) is (tlb_hw s)\<rparr>"
  by (induction "is" arbitrary: s) (simp_all add: tlb_write_def)

lemma reset_tlb_eq:
  assumes "tlb_inv s"
  shows "reset_tlb s = Inr (increment_tlb_invalidations (s\<lparr>tlb_bitmap := replicate NUM_TLB 0,
    tlb_hw := map (\<lambda>i. (TLBHI_INVALID i, TLBLO_INVALID)) [0..<NUM_TLB]\<rparr>))"
proof -
  let ?t = "lock_enter tlb_slock_update s"
  let ?g = "\<lambda>s. increment_tlb_invalidations (s\<lparr>tlb_bitmap := replicate NUM_TLB 0,
    tlb_hw := map (\<lambda>i. (TLBHI_INVALID i, TLBLO_INVALID)) [0..<NUM_TLB]\<rparr>)"
  have len: "length (tlb_bitmap s) = NUM_TLB" "length (tlb_hw s) = NUM_TLB"
    using assms by (simp_all add: tlb_inv_def)
  have "fold (\<lambda>i xs. xs[i := 0]) [0..<NUM_TLB] (tlb_bitmap s) = replicate NUM_TLB 0"
    using fold_list_update [of NUM_TLB "tlb_bitmap s" "\<lambda>_. 0"] len
    by (simp add: map_replicate_const del: upt_rec_numeral)
  moreover have "fold (\<lambda>i xs. xs[i := (TLBHI_INVALID i, TLBLO_INVALID)]) [0..<NUM_TLB] (tlb_hw s) =
      map (\<lambda>i. (TLBHI_INVALID i, TLBLO_INVALID)) [0..<NUM_TLB]"
    using fold_list_update [of NUM_TLB "tlb_hw s"] len by (simp del: upt_rec_numeral)
  moreover have "lock_rel tlb_slock tlb_slock_update (?g ?t) = Inr (?g s)"
    using assms by (intro tlb.rel_mod) (simp_all add: tlb_inv_def stats_defs cpu_ok_def lock_defs)
  ultimately show ?thesis
    using tlb.acq [OF tlb_inv_lock [OF assms]]
    by (simp add: reset_tlb_def fold_reset_slots del: upt_rec_numeral)
qed

lemma reset_one_locked:
  assumes "tlb_inv s"
  shows "reset_one_entry_by_index i (lock_enter tlb_slock_update s) = Inl (Panic ''Deadlock on spinlock'')"
proof -
  have "curcpu_exists s" using assms by (simp add: tlb_inv_def cpu_ok_def)
  then have "lock_acq tlb_slock tlb_slock_update (lock_enter tlb_slock_update s) =
      Inl (Panic ''Deadlock on spinlock'')" by (intro tlb.acq_held) simp_all
  then show ?thesis by (simp add: reset_one_entry_by_index_def)
qed

section \<open>Properties\<close>

definition tlb_sample :: tlb_state where
  "tlb_sample = stats_state.extend (pt_state.extend pt_sample
       \<lparr>tlb_faults = 0, tlb_faults_free = 0, tlb_faults_replace = 0, tlb_invalidations = 0,
        tlb_reloads = 0, page_faults_zeroed = 0, page_faults_disk = 0, page_faults_elf = 0,
        page_faults_swapin = 0, page_faults_swapout = 0, swapfile_writes = 0\<rparr>)
     \<lparr>tlb_hw = replicate NUM_TLB (0, 0), tlb_bitmap = replicate NUM_TLB 0, next_victim = 0,
      tlb_slock = spinlock_init\<rparr>"

lemma tlb_sample_simps [simp]:
  "tlb_hw tlb_sample = replicate NUM_TLB (0, 0)" "tlb_bitmap tlb_sample = replicate NUM_TLB 0"
  "next_victim tlb_sample = 0" "tlb_slock tlb_sample = spinlock_init"
  by (simp_all add: tlb_sample_def stats_state.extend_def)

lemma tlb_sample_cpu [simp]: "cpu_ok tlb_sample"
  using pt_sample_cpu by (simp add: tlb_sample_def cpu_ok_def stats_state.extend_def pt_state.extend_def)

lemma tlb_sample_inv: "tlb_inv tlb_sample"
  by (simp add: tlb_inv_def)

text \<open>C23: \<^verbatim>\<open>add_entry\<close> with no preferred slot always returns. It writes the entry to exactly one slot and
  marks it used: the lowest unused slot while there is one, counted as a fault with a free slot;
  otherwise the round-robin victim, counted as a fault with replacement. Every call counts one fault.\<close>

theorem add_entry_slot:
  assumes inv: "tlb_inv s"
  shows "\<exists>i s'. add_entry (-1) hi lo s = Inr (int i, s') \<and> i < NUM_TLB \<and> tlb_inv s' \<and>
    tlb_hw s' = (tlb_hw s)[i := (hi, lo)] \<and> tlb_bitmap s' = (tlb_bitmap s)[i := 1] \<and>
    tlb_faults s' = int32 (tlb_faults s + 1) \<and>
    (if tlb_full s
     then i = next_victim s \<and> next_victim s' = (i + 1) mod NUM_TLB \<and>
       tlb_faults_replace s' = int32 (tlb_faults_replace s + 1) \<and> tlb_faults_free s' = tlb_faults_free s
     else tlb_bitmap s ! i = 0 \<and> (\<forall>j < i. tlb_bitmap s ! j \<noteq> 0) \<and> next_victim s' = next_victim s \<and>
       tlb_faults_free s' = int32 (tlb_faults_free s + 1) \<and>
       tlb_faults_replace s' = tlb_faults_replace s)"
proof (cases "tlb_full s")
  case True
  moreover have "next_victim s < NUM_TLB" using inv by (simp add: tlb_inv_def)
  ultimately show ?thesis
    using fill_inv(1) [OF inv]
    by (auto simp: add_entry_full [OF inv True] fill_victim_def tlb_op_defs Let_def)
next
  case False
  then obtain i where "add_entry (-1) hi lo s = Inr (int i, fill_free i hi lo s)" "i < NUM_TLB"
    "tlb_bitmap s ! i = 0" "\<forall>j < i. tlb_bitmap s ! j \<noteq> 0"
    by (rule add_entry_free [OF inv])
  then show ?thesis using False fill_inv(2) [OF inv, of i hi lo]
    by (intro exI [of _ i] exI [of _ "fill_free i hi lo s"])
      (simp add: fill_free_def tlb_op_defs)
qed

theorem add_entry_slot_witness:
  "\<exists>i s'. add_entry (-1) 0x400000 0x5600 tlb_sample = Inr (int i, s') \<and>
     tlb_hw s' = (replicate NUM_TLB (0, 0))[i := (0x400000, 0x5600)]"
proof -
  from add_entry_slot [OF tlb_sample_inv, of "0x400000" "0x5600"] obtain i s' where
    "add_entry (-1) 0x400000 0x5600 tlb_sample = Inr (int i, s')"
    "tlb_hw s' = (tlb_hw tlb_sample)[i := (0x400000, 0x5600)]" by blast
  then show ?thesis by auto
qed

text \<open>C24: Replacement in a full TLB is fair: of any 64 consecutive misses each one replaces a different
  slot, so every slot is replaced exactly once, in cyclic order from \<^verbatim>\<open>next_victim\<close>.\<close>

theorem tlb_round_robin:
  assumes "tlb_inv s" and "tlb_full s" and "length es = NUM_TLB"
  shows "\<exists>is s'. add_entries es s = Inr (is, s') \<and> distinct is \<and> set is = {0..<int NUM_TLB} \<and>
    (\<forall>k < NUM_TLB. is ! k = int ((next_victim s + k) mod NUM_TLB))"
proof -
  let ?v = "\<lambda>k. (next_victim s + k) mod NUM_TLB"
  have inj: "inj_on ?v {0..<NUM_TLB}"
  proof (rule inj_onI)
    fix i j assume ij: "i \<in> {0..<NUM_TLB}" "j \<in> {0..<NUM_TLB}" and eq: "?v i = ?v j"
    from eq have "i mod NUM_TLB = j mod NUM_TLB" by (simp add: nat_mod_eq_iff)
    with ij show "i = j" by simp
  qed
  have "?v ` {0..<NUM_TLB} \<subseteq> {0..<NUM_TLB}" by auto
  then have "?v ` {0..<NUM_TLB} = {0..<NUM_TLB}" using inj by (simp add: endo_inj_surj)
  then have "set (map (\<lambda>k. int (?v k)) [0..<NUM_TLB]) = int ` {0..<NUM_TLB}"
    by (metis image_image set_map set_upt)
  also have "\<dots> = {0..<int NUM_TLB}" by (simp add: image_int_atLeastLessThan)
  finally have "set (map (\<lambda>k. int (?v k)) [0..<NUM_TLB]) = {0..<int NUM_TLB}" .
  moreover have "distinct (map (\<lambda>k. int (?v k)) [0..<NUM_TLB])"
    unfolding distinct_map set_upt using inj by (simp only: inj_on_def of_nat_eq_iff distinct_upt simp_thms)
  moreover have "map (\<lambda>k. int (?v k)) [0..<NUM_TLB] ! k = int (?v k)" if "k < NUM_TLB" for k
    using that by (simp del: upt_rec_numeral)
  ultimately show ?thesis
    using add_entries_full [OF assms(1,2), of es] unfolding assms(3) by blast
qed

definition tlb_sample_full :: tlb_state where
  "tlb_sample_full = tlb_sample\<lparr>tlb_bitmap := replicate NUM_TLB 1, next_victim := 61\<rparr>"

theorem tlb_round_robin_witness:
  "\<exists>is s'. add_entries (replicate NUM_TLB (0x400000, 0x5600)) tlb_sample_full = Inr (is, s') \<and> is ! 5 = 2"
proof -
  have inv: "tlb_inv tlb_sample_full" and full: "tlb_full tlb_sample_full"
    using tlb_sample_inv
    by (simp_all add: tlb_sample_full_def tlb_inv_def tlb_full_def cpu_ok_def)
  have nv: "next_victim tlb_sample_full = 61" by (simp add: tlb_sample_full_def)
  have "length (replicate NUM_TLB (0x400000, 0x5600) :: (u32 \<times> u32) list) = NUM_TLB"
    by (simp only: length_replicate)
  from tlb_round_robin [OF inv full this] obtain "is" s' where
    run: "add_entries (replicate NUM_TLB (0x400000, 0x5600)) tlb_sample_full = Inr (is, s')"
    and ix: "\<forall>k < NUM_TLB. is ! k = int ((next_victim tlb_sample_full + k) mod NUM_TLB)" by blast
  from ix have "is ! 5 = 2" by (simp add: nv)
  with run show ?thesis by blast
qed

text \<open>\<^verbatim>\<open>reset_tlb\<close> leaves every slot unused, with an invalid entry for an unmapped kernel address, a
  different address in each slot, and counts one invalidation of the whole TLB.\<close>

lemma reset_tlb_clears:
  assumes inv: "tlb_inv s"
  shows "\<exists>s'. reset_tlb s = Inr s' \<and> tlb_inv s' \<and> tlb_invalidations s' = int32 (tlb_invalidations s + 1) \<and>
    (\<forall>i < NUM_TLB. tlb_bitmap s' ! i = 0 \<and> MIPS_KSEG0 \<le> fst (tlb_hw s' ! i) \<and>
      snd (tlb_hw s' ! i) AND TLBLO_VALID = 0) \<and>
    distinct (map fst (tlb_hw s'))"
proof -
  let ?s = "increment_tlb_invalidations (s\<lparr>tlb_bitmap := replicate NUM_TLB 0,
    tlb_hw := map (\<lambda>i. (TLBHI_INVALID i, TLBLO_INVALID)) [0..<NUM_TLB]\<rparr>)"
  have hi: "unat (TLBHI_INVALID i) = (0x80000 + i) * 4096" if "i < NUM_TLB" for i
  proof -
    have "unat (0x80000 + of_nat i :: u32) = 0x80000 + i"
      using that by (simp add: unat_add_lem [THEN iffD1] unat_of_nat)
    then show ?thesis
      using that unat_mult_lem [of "0x80000 + of_nat i :: u32" "4096"]
      by (simp add: TLBHI_INVALID_def push_bit_eq_mult)
  qed
  then have "MIPS_KSEG0 \<le> TLBHI_INVALID i" if "i < NUM_TLB" for i
    using that by (simp add: word_le_nat_alt)
  moreover have "inj_on TLBHI_INVALID {0..<NUM_TLB}"
  proof (rule inj_onI)
    fix i j assume "i \<in> {0..<NUM_TLB}" "j \<in> {0..<NUM_TLB}" and eq: "TLBHI_INVALID i = TLBHI_INVALID j"
    then have "i < NUM_TLB" "j < NUM_TLB" by (simp_all only: atLeastLessThan_iff)
    then have "(0x80000 + i) * 4096 = (0x80000 + j) * 4096"
      using hi [of i] hi [of j] by (simp only: eq)
    then show "i = j" by simp
  qed
  then have "distinct (map TLBHI_INVALID [0..<NUM_TLB])"
    by (simp add: distinct_map del: upt_rec_numeral)
  moreover have "tlb_inv ?s" using inv by (simp add: tlb_inv_def stats_defs cpu_ok_def)
  moreover have "tlb_bitmap ?s = replicate NUM_TLB 0"
    "tlb_hw ?s = map (\<lambda>i. (TLBHI_INVALID i, TLBLO_INVALID)) [0..<NUM_TLB]"
    "tlb_invalidations ?s = int32 (tlb_invalidations s + 1)"
    by (simp_all add: stats_defs del: upt_rec_numeral)
  moreover have "TLBLO_INVALID AND TLBLO_VALID = 0" by (simp add: TLBLO_INVALID_def)
  ultimately show ?thesis
    unfolding reset_tlb_eq [OF inv]
    by (intro exI [of _ ?s] conjI refl allI impI) (simp_all add: o_def del: upt_rec_numeral)
qed

text \<open>\<^verbatim>\<open>reset_tlb_pid_different\<close>, which \<^verbatim>\<open>as_activate\<close> calls at a context switch, only returns when
  all 64 slots already belong to the current process, and then changes nothing. Otherwise it calls
  \<^verbatim>\<open>reset_one_entry_by_index\<close> with \<^verbatim>\<open>slock\<close> held, which takes the same lock, and the kernel
  panics.\<close>

lemma reset_tlb_pid_different_deadlock:
  assumes inv: "tlb_inv s"
  shows "reset_tlb_pid_different pid s =
    (if \<forall>i < NUM_TLB. tlb_pid (fst (tlb_hw s ! i)) = pid then Inr s
     else Inl (Panic ''Deadlock on spinlock''))"
proof -
  let ?t = "lock_enter tlb_slock_update s"
  let ?f = "\<lambda>index (b, s). if tlb_pid (fst (tlb_read index s)) = pid then Inr (False, s)
     else sbind (reset_one_entry_by_index index s) (\<lambda>s. Inr (b, s))"
  have loop: "kfor is ?f (b, ?t) = (if \<forall>i \<in> set is. tlb_pid (fst (tlb_hw s ! i)) = pid
      then Inr (b \<and> is = [], ?t) else Inl (Panic ''Deadlock on spinlock''))" for "is" b
    by (induction "is" arbitrary: b) (simp_all add: tlb_read_def reset_one_locked [OF inv])
  have "(\<forall>i \<in> set [0..<NUM_TLB]. tlb_pid (fst (tlb_hw s ! i)) = pid) \<longleftrightarrow>
      (\<forall>i < NUM_TLB. tlb_pid (fst (tlb_hw s ! i)) = pid)"
    unfolding set_upt by (meson atLeastLessThan_iff le0)
  then show ?thesis
    using tlb.acq [OF tlb_inv_lock [OF inv]] tlb.rel_enter [OF tlb_inv_lock [OF inv]]
    by (simp add: reset_tlb_pid_different_def loop del: upt_rec_numeral)
qed

text \<open>\<^verbatim>\<open>read_entry\<close> never returns a translation. On a miss it returns \<open>-1\<close> with \<^verbatim>\<open>slock\<close> still held, so
  that the next \<^verbatim>\<open>add_entry\<close> panics; on a hit it stores through a null pointer.\<close>

lemma read_entry_broken:
  assumes inv: "tlb_inv s"
  shows "case read_entry tlb_probe vaddr s of
      Inl e \<Rightarrow> e = Undefined ''tlb_read: store through a null pointer''
    | Inr (r, paddr, s') \<Rightarrow> r = -1 \<and> paddr = None \<and>
        add_entry index hi lo s' = Inl (Panic ''Deadlock on spinlock'')"
proof -
  let ?t = "lock_enter tlb_slock_update s"
  have "curcpu_exists s" using inv by (simp add: tlb_inv_def cpu_ok_def)
  then have "lock_acq tlb_slock tlb_slock_update ?t = Inl (Panic ''Deadlock on spinlock'')"
    by (intro tlb.acq_held) simp_all
  then show ?thesis
    using tlb.acq [OF tlb_inv_lock [OF inv]] by (simp add: read_entry_def add_entry_def Let_def)
qed

end
