(* ===== verification/Emu.thy ===== *)
theory Emu
  imports Spinlock
begin

text \<open>
  The emulator device and its files (\<^verbatim>\<open>kern/dev/lamebus/emu.c\<close>), as far as the swap file uses them: transfers and the
  size of an open file. The device is a record of functions, and the file on the host a list of bytes. A
  transfer starts the device and waits for its interrupt with \<^verbatim>\<open>P\<close>: when the interrupt has not been handled by
  then, the thread sleeps, and \<^verbatim>\<open>wchan_sleep\<close> fails its assertion when the CPU holds a spinlock besides that of the
  semaphore. The lock \<^verbatim>\<open>e_lock\<close> has no effect in this kernel: \<^verbatim>\<open>PROJECTC1\<close> leaves out the option \<^verbatim>\<open>synch\<close>, without which
  \<^verbatim>\<open>lock_acquire\<close> and \<^verbatim>\<open>lock_release\<close> are empty. A register that an operation does not use is 0.
\<close>

section \<open>The device\<close>

abbreviation (input) EMU_MAXIO :: nat where "EMU_MAXIO \<equiv> 16384"
abbreviation (input) EMU_OP_READ :: u32 where "EMU_OP_READ \<equiv> 5"
abbreviation (input) EMU_OP_WRITE :: u32 where "EMU_OP_WRITE \<equiv> 7"
abbreviation (input) EMU_OP_GETSIZE :: u32 where "EMU_OP_GETSIZE \<equiv> 8"
abbreviation (input) EMU_OP_TRUNC :: u32 where "EMU_OP_TRUNC \<equiv> 9"
abbreviation (input) EMU_RES_SUCCESS :: u32 where "EMU_RES_SUCCESS \<equiv> 1"

text \<open>What the registers hold when the device has finished: result, length, offset; the buffer and the file.\<close>

record emu_result =
  reg_result :: u32
  reg_iolen :: u32
  reg_offset :: u32
  reg_buf :: "u8 list"
  reg_file :: "u8 list"

text \<open>\<open>hw_exec\<close> is one operation of the device, from the operation, the handle, the offset, the length, the buffer and
  the file. \<open>hw_early\<close> says for an operation, an offset and the file whether another CPU has handled the interrupt
  of the device by the time the thread looks at the semaphore.\<close>

record emu_hw =
  hw_exec :: "u32 \<Rightarrow> u32 \<Rightarrow> u32 \<Rightarrow> u32 \<Rightarrow> u8 list \<Rightarrow> u8 list \<Rightarrow> emu_result"
  hw_early :: "u32 \<Rightarrow> u32 \<Rightarrow> u8 list \<Rightarrow> bool"

section \<open>The driver\<close>

definition translate_err :: "u32 \<Rightarrow> errno kres" where
  "translate_err code =
     (if code = 1 then Inr 0
      else if code = 2 \<or> code = 3 \<or> code = 5 then Inl (Panic ''emu: got fatal result code'')
      else if code = 4 then Inr ENOENT
      else if code = 6 then Inr EEXIST
      else if code = 7 then Inr EISDIR
      else if code = 8 then Inr EIO
      else if code = 9 then Inr ENFILE
      else if code = 10 then Inr ENOSPC
      else if code = 11 then Inr ENOTDIR
      else if code = 12 then Inr EIO
      else if code = 13 then Inr ENOSYS
      else Inr EAGAIN)"

text \<open>\<^verbatim>\<open>P(sc->e_sem)\<close>, whose count is 1 when the interrupt has been handled and 0 otherwise, and then the result that the
  interrupt handler stored. \<open>c_spinlocks s\<close> does not count the spinlock of the semaphore.\<close>

definition emu_waitdone :: "bool \<Rightarrow> u32 \<Rightarrow> 'a cpu_state_scheme \<Rightarrow> errno kres" where
  "emu_waitdone early e_result s =
     kassert (\<not> t_in_interrupt s) ''curthread->t_in_interrupt == false'' (
     if early then translate_err e_result
     else kassert (c_spinlocks s + 1 = 1) ''curcpu->c_spinlocks == 1'' (translate_err e_result))"

text \<open>A read into a uio with \<open>resid\<close> bytes left: the error, the bytes moved and the new offset.\<close>

definition emu_doread ::
  "emu_hw \<Rightarrow> u32 \<Rightarrow> nat \<Rightarrow> u32 \<Rightarrow> nat \<Rightarrow> nat \<Rightarrow> u8 list \<Rightarrow> 'a cpu_state_scheme \<Rightarrow> (errno \<times> u8 list \<times> nat) kres" where
  "emu_doread hw handle len op resid off f s =
     (if off > 0xffffffff then Inr (0, [], off)
      else
        let r = hw_exec hw op handle (of_nat off) (of_nat len) [] f
        in sbind (emu_waitdone (hw_early hw op (of_nat off) f) (reg_result r) s) (\<lambda>result.
           if result \<noteq> 0 then Inr (result, [], off)
           else Inr (0, take (min (unat (reg_iolen r)) resid) (reg_buf r), unat (reg_offset r))))"

definition emu_read ::
  "emu_hw \<Rightarrow> u32 \<Rightarrow> nat \<Rightarrow> nat \<Rightarrow> nat \<Rightarrow> u8 list \<Rightarrow> 'a cpu_state_scheme \<Rightarrow> (errno \<times> u8 list \<times> nat) kres" where
  "emu_read hw handle len resid off f s = emu_doread hw handle len EMU_OP_READ resid off f s"

text \<open>A write from a uio that holds the bytes \<open>bs\<close>: the error, the bytes left, the new offset and the file.\<close>

definition emu_write ::
  "emu_hw \<Rightarrow> u32 \<Rightarrow> nat \<Rightarrow> u8 list \<Rightarrow> nat \<Rightarrow> u8 list \<Rightarrow> 'a cpu_state_scheme \<Rightarrow> (errno \<times> u8 list \<times> nat \<times> u8 list) kres" where
  "emu_write hw handle len bs off f s =
     (if off > 0xffffffff then Inr (EFBIG, bs, off, f)
      else
        let r = hw_exec hw EMU_OP_WRITE handle (of_nat off) (of_nat len) (take len bs) f
        in sbind (emu_waitdone (hw_early hw EMU_OP_WRITE (of_nat off) f) (reg_result r) s) (\<lambda>result.
           Inr (result, drop len bs, off + min len (length bs), reg_file r)))"

definition emu_getsize :: "emu_hw \<Rightarrow> u32 \<Rightarrow> u8 list \<Rightarrow> 'a cpu_state_scheme \<Rightarrow> (errno \<times> nat option) kres" where
  "emu_getsize hw handle f s =
     (let r = hw_exec hw EMU_OP_GETSIZE handle 0 0 [] f
      in sbind (emu_waitdone (hw_early hw EMU_OP_GETSIZE 0 f) (reg_result r) s) (\<lambda>result.
         Inr (result, if result = 0 then Some (unat (reg_iolen r)) else None)))"

definition emu_trunc :: "emu_hw \<Rightarrow> u32 \<Rightarrow> int \<Rightarrow> u8 list \<Rightarrow> 'a cpu_state_scheme \<Rightarrow> (errno \<times> u8 list) kres" where
  "emu_trunc hw handle len f s =
     kassert (len \<ge> 0) ''len >= 0'' (
     let r = hw_exec hw EMU_OP_TRUNC handle 0 (of_int len) [] f
     in sbind (emu_waitdone (hw_early hw EMU_OP_TRUNC 0 f) (reg_result r) s) (\<lambda>result. Inr (result, reg_file r)))"

section \<open>The operations of a file\<close>

text \<open>\<^verbatim>\<open>VOP_READ\<close>: the error, the bytes moved and the number of bytes left.\<close>

function emufs_read ::
  "emu_hw \<Rightarrow> u32 \<Rightarrow> nat \<Rightarrow> nat \<Rightarrow> u8 list \<Rightarrow> 'a cpu_state_scheme \<Rightarrow> (errno \<times> u8 list) kres" where
  "emufs_read hw handle resid off f s =
     (if resid = 0 then Inr (0, [])
      else case emu_read hw handle (min resid EMU_MAXIO) resid off f s of
        Inl e \<Rightarrow> Inl e
      | Inr (result, bs, off) \<Rightarrow>
          if result \<noteq> 0 then Inr (result, [])
          else if bs = [] then Inr (0, [])
          else case emufs_read hw handle (resid - length bs) off f s of
            Inl e \<Rightarrow> Inl e
          | Inr (result, bs') \<Rightarrow> Inr (result, bs @ bs'))"
  by pat_completeness auto
termination by (relation "measure (\<lambda>(hw, handle, resid, off, f, s). resid)") auto

text \<open>\<^verbatim>\<open>VOP_WRITE\<close>: the error and the file.\<close>

function emufs_write ::
  "emu_hw \<Rightarrow> u32 \<Rightarrow> u8 list \<Rightarrow> nat \<Rightarrow> u8 list \<Rightarrow> 'a cpu_state_scheme \<Rightarrow> (errno \<times> u8 list) kres" where
  "emufs_write hw handle bs off f s =
     (if bs = [] then Inr (0, f)
      else case emu_write hw handle (min (length bs) EMU_MAXIO) bs off f s of
        Inl e \<Rightarrow> Inl e
      | Inr (result, rest, off, f) \<Rightarrow>
          if result \<noteq> 0 then Inr (result, f)
          else if length rest = length bs then Inr (0, f)
          else if length rest < length bs then emufs_write hw handle rest off f s
          else Inl (Undefined ''uio_resid''))"
  by pat_completeness auto
termination by (relation "measure (\<lambda>(hw, handle, bs, off, f, s). length bs)") auto

declare emufs_read.simps [simp del] emufs_write.simps [simp del]

definition emufs_stat :: "emu_hw \<Rightarrow> u32 \<Rightarrow> u8 list \<Rightarrow> 'a cpu_state_scheme \<Rightarrow> (errno \<times> nat) kres" where
  "emufs_stat hw handle f s =
     sbind (emu_getsize hw handle f s) (\<lambda>(result, size). Inr (result, case size of None \<Rightarrow> 0 | Some n \<Rightarrow> n))"

definition emufs_truncate :: "emu_hw \<Rightarrow> u32 \<Rightarrow> int \<Rightarrow> u8 list \<Rightarrow> 'a cpu_state_scheme \<Rightarrow> (errno \<times> u8 list) kres" where
  "emufs_truncate hw handle len f s = emu_trunc hw handle len f s"

section \<open>Transfers inside a file\<close>

text \<open>What the device does with a request inside the file: it reads and writes the bytes at the offset.\<close>

definition emu_hw_ok :: "emu_hw \<Rightarrow> bool" where
  "emu_hw_ok hw \<longleftrightarrow>
     (\<forall>h off bs f. unat off + length bs \<le> length f \<longrightarrow> length bs \<le> EMU_MAXIO \<longrightarrow>
        (let r = hw_exec hw EMU_OP_WRITE h off (of_nat (length bs)) bs f
         in reg_result r = EMU_RES_SUCCESS \<and> reg_file r = take (unat off) f @ bs @ drop (unat off + length bs) f)) \<and>
     (\<forall>h off n f. unat off + unat n \<le> length f \<longrightarrow> unat n \<le> EMU_MAXIO \<longrightarrow>
        (let r = hw_exec hw EMU_OP_READ h off n [] f
         in reg_result r = EMU_RES_SUCCESS \<and> reg_iolen r = n \<and> reg_buf r = take (unat n) (drop (unat off) f)))"

text \<open>The device always finishes before the thread looks.\<close>

definition emu_early :: "emu_hw \<Rightarrow> bool" where
  "emu_early hw \<longleftrightarrow> (\<forall>op off f. hw_early hw op off f)"

text \<open>The wait goes through when the interrupt comes early or no spinlock is held.\<close>

lemma emu_waitdone_ok:
  assumes "\<not> t_in_interrupt s"
  shows "emu_waitdone early EMU_RES_SUCCESS s = (if early \<or> c_spinlocks s = 0 then Inr 0 else Inl (AssertFail ''curcpu->c_spinlocks == 1''))"
  using assms by (simp add: emu_waitdone_def translate_err_def)

lemma emufs_write_ok:
  assumes hw: "emu_hw_ok hw" and intr: "\<not> t_in_interrupt s"
    and bs: "0 < length bs" "length bs \<le> EMU_MAXIO" "off + length bs \<le> length f" "off < 2 ^ 32"
  shows "emufs_write hw h bs off f s =
    (if hw_early hw EMU_OP_WRITE (of_nat off) f \<or> c_spinlocks s = 0 then Inr (0, take off f @ bs @ drop (off + length bs) f)
     else Inl (AssertFail ''curcpu->c_spinlocks == 1''))"
proof -
  have o: "unat (of_nat off :: u32) = off" using bs(4) by (simp add: unat_of_nat)
  let ?r = "hw_exec hw EMU_OP_WRITE h (of_nat off) (of_nat (length bs)) bs f"
  have r: "reg_result ?r = EMU_RES_SUCCESS" "reg_file ?r = take off f @ bs @ drop (off + length bs) f"
    using hw bs o unfolding emu_hw_ok_def Let_def by (metis (no_types, lifting))+
  have "emu_write hw h (length bs) bs off f s =
      (if hw_early hw EMU_OP_WRITE (of_nat off) f \<or> c_spinlocks s = 0 then Inr (0, [], off + length bs, take off f @ bs @ drop (off + length bs) f)
       else Inl (AssertFail ''curcpu->c_spinlocks == 1''))"
    using bs(4) by (simp add: emu_write_def r emu_waitdone_ok [OF intr] not_less [symmetric])
  moreover have "min (length bs) EMU_MAXIO = length bs" "bs \<noteq> []" using bs(1,2) by auto
  ultimately show ?thesis by (simp add: emufs_write.simps [of hw h bs] emufs_write.simps [of hw h "[]"])
qed

lemma emufs_read_ok:
  assumes hw: "emu_hw_ok hw" and intr: "\<not> t_in_interrupt s"
    and n: "0 < n" "n \<le> EMU_MAXIO" "off + n \<le> length f" "off < 2 ^ 32"
  shows "emufs_read hw h n off f s =
    (if hw_early hw EMU_OP_READ (of_nat off) f \<or> c_spinlocks s = 0 then Inr (0, take n (drop off f))
     else Inl (AssertFail ''curcpu->c_spinlocks == 1''))"
proof -
  have o: "unat (of_nat off :: u32) = off" "unat (of_nat n :: u32) = n" using n(2,4) by (simp_all add: unat_of_nat)
  let ?r = "hw_exec hw EMU_OP_READ h (of_nat off) (of_nat n) [] f"
  have r: "reg_result ?r = EMU_RES_SUCCESS" "unat (reg_iolen ?r) = n" "reg_buf ?r = take n (drop off f)"
    using hw n o unfolding emu_hw_ok_def Let_def by (metis (no_types, lifting))+
  have "emu_read hw h n n off f s =
      (if hw_early hw EMU_OP_READ (of_nat off) f \<or> c_spinlocks s = 0 then Inr (0, take n (drop off f), unat (reg_offset ?r))
       else Inl (AssertFail ''curcpu->c_spinlocks == 1''))"
    using n(4) by (simp add: emu_read_def emu_doread_def r emu_waitdone_ok [OF intr] not_less [symmetric])
  moreover have "min n EMU_MAXIO = n" "length (take n (drop off f)) = n" using n(2,3) by simp_all
  moreover from this have "take n (drop off f) \<noteq> []" using n(1) by auto
  ultimately show ?thesis using n(1) by (simp add: emufs_read.simps [of hw h n] emufs_read.simps [of hw h 0])
qed

end
