(* ===== verification/Swapfile.thy ===== *)
theory Swapfile
  imports Vm_Tlb Emu
begin

text \<open>
  The swap file (\<^verbatim>\<open>kern/vm/swapfile.c\<close>): 2304 slots of one page, each with the process and the virtual
  page that it holds. The file is \<^verbatim>\<open>emu0:SWAPFILE\<close>, so its vnode operations are those of the emulator device. \<open>phys\<close> is
  the content of the physical memory, which the kernel reaches through \<^verbatim>\<open>PADDR_TO_KVADDR\<close>. Both \<^verbatim>\<open>swap_out\<close> and
  \<^verbatim>\<open>swap_in\<close> transfer with the spinlock \<^verbatim>\<open>slock\<close> held: when the transfer has to wait for the device, an assertion of
  \<^verbatim>\<open>wchan_sleep\<close> stops the kernel.
\<close>

section \<open>State\<close>

abbreviation (input) FILESIZE :: nat where "FILESIZE \<equiv> 9437184"
abbreviation (input) NUMBERENTRIES :: nat where "NUMBERENTRIES \<equiv> 2304"
abbreviation (input) MAX_ALLOCATED_PAGES :: int where "MAX_ALLOCATED_PAGES \<equiv> 50"

record swap_track =
  st_permission_flag :: permission_t
  st_pid :: int
  st_vaddr :: vaddr
  st_valid :: u8

record swap_state = tlb_state +
  phys :: "paddr \<Rightarrow> u8"
  track :: "swap_track list"
  swap_file :: "u8 list"
  swap_slock :: spinlock

text \<open>
  What the swap file is built on: \<^verbatim>\<open>vfs_open\<close> (an error number and the file), the emulator device, and the
  handle that it gave the file.
\<close>

record swap_ops =
  vfs_open :: "u8 list \<Rightarrow> int \<times> u8 list"
  swap_hw :: emu_hw
  swap_handle :: u32

definition VOP_STAT :: "swap_ops \<Rightarrow> 'a swap_state_scheme \<Rightarrow> nat kres" where
  "VOP_STAT ops s = sbind (emufs_stat (swap_hw ops) (swap_handle ops) (swap_file s) s) (\<lambda>(err, size). Inr size)"

definition VOP_WRITE :: "swap_ops \<Rightarrow> nat \<Rightarrow> u8 list \<Rightarrow> 'a swap_state_scheme \<Rightarrow> (errno \<times> u8 list) kres" where
  "VOP_WRITE ops off bs s = emufs_write (swap_hw ops) (swap_handle ops) bs off (swap_file s) s"

definition VOP_READ :: "swap_ops \<Rightarrow> nat \<Rightarrow> nat \<Rightarrow> 'a swap_state_scheme \<Rightarrow> (errno \<times> u8 list) kres" where
  "VOP_READ ops off n s = emufs_read (swap_hw ops) (swap_handle ops) n off (swap_file s) s"

text \<open>Bytes of the physical memory.\<close>

definition phys_bytes :: "paddr \<Rightarrow> nat \<Rightarrow> 'a swap_state_scheme \<Rightarrow> u8 list" where
  "phys_bytes p n s = map (\<lambda>i. phys s (p + of_nat i)) [0..<n]"

definition phys_store :: "paddr \<Rightarrow> u8 list \<Rightarrow> 'a swap_state_scheme \<Rightarrow> 'a swap_state_scheme" where
  "phys_store p bs s =
     s\<lparr>phys := (\<lambda>a. if unat (a - p) < length bs then bs ! unat (a - p) else phys s a)\<rparr>"

definition as_zero_region :: "paddr \<Rightarrow> nat \<Rightarrow> 'a swap_state_scheme \<Rightarrow> 'a swap_state_scheme" where
  "as_zero_region paddr npages s = phys_store paddr (replicate (npages * 4096) 0) s"

section \<open>Operations\<close>

text \<open>\<open>buf\<close> is the byte that the uninitialised buffer holds.\<close>

definition swap_grow :: "swap_ops \<Rightarrow> u8 \<Rightarrow> nat \<Rightarrow> 'a swap_state_scheme \<Rightarrow> 'a swap_state_scheme kres" where
  "swap_grow ops buf i s =
     sbind (VOP_WRITE ops (1024 * i) [buf] s) (\<lambda>(err, f).
     if err \<noteq> 0 then Inl (Panic ''swapfile.c: write error'') else Inr (s\<lparr>swap_file := f\<rparr>))"

definition swap_bootstrap ::
  "swap_ops \<Rightarrow> u8 \<Rightarrow> 'a swap_state_scheme \<Rightarrow> 'a swap_state_scheme kres" where
  "swap_bootstrap ops buf s =
     (let (err, f) = vfs_open ops (swap_file s); s = s\<lparr>swap_file := f\<rparr>
      in if err \<noteq> 0 then Inl (Panic ''swapfile.c: error opening swapfile'')
         else
           sbind (VOP_STAT ops s) (\<lambda>st_size.
           sbind (if st_size < FILESIZE then
                    sbind (kfor [0..<FILESIZE div 1024 + 1] (swap_grow ops buf) s) (\<lambda>s.
                    sbind (VOP_STAT ops s) (\<lambda>st_size.
                    if st_size < FILESIZE
                    then Inl (Panic ''swapfile.c: swapfile size'') else Inr s))
                  else Inr s) (\<lambda>s.
           Inr (s\<lparr>track := map (\<lambda>e. e\<lparr>st_permission_flag := READ_ONLY, st_pid := -1, st_vaddr := 0,
                              st_valid := 0\<rparr>) (track s)\<rparr>))))"

definition swap_out ::
  "swap_ops \<Rightarrow> int \<Rightarrow> vaddr \<Rightarrow> permission_t \<Rightarrow> paddr \<Rightarrow> 'a swap_state_scheme \<Rightarrow>
   'a swap_state_scheme kres" where
  "swap_out ops pid vaddr permission_flag paddr s =
     (if vaddr \<ge> MIPS_KSEG0
      then Inl (Panic ''swapfile.c: vaddr cannot be greater than MIPS_KSEG0'')
      else
        sbind (lock_acq swap_slock swap_slock_update s) (\<lambda>s.
        let i = find_first (\<lambda>e. st_valid e = 0) 0 (track s)
        in if i = -1 then Inl (Panic ''swapfile.c: out of swap space'')
           else
             sbind (VOP_WRITE ops (nat i * 4096) (phys_bytes paddr 4096 s) s) (\<lambda>(err, f).
                if err \<noteq> 0 then Inl (Panic ''swapfile.c: write error'')
                else
                  let s = s\<lparr>swap_file := f,
                            track := (track s)[nat i := \<lparr>st_permission_flag = permission_flag,
                              st_pid = pid, st_vaddr = vaddr, st_valid = 1\<rparr>]\<rparr>
                  in sbind (lock_rel swap_slock swap_slock_update s) (\<lambda>s.
                     sbind (page_table_reset_entry (int (unat (paddr div PAGE_SIZE))) s) (\<lambda>s.
                     Inr (increment_page_faults_swapout s))))))"

text \<open>
  The frame that a page is brought into: a fresh one, or that of the victim, which goes to the swap
  file. \<open>at_limit\<close> is the caller's test on \<^verbatim>\<open>allocated_pages\<close>. The result is \<open>None\<close> when there is
  no victim.
\<close>

definition swap_in_frame ::
  "swap_ops \<Rightarrow> int \<Rightarrow> int \<Rightarrow> 'a swap_state_scheme \<Rightarrow>
   ((paddr \<times> int) option \<times> 'a swap_state_scheme) kres" where
  "swap_in_frame ops pid allocated_pages s =
     sbind (if allocated_pages = MAX_ALLOCATED_PAGES then Inr (0, s) else getppages 1 s) (\<lambda>(paddr, s).
     if paddr \<noteq> 0 then Inr (Some (paddr, allocated_pages), s)
     else
       sbind (page_table_replacement pid s) (\<lambda>(index_page_to_replace, victim).
       case victim of
         None \<Rightarrow> Inr (None, s)
       | Some e \<Rightarrow>
           let paddr = of_int index_page_to_replace * PAGE_SIZE
           in sbind (swap_out ops pid (e_vaddr e) (e_permission_flag e) paddr s) (\<lambda>s.
              Inr (Some (paddr, allocated_pages - 1), s))))"

text \<open>
  The result is the value returned, the frame stored through \<^verbatim>\<open>paddr\<close> if any, and the new value
  of \<^verbatim>\<open>as->allocated_pages\<close>. The arguments of \<^verbatim>\<open>page_table_add_entry\<close> are in the order in which the
  code passes them.
\<close>

definition swap_in ::
  "swap_ops \<Rightarrow> int \<Rightarrow> int \<Rightarrow> vaddr \<Rightarrow> 'a swap_state_scheme \<Rightarrow>
   (int \<times> paddr option \<times> int \<times> 'a swap_state_scheme) kres" where
  "swap_in ops allocated_pages pid vaddr s =
     sbind (lock_acq swap_slock swap_slock_update s) (\<lambda>s.
     let i = find_first (\<lambda>e. st_pid e = pid \<and> st_vaddr e = vaddr \<and> st_valid e = 1) 0 (track s)
     in if i = -1 then
          sbind (lock_rel swap_slock swap_slock_update s) (\<lambda>s. Inr (0, None, allocated_pages, s))
        else
          sbind (swap_in_frame ops pid allocated_pages s) (\<lambda>(frame, s).
          case frame of
            None \<Rightarrow> Inr (0, None, allocated_pages, s)
          | Some (paddr, allocated) \<Rightarrow>
              let s = increment_page_faults_zeroed (as_zero_region paddr 1 s)
              in sbind (VOP_READ ops (nat i * 4096) 4096 s) (\<lambda>(err, bs).
                 let s = phys_store paddr bs s
                 in if err \<noteq> 0 then Inl (Panic ''swapfile.c: read error'')
                 else if length bs \<noteq> 4096 then Inl (Panic ''swapfile.c: uio_resid != 0'')
                 else
                   let s = s\<lparr>track := (track s)[nat i := (track s ! nat i)\<lparr>st_pid := -1, st_valid := 0\<rparr>]\<rparr>;
                       frame = unat (paddr div PAGE_SIZE)
                   in if frame \<ge> length (track s) then Inl (Undefined ''track index'')
                      else
                        let flag = (case st_permission_flag (track s ! frame) of
                                      READ_ONLY \<Rightarrow> 0 | READ_WRITE \<Rightarrow> 1)
                        in sbind (page_table_add_entry (sint vaddr) paddr (of_int pid) flag s) (\<lambda>s.
                           sbind (lock_rel swap_slock swap_slock_update
                                    (increment_page_faults_swapin s)) (\<lambda>s.
                           Inr (1, Some paddr, allocated + 1, s))))))"

definition swap_remove_pid :: "int \<Rightarrow> 'a swap_state_scheme \<Rightarrow> 'a swap_state_scheme" where
  "swap_remove_pid pid s =
     s\<lparr>track := map (\<lambda>e. if st_pid e = pid \<and> st_valid e = 1 then e\<lparr>st_pid := -1, st_valid := 0\<rparr> else e)
                   (track s)\<rparr>"

section \<open>Lemmas\<close>

definition swap_inv :: "'a swap_state_scheme \<Rightarrow> bool" where
  "swap_inv s \<longleftrightarrow> pt_ok s \<and> swap_slock s = spinlock_init \<and> length (track s) = NUMBERENTRIES \<and>
     FILESIZE \<le> length (swap_file s)"

interpretation swap: lock_field swap_slock swap_slock_update
  by unfold_locales (simp_all add: cpu_hold_def cpu_unhold_def)

lemma swap_inv_cpu: "swap_inv s \<Longrightarrow> cpu_ok s" "swap_inv s \<Longrightarrow> swap_slock s = spinlock_init"
  by (simp_all add: swap_inv_def pt_ok_def)

lemma length_phys_bytes [simp]: "length (phys_bytes p n s) = n"
  by (simp add: phys_bytes_def)

lemma phys_bytes_store:
  assumes "length bs \<le> 2 ^ 31"
  shows "phys_bytes p (length bs) (phys_store p bs s) = bs"
proof -
  have "unat (of_nat i :: u32) = i" if "i < length bs" for i
    using that assms by (simp add: unat_of_nat)
  then show ?thesis
    by (intro nth_equalityI) (simp_all add: phys_bytes_def phys_store_def)
qed

text \<open>
  With \<^verbatim>\<open>slock\<close> held, the transfer of a slot goes through when the device finishes before the thread looks, and
  fails the assertion of \<^verbatim>\<open>wchan_sleep\<close> otherwise. \<open>swap_cpu\<close> says that the caller is a thread that holds no spinlock.
\<close>

definition swap_cpu :: "'a swap_state_scheme \<Rightarrow> bool" where
  "swap_cpu s \<longleftrightarrow> \<not> t_in_interrupt s \<and> c_spinlocks s = 0"

lemma slot_write:
  assumes "emu_hw_ok (swap_hw ops)" and "\<not> t_in_interrupt s" and "c_spinlocks s \<noteq> 0" and "length bs = 4096"
    and "i * 4096 + 4096 \<le> length (swap_file s)" and "i < NUMBERENTRIES"
  shows "VOP_WRITE ops (i * 4096) bs s =
    (if hw_early (swap_hw ops) EMU_OP_WRITE (of_nat (i * 4096)) (swap_file s)
     then Inr (0, take (i * 4096) (swap_file s) @ bs @ drop (i * 4096 + 4096) (swap_file s))
     else Inl (AssertFail ''curcpu->c_spinlocks == 1''))"
  unfolding VOP_WRITE_def using assms by (subst emufs_write_ok) simp_all

lemma slot_read:
  assumes "emu_hw_ok (swap_hw ops)" and "\<not> t_in_interrupt s" and "c_spinlocks s \<noteq> 0"
    and "i * 4096 + 4096 \<le> length (swap_file s)" and "i < NUMBERENTRIES"
  shows "VOP_READ ops (i * 4096) 4096 s =
    (if hw_early (swap_hw ops) EMU_OP_READ (of_nat (i * 4096)) (swap_file s)
     then Inr (0, take 4096 (drop (i * 4096) (swap_file s)))
     else Inl (AssertFail ''curcpu->c_spinlocks == 1''))"
  unfolding VOP_READ_def using assms by (subst emufs_read_ok) simp_all

lemma slot_in_file: "i < NUMBERENTRIES \<Longrightarrow> i * 4096 + 4096 \<le> FILESIZE"
  by simp

lemma phys_store_simps [simp]:
  "track (phys_store p bs s) = track s" "swap_file (phys_store p bs s) = swap_file s"
  "next_entry (phys_store p bs s) = next_entry s" "swap_slock (phys_store p bs s) = swap_slock s"
  "pt_ok (phys_store p bs s) = pt_ok s" "cpu_ok (phys_store p bs s) = cpu_ok s"
  by (simp_all add: phys_store_def pt_ok_def cpu_ok_def)

lemma pt_ok_track [simp]: "pt_ok (s\<lparr>track := x\<rparr>) = pt_ok s"
  by (simp add: pt_ok_def cpu_ok_def)

lemma zero_region_simps [simp]:
  "track (as_zero_region p n s) = track s" "swap_file (as_zero_region p n s) = swap_file s"
  "next_entry (as_zero_region p n s) = next_entry s" "swap_slock (as_zero_region p n s) = swap_slock s"
  "pt_ok (as_zero_region p n s) = pt_ok s" "cpu_ok (as_zero_region p n s) = cpu_ok s"
  by (simp_all add: as_zero_region_def)

lemma zeroed_simps [simp]:
  "track (increment_page_faults_zeroed s) = track s"
  "swap_file (increment_page_faults_zeroed s) = swap_file s"
  "next_entry (increment_page_faults_zeroed s) = next_entry s"
  "pt_ok (increment_page_faults_zeroed s) = pt_ok s"
  by (simp_all add: stats_defs pt_ok_def cpu_ok_def)

text \<open>The state after a successful \<^verbatim>\<open>swap_out\<close> of frame \<open>f\<close> to slot \<open>i\<close>.\<close>

definition swapped_out ::
  "int \<Rightarrow> vaddr \<Rightarrow> permission_t \<Rightarrow> nat \<Rightarrow> nat \<Rightarrow> 'a swap_state_scheme \<Rightarrow> 'a swap_state_scheme" where
  "swapped_out pid vaddr flag f i s =
     increment_page_faults_swapout (s\<lparr>
       swap_file := take (i * 4096) (swap_file s) @ phys_bytes (of_nat f * PAGE_SIZE) 4096 s @
         drop (i * 4096 + 4096) (swap_file s),
       track := (track s)[i := \<lparr>st_permission_flag = flag, st_pid = pid, st_vaddr = vaddr, st_valid = 1\<rparr>],
       next_entry := pt_reset f (next_entry s)\<rparr>)"

lemma swap_out_full:
  assumes "swap_inv s" and "vaddr < MIPS_KSEG0" and "\<forall>e \<in> set (track s). st_valid e \<noteq> 0"
  shows "swap_out ops pid vaddr flag paddr s = Inl (Panic ''swapfile.c: out of swap space'')"
proof -
  let ?t = "lock_enter swap_slock_update s"
  have "track ?t = track s" by (simp add: lock_defs)
  moreover have "find_first (\<lambda>e. st_valid e = 0) 0 (track s) = -1"
    unfolding find_first_none using assms(3) by simp
  ultimately show ?thesis
    using assms(2) swap.acq [OF swap_inv_cpu [OF assms(1)]] by (simp add: swap_out_def not_le)
qed

lemma swap_out_eq:
  assumes inv: "swap_inv s" and cpu: "swap_cpu s" and ops: "emu_hw_ok (swap_hw ops)" and v: "vaddr < MIPS_KSEG0"
    and f: "f < length (next_entry s)" and free: "\<exists>e \<in> set (track s). st_valid e = 0"
  obtains i where "i < NUMBERENTRIES" and "st_valid (track s ! i) = 0"
    and "\<forall>j < i. st_valid (track s ! j) \<noteq> 0"
    and "swap_out ops pid vaddr flag (of_nat f * PAGE_SIZE) s =
      (if hw_early (swap_hw ops) EMU_OP_WRITE (of_nat (i * 4096)) (swap_file s)
       then Inr (swapped_out pid vaddr flag f i s) else Inl (AssertFail ''curcpu->c_spinlocks == 1''))"
proof -
  let ?t = "lock_enter swap_slock_update s" and ?P = "\<lambda>e. st_valid e = 0"
  have len: "length (track s) = NUMBERENTRIES" and flen: "FILESIZE \<le> length (swap_file s)"
    and pt: "pt_ok s" using inv by (simp_all add: swap_inv_def)
  have "find_first ?P 0 (track s) \<noteq> -1" unfolding find_first_none using free by blast
  then obtain i where i: "i < NUMBERENTRIES" "find_first ?P 0 (track s) = int i"
    "st_valid (track s ! i) = 0" "\<forall>j < i. st_valid (track s ! j) \<noteq> 0"
    using find_first_eq [of ?P 0 "track s"] len by auto
  let ?g = "\<lambda>s. s\<lparr>swap_file := take (i * 4096) (swap_file s) @ phys_bytes (of_nat f * PAGE_SIZE) 4096 s @
      drop (i * 4096 + 4096) (swap_file s),
    track := (track s)[i := \<lparr>st_permission_flag = flag, st_pid = pid, st_vaddr = vaddr, st_valid = 1\<rparr>]\<rparr>"
  have same: "track ?t = track s" "swap_file ?t = swap_file s" "phys_bytes p n ?t = phys_bytes p n s" for p n
    by (simp_all add: lock_defs phys_bytes_def)
  have "\<not> t_in_interrupt ?t" "c_spinlocks ?t \<noteq> 0" using cpu by (simp_all add: lock_defs swap_cpu_def)
  then have wr: "VOP_WRITE ops (i * 4096) (phys_bytes (of_nat f * PAGE_SIZE) 4096 s) ?t =
      (if hw_early (swap_hw ops) EMU_OP_WRITE (of_nat (i * 4096)) (swap_file s)
       then Inr (0, swap_file (?g s)) else Inl (AssertFail ''curcpu->c_spinlocks == 1''))"
    using flen slot_in_file [OF i(1)] by (subst slot_write [OF ops _ _ _ _ i(1)]) (simp_all add: same)
  have rel: "lock_rel swap_slock swap_slock_update (?g ?t) = Inr (?g s)"
    using swap_inv_cpu [OF inv] by (intro swap.rel_mod) (simp_all add: cpu_ok_def lock_defs phys_bytes_def)
  have "f \<le> 131072" using f pt by (simp add: pt_ok_def)
  then have fr: "unat (of_nat f * PAGE_SIZE :: u32) div 4096 = f"
    using unat_pages [of "of_nat f"] by (simp add: unat_of_nat)
  have "pt_ok (?g s)" using pt by (simp add: pt_ok_def cpu_ok_def)
  then have "page_table_reset_entry (int f) (?g s) = Inr ((?g s)\<lparr>next_entry := pt_reset f (next_entry s)\<rparr>)"
    using page_table_reset_entry_eq [of "?g s" f] f by simp
  with rel wr i(2) v fr same swap.acq [OF swap_inv_cpu [OF inv]]
  have "swap_out ops pid vaddr flag (of_nat f * PAGE_SIZE) s =
      (if hw_early (swap_hw ops) EMU_OP_WRITE (of_nat (i * 4096)) (swap_file s)
       then Inr (swapped_out pid vaddr flag f i s) else Inl (AssertFail ''curcpu->c_spinlocks == 1''))"
    by (simp add: swap_out_def unat_div_page swapped_out_def not_le)
  with i that show thesis by blast
qed

lemma coremap_inv_enter:
  assumes "coremap_inv live s"
  shows "coremap_inv live (lock_enter swap_slock_update s)"
  using assms by (simp add: coremap_inv_def coremap_wf_def ram_inv_def cpu_ok_def lock_defs)

lemma add_entry_low:
  assumes "pt_ok s" and "0 \<le> pid" and "pid < 4096" and "next_entry s \<noteq> []"
  shows "page_table_add_entry q v (of_int pid) st s = Inr (s\<lparr>next_entry := pt_add q v 0 st (next_entry s)\<rparr>)"
proof -
  obtain n where n: "pid = int n" "n < 4096" using assms(2,3) by (cases pid) auto
  then have u: "unat (of_nat n :: u32) = n" by (simp add: unat_of_nat)
  have "sint (of_nat n :: u32) = int (unat (of_nat n :: u32))" by (rule sint_small) (simp only: u, use n in simp)
  then have "sint (of_int pid :: u32) div 4096 = 0" using n unfolding u by simp
  with assms show ?thesis
    by (simp add: page_table_add_entry_def pt_ok_def critical_table pt_add_def Let_def)
qed

text \<open>The state that \<^verbatim>\<open>swap_in\<close> leaves when it finds the page in slot \<open>i\<close> and gets the fresh frame \<open>p\<close>.\<close>

definition swapped_in :: "int \<Rightarrow> vaddr \<Rightarrow> paddr \<Rightarrow> nat \<Rightarrow> 'a swap_state_scheme \<Rightarrow> 'a swap_state_scheme" where
  "swapped_in pid vaddr p i s =
     (let s = phys_store p (take 4096 (drop (i * 4096) (swap_file s)))
                (increment_page_faults_zeroed (as_zero_region p 1 s));
          s = s\<lparr>track := (track s)[i := (track s ! i)\<lparr>st_pid := -1, st_valid := 0\<rparr>]\<rparr>;
          flag = (case st_permission_flag (track s ! (unat p div 4096)) of READ_ONLY \<Rightarrow> 0 | READ_WRITE \<Rightarrow> 1)
      in increment_page_faults_swapin
           (s\<lparr>next_entry := pt_add (sint vaddr) p 0 flag (next_entry s)\<rparr>))"

lemma swap_in_eq:
  assumes inv: "swap_inv s" and core: "coremap_inv live s" and cpu: "swap_cpu s" and ops: "emu_hw_ok (swap_hw ops)"
    and pid: "0 \<le> pid" "pid < 4096" "next_entry s \<noteq> []" and a: "a \<noteq> MAX_ALLOCATED_PAGES"
    and room: "frame_free s" "unat (lastpaddr s) \<le> FILESIZE"
    and slot: "find_first (\<lambda>e. st_pid e = pid \<and> st_vaddr e = vaddr \<and> st_valid e = 1) 0 (track s) = int i"
      "i < NUMBERENTRIES"
  obtains p fp fr az where "p \<noteq> 0" and "4096 dvd unat p"
    and "coremap_inv ((unat p div 4096, 1) # live) (s\<lparr>firstpaddr := fp, freeRamFrames := fr, allocSize := az\<rparr>)"
    and "swap_in ops a pid vaddr s =
      (if hw_early (swap_hw ops) EMU_OP_READ (of_nat (i * 4096)) (swap_file s)
       then Inr (1, Some p, a + 1, swapped_in pid vaddr p i (s\<lparr>firstpaddr := fp, freeRamFrames := fr, allocSize := az\<rparr>))
       else Inl (AssertFail ''curcpu->c_spinlocks == 1''))"
proof -
  let ?t = "lock_enter swap_slock_update s"
  have room': "frame_free ?t" using room by (simp add: lock_defs frame_free_def)
  from getppages_one [OF coremap_inv_enter [OF core] room'] obtain p fp fr az where get:
    "getppages 1 ?t = Inr (p, ?t\<lparr>firstpaddr := fp, freeRamFrames := fr, allocSize := az\<rparr>)"
    "p \<noteq> 0" "4096 dvd unat p" "unat p div 4096 < unat (lastpaddr ?t) div 4096"
    "coremap_inv ((unat p div 4096, 1) # live) (?t\<lparr>firstpaddr := fp, freeRamFrames := fr, allocSize := az\<rparr>)" .
  have "unat (lastpaddr ?t) div 4096 \<le> NUMBERENTRIES"
    using div_le_mono [OF room(2), of 4096] by (simp add: lock_defs)
  with get(4) have low: "unat p div 4096 < NUMBERENTRIES" by linarith
  let ?s = "s\<lparr>firstpaddr := fp, freeRamFrames := fr, allocSize := az\<rparr>"
  let ?u = "?t\<lparr>firstpaddr := fp, freeRamFrames := fr, allocSize := az\<rparr>"
  have frame: "swap_in_frame ops pid a ?t = Inr (Some (p, a), ?u)"
    using a get by (simp add: swap_in_frame_def)
  let ?z = "increment_page_faults_zeroed (as_zero_region p 1 ?u)"
  have rd: "VOP_READ ops (i * 4096) 4096 ?z =
      (if hw_early (swap_hw ops) EMU_OP_READ (of_nat (i * 4096)) (swap_file s)
       then Inr (0, take 4096 (drop (i * 4096) (swap_file s))) else Inl (AssertFail ''curcpu->c_spinlocks == 1''))"
    and len: "length (take 4096 (drop (i * 4096) (swap_file s))) = 4096" "length (track s) = NUMBERENTRIES"
  proof -
    show "length (track s) = NUMBERENTRIES" using inv by (simp add: swap_inv_def)
    have "i * 4096 + 4096 \<le> length (swap_file s)"
      using slot_in_file [OF slot(2)] inv unfolding swap_inv_def by linarith
    moreover have "\<not> t_in_interrupt ?z" "c_spinlocks ?z \<noteq> 0" "swap_file ?z = swap_file s"
      using cpu by (simp_all add: lock_defs swap_cpu_def stats_defs as_zero_region_def phys_store_def)
    ultimately show "VOP_READ ops (i * 4096) 4096 ?z =
      (if hw_early (swap_hw ops) EMU_OP_READ (of_nat (i * 4096)) (swap_file s)
       then Inr (0, take 4096 (drop (i * 4096) (swap_file s))) else Inl (AssertFail ''curcpu->c_spinlocks == 1''))"
      and "length (take 4096 (drop (i * 4096) (swap_file s))) = 4096"
      by (simp_all add: slot_read [OF ops _ _ _ slot(2)])
  qed
  let ?g = "\<lambda>s. phys_store p (take 4096 (drop (i * 4096) (swap_file s)))
     (increment_page_faults_zeroed (as_zero_region p 1 s))"
  let ?h = "\<lambda>s. (?g s)\<lparr>track := (track s)[i := (track s ! i)\<lparr>st_pid := -1, st_valid := 0\<rparr>]\<rparr>"
  have same: "track ?t = track s" "swap_file ?t = swap_file s" "next_entry ?t = next_entry s"
    by (simp_all add: lock_defs)
  have "pt_ok ?u" using inv by (simp add: swap_inv_def pt_ok_def cpu_ok_def lock_defs)
  then have "pt_ok (?h ?u)" by simp
  note add = add_entry_low [OF this pid(1,2)]
  have ne: "next_entry (?h ?u) \<noteq> []" using pid(3) by (simp add: same)
  have "swapped_in pid vaddr p i ?u = lock_enter swap_slock_update (swapped_in pid vaddr p i ?s)"
    by (simp add: swapped_in_def phys_store_def as_zero_region_def stats_defs lock_defs Let_def
        cong: if_cong)
  moreover have "cpu_ok (swapped_in pid vaddr p i ?s)"
    "swap_slock (swapped_in pid vaddr p i ?s) = spinlock_init"
    using swap_inv_cpu [OF inv]
    by (simp_all add: swapped_in_def phys_store_def as_zero_region_def stats_defs cpu_ok_def Let_def)
  ultimately have rel: "lock_rel swap_slock swap_slock_update (swapped_in pid vaddr p i ?u) =
      Inr (swapped_in pid vaddr p i ?s)" by (simp add: swap.rel_enter)
  have "swap_in ops a pid vaddr s =
      (if hw_early (swap_hw ops) EMU_OP_READ (of_nat (i * 4096)) (swap_file s)
       then Inr (1, Some p, a + 1, swapped_in pid vaddr p i ?s) else Inl (AssertFail ''curcpu->c_spinlocks == 1''))"
    using swap.acq [OF swap_inv_cpu [OF inv]] slot(1) frame rd len low add [OF ne] rel
    by (simp add: swap_in_def same swapped_in_def unat_div_page Let_def)
  moreover have "coremap_inv ((unat p div 4096, 1) # live) ?s"
    using get(5) core by (simp add: coremap_inv_def coremap_wf_def ram_inv_def cpu_ok_def lock_defs)
  ultimately show thesis using get(2,3) that by blast
qed

lemma swapped_out_inv:
  assumes "swap_inv s" and "f < length (next_entry s)" and "i < NUMBERENTRIES"
  shows "swap_inv (swapped_out pid vaddr flag f i s)"
proof -
  have "i * 4096 + 4096 \<le> length (swap_file s)"
    using slot_in_file [OF assms(3)] assms(1) unfolding swap_inv_def by linarith
  then show ?thesis
    using assms(1) by (simp add: swap_inv_def swapped_out_def pt_ok_def cpu_ok_def stats_defs)
qed

lemma swapped_out_data:
  assumes "swap_inv s" and "i < NUMBERENTRIES"
  shows "take 4096 (drop (i * 4096) (swap_file (swapped_out pid vaddr flag f i s))) =
    phys_bytes (of_nat f * PAGE_SIZE) 4096 s"
proof -
  have "i * 4096 \<le> length (swap_file s)"
    using slot_in_file [OF assms(2)] assms(1) unfolding swap_inv_def by linarith
  then show ?thesis by (simp add: swapped_out_def stats_defs)
qed

lemma coremap_inv_out: "coremap_inv live s \<Longrightarrow> coremap_inv live (swapped_out pid vaddr flag f i s)"
  by (simp add: swapped_out_def coremap_inv_def coremap_wf_def ram_inv_def cpu_ok_def stats_defs)

lemma swapped_out_simps [simp]:
  "firstpaddr (swapped_out pid vaddr flag f i s) = firstpaddr s"
  "lastpaddr (swapped_out pid vaddr flag f i s) = lastpaddr s"
  "next_entry (swapped_out pid vaddr flag f i s) = pt_reset f (next_entry s)"
  "track (swapped_out pid vaddr flag f i s) =
     (track s)[i := \<lparr>st_permission_flag = flag, st_pid = pid, st_vaddr = vaddr, st_valid = 1\<rparr>]"
  by (simp_all add: swapped_out_def stats_defs)

lemma swapped_in_simps [simp]:
  "track (swapped_in pid vaddr p i s) = (track s)[i := (track s ! i)\<lparr>st_pid := -1, st_valid := 0\<rparr>]"
  "phys (swapped_in pid vaddr p i s) =
     phys (phys_store p (take 4096 (drop (i * 4096) (swap_file s))) (as_zero_region p 1 s))"
  by (simp_all add: swapped_in_def stats_defs phys_store_def Let_def cong: if_cong)

lemma coremap_inv_in: "coremap_inv live s \<Longrightarrow> coremap_inv live (swapped_in pid vaddr p i s)"
  by (simp add: swapped_in_def coremap_inv_def coremap_wf_def ram_inv_def cpu_ok_def stats_defs phys_store_def
      as_zero_region_def Let_def)

section \<open>Properties\<close>

text \<open>A device that carries out every request at once, and one whose interrupt comes later.\<close>

definition emu_sample_exec :: "u32 \<Rightarrow> u32 \<Rightarrow> u32 \<Rightarrow> u32 \<Rightarrow> u8 list \<Rightarrow> u8 list \<Rightarrow> emu_result" where
  "emu_sample_exec op handle off n bs f =
     (let r = \<lparr>reg_result = EMU_RES_SUCCESS, reg_iolen = n, reg_offset = off + n, reg_buf = bs, reg_file = f\<rparr>
      in if op = EMU_OP_WRITE then r\<lparr>reg_file := take (unat off) f @ bs @ drop (unat off + length bs) f\<rparr>
         else if op = EMU_OP_READ then r\<lparr>reg_buf := take (unat n) (drop (unat off) f)\<rparr>
         else if op = EMU_OP_GETSIZE then r\<lparr>reg_iolen := of_nat (length f)\<rparr>
         else r)"

definition swap_sample_ops :: swap_ops where
  "swap_sample_ops = \<lparr>vfs_open = (\<lambda>f. (0, f)),
     swap_hw = \<lparr>hw_exec = emu_sample_exec, hw_early = (\<lambda>op off f. True)\<rparr>, swap_handle = 1\<rparr>"

definition swap_slow_ops :: swap_ops where
  "swap_slow_ops = swap_sample_ops\<lparr>swap_hw := \<lparr>hw_exec = emu_sample_exec, hw_early = (\<lambda>op off f. False)\<rparr>\<rparr>"

definition track_free :: swap_track where
  "track_free = \<lparr>st_permission_flag = READ_ONLY, st_pid = -1, st_vaddr = 0, st_valid = 0\<rparr>"

definition swap_sample :: swap_state where
  "swap_sample = tlb_state.extend tlb_sample
     \<lparr>phys = (\<lambda>a. ucast a), track = replicate NUMBERENTRIES track_free,
      swap_file = replicate FILESIZE 0, swap_slock = spinlock_init\<rparr>"

lemma swap_sample_ops_ok:
  "emu_hw_ok (swap_hw swap_sample_ops)" "emu_hw_ok (swap_hw swap_slow_ops)" "emu_early (swap_hw swap_sample_ops)"
  by (simp_all add: emu_hw_ok_def emu_early_def swap_sample_ops_def swap_slow_ops_def emu_sample_exec_def)

lemma swap_sample_simps [simp]:
  "track swap_sample = replicate NUMBERENTRIES track_free" "next_entry swap_sample = replicate 8 entry_free"
  "swap_slock swap_sample = spinlock_init" "swap_file swap_sample = replicate FILESIZE 0"
  "firstpaddr swap_sample = 0x4000" "lastpaddr swap_sample = 0x8000" "swap_cpu swap_sample"
  by (simp_all add: swap_sample_def tlb_sample_def pt_sample_def coremap_sample_up_def
      coremap_sample_def ram_sample_def cpu_sample_def swap_cpu_def tlb_state.extend_def stats_state.extend_def pt_state.extend_def
      coremap_state.extend_def ram_state.extend_def cpu_state.extend_def)

lemma swap_sample_inv: "swap_inv swap_sample"
proof -
  have "pt_ok swap_sample"
    using pt_sample_ok
    by (simp add: pt_ok_def cpu_ok_def swap_sample_def tlb_sample_def tlb_state.extend_def
        stats_state.extend_def pt_state.extend_def)
  then show ?thesis by (simp add: swap_inv_def)
qed

lemma swap_sample_core: "coremap_inv [] swap_sample"
  using coremap_sample_up_inv
  by (simp add: coremap_inv_def coremap_wf_def ram_inv_def cpu_ok_def swap_sample_def tlb_sample_def
      pt_sample_def tlb_state.extend_def stats_state.extend_def pt_state.extend_def
      coremap_state.extend_def)

text \<open>C6: A page survives the swap file. Let a thread that holds no spinlock swap out a page of a user address that is
  not in the swap file while a slot is free, and swap it in again while a frame is free and the process is below
  its limit of pages. Let the emulator device do what it is asked and finish before the thread looks at its
  semaphore (otherwise the kernel stops, as C33 says), the process number be from 0 to 4095 and the memory at most
  9 MB (\<^verbatim>\<open>swap_in\<close> indexes \<^verbatim>\<open>track\<close> with the frame). Then both calls return, the frame that the page comes back
  in was held by nobody and holds the same 4096 bytes that the first frame held, and the page is no longer in the
  swap file.\<close>

theorem swap_roundtrip:
  assumes inv: "swap_inv s" and core: "coremap_inv live s" and cpu: "swap_cpu s"
    and ops: "emu_hw_ok (swap_hw ops)" "emu_early (swap_hw ops)"
    and pid: "0 \<le> pid" "pid < 4096" and v: "vaddr < MIPS_KSEG0" and f: "f < length (next_entry s)"
    and new: "\<forall>e \<in> set (track s). \<not> (st_pid e = pid \<and> st_vaddr e = vaddr \<and> st_valid e = 1)"
    and slot: "\<exists>e \<in> set (track s). st_valid e = 0"
    and room: "frame_free s" "unat (lastpaddr s) \<le> FILESIZE"
    and a: "a \<noteq> MAX_ALLOCATED_PAGES"
  shows "\<exists>s1 p s2. swap_out ops pid vaddr flag (of_nat f * PAGE_SIZE) s = Inr s1 \<and>
    swap_in ops a pid vaddr s1 = Inr (1, Some p, a + 1, s2) \<and>
    phys_bytes p 4096 s2 = phys_bytes (of_nat f * PAGE_SIZE) 4096 s \<and>
    coremap_inv ((unat p div 4096, 1) # live) s2 \<and>
    (\<forall>e \<in> set (track s2). \<not> (st_pid e = pid \<and> st_vaddr e = vaddr \<and> st_valid e = 1))"
proof -
  let ?P = "\<lambda>e. st_pid e = pid \<and> st_vaddr e = vaddr \<and> st_valid e = 1"
  have early: "hw_early (swap_hw ops) op off g" for op off g using ops(2) by (simp add: emu_early_def)
  obtain i where i: "i < NUMBERENTRIES"
    and out: "swap_out ops pid vaddr flag (of_nat f * PAGE_SIZE) s = Inr (swapped_out pid vaddr flag f i s)"
    by (rule swap_out_eq [OF inv cpu ops(1) v f slot, of pid flag]) (simp add: early)
  let ?s1 = "swapped_out pid vaddr flag f i s"
  have len: "length (track s) = NUMBERENTRIES" using inv by (simp add: swap_inv_def)
  have others: "\<not> ?P (track s ! j)" if "j < NUMBERENTRIES" for j
    using new nth_mem [of j "track s"] that len by auto
  have "find_first ?P 0 (track ?s1) = int (0 + i)"
    using i len others by (intro find_first_unique) auto
  then have ff: "find_first ?P 0 (track ?s1) = int i" by simp
  have ne: "next_entry ?s1 \<noteq> []" using f by (auto simp: pt_reset_def)
  have room': "frame_free ?s1" "unat (lastpaddr ?s1) \<le> FILESIZE" "swap_cpu ?s1"
    using room cpu by (simp_all add: frame_free_def swap_cpu_def swapped_out_def stats_defs)
  obtain p fp fr az where ret: "swap_in ops a pid vaddr ?s1 = Inr (1, Some p, a + 1, swapped_in pid vaddr p i
       (?s1\<lparr>firstpaddr := fp, freeRamFrames := fr, allocSize := az\<rparr>))"
    and mine: "coremap_inv ((unat p div 4096, 1) # live) (?s1\<lparr>firstpaddr := fp, freeRamFrames := fr, allocSize := az\<rparr>)"
    by (rule swap_in_eq [OF swapped_out_inv [OF inv f i] coremap_inv_out [OF core] room'(3) ops(1) pid ne a room'(1,2) ff i])
      (simp add: early)
  let ?u = "?s1\<lparr>firstpaddr := fp, freeRamFrames := fr, allocSize := az\<rparr>"
  let ?bs = "phys_bytes (of_nat f * PAGE_SIZE) 4096 s"
  have "phys_bytes p 4096 (swapped_in pid vaddr p i ?u) =
      phys_bytes p (length ?bs) (phys_store p ?bs (as_zero_region p 1 ?u))"
    using swapped_out_data [OF inv i, of pid vaddr flag f] by (simp add: phys_bytes_def [of p])
  also have "\<dots> = ?bs" by (rule phys_bytes_store) simp
  finally have data: "phys_bytes p 4096 (swapped_in pid vaddr p i ?u) = ?bs" .
  have "\<not> ?P e" if "e \<in> set (track (swapped_in pid vaddr p i ?u))" for e
  proof -
    from that len obtain j where "j < NUMBERENTRIES" "e = track (swapped_in pid vaddr p i ?u) ! j"
      by (auto simp: in_set_conv_nth)
    then show ?thesis using i len others [of j] by (cases "i = j") simp_all
  qed
  with out ret data coremap_inv_in [OF mine] show ?thesis by blast
qed

theorem swap_roundtrip_witness:
  "\<exists>s1 p s2. swap_out swap_sample_ops 3 0x400000 READ_WRITE (of_nat 6 * PAGE_SIZE) swap_sample = Inr s1 \<and>
    swap_in swap_sample_ops 1 3 0x400000 s1 = Inr (1, Some p, 1 + 1, s2) \<and>
    phys_bytes p 4096 s2 = phys_bytes (of_nat 6 * PAGE_SIZE) 4096 swap_sample"
  using swap_roundtrip [OF swap_sample_inv swap_sample_core swap_sample_simps(7) swap_sample_ops_ok(1,3),
      where pid = 3 and vaddr = "0x400000" and f = 6 and a = 1 and flag = READ_WRITE]
  by (fastforce simp: track_free_def frame_free_def)

text \<open>C36: \<^verbatim>\<open>swap_in\<close> registers the page with the arguments of \<^verbatim>\<open>page_table_add_entry\<close> in the wrong
  order, so a page that has just been brought back is not in the page table: looking it up misses
  after the call just as it did before, although the call returned 1 and the page has left the swap file. The
  conditions are those under which the call succeeds: a thread that holds no spinlock, a device that does what it is
  asked and finishes before the thread looks at its semaphore, a free frame, a process below its limit of pages with a
  number from 0 to 4095 other than the address of the page, memory of at most 9 MB, and the page in one slot of the swap
  file.\<close>

theorem swap_in_page_lost:
  assumes inv: "swap_inv s" and core: "coremap_inv live s" and cpu: "swap_cpu s"
    and ops: "emu_hw_ok (swap_hw ops)" "emu_early (swap_hw ops)"
    and pid: "0 \<le> pid" "pid < 4096" "next_entry s \<noteq> []" "pid \<noteq> sint vaddr" and a: "a \<noteq> MAX_ALLOCATED_PAGES"
    and room: "frame_free s" "unat (lastpaddr s) \<le> FILESIZE"
    and slot: "i < length (track s)" "\<forall>j < length (track s).
      (st_pid (track s ! j) = pid \<and> st_vaddr (track s ! j) = vaddr \<and> st_valid (track s ! j) = 1) = (j = i)"
    and miss: "\<forall>e \<in> set (next_entry s). \<not> (e_pid e = pid \<and> e_vaddr e = vaddr)"
  shows "\<exists>p s'. swap_in ops a pid vaddr s = Inr (1, Some p, a + 1, s') \<and>
    (\<forall>e \<in> set (track s'). \<not> (st_pid e = pid \<and> st_vaddr e = vaddr \<and> st_valid e = 1)) \<and>
    (\<forall>e \<in> set (next_entry s'). \<not> (e_pid e = pid \<and> e_vaddr e = vaddr)) \<and>
    find_last (\<lambda>e. e_pid e = pid \<and> e_vaddr e = vaddr) (next_entry s') = length (next_entry s')"
proof -
  let ?P = "\<lambda>e. st_pid e = pid \<and> st_vaddr e = vaddr \<and> st_valid e = 1"
  have early: "hw_early (swap_hw ops) op off g" for op off g using ops(2) by (simp add: emu_early_def)
  have len: "length (track s) = NUMBERENTRIES" using inv by (simp add: swap_inv_def)
  have "find_first ?P 0 (track s) = int (0 + i)"
    using slot by (intro find_first_unique) auto
  then have i: "find_first ?P 0 (track s) = int i" "i < NUMBERENTRIES" using slot(1) len by simp_all
  obtain p fp fr az where
    run: "swap_in ops a pid vaddr s = Inr (1, Some p, a + 1, swapped_in pid vaddr p i
       (s\<lparr>firstpaddr := fp, freeRamFrames := fr, allocSize := az\<rparr>))"
    by (rule swap_in_eq [OF inv core cpu ops(1) pid(1-3) a room i]) (simp add: early)
  let ?u = "s\<lparr>firstpaddr := fp, freeRamFrames := fr, allocSize := az\<rparr>"
  obtain flag where es: "next_entry (swapped_in pid vaddr p i ?u) = pt_add (sint vaddr) p 0 flag (next_entry s)"
    by (simp add: swapped_in_def stats_defs Let_def)
  have "\<not> (e_pid e = pid \<and> e_vaddr e = vaddr)" if e: "e \<in> set (pt_add (sint vaddr) p 0 flag (next_entry s))" for e
  proof -
    let ?e0 = "(next_entry s ! 0)\<lparr>e_pid := sint vaddr, e_vaddr := p, e_status := flag,
      e_position_fifo := int32 (last_fifo (sint vaddr) (next_entry s) + 1)\<rparr>"
    have "e \<in> insert ?e0 (set (next_entry s))"
      using e set_update_subset_insert [of "next_entry s" 0 ?e0] by (auto simp: pt_add_def)
    then have "e_pid e = sint vaddr \<or> e \<in> set (next_entry s)" by auto
    then show ?thesis using miss pid(4) by blast
  qed
  moreover have "\<not> ?P e" if e: "e \<in> set (track (swapped_in pid vaddr p i ?u))" for e
  proof -
    from e len obtain j where "j < NUMBERENTRIES" "e = track (swapped_in pid vaddr p i ?u) ! j"
      by (auto simp: in_set_conv_nth)
    then show ?thesis using slot len by (cases "i = j") simp_all
  qed
  moreover from calculation(1) have "find_last (\<lambda>e. e_pid e = pid \<and> e_vaddr e = vaddr)
      (pt_add (sint vaddr) p 0 flag (next_entry s)) = length (pt_add (sint vaddr) p 0 flag (next_entry s))"
    unfolding find_last_none by blast
  ultimately show ?thesis unfolding run by (simp add: es)
qed

definition swap_sample_out :: swap_state where
  "swap_sample_out = swap_sample\<lparr>track := (replicate NUMBERENTRIES track_free)[0 := \<lparr>
     st_permission_flag = READ_ONLY, st_pid = 3, st_vaddr = 0x400000, st_valid = 1\<rparr>]\<rparr>"

lemma swap_sample_out_slot:
  assumes "j < length (track swap_sample_out)"
  shows "(st_pid (track swap_sample_out ! j) = 3 \<and> st_vaddr (track swap_sample_out ! j) = 0x400000 \<and>
    st_valid (track swap_sample_out ! j) = 1) = (j = 0)"
  using assms by (cases "j = 0") (simp_all add: swap_sample_out_def track_free_def)

theorem swap_in_page_lost_witness:
  "\<exists>p s'. swap_in swap_sample_ops 1 3 0x400000 swap_sample_out = Inr (1, Some p, 1 + 1, s') \<and>
    find_last (\<lambda>e. e_pid e = 3 \<and> e_vaddr e = 0x400000) (next_entry s') = length (next_entry s')"
proof -
  have inv: "swap_inv swap_sample_out" and core: "coremap_inv [] swap_sample_out" and cpu: "swap_cpu swap_sample_out"
    using swap_sample_inv swap_sample_core swap_sample_simps(7)
    by (simp_all add: swap_sample_out_def swap_inv_def coremap_inv_def coremap_wf_def ram_inv_def cpu_ok_def swap_cpu_def)
  have "sint (0x400000 :: u32) = 0x400000" by simp
  moreover have "frame_free swap_sample_out" "unat (lastpaddr swap_sample_out) \<le> FILESIZE"
    "0 < length (track swap_sample_out)" "next_entry swap_sample_out \<noteq> []"
    "\<forall>e \<in> set (next_entry swap_sample_out). \<not> (e_pid e = 3 \<and> e_vaddr e = 0x400000)"
    by (simp_all add: swap_sample_out_def entry_free_def frame_free_def)
  ultimately show ?thesis
    using swap_in_page_lost [OF inv core cpu swap_sample_ops_ok(1,3),
        where pid = 3 and vaddr = "0x400000" and a = 1 and i = 0] swap_sample_out_slot
    by simp blast
qed

text \<open>C33: \<^verbatim>\<open>swap_out\<close>, called by a thread that holds no spinlock, on a frame of the page table and a device that does
  what it is asked: it panics when the address is not a user address and when every slot is in use. Otherwise
  it writes to the lowest free slot. When the device finishes before the thread looks at its semaphore, the page is in
  that slot with its owner, and no other slot and no other part of the file has changed. When it does not, the
  kernel stops with a failed assertion, because the thread would sleep while it holds \<^verbatim>\<open>slock\<close>.\<close>

theorem swap_out_slot:
  assumes inv: "swap_inv s" and cpu: "swap_cpu s" and ops: "emu_hw_ok (swap_hw ops)" and f: "f < length (next_entry s)"
  shows "swap_out ops pid vaddr flag (of_nat f * PAGE_SIZE) s =
     (if MIPS_KSEG0 \<le> vaddr then Inl (Panic ''swapfile.c: vaddr cannot be greater than MIPS_KSEG0'')
      else if \<forall>e \<in> set (track s). st_valid e \<noteq> 0 then Inl (Panic ''swapfile.c: out of swap space'')
      else let i = (LEAST i. i < NUMBERENTRIES \<and> st_valid (track s ! i) = 0)
           in if hw_early (swap_hw ops) EMU_OP_WRITE (of_nat (i * 4096)) (swap_file s)
              then Inr (swapped_out pid vaddr flag f i s)
              else Inl (AssertFail ''curcpu->c_spinlocks == 1''))"
proof (cases "MIPS_KSEG0 \<le> vaddr \<or> (\<forall>e \<in> set (track s). st_valid e \<noteq> 0)")
  case True
  then show ?thesis
    using swap_out_full [OF inv, of vaddr ops pid flag "of_nat f * PAGE_SIZE"]
    by (cases "MIPS_KSEG0 \<le> vaddr") (auto simp: swap_out_def)
next
  case False
  then have v: "vaddr < MIPS_KSEG0" and free: "\<exists>e \<in> set (track s). st_valid e = 0" by auto
  from swap_out_eq [OF inv cpu ops v f free] obtain i where i: "i < NUMBERENTRIES" "st_valid (track s ! i) = 0"
    "\<forall>j < i. st_valid (track s ! j) \<noteq> 0"
    "swap_out ops pid vaddr flag (of_nat f * PAGE_SIZE) s =
      (if hw_early (swap_hw ops) EMU_OP_WRITE (of_nat (i * 4096)) (swap_file s)
       then Inr (swapped_out pid vaddr flag f i s) else Inl (AssertFail ''curcpu->c_spinlocks == 1''))" .
  then have "(LEAST i. i < NUMBERENTRIES \<and> st_valid (track s ! i) = 0) = i"
    by (intro Least_equality) (auto simp: not_less [symmetric])
  with False i(4) show ?thesis by (simp add: Let_def)
qed

theorem swap_out_slot_witness:
  "swap_out swap_sample_ops 3 0x400000 READ_WRITE (of_nat 6 * PAGE_SIZE) swap_sample =
     Inr (swapped_out 3 0x400000 READ_WRITE 6 0 swap_sample) \<and>
   swap_out swap_slow_ops 3 0x400000 READ_WRITE (of_nat 6 * PAGE_SIZE) swap_sample =
     Inl (AssertFail ''curcpu->c_spinlocks == 1'')"
proof -
  have least: "(LEAST i. i < NUMBERENTRIES \<and> st_valid (track swap_sample ! i) = 0) = 0"
    by (rule Least_equality) (simp_all add: track_free_def)
  have "\<not> (\<forall>e \<in> set (track swap_sample). st_valid e \<noteq> 0)" by (simp add: track_free_def)
  moreover have "\<not> MIPS_KSEG0 \<le> (0x400000 :: u32)" by simp
  ultimately show ?thesis
    using swap_out_slot [OF swap_sample_inv swap_sample_simps(7) swap_sample_ops_ok(1), of 6 3 "0x400000" READ_WRITE]
      swap_out_slot [OF swap_sample_inv swap_sample_simps(7) swap_sample_ops_ok(2), of 6 3 "0x400000" READ_WRITE]
    by (simp only: least Let_def if_False) (simp add: swap_sample_ops_def swap_slow_ops_def)
qed

text \<open>A process that has reached its limit of pages, and has a page in the swap file and a victim in the
  page table, cannot swap in as long as the clock has not ticked: \<^verbatim>\<open>swap_in\<close> calls \<^verbatim>\<open>swap_out\<close> with \<^verbatim>\<open>slock\<close> held, which takes the
  same lock, and the kernel panics.\<close>

lemma swap_in_deadlock:
  assumes inv: "swap_inv s" and fifo: "pt_fifo (next_entry s)" and pid: "pid \<noteq> -1"
    and slot: "\<exists>e \<in> set (track s). st_pid e = pid \<and> st_vaddr e = vaddr \<and> st_valid e = 1"
    and victim: "fifo_of pid (next_entry s) = f # fs" and user: "e_vaddr (next_entry s ! f) < MIPS_KSEG0"
  shows "swap_in ops MAX_ALLOCATED_PAGES pid vaddr s = Inl (Panic ''Deadlock on spinlock'')"
proof -
  let ?t = "lock_enter swap_slock_update s"
  let ?P = "\<lambda>e. st_pid e = pid \<and> st_vaddr e = vaddr \<and> st_valid e = 1"
  have same: "track ?t = track s" "next_entry ?t = next_entry s" by (simp_all add: lock_defs)
  have "find_first ?P 0 (track s) \<noteq> -1" unfolding find_first_none using slot by blast
  moreover have "pt_inv ?t" using inv fifo by (simp add: swap_inv_def pt_inv_def pt_ok_def cpu_ok_def lock_defs)
  then have "page_table_replacement pid ?t = Inr (int f, Some (next_entry s ! f))"
    using replacement_hd [of ?t pid f fs] pid victim by (simp add: same)
  moreover have "curcpu_exists s" using swap_inv_cpu [OF inv] by (simp add: cpu_ok_def)
  then have "lock_acq swap_slock swap_slock_update ?t = Inl (Panic ''Deadlock on spinlock'')"
    by (intro swap.acq_held) simp_all
  ultimately show ?thesis
    using swap.acq [OF swap_inv_cpu [OF inv]] user
    by (simp add: swap_in_def same swap_in_frame_def swap_out_def Let_def not_le)
qed

end
