(* ===== verification/Addrspace.thy ===== *)
theory Addrspace
  imports Swapfile
begin

text \<open>
  Address spaces and the page fault handler (\<^verbatim>\<open>kern/vm/addrspace.c\<close>, \<^verbatim>\<open>kern/include/addrspace.h\<close>).
  The current process is part of the state: whether there is one, its address space and its field
  \<^verbatim>\<open>pid\<close>. The executable is read through an argument that stands for \<^verbatim>\<open>VOP_READ\<close> on its vnode.
\<close>

section \<open>State\<close>

abbreviation (input) DUMBVM_STACKPAGES :: u32 where "DUMBVM_STACKPAGES \<equiv> 18"

record file_info =
  code_offset :: u64
  code_sz :: u32
  data_offset :: u64
  data_sz :: u32
  fi_v :: nat

record addrspace =
  as_vbase1 :: vaddr
  as_npages1 :: u32
  as_vbase2 :: vaddr
  as_npages2 :: u32
  as_stackpbase :: paddr
  allocated_pages :: int
  as_fi :: file_info

text \<open>The fields \<open>as_nRamFrames\<close> to \<open>as_slock\<close> are the static variables of \<^verbatim>\<open>addrspace.c\<close>.\<close>

record vm_state = swap_state +
  curproc :: bool
  p_addrspace :: "addrspace option"
  p_pid :: int
  as_nRamFrames :: int
  as_tables :: bool
  as_allocTableActive :: int
  as_slock :: spinlock

section \<open>Start, kernel pages\<close>

definition vm_bootstrap ::
  "(u32 \<Rightarrow> 'a vm_state_scheme \<Rightarrow> (vaddr \<times> 'a vm_state_scheme) kres) \<Rightarrow> (nat \<Rightarrow> entry) \<Rightarrow>
   swap_ops \<Rightarrow> u8 \<Rightarrow> 'a vm_state_scheme \<Rightarrow> 'a vm_state_scheme kres" where
  "vm_bootstrap kmalloc block ops buf s =
     (let s = s\<lparr>as_nRamFrames := sint (ram_getsize s) sdiv 4096\<rparr>
      in sbind (kmalloc (of_int (as_nRamFrames s)) s) (\<lambda>(p, s).
         if p = 0 then Inr s
         else
           sbind (kmalloc (4 * of_int (as_nRamFrames s)) s) (\<lambda>(p, s).
           if p = 0 then Inr s
           else
             sbind (lock_acq as_slock as_slock_update (s\<lparr>as_tables := True\<rparr>)) (\<lambda>s.
             sbind (lock_rel as_slock as_slock_update (s\<lparr>as_allocTableActive := 1\<rparr>)) (\<lambda>s.
             sbind (swap_bootstrap ops buf s) (\<lambda>s.
             sbind (page_table_init kmalloc block s) (\<lambda>s.
             sbind (coremap_bootstrap kmalloc s) (\<lambda>s.
             Inr (init_stats (tlb_bootstrap s)))))))))) "

definition vm_can_sleep :: "'a cpu_state_scheme \<Rightarrow> unit kres" where
  "vm_can_sleep s =
     (if curcpu_exists s then
        kassert (c_spinlocks s = 0) ''curcpu->c_spinlocks == 0'' (
        kassert (\<not> t_in_interrupt s) ''curthread->t_in_interrupt == 0'' (Inr ()))
      else Inr ())"

definition alloc_kpages :: "u32 \<Rightarrow> 'a coremap_state_scheme \<Rightarrow> (vaddr \<times> 'a coremap_state_scheme) kres" where
  "alloc_kpages npages s =
     sbind (vm_can_sleep s) (\<lambda>_.
     sbind (getppages npages s) (\<lambda>(pa, s).
     if pa = 0 then Inr (0, s) else Inr (PADDR_TO_KVADDR pa, s)))"

definition free_kpages :: "vaddr \<Rightarrow> 'a coremap_state_scheme \<Rightarrow> 'a coremap_state_scheme kres" where
  "free_kpages addr s =
     sbind (isTableActive s) (\<lambda>(active, s).
     if active \<noteq> 0 then sbind (freeppages (addr - MIPS_KSEG0) s) (\<lambda>(r, s). Inr s) else Inr s)"

section \<open>Address spaces\<close>

text \<open>\<open>block\<close> is what the block from \<^verbatim>\<open>kmalloc\<close> holds; \<^verbatim>\<open>as_create\<close> leaves the field \<^verbatim>\<open>fi\<close> as it is.\<close>

definition as_create ::
  "('s \<Rightarrow> (addrspace option \<times> 's) kres) \<Rightarrow> 's \<Rightarrow> (addrspace option \<times> 's) kres" where
  "as_create kmalloc s =
     sbind (kmalloc s) (\<lambda>(block, s).
     case block of
       None \<Rightarrow> Inr (None, s)
     | Some as \<Rightarrow>
         Inr (Some (as\<lparr>as_vbase1 := 0, as_npages1 := 0, as_vbase2 := 0, as_npages2 := 0,
                       as_stackpbase := 0, allocated_pages := 0\<rparr>), s))"

definition as_copy ::
  "('s \<Rightarrow> (addrspace option \<times> 's) kres) \<Rightarrow> addrspace \<Rightarrow> 's \<Rightarrow> (errno \<times> addrspace option \<times> 's) kres" where
  "as_copy kmalloc old s =
     sbind (as_create kmalloc s) (\<lambda>(newas, s).
     case newas of None \<Rightarrow> Inr (ENOMEM, None, s) | Some as \<Rightarrow> Inr (0, Some as, s))"

definition as_destroy ::
  "('a vm_state_scheme \<Rightarrow> 'a vm_state_scheme kres) \<Rightarrow> 'a vm_state_scheme \<Rightarrow> 'a vm_state_scheme kres" where
  "as_destroy kfree s =
     (if \<not> curproc s then Inl (Undefined ''curproc is null'')
      else
        sbind (page_table_remove_on_pids (p_pid s) s) (\<lambda>s.
        kfree (swap_remove_pid (p_pid s) s)))"

definition as_activate :: "'a vm_state_scheme \<Rightarrow> 'a vm_state_scheme kres" where
  "as_activate s =
     (if \<not> curproc s \<or> p_addrspace s = None then Inr s else reset_tlb_pid_different (p_pid s) s)"

definition as_define_region ::
  "addrspace \<Rightarrow> vaddr \<Rightarrow> u32 \<Rightarrow> u64 \<Rightarrow> 'a cpu_state_scheme \<Rightarrow> (errno \<times> addrspace) kres" where
  "as_define_region as vaddr sz offset s =
     sbind (vm_can_sleep s) (\<lambda>_.
     let sz2 = sz;
         sz = sz + (vaddr AND NOT PAGE_FRAME);
         vaddr = vaddr AND PAGE_FRAME;
         sz = (sz + PAGE_SIZE - 1) AND PAGE_FRAME;
         npages = sz div PAGE_SIZE
     in if as_vbase1 as = 0 then
          Inr (0, as\<lparr>as_vbase1 := vaddr, as_npages1 := npages,
                    as_fi := (as_fi as)\<lparr>code_offset := offset, code_sz := sz2\<rparr>\<rparr>)
        else if as_vbase2 as = 0 then
          Inr (0, as\<lparr>as_vbase2 := vaddr, as_npages2 := npages,
                    as_fi := (as_fi as)\<lparr>data_offset := offset, data_sz := sz2\<rparr>\<rparr>)
        else Inr (ENOSYS, as))"

definition as_prepare_load :: "addrspace \<Rightarrow> errno" where
  "as_prepare_load as = 0"

definition as_complete_load :: "addrspace \<Rightarrow> errno" where
  "as_complete_load as = 0"

definition as_define_stack :: "addrspace \<Rightarrow> errno \<times> vaddr" where
  "as_define_stack as = (0, USERSTACK)"

section \<open>The page fault handler\<close>

text \<open>\<open>vop\<close> is \<^verbatim>\<open>VOP_READ\<close> on a vnode: offset and length to an error number and the bytes transferred.\<close>

definition read_elf_page ::
  "(nat \<Rightarrow> u64 \<Rightarrow> u32 \<Rightarrow> int \<times> u8 list) \<Rightarrow> nat \<Rightarrow> paddr \<Rightarrow> u32 \<Rightarrow> u64 \<Rightarrow> 'a swap_state_scheme \<Rightarrow>
   int \<times> 'a swap_state_scheme" where
  "read_elf_page vop v_node destPhAdd len offset s =
     (let (result, bs) = vop v_node offset len; s = phys_store destPhAdd bs s
      in if result \<noteq> 0 then (result, s)
         else if length bs \<noteq> unat len then (ENOEXEC, s)
         else (result, s))"

text \<open>How much of a segment to read for the page at \<open>faultaddress\<close>, where to, and where from.\<close>

definition size_to_read :: "vaddr \<Rightarrow> vaddr \<Rightarrow> u32 \<Rightarrow> u64 \<Rightarrow> u32 \<Rightarrow> u32" where
  "size_to_read faultaddress vbase npages off sz =
     (let vtop = vbase + npages * PAGE_SIZE
      in if faultaddress = vbase then
           if uint sz < 4096 - uint (off AND 0xfff) then sz else PAGE_SIZE - ucast (off AND 0xfff)
         else if faultaddress = vtop - PAGE_SIZE then
           let size = sz - (npages - 1) * PAGE_SIZE
           in if off AND 0xfff \<noteq> 0 then size - ucast (off AND 0xfff) else size
         else PAGE_SIZE)"

definition load_segment_page ::
  "(nat \<Rightarrow> u64 \<Rightarrow> u32 \<Rightarrow> int \<times> u8 list) \<Rightarrow> nat \<Rightarrow> paddr \<Rightarrow> vaddr \<Rightarrow> vaddr \<Rightarrow> u32 \<Rightarrow> u64 \<Rightarrow> u32 \<Rightarrow>
   'a swap_state_scheme \<Rightarrow> int \<times> 'a swap_state_scheme" where
  "load_segment_page vop v paddr faultaddress vbase npages off sz s =
     read_elf_page vop v
       (paddr + (if faultaddress = vbase then ucast (off AND 0xfff) else 0))
       (size_to_read faultaddress vbase npages off sz)
       (if faultaddress = vbase then off
        else (off AND 0xfffff000) + ucast faultaddress - ucast vbase) s"

definition set_allocated :: "int \<Rightarrow> 'a vm_state_scheme \<Rightarrow> 'a vm_state_scheme" where
  "set_allocated n s = s\<lparr>p_addrspace := map_option (\<lambda>as. as\<lparr>allocated_pages := n\<rparr>) (p_addrspace s)\<rparr>"

text \<open>
  The frame for a page that is loaded on demand, and the slot of the TLB that the status of a victim
  names (\<open>-1\<close> for a fresh frame). The status is read before the test for a missing victim.
\<close>

definition fault_frame ::
  "swap_ops \<Rightarrow> addrspace \<Rightarrow> int \<Rightarrow> 'a vm_state_scheme \<Rightarrow> (paddr \<times> int \<times> 'a vm_state_scheme) kres" where
  "fault_frame ops as pid s =
     sbind (if allocated_pages as \<ge> MAX_ALLOCATED_PAGES then Inr (0, s) else getppages 1 s) (\<lambda>(paddr, s).
     if paddr \<noteq> 0 then Inr (paddr, -1, set_allocated (allocated_pages as + 1) s)
     else
       sbind (page_table_replacement pid s) (\<lambda>(index_page_to_replace, victim).
       sbind (page_table_get_Status_on_Index index_page_to_replace s) (\<lambda>st.
       let index_tlb = uint st
       in case victim of
            None \<Rightarrow> Inl PT_INDEX
          | Some e \<Rightarrow>
              let paddr = of_int index_page_to_replace * PAGE_SIZE
              in sbind (swap_out ops pid (e_vaddr e) (e_permission_flag e) paddr s) (\<lambda>s.
                 Inr (paddr, index_tlb, set_allocated (allocated_pages as - 1 + 1) s)))))"

definition fault_status :: "u32 \<Rightarrow> int \<Rightarrow> u32" where
  "fault_status status index_tlb =
     (if index_tlb \<noteq> -1 then status OR of_int (index_tlb * 4) else status)"

text \<open>
  A page of the code or data segment, and a page of the stack. The arguments of
  \<^verbatim>\<open>page_table_add_entry\<close> are in the order in which the code passes them.
\<close>

definition fault_segment ::
  "swap_ops \<Rightarrow> (nat \<Rightarrow> u64 \<Rightarrow> u32 \<Rightarrow> int \<times> u8 list) \<Rightarrow> addrspace \<Rightarrow> int \<Rightarrow> vaddr \<Rightarrow> vaddr \<Rightarrow> u32 \<Rightarrow> u64 \<Rightarrow> u32 \<Rightarrow>
   u32 \<Rightarrow> 'a vm_state_scheme \<Rightarrow> (paddr \<times> int \<times> 'a vm_state_scheme) kres" where
  "fault_segment ops vop as pid faultaddress vbase npages off sz status s =
     sbind (fault_frame ops as pid s) (\<lambda>(paddr, index_tlb, s).
     let s = as_zero_region paddr 1 (increment_page_faults_zeroed s);
         (result, s) = load_segment_page vop (fi_v (as_fi as)) paddr faultaddress vbase npages off sz s;
         s = increment_page_faults_elf (increment_page_faults_disk s)
     in sbind (page_table_add_entry (sint faultaddress) paddr (of_int pid)
                 (fault_status status index_tlb) s) (\<lambda>s. Inr (paddr, index_tlb, s)))"

definition fault_stack ::
  "swap_ops \<Rightarrow> addrspace \<Rightarrow> int \<Rightarrow> vaddr \<Rightarrow> u32 \<Rightarrow> 'a vm_state_scheme \<Rightarrow>
   (paddr \<times> int \<times> 'a vm_state_scheme) kres" where
  "fault_stack ops as pid faultaddress status s =
     sbind (fault_frame ops as pid s) (\<lambda>(paddr, index_tlb, s).
     let s = as_zero_region paddr 1 (increment_page_faults_zeroed s)
     in sbind (page_table_add_entry (sint faultaddress) paddr (of_int pid)
                 (fault_status status index_tlb) s) (\<lambda>s. Inr (paddr, index_tlb, s)))"

text \<open>The checks on the address space that precede the lookup.\<close>

definition fault_asserts :: "addrspace \<Rightarrow> 'b kres \<Rightarrow> 'b kres" where
  "fault_asserts as k =
     kassert (as_vbase1 as \<noteq> 0) ''as->as_vbase1 != 0'' (
     kassert (as_npages1 as \<noteq> 0) ''as->as_npages1 != 0'' (
     kassert (as_vbase2 as \<noteq> 0) ''as->as_vbase2 != 0'' (
     kassert (as_npages2 as \<noteq> 0) ''as->as_npages2 != 0'' (
     kassert (as_vbase1 as AND PAGE_FRAME = as_vbase1 as) ''as_vbase1 aligned'' (
     kassert (as_vbase2 as AND PAGE_FRAME = as_vbase2 as) ''as_vbase2 aligned'' (
     kassert (as_stackpbase as AND PAGE_FRAME = as_stackpbase as) ''as_stackpbase aligned'' k))))))"

text \<open>Finding the frame of the page: in the page table, in the swap file, or on demand.\<close>

definition fault_page ::
  "swap_ops \<Rightarrow> (nat \<Rightarrow> u64 \<Rightarrow> u32 \<Rightarrow> int \<times> u8 list) \<Rightarrow> addrspace \<Rightarrow> int \<Rightarrow> vaddr \<Rightarrow> 'a vm_state_scheme \<Rightarrow>
   ((paddr \<times> int) option \<times> 'a vm_state_scheme) kres" where
  "fault_page ops vop as pid faultaddress s =
     (let vbase1 = as_vbase1 as; vtop1 = vbase1 + as_npages1 as * PAGE_SIZE;
          vbase2 = as_vbase2 as; vtop2 = vbase2 + as_npages2 as * PAGE_SIZE;
          stackbase = USERSTACK - DUMBVM_STACKPAGES * PAGE_SIZE; stacktop = USERSTACK;
          done = (\<lambda>(paddr, index_tlb, s). Inr (Some (paddr, index_tlb), s))
      in sbind (page_table_get_paddr_entry pid faultaddress s) (\<lambda>(found, s).
         case found of
           Some (paddr, status) \<Rightarrow> Inr (Some (paddr, -1), increment_tlb_reloads s)
         | None \<Rightarrow>
             sbind (swap_in ops (allocated_pages as) pid faultaddress s) (\<lambda>(r, p, allocated, s).
             let s = set_allocated allocated s; fi = as_fi as
             in case (r = 1, p) of
               (True, Some paddr) \<Rightarrow>
                 sbind (page_table_get_Status_on_Index (int (unat (drop_bit 12 paddr))) s) (\<lambda>_.
                 Inr (Some (paddr, -1), increment_page_faults_disk s))
             | _ \<Rightarrow>
                 if vbase1 \<le> faultaddress \<and> faultaddress < vtop1 then
                   sbind (fault_segment ops vop as pid faultaddress vbase1 (as_npages1 as)
                            (code_offset fi) (code_sz fi) 1 s) done
                 else if vbase2 \<le> faultaddress \<and> faultaddress < vtop2 then
                   sbind (fault_segment ops vop as pid faultaddress vbase2 (as_npages2 as)
                            (data_offset fi) (data_sz fi) 0 s) done
                 else if stackbase \<le> faultaddress \<and> faultaddress < stacktop then
                   sbind (fault_stack ops as pid faultaddress 0 s) done
                 else Inr (None, s))))"

text \<open>\<open>FaultExit\<close> is the outcome in which the thread exits instead of returning.\<close>

datatype fault_result = FaultRet errno | FaultExit

definition vm_fault ::
  "swap_ops \<Rightarrow> (nat \<Rightarrow> u64 \<Rightarrow> u32 \<Rightarrow> int \<times> u8 list) \<Rightarrow>
   ('a vm_state_scheme \<Rightarrow> 'a vm_state_scheme kres) \<Rightarrow> int \<Rightarrow> vaddr \<Rightarrow> 'a vm_state_scheme \<Rightarrow>
   (fault_result \<times> 'a vm_state_scheme) kres" where
  "vm_fault ops vop kfree faulttype faultaddress s =
     (let faultaddress = faultaddress AND PAGE_FRAME
      in if faulttype = 2 then sbind (as_destroy kfree s) (\<lambda>s. Inr (FaultExit, s))
         else if faulttype \<noteq> 0 \<and> faulttype \<noteq> 1 then Inr (FaultRet EINVAL, s)
         else
           let s = increment_tlb_faults s
           in if \<not> curproc s then Inr (FaultRet EFAULT, s)
              else case p_addrspace s of
                None \<Rightarrow> Inr (FaultRet EFAULT, s)
              | Some as \<Rightarrow>
                  fault_asserts as (
                  let pid = p_pid s
                  in sbind (fault_page ops vop as pid faultaddress s) (\<lambda>(page, s).
                     case page of
                       None \<Rightarrow> Inr (FaultRet EFAULT, s)
                     | Some (paddr, index_tlb) \<Rightarrow>
                         kassert (paddr AND PAGE_FRAME = paddr) ''(paddr & PAGE_FRAME) == paddr'' (
                         let ehi = faultaddress OR of_int (pid * 64);
                             elo = paddr OR TLBLO_DIRTY OR TLBLO_VALID
                         in sbind (add_entry index_tlb ehi elo s) (\<lambda>(index_tlb, s).
                            kassert (index_tlb \<noteq> -1) ''index_tlb != -1'' (
                            sbind (page_table_set_status_at_index (int (unat (drop_bit 12 paddr)))
                                     (of_int (index_tlb * 4)) s) (\<lambda>s.
                            Inr (FaultRet 0, s))))))))"

definition vm_tlbshootdown :: "'b kres" where
  "vm_tlbshootdown = Inl (Panic ''vm tried to do tlb shootdown?!'')"

section \<open>Regions\<close>

lemma unat_add_small: "unat a + unat b < 2 ^ 32 \<Longrightarrow> unat (a + b :: u32) = unat a + unat b"
  by (simp add: unat_add_lem [THEN iffD1])

lemma region_pages:
  assumes "unat vaddr mod 4096 + unat sz + 4095 < 2 ^ 32"
  shows "unat (((sz + (vaddr AND NOT PAGE_FRAME) + PAGE_SIZE - 1) AND PAGE_FRAME) div PAGE_SIZE) =
    (unat sz + unat vaddr mod 4096 + 4095) div 4096"
proof -
  let ?o = "vaddr AND NOT PAGE_FRAME"
  have o: "unat ?o = unat vaddr mod 4096" by (rule unat_page_offset)
  have 1: "unat (sz + ?o) = unat sz + unat vaddr mod 4096"
    using assms unfolding o [symmetric] by (intro unat_add_small) simp
  have "unat (4095 :: u32) = 4095" by simp
  with assms 1 have "unat (sz + ?o + 4095) = unat sz + unat vaddr mod 4096 + 4095"
    by (subst unat_add_small) linarith+
  moreover have "sz + ?o + PAGE_SIZE - 1 = (sz + ?o) + 4095" by simp
  ultimately have "unat (sz + ?o + PAGE_SIZE - 1) = unat sz + unat vaddr mod 4096 + 4095"
    by (simp only:)
  then show ?thesis unfolding unat_div_page unat_page_base by simp
qed

lemma region_cover:
  fixes v z :: nat
  defines "n \<equiv> (z + v mod 4096 + 4095) div 4096"
  shows "v + z \<le> v div 4096 * 4096 + n * 4096" and "0 < z \<Longrightarrow> v div 4096 * 4096 + (n - 1) * 4096 < v + z"
proof -
  have v: "v = v div 4096 * 4096 + v mod 4096" by simp
  let ?x = "z + v mod 4096 + 4095"
  have "?x = n * 4096 + ?x mod 4096" "?x mod 4096 < 4096"
    unfolding n_def by (simp_all only: div_mult_mod_eq mod_less_divisor zero_less_numeral)
  then have n: "z + v mod 4096 \<le> n * 4096" "n * 4096 \<le> z + v mod 4096 + 4095" by linarith+
  then show "v + z \<le> v div 4096 * 4096 + n * 4096" using v by linarith
  show "v div 4096 * 4096 + (n - 1) * 4096 < v + z" if "0 < z"
  proof (cases n)
    case 0
    with v that show ?thesis by linarith
  next
    case (Suc m)
    with n have "m * 4096 < z + v mod 4096" by simp
    moreover have "n - 1 = m" using Suc by simp
    ultimately show ?thesis using v by linarith
  qed
qed

section \<open>Segments\<close>

lemma page_addr_inj:
  assumes "unat vbase + unat npages * 4096 \<le> 2 ^ 31" and "k < unat npages"
  shows "unat (vbase + of_nat k * PAGE_SIZE :: u32) = unat vbase + k * 4096"
proof -
  have "unat npages < 2 ^ 20" using assms(1) by simp
  then have k: "unat (of_nat k :: u32) = k" using assms(2) by (simp add: unat_of_nat)
  have "k * 4096 < unat npages * 4096" using assms(2) by simp
  then have "unat (of_nat k * PAGE_SIZE :: u32) = k * 4096"
    using k assms(1) by (subst unat_mult_lem [THEN iffD1]) simp_all
  then show ?thesis using assms \<open>k * 4096 < unat npages * 4096\<close> by (subst unat_add_small) simp_all
qed

lemma size_to_read_aligned:
  assumes off: "off AND 0xfff = 0" and n: "(unat npages - 1) * 4096 < unat sz" "unat sz \<le> unat npages * 4096"
    and top: "unat vbase + unat npages * 4096 \<le> 2 ^ 31" and k: "k < unat npages"
  shows "unat (size_to_read (vbase + of_nat k * PAGE_SIZE) vbase npages off sz) =
    min 4096 (unat sz - k * 4096)"
proof -
  let ?fa = "vbase + of_nat k * PAGE_SIZE :: u32"
  note fa = page_addr_inj [OF top k]
  have small: "unat npages < 2 ^ 20" using top by simp
  have np: "unat (npages * PAGE_SIZE) = unat npages * 4096"
    using small top by (subst unat_mult_lem [THEN iffD1]) simp_all
  have first: "?fa = vbase \<longleftrightarrow> k = 0"
  proof
    assume "?fa = vbase"
    then show "k = 0" using fa by simp
  qed simp
  have "0 < unat npages" using k by simp
  then have one: "unat (npages - 1) = unat npages - 1"
    by (metis One_nat_def Suc_leI unat_1 unat_sub word_le_nat_alt)
  have npm: "unat ((npages - 1) * PAGE_SIZE) = (unat npages - 1) * 4096"
    using small by (subst unat_mult_lem [THEN iffD1]) (simp_all add: one)
  have top': "unat (vbase + npages * PAGE_SIZE - PAGE_SIZE) = unat vbase + (unat npages - 1) * 4096"
  proof -
    have "vbase + npages * PAGE_SIZE - PAGE_SIZE = vbase + (npages - 1) * PAGE_SIZE"
      by (simp add: left_diff_distrib)
    moreover have "unat vbase + unat ((npages - 1) * PAGE_SIZE) < 2 ^ 32"
      using top small unfolding npm by simp
    ultimately show ?thesis by (simp only: unat_add_small npm)
  qed
  have last: "?fa = vbase + npages * PAGE_SIZE - PAGE_SIZE \<longleftrightarrow> k = unat npages - 1"
    unfolding word_unat_eq_iff fa top' by simp
  consider "k = 0" | "k \<noteq> 0" "k = unat npages - 1" | "k \<noteq> 0" "k < unat npages - 1" using k by linarith
  then show ?thesis
  proof cases
    case 1
    have "uint sz < 4096 \<longleftrightarrow> unat sz < 4096" using of_nat_less_iff [of "unat sz" 4096, where 'a = int] by simp
    then show ?thesis using 1 first off by (simp add: size_to_read_def Let_def)
  next
    case 2
    have "(npages - 1) * PAGE_SIZE \<le> sz" using n npm by (simp add: word_le_nat_alt)
    then have "unat (sz - (npages - 1) * PAGE_SIZE) = unat sz - k * 4096"
      using npm 2 by (simp add: unat_sub)
    moreover have "unat sz - k * 4096 \<le> 4096" using n(2) 2 by (cases "unat npages") simp_all
    ultimately show ?thesis using 2 first last off by (simp add: size_to_read_def Let_def)
  next
    case 3
    then have "Suc k * 4096 \<le> (unat npages - 1) * 4096" by simp
    then have "4096 \<le> unat sz - k * 4096" using n(1) by simp
    then show ?thesis using 3 first last by (simp add: size_to_read_def Let_def)
  qed
qed

lemma phys_page_image:
  assumes "length bs \<le> 4096"
  shows "phys_bytes p 4096 (phys_store p bs (as_zero_region p 1 s)) = bs @ replicate (4096 - length bs) 0"
proof (rule nth_equalityI)
  fix i assume "i < length (phys_bytes p 4096 (phys_store p bs (as_zero_region p 1 s)))"
  then have i: "i < 4096" by simp
  then have "unat (of_nat i :: u32) = i" by (simp add: unat_of_nat)
  with i show "phys_bytes p 4096 (phys_store p bs (as_zero_region p 1 s)) ! i =
      (bs @ replicate (4096 - length bs) 0) ! i"
    by (simp add: phys_bytes_def phys_store_def as_zero_region_def nth_append del: upt_rec_numeral)
qed (use assms in simp)

lemma segment_image:
  fixes z k n :: nat
  assumes "k * 4096 \<le> z" and "off + z \<le> length F"
  shows "take 4096 (drop (k * 4096) (take z (drop off F) @ replicate 4096 0)) =
    take (min 4096 (z - k * 4096)) (drop (off + k * 4096) F) @ replicate (4096 - min 4096 (z - k * 4096)) 0"
proof -
  have "length (take z (drop off F)) = z" using assms(2) by simp
  then show ?thesis using assms
    by (simp add: drop_take drop_drop add.commute min.commute)
qed

lemma aligned_offset:
  assumes "off AND 0xfff = 0" and "unat (off :: u64) < 2 ^ 32"
  shows "off AND 0xfffff000 = off"
proof (rule bit_eqI)
  fix n assume "possible_bit TYPE(u64) n"
  have low: "\<not> bit off n" if "n < 12"
  proof -
    have "bit (off AND 0xfff) n = (bit off n \<and> bit (mask 12 :: u64) n)"
      by (simp add: bit_and_iff mask_eq_exp_minus_1)
    with that assms(1) show ?thesis by (simp add: bit_mask_iff)
  qed
  have "take_bit 32 off = off"
    using assms(2) by (simp add: word_unat_eq_iff take_bit_eq_mod unat_mod)
  then have high: "bit off n \<Longrightarrow> n < 32" by (metis bit_take_bit_iff)
  have eq: "(0xfffff000 :: u64) = mask 32 AND NOT (mask 12)" by (simp add: mask_eq_exp_minus_1)
  show "bit (off AND 0xfffff000) n = bit off n"
    unfolding eq using low high by (auto simp: bit_simps)
qed

lemma read_elf_page_ok:
  "vop v off len = (0, bs) \<Longrightarrow> length bs = unat len \<Longrightarrow> read_elf_page vop v p len off s = (0, phys_store p bs s)"
  by (simp add: read_elf_page_def)

lemma load_segment_page_aligned:
  assumes off: "off AND 0xfff = 0" "unat off < 2 ^ 32"
    and n: "(unat npages - 1) * 4096 < unat sz" "unat sz \<le> unat npages * 4096"
    and top: "unat vbase + unat npages * 4096 \<le> 2 ^ 31" and k: "k < unat npages"
    and vop: "\<And>off len. vop v off len = (0, take (unat len) (drop (unat off) F))"
    and F: "unat off + unat sz \<le> length F"
  shows "load_segment_page vop v p (vbase + of_nat k * PAGE_SIZE) vbase npages off sz s =
    (0, phys_store p (take (min 4096 (unat sz - k * 4096)) (drop (unat off + k * 4096) F)) s)"
proof -
  let ?fa = "vbase + of_nat k * PAGE_SIZE :: u32"
  have fa: "unat ?fa = unat vbase + k * 4096" by (rule page_addr_inj [OF top k])
  have k': "k * 4096 < 2 ^ 31" using top k by simp
  have "unat (of_nat (k * 4096) :: u64) = k * 4096 mod 2 ^ 64" by (simp only: unat_of_nat) simp
  then have kw: "unat (of_nat (k * 4096) :: u64) = k * 4096" using k' by (simp only: mod_less) simp
  have src: "unat (off + of_nat (k * 4096)) = unat off + k * 4096"
  proof -
    have "unat off + unat (of_nat (k * 4096) :: u64) < 2 ^ 64" using off(2) k' unfolding kw by simp
    then show ?thesis by (subst unat_add_lem [THEN iffD1]) (simp_all only: kw, simp_all)
  qed
  have "(ucast ?fa :: u64) = ucast vbase + of_nat (k * 4096)"
  proof -
    have "(ucast ?fa :: u64) = of_nat (unat ?fa)" "(ucast vbase :: u64) = of_nat (unat vbase)" by simp_all
    then show ?thesis by (simp only: fa of_nat_add)
  qed
  then have srcw: "(off AND 0xfffff000) + ucast ?fa - ucast vbase = off + of_nat (k * 4096)"
    using aligned_offset [OF off] by simp
  have k0: "?fa = vbase \<longleftrightarrow> k = 0"
  proof
    assume "?fa = vbase"
    then show "k = 0" using fa by simp
  qed simp
  have len: "unat (size_to_read ?fa vbase npages off sz) = min 4096 (unat sz - k * 4096)"
    by (rule size_to_read_aligned [OF off(1) n top k])
  have off': "(if ?fa = vbase then off else (off AND 0xfffff000) + ucast ?fa - ucast vbase) =
      off + of_nat (k * 4096)"
    using srcw k0 by simp
  have "k * 4096 < unat sz"
    using n(1) k by (metis One_nat_def Suc_leI Suc_pred bot_nat_0.not_eq_extremum le_less_trans
        less_Suc_eq_le mult_le_mono1 not_less_zero)
  then have "length (take (min 4096 (unat sz - k * 4096)) (drop (unat off + k * 4096) F)) =
      min 4096 (unat sz - k * 4096)"
    using F by simp
  with len have "read_elf_page vop v p (size_to_read ?fa vbase npages off sz) (off + of_nat (k * 4096)) s =
      (0, phys_store p (take (min 4096 (unat sz - k * 4096)) (drop (unat off + k * 4096) F)) s)"
    by (intro read_elf_page_ok) (simp_all only: vop src)
  then show ?thesis
    unfolding load_segment_page_def off' off(1) by (simp only: ucast_0 if_cancel add_0_right)
qed

section \<open>Lemmas on the fault handler\<close>

lemma page_lookup_miss:
  assumes "pt_ok s" and "\<forall>e \<in> set (next_entry s). \<not> (e_pid e = pid \<and> e_vaddr e = v)"
  shows "page_table_get_paddr_entry pid v s = Inr (None, s)"
proof -
  have "find_last (\<lambda>e. e_pid e = pid \<and> e_vaddr e = v) (next_entry s) = length (next_entry s)"
    unfolding find_last_none using assms(2) .
  then show ?thesis by (simp add: get_paddr_entry_eq [OF assms(1)])
qed

lemma swap_in_miss:
  assumes "swap_inv s" and "\<forall>e \<in> set (track s). \<not> (st_pid e = pid \<and> st_vaddr e = v \<and> st_valid e = 1)"
  shows "swap_in ops a pid v s = Inr (0, None, a, s)"
proof -
  have "track (lock_enter swap_slock_update s) = track s" by (simp add: lock_defs)
  moreover have "find_first (\<lambda>e. st_pid e = pid \<and> st_vaddr e = v \<and> st_valid e = 1) 0 (track s) = -1"
    unfolding find_first_none using assms(2) .
  ultimately show ?thesis
    using swap.acq [OF swap_inv_cpu [OF assms(1)]] swap.rel_enter [OF swap_inv_cpu [OF assms(1)]]
    by (simp add: swap_in_def)
qed

lemma set_allocated_same: "p_addrspace s = Some as \<Longrightarrow> set_allocated (allocated_pages as) s = s"
  by (simp add: set_allocated_def)

lemma fault_counted [simp]:
  "swap_inv (increment_tlb_faults s) = swap_inv s" "pt_ok (increment_tlb_faults s) = pt_ok s"
  "tlb_inv (increment_tlb_faults s) = tlb_inv s" "coremap_inv live (increment_tlb_faults s) = coremap_inv live s"
  "next_entry (increment_tlb_faults s) = next_entry s" "track (increment_tlb_faults s) = track s"
  "p_addrspace (increment_tlb_faults v) = p_addrspace v" "curproc (increment_tlb_faults v) = curproc v"
  "p_pid (increment_tlb_faults v) = p_pid v" "firstpaddr (increment_tlb_faults s) = firstpaddr s"
  "lastpaddr (increment_tlb_faults s) = lastpaddr s"
  by (simp_all add: stats_defs swap_inv_def pt_ok_def tlb_inv_def coremap_inv_def coremap_wf_def
      ram_inv_def cpu_ok_def)

text \<open>The page \<open>v\<close> is neither in the page table nor in the swap file for the process.\<close>

definition page_absent :: "int \<Rightarrow> vaddr \<Rightarrow> 'a swap_state_scheme \<Rightarrow> bool" where
  "page_absent pid v s \<longleftrightarrow> (\<forall>e \<in> set (next_entry s). \<not> (e_pid e = pid \<and> e_vaddr e = v)) \<and>
     (\<forall>e \<in> set (track s). \<not> (st_pid e = pid \<and> st_vaddr e = v \<and> st_valid e = 1))"

text \<open>The region that an address is in, as the tests of the handler decide it.\<close>

datatype vm_region = CodeRegion | DataRegion | StackRegion | NoRegion

definition region_of :: "addrspace \<Rightarrow> vaddr \<Rightarrow> vm_region" where
  "region_of as v =
     (if as_vbase1 as \<le> v \<and> v < as_vbase1 as + as_npages1 as * PAGE_SIZE then CodeRegion
      else if as_vbase2 as \<le> v \<and> v < as_vbase2 as + as_npages2 as * PAGE_SIZE then DataRegion
      else if USERSTACK - DUMBVM_STACKPAGES * PAGE_SIZE \<le> v \<and> v < USERSTACK then StackRegion
      else NoRegion)"

lemma fault_page_absent:
  assumes "swap_inv s" and "page_absent pid v s" and "p_addrspace s = Some as"
  shows "fault_page ops vop as pid v s =
    (case region_of as v of
       CodeRegion \<Rightarrow> sbind (fault_segment ops vop as pid v (as_vbase1 as) (as_npages1 as)
         (code_offset (as_fi as)) (code_sz (as_fi as)) 1 s) (\<lambda>(p, i, s). Inr (Some (p, i), s))
     | DataRegion \<Rightarrow> sbind (fault_segment ops vop as pid v (as_vbase2 as) (as_npages2 as)
         (data_offset (as_fi as)) (data_sz (as_fi as)) 0 s) (\<lambda>(p, i, s). Inr (Some (p, i), s))
     | StackRegion \<Rightarrow> sbind (fault_stack ops as pid v 0 s) (\<lambda>(p, i, s). Inr (Some (p, i), s))
     | NoRegion \<Rightarrow> Inr (None, s))"
proof -
  have pt: "pt_ok s" using assms(1) by (simp add: swap_inv_def)
  have "page_table_get_paddr_entry pid v s = Inr (None, s)"
    "swap_in ops (allocated_pages as) pid v s = Inr (0, None, allocated_pages as, s)"
    using assms(1,2) by (simp_all add: page_lookup_miss [OF pt] swap_in_miss page_absent_def)
  then show ?thesis
    using set_allocated_same [OF assms(3)]
    by (simp add: fault_page_def region_of_def Let_def split: vm_region.split)
qed

lemma fault_asserts_eq: "fault_asserts as (Inr ()) = Inr () \<Longrightarrow> fault_asserts as k = k"
  by (simp add: fault_asserts_def)

lemma vm_fault_handled:
  assumes "faulttype \<in> {0, 1}" and "curproc s" and "p_addrspace s = Some as"
    and "fault_asserts as (Inr ()) = Inr ()"
  shows "vm_fault ops vop kfree faulttype va s =
    sbind (fault_page ops vop as (p_pid s) (va AND PAGE_FRAME) (increment_tlb_faults s)) (\<lambda>(page, t).
      case page of
        None \<Rightarrow> Inr (FaultRet EFAULT, t)
      | Some (p, i) \<Rightarrow>
          kassert (p AND PAGE_FRAME = p) ''(paddr & PAGE_FRAME) == paddr'' (
          sbind (add_entry i ((va AND PAGE_FRAME) OR of_int (p_pid s * 64))
                   (p OR TLBLO_DIRTY OR TLBLO_VALID) t) (\<lambda>(i, t).
          kassert (i \<noteq> -1) ''index_tlb != -1'' (
          sbind (page_table_set_status_at_index (int (unat (drop_bit 12 p))) (of_int (i * 4)) t) (\<lambda>t.
          Inr (FaultRet 0, t))))))"
  unfolding vm_fault_def Let_def fault_counted using assms by (auto simp: fault_asserts_eq)

lemma load_segment_page_form:
  obtains r dest bs where "\<And>s :: 'a swap_state_scheme.
    load_segment_page vop v p fa vbase npages off sz s = (r, phys_store dest bs s)"
proof -
  let ?dest = "p + (if fa = vbase then ucast (off AND 0xfff) else 0)"
    and ?len = "size_to_read fa vbase npages off sz"
    and ?off = "if fa = vbase then off else (off AND 0xfffff000) + ucast fa - ucast vbase"
  obtain r bs where rb: "vop v ?off ?len = (r, bs)" by (cases "vop v ?off ?len")
  show thesis
  proof (rule that)
    fix s :: "'a swap_state_scheme"
    show "load_segment_page vop v p fa vbase npages off sz s =
        (if r \<noteq> 0 then r else if length bs \<noteq> unat ?len then ENOEXEC else r, phys_store ?dest bs s)"
      unfolding load_segment_page_def read_elf_page_def rb Let_def by simp
  qed
qed

lemma fault_frame_fresh:
  assumes "coremap_inv live s" and "allocated_pages as < MAX_ALLOCATED_PAGES"
    and room: "frame_free s"
  obtains p fp fr az where
    "fault_frame ops as pid s = Inr (p, -1, set_allocated (allocated_pages as + 1)
       (s\<lparr>firstpaddr := fp, freeRamFrames := fr, allocSize := az\<rparr>))"
    and "p AND PAGE_FRAME = p" and "unat p div 4096 < unat (lastpaddr s) div 4096"
    and "coremap_inv ((unat p div 4096, 1) # live) (s\<lparr>firstpaddr := fp, freeRamFrames := fr, allocSize := az\<rparr>)"
proof -
  from getppages_one [OF assms(1) room] obtain p fp fr az where get:
    "getppages 1 s = Inr (p, s\<lparr>firstpaddr := fp, freeRamFrames := fr, allocSize := az\<rparr>)"
    "p \<noteq> 0" "4096 dvd unat p" "unat p div 4096 < unat (lastpaddr s) div 4096"
    "coremap_inv ((unat p div 4096, 1) # live) (s\<lparr>firstpaddr := fp, freeRamFrames := fr, allocSize := az\<rparr>)" .
  from get(1,2) assms(2) have "fault_frame ops as pid s = Inr (p, -1, set_allocated (allocated_pages as + 1)
      (s\<lparr>firstpaddr := fp, freeRamFrames := fr, allocSize := az\<rparr>))" by (simp add: fault_frame_def)
  then show thesis using get(3-5) that by (simp add: page_aligned_iff)
qed

text \<open>The last steps of the handler: the TLB entry and the status of the frame.\<close>

lemma fault_install:
  fixes p :: paddr
  assumes tlb: "tlb_inv s" and pt: "pt_exists s" and p: "unat p div 4096 < length (next_entry s)"
  obtains i s1 s2 where "add_entry (-1) hi lo s = Inr (int i, s1)" and "i < NUM_TLB"
    and "page_table_set_status_at_index (int (unat (drop_bit 12 p))) (of_int (int i * 4)) s1 = Inr s2"
    and "tlb_hw s2 = (tlb_hw s)[i := (hi, lo)]" and "phys s2 = phys s" and "track s2 = track s"
    and "map (\<lambda>e. (e_pid e, e_vaddr e)) (next_entry s2) = map (\<lambda>e. (e_pid e, e_vaddr e)) (next_entry s)"
    and "p_addrspace s2 = p_addrspace s" and "coremap_inv live s2 = coremap_inv live s"
proof -
  have "\<exists>i s1. add_entry (-1) hi lo s = Inr (int i, s1) \<and> i < NUM_TLB \<and> tlb_hw s1 = (tlb_hw s)[i := (hi, lo)] \<and>
      phys s1 = phys s \<and> track s1 = track s \<and> next_entry s1 = next_entry s \<and> pt_exists s1 = pt_exists s \<and>
      p_addrspace s1 = p_addrspace s \<and> coremap_inv live s1 = coremap_inv live s"
  proof (cases "tlb_full s")
    case True
    then show ?thesis
      using tlb by (auto simp: add_entry_full tlb_inv_def fill_victim_def tlb_op_defs Let_def
          coremap_inv_def coremap_wf_def ram_inv_def cpu_ok_def)
  next
    case False
    from add_entry_free [OF tlb this] obtain i where
      "add_entry (-1) hi lo s = Inr (int i, fill_free i hi lo s)" "i < NUM_TLB" by metis
    then show ?thesis by (auto simp: fill_free_def tlb_op_defs coremap_inv_def coremap_wf_def ram_inv_def cpu_ok_def)
  qed
  then obtain i s1 where s1: "add_entry (-1) hi lo s = Inr (int i, s1)" "i < NUM_TLB"
    "tlb_hw s1 = (tlb_hw s)[i := (hi, lo)]" "phys s1 = phys s" "track s1 = track s"
    "next_entry s1 = next_entry s" "pt_exists s1" "p_addrspace s1 = p_addrspace s"
    "coremap_inv live s1 = coremap_inv live s" using pt by auto
  let ?f = "unat p div 4096"
  have f: "unat (drop_bit 12 p) = ?f" by (simp add: drop_bit_eq_div unat_div)
  let ?e = "next_entry s ! ?f"
  let ?es = "(next_entry s)[?f := ?e\<lparr>e_status := e_status ?e OR ucast (of_int (int i * 4) :: u8)\<rparr>]"
  have "page_table_set_status_at_index (int (unat (drop_bit 12 p))) (of_int (int i * 4)) s1 =
      Inr (s1\<lparr>next_entry := ?es\<rparr>)"
    using s1 p by (simp only: page_table_set_status_at_index_def f Let_def) simp
  moreover have "map (\<lambda>e. (e_pid e, e_vaddr e)) ?es = map (\<lambda>e. (e_pid e, e_vaddr e)) (next_entry s)"
    using p by (simp add: map_update list_update_same_conv)
  moreover have "coremap_inv live (s1\<lparr>next_entry := ?es\<rparr>) = coremap_inv live s"
    using s1(9) by (simp add: coremap_inv_def coremap_wf_def ram_inv_def cpu_ok_def)
  ultimately show thesis using that [of i s1 "s1\<lparr>next_entry := ?es\<rparr>"] s1 by simp
qed


lemma vm_inv_frame:
  "pt_ok (set_allocated n s) = pt_ok s" "tlb_inv (set_allocated n s) = tlb_inv s"
  "pt_ok (increment_page_faults_elf s') = pt_ok s'" "pt_ok (increment_page_faults_disk s') = pt_ok s'"
  "tlb_inv (increment_page_faults_elf s') = tlb_inv s'" "tlb_inv (increment_page_faults_disk s') = tlb_inv s'"
  "tlb_inv (increment_page_faults_zeroed s') = tlb_inv s'"
  "tlb_inv (phys_store p bs s'') = tlb_inv s''" "tlb_inv (as_zero_region p k s'') = tlb_inv s''"
  "pt_ok (s\<lparr>firstpaddr := fp, freeRamFrames := fr, allocSize := az\<rparr>) = pt_ok s"
  "tlb_inv (s\<lparr>firstpaddr := fp, freeRamFrames := fr, allocSize := az\<rparr>) = tlb_inv s"
  "tlb_inv (s'\<lparr>next_entry := es\<rparr>) = tlb_inv s'"
  by (simp_all add: set_allocated_def stats_defs phys_store_def as_zero_region_def pt_ok_def tlb_inv_def
      cpu_ok_def)

text \<open>A first access to a page of the code segment, while a frame is free.\<close>

lemma vm_fault_code:
  assumes inv: "swap_inv s" "coremap_inv live s" "tlb_inv s" and ft: "faulttype \<in> {0, 1}"
    and cur: "curproc s" "p_addrspace s = Some as" "fault_asserts as (Inr ()) = Inr ()"
    and v: "v = va AND PAGE_FRAME" "region_of as v = CodeRegion" and absent: "page_absent (p_pid s) v s"
    and limit: "allocated_pages as < MAX_ALLOCATED_PAGES" and pid: "0 \<le> p_pid s" "p_pid s < 4096"
    and room: "frame_free s"
    and table: "unat (lastpaddr s) div 4096 \<le> length (next_entry s)"
  obtains p i s' where "vm_fault ops vop kfree faulttype va s = Inr (FaultRet 0, s')" and "i < NUM_TLB"
    and "tlb_hw s' = (tlb_hw s)[i := (v OR of_int (p_pid s * 64), p OR TLBLO_DIRTY OR TLBLO_VALID)]"
    and "phys s' = phys (snd (load_segment_page vop (fi_v (as_fi as)) p v (as_vbase1 as) (as_npages1 as)
           (code_offset (as_fi as)) (code_sz (as_fi as)) (as_zero_region p 1 s)))"
    and "track s' = track s" and "p_addrspace s' = Some (as\<lparr>allocated_pages := allocated_pages as + 1\<rparr>)"
    and "map (\<lambda>e. (e_pid e, e_vaddr e)) (next_entry s') =
      (map (\<lambda>e. (e_pid e, e_vaddr e)) (next_entry s))[0 := (sint v, p)]"
    and "p AND PAGE_FRAME = p" and "coremap_inv ((unat p div 4096, 1) # live) s'"
proof -
  let ?s0 = "increment_tlb_faults s" and ?fi = "as_fi as"
  have room0: "frame_free ?s0" and core0: "coremap_inv live ?s0"
    using room inv(2) by (simp add: frame_free_def stats_defs, simp)
  obtain p fp fr az where
    frame: "fault_frame ops as (p_pid s) ?s0 = Inr (p, -1, set_allocated (allocated_pages as + 1)
       (?s0\<lparr>firstpaddr := fp, freeRamFrames := fr, allocSize := az\<rparr>))"
    and p: "p AND PAGE_FRAME = p" "unat p div 4096 < unat (lastpaddr ?s0) div 4096"
      "coremap_inv ((unat p div 4096, 1) # live) (?s0\<lparr>firstpaddr := fp, freeRamFrames := fr, allocSize := az\<rparr>)"
    by (rule fault_frame_fresh [OF core0 limit room0])
  let ?t0 = "as_zero_region p 1 (increment_page_faults_zeroed (set_allocated (allocated_pages as + 1)
       (?s0\<lparr>firstpaddr := fp, freeRamFrames := fr, allocSize := az\<rparr>)))"
  obtain r dest bs where load: "\<And>s :: 'a vm_state_scheme. load_segment_page vop (fi_v ?fi) p v (as_vbase1 as)
      (as_npages1 as) (code_offset ?fi) (code_sz ?fi) s = (r, phys_store dest bs s)"
    using load_segment_page_form [of vop "fi_v ?fi" p v "as_vbase1 as" "as_npages1 as" "code_offset ?fi" "code_sz ?fi"]
    by metis
  let ?t1 = "increment_page_faults_elf (increment_page_faults_disk (phys_store dest bs ?t0))"
  have es: "next_entry ?t1 = next_entry s" "track ?t1 = track s"
    "p_addrspace ?t1 = Some (as\<lparr>allocated_pages := allocated_pages as + 1\<rparr>)" "tlb_hw ?t1 = tlb_hw s"
    by (simp_all add: stats_defs set_allocated_def phys_store_def as_zero_region_def cur(2))
  have pt: "pt_ok ?t1" using inv(1) by (simp add: vm_inv_frame swap_inv_def)
  have "next_entry s \<noteq> []" using p(2) table by auto
  then have add: "page_table_add_entry (sint v) p (of_int (p_pid s)) 1 ?t1 =
      Inr (?t1\<lparr>next_entry := pt_add (sint v) p 0 1 (next_entry s)\<rparr>)"
    using add_entry_low [OF pt pid] by (simp only: es simp_thms)
  let ?t2 = "?t1\<lparr>next_entry := pt_add (sint v) p 0 1 (next_entry s)\<rparr>"
  have seg: "fault_segment ops vop as (p_pid s) v (as_vbase1 as) (as_npages1 as) (code_offset ?fi)
      (code_sz ?fi) 1 ?s0 = Inr (p, -1, ?t2)"
    by (simp only: fault_segment_def frame sbind.simps prod.case Let_def load fault_status_def simp_thms
        if_False add)
  have "page_absent (p_pid s) v ?s0" "swap_inv ?s0" "p_addrspace ?s0 = Some as"
    using absent inv(1) cur(2) by (simp_all add: page_absent_def)
  then have page: "fault_page ops vop as (p_pid s) v ?s0 = Inr (Some (p, -1), ?t2)"
    by (subst fault_page_absent) (simp_all only: v(2) vm_region.case seg sbind.simps prod.case)
  have "tlb_inv ?t2" using inv(3) by (simp add: vm_inv_frame)
  moreover have "pt_exists ?t2" using pt by (simp add: pt_ok_def)
  moreover have "unat p div 4096 < length (next_entry ?t2)" using p(2) table by simp
  ultimately obtain i s1 s2 where inst:
    "add_entry (-1) (v OR of_int (p_pid s * 64)) (p OR TLBLO_DIRTY OR TLBLO_VALID) ?t2 = Inr (int i, s1)"
    "i < NUM_TLB"
    "page_table_set_status_at_index (int (unat (drop_bit 12 p))) (of_int (int i * 4)) s1 = Inr s2"
    "tlb_hw s2 = (tlb_hw ?t2)[i := (v OR of_int (p_pid s * 64), p OR TLBLO_DIRTY OR TLBLO_VALID)]"
    "phys s2 = phys ?t2" "track s2 = track ?t2"
    "map (\<lambda>e. (e_pid e, e_vaddr e)) (next_entry s2) = map (\<lambda>e. (e_pid e, e_vaddr e)) (next_entry ?t2)"
    "p_addrspace s2 = p_addrspace ?t2"
    "coremap_inv ((unat p div 4096, 1) # live) s2 = coremap_inv ((unat p div 4096, 1) # live) ?t2"
    by (rule fault_install)
  have core: "coremap_inv ((unat p div 4096, 1) # live) s2"
    unfolding inst(9) using p(3)
    by (simp add: coremap_inv_def coremap_wf_def ram_inv_def cpu_ok_def stats_defs set_allocated_def phys_store_def
        as_zero_region_def)
  have run: "vm_fault ops vop kfree faulttype va s = Inr (FaultRet 0, s2)"
    using inst(1,3) p(1) page
    by (simp add: vm_fault_handled [OF ft cur] v(1) [symmetric] del: of_int_mult)
  have ph: "phys s2 = phys (snd (load_segment_page vop (fi_v ?fi) p v (as_vbase1 as) (as_npages1 as)
      (code_offset ?fi) (code_sz ?fi) (as_zero_region p 1 s)))"
    unfolding inst(5) load by (simp add: stats_defs phys_store_def as_zero_region_def set_allocated_def cong: if_cong)
  show thesis
    by (rule that [OF run inst(2) _ ph _ _ _ p(1) core])
      (use inst(4,6,7,8) es \<open>next_entry s \<noteq> []\<close> in \<open>simp_all add: pt_add_def map_update\<close>)
qed

section \<open>Properties\<close>

definition as_sample :: addrspace where
  "as_sample = \<lparr>as_vbase1 = 0, as_npages1 = 0, as_vbase2 = 0, as_npages2 = 0, as_stackpbase = 0,
     allocated_pages = 0,
     as_fi = \<lparr>code_offset = 0, code_sz = 0, data_offset = 0, data_sz = 0, fi_v = 1\<rparr>\<rparr>"

text \<open>The pages from \<open>base\<close> on are those that \<open>sz\<close> bytes at \<open>va\<close> lie in.\<close>

definition region_covers :: "vaddr \<Rightarrow> u32 \<Rightarrow> vaddr \<Rightarrow> u32 \<Rightarrow> bool" where
  "region_covers va sz base npages \<longleftrightarrow> unat base = unat va div 4096 * 4096 \<and>
     unat va + unat sz \<le> unat base + unat npages * 4096 \<and>
     unat base + (unat npages - 1) * 4096 < unat va + unat sz"

text \<open>C32: A region that is not empty, and whose size does not wrap around when it is rounded up to pages, is
  recorded in the right way by \<^verbatim>\<open>as_define_region\<close>, called where the thread may sleep: as the code region when there is
  none yet, and as the data region when there is a code region only. The recorded base is the page of \<^verbatim>\<open>vaddr\<close>, the
  recorded pages cover every byte from \<^verbatim>\<open>vaddr\<close> to \<^verbatim>\<open>vaddr\<close> + \<^verbatim>\<open>sz\<close>, and no page fewer would; the offset and the
  unrounded size go with it, and the other region is untouched. A third region is refused with \<^verbatim>\<open>ENOSYS\<close> and changes
  nothing.\<close>

theorem as_define_region_covers:
  assumes "vm_can_sleep s = Inr ()" and "0 < unat sz" and "unat vaddr mod 4096 + unat sz + 4095 < 2 ^ 32"
  shows "\<exists>as'. as_define_region as vaddr sz off s =
      Inr (if as_vbase1 as = 0 \<or> as_vbase2 as = 0 then 0 else ENOSYS, as') \<and>
    (if as_vbase1 as = 0 then
       region_covers vaddr sz (as_vbase1 as') (as_npages1 as') \<and>
       code_offset (as_fi as') = off \<and> code_sz (as_fi as') = sz \<and>
       as_vbase2 as' = as_vbase2 as \<and> as_npages2 as' = as_npages2 as \<and>
       data_offset (as_fi as') = data_offset (as_fi as) \<and> data_sz (as_fi as') = data_sz (as_fi as)
     else if as_vbase2 as = 0 then
       region_covers vaddr sz (as_vbase2 as') (as_npages2 as') \<and>
       data_offset (as_fi as') = off \<and> data_sz (as_fi as') = sz \<and>
       as_vbase1 as' = as_vbase1 as \<and> as_npages1 as' = as_npages1 as \<and>
       code_offset (as_fi as') = code_offset (as_fi as) \<and> code_sz (as_fi as') = code_sz (as_fi as)
     else as' = as)"
proof -
  let ?n = "((sz + (vaddr AND NOT PAGE_FRAME) + PAGE_SIZE - 1) AND PAGE_FRAME) div PAGE_SIZE"
  have "region_covers vaddr sz (vaddr AND PAGE_FRAME) ?n"
    using region_cover [where v = "unat vaddr" and z = "unat sz"] assms(2)
    unfolding region_covers_def region_pages [OF assms(3), symmetric] unat_page_base [symmetric] by simp
  then show ?thesis using assms(1) by (simp add: as_define_region_def Let_def)
qed

theorem as_define_region_covers_witness:
  "(\<exists>as'. as_define_region as_sample 0x400100 0x1f00 0 cpu_sample = Inr (0, as') \<and>
     unat (as_vbase1 as') = 0x400000 \<and> region_covers 0x400100 0x1f00 (as_vbase1 as') (as_npages1 as')) \<and>
   (\<exists>as'. as_define_region (as_sample\<lparr>as_vbase1 := 0x400000\<rparr>) 0x10000010 100 0x2000 cpu_sample = Inr (0, as') \<and>
     region_covers 0x10000010 100 (as_vbase2 as') (as_npages2 as') \<and> data_offset (as_fi as') = 0x2000)"
  using as_define_region_covers [of cpu_sample "0x1f00" "0x400100" as_sample 0]
    as_define_region_covers [of cpu_sample 100 "0x10000010" "as_sample\<lparr>as_vbase1 := 0x400000\<rparr>" "0x2000"]
  by (auto simp: vm_can_sleep_def cpu_sample_def as_sample_def region_covers_def)

text \<open>A size near \<open>2 ^ 32\<close> wraps around when it is rounded up: the region is accepted with no pages at all.\<close>

lemma as_define_region_wraps:
  "\<exists>as'. as_define_region as_sample 0x400000 0xfffff001 0 cpu_sample = Inr (0, as') \<and> as_npages1 as' = 0"
  by (simp add: as_define_region_def vm_can_sleep_def cpu_sample_def as_sample_def Let_def)

text \<open>C29: Let the file offset of a segment be a multiple of the page size below \<open>2 ^ 32\<close>, its recorded size fit its
  number of pages, its pages lie in the user half, the file hold that many bytes from the offset on, and the reads
  succeed. Then the loader fills the frame of a page as follows: the bytes of the file that the recorded size assigns to
  that page, and zeros behind the recorded size. The recorded size is \<^verbatim>\<open>p_memsz\<close> (\<^verbatim>\<open>loadelf.c\<close> passes it to
  \<^verbatim>\<open>as_define_region\<close>), so this is the page that the program expects when the segment is as long in the file as in
  memory; for a longer segment the bytes that should be zero are taken from the file as well.\<close>

theorem segment_page_loaded:
  assumes off: "off AND 0xfff = 0" "unat off < 2 ^ 32"
    and n: "(unat npages - 1) * 4096 < unat sz" "unat sz \<le> unat npages * 4096"
    and top: "unat vbase + unat npages * 4096 \<le> 2 ^ 31" and k: "k < unat npages"
    and vop: "\<And>off len. vop v off len = (0, take (unat len) (drop (unat off) F))"
    and F: "unat off + unat sz \<le> length F"
  shows "\<exists>s'. load_segment_page vop v p (vbase + of_nat k * PAGE_SIZE) vbase npages off sz
      (as_zero_region p 1 s) = (0, s') \<and>
    phys_bytes p 4096 s' =
      take 4096 (drop (k * 4096) (take (unat sz) (drop (unat off) F) @ replicate 4096 0))"
proof -
  have "k \<le> unat npages - 1" using k by simp
  then have kz: "k * 4096 \<le> unat sz" using n(1) by (meson le_less_trans less_imp_le mult_le_mono1)
  let ?bs = "take (min 4096 (unat sz - k * 4096)) (drop (unat off + k * 4096) F)"
  have len: "length ?bs = min 4096 (unat sz - k * 4096)" using F kz by simp
  have "phys_bytes p 4096 (phys_store p ?bs (as_zero_region p 1 s)) = ?bs @ replicate (4096 - length ?bs) 0"
    by (rule phys_page_image) (simp only: len min.cobounded1)
  also have "\<dots> = take 4096 (drop (k * 4096) (take (unat sz) (drop (unat off) F) @ replicate 4096 0))"
    unfolding len by (rule segment_image [OF kz F, symmetric])
  finally show ?thesis
    using load_segment_page_aligned [where vop = vop and v = v, OF off n top k vop F] by blast
qed

definition elf_sample :: "nat \<Rightarrow> u64 \<Rightarrow> u32 \<Rightarrow> int \<times> u8 list" where
  "elf_sample v off len = (0, take (unat len) (drop (unat off) (replicate 20000 7)))"

theorem segment_page_loaded_witness:
  "\<exists>s'. load_segment_page elf_sample 1 0x5000 (0x400000 + of_nat 1 * PAGE_SIZE) 0x400000 2 0x1000 5000
      (as_zero_region 0x5000 1 swap_sample) = (0, s') \<and>
    phys_bytes 0x5000 4096 s' =
      take 4096 (drop (1 * 4096) (take (unat (5000 :: u32)) (drop (unat (0x1000 :: u64)) (replicate 20000 7)) @
        replicate 4096 0))"
  by (rule segment_page_loaded) (simp_all add: elf_sample_def)

text \<open>The last sentence of C29: byte \<open>i\<close> of a segment is byte \<open>i\<close> of the file from its offset on, also where the segment
  has only \<open>filesz\<close> bytes in the file and \<open>i\<close> is behind them.\<close>

lemma bss_loaded_from_file:
  assumes off: "off AND 0xfff = 0" "unat off < 2 ^ 32"
    and n: "(unat npages - 1) * 4096 < unat sz" "unat sz \<le> unat npages * 4096"
    and top: "unat vbase + unat npages * 4096 \<le> 2 ^ 31" and k: "k < unat npages"
    and vop: "\<And>off len. vop v off len = (0, take (unat len) (drop (unat off) F))"
    and F: "unat off + unat sz \<le> length F"
    and i: "filesz \<le> k * 4096 + i" "k * 4096 + i < unat sz" "i < 4096"
  shows "phys (snd (load_segment_page vop v p (vbase + of_nat k * PAGE_SIZE) vbase npages off sz
      (as_zero_region p 1 s))) (p + of_nat i) = F ! (unat off + (k * 4096 + i))"
proof -
  have "unat (of_nat i :: u32) = i" using i(3) by (simp add: unat_of_nat)
  moreover have "i < unat sz - k * 4096" using i(2) by simp
  ultimately show ?thesis
    unfolding load_segment_page_aligned [where vop = vop and v = v, OF off n top k vop F] snd_conv
    using i F by (simp add: phys_store_def add.assoc)
qed

text \<open>When the file offset of a segment is not a multiple of the page size, the length read for the last
  page is wrong: it is short by twice the offset within the page. When the last page holds fewer bytes
  than that, the length wraps below zero and asks for more than \<open>2 ^ 31\<close> bytes to be read into the one
  frame.\<close>

lemma last_page_size_wraps:
  assumes "off AND 0xfff \<noteq> 0" and "npages \<noteq> 1"
    and "unat sz + unat (ucast (off AND 0xfff) :: u32) = (unat npages - 1) * 4096 + rest"
    and "rest < 2 * unat (ucast (off AND 0xfff) :: u32)" and "unat npages * 4096 < 2 ^ 31" and "npages \<noteq> 0"
  shows "2 ^ 31 < unat (size_to_read (vbase + (npages - 1) * PAGE_SIZE) vbase npages off sz)"
proof -
  let ?o = "ucast (off AND 0xfff) :: u32" and ?n = "(npages - 1) * PAGE_SIZE"
  have "0 < unat npages" using assms(6) by (simp add: unat_gt_0)
  then have one: "unat (npages - 1) = unat npages - 1"
    by (metis One_nat_def Suc_leI unat_1 unat_sub word_le_nat_alt)
  have n: "unat ?n = (unat npages - 1) * 4096"
    using assms(5) by (subst unat_mult_lem [THEN iffD1]) (simp_all add: one)
  have "unat npages \<noteq> 1" using assms(2) by (metis unat_1 word_unat_eq_iff)
  then have "?n \<noteq> 0" using n \<open>0 < unat npages\<close> by (auto simp: word_unat_eq_iff)
  then have "vbase + ?n \<noteq> vbase" by simp
  moreover have "vbase + ?n = vbase + npages * PAGE_SIZE - PAGE_SIZE" by (simp add: left_diff_distrib)
  ultimately have size: "size_to_read (vbase + ?n) vbase npages off sz = sz - ?n - ?o"
    using assms(1) by (simp add: size_to_read_def Let_def)
  have "off AND 0xfff \<le> 0xfff" by (simp add: word_and_le1)
  then have "unat (off AND 0xfff) \<le> 4095" by (simp add: word_le_nat_alt)
  then have o: "unat ?o < 4096" by (simp add: unsigned_ucast_eq take_bit_eq_mod)
  define d where "d = 2 * unat ?o - rest"
  have d: "0 < d" "d < 2 * 4096" using assms(4) o by (simp_all add: d_def)
  have sum: "unat sz + d = unat ?n + unat ?o" using assms(3,4) n by (simp add: d_def)
  have "sz + of_nat d = ?n + ?o"
    using arg_cong [OF sum, of "of_nat :: nat \<Rightarrow> u32"] by (simp only: of_nat_add of_nat_unat ucast_id)
  then have "sz - ?n - ?o = - of_nat d" by (simp add: algebra_simps eq_neg_iff_add_eq_0)
  moreover have "(of_nat (2 ^ 32) :: u32) = 0" by (simp add: word_unat_eq_iff)
  then have "(- of_nat d :: u32) = of_nat (2 ^ 32 - d)" using d by (subst of_nat_diff) (simp_all only:, simp_all)
  then have "unat (- of_nat d :: u32) = (2 ^ 32 - d) mod 2 ^ 32" by (simp only: unat_of_nat) simp
  then have "unat (- of_nat d :: u32) = 2 ^ 32 - d" using d by simp
  ultimately show ?thesis using d unfolding size by simp
qed


definition as_sample_run :: addrspace where
  "as_sample_run = as_sample\<lparr>as_vbase1 := 0x400000, as_npages1 := 2, as_vbase2 := 0x10000000, as_npages2 := 1,
     as_fi := \<lparr>code_offset = 0x1000, code_sz = 5000, data_offset = 0x3000, data_sz = 100, fi_v = 1\<rparr>\<rparr>"

definition vm_sample :: vm_state where
  "vm_sample = swap_state.extend swap_sample \<lparr>curproc = True, p_addrspace = Some as_sample_run, p_pid = 3,
     as_nRamFrames = 8, as_tables = True, as_allocTableActive = 1, as_slock = spinlock_init\<rparr>"

lemma vm_sample_simps [simp]:
  "curproc vm_sample" "p_addrspace vm_sample = Some as_sample_run" "p_pid vm_sample = 3"
  "track vm_sample = replicate NUMBERENTRIES track_free" "next_entry vm_sample = replicate 8 entry_free"
  "firstpaddr vm_sample = 0x4000" "lastpaddr vm_sample = 0x8000"
  using swap_sample_simps by (simp_all add: vm_sample_def swap_state.extend_def)







text \<open>The handler records the page with the arguments of \<^verbatim>\<open>page_table_add_entry\<close> in the wrong order. After
  a fault on a code page has been served the page is still neither in the page table nor in the swap file,
  so a second fault on it, once its TLB slot has been replaced, loads it again into another frame.\<close>

lemma vm_fault_page_not_recorded:
  assumes "swap_inv s" "coremap_inv live s" "tlb_inv s" and "faulttype \<in> {0, 1}"
    and "curproc s" "p_addrspace s = Some as" "fault_asserts as (Inr ()) = Inr ()"
    and "v = va AND PAGE_FRAME" "region_of as v = CodeRegion" and absent: "page_absent (p_pid s) v s"
    and "allocated_pages as < MAX_ALLOCATED_PAGES" and "0 \<le> p_pid s" "p_pid s < 4096"
    and "frame_free s" and "unat (lastpaddr s) div 4096 \<le> length (next_entry s)" and differ: "sint v \<noteq> p_pid s"
  shows "\<exists>s'. vm_fault ops vop kfree faulttype va s = Inr (FaultRet 0, s') \<and> page_absent (p_pid s) v s'"
proof -
  let ?key = "\<lambda>e. (e_pid e, e_vaddr e)"
  obtain p s' where run: "vm_fault ops vop kfree faulttype va s = Inr (FaultRet 0, s')"
    and tr: "track s' = track s"
    and es: "map ?key (next_entry s') = (map ?key (next_entry s))[0 := (sint v, p)]"
    by (rule vm_fault_code [OF assms(1-15)]) blast
  have key: "(p_pid s, v) \<notin> set (map ?key es) \<longleftrightarrow> (\<forall>e \<in> set es. \<not> (e_pid e = p_pid s \<and> e_vaddr e = v))" for es
    by (auto simp: image_iff)
  have "(p_pid s, v) \<notin> set (map ?key (next_entry s))"
    using absent unfolding key page_absent_def by (rule conjunct1)
  moreover have "(p_pid s, v) \<noteq> (sint v, p)" using differ by simp
  moreover have "set (map ?key (next_entry s')) \<subseteq> insert (sint v, p) (set (map ?key (next_entry s)))"
    unfolding es by (rule set_update_subset_insert)
  ultimately have "(p_pid s, v) \<notin> set (map ?key (next_entry s'))" by (meson insertE subsetD)
  then have "page_absent (p_pid s) v s'"
    using absent unfolding key page_absent_def tr by (rule conjI [OF _ conjunct2])
  with run show ?thesis by blast
qed

end
