(* ===== verification/Kmalloc.thy ===== *)
theory Kmalloc
  imports Addrspace
begin

text \<open>
  The kernel heap (\<^verbatim>\<open>kern/vm/kmalloc.c\<close>, with the debugging modes off, as the file sets them): pages from
  \<^verbatim>\<open>alloc_kpages\<close> cut into blocks of one of eight sizes, a free list threaded through the blocks of every page, and
  the structures that describe these pages in pages of their own. A pointer is an address, 0 the null pointer; \<open>refs\<close>
  holds the structures of the pageref pages, \<open>words\<close> the words of all other kernel memory. The promise to the rest of
  the kernel is the locale \<open>block_allocator\<close>.
\<close>

section \<open>State and operations\<close>

abbreviation (input) NSIZES :: nat where "NSIZES \<equiv> 8"
abbreviation (input) LARGEST_SUBPAGE_SIZE :: u32 where "LARGEST_SUBPAGE_SIZE \<equiv> 2048"
abbreviation (input) INVALID_OFFSET :: u16 where "INVALID_OFFSET \<equiv> 0xffff"
abbreviation (input) NPAGEREFS_PER_PAGE :: nat where "NPAGEREFS_PER_PAGE \<equiv> 256"
abbreviation (input) INUSE_WORDS :: nat where "INUSE_WORDS \<equiv> 8"
abbreviation (input) NUM_PAGEREFPAGES :: nat where "NUM_PAGEREFPAGES \<equiv> 16"

definition sizes :: "nat list" where
  "sizes = [16, 32, 64, 128, 256, 512, 1024, 2048]"

record pageref =
  next_samesize :: vaddr
  next_all :: vaddr
  pageaddr_and_blocktype :: vaddr
  freelist_offset :: u16
  nfree :: u16

record kheap_root =
  kr_page :: vaddr
  pagerefs_inuse :: "u32 list"
  numinuse :: u32

record kheap =
  kheaproots :: "kheap_root list"
  sizebases :: "vaddr list"
  allbase :: vaddr
  refs :: "vaddr \<Rightarrow> pageref"
  words :: "vaddr \<Rightarrow> u32"

record kheap_state = coremap_state +
  km_heap :: kheap
  kmalloc_spinlock :: spinlock

definition PR_PAGEADDR :: "pageref \<Rightarrow> vaddr" where
  "PR_PAGEADDR pr = pageaddr_and_blocktype pr AND PAGE_FRAME"

definition PR_BLOCKTYPE :: "pageref \<Rightarrow> u32" where
  "PR_BLOCKTYPE pr = pageaddr_and_blocktype pr AND NOT PAGE_FRAME"

definition MKPAB :: "vaddr \<Rightarrow> u32 \<Rightarrow> vaddr" where
  "MKPAB pa blk = (pa AND PAGE_FRAME) OR (blk AND NOT PAGE_FRAME)"

definition km_acq :: "'a kheap_state_scheme \<Rightarrow> 'a kheap_state_scheme kres" where
  "km_acq s = lock_acq kmalloc_spinlock kmalloc_spinlock_update s"

definition km_rel :: "'a kheap_state_scheme \<Rightarrow> 'a kheap_state_scheme kres" where
  "km_rel s = lock_rel kmalloc_spinlock kmalloc_spinlock_update s"

definition fill_deadbeef :: "vaddr \<Rightarrow> nat \<Rightarrow> kheap \<Rightarrow> kheap" where
  "fill_deadbeef ptr len h = h\<lparr>words := fold (\<lambda>i w. w(ptr + 4 * of_nat i := 0xdeadbeef)) [0..<len div 4] (words h)\<rparr>"

subsection \<open>Pagerefs\<close>

definition root_of :: "nat \<Rightarrow> 'a kheap_state_scheme \<Rightarrow> kheap_root" where
  "root_of r s = kheaproots (km_heap s) ! r"

definition set_root :: "nat \<Rightarrow> kheap_root \<Rightarrow> 'a kheap_state_scheme \<Rightarrow> 'a kheap_state_scheme" where
  "set_root r root s = s\<lparr>km_heap := (km_heap s)\<lparr>kheaproots := (kheaproots (km_heap s))[r := root]\<rparr>\<rparr>"

definition allocpagerefpage :: "nat \<Rightarrow> 'a kheap_state_scheme \<Rightarrow> 'a kheap_state_scheme kres" where
  "allocpagerefpage r s =
     kassert (kr_page (root_of r s) = 0) ''root->page == NULL'' (
     sbind (km_rel s) (\<lambda>s.
     sbind (alloc_kpages 1 s) (\<lambda>(va, s).
     sbind (km_acq s) (\<lambda>s.
     if va = 0 then Inr s
     else
       kassert (va mod PAGE_SIZE = 0) ''va % PAGE_SIZE == 0'' (
       if kr_page (root_of r s) \<noteq> 0 then
         sbind (km_rel s) (\<lambda>s.
         sbind (free_kpages va s) (\<lambda>s.
         sbind (km_acq s) (\<lambda>s.
         kassert (kr_page (root_of r s) \<noteq> 0) ''root->page != NULL'' (Inr s))))
       else Inr (set_root r ((root_of r s)\<lparr>kr_page := va\<rparr>) s))))))"

text \<open>The loop \<^verbatim>\<open>for (k=1,j=0; k!=0; k<<=1,j++)\<close> over the bits of a word of the map.\<close>

definition free_bit :: "u32 \<Rightarrow> nat option" where
  "free_bit w = find (\<lambda>j. w AND push_bit j 1 = 0) [0..<32]"

fun allocpageref_from :: "nat list \<Rightarrow> 'a kheap_state_scheme \<Rightarrow> (vaddr \<times> 'a kheap_state_scheme) kres" where
  "allocpageref_from [] s = Inr (0, s)"
| "allocpageref_from (r # rs) s =
     (let root = root_of r s
      in if unat (numinuse root) \<ge> NPAGEREFS_PER_PAGE then allocpageref_from rs s
         else
           case find (\<lambda>i. pagerefs_inuse root ! i \<noteq> 0xffffffff) [0..<INUSE_WORDS] of
             None \<Rightarrow> allocpageref_from rs s
           | Some i \<Rightarrow>
               (case free_bit (pagerefs_inuse root ! i) of
                  None \<Rightarrow> Inl (AssertFail ''0'')
                | Some j \<Rightarrow>
                    let s = set_root r (root\<lparr>pagerefs_inuse := (pagerefs_inuse root)[i := pagerefs_inuse root ! i OR push_bit j 1],
                              numinuse := numinuse root + 1\<rparr>) s
                    in sbind (if kr_page (root_of r s) = 0 then allocpagerefpage r s else Inr s) (\<lambda>s.
                       if kr_page (root_of r s) = 0 then Inr (0, s)
                       else Inr (kr_page (root_of r s) + 16 * of_nat (i * 32 + j), s))))"

definition allocpageref :: "'a kheap_state_scheme \<Rightarrow> (vaddr \<times> 'a kheap_state_scheme) kres" where
  "allocpageref s = allocpageref_from [0..<NUM_PAGEREFPAGES] s"

fun freepageref_from :: "nat list \<Rightarrow> vaddr \<Rightarrow> kheap \<Rightarrow> kheap kres" where
  "freepageref_from [] p h = Inl (AssertFail ''0'')"
| "freepageref_from (r # rs) p h =
     (let root = kheaproots h ! r
      in if kr_page root = 0 then
           kassert (numinuse root = 0) ''root->numinuse == 0'' (freepageref_from rs p h)
         else
           let j = unat (of_int (sint (p - kr_page root) div 16) :: u32)
           in if j < NPAGEREFS_PER_PAGE then
                let i = j div 32; k = push_bit (j mod 32) 1
                in kassert (pagerefs_inuse root ! i AND k \<noteq> 0) ''(root->pagerefs_inuse[i] & k) != 0'' (
                   kassert (numinuse root > 0) ''root->numinuse > 0'' (
                   Inr (h\<lparr>kheaproots := (kheaproots h)[r := root\<lparr>
                     pagerefs_inuse := (pagerefs_inuse root)[i := pagerefs_inuse root ! i AND NOT k],
                     numinuse := numinuse root - 1\<rparr>]\<rparr>)))
              else freepageref_from rs p h)"

definition freepageref :: "vaddr \<Rightarrow> kheap \<Rightarrow> kheap kres" where
  "freepageref p h = freepageref_from [0..<NUM_PAGEREFPAGES] p h"

subsection \<open>Lists of pages\<close>

text \<open>The walks of \<^verbatim>\<open>remove_lists\<close>: \<open>guy\<close> is the link that was followed last, \<open>None\<close> the base of the list; the
  result is the link to \<open>pr\<close>, if there is one.\<close>

partial_function (option) find_link :: "(vaddr \<Rightarrow> vaddr) \<Rightarrow> vaddr \<Rightarrow> vaddr option \<Rightarrow> vaddr \<Rightarrow> vaddr option option kres option" where
  "find_link nxt pr guy p =
     (if p = 0 then Some (Inr None)
      else if p = pr then Some (Inr (Some guy))
      else find_link nxt pr (Some p) (nxt p))"

definition remove_lists :: "vaddr \<Rightarrow> nat \<Rightarrow> kheap \<Rightarrow> kheap kres" where
  "remove_lists pr blktype h =
     kassert (blktype < NSIZES) ''blktype>=0 && blktype<NSIZES'' (
     sbind (loop_result (find_link (\<lambda>p. next_samesize (refs h p)) pr None (sizebases h ! blktype))) (\<lambda>guy.
     let h = (case guy of
                None \<Rightarrow> h
              | Some None \<Rightarrow> h\<lparr>sizebases := (sizebases h)[blktype := next_samesize (refs h pr)]\<rparr>
              | Some (Some q) \<Rightarrow> h\<lparr>refs := (refs h)(q := (refs h q)\<lparr>next_samesize := next_samesize (refs h pr)\<rparr>)\<rparr>)
     in sbind (loop_result (find_link (\<lambda>p. next_all (refs h p)) pr None (allbase h))) (\<lambda>guy.
        Inr (case guy of
               None \<Rightarrow> h
             | Some None \<Rightarrow> h\<lparr>allbase := next_all (refs h pr)\<rparr>
             | Some (Some q) \<Rightarrow> h\<lparr>refs := (refs h)(q := (refs h q)\<lparr>next_all := next_all (refs h pr)\<rparr>)\<rparr>))))"

subsection \<open>Blocks\<close>

definition blocktype :: "u32 \<Rightarrow> nat kres" where
  "blocktype clientsz =
     (case find (\<lambda>i. unat clientsz \<le> sizes ! i) [0..<NSIZES] of
        Some i \<Rightarrow> Inr i
      | None \<Rightarrow> Inl (Panic ''Subpage allocator cannot handle allocation of size''))"

partial_function (option) find_page :: "(vaddr \<Rightarrow> pageref) \<Rightarrow> u32 \<Rightarrow> vaddr \<Rightarrow> vaddr kres option" where
  "find_page rf blktype pr =
     (if pr = 0 then Some (Inr 0)
      else if PR_BLOCKTYPE (rf pr) \<noteq> blktype then Some (Inl (AssertFail ''PR_BLOCKTYPE(pr) == blktype''))
      else if nfree (rf pr) > 0 then Some (Inr pr)
      else find_page rf blktype (next_samesize (rf pr)))"

text \<open>From the label \<^verbatim>\<open>doalloc\<close> on: take the first block of the free list of the page.\<close>

definition doalloc :: "vaddr \<Rightarrow> kheap \<Rightarrow> (vaddr \<times> kheap) kres" where
  "doalloc pr h =
     (let p = refs h pr
      in kassert (unat (freelist_offset p) < 4096) ''pr->freelist_offset < PAGE_SIZE'' (
         let prpage = PR_PAGEADDR p; retptr = prpage + ucast (freelist_offset p); fl = words h retptr;
             p = p\<lparr>nfree := nfree p - 1\<rparr>
         in if fl \<noteq> 0 then
              kassert (nfree p > 0) ''pr->nfree > 0'' (
              kassert (fl - prpage < PAGE_SIZE) ''fla - prpage < PAGE_SIZE'' (
              Inr (retptr, h\<lparr>refs := (refs h)(pr := p\<lparr>freelist_offset := ucast (fl - prpage)\<rparr>)\<rparr>)))
            else
              kassert (nfree p = 0) ''pr->nfree == 0'' (
              Inr (retptr, h\<lparr>refs := (refs h)(pr := p\<lparr>freelist_offset := INVALID_OFFSET\<rparr>)\<rparr>))))"

text \<open>A fresh page: thread its blocks onto a free list, and put the page at the head of both lists.\<close>

definition thread_block :: "vaddr \<Rightarrow> nat \<Rightarrow> nat \<Rightarrow> (vaddr \<Rightarrow> u32) \<Rightarrow> (vaddr \<Rightarrow> u32) kres" where
  "thread_block prpage sz i w =
     (let fl = prpage + of_nat (i * sz); nxt = prpage + of_nat ((i - 1) * sz)
      in kassert (fl \<noteq> nxt) ''fl != fl->next'' (Inr (w(fl := nxt))))"

definition new_page :: "vaddr \<Rightarrow> nat \<Rightarrow> vaddr \<Rightarrow> kheap \<Rightarrow> kheap kres" where
  "new_page prpage blktype pr h =
     (let sz = sizes ! blktype; n = 4096 div sz
      in sbind (kfor [1..<n] (thread_block prpage sz) ((words h)(prpage := 0))) (\<lambda>w.
         let off = of_nat ((n - 1) * sz)
         in kassert (unat (off :: u16) = (n - 1) * sz) ''pr->freelist_offset == (pr->nfree-1)*sizes[blktype]'' (
            Inr (h\<lparr>words := w,
                   refs := (refs h)(pr := \<lparr>next_samesize = sizebases h ! blktype, next_all = allbase h,
                     pageaddr_and_blocktype = MKPAB prpage (of_nat blktype), freelist_offset = off, nfree = of_nat n\<rparr>),
                   sizebases := (sizebases h)[blktype := pr], allbase := pr\<rparr>))))"

text \<open>No page of the right size has a free block: make a new page.\<close>

definition subpage_fresh :: "nat \<Rightarrow> 'a kheap_state_scheme \<Rightarrow> (vaddr \<times> 'a kheap_state_scheme) kres" where
  "subpage_fresh blktype s =
     sbind (km_rel s) (\<lambda>s.
     sbind (alloc_kpages 1 s) (\<lambda>(prpage, s).
     if prpage = 0 then Inr (0, s)
     else
       kassert (prpage mod PAGE_SIZE = 0) ''prpage % PAGE_SIZE == 0'' (
       sbind (km_acq s) (\<lambda>s.
       sbind (allocpageref s) (\<lambda>(pr, s).
       if pr = 0 then sbind (km_rel s) (\<lambda>s. sbind (free_kpages prpage s) (\<lambda>s. Inr (0, s)))
       else
         sbind (new_page prpage blktype pr (km_heap s)) (\<lambda>h.
         sbind (doalloc pr h) (\<lambda>(retptr, h).
         sbind (km_rel (s\<lparr>km_heap := h\<rparr>)) (\<lambda>s. Inr (retptr, s)))))))))"

definition subpage_kmalloc :: "u32 \<Rightarrow> 'a kheap_state_scheme \<Rightarrow> (vaddr \<times> 'a kheap_state_scheme) kres" where
  "subpage_kmalloc sz s =
     sbind (blocktype sz) (\<lambda>blktype.
     sbind (km_acq s) (\<lambda>s.
     sbind (loop_result (find_page (refs (km_heap s)) (of_nat blktype) (sizebases (km_heap s) ! blktype))) (\<lambda>pr.
     if pr \<noteq> 0 then
       sbind (doalloc pr (km_heap s)) (\<lambda>(retptr, h).
       sbind (km_rel (s\<lparr>km_heap := h\<rparr>)) (\<lambda>s. Inr (retptr, s)))
     else subpage_fresh blktype s)))"

partial_function (option) find_owner :: "(vaddr \<Rightarrow> pageref) \<Rightarrow> vaddr \<Rightarrow> vaddr \<Rightarrow> vaddr kres option" where
  "find_owner rf ptraddr pr =
     (if pr = 0 then Some (Inr 0)
      else if \<not> unat (PR_BLOCKTYPE (rf pr)) < NSIZES then Some (Inl (AssertFail ''blktype >= 0 && blktype < NSIZES''))
      else if PR_PAGEADDR (rf pr) \<le> ptraddr \<and> ptraddr < PR_PAGEADDR (rf pr) + PAGE_SIZE then Some (Inr pr)
      else find_owner rf ptraddr (next_all (rf pr)))"

text \<open>The free list takes the block back.\<close>

definition put_block :: "vaddr \<Rightarrow> u32 \<Rightarrow> kheap \<Rightarrow> kheap kres" where
  "put_block pr offset h =
     (let p = refs h pr; prpage = PR_PAGEADDR p; fl = prpage + offset
      in sbind (if freelist_offset p = INVALID_OFFSET then Inr (h\<lparr>words := (words h)(fl := 0)\<rparr>)
                else
                  let nxt = prpage + ucast (freelist_offset p)
                  in kassert (fl \<noteq> nxt) ''fl != fl->next'' (Inr (h\<lparr>words := (words h)(fl := nxt)\<rparr>))) (\<lambda>h.
         Inr (h\<lparr>refs := (refs h)(pr := p\<lparr>freelist_offset := ucast offset, nfree := nfree p + 1\<rparr>)\<rparr>)))"

definition subpage_kfree :: "vaddr \<Rightarrow> 'a kheap_state_scheme \<Rightarrow> (int \<times> 'a kheap_state_scheme) kres" where
  "subpage_kfree ptraddr s =
     sbind (km_acq s) (\<lambda>s.
     sbind (loop_result (find_owner (refs (km_heap s)) ptraddr (allbase (km_heap s)))) (\<lambda>pr.
     if pr = 0 then sbind (km_rel s) (\<lambda>s. Inr (-1, s))
     else
       let p = refs (km_heap s) pr; prpage = PR_PAGEADDR p; blktype = unat (PR_BLOCKTYPE p); sz = sizes ! blktype;
           offset = ptraddr - prpage
       in if offset \<ge> PAGE_SIZE \<or> unat offset mod sz \<noteq> 0 then Inl (Panic ''kfree: subpage free of invalid addr'')
          else
            sbind (put_block pr offset (fill_deadbeef ptraddr sz (km_heap s))) (\<lambda>h.
            kassert (unat (nfree (refs h pr)) \<le> 4096 div sz) ''pr->nfree <= PAGE_SIZE / sizes[blktype]'' (
            if unat (nfree (refs h pr)) = 4096 div sz then
              sbind (remove_lists pr blktype h) (\<lambda>h.
              sbind (freepageref pr h) (\<lambda>h.
              sbind (km_rel (s\<lparr>km_heap := h\<rparr>)) (\<lambda>s.
              sbind (free_kpages prpage s) (\<lambda>s. Inr (0, s)))))
            else sbind (km_rel (s\<lparr>km_heap := h\<rparr>)) (\<lambda>s. Inr (0, s))))))"

definition kmalloc :: "u32 \<Rightarrow> 'a kheap_state_scheme \<Rightarrow> (vaddr \<times> 'a kheap_state_scheme) kres" where
  "kmalloc sz s =
     (if sz \<ge> LARGEST_SUBPAGE_SIZE then
        sbind (alloc_kpages ((sz + PAGE_SIZE - 1) div PAGE_SIZE) s) (\<lambda>(address, s).
        if address = 0 then Inr (0, s)
        else kassert (address mod PAGE_SIZE = 0) ''address % PAGE_SIZE == 0'' (Inr (address, s)))
      else subpage_kmalloc sz s)"

definition kfree :: "vaddr \<Rightarrow> 'a kheap_state_scheme \<Rightarrow> 'a kheap_state_scheme kres" where
  "kfree ptr s =
     (if ptr = 0 then Inr s
      else
        sbind (subpage_kfree ptr s) (\<lambda>(r, s).
        if r \<noteq> 0 then kassert (ptr mod PAGE_SIZE = 0) ''(vaddr_t)ptr%PAGE_SIZE==0'' (free_kpages ptr s)
        else Inr s))"

subsection \<open>Checks and statistics\<close>

text \<open>The checks that \<^verbatim>\<open>SLOW\<close> and \<^verbatim>\<open>SLOWER\<close> compile in, and the walk of \<^verbatim>\<open>subpage_stats\<close> along the free list of a page,
  which collects the flags that it prints.\<close>

abbreviation (input) MIPS_KSEG1 :: u32 where "MIPS_KSEG1 \<equiv> 0xa0000000"
abbreviation (input) TOTAL_PAGEREFS :: nat where "TOTAL_PAGEREFS \<equiv> 4096"

partial_function (option) check_free :: "(vaddr \<Rightarrow> u32) \<Rightarrow> vaddr \<Rightarrow> nat \<Rightarrow> vaddr \<Rightarrow> nat \<Rightarrow> nat kres option" where
  "check_free w prpage blksize fl n =
     (if fl = 0 then Some (Inr n)
      else if \<not> (prpage \<le> fl \<and> fl < prpage + PAGE_SIZE) then Some (Inl (AssertFail ''fla >= prpage && fla < prpage + PAGE_SIZE''))
      else if unat (fl - prpage) mod blksize \<noteq> 0 then Some (Inl (AssertFail ''(fla-prpage) % blocksize == 0''))
      else if w fl = fl then Some (Inl (AssertFail ''fl->next != fl''))
      else check_free w prpage blksize (w fl) (n + 1))"

definition checksubpage :: "vaddr \<Rightarrow> 'a kheap_state_scheme \<Rightarrow> unit kres" where
  "checksubpage pr s =
     kassert (spinlock_do_i_hold (kmalloc_spinlock s) s) ''spinlock_do_i_hold(&kmalloc_spinlock)'' (
     let p = refs (km_heap s) pr
     in if freelist_offset p = INVALID_OFFSET then kassert (nfree p = 0) ''pr->nfree==0'' (Inr ())
        else
          let prpage = PR_PAGEADDR p; blktype = unat (PR_BLOCKTYPE p)
          in kassert (blktype < NSIZES) ''blktype >= 0 && blktype < NSIZES'' (
             let blksize = sizes ! blktype
             in kassert (prpage \<ge> MIPS_KSEG0) ''prpage >= MIPS_KSEG0'' (
                kassert (prpage < MIPS_KSEG1) ''prpage < MIPS_KSEG1'' (
                kassert (unat (freelist_offset p) < 4096) ''pr->freelist_offset < PAGE_SIZE'' (
                kassert (unat (freelist_offset p) mod blksize = 0) ''pr->freelist_offset % blocksize == 0'' (
                sbind (loop_result (check_free (words (km_heap s)) prpage blksize (prpage + ucast (freelist_offset p)) 0)) (\<lambda>n.
                kassert (n = unat (nfree p)) ''nfree==pr->nfree'' (Inr ()))))))))"

partial_function (option) check_pages :: "(vaddr \<Rightarrow> vaddr) \<Rightarrow> (vaddr \<Rightarrow> unit kres) \<Rightarrow> vaddr \<Rightarrow> nat \<Rightarrow> nat kres option" where
  "check_pages nxt check pr n =
     (if pr = 0 then Some (Inr n)
      else case check pr of
             Inl e \<Rightarrow> Some (Inl e)
           | Inr u \<Rightarrow> if n < TOTAL_PAGEREFS then check_pages nxt check (nxt pr) (n + 1) else Some (Inl (AssertFail ''sc < TOTAL_PAGEREFS'')))"

definition checksubpages :: "'a kheap_state_scheme \<Rightarrow> unit kres" where
  "checksubpages s =
     kassert (spinlock_do_i_hold (kmalloc_spinlock s) s) ''spinlock_do_i_hold(&kmalloc_spinlock)'' (
     let h = km_heap s
     in sbind (kfor [0..<NSIZES] (\<lambda>i sc.
          loop_result (check_pages (\<lambda>p. next_samesize (refs h p)) (\<lambda>pr. checksubpage pr s) (sizebases h ! i) sc)) 0) (\<lambda>sc.
        sbind (loop_result (check_pages (\<lambda>p. next_all (refs h p)) (\<lambda>pr. checksubpage pr s) (allbase h) 0)) (\<lambda>ac.
        kassert (sc = ac) ''sc==ac'' (Inr ()))))"

partial_function (option) stat_free :: "(vaddr \<Rightarrow> u32) \<Rightarrow> vaddr \<Rightarrow> nat \<Rightarrow> nat \<Rightarrow> vaddr \<Rightarrow> bool list \<Rightarrow> bool list kres option" where
  "stat_free w prpage blksize n fl freemap =
     (if fl = 0 then Some (Inr freemap)
      else
        let index = unat (fl - prpage) div blksize
        in if index < n then stat_free w prpage blksize n (w fl) (freemap[index := True])
           else Some (Inl (AssertFail ''index<n'')))"

definition subpage_stats :: "vaddr \<Rightarrow> 'a kheap_state_scheme \<Rightarrow> bool list kres" where
  "subpage_stats pr s =
     kassert (spinlock_do_i_hold (kmalloc_spinlock s) s) ''spinlock_do_i_hold(&kmalloc_spinlock)'' (
     let p = refs (km_heap s) pr; prpage = PR_PAGEADDR p; blktype = unat (PR_BLOCKTYPE p)
     in kassert (blktype < NSIZES) ''blktype >= 0 && blktype < NSIZES'' (
        let n = 4096 div sizes ! blktype
        in kassert (n \<le> 256) ''n <= 32 * ARRAYCOUNT(freemap)'' (
           if freelist_offset p \<noteq> INVALID_OFFSET
           then loop_result (stat_free (words (km_heap s)) prpage (sizes ! blktype) n (prpage + ucast (freelist_offset p)) (replicate n False))
           else Inr (replicate n False))))"

section \<open>Linked lists\<close>

fun chain :: "(vaddr \<Rightarrow> vaddr) \<Rightarrow> vaddr \<Rightarrow> vaddr list \<Rightarrow> bool" where
  "chain nxt p [] \<longleftrightarrow> p = 0"
| "chain nxt p (x # xs) \<longleftrightarrow> p = x \<and> x \<noteq> 0 \<and> chain nxt (nxt x) xs"

lemma chain_cong: "(\<And>x. x \<in> set xs \<Longrightarrow> f x = g x) \<Longrightarrow> chain f p xs = chain g p xs"
  by (induction xs arbitrary: p) auto

lemma chain_nonzero: "chain f p xs \<Longrightarrow> 0 \<notin> set xs"
  by (induction xs arbitrary: p) auto

lemma find_page_chain:
  assumes "chain (\<lambda>p. next_samesize (rf p)) p xs" and "\<And>x. x \<in> set xs \<Longrightarrow> PR_BLOCKTYPE (rf x) = b"
  shows "find_page rf b p = Some (Inr (case find (\<lambda>x. nfree (rf x) > 0) xs of None \<Rightarrow> 0 | Some x \<Rightarrow> x))"
  using assms by (induction xs arbitrary: p) (auto simp: find_page.simps)

lemma find_owner_chain:
  assumes "chain (\<lambda>p. next_all (rf p)) p xs" and "\<And>x. x \<in> set xs \<Longrightarrow> unat (PR_BLOCKTYPE (rf x)) < NSIZES"
  shows "find_owner rf a p =
    Some (Inr (case find (\<lambda>x. PR_PAGEADDR (rf x) \<le> a \<and> a < PR_PAGEADDR (rf x) + PAGE_SIZE) xs of None \<Rightarrow> 0 | Some x \<Rightarrow> x))"
  using assms by (induction xs arbitrary: p) (auto simp: find_owner.simps)

lemma find_link_chain:
  assumes "chain nxt p (ys @ pr # zs)" and "pr \<notin> set ys"
  shows "find_link nxt pr guy p = Some (Inr (Some (if ys = [] then guy else Some (last ys))))"
  using assms
proof (induction ys arbitrary: p guy)
  case Nil
  then show ?case by (subst find_link.simps) simp
next
  case (Cons y ys)
  then show ?case by (subst find_link.simps) auto
qed

lemma chain_unlink:
  assumes "chain nxt p (ys @ pr # zs)" and "distinct (ys @ pr # zs)" and "ys \<noteq> []"
  shows "chain (nxt(last ys := nxt pr)) p (ys @ zs)"
  using assms
proof (induction ys arbitrary: p)
  case (Cons y ys)
  show ?case
  proof (cases "ys = []")
    case True
    with Cons.prems have "chain nxt (nxt pr) zs" "y \<notin> set zs" by auto
    then have "chain (nxt(y := nxt pr)) (nxt pr) zs" by (subst chain_cong [where g = nxt]) auto
    then show ?thesis using Cons.prems(1) True by (simp add: fun_upd_def)
  next
    case False
    with Cons have "chain (nxt(last ys := nxt pr)) (nxt y) (ys @ zs)" by (simp add: fun_upd_def)
    moreover have "y \<noteq> last ys" using Cons.prems(2) False by auto
    ultimately show ?thesis using Cons.prems(1) False by (simp add: fun_upd_def)
  qed
qed simp

lemma chain_from:
  assumes "chain nxt p (ys @ pr # zs)"
  shows "chain nxt (nxt pr) zs"
  using assms by (induction ys arbitrary: p) auto

section \<open>The lock and the pages\<close>

interpretation kmlock: lock_field kmalloc_spinlock kmalloc_spinlock_update
  by unfold_locales (simp_all add: cpu_hold_def cpu_unhold_def)

abbreviation (input) km_enter :: "'a kheap_state_scheme \<Rightarrow> 'a kheap_state_scheme" where
  "km_enter \<equiv> lock_enter kmalloc_spinlock_update"

text \<open>What holds whenever \<^verbatim>\<open>kmalloc\<close> or \<^verbatim>\<open>kfree\<close> is called, or calls the page allocator.\<close>

definition page_state :: "(nat \<times> nat) list \<Rightarrow> 'a kheap_state_scheme \<Rightarrow> bool" where
  "page_state live s \<longleftrightarrow> coremap_inv live s \<and> kmalloc_spinlock s = spinlock_init \<and> c_spinlocks s = 0 \<and> \<not> t_in_interrupt s"

definition kaddr :: "nat \<Rightarrow> vaddr" where
  "kaddr f = MIPS_KSEG0 + of_nat f * PAGE_SIZE"

lemma page_state_cpu: "page_state live s \<Longrightarrow> cpu_ok s \<and> curcpu_exists s"
  by (simp add: page_state_def coremap_inv_def coremap_wf_def cpu_ok_def)

lemma km_enter_heap [simp]: "km_heap (km_enter s) = km_heap s" "root_of r (km_enter s) = root_of r s"
  by (simp_all add: lock_defs root_of_def)

lemma km_enter_upd: "(km_enter s)\<lparr>km_heap := h\<rparr> = km_enter (s\<lparr>km_heap := h\<rparr>)"
  by (simp add: lock_defs)

lemma set_root_enter: "set_root r root (km_enter s) = km_enter (set_root r root s)"
  by (simp add: set_root_def lock_defs)

lemma page_state_heap [simp]: "page_state live (s\<lparr>km_heap := h\<rparr>) = page_state live s"
  by (simp add: page_state_def coremap_inv_def coremap_wf_def cpu_ok_def ram_inv_def)

lemma page_state_root [simp]: "page_state live (set_root r root s) = page_state live s"
  by (simp add: set_root_def)

lemma km_acq_ok: "page_state live s \<Longrightarrow> km_acq s = Inr (km_enter s)"
  using page_state_cpu [of live s] by (simp add: km_acq_def page_state_def kmlock.acq)

lemma km_rel_ok: "page_state live s \<Longrightarrow> km_rel (km_enter s) = Inr s"
  using page_state_cpu [of live s] by (simp add: km_rel_def page_state_def kmlock.rel_enter)

lemma live_bounds:
  assumes "page_state live s" and "(f, n) \<in> set live"
  shows "0 < f" "0 < n" "f + n \<le> 131072"
proof -
  have wf: "coremap_wf s" and inv: "coremap_inv live s" using assms(1) by (simp_all add: page_state_def coremap_inv_def)
  have "nat (nRamFrames s) \<le> 131072" using wf unfolding coremap_wf_def by linarith
  then show "0 < f" "0 < n" "f + n \<le> 131072"
    using inv_live [OF inv assms(2)] first_frame_bound [OF wf] by simp_all
qed

lemma unat_kaddr: "f \<le> 131072 \<Longrightarrow> unat (kaddr f) = 2 ^ 31 + f * 4096"
proof -
  assume f: "f \<le> 131072"
  then have "unat (of_nat f * PAGE_SIZE :: u32) = f * 4096" by (simp add: unat_word_ariths unat_of_nat)
  then show ?thesis using f unfolding kaddr_def by (subst unat_plus_simple [THEN iffD1]) (auto simp: word_le_nat_alt unat_word_ariths)
qed

lemma PADDR_kaddr:
  assumes "4096 dvd unat a"
  shows "PADDR_TO_KVADDR a = kaddr (unat a div 4096)"
proof -
  have "(of_nat (unat a div 4096 * 4096) :: u32) = of_nat (unat a)" using assms by simp
  then have "of_nat (unat a div 4096) * PAGE_SIZE = a" by (simp only: of_nat_mult of_nat_numeral of_nat_unat ucast_id)
  then show ?thesis by (simp add: PADDR_TO_KVADDR_def kaddr_def add.commute)
qed

lemma alloc_kpages_cases [consumes 3, case_names full ok]:
  assumes ps: "page_state live s" and n: "0 < unat n" "unat n < 2 ^ 19"
  obtains (full) "alloc_kpages n s = Inr (0, s)"
  | (ok) f s' where "alloc_kpages n s = Inr (kaddr f, s')" "page_state ((f, unat n) # live) s'" "km_heap s' = km_heap s"
proof -
  have inv: "coremap_inv live s" and wf: "coremap_wf s" and sleep: "vm_can_sleep s = Inr ()"
    using ps page_state_cpu [OF ps] by (simp_all add: page_state_def coremap_inv_def vm_can_sleep_def)
  have got: thesis if g: "getppages n s = Inr (a, s')" and a: "a \<noteq> 0" "4096 dvd unat a"
    and s': "s' = s\<lparr>firstpaddr := fp, freeRamFrames := fr, allocSize := az\<rparr>" for a s' fp fr az
  proof (rule ok)
    show "alloc_kpages n s = Inr (kaddr (unat a div 4096), s')" using g a by (simp add: alloc_kpages_def sleep PADDR_kaddr)
    have "coremap_inv ((unat a div 4096, unat n) # live) s'" using getppages_inv [OF inv n g] a by simp
    then show "page_state ((unat a div 4096, unat n) # live) s'" using ps unfolding page_state_def by (simp add: s')
    show "km_heap s' = km_heap s" by (simp add: s')
  qed
  from inv n show thesis
  proof (cases rule: getppages_cases)
    case (reuse b fr az)
    have b: "unat (of_nat b * PAGE_SIZE :: u32) = b * 4096" using unat_frame_addr [OF wf, of b] reuse(4) by simp
    then have "(of_nat b * PAGE_SIZE :: u32) \<noteq> 0" using reuse(3) by (metis mult_is_0 unat_0 not_gr0 zero_neq_numeral)
    then show thesis using b by (intro got [OF reuse(6), where fp = "firstpaddr s"]) simp_all
  next
    case (steal az)
    have "firstpaddr s \<noteq> 0" "4096 dvd unat (firstpaddr s)" using wf by (auto simp: coremap_wf_def ram_inv_def)
    then show thesis by (intro got [OF steal(3), where fr = "freeRamFrames s"]) simp_all
  next
    case full
    then show thesis using that(1) by (simp add: alloc_kpages_def sleep)
  qed
qed

lemma freeppages_frame:
  assumes "coremap_wf s" and "freeppages addr s = Inr (r, s')"
  shows "\<exists>fr. s' = s\<lparr>freeRamFrames := fr\<rparr>"
  using assms
  by (auto simp: freeppages_def isTableActive_wf critical_freemem rel_freemem Let_def split: if_splits option.splits)

lemma free_kpages_ok:
  assumes ps: "page_state live s" and f: "(f, n) \<in> set live"
  shows "\<exists>s' live'. free_kpages (kaddr f) s = Inr s' \<and> page_state live' s' \<and> km_heap s' = km_heap s \<and>
    set live' = set live - {(f, n)}"
proof -
  have inv: "coremap_inv live s" and wf: "coremap_wf s" using ps by (simp_all add: page_state_def coremap_inv_def)
  from f obtain k where k: "k < length live" "live ! k = (f, n)" by (auto simp: in_set_conv_nth)
  from freeppages_inv [OF inv k(1)] obtain s' where s': "freeppages (of_nat f * PAGE_SIZE) s = Inr (1, s')"
    "coremap_inv (take k live @ drop (Suc k) live) s'" by (auto simp: k(2))
  obtain fr where fr: "s' = s\<lparr>freeRamFrames := fr\<rparr>" using freeppages_frame [OF wf s'(1)] by blast
  have "r \<noteq> (f, n)" if "r \<in> set (take k live @ drop (Suc k) live)" for r
  proof
    assume "r = (f, n)"
    moreover have "region (live ! k) \<inter> region r = {}"
      using inv k(1) that by (intro regions_disjoint_nth) (simp add: coremap_inv_def)
    ultimately show False using live_bounds [OF ps f] k(2) by simp
  qed
  moreover have "set live = insert (f, n) (set (take k live @ drop (Suc k) live))"
    using k by (metis Un_insert_right append.simps(2) append_Cons id_take_nth_drop list.simps(15) set_append)
  ultimately have "set (take k live @ drop (Suc k) live) = set live - {(f, n)}" by blast
  moreover have "free_kpages (kaddr f) s = Inr s'" using s'(1) by (simp add: free_kpages_def isTableActive_wf [OF wf] kaddr_def)
  moreover have "page_state (take k live @ drop (Suc k) live) s'" using s'(2) ps by (simp add: page_state_def fr)
  ultimately show ?thesis using fr by (intro exI [of _ s'] exI [of _ "take k live @ drop (Suc k) live"]) simp
qed

section \<open>Pagerefs in use\<close>

definition used :: "kheap_root \<Rightarrow> nat \<Rightarrow> bool" where
  "used root j \<longleftrightarrow> bit (pagerefs_inuse root ! (j div 32)) (j mod 32)"

definition root_ok :: "kheap_root \<Rightarrow> bool" where
  "root_ok root \<longleftrightarrow> length (pagerefs_inuse root) = INUSE_WORDS \<and>
     unat (numinuse root) = card {j. j < NPAGEREFS_PER_PAGE \<and> used root j}"

definition has_slot :: "kheap_root \<Rightarrow> vaddr \<Rightarrow> bool" where
  "has_slot root pr \<longleftrightarrow> kr_page root \<noteq> 0 \<and> (\<exists>j < NPAGEREFS_PER_PAGE. used root j \<and> pr = kr_page root + 16 * of_nat j)"

text \<open>A root without a page has no root with a page behind it, and at most \<open>k\<close> of its pagerefs are marked: marks that
  \<^verbatim>\<open>allocpageref\<close> left behind when it could not get the page.\<close>

definition heap_roots :: "nat \<Rightarrow> kheap \<Rightarrow> vaddr list \<Rightarrow> bool" where
  "heap_roots k h prs \<longleftrightarrow> length (kheaproots h) = NUM_PAGEREFPAGES \<and> (\<forall>r < NUM_PAGEREFPAGES. root_ok (kheaproots h ! r)) \<and>
     (\<forall>r < NUM_PAGEREFPAGES. kr_page (kheaproots h ! r) = 0 \<longrightarrow> unat (numinuse (kheaproots h ! r)) \<le> k \<and>
        (\<forall>q. r < q \<and> q < NUM_PAGEREFPAGES \<longrightarrow> kr_page (kheaproots h ! q) = 0 \<and> numinuse (kheaproots h ! q) = 0)) \<and>
     (\<forall>pr \<in> set prs. \<exists>r < NUM_PAGEREFPAGES. has_slot (kheaproots h ! r) pr)"

definition own_pages :: "kheap \<Rightarrow> vaddr list \<Rightarrow> vaddr list" where
  "own_pages h prs = map (\<lambda>pr. PR_PAGEADDR (refs h pr)) prs @ filter (\<lambda>a. a \<noteq> 0) (map kr_page (kheaproots h))"

text \<open>The pages of the heap and the page runs \<open>ex\<close> that it handed out whole, all of them different runs of \<open>live\<close>.\<close>

definition heap_frames :: "kheap \<Rightarrow> vaddr list \<Rightarrow> (vaddr \<times> nat) list \<Rightarrow> (nat \<times> nat) list \<Rightarrow> bool" where
  "heap_frames h prs ex live \<longleftrightarrow> distinct (map fst ex @ own_pages h prs) \<and>
     (\<forall>(a, m) \<in> set ex. \<exists>f. (f, m) \<in> set live \<and> a = kaddr f) \<and>
     (\<forall>a \<in> set (own_pages h prs). \<exists>f. (f, 1) \<in> set live \<and> a = kaddr f)"

lemma bit_test:
  assumes "j < 32"
  shows "(w :: u32) AND push_bit j 1 = 0 \<longleftrightarrow> \<not> bit w j"
proof
  assume "w AND push_bit j 1 = 0"
  then have "\<not> bit (w AND push_bit j 1) j" by simp
  then show "\<not> bit w j" using assms by (simp add: bit_simps)
next
  assume "\<not> bit w j"
  then show "w AND push_bit j 1 = 0" by (intro bit_word_eqI) (auto simp: bit_simps)
qed

lemma word_all_ones: "(0xffffffff :: u32) = - 1"
  by (simp add: word_unat_eq_iff unsigned_minus_1_eq_mask mask_eq_exp_minus_1)

lemma free_bit_some:
  assumes "w \<noteq> 0xffffffff"
  shows "\<exists>j < 32. free_bit w = Some j \<and> \<not> bit w j"
proof -
  have "w \<noteq> - 1" using assms by (simp only: word_all_ones not_False_eq_True)
  then obtain i where i: "i < 32" "\<not> bit w i" by (auto simp: bit_eq_iff)
  then have "find (\<lambda>j. w AND push_bit j 1 = 0) [0..<32] \<noteq> None" by (auto simp: find_None_iff bit_test simp del: push_bit_of_1)
  then obtain j where j: "free_bit w = Some j" by (auto simp: free_bit_def)
  then have "j < 32" "\<not> bit w j" by (auto simp: free_bit_def find_Some_iff bit_test simp del: push_bit_of_1 dest!: nth_mem)
  with j show ?thesis by blast
qed

lemma root_pick:
  assumes ok: "root_ok root" and room: "unat (numinuse root) < NPAGEREFS_PER_PAGE"
  shows "\<exists>i < INUSE_WORDS. \<exists>j < 32. find (\<lambda>i. pagerefs_inuse root ! i \<noteq> 0xffffffff) [0..<INUSE_WORDS] = Some i \<and>
    free_bit (pagerefs_inuse root ! i) = Some j \<and> \<not> used root (i * 32 + j)"
proof -
  have "\<exists>x < 256. \<not> used root x"
  proof (rule ccontr)
    assume "\<not> (\<exists>x < 256. \<not> used root x)"
    then have "{j. j < 256 \<and> used root j} = {..<256}" by auto
    then show False using ok room by (simp add: root_ok_def)
  qed
  then obtain x where x: "x < 256" "\<not> bit (pagerefs_inuse root ! (x div 32)) (x mod 32)" by (auto simp: used_def)
  have "bit (0xffffffff :: u32) (x mod 32)" unfolding word_all_ones by (simp add: bit_minus_1_iff)
  with x have "pagerefs_inuse root ! (x div 32) \<noteq> 0xffffffff" by metis
  moreover have "x div 32 < 8" using x(1) by (simp add: div_less_iff_less_mult)
  ultimately have "find (\<lambda>i. pagerefs_inuse root ! i \<noteq> 0xffffffff) [0..<8] \<noteq> None" by (auto simp: find_None_iff)
  then obtain i where i: "find (\<lambda>i. pagerefs_inuse root ! i \<noteq> 0xffffffff) [0..<8] = Some i" by blast
  then have i': "i < 8" "pagerefs_inuse root ! i \<noteq> 0xffffffff" by (auto simp: find_Some_iff dest!: nth_mem)
  from free_bit_some [OF i'(2)] obtain j where "j < 32" "free_bit (pagerefs_inuse root ! i) = Some j" "\<not> bit (pagerefs_inuse root ! i) j"
    by blast
  then show ?thesis using i i' by (auto simp: used_def)
qed

lemma used_mark:
  assumes "root_ok root" and "i < INUSE_WORDS" and "j < 32" and "x < NPAGEREFS_PER_PAGE"
  shows "used (root\<lparr>pagerefs_inuse := (pagerefs_inuse root)[i := pagerefs_inuse root ! i OR push_bit j 1], numinuse := n\<rparr>) x \<longleftrightarrow>
    used root x \<or> x = i * 32 + j"
proof -
  have "x div 32 = i \<and> x mod 32 = j \<longleftrightarrow> x = i * 32 + j" using assms(3) by auto
  then show ?thesis using assms by (auto simp: used_def root_ok_def nth_list_update bit_simps)
qed

lemma root_mark:
  assumes ok: "root_ok root" and "i < INUSE_WORDS" "j < 32" and new: "\<not> used root (i * 32 + j)"
  shows "root_ok (root\<lparr>pagerefs_inuse := (pagerefs_inuse root)[i := pagerefs_inuse root ! i OR push_bit j 1], numinuse := numinuse root + 1\<rparr>)"
proof -
  let ?root = "root\<lparr>pagerefs_inuse := (pagerefs_inuse root)[i := pagerefs_inuse root ! i OR push_bit j 1], numinuse := numinuse root + 1\<rparr>"
  have x: "i * 32 + j < 256" using assms(2,3) by simp
  have "{x. x < 256 \<and> used ?root x} = insert (i * 32 + j) {x. x < 256 \<and> used root x}" using used_mark [OF ok assms(2,3)] x by auto
  then have "card {x. x < 256 \<and> used ?root x} = Suc (unat (numinuse root))" using new ok by (simp add: root_ok_def)
  moreover have "card {x. x < 256 \<and> used ?root x} \<le> card {..<256 :: nat}" by (intro card_mono) auto
  ultimately show ?thesis using ok by (simp add: root_ok_def unat_word_ariths)
qed

lemma distinct_filter_app:
  "distinct (filter P (map f (ys @ z # zs))) \<Longrightarrow> y \<in> set ys \<Longrightarrow> P (f y) \<Longrightarrow> P (f z) \<Longrightarrow> f y \<noteq> f z"
  by (auto simp: image_iff)

lemma distinct_filter_nth:
  assumes "distinct (filter P (map f xs))" and "i < j" and "j < length xs" and "P (f (xs ! i))" and "P (f (xs ! j))"
  shows "f (xs ! i) \<noteq> f (xs ! j)"
proof (rule distinct_filter_app [where f = f and y = "xs ! i" and z = "xs ! j" and P = P])
  have "xs = take j xs @ xs ! j # drop (Suc j) xs" by (rule id_take_nth_drop [OF assms(3)])
  then show "distinct (filter P (map f (take j xs @ xs ! j # drop (Suc j) xs)))" using assms(1) by (rule subst)
  show "xs ! i \<in> set (take j xs)" using assms(2,3) by (auto simp: in_set_conv_nth intro!: exI [of _ i])
qed (rule assms)+

lemma kaddr_inj:
  assumes "page_state live s" and "(f, n) \<in> set live" and "(g, m) \<in> set live" and "kaddr f = kaddr g"
  shows "f = g"
proof -
  have "f \<le> 131072" "g \<le> 131072" using live_bounds [OF assms(1,2)] live_bounds [OF assms(1,3)] by simp_all
  then have "2 ^ 31 + f * 4096 = 2 ^ 31 + g * 4096" using unat_kaddr [of f] unat_kaddr [of g] assms(4) by metis
  then show ?thesis by linarith
qed

lemma kaddr_fresh:
  assumes "page_state ((f, n) # live) s" and "(g, m) \<in> set live"
  shows "kaddr f \<noteq> kaddr g"
proof
  assume "kaddr f = kaddr g"
  then have "f = g" using assms(2) by (intro kaddr_inj [OF assms(1)]) auto
  moreover have "region (f, n) \<inter> region (g, m) = {}" using assms by (auto simp: page_state_def coremap_inv_def)
  moreover have "0 < n" "0 < m" using live_bounds [OF assms(1)] assms(2) by auto
  ultimately show False by simp
qed

text \<open>Where a word of a page lies.\<close>

lemma unat_in_page:
  assumes "page_state live s" and "(f, n) \<in> set live" and "x < n * 4096"
  shows "unat (kaddr f + of_nat x) = 2 ^ 31 + f * 4096 + x"
proof -
  have f: "f + n \<le> 131072" using live_bounds [OF assms(1,2)] by simp
  then have "f \<le> 131072" "x < 2147483648" using assms(3) by linarith+
  moreover have "2147483648 + f * 4096 + x < 4294967296" using f assms(3) by linarith
  ultimately show ?thesis using unat_kaddr [of f] by (simp add: unat_word_ariths unat_of_nat)
qed

lemma own_root:
  "heap_frames h prs ex live \<Longrightarrow> length (kheaproots h) = NUM_PAGEREFPAGES \<Longrightarrow> r < NUM_PAGEREFPAGES \<Longrightarrow> kr_page (kheaproots h ! r) \<noteq> 0 \<Longrightarrow>
     \<exists>f. (f, 1) \<in> set live \<and> kr_page (kheaproots h ! r) = kaddr f"
  by (auto simp: heap_frames_def own_pages_def ball_Un)

lemma slot_inj:
  assumes ps: "page_state live s" and fr: "heap_frames h prs ex live" and len: "length (kheaproots h) = NUM_PAGEREFPAGES"
    and r: "r < NUM_PAGEREFPAGES" "kr_page (kheaproots h ! r) \<noteq> 0" "i < NPAGEREFS_PER_PAGE"
    and q: "q < NUM_PAGEREFPAGES" "kr_page (kheaproots h ! q) \<noteq> 0" "j < NPAGEREFS_PER_PAGE"
    and eq: "kr_page (kheaproots h ! r) + 16 * of_nat i = kr_page (kheaproots h ! q) + 16 * of_nat j"
  shows "r = q \<and> i = j"
proof -
  obtain f g where f: "(f, 1) \<in> set live" "kr_page (kheaproots h ! r) = kaddr f" and g: "(g, 1) \<in> set live" "kr_page (kheaproots h ! q) = kaddr g"
    using own_root [OF fr len r(1,2)] own_root [OF fr len q(1,2)] by blast
  have "unat (kaddr f + of_nat (16 * i)) = 2 ^ 31 + f * 4096 + 16 * i" using r(3) by (intro unat_in_page [OF ps f(1)]) simp
  moreover have "unat (kaddr g + of_nat (16 * j)) = 2 ^ 31 + g * 4096 + 16 * j" using q(3) by (intro unat_in_page [OF ps g(1)]) simp
  moreover have "kaddr f + of_nat (16 * i) = kaddr g + of_nat (16 * j)" using eq f(2) g(2) by simp
  ultimately have "2 ^ 31 + f * 4096 + 16 * i = 2 ^ 31 + g * 4096 + 16 * j" by metis
  then have sum: "f * 4096 + 16 * i = g * 4096 + 16 * j" by linarith
  moreover have "(f * 4096 + 16 * i) div 4096 = f" "(g * 4096 + 16 * j) div 4096 = g" using r(3) q(3) by simp_all
  ultimately have fg: "f = g" "i = j" by auto
  have "distinct (filter (\<lambda>a. a \<noteq> 0) (map kr_page (kheaproots h)))" using fr by (simp add: heap_frames_def own_pages_def)
  from distinct_filter_nth [OF this, of r q] distinct_filter_nth [OF this, of q r] have "r = q"
    using len r(1,2) q(1,2) f(2) g(2) fg(1) by (metis nat_neq_iff)
  then show ?thesis using fg by simp
qed

lemma allocpageref_from_skip:
  "(\<And>q. q \<in> set qs \<Longrightarrow> NPAGEREFS_PER_PAGE \<le> unat (numinuse (root_of q s))) \<Longrightarrow> allocpageref_from (qs @ rs) s = allocpageref_from rs s"
  by (induction qs) simp_all

lemma allocpageref_cases:
  assumes roots: "heap_roots k (km_heap s) prs"
  obtains (full) "allocpageref s = Inr (0, s)"
  | (slot) r i j root where "r < NUM_PAGEREFPAGES" "i < INUSE_WORDS" "j < 32" "\<not> used (root_of r s) (i * 32 + j)"
      "\<And>q. q < r \<Longrightarrow> NPAGEREFS_PER_PAGE \<le> unat (numinuse (root_of q s))"
      "root = (root_of r s)\<lparr>pagerefs_inuse := (pagerefs_inuse (root_of r s))[i := pagerefs_inuse (root_of r s) ! i OR push_bit j 1],
          numinuse := numinuse (root_of r s) + 1\<rparr>"
      "allocpageref s = sbind (if kr_page (root_of r s) = 0 then allocpagerefpage r (set_root r root s) else Inr (set_root r root s)) (\<lambda>s.
         if kr_page (root_of r s) = 0 then Inr (0, s) else Inr (kr_page (root_of r s) + 16 * of_nat (i * 32 + j), s))"
proof (cases "\<exists>r < NUM_PAGEREFPAGES. unat (numinuse (root_of r s)) < NPAGEREFS_PER_PAGE")
  case True
  define r where "r = (LEAST r. r < NUM_PAGEREFPAGES \<and> unat (numinuse (root_of r s)) < NPAGEREFS_PER_PAGE)"
  have r: "r < 16" "unat (numinuse (root_of r s)) < 256" using LeastI_ex [OF True] by (simp_all add: r_def)
  have before: "256 \<le> unat (numinuse (root_of q s))" if "q < r" for q
    using not_less_Least [of q "\<lambda>r. r < 16 \<and> unat (numinuse (root_of r s)) < 256"] that r(1) by (simp add: r_def)
  have len: "length (kheaproots (km_heap s)) = 16" and ok: "root_ok (root_of r s)" using roots r(1) by (simp_all add: heap_roots_def root_of_def)
  from root_pick [OF ok r(2)] obtain i j where ij: "i < 8" "j < 32"
    "find (\<lambda>i. pagerefs_inuse (root_of r s) ! i \<noteq> 0xffffffff) [0..<INUSE_WORDS] = Some i"
    "free_bit (pagerefs_inuse (root_of r s) ! i) = Some j" "\<not> used (root_of r s) (i * 32 + j)" by blast
  define root where "root = (root_of r s)\<lparr>pagerefs_inuse := (pagerefs_inuse (root_of r s))[i := pagerefs_inuse (root_of r s) ! i OR push_bit j 1],
          numinuse := numinuse (root_of r s) + 1\<rparr>"
  have get: "kr_page (root_of r (set_root r root s)) = kr_page (root_of r s)" using r(1) len by (simp add: root_of_def set_root_def root_def)
  have "[0..<16] = [0..<r] @ r # [Suc r..<16]" using r(1) upt_add_eq_append [of 0 r "16 - r"] upt_conv_Cons [of r 16] by simp
  moreover have "allocpageref_from ([0..<r] @ r # [Suc r..<16]) s = allocpageref_from (r # [Suc r..<16]) s"
    using before by (intro allocpageref_from_skip) simp
  ultimately have "allocpageref s = allocpageref_from (r # [Suc r..<16]) s" unfolding allocpageref_def by metis
  then have "allocpageref s = sbind (if kr_page (root_of r s) = 0 then allocpagerefpage r (set_root r root s) else Inr (set_root r root s)) (\<lambda>s.
         if kr_page (root_of r s) = 0 then Inr (0, s) else Inr (kr_page (root_of r s) + 16 * of_nat (i * 32 + j), s))"
    using r(2) ij(3,4) by (simp only: allocpageref_from.simps Let_def option.case root_def [symmetric] get) simp
  then show thesis using slot [OF r(1) ij(1,2,5) _ root_def] before by blast
next
  case False
  then have "256 \<le> unat (numinuse (root_of q s))" if "q < 16" for q using that by (meson not_less)
  then have "allocpageref_from ([0..<16] @ []) s = allocpageref_from [] s" by (intro allocpageref_from_skip) simp
  then show thesis using full by (simp add: allocpageref_def)
qed

abbreviation (input) mark_slot :: "nat \<Rightarrow> nat \<Rightarrow> kheap_root \<Rightarrow> kheap_root" where
  "mark_slot i j root \<equiv> root\<lparr>pagerefs_inuse := (pagerefs_inuse root)[i := pagerefs_inuse root ! i OR push_bit j 1],
     numinuse := numinuse root + 1\<rparr>"

lemma heap_roots_slots: "heap_roots k h prs \<Longrightarrow> pr \<in> set prs \<Longrightarrow> \<exists>q < NUM_PAGEREFPAGES. has_slot (kheaproots h ! q) pr"
  unfolding heap_roots_def by blast

lemma root_ok_page [simp]: "root_ok (root\<lparr>kr_page := va\<rparr>) = root_ok root" "used (root\<lparr>kr_page := va\<rparr>) = used root"
  by (simp_all add: root_ok_def used_def fun_eq_iff)

lemma roots_update:
  assumes roots: "heap_roots k h prs" and r: "r < NUM_PAGEREFPAGES" and ok: "root_ok root" and K: "k \<le> K"
    and before: "\<And>q. q < r \<Longrightarrow> kr_page (kheaproots h ! q) \<noteq> 0"
    and page: "kr_page root = 0 \<Longrightarrow> kr_page (kheaproots h ! r) = 0 \<and> unat (numinuse root) \<le> K"
    and slots: "\<And>pr. pr \<in> set prs' \<Longrightarrow> has_slot root pr \<or> (\<exists>q < NUM_PAGEREFPAGES. q \<noteq> r \<and> has_slot (kheaproots h ! q) pr)"
  shows "heap_roots K (h\<lparr>kheaproots := (kheaproots h)[r := root]\<rparr>) prs'"
proof -
  define rts where "rts = (kheaproots h)[r := root]"
  have len: "length (kheaproots h) = 16" "length rts = 16" using roots by (simp_all add: heap_roots_def rts_def)
  have nth: "rts ! q = (if q = r then root else kheaproots h ! q)" if "q < 16" for q using that r len by (simp add: rts_def nth_list_update)
  have "root_ok (rts ! q)" if "q < 16" for q using roots that ok nth [OF that] by (simp add: heap_roots_def)
  moreover have "unat (numinuse (rts ! q)) \<le> K \<and> (\<forall>p. q < p \<and> p < 16 \<longrightarrow> kr_page (rts ! p) = 0 \<and> numinuse (rts ! p) = 0)"
    if q: "q < 16" "kr_page (rts ! q) = 0" for q
  proof -
    have old: "kr_page (kheaproots h ! q) = 0" "\<not> q < r" using q nth [OF q(1)] page before by (auto split: if_splits)
    then have "unat (numinuse (kheaproots h ! q)) \<le> k \<and> (\<forall>p. q < p \<and> p < 16 \<longrightarrow> kr_page (kheaproots h ! p) = 0 \<and> numinuse (kheaproots h ! p) = 0)"
      using roots q(1) unfolding heap_roots_def by blast
    then show ?thesis using old q nth K page by (auto split: if_splits)
  qed
  moreover have "\<exists>q < 16. has_slot (rts ! q) pr" if "pr \<in> set prs'" for pr using slots [OF that] nth r by metis
  ultimately show ?thesis using len unfolding heap_roots_def rts_def [symmetric] by simp
qed

text \<open>A slot is taken in the first root with a free one: the roots before it are full, and have a page.\<close>

lemma full_roots_page:
  assumes "heap_roots k h prs" and "k < 256" and "r < NUM_PAGEREFPAGES" and "256 \<le> unat (numinuse (kheaproots h ! r))"
  shows "kr_page (kheaproots h ! r) \<noteq> 0"
  using assms unfolding heap_roots_def by (metis le_less_trans not_less)

lemma mark_has_slot:
  assumes "root_ok root" and "i < INUSE_WORDS" and "j < 32" and "has_slot root pr" and "kr_page root = 0 \<or> kr_page root = va"
  shows "has_slot ((mark_slot i j root)\<lparr>kr_page := va\<rparr>) pr"
  using assms used_mark [OF assms(1-3)] unfolding has_slot_def by auto

lemma roots_slot:
  assumes roots: "heap_roots k h prs" and k: "k < 256" and r: "r < NUM_PAGEREFPAGES" and ij: "i < INUSE_WORDS" "j < 32"
    and new: "\<not> used (kheaproots h ! r) (i * 32 + j)"
    and before: "\<And>q. q < r \<Longrightarrow> 256 \<le> unat (numinuse (kheaproots h ! q))"
    and va: "va \<noteq> 0" "kr_page (kheaproots h ! r) = 0 \<or> kr_page (kheaproots h ! r) = va"
  shows "heap_roots k (h\<lparr>kheaproots := (kheaproots h)[r := (mark_slot i j (kheaproots h ! r))\<lparr>kr_page := va\<rparr>]\<rparr>)
    ((va + 16 * of_nat (i * 32 + j)) # prs)"
proof (rule roots_update [OF roots r])
  have ok: "root_ok (kheaproots h ! r)" using roots r by (simp add: heap_roots_def)
  show "root_ok ((mark_slot i j (kheaproots h ! r))\<lparr>kr_page := va\<rparr>)" using root_mark [OF ok ij new] by simp
  show "kr_page (kheaproots h ! q) \<noteq> 0" if "q < r" for q using before that r by (intro full_roots_page [OF roots k]) simp_all
  fix pr assume "pr \<in> set ((va + 16 * of_nat (i * 32 + j)) # prs)"
  then consider "pr = va + 16 * of_nat (i * 32 + j)" | "pr \<in> set prs" by auto
  then show "has_slot ((mark_slot i j (kheaproots h ! r))\<lparr>kr_page := va\<rparr>) pr \<or> (\<exists>q < 16. q \<noteq> r \<and> has_slot (kheaproots h ! q) pr)"
  proof cases
    case 1
    then show ?thesis using va(1) ij used_mark [OF ok ij, of "i * 32 + j"] by (auto simp: has_slot_def intro!: exI [of _ "i * 32 + j"])
  next
    case 2
    then show ?thesis using heap_roots_slots [OF roots 2] mark_has_slot [OF ok ij _ va(2)] by metis
  qed
qed (use va in simp_all)

lemma roots_leak:
  assumes roots: "heap_roots k h prs" and k: "k < 256" and r: "r < NUM_PAGEREFPAGES" and ij: "i < INUSE_WORDS" "j < 32"
    and new: "\<not> used (kheaproots h ! r) (i * 32 + j)"
    and before: "\<And>q. q < r \<Longrightarrow> 256 \<le> unat (numinuse (kheaproots h ! q))" and page: "kr_page (kheaproots h ! r) = 0"
  shows "heap_roots (Suc k) (h\<lparr>kheaproots := (kheaproots h)[r := mark_slot i j (kheaproots h ! r)]\<rparr>) prs"
proof (rule roots_update [OF roots r])
  have ok: "root_ok (kheaproots h ! r)" using roots r by (simp add: heap_roots_def)
  show "root_ok (mark_slot i j (kheaproots h ! r))" by (rule root_mark [OF ok ij new])
  show "kr_page (kheaproots h ! q) \<noteq> 0" if "q < r" for q using before that r by (intro full_roots_page [OF roots k]) simp_all
  have "unat (numinuse (kheaproots h ! r)) \<le> k" using roots r page unfolding heap_roots_def by blast
  then have "unat (numinuse (kheaproots h ! r) + 1) \<le> Suc k" using k by (simp add: unat_word_ariths)
  then show "kr_page (kheaproots h ! r) = 0 \<and> unat (numinuse (mark_slot i j (kheaproots h ! r))) \<le> Suc k" using page by simp
  fix pr assume "pr \<in> set prs"
  from heap_roots_slots [OF roots this] page
  show "has_slot (mark_slot i j (kheaproots h ! r)) pr \<or> (\<exists>q < 16. q \<noteq> r \<and> has_slot (kheaproots h ! q) pr)" by (auto simp: has_slot_def)
qed simp

lemma kaddr_page:
  assumes "f \<le> 131072"
  shows "kaddr f mod PAGE_SIZE = 0" "kaddr f \<noteq> 0" "kaddr f AND PAGE_FRAME = kaddr f"
proof -
  have u: "unat (kaddr f) = (2 ^ 19 + f) * 4096" using unat_kaddr [OF assms] by simp
  then have "unat (kaddr f) mod 4096 = 0" by simp
  then show "kaddr f mod PAGE_SIZE = 0" by (simp add: word_unat_eq_iff unat_mod)
  show "kaddr f \<noteq> 0" using u by (metis add_is_0 mult_is_0 power_eq_0_iff unat_0 zero_neq_numeral)
  show "kaddr f AND PAGE_FRAME = kaddr f" unfolding page_aligned_iff u by simp
qed

lemma allocpagerefpage_cases [consumes 2, case_names full ok]:
  assumes ps: "page_state live s" and page: "kr_page (root_of r s) = 0"
  obtains (full) "allocpagerefpage r (km_enter s) = Inr (km_enter s)"
  | (ok) f s' where "page_state ((f, 1) # live) s'" "km_heap s' = km_heap s"
      "allocpagerefpage r (km_enter s) = Inr (km_enter (set_root r ((root_of r s)\<lparr>kr_page := kaddr f\<rparr>) s'))"
proof -
  have "0 < unat (1 :: u32)" "unat (1 :: u32) < 2 ^ 19" by simp_all
  with ps show thesis
  proof (cases rule: alloc_kpages_cases)
    case full
    then show thesis using that(1) page by (simp add: allocpagerefpage_def km_rel_ok [OF ps] km_acq_ok [OF ps])
  next
    case (ok f s')
    have ps': "page_state ((f, 1) # live) s'" using ok(2) by simp
    have root: "root_of r s' = root_of r s" using ok(3) by (simp add: root_of_def)
    have "f \<le> 131072" using live_bounds [OF ps', of f 1] by simp
    then show thesis using that(2) [OF ps' ok(3)] page root kaddr_page [of f] ok(1)
      by (simp add: allocpagerefpage_def km_rel_ok [OF ps] km_acq_ok [OF ps'] set_root_enter)
  qed
qed

lemma frames_mono: "heap_frames h prs ex live \<Longrightarrow> set live \<subseteq> set live' \<Longrightarrow> heap_frames h prs ex live'"
  unfolding heap_frames_def by fast

lemma frames_root_same:
  assumes "kr_page root = kr_page (kheaproots h ! r)"
  shows "heap_frames (h\<lparr>kheaproots := (kheaproots h)[r := root]\<rparr>) prs ex live = heap_frames h prs ex live"
proof -
  have "map kr_page ((kheaproots h)[r := root]) = map kr_page (kheaproots h)"
    using assms by (cases "r < length (kheaproots h)") (simp_all add: map_update list_update_same_conv list_update_beyond)
  then show ?thesis by (simp add: heap_frames_def own_pages_def)
qed

lemma frames_root_new:
  assumes fr: "heap_frames h prs ex live" and r: "r < length (kheaproots h)" "kr_page (kheaproots h ! r) = 0"
    and ps: "page_state ((f, 1) # live) s" and root: "kr_page root = kaddr f"
  shows "heap_frames (h\<lparr>kheaproots := (kheaproots h)[r := root]\<rparr>) prs ex ((f, 1) # live)"
proof -
  have rts: "kheaproots h = take r (kheaproots h) @ kheaproots h ! r # drop (Suc r) (kheaproots h)" by (rule id_take_nth_drop [OF r(1)])
  let ?own = "map (\<lambda>pr. PR_PAGEADDR (refs h pr)) prs" and ?l = "filter (\<lambda>a. a \<noteq> 0) (map kr_page (take r (kheaproots h)))"
    and ?u = "filter (\<lambda>a. a \<noteq> 0) (map kr_page (drop (Suc r) (kheaproots h)))"
  have old: "own_pages h prs = ?own @ ?l @ ?u" unfolding own_pages_def by (subst rts) (simp add: r(2))
  have "kaddr f \<noteq> 0" using live_bounds [OF ps, of f 1] by (intro kaddr_page) simp
  then have new: "own_pages (h\<lparr>kheaproots := (kheaproots h)[r := root]\<rparr>) prs = ?own @ ?l @ kaddr f # ?u"
    unfolding own_pages_def using r(1) root by (simp add: upd_conv_take_nth_drop)
  have fresh: "kaddr f \<notin> set (map fst ex @ own_pages h prs)"
  proof
    assume "kaddr f \<in> set (map fst ex @ own_pages h prs)"
    then obtain g m where "(g, m) \<in> set live" "kaddr f = kaddr g" using fr unfolding heap_frames_def by force
    then show False using kaddr_fresh [OF ps] by blast
  qed
  then have "distinct (map fst ex @ own_pages (h\<lparr>kheaproots := (kheaproots h)[r := root]\<rparr>) prs)" using fr by (auto simp: heap_frames_def old new)
  moreover have "\<exists>g. (g, 1) \<in> set ((f, 1) # live) \<and> a = kaddr g" if "a \<in> set (own_pages (h\<lparr>kheaproots := (kheaproots h)[r := root]\<rparr>) prs)" for a
  proof (cases "a = kaddr f")
    case False
    then have "a \<in> set (own_pages h prs)" using that by (auto simp: old new)
    then show ?thesis using fr by (auto simp: heap_frames_def)
  qed auto
  moreover have "\<exists>g. (g, m) \<in> set ((f, 1) # live) \<and> a = kaddr g" if "(a, m) \<in> set ex" for a m
    using fr that unfolding heap_frames_def by fastforce
  ultimately show ?thesis unfolding heap_frames_def by blast
qed

text \<open>\<^verbatim>\<open>allocpageref\<close> returns a structure that nobody uses, or leaves a mark behind.\<close>

lemma slot_fresh:
  assumes roots: "heap_roots k h prs" and len: "length (kheaproots h) = NUM_PAGEREFPAGES" and r: "r < NUM_PAGEREFPAGES" and x: "x < NPAGEREFS_PER_PAGE"
    and fr: "heap_frames (h\<lparr>kheaproots := (kheaproots h)[r := root]\<rparr>) prs ex live" and ps: "page_state live s"
    and va: "kr_page root \<noteq> 0" "kr_page (kheaproots h ! r) = 0 \<or> kr_page (kheaproots h ! r) = kr_page root"
    and new: "\<not> used (kheaproots h ! r) x"
  shows "kr_page root + 16 * of_nat x \<notin> set prs"
proof
  assume "kr_page root + 16 * of_nat x \<in> set prs"
  from heap_roots_slots [OF roots this] obtain q y where q: "q < 16" "kr_page (kheaproots h ! q) \<noteq> 0" "y < 256" "used (kheaproots h ! q) y"
    "kr_page root + 16 * of_nat x = kr_page (kheaproots h ! q) + 16 * of_nat y" unfolding has_slot_def by blast
  let ?h = "h\<lparr>kheaproots := (kheaproots h)[r := root]\<rparr>"
  have pages: "kr_page (kheaproots ?h ! r) = kr_page root" "kr_page (kheaproots ?h ! q) = kr_page (kheaproots h ! q)"
    using len r q(1,2) va by (auto simp: nth_list_update)
  from slot_inj [OF ps fr _ r _ x q(1) _ q(3)] have "r = q \<and> x = y" using pages len va(1) q(2,5) by simp
  then show False using q(4) new by simp
qed

lemma slot_nonzero:
  assumes ps: "page_state live s" and fr: "heap_frames h prs ex live" and len: "length (kheaproots h) = NUM_PAGEREFPAGES"
    and r: "r < NUM_PAGEREFPAGES" "kr_page (kheaproots h ! r) \<noteq> 0" and x: "x < NPAGEREFS_PER_PAGE"
  shows "kr_page (kheaproots h ! r) + 16 * of_nat x \<noteq> 0"
proof
  assume z: "kr_page (kheaproots h ! r) + 16 * of_nat x = 0"
  obtain f where f: "(f, 1) \<in> set live" "kr_page (kheaproots h ! r) = kaddr f" using own_root [OF fr len r] by blast
  have "unat (kaddr f + of_nat (16 * x)) = 2 ^ 31 + f * 4096 + 16 * x" using x by (intro unat_in_page [OF ps f(1)]) simp
  then show False using z f(2) by simp
qed

lemma allocpageref_ok:
  assumes ps: "page_state live s" and roots: "heap_roots k (km_heap s) prs" and k: "k < 256"
    and fr: "heap_frames (km_heap s) prs ex live"
  shows "\<exists>pr s' live' rts. allocpageref (km_enter s) = Inr (pr, km_enter s') \<and> page_state live' s' \<and> set live \<subseteq> set live' \<and>
     km_heap s' = (km_heap s)\<lparr>kheaproots := rts\<rparr> \<and> heap_frames (km_heap s') prs ex live' \<and>
     (if pr = 0 then heap_roots (Suc k) (km_heap s') prs else pr \<notin> set prs \<and> heap_roots k (km_heap s') (pr # prs))"
proof -
  have roots': "heap_roots k (km_heap (km_enter s)) prs" using roots by simp
  have len: "length (kheaproots (km_heap s)) = 16" using roots by (simp add: heap_roots_def)
  from roots' show ?thesis
  proof (cases rule: allocpageref_cases)
    case full
    have "heap_roots (Suc k) (km_heap s) prs" using roots unfolding heap_roots_def by (meson le_SucI)
    then show ?thesis using full ps fr by (intro exI [of _ 0] exI [of _ s] exI [of _ live] exI [of _ "kheaproots (km_heap s)"]) simp
  next
    case (slot r i j root)
    let ?h = "km_heap s" and ?x = "i * 32 + j"
    have x: "?x < 256" using slot(2,3) by simp
    have root: "root = mark_slot i j (kheaproots ?h ! r)" using slot(6) by (simp add: root_of_def)
    have new: "\<not> used (kheaproots ?h ! r) ?x" using slot(4) by (simp add: root_of_def)
    have before: "256 \<le> unat (numinuse (kheaproots ?h ! q))" if "q < r" for q using slot(5) [OF that] by (simp add: root_of_def)
    have heap: "km_heap (set_root r rt t) = ?h\<lparr>kheaproots := (kheaproots ?h)[r := rt]\<rparr>" if "km_heap t = ?h" for rt t
      using that by (simp add: set_root_def)
    have got: ?thesis
      if eq: "allocpageref (km_enter s) = Inr (kr_page rt + 16 * of_nat ?x, km_enter s')"
        and s': "page_state live' s'" "set live \<subseteq> set live'" "km_heap s' = ?h\<lparr>kheaproots := (kheaproots ?h)[r := rt]\<rparr>"
        and fr': "heap_frames (km_heap s') prs ex live'" and rt: "rt = root\<lparr>kr_page := va\<rparr>" "va \<noteq> 0"
        "kr_page (kheaproots ?h ! r) = 0 \<or> kr_page (kheaproots ?h ! r) = va" for rt va s' live'
    proof -
      have roots2: "heap_roots k (km_heap s') ((va + 16 * of_nat ?x) # prs)"
        using roots_slot [OF roots k slot(1-3) new before rt(2,3)] s'(3) rt(1) root by simp
      have "va + 16 * of_nat ?x \<notin> set prs"
        using slot_fresh [OF roots len slot(1) x fr' [unfolded s'(3)] s'(1) _ _ new] rt by simp
      moreover have "va + 16 * of_nat ?x \<noteq> 0"
        using slot_nonzero [OF s'(1) fr' _ slot(1) _ x] rt slot(1) len by (simp add: s'(3))
      ultimately show ?thesis using eq s' fr' roots2 rt(1)
        by (intro exI [of _ "va + 16 * of_nat ?x"] exI [of _ s'] exI [of _ live'] exI [of _ "(kheaproots ?h)[r := rt]"]) simp
    qed
    show ?thesis
    proof (cases "kr_page (kheaproots ?h ! r) = 0")
      case False
      then have fr': "heap_frames (km_heap (set_root r root s)) prs ex live" using fr by (simp add: heap frames_root_same root)
      have hs: "km_heap (set_root r root s) = ?h\<lparr>kheaproots := (kheaproots ?h)[r := root]\<rparr>" by (rule heap [OF refl])
      have pg: "kr_page root = kr_page (kheaproots ?h ! r)" by (simp add: root)
      have rt: "root_of r (set_root r root s) = root" using slot(1) len by (simp add: root_of_def hs)
      have "kr_page (root_of r s) \<noteq> 0" using False by (simp add: root_of_def)
      then have "allocpageref (km_enter s) = Inr (kr_page root + 16 * of_nat ?x, km_enter (set_root r root s))"
        using slot(7) False by (simp add: set_root_enter rt pg)
      moreover have "page_state live (set_root r root s)" using ps by simp
      moreover have "root = root\<lparr>kr_page := kr_page (kheaproots ?h ! r)\<rparr>" using pg by simp
      ultimately show ?thesis using False by (intro got [OF _ _ subset_refl hs fr']) simp_all
    next
      case True
      let ?s = "set_root r root s"
      have ps1: "page_state live ?s" using ps by simp
      have hs1: "km_heap ?s = ?h\<lparr>kheaproots := (kheaproots ?h)[r := root]\<rparr>" by (rule heap [OF refl])
      have rt: "root_of r ?s = root" using slot(1) len by (simp add: root_of_def hs1)
      have page: "kr_page (root_of r ?s) = 0" using True unfolding rt by (simp add: root)
      have eq: "allocpageref (km_enter s) = sbind (allocpagerefpage r (km_enter ?s)) (\<lambda>s.
         if kr_page (root_of r s) = 0 then Inr (0, s) else Inr (kr_page (root_of r s) + 16 * of_nat ?x, s))"
        using slot(7) True by (simp add: root_of_def set_root_enter)
      from ps1 page show ?thesis
      proof (cases rule: allocpagerefpage_cases)
        case full
        have "heap_roots (Suc k) (km_heap ?s) prs" using roots_leak [OF roots k slot(1-3) new before True] unfolding hs1 by (simp only: root)
        moreover have "heap_frames (km_heap ?s) prs ex live" using fr unfolding hs1 by (subst frames_root_same) (simp_all add: root)
        ultimately show ?thesis using eq full page ps1 by (intro exI [of _ 0] exI [of _ ?s] exI [of _ live] exI [of _ "(kheaproots ?h)[r := root]"]) (simp add: hs1)
      next
        case (ok f s2)
        let ?rt = "root\<lparr>kr_page := kaddr f\<rparr>" and ?s2 = "set_root r (root\<lparr>kr_page := kaddr f\<rparr>) s2"
        have hs: "km_heap ?s2 = ?h\<lparr>kheaproots := (kheaproots ?h)[r := ?rt]\<rparr>" using ok(2) by (simp add: hs1 set_root_def [of _ _ s2])
        have nz: "kaddr f \<noteq> 0" using live_bounds [OF ok(1), of f 1] by (intro kaddr_page) simp
        have "root_of r ?s2 = ?rt" using slot(1) len by (simp add: root_of_def hs)
        then have "allocpageref (km_enter s) = Inr (kr_page ?rt + 16 * of_nat ?x, km_enter ?s2)" using eq ok(3) nz by (simp add: rt)
        moreover have "heap_frames (km_heap ?s2) prs ex ((f, 1) # live)"
          unfolding hs using True slot(1) len by (intro frames_root_new [OF fr _ _ ok(1)]) simp_all
        ultimately show ?thesis using True nz ok(1) hs by (intro got [of ?rt ?s2 "(f, 1) # live" "kaddr f"]) auto
      qed
    qed
  qed
qed

abbreviation (input) clear_slot :: "nat \<Rightarrow> kheap_root \<Rightarrow> kheap_root" where
  "clear_slot y root \<equiv> root\<lparr>pagerefs_inuse := (pagerefs_inuse root)[y div 32 := pagerefs_inuse root ! (y div 32) AND NOT (push_bit (y mod 32) 1)],
     numinuse := numinuse root - 1\<rparr>"

lemma used_clear:
  assumes "root_ok root" and "x < NPAGEREFS_PER_PAGE" and "y < NPAGEREFS_PER_PAGE"
  shows "used (clear_slot y root) x \<longleftrightarrow> used root x \<and> x \<noteq> y"
proof -
  have "x div 32 < 8" "x mod 32 < 32" "y mod 32 < 32" using assms(2) by (simp_all add: div_less_iff_less_mult)
  moreover have "x = y \<longleftrightarrow> x div 32 = y div 32 \<and> x mod 32 = y mod 32" by (metis div_mult_mod_eq)
  ultimately show ?thesis using assms by (auto simp: used_def root_ok_def nth_list_update bit_simps)
qed

lemma root_clear:
  assumes ok: "root_ok root" and y: "y < NPAGEREFS_PER_PAGE" "used root y"
  shows "root_ok (clear_slot y root)" "numinuse root > 0"
proof -
  have fin: "finite {x. x < 256 \<and> used root x}" by simp
  have "{x. x < 256 \<and> used (clear_slot y root) x} = {x. x < 256 \<and> used root x} - {y}" using used_clear [OF ok _ y(1)] by auto
  then have c: "card {x. x < 256 \<and> used (clear_slot y root) x} = unat (numinuse root) - 1" using y ok by (simp add: root_ok_def)
  have "0 < unat (numinuse root)" using y ok fin by (auto simp: root_ok_def card_gt_0_iff)
  then show pos: "numinuse root > 0" by (simp add: word_less_nat_alt)
  then have "unat (numinuse root - 1) = unat (numinuse root) - 1" by (simp add: unat_minus_one)
  then show "root_ok (clear_slot y root)" using ok c by (simp add: root_ok_def)
qed

lemma unat_of_int32: "unat (of_int w :: u32) = nat (w mod 2 ^ 32)"
  by (simp only: unsigned_of_int take_bit_eq_mod) simp

text \<open>The index that \<^verbatim>\<open>p-page->refs\<close> gives: the number of the structure on its own page, and no index on any other.\<close>

lemma ref_index:
  assumes "f \<le> 131072" and "g \<le> 131072" and "y < NPAGEREFS_PER_PAGE"
  defines "j \<equiv> unat (of_int (sint (kaddr f + 16 * of_nat y - kaddr g) div 16) :: u32)"
  shows "f = g \<Longrightarrow> j = y" and "f \<noteq> g \<Longrightarrow> NPAGEREFS_PER_PAGE \<le> j"
proof -
  let ?v = "(int f - int g) * 4096 + 16 * int y"
  have v: "- (2 ^ 31) \<le> ?v" "?v < 2 ^ 31" using assms(1-3) by simp_all
  have "kaddr f + 16 * of_nat y - kaddr g = of_int ?v" by (simp add: kaddr_def algebra_simps)
  then have "sint (kaddr f + 16 * of_nat y - kaddr g) = signed_take_bit 31 ?v" by (simp only: signed_of_int) simp
  also have "\<dots> = ?v" by (rule signed_take_bit_int_eq_self [OF v])
  finally have "sint (kaddr f + 16 * of_nat y - kaddr g) = ?v" .
  moreover have "?v div 16 = (int f - int g) * 256 + int y" by simp
  moreover define w where "w = (int f - int g) * 256 + int y"
  ultimately have "j = unat (of_int w :: u32)" by (simp only: j_def)
  then have j: "j = nat (w mod 2 ^ 32)" by (simp only: unat_of_int32)
  show "j = y" if "f = g" using that assms(3) by (simp add: j w_def)
  show "256 \<le> j" if "f \<noteq> g"
  proof (cases "f < g")
    case True
    then have "- (2 ^ 26) \<le> w" "w < 0" using assms(2,3) by (simp_all add: w_def)
    moreover from this have "(w + 2 ^ 32) mod 2 ^ 32 = w + 2 ^ 32" by (intro mod_pos_pos_trivial) simp_all
    ultimately show ?thesis by (simp add: j)
  next
    case False
    then have "256 \<le> w" "w < 2 ^ 32" using that assms(1,3) by (simp_all add: w_def)
    then show ?thesis by (simp add: j)
  qed
qed

lemma freepageref_from_skip:
  "(\<And>q. q \<in> set qs \<Longrightarrow> kr_page (kheaproots h ! q) \<noteq> 0 \<and> \<not> unat (of_int (sint (p - kr_page (kheaproots h ! q)) div 16) :: u32) < 256) \<Longrightarrow>
     freepageref_from (qs @ rs) p h = freepageref_from rs p h"
  by (induction qs) (simp_all add: Let_def)

lemma freepageref_ok:
  assumes ps: "page_state live s" and roots: "heap_roots k h prs" and fr: "heap_frames h prs ex live" and pr: "pr \<in> set prs" "distinct prs"
  shows "\<exists>rts. freepageref pr h = Inr (h\<lparr>kheaproots := rts\<rparr>) \<and> map kr_page rts = map kr_page (kheaproots h) \<and>
    heap_roots k (h\<lparr>kheaproots := rts\<rparr>) (remove1 pr prs)"
proof -
  have len: "length (kheaproots h) = 16" using roots by (simp add: heap_roots_def)
  from heap_roots_slots [OF roots pr(1)] obtain r y where r: "r < 16" "kr_page (kheaproots h ! r) \<noteq> 0"
    and y: "y < 256" "used (kheaproots h ! r) y" "pr = kr_page (kheaproots h ! r) + 16 * of_nat y" by (auto simp: has_slot_def)
  have ok: "root_ok (kheaproots h ! r)" using roots r(1) by (simp add: heap_roots_def)
  have before: "kr_page (kheaproots h ! q) \<noteq> 0" if "q < r" for q
    using roots r that unfolding heap_roots_def by (metis less_trans)
  obtain f where f: "(f, 1) \<in> set live" "kr_page (kheaproots h ! r) = kaddr f" using own_root [OF fr len r] by blast
  have f': "f \<le> 131072" using live_bounds [OF ps f(1)] by simp
  let ?j = "\<lambda>q. unat (of_int (sint (pr - kr_page (kheaproots h ! q)) div 16) :: u32)"
  have jr: "?j r = y" using ref_index(1) [OF f' f' y(1) refl] by (simp only: y(3) f(2))
  have jq: "\<not> ?j q < 256" if q: "q < r" for q
  proof -
    obtain g where g: "(g, 1) \<in> set live" "kr_page (kheaproots h ! q) = kaddr g"
      using own_root [OF fr len _ before [OF q]] q r(1) by auto
    have "f \<noteq> g"
    proof
      assume "f = g"
      then have "r = q \<and> y = y" using f(2) g(2) q r(1) before [OF q] by (intro slot_inj [OF ps fr len r y(1) _ _ y(1)]) simp_all
      then show False using q by simp
    qed
    moreover have "g \<le> 131072" using live_bounds [OF ps g(1)] by simp
    ultimately have "256 \<le> ?j q" unfolding y(3) f(2) g(2) by (intro ref_index(2) [OF f' _ y(1)])
    then show ?thesis by simp
  qed
  have "[0..<16] = [0..<r] @ r # [Suc r..<16]" using r(1) upt_add_eq_append [of 0 r "16 - r"] upt_conv_Cons [of r 16] by simp
  then have "freepageref pr h = freepageref_from ([0..<r] @ r # [Suc r..<16]) pr h" by (simp only: freepageref_def)
  also have "\<dots> = freepageref_from (r # [Suc r..<16]) pr h" using before jq by (intro freepageref_from_skip) auto
  also have "\<dots> = Inr (h\<lparr>kheaproots := (kheaproots h)[r := clear_slot y (kheaproots h ! r)]\<rparr>)"
    using r(2) y(1,2) jr root_clear [OF ok y(1,2)] bit_test [of "y mod 32" "pagerefs_inuse (kheaproots h ! r) ! (y div 32)"]
    by (simp add: Let_def used_def del: push_bit_of_1)
  finally have eq: "freepageref pr h = Inr (h\<lparr>kheaproots := (kheaproots h)[r := clear_slot y (kheaproots h ! r)]\<rparr>)" .
  have "heap_roots k (h\<lparr>kheaproots := (kheaproots h)[r := clear_slot y (kheaproots h ! r)]\<rparr>) (remove1 pr prs)"
  proof (rule roots_update [OF roots r(1) root_clear(1) [OF ok y(1,2)] order_refl before])
    fix p assume "p \<in> set (remove1 pr prs)"
    then have p: "p \<in> set prs" "p \<noteq> pr" using pr(2) by auto
    from heap_roots_slots [OF roots p(1)] obtain q where q: "q < 16" "has_slot (kheaproots h ! q) p" by blast
    show "has_slot (clear_slot y (kheaproots h ! r)) p \<or> (\<exists>q < 16. q \<noteq> r \<and> has_slot (kheaproots h ! q) p)"
    proof (cases "q = r")
      case True
      with q(2) obtain z where "z < 256" "used (kheaproots h ! r) z" "p = kr_page (kheaproots h ! r) + 16 * of_nat z" by (auto simp: has_slot_def)
      moreover from this have "z \<noteq> y" using p(2) y(3) by auto
      ultimately show ?thesis using used_clear [OF ok _ y(1), of z] r(2) by (auto simp: has_slot_def)
    qed (use q in blast)
  qed (use r in simp_all)
  moreover have "map kr_page ((kheaproots h)[r := clear_slot y (kheaproots h ! r)]) = map kr_page (kheaproots h)"
    using r(1) len by (simp add: map_update list_update_same_conv)
  ultimately show ?thesis using eq by blast
qed

section \<open>Free lists\<close>

definition blocksize :: "pageref \<Rightarrow> nat" where
  "blocksize p = sizes ! unat (PR_BLOCKTYPE p)"

fun linked :: "(vaddr \<Rightarrow> u32) \<Rightarrow> vaddr \<Rightarrow> nat list \<Rightarrow> bool" where
  "linked w base [] \<longleftrightarrow> True"
| "linked w base (x # xs) \<longleftrightarrow> w (base + of_nat x) = (case xs of [] \<Rightarrow> 0 | y # ys \<Rightarrow> base + of_nat y) \<and> linked w base xs"

text \<open>\<open>fl\<close> lists the offsets of the free blocks of a page, in the order of its free list.\<close>

definition free_list :: "pageref \<Rightarrow> nat list \<Rightarrow> (vaddr \<Rightarrow> u32) \<Rightarrow> bool" where
  "free_list p fl w \<longleftrightarrow> unat (PR_BLOCKTYPE p) < NSIZES \<and> distinct fl \<and> (\<forall>x \<in> set fl. x < 4096 \<and> blocksize p dvd x) \<and>
     unat (nfree p) = length fl \<and> freelist_offset p = (case fl of [] \<Rightarrow> INVALID_OFFSET | x # xs \<Rightarrow> of_nat x) \<and>
     linked w (PR_PAGEADDR p) fl"

lemma free_linked_cong: "(\<And>x. x \<in> set fl \<Longrightarrow> w (base + of_nat x) = w' (base + of_nat x)) \<Longrightarrow> linked w base fl = linked w' base fl"
  by (induction fl) auto

lemma sizes_pos: "b < NSIZES \<Longrightarrow> 16 \<le> sizes ! b \<and> sizes ! b dvd 4096 \<and> sizes ! b \<le> 2048"
proof -
  assume b: "b < NSIZES"
  have "list_all (\<lambda>z. 16 \<le> z \<and> z dvd 4096 \<and> z \<le> 2048) sizes" by (simp add: sizes_def)
  moreover have "length sizes = 8" by (simp add: sizes_def)
  ultimately show ?thesis using b by (simp add: list_all_length)
qed

lemma free_list_length:
  assumes "free_list p fl w"
  shows "length fl \<le> 4096 div blocksize p"
proof -
  let ?b = "blocksize p"
  have b: "0 < ?b" "?b dvd 4096" using assms sizes_pos [of "unat (PR_BLOCKTYPE p)"] by (auto simp: free_list_def blocksize_def)
  have "set fl \<subseteq> (\<lambda>i. i * ?b) ` {..<4096 div ?b}"
  proof
    fix x assume "x \<in> set fl"
    then have x: "x < 4096" "?b dvd x" using assms by (simp_all add: free_list_def)
    then have "x = x div ?b * ?b" "x div ?b < 4096 div ?b" using b by (simp_all add: div_less_mono)
    then show "x \<in> (\<lambda>i. i * ?b) ` {..<4096 div ?b}" by blast
  qed
  then have "card (set fl) \<le> card {..<4096 div ?b}" by (meson card_image_le card_mono finite_imageI finite_lessThan order_trans)
  then show ?thesis using assms by (simp add: free_list_def distinct_card)
qed

end
