(* ===== verification/Coremap_Boot.thy ===== *)
theory Coremap_Boot
  imports Kmalloc
begin

text \<open>
  The start of the frame allocator with the kernel's own heap: \<^verbatim>\<open>coremap_bootstrap\<close> (\<^verbatim>\<open>kern/vm/coremap.c\<close>) gets its
  tables from \<^verbatim>\<open>kmalloc\<close> (\<^verbatim>\<open>kern/vm/kmalloc.c\<close>), which gets its pages from \<^verbatim>\<open>getppages\<close> while the tables are not active.
  All these pages are stolen from the memory above the kernel, whatever is in the heap by then, so the tables
  start in order.
\<close>

section \<open>Pages before the tables are active\<close>

definition boot_state :: "'a kheap_state_scheme \<Rightarrow> bool" where
  "boot_state s \<longleftrightarrow> coremap_boot s \<and> allocTableActive s = 0 \<and> kmalloc_spinlock s = spinlock_init \<and>
     c_spinlocks s = 0 \<and> \<not> t_in_interrupt s"

text \<open>The state may differ in the watermark and in the heap.\<close>

definition boot_kept :: "'a kheap_state_scheme \<Rightarrow> 'a kheap_state_scheme \<Rightarrow> bool" where
  "boot_kept s s' \<longleftrightarrow> boot_state s' \<and> lastpaddr s' = lastpaddr s \<and> nRamFrames s' = nRamFrames s"

lemma boot_kept_refl: "boot_state s \<Longrightarrow> boot_kept s s"
  by (simp add: boot_kept_def)

lemma boot_kept_trans: "boot_kept s t \<Longrightarrow> boot_kept t u \<Longrightarrow> boot_kept s u"
  by (simp add: boot_kept_def)

lemma boot_kept_heap [simp]: "boot_kept s (t\<lparr>km_heap := h\<rparr>) = boot_kept s t"
  by (simp add: boot_kept_def boot_state_def coremap_boot_def cpu_ok_def ram_inv_def)

lemma boot_kept_root [simp]: "boot_kept s (set_root r root t) = boot_kept s t"
  by (simp add: set_root_def)

lemma boot_kept_state: "boot_kept s t \<Longrightarrow> boot_state t"
  by (simp add: boot_kept_def)

lemma boot_cpu: "boot_state s \<Longrightarrow> cpu_ok s" "boot_state s \<Longrightarrow> curcpu_exists s" "boot_state s \<Longrightarrow> ram_inv s"
  by (simp_all add: boot_state_def coremap_boot_def cpu_ok_def)

lemma boot_km: "boot_state s \<Longrightarrow> km_acq s = Inr (km_enter s)" "boot_state s \<Longrightarrow> km_rel (km_enter s) = Inr s"
  by (simp_all add: km_acq_def km_rel_def boot_state_def coremap_boot_def kmlock.acq kmlock.rel_enter)

lemma boot_inactive: "boot_state s \<Longrightarrow> isTableActive s = Inr (0, s)"
  using freemem.acq [of s] freemem.rel_enter [of s]
  by (simp add: isTableActive_def boot_state_def coremap_boot_def lock_defs)

lemma boot_steal:
  assumes s: "boot_state s"
  shows "steal_locked n s = Inr (ram_stealmem n s)"
proof -
  have c: "cpu_ok s" "stealmem_lock s = spinlock_init" using s by (simp_all add: boot_state_def coremap_boot_def)
  have "lock_rel stealmem_lock stealmem_lock_update (lock_enter stealmem_lock_update s\<lparr>firstpaddr := p\<rparr>) =
      Inr (s\<lparr>firstpaddr := p\<rparr>)" for p
    using c by (intro stealmem.rel_mod) (simp_all add: cpu_ok_def lock_defs)
  with c stealmem.acq [OF c] stealmem.rel_enter [OF c] show ?thesis
    by (simp add: steal_locked_def ram_stealmem_def Let_def lock_defs split: if_splits)
qed

lemma boot_alloc_kpages:
  assumes s: "boot_state s" and n: "unat n < 2 ^ 19" and run: "alloc_kpages n s = Inr (va, s')"
  shows "boot_kept s s'"
proof -
  have sleep: "vm_can_sleep s = Inr ()" using s by (simp add: vm_can_sleep_def boot_state_def)
  have free: "getfreeppages n s = Inr (0, s)" by (simp add: getfreeppages_def boot_inactive [OF s])
  have fin: "s' = snd (ram_stealmem n s)" if "boot_state (snd (ram_stealmem n s))"
    using run boot_inactive [OF that]
    by (auto simp: alloc_kpages_def sleep getppages_def free boot_steal [OF s] note_allocSize_def split_def
        split: if_splits)
  from boot_cpu(3) [OF s] n show ?thesis
  proof (cases rule: ram_stealmem_cases)
    case full
    then show ?thesis using fin s by (simp add: boot_kept_refl)
  next
    case ok
    let ?t = "s\<lparr>firstpaddr := firstpaddr s + n * PAGE_SIZE\<rparr>"
    have "boot_state ?t"
      using s ok ram_stealmem_inv [OF boot_cpu(3) [OF s] n]
      by (simp add: boot_state_def coremap_boot_def cpu_ok_def)
    then show ?thesis using fin ok(2) by (simp add: boot_kept_def)
  qed
qed

lemma boot_free_kpages: "boot_state s \<Longrightarrow> free_kpages va s = Inr s"
  by (simp add: free_kpages_def boot_inactive)

section \<open>The heap before the tables are active\<close>

lemma boot_allocpagerefpage:
  assumes s: "boot_state s" and run: "allocpagerefpage r (km_enter s) = Inr t"
  shows "\<exists>s'. t = km_enter s' \<and> boot_kept s s'"
proof -
  obtain va s1 where k: "alloc_kpages 1 s = Inr (va, s1)"
    using run boot_km(2) [OF s] by (auto simp: allocpagerefpage_def kassert_def sbind_eq_Inr_iff split: if_splits)
  have s1: "boot_kept s s1" using boot_alloc_kpages [OF s _ k] by simp
  note b = boot_kept_state [OF s1]
  have "t = km_enter s1 \<or> (\<exists>root. t = km_enter (set_root r root s1))"
    using run by (auto simp: allocpagerefpage_def kassert_def boot_km [OF s] boot_km [OF b] k boot_free_kpages [OF b]
        set_root_enter split: if_splits)
  then show ?thesis using s1 by (metis boot_kept_root)
qed

lemma boot_allocpageref_from:
  assumes s: "boot_state s" and run: "allocpageref_from rs (km_enter s) = Inr (pr, t)"
  shows "\<exists>s'. t = km_enter s' \<and> boot_kept s s'"
  using run
proof (induction rs)
  case Nil
  then show ?case using s by (auto intro: boot_kept_refl)
next
  case (Cons r rs)
  show ?case
  proof (cases "allocpageref_from rs (km_enter s) = Inr (pr, t)")
    case True
    then show ?thesis by (rule Cons.IH)
  next
    case False
    from Cons.prems False obtain root u where u: "u = set_root r root s"
      and t: "t = km_enter u \<or> allocpagerefpage r (km_enter u) = Inr t"
      by (auto simp: Let_def set_root_enter sbind_eq_Inr_iff split: if_splits option.splits)
    have k: "boot_kept s u" using boot_kept_refl [OF s] by (simp add: u)
    from t show ?thesis
    proof
      assume "allocpagerefpage r (km_enter u) = Inr t"
      from boot_allocpagerefpage [OF boot_kept_state [OF k] this] show ?thesis using k by (metis boot_kept_trans)
    qed (use k in blast)
  qed
qed

lemma boot_rel_heap:
  assumes "boot_state s"
  shows "km_rel ((km_enter s)\<lparr>km_heap := h\<rparr>) = Inr (s\<lparr>km_heap := h\<rparr>)"
proof -
  have "boot_kept s (s\<lparr>km_heap := h\<rparr>)" using boot_kept_refl [OF assms] by simp
  from boot_km(2) [OF boot_kept_state [OF this]] show ?thesis by (simp add: km_enter_upd)
qed

lemma boot_subpage_fresh:
  assumes s: "boot_state s" and run: "subpage_fresh b (km_enter s) = Inr (p, s')"
  shows "boot_kept s s'"
proof -
  obtain prpage s1 where k: "alloc_kpages 1 s = Inr (prpage, s1)"
    using run boot_km(2) [OF s] by (auto simp: subpage_fresh_def sbind_eq_Inr_iff)
  have s1: "boot_kept s s1" using boot_alloc_kpages [OF s _ k] by simp
  note b = boot_kept_state [OF s1]
  show ?thesis
  proof (cases "prpage = 0")
    case True
    then show ?thesis using run s1 by (simp add: subpage_fresh_def boot_km [OF s] k)
  next
    case False
    then obtain pr t where t: "allocpageref (km_enter s1) = Inr (pr, t)"
      using run by (auto simp: subpage_fresh_def boot_km [OF s] boot_km [OF b] k kassert_def sbind_eq_Inr_iff
          split: if_splits)
    then obtain s2 where s2: "t = km_enter s2" "boot_kept s1 s2"
      using boot_allocpageref_from [OF b t [unfolded allocpageref_def]] by blast
    note b2 = boot_kept_state [OF s2(2)]
    have "s' = s2 \<or> (\<exists>h. s' = s2\<lparr>km_heap := h\<rparr>)"
      using run False s2(1) t
      by (auto simp: subpage_fresh_def boot_km [OF s] boot_km [OF b] boot_km [OF b2] boot_rel_heap [OF b2] k
          boot_free_kpages [OF b2] kassert_def sbind_eq_Inr_iff split: if_splits)
    then show ?thesis using boot_kept_trans [OF s1 s2(2)] by auto
  qed
qed

lemma boot_subpage_kmalloc:
  assumes s: "boot_state s" and run: "subpage_kmalloc sz s = Inr (p, s')"
  shows "boot_kept s s'"
proof -
  from run obtain b where "(\<exists>h. s' = s\<lparr>km_heap := h\<rparr>) \<or> subpage_fresh b (km_enter s) = Inr (p, s')"
    by (auto simp: subpage_kmalloc_def boot_km [OF s] boot_rel_heap [OF s] sbind_eq_Inr_iff split: if_splits)
  then show ?thesis
  proof
    assume "subpage_fresh b (km_enter s) = Inr (p, s')"
    then show ?thesis by (rule boot_subpage_fresh [OF s])
  qed (use boot_kept_refl [OF s] in auto)
qed

lemma boot_kmalloc:
  assumes s: "boot_state s" and sz: "unat sz \<le> 2 ^ 20" and run: "kmalloc sz s = Inr (p, s')"
  shows "boot_kept s s'"
proof (cases "sz \<ge> LARGEST_SUBPAGE_SIZE")
  case True
  let ?n = "(sz + PAGE_SIZE - 1) div PAGE_SIZE"
  have "sz + PAGE_SIZE - 1 = sz + 4095" by simp
  moreover have "unat (sz + 4095) = unat sz + 4095" using sz by (simp add: unat_add_lem [THEN iffD1])
  ultimately have n: "unat ?n < 2 ^ 19" using sz by (simp only: unat_div) simp
  obtain va where "alloc_kpages ?n s = Inr (va, s')"
    using run True by (auto simp: kmalloc_def kassert_def sbind_eq_Inr_iff split: if_splits)
  then show ?thesis by (rule boot_alloc_kpages [OF s n])
next
  case False
  then show ?thesis using run boot_subpage_kmalloc [OF s] by (simp add: kmalloc_def)
qed

interpretation kernel_boot: boot_allocator kmalloc boot_state
proof unfold_locales
  fix s :: "'a kheap_state_scheme" and n
  assume s: "boot_state s"
  then show "coremap_boot s" "boot_state (s\<lparr>nRamFrames := n\<rparr>)"
    by (simp_all add: boot_state_def coremap_boot_def cpu_ok_def ram_inv_def)
  fix sz p and s' :: "'a kheap_state_scheme"
  assume "unat sz \<le> 2 ^ 20" "kmalloc sz s = Inr (p, s')"
  from boot_kmalloc [OF s this]
  show "boot_state s' \<and> lastpaddr s' = lastpaddr s \<and> nRamFrames s' = nRamFrames s" by (simp add: boot_kept_def)
qed

section \<open>Properties\<close>

text \<open>A machine with 8 MB before the tables are set up, with an empty heap.\<close>

definition boot_sample :: kheap_state where
  "boot_sample = coremap_state.extend (coremap_sample\<lparr>lastpaddr := 0x800000\<rparr>)
     \<lparr>km_heap = \<lparr>kheaproots = replicate 16 \<lparr>kr_page = 0, pagerefs_inuse = replicate 8 0, numinuse = 0\<rparr>,
        sizebases = replicate 8 0, allbase = 0,
        refs = (\<lambda>_. \<lparr>next_samesize = 0, next_all = 0, pageaddr_and_blocktype = 0, freelist_offset = 0, nfree = 0\<rparr>),
        words = (\<lambda>_. 0)\<rparr>,
      kmalloc_spinlock = spinlock_init\<rparr>"

lemma boot_sample_state: "boot_state boot_sample"
  by (simp add: boot_state_def boot_sample_def coremap_boot_def coremap_sample_def ram_sample_def cpu_sample_def
      ram_inv_def cpu_ok_def coremap_state.extend_def ram_state.extend_def cpu_state.extend_def)

lemma boot_sample_up: "\<exists>s. coremap_bootstrap kmalloc boot_sample = Inr s"
  by (simp add: boot_sample_def coremap_sample_def ram_sample_def cpu_sample_def
      coremap_bootstrap_def kmalloc_def alloc_kpages_def vm_can_sleep_def getppages_def getfreeppages_def
      isTableActive_def steal_locked_def note_allocSize_def ram_stealmem_def ram_getsize_def lock_acq_def
      lock_rel_def spinlock_acquire_def spinlock_release_def spinlock_spin_def spinlock_init_def
      splraise_def spllower_def coremap_state.extend_def cpu_state.extend_def ram_state.extend_def Let_def
      signed_divide_int_def kassert_def PADDR_TO_KVADDR_def)

text \<open>C2: Let \<^verbatim>\<open>coremap_bootstrap\<close> return, run with the kernel's
  \<^verbatim>\<open>kmalloc\<close> on any heap, by a thread that holds no spinlock and is not in an interrupt
  handler, while the tables are not active, the memory, at most 512 MB, ends on a page boundary, and the watermark is
  in it. Then every sequence of requests for frames and returns of held frames, each request for at least one and
  fewer than \<open>2 ^ 19\<close> frames, runs without a panic, a failed assertion or an out-of-range access, and the
  regions that clients hold at the end are pairwise disjoint: no frame is handed out twice.\<close>

theorem coremap_frames_disjoint:
  assumes "boot_state s" and "coremap_bootstrap kmalloc s = Inr s1" and "list_all frame_op_ok ops"
  shows "\<exists>live s2. run_frames getppages freeppages ops [] s1 = Inr (live, s2) \<and>
    regions_disjoint live \<and> coremap_inv live s2"
  using coremap_alloc.run_inv [OF kernel_boot.bootstrap_inv [OF assms(1,2)] assms(3)]
    coremap_alloc.inv_disjoint by blast

theorem coremap_frames_disjoint_witness:
  "\<exists>s1 live s2. coremap_bootstrap kmalloc boot_sample = Inr s1 \<and>
    run_frames getppages freeppages [GetFrames 1, GetFrames 2, PutFrames 0, GetFrames 1, GetFrames 1] [] s1
      = Inr (live, s2) \<and> regions_disjoint live"
proof -
  obtain s1 where s1: "coremap_bootstrap kmalloc boot_sample = Inr s1" using boot_sample_up by blast
  from coremap_frames_disjoint [OF boot_sample_state s1,
      of "[GetFrames 1, GetFrames 2, PutFrames 0, GetFrames 1, GetFrames 1]"] s1
  show ?thesis by auto
qed

end
