(* ===== verification/Free_Bitmap.thy ===== *)
theory Free_Bitmap
  imports Spinlock
begin

text \<open>
  The map of free physical pages (\<^verbatim>\<open>kern/arch/mips/vm/free_bitmap.c\<close>), which the configuration compiles and nothing
  calls. The array is an argument list of states behind the static pointer; \<^verbatim>\<open>kmalloc\<close> and \<^verbatim>\<open>kfree\<close> are arguments. The
  lemmas give the effect of each operation; the search returns the last free page, not the first.
\<close>

section \<open>State and operations\<close>

datatype state_t = FREE | BUSY

record fb_state = cpu_state +
  next_bit :: "state_t list option"
  fb_length :: u32
  bitmap_lock :: spinlock

definition fb_upd :: "u32 \<Rightarrow> state_t \<Rightarrow> 'a fb_state_scheme \<Rightarrow> 'a fb_state_scheme kres" where
  "fb_upd i x s = (case next_bit s of
       None \<Rightarrow> Inl (Undefined ''free_pmem_bitmap'')
     | Some bits \<Rightarrow> if unat i < length bits then Inr (s\<lparr>next_bit := Some (bits[unat i := x])\<rparr>) else Inl (Undefined ''next_bit''))"

text \<open>\<open>kmalloc\<close> says whether it returned a block; \<open>mem\<close> is what the block of the array holds.\<close>

definition bitmap_init ::
  "(u32 \<Rightarrow> 'a fb_state_scheme \<Rightarrow> (bool \<times> 'a fb_state_scheme) kres) \<Rightarrow> u32 \<Rightarrow> (nat \<Rightarrow> state_t) \<Rightarrow> u32 \<Rightarrow> 'a fb_state_scheme \<Rightarrow> 'a fb_state_scheme kres" where
  "bitmap_init kmalloc struct_size mem len s =
     sbind (kmalloc struct_size s) (\<lambda>(ok, s).
     if \<not> ok then Inl (Undefined ''free_pmem_bitmap'')
     else sbind (kmalloc (4 * len) s) (\<lambda>(ok, s).
     let s = s\<lparr>next_bit := if ok then Some (map mem [0..<unat (4 * len) div 4]) else None,
               fb_length := len, bitmap_lock := spinlock_init\<rparr>
     in sbind (lock_acq bitmap_lock bitmap_lock_update s) (\<lambda>s.
        sbind (kfor [0..<unat len] (\<lambda>i. fb_upd (of_nat i) FREE) s) (\<lambda>s.
        lock_rel bitmap_lock bitmap_lock_update s))))"

definition bitmap_set_free :: "u32 \<Rightarrow> 'a fb_state_scheme \<Rightarrow> 'a fb_state_scheme kres" where
  "bitmap_set_free i s =
     sbind (lock_acq bitmap_lock bitmap_lock_update s) (\<lambda>s.
     sbind (fb_upd i FREE s) (\<lambda>s.
     lock_rel bitmap_lock bitmap_lock_update s))"

definition bitmap_set_busy :: "u32 \<Rightarrow> 'a fb_state_scheme \<Rightarrow> 'a fb_state_scheme kres" where
  "bitmap_set_busy i s =
     sbind (lock_acq bitmap_lock bitmap_lock_update s) (\<lambda>s.
     sbind (fb_upd i BUSY s) (\<lambda>s.
     lock_rel bitmap_lock bitmap_lock_update s))"

text \<open>The search: the body of the loop on the result and \<^verbatim>\<open>*first_free\<close>, and the whole.\<close>

definition find_step :: "state_t list option \<Rightarrow> nat \<Rightarrow> int \<times> u32 \<Rightarrow> (int \<times> u32) kres" where
  "find_step b i p = (case b of
       None \<Rightarrow> Inl (Undefined ''free_pmem_bitmap'')
     | Some bits \<Rightarrow> if i < length bits then Inr (if bits ! i = FREE then (0, of_nat i) else p) else Inl (Undefined ''next_bit''))"

definition bitmap_find_first_free :: "u32 \<Rightarrow> 'a fb_state_scheme \<Rightarrow> (int \<times> u32 \<times> 'a fb_state_scheme) kres" where
  "bitmap_find_first_free first_free s =
     sbind (lock_acq bitmap_lock bitmap_lock_update s) (\<lambda>s.
     sbind (kfor [0..<unat (fb_length s)] (find_step (next_bit s)) (- 1, first_free)) (\<lambda>(result, first_free).
     sbind (lock_rel bitmap_lock bitmap_lock_update s) (\<lambda>s. Inr (result, first_free, s))))"

text \<open>\<open>kfree\<close> gets the index of an element of the array, or none for the structure.\<close>

definition bitmap_destroy_mem :: "(nat option \<Rightarrow> 'a fb_state_scheme \<Rightarrow> 'a fb_state_scheme kres) \<Rightarrow> 'a fb_state_scheme \<Rightarrow> 'a fb_state_scheme kres" where
  "bitmap_destroy_mem kfree s =
     sbind (lock_acq bitmap_lock bitmap_lock_update s) (\<lambda>s.
     sbind (kfor [0..<unat (fb_length s)] (\<lambda>i. kfree (Some i)) s) (\<lambda>s.
     sbind (lock_rel bitmap_lock bitmap_lock_update s) (\<lambda>s.
     kfree None s)))"

section \<open>What they do\<close>

interpretation pmem_map: lock_field bitmap_lock bitmap_lock_update
  by unfold_locales (simp_all add: cpu_hold_def cpu_unhold_def)

definition fb_ok :: "'a fb_state_scheme \<Rightarrow> bool" where
  "fb_ok s \<longleftrightarrow> cpu_ok s \<and> bitmap_lock s = spinlock_init \<and> (\<exists>bits. next_bit s = Some bits \<and> length bits = unat (fb_length s))"

lemma enter_map: "next_bit (lock_enter bitmap_lock_update s) = next_bit s" "fb_length (lock_enter bitmap_lock_update s) = fb_length s"
  "(lock_enter bitmap_lock_update s)\<lparr>next_bit := b\<rparr> = lock_enter bitmap_lock_update (s\<lparr>next_bit := b\<rparr>)"
  by (simp_all add: lock_enter_def cpu_hold_def)

lemma cpu_ok_map: "cpu_ok (s\<lparr>next_bit := b\<rparr>) = cpu_ok s"
  by (simp add: cpu_ok_def)

text \<open>Marking a page changes that page and keeps the invariant.\<close>

lemma bitmap_set_ok:
  assumes "fb_ok s" "next_bit s = Some bits" "unat i < length bits"
  shows "bitmap_set_free i s = Inr (s\<lparr>next_bit := Some (bits[unat i := FREE])\<rparr>)" "bitmap_set_busy i s = Inr (s\<lparr>next_bit := Some (bits[unat i := BUSY])\<rparr>)"
    "fb_ok (s\<lparr>next_bit := Some (bits[unat i := x])\<rparr>)"
  using assms by (auto simp: bitmap_set_free_def bitmap_set_busy_def fb_ok_def pmem_map.acq fb_upd_def enter_map cpu_ok_map pmem_map.rel_enter)

text \<open>A map below \<open>2 ^ 30\<close> pages, whose array \<^verbatim>\<open>kmalloc\<close> can size, starts with every page free.\<close>

lemma bitmap_init_ok:
  assumes km: "kmalloc sz s = Inr (True, s1)" "kmalloc (4 * len) s1 = Inr (True, s2)" and s2: "cpu_ok s2" and len: "unat len < 2 ^ 30"
  shows "\<exists>s'. bitmap_init kmalloc sz mem len s = Inr s' \<and> fb_ok s' \<and> next_bit s' = Some (replicate (unat len) FREE) \<and> fb_length s' = len"
proof -
  define n where "n = unat len"
  have "unat (4 * len) = 4 * n" using len by (simp add: unat_word_ariths n_def)
  then have d: "unat (4 * len) div 4 = n" by simp
  define st where "st = (\<lambda>b. s2\<lparr>next_bit := Some b, fb_length := len, bitmap_lock := spinlock_init\<rparr>)"
  have ok: "cpu_ok (st b)" "bitmap_lock (st b) = spinlock_init" "next_bit (st b) = Some b" "fb_length (st b) = len" for b
    using s2 by (simp_all add: st_def cpu_ok_def)
  have sw: "(st b)\<lparr>next_bit := Some c\<rparr> = st c" for b c by (cases s2) (simp add: st_def)
  have "\<exists>s'. kfor [0..<n] (\<lambda>i. fb_upd (of_nat i) FREE) (lock_enter bitmap_lock_update (st (map mem [0..<n]))) = Inr s' \<and>
      s' = lock_enter bitmap_lock_update (st (replicate n FREE @ map mem [n..<n]))"
  proof (rule kfor_upt_invariant [where I = "\<lambda>i s'. s' = lock_enter bitmap_lock_update (st (replicate i FREE @ map mem [i..<n]))"], simp)
    fix i s' assume i: "i < n" and s': "s' = lock_enter bitmap_lock_update (st (replicate i FREE @ map mem [i..<n]))"
    have "unat (of_nat i :: u32) = i" using i len by (simp add: n_def unat_of_nat)
    moreover have "(replicate i FREE @ map mem [i..<n])[i := FREE] = replicate (Suc i) FREE @ map mem [Suc i..<n]"
      using i by (simp add: upt_conv_Cons list_update_append replicate_app_Cons_same)
    ultimately show "\<exists>s''. fb_upd (of_nat i) FREE s' = Inr s'' \<and> s'' = lock_enter bitmap_lock_update (st (replicate (Suc i) FREE @ map mem [Suc i..<n]))"
      using i by (simp add: fb_upd_def s' enter_map ok sw)
  qed
  then have "bitmap_init kmalloc sz mem len s = Inr (st (replicate n FREE))"
    using ok [of "map mem [0..<n]"] ok [of "replicate n FREE"]
    by (simp add: bitmap_init_def km d Let_def pmem_map.acq pmem_map.rel_enter st_def flip: n_def)
  then show ?thesis using ok [of "replicate n FREE"] by (auto simp: fb_ok_def n_def)
qed

text \<open>A page number outside the map is an access outside the array.\<close>

lemma bitmap_set_outside:
  assumes "fb_ok s" "unat (fb_length s) \<le> unat i"
  shows "bitmap_set_busy i s = Inl (Undefined ''next_bit'')"
  using assms by (auto simp: bitmap_set_busy_def fb_ok_def pmem_map.acq fb_upd_def enter_map)

text \<open>The loop has no \<^verbatim>\<open>break\<close>: the page reported is the last free one.\<close>

lemma find_loop:
  assumes "n \<le> length bits" "\<exists>i < n. bits ! i = FREE"
  shows "\<exists>i < n. bits ! i = FREE \<and> (\<forall>j. i < j \<and> j < n \<longrightarrow> bits ! j = BUSY) \<and> kfor [0..<n] (find_step (Some bits)) p = Inr (0, of_nat i)"
  using assms
proof (induction n)
  case (Suc n)
  have k: "kfor [0..<Suc n] (find_step (Some bits)) p = sbind (kfor [0..<n] (find_step (Some bits)) p) (find_step (Some bits) n)"
  proof -
    have "kfor [n] (find_step (Some bits)) q = find_step (Some bits) n q" for q by (cases "find_step (Some bits) n q") simp_all
    then have "kfor [n] (find_step (Some bits)) = find_step (Some bits) n" by (rule ext)
    then show ?thesis unfolding upt_Suc_append [OF le0] kfor_append by (simp only:)
  qed
  show ?case
  proof (cases "bits ! n = FREE")
    case True
    have "\<exists>q. kfor [0..<n] (find_step (Some bits)) p = Inr q \<and> True"
      by (rule kfor_upt_invariant) (use Suc.prems(1) in \<open>auto simp: find_step_def\<close>)
    then have "kfor [0..<Suc n] (find_step (Some bits)) p = Inr (0, of_nat n)" using True Suc.prems(1) unfolding k by (auto simp: find_step_def)
    then show ?thesis using True by (intro exI [of _ n]) auto
  next
    case False
    then have "\<exists>i < n. bits ! i = FREE" using Suc.prems(2) by (metis less_SucE)
    with Suc.IH Suc.prems(1) obtain i where
      i: "i < n" "bits ! i = FREE" "\<forall>j. i < j \<and> j < n \<longrightarrow> bits ! j = BUSY" "kfor [0..<n] (find_step (Some bits)) p = Inr (0, of_nat i)" by auto
    have "bits ! n = BUSY" using False by (cases "bits ! n") simp_all
    moreover have "find_step (Some bits) n q = Inr q" for q using False Suc.prems(1) by (simp add: find_step_def)
    ultimately show ?thesis using i by (intro exI [of _ i]) (auto simp: k less_Suc_eq simp del: upt_Suc)
  qed
qed simp

lemma bitmap_find_first_free_last:
  assumes "fb_ok s" "next_bit s = Some bits" "FREE \<in> set bits"
  shows "\<exists>i < length bits. bits ! i = FREE \<and> (\<forall>j. i < j \<and> j < length bits \<longrightarrow> bits ! j = BUSY) \<and>
    bitmap_find_first_free first_free s = Inr (0, of_nat i, s)"
proof -
  have s: "cpu_ok s" "bitmap_lock s = spinlock_init" "length bits = unat (fb_length s)" using assms(1,2) by (auto simp: fb_ok_def)
  have "\<exists>i < length bits. bits ! i = FREE" using assms(3) by (metis in_set_conv_nth)
  from find_loop [OF le_refl this, of "(- 1, first_free)"] show ?thesis
    by (auto simp: bitmap_find_first_free_def pmem_map.acq pmem_map.rel_enter enter_map s assms(2) simp flip: s(3))
qed

end
