(* ===== verification/Kern_Array.thy ===== *)
theory Kern_Array
  imports Kernel_Prelude
begin

text \<open>
  Resizable arrays of pointers (\<^verbatim>\<open>kern/lib/array.c\<close>, \<^verbatim>\<open>kern/include/array.h\<close>). An array implements a
  list, the contract \<open>pointer_list\<close>; the doubling loop of \<^verbatim>\<open>array_preallocate\<close> is shown to end for every
  size that its arithmetic can hold.
\<close>

section \<open>Operations\<close>

record karray =
  arr_v :: "u32 list"
  arr_num :: u32
  arr_max :: u32

definition array_init :: karray where
  "array_init = \<lparr>arr_v = [], arr_num = 0, arr_max = 0\<rparr>"

text \<open>The argument says whether \<^verbatim>\<open>kmalloc\<close> returns a block.\<close>

definition array_create :: "bool \<Rightarrow> karray option" where
  "array_create ok = (if ok then Some array_init else None)"

definition array_cleanup :: "karray \<Rightarrow> karray kres" where
  "array_cleanup a = kassert (arr_num a = 0) ''a->num == 0'' (Inr (a\<lparr>arr_v := []\<rparr>))"

definition array_num :: "karray \<Rightarrow> u32" where
  "array_num a = arr_num a"

abbreviation (input) ARRAY_INDEX :: kfail where "ARRAY_INDEX \<equiv> Undefined ''array index''"

definition array_get :: "karray \<Rightarrow> u32 \<Rightarrow> u32 kres" where
  "array_get a index =
     kassert (index < arr_num a) ''index < a->num'' (
     if unat index \<ge> length (arr_v a) then Inl ARRAY_INDEX else Inr (arr_v a ! unat index))"

definition array_set :: "karray \<Rightarrow> u32 \<Rightarrow> u32 \<Rightarrow> karray kres" where
  "array_set a index val =
     kassert (index < arr_num a) ''index < a->num'' (
     if unat index \<ge> length (arr_v a) then Inl ARRAY_INDEX else Inr (a\<lparr>arr_v := (arr_v a)[unat index := val]\<rparr>))"

text \<open>\<^verbatim>\<open>while (num > newmax) newmax = newmax ? newmax*2 : 4;\<close>; \<open>None\<close> stands for a loop without end.\<close>

partial_function (option) grow_max :: "u32 \<Rightarrow> u32 \<Rightarrow> u32 option" where
  "grow_max num newmax = (if num > newmax then grow_max num (if newmax \<noteq> 0 then newmax * 2 else 4) else Some newmax)"

text \<open>The first argument is \<^verbatim>\<open>kmalloc\<close>: from a size in bytes to a block of words with whatever it holds, or null.\<close>

definition array_preallocate :: "(u32 \<Rightarrow> u32 list option) \<Rightarrow> karray \<Rightarrow> u32 \<Rightarrow> (errno \<times> karray) kres option" where
  "array_preallocate kmalloc a num =
     (if num > arr_max a then
        case grow_max num (arr_max a) of
          None \<Rightarrow> None
        | Some newmax \<Rightarrow>
            (case kmalloc (newmax * 4) of
               None \<Rightarrow> Some (Inr (ENOMEM, a))
             | Some newptr \<Rightarrow>
                 let n = unat (arr_num a)
                 in if n > length newptr \<or> n > length (arr_v a) then Some (Inl ARRAY_INDEX)
                    else Some (Inr (0, a\<lparr>arr_v := take n (arr_v a) @ drop n newptr, arr_max := newmax\<rparr>)))
      else Some (Inr (0, a)))"

definition array_setsize :: "(u32 \<Rightarrow> u32 list option) \<Rightarrow> karray \<Rightarrow> u32 \<Rightarrow> (errno \<times> karray) kres option" where
  "array_setsize kmalloc a num =
     (case array_preallocate kmalloc a num of
        None \<Rightarrow> None
      | Some r \<Rightarrow> Some (sbind r (\<lambda>(result, a).
          if result \<noteq> 0 then Inr (result, a) else Inr (0, a\<lparr>arr_num := num\<rparr>))))"

definition array_add :: "(u32 \<Rightarrow> u32 list option) \<Rightarrow> karray \<Rightarrow> u32 \<Rightarrow> (errno \<times> u32 option \<times> karray) kres option" where
  "array_add kmalloc a val =
     (let index = arr_num a
      in case array_setsize kmalloc a (index + 1) of
           None \<Rightarrow> None
         | Some r \<Rightarrow> Some (sbind r (\<lambda>(ret, a).
             if ret \<noteq> 0 then Inr (ret, None, a)
             else if unat index \<ge> length (arr_v a) then Inl ARRAY_INDEX
             else Inr (0, Some index, a\<lparr>arr_v := (arr_v a)[unat index := val]\<rparr>))))"

definition array_remove :: "karray \<Rightarrow> u32 \<Rightarrow> karray kres" where
  "array_remove a index =
     kassert (arr_num a \<le> arr_max a) ''a->num <= a->max'' (
     kassert (index < arr_num a) ''index < a->num'' (
     let num_to_move = unat (arr_num a - (index + 1)); i = unat index; v = arr_v a
     in if i + 1 + num_to_move > length v then Inl ARRAY_INDEX
        else Inr (a\<lparr>arr_v := take i v @ take num_to_move (drop (i + 1) v) @ drop (i + num_to_move) v,
                   arr_num := arr_num a - 1\<rparr>)))"

section \<open>The contract of a list\<close>

locale pointer_list =
  fixes get :: "'a \<Rightarrow> u32 \<Rightarrow> u32 kres"
    and add :: "'e \<Rightarrow> 'a \<Rightarrow> u32 \<Rightarrow> (errno \<times> u32 option \<times> 'a) kres option"
    and remove :: "'a \<Rightarrow> u32 \<Rightarrow> 'a kres"
    and inv :: "'a \<Rightarrow> bool"
    and elems :: "'a \<Rightarrow> u32 list"
    and env :: "'e \<Rightarrow> bool"
    and cap :: nat
  assumes short: "inv a \<Longrightarrow> length (elems a) < 2 ^ 32"
    and get_nth: "inv a \<Longrightarrow> unat i < length (elems a) \<Longrightarrow> get a i = Inr (elems a ! unat i)"
    and add_snoc: "env e \<Longrightarrow> inv a \<Longrightarrow> length (elems a) < cap \<Longrightarrow>
      add e a v = Some (Inr (ENOMEM, None, a)) \<or>
      (\<exists>a'. add e a v = Some (Inr (0, Some (of_nat (length (elems a))), a')) \<and> inv a' \<and> elems a' = elems a @ [v])"
    and remove_drop: "inv a \<Longrightarrow> unat i < length (elems a) \<Longrightarrow>
      \<exists>a'. remove a i = Inr a' \<and> inv a' \<and> elems a' = take (unat i) (elems a) @ drop (Suc (unat i)) (elems a)"
begin

text \<open>An element that was added is found at the index returned for it, and taking it out again restores the list.\<close>

lemma add_get_remove:
  assumes "inv a" and "env e" "length (elems a) < cap" and "add e a v = Some (Inr (0, Some i, a'))"
  shows "get a' i = Inr v \<and> (\<exists>a''. remove a' i = Inr a'' \<and> elems a'' = elems a)"
proof -
  from add_snoc [OF assms(2,1,3), of v] assms(4) have i: "i = of_nat (length (elems a))" "inv a'" "elems a' = elems a @ [v]"
    by auto
  have "unat i = length (elems a)" using short [OF assms(1)] by (simp add: i(1) unat_of_nat)
  moreover from this obtain a'' where "remove a' i = Inr a''"
      "elems a'' = take (unat i) (elems a') @ drop (Suc (unat i)) (elems a')"
    using remove_drop [OF i(2), of i] i(3) by auto
  ultimately show ?thesis using get_nth [OF i(2), of i] i(3) by simp
qed

end

section \<open>The array implements the contract\<close>

definition arr_list :: "karray \<Rightarrow> u32 list" where
  "arr_list a = take (unat (arr_num a)) (arr_v a)"

definition array_inv :: "karray \<Rightarrow> bool" where
  "array_inv a \<longleftrightarrow> arr_num a \<le> arr_max a \<and> unat (arr_max a) \<le> length (arr_v a)"

text \<open>A block that \<^verbatim>\<open>kmalloc\<close> returns holds as many words as were asked for.\<close>

definition kmalloc_sized :: "(u32 \<Rightarrow> u32 list option) \<Rightarrow> bool" where
  "kmalloc_sized kmalloc \<longleftrightarrow> (\<forall>n block. kmalloc n = Some block \<longrightarrow> unat n div 4 \<le> length block)"

lemma grow_max_ends:
  assumes "unat num \<le> 2 ^ 31"
  shows "\<exists>r. grow_max num n = Some r \<and> num \<le> r \<and> (unat r \<le> 2 * unat num + 4 \<or> r = n)"
proof (induction "2 ^ 32 - unat n + (if n = 0 then 4 else 0)" arbitrary: n rule: less_induct)
  case less
  show ?case
  proof (cases "num > n")
    case False
    then show ?thesis by (subst grow_max.simps) simp
  next
    case True
    let ?n = "if n \<noteq> 0 then n * 2 else 4"
    have big: "unat n < unat num" using True by (simp add: word_less_nat_alt)
    have n2: "n \<noteq> 0 \<Longrightarrow> unat (n * 2) = 2 * unat n" using big assms by (subst unat_mult_lem [THEN iffD1]) simp_all
    have "0 < unat n" if "n \<noteq> 0" using that by (simp add: unat_gt_0)
    then have "\<exists>r. grow_max num ?n = Some r \<and> num \<le> r \<and> (unat r \<le> 2 * unat num + 4 \<or> r = ?n)"
      using n2 big assms by (intro less) (auto simp: unat_eq_zero)
    moreover have "unat ?n \<le> 2 * unat num + 4" using n2 big by auto
    ultimately show ?thesis using True by (subst grow_max.simps) auto
  qed
qed

lemma grow_max_power:
  assumes "grow_max num n = Some r"
  shows "n \<in> range ((^) 2) \<longrightarrow> num \<le> r \<and> r \<in> range ((^) 2)"
proof (rule grow_max.raw_induct [OF _ assms, where P = "\<lambda>num n r. n \<in> range ((^) 2) \<longrightarrow> num \<le> r \<and> r \<in> range ((^) 2)"])
  fix grow and num n r :: u32
  assume step: "\<And>num n r. grow num n = Some r \<Longrightarrow> n \<in> range ((^) 2) \<longrightarrow> num \<le> r \<and> r \<in> range ((^) 2)"
    and eq: "(if n < num then grow num (if n \<noteq> 0 then n * 2 else 4) else Some n) = Some r"
  have "(if n \<noteq> 0 then n * 2 else 4 :: u32) \<in> range ((^) 2)" if "n \<in> range ((^) 2)"
  proof (cases "n = 0")
    case True
    then show ?thesis using rangeI [of "(^) (2 :: u32)" 2] by simp
  next
    case False
    from that obtain k where "n = 2 ^ k" by blast
    then have "n * 2 = 2 ^ Suc k" by simp
    then show ?thesis using False by (metis rangeI)
  qed
  then show "n \<in> range ((^) 2) \<longrightarrow> num \<le> r \<and> r \<in> range ((^) 2)"
    using eq step [of num "if n \<noteq> 0 then n * 2 else 4" r] by (auto simp: not_less split: if_split_asm)
qed

text \<open>Beyond \<open>2\<^sup>3\<^sup>1\<close> elements the capacity, a power of two, wraps to zero before it is large enough, and
  the loop starts again.\<close>

lemma grow_max_diverges:
  assumes "2 ^ 31 < unat num"
  shows "grow_max num (2 ^ k) = None"
proof (rule ccontr)
  assume "grow_max num (2 ^ k) \<noteq> None"
  then obtain j where "num \<le> 2 ^ j" using grow_max_power [of num "2 ^ k"] by blast
  then have "unat num \<le> unat (2 ^ j :: u32)" by (simp add: word_le_nat_alt)
  also have "\<dots> \<le> 2 ^ 31"
  proof (cases "j < 32")
    case True
    have "unat (of_nat (2 ^ j) :: u32) = 2 ^ j"
      unfolding unat_of_nat using True power_strict_increasing [of j 32 "2 :: nat"] by simp
    then show ?thesis using True power_increasing [of j 31 "2 :: nat"] by simp
  next
    case False
    then have "(2 ^ 32 :: nat) dvd 2 ^ j" by (intro le_imp_power_dvd) simp
    then have "unat (of_nat (2 ^ j) :: u32) = 0" unfolding unat_of_nat by (simp add: dvd_eq_mod_eq_0)
    then show ?thesis by simp
  qed
  finally show False using assms by simp
qed

lemma array_num_less:
  assumes "array_inv a"
  shows "length (arr_list a) = unat (arr_num a)" "unat (arr_num a) \<le> length (arr_v a)"
  using assms by (auto simp: array_inv_def arr_list_def word_le_nat_alt)

lemma array_setsize_ok:
  assumes inv: "array_inv a" and k: "kmalloc_sized kmalloc" and num: "unat num \<le> 2 ^ 28" "arr_num a \<le> num"
  shows "array_setsize kmalloc a num = Some (Inr (ENOMEM, a)) \<or>
    (\<exists>a'. array_setsize kmalloc a num = Some (Inr (0, a')) \<and> array_inv a' \<and> arr_num a' = num \<and>
      take (unat (arr_num a)) (arr_v a') = arr_list a)"
proof (cases "num > arr_max a")
  case False
  then show ?thesis using inv
    by (auto simp: array_setsize_def array_preallocate_def array_inv_def arr_list_def)
next
  case True
  obtain r where r: "grow_max num (arr_max a) = Some r" "num \<le> r" "unat r \<le> 2 * unat num + 4"
    using grow_max_ends [of num "arr_max a"] num(1) True by auto
  show ?thesis
  proof (cases "kmalloc (r * 4)")
    case None
    then show ?thesis using True r by (simp add: array_setsize_def array_preallocate_def)
  next
    case (Some block)
    have "unat (r * 4) = unat r * 4" using r(3) num(1) by (subst unat_mult_lem [THEN iffD1]) simp_all
    then have len: "unat r \<le> length block" using k Some by (force simp: kmalloc_sized_def)
    have n: "unat (arr_num a) \<le> unat r" using num(2) r(2) by (simp add: word_le_nat_alt)
    then show ?thesis using True r Some len array_num_less [OF inv]
      by (simp add: array_setsize_def array_preallocate_def array_inv_def arr_list_def Let_def)
  qed
qed

lemma array_add_ok:
  assumes inv: "array_inv a" and k: "kmalloc_sized kmalloc" and num: "unat (arr_num a) < 2 ^ 28"
  shows "array_add kmalloc a v = Some (Inr (ENOMEM, None, a)) \<or>
    (\<exists>a'. array_add kmalloc a v = Some (Inr (0, Some (arr_num a), a')) \<and> array_inv a' \<and> arr_list a' = arr_list a @ [v])"
proof -
  let ?n = "unat (arr_num a)"
  have n: "unat (arr_num a + 1) = ?n + 1" using num by (subst unat_add_lem [THEN iffD1]) simp_all
  then have le: "unat (arr_num a + 1) \<le> 2 ^ 28" "arr_num a \<le> arr_num a + 1" using num by (simp_all add: word_le_nat_alt)
  from array_setsize_ok [OF inv k le] show ?thesis
  proof (elim disjE exE conjE)
    assume "array_setsize kmalloc a (arr_num a + 1) = Some (Inr (ENOMEM, a))"
    then show ?thesis by (simp add: array_add_def)
  next
    fix a' assume a': "array_setsize kmalloc a (arr_num a + 1) = Some (Inr (0, a'))" "array_inv a'"
      "arr_num a' = arr_num a + 1" "take ?n (arr_v a') = arr_list a"
    then have len: "?n < length (arr_v a')" using array_num_less(2) [OF a'(2)] n by simp
    then have "take (Suc ?n) ((arr_v a')[?n := v]) = arr_list a @ [v]"
      using a'(4) by (simp add: take_Suc_conv_app_nth)
    then show ?thesis using a' len n by (simp add: array_add_def array_inv_def arr_list_def Let_def)
  qed
qed

lemma array_remove_ok:
  assumes inv: "array_inv a" and i: "unat i < unat (arr_num a)"
  shows "\<exists>a'. array_remove a i = Inr a' \<and> array_inv a' \<and>
    arr_list a' = take (unat i) (arr_list a) @ drop (Suc (unat i)) (arr_list a)"
proof -
  let ?n = "unat (arr_num a)" let ?v = "arr_v a" let ?i = "unat i"
  have "?n < 2 ^ 32" using unsigned_less [of "arr_num a", where 'a = nat] by simp
  then have i1: "unat (i + 1) = ?i + 1" using i by (subst unat_add_lem [THEN iffD1]) simp_all
  then have "i + 1 \<le> arr_num a" using i by (simp add: word_le_nat_alt)
  then have mv: "unat (arr_num a - (i + 1)) = ?n - Suc ?i" using i1 by (simp add: unat_sub)
  have n1: "unat (arr_num a - 1) = ?n - 1" using i by (simp add: unat_sub word_le_nat_alt)
  note len = array_num_less [OF inv]
  define v' where "v' = take ?i ?v @ take (?n - Suc ?i) (drop (?i + 1) ?v) @ drop (?i + (?n - Suc ?i)) ?v"
  have "length v' = length ?v" using i len by (simp add: v'_def)
  moreover have "array_remove a i = Inr (a\<lparr>arr_v := v', arr_num := arr_num a - 1\<rparr>)"
    using inv i len mv by (simp add: array_remove_def array_inv_def word_less_nat_alt v'_def Let_def)
  moreover have "take (?n - 1) v' = take ?i (arr_list a) @ drop (Suc ?i) (arr_list a)"
    using i len by (simp add: v'_def arr_list_def drop_take min_absorb1)
  ultimately show ?thesis using inv n1 by (auto simp: array_inv_def arr_list_def word_le_nat_alt)
qed

interpretation words: pointer_list array_get array_add array_remove array_inv arr_list kmalloc_sized "2 ^ 28"
proof (unfold_locales, goal_cases)
  case (1 a)
  then show ?case using array_num_less [of a] unsigned_less [of "arr_num a", where 'a = nat] by simp
next
  case (2 a i)
  then show ?case using array_num_less [of a] by (simp add: array_get_def word_less_nat_alt arr_list_def)
next
  case (3 kmalloc a v)
  then show ?case using array_add_ok [of a kmalloc v] array_num_less(1) [of a] by simp
next
  case (4 a i)
  then show ?case using array_remove_ok [of a i] array_num_less(1) [of a] by simp
qed

section \<open>Adding an element\<close>

definition array_sample :: karray where
  "array_sample = \<lparr>arr_v = [10, 20, 30, 40], arr_num = 4, arr_max = 4\<rparr>"

text \<open>C28: Adding an element to an array of fewer than 2^28 elements ends: either ENOMEM comes back and the array is
  untouched, or the array holds the old elements followed by the new one, which array_get finds at the index
  returned; removing that index gives the old elements again.\<close>
theorem array_add_appends:
  assumes "array_inv a" and "kmalloc_sized kmalloc" and "unat (arr_num a) < 2 ^ 28"
  shows "array_add kmalloc a v = Some (Inr (ENOMEM, None, a)) \<or>
    (\<exists>i a' a''. array_add kmalloc a v = Some (Inr (0, Some i, a')) \<and> array_inv a' \<and> arr_list a' = arr_list a @ [v] \<and>
      array_get a' i = Inr v \<and> array_remove a' i = Inr a'' \<and> arr_list a'' = arr_list a)"
proof -
  have len: "length (arr_list a) < 2 ^ 28" using array_num_less(1) [OF assms(1)] assms(3) by simp
  from array_add_ok [OF assms] words.add_get_remove [OF assms(1,2) len, of v] show ?thesis by blast
qed

theorem array_add_appends_witness:
  "\<exists>i a'. array_add (\<lambda>n. Some (replicate (unat n div 4) 0)) array_sample 50 = Some (Inr (0, Some i, a')) \<and>
    arr_list a' = [10, 20, 30, 40, 50] \<and> array_get a' i = Inr 50"
proof -
  have "array_inv array_sample" by (simp add: array_inv_def array_sample_def)
  moreover have "grow_max 5 4 = Some 8" by (subst grow_max.simps, simp, subst grow_max.simps, simp)
  then have "array_add (\<lambda>n. Some (replicate (unat n div 4) 0)) array_sample 50 \<noteq> Some (Inr (ENOMEM, None, array_sample))"
    by (simp add: array_add_def array_setsize_def array_preallocate_def array_sample_def)
  ultimately show ?thesis
    using array_add_appends [of array_sample "\<lambda>n. Some (replicate (unat n div 4) 0)" 50]
    by (auto simp: kmalloc_sized_def array_sample_def arr_list_def)
qed

end
