(* ===== verification/Kheap.thy ===== *)
theory Kheap
  imports Kmalloc
begin

text \<open>
  Correctness of the kernel heap: the invariant that ties the lists of pages, the free lists, the pageref pages and
  the blocks in use together, its preservation by \<^verbatim>\<open>kmalloc\<close> and \<^verbatim>\<open>kfree\<close>, and the interpretation of the
  locale \<open>block_allocator\<close>, from which the properties of the heap follow.
\<close>

section \<open>The pages of the heap\<close>

definition heap_pages :: "kheap \<Rightarrow> vaddr list \<Rightarrow> (vaddr \<Rightarrow> nat list) \<Rightarrow> bool" where
  "heap_pages h prs F \<longleftrightarrow> distinct prs \<and> chain (\<lambda>p. next_all (refs h p)) (allbase h) prs \<and> length (sizebases h) = NSIZES \<and>
     (\<forall>b < NSIZES. chain (\<lambda>p. next_samesize (refs h p)) (sizebases h ! b) (filter (\<lambda>pr. unat (PR_BLOCKTYPE (refs h pr)) = b) prs)) \<and>
     (\<forall>pr \<in> set prs. free_list (refs h pr) (F pr) (words h))"

text \<open>A change of the free list of one page.\<close>

lemma heap_pages_ref:
  assumes hp: "heap_pages h prs F"
    and p: "next_samesize p = next_samesize (refs h pr)" "next_all p = next_all (refs h pr)"
      "pageaddr_and_blocktype p = pageaddr_and_blocktype (refs h pr)"
    and fl: "free_list p fl w" "\<And>q. q \<in> set prs \<Longrightarrow> q \<noteq> pr \<Longrightarrow> free_list (refs h q) (F q) w"
  shows "heap_pages (h\<lparr>refs := (refs h)(pr := p), words := w\<rparr>) prs (F(pr := fl))"
proof -
  have "(\<lambda>q. next_all (((refs h)(pr := p)) q)) = (\<lambda>q. next_all (refs h q))"
    "(\<lambda>q. next_samesize (((refs h)(pr := p)) q)) = (\<lambda>q. next_samesize (refs h q))"
    "(\<lambda>q. PR_BLOCKTYPE (((refs h)(pr := p)) q)) = (\<lambda>q. PR_BLOCKTYPE (refs h q))"
    using p by (auto simp: fun_eq_iff PR_BLOCKTYPE_def)
  then show ?thesis using hp fl by (simp add: heap_pages_def fun_eq_iff)
qed

lemma ucast_of_nat:
  assumes "x < 2 ^ LENGTH('a)"
  shows "ucast (of_nat x :: 'a::len word) = (of_nat x :: 'b::len word)"
proof -
  have "unat (of_nat x :: 'a word) = x" using assms by (simp add: unat_of_nat)
  then have "(of_nat (unat (of_nat x :: 'a word)) :: 'b word) = of_nat x" by (simp only:)
  then show ?thesis by (simp only: of_nat_unat)
qed

lemma doalloc_ok:
  assumes fl: "free_list (refs h pr) (x # xs) (words h)" and base: "PR_PAGEADDR (refs h pr) = kaddr f" "f < 131072"
  shows "\<exists>p. doalloc pr h = Inr (kaddr f + of_nat x, h\<lparr>refs := (refs h)(pr := p)\<rparr>) \<and> free_list p xs (words h) \<and>
    next_samesize p = next_samesize (refs h pr) \<and> next_all p = next_all (refs h pr) \<and>
    pageaddr_and_blocktype p = pageaddr_and_blocktype (refs h pr)"
proof -
  let ?p = "refs h pr"
  have x: "x < 4096" "freelist_offset ?p = of_nat x" using fl by (simp_all add: free_list_def)
  then have off: "unat (freelist_offset ?p) = x" "(ucast (freelist_offset ?p) :: u32) = of_nat x"
    using ucast_of_nat [of x, where 'a = 16 and 'b = 32] by (simp_all add: unat_of_nat)
  have nf: "unat (nfree ?p) = Suc (length xs)" using fl by (simp add: free_list_def)
  then have "unat (nfree ?p - 1) = length xs" by (subst unat_minus_one) auto
  note n = this
  show ?thesis
  proof (cases xs)
    case Nil
    let ?q = "?p\<lparr>nfree := nfree ?p - 1, freelist_offset := INVALID_OFFSET\<rparr>"
    have w: "words h (kaddr f + of_nat x) = 0" using fl Nil base by (simp add: free_list_def)
    have "nfree ?p - 1 = 0" using n Nil by (simp add: unat_eq_0)
    then have "doalloc pr h = Inr (kaddr f + of_nat x, h\<lparr>refs := (refs h)(pr := ?q)\<rparr>)"
      using x(1) off base w by (simp add: doalloc_def Let_def)
    moreover have "free_list ?q xs (words h)" using fl Nil n by (simp add: free_list_def PR_BLOCKTYPE_def)
    ultimately show ?thesis by (intro exI [of _ ?q]) simp
  next
    case (Cons y ys)
    let ?q = "?p\<lparr>nfree := nfree ?p - 1, freelist_offset := of_nat y\<rparr>"
    have y: "y < 4096" using fl Cons by (simp add: free_list_def)
    have w: "words h (kaddr f + of_nat x) = kaddr f + of_nat y" using fl Cons base by (simp add: free_list_def)
    have "unat (kaddr f + of_nat y) \<noteq> 0" using unat_kaddr [of f] base(2) y by (simp add: unat_word_ariths unat_of_nat)
    then have "kaddr f + of_nat y \<noteq> 0" by (metis unat_0)
    moreover have "nfree ?p - 1 > 0" using n Cons by (simp add: word_less_nat_alt)
    moreover have "(of_nat y :: u32) < 4096" using y by (simp add: word_less_nat_alt unat_of_nat)
    moreover have "(ucast (of_nat y :: u32) :: u16) = of_nat y" using y ucast_of_nat [of y, where 'a = 32 and 'b = 16] by simp
    ultimately have "doalloc pr h = Inr (kaddr f + of_nat x, h\<lparr>refs := (refs h)(pr := ?q)\<rparr>)"
      using x(1) off base w by (simp add: doalloc_def Let_def)
    moreover have "free_list ?q xs (words h)" using fl Cons n by (simp add: free_list_def PR_BLOCKTYPE_def PR_PAGEADDR_def blocksize_def)
    ultimately show ?thesis by (intro exI [of _ ?q]) simp
  qed
qed

lemma page_offset_inj:
  assumes "kaddr f + of_nat x = kaddr g + of_nat y" and "f < 131072" "g < 131072" "x < 4096" "y < 4096"
  shows "f = g \<and> x = y"
proof -
  have "unat (kaddr f + of_nat x) = 2 ^ 31 + f * 4096 + x" "unat (kaddr g + of_nat y) = 2 ^ 31 + g * 4096 + y"
    using unat_kaddr [of f] unat_kaddr [of g] assms(2-5) by (simp_all add: unat_word_ariths unat_of_nat)
  then have "2 ^ 31 + f * 4096 + x = 2 ^ 31 + g * 4096 + y" using assms(1) by metis
  then have sum: "f * 4096 + x = g * 4096 + y" by linarith
  moreover have "(f * 4096 + x) div 4096 = f" "(g * 4096 + y) div 4096 = g" using assms(4,5) by simp_all
  ultimately show ?thesis by auto
qed

lemma MKPAB_parts:
  assumes "f < 131072" and "b < NSIZES"
  shows "MKPAB (kaddr f) (of_nat b) AND PAGE_FRAME = kaddr f" "MKPAB (kaddr f) (of_nat b) AND NOT PAGE_FRAME = of_nat b"
proof -
  have "MKPAB (kaddr f) (of_nat b) AND PAGE_FRAME = kaddr f AND PAGE_FRAME"
    "MKPAB (kaddr f) (of_nat b) AND NOT PAGE_FRAME = of_nat b AND NOT PAGE_FRAME"
    unfolding MKPAB_def page_frame_mask by (rule bit_word_eqI, auto simp: bit_simps)+
  moreover have "(of_nat b AND NOT PAGE_FRAME :: u32) = of_nat b"
    using assms(2) by (simp only: word_unat_eq_iff unat_page_offset) (simp add: unat_of_nat)
  ultimately show "MKPAB (kaddr f) (of_nat b) AND PAGE_FRAME = kaddr f" "MKPAB (kaddr f) (of_nat b) AND NOT PAGE_FRAME = of_nat b"
    using kaddr_page(3) [of f] assms(1) by simp_all
qed

lemma linked_thread:
  assumes f: "f < 131072" and sz: "0 < sz" and m: "0 < m" "m * sz \<le> 4096"
  shows "linked (fold (\<lambda>i w. w(kaddr f + of_nat (i * sz) := kaddr f + of_nat ((i - 1) * sz))) [1..<m] (w(kaddr f := 0)))
    (kaddr f) (rev (map (\<lambda>i. i * sz) [0..<m]))"
  using m
proof (induction m rule: nat_induct_non_zero)
  case 1
  then show ?case by simp
next
  case (Suc m)
  define W where "W = fold (\<lambda>i w. w(kaddr f + of_nat (i * sz) := kaddr f + of_nat ((i - 1) * sz))) [1..<m] (w(kaddr f := 0))"
  have msz: "m * sz < 4096" "m * sz \<le> 4096" using Suc.prems sz by simp_all
  have ne: "kaddr f + of_nat (i * sz) \<noteq> kaddr f + of_nat (m * sz)" if "i < m" for i
    using page_offset_inj [of f "i * sz" f "m * sz"] f msz that sz by (metis less_trans mult_less_cancel2 nat_neq_iff)
  define W2 where "W2 = W(kaddr f + of_nat (m * sz) := kaddr f + of_nat ((m - 1) * sz))"
  define L where "L = rev (map (\<lambda>i. i * sz) [0..<m])"
  have "linked W2 (kaddr f) L = linked W (kaddr f) L"
    unfolding W2_def L_def using ne by (intro free_linked_cong) (auto simp del: of_nat_mult)
  then have old: "linked W2 (kaddr f) L" using Suc.IH [OF msz(2)] by (simp only: W_def L_def)
  have "L = (m - 1) * sz # rev (map (\<lambda>i. i * sz) [0..<m - 1])" unfolding L_def using Suc.hyps by (cases m) simp_all
  then have "W2 (kaddr f + of_nat (m * sz)) = (case L of [] \<Rightarrow> 0 | y # ys \<Rightarrow> kaddr f + of_nat y)" by (simp only: W2_def list.case fun_upd_same)
  with old have "linked W2 (kaddr f) (m * sz # L)" by (simp only: linked.simps simp_thms)
  moreover have "fold (\<lambda>i w. w(kaddr f + of_nat (i * sz) := kaddr f + of_nat ((i - 1) * sz))) [1..<Suc m] (w(kaddr f := 0)) = W2"
    using Suc.hyps by (simp add: W_def W2_def)
  moreover have "rev (map (\<lambda>i. i * sz) [0..<Suc m]) = m * sz # L" by (simp add: L_def)
  ultimately show ?case by (simp only:)
qed

lemma fold_upd_other:
  "(\<And>i. i \<in> set is \<Longrightarrow> g i \<noteq> a) \<Longrightarrow> fold (\<lambda>i w. w(g i := v i)) is w a = w a"
  by (induction "is" arbitrary: w) auto

lemma new_page_eq:
  assumes f: "f < 131072" and b: "b < NSIZES"
  shows "new_page (kaddr f) b pr h = Inr (h\<lparr>
    words := fold (\<lambda>i w. w(kaddr f + of_nat (i * sizes ! b) := kaddr f + of_nat ((i - 1) * sizes ! b))) [1..<4096 div sizes ! b] ((words h)(kaddr f := 0)),
    refs := (refs h)(pr := \<lparr>next_samesize = sizebases h ! b, next_all = allbase h, pageaddr_and_blocktype = MKPAB (kaddr f) (of_nat b),
      freelist_offset = of_nat ((4096 div sizes ! b - 1) * sizes ! b), nfree = of_nat (4096 div sizes ! b)\<rparr>),
    sizebases := (sizebases h)[b := pr], allbase := pr\<rparr>)"
proof -
  let ?sz = "sizes ! b" and ?n = "4096 div sizes ! b"
  have sz: "16 \<le> ?sz" "?sz dvd 4096" "?sz \<le> 2048" using sizes_pos [OF b] by simp_all
  have bound: "i * ?sz < 4096" if "i < ?n" for i using that sz less_eq_div_iff_mult_less_eq [of ?sz "Suc i" 4096] by simp
  have "thread_block (kaddr f) ?sz i w = Inr (w(kaddr f + of_nat (i * ?sz) := kaddr f + of_nat ((i - 1) * ?sz)))"
    if "i \<in> set [1..<?n]" for i w
  proof -
    have i: "i * ?sz < 4096" "(i - 1) * ?sz < 4096" "i * ?sz \<noteq> (i - 1) * ?sz" using that bound [of i] bound [of "i - 1"] sz by auto
    have "kaddr f + of_nat (i * ?sz) \<noteq> kaddr f + of_nat ((i - 1) * ?sz)" using page_offset_inj [OF _ f f i(1,2)] i(3) by blast
    then show ?thesis by (simp add: thread_block_def Let_def)
  qed
  then have "kfor [1..<?n] (thread_block (kaddr f) ?sz) ((words h)(kaddr f := 0)) =
      Inr (fold (\<lambda>i w. w(kaddr f + of_nat (i * ?sz) := kaddr f + of_nat ((i - 1) * ?sz))) [1..<?n] ((words h)(kaddr f := 0)))"
    by (rule kfor_pure)
  moreover have "(?n - 1) * ?sz < 4096" using bound [of "?n - 1"] sz by (simp add: div_greater_zero_iff)
  then have "unat (of_nat ((?n - 1) * ?sz) :: u16) = (?n - 1) * ?sz" by (simp only: unat_of_nat) simp
  ultimately show ?thesis unfolding new_page_def by (simp only: Let_def sbind.simps kassert_True simp_thms)
qed

definition all_blocks :: "nat \<Rightarrow> nat list" where
  "all_blocks sz = rev (map (\<lambda>i. i * sz) [0..<4096 div sz])"

lemma all_blocks_set: "0 < sz \<Longrightarrow> sz dvd 4096 \<Longrightarrow> set (all_blocks sz) = {x. x < 4096 \<and> sz dvd x}"
proof -
  assume sz: "0 < sz" "sz dvd 4096"
  have "x \<in> (\<lambda>i. i * sz) ` {0..<4096 div sz}" if "x < 4096" "sz dvd x" for x
    using that sz by (intro image_eqI [of _ _ "x div sz"]) (simp_all add: div_less_mono)
  moreover have "i * sz < 4096" if "i < 4096 div sz" for i using that sz less_eq_div_iff_mult_less_eq [of sz "Suc i" 4096] by simp
  ultimately show ?thesis by (auto simp: all_blocks_def)
qed

lemma free_list_all:
  assumes f: "f < 131072" and b: "b < NSIZES"
    and w: "w = fold (\<lambda>i w. w(kaddr f + of_nat (i * sizes ! b) := kaddr f + of_nat ((i - 1) * sizes ! b))) [1..<4096 div sizes ! b] (w0(kaddr f := 0))"
  shows "free_list \<lparr>next_samesize = ns, next_all = na, pageaddr_and_blocktype = MKPAB (kaddr f) (of_nat b),
    freelist_offset = of_nat ((4096 div sizes ! b - 1) * sizes ! b), nfree = of_nat (4096 div sizes ! b)\<rparr> (all_blocks (sizes ! b)) w"
    (is "free_list ?p _ _")
proof -
  let ?sz = "sizes ! b" and ?n = "4096 div sizes ! b"
  have sz: "16 \<le> ?sz" "?sz dvd 4096" "?sz \<le> 2048" "0 < ?sz" using sizes_pos [OF b] by simp_all
  have n: "0 < ?n" "?n \<le> 256" "?n * ?sz \<le> 4096" using sz div_le_mono2 [of 16 ?sz 4096] by (simp_all add: div_greater_zero_iff)
  have type: "unat (PR_BLOCKTYPE ?p) = b" "blocksize ?p = ?sz" "PR_PAGEADDR ?p = kaddr f"
    using MKPAB_parts [OF f b] b by (simp_all add: PR_BLOCKTYPE_def PR_PAGEADDR_def blocksize_def unat_of_nat)
  have "distinct (all_blocks ?sz)" using sz by (auto simp: all_blocks_def distinct_map inj_on_def)
  moreover have "unat (of_nat ?n :: u16) = length (all_blocks ?sz)" using n(2) by (simp add: all_blocks_def unat_of_nat)
  moreover obtain m where m: "?n = Suc m" using n(1) gr0_implies_Suc by blast
  then have "(case all_blocks ?sz of [] \<Rightarrow> INVALID_OFFSET | x # xs \<Rightarrow> of_nat x) = (of_nat ((?n - 1) * ?sz) :: u16)" by (simp only: all_blocks_def) simp
  moreover have "linked w (kaddr f) (all_blocks ?sz)" unfolding w all_blocks_def by (rule linked_thread [OF f sz(4) n(1,3)])
  ultimately show ?thesis using b type all_blocks_set [OF sz(4,2)] by (simp add: free_list_def)
qed

lemma new_page_ok:
  assumes f: "f < 131072" and b: "b < NSIZES" and hp: "heap_pages h prs F" and pr: "pr \<notin> set prs" "pr \<noteq> 0"
    and other: "\<And>q. q \<in> set prs \<Longrightarrow> \<exists>g < 131072. PR_PAGEADDR (refs h q) = kaddr g \<and> g \<noteq> f"
  shows "\<exists>h'. new_page (kaddr f) b pr h = Inr h' \<and> heap_pages h' (pr # prs) (F(pr := all_blocks (sizes ! b))) \<and>
    kheaproots h' = kheaproots h \<and> PR_PAGEADDR (refs h' pr) = kaddr f \<and> blocksize (refs h' pr) = sizes ! b \<and> (\<forall>q. q \<noteq> pr \<longrightarrow> refs h' q = refs h q) \<and>
    (\<forall>a. (\<forall>x < 4096. a \<noteq> kaddr f + of_nat x) \<longrightarrow> words h' a = words h a)"
proof -
  let ?sz = "sizes ! b" and ?n = "4096 div sizes ! b"
  have sz: "0 < ?sz" "?sz dvd 4096" using sizes_pos [OF b] by simp_all
  define w where "w = fold (\<lambda>i w. w(kaddr f + of_nat (i * ?sz) := kaddr f + of_nat ((i - 1) * ?sz))) [1..<?n] ((words h)(kaddr f := 0))"
  define p where "p = \<lparr>next_samesize = sizebases h ! b, next_all = allbase h, pageaddr_and_blocktype = MKPAB (kaddr f) (of_nat b),
      freelist_offset = of_nat ((?n - 1) * ?sz), nfree = of_nat ?n\<rparr>"
  define h' where "h' = h\<lparr>words := w, refs := (refs h)(pr := p), sizebases := (sizebases h)[b := pr], allbase := pr\<rparr>"
  have eq: "new_page (kaddr f) b pr h = Inr h'" unfolding h'_def w_def p_def by (rule new_page_eq [OF f b])
  have type: "unat (PR_BLOCKTYPE p) = b" "PR_PAGEADDR p = kaddr f" "blocksize p = ?sz"
    using MKPAB_parts [OF f b] b by (simp_all add: p_def PR_BLOCKTYPE_def PR_PAGEADDR_def blocksize_def unat_of_nat)
  have words: "w a = words h a" if "\<forall>x < 4096. a \<noteq> kaddr f + of_nat x" for a
  proof -
    have "i * ?sz < 4096" if "i < ?n" for i using that sz less_eq_div_iff_mult_less_eq [of ?sz "Suc i" 4096] by simp
    then have "w a = ((words h)(kaddr f := 0)) a" unfolding w_def using that by (intro fold_upd_other) (auto simp del: of_nat_mult)
    moreover have "a \<noteq> kaddr f" using that [rule_format, of 0] by simp
    ultimately show ?thesis by simp
  qed
  have fl: "free_list (refs h q) (F q) w" if q: "q \<in> set prs" for q
  proof -
    obtain g where g: "g < 131072" "PR_PAGEADDR (refs h q) = kaddr g" "g \<noteq> f" using other [OF q] by blast
    have old: "free_list (refs h q) (F q) (words h)" using hp q by (simp add: heap_pages_def)
    have "w (kaddr g + of_nat x) = words h (kaddr g + of_nat x)" if "x \<in> set (F q)" for x
    proof (rule words, intro allI impI)
      fix y assume "y < (4096 :: nat)"
      moreover have "x < 4096" using old that by (simp add: free_list_def)
      ultimately show "kaddr g + of_nat x \<noteq> kaddr f + of_nat y" using page_offset_inj [OF _ g(1) f] g(3) by blast
    qed
    then have "linked w (kaddr g) (F q) = linked (words h) (kaddr g) (F q)" by (rule free_linked_cong)
    then show ?thesis using old g(2) by (simp add: free_list_def)
  qed
  have chains: "chain (\<lambda>q. g (((refs h)(pr := p)) q)) a xs = chain (\<lambda>q. g (refs h q)) a xs" if "set xs \<subseteq> set prs" for g a xs
    using that pr(1) by (intro chain_cong) auto
  have filt: "filter (\<lambda>q. unat (PR_BLOCKTYPE (((refs h)(pr := p)) q)) = c) prs = filter (\<lambda>q. unat (PR_BLOCKTYPE (refs h q)) = c) prs" for c
    using pr(1) by (intro filter_cong) auto
  have len: "length (sizebases h) = 8" using hp by (simp add: heap_pages_def)
  have "chain (\<lambda>q. next_samesize (refs h' q)) (sizebases h' ! c) (filter (\<lambda>q. unat (PR_BLOCKTYPE (refs h' q)) = c) (pr # prs))" if "c < 8" for c
  proof -
    have "chain (\<lambda>q. next_samesize (refs h q)) (sizebases h ! c) (filter (\<lambda>q. unat (PR_BLOCKTYPE (refs h q)) = c) prs)"
      using hp that by (simp add: heap_pages_def)
    then have "chain (\<lambda>q. next_samesize (((refs h)(pr := p)) q)) (sizebases h ! c) (filter (\<lambda>q. unat (PR_BLOCKTYPE (refs h q)) = c) prs)"
      by (subst chains) auto
    moreover have "next_samesize p = sizebases h ! b" by (simp add: p_def)
    ultimately show ?thesis using type(1) filt [of c] b len pr(2) that by (auto simp: h'_def nth_list_update simp del: fun_upd_apply) simp_all
  qed
  moreover have "chain (\<lambda>q. next_all (refs h q)) (allbase h) prs" using hp by (simp add: heap_pages_def)
  then have "chain (\<lambda>q. next_all (refs h' q)) (allbase h') (pr # prs)" using pr chains [of prs next_all] by (simp add: h'_def p_def)
  moreover have "free_list p (all_blocks ?sz) w" unfolding p_def by (rule free_list_all [OF f b w_def])
  ultimately have "heap_pages h' (pr # prs) (F(pr := all_blocks ?sz))" using pr hp fl len by (auto simp: heap_pages_def h'_def)
  then show ?thesis using eq type words by (intro exI [of _ h']) (auto simp: h'_def)
qed

lemma multiples_apart:
  assumes "sz dvd x" and "sz dvd y" and "x \<noteq> y" and "d < sz"
  shows "y \<noteq> x + (d :: nat)"
proof
  assume y: "y = x + d"
  then have "sz dvd d" using assms(1,2) dvd_add_right_iff by blast
  then have "d = 0" using assms(4) by (auto dest: dvd_imp_le)
  then show False using y assms(3) by simp
qed

lemma block_end:
  assumes "x < 4096" and "sz dvd x" and "sz dvd (4096 :: nat)"
  shows "x + sz \<le> 4096"
proof -
  have "sz dvd 4096 - x" using assms by (intro dvd_diff_nat)
  then have "sz \<le> 4096 - x" using assms(1) by (intro dvd_imp_le) simp_all
  then show ?thesis using assms(1) by linarith
qed

lemma fill_deadbeef_words:
  assumes "\<And>d. d < len \<Longrightarrow> a \<noteq> kaddr f + of_nat (x + d)"
  shows "words (fill_deadbeef (kaddr f + of_nat x) len h) a = words h a"
proof -
  have "kaddr f + of_nat x + 4 * of_nat i \<noteq> a" if "i < len div 4" for i
  proof -
    have "4 * i < len" using that by linarith
    then have "a \<noteq> kaddr f + of_nat (x + 4 * i)" by (rule assms)
    then show ?thesis by (simp add: add.assoc eq_commute)
  qed
  then have "fold (\<lambda>i w. w(kaddr f + of_nat x + 4 * of_nat i := 0xdeadbeef)) [0..<len div 4] (words h) a = words h a"
    by (intro fold_upd_other) simp
  then show ?thesis by (simp add: fill_deadbeef_def)
qed

lemma put_block_ok:
  assumes hp: "heap_pages h prs F" and pr: "pr \<in> set prs" and base: "PR_PAGEADDR (refs h pr) = kaddr f" "f < 131072"
    and other: "\<And>q. q \<in> set prs \<Longrightarrow> q \<noteq> pr \<Longrightarrow> \<exists>g < 131072. PR_PAGEADDR (refs h q) = kaddr g \<and> g \<noteq> f"
    and x: "x < 4096" "blocksize (refs h pr) dvd x" "x \<notin> set (F pr)"
  defines "sz \<equiv> blocksize (refs h pr)"
  shows "\<exists>h'. put_block pr (of_nat x) (fill_deadbeef (kaddr f + of_nat x) sz h) = Inr h' \<and> heap_pages h' prs (F(pr := x # F pr)) \<and>
    kheaproots h' = kheaproots h \<and> (\<forall>q. pageaddr_and_blocktype (refs h' q) = pageaddr_and_blocktype (refs h q)) \<and>
    unat (nfree (refs h' pr)) = Suc (length (F pr)) \<and> (\<forall>a. (\<forall>d < sz. a \<noteq> kaddr f + of_nat (x + d)) \<longrightarrow> words h' a = words h a)"
proof -
  let ?p = "refs h pr" and ?fl = "F pr" and ?h = "fill_deadbeef (kaddr f + of_nat x) sz h"
  have fl: "free_list ?p ?fl (words h)" using hp pr by (simp add: heap_pages_def)
  have sz: "0 < sz" "sz dvd 4096" "16 \<le> sz" using fl sizes_pos [of "unat (PR_BLOCKTYPE ?p)"] by (simp_all add: sz_def blocksize_def free_list_def)
  have small: "y < 4096" "sz dvd y" if "y \<in> set ?fl" for y using fl that by (simp_all add: free_list_def sz_def)
  define nxt where "nxt = (case ?fl of [] \<Rightarrow> 0 | y # ys \<Rightarrow> kaddr f + of_nat y)"
  define p where "p = ?p\<lparr>freelist_offset := of_nat x, nfree := nfree ?p + 1\<rparr>"
  define w where "w = (words ?h)(kaddr f + of_nat x := nxt)"
  have refs: "refs ?h = refs h" "sizebases ?h = sizebases h" "allbase ?h = allbase h" "kheaproots ?h = kheaproots h" by (simp_all add: fill_deadbeef_def)
  have xoff: "(ucast (of_nat x :: u32) :: u16) = of_nat x" using ucast_of_nat [of x, where 'a = 32 and 'b = 16] x(1) by simp
  have eq: "put_block pr (of_nat x) ?h = Inr (?h\<lparr>words := w, refs := (refs h)(pr := p)\<rparr>)"
  proof (cases ?fl)
    case Nil
    then show ?thesis using fl base by (simp add: put_block_def free_list_def refs Let_def xoff p_def w_def nxt_def)
  next
    case (Cons y ys)
    have y: "y < 4096" "y \<noteq> x" using small(1) [of y] x(3) Cons by auto
    have off: "freelist_offset ?p = of_nat y" using fl Cons by (simp add: free_list_def)
    have "unat (of_nat y :: u16) = y" using y(1) by (simp add: unat_of_nat)
    moreover have "unat (0xffff :: u16) = 65535" by simp
    ultimately have "(of_nat y :: u16) \<noteq> 0xffff" using y(1) by auto
    moreover have "(ucast (of_nat y :: u16) :: u32) = of_nat y" using ucast_of_nat [of y, where 'a = 16 and 'b = 32] y(1) by simp
    moreover have "kaddr f + of_nat x \<noteq> kaddr f + of_nat y" using page_offset_inj [OF _ base(2,2) x(1) y(1)] y(2) by blast
    ultimately show ?thesis using base Cons by (simp add: put_block_def off refs Let_def xoff p_def w_def nxt_def)
  qed
  have words: "w a = words h a" if "\<forall>d < sz. a \<noteq> kaddr f + of_nat (x + d)" for a
  proof -
    have "a \<noteq> kaddr f + of_nat x" using that sz(1) by (metis add.right_neutral)
    then have "w a = words ?h a" by (simp add: w_def)
    then show ?thesis using fill_deadbeef_words [of sz a f x h] that by simp
  qed
  have keep: "w (kaddr f + of_nat y) = words h (kaddr f + of_nat y)" if "y \<in> set ?fl" for y
  proof (rule words, intro allI impI)
    fix d assume d: "d < sz"
    have "x + sz \<le> 4096" using x(1,2) sz(2) by (intro block_end) (simp_all add: sz_def)
    then have "x + d < 4096" using d by simp
    moreover have "x \<noteq> y" using x(3) that by blast
    then have "y \<noteq> x + d" by (rule multiples_apart [OF x(2) [folded sz_def] small(2) [OF that] _ d])
    ultimately show "kaddr f + of_nat y \<noteq> kaddr f + of_nat (x + d)" using page_offset_inj [OF _ base(2,2) small(1) [OF that]] by blast
  qed
  have "length ?fl \<le> 256" using free_list_length [OF fl] sz(3) div_le_mono2 [of 16 sz 4096] by (simp add: sz_def)
  then have nf: "unat (nfree ?p + 1) = Suc (length ?fl)" using fl by (simp add: free_list_def unat_word_ariths)
  have "linked w (kaddr f) ?fl" using free_linked_cong [of ?fl w "kaddr f" "words h"] keep fl base by (simp add: free_list_def)
  moreover have "w (kaddr f + of_nat x) = nxt" by (simp add: w_def)
  ultimately have flx: "free_list p (x # ?fl) w" using fl x nf base
    by (simp add: free_list_def p_def PR_BLOCKTYPE_def PR_PAGEADDR_def blocksize_def nxt_def)
  have "heap_pages (h\<lparr>refs := (refs h)(pr := p), words := w\<rparr>) prs (F(pr := x # ?fl))"
  proof (rule heap_pages_ref [OF hp _ _ _ flx])
    fix q assume q: "q \<in> set prs" "q \<noteq> pr"
    obtain g where g: "g < 131072" "PR_PAGEADDR (refs h q) = kaddr g" "g \<noteq> f" using other [OF q] by blast
    have old: "free_list (refs h q) (F q) (words h)" using hp q by (simp add: heap_pages_def)
    have "w (kaddr g + of_nat y) = words h (kaddr g + of_nat y)" if "y \<in> set (F q)" for y
    proof (rule words, intro allI impI)
      fix d assume "d < sz"
      moreover have "x + sz \<le> 4096" using x(1,2) sz(2) by (intro block_end) (simp_all add: sz_def)
      ultimately have "x + d < 4096" by simp
      moreover have "y < 4096" using old that by (simp add: free_list_def)
      ultimately show "kaddr g + of_nat y \<noteq> kaddr f + of_nat (x + d)" using page_offset_inj [OF _ g(1) base(2)] g(3) by blast
    qed
    then have "linked w (kaddr g) (F q) = linked (words h) (kaddr g) (F q)" by (rule free_linked_cong)
    then show "free_list (refs h q) (F q) w" using old g(2) by (simp add: free_list_def)
  qed (simp_all add: p_def)
  then show ?thesis using eq nf words refs by (intro exI [of _ "?h\<lparr>words := w, refs := (refs h)(pr := p)\<rparr>"]) (simp add: p_def heap_pages_def)
qed

lemma free_list_links [simp]:
  "free_list (p\<lparr>next_samesize := n\<rparr>) fl w = free_list p fl w" "free_list (p\<lparr>next_all := n\<rparr>) fl w = free_list p fl w"
  by (simp_all add: free_list_def PR_BLOCKTYPE_def PR_PAGEADDR_def blocksize_def)

lemma type_links [simp]:
  "PR_BLOCKTYPE (p\<lparr>next_samesize := n\<rparr>) = PR_BLOCKTYPE p" "PR_BLOCKTYPE (p\<lparr>next_all := n\<rparr>) = PR_BLOCKTYPE p"
  by (simp_all add: PR_BLOCKTYPE_def)

lemma remove_samesize:
  assumes hp: "heap_pages h (ys @ pr # zs) F" and b: "b = unat (PR_BLOCKTYPE (refs h pr))"
  shows "\<exists>guy h1. loop_result (find_link (\<lambda>p. next_samesize (refs h p)) pr None (sizebases h ! b)) = Inr guy \<and>
    h1 = (case guy of None \<Rightarrow> h | Some None \<Rightarrow> h\<lparr>sizebases := (sizebases h)[b := next_samesize (refs h pr)]\<rparr>
      | Some (Some q) \<Rightarrow> h\<lparr>refs := (refs h)(q := (refs h q)\<lparr>next_samesize := next_samesize (refs h pr)\<rparr>)\<rparr>) \<and>
    length (sizebases h1) = NSIZES \<and> allbase h1 = allbase h \<and> kheaproots h1 = kheaproots h \<and> words h1 = words h \<and>
    (\<forall>q. \<exists>n. refs h1 q = (refs h q)\<lparr>next_samesize := n\<rparr>) \<and>
    (\<forall>c < NSIZES. chain (\<lambda>p. next_samesize (refs h1 p)) (sizebases h1 ! c) (filter (\<lambda>q. unat (PR_BLOCKTYPE (refs h q)) = c) (ys @ zs)))"
proof -
  let ?ns = "\<lambda>p. next_samesize (refs h p)" and ?P = "\<lambda>c q. unat (PR_BLOCKTYPE (refs h q)) = c"
  let ?fs = "filter (?P b) ys"
  have d: "distinct (ys @ pr # zs)" and len: "length (sizebases h) = 8" using hp by (simp_all add: heap_pages_def)
  have "free_list (refs h pr) (F pr) (words h)" using hp by (simp add: heap_pages_def)
  then have b8: "b < 8" by (simp add: b free_list_def)
  have ch: "chain ?ns (sizebases h ! c) (filter (?P c) (ys @ pr # zs))" if "c < 8" for c using hp that by (simp add: heap_pages_def)
  have chb: "chain ?ns (sizebases h ! b) (?fs @ pr # filter (?P b) zs)" using ch [OF b8] b by simp
  have link: "find_link ?ns pr None (sizebases h ! b) = Some (Inr (Some (if ?fs = [] then None else Some (last ?fs))))"
    using d by (intro find_link_chain [OF chb]) auto
  show ?thesis
  proof (cases "?fs = []")
    case True
    let ?h1 = "h\<lparr>sizebases := (sizebases h)[b := next_samesize (refs h pr)]\<rparr>"
    have "chain ?ns (sizebases ?h1 ! c) (filter (?P c) (ys @ zs))" if "c < 8" for c
    proof (cases "c = b")
      case True
      then show ?thesis using chain_from [OF chb] \<open>?fs = []\<close> len b8 by simp
    next
      case False
      then show ?thesis using ch [OF that] b by simp
    qed
    moreover have "\<exists>n. refs h q = (refs h q)\<lparr>next_samesize := n\<rparr>" for q by (rule exI [of _ "next_samesize (refs h q)"]) simp
    ultimately show ?thesis using link True len by (intro exI [of _ "Some None"] exI [of _ ?h1]) (simp add: loop_result_def)
  next
    case False
    let ?q = "last ?fs"
    let ?h1 = "h\<lparr>refs := (refs h)(?q := (refs h ?q)\<lparr>next_samesize := next_samesize (refs h pr)\<rparr>)\<rparr>"
    have q: "?q \<in> set ys" "?P b ?q" using last_in_set [OF False] by auto
    have ns: "(\<lambda>p. next_samesize (refs ?h1 p)) = ?ns(?q := ?ns pr)" by auto
    have "chain (?ns(?q := ?ns pr)) (sizebases h ! c) (filter (?P c) (ys @ zs))" if "c < 8" for c
    proof (cases "c = b")
      case True
      have "distinct (?fs @ pr # filter (?P b) zs)" using d by auto
      from chain_unlink [OF chb this False] show ?thesis using True by simp
    next
      case c: False
      have "chain (?ns(?q := ?ns pr)) (sizebases h ! c) (filter (?P c) (ys @ zs)) = chain ?ns (sizebases h ! c) (filter (?P c) (ys @ zs))"
        using c q by (intro chain_cong) auto
      then show ?thesis using ch [OF that] b c by simp
    qed
    then have "\<forall>c < 8. chain (\<lambda>p. next_samesize (refs ?h1 p)) (sizebases ?h1 ! c) (filter (?P c) (ys @ zs))" unfolding ns by simp
    moreover have "\<exists>n. refs ?h1 p = (refs h p)\<lparr>next_samesize := n\<rparr>" for p
      by (cases "p = ?q") (auto intro: exI [of _ "next_samesize (refs h p)"])
    ultimately show ?thesis using link False len by (intro exI [of _ "Some (Some ?q)"] exI [of _ ?h1]) (simp add: loop_result_def del: fun_upd_apply)
  qed
qed

lemma remove_lists_ok:
  assumes hp: "heap_pages h prs F" and pr: "pr \<in> set prs" and b: "b = unat (PR_BLOCKTYPE (refs h pr))"
  shows "\<exists>h'. remove_lists pr b h = Inr h' \<and> heap_pages h' (remove1 pr prs) F \<and> kheaproots h' = kheaproots h \<and> words h' = words h \<and>
    (\<forall>q. pageaddr_and_blocktype (refs h' q) = pageaddr_and_blocktype (refs h q))"
proof -
  obtain ys zs where prs: "prs = ys @ pr # zs" "pr \<notin> set ys" using split_list_first [OF pr] by blast
  have hp': "heap_pages h (ys @ pr # zs) F" using hp prs(1) by simp
  from remove_samesize [OF hp' b] obtain guy h1 where
    g: "loop_result (find_link (\<lambda>p. next_samesize (refs h p)) pr None (sizebases h ! b)) = Inr guy"
      "h1 = (case guy of None \<Rightarrow> h | Some None \<Rightarrow> h\<lparr>sizebases := (sizebases h)[b := next_samesize (refs h pr)]\<rparr>
        | Some (Some q) \<Rightarrow> h\<lparr>refs := (refs h)(q := (refs h q)\<lparr>next_samesize := next_samesize (refs h pr)\<rparr>)\<rparr>)"
    and h1: "length (sizebases h1) = 8" "allbase h1 = allbase h" "kheaproots h1 = kheaproots h" "words h1 = words h"
    and links: "\<And>q. \<exists>n. refs h1 q = (refs h q)\<lparr>next_samesize := n\<rparr>"
    and ch: "\<And>c. c < 8 \<Longrightarrow> chain (\<lambda>p. next_samesize (refs h1 p)) (sizebases h1 ! c) (filter (\<lambda>q. unat (PR_BLOCKTYPE (refs h q)) = c) (ys @ zs))"
    by blast
  have d: "distinct (ys @ pr # zs)" using hp' by (simp add: heap_pages_def)
  have same: "next_all (refs h1 q) = next_all (refs h q)" "PR_BLOCKTYPE (refs h1 q) = PR_BLOCKTYPE (refs h q)"
    "pageaddr_and_blocktype (refs h1 q) = pageaddr_and_blocktype (refs h q)" "free_list (refs h1 q) fl w = free_list (refs h q) fl w" for q fl w
    using links [of q] by auto
  have b8: "b < 8" using hp' by (auto simp: b heap_pages_def free_list_def)
  have all: "chain (\<lambda>p. next_all (refs h1 p)) (allbase h1) (ys @ pr # zs)" using hp' by (simp add: heap_pages_def same h1(2))
  have link: "loop_result (find_link (\<lambda>p. next_all (refs h1 p)) pr None (allbase h1)) = Inr (Some (if ys = [] then None else Some (last ys)))"
    using find_link_chain [OF all prs(2)] by (simp add: loop_result_def)
  have rm: "remove1 pr prs = ys @ zs" using prs by (simp add: remove1_append)
  have fl: "\<forall>q \<in> set (ys @ zs). free_list (refs h1 q) (F q) (words h1)" using hp' by (auto simp: heap_pages_def same h1(4))
  show ?thesis
  proof (cases "ys = []")
    case True
    let ?h = "h1\<lparr>allbase := next_all (refs h1 pr)\<rparr>"
    have "remove_lists pr b h = Inr ?h" using b8 g link True by (simp add: remove_lists_def g(2) [symmetric])
    moreover have "heap_pages ?h (ys @ zs) F" using d h1(1) chain_from [OF all] True ch fl by (simp add: heap_pages_def same)
    ultimately show ?thesis using h1 same rm by (intro exI [of _ ?h]) simp
  next
    case False
    let ?q = "last ys"
    let ?h = "h1\<lparr>refs := (refs h1)(?q := (refs h1 ?q)\<lparr>next_all := next_all (refs h1 pr)\<rparr>)\<rparr>"
    have na: "(\<lambda>p. next_all (refs ?h p)) = (\<lambda>p. next_all (refs h1 p))(?q := next_all (refs h1 pr))" by auto
    have ns: "(\<lambda>p. next_samesize (refs ?h p)) = (\<lambda>p. next_samesize (refs h1 p))" "(\<lambda>p. PR_BLOCKTYPE (refs ?h p)) = (\<lambda>p. PR_BLOCKTYPE (refs h p))"
      by (auto simp: same)
    have "remove_lists pr b h = Inr ?h" using b8 g link False by (simp add: remove_lists_def g(2) [symmetric])
    moreover have "heap_pages ?h (ys @ zs) F"
      unfolding heap_pages_def na ns fun_cong [OF ns(2)] using d h1(1) ch fl chain_unlink [OF all d False] by (simp add: h1(2))
    ultimately show ?thesis using h1 same rm by (intro exI [of _ ?h]) simp
  qed
qed

section \<open>The blocks in use\<close>

text \<open>A block \<open>(a, n)\<close>, where \<open>n\<close> bytes were asked for: a block of a heap page that is not on the page's free list, or a
  run of pages.\<close>

definition block_ok :: "kheap \<Rightarrow> vaddr list \<Rightarrow> (vaddr \<Rightarrow> nat list) \<Rightarrow> (vaddr \<times> nat) list \<Rightarrow> vaddr \<times> nat \<Rightarrow> bool" where
  "block_ok h prs F ex b \<longleftrightarrow>
     (\<exists>pr \<in> set prs. \<exists>x < 4096. blocksize (refs h pr) dvd x \<and> x \<notin> set (F pr) \<and> snd b \<le> blocksize (refs h pr) \<and>
        fst b = PR_PAGEADDR (refs h pr) + of_nat x) \<or>
     (\<exists>m. (fst b, m) \<in> set ex \<and> snd b \<le> m * 4096)"

definition heap_core :: "nat \<Rightarrow> (vaddr \<times> nat) list \<Rightarrow> (nat \<times> nat) list \<Rightarrow> vaddr list \<Rightarrow> (vaddr \<Rightarrow> nat list) \<Rightarrow> (vaddr \<times> nat) list \<Rightarrow>
    kheap \<Rightarrow> bool" where
  "heap_core k blocks live prs F ex h \<longleftrightarrow> heap_pages h prs F \<and> heap_roots k h prs \<and> heap_frames h prs ex live \<and>
     distinct (map fst blocks) \<and> (\<forall>b \<in> set blocks. block_ok h prs F ex b)"

definition heap_inv :: "nat \<Rightarrow> (vaddr \<times> nat) list \<Rightarrow> 'a kheap_state_scheme \<Rightarrow> bool" where
  "heap_inv k blocks s \<longleftrightarrow> (\<exists>live prs F ex. page_state live s \<and> heap_core k blocks live prs F ex (km_heap s))"

text \<open>The addresses of a block.\<close>

definition block_addrs :: "vaddr \<times> nat \<Rightarrow> nat set" where
  "block_addrs b = {unat (fst b)..<unat (fst b) + snd b}"

lemma regions_disjoint_mem:
  "regions_disjoint live \<Longrightarrow> r \<in> set live \<Longrightarrow> q \<in> set live \<Longrightarrow> r \<noteq> q \<Longrightarrow> region r \<inter> region q = {}"
  by (induction live) auto

lemma runs_apart:
  assumes ps: "page_state live s" and r: "(f, m) \<in> set live" "(g, l) \<in> set live" "f \<noteq> g" and x: "x < m * 4096" and y: "y < l * 4096"
  shows "f * 4096 + x \<noteq> g * 4096 + y"
proof
  assume eq: "f * 4096 + x = g * 4096 + y"
  have "region (f, m) \<inter> region (g, l) = {}" using ps r by (intro regions_disjoint_mem [of live]) (auto simp: page_state_def coremap_inv_def)
  moreover have "(f * 4096 + x) div 4096 = f + x div 4096" "(g * 4096 + y) div 4096 = g + y div 4096" by simp_all
  then have "f + x div 4096 = g + y div 4096" using eq by simp
  moreover have "x div 4096 < m" "y div 4096 < l" using x y by (simp_all add: div_less_iff_less_mult)
  ultimately show False by (metis Int_iff add_less_cancel_left atLeastLessThan_iff empty_iff le_add1 region.simps)
qed

lemma page_of:
  assumes "page_state live s" and "heap_frames h prs ex live" and "pr \<in> set prs"
  obtains f where "(f, 1) \<in> set live" "f < 131072" "PR_PAGEADDR (refs h pr) = kaddr f"
proof -
  have "\<exists>f. (f, 1) \<in> set live \<and> PR_PAGEADDR (refs h pr) = kaddr f" using assms(2,3) unfolding heap_frames_def own_pages_def by auto
  then obtain f where f: "(f, 1) \<in> set live" "PR_PAGEADDR (refs h pr) = kaddr f" by blast
  then show thesis using that live_bounds [OF assms(1) f(1)] by simp
qed

lemma pages_differ:
  "heap_frames h prs ex live \<Longrightarrow> pr \<in> set prs \<Longrightarrow> q \<in> set prs \<Longrightarrow> q \<noteq> pr \<Longrightarrow> PR_PAGEADDR (refs h q) \<noteq> PR_PAGEADDR (refs h pr)"
  by (auto simp: heap_frames_def own_pages_def distinct_map inj_on_def)

lemma ex_differ:
  "heap_frames h prs ex live \<Longrightarrow> pr \<in> set prs \<Longrightarrow> (a, m) \<in> set ex \<Longrightarrow> PR_PAGEADDR (refs h pr) \<noteq> a"
  unfolding heap_frames_def own_pages_def distinct_append by (metis (no_types, lifting) UnI1 disjoint_iff fst_conv image_eqI list.set_map set_append)

text \<open>A block lies inside one run of pages.\<close>

lemma block_run:
  assumes ps: "page_state live s" and hp: "heap_pages h prs F" and fr: "heap_frames h prs ex live" and b: "block_ok h prs F ex b"
  obtains f m x where "(f, m) \<in> set live" "fst b = kaddr f + of_nat x" "x + snd b \<le> m * 4096" "x < m * 4096"
    "(\<exists>pr \<in> set prs. m = 1 \<and> PR_PAGEADDR (refs h pr) = kaddr f \<and> blocksize (refs h pr) dvd x \<and> snd b \<le> blocksize (refs h pr)) \<or> (x = 0 \<and> (kaddr f, m) \<in> set ex)"
  using b unfolding block_ok_def
proof (elim disjE bexE exE conjE)
  fix pr x assume pr: "pr \<in> set prs" "x < 4096" "blocksize (refs h pr) dvd x" "snd b \<le> blocksize (refs h pr)"
    "fst b = PR_PAGEADDR (refs h pr) + of_nat x"
  have "free_list (refs h pr) (F pr) (words h)" using hp pr(1) by (simp add: heap_pages_def)
  then have "blocksize (refs h pr) dvd 4096" using sizes_pos [of "unat (PR_BLOCKTYPE (refs h pr))"] by (simp add: blocksize_def free_list_def)
  then have last: "x + snd b \<le> 4096" using block_end [OF pr(2,3)] pr(4) by simp
  obtain f where f: "(f, 1) \<in> set live" "PR_PAGEADDR (refs h pr) = kaddr f" using page_of [OF ps fr pr(1)] by metis
  show thesis using that [OF f(1), of x] f(2) last pr by auto
next
  fix m assume m: "(fst b, m) \<in> set ex" "snd b \<le> m * 4096"
  then obtain f where f: "(f, m) \<in> set live" "fst b = kaddr f" using fr by (auto simp: heap_frames_def)
  then show thesis using that [OF f(1), of 0] m live_bounds [OF ps f(1)] by simp
qed

lemma unat_block:
  assumes "page_state live s" and "(f, m) \<in> set live" and "x + n \<le> m * 4096" and "x < m * 4096" and "d < n"
  shows "unat (kaddr f + of_nat x) = 2 ^ 31 + f * 4096 + x" "unat (kaddr f + of_nat x + of_nat d) = 2 ^ 31 + f * 4096 + x + d"
  using unat_in_page [OF assms(1,2), of x] unat_in_page [OF assms(1,2), of "x + d"] assms(3-5) by (simp_all add: add.assoc)

lemma addrs_apart:
  assumes ps: "page_state live s" and f: "(f, m) \<in> set live" "fst b = kaddr f + of_nat x" "x + snd b \<le> m * 4096" "x < m * 4096"
    and g: "(g, l) \<in> set live" "fst c = kaddr g + of_nat y" "y + snd c \<le> l * 4096" "y < l * 4096" and ne: "f \<noteq> g"
  shows "block_addrs b \<inter> block_addrs c = {}"
proof (rule equals0I)
  fix z assume z: "z \<in> block_addrs b \<inter> block_addrs c"
  have u: "unat (fst b) = 2147483648 + f * 4096 + x" "unat (fst c) = 2147483648 + g * 4096 + y"
    using unat_in_page [OF ps f(1,4)] unat_in_page [OF ps g(1,4)] f(2) g(2) by simp_all
  have "unat (fst b) \<le> z" "unat (fst c) \<le> z" using z by (simp_all add: block_addrs_def)
  then obtain d e where de: "z = unat (fst b) + d" "z = unat (fst c) + e" by (meson le_Suc_ex)
  then have d: "z = 2147483648 + f * 4096 + x + d" "d < snd b" and e: "z = 2147483648 + g * 4096 + y + e" "e < snd c"
    using z unfolding block_addrs_def Int_iff atLeastLessThan_iff u by linarith+
  have "f * 4096 + (x + d) \<noteq> g * 4096 + (y + e)" using d(2) e(2) f(3) g(3) by (intro runs_apart [OF ps f(1) g(1) ne]) simp_all
  then show False using d(1) e(1) by linarith
qed

lemma blocks_apart:
  assumes ps: "page_state live s" and core: "heap_core k blocks live prs F ex h" and b: "b \<in> set blocks" "c \<in> set blocks" "b \<noteq> c"
  shows "block_addrs b \<inter> block_addrs c = {}"
proof -
  have hp: "heap_pages h prs F" and fr: "heap_frames h prs ex live"
    and ok: "block_ok h prs F ex b" "block_ok h prs F ex c" using core b by (simp_all add: heap_core_def)
  have ne: "fst b \<noteq> fst c" using core b by (auto simp: heap_core_def distinct_map inj_on_def)
  obtain f m x where f: "(f, m) \<in> set live" "fst b = kaddr f + of_nat x" "x + snd b \<le> m * 4096" "x < m * 4096"
    and fw: "(\<exists>pr \<in> set prs. m = 1 \<and> PR_PAGEADDR (refs h pr) = kaddr f \<and> blocksize (refs h pr) dvd x \<and> snd b \<le> blocksize (refs h pr)) \<or> (x = 0 \<and> (kaddr f, m) \<in> set ex)"
    by (rule block_run [OF ps hp fr ok(1)])
  obtain g l y where g: "(g, l) \<in> set live" "fst c = kaddr g + of_nat y" "y + snd c \<le> l * 4096" "y < l * 4096"
    and gw: "(\<exists>pr \<in> set prs. l = 1 \<and> PR_PAGEADDR (refs h pr) = kaddr g \<and> blocksize (refs h pr) dvd y \<and> snd c \<le> blocksize (refs h pr)) \<or> (y = 0 \<and> (kaddr g, l) \<in> set ex)"
    by (rule block_run [OF ps hp fr ok(2)])
  show ?thesis
  proof (cases "f = g")
    case False
    show ?thesis by (rule addrs_apart [OF ps f g False])
  next
    case True
    have "x \<noteq> y" using ne f(2) g(2) True by auto
    then obtain pr q where pr: "pr \<in> set prs" "PR_PAGEADDR (refs h pr) = kaddr f" "blocksize (refs h pr) dvd x" "snd b \<le> blocksize (refs h pr)"
      and q: "q \<in> set prs" "PR_PAGEADDR (refs h q) = kaddr f" "blocksize (refs h q) dvd y" "snd c \<le> blocksize (refs h q)"
      using fw gw True ex_differ [OF fr] by metis
    have "q = pr" using pages_differ [OF fr pr(1) q(1)] pr(2) q(2) by metis
    define sz where "sz = blocksize (refs h pr)"
    have sz: "sz dvd x" "sz dvd y" "snd b \<le> sz" "snd c \<le> sz" using pr q \<open>q = pr\<close> by (simp_all add: sz_def)
    have "unat (fst b) = 2147483648 + f * 4096 + x" "unat (fst c) = 2147483648 + f * 4096 + y"
      using unat_in_page [OF ps f(1,4)] unat_in_page [OF ps g(1,4)] f(2) g(2) True by simp_all
    moreover have "x + snd b \<le> y \<or> y + snd c \<le> x"
    proof (cases "x < y")
      case True
      have "\<not> y < x + sz" using multiples_apart [OF sz(1,2) \<open>x \<noteq> y\<close>, of "y - x"] True by (cases "y - x < sz") auto
      then show ?thesis using sz(3) by simp
    next
      case False
      have "\<not> x < y + sz" using multiples_apart [OF sz(2,1) \<open>x \<noteq> y\<close> [symmetric], of "x - y"] False by (cases "x - y < sz") auto
      then show ?thesis using sz(4) by simp
    qed
    ultimately show ?thesis by (auto simp: block_addrs_def)
  qed
qed

lemma frames_cong:
  assumes "\<And>q. q \<in> set prs \<Longrightarrow> PR_PAGEADDR (refs h' q) = PR_PAGEADDR (refs h q)" and "map kr_page (kheaproots h') = map kr_page (kheaproots h)"
  shows "heap_frames h' prs ex live = heap_frames h prs ex live"
proof -
  have "own_pages h' prs = own_pages h prs" using assms by (simp add: own_pages_def)
  then show ?thesis by (simp add: heap_frames_def)
qed

lemma roots_cong: "kheaproots h' = kheaproots h \<Longrightarrow> heap_roots k h' prs = heap_roots k h prs"
  by (simp add: heap_roots_def)

lemma page_block_fresh:
  assumes ps: "page_state live s" and core: "heap_core k blocks live prs F ex h" and pr: "pr \<in> set prs" and x: "x < 4096" "x \<in> set (F pr)"
  shows "PR_PAGEADDR (refs h pr) + of_nat x \<notin> fst ` set blocks"
proof
  have fr: "heap_frames h prs ex live" using core by (simp add: heap_core_def)
  obtain f where f: "(f, 1) \<in> set live" "f < 131072" "PR_PAGEADDR (refs h pr) = kaddr f" by (rule page_of [OF ps fr pr])
  assume "PR_PAGEADDR (refs h pr) + of_nat x \<in> fst ` set blocks"
  then obtain b where b: "b \<in> set blocks" "fst b = kaddr f + of_nat x" using f(3) by auto
  then have "block_ok h prs F ex b" using core by (simp add: heap_core_def)
  then show False unfolding block_ok_def
  proof (elim disjE bexE exE conjE)
    fix q y assume q: "q \<in> set prs" "y < 4096" "y \<notin> set (F q)" "fst b = PR_PAGEADDR (refs h q) + of_nat y"
    obtain g where g: "g < 131072" "PR_PAGEADDR (refs h q) = kaddr g" using page_of [OF ps fr q(1)] by metis
    have "f = g \<and> x = y" using b(2) q(4) g(2) by (intro page_offset_inj [OF _ f(2) g(1) x(1) q(2)]) simp
    then have "q = pr" using pages_differ [OF fr pr q(1)] f(3) g(2) by auto
    then show False using q(3) x(2) \<open>f = g \<and> x = y\<close> by simp
  next
    fix m assume m: "(fst b, m) \<in> set ex"
    then obtain g where g: "(g, m) \<in> set live" "fst b = kaddr g" using fr by (auto simp: heap_frames_def)
    have "g < 131072" using live_bounds [OF ps g(1)] by simp
    then have "f = g \<and> x = 0" using b(2) g(2) by (intro page_offset_inj [OF _ f(2) _ x(1)]) simp_all
    then show False using ex_differ [OF fr pr m] f(3) g(2) by simp
  qed
qed

lemma take_block:
  assumes ps: "page_state live s" and core: "heap_core k blocks live prs F ex h" and pr: "pr \<in> set prs" "F pr = x # xs"
    and n: "n \<le> blocksize (refs h pr)"
  shows "\<exists>a h'. doalloc pr h = Inr (a, h') \<and> a \<noteq> 0 \<and> heap_core k ((a, n) # blocks) live prs (F(pr := xs)) ex h' \<and> words h' = words h"
proof -
  have hp: "heap_pages h prs F" and fr: "heap_frames h prs ex live" and roots: "heap_roots k h prs" using core by (simp_all add: heap_core_def)
  obtain f where f: "(f, 1) \<in> set live" "f < 131072" "PR_PAGEADDR (refs h pr) = kaddr f" by (rule page_of [OF ps fr pr(1)])
  have fl: "free_list (refs h pr) (x # xs) (words h)" using hp pr unfolding heap_pages_def by metis
  then have x: "x < 4096" "blocksize (refs h pr) dvd x" "x \<notin> set xs" by (simp_all add: free_list_def)
  from doalloc_ok [OF fl f(3,2)] obtain p where p: "doalloc pr h = Inr (kaddr f + of_nat x, h\<lparr>refs := (refs h)(pr := p)\<rparr>)" "free_list p xs (words h)"
    "next_samesize p = next_samesize (refs h pr)" "next_all p = next_all (refs h pr)" "pageaddr_and_blocktype p = pageaddr_and_blocktype (refs h pr)" by blast
  let ?h = "h\<lparr>refs := (refs h)(pr := p)\<rparr>" and ?F = "F(pr := xs)" and ?a = "kaddr f + of_nat x"
  have "heap_pages (h\<lparr>refs := (refs h)(pr := p), words := words h\<rparr>) prs ?F" using hp p by (intro heap_pages_ref) (simp_all add: heap_pages_def)
  then have hp': "heap_pages ?h prs ?F" by simp
  have same: "PR_PAGEADDR (refs ?h q) = PR_PAGEADDR (refs h q)" "blocksize (refs ?h q) = blocksize (refs h q)" for q
    using p(5) by (simp_all add: PR_PAGEADDR_def PR_BLOCKTYPE_def blocksize_def)
  have "?a \<notin> fst ` set blocks" using page_block_fresh [OF ps core pr(1) x(1)] pr(2) f(3) by simp
  moreover have "block_ok ?h prs ?F ex b" if b: "b \<in> set blocks" for b
  proof -
    have sub: "set (?F q) \<subseteq> set (F q)" for q using pr(2) by auto
    have "block_ok h prs F ex b" using core b by (simp add: heap_core_def)
    then show ?thesis unfolding block_ok_def same using sub by (meson subsetD)
  qed
  moreover have "block_ok ?h prs ?F ex (?a, n)" unfolding block_ok_def same using pr(1) x n f(3) by auto
  moreover have "heap_frames ?h prs ex live" using fr frames_cong [of prs ?h h] same by simp
  moreover have "heap_roots k ?h prs" using roots roots_cong [of ?h h] by simp
  moreover have "distinct (map fst blocks)" using core by (simp add: heap_core_def)
  ultimately have "heap_core k ((?a, n) # blocks) live prs ?F ex ?h" using hp' by (simp add: heap_core_def)
  moreover have "?a \<noteq> 0"
  proof
    assume "?a = 0"
    then show False using unat_in_page [OF ps f(1), of x] x(1) by simp
  qed
  ultimately show ?thesis using p(1) by (intro exI [of _ ?a] exI [of _ ?h]) simp
qed

section \<open>Allocation\<close>

definition keep_words :: "(vaddr \<times> nat) list \<Rightarrow> kheap \<Rightarrow> kheap \<Rightarrow> bool" where
  "keep_words blocks h h' \<longleftrightarrow> (\<forall>b \<in> set blocks. \<forall>d < snd b. words h' (fst b + of_nat d) = words h (fst b + of_nat d))"

lemma block_off_page:
  assumes ps: "page_state live s" and f: "(f, m) \<in> set live" "fst b = kaddr f + of_nat x" "x + snd b \<le> m * 4096" "x < m * 4096"
    and g: "(g, l) \<in> set live" "y < l * 4096" "f \<noteq> g" and d: "d < snd b"
  shows "fst b + of_nat d \<noteq> kaddr g + of_nat y"
proof
  assume eq: "fst b + of_nat d = kaddr g + of_nat y"
  have "unat (fst b + of_nat d) = 2147483648 + f * 4096 + x + d" using unat_block(2) [OF ps f(1,3,4) d] f(2) by simp
  moreover have "unat (kaddr g + of_nat y) = 2147483648 + g * 4096 + y" using unat_in_page [OF ps g(1,2)] by simp
  ultimately have "2147483648 + f * 4096 + x + d = 2147483648 + g * 4096 + y" using eq by metis
  moreover have "f * 4096 + (x + d) \<noteq> g * 4096 + y" using d f(3) by (intro runs_apart [OF ps f(1) g(1,3) _ g(2)]) simp
  ultimately show False by linarith
qed

lemma keep_words_page:
  assumes ps: "page_state live s" and hp: "heap_pages h prs F" and fr: "heap_frames h prs ex live"
    and ok: "\<And>b. b \<in> set blocks \<Longrightarrow> block_ok h prs F ex b" and g: "(g, 1) \<in> set live" "kaddr g \<notin> fst ` set ex"
    "\<And>pr. pr \<in> set prs \<Longrightarrow> PR_PAGEADDR (refs h pr) \<noteq> kaddr g"
    and w: "\<And>a. (\<forall>x < 4096. a \<noteq> kaddr g + of_nat x) \<Longrightarrow> words h' a = words h a"
  shows "keep_words blocks h h'"
  unfolding keep_words_def
proof (intro ballI allI impI)
  fix b d assume b: "b \<in> set blocks" and d: "d < snd b"
  from block_run [OF ps hp fr ok [OF b]] obtain f m x where f: "(f, m) \<in> set live" "fst b = kaddr f + of_nat x" "x + snd b \<le> m * 4096" "x < m * 4096"
    and fw: "(\<exists>pr \<in> set prs. PR_PAGEADDR (refs h pr) = kaddr f) \<or> (kaddr f, m) \<in> set ex" by metis
  have "f \<noteq> g" using fw g(2,3) by force
  then have "\<forall>y < 4096. fst b + of_nat d \<noteq> kaddr g + of_nat y" using block_off_page [OF ps f g(1) _ _ d] by simp
  then show "words h' (fst b + of_nat d) = words h (fst b + of_nat d)" by (rule w)
qed

lemma new_heap_page:
  assumes ps: "page_state live s" and f: "(f, 1) \<in> set live" and b: "b < NSIZES" and pr: "pr \<notin> set prs" "pr \<noteq> 0"
    and hp: "heap_pages h prs F" and roots: "heap_roots k h (pr # prs)" and fr: "heap_frames h prs ((kaddr f, 1) # ex) live"
    and blocks: "distinct (map fst blocks)" "\<And>c. c \<in> set blocks \<Longrightarrow> block_ok h prs F ex c"
  shows "\<exists>h'. new_page (kaddr f) b pr h = Inr h' \<and> heap_core k blocks live (pr # prs) (F(pr := all_blocks (sizes ! b))) ex h' \<and>
    blocksize (refs h' pr) = sizes ! b \<and> keep_words blocks h h'"
proof -
  have f': "f < 131072" using live_bounds [OF ps f] by simp
  have fr0: "heap_frames h prs ex live" using fr by (simp add: heap_frames_def)
  have new: "kaddr f \<notin> fst ` set ex" "kaddr f \<notin> set (own_pages h prs)" using fr by (auto simp: heap_frames_def)
  have off: "PR_PAGEADDR (refs h q) \<noteq> kaddr f" if "q \<in> set prs" for q using new(2) that by (auto simp: own_pages_def image_iff)
  have "\<exists>g < 131072. PR_PAGEADDR (refs h q) = kaddr g \<and> g \<noteq> f" if q: "q \<in> set prs" for q
    using page_of [OF ps fr0 q] off [OF q] by metis
  from new_page_ok [OF f' b hp pr this] obtain h' where h': "new_page (kaddr f) b pr h = Inr h'"
    "heap_pages h' (pr # prs) (F(pr := all_blocks (sizes ! b)))" "kheaproots h' = kheaproots h" "PR_PAGEADDR (refs h' pr) = kaddr f"
    "blocksize (refs h' pr) = sizes ! b" "\<And>q. q \<noteq> pr \<Longrightarrow> refs h' q = refs h q"
    "\<And>a. (\<forall>x < 4096. a \<noteq> kaddr f + of_nat x) \<Longrightarrow> words h' a = words h a" by blast
  have same: "refs h' q = refs h q" if "q \<in> set prs" for q using h'(6) that pr(1) by metis
  have own: "own_pages h' (pr # prs) = kaddr f # own_pages h prs" using same h'(3,4) by (simp add: own_pages_def)
  have "heap_frames h' (pr # prs) ex live" using fr f by (auto simp: heap_frames_def own)
  moreover have "heap_roots k h' (pr # prs)" using roots roots_cong [OF h'(3)] by simp
  moreover have "block_ok h' (pr # prs) (F(pr := all_blocks (sizes ! b))) ex c" if "c \<in> set blocks" for c
    using blocks(2) [OF that, unfolded block_ok_def]
  proof (elim disjE bexE exE conjE)
    fix q x assume q: "q \<in> set prs" and x: "x < 4096" "blocksize (refs h q) dvd x" "x \<notin> set (F q)" "snd c \<le> blocksize (refs h q)"
      "fst c = PR_PAGEADDR (refs h q) + of_nat x"
    have "q \<noteq> pr" using q pr(1) by auto
    then show ?thesis using q x same [OF q] unfolding block_ok_def by (intro disjI1 bexI [of _ q] exI [of _ x]) simp_all
  qed (auto simp: block_ok_def)
  ultimately have "heap_core k blocks live (pr # prs) (F(pr := all_blocks (sizes ! b))) ex h'"
    using h'(2) blocks(1) by (simp add: heap_core_def)
  moreover have "keep_words blocks h h'" using keep_words_page [OF ps hp fr0 blocks(2) f new(1) off h'(7)] by blast
  ultimately show ?thesis using h'(1,5) by blast
qed

lemma blocktype_ok:
  assumes "sz < LARGEST_SUBPAGE_SIZE"
  shows "\<exists>b < NSIZES. blocktype sz = Inr b \<and> unat sz \<le> sizes ! b"
proof -
  have "unat sz \<le> sizes ! 7" using assms by (simp add: sizes_def word_less_nat_alt)
  then have "find (\<lambda>i. unat sz \<le> sizes ! i) [0..<8] \<noteq> None" by (auto simp: find_None_iff intro!: exI [of _ 7])
  then obtain b where b: "find (\<lambda>i. unat sz \<le> sizes ! i) [0..<8] = Some b" by blast
  then have "b < 8" "unat sz \<le> sizes ! b" by (auto simp: find_Some_iff dest: nth_mem)
  then show ?thesis using b by (auto simp: blocktype_def)
qed

lemma keep_words_refl [simp]: "keep_words blocks h h"
  by (simp add: keep_words_def)

lemma keep_words_eq: "words h' = words h \<Longrightarrow> keep_words blocks h h'"
  by (simp add: keep_words_def)

lemma core_mono: "heap_core k blocks live prs F ex h \<Longrightarrow> k \<le> k' \<Longrightarrow> heap_core k' blocks live prs F ex h"
  unfolding heap_core_def heap_roots_def by (meson order_trans)

lemma frames_ex: "heap_frames h prs ex live \<Longrightarrow> (a, l) \<in> set ex \<Longrightarrow> \<exists>g. (g, l) \<in> set live \<and> a = kaddr g"
  by (auto simp: heap_frames_def)

lemma frames_drop:
  assumes fr: "heap_frames h prs ((kaddr f, m) # ex) live" and live': "set live' = set live - {(f, m)}"
  shows "heap_frames h prs ex live'"
proof -
  have keep: "(g, l) \<in> set live'" if "(g, l) \<in> set live" "kaddr g \<noteq> kaddr f" for g l using that live' by auto
  have "kaddr f \<notin> fst ` set ex" "kaddr f \<notin> set (own_pages h prs)" using fr by (auto simp: heap_frames_def)
  then have ne: "a \<noteq> kaddr f" if "(a, l) \<in> set ex \<or> a \<in> set (own_pages h prs)" for a l using that by force
  have "\<exists>g. (g, l) \<in> set live' \<and> a = kaddr g" if al: "(a, l) \<in> set ex" for a l
  proof -
    obtain g where "(g, l) \<in> set live" "a = kaddr g" using frames_ex [OF fr, of a l] al by auto
    then show ?thesis using keep ne [of a l] al by blast
  qed
  moreover have "\<exists>g. (g, 1) \<in> set live' \<and> a = kaddr g" if a: "a \<in> set (own_pages h prs)" for a
  proof -
    obtain g where "(g, 1) \<in> set live" "a = kaddr g" using fr a by (auto simp: heap_frames_def)
    then show ?thesis using keep ne [of a 0] a by blast
  qed
  ultimately show ?thesis using fr by (auto simp: heap_frames_def)
qed

definition alloc_outcome :: "nat \<Rightarrow> (vaddr \<times> nat) list \<Rightarrow> nat \<Rightarrow> 'a kheap_state_scheme \<Rightarrow> vaddr \<times> 'a kheap_state_scheme \<Rightarrow> bool" where
  "alloc_outcome k blocks n s r \<longleftrightarrow> keep_words blocks (km_heap s) (km_heap (snd r)) \<and>
     (if fst r = 0 then heap_inv (Suc k) blocks (snd r) else heap_inv k ((fst r, n) # blocks) (snd r))"

lemma subpage_fresh_ok:
  assumes k: "k < 256" and ps: "page_state live s" and core: "heap_core k blocks live prs F ex (km_heap s)" and b: "b < NSIZES" and n: "n \<le> sizes ! b"
  shows "\<exists>r. subpage_fresh b (km_enter s) = Inr r \<and> alloc_outcome k blocks n s r"
proof -
  let ?h = "km_heap s"
  have hp: "heap_pages ?h prs F" and roots: "heap_roots k ?h prs" and fr: "heap_frames ?h prs ex live"
    and blocks: "distinct (map fst blocks)" "\<And>c. c \<in> set blocks \<Longrightarrow> block_ok ?h prs F ex c" using core by (simp_all add: heap_core_def)
  have "0 < unat (1 :: u32)" "unat (1 :: u32) < 2 ^ 19" by simp_all
  with ps show ?thesis
  proof (cases rule: alloc_kpages_cases)
    case full
    have "heap_core (Suc k) blocks live prs F ex ?h" using core by (rule core_mono) simp
    then have "alloc_outcome k blocks n s (0, s)" using ps unfolding alloc_outcome_def heap_inv_def by auto
    then show ?thesis using full by (simp add: subpage_fresh_def km_rel_ok [OF ps])
  next
    case (ok f s1)
    have ps1: "page_state ((f, 1) # live) s1" using ok(2) by simp
    have f: "f \<le> 131072" using live_bounds [OF ps1, of f 1] by simp
    have "kaddr f \<noteq> a" if "a \<in> set (map fst ex @ own_pages ?h prs)" for a
      using that fr kaddr_fresh [OF ps1] unfolding heap_frames_def by force
    then have "heap_frames (km_heap s1) prs ((kaddr f, 1) # ex) ((f, 1) # live)" using fr ok(3) by (auto simp: heap_frames_def)
    moreover have "heap_roots k (km_heap s1) prs" using roots ok(3) by simp
    ultimately obtain pr s2 live2 rts where al: "allocpageref (km_enter s1) = Inr (pr, km_enter s2)" "page_state live2 s2"
      "set ((f, 1) # live) \<subseteq> set live2" "km_heap s2 = (km_heap s1)\<lparr>kheaproots := rts\<rparr>" "heap_frames (km_heap s2) prs ((kaddr f, 1) # ex) live2"
      "if pr = 0 then heap_roots (Suc k) (km_heap s2) prs else pr \<notin> set prs \<and> heap_roots k (km_heap s2) (pr # prs)"
      using allocpageref_ok [OF ps1 _ k] by blast
    let ?h2 = "km_heap s2"
    have f2: "(f, 1) \<in> set live2" using al(3) by simp
    have h2: "?h2 = ?h\<lparr>kheaproots := rts\<rparr>" using al(4) ok(3) by simp
    have hp2: "heap_pages ?h2 prs F" using hp by (simp add: h2 heap_pages_def)
    have blocks2: "block_ok ?h2 prs F ex c" if "c \<in> set blocks" for c using blocks(2) [OF that] by (simp add: block_ok_def h2)
    have kw2: "words ?h2 = words ?h" by (simp add: h2)
    have eq2: "subpage_fresh b (km_enter s) = (if pr = 0 then sbind (km_rel (km_enter s2)) (\<lambda>s. sbind (free_kpages (kaddr f) s) (\<lambda>s. Inr (0, s)))
       else
         sbind (new_page (kaddr f) b pr ?h2) (\<lambda>h.
         sbind (doalloc pr h) (\<lambda>(retptr, h).
         sbind (km_rel (km_enter s2\<lparr>km_heap := h\<rparr>)) (\<lambda>s. Inr (retptr, s)))))"
      using ok(1) kaddr_page [OF f] km_acq_ok [OF ps1] al(1) by (simp add: subpage_fresh_def km_rel_ok [OF ps])
    show ?thesis
    proof (cases "pr = 0")
      case True
      from free_kpages_ok [OF al(2) f2] obtain s3 live3 where fk: "free_kpages (kaddr f) s2 = Inr s3" "page_state live3 s3" "km_heap s3 = ?h2"
        "set live3 = set live2 - {(f, 1)}" by blast
      have "heap_frames ?h2 prs ex live3" by (rule frames_drop [OF al(5) fk(4)])
      then have "heap_core (Suc k) blocks live3 prs F ex (km_heap s3)" using True al(6) hp2 blocks(1) blocks2 by (simp add: heap_core_def fk(3))
      then have "alloc_outcome k blocks (n) s (0, s3)" using fk(2,3) kw2 unfolding alloc_outcome_def heap_inv_def by (auto intro: keep_words_eq)
      then show ?thesis using eq2 True fk(1) km_rel_ok [OF al(2)] by simp
    next
      case False
      then have pr: "pr \<notin> set prs" "heap_roots k ?h2 (pr # prs)" using al(6) by simp_all
      from new_heap_page [OF al(2) f2 b pr(1) False hp2 pr(2) al(5) blocks(1) blocks2] obtain h3 where h3: "new_page (kaddr f) b pr ?h2 = Inr h3"
        "heap_core k blocks live2 (pr # prs) (F(pr := all_blocks (sizes ! b))) ex h3" "blocksize (refs h3 pr) = sizes ! b" "keep_words blocks ?h2 h3" by blast
      have "4096 div sizes ! b \<noteq> 0" using sizes_pos [OF b] by (simp add: div_eq_0_iff)
      then have "all_blocks (sizes ! b) \<noteq> []" by (simp add: all_blocks_def)
      then obtain x xs where x: "all_blocks (sizes ! b) = x # xs" by (meson neq_Nil_conv)
      from take_block [OF al(2) h3(2), of pr x xs "n"] obtain a h4 where a: "doalloc pr h3 = Inr (a, h4)" "a \<noteq> 0"
        "heap_core k ((a, n) # blocks) live2 (pr # prs) (F(pr := all_blocks (sizes ! b), pr := xs)) ex h4" "words h4 = words h3"
        using x h3(3) n by auto
      let ?s = "s2\<lparr>km_heap := h4\<rparr>"
      have ps4: "page_state live2 ?s" using al(2) by simp
      have "subpage_fresh b (km_enter s) = Inr (a, ?s)" using eq2 False h3(1) a(1) km_rel_ok [OF ps4] by (simp add: km_enter_upd)
      moreover have "keep_words blocks ?h h4" using h3(4) kw2 a(4) by (simp add: keep_words_def)
      moreover have "heap_inv k ((a, n) # blocks) ?s" using ps4 a(3) unfolding heap_inv_def by auto
      ultimately show ?thesis using a(2) by (auto simp: alloc_outcome_def)
    qed
  qed
qed

lemma subpage_kmalloc_ok:
  assumes k: "k < 256" and ps: "page_state live s" and core: "heap_core k blocks live prs F ex (km_heap s)" and sz: "sz < LARGEST_SUBPAGE_SIZE"
  shows "\<exists>r. subpage_kmalloc sz s = Inr r \<and> alloc_outcome k blocks (unat sz) s r"
proof -
  let ?h = "km_heap s"
  have hp: "heap_pages ?h prs F" and roots: "heap_roots k ?h prs" and fr: "heap_frames ?h prs ex live"
    and blocks: "distinct (map fst blocks)" "\<And>c. c \<in> set blocks \<Longrightarrow> block_ok ?h prs F ex c" using core by (simp_all add: heap_core_def)
  obtain b where b: "b < 8" "blocktype sz = Inr b" "unat sz \<le> sizes ! b" using blocktype_ok [OF sz] by blast
  let ?xs = "filter (\<lambda>pr. unat (PR_BLOCKTYPE (refs ?h pr)) = b) prs"
  have "chain (\<lambda>p. next_samesize (refs ?h p)) (sizebases ?h ! b) ?xs" using hp b(1) by (simp add: heap_pages_def)
  moreover have "PR_BLOCKTYPE (refs ?h q) = of_nat b" if "q \<in> set ?xs" for q using that by (auto simp: of_nat_unat)
  ultimately have find: "find_page (refs ?h) (of_nat b) (sizebases ?h ! b) =
      Some (Inr (case find (\<lambda>x. nfree (refs ?h x) > 0) ?xs of None \<Rightarrow> 0 | Some x \<Rightarrow> x))" by (rule find_page_chain)
  show ?thesis
  proof (cases "find (\<lambda>x. nfree (refs ?h x) > 0) ?xs")
    case (Some pr)
    then have pr: "pr \<in> set prs" "unat (PR_BLOCKTYPE (refs ?h pr)) = b" "nfree (refs ?h pr) > 0" by (auto simp: find_Some_iff dest: nth_mem)
    have "0 \<notin> set prs" using hp chain_nonzero by (auto simp: heap_pages_def)
    then have nz: "pr \<noteq> 0" using pr(1) by auto
    have "unat (nfree (refs ?h pr)) = length (F pr)" using hp pr(1) by (simp add: heap_pages_def free_list_def)
    then obtain x xs where F: "F pr = x # xs" using pr(3) by (cases "F pr") (auto simp: word_less_nat_alt)
    have "unat sz \<le> blocksize (refs ?h pr)" using b(3) pr(2) by (simp add: blocksize_def)
    from take_block [OF ps core pr(1) F this] obtain a h' where a: "doalloc pr ?h = Inr (a, h')" "a \<noteq> 0"
      "heap_core k ((a, unat sz) # blocks) live prs (F(pr := xs)) ex h'" "words h' = words ?h" by blast
    let ?s = "s\<lparr>km_heap := h'\<rparr>"
    have ps': "page_state live ?s" using ps by simp
    have "subpage_kmalloc sz s = Inr (a, ?s)"
      using b(2) find Some nz a(1) km_rel_ok [OF ps'] by (simp add: subpage_kmalloc_def km_acq_ok [OF ps] loop_result_def km_enter_upd)
    moreover have "heap_inv k ((a, unat sz) # blocks) ?s" using ps' a(3) unfolding heap_inv_def by auto
    ultimately show ?thesis using a(2,4) by (auto simp: alloc_outcome_def keep_words_eq)
  next
    case None
    have "subpage_kmalloc sz s = subpage_fresh b (km_enter s)"
      using b(2) find None by (simp add: subpage_kmalloc_def km_acq_ok [OF ps] loop_result_def)
    then show ?thesis using subpage_fresh_ok [OF k ps core b(1,3)] by simp
  qed
qed

lemma kmalloc_ok:
  assumes inv: "heap_inv k blocks s" and k: "k < 256" and sz: "unat sz < 2 ^ 31 - 4096"
  shows "\<exists>r. kmalloc sz s = Inr r \<and> alloc_outcome k blocks (unat sz) s r"
proof -
  from inv obtain live prs F ex where ps: "page_state live s" and core: "heap_core k blocks live prs F ex (km_heap s)"
    unfolding heap_inv_def by blast
  show ?thesis
  proof (cases "sz < LARGEST_SUBPAGE_SIZE")
    case True
    then have "kmalloc sz s = subpage_kmalloc sz s" by (auto simp: kmalloc_def)
    then show ?thesis using subpage_kmalloc_ok [OF k ps core True] by simp
  next
    case False
    then have le: "LARGEST_SUBPAGE_SIZE \<le> sz" by (simp only: not_less)
    let ?n = "(sz + PAGE_SIZE - 1) div PAGE_SIZE" and ?h = "km_heap s"
    have n: "unat ?n = (unat sz + 4095) div 4096" using sz by (simp add: unat_div unat_word_ariths)
    have big: "2048 \<le> unat sz" using False by (simp add: word_less_nat_alt)
    have n1: "0 < unat ?n" unfolding n using big by (simp add: div_greater_zero_iff)
    have n2: "unat ?n < 2 ^ 19" unfolding n using sz by (simp add: div_less_iff_less_mult)
    have fit: "unat sz \<le> unat ?n * 4096" unfolding n by linarith
    have fr: "heap_frames ?h prs ex live" and hp: "heap_pages ?h prs F" using core by (simp_all add: heap_core_def)
    from ps n1 n2 show ?thesis
    proof (cases rule: alloc_kpages_cases)
      case full
      have "heap_core (Suc k) blocks live prs F ex ?h" using core by (rule core_mono) simp
      then have "alloc_outcome k blocks (unat sz) s (0, s)" using ps unfolding alloc_outcome_def heap_inv_def by auto
      then show ?thesis using full le by (simp add: kmalloc_def)
    next
      case (ok f s')
      let ?live = "(f, unat ?n) # live" and ?ex = "(kaddr f, unat ?n) # ex"
      have f: "f \<le> 131072" using live_bounds [OF ok(2), of f "unat ?n"] by simp
      have fresh: "kaddr f \<noteq> a" if "a \<in> set (map fst ex @ own_pages ?h prs)" for a
        using that fr kaddr_fresh [OF ok(2)] unfolding heap_frames_def by force
      then have fr': "heap_frames ?h prs ?ex ?live" using fr by (auto simp: heap_frames_def)
      have "kaddr f \<notin> fst ` set blocks"
      proof
        assume "kaddr f \<in> fst ` set blocks"
        then obtain b where b: "b \<in> set blocks" "kaddr f = fst b" by auto
        then have "block_ok ?h prs F ex b" using core by (simp add: heap_core_def)
        then obtain g m x where g: "(g, m) \<in> set live" "fst b = kaddr g + of_nat x" "x < m * 4096" by (rule block_run [OF ps hp fr]) 
        have "g \<noteq> f" using kaddr_fresh [OF ok(2) g(1)] by auto
        moreover have "(0 :: nat) < unat ?n * 4096" using n1 by simp
        ultimately have "g * 4096 + x \<noteq> f * 4096 + 0" using g(1,3) by (intro runs_apart [OF ok(2)]) auto
        moreover have "unat (kaddr g + of_nat x) = 2147483648 + g * 4096 + x" using unat_in_page [OF ps g(1,3)] by simp
        ultimately show False using b(2) g(2) unat_kaddr [OF f] by simp
      qed
      then have core': "heap_core k ((kaddr f, unat sz) # blocks) ?live prs F ?ex ?h"
        using core fr' fit by (auto simp: heap_core_def block_ok_def)
      have "kmalloc sz s = Inr (kaddr f, s')" using le ok(1) kaddr_page [OF f] by (simp add: kmalloc_def)
      moreover have "alloc_outcome k blocks (unat sz) s (kaddr f, s')"
        using core' ok(2,3) kaddr_page(2) [OF f] unfolding alloc_outcome_def heap_inv_def by auto
      ultimately show ?thesis by blast
    qed
  qed
qed

section \<open>Release\<close>

lemma in_page_iff:
  assumes "f < 131072" "g < 131072" "x < 4096"
  shows "kaddr g \<le> kaddr f + of_nat x \<and> kaddr f + of_nat x < kaddr g + PAGE_SIZE \<longleftrightarrow> g = f"
proof -
  have u: "unat (kaddr f + of_nat x) = 2147483648 + f * 4096 + x" "unat (kaddr g) = 2147483648 + g * 4096" "unat (kaddr g + PAGE_SIZE) = 2147483648 + g * 4096 + 4096"
    using unat_kaddr [of f] unat_kaddr [of g] assms by (simp_all add: unat_word_ariths unat_of_nat)
  show ?thesis unfolding word_le_nat_alt word_less_nat_alt u using assms(3) by auto
qed

lemma find_owner_ok:
  assumes ps: "page_state live s" and core: "heap_core k blocks live prs F ex h" and f: "f < 131072" and x: "x < 4096"
  shows "find_owner (refs h) (kaddr f + of_nat x) (allbase h) =
    Some (Inr (case find (\<lambda>q. PR_PAGEADDR (refs h q) = kaddr f) prs of None \<Rightarrow> 0 | Some q \<Rightarrow> q))"
proof -
  have hp: "heap_pages h prs F" and fr: "heap_frames h prs ex live" using core by (simp_all add: heap_core_def)
  let ?a = "kaddr f + of_nat x"
  have "find_owner (refs h) ?a (allbase h) =
      Some (Inr (case find (\<lambda>q. PR_PAGEADDR (refs h q) \<le> ?a \<and> ?a < PR_PAGEADDR (refs h q) + PAGE_SIZE) prs of None \<Rightarrow> 0 | Some q \<Rightarrow> q))"
    using hp by (intro find_owner_chain) (auto simp: heap_pages_def free_list_def)
  moreover have "find (\<lambda>q. PR_PAGEADDR (refs h q) \<le> ?a \<and> ?a < PR_PAGEADDR (refs h q) + PAGE_SIZE) prs = find (\<lambda>q. PR_PAGEADDR (refs h q) = kaddr f) prs"
  proof (rule find_cong [OF refl])
    fix q assume "q \<in> set prs"
    then obtain g where g: "(g, 1) \<in> set live" "g < 131072" "PR_PAGEADDR (refs h q) = kaddr g" by (rule page_of [OF ps fr])
    have "kaddr g = kaddr f \<longleftrightarrow> g = f" using page_offset_inj [of g 0 f 0] g(2) f by auto
    then show "(PR_PAGEADDR (refs h q) \<le> ?a \<and> ?a < PR_PAGEADDR (refs h q) + PAGE_SIZE) = (PR_PAGEADDR (refs h q) = kaddr f)"
      using in_page_iff [OF f g(2) x] g(3) by simp
  qed
  ultimately show ?thesis by simp
qed

lemma find_eq: "pr \<in> set prs \<Longrightarrow> find (\<lambda>q. q = pr) prs = Some pr"
  by (induction prs) auto

lemma find_page_addr:
  assumes "heap_frames h prs ex live" and "pr \<in> set prs" and "PR_PAGEADDR (refs h pr) = a"
  shows "find (\<lambda>q. PR_PAGEADDR (refs h q) = a) prs = Some pr"
proof -
  have "find (\<lambda>q. PR_PAGEADDR (refs h q) = a) prs = find (\<lambda>q. q = pr) prs"
    using pages_differ [OF assms(1,2)] assms(3) by (intro find_cong) auto
  then show ?thesis using find_eq [OF assms(2)] by simp
qed

lemma block_addr_mem:
  assumes ps: "page_state live s" and core: "heap_core k blocks live prs F ex h" and b: "b \<in> set blocks" and d: "d < snd b"
  shows "unat (fst b + of_nat d) \<in> block_addrs b"
proof -
  have hp: "heap_pages h prs F" and fr: "heap_frames h prs ex live" and ok: "block_ok h prs F ex b" using core b by (simp_all add: heap_core_def)
  obtain f m x where f: "(f, m) \<in> set live" "fst b = kaddr f + of_nat x" "x + snd b \<le> m * 4096" "x < m * 4096" by (rule block_run [OF ps hp fr ok])
  show ?thesis using unat_block [OF ps f(1,3,4) d] f(2) d by (simp add: block_addrs_def)
qed

text \<open>A run of pages goes back to the page allocator.\<close>

lemma kfree_run:
  assumes ps: "page_state live s" and core: "heap_core k blocks live prs F ex (km_heap s)"
    and b: "(fst b, m) \<in> set ex" and rest: "set rest \<subseteq> set blocks" "distinct (map fst rest)" "fst b \<notin> fst ` set rest"
  shows "\<exists>s'. kfree (fst b) s = Inr s' \<and> heap_inv k rest s' \<and> keep_words rest (km_heap s) (km_heap s')"
proof -
  let ?h = "km_heap s"
  have fr: "heap_frames ?h prs ex live" using core by (simp add: heap_core_def)
  obtain f where f: "(f, m) \<in> set live" "fst b = kaddr f" using frames_ex [OF fr b] by blast
  have f': "f < 131072" using live_bounds [OF ps f(1)] by simp
  have "find (\<lambda>q. PR_PAGEADDR (refs ?h q) = kaddr f) prs = None" using ex_differ [OF fr _ b] f(2) by (auto simp: find_None_iff)
  then have own: "find_owner (refs ?h) (kaddr f) (allbase ?h) = Some (Inr 0)" using find_owner_ok [OF ps core f', of 0] by simp
  have sub: "subpage_kfree (kaddr f) s = Inr (-1, s)"
    using own by (simp add: subpage_kfree_def km_acq_ok [OF ps] km_rel_ok [OF ps] loop_result_def)
  from free_kpages_ok [OF ps f(1)] obtain s' live' where s': "free_kpages (kaddr f) s = Inr s'" "page_state live' s'" "km_heap s' = ?h"
    "set live' = set live - {(f, m)}" by blast
  have kf: "kfree (fst b) s = Inr s'" using sub s'(1) kaddr_page [of f] f' f(2) by (simp add: kfree_def)
  obtain xs ys where ex: "ex = xs @ (kaddr f, m) # ys" using split_list [OF b] f(2) by auto
  have "heap_frames ?h prs ((kaddr f, m) # xs @ ys) live" using fr by (auto simp: heap_frames_def ex)
  then have fr': "heap_frames ?h prs (xs @ ys) live'" by (rule frames_drop [OF _ s'(4)])
  have "block_ok ?h prs F (xs @ ys) c" if c: "c \<in> set rest" for c
  proof -
    have "block_ok ?h prs F ex c" using c rest(1) core by (auto simp: heap_core_def)
    moreover have "fst c \<noteq> kaddr f" using c rest(3) f(2) by force
    ultimately show ?thesis unfolding block_ok_def ex by auto
  qed
  then have "heap_core k rest live' prs F (xs @ ys) (km_heap s')" using core rest(2) fr' s'(3) by (simp add: heap_core_def)
  then show ?thesis using kf s'(2,3) unfolding heap_inv_def by auto
qed

lemma full_free_list:
  assumes fl: "free_list p fl w" and full: "length fl = 4096 div blocksize p" and x: "x < 4096" "blocksize p dvd x"
  shows "x \<in> set fl"
proof -
  let ?b = "blocksize p"
  have b: "0 < ?b" "?b dvd 4096" using fl sizes_pos [of "unat (PR_BLOCKTYPE p)"] by (auto simp: free_list_def blocksize_def)
  have sub: "set fl \<subseteq> set (all_blocks ?b)" using fl unfolding all_blocks_set [OF b] by (auto simp: free_list_def)
  have "card (set (all_blocks ?b)) \<le> length (all_blocks ?b)" by (rule card_length)
  also have "\<dots> = card (set fl)" using fl full by (simp add: all_blocks_def free_list_def distinct_card)
  finally have "set fl = set (all_blocks ?b)" using sub by (intro card_subset_eq) (auto intro: antisym card_mono)
  then show ?thesis using x all_blocks_set [OF b] by simp
qed

text \<open>A block goes back on the free list of its page.\<close>

lemma put_block_core:
  assumes ps: "page_state live s" and core: "heap_core k blocks live prs F ex h" and pr: "pr \<in> set prs"
    and f: "f < 131072" "PR_PAGEADDR (refs h pr) = kaddr f"
    and x: "x < 4096" "blocksize (refs h pr) dvd x" "x \<notin> set (F pr)"
    and rest: "set rest \<subseteq> set blocks" "distinct (map fst rest)" "kaddr f + of_nat x \<notin> fst ` set rest"
  shows "\<exists>h'. put_block pr (of_nat x) (fill_deadbeef (kaddr f + of_nat x) (blocksize (refs h pr)) h) = Inr h' \<and>
    heap_core k rest live prs (F(pr := x # F pr)) ex h' \<and> keep_words rest h h' \<and> unat (nfree (refs h' pr)) = Suc (length (F pr)) \<and>
    pageaddr_and_blocktype (refs h' pr) = pageaddr_and_blocktype (refs h pr)"
proof -
  have hp: "heap_pages h prs F" and roots: "heap_roots k h prs" and fr: "heap_frames h prs ex live" using core by (simp_all add: heap_core_def)
  let ?sz = "blocksize (refs h pr)"
  have "\<exists>g < 131072. PR_PAGEADDR (refs h q) = kaddr g \<and> g \<noteq> f" if q: "q \<in> set prs" "q \<noteq> pr" for q
    using page_of [OF ps fr q(1)] pages_differ [OF fr pr q] f(2) by metis
  from put_block_ok [OF hp pr f(2,1) this x] obtain h' where h': "put_block pr (of_nat x) (fill_deadbeef (kaddr f + of_nat x) ?sz h) = Inr h'"
    "heap_pages h' prs (F(pr := x # F pr))" "kheaproots h' = kheaproots h" "\<And>q. pageaddr_and_blocktype (refs h' q) = pageaddr_and_blocktype (refs h q)"
    "unat (nfree (refs h' pr)) = Suc (length (F pr))" "\<And>a. (\<forall>d < ?sz. a \<noteq> kaddr f + of_nat (x + d)) \<Longrightarrow> words h' a = words h a" by blast
  have same: "PR_PAGEADDR (refs h' q) = PR_PAGEADDR (refs h q)" "blocksize (refs h' q) = blocksize (refs h q)" for q
    using h'(4) [of q] by (simp_all add: PR_PAGEADDR_def PR_BLOCKTYPE_def blocksize_def)
  have old: "block_ok h prs F ex c" if "c \<in> set rest" for c using that rest(1) core by (auto simp: heap_core_def)
  have ok: "block_ok h' prs (F(pr := x # F pr)) ex c" if c: "c \<in> set rest" for c
    using old [OF c, unfolded block_ok_def]
  proof (elim disjE bexE exE conjE)
    fix q y assume q: "q \<in> set prs" and y: "y < 4096" "blocksize (refs h q) dvd y" "y \<notin> set (F q)" "snd c \<le> blocksize (refs h q)"
      "fst c = PR_PAGEADDR (refs h q) + of_nat y"
    have "q = pr \<Longrightarrow> y \<noteq> x" using y(5) f(2) rest(3) c by force
    then have "y \<notin> set ((F(pr := x # F pr)) q)" using y(3) by auto
    then show ?thesis using q y same unfolding block_ok_def by (intro disjI1 bexI [of _ q] exI [of _ y]) simp_all
  qed (auto simp: block_ok_def)
  have "heap_frames h' prs ex live" using fr frames_cong [of prs h' h] same h'(3) by simp
  moreover have "heap_roots k h' prs" using roots roots_cong [OF h'(3)] by simp
  ultimately have core': "heap_core k rest live prs (F(pr := x # F pr)) ex h'" using h'(2) rest(2) ok by (simp add: heap_core_def)
  let ?b = "(kaddr f + of_nat x, ?sz)"
  have "block_ok h prs F ex ?b" unfolding block_ok_def using pr x f(2) by (intro disjI1 bexI [of _ pr] exI [of _ x]) simp_all
  then have both: "heap_core k (?b # rest) live prs F ex h" using core rest(2,3) old by (simp add: heap_core_def)
  have "keep_words rest h h'" unfolding keep_words_def
  proof (intro ballI allI impI)
    fix c d assume c: "c \<in> set rest" and d: "d < snd c"
    have "?b \<noteq> c" using rest(3) c by force
    then have apart: "block_addrs ?b \<inter> block_addrs c = {}" using c by (intro blocks_apart [OF ps both]) simp_all
    have "fst c + of_nat d \<noteq> kaddr f + of_nat (x + e)" if e: "e < ?sz" for e
    proof
      assume eq: "fst c + of_nat d = kaddr f + of_nat (x + e)"
      have "unat (fst c + of_nat d) \<in> block_addrs c" using c by (intro block_addr_mem [OF ps both _ d]) simp
      moreover have "unat (fst ?b + of_nat e) \<in> block_addrs ?b" using e by (intro block_addr_mem [OF ps both]) simp_all
      then have "unat (kaddr f + of_nat (x + e)) \<in> block_addrs ?b" by (simp add: add.assoc)
      ultimately show False using apart eq by auto
    qed
    then show "words h' (fst c + of_nat d) = words h (fst c + of_nat d)" by (intro h'(6)) blast
  qed
  then show ?thesis using h'(1,4,5) core' by blast
qed

text \<open>A page whose blocks are all free leaves the heap.\<close>

lemma frames_remove:
  assumes fr: "heap_frames h prs ex live" and pr: "pr \<in> set prs" "PR_PAGEADDR (refs h pr) = kaddr f" and f: "(f, 1) \<in> set live"
  shows "heap_frames h (remove1 pr prs) ((kaddr f, 1) # ex) live"
proof -
  obtain ys zs where prs: "prs = ys @ pr # zs" "pr \<notin> set ys" using split_list_first [OF pr(1)] by blast
  have "own_pages h (remove1 pr prs) = map (\<lambda>q. PR_PAGEADDR (refs h q)) (ys @ zs) @ filter (\<lambda>a. a \<noteq> 0) (map kr_page (kheaproots h))"
    using prs by (simp add: own_pages_def remove1_append)
  moreover have "own_pages h prs = map (\<lambda>q. PR_PAGEADDR (refs h q)) ys @ kaddr f # map (\<lambda>q. PR_PAGEADDR (refs h q)) zs @ filter (\<lambda>a. a \<noteq> 0) (map kr_page (kheaproots h))"
    using prs(1) pr(2) by (simp add: own_pages_def)
  ultimately show ?thesis using fr f unfolding heap_frames_def by auto
qed

lemma release_page:
  assumes ps: "page_state live s" and core: "heap_core k blocks live prs F ex h" and pr: "pr \<in> set prs"
    and f: "(f, 1) \<in> set live" "PR_PAGEADDR (refs h pr) = kaddr f" and full: "length (F pr) = 4096 div blocksize (refs h pr)"
  shows "\<exists>h2 h3. remove_lists pr (unat (PR_BLOCKTYPE (refs h pr))) h = Inr h2 \<and> freepageref pr h2 = Inr h3 \<and> words h3 = words h \<and>
    (\<forall>live'. set live' = set live - {(f, 1)} \<longrightarrow> heap_core k blocks live' (remove1 pr prs) F ex h3)"
proof -
  have hp: "heap_pages h prs F" and roots: "heap_roots k h prs" and fr: "heap_frames h prs ex live" using core by (simp_all add: heap_core_def)
  have d: "distinct prs" and fl: "free_list (refs h pr) (F pr) (words h)" using hp pr by (simp_all add: heap_pages_def)
  from remove_lists_ok [OF hp pr refl] obtain h2 where h2: "remove_lists pr (unat (PR_BLOCKTYPE (refs h pr))) h = Inr h2"
    "heap_pages h2 (remove1 pr prs) F" "kheaproots h2 = kheaproots h" "words h2 = words h"
    "\<And>q. pageaddr_and_blocktype (refs h2 q) = pageaddr_and_blocktype (refs h q)" by blast
  have same: "PR_PAGEADDR (refs h2 q) = PR_PAGEADDR (refs h q)" "blocksize (refs h2 q) = blocksize (refs h q)" for q
    using h2(5) [of q] by (simp_all add: PR_PAGEADDR_def PR_BLOCKTYPE_def blocksize_def)
  have "heap_roots k h2 prs" using roots roots_cong [OF h2(3)] by simp
  moreover have fr2: "heap_frames h2 prs ex live" using fr frames_cong [of prs h2 h] same h2(3) by simp
  ultimately obtain rts where r: "freepageref pr h2 = Inr (h2\<lparr>kheaproots := rts\<rparr>)" "map kr_page rts = map kr_page (kheaproots h2)"
    "heap_roots k (h2\<lparr>kheaproots := rts\<rparr>) (remove1 pr prs)" using freepageref_ok [OF ps _ _ pr d] by blast
  let ?h3 = "h2\<lparr>kheaproots := rts\<rparr>"
  have fr3: "heap_frames ?h3 (remove1 pr prs) ((kaddr f, 1) # ex) live"
    using frames_remove [OF fr2 pr _ f(1)] same f(2) frames_cong [of "remove1 pr prs" ?h3 h2] r(2) by simp
  have ok: "block_ok ?h3 (remove1 pr prs) F ex c" if c: "c \<in> set blocks" for c
  proof -
    have "block_ok h prs F ex c" using core c by (simp add: heap_core_def)
    from this [unfolded block_ok_def] show ?thesis
    proof (elim disjE bexE exE conjE)
      fix q y assume q: "q \<in> set prs" and y: "y < 4096" "blocksize (refs h q) dvd y" "y \<notin> set (F q)" "snd c \<le> blocksize (refs h q)"
        "fst c = PR_PAGEADDR (refs h q) + of_nat y"
      have "q \<noteq> pr" using full_free_list [OF fl full y(1)] y(2,3) by auto
      then have "q \<in> set (remove1 pr prs)" using q by simp
      then show ?thesis using y same unfolding block_ok_def by (intro disjI1 bexI [of _ q] exI [of _ y]) simp_all
    qed (auto simp: block_ok_def)
  qed
  have "heap_core k blocks live' (remove1 pr prs) F ex ?h3" if "set live' = set live - {(f, 1)}" for live'
    using frames_drop [OF fr3 that] r(3) h2(2) ok core by (simp add: heap_core_def heap_pages_def)
  then show ?thesis using h2(1,4) r(1) by (intro exI [of _ h2] exI [of _ ?h3]) simp
qed

lemma kfree_block:
  assumes ps: "page_state live s" and core: "heap_core k blocks live prs F ex (km_heap s)" and pr: "pr \<in> set prs"
    and x: "x < 4096" "blocksize (refs (km_heap s) pr) dvd x" "x \<notin> set (F pr)" and a: "a = PR_PAGEADDR (refs (km_heap s) pr) + of_nat x"
    and rest: "set rest \<subseteq> set blocks" "distinct (map fst rest)" "a \<notin> fst ` set rest"
  shows "\<exists>s'. kfree a s = Inr s' \<and> heap_inv k rest s' \<and> keep_words rest (km_heap s) (km_heap s')"
proof -
  let ?h = "km_heap s"
  have hp: "heap_pages ?h prs F" and fr: "heap_frames ?h prs ex live" using core by (simp_all add: heap_core_def)
  obtain f where f: "(f, 1) \<in> set live" "f < 131072" "PR_PAGEADDR (refs ?h pr) = kaddr f" by (rule page_of [OF ps fr pr])
  let ?sz = "blocksize (refs ?h pr)"
  have a': "a = kaddr f + of_nat x" using a f(3) by simp
  from put_block_core [OF ps core pr f(2,3) x rest(1,2)] obtain h1 where h1: "put_block pr (of_nat x) (fill_deadbeef a ?sz ?h) = Inr h1"
    "heap_core k rest live prs (F(pr := x # F pr)) ex h1" "keep_words rest ?h h1" "unat (nfree (refs h1 pr)) = Suc (length (F pr))"
    "pageaddr_and_blocktype (refs h1 pr) = pageaddr_and_blocktype (refs ?h pr)" using rest(3) a' by auto
  have type: "PR_PAGEADDR (refs h1 pr) = kaddr f" "PR_BLOCKTYPE (refs h1 pr) = PR_BLOCKTYPE (refs ?h pr)" "blocksize (refs h1 pr) = ?sz"
    using h1(5) f(3) by (simp_all add: PR_PAGEADDR_def PR_BLOCKTYPE_def blocksize_def)
  have "free_list (refs h1 pr) (x # F pr) (words h1)" using h1(2) pr unfolding heap_core_def heap_pages_def by (metis fun_upd_same)
  then have le: "Suc (length (F pr)) \<le> 4096 div ?sz" using free_list_length [of "refs h1 pr" "x # F pr" "words h1"] type(3) by simp
  have nz: "a \<noteq> 0" "pr \<noteq> 0"
    using unat_in_page [OF ps f(1), of x] x(1) a' hp chain_nonzero pr by (auto simp: heap_pages_def)
  have "find_owner (refs ?h) a (allbase ?h) = Some (Inr pr)"
    using find_owner_ok [OF ps core f(2) x(1)] find_page_addr [OF fr pr f(3)] a' by simp
  moreover have "\<not> PAGE_SIZE \<le> (of_nat x :: u32)" "unat (of_nat x :: u32) = x" using x(1) by (simp_all add: word_le_nat_alt unat_of_nat)
  moreover have "a - kaddr f = of_nat x" by (simp add: a')
  ultimately have eq: "subpage_kfree a s = (if Suc (length (F pr)) = 4096 div ?sz then
      sbind (remove_lists pr (unat (PR_BLOCKTYPE (refs ?h pr))) h1) (\<lambda>h. sbind (freepageref pr h) (\<lambda>h. sbind (km_rel (km_enter (s\<lparr>km_heap := h\<rparr>))) (\<lambda>s.
      sbind (free_kpages (kaddr f) s) (\<lambda>s. Inr (0, s)))))
    else sbind (km_rel (km_enter (s\<lparr>km_heap := h1\<rparr>))) (\<lambda>s. Inr (0, s)))"
    using x(2) nz(2) h1(1,4) le f(3)
    by (simp add: subpage_kfree_def km_acq_ok [OF ps] loop_result_def Let_def blocksize_def km_enter_upd dvd_eq_mod_eq_0 kassert_def)
  show ?thesis
  proof (cases "Suc (length (F pr)) = 4096 div ?sz")
    case False
    have ps1: "page_state live (s\<lparr>km_heap := h1\<rparr>)" using ps by simp
    have "kfree a s = Inr (s\<lparr>km_heap := h1\<rparr>)" using eq False nz(1) km_rel_ok [OF ps1] by (simp add: kfree_def)
    then show ?thesis using ps h1(2,3) unfolding heap_inv_def by auto
  next
    case True
    then have "length ((F(pr := x # F pr)) pr) = 4096 div blocksize (refs h1 pr)" using type(3) by simp
    from release_page [OF ps h1(2) pr f(1) type(1) this] obtain h2 h3 where h3: "remove_lists pr (unat (PR_BLOCKTYPE (refs h1 pr))) h1 = Inr h2"
      "freepageref pr h2 = Inr h3" "words h3 = words h1"
      "\<And>live'. set live' = set live - {(f, 1)} \<Longrightarrow> heap_core k rest live' (remove1 pr prs) (F(pr := x # F pr)) ex h3" by blast
    have ps3: "page_state live (s\<lparr>km_heap := h3\<rparr>)" using ps by simp
    from free_kpages_ok [OF ps3 f(1)] obtain s' live' where s': "free_kpages (kaddr f) (s\<lparr>km_heap := h3\<rparr>) = Inr s'" "page_state live' s'"
      "km_heap s' = h3" "set live' = set live - {(f, 1)}" by auto
    have "kfree a s = Inr s'" using eq True nz(1) h3(1,2) type(2) km_rel_ok [OF ps3] s'(1) by (simp add: kfree_def)
    moreover have "heap_inv k rest s'" using s'(2,3) h3(4) [OF s'(4)] unfolding heap_inv_def by blast
    moreover have "keep_words rest ?h h3" using h1(3) h3(3) by (simp add: keep_words_def)
    ultimately show ?thesis using s'(3) by auto
  qed
qed

lemma kfree_ok:
  assumes inv: "heap_inv k blocks s" and i: "i < length blocks"
  defines "rest \<equiv> take i blocks @ drop (Suc i) blocks"
  shows "\<exists>s'. kfree (fst (blocks ! i)) s = Inr s' \<and> heap_inv k rest s' \<and> keep_words rest (km_heap s) (km_heap s')"
proof -
  from inv obtain live prs F ex where ps: "page_state live s" and core: "heap_core k blocks live prs F ex (km_heap s)"
    unfolding heap_inv_def by blast
  have split: "blocks = take i blocks @ blocks ! i # drop (Suc i) blocks" by (rule id_take_nth_drop [OF i])
  have "distinct (map fst (take i blocks @ blocks ! i # drop (Suc i) blocks))" using core split by (simp add: heap_core_def)
  then have rest: "distinct (map fst rest)" "fst (blocks ! i) \<notin> fst ` set rest" by (auto simp: rest_def)
  have sub: "set rest \<subseteq> set blocks" unfolding rest_def by (auto dest: in_set_takeD in_set_dropD)
  have "block_ok (km_heap s) prs F ex (blocks ! i)" using core i by (simp add: heap_core_def)
  from this [unfolded block_ok_def] show ?thesis
  proof (elim disjE bexE exE conjE)
    fix pr x assume "pr \<in> set prs" "x < 4096" "blocksize (refs (km_heap s) pr) dvd x" "x \<notin> set (F pr)"
      "fst (blocks ! i) = PR_PAGEADDR (refs (km_heap s) pr) + of_nat x"
    then show ?thesis by (rule kfree_block [OF ps core _ _ _ _ _ sub rest])
  next
    fix m assume "(fst (blocks ! i), m) \<in> set ex"
    then show ?thesis by (rule kfree_run [OF ps core _ sub rest])
  qed
qed

section \<open>The contract of the heap\<close>

text \<open>
  A client asks for blocks, gives blocks back, and writes into the blocks that it holds. \<open>cells\<close> lists the held blocks
  with their sizes and what was written to them; \<open>k\<close> counts the requests that failed. A run ends early after 256 failed
  requests.
\<close>

datatype heap_op = Kmalloc u32 | Kfree nat | Kwrite nat nat u32

type_synonym cell = "vaddr \<times> nat \<times> (nat \<rightharpoonup> u32)"

fun run_heap :: "(u32 \<Rightarrow> 's \<Rightarrow> (vaddr \<times> 's) kres) \<Rightarrow> (vaddr \<Rightarrow> 's \<Rightarrow> 's kres) \<Rightarrow> (vaddr \<Rightarrow> u32 \<Rightarrow> 's \<Rightarrow> 's) \<Rightarrow>
    heap_op list \<Rightarrow> nat \<Rightarrow> cell list \<Rightarrow> 's \<Rightarrow> (cell list \<times> 's) kres" where
  "run_heap alloc free poke [] k cells s = Inr (cells, s)"
| "run_heap alloc free poke (Kmalloc n # ops) k cells s =
     sbind (alloc n s) (\<lambda>(a, s).
       if a \<noteq> 0 then run_heap alloc free poke ops k ((a, unat n, Map.empty) # cells) s
       else if Suc k < 256 then run_heap alloc free poke ops (Suc k) cells s else Inr (cells, s))"
| "run_heap alloc free poke (Kfree i # ops) k cells s =
     (if i < length cells then
        sbind (free (fst (cells ! i)) s) (\<lambda>s. run_heap alloc free poke ops k (take i cells @ drop (Suc i) cells) s)
      else run_heap alloc free poke ops k cells s)"
| "run_heap alloc free poke (Kwrite i d v # ops) k cells s =
     (if i < length cells \<and> d < fst (snd (cells ! i)) then
        (case cells ! i of (a, n, c) \<Rightarrow> run_heap alloc free poke ops k (cells[i := (a, n, c(d \<mapsto> v))]) (poke (a + of_nat d) v s))
      else run_heap alloc free poke ops k cells s)"

fun heap_op_ok :: "heap_op \<Rightarrow> bool" where
  "heap_op_ok (Kmalloc n) = (unat n < 2 ^ 31 - 4096)"
| "heap_op_ok (Kfree i) = True"
| "heap_op_ok (Kwrite i d v) = True"

definition cell_block :: "cell \<Rightarrow> vaddr \<times> nat" where
  "cell_block c = (fst c, fst (snd c))"

fun blocks_disjoint :: "(vaddr \<times> nat) list \<Rightarrow> bool" where
  "blocks_disjoint [] \<longleftrightarrow> True"
| "blocks_disjoint (b # bs) \<longleftrightarrow> (\<forall>c \<in> set bs. block_addrs b \<inter> block_addrs c = {}) \<and> blocks_disjoint bs"

definition contents_ok :: "('s \<Rightarrow> vaddr \<Rightarrow> u32) \<Rightarrow> cell list \<Rightarrow> 's \<Rightarrow> bool" where
  "contents_ok peek cells s \<longleftrightarrow> (\<forall>(a, n, c) \<in> set cells. \<forall>d v. c d = Some v \<longrightarrow> d < n \<and> peek s (a + of_nat d) = v)"

lemma blocks_disjoint_nth:
  "blocks_disjoint bs \<Longrightarrow> i < length bs \<Longrightarrow> j < length bs \<Longrightarrow> i \<noteq> j \<Longrightarrow> block_addrs (bs ! i) \<inter> block_addrs (bs ! j) = {}"
proof (induction bs arbitrary: i j)
  case (Cons b bs)
  then show ?case by (cases i; cases j) (auto simp: Int_commute)
qed simp

lemma contents_okD: "contents_ok peek cells s \<Longrightarrow> (a, n, c) \<in> set cells \<Longrightarrow> c d = Some v \<Longrightarrow> d < n \<and> peek s (a + of_nat d) = v"
  unfolding contents_ok_def by blast

locale block_allocator =
  fixes alloc :: "u32 \<Rightarrow> 's \<Rightarrow> (vaddr \<times> 's) kres"
    and free :: "vaddr \<Rightarrow> 's \<Rightarrow> 's kres"
    and poke :: "vaddr \<Rightarrow> u32 \<Rightarrow> 's \<Rightarrow> 's"
    and peek :: "'s \<Rightarrow> vaddr \<Rightarrow> u32"
    and inv :: "nat \<Rightarrow> (vaddr \<times> nat) list \<Rightarrow> 's \<Rightarrow> bool"
  assumes inv_disjoint: "inv k blocks s \<Longrightarrow> blocks_disjoint blocks"
    and inv_addr: "inv k blocks s \<Longrightarrow> b \<in> set blocks \<Longrightarrow> d < snd b \<Longrightarrow> unat (fst b + of_nat d) = unat (fst b) + d"
    and alloc_ok: "inv k blocks s \<Longrightarrow> k < 256 \<Longrightarrow> unat n < 2 ^ 31 - 4096 \<Longrightarrow> \<exists>a s'. alloc n s = Inr (a, s') \<and>
      (\<forall>b \<in> set blocks. \<forall>d < snd b. peek s' (fst b + of_nat d) = peek s (fst b + of_nat d)) \<and>
      (if a = 0 then inv (Suc k) blocks s' else inv k ((a, unat n) # blocks) s')"
    and free_ok: "inv k blocks s \<Longrightarrow> i < length blocks \<Longrightarrow> \<exists>s'. free (fst (blocks ! i)) s = Inr s' \<and>
      inv k (take i blocks @ drop (Suc i) blocks) s' \<and>
      (\<forall>b \<in> set (take i blocks @ drop (Suc i) blocks). \<forall>d < snd b. peek s' (fst b + of_nat d) = peek s (fst b + of_nat d))"
    and poke_ok: "inv k blocks s \<Longrightarrow> b \<in> set blocks \<Longrightarrow> d < snd b \<Longrightarrow> inv k blocks (poke (fst b + of_nat d) v s)"
    and peek_poke: "peek (poke a v s) a' = (if a' = a then v else peek s a')"
begin

lemma contents_keep:
  assumes "contents_ok peek cells s" and "set cells' \<subseteq> set cells"
    and "\<And>b d. b \<in> set (map cell_block cells') \<Longrightarrow> d < snd b \<Longrightarrow> peek s' (fst b + of_nat d) = peek s (fst b + of_nat d)"
  shows "contents_ok peek cells' s'"
  unfolding contents_ok_def
proof (clarify, intro conjI)
  fix a n c d v assume c: "(a, n, c) \<in> set cells'" "c d = Some v"
  then have old: "d < n" "peek s (a + of_nat d) = v" using contents_okD [OF assms(1)] assms(2) by blast+
  moreover have "(a, n) \<in> set (map cell_block cells')" using c(1) by (force simp: cell_block_def)
  ultimately show "d < n" "peek s' (a + of_nat d) = v" using assms(3) [of "(a, n)" d] by simp_all
qed

lemma write_ok:
  assumes inv: "inv k (map cell_block cells) s" and con: "contents_ok peek cells s" and i: "i < length cells" "cells ! i = (a, n, c)" "d < n"
  shows "inv k (map cell_block (cells[i := (a, n, c(d \<mapsto> v))])) (poke (a + of_nat d) v s) \<and>
    contents_ok peek (cells[i := (a, n, c(d \<mapsto> v))]) (poke (a + of_nat d) v s)"
proof -
  let ?cells = "cells[i := (a, n, c(d \<mapsto> v))]"
  have same: "map cell_block ?cells = map cell_block cells" using i by (simp add: map_update cell_block_def list_update_same_conv)
  have mem: "(a, n) \<in> set (map cell_block cells)" using i by (force simp: cell_block_def in_set_conv_nth)
  have "peek (poke (a + of_nat d) v s) (a' + of_nat d') = v' \<and> d' < n'" if c': "j < length cells" "?cells ! j = (a', n', c')" "c' d' = Some v'" for j a' n' c' d' v'
  proof (cases "j = i")
    case True
    then have eq: "a' = a" "n' = n" "c' = c(d \<mapsto> v)" using c'(2) i(1) by simp_all
    show ?thesis
    proof (cases "d' = d")
      case True
      then show ?thesis using c'(3) eq i(3) by (simp add: peek_poke)
    next
      case False
      then have "c d' = Some v'" using c'(3) eq by simp
      then have old: "d' < n" "peek s (a + of_nat d') = v'" using contents_okD [OF con] nth_mem [OF i(1)] i(2) by metis+
      then have "a + of_nat d' \<noteq> a + of_nat d" using inv_addr [OF inv mem, of d'] inv_addr [OF inv mem, of d] i(3) False by auto
      then show ?thesis using old eq by (simp add: peek_poke)
    qed
  next
    case False
    then have cj: "cells ! j = (a', n', c')" using c'(2) by simp
    then have old: "d' < n'" "peek s (a' + of_nat d') = v'" using contents_okD [OF con] c'(3) nth_mem [OF c'(1)] by metis+
    have "block_addrs (map cell_block cells ! j) \<inter> block_addrs (map cell_block cells ! i) = {}"
      using inv_disjoint [OF inv] c'(1) i(1) False by (intro blocks_disjoint_nth) simp_all
    then have apart: "block_addrs (a', n') \<inter> block_addrs (a, n) = {}" using c'(1) i(1,2) cj by (simp add: cell_block_def)
    have "(a', n') \<in> set (map cell_block cells)" using c'(1) cj by (force simp: cell_block_def in_set_conv_nth)
    then have "unat (a' + of_nat d') \<in> block_addrs (a', n')" "unat (a + of_nat d) \<in> block_addrs (a, n)"
      using inv_addr [OF inv, of "(a', n')" d'] inv_addr [OF inv mem, of d] old(1) i(3) by (simp_all add: block_addrs_def)
    then have "a' + of_nat d' \<noteq> a + of_nat d" using apart by auto
    then show ?thesis using old by (simp add: peek_poke)
  qed
  then have "contents_ok peek ?cells (poke (a + of_nat d) v s)" unfolding contents_ok_def by (auto simp: in_set_conv_nth)
  then show ?thesis using poke_ok [OF inv mem, of d v] i(3) by (simp add: same)
qed

lemma run_heap_ok:
  assumes "inv k (map cell_block cells) s" and "k < 256" and "contents_ok peek cells s" and "list_all heap_op_ok ops"
  shows "\<exists>k' cells' s'. run_heap alloc free poke ops k cells s = Inr (cells', s') \<and> inv k' (map cell_block cells') s' \<and> contents_ok peek cells' s'"
  using assms
proof (induction ops arbitrary: k cells s)
  case Nil
  then show ?case by auto
next
  case (Cons op ops)
  note inv = Cons.prems(1) and k = Cons.prems(2) and con = Cons.prems(3)
  have ops: "list_all heap_op_ok ops" using Cons.prems(4) by simp
  show ?case
  proof (cases op)
    case (Kmalloc n)
    have n: "unat n < 2 ^ 31 - 4096" using Cons.prems(4) Kmalloc by simp
    from alloc_ok [OF inv k n] obtain a s1 where a: "alloc n s = Inr (a, s1)"
      "\<And>b d. b \<in> set (map cell_block cells) \<Longrightarrow> d < snd b \<Longrightarrow> peek s1 (fst b + of_nat d) = peek s (fst b + of_nat d)"
      "if a = 0 then inv (Suc k) (map cell_block cells) s1 else inv k ((a, unat n) # map cell_block cells) s1" by blast
    have con1: "contents_ok peek cells s1" by (rule contents_keep [OF con subset_refl a(2)])
    then have con2: "contents_ok peek ((a, unat n, Map.empty) # cells) s1" by (simp add: contents_ok_def)
    show ?thesis
    proof (cases "a = 0")
      case False
      then have "inv k (map cell_block ((a, unat n, Map.empty) # cells)) s1" using a(3) by (simp add: cell_block_def)
      from Cons.IH [OF this k con2 ops] show ?thesis using Kmalloc a(1) False by simp
    next
      case True
      show ?thesis
      proof (cases "Suc k < 256")
        case True
        then show ?thesis using Cons.IH [OF _ _ con1 ops, of "Suc k"] a \<open>a = 0\<close> Kmalloc by simp
      next
        case False
        then show ?thesis using True Kmalloc a(1,3) con1 by auto
      qed
    qed
  next
    case (Kfree i)
    show ?thesis
    proof (cases "i < length cells")
      case True
      let ?cells = "take i cells @ drop (Suc i) cells"
      have map: "map cell_block ?cells = take i (map cell_block cells) @ drop (Suc i) (map cell_block cells)" by (simp add: take_map drop_map)
      have fst: "fst (map cell_block cells ! i) = fst (cells ! i)" using True by (simp add: cell_block_def)
      have "i < length (map cell_block cells)" using True by simp
      from free_ok [OF inv this] obtain s1 where s1: "free (fst (cells ! i)) s = Inr s1" "inv k (map cell_block ?cells) s1"
        "\<And>b d. b \<in> set (map cell_block ?cells) \<Longrightarrow> d < snd b \<Longrightarrow> peek s1 (fst b + of_nat d) = peek s (fst b + of_nat d)"
        unfolding map fst by blast
      have "set ?cells \<subseteq> set cells" by (auto dest: in_set_takeD in_set_dropD)
      from contents_keep [OF con this s1(3)] Cons.IH [OF s1(2) k _ ops] show ?thesis using Kfree True s1(1) by auto
    qed (use Cons.IH [OF inv k con ops] Kfree in simp)
  next
    case (Kwrite i d v)
    obtain a n c where cell: "cells ! i = (a, n, c)" by (cases "cells ! i")
    show ?thesis
    proof (cases "i < length cells \<and> d < n")
      case True
      then show ?thesis using Cons.IH [OF _ k _ ops] write_ok [OF inv con _ cell, of d v] Kwrite cell by simp
    qed (use Cons.IH [OF inv k con ops] Kwrite cell in auto)
  qed
qed

end

text \<open>The kernel writes a word of its memory, and reads one.\<close>

definition heap_poke :: "vaddr \<Rightarrow> u32 \<Rightarrow> 'a kheap_state_scheme \<Rightarrow> 'a kheap_state_scheme" where
  "heap_poke a v s = s\<lparr>km_heap := (km_heap s)\<lparr>words := (words (km_heap s))(a := v)\<rparr>\<rparr>"

definition heap_peek :: "'a kheap_state_scheme \<Rightarrow> vaddr \<Rightarrow> u32" where
  "heap_peek s a = words (km_heap s) a"

lemma free_list_poke:
  assumes ps: "page_state live s" and core: "heap_core k blocks live prs F ex h" and b: "b \<in> set blocks" and d: "d < snd b"
    and pr: "pr \<in> set prs" and y: "y \<in> set (F pr)"
  shows "PR_PAGEADDR (refs h pr) + of_nat y \<noteq> fst b + of_nat d"
proof -
  have hp: "heap_pages h prs F" and fr: "heap_frames h prs ex live" and ok: "block_ok h prs F ex b" using core b by (simp_all add: heap_core_def)
  obtain f m x where f: "(f, m) \<in> set live" "fst b = kaddr f + of_nat x" "x + snd b \<le> m * 4096" "x < m * 4096"
    "(\<exists>pr \<in> set prs. m = 1 \<and> PR_PAGEADDR (refs h pr) = kaddr f \<and> blocksize (refs h pr) dvd x \<and> snd b \<le> blocksize (refs h pr)) \<or> (x = 0 \<and> (kaddr f, m) \<in> set ex)"
    by (rule block_run [OF ps hp fr ok])
  obtain g where g: "(g, 1) \<in> set live" "g < 131072" "PR_PAGEADDR (refs h pr) = kaddr g" by (rule page_of [OF ps fr pr])
  have fl: "free_list (refs h pr) (F pr) (words h)" using hp pr by (simp add: heap_pages_def)
  then have y': "y < 4096" "blocksize (refs h pr) dvd y" using y by (simp_all add: free_list_def)
  show ?thesis
  proof (cases "f = g")
    case False
    have "y < 1 * 4096" using y'(1) by simp
    then have "fst b + of_nat d \<noteq> kaddr g + of_nat y" by (rule block_off_page [OF ps f(1-4) g(1) _ False d])
    then show ?thesis using g(3) by metis
  next
    case True
    have "(kaddr f, m) \<notin> set ex" using ex_differ [OF fr pr] g(3) True by metis
    then obtain q where q: "q \<in> set prs" "m = 1" "PR_PAGEADDR (refs h q) = kaddr f" "blocksize (refs h q) dvd x" "snd b \<le> blocksize (refs h q)" using f(5) by blast
    have "q = pr" using pages_differ [OF fr pr q(1)] q(3) g(3) True by metis
    have "PR_PAGEADDR (refs h pr) + of_nat y \<noteq> fst b" using page_block_fresh [OF ps core pr y'(1) y] b by auto
    then have "x \<noteq> y" using f(2) g(3) True by auto
    then have "y \<noteq> x + d" using q(4,5) \<open>q = pr\<close> y'(2) d by (intro multiples_apart [of "blocksize (refs h pr)"]) simp_all
    moreover have "x + d < 4096" using f(3) q(2) d by simp
    ultimately have "kaddr g + of_nat y \<noteq> kaddr g + of_nat (x + d)" using page_offset_inj [OF _ g(2,2) y'(1)] by blast
    then show ?thesis using f(2) g(3) True by (simp add: add.assoc)
  qed
qed

lemma heap_poke_inv:
  assumes inv: "heap_inv k blocks s" and b: "b \<in> set blocks" and d: "d < snd b"
  shows "heap_inv k blocks (heap_poke (fst b + of_nat d) v s)"
proof -
  from inv obtain live prs F ex where ps: "page_state live s" and core: "heap_core k blocks live prs F ex (km_heap s)"
    unfolding heap_inv_def by blast
  let ?h = "km_heap s" and ?w = "(words (km_heap s))(fst b + of_nat d := v)"
  have "free_list (refs ?h pr) (F pr) ?w" if pr: "pr \<in> set prs" for pr
  proof -
    have "linked ?w (PR_PAGEADDR (refs ?h pr)) (F pr) = linked (words ?h) (PR_PAGEADDR (refs ?h pr)) (F pr)"
      using free_list_poke [OF ps core b d pr] by (intro free_linked_cong) simp
    then show ?thesis using core pr by (simp add: heap_core_def heap_pages_def free_list_def)
  qed
  then have "heap_core k blocks live prs F ex (?h\<lparr>words := ?w\<rparr>)"
    using core by (simp add: heap_core_def heap_pages_def heap_roots_def heap_frames_def own_pages_def block_ok_def)
  then show ?thesis using ps unfolding heap_inv_def heap_poke_def by auto
qed

lemma heap_inv_disjoint:
  assumes inv: "heap_inv k blocks s"
  shows "blocks_disjoint blocks"
proof -
  from inv obtain live prs F ex where ps: "page_state live s" and core: "heap_core k blocks live prs F ex (km_heap s)" unfolding heap_inv_def by blast
  have "blocks_disjoint bs" if "distinct bs" "set bs \<subseteq> set blocks" for bs
    using that
  proof (induction bs)
    case (Cons b bs)
    have "block_addrs b \<inter> block_addrs c = {}" if "c \<in> set bs" for c using Cons.prems that by (intro blocks_apart [OF ps core]) auto
    then show ?case using Cons by simp
  qed simp
  moreover have "distinct blocks" using core by (auto simp: heap_core_def distinct_map)
  ultimately show ?thesis by simp
qed

lemma heap_inv_addr:
  assumes inv: "heap_inv k blocks s" and b: "b \<in> set blocks" and d: "d < snd b"
  shows "unat (fst b + of_nat d) = unat (fst b) + d"
proof -
  from inv obtain live prs F ex where ps: "page_state live s" and core: "heap_core k blocks live prs F ex (km_heap s)" unfolding heap_inv_def by blast
  have hp: "heap_pages (km_heap s) prs F" and fr: "heap_frames (km_heap s) prs ex live" and ok: "block_ok (km_heap s) prs F ex b" using core b by (simp_all add: heap_core_def)
  obtain f m x where f: "(f, m) \<in> set live" "fst b = kaddr f + of_nat x" "x + snd b \<le> m * 4096" "x < m * 4096" by (rule block_run [OF ps hp fr ok])
  show ?thesis using unat_block [OF ps f(1,3,4) d] f(2) by simp
qed

interpretation kernel_heap: block_allocator kmalloc kfree heap_poke heap_peek heap_inv
proof unfold_locales
  fix k blocks and n :: u32 and s :: "'a kheap_state_scheme"
  assume "heap_inv k blocks s" and "k < 256" and "unat n < 2 ^ 31 - 4096"
  from kmalloc_ok [OF this] show "\<exists>a s'. kmalloc n s = Inr (a, s') \<and>
      (\<forall>b \<in> set blocks. \<forall>d < snd b. heap_peek s' (fst b + of_nat d) = heap_peek s (fst b + of_nat d)) \<and>
      (if a = 0 then heap_inv (Suc k) blocks s' else heap_inv k ((a, unat n) # blocks) s')"
    unfolding alloc_outcome_def keep_words_def heap_peek_def by (metis prod.collapse)
next
  fix k blocks i and s :: "'a kheap_state_scheme"
  assume "heap_inv k blocks s" and "i < length blocks"
  from kfree_ok [OF this] show "\<exists>s'. kfree (fst (blocks ! i)) s = Inr s' \<and> heap_inv k (take i blocks @ drop (Suc i) blocks) s' \<and>
      (\<forall>b \<in> set (take i blocks @ drop (Suc i) blocks). \<forall>d < snd b. heap_peek s' (fst b + of_nat d) = heap_peek s (fst b + of_nat d))"
    unfolding keep_words_def heap_peek_def .
next
  fix a v a' and s :: "'a kheap_state_scheme"
  show "heap_peek (heap_poke a v s) a' = (if a' = a then v else heap_peek s a')" by (simp add: heap_peek_def heap_poke_def)
qed (fact heap_inv_disjoint heap_inv_addr heap_poke_inv)+

section \<open>The checks of the heap\<close>

lemma check_free_ok:
  assumes "linked w (kaddr f) xs" and "\<And>x. x \<in> set xs \<Longrightarrow> x < 4096 \<and> sz dvd x" and "distinct xs" and f: "f < 131072"
  shows "check_free w (kaddr f) sz (case xs of [] \<Rightarrow> 0 | x # ys \<Rightarrow> kaddr f + of_nat x) n = Some (Inr (n + length xs))"
  using assms(1-3)
proof (induction xs arbitrary: n)
  case Nil
  then show ?case by (simp add: check_free.simps)
next
  case (Cons x xs)
  let ?a = "kaddr f + of_nat x"
  have x: "x < 4096" "sz dvd x" using Cons.prems(2) by simp_all
  have off: "unat (?a - kaddr f) = x" using x(1) by (simp add: unat_of_nat)
  have nz: "?a \<noteq> 0"
  proof
    assume "?a = 0"
    then show False using unat_kaddr [of f] f x(1) by (simp add: unat_word_ariths unat_of_nat word_unat_eq_iff)
  qed
  have nxt: "w ?a = (case xs of [] \<Rightarrow> 0 | y # ys \<Rightarrow> kaddr f + of_nat y)" using Cons.prems(1) by simp
  moreover have "(case xs of [] \<Rightarrow> 0 | y # ys \<Rightarrow> kaddr f + of_nat y) \<noteq> ?a"
  proof (cases xs)
    case (Cons y ys)
    then have "y < 4096" "y \<noteq> x" using Cons.prems(2,3) by auto
    then show ?thesis using page_offset_inj [OF _ f f _ x(1), of y] Cons by auto
  qed (use nz in simp)
  moreover have "check_free w (kaddr f) sz (case xs of [] \<Rightarrow> 0 | y # ys \<Rightarrow> kaddr f + of_nat y) (n + 1) = Some (Inr (n + 1 + length xs))"
    using Cons.prems by (intro Cons.IH) simp_all
  ultimately show ?case using nz off x(2) in_page_iff [OF f f x(1)] by (subst check_free.simps) (simp add: dvd_eq_mod_eq_0)
qed

lemma stat_free_ok:
  assumes "linked w (kaddr f) xs" and "\<And>x. x \<in> set xs \<Longrightarrow> x < 4096 \<and> x div sz < n" and f: "f < 131072"
  shows "stat_free w (kaddr f) sz n (case xs of [] \<Rightarrow> 0 | x # ys \<Rightarrow> kaddr f + of_nat x) m = Some (Inr (fold (\<lambda>x m. m[x div sz := True]) xs m))"
  using assms(1,2)
proof (induction xs arbitrary: m)
  case Nil
  then show ?case by (simp add: stat_free.simps)
next
  case (Cons x xs)
  let ?a = "kaddr f + of_nat x"
  have x: "x < 4096" "x div sz < n" using Cons.prems(2) by simp_all
  have off: "unat (?a - kaddr f) = x" using x(1) by (simp add: unat_of_nat)
  have nz: "?a \<noteq> 0"
  proof
    assume "?a = 0"
    then show False using unat_kaddr [of f] f x(1) by (simp add: unat_word_ariths unat_of_nat word_unat_eq_iff)
  qed
  have "w ?a = (case xs of [] \<Rightarrow> 0 | y # ys \<Rightarrow> kaddr f + of_nat y)" using Cons.prems(1) by simp
  then show ?case using nz off x(2) Cons.IH [of "m[x div sz := True]"] Cons.prems by (subst stat_free.simps) (simp add: Let_def)
qed

lemma km_holds: "page_state live s \<Longrightarrow> spinlock_do_i_hold (kmalloc_spinlock (km_enter s)) (km_enter s)"
  using page_state_cpu [of live s] by (simp add: spinlock_do_i_hold_def held_by_def)

text \<open>Where the free list of a page starts.\<close>

lemma free_list_start:
  assumes "free_list p fl w" and "fl \<noteq> []" and "PR_PAGEADDR p = kaddr f"
  shows "freelist_offset p \<noteq> INVALID_OFFSET" "unat (freelist_offset p) = hd fl"
    "kaddr f + ucast (freelist_offset p) = (case fl of [] \<Rightarrow> 0 | x # xs \<Rightarrow> kaddr f + of_nat x)"
proof -
  obtain x xs where fl: "fl = x # xs" using assms(2) by (cases fl) auto
  have x: "x < 4096" "freelist_offset p = of_nat x" using assms(1) by (simp_all add: free_list_def fl)
  then show u: "unat (freelist_offset p) = hd fl" by (simp add: fl unat_of_nat)
  then show "freelist_offset p \<noteq> INVALID_OFFSET" using x(1) by (auto simp: fl)
  show "kaddr f + ucast (freelist_offset p) = (case fl of [] \<Rightarrow> 0 | x # xs \<Rightarrow> kaddr f + of_nat x)"
    using x ucast_of_nat [of x, where 'a = 16 and 'b = 32] by (simp add: fl)
qed

lemma checksubpage_ok:
  assumes ps: "page_state live s" and core: "heap_core k blocks live prs F ex (km_heap s)" and pr: "pr \<in> set prs"
  shows "checksubpage pr (km_enter s) = Inr ()"
proof -
  let ?h = "km_heap s" and ?p = "refs (km_heap s) pr"
  have hp: "heap_pages ?h prs F" and fr: "heap_frames ?h prs ex live" using core by (simp_all add: heap_core_def)
  have fl: "free_list ?p (F pr) (words ?h)" using hp pr by (simp add: heap_pages_def)
  obtain f where f: "(f, 1) \<in> set live" "f < 131072" "PR_PAGEADDR ?p = kaddr f" by (rule page_of [OF ps fr pr])
  show ?thesis
  proof (cases "F pr = []")
    case True
    then have "freelist_offset ?p = INVALID_OFFSET" "nfree ?p = 0" using fl by (simp_all add: free_list_def unat_eq_0)
    then show ?thesis using km_holds [OF ps] by (simp add: checksubpage_def)
  next
    case False
    note start = free_list_start [OF fl False f(3)]
    have hd: "hd (F pr) < 4096" "blocksize ?p dvd hd (F pr)" using fl hd_in_set [OF False] by (simp_all add: free_list_def)
    have kseg: "MIPS_KSEG0 \<le> kaddr f" "kaddr f < MIPS_KSEG1" using unat_kaddr [of f] f(2) by (simp_all add: word_le_nat_alt word_less_nat_alt)
    have "check_free (words ?h) (kaddr f) (blocksize ?p) (kaddr f + ucast (freelist_offset ?p)) 0 = Some (Inr (length (F pr)))"
      using fl f(3) unfolding start(3) by (subst check_free_ok [OF _ _ _ f(2)]) (auto simp: free_list_def)
    then show ?thesis using start(1,2) hd kseg fl f(3) km_holds [OF ps]
      by (simp add: checksubpage_def Let_def loop_result_def blocksize_def [symmetric] dvd_eq_mod_eq_0 free_list_def)
  qed
qed

lemma check_pages_chain:
  assumes "chain nxt p xs" and "\<And>x. x \<in> set xs \<Longrightarrow> check x = Inr ()" and "n + length xs \<le> TOTAL_PAGEREFS"
  shows "check_pages nxt check p n = Some (Inr (n + length xs))"
  using assms by (induction xs arbitrary: p n) (auto simp: check_pages.simps)

lemma roots_bound:
  assumes "heap_roots k h prs" and "distinct prs"
  shows "length prs \<le> TOTAL_PAGEREFS"
proof -
  have "set prs \<subseteq> (\<lambda>(r, j). kr_page (kheaproots h ! r) + 16 * of_nat j) ` ({..<16} \<times> {..<256})"
    using heap_roots_slots [OF assms(1)] by (fastforce simp: has_slot_def)
  then have "card (set prs) \<le> card ({..<16 :: nat} \<times> {..<256 :: nat})" by (meson card_image_le card_mono finite_SigmaI finite_imageI finite_lessThan order_trans)
  then show ?thesis using assms(2) by (simp add: distinct_card)
qed

lemma filter_less_Suc: "length (filter (\<lambda>x. g x < Suc m) xs) = length (filter (\<lambda>x. g x < m) xs) + length (filter (\<lambda>x. g x = m) xs)"
  by (induction xs) auto

lemma checksubpages_ok:
  assumes inv: "heap_inv k blocks s"
  shows "checksubpages (km_enter s) = Inr ()"
proof -
  from inv obtain live prs F ex where ps: "page_state live s" and core: "heap_core k blocks live prs F ex (km_heap s)" unfolding heap_inv_def by blast
  let ?h = "km_heap s" and ?t = "\<lambda>pr. unat (PR_BLOCKTYPE (refs (km_heap s) pr))"
  let ?walk = "\<lambda>i sc. loop_result (check_pages (\<lambda>p. next_samesize (refs ?h p)) (\<lambda>pr. checksubpage pr (km_enter s)) (sizebases ?h ! i) sc)"
  have hp: "heap_pages ?h prs F" using core by (simp add: heap_core_def)
  have len: "length prs \<le> TOTAL_PAGEREFS" using roots_bound [of k ?h prs] core by (simp add: heap_core_def heap_pages_def)
  have ok: "checksubpage pr (km_enter s) = Inr ()" if "pr \<in> set prs" for pr by (rule checksubpage_ok [OF ps core that])
  have "kfor [0..<m] ?walk 0 = Inr (length (filter (\<lambda>pr. ?t pr < m) prs))" if "m \<le> 8" for m
    using that
  proof (induction m)
    case (Suc m)
    have "chain (\<lambda>p. next_samesize (refs ?h p)) (sizebases ?h ! m) (filter (\<lambda>pr. ?t pr = m) prs)" using hp Suc.prems by (simp add: heap_pages_def)
    moreover have "length (filter (\<lambda>pr. ?t pr < m) prs) + length (filter (\<lambda>pr. ?t pr = m) prs) \<le> TOTAL_PAGEREFS"
      using filter_less_Suc [of ?t m prs] len length_filter_le [of "\<lambda>pr. ?t pr < Suc m" prs] by linarith
    ultimately have "?walk m (length (filter (\<lambda>pr. ?t pr < m) prs)) = Inr (length (filter (\<lambda>pr. ?t pr < Suc m) prs))"
      using ok by (subst check_pages_chain) (auto simp: loop_result_def filter_less_Suc)
    then show ?case using Suc by (simp add: kfor_append)
  qed simp
  from this [of 8] have sizes: "kfor [0..<8] ?walk 0 = Inr (length (filter (\<lambda>pr. ?t pr < 8) prs))" by simp
  have "filter (\<lambda>pr. ?t pr < 8) prs = prs" using hp by (auto simp: heap_pages_def free_list_def)
  moreover have "check_pages (\<lambda>p. next_all (refs ?h p)) (\<lambda>pr. checksubpage pr (km_enter s)) (allbase ?h) 0 = Some (Inr (length prs))"
    using hp ok len by (subst check_pages_chain [where xs = prs]) (auto simp: heap_pages_def)
  ultimately show ?thesis using sizes km_holds [OF ps] by (simp add: checksubpages_def loop_result_def del: upt.simps)
qed

text \<open>The map that \<^verbatim>\<open>kheap_printstats\<close> prints for a page marks the free blocks.\<close>

lemma subpage_stats_ok:
  assumes ps: "page_state live s" and core: "heap_core k blocks live prs F ex (km_heap s)" and pr: "pr \<in> set prs"
  defines "sz \<equiv> blocksize (refs (km_heap s) pr)"
  shows "subpage_stats pr (km_enter s) = Inr (map (\<lambda>i. i * sz \<in> set (F pr)) [0..<4096 div sz])"
proof -
  let ?h = "km_heap s" and ?p = "refs (km_heap s) pr"
  have hp: "heap_pages ?h prs F" and fr: "heap_frames ?h prs ex live" using core by (simp_all add: heap_core_def)
  have fl: "free_list ?p (F pr) (words ?h)" using hp pr by (simp add: heap_pages_def)
  obtain f where f: "(f, 1) \<in> set live" "f < 131072" "PR_PAGEADDR ?p = kaddr f" by (rule page_of [OF ps fr pr])
  have type: "unat (PR_BLOCKTYPE ?p) < 8" using fl by (simp add: free_list_def)
  have sz: "16 \<le> sz" "sz dvd 4096" using sizes_pos [OF type] by (simp_all add: sz_def blocksize_def)
  have n: "4096 div sz \<le> 256" using sz(1) div_le_mono2 [of 16 sz 4096] by simp
  have small: "x < 4096 \<and> sz dvd x" if "x \<in> set (F pr)" for x using fl that by (simp add: free_list_def sz_def)
  let ?map = "fold (\<lambda>x m. m[x div sz := True]) (F pr) (replicate (4096 div sz) False)"
  have "length (fold (\<lambda>x m. m[x div sz := True]) xs m) = length m" for xs and m :: "bool list" by (induction xs arbitrary: m) simp_all
  note lenf = this
  have nthf: "fold (\<lambda>x m. m[x div sz := True]) xs m ! i \<longleftrightarrow> m ! i \<or> i \<in> (\<lambda>x. x div sz) ` set xs" if "i < length m" for xs m i
    using that
  proof (induction xs arbitrary: m)
    case (Cons a xs)
    then show ?case by (cases "a div sz = i") auto
  qed simp
  have "?map = map (\<lambda>i. i * sz \<in> set (F pr)) [0..<4096 div sz]"
  proof (rule nth_equalityI)
    fix i assume "i < length ?map"
    then have i: "i < 4096 div sz" by (simp add: lenf)
    have "i \<in> (\<lambda>x. x div sz) ` set (F pr) \<longleftrightarrow> i * sz \<in> set (F pr)"
    proof
      assume "i \<in> (\<lambda>x. x div sz) ` set (F pr)"
      then show "i * sz \<in> set (F pr)" using small by force
    next
      assume "i * sz \<in> set (F pr)"
      then show "i \<in> (\<lambda>x. x div sz) ` set (F pr)" using sz(1) by (intro image_eqI [of _ _ "i * sz"]) simp_all
    qed
    then show "?map ! i = map (\<lambda>i. i * sz \<in> set (F pr)) [0..<4096 div sz] ! i" using i by (simp add: nthf)
  qed (simp add: lenf)
  moreover have "subpage_stats pr (km_enter s) = Inr ?map"
  proof (cases "F pr = []")
    case True
    then show ?thesis using fl type n km_holds [OF ps] by (simp add: subpage_stats_def free_list_def Let_def sz_def blocksize_def)
  next
    case False
    note start = free_list_start [OF fl False f(3)]
    have "x < 4096 \<and> x div sz < 4096 div sz" if "x \<in> set (F pr)" for x using small [OF that] sz by (simp add: div_less_mono)
    then have "stat_free (words ?h) (kaddr f) sz (4096 div sz) (kaddr f + ucast (freelist_offset ?p)) (replicate (4096 div sz) False) = Some (Inr ?map)"
      using fl f(3) unfolding start(3) by (subst stat_free_ok [OF _ _ f(2)]) (auto simp: free_list_def)
    then show ?thesis using start(1) type n f(3) km_holds [OF ps]
      by (simp add: subpage_stats_def Let_def loop_result_def sz_def blocksize_def)
  qed
  ultimately show ?thesis by simp
qed

section \<open>Properties\<close>

text \<open>The heap as the kernel finds it when it starts: the static variables of \<^verbatim>\<open>kmalloc.c\<close> are zero.\<close>

definition heap_empty :: "kheap \<Rightarrow> bool" where
  "heap_empty h \<longleftrightarrow> kheaproots h = replicate NUM_PAGEREFPAGES \<lparr>kr_page = 0, pagerefs_inuse = replicate INUSE_WORDS 0, numinuse = 0\<rparr> \<and>
     sizebases h = replicate NSIZES 0 \<and> allbase h = 0"

lemma heap_empty_inv:
  assumes ps: "page_state live s" and h: "heap_empty (km_heap s)"
  shows "heap_inv 0 [] s"
proof -
  let ?root = "\<lparr>kr_page = 0, pagerefs_inuse = replicate INUSE_WORDS 0, numinuse = 0\<rparr>"
  have "\<not> used ?root j" if "j < 256" for j
  proof -
    have "j div 32 < 8" using that by (simp add: div_less_iff_less_mult)
    then show ?thesis by (simp add: used_def)
  qed
  then have none: "{j. j < 256 \<and> used ?root j} = {}" by auto
  have "root_ok ?root" unfolding root_ok_def none by simp
  then have "heap_roots 0 (km_heap s) []" using h by (simp add: heap_roots_def heap_empty_def del: replicate.simps)
  moreover have "heap_pages (km_heap s) [] F" for F using h by (simp add: heap_pages_def heap_empty_def del: replicate.simps)
  moreover have "heap_frames (km_heap s) [] [] live" using h by (simp add: heap_frames_def own_pages_def heap_empty_def del: replicate.simps)
  ultimately have "heap_core 0 [] live [] F [] (km_heap s)" for F by (simp add: heap_core_def)
  then show ?thesis using ps unfolding heap_inv_def by (intro conjI exI) simp_all
qed

text \<open>When the page for pagerefs cannot be had, \<^verbatim>\<open>allocpageref\<close> leaves its mark in the root, and \<^verbatim>\<open>freepageref\<close> stops the
  kernel as long as the root has no page.\<close>

lemma allocpageref_leak:
  assumes ps: "page_state live s" and roots: "heap_roots k (km_heap s) prs" and root: "kr_page (root_of 0 s) = 0" "unat (numinuse (root_of 0 s)) < 256"
    and full: "alloc_kpages 1 (set_root 0 root s) = Inr (0, set_root 0 root s)"
    and marked: "root = mark_slot i j (root_of 0 s)" "find (\<lambda>i. pagerefs_inuse (root_of 0 s) ! i \<noteq> 0xffffffff) [0..<INUSE_WORDS] = Some i"
      "free_bit (pagerefs_inuse (root_of 0 s) ! i) = Some j"
  shows "allocpageref (km_enter s) = Inr (0, km_enter (set_root 0 root s)) \<and>
    freepageref p (km_heap (set_root 0 root s)) = Inl (AssertFail ''root->numinuse == 0'')"
proof -
  let ?s = "set_root 0 root s"
  have len: "length (kheaproots (km_heap s)) = 16" using roots by (simp add: heap_roots_def)
  have rt: "root_of 0 ?s = root" using len by (simp add: root_of_def set_root_def)
  have page: "kr_page root = 0" using root(1) marked(1) by simp
  have ps': "page_state live ?s" using ps by simp
  have "allocpagerefpage 0 (km_enter ?s) = Inr (km_enter ?s)"
    using page full by (simp add: allocpagerefpage_def rt km_rel_ok [OF ps'] km_acq_ok [OF ps'])
  moreover have "[0..<16] = 0 # [1..<16]" by (simp add: upt_conv_Cons)
  ultimately have "allocpageref (km_enter s) = Inr (0, km_enter ?s)"
    using root marked rt page by (simp add: allocpageref_def marked(1) [symmetric] set_root_enter Let_def del: upt.simps)
  moreover have "unat (numinuse root) = Suc (unat (numinuse (root_of 0 s)))" using root(2) marked(1) by (simp add: unat_word_ariths)
  then have "numinuse root \<noteq> 0" by auto
  then have "freepageref p (km_heap ?s) = Inl (AssertFail ''root->numinuse == 0'')"
    using len page \<open>[0..<16] = 0 # [1..<16]\<close> by (simp add: freepageref_def set_root_def Let_def del: upt.simps)
  ultimately show ?thesis by blast
qed

text \<open>C17: The heap stays well formed. With the frame tables active, a thread that holds no spinlock and an
  empty heap, every sequence of requests of less than 2 GB less a page, releases of held blocks and writes into held
  blocks returns, up to the 256th request that fails for want of memory, where it stops; and then the consistency
  check that \<^verbatim>\<open>kmalloc.c\<close> brings along for debugging, over all lists of pages and all free
  lists, passes.\<close>

theorem kernel_heap_checks:
  assumes "page_state live s" and "heap_empty (km_heap s)" and "list_all heap_op_ok ops"
  shows "\<exists>cells s'. run_heap kmalloc kfree heap_poke ops 0 [] s = Inr (cells, s') \<and> checksubpages (km_enter s') = Inr ()"
proof -
  have "contents_ok heap_peek [] s" by (simp add: contents_ok_def)
  then show ?thesis using kernel_heap.run_heap_ok [of 0 "[]" s ops] heap_empty_inv [OF assms(1,2)] assms(3) checksubpages_ok by fastforce
qed

text \<open>C3: The kernel heap keeps blocks apart and keeps what is in them. From the empty heap, every sequence of requests of less
  than 2 GB less a page, releases of held blocks and writes into held blocks runs without a panic, a failed assertion, a hang or
  a deadlock, until 256 requests have failed for want of memory; the blocks held at the end are pairwise disjoint, and every
  word of a held block still has the value that was last written to it.\<close>

theorem kernel_heap_safe:
  assumes "page_state live s" and "heap_empty (km_heap s)" and "list_all heap_op_ok ops"
  shows "\<exists>cells s'. run_heap kmalloc kfree heap_poke ops 0 [] s = Inr (cells, s') \<and> blocks_disjoint (map cell_block cells) \<and>
    contents_ok heap_peek cells s'"
proof -
  have "contents_ok heap_peek [] s" by (simp add: contents_ok_def)
  then show ?thesis using kernel_heap.run_heap_ok [of 0 "[]" s ops] heap_empty_inv [OF assms(1,2)] assms(3) kernel_heap.inv_disjoint by fastforce
qed

definition kheap_sample :: kheap_state where
  "kheap_sample = coremap_state.extend coremap_sample_up
     \<lparr>km_heap = \<lparr>kheaproots = replicate NUM_PAGEREFPAGES \<lparr>kr_page = 0, pagerefs_inuse = replicate INUSE_WORDS 0, numinuse = 0\<rparr>,
        sizebases = replicate NSIZES 0, allbase = 0, refs = (\<lambda>_. \<lparr>next_samesize = 0, next_all = 0, pageaddr_and_blocktype = 0,
          freelist_offset = 0, nfree = 0\<rparr>), words = (\<lambda>_. 0)\<rparr>, kmalloc_spinlock = spinlock_init\<rparr>"

lemma kheap_sample_pages: "page_state [] kheap_sample"
  using coremap_sample_up_inv
  by (simp add: page_state_def coremap_inv_def coremap_wf_def ram_inv_def cpu_ok_def kheap_sample_def coremap_state.extend_def)
    (simp add: coremap_sample_up_def coremap_sample_def ram_sample_def cpu_sample_def cpu_state.extend_def ram_state.extend_def)

lemma kheap_sample_empty: "heap_empty (km_heap kheap_sample)"
  by (simp add: heap_empty_def kheap_sample_def coremap_state.extend_def)

theorem kernel_heap_safe_witness:
  "\<exists>cells s'. run_heap kmalloc kfree heap_poke [Kmalloc 20, Kmalloc 3000, Kwrite 1 4 7, Kfree 0, Kmalloc 100] 0 [] kheap_sample = Inr (cells, s') \<and>
    blocks_disjoint (map cell_block cells) \<and> contents_ok heap_peek cells s'"
  using kernel_heap_safe [OF kheap_sample_pages kheap_sample_empty, of "[Kmalloc 20, Kmalloc 3000, Kwrite 1 4 7, Kfree 0, Kmalloc 100]"]
  by simp

theorem kernel_heap_checks_witness:
  "\<exists>cells s'. run_heap kmalloc kfree heap_poke [Kmalloc 20, Kmalloc 40, Kwrite 1 4 7, Kmalloc 20, Kfree 2] 0 [] kheap_sample = Inr (cells, s') \<and>
    checksubpages (lock_enter kmalloc_spinlock_update s') = Inr ()"
  using kernel_heap_checks [OF kheap_sample_pages kheap_sample_empty, of "[Kmalloc 20, Kmalloc 40, Kwrite 1 4 7, Kmalloc 20, Kfree 2]"]
  by simp

end
