(* ===== verification/Libc_String.thy ===== *)
theory Libc_String
  imports Kernel_Prelude
begin

text \<open>
  The memory and string functions that the kernel shares with the C library
  (\<^verbatim>\<open>common/libc/string\<close>), over a byte-addressed 32-bit memory. An access may fault, which stops a copy
  with the bytes written so far. The word-at-a-time copies are shown equal to one simultaneous copy
  of the block, for overlapping blocks in the case of \<^verbatim>\<open>memmove\<close>.
\<close>

section \<open>Memory\<close>

type_synonym mem = "u32 \<Rightarrow> u8"

record memory =
  bytes :: mem
  rd_ok :: "u32 \<Rightarrow> bool"
  wr_ok :: "u32 \<Rightarrow> bool"

text \<open>A copy ends normally (\<open>Inr\<close>) or with a fault (\<open>Inl\<close>).\<close>

type_synonym fres = "memory + memory"

definition move :: "u32 \<Rightarrow> u32 \<Rightarrow> nat \<Rightarrow> mem \<Rightarrow> mem" where
  "move d s n m = (\<lambda>a. if unat (a - d) < n then m (s + (a - d)) else m a)"

text \<open>\<^verbatim>\<open>d[i] = s[i]\<close> for elements of \<open>w\<close> bytes.\<close>

definition copy_elem :: "nat \<Rightarrow> u32 \<Rightarrow> u32 \<Rightarrow> nat \<Rightarrow> memory \<Rightarrow> fres" where
  "copy_elem w d s i m =
     (let da = d + of_nat (w * i); sa = s + of_nat (w * i)
      in if \<not> list_all (\<lambda>k. rd_ok m (sa + of_nat k)) [0..<w] then Inl m
         else if \<not> list_all (\<lambda>k. wr_ok m (da + of_nat k)) [0..<w] then Inl m
         else Inr (m\<lparr>bytes := move da sa w (bytes m)\<rparr>))"

text \<open>\<^verbatim>\<open>d[i] = v\<close> for elements of \<open>w\<close> bytes that all have the value \<open>v\<close>.\<close>

definition fill_elem :: "nat \<Rightarrow> u32 \<Rightarrow> u8 \<Rightarrow> nat \<Rightarrow> memory \<Rightarrow> fres" where
  "fill_elem w d v i m =
     (let da = d + of_nat (w * i)
      in if \<not> list_all (\<lambda>k. wr_ok m (da + of_nat k)) [0..<w] then Inl m
         else Inr (m\<lparr>bytes := \<lambda>a. if unat (a - da) < w then v else bytes m a\<rparr>))"

definition long_aligned :: "u32 \<Rightarrow> bool" where
  "long_aligned x \<longleftrightarrow> unat x mod 4 = 0"

definition memcpy :: "u32 \<Rightarrow> u32 \<Rightarrow> u32 \<Rightarrow> memory \<Rightarrow> fres" where
  "memcpy dst src len m =
     (if long_aligned dst \<and> long_aligned src \<and> long_aligned len
      then kfor [0..<unat len div 4] (copy_elem 4 dst src) m
      else kfor [0..<unat len] (copy_elem 1 dst src) m)"

definition memmove :: "u32 \<Rightarrow> u32 \<Rightarrow> u32 \<Rightarrow> memory \<Rightarrow> fres" where
  "memmove dst src len m =
     (if dst < src then memcpy dst src len m
      else if long_aligned dst \<and> long_aligned src \<and> long_aligned len
      then kfor (rev [0..<unat len div 4]) (copy_elem 4 dst src) m
      else kfor (rev [0..<unat len]) (copy_elem 1 dst src) m)"

definition memset :: "u32 \<Rightarrow> u8 \<Rightarrow> u32 \<Rightarrow> memory \<Rightarrow> fres" where
  "memset ptr ch len m = kfor [0..<unat len] (fill_elem 1 ptr ch) m"

definition bzero :: "u32 \<Rightarrow> u32 \<Rightarrow> memory \<Rightarrow> fres" where
  "bzero vblock len m =
     (if long_aligned vblock \<and> long_aligned len
      then kfor [0..<unat len div 4] (fill_elem 4 vblock 0) m
      else kfor [0..<unat len] (fill_elem 1 vblock 0) m)"

section \<open>Block copies\<close>

text \<open>Every byte of the block \<open>[a, a + n)\<close> satisfies \<open>P\<close>.\<close>

definition block_all :: "(u32 \<Rightarrow> bool) \<Rightarrow> u32 \<Rightarrow> nat \<Rightarrow> bool" where
  "block_all P a n \<longleftrightarrow> list_all (\<lambda>k. P (a + of_nat k)) [0..<n]"

lemma block_allD: "block_all P a n \<Longrightarrow> k < n \<Longrightarrow> P (a + of_nat k)"
  by (simp add: block_all_def list_all_iff)

lemma block_all_elem: "block_all P a (w * n) \<Longrightarrow> i < n \<Longrightarrow> list_all (\<lambda>k. P (a + of_nat (w * i) + of_nat k)) [0..<w]"
proof -
  assume blk: "block_all P a (w * n)" and i: "i < n"
  have "P (a + of_nat (w * i) + of_nat k)" if "k < w" for k
  proof -
    have "w * i + k < w * Suc i" using that by simp
    also have "\<dots> \<le> w * n" using i by (intro mult_le_mono2) simp
    finally show ?thesis using block_allD [OF blk] by (metis add.assoc of_nat_add)
  qed
  then show ?thesis by (simp add: list_all_iff)
qed

lemma unat_diff_of_nat:
  assumes "k < 2 ^ 32"
  shows "unat (x - of_nat k :: u32) = (if k \<le> unat x then unat x - k else unat x + 2 ^ 32 - k)"
proof -
  have k: "unat (of_nat k :: u32) = k" using assms by (simp add: unat_of_nat)
  show ?thesis using k by (simp add: unat_sub_if' k)
qed

lemma in_elem_iff:
  assumes "k + w \<le> 2 ^ 32"
  shows "unat (a - (d + of_nat k) :: u32) < w \<longleftrightarrow> k \<le> unat (a - d) \<and> unat (a - d) < k + w"
proof (cases "w = 0")
  case False
  then have "k < 2 ^ 32" using assms by simp
  moreover have "a - (d + of_nat k) = (a - d) - of_nat k" by simp
  ultimately have "unat (a - (d + of_nat k)) = (if k \<le> unat (a - d) then unat (a - d) - k else unat (a - d) + 2 ^ 32 - k)"
    using unat_diff_of_nat by metis
  then show ?thesis using assms by auto
qed simp

text \<open>Front to back: the bytes still to be read have not been written, if the source does not start inside the
  destination block.\<close>

lemma move_forward:
  assumes "unat (s - d) + (k + w) \<le> 2 ^ 32"
  shows "move (d + of_nat k) (s + of_nat k) w (move d s k m) = move d s (k + w) m"
proof (rule ext)
  fix a
  have el: "unat (a - (d + of_nat k)) < w \<longleftrightarrow> k \<le> unat (a - d) \<and> unat (a - d) < k + w"
    using assms by (intro in_elem_iff) simp
  have src: "s + of_nat k + (a - (d + of_nat k)) = s + (a - d)" by simp
  have "k \<le> unat (s + (a - d) - d)" if "k \<le> unat (a - d)" "unat (a - d) < k + w"
  proof -
    have "s + (a - d) - d = (s - d) + (a - d)" by simp
    moreover have "unat ((s - d) + (a - d)) = unat (s - d) + unat (a - d)"
      using that assms by (intro unat_add_lem [THEN iffD1]) simp
    ultimately show ?thesis using that by simp
  qed
  then show "move (d + of_nat k) (s + of_nat k) w (move d s k m) a = move d s (k + w) m a"
    using el by (auto simp: move_def src)
qed

definition move_back :: "u32 \<Rightarrow> u32 \<Rightarrow> nat \<Rightarrow> nat \<Rightarrow> mem \<Rightarrow> mem" where
  "move_back d s k n m = (\<lambda>a. if k \<le> unat (a - d) \<and> unat (a - d) < n then m (s + (a - d)) else m a)"

lemma move_back_0: "move_back d s 0 n = move d s n"
  by (simp add: move_back_def move_def fun_eq_iff)

lemma move_back_none: "move_back d s k k m = m"
  by (auto simp: move_back_def fun_eq_iff)

text \<open>Back to front: the same, if the destination block ends below the top of the memory.\<close>

lemma move_backward:
  assumes "unat (d - s) + n \<le> 2 ^ 32" and "k + w \<le> n"
  shows "move (d + of_nat k) (s + of_nat k) w (move_back d s (k + w) n m) = move_back d s k n m"
proof (rule ext)
  fix a
  have el: "unat (a - (d + of_nat k)) < w \<longleftrightarrow> k \<le> unat (a - d) \<and> unat (a - d) < k + w"
    using assms by (intro in_elem_iff) simp
  have src: "s + of_nat k + (a - (d + of_nat k)) = s + (a - d)" by simp
  have "\<not> (k + w \<le> unat (s + (a - d) - d) \<and> unat (s + (a - d) - d) < n)" if "unat (a - d) < k + w"
  proof -
    have "s + (a - d) - d = (a - d) - of_nat (unat (d - s))" by simp
    moreover have "unat (d - s) < 2 ^ 32" using unsigned_less [of "d - s"] by simp
    ultimately have "unat (s + (a - d) - d) =
        (if unat (d - s) \<le> unat (a - d) then unat (a - d) - unat (d - s) else unat (a - d) + 2 ^ 32 - unat (d - s))"
      by (metis unat_diff_of_nat)
    then show ?thesis using that assms by auto
  qed
  then show "move (d + of_nat k) (s + of_nat k) w (move_back d s (k + w) n m) a = move_back d s k n m a"
    using el assms(2) by (auto simp: move_def move_back_def src)
qed

lemma copy_elem_ok:
  "block_all (rd_ok m) s (w * n) \<Longrightarrow> block_all (wr_ok m) d (w * n) \<Longrightarrow> i < n \<Longrightarrow>
    copy_elem w d s i (m\<lparr>bytes := b\<rparr>) = Inr (m\<lparr>bytes := move (d + of_nat (w * i)) (s + of_nat (w * i)) w b\<rparr>)"
  unfolding copy_elem_def Let_def using block_all_elem [of "rd_ok m" s w n i] block_all_elem [of "wr_ok m" d w n i] by simp

lemma copy_forward:
  assumes "block_all (rd_ok m) s (w * n)" "block_all (wr_ok m) d (w * n)" "unat (s - d) + w * n \<le> 2 ^ 32" "j \<le> n"
  shows "kfor [0..<j] (copy_elem w d s) m = Inr (m\<lparr>bytes := move d s (w * j) (bytes m)\<rparr>)"
  using assms(4)
proof (induction j)
  case 0
  then show ?case by (simp add: move_def)
next
  case (Suc j)
  have "w * j + w \<le> w * n" using Suc.prems mult_le_mono2 [of "Suc j" n w] by simp
  then have "move (d + of_nat (w * j)) (s + of_nat (w * j)) w (move d s (w * j) (bytes m)) = move d s (w * j + w) (bytes m)"
    using assms(3) by (intro move_forward) linarith
  then show ?case using Suc copy_elem_ok [OF assms(1,2), of j "move d s (w * j) (bytes m)"]
    by (simp add: kfor_append add.commute)
qed

lemma copy_backward:
  assumes "block_all (rd_ok m) s (w * n)" "block_all (wr_ok m) d (w * n)" "unat (d - s) + w * n \<le> 2 ^ 32" "j \<le> n"
  shows "kfor (rev [n - j..<n]) (copy_elem w d s) m = Inr (m\<lparr>bytes := move_back d s (w * (n - j)) (w * n) (bytes m)\<rparr>)"
  using assms(4)
proof (induction j)
  case 0
  then show ?case by (simp add: move_back_none)
next
  case (Suc j)
  then have up: "[n - Suc j..<n] = (n - Suc j) # [n - j..<n]" by (simp add: upt_rec Suc_diff_Suc)
  have k: "w * (n - j) = w * (n - Suc j) + w" using Suc.prems by (metis Suc_diff_Suc Suc_le_lessD add.commute mult_Suc_right)
  have "w * (n - Suc j) + w \<le> w * n" using k by (metis diff_le_self mult_le_mono2)
  then have "move (d + of_nat (w * (n - Suc j))) (s + of_nat (w * (n - Suc j))) w
      (move_back d s (w * (n - j)) (w * n) (bytes m)) = move_back d s (w * (n - Suc j)) (w * n) (bytes m)"
    unfolding k using assms(3) by (intro move_backward)
  then show ?case
    using Suc copy_elem_ok [OF assms(1,2), of "n - Suc j" "move_back d s (w * (n - j)) (w * n) (bytes m)"]
    by (simp only: up rev.simps kfor_append Suc.IH sbind.simps kfor.simps)
qed

lemma long_aligned_mult: "long_aligned x \<Longrightarrow> 4 * (unat x div 4) = unat x"
  by (auto simp: long_aligned_def)

lemma memcpy_move:
  assumes "block_all (rd_ok m) src (unat len)" "block_all (wr_ok m) dst (unat len)"
    and "unat (src - dst) + unat len \<le> 2 ^ 32"
  shows "memcpy dst src len m = Inr (m\<lparr>bytes := move dst src (unat len) (bytes m)\<rparr>)"
  using assms copy_forward [of m src 1 "unat len" dst "unat len"]
    copy_forward [of m src 4 "unat len div 4" dst "unat len div 4"] long_aligned_mult [of len]
  by (auto simp: memcpy_def)

lemma memmove_move:
  assumes "block_all (rd_ok m) src (unat len)" "block_all (wr_ok m) dst (unat len)"
    and "unat src + unat len \<le> 2 ^ 32" "unat dst + unat len \<le> 2 ^ 32"
  shows "memmove dst src len m = Inr (m\<lparr>bytes := move dst src (unat len) (bytes m)\<rparr>)"
proof (cases "dst < src")
  case True
  then have "unat (src - dst) = unat src - unat dst" by (simp add: unat_sub word_less_nat_alt word_le_nat_alt)
  with assms True show ?thesis by (simp add: memmove_def memcpy_move)
next
  case False
  then have "unat (dst - src) = unat dst - unat src" by (simp add: unat_sub word_le_nat_alt not_less)
  then have d: "unat (dst - src) + unat len \<le> 2 ^ 32" using assms by simp
  show ?thesis
    using False assms d copy_backward [of m src 1 "unat len" dst "unat len"]
      copy_backward [of m src 4 "unat len div 4" dst "unat len div 4"] long_aligned_mult [of len]
    by (auto simp: memmove_def move_back_0)
qed

section \<open>Strings\<close>

text \<open>The string functions walk a string that ends at the first zero byte; a memory without zero bytes
  would keep them going forever.\<close>

partial_function (option) strlen_from :: "mem \<Rightarrow> u32 \<Rightarrow> u32 \<Rightarrow> u32 option" where
  "strlen_from m str ret = (if m (str + ret) \<noteq> 0 then strlen_from m str (ret + 1) else Some ret)"

definition strlen :: "mem \<Rightarrow> u32 \<Rightarrow> u32 option" where
  "strlen m str = strlen_from m str 0"

partial_function (option) strcpy_from :: "u32 \<Rightarrow> u32 \<Rightarrow> u32 \<Rightarrow> mem \<Rightarrow> mem option" where
  "strcpy_from dest src i m =
     (if m (src + i) \<noteq> 0 then strcpy_from dest src (i + 1) (m(dest + i := m (src + i)))
      else Some (m(dest + i := 0)))"

definition strcpy :: "u32 \<Rightarrow> u32 \<Rightarrow> mem \<Rightarrow> mem option" where
  "strcpy dest src m = strcpy_from dest src 0 m"

definition strcat :: "u32 \<Rightarrow> u32 \<Rightarrow> mem \<Rightarrow> mem option" where
  "strcat dest src m = (case strlen m dest of None \<Rightarrow> None | Some offset \<Rightarrow> strcpy (dest + offset) src m)"

partial_function (option) strcmp_from :: "mem \<Rightarrow> u32 \<Rightarrow> u32 \<Rightarrow> u32 \<Rightarrow> int option" where
  "strcmp_from m a b i =
     (if m (a + i) \<noteq> 0 \<and> m (a + i) = m (b + i) then strcmp_from m a b (i + 1)
      else if m (a + i) > m (b + i) then Some 1
      else if m (a + i) = m (b + i) then Some 0
      else Some (-1))"

definition strcmp :: "mem \<Rightarrow> u32 \<Rightarrow> u32 \<Rightarrow> int option" where
  "strcmp m a b = strcmp_from m a b 0"

text \<open>A pointer result is an address; \<open>0\<close> is the null pointer.\<close>

partial_function (option) strchr :: "mem \<Rightarrow> u32 \<Rightarrow> u8 \<Rightarrow> u32 option" where
  "strchr m s ch =
     (if m s \<noteq> 0 then (if m s = ch then Some s else strchr m (s + 1) ch)
      else if m s = ch then Some s
      else Some 0)"

fun strrchr_from :: "mem \<Rightarrow> u32 \<Rightarrow> u8 \<Rightarrow> nat \<Rightarrow> u32" where
  "strrchr_from m s ch 0 = 0"
| "strrchr_from m s ch (Suc i) = (if m (s + of_nat i) = ch then s + of_nat i else strrchr_from m s ch i)"

definition strrchr :: "mem \<Rightarrow> u32 \<Rightarrow> u8 \<Rightarrow> u32 option" where
  "strrchr m s ch = (case strlen m s of None \<Rightarrow> None | Some n \<Rightarrow> Some (strrchr_from m s ch (unat (n + 1))))"

partial_function (option) skip_seps :: "mem \<Rightarrow> u32 \<Rightarrow> u32 \<Rightarrow> u32 option" where
  "skip_seps m seps head =
     (if m head = 0 then Some head
      else case strchr m seps (m head) of
        None \<Rightarrow> None
      | Some p \<Rightarrow> if p \<noteq> 0 then skip_seps m seps (head + 1) else Some head)"

partial_function (option) skip_word :: "mem \<Rightarrow> u32 \<Rightarrow> u32 \<Rightarrow> u32 option" where
  "skip_word m seps tail =
     (if m tail = 0 then Some tail
      else case strchr m seps (m tail) of
        None \<Rightarrow> None
      | Some p \<Rightarrow> if p = 0 then skip_word m seps (tail + 1) else Some tail)"

text \<open>The result is the word, the new context and the memory.\<close>

definition strtok_r :: "u32 \<Rightarrow> u32 \<Rightarrow> u32 \<Rightarrow> mem \<Rightarrow> (u32 \<times> u32 \<times> mem) option" where
  "strtok_r string seps context m =
     (let context = (if string \<noteq> 0 then string else context); head = context
      in if head = 0 then Some (0, context, m)
         else case skip_seps m seps head of
           None \<Rightarrow> None
         | Some head \<Rightarrow>
             if m head = 0 then Some (0, 0, m)
             else case skip_word m seps head of
               None \<Rightarrow> None
             | Some tail \<Rightarrow>
                 if m tail = 0 then Some (head, 0, m)
                 else Some (head, tail + 1, m(tail := 0)))"

section \<open>Strings in memory\<close>

text \<open>The memory holds the string \<open>xs\<close> with its terminator at \<open>a\<close>.\<close>

definition str_at :: "mem \<Rightarrow> u32 \<Rightarrow> u8 list \<Rightarrow> bool" where
  "str_at m a xs \<longleftrightarrow> 0 \<notin> set xs \<and> length xs < 2 ^ 32 \<and> map (\<lambda>i. m (a + of_nat i)) [0..<Suc (length xs)] = xs @ [0]"

lemma str_at_nth:
  assumes "str_at m a xs"
  shows "i < length xs \<Longrightarrow> m (a + of_nat i) = xs ! i" and "m (a + of_nat (length xs)) = 0"
    and "i < length xs \<Longrightarrow> xs ! i \<noteq> 0" and "length xs < 2 ^ 32"
proof -
  have mp: "map (\<lambda>i. m (a + of_nat i)) [0..<Suc (length xs)] = xs @ [0]" using assms unfolding str_at_def by blast
  have nth: "m (a + of_nat i) = (xs @ [0]) ! i" if "i < Suc (length xs)" for i
    using that unfolding mp [symmetric] by (subst nth_map) (simp_all del: upt_Suc)
  show "i < length xs \<Longrightarrow> m (a + of_nat i) = xs ! i" using nth [of i] by (simp add: nth_append)
  show "m (a + of_nat (length xs)) = 0" using nth [of "length xs"] by (simp add: nth_append)
  show "i < length xs \<Longrightarrow> xs ! i \<noteq> 0" using assms by (metis nth_mem str_at_def)
  show "length xs < 2 ^ 32" using assms by (simp add: str_at_def)
qed

lemma str_atI:
  "(\<And>i. i < length xs \<Longrightarrow> m (a + of_nat i) = xs ! i \<and> xs ! i \<noteq> 0) \<Longrightarrow> m (a + of_nat (length xs)) = 0 \<Longrightarrow>
    length xs < 2 ^ 32 \<Longrightarrow> str_at m a xs"
  by (auto simp: str_at_def in_set_conv_nth intro!: nth_equalityI)

text \<open>A string contains the strings of its suffixes.\<close>

lemma str_at_drop:
  assumes "str_at m a xs" and "k \<le> length xs"
  shows "str_at m (a + of_nat k) (drop k xs)"
proof (rule str_atI, goal_cases)
  case (1 i)
  then show ?case using str_at_nth(1,3) [OF assms(1), of "k + i"] by (simp add: add.assoc)
next
  case 2
  then show ?case using str_at_nth(2) [OF assms(1)] assms(2) by (simp add: add.assoc flip: of_nat_add)
next
  case 3
  then show ?case using str_at_nth(4) [OF assms(1)] by simp
qed

lemma str_at_Cons:
  "str_at m a (x # xs) \<Longrightarrow> m a = x" "str_at m a (x # xs) \<Longrightarrow> x \<noteq> 0" "str_at m a (x # xs) \<Longrightarrow> str_at m (a + 1) xs"
  using str_at_nth(1,3) [of m a "x # xs" 0] str_at_drop [of m a "x # xs" 1] by simp_all

lemma str_at_Nil: "str_at m a [] \<Longrightarrow> m a = 0"
  using str_at_nth(2) [of m a "[]"] by simp

lemma strlen_ok:
  assumes "str_at m a xs"
  shows "strlen m a = Some (of_nat (length xs))"
proof -
  have "strlen_from m a (of_nat (length xs - k)) = Some (of_nat (length xs))" if "k \<le> length xs" for k
    using that
  proof (induction k)
    case 0
    then show ?case using str_at_nth(2) [OF assms] by (simp add: strlen_from.simps)
  next
    case (Suc k)
    then have "length xs - Suc k < length xs" by simp
    moreover have "(of_nat (length xs - Suc k) :: u32) + 1 = of_nat (length xs - k)"
      using Suc.prems by (metis Suc_diff_Suc Suc_le_lessD of_nat_Suc add.commute)
    ultimately show ?case using Suc str_at_nth(1,3) [OF assms, of "length xs - Suc k"]
      by (subst strlen_from.simps) simp
  qed
  from this [of "length xs"] show ?thesis by (simp add: strlen_def)
qed

lemma move_one: "move d s (Suc 0) m = m(d := m s)"
  by (auto simp: move_def fun_eq_iff unat_eq_zero)

lemma move_src:
  assumes "unat (s - d) + k < 2 ^ 32"
  shows "move d s k m (s + of_nat k) = m (s + of_nat k)"
proof -
  have "unat (s + of_nat k - d) = unat (s - d) + k"
  proof -
    have k: "unat (of_nat k :: u32) = k" using assms by (simp add: unat_of_nat)
    have "s + of_nat k - d = (s - d) + of_nat k" by simp
    moreover have "unat ((s - d) + of_nat k) = unat (s - d) + k"
      using assms k by (subst unat_add_lem [THEN iffD1]) simp_all
    ultimately show ?thesis by (simp only:)
  qed
  then show ?thesis by (simp add: move_def)
qed

lemma move_next:
  assumes "unat (s - d) + Suc k \<le> 2 ^ 32"
  shows "(move d s k m)(d + of_nat k := m (s + of_nat k)) = move d s (Suc k) m"
  using move_forward [of s d k 1 m] move_src [of s d k m] assms by (simp add: move_one)

lemma strcpy_from_ok:
  assumes "str_at m src xs" and "unat (src - dest) + Suc (length xs) \<le> 2 ^ 32" and "k \<le> length xs"
  shows "strcpy_from dest src (of_nat (length xs - k)) (move dest src (length xs - k) m) =
    Some (move dest src (Suc (length xs)) m)"
  using assms(3)
proof (induction k)
  case 0
  show ?case using move_next [of src dest "length xs" m] move_src [of src dest "length xs" m] assms(2)
      str_at_nth(2) [OF assms(1)] by (subst strcpy_from.simps) simp
next
  case (Suc k)
  let ?i = "length xs - Suc k"
  have i: "Suc ?i = length xs - k" "?i < length xs" using Suc.prems by simp_all
  have "(of_nat ?i :: u32) + 1 = of_nat (Suc ?i)" by simp
  then have w: "(of_nat ?i :: u32) + 1 = of_nat (length xs - k)" by (simp only: i)
  have "strcpy_from dest src (of_nat ?i) (move dest src ?i m) =
      strcpy_from dest src (of_nat ?i + 1) (move dest src (Suc ?i) m)"
    using move_next [of src dest ?i m] move_src [of src dest ?i m] assms(2) i(2)
      str_at_nth(1,3) [OF assms(1) i(2)] by (subst strcpy_from.simps) simp
  then show ?case using Suc by (simp only: w i(1))
qed

text \<open>A string is copied with its terminator, even onto an overlapping lower address.\<close>

lemma strcpy_ok:
  assumes "str_at m src xs" and "unat (src - dest) + Suc (length xs) \<le> 2 ^ 32"
  shows "strcpy dest src m = Some (move dest src (Suc (length xs)) m)"
  using strcpy_from_ok [OF assms, of "length xs"] by (simp add: strcpy_def) (simp add: move_def)

lemma strcmp_from_ok:
  assumes "str_at m (a + i) xs" and "str_at m (b + i) ys"
  shows "strcmp_from m a b i =
    Some (if xs = ys then 0 else if (ys, xs) \<in> lexord {(x, y). x < y} then 1 else -1)"
  using assms
proof (induction xs arbitrary: i ys)
  case Nil
  then have a: "m (a + i) = 0" by (simp add: str_at_Nil)
  show ?case
  proof (cases ys)
    case Nil
    then show ?thesis using a Nil.prems(2) by (subst strcmp_from.simps) (simp add: str_at_Nil)
  next
    case (Cons y ys')
    then show ?thesis using a str_at_Cons(1,2) [of m "b + i" y ys'] Nil.prems(2)
      by (subst strcmp_from.simps) simp
  qed
next
  case (Cons x xs)
  show ?case
  proof (cases ys)
    case Nil
    then show ?thesis using Cons.prems str_at_Cons [OF Cons.prems(1)] str_at_Nil [of m "b + i"]
      by (subst strcmp_from.simps) (auto simp: word_gt_0)
  next
    case (Cons y ys')
    have a: "m (a + i) = x" "x \<noteq> 0" "str_at m (a + (i + 1)) xs"
      using str_at_Cons [OF Cons.prems(1)] by (simp_all add: add.assoc)
    have b: "m (b + i) = y" "str_at m (b + (i + 1)) ys'"
      using str_at_Cons [of m "b + i" y ys'] Cons.prems(2) Cons by (simp_all add: add.assoc)
    show ?thesis using Cons.IH [OF a(3) b(2)] a(1,2) b(1) Cons by (subst strcmp_from.simps) auto
  qed
qed

text \<open>\<^verbatim>\<open>strcmp\<close> is the lexicographic comparison.\<close>

lemma strcmp_ok:
  "str_at m a xs \<Longrightarrow> str_at m b ys \<Longrightarrow>
    strcmp m a b = Some (if xs = ys then 0 else if (ys, xs) \<in> lexord {(x, y). x < y} then 1 else -1)"
  using strcmp_from_ok [of m a 0 xs b ys] by (simp add: strcmp_def)

lemma strchr_ok:
  assumes "str_at m s xs" and "ch \<noteq> 0"
  shows "strchr m s ch = Some (if ch \<in> set xs then s + of_nat (length (takeWhile (\<lambda>x. x \<noteq> ch) xs)) else 0)"
  using assms(1)
proof (induction xs arbitrary: s)
  case Nil
  then show ?case using assms(2) by (subst strchr.simps) (simp add: str_at_Nil)
next
  case (Cons x xs)
  then show ?case using str_at_Cons [OF Cons.prems] by (subst strchr.simps) (auto simp: add.assoc)
qed

text \<open>Separators below the top of the memory are found at a non-null address.\<close>

lemma strchr_sep:
  assumes "str_at m seps ss" and "seps \<noteq> 0" and "unat seps + length ss < 2 ^ 32" and "ch \<noteq> 0"
  shows "\<exists>p. strchr m seps ch = Some p \<and> (p = 0 \<longleftrightarrow> ch \<notin> set ss)"
proof -
  let ?k = "length (takeWhile (\<lambda>x. x \<noteq> ch) ss)"
  have "?k \<le> length ss" by (rule length_takeWhile_le)
  then have k: "unat seps + ?k < 2 ^ 32" "unat (of_nat ?k :: u32) = ?k" using assms(3) by (simp_all add: unat_of_nat)
  then have "unat (seps + of_nat ?k) = unat seps + ?k" by (subst unat_add_lem [THEN iffD1]) simp_all
  then have "seps + of_nat ?k \<noteq> 0" using assms(2) by (metis add_is_0 unat_0 unat_eq_zero)
  then show ?thesis using strchr_ok [OF assms(1,4)] by auto
qed

lemma skip_seps_ok:
  assumes "str_at m seps ss" and "seps \<noteq> 0" and "unat seps + length ss < 2 ^ 32" and "str_at m s xs"
  shows "skip_seps m seps s = Some (s + of_nat (length (takeWhile (\<lambda>x. x \<in> set ss) xs)))"
  using assms(4)
proof (induction xs arbitrary: s)
  case Nil
  then show ?case by (subst skip_seps.simps) (simp add: str_at_Nil)
next
  case (Cons x xs)
  note x = str_at_Cons [OF Cons.prems]
  from strchr_sep [OF assms(1-3) x(2)] obtain p where "strchr m seps x = Some p" "p = 0 \<longleftrightarrow> x \<notin> set ss" by blast
  then show ?case using Cons.IH [OF x(3)] x(1,2) by (subst skip_seps.simps) (simp add: add.assoc)
qed

lemma skip_word_ok:
  assumes "str_at m seps ss" and "seps \<noteq> 0" and "unat seps + length ss < 2 ^ 32" and "str_at m s xs"
  shows "skip_word m seps s = Some (s + of_nat (length (takeWhile (\<lambda>x. x \<notin> set ss) xs)))"
  using assms(4)
proof (induction xs arbitrary: s)
  case Nil
  then show ?case by (subst skip_word.simps) (simp add: str_at_Nil)
next
  case (Cons x xs)
  note x = str_at_Cons [OF Cons.prems]
  from strchr_sep [OF assms(1-3) x(2)] obtain p where "strchr m seps x = Some p" "p = 0 \<longleftrightarrow> x \<notin> set ss" by blast
  then show ?case using Cons.IH [OF x(3)] x(1,2) by (subst skip_word.simps) (simp add: add.assoc)
qed

text \<open>Cutting a string at a position.\<close>

lemma str_at_cut:
  assumes "str_at m a xs" and "k < length xs"
  shows "str_at (m(a + of_nat k := 0)) a (take k xs)"
proof -
  have len: "length xs < 2 ^ 32" using assms(1) by (rule str_at_nth(4))
  have ne: "(of_nat i :: u32) \<noteq> of_nat k" if "i < k" for i
  proof -
    have "unat (of_nat i :: u32) = i" "unat (of_nat k :: u32) = k" using that assms(2) len by (simp_all add: unat_of_nat)
    then show ?thesis using that by (metis less_irrefl)
  qed
  show ?thesis
  proof (rule str_atI, goal_cases)
    case (1 i)
    then show ?case using ne [of i] assms(2) str_at_nth(1,3) [OF assms(1), of i] by simp
  next
    case 2
    then show ?case using assms(2) by simp
  next
    case 3
    then show ?case using len by simp
  qed
qed

lemma str_at_rest:
  assumes "str_at m a xs" and "k < length xs"
  shows "str_at (m(a + of_nat k := 0)) (a + of_nat k + 1) (drop (Suc k) xs)"
proof -
  have len: "length xs < 2 ^ 32" using assms(1) by (rule str_at_nth(4))
  have ne: "a + of_nat k + 1 + of_nat i \<noteq> a + of_nat k" if "i < length xs - k" for i
  proof
    assume "a + of_nat k + 1 + of_nat i = a + of_nat k"
    then have "(of_nat (Suc i) :: u32) = 0" by (simp add: add.assoc)
    moreover have "unat (of_nat (Suc i) :: u32) = Suc i" using that len by (simp add: unat_of_nat del: of_nat_Suc)
    ultimately show False by (metis nat.distinct(1) unat_0)
  qed
  have old: "str_at m (a + of_nat k + 1) (drop (Suc k) xs)"
    using str_at_drop [OF assms(1), of "Suc k"] assms(2) by (simp add: add.commute add.left_commute)
  show ?thesis
  proof (rule str_atI, goal_cases)
    case (1 i)
    then show ?case using ne [of i] str_at_nth(1,3) [OF old, of i] by simp
  next
    case 2
    then show ?case using ne [of "length xs - Suc k"] str_at_nth(2) [OF old] assms(2) by simp
  next
    case 3
    then show ?case using len by simp
  qed
qed

lemma dropWhile_drop: "dropWhile P xs = drop (length (takeWhile P xs)) xs"
  by (simp add: dropWhile_eq_drop)

section \<open>Copies and words\<close>

definition mem_of :: "u32 \<Rightarrow> u8 list \<Rightarrow> mem \<Rightarrow> mem" where
  "mem_of a xs m = (\<lambda>x. if unat (x - a) < length xs then xs ! unat (x - a) else m x)"

definition memory_sample :: memory where
  "memory_sample = \<lparr>bytes = mem_of 0x80001000 [1, 2, 3, 4, 5, 6, 7, 8] (\<lambda>_. 0), rd_ok = \<lambda>_. True, wr_ok = \<lambda>_. True\<rparr>"

text \<open>C26: memmove on two accessible blocks that do not wrap around the top of memory, whatever their overlap and
  alignment, ends without a fault; the destination block then holds what the source block held before, and no byte
  outside the destination block changes.\<close>
theorem memmove_correct:
  assumes "block_all (rd_ok m) src (unat len)" and "block_all (wr_ok m) dst (unat len)"
    and "unat src + unat len \<le> 2 ^ 32" and "unat dst + unat len \<le> 2 ^ 32"
  shows "\<exists>m'. memmove dst src len m = Inr m' \<and>
    (\<forall>i. i < unat len \<longrightarrow> bytes m' (dst + of_nat i) = bytes m (src + of_nat i)) \<and>
    (\<forall>a. a < dst \<or> unat dst + unat len \<le> unat a \<longrightarrow> bytes m' a = bytes m a)"
proof (intro exI conjI allI impI)
  show "memmove dst src len m = Inr (m\<lparr>bytes := move dst src (unat len) (bytes m)\<rparr>)" by (rule memmove_move [OF assms])
next
  fix i assume "i < unat len"
  moreover from this have "unat (of_nat i :: u32) = i" using assms(4) by (simp add: unat_of_nat)
  ultimately show "bytes (m\<lparr>bytes := move dst src (unat len) (bytes m)\<rparr>) (dst + of_nat i) = bytes m (src + of_nat i)"
    by (simp add: move_def)
next
  fix a assume "a < dst \<or> unat dst + unat len \<le> unat a"
  then have "\<not> unat (a - dst) < unat len"
    using assms(4) by (auto simp: unat_sub_if' word_less_nat_alt)
  then show "bytes (m\<lparr>bytes := move dst src (unat len) (bytes m)\<rparr>) a = bytes m a" by (simp add: move_def)
qed

theorem memmove_correct_witness:
  "\<exists>m'. memmove 0x80001002 0x80001000 4 memory_sample = Inr m' \<and> bytes m' 0x80001003 = 2"
proof -
  from memmove_correct [where m = memory_sample and src = "0x80001000" and len = 4 and dst = "0x80001002"] obtain m' where
    m': "memmove 0x80001002 0x80001000 4 memory_sample = Inr m'"
      "\<forall>i. i < 4 \<longrightarrow> bytes m' (0x80001002 + of_nat i) = bytes memory_sample (0x80001000 + of_nat i)"
    by (auto simp: memory_sample_def block_all_def list_all_iff)
  from m'(2) [rule_format, of 1] have "bytes m' 0x80001003 = 2" by (simp add: memory_sample_def mem_of_def)
  with m'(1) show ?thesis by blast
qed

definition words_sample :: mem where
  "words_sample = mem_of 0x80002000 [32, 97, 98, 44, 99, 0] (mem_of 0x80003000 [32, 44, 0] (\<lambda>_. 1))"

text \<open>C31: One step of strtok_r, on the string or on the saved context, skips the leading separators and returns the
  maximal word without separators as a string of its own: it ends, it returns null exactly when only separators are
  left, and the saved context is the string behind the word's separator, or null at the end of the string.\<close>
theorem strtok_r_word:
  assumes seps: "str_at m seps ss" "seps \<noteq> 0" "unat seps + length ss < 2 ^ 32"
    and cur: "cur = (if string \<noteq> 0 then string else saved)" "cur \<noteq> 0" "str_at m cur xs"
    and rest: "rest = dropWhile (\<lambda>x. x \<in> set ss) xs"
  shows "if rest = [] then strtok_r string seps saved m = Some (0, 0, m)
    else \<exists>head ctx m'. strtok_r string seps saved m = Some (head, ctx, m') \<and>
      str_at m' head (takeWhile (\<lambda>x. x \<notin> set ss) rest) \<and>
      (case dropWhile (\<lambda>x. x \<notin> set ss) rest of [] \<Rightarrow> ctx = 0 | _ # left \<Rightarrow> str_at m' ctx left)"
proof -
  let ?k = "length (takeWhile (\<lambda>x. x \<in> set ss) xs)" let ?h = "cur + of_nat ?k"
  let ?n = "length (takeWhile (\<lambda>x. x \<notin> set ss) rest)"
  have h: "skip_seps m seps cur = Some ?h" by (rule skip_seps_ok [OF seps cur(3)])
  have r: "str_at m ?h rest" unfolding rest dropWhile_drop by (rule str_at_drop [OF cur(3) length_takeWhile_le])
  have w: "skip_word m seps ?h = Some (?h + of_nat ?n)" by (rule skip_word_ok [OF seps r])
  have c: "(if string \<noteq> 0 then string else saved) = cur" using cur(1) by simp
  show ?thesis
  proof (cases "rest = []")
    case True
    then show ?thesis using h r cur(2) str_at_Nil [of m ?h] by (simp add: strtok_r_def c)
  next
    case False
    then have mh: "m ?h \<noteq> 0" using str_at_Cons(1,2) [of m ?h] r by (cases rest) auto
    show ?thesis
    proof (cases "?n = length rest")
      case True
      have "strtok_r string seps saved m = Some (?h, 0, m)"
        using h w mh cur(2) str_at_nth(2) [OF r] by (simp add: strtok_r_def c True)
      moreover have "dropWhile (\<lambda>x. x \<notin> set ss) rest = []" by (simp only: dropWhile_drop True drop_all order_refl)
      moreover have "takeWhile (\<lambda>x. x \<notin> set ss) rest = rest" by (metis True takeWhile_eq_take take_all order_refl)
      ultimately show ?thesis using False r by (simp only: list.case if_False simp_thms prod.inject option.inject) blast
    next
      case short: False
      then have n: "?n < length rest" using length_takeWhile_le [of "\<lambda>x. x \<notin> set ss" rest] by linarith
      have "strtok_r string seps saved m = Some (?h, ?h + of_nat ?n + 1, m(?h + of_nat ?n := 0))"
        using h w mh cur(2) str_at_nth(1,3) [OF r n] by (simp add: strtok_r_def c)
      moreover have "dropWhile (\<lambda>x. x \<notin> set ss) rest = rest ! ?n # drop (Suc ?n) rest"
        using n by (simp add: dropWhile_drop Cons_nth_drop_Suc)
      moreover have "takeWhile (\<lambda>x. x \<notin> set ss) rest = take ?n rest" by (rule takeWhile_eq_take)
      ultimately show ?thesis using False str_at_cut [OF r n] str_at_rest [OF r n] by simp
    qed
  qed
qed

theorem strtok_r_word_witness:
  "\<exists>head ctx m'. strtok_r 0x80002000 0x80003000 0 words_sample = Some (head, ctx, m') \<and>
    str_at m' head [97, 98] \<and> str_at m' ctx [99]"
proof -
  have "str_at words_sample 0x80003000 [32, 44]" "str_at words_sample 0x80002000 [32, 97, 98, 44, 99]"
    by (simp_all add: str_at_def words_sample_def mem_of_def upt_rec)
  then show ?thesis
    using strtok_r_word [where m = words_sample and seps = "0x80003000" and ss = "[32, 44]" and string = "0x80002000"
      and saved = 0 and cur = "0x80002000" and xs = "[32, 97, 98, 44, 99]" and rest = "[97, 98, 44, 99]"] by simp
qed

end
