(* ===== verification/Copyinout.thy ===== *)
theory Copyinout
  imports Libc_String
begin

text \<open>
  Copies between user and kernel memory (\<^verbatim>\<open>kern/vm/copyinout.c\<close>). A fault on a user address during
  a copy resumes at the recovery point, which returns \<^verbatim>\<open>EFAULT\<close>; here the fault is the left value of the
  copy. The properties: no address of the kernel is reached through a user pointer, and only the
  destination block is written.
\<close>

section \<open>Operations\<close>

text \<open>The error and \<^verbatim>\<open>*stoplen\<close>.\<close>

definition copycheck :: "u32 \<Rightarrow> u32 \<Rightarrow> errno \<times> u32" where
  "copycheck userptr len =
     (let bot = userptr; top = bot + len - 1
      in if top < bot then (EFAULT, len)
         else if bot \<ge> USERSPACETOP then (EFAULT, len)
         else if top \<ge> USERSPACETOP then (0, USERSPACETOP - bot)
         else (0, len))"

text \<open>\<^verbatim>\<open>setjmp\<close> returns a second time, with a nonzero value, when the copy faults.\<close>

definition copy_result :: "fres \<Rightarrow> errno \<times> memory" where
  "copy_result r = (case r of Inl m \<Rightarrow> (EFAULT, m) | Inr m \<Rightarrow> (0, m))"

definition copyin :: "u32 \<Rightarrow> u32 \<Rightarrow> u32 \<Rightarrow> memory \<Rightarrow> errno \<times> memory" where
  "copyin usersrc dest len m =
     (let (result, stoplen) = copycheck usersrc len
      in if result \<noteq> 0 then (result, m)
         else if stoplen \<noteq> len then (EFAULT, m)
         else copy_result (memcpy dest usersrc len m))"

definition copyout :: "u32 \<Rightarrow> u32 \<Rightarrow> u32 \<Rightarrow> memory \<Rightarrow> errno \<times> memory" where
  "copyout src userdest len m =
     (let (result, stoplen) = copycheck userdest len
      in if result \<noteq> 0 then (result, m)
         else if stoplen \<noteq> len then (EFAULT, m)
         else copy_result (memcpy userdest src len m))"

text \<open>The loop of \<^verbatim>\<open>copystr\<close> from index \<open>i\<close>: a fault, or the length with the terminator once it is found.\<close>

function copystr_from :: "u32 \<Rightarrow> u32 \<Rightarrow> nat \<Rightarrow> nat \<Rightarrow> nat \<Rightarrow> memory \<Rightarrow> memory + (nat option \<times> memory)" where
  "copystr_from dest src maxlen stoplen i m =
     (if i < maxlen \<and> i < stoplen then
        sbind (copy_elem 1 dest src i m) (\<lambda>m.
        if bytes m (src + of_nat i) = 0 then Inr (Some (i + 1), m)
        else copystr_from dest src maxlen stoplen (i + 1) m)
      else Inr (None, m))"
  by pat_completeness auto
termination by (relation "measure (\<lambda>(d, s, maxlen, stoplen, i, m). maxlen - i)") auto

text \<open>The error, \<^verbatim>\<open>*gotlen\<close> when it is set, and the memory.\<close>

definition copystr :: "u32 \<Rightarrow> u32 \<Rightarrow> u32 \<Rightarrow> u32 \<Rightarrow> memory \<Rightarrow> errno \<times> u32 option \<times> memory" where
  "copystr dest src maxlen stoplen m =
     (case copystr_from dest src (unat maxlen) (unat stoplen) 0 m of
        Inl m \<Rightarrow> (EFAULT, None, m)
      | Inr (Some got, m) \<Rightarrow> (0, Some (of_nat got), m)
      | Inr (None, m) \<Rightarrow> if stoplen < maxlen then (EFAULT, None, m) else (ENAMETOOLONG, None, m))"

definition copyinstr :: "u32 \<Rightarrow> u32 \<Rightarrow> u32 \<Rightarrow> memory \<Rightarrow> errno \<times> u32 option \<times> memory" where
  "copyinstr usersrc dest len m =
     (let (result, stoplen) = copycheck usersrc len
      in if result \<noteq> 0 then (result, None, m) else copystr dest usersrc len stoplen m)"

definition copyoutstr :: "u32 \<Rightarrow> u32 \<Rightarrow> u32 \<Rightarrow> memory \<Rightarrow> errno \<times> u32 option \<times> memory" where
  "copyoutstr src userdest len m =
     (let (result, stoplen) = copycheck userdest len
      in if result \<noteq> 0 then (result, None, m) else copystr userdest src len stoplen m)"

section \<open>The region check\<close>

lemma copycheck_len0: "copycheck p 0 = (if p = 0 then (0, USERSPACETOP) else (EFAULT, 0))"
proof (cases "p = 0")
  case False
  then have "p - 1 < p" by (simp add: word_less_nat_alt unat_sub word_le_nat_alt unat_gt_0 Suc_le_eq)
  then show ?thesis using False by (simp add: copycheck_def)
qed (simp add: copycheck_def word_less_nat_alt word_le_nat_alt unsigned_minus_1_eq_mask mask_eq_exp_minus_1)

lemma copycheck_ok:
  assumes "copycheck p len = (0, n)" and "len \<noteq> 0"
  shows "unat p + unat n \<le> 2 ^ 31" and "n \<le> len" and "unat p < 2 ^ 31"
proof -
  have l: "0 < unat len" using assms(2) by (simp add: unat_gt_0)
  have c: "\<not> p + len - 1 < p" "\<not> USERSPACETOP \<le> p"
      "n = (if USERSPACETOP \<le> p + len - 1 then USERSPACETOP - p else len)"
    using assms(1) by (auto simp: copycheck_def Let_def split: if_splits)
  have p: "unat p < 2 ^ 31" using c(2) by (simp add: word_le_nat_alt)
  have len1: "unat (len - 1) = unat len - 1" using l by (simp add: unat_sub word_le_nat_alt)
  have "p + len - 1 = p + (len - 1)" by simp
  then have top: "unat (p + len - 1) = unat p + (unat len - 1)"
    using c(1) len1 unsigned_less [of len, where 'a = nat] l by (simp only: not_less word_le_nat_alt unat_plus_if') (auto split: if_splits)
  show "unat p < 2 ^ 31" by (rule p)
  show "unat p + unat n \<le> 2 ^ 31" "n \<le> len"
    using c(3) top p l by (auto simp: word_le_nat_alt unat_sub split: if_splits)
qed

section \<open>Copies that may fault\<close>

definition fmem :: "fres \<Rightarrow> memory" where
  "fmem r = (case r of Inl m \<Rightarrow> m | Inr m \<Rightarrow> m)"

lemma fmem_simps [simp]: "fmem (Inl m) = m" "fmem (Inr m) = m"
  by (simp_all add: fmem_def)

lemma copy_result_fmem: "copy_result r = (if isl r then EFAULT else 0, fmem r)"
  by (cases r) (simp_all add: copy_result_def)

text \<open>What the steps of a loop leave alone, the loop leaves alone, whether it faults or not.\<close>

lemma kfor_frame:
  assumes "\<And>i m. i \<in> set xs \<Longrightarrow> f (fmem (body i m)) = f m"
  shows "f (fmem (kfor xs body m)) = f m"
  using assms
proof (induction xs arbitrary: m)
  case (Cons x xs)
  have x: "f (fmem (body x m)) = f m" using Cons.prems [of x m] by simp
  show ?case
  proof (cases "body x m")
    case (Inr m')
    then show ?thesis using Cons.IH [of m'] Cons.prems x by simp
  qed (use x in simp)
qed simp

lemma copy_elem_frame:
  assumes "i < n" and "w * n \<le> 2 ^ 32" and "w * n \<le> unat (a - d)"
  shows "bytes (fmem (copy_elem w d s i m)) a = bytes m a"
proof -
  have "w * i + w \<le> w * n" using assms(1) mult_le_mono2 [of "Suc i" n w] by simp
  then have "\<not> unat (a - (d + of_nat (w * i))) < w"
    using in_elem_iff [of "w * i" w a d] assms by linarith
  then show ?thesis by (simp add: copy_elem_def Let_def move_def)
qed

lemma copy_elem_acc: "rd_ok (fmem (copy_elem w d s i m)) = rd_ok m" "wr_ok (fmem (copy_elem w d s i m)) = wr_ok m"
  by (simp_all add: copy_elem_def Let_def)

lemma copy_loop_frame:
  assumes "w * n \<le> 2 ^ 32" and "w * n \<le> unat (a - d)"
  shows "bytes (fmem (kfor [0..<n] (copy_elem w d s) m)) a = bytes m a"
  by (rule kfor_frame [where f = "\<lambda>m. bytes m a"]) (rule copy_elem_frame [OF _ assms], simp)

lemma memcpy_frame:
  assumes "unat len \<le> unat (a - dst)"
  shows "bytes (fmem (memcpy dst src len m)) a = bytes m a"
proof -
  have len: "unat len \<le> 2 ^ 32" using unsigned_less [of len, where 'a = nat] by simp
  show ?thesis
  proof (cases "long_aligned dst \<and> long_aligned src \<and> long_aligned len")
    case True
    then have 4: "4 * (unat len div 4) = unat len" by (simp add: long_aligned_mult)
    show ?thesis using True copy_loop_frame [of 4 "unat len div 4" a dst src m, unfolded 4, OF len assms]
      by (simp only: memcpy_def if_True simp_thms)
  next
    case False
    then show ?thesis using copy_loop_frame [of 1 "unat len" a dst src m, unfolded mult_1, OF len assms]
      by (simp only: memcpy_def if_False)
  qed
qed

lemma block_all_Suc: "block_all P a (k + w) \<longleftrightarrow> block_all P a k \<and> list_all (\<lambda>j. P (a + of_nat k + of_nat j)) [0..<w]"
proof -
  have "[0..<k + w] = [0..<k] @ map (\<lambda>j. j + k) [0..<w]"
    using upt_add_eq_append [of 0 k w] map_add_upt [of k w] by (simp add: add.commute)
  then show ?thesis by (simp add: block_all_def list.pred_map o_def add.commute add.left_commute)
qed

text \<open>A copy that does not fault had access to both blocks.\<close>

lemma copy_loop_access:
  assumes "kfor [0..<n] (copy_elem w d s) m = Inr m'"
  shows "block_all (rd_ok m) s (w * n) \<and> block_all (wr_ok m) d (w * n)"
  using assms
proof (induction n arbitrary: m')
  case 0
  then show ?case by (simp add: block_all_def)
next
  case (Suc n)
  then obtain m1 where m1: "kfor [0..<n] (copy_elem w d s) m = Inr m1" "copy_elem w d s n m1 = Inr m'"
    by (auto simp: kfor_append sbind_eq_Inr_iff)
  have "rd_ok m1 = rd_ok m" "wr_ok m1 = wr_ok m"
    using kfor_frame [of "[0..<n]" rd_ok "copy_elem w d s" m] kfor_frame [of "[0..<n]" wr_ok "copy_elem w d s" m] m1(1)
    by (simp_all add: copy_elem_acc)
  then show ?case using Suc.IH [OF m1(1)] m1(2) block_all_Suc [of _ _ "w * n" w]
    by (auto simp: copy_elem_def Let_def add.commute split: if_splits)
qed

lemma memcpy_access:
  assumes "memcpy dst src len m = Inr m'"
  shows "block_all (rd_ok m) src (unat len) \<and> block_all (wr_ok m) dst (unat len)"
  using assms long_aligned_mult [of len] copy_loop_access [of "unat len" 1 dst src m m']
    copy_loop_access [of "unat len div 4" 4 dst src m m']
  by (auto simp: memcpy_def split: if_splits)

text \<open>The outcome of a checked copy when one block is in user space and the other in the kernel.\<close>

lemma user_copy:
  assumes k: "2 ^ 31 \<le> unat kp" "unat kp + unat len \<le> 2 ^ 32"
    and blocks: "dst = p \<and> src = kp \<or> dst = kp \<and> src = p"
    and ok: "copycheck p len = (0, len)"
  shows "copy_result (memcpy dst src len m) =
    (if block_all (rd_ok m) src (unat len) \<and> block_all (wr_ok m) dst (unat len)
     then (0, m\<lparr>bytes := move dst src (unat len) (bytes m)\<rparr>)
     else (EFAULT, fmem (memcpy dst src len m)))"
proof (cases "block_all (rd_ok m) src (unat len) \<and> block_all (wr_ok m) dst (unat len)")
  case True
  have "len \<noteq> 0" using ok copycheck_len0 [of p] by (auto split: if_splits)
  then have p: "unat p + unat len \<le> 2 ^ 31" "unat p < 2 ^ 31" using copycheck_ok [OF ok] by auto
  have "unat (src - dst) + unat len \<le> 2 ^ 32" using blocks k p by (auto simp: unat_sub_if')
  then show ?thesis using True memcpy_move [of m src len dst] by (simp add: copy_result_def)
next
  case False
  then obtain m' where "memcpy dst src len m = Inl m'" using memcpy_access by (metis Inl_Inr_False sumE)
  then show ?thesis using False by (simp add: copy_result_def)
qed

lemma copycheck_cases:
  assumes "0 < unat len"
  shows "copycheck p len = (0, len) \<and> unat p + unat len \<le> 2 ^ 31 \<or>
    (fst (copycheck p len) = EFAULT \<or> fst (copycheck p len) = 0 \<and> snd (copycheck p len) \<noteq> len) \<and> 2 ^ 31 < unat p + unat len"
proof -
  have len: "unat len < 2 ^ 32" "unat p < 2 ^ 32"
    using unsigned_less [of len, where 'a = nat] unsigned_less [of p, where 'a = nat] by simp_all
  have "unat (len - 1) = unat len - 1" using assms by (simp add: unat_sub word_le_nat_alt)
  moreover have "p + len - 1 = p + (len - 1)" by simp
  ultimately have top: "unat (p + len - 1) = (if unat p + unat len - 1 < 2 ^ 32 then unat p + unat len - 1 else unat p + unat len - 1 - 2 ^ 32)"
    using assms by (simp only: unat_plus_if') auto
  have sub: "unat (USERSPACETOP - p) = 2 ^ 31 - unat p" if "unat p < 2 ^ 31" using that by (simp add: unat_sub word_le_nat_alt)
  show ?thesis
  proof (cases "unat p < 2 ^ 31")
    case True
    then show ?thesis using top sub len assms
      by (auto simp: copycheck_def Let_def word_less_nat_alt word_le_nat_alt word_unat_eq_iff)
  next
    case False
    then show ?thesis using assms by (auto simp: copycheck_def Let_def word_le_nat_alt)
  qed
qed

section \<open>User copies\<close>

text \<open>A sample memory whose user part ends at the page \<^verbatim>\<open>0x400000\<close> and is writable on that page only.\<close>

definition user_sample :: memory where
  "user_sample = \<lparr>bytes = mem_of 0x400000 [7, 8, 9] (\<lambda>_. 0),
     rd_ok = \<lambda>a. 0x400000 \<le> a \<and> a < 0x401000 \<or> 0x80000000 \<le> a,
     wr_ok = \<lambda>a. 0x400000 \<le> a \<and> a < 0x401000 \<or> 0x80000000 \<le> a\<rparr>"

text \<open>C27: copyin of a nonempty block into kernel memory returns 0 exactly when the user block lies below USERSPACETOP
  and both blocks are accessible, and then the kernel block holds the user block; in all other cases it returns EFAULT.
  Whatever happens, no byte outside the kernel block changes.\<close>
theorem copyin_correct:
  assumes "2 ^ 31 \<le> unat dest" and "unat dest + unat len \<le> 2 ^ 32" and "0 < unat len"
  shows "case copyin usersrc dest len m of (e, m') \<Rightarrow>
    (\<forall>a. unat len \<le> unat (a - dest) \<longrightarrow> bytes m' a = bytes m a) \<and>
    (if unat usersrc + unat len \<le> 2 ^ 31 \<and> block_all (rd_ok m) usersrc (unat len) \<and> block_all (wr_ok m) dest (unat len)
     then e = 0 \<and> (\<forall>i < unat len. bytes m' (dest + of_nat i) = bytes m (usersrc + of_nat i))
     else e = EFAULT)"
proof (cases "copycheck usersrc len = (0, len)")
  case True
  then have u: "unat usersrc + unat len \<le> 2 ^ 31" using copycheck_ok(1) [OF True] assms(3) by (auto simp: unat_gt_0)
  have "unat (of_nat i :: u32) = i" if "i < unat len" for i using that assms(2) by (simp add: unat_of_nat)
  then show ?thesis
    using u True user_copy [OF assms(1,2) _ True, of dest usersrc m] memcpy_frame [of len _ dest usersrc m]
    by (auto simp: copyin_def move_def)
next
  case False
  then show ?thesis using copycheck_cases [OF assms(3), of usersrc] by (auto simp: copyin_def split: prod.splits)
qed

theorem copyin_correct_witness:
  "\<exists>m'. copyin 0x400000 0x80001000 3 user_sample = (0, m') \<and> bytes m' 0x80001001 = 8"
proof -
  have "block_all (rd_ok user_sample) 0x400000 3" "block_all (wr_ok user_sample) 0x80001000 3"
    by (simp_all add: block_all_def user_sample_def upt_rec)
  then have "case copyin 0x400000 0x80001000 3 user_sample of (e, m') \<Rightarrow>
      e = 0 \<and> (\<forall>i < 3. bytes m' (0x80001000 + of_nat i) = bytes user_sample (0x400000 + of_nat i))"
    using copyin_correct [where dest = "0x80001000" and len = 3 and usersrc = "0x400000" and m = user_sample] by auto
  then show ?thesis by (auto simp: user_sample_def mem_of_def dest!: spec [of _ "1 :: nat"])
qed

text \<open>C15: copyout from a block of kernel memory never changes a byte of the kernel's half of the address space, whatever
  user pointer and length it is given. It returns 0 exactly when the block is not empty, the user block lies below
  USERSPACETOP and both blocks are accessible, and then the user block holds the kernel block. In all other cases, the
  empty block included, it returns EFAULT.\<close>
theorem copyout_confined:
  assumes "2 ^ 31 \<le> unat src" and "unat src + unat len \<le> 2 ^ 32"
  shows "case copyout src userdest len m of (e, m') \<Rightarrow>
    (\<forall>a. 2 ^ 31 \<le> unat a \<longrightarrow> bytes m' a = bytes m a) \<and>
    (if 0 < unat len \<and> unat userdest + unat len \<le> 2 ^ 31 \<and>
        block_all (rd_ok m) src (unat len) \<and> block_all (wr_ok m) userdest (unat len)
     then e = 0 \<and> (\<forall>i < unat len. bytes m' (userdest + of_nat i) = bytes m (src + of_nat i))
     else e = EFAULT)"
proof (cases "copycheck userdest len = (0, len)")
  case True
  have l: "0 < unat len" using True copycheck_len0 [of userdest] by (auto simp: unat_gt_0 split: if_splits)
  then have u: "unat userdest + unat len \<le> 2 ^ 31" using copycheck_ok(1) [OF True] by (auto simp: unat_gt_0)
  have i: "unat (of_nat i :: u32) = i" if "i < unat len" for i using that assms(2) by (simp add: unat_of_nat)
  have c: "copyout src userdest len m = copy_result (memcpy userdest src len m)" using True by (simp add: copyout_def)
  have f: "bytes (snd (copyout src userdest len m)) a = bytes m a" if "2 ^ 31 \<le> unat a" for a
    using that u memcpy_frame [of len a userdest src m] by (simp add: c copy_result_fmem unat_sub_if')
  have "if block_all (rd_ok m) src (unat len) \<and> block_all (wr_ok m) userdest (unat len)
     then fst (copyout src userdest len m) = 0 \<and>
       (\<forall>i < unat len. bytes (snd (copyout src userdest len m)) (userdest + of_nat i) = bytes m (src + of_nat i))
     else fst (copyout src userdest len m) = EFAULT"
    using i user_copy [OF assms(1,2) _ True, of userdest src m] by (simp add: c move_def)
  then show ?thesis using f u l by (simp add: split_def)
next
  case False
  show ?thesis
  proof (cases "0 < unat len")
    case True
    then show ?thesis using False copycheck_cases [OF True, of userdest] by (auto simp: copyout_def split: prod.splits)
  next
    case empty: False
    then have "len = 0" by (simp add: unat_gt_0)
    then show ?thesis using copycheck_len0 [of userdest] by (simp add: copyout_def)
  qed
qed

theorem copyout_confined_witness:
  "fst (copyout 0x80001000 0x7ffffffe 3 user_sample) = EFAULT \<and>
    bytes (snd (copyout 0x80001000 0x7ffffffe 3 user_sample)) 0x80000000 = bytes user_sample 0x80000000"
  using copyout_confined [where src = "0x80001000" and len = 3 and userdest = "0x7ffffffe" and m = user_sample]
  by (auto simp: split_def dest!: spec [of _ "0x80000000"])

end
