(* ===== verification/Byte_Order.thy ===== *)
theory Byte_Order
  imports Kernel_Prelude
begin

text \<open>
  Byte swapping and 64-bit halves (\<^verbatim>\<open>kern/lib/bswap.c\<close>) and the arithmetic of times
  (\<^verbatim>\<open>kern/lib/time.c\<close>). The target is big-endian, so network order is host order.
\<close>

section \<open>Byte swapping\<close>

definition bswap16 :: "u16 \<Rightarrow> u16" where
  "bswap16 val = push_bit 8 (val AND 0x00ff) OR drop_bit 8 (val AND 0xff00)"

definition bswap32 :: "u32 \<Rightarrow> u32" where
  "bswap32 val =
     push_bit 24 (val AND 0x000000ff) OR push_bit 8 (val AND 0x0000ff00) OR
     drop_bit 8 (val AND 0x00ff0000) OR drop_bit 24 (val AND 0xff000000)"

definition bswap64 :: "u64 \<Rightarrow> u64" where
  "bswap64 val =
     push_bit 56 (val AND 0x00000000000000ff) OR push_bit 40 (val AND 0x000000000000ff00) OR
     push_bit 24 (val AND 0x0000000000ff0000) OR push_bit 8 (val AND 0x00000000ff000000) OR
     push_bit 8 (val AND 0x000000ff00000000) OR push_bit 24 (val AND 0x0000ff0000000000) OR
     drop_bit 40 (val AND 0x00ff000000000000) OR drop_bit 56 (val AND 0xff00000000000000)"

definition ntohs :: "u16 \<Rightarrow> u16" where "ntohs val = val"
definition htons :: "u16 \<Rightarrow> u16" where "htons val = val"
definition ntohl :: "u32 \<Rightarrow> u32" where "ntohl val = val"
definition htonl :: "u32 \<Rightarrow> u32" where "htonl val = val"
definition ntohll :: "u64 \<Rightarrow> u64" where "ntohll val = val"
definition htonll :: "u64 \<Rightarrow> u64" where "htonll val = val"

definition join32to64 :: "u32 \<Rightarrow> u32 \<Rightarrow> u64" where
  "join32to64 x1 x2 = push_bit 32 (ucast x1) OR ucast x2"

definition split64to32 :: "u64 \<Rightarrow> u32 \<times> u32" where
  "split64to32 x = (ucast (drop_bit 32 x), ucast (x AND 0xffffffff))"

text \<open>The byte of a word with a given number, the least significant one first.\<close>

definition byte_of :: "'a::len word \<Rightarrow> nat \<Rightarrow> u8" where
  "byte_of w k = ucast (drop_bit (8 * k) w)"

lemma bit_byte_of: "bit (byte_of w k) j \<longleftrightarrow> j < 8 \<and> bit w (8 * k + j)"
  by (auto simp: byte_of_def bit_ucast_iff bit_drop_bit_eq)

lemma less_8_cases: "P 0 \<Longrightarrow> P 1 \<Longrightarrow> P 2 \<Longrightarrow> P 3 \<Longrightarrow> P 4 \<Longrightarrow> P 5 \<Longrightarrow> P 6 \<Longrightarrow> P 7 \<Longrightarrow> j < 8 \<Longrightarrow> P (j :: nat)"
  by (auto simp: less_Suc_eq numeral_eq_Suc)

lemma byte_eqI: "(\<And>j. j < 8 \<Longrightarrow> bit a j = bit b j) \<Longrightarrow> a = (b :: u8)"
  by (rule bit_word_eqI) simp

lemma bswap32_bytes:
  "byte_of (bswap32 v) 0 = byte_of v 3" "byte_of (bswap32 v) 1 = byte_of v 2"
  "byte_of (bswap32 v) 2 = byte_of v 1" "byte_of (bswap32 v) 3 = byte_of v 0"
  by (rule byte_eqI, erule less_8_cases [rotated 8];
      simp add: bit_byte_of bswap32_def bit_or_iff bit_push_bit_iff bit_drop_bit_eq bit_and_iff bit_numeral_simps flip: numeral_2_eq_2)+

lemma bswap16_bytes: "byte_of (bswap16 v) 0 = byte_of v 1" "byte_of (bswap16 v) 1 = byte_of v 0"
  by (rule byte_eqI, erule less_8_cases [rotated 8];
      simp add: bit_byte_of bswap16_def bit_or_iff bit_push_bit_iff bit_drop_bit_eq bit_and_iff bit_numeral_simps flip: numeral_2_eq_2)+

lemma bswap64_bytes:
  "byte_of (bswap64 v) 7 = byte_of v 0" "byte_of (bswap64 v) 6 = byte_of v 1"
  "byte_of (bswap64 v) 5 = byte_of v 2 OR byte_of v 4" "byte_of (bswap64 v) 4 = byte_of v 3"
  "byte_of (bswap64 v) 3 = 0" "byte_of (bswap64 v) 2 = 0"
  "byte_of (bswap64 v) 1 = byte_of v 6" "byte_of (bswap64 v) 0 = byte_of v 7"
  by (rule byte_eqI, erule less_8_cases [rotated 8];
      simp add: bit_byte_of bswap64_def bit_or_iff bit_push_bit_iff bit_drop_bit_eq bit_and_iff bit_numeral_simps flip: numeral_2_eq_2)+

text \<open>Two words are equal when their bytes are.\<close>

lemma word_eq_bytes:
  assumes "\<And>k. 8 * k < LENGTH('a) \<Longrightarrow> byte_of (a :: 'a::len word) k = byte_of b k"
  shows "a = b"
proof (rule bit_word_eqI)
  fix n assume "n < LENGTH('a)"
  then have "bit (byte_of a (n div 8)) (n mod 8) = bit (byte_of b (n div 8)) (n mod 8)"
    using assms [of "n div 8"] by (simp add: mult.commute div_times_less_eq_dividend le_less_trans)
  then show "bit a n = bit b n" by (simp add: bit_byte_of)
qed

lemma less_4_cases: "P 0 \<Longrightarrow> P 1 \<Longrightarrow> P 2 \<Longrightarrow> P 3 \<Longrightarrow> j < 4 \<Longrightarrow> P (j :: nat)"
  by (auto simp: less_Suc_eq numeral_eq_Suc)

lemma bswap32_twice: "bswap32 (bswap32 v) = v"
proof (rule word_eq_bytes)
  fix k assume "8 * k < LENGTH(32)"
  then have "k < 4" by simp
  then show "byte_of (bswap32 (bswap32 v)) k = byte_of v k"
    by (rule less_4_cases [rotated 4]) (simp_all only: bswap32_bytes)
qed

lemma low32_mask: "x AND 0xffffffff = take_bit 32 (x :: u64)"
  by (simp add: take_bit_eq_mask mask_eq_exp_minus_1)

lemma bit_beyond: "\<not> bit (x :: u32) (32 + n)"
  using bit_imp_le_length [of x "32 + n"] by auto

lemma split_join: "split64to32 (join32to64 x1 x2) = (x1, x2)"
  unfolding split64to32_def join32to64_def low32_mask
  by (auto intro!: bit_word_eqI simp: bit_simps bit_beyond)

lemma join_split: "(case split64to32 x of (x1, x2) \<Rightarrow> join32to64 x1 x2) = x"
  unfolding split64to32_def join32to64_def low32_mask
  by (auto intro!: bit_word_eqI simp: bit_simps not_less)

text \<open>bswap64 does not reverse the bytes of its argument: bytes 2 and 3 of its result are always zero, byte 5 of
  the argument never reaches the result and byte 4 is mixed into byte 5, while the other bytes, and all bytes of
  bswap32 and bswap16, go where a byte swap puts them.\<close>
lemma bswap64_loses_bytes:
  "map (byte_of (bswap64 v)) [0..<8] =
     [byte_of v 7, byte_of v 6, 0, 0, byte_of v 3, byte_of v 2 OR byte_of v 4, byte_of v 1, byte_of v 0] \<and>
   map (byte_of (bswap32 w)) [0..<4] = rev (map (byte_of w) [0..<4]) \<and>
   map (byte_of (bswap16 u)) [0..<2] = rev (map (byte_of u) [0..<2])"
  using bswap64_bytes [of v] bswap32_bytes [of w] bswap16_bytes [of u] by (simp add: upt_rec numeral_eq_Suc)

section \<open>Times\<close>

definition int64 :: "int \<Rightarrow> int" where
  "int64 x = signed_take_bit 63 x"

record timespec =
  tv_sec :: int
  tv_nsec :: int

definition timespec_add :: "timespec \<Rightarrow> timespec \<Rightarrow> timespec" where
  "timespec_add ts1 ts2 =
     (let nsec = int32 (tv_nsec ts1 + tv_nsec ts2); sec = int64 (tv_sec ts1 + tv_sec ts2)
      in if nsec \<ge> 1000000000 then \<lparr>tv_sec = int64 (sec + 1), tv_nsec = int32 (nsec - 1000000000)\<rparr>
         else \<lparr>tv_sec = sec, tv_nsec = nsec\<rparr>)"

definition timespec_sub :: "timespec \<Rightarrow> timespec \<Rightarrow> timespec" where
  "timespec_sub ts1 ts2 =
     (let r = ts1;
          r = (if tv_nsec r < tv_nsec ts2
               then r\<lparr>tv_nsec := int32 (tv_nsec r + 1000000000), tv_sec := int64 (tv_sec r - 1)\<rparr> else r)
      in r\<lparr>tv_nsec := int32 (tv_nsec r - tv_nsec ts2), tv_sec := int64 (tv_sec r - tv_sec ts2)\<rparr>)"

definition ts_ok :: "timespec \<Rightarrow> bool" where
  "ts_ok t \<longleftrightarrow> - (2 ^ 61) \<le> tv_sec t \<and> tv_sec t < 2 ^ 61 \<and> 0 \<le> tv_nsec t \<and> tv_nsec t < 1000000000"

definition nanoseconds :: "timespec \<Rightarrow> int" where
  "nanoseconds t = tv_sec t * 1000000000 + tv_nsec t"

lemma int64_id [simp]: "- (2 ^ 63) \<le> x \<Longrightarrow> x < 2 ^ 63 \<Longrightarrow> int64 x = x"
  by (simp add: int64_def signed_take_bit_int_eq_self)

text \<open>The sum of two times of less than a second's fraction each just fits the signed 32-bit field.\<close>

lemma timespec_add_nanoseconds:
  assumes "ts_ok a" and "ts_ok b"
  shows "nanoseconds (timespec_add a b) = nanoseconds a + nanoseconds b"
    and "0 \<le> tv_nsec (timespec_add a b)" "tv_nsec (timespec_add a b) < 1000000000"
  using assms by (simp_all add: timespec_add_def nanoseconds_def ts_ok_def Let_def)

lemma timespec_sub_nanoseconds:
  assumes "ts_ok a" and "ts_ok b"
  shows "nanoseconds (timespec_sub a b) = nanoseconds a - nanoseconds b"
    and "0 \<le> tv_nsec (timespec_sub a b)" "tv_nsec (timespec_sub a b) < 1000000000"
  using assms by (simp_all add: timespec_sub_def nanoseconds_def ts_ok_def Let_def)

end
