(* ===== verification/Uio.thy ===== *)
theory Uio
  imports Copyinout Byte_Order
begin

text \<open>
  Scatter/gather I/O (\<^verbatim>\<open>kern/lib/uio.c\<close>, \<^verbatim>\<open>kern/include/uio.h\<close>). A uio is a list of blocks with a cursor:
  the pointer \<^verbatim>\<open>uio_iov\<close> with its count \<^verbatim>\<open>uio_iovcnt\<close> is the list of the blocks that are left.
\<close>

section \<open>Operations\<close>

datatype uio_rw = UIO_READ | UIO_WRITE
datatype uio_seg = UIO_USERISPACE | UIO_USERSPACE | UIO_SYSSPACE

record iovec =
  iov_base :: u32
  iov_len :: u32

record uio =
  uio_iov :: "iovec list"
  uio_offset :: int
  uio_resid :: u32
  uio_segflg :: uio_seg
  uio_rw :: uio_rw
  uio_space :: u32

text \<open>The copy of one piece in the direction and between the spaces of the uio. A fault in a copy inside the
  kernel is not recovered from.\<close>

definition uio_copy :: "u32 \<Rightarrow> u32 \<Rightarrow> u32 \<Rightarrow> uio \<Rightarrow> memory \<Rightarrow> (errno \<times> memory) kres" where
  "uio_copy ptr base sz u m =
     (case uio_segflg u of
        UIO_SYSSPACE \<Rightarrow>
          (case (if uio_rw u = UIO_READ then memmove base ptr sz m else memmove ptr base sz m) of
             Inl m \<Rightarrow> Inl (Undefined ''kernel fault'')
           | Inr m \<Rightarrow> Inr (0, m))
      | _ \<Rightarrow> Inr (if uio_rw u = UIO_READ then copyout ptr base sz m else copyin base ptr sz m))"

function uiomove_loop :: "u32 \<Rightarrow> u32 \<Rightarrow> uio \<Rightarrow> memory \<Rightarrow> (errno \<times> uio \<times> memory) kres" where
  "uiomove_loop ptr n u m =
     (if n > 0 \<and> uio_resid u > 0 then
        case uio_iov u of
          [] \<Rightarrow> Inl (Undefined ''uio_iov'')
        | iov # iovs \<Rightarrow>
            let size = (if iov_len iov > n then n else iov_len iov)
            in if size = 0 then
                 if iovs = [] then Inl (Panic ''uiomove: ran out of buffers'')
                 else uiomove_loop ptr n (u\<lparr>uio_iov := iovs\<rparr>) m
               else
                 sbind (uio_copy ptr (iov_base iov) size u m) (\<lambda>(result, m).
                 if result \<noteq> 0 then Inr (result, u, m)
                 else uiomove_loop (ptr + size) (n - size)
                   (u\<lparr>uio_iov := iov\<lparr>iov_base := iov_base iov + size, iov_len := iov_len iov - size\<rparr> # iovs,
                      uio_resid := uio_resid u - size, uio_offset := int64 (uio_offset u + uint size)\<rparr>) m)
      else Inr (0, u, m))"
  by pat_completeness auto
termination
proof (relation "measures [\<lambda>(ptr, n, u, m). unat n, \<lambda>(ptr, n, u, m). length (uio_iov u)]", goal_cases)
  case (3 ptr n u m iov iovs s)
  then have "s \<le> n" "s \<noteq> 0" by (auto simp: not_less)
  then have "unat s \<le> unat n" "0 < unat s" by (simp_all add: word_le_nat_alt unat_gt_0)
  then show ?case by (simp add: unat_sub word_le_nat_alt)
qed auto

text \<open>The first argument is the address space of the current process.\<close>

definition uiomove :: "u32 \<Rightarrow> u32 \<Rightarrow> u32 \<Rightarrow> uio \<Rightarrow> memory \<Rightarrow> (errno \<times> uio \<times> memory) kres" where
  "uiomove curas ptr n u m =
     kassert (if uio_segflg u = UIO_SYSSPACE then uio_space u = 0 else uio_space u = curas) ''uio->uio_space'' (
     uiomove_loop ptr n u m)"

text \<open>\<open>zeros\<close> is the address of the static block of sixteen zero bytes.\<close>

function uiomovezeros_loop :: "u32 \<Rightarrow> u32 \<Rightarrow> u32 \<Rightarrow> uio \<Rightarrow> memory \<Rightarrow> (errno \<times> uio \<times> memory) kres" where
  "uiomovezeros_loop curas zeros n u m =
     (if n > 0 then
        let amt = (if 16 > n then n else 16)
        in sbind (uiomove curas zeros amt u m) (\<lambda>(result, u, m).
           if result \<noteq> 0 then Inr (result, u, m) else uiomovezeros_loop curas zeros (n - amt) u m)
      else Inr (0, u, m))"
  by pat_completeness auto
termination
proof (relation "measure (\<lambda>(c, z, n, u, m). unat n)", goal_cases)
  case (2 c z n u m amt)
  then have "amt \<le> n" "amt \<noteq> 0" by (auto simp: not_less)
  then have "unat amt \<le> unat n" "0 < unat amt" by (simp_all add: word_le_nat_alt unat_gt_0)
  then show ?case by (simp add: unat_sub word_le_nat_alt)
qed simp

definition uiomovezeros :: "u32 \<Rightarrow> u32 \<Rightarrow> u32 \<Rightarrow> uio \<Rightarrow> memory \<Rightarrow> (errno \<times> uio \<times> memory) kres" where
  "uiomovezeros curas zeros n u m =
     kassert (uio_rw u = UIO_READ) ''uio->uio_rw == UIO_READ'' (uiomovezeros_loop curas zeros n u m)"

definition uio_kinit :: "u32 \<Rightarrow> u32 \<Rightarrow> int \<Rightarrow> uio_rw \<Rightarrow> uio" where
  "uio_kinit kbuf len pos rw =
     \<lparr>uio_iov = [\<lparr>iov_base = kbuf, iov_len = len\<rparr>], uio_offset = pos, uio_resid = len,
      uio_segflg = UIO_SYSSPACE, uio_rw = rw, uio_space = 0\<rparr>"

section \<open>Conservation\<close>

text \<open>The blocks hold what is left to transfer, and either the residue is just the room in the blocks or no more than
  the residue is asked for.\<close>

definition uio_room :: "uio \<Rightarrow> nat" where
  "uio_room u = sum_list (map (unat \<circ> iov_len) (uio_iov u))"

definition uio_fits :: "u32 \<Rightarrow> uio \<Rightarrow> bool" where
  "uio_fits n u \<longleftrightarrow> unat (uio_resid u) \<le> uio_room u \<and> (n \<le> uio_resid u \<or> unat (uio_resid u) = uio_room u) \<and>
     int64 (uio_offset u) = uio_offset u"

text \<open>From \<open>u\<close> to \<open>u'\<close> exactly \<open>k\<close> bytes have been transferred.\<close>

definition uio_moved :: "nat \<Rightarrow> uio \<Rightarrow> uio \<Rightarrow> bool" where
  "uio_moved k u u' \<longleftrightarrow> unat (uio_resid u') + k = unat (uio_resid u) \<and> uio_room u' + k = uio_room u \<and>
     uio_offset u' = int64 (uio_offset u + int k) \<and> uio_segflg u' = uio_segflg u \<and> uio_rw u' = uio_rw u \<and>
     uio_space u' = uio_space u"

lemma int64_add [simp]: "int64 (int64 x + y) = int64 (x + y)"
  unfolding int64_def by (metis signed_take_bit_add signed_take_bit_signed_take_bit min.idem)

lemma int64_idem [simp]: "int64 (int64 x) = int64 x"
  by (simp add: int64_def)

lemma uio_moved_0: "uio_fits n u \<Longrightarrow> uio_moved 0 u u"
  by (simp add: uio_moved_def uio_fits_def)

lemma uio_moved_trans: "uio_moved j u u1 \<Longrightarrow> uio_moved k u1 u2 \<Longrightarrow> uio_moved (j + k) u u2"
  by (auto simp: uio_moved_def add.assoc)

lemma uio_moved_step:
  assumes "uio_iov u = iov # iovs" and "unat s \<le> unat (iov_len iov)" and "unat s \<le> unat (uio_resid u)"
  shows "uio_moved (unat s) u
    (u\<lparr>uio_iov := iov\<lparr>iov_base := iov_base iov + s, iov_len := iov_len iov - s\<rparr> # iovs,
       uio_resid := uio_resid u - s, uio_offset := int64 (uio_offset u + uint s)\<rparr>)"
  using assms by (simp add: uio_moved_def uio_room_def unat_sub word_le_nat_alt)

lemma uio_fits_moved:
  assumes "uio_fits n u" and "uio_moved (unat s) u u'" and "s \<le> n"
  shows "uio_fits (n - s) u'"
  using assms by (auto simp: uio_fits_def uio_moved_def word_le_nat_alt unat_sub)

lemma uio_copy_cases:
  "(\<exists>e m'. uio_copy ptr base s u m = Inr (e, m')) \<or>
   uio_copy ptr base s u m = Inl (Undefined ''kernel fault'') \<and> uio_segflg u = UIO_SYSSPACE"
  by (cases "uio_segflg u") (simp_all add: uio_copy_def split: sum.split)

text \<open>What a transfer of \<open>n\<close> bytes comes to.\<close>

definition uio_outcome :: "u32 \<Rightarrow> uio \<Rightarrow> (errno \<times> uio \<times> memory) kres \<Rightarrow> bool" where
  "uio_outcome n u r \<longleftrightarrow>
     (case r of
        Inl f \<Rightarrow> f = Undefined ''kernel fault'' \<and> uio_segflg u = UIO_SYSSPACE
      | Inr (e, u', m') \<Rightarrow> \<exists>k. uio_moved k u u' \<and> k \<le> min (unat n) (unat (uio_resid u)) \<and>
          (e = 0 \<longrightarrow> k = min (unat n) (unat (uio_resid u))))"

lemma uio_outcome_step:
  assumes "uio_moved (unat s) u u1" and "s \<le> n" and "uio_outcome (n - s) u1 r"
  shows "uio_outcome n u r"
proof (cases r)
  case (Inl f)
  then show ?thesis using assms by (simp add: uio_outcome_def uio_moved_def)
next
  case (Inr p)
  obtain e u' m' where p: "p = (e, u', m')" by (cases p)
  from assms(3) Inr p obtain k where k: "uio_moved k u1 u'" "k \<le> min (unat (n - s)) (unat (uio_resid u1))"
    "e = 0 \<longrightarrow> k = min (unat (n - s)) (unat (uio_resid u1))" by (auto simp: uio_outcome_def)
  have "uio_moved (unat s + k) u u'" using assms(1) k(1) by (rule uio_moved_trans)
  moreover have "unat (n - s) = unat n - unat s" "unat s \<le> unat n" using assms(2) by (simp_all add: unat_sub word_le_nat_alt)
  moreover have "unat (uio_resid u1) + unat s = unat (uio_resid u)" using assms(1) by (simp add: uio_moved_def)
  ultimately show ?thesis using k(2,3) unfolding uio_outcome_def Inr p sum.case prod.case
    by (intro exI [of _ "unat s + k"]) auto
qed

declare uiomove_loop.simps [simp del] uiomovezeros_loop.simps [simp del]

lemma uiomove_loop_done: "\<not> (n > 0 \<and> uio_resid u > 0) \<Longrightarrow> uiomove_loop ptr n u m = Inr (0, u, m)"
  by (subst uiomove_loop.simps) (simp only: if_False)

lemma uiomove_loop_skip:
  "n > 0 \<Longrightarrow> uio_resid u > 0 \<Longrightarrow> uio_iov u = iov # iovs \<Longrightarrow> iov_len iov = 0 \<Longrightarrow> iovs \<noteq> [] \<Longrightarrow>
    uiomove_loop ptr n u m = uiomove_loop ptr n (u\<lparr>uio_iov := iovs\<rparr>) m"
  by (subst uiomove_loop.simps) simp

lemma uiomove_loop_copy:
  "n > 0 \<Longrightarrow> uio_resid u > 0 \<Longrightarrow> uio_iov u = iov # iovs \<Longrightarrow> s = (if iov_len iov > n then n else iov_len iov) \<Longrightarrow> s \<noteq> 0 \<Longrightarrow>
    uiomove_loop ptr n u m =
     sbind (uio_copy ptr (iov_base iov) s u m) (\<lambda>(result, m).
       if result \<noteq> 0 then Inr (result, u, m)
       else uiomove_loop (ptr + s) (n - s)
         (u\<lparr>uio_iov := iov\<lparr>iov_base := iov_base iov + s, iov_len := iov_len iov - s\<rparr> # iovs,
            uio_resid := uio_resid u - s, uio_offset := int64 (uio_offset u + uint s)\<rparr>) m)"
  by (subst uiomove_loop.simps) (simp only: Let_def list.case simp_thms if_True if_False)

lemma uiomove_loop_outcome: "uio_fits n u \<Longrightarrow> uio_outcome n u (uiomove_loop ptr n u m)"
proof (induction ptr n u m rule: uiomove_loop.induct)
  case (1 ptr n u m)
  show ?case
  proof (cases "n > 0 \<and> uio_resid u > 0")
    case False
    then have "min (unat n) (unat (uio_resid u)) = 0" by (auto simp: word_less_nat_alt)
    then show ?thesis using uiomove_loop_done [OF False] uio_moved_0 [OF "1.prems"] by (simp add: uio_outcome_def)
  next
    case True
    have fits: "unat (uio_resid u) \<le> uio_room u" using "1.prems" by (simp add: uio_fits_def)
    have "0 < unat (uio_resid u)" using True by (simp add: word_less_nat_alt)
    with fits obtain iov iovs where iov: "uio_iov u = iov # iovs"
      by (cases "uio_iov u") (simp_all add: uio_room_def)
    define s where "s = (if iov_len iov > n then n else iov_len iov)"
    show ?thesis
    proof (cases "s = 0")
      case s0: True
      then have len: "iov_len iov = 0" using True by (auto simp: s_def split: if_splits)
      then have "iovs \<noteq> []" using fits iov True by (auto simp: uio_room_def word_less_nat_alt)
      moreover have "uio_fits n (u\<lparr>uio_iov := iovs\<rparr>)" using "1.prems" iov len by (simp add: uio_fits_def uio_room_def)
      ultimately have "uio_outcome n (u\<lparr>uio_iov := iovs\<rparr>) (uiomove_loop ptr n u m)"
        using "1.IH"(1) [OF True iov refl] s0 True iov len uiomove_loop_skip [of n u iov iovs ptr m] by (simp add: s_def)
      then show ?thesis using iov len by (simp add: uio_outcome_def uio_moved_def uio_room_def cong: sum.case_cong)
    next
      case s: False
      have sn: "s \<le> n" "unat s \<le> unat (iov_len iov)" by (auto simp: s_def word_le_nat_alt word_less_nat_alt)
      then have sr: "unat s \<le> unat (uio_resid u)" using "1.prems" iov
        by (auto simp: uio_fits_def uio_room_def word_le_nat_alt)
      note mv = uio_moved_step [OF iov sn(2) sr]
      note ih = "1.IH"(2) [OF True iov s_def s]
      note eq = uiomove_loop_copy [OF True [THEN conjunct1] True [THEN conjunct2] iov s_def s, of ptr m]
      from uio_copy_cases [of ptr "iov_base iov" s u m] show ?thesis
      proof (elim disjE exE conjE)
        fix e m' assume c: "uio_copy ptr (iov_base iov) s u m = Inr (e, m')"
        show ?thesis
        proof (cases "e = 0")
          case True
          then show ?thesis unfolding eq c sbind.simps prod.case
            using uio_outcome_step [OF mv sn(1) ih [OF _ uio_fits_moved [OF "1.prems" mv sn(1)], of e m']] by simp
        next
          case False
          then show ?thesis using c eq uio_moved_0 [OF "1.prems"] by (auto simp: uio_outcome_def)
        qed
      next
        assume "uio_copy ptr (iov_base iov) s u m = Inl (Undefined ''kernel fault'')" "uio_segflg u = UIO_SYSSPACE"
        then show ?thesis using eq by (simp add: uio_outcome_def)
      qed
    qed
  qed
qed

section \<open>Transfers\<close>

definition uio_sample :: uio where
  "uio_sample = \<lparr>uio_iov = [\<lparr>iov_base = 0x400000, iov_len = 2\<rparr>, \<lparr>iov_base = 0x400100, iov_len = 0\<rparr>,
      \<lparr>iov_base = 0x400200, iov_len = 6\<rparr>], uio_offset = 100, uio_resid = 8, uio_segflg = UIO_USERSPACE,
    uio_rw = UIO_READ, uio_space = 0x80004000\<rparr>"

text \<open>C14: A transfer to or from user space through a well-set-up uio always returns: the kernel never runs out of
  buffers. If it returns 0, the smaller of the request and the residue has been moved; the residue and the room in
  the blocks have shrunk, and the offset has grown, by exactly the number of bytes moved, which is also true, with
  fewer bytes, when a copy fails.\<close>
theorem uiomove_conserves:
  assumes "uio_fits n u" and "uio_segflg u \<noteq> UIO_SYSSPACE" and "uio_space u = curas"
  shows "\<exists>e u' m' k. uiomove curas ptr n u m = Inr (e, u', m') \<and> uio_moved k u u' \<and>
    k \<le> min (unat n) (unat (uio_resid u)) \<and> (e = 0 \<longrightarrow> k = min (unat n) (unat (uio_resid u)))"
proof -
  have "uiomove curas ptr n u m = uiomove_loop ptr n u m" using assms(2,3) by (simp add: uiomove_def)
  then show ?thesis using uiomove_loop_outcome [OF assms(1), of ptr m] assms(2)
    by (auto simp: uio_outcome_def split: sum.splits)
qed

theorem uiomove_conserves_witness:
  "\<exists>e u' m' k. uiomove 0x80004000 0x80001000 5 uio_sample user_sample = Inr (e, u', m') \<and> uio_moved k uio_sample u' \<and> k \<le> 5"
proof -
  have "uio_fits 5 uio_sample" by (simp add: uio_fits_def uio_sample_def uio_room_def)
  then show ?thesis using uiomove_conserves [of 5 uio_sample "0x80004000" "0x80001000" user_sample]
    by (auto simp: uio_sample_def)
qed

end
