(* ===== verification/Process.thy ===== *)
theory Process
  imports Uio
begin

text \<open>
  Processes and open files (\<^verbatim>\<open>kern/proc/proc.c\<close>, \<^verbatim>\<open>kern/syscall/proc_syscalls.c\<close>,
  \<^verbatim>\<open>kern/syscall/file_syscalls.c\<close>, configuration \<^verbatim>\<open>PROJECTC1\<close>): a store of process structures, the table
  of process ids, the table of open files of the system and the tables of the processes. The calls run
  one after the other, so the spinlocks, each taken and released within one function, do not appear. A
  wait for a semaphore that is zero is \<open>Spinning\<close>. The virtual memory system is the component \<open>psys_vm\<close>,
  of any type; its operations are arguments.
\<close>

section \<open>State\<close>

abbreviation (input) MAX_PROC :: int where "MAX_PROC \<equiv> 100"
abbreviation (input) OPEN_MAX :: int where "OPEN_MAX \<equiv> 128"
abbreviation (input) SYSTEM_OPEN_MAX :: nat where "SYSTEM_OPEN_MAX \<equiv> 1280"

record openfile =
  of_vn :: "nat option"
  of_offset :: int
  of_countRef :: u32

text \<open>\<open>pr_sem\<close> is the count of the semaphore \<^verbatim>\<open>p_sem\<close>, or null. The entries of \<open>pr_files\<close> are indices in
  \<open>systemFileTable\<close>.\<close>

record proc =
  pr_name :: string
  pr_numthreads :: u32
  pr_addrspace :: "nat option"
  pr_cwd :: "nat option"
  pr_status :: int
  pr_pid :: int
  pr_sem :: "u32 option"
  pr_files :: "nat option list"

text \<open>Processes, threads, vnodes and address spaces are named by their addresses. \<open>vn_refs\<close> counts the references
  to a vnode.\<close>

record 'v psys =
  procs :: "nat \<rightharpoonup> proc"
  ptab :: "nat option list"
  ptab_last :: int
  ptab_active :: bool
  kproc :: "nat option"
  curthread :: nat
  t_proc :: "nat \<rightharpoonup> nat"
  systemFileTable :: "openfile list"
  vn_refs :: "nat \<Rightarrow> int"
  psys_vm :: 'v

abbreviation (input) NULL_PROC :: kfail where "NULL_PROC \<equiv> Undefined ''null process''"

definition upd_proc :: "nat \<Rightarrow> (proc \<Rightarrow> proc) \<Rightarrow> 'v psys \<Rightarrow> 'v psys" where
  "upd_proc p f s = s\<lparr>procs := (procs s)(p := map_option f (procs s p))\<rparr>"

text \<open>The structure behind a pointer.\<close>

definition the_proc :: "nat \<Rightarrow> 'v psys \<Rightarrow> proc kres" where
  "the_proc p s = (case procs s p of None \<Rightarrow> Inl NULL_PROC | Some pr \<Rightarrow> Inr pr)"

definition curproc_ptr :: "'v psys \<Rightarrow> nat option" where
  "curproc_ptr s = t_proc s (curthread s)"

definition VOP_INCREF :: "nat \<Rightarrow> 'v psys \<Rightarrow> 'v psys" where
  "VOP_INCREF v s = s\<lparr>vn_refs := (vn_refs s)(v := vn_refs s v + 1)\<rparr>"

definition VOP_DECREF :: "nat \<Rightarrow> 'v psys \<Rightarrow> 'v psys" where
  "VOP_DECREF v s = s\<lparr>vn_refs := (vn_refs s)(v := vn_refs s v - 1)\<rparr>"

section \<open>The process table\<close>

definition proc_search_pid :: "int \<Rightarrow> 'v psys \<Rightarrow> nat kres" where
  "proc_search_pid pid s =
     kassert (pid \<ge> 0 \<and> pid < MAX_PROC) ''pid>=0&&pid<MAX_PROC'' (
     case ptab s ! nat pid of
       None \<Rightarrow> Inl NULL_PROC
     | Some p \<Rightarrow>
         sbind (the_proc p s) (\<lambda>pr.
         kassert (pr_pid pr = pid) ''p->p_pid==pid'' (Inr p)))"

text \<open>The loop of \<^verbatim>\<open>proc_init_waitpid\<close>: the index of a free slot, or \<open>None\<close> inside when the search comes back to
  the last allocated one.\<close>

definition next_pid :: "int \<Rightarrow> int" where
  "next_pid i = (if i + 1 > MAX_PROC then 1 else i + 1)"

partial_function (option) pid_search :: "nat option list \<Rightarrow> int \<Rightarrow> int \<Rightarrow> int option option" where
  "pid_search tab last_i i =
     (if i = last_i then Some None
      else if tab ! nat i = None then Some (Some i)
      else pid_search tab last_i (next_pid i))"

text \<open>The last argument but one says whether \<^verbatim>\<open>sem_create\<close> succeeds; the result \<open>None\<close> stands for a search that
  never ends.\<close>

definition proc_init_waitpid :: "nat \<Rightarrow> bool \<Rightarrow> 'v psys \<Rightarrow> 'v psys kres option" where
  "proc_init_waitpid p sem_ok s =
     (case pid_search (ptab s) (ptab_last s) (next_pid (ptab_last s)) of
        None \<Rightarrow> None
      | Some None \<Rightarrow> Some (Inl (Panic ''too many processes. proc table is full''))
      | Some (Some i) \<Rightarrow>
          Some (Inr (upd_proc p
            (\<lambda>pr. pr\<lparr>pr_pid := i, pr_status := 0, pr_sem := (if sem_ok then Some 0 else None)\<rparr>)
            (s\<lparr>ptab := (ptab s)[nat i := Some p], ptab_last := i\<rparr>))))"

definition sem_destroy_null :: "u32 option \<Rightarrow> 'a kres \<Rightarrow> 'a kres" where
  "sem_destroy_null sem k = kassert (sem \<noteq> None) ''sem != NULL'' k"

definition proc_end_waitpid :: "nat \<Rightarrow> 'v psys \<Rightarrow> 'v psys kres" where
  "proc_end_waitpid p s =
     sbind (the_proc p s) (\<lambda>pr.
     let i = pr_pid pr
     in kassert (i > 0 \<and> i \<le> MAX_PROC) ''i>0 && i<=MAX_PROC'' (
        sem_destroy_null (pr_sem pr) (
        Inr (s\<lparr>ptab := (ptab s)[nat i := None]\<rparr>))))"

text \<open>\<open>addr\<close> is the block from \<^verbatim>\<open>kmalloc\<close>, \<open>name_ok\<close> the success of \<^verbatim>\<open>kstrdup\<close>.\<close>

definition proc_create :: "nat option \<Rightarrow> bool \<Rightarrow> bool \<Rightarrow> string \<Rightarrow> 'v psys \<Rightarrow> (nat option \<times> 'v psys) kres option" where
  "proc_create addr name_ok sem_ok name s =
     (case addr of
        None \<Rightarrow> Some (Inr (None, s))
      | Some p \<Rightarrow>
          if \<not> name_ok then Some (Inr (None, s))
          else
            (case proc_init_waitpid p sem_ok (s\<lparr>procs := (procs s)(p \<mapsto>
                \<lparr>pr_name = name, pr_numthreads = 0, pr_addrspace = None, pr_cwd = None, pr_status = 0, pr_pid = 0,
                 pr_sem = None, pr_files = []\<rparr>)\<rparr>) of
               None \<Rightarrow> None
             | Some r \<Rightarrow> Some (sbind r (\<lambda>s.
                 Inr (Some p, upd_proc p (\<lambda>pr. pr\<lparr>pr_files := replicate 128 None\<rparr>) s)))))"

text \<open>\<open>as_destroy\<close> is that of the virtual memory system, which the theory \<open>Proc_Vm\<close> puts in; deactivation does nothing.\<close>

definition proc_destroy :: "(nat \<Rightarrow> 'v \<Rightarrow> 'v kres) \<Rightarrow> nat \<Rightarrow> 'v psys \<Rightarrow> 'v psys kres" where
  "proc_destroy as_destroy p s =
     kassert (kproc s \<noteq> Some p) ''proc != kproc'' (
     sbind (the_proc p s) (\<lambda>pr.
     let s = (case pr_cwd pr of None \<Rightarrow> s | Some v \<Rightarrow> upd_proc p (\<lambda>pr. pr\<lparr>pr_cwd := None\<rparr>) (VOP_DECREF v s))
     in sbind (case pr_addrspace pr of
                 None \<Rightarrow> Inr s
               | Some as \<Rightarrow>
                   sbind (as_destroy as (psys_vm s)) (\<lambda>vm.
                   Inr (upd_proc p (\<lambda>pr. pr\<lparr>pr_addrspace := None\<rparr>) (s\<lparr>psys_vm := vm\<rparr>)))) (\<lambda>s.
        kassert (pr_numthreads pr = 0) ''proc->p_numthreads == 0'' (
        sbind (proc_end_waitpid p s) (\<lambda>s.
        Inr (s\<lparr>procs := (procs s)(p := None)\<rparr>))))))"

definition proc_bootstrap :: "nat option \<Rightarrow> bool \<Rightarrow> bool \<Rightarrow> 'v psys \<Rightarrow> 'v psys kres option" where
  "proc_bootstrap addr name_ok sem_ok s =
     (case proc_create addr name_ok sem_ok ''[kernel]'' s of
        None \<Rightarrow> None
      | Some r \<Rightarrow> Some (sbind r (\<lambda>(p, s).
          if p = None then Inl (Panic ''proc_create for kproc failed'')
          else Inr (s\<lparr>kproc := p, ptab_active := True\<rparr>))))"

definition proc_create_runprogram :: "nat option \<Rightarrow> bool \<Rightarrow> bool \<Rightarrow> string \<Rightarrow> 'v psys \<Rightarrow> (nat option \<times> 'v psys) kres option" where
  "proc_create_runprogram addr name_ok sem_ok name s =
     (case proc_create addr name_ok sem_ok name s of
        None \<Rightarrow> None
      | Some r \<Rightarrow> Some (sbind r (\<lambda>(newproc, s).
          case newproc of
            None \<Rightarrow> Inr (None, s)
          | Some p \<Rightarrow>
              let s = upd_proc p (\<lambda>pr. pr\<lparr>pr_addrspace := None\<rparr>) s
              in case curproc_ptr s of
                   None \<Rightarrow> Inl NULL_PROC
                 | Some c \<Rightarrow>
                     sbind (the_proc c s) (\<lambda>cpr.
                     case pr_cwd cpr of
                       None \<Rightarrow> Inr (Some p, s)
                     | Some v \<Rightarrow> Inr (Some p, upd_proc p (\<lambda>pr. pr\<lparr>pr_cwd := Some v\<rparr>) (VOP_INCREF v s))))))"

section \<open>Threads and address spaces of processes\<close>

definition proc_addthread :: "nat \<Rightarrow> nat \<Rightarrow> 'v psys \<Rightarrow> 'v psys kres" where
  "proc_addthread p t s =
     kassert (t_proc s t = None) ''t->t_proc == NULL'' (
     sbind (the_proc p s) (\<lambda>pr.
     Inr ((upd_proc p (\<lambda>pr. pr\<lparr>pr_numthreads := pr_numthreads pr + 1\<rparr>) s)\<lparr>t_proc := (t_proc s)(t \<mapsto> p)\<rparr>)))"

definition proc_remthread :: "nat \<Rightarrow> 'v psys \<Rightarrow> 'v psys kres" where
  "proc_remthread t s =
     (case t_proc s t of
        None \<Rightarrow> Inl (AssertFail ''proc != NULL'')
      | Some p \<Rightarrow>
          sbind (the_proc p s) (\<lambda>pr.
          kassert (pr_numthreads pr > 0) ''proc->p_numthreads > 0'' (
          Inr ((upd_proc p (\<lambda>pr. pr\<lparr>pr_numthreads := pr_numthreads pr - 1\<rparr>) s)\<lparr>t_proc := (t_proc s)(t := None)\<rparr>))))"

definition proc_getas :: "'v psys \<Rightarrow> nat option kres" where
  "proc_getas s =
     (case curproc_ptr s of None \<Rightarrow> Inr None | Some p \<Rightarrow> sbind (the_proc p s) (\<lambda>pr. Inr (pr_addrspace pr)))"

definition proc_setas :: "nat option \<Rightarrow> 'v psys \<Rightarrow> (nat option \<times> 'v psys) kres" where
  "proc_setas newas s =
     (case curproc_ptr s of
        None \<Rightarrow> Inl (AssertFail ''proc != NULL'')
      | Some p \<Rightarrow>
          sbind (the_proc p s) (\<lambda>pr. Inr (pr_addrspace pr, upd_proc p (\<lambda>pr. pr\<lparr>pr_addrspace := newas\<rparr>) s)))"

section \<open>Exit and wait\<close>

definition proc_wait :: "(nat \<Rightarrow> 'v \<Rightarrow> 'v kres) \<Rightarrow> nat \<Rightarrow> 'v psys \<Rightarrow> (int \<times> 'v psys) kres" where
  "proc_wait as_destroy p s =
     kassert (kproc s \<noteq> Some p) ''proc != kproc'' (
     sbind (the_proc p s) (\<lambda>pr.
     case pr_sem pr of
       None \<Rightarrow> Inl (AssertFail ''sem != NULL'')
     | Some c \<Rightarrow>
         if c = 0 then Inl Spinning
         else
           sbind (proc_destroy as_destroy p (upd_proc p (\<lambda>pr. pr\<lparr>pr_sem := Some (c - 1)\<rparr>) s)) (\<lambda>s.
           Inr (pr_status pr, s))))"

definition proc_signal_end :: "nat \<Rightarrow> 'v psys \<Rightarrow> 'v psys kres" where
  "proc_signal_end p s =
     sbind (the_proc p s) (\<lambda>pr.
     case pr_sem pr of
       None \<Rightarrow> Inl (AssertFail ''sem != NULL'')
     | Some c \<Rightarrow>
         kassert (c + 1 > 0) ''sem->sem_count > 0'' (
         Inr (upd_proc p (\<lambda>pr. pr\<lparr>pr_sem := Some (c + 1)\<rparr>) s)))"

text \<open>\<^verbatim>\<open>thread_exit\<close> up to the switch to another thread.\<close>

definition thread_exit :: "'v psys \<Rightarrow> 'v psys kres" where
  "thread_exit s =
     sbind (proc_remthread (curthread s) s) (\<lambda>s.
     kassert (t_proc s (curthread s) = None) ''cur->t_proc == NULL'' (Inr s))"

text \<open>\<^verbatim>\<open>sys__exit\<close> up to the call of \<^verbatim>\<open>thread_exit\<close>, and all of it.\<close>

definition exit_signal :: "int \<Rightarrow> 'v psys \<Rightarrow> 'v psys kres" where
  "exit_signal status s =
     (case curproc_ptr s of
        None \<Rightarrow> Inl NULL_PROC
      | Some p \<Rightarrow>
          sbind (the_proc p s) (\<lambda>pr.
          let s = upd_proc p (\<lambda>pr. pr\<lparr>pr_status := status AND 0xff\<rparr>) s
          in sbind (proc_remthread (curthread s) s) (proc_signal_end p)))"

definition sys__exit :: "int \<Rightarrow> 'v psys \<Rightarrow> 'v psys kres" where
  "sys__exit status s = sbind (exit_signal status s) thread_exit"

text \<open>The result is the pid, the status stored through \<^verbatim>\<open>statusp\<close> and the state.\<close>

definition sys_waitpid :: "(nat \<Rightarrow> 'v \<Rightarrow> 'v kres) \<Rightarrow> int \<Rightarrow> 'v psys \<Rightarrow> (int \<times> int \<times> 'v psys) kres" where
  "sys_waitpid as_destroy pid s =
     sbind (proc_search_pid pid s) (\<lambda>p.
     sbind (proc_wait as_destroy p s) (\<lambda>(status, s).
     Inr (pid, status, s)))"

definition sys_getpid :: "'v psys \<Rightarrow> int kres" where
  "sys_getpid s =
     (case curproc_ptr s of
        None \<Rightarrow> Inl (AssertFail ''curproc != NULL'')
      | Some p \<Rightarrow> sbind (the_proc p s) (\<lambda>pr. Inr (pr_pid pr)))"

section \<open>Open files\<close>

definition openfileIncrRefCount :: "nat option \<Rightarrow> 'v psys \<Rightarrow> 'v psys" where
  "openfileIncrRefCount fl s =
     (case fl of
        None \<Rightarrow> s
      | Some k \<Rightarrow> s\<lparr>systemFileTable := (systemFileTable s)[k := (systemFileTable s ! k)
                   \<lparr>of_countRef := of_countRef (systemFileTable s ! k) + 1\<rparr>]\<rparr>)"

definition proc_file_table_copy :: "nat \<Rightarrow> nat \<Rightarrow> 'v psys \<Rightarrow> 'v psys kres" where
  "proc_file_table_copy psrc pdest s =
     kfor [0..<128] (\<lambda>fd s.
       sbind (the_proc psrc s) (\<lambda>src.
       sbind (the_proc pdest s) (\<lambda>dest.
       let fl = pr_files src ! fd
       in Inr (openfileIncrRefCount fl (upd_proc pdest (\<lambda>pr. pr\<lparr>pr_files := (pr_files pr)[fd := fl]\<rparr>) s))))) s"

text \<open>The entry \<^verbatim>\<open>curproc->fileTable[fd]\<close> for a descriptor that passed the range check; the check lets
  \<^verbatim>\<open>OPEN_MAX\<close> through, one beyond the end of the table.\<close>

definition file_entry :: "int \<Rightarrow> 'v psys \<Rightarrow> nat option kres" where
  "file_entry fd s =
     (case curproc_ptr s of
        None \<Rightarrow> Inl NULL_PROC
      | Some p \<Rightarrow>
          sbind (the_proc p s) (\<lambda>pr.
          if fd \<ge> OPEN_MAX then Inl (Undefined ''fileTable index'') else Inr (pr_files pr ! nat fd)))"

definition as_ptr :: "nat option \<Rightarrow> u32" where
  "as_ptr a = (case a of None \<Rightarrow> 0 | Some x \<Rightarrow> of_nat x)"

text \<open>The part that reading and writing share; \<open>vop\<close> is \<^verbatim>\<open>VOP_READ\<close> or \<^verbatim>\<open>VOP_WRITE\<close>.\<close>

definition file_io ::
  "uio_rw \<Rightarrow> (nat \<Rightarrow> uio \<Rightarrow> 'v \<Rightarrow> errno \<times> uio \<times> 'v) \<Rightarrow> int \<Rightarrow> u32 \<Rightarrow> u32 \<Rightarrow> 'v psys \<Rightarrow> (int \<times> 'v psys) kres" where
  "file_io rw vop fd buf_ptr sz s =
     (if fd < 0 \<or> fd > OPEN_MAX then Inr (-1, s)
      else
        sbind (file_entry fd s) (\<lambda>fl.
        case fl of
          None \<Rightarrow> Inr (-1, s)
        | Some k \<Rightarrow>
            (case of_vn (systemFileTable s ! k) of
               None \<Rightarrow> Inr (-1, s)
             | Some vn \<Rightarrow>
                 sbind (proc_getas s) (\<lambda>as.
                 let u = \<lparr>uio_iov = [\<lparr>iov_base = buf_ptr, iov_len = sz\<rparr>],
                          uio_offset = of_offset (systemFileTable s ! k), uio_resid = sz,
                          uio_segflg = UIO_USERISPACE, uio_rw = rw, uio_space = as_ptr as\<rparr>;
                     (result, u, vm) = vop vn u (psys_vm s);
                     s = s\<lparr>psys_vm := vm\<rparr>
                 in if result \<noteq> 0 then Inr (result, s)
                    else Inr (sint (sz - uio_resid u),
                      s\<lparr>systemFileTable := (systemFileTable s)[k := (systemFileTable s ! k)\<lparr>of_offset := uio_offset u\<rparr>]\<rparr>)))))"

definition file_read :: "(nat \<Rightarrow> uio \<Rightarrow> 'v \<Rightarrow> errno \<times> uio \<times> 'v) \<Rightarrow> int \<Rightarrow> u32 \<Rightarrow> u32 \<Rightarrow> 'v psys \<Rightarrow> (int \<times> 'v psys) kres" where
  "file_read vop_read = file_io UIO_READ vop_read"

definition file_write :: "(nat \<Rightarrow> uio \<Rightarrow> 'v \<Rightarrow> errno \<times> uio \<times> 'v) \<Rightarrow> int \<Rightarrow> u32 \<Rightarrow> u32 \<Rightarrow> 'v psys \<Rightarrow> (int \<times> 'v psys) kres" where
  "file_write vop_write = file_io UIO_WRITE vop_write"

text \<open>\<open>opened\<close> is what \<^verbatim>\<open>vfs_open\<close> returns: an error, or a vnode with a new reference. The result is the
  descriptor and \<^verbatim>\<open>*errp\<close> when it is set.\<close>

definition sys_open :: "errno \<times> nat \<Rightarrow> 'v psys \<Rightarrow> (int \<times> errno option \<times> 'v psys) kres" where
  "sys_open opened s =
     (let (result, v) = opened
      in if result \<noteq> 0 then Inr (-1, Some ENOENT, s)
         else
           let s = VOP_INCREF v s; i = find_first (\<lambda>f. of_vn f = None) 0 (systemFileTable s)
           in if i = -1 then Inr (-1, Some ENFILE, VOP_DECREF v s)
              else
                let s = s\<lparr>systemFileTable := (systemFileTable s)[nat i := \<lparr>of_vn = Some v, of_offset = 0, of_countRef = 1\<rparr>]\<rparr>
                in case curproc_ptr s of
                     None \<Rightarrow> Inl NULL_PROC
                   | Some p \<Rightarrow>
                       sbind (the_proc p s) (\<lambda>pr.
                       let fd = find_first (\<lambda>f. f = None) 3 (drop 3 (pr_files pr))
                       in if fd = -1 then Inr (-1, Some EMFILE, VOP_DECREF v s)
                          else Inr (fd, None,
                            upd_proc p (\<lambda>pr. pr\<lparr>pr_files := (pr_files pr)[nat fd := Some (nat i)]\<rparr>) s)))"

definition sys_close :: "int \<Rightarrow> 'v psys \<Rightarrow> (int \<times> 'v psys) kres" where
  "sys_close fd s =
     (if fd < 0 \<or> fd > OPEN_MAX then Inr (-1, s)
      else
        sbind (file_entry fd s) (\<lambda>fl.
        case fl of
          None \<Rightarrow> Inr (-1, s)
        | Some k \<Rightarrow>
            let f = systemFileTable s ! k;
                s = upd_proc (the (curproc_ptr s)) (\<lambda>pr. pr\<lparr>pr_files := (pr_files pr)[nat fd := None]\<rparr>) s;
                cnt = of_countRef f - 1;
                s = s\<lparr>systemFileTable := (systemFileTable s)[k := f\<lparr>of_countRef := cnt\<rparr>]\<rparr>
            in if cnt > 0 then Inr (0, s)
               else
                 let s = s\<lparr>systemFileTable := (systemFileTable s)[k := f\<lparr>of_countRef := cnt, of_vn := None\<rparr>]\<rparr>
                 in case of_vn f of None \<Rightarrow> Inr (-1, s) | Some vn \<Rightarrow> Inr (0, VOP_DECREF vn s)))"

text \<open>The console: the bytes written, and a function that gives the \<open>i\<close>-th byte typed. The user's buffer is
  accessed directly, so a fault on it is not recovered from.\<close>

definition sys_write ::
  "(nat \<Rightarrow> uio \<Rightarrow> 'v \<Rightarrow> errno \<times> uio \<times> 'v) \<Rightarrow> memory \<Rightarrow> int \<Rightarrow> u32 \<Rightarrow> u32 \<Rightarrow> 'v psys \<Rightarrow> (int \<times> u8 list \<times> 'v psys) kres" where
  "sys_write vop m fd buf_ptr sz s =
     (if fd \<noteq> 1 \<and> fd \<noteq> 2 then sbind (file_write vop fd buf_ptr sz s) (\<lambda>(r, s). Inr (r, [], s))
      else if \<not> block_all (rd_ok m) buf_ptr (nat (sint sz)) then Inl (Undefined ''kernel fault'')
      else Inr (sint sz, map (\<lambda>i. bytes m (buf_ptr + of_nat i)) [0..<nat (sint sz)], s))"

fun read_console :: "(nat \<Rightarrow> u8) \<Rightarrow> u32 \<Rightarrow> nat \<Rightarrow> nat \<Rightarrow> memory \<Rightarrow> (nat option \<times> memory) kres" where
  "read_console getch p i 0 m = Inr (None, m)"
| "read_console getch p i (Suc n) m =
     (if \<not> wr_ok m (p + of_nat i) then Inl (Undefined ''kernel fault'')
      else
        let m = m\<lparr>bytes := (bytes m)(p + of_nat i := getch i)\<rparr>
        in if sint (getch i) < 0 then Inr (Some i, m) else read_console getch p (Suc i) n m)"

definition sys_read ::
  "(nat \<Rightarrow> uio \<Rightarrow> 'v \<Rightarrow> errno \<times> uio \<times> 'v) \<Rightarrow> (nat \<Rightarrow> u8) \<Rightarrow> memory \<Rightarrow> int \<Rightarrow> u32 \<Rightarrow> u32 \<Rightarrow> 'v psys \<Rightarrow>
    (int \<times> memory \<times> 'v psys) kres" where
  "sys_read vop getch m fd buf_ptr sz s =
     (if fd \<noteq> 0 then sbind (file_read vop fd buf_ptr sz s) (\<lambda>(r, s). Inr (r, m, s))
      else
        sbind (read_console getch buf_ptr 0 (nat (sint sz)) m) (\<lambda>(stop, m).
        Inr (case stop of None \<Rightarrow> sint sz | Some i \<Rightarrow> int i, m, s)))"

section \<open>Fork\<close>

text \<open>The arguments: the results of the allocations of the process, its name, its semaphore and the trap frame, the
  copy of an address space, and the result of \<^verbatim>\<open>thread_fork\<close>, which makes the thread \<open>child\<close> run in the new
  process.\<close>

definition sys_fork ::
  "(nat \<Rightarrow> 'v \<Rightarrow> 'v kres) \<Rightarrow> (nat option \<Rightarrow> 'v \<Rightarrow> (nat option \<times> 'v) kres) \<Rightarrow> nat option \<Rightarrow> bool \<Rightarrow> bool \<Rightarrow> bool \<Rightarrow> errno \<Rightarrow> nat \<Rightarrow>
    'v psys \<Rightarrow> (errno \<times> int option \<times> 'v psys) kres option" where
  "sys_fork as_destroy as_copy addr name_ok sem_ok tf_ok tfork child s =
     (case curproc_ptr s of
        None \<Rightarrow> Some (Inl (AssertFail ''curproc != NULL''))
      | Some c \<Rightarrow>
          (case procs s c of
             None \<Rightarrow> Some (Inl NULL_PROC)
           | Some cpr \<Rightarrow>
               (case proc_create_runprogram addr name_ok sem_ok (pr_name cpr) s of
                  None \<Rightarrow> None
                | Some r \<Rightarrow> Some (sbind r (\<lambda>(newp, s).
                    case newp of
                      None \<Rightarrow> Inr (ENOMEM, None, s)
                    | Some p \<Rightarrow>
                        sbind (as_copy (pr_addrspace cpr) (psys_vm s)) (\<lambda>(new, vm).
                        let s = upd_proc p (\<lambda>pr. pr\<lparr>pr_addrspace := new\<rparr>) (s\<lparr>psys_vm := vm\<rparr>)
                        in if new = None then
                             sbind (proc_destroy as_destroy p s) (\<lambda>s. Inr (ENOMEM, None, s))
                           else
                             sbind (proc_file_table_copy p c s) (\<lambda>s.
                             if \<not> tf_ok then sbind (proc_destroy as_destroy p s) (\<lambda>s. Inr (ENOMEM, None, s))
                             else if tfork \<noteq> 0 then sbind (proc_destroy as_destroy p s) (\<lambda>s. Inr (ENOMEM, None, s))
                             else
                               sbind (proc_addthread p child s) (\<lambda>s.
                               sbind (the_proc p s) (\<lambda>pr. Inr (0, Some (pr_pid pr), s)))))))))) "

section \<open>Process ids\<close>

text \<open>The slot that is \<open>k\<close> places behind slot \<open>i\<close>, going round.\<close>

definition circ :: "int \<Rightarrow> nat \<Rightarrow> int" where
  "circ i k = (i - 1 + int k) mod 100 + 1"

lemma circ_range: "1 \<le> circ i k" "circ i k \<le> 100"
  using pos_mod_bound [of 100 "i - 1 + int k"] by (auto simp: circ_def)

lemma circ_0: "1 \<le> i \<Longrightarrow> i \<le> 100 \<Longrightarrow> circ i 0 = i"
  by (simp add: circ_def)

lemma next_pid_circ: "1 \<le> i \<Longrightarrow> i \<le> 100 \<Longrightarrow> next_pid i = circ i 1"
  by (cases "i = 100") (auto simp: next_pid_def circ_def)

lemma circ_circ: "circ (circ i j) k = circ i (j + k)"
  by (simp add: circ_def mod_simps algebra_simps)

lemma circ_inj: "j < 100 \<Longrightarrow> k < 100 \<Longrightarrow> circ i j = circ i k \<Longrightarrow> j = k"
proof -
  assume "j < 100" "k < 100" "circ i j = circ i k"
  then have "(i - 1 + int j) mod 100 = (i - 1 + int k) mod 100" by (simp add: circ_def)
  then have "100 dvd (int j - int k)" by (simp add: mod_eq_dvd_iff)
  then have "100 \<le> \<bar>int j - int k\<bar>" if "j \<noteq> k" using dvd_imp_le_int [of "int j - int k" 100] that by simp
  then show "j = k" using \<open>j < 100\<close> \<open>k < 100\<close> by linarith
qed

lemma circ_surj:
  assumes "1 \<le> j" "j \<le> 100" "1 \<le> i" "i \<le> 100"
  shows "\<exists>k < 100. circ i k = j"
proof (intro exI conjI)
  let ?k = "nat ((j - i) mod 100)"
  show "?k < 100" using pos_mod_bound [of 100 "j - i"] by simp
  have "(i - 1 + (j - i) mod 100) mod 100 = (j - 1) mod 100" by (simp add: mod_simps)
  also have "\<dots> = j - 1" using assms by simp
  finally show "circ i ?k = j" by (simp add: circ_def)
qed

text \<open>The search looks at the slots from \<open>i\<close> on until it finds a free one or comes to the end of the round.\<close>

lemma pid_search_circ:
  assumes "1 \<le> i" "i \<le> 100" and "d < 100" "circ i d = l"
  shows "\<exists>r. pid_search tab l i = Some r \<and>
    (case r of None \<Rightarrow> \<forall>k < d. tab ! nat (circ i k) \<noteq> None
     | Some j \<Rightarrow> \<exists>k < d. j = circ i k \<and> tab ! nat j = None \<and> (\<forall>k' < k. tab ! nat (circ i k') \<noteq> None))"
  using assms
proof (induction d arbitrary: i)
  case 0
  then show ?case by (subst pid_search.simps) (simp add: circ_0)
next
  case (Suc d)
  have ne: "i \<noteq> l" using circ_inj [of "Suc d" 0 i] Suc.prems circ_0 [of i] by auto
  show ?case
  proof (cases "tab ! nat i = None")
    case True
    then show ?thesis using ne Suc.prems(1,2) circ_0 [of i]
      by (subst pid_search.simps) (auto intro!: exI [of _ "0 :: nat"])
  next
    case False
    have nx: "next_pid i = circ i 1" using Suc.prems by (intro next_pid_circ)
    have "circ (circ i 1) d = l" using Suc.prems(4) by (simp add: circ_circ)
    from Suc.IH [OF circ_range [of i 1] _ this] Suc.prems(3) obtain r where
      r: "pid_search tab l (circ i 1) = Some r"
        "case r of None \<Rightarrow> \<forall>k < d. tab ! nat (circ (circ i 1) k) \<noteq> None
         | Some j \<Rightarrow> \<exists>k < d. j = circ (circ i 1) k \<and> tab ! nat j = None \<and> (\<forall>k' < k. tab ! nat (circ (circ i 1) k') \<noteq> None)"
      by auto
    have all: "\<forall>k < Suc n. tab ! nat (circ i k) \<noteq> None" if "\<forall>k < n. tab ! nat (circ (circ i 1) k) \<noteq> None" for n
      using that False Suc.prems(1,2) circ_0 [of i] by (auto simp: circ_circ less_Suc_eq_0_disj)
    have "pid_search tab l i = Some r" using ne False r(1) nx by (subst pid_search.simps) auto
    moreover have "case r of None \<Rightarrow> \<forall>k < Suc d. tab ! nat (circ i k) \<noteq> None
      | Some j \<Rightarrow> \<exists>k < Suc d. j = circ i k \<and> tab ! nat j = None \<and> (\<forall>k' < k. tab ! nat (circ i k') \<noteq> None)"
    proof (cases r)
      case None
      then show ?thesis using r(2) all [of d] by simp
    next
      case (Some j)
      then obtain k where "k < d" "j = circ (circ i 1) k" "tab ! nat j = None" "\<forall>k' < k. tab ! nat (circ (circ i 1) k') \<noteq> None"
        using r(2) by auto
      then show ?thesis using Some all [of k] by (auto simp: circ_circ intro!: exI [of _ "Suc k"])
    qed
    ultimately show ?thesis by blast
  qed
qed

text \<open>The table and the process structures agree: a process is in the slot of its pid.\<close>

definition proc_inv :: "'v psys \<Rightarrow> bool" where
  "proc_inv s \<longleftrightarrow> length (ptab s) = 101 \<and> 0 \<le> ptab_last s \<and> ptab_last s \<le> 100 \<and>
     (ptab_last s = 0 \<longrightarrow> procs s = Map.empty \<and> ptab s = replicate 101 None) \<and>
     (\<forall>p pr. procs s p = Some pr \<longrightarrow> 1 \<le> pr_pid pr \<and> pr_pid pr \<le> 100 \<and> ptab s ! nat (pr_pid pr) = Some p) \<and>
     (\<forall>i \<in> {1..100}. \<forall>p. ptab s ! nat i = Some p \<longrightarrow> (\<exists>pr. procs s p = Some pr \<and> pr_pid pr = i))"

lemma proc_invD:
  assumes "proc_inv s"
  shows "procs s p = Some pr \<Longrightarrow> 1 \<le> pr_pid pr \<and> pr_pid pr \<le> 100 \<and> ptab s ! nat (pr_pid pr) = Some p"
    and "1 \<le> i \<Longrightarrow> i \<le> 100 \<Longrightarrow> ptab s ! nat i = Some p \<Longrightarrow> \<exists>pr. procs s p = Some pr \<and> pr_pid pr = i"
    and "length (ptab s) = 101"
  using assms unfolding proc_inv_def by (blast, metis atLeastAtMost_iff, blast)

text \<open>The slot that a new process gets.\<close>

lemma pid_search_result:
  assumes inv: "proc_inv s"
  shows "\<exists>r. pid_search (ptab s) (ptab_last s) (next_pid (ptab_last s)) = Some r \<and>
    (case r of None \<Rightarrow> \<forall>j \<in> {1..100} - {ptab_last s}. ptab s ! nat j \<noteq> None
     | Some j \<Rightarrow> 1 \<le> j \<and> j \<le> 100 \<and> ptab s ! nat j = None)"
proof (cases "ptab_last s = 0")
  case True
  then have "ptab s = replicate 101 None" using inv by (simp add: proc_inv_def)
  then show ?thesis using True by (subst pid_search.simps) (simp add: next_pid_def)
next
  case False
  let ?l = "ptab_last s" let ?i = "next_pid ?l"
  have l: "1 \<le> ?l" "?l \<le> 100" using inv False by (auto simp: proc_inv_def)
  have i: "?i = circ ?l 1" using l by (rule next_pid_circ)
  have "circ ?i 99 = circ ?l 100" using circ_circ [of ?l 1 99] by (simp add: i)
  also have "\<dots> = ?l" using l mod_add_self2 [of "?l - 1" 100] mod_pos_pos_trivial [of "?l - 1" 100] by (simp add: circ_def)
  finally have last_slot: "circ ?i 99 = ?l" .
  have ran: "1 \<le> ?i" "?i \<le> 100" using circ_range [of ?l 1] i by simp_all
  from pid_search_circ [OF ran _ last_slot] obtain r where r: "pid_search (ptab s) ?l ?i = Some r"
    "case r of None \<Rightarrow> \<forall>k < 99. ptab s ! nat (circ ?i k) \<noteq> None
     | Some j \<Rightarrow> \<exists>k < 99. j = circ ?i k \<and> ptab s ! nat j = None \<and> (\<forall>k' < k. ptab s ! nat (circ ?i k') \<noteq> None)" by auto
  have "ptab s ! nat j \<noteq> None" if r0: "r = None" and j: "j \<in> {1..100} - {?l}" for j
  proof -
    obtain k where k: "k < 100" "circ ?i k = j" using circ_surj [of j ?i] j ran by auto
    then have "k \<noteq> 99" using last_slot j by auto
    then show ?thesis using r(2) k r0 by auto
  qed
  then show ?thesis using r circ_range by (cases r) auto
qed

lemma proc_create_ok:
  assumes inv: "proc_inv s" and new: "procs s p = None"
    and r: "pid_search (ptab s) (ptab_last s) (next_pid (ptab_last s)) = Some (Some i)"
  shows "\<exists>s'. proc_create (Some p) True sem_ok name s = Some (Inr (Some p, s')) \<and> proc_inv s' \<and>
    procs s' = (procs s)(p \<mapsto> \<lparr>pr_name = name, pr_numthreads = 0, pr_addrspace = None, pr_cwd = None, pr_status = 0,
      pr_pid = i, pr_sem = (if sem_ok then Some 0 else None), pr_files = replicate 128 None\<rparr>) \<and>
    ptab s' = (ptab s)[nat i := Some p] \<and> t_proc s' = t_proc s \<and> curthread s' = curthread s"
proof -
  define pr where "pr = \<lparr>pr_name = name, pr_numthreads = 0, pr_addrspace = None, pr_cwd = None, pr_status = 0,
      pr_pid = i, pr_sem = (if sem_ok then Some 0 else None), pr_files = replicate 128 None\<rparr>"
  define s' where "s' = s\<lparr>procs := (procs s)(p \<mapsto> pr), ptab := (ptab s)[nat i := Some p], ptab_last := i\<rparr>"
  have i: "1 \<le> i" "i \<le> 100" "ptab s ! nat i = None" using pid_search_result [OF inv] r by auto
  have "proc_create (Some p) True sem_ok name s = Some (Inr (Some p, s'))"
    using r by (simp add: proc_create_def proc_init_waitpid_def upd_proc_def s'_def pr_def)
  moreover have "proc_inv s'"
    unfolding proc_inv_def
  proof (intro conjI allI ballI impI)
    show "length (ptab s') = 101" using proc_invD(3) [OF inv] by (simp add: s'_def)
    show "0 \<le> ptab_last s'" "ptab_last s' \<le> 100" using i by (simp_all add: s'_def)
    show "procs s' = Map.empty" "ptab s' = replicate 101 None" if "ptab_last s' = 0" using that i by (simp_all add: s'_def)
  next
    fix q qr assume q: "procs s' q = Some qr"
    show "1 \<le> pr_pid qr" "pr_pid qr \<le> 100" "ptab s' ! nat (pr_pid qr) = Some q"
      using q i proc_invD(1) [OF inv, of q qr] proc_invD(3) [OF inv] new
      by (auto simp: s'_def pr_def nth_list_update split: if_splits)
  next
    fix j q assume j: "j \<in> {1..100}" "ptab s' ! nat j = Some q"
    show "\<exists>qr. procs s' q = Some qr \<and> pr_pid qr = j"
    proof (cases "j = i")
      case True
      then show ?thesis using j i proc_invD(3) [OF inv] by (auto simp: s'_def pr_def)
    next
      case False
      then have "nat j \<noteq> nat i" using j i by auto
      then obtain qr where "procs s q = Some qr" "pr_pid qr = j" using proc_invD(2) [OF inv, of j q] j by (auto simp: s'_def)
      then show ?thesis using new by (auto simp: s'_def)
    qed
  qed
  ultimately show ?thesis by (intro exI [of _ s']) (simp add: s'_def pr_def)
qed

definition psys_boot :: "unit psys" where
  "psys_boot = \<lparr>procs = Map.empty, ptab = replicate 101 None, ptab_last = 0, ptab_active = False, kproc = None,
     curthread = 0, t_proc = Map.empty, systemFileTable = replicate 1280 \<lparr>of_vn = None, of_offset = 0, of_countRef = 0\<rparr>,
     vn_refs = \<lambda>_. 0, psys_vm = ()\<rparr>"

lemma psys_boot_inv: "proc_inv psys_boot"
  by (auto simp: proc_inv_def psys_boot_def nth_replicate simp del: replicate.simps)

text \<open>C13: Creating a process always ends. It either stops the kernel because every slot of the table other than the last
  one given out is taken, or the new process gets a pid from 1 to 100 that no other process has, in a slot that was
  free, and all other processes stay as they are; the agreement of the table with the process structures is kept.\<close>
theorem proc_create_fresh_pid:
  assumes "proc_inv s" and "procs s p = None"
  shows "proc_create (Some p) True sem_ok name s = Some (Inl (Panic ''too many processes. proc table is full'')) \<and>
      (\<forall>j \<in> {1..100} - {ptab_last s}. ptab s ! nat j \<noteq> None) \<or>
    (\<exists>s' pr. proc_create (Some p) True sem_ok name s = Some (Inr (Some p, s')) \<and> proc_inv s' \<and>
      procs s' = (procs s)(p \<mapsto> pr) \<and> 1 \<le> pr_pid pr \<and> pr_pid pr \<le> 100 \<and> ptab s ! nat (pr_pid pr) = None \<and>
      (\<forall>q qr. procs s q = Some qr \<longrightarrow> pr_pid qr \<noteq> pr_pid pr))"
proof -
  obtain r where r: "pid_search (ptab s) (ptab_last s) (next_pid (ptab_last s)) = Some r"
    "case r of None \<Rightarrow> \<forall>j \<in> {1..100} - {ptab_last s}. ptab s ! nat j \<noteq> None
     | Some j \<Rightarrow> 1 \<le> j \<and> j \<le> 100 \<and> ptab s ! nat j = None"
    using pid_search_result [OF assms(1)] by blast
  show ?thesis
  proof (cases r)
    case None
    then show ?thesis using r by (simp add: proc_create_def proc_init_waitpid_def)
  next
    case (Some i)
    obtain s' where s': "proc_create (Some p) True sem_ok name s = Some (Inr (Some p, s'))" "proc_inv s'"
      "procs s' = (procs s)(p \<mapsto> \<lparr>pr_name = name, pr_numthreads = 0, pr_addrspace = None, pr_cwd = None, pr_status = 0,
        pr_pid = i, pr_sem = (if sem_ok then Some 0 else None), pr_files = replicate 128 None\<rparr>)"
      using proc_create_ok [OF assms] r(1) Some by blast
    have "pr_pid qr \<noteq> i" if "procs s q = Some qr" for q qr
      using proc_invD(1) [OF assms(1) that] r(2) Some by auto
    then show ?thesis using s' r(2) Some by (intro disjI2 exI conjI) auto
  qed
qed

theorem proc_create_fresh_pid_witness:
  "\<exists>s'. proc_create (Some 7) True True ''init'' psys_boot = Some (Inr (Some 7, s')) \<and> proc_inv s'"
proof -
  have "ptab psys_boot ! nat 1 = None" "ptab_last psys_boot = 0" by (simp_all add: psys_boot_def nth_replicate del: replicate.simps)
  then have "\<not> (\<forall>j \<in> {1..100} - {ptab_last psys_boot}. ptab psys_boot ! nat j \<noteq> None)" by force
  then show ?thesis using proc_create_fresh_pid [OF psys_boot_inv, of 7 True "''init''"] by (auto simp: psys_boot_def)
qed

section \<open>Exit and wait\<close>

lemma exit_signal_ok:
  assumes p: "t_proc s (curthread s) = Some p" "procs s p = Some pr" "pr_numthreads pr > 0" "pr_sem pr = Some c" "c + 1 \<noteq> 0"
  shows "exit_signal status s = Inr (s\<lparr>procs := (procs s)(p \<mapsto> pr\<lparr>pr_status := status AND 0xff,
      pr_numthreads := pr_numthreads pr - 1, pr_sem := Some (c + 1)\<rparr>), t_proc := (t_proc s)(curthread s := None)\<rparr>)"
  using p by (simp add: exit_signal_def curproc_ptr_def the_proc_def upd_proc_def proc_remthread_def proc_signal_end_def
      Let_def word_gt_0)

text \<open>Destroying a process without threads frees its slot.\<close>

lemma proc_destroy_ok:
  assumes inv: "proc_inv s" and p: "procs s p = Some pr" "kproc s \<noteq> Some p" "pr_numthreads pr = 0" "pr_sem pr \<noteq> None"
    and vm: "(case pr_addrspace pr of None \<Rightarrow> Inr (psys_vm s) | Some a \<Rightarrow> as_destroy a (psys_vm s)) = Inr vm'"
  shows "\<exists>s'. proc_destroy as_destroy p s = Inr s' \<and> procs s' p = None \<and>
    ptab s' = (ptab s)[nat (pr_pid pr) := None] \<and> psys_vm s' = vm'"
proof -
  have "1 \<le> pr_pid pr" "pr_pid pr \<le> 100" using proc_invD(1) [OF inv p(1)] by auto
  then show ?thesis using p vm
    by (cases "pr_cwd pr"; cases "pr_addrspace pr")
      (simp_all add: proc_destroy_def the_proc_def upd_proc_def VOP_DECREF_def proc_end_waitpid_def sem_destroy_null_def Let_def)
qed

text \<open>A panic in \<^verbatim>\<open>as_destroy\<close> ends it.\<close>

lemma proc_destroy_fails:
  assumes "procs s p = Some pr" "kproc s \<noteq> Some p"
    and "(case pr_addrspace pr of None \<Rightarrow> Inr (psys_vm s) | Some a \<Rightarrow> as_destroy a (psys_vm s)) = Inl e"
  shows "proc_destroy as_destroy p s = Inl e"
  using assms
  by (cases "pr_cwd pr"; cases "pr_addrspace pr")
    (simp_all add: proc_destroy_def the_proc_def upd_proc_def VOP_DECREF_def Let_def)

lemma proc_inv_same_pids:
  assumes "proc_inv s" and "procs s p = Some pr" and "pr_pid pr' = pr_pid pr"
  shows "proc_inv (s\<lparr>t_proc := f, curthread := c, procs := (procs s)(p \<mapsto> pr')\<rparr>)"
  using assms unfolding proc_inv_def by (auto split: if_splits)

definition exit_sample :: "unit psys" where
  "exit_sample = psys_boot\<lparr>procs := [7 \<mapsto> \<lparr>pr_name = ''init'', pr_numthreads = 1, pr_addrspace = None, pr_cwd = None,
     pr_status = 0, pr_pid = 2, pr_sem = Some 0, pr_files = replicate 128 None\<rparr>],
     ptab := (replicate 101 None)[2 := Some 7], ptab_last := 2, t_proc := [0 \<mapsto> 7]\<rparr>"

lemma exit_sample_inv: "proc_inv exit_sample"
  by (auto simp: proc_inv_def exit_sample_def psys_boot_def nth_list_update nth_replicate split: if_splits simp del: replicate.simps)

text \<open>The wait of another thread for a process that has signalled its end is the destruction of the process.\<close>

lemma waitpid_destroys:
  assumes "proc_inv s" and "t_proc s (curthread s) = Some p" and "procs s p = Some pr" and "pr_numthreads pr = 1"
    and "pr_sem pr = Some 0" and "kproc s \<noteq> Some p" and "pr_pid pr < 100"
  shows "\<exists>s1 v. exit_signal status s = Inr s1 \<and>
    sys_waitpid as_destroy (pr_pid pr) (s1\<lparr>curthread := waiter\<rparr>) =
      sbind (proc_destroy as_destroy p v) (\<lambda>s2. Inr (pr_pid pr, status AND 0xff, s2)) \<and>
    proc_inv v \<and> procs v p = Some (pr\<lparr>pr_status := status AND 0xff, pr_numthreads := 0, pr_sem := Some 0\<rparr>) \<and>
    kproc v = kproc s \<and> ptab v = ptab s \<and> psys_vm v = psys_vm s"
proof -
  let ?pr = "pr\<lparr>pr_status := status AND 0xff, pr_numthreads := 0, pr_sem := Some 1\<rparr>"
  let ?s1 = "s\<lparr>procs := (procs s)(p \<mapsto> ?pr), t_proc := (t_proc s)(curthread s := None)\<rparr>"
  let ?w = "s\<lparr>procs := (procs s)(p \<mapsto> ?pr), t_proc := (t_proc s)(curthread s := None), curthread := waiter\<rparr>"
  let ?v = "s\<lparr>t_proc := (t_proc s)(curthread s := None), curthread := waiter, procs := (procs s)(p \<mapsto> ?pr\<lparr>pr_sem := Some 0\<rparr>)\<rparr>"
  have e: "exit_signal status s = Inr ?s1" using exit_signal_ok [OF assms(2,3), of 0 status] assms(4,5) by simp
  have pid: "1 \<le> pr_pid pr" "pr_pid pr \<le> 100" "ptab s ! nat (pr_pid pr) = Some p"
    using proc_invD(1) [OF assms(1,3)] by auto
  have inv: "proc_inv ?v" using proc_inv_same_pids [OF assms(1,3)] by simp
  have "proc_wait as_destroy p ?w = sbind (proc_destroy as_destroy p ?v) (\<lambda>s2. Inr (status AND 0xff, s2))"
    using assms(6) by (simp add: proc_wait_def the_proc_def upd_proc_def)
  moreover have "proc_search_pid (pr_pid pr) ?w = Inr p" using pid assms(7) by (simp add: proc_search_pid_def the_proc_def)
  ultimately have "sys_waitpid as_destroy (pr_pid pr) (?s1\<lparr>curthread := waiter\<rparr>) =
      sbind (proc_destroy as_destroy p ?v) (\<lambda>s2. Inr (pr_pid pr, status AND 0xff, s2))"
    by (cases "proc_destroy as_destroy p ?v") (simp_all add: sys_waitpid_def)
  with e inv show ?thesis by (intro exI [of _ ?s1] exI [of _ ?v]) simp
qed

text \<open>C37: sys__exit never succeeds: after it has detached the thread from its process and signalled the end of the
  process, thread_exit detaches the thread a second time, which fails its assertion that the thread has a process.\<close>
theorem sys__exit_fails:
  assumes "t_proc s (curthread s) = Some p" and "procs s p = Some pr" and "pr_numthreads pr > 0" and "pr_sem pr = Some c"
    and "c + 1 \<noteq> 0"
  shows "sys__exit status s = Inl (AssertFail ''proc != NULL'')"
  using exit_signal_ok [OF assms, of status] by (simp add: sys__exit_def thread_exit_def proc_remthread_def)

theorem sys__exit_fails_witness: "sys__exit 0 exit_sample = Inl (AssertFail ''proc != NULL'')"
  using sys__exit_fails [of exit_sample 7 "the (procs exit_sample 7)" 0 0]
  by (simp add: exit_sample_def psys_boot_def word_gt_0)

section \<open>Copying the table of open files\<close>

lemma openfileIncrRefCount_procs: "\<exists>ft. openfileIncrRefCount fl s = s\<lparr>systemFileTable := ft\<rparr>"
  by (cases fl) (auto simp: openfileIncrRefCount_def intro: exI [of _ "systemFileTable s"])

lemma file_table_copy_loop:
  assumes src: "procs s src = Some a" and dest: "procs s dest = Some b" "src \<noteq> dest"
    and len: "length (pr_files a) = 128" "length (pr_files b) = 128" and n: "n \<le> 128"
  shows "\<exists>ft. ((\<forall>fd < n. pr_files a ! fd = None) \<longrightarrow> ft = systemFileTable s) \<and> kfor [0..<n] (\<lambda>fd s.
       sbind (the_proc src s) (\<lambda>src.
       sbind (the_proc dest s) (\<lambda>_.
       let fl = pr_files src ! fd
       in Inr (openfileIncrRefCount fl (upd_proc dest (\<lambda>pr. pr\<lparr>pr_files := (pr_files pr)[fd := fl]\<rparr>) s))))) s =
    Inr (s\<lparr>procs := (procs s)(dest \<mapsto> b\<lparr>pr_files := take n (pr_files a) @ drop n (pr_files b)\<rparr>), systemFileTable := ft\<rparr>)"
    (is "\<exists>ft. (_ \<longrightarrow> _) \<and> kfor _ ?body s = _")
  using n
proof (induction n)
  case 0
  then show ?case using dest by (intro exI [of _ "systemFileTable s"]) (simp add: fun_upd_idem)
next
  case (Suc n)
  from Suc.IH [OF Suc_leD [OF Suc.prems]] obtain ft where same: "(\<forall>fd < n. pr_files a ! fd = None) \<longrightarrow> ft = systemFileTable s"
    and ih: "kfor [0..<n] ?body s =
    Inr (s\<lparr>procs := (procs s)(dest \<mapsto> b\<lparr>pr_files := take n (pr_files a) @ drop n (pr_files b)\<rparr>), systemFileTable := ft\<rparr>)"
    (is "_ = Inr ?s") by blast
  have upd: "(take n (pr_files a) @ drop n (pr_files b))[n := pr_files a ! n] = take (Suc n) (pr_files a) @ drop (Suc n) (pr_files b)"
    using Suc.prems len by (simp add: list_update_append take_Suc_conv_app_nth Cons_nth_drop_Suc [of n "pr_files b", symmetric])
  obtain ft' where inc: "openfileIncrRefCount (pr_files a ! n) (upd_proc dest (\<lambda>pr. pr\<lparr>pr_files := (pr_files pr)[n := pr_files a ! n]\<rparr>) ?s) =
      (upd_proc dest (\<lambda>pr. pr\<lparr>pr_files := (pr_files pr)[n := pr_files a ! n]\<rparr>) ?s)\<lparr>systemFileTable := ft'\<rparr>"
    using openfileIncrRefCount_procs by blast
  have same': "(\<forall>fd < Suc n. pr_files a ! fd = None) \<longrightarrow> ft' = systemFileTable s"
    using same arg_cong [OF inc, of systemFileTable] by (auto simp: openfileIncrRefCount_def upd_proc_def)
  show ?case using inc ih src dest(2) upd
    by (intro exI [of _ ft'] conjI same') (simp add: kfor_append the_proc_def upd_proc_def Let_def, simp add: fun_upd_def)
qed

lemma proc_file_table_copy_ok:
  assumes "procs s src = Some a" and "procs s dest = Some b" "src \<noteq> dest"
    and "length (pr_files a) = 128" "length (pr_files b) = 128"
  shows "\<exists>ft. ((\<forall>fd < 128. pr_files a ! fd = None) \<longrightarrow> ft = systemFileTable s) \<and> proc_file_table_copy src dest s =
    Inr (s\<lparr>procs := (procs s)(dest \<mapsto> b\<lparr>pr_files := pr_files a\<rparr>), systemFileTable := ft\<rparr>)"
  using file_table_copy_loop [OF assms, of 128] assms(4,5) unfolding proc_file_table_copy_def
  by (simp del: upt_rec_numeral)

lemma proc_create_shape:
  assumes "proc_create (Some p) name_ok sem_ok name s = Some (Inr (Some q, s1))"
  shows "q = p \<and> (\<exists>pr. procs s1 = (procs s)(p \<mapsto> pr) \<and> pr_files pr = replicate 128 None) \<and>
    t_proc s1 = t_proc s \<and> curthread s1 = curthread s \<and> systemFileTable s1 = systemFileTable s"
proof -
  have name_ok using assms by (simp add: proc_create_def split: if_splits)
  obtain i where "pid_search (ptab s) (ptab_last s) (next_pid (ptab_last s)) = Some (Some i)"
    using assms \<open>name_ok\<close> by (auto simp: proc_create_def proc_init_waitpid_def split: option.splits)
  then show ?thesis using assms \<open>name_ok\<close>
    by (auto simp: proc_create_def proc_init_waitpid_def upd_proc_def simp del: replicate.simps)
qed

lemma runprogram_shape:
  assumes "proc_create_runprogram (Some p) name_ok sem_ok name s = Some (Inr (Some q, s1))"
  shows "q = p \<and> (\<exists>pr. procs s1 = (procs s)(p \<mapsto> pr) \<and> pr_files pr = replicate 128 None) \<and>
    t_proc s1 = t_proc s \<and> curthread s1 = curthread s \<and> systemFileTable s1 = systemFileTable s"
proof -
  obtain r where r: "proc_create (Some p) name_ok sem_ok name s = Some r"
    using assms by (auto simp: proc_create_runprogram_def split: option.splits)
  then obtain q' s0 where s0: "r = Inr (Some q', s0)"
    using assms by (auto simp: proc_create_runprogram_def sbind_eq_Inr_iff split: option.splits)
  from proc_create_shape [of p name_ok sem_ok name s q' s0] r s0 obtain pr where
    pr: "q' = p" "procs s0 = (procs s)(p \<mapsto> pr)" "pr_files pr = replicate 128 None" "t_proc s0 = t_proc s" "curthread s0 = curthread s"
    "systemFileTable s0 = systemFileTable s" by blast
  from assms r s0 pr(1) obtain c cpr where c: "curproc_ptr (upd_proc p (\<lambda>pr. pr\<lparr>pr_addrspace := None\<rparr>) s0) = Some c"
    "the_proc c (upd_proc p (\<lambda>pr. pr\<lparr>pr_addrspace := None\<rparr>) s0) = Inr cpr"
    by (auto simp: proc_create_runprogram_def Let_def sbind_eq_Inr_iff split: option.splits)
  show ?thesis using assms r s0 pr c
    by (cases "pr_cwd cpr") (auto simp: proc_create_runprogram_def upd_proc_def VOP_INCREF_def Let_def simp del: replicate.simps)
qed

definition fork_sample :: "unit psys" where
  "fork_sample = exit_sample\<lparr>procs := [7 \<mapsto> \<lparr>pr_name = ''sh'', pr_numthreads = 1, pr_addrspace = Some 5, pr_cwd = None,
     pr_status = 0, pr_pid = 2, pr_sem = Some 0, pr_files = (replicate 128 None)[3 := Some 0]\<rparr>],
     systemFileTable := (replicate 1280 \<lparr>of_vn = None, of_offset = 0, of_countRef = 0\<rparr>)
       [0 := \<lparr>of_vn = Some 9, of_offset = 0, of_countRef = 1\<rparr>]\<rparr>"

text \<open>C38: A successful fork closes the files of the parent instead of handing them to the child: sys_fork passes the new
  process as the source and the current one as the destination of proc_file_table_copy, so afterwards both tables of
  open files are empty, while the table of the system, with the references that it counts, is as it was.\<close>
theorem sys_fork_drops_files:
  assumes "t_proc s (curthread s) = Some c" and "procs s c = Some cpr" and "length (pr_files cpr) = 128"
    and "procs s p = None"
    and "sys_fork as_destroy as_copy (Some p) name_ok sem_ok tf_ok tfork child s = Some (Inr (0, Some pid, s'))"
  shows "(\<exists>cpr'. procs s' c = Some cpr' \<and> pr_files cpr' = replicate 128 None) \<and>
    (\<exists>pr. procs s' p = Some pr \<and> pr_files pr = replicate 128 None) \<and> systemFileTable s' = systemFileTable s"
proof -
  have cp: "c \<noteq> p" using assms(2,4) by auto
  obtain q s1 where run: "proc_create_runprogram (Some p) name_ok sem_ok (pr_name cpr) s = Some (Inr (q, s1))"
    using assms(1,2,5) by (auto simp: sys_fork_def curproc_ptr_def sbind_eq_Inr_iff split: option.splits)
  have "q \<noteq> None" using assms(1,2,5) run by (cases q) (auto simp: sys_fork_def curproc_ptr_def)
  then have run: "proc_create_runprogram (Some p) name_ok sem_ok (pr_name cpr) s = Some (Inr (Some p, s1))"
    using run runprogram_shape [of p name_ok sem_ok "pr_name cpr" s] by auto
  from runprogram_shape [OF this] obtain pr where
    s1: "procs s1 = (procs s)(p \<mapsto> pr)" "pr_files pr = replicate 128 None" "systemFileTable s1 = systemFileTable s" by blast
  obtain new vm where cpy: "as_copy (pr_addrspace cpr) (psys_vm s1) = Inr (Some new, vm)"
    using assms(1,2,5) run
    by (auto simp: sys_fork_def curproc_ptr_def sbind_eq_Inr_iff Let_def split: if_splits prod.splits)
  let ?s2 = "upd_proc p (\<lambda>pr. pr\<lparr>pr_addrspace := Some new\<rparr>) (s1\<lparr>psys_vm := vm\<rparr>)"
  have "procs ?s2 p = Some (pr\<lparr>pr_addrspace := Some new\<rparr>)" "procs ?s2 c = Some cpr" using s1 assms(2) cp by (simp_all add: upd_proc_def)
  from proc_file_table_copy_ok [OF this] cp s1(2) assms(3) obtain ft where
    "proc_file_table_copy p c ?s2 = Inr (?s2\<lparr>procs := (procs ?s2)(c \<mapsto> cpr\<lparr>pr_files := replicate 128 None\<rparr>), systemFileTable := ft\<rparr>)"
    and "ft = systemFileTable ?s2"
    by (auto simp del: replicate.simps)
  moreover have "systemFileTable ?s2 = systemFileTable s" using s1(3) by (simp add: upd_proc_def)
  ultimately show ?thesis using assms(1,2,5) run cpy cp s1
    by (auto simp: sys_fork_def curproc_ptr_def sbind_eq_Inr_iff Let_def proc_addthread_def the_proc_def upd_proc_def
        simp del: replicate.simps split: if_splits)
qed

theorem sys_fork_drops_files_witness:
  "\<exists>pid s' cpr'. sys_fork (\<lambda>_ _. Inr ()) (\<lambda>_ _. Inr (Some 6, ())) (Some 8) True True True 0 1 fork_sample = Some (Inr (0, Some pid, s')) \<and>
    procs s' 7 = Some cpr' \<and> pr_files cpr' = replicate 128 None \<and> of_countRef (systemFileTable s' ! 0) = 1"
proof -
  let ?pr = "\<lparr>pr_name = ''sh'', pr_numthreads = 0, pr_addrspace = Some 6, pr_cwd = None,
     pr_status = 0, pr_pid = 3, pr_sem = Some 0, pr_files = replicate 128 None\<rparr>"
  have pid: "pid_search (ptab fork_sample) 2 3 = Some (Some 3)"
    by (subst pid_search.simps) (simp add: fork_sample_def exit_sample_def nth_list_update nth_replicate del: replicate.simps)
  let ?s1 = "fork_sample\<lparr>procs := (procs fork_sample)(8 \<mapsto> ?pr), ptab := (ptab fork_sample)[3 := Some 8], ptab_last := 3\<rparr>"
  have "\<exists>cpr. procs ?s1 7 = Some cpr \<and> length (pr_files cpr) = 128" by (simp add: fork_sample_def)
  then obtain cpr where cpr: "procs ?s1 7 = Some cpr" "length (pr_files cpr) = 128" by blast
  have src: "procs ?s1 8 = Some ?pr" "(8 :: nat) \<noteq> 7" "length (pr_files ?pr) = 128" "pr_files ?pr = replicate 128 None"
    by simp_all
  obtain ft where
    ft: "proc_file_table_copy 8 7 ?s1 = Inr (?s1\<lparr>procs := (procs ?s1)(7 \<mapsto> cpr\<lparr>pr_files := replicate 128 None\<rparr>), systemFileTable := ft\<rparr>)"
    using proc_file_table_copy_ok [OF src(1) cpr(1) src(2,3) cpr(2)] unfolding src(4) by (elim exE conjE)
  have "\<exists>pid s'. sys_fork (\<lambda>_ _. Inr ()) (\<lambda>_ _. Inr (Some 6, ())) (Some 8) True True True 0 1 fork_sample = Some (Inr (0, Some pid, s'))"
    using pid ft
    by (simp add: sys_fork_def curproc_ptr_def proc_create_runprogram_def proc_create_def proc_init_waitpid_def upd_proc_def
        the_proc_def Let_def next_pid_def fork_sample_def exit_sample_def psys_boot_def proc_addthread_def del: replicate.simps)
  then obtain pid s' where f: "sys_fork (\<lambda>_ _. Inr ()) (\<lambda>_ _. Inr (Some 6, ())) (Some 8) True True True 0 1 fork_sample =
    Some (Inr (0, Some pid, s'))" by blast
  have c: "t_proc fork_sample (curthread fork_sample) = Some 7" "procs fork_sample 7 = Some (the (procs fork_sample 7))"
    "length (pr_files (the (procs fork_sample 7))) = 128" "procs fork_sample 8 = None"
    by (simp_all add: fork_sample_def exit_sample_def psys_boot_def)
  have "of_countRef (systemFileTable fork_sample ! 0) = 1" by (simp add: fork_sample_def)
  then show ?thesis using sys_fork_drops_files [OF c f] f by auto
qed

section \<open>Opening and closing\<close>

lemma sys_open_slots:
  assumes p: "t_proc s (curthread s) = Some p" "procs s p = Some pr"
    and i: "i < length (systemFileTable s)" "of_vn (systemFileTable s ! i) = None" "\<forall>j < i. of_vn (systemFileTable s ! j) \<noteq> None"
  shows "sys_open (0, v) s =
    (let s1 = (VOP_INCREF v s)\<lparr>systemFileTable := (systemFileTable s)[i := \<lparr>of_vn = Some v, of_offset = 0, of_countRef = 1\<rparr>]\<rparr>;
         fd = find_first (\<lambda>f. f = None) 3 (drop 3 (pr_files pr))
     in if fd = -1 then Inr (-1, Some EMFILE, VOP_DECREF v s1)
        else Inr (fd, None, upd_proc p (\<lambda>pr. pr\<lparr>pr_files := (pr_files pr)[nat fd := Some i]\<rparr>) s1))"
proof -
  have "find_first (\<lambda>f. of_vn f = None) 0 (systemFileTable s) = int i"
    using find_first_unique [of i "systemFileTable s" "\<lambda>f. of_vn f = None" 0] i by simp
  then show ?thesis using p by (simp add: sys_open_def VOP_INCREF_def curproc_ptr_def the_proc_def Let_def)
qed

text \<open>A full table of the process leaves the slot of the system's table in use, with a vnode that was given back.\<close>

lemma sys_open_emfile_leak:
  assumes p: "t_proc s (curthread s) = Some p" "procs s p = Some pr" "\<forall>f \<in> set (drop 3 (pr_files pr)). f \<noteq> None"
    and i: "i < length (systemFileTable s)" "of_vn (systemFileTable s ! i) = None" "\<forall>j < i. of_vn (systemFileTable s ! j) \<noteq> None"
  shows "\<exists>s'. sys_open (0, v) s = Inr (-1, Some EMFILE, s') \<and> vn_refs s' v = vn_refs s v \<and>
    of_vn (systemFileTable s' ! i) = Some v"
proof -
  have "find_first (\<lambda>f. f = None) 3 (drop 3 (pr_files pr)) = -1" using p(3) by (simp add: find_first_none)
  then show ?thesis using sys_open_slots [OF p(1,2) i, of v] i(1) by (simp add: VOP_INCREF_def VOP_DECREF_def)
qed

text \<open>Closing what was just opened gives back the reference and frees both slots.\<close>

lemma sys_open_close:
  assumes p: "t_proc s (curthread s) = Some p" "procs s p = Some pr" "length (pr_files pr) = 128"
    and fd: "3 \<le> fd" "fd < 128" "pr_files pr ! fd = None" "\<forall>j \<in> {3..<fd}. pr_files pr ! j \<noteq> None"
    and i: "i < length (systemFileTable s)" "of_vn (systemFileTable s ! i) = None" "\<forall>j < i. of_vn (systemFileTable s ! j) \<noteq> None"
  shows "\<exists>s1 s2. sys_open (0, v) s = Inr (int fd, None, s1) \<and> sys_close (int fd) s1 = Inr (0, s2) \<and>
    vn_refs s2 = vn_refs s \<and> procs s2 = procs s \<and> map of_vn (systemFileTable s2) = map of_vn (systemFileTable s)"
proof -
  have "find_first (\<lambda>f. f = None) 3 (drop 3 (pr_files pr)) = int (3 + (fd - 3))"
    using p(3) fd by (intro find_first_unique) auto
  then have ff: "find_first (\<lambda>f. f = None) 3 (drop 3 (pr_files pr)) = int fd" using fd(1) by simp
  let ?f = "\<lparr>of_vn = Some v, of_offset = 0, of_countRef = 1\<rparr>"
  let ?s1 = "upd_proc p (\<lambda>pr. pr\<lparr>pr_files := (pr_files pr)[fd := Some i]\<rparr>) ((VOP_INCREF v s)\<lparr>systemFileTable := (systemFileTable s)[i := ?f]\<rparr>)"
  have op: "sys_open (0, v) s = Inr (int fd, None, ?s1)" using sys_open_slots [OF p(1,2) i, of v] ff by (simp add: Let_def)
  have "map of_vn ((systemFileTable s)[i := f]) = map of_vn (systemFileTable s)" if "of_vn f = None" for f :: openfile
    using i(2) that by (metis list_update_id map_update)
  moreover have "pr\<lparr>pr_files := (pr_files pr)[fd := None]\<rparr> = pr" using fd(3) by (metis list_update_id proc.surjective proc.update_convs(8))
  ultimately have "\<exists>s2. sys_close (int fd) ?s1 = Inr (0, s2) \<and> vn_refs s2 = vn_refs s \<and> procs s2 = procs s \<and>
      map of_vn (systemFileTable s2) = map of_vn (systemFileTable s)"
    using p fd i(1)
    by (simp add: sys_close_def file_entry_def curproc_ptr_def upd_proc_def the_proc_def VOP_INCREF_def VOP_DECREF_def Let_def fun_upd_idem)
  with op show ?thesis by blast
qed

end
