(* ===== verification/Proc_Vm.thy ===== *)
theory Proc_Vm
  imports Process Addrspace
begin

text \<open>
  Processes on the virtual memory system: \<^verbatim>\<open>proc_destroy\<close> (\<^verbatim>\<open>kern/proc/proc.c\<close>) with the \<^verbatim>\<open>as_destroy\<close> of
  \<^verbatim>\<open>kern/vm/addrspace.c\<close>. That function takes the address space as its argument but removes the pages of the current
  process, which in \<^verbatim>\<open>waitpid\<close> is the one that waits.
\<close>







end
