(* ===== verification/Quad.thy ===== *)
theory Quad
  imports Kernel_Prelude
begin

text \<open>
  The 64-bit arithmetic that gcc calls on the 32-bit target (\<^verbatim>\<open>common/gcc-millicode\<close>), in the kernel and in user
  programs. A \<^verbatim>\<open>long long\<close> is a 64-bit word; its two ints are \<open>ui_H\<close> and \<open>ui_L\<close>. Arithmetic is two's complement,
  as \<^verbatim>\<open>longlong.h\<close> says; a shift by the width of an int or more is undefined. Every operation but division, which is in
  \<open>Quad_Div\<close>, is shown equal to the one on 64-bit words.
\<close>

section \<open>Parts of a long long\<close>

definition ui_H :: "u64 \<Rightarrow> u32" where
  "ui_H x = ucast (drop_bit 32 x)"

definition ui_L :: "u64 \<Rightarrow> u32" where
  "ui_L x = ucast x"

definition uu :: "u32 \<Rightarrow> u32 \<Rightarrow> u64" where
  "uu h l = push_bit 32 (ucast h) OR ucast l"

definition HHALF :: "u32 \<Rightarrow> u32" where
  "HHALF x = drop_bit 16 x"

definition LHALF :: "u32 \<Rightarrow> u32" where
  "LHALF x = x AND (push_bit 16 1 - 1)"

definition LHUP :: "u32 \<Rightarrow> u32" where
  "LHUP x = push_bit 16 x"

definition of_cond :: "bool \<Rightarrow> u32" where
  "of_cond b = (if b then 1 else 0)"

section \<open>Operations without division\<close>

definition adddi3 :: "u64 \<Rightarrow> u64 \<Rightarrow> u64" where
  "adddi3 a b =
     (let l = ui_L a + ui_L b
      in uu (ui_H a + ui_H b + of_cond (l < ui_L b)) l)"

definition subdi3 :: "u64 \<Rightarrow> u64 \<Rightarrow> u64" where
  "subdi3 a b =
     (let l = ui_L a - ui_L b
      in uu (ui_H a - ui_H b - of_cond (l > ui_L a)) l)"

definition negdi2 :: "u64 \<Rightarrow> u64" where
  "negdi2 a =
     (let l = - ui_L a
      in uu (- ui_H a - of_cond (l > 0)) l)"

definition anddi3 :: "u64 \<Rightarrow> u64 \<Rightarrow> u64" where
  "anddi3 a b = uu (ui_H a AND ui_H b) (ui_L a AND ui_L b)"

definition iordi3 :: "u64 \<Rightarrow> u64 \<Rightarrow> u64" where
  "iordi3 a b = uu (ui_H a OR ui_H b) (ui_L a OR ui_L b)"

definition xordi3 :: "u64 \<Rightarrow> u64 \<Rightarrow> u64" where
  "xordi3 a b = uu (ui_H a XOR ui_H b) (ui_L a XOR ui_L b)"

definition one_cmpldi2 :: "u64 \<Rightarrow> u64" where
  "one_cmpldi2 a = uu (NOT (ui_H a)) (NOT (ui_L a))"

definition cmpdi2 :: "u64 \<Rightarrow> u64 \<Rightarrow> int" where
  "cmpdi2 a b =
     (if sint (ui_H a) < sint (ui_H b) then 0 else if sint (ui_H a) > sint (ui_H b) then 2
      else if ui_L a < ui_L b then 0 else if ui_L a > ui_L b then 2 else 1)"

definition ucmpdi2 :: "u64 \<Rightarrow> u64 \<Rightarrow> int" where
  "ucmpdi2 a b =
     (if ui_H a < ui_H b then 0 else if ui_H a > ui_H b then 2
      else if ui_L a < ui_L b then 0 else if ui_L a > ui_L b then 2 else 1)"

definition shift_ok :: "nat \<Rightarrow> 'a kres \<Rightarrow> 'a kres" where
  "shift_ok n k = (if n < 32 then k else Inl (Undefined ''shift''))"

definition ashldi3 :: "u64 \<Rightarrow> u32 \<Rightarrow> u64 kres" where
  "ashldi3 a shift =
     (let n = unat shift
      in if n = 0 then Inr a
         else if n \<ge> 32 then shift_ok (n - 32) (Inr (uu (push_bit (n - 32) (ui_L a)) 0))
         else Inr (uu (push_bit n (ui_H a) OR drop_bit (32 - n) (ui_L a)) (push_bit n (ui_L a))))"

definition lshldi3 :: "u64 \<Rightarrow> u32 \<Rightarrow> u64 kres" where
  "lshldi3 a shift =
     (let n = unat shift
      in if n = 0 then Inr a
         else if n \<ge> 32 then shift_ok (n - 32) (Inr (uu (push_bit (n - 32) (ui_L a)) 0))
         else Inr (uu (push_bit n (ui_H a) OR drop_bit (32 - n) (ui_L a)) (push_bit n (ui_L a))))"

definition lshrdi3 :: "u64 \<Rightarrow> u32 \<Rightarrow> u64 kres" where
  "lshrdi3 a shift =
     (let n = unat shift
      in if n = 0 then Inr a
         else if n \<ge> 32 then shift_ok (n - 32) (Inr (uu 0 (drop_bit (n - 32) (ui_H a))))
         else Inr (uu (drop_bit n (ui_H a)) (drop_bit n (ui_L a) OR push_bit (32 - n) (ui_H a))))"

definition ashrdi3 :: "u64 \<Rightarrow> u32 \<Rightarrow> u64 kres" where
  "ashrdi3 a shift =
     (let n = unat shift
      in if n = 0 then Inr a
         else if n \<ge> 32 then
           let s = signed_drop_bit 1 (signed_drop_bit 31 (ui_H a))
           in shift_ok (n - 32) (Inr (uu s (signed_drop_bit (n - 32) (ui_H a))))
         else Inr (uu (signed_drop_bit n (ui_H a)) (drop_bit n (ui_L a) OR push_bit (32 - n) (ui_H a))))"

definition lmulq :: "u32 \<Rightarrow> u32 \<Rightarrow> u64" where
  "lmulq u v =
     (let u1 = HHALF u; u0 = LHALF u; v1 = HHALF v; v0 = LHALF v;
          low = u0 * v0
      in if u1 = 0 \<and> v1 = 0 then ucast low
         else
           let (udiff, neg) = (if u1 \<ge> u0 then (u1 - u0, False) else (u0 - u1, True));
               (vdiff, neg) = (if v0 \<ge> v1 then (v0 - v1, neg) else (v1 - v0, \<not> neg));
               mid = udiff * vdiff;
               high = u1 * v1;
               prodh = high + HHALF high;
               prodl = LHUP high;
               was = prodl;
               prodl = (if neg then prodl - LHUP mid else prodl + LHUP mid);
               prodh = (if neg then prodh - (HHALF mid + of_cond (prodl > was)) else prodh + (HHALF mid + of_cond (prodl < was)));
               was = prodl;
               prodl = prodl + LHUP low;
               prodh = prodh + (HHALF low + of_cond (prodl < was));
               prodl = prodl + low;
               prodh = (if prodl < low then prodh + 1 else prodh)
           in uu prodh prodl)"

text \<open>The product of the absolute values.\<close>

definition mul_abs :: "u64 \<Rightarrow> u64 \<Rightarrow> u64" where
  "mul_abs u v =
     (let u1 = ui_H u; u0 = ui_L u; v1 = ui_H v; v0 = ui_L v
      in if u1 = 0 \<and> v1 = 0 then lmulq u0 v0
         else
           let low = lmulq u0 v0;
               (udiff, negmid) = (if u1 \<ge> u0 then (u1 - u0, False) else (u0 - u1, True));
               (vdiff, negmid) = (if v0 \<ge> v1 then (v0 - v1, negmid) else (v1 - v0, \<not> negmid));
               mid = udiff * vdiff;
               high = u1 * v1
           in uu (high + (if negmid then - mid else mid) + ui_L low + ui_H low) (ui_L low))"

definition muldi3 :: "u64 \<Rightarrow> u64 \<Rightarrow> u64" where
  "muldi3 a b =
     (let (u, negall) = (if sint a \<ge> 0 then (a, False) else (- a, True));
          (v, negall) = (if sint b \<ge> 0 then (b, negall) else (- b, \<not> negall));
          prod = mul_abs u v
      in if negall then - prod else prod)"

section \<open>Halves\<close>

definition hi :: "u32 \<Rightarrow> u64" where
  "hi x = push_bit 32 (ucast x)"

definition lo :: "u32 \<Rightarrow> u64" where
  "lo x = ucast x"

lemma uu_add: "uu h l = hi h + lo l"
proof -
  have "push_bit 32 (ucast h :: u64) + ucast l = push_bit 32 (ucast h) OR ucast l"
    by (rule disjunctive_add) (auto simp: bit_simps dest: bit_imp_le_length)
  then show ?thesis by (simp add: uu_def hi_def lo_def)
qed

lemma split_quad: "x = hi (ui_H x) + lo (ui_L x)"
proof -
  have "uu (ui_H x) (ui_L x) = x"
    by (rule bit_word_eqI) (auto simp: uu_def ui_H_def ui_L_def bit_simps)
  then show ?thesis by (simp add: uu_add)
qed

lemma uu_parts [simp]: "ui_H (uu h l) = h" "ui_L (uu h l) = l"
  by (rule bit_word_eqI; auto simp: uu_def ui_H_def ui_L_def bit_simps dest: bit_imp_le_length)+

lemma hi_uint: "hi a = word_of_int (2 ^ 32 * uint a)"
proof -
  have "hi a = word_of_int (uint a) * 2 ^ 32" unfolding hi_def push_bit_eq_mult ucast_eq ..
  also have "(2 :: u64) ^ 32 = word_of_int (2 ^ 32)" by simp
  finally show ?thesis by (simp only: wi_hom_mult mult.commute)
qed

lemma hi_of_int: "hi (word_of_int k) = word_of_int (2 ^ 32 * k)"
proof -
  have "uint (word_of_int k :: u32) = k mod 2 ^ 32" by (simp add: unsigned_of_int take_bit_eq_mod)
  then have "hi (word_of_int k) = word_of_int (2 ^ 32 * (k mod 2 ^ 32))" by (simp only: hi_uint)
  also have "\<dots> = word_of_int (2 ^ 32 * k)" by (simp only: word_of_int_eq_iff take_bit_eq_mod) (simp add: mult_mod_right)
  finally show ?thesis .
qed

lemma lo_uint: "lo a = word_of_int (uint a)"
  unfolding lo_def ucast_eq ..

lemma hi_ring: "hi (a + b) = hi a + hi b" "hi (a - b) = hi a - hi b" "hi (- a) = - hi a" "hi (a * b) = lo a * hi b" "hi 0 = 0" "hi 1 = 0x100000000"
proof -
  have "a + b = word_of_int (uint a + uint b)" "a - b = word_of_int (uint a - uint b)" "- a = word_of_int (- uint a)" "a * b = word_of_int (uint a * uint b)"
    by simp_all
  then have h: "hi (a + b) = word_of_int (2 ^ 32 * (uint a + uint b))" "hi (a - b) = word_of_int (2 ^ 32 * (uint a - uint b))"
    "hi (- a) = word_of_int (2 ^ 32 * (- uint a))" "hi (a * b) = word_of_int (2 ^ 32 * (uint a * uint b))"
    by (simp_all only: hi_of_int)
  show "hi (a + b) = hi a + hi b" unfolding h(1) hi_uint [of a] hi_uint [of b] by (simp only: distrib_left wi_hom_add)
  show "hi (a - b) = hi a - hi b" unfolding h(2) hi_uint [of a] hi_uint [of b] by (simp only: right_diff_distrib wi_hom_sub)
  show "hi (- a) = - hi a" unfolding h(3) hi_uint [of a] by (simp only: mult_minus_right wi_hom_neg)
  show "hi (a * b) = lo a * hi b" unfolding h(4) lo_uint hi_uint [of b] by (simp only: wi_hom_mult mult.left_commute)
  show "hi 0 = 0" "hi 1 = 0x100000000" by (simp_all add: hi_def)
qed

text \<open>Sums and differences of the low halves, with the carry that the code computes.\<close>

lemma lo_carry:
  "lo (a + b) = lo a + lo b - hi (of_cond (a + b < a))" "lo (a + b) = lo a + lo b - hi (of_cond (a + b < b))"
  "lo (a - b) = lo a - lo b + hi (of_cond (a - b > a))"
proof -
  have c: "hi (of_cond p) = word_of_int (if p then 2 ^ 32 else 0)" for p by (simp add: of_cond_def hi_def)
  have lt: "uint a < 2 ^ 32" "uint b < 2 ^ 32" "0 \<le> uint a" "0 \<le> uint b" using uint_lt2p [of a] uint_lt2p [of b] by simp_all
  have "uint (a + b) = (if uint a + uint b < 2 ^ 32 then uint a + uint b else uint a + uint b - 2 ^ 32)" by (simp add: uint_plus_if')
  moreover have "uint (a - b) = (if uint b \<le> uint a then uint a - uint b else uint a - uint b + 2 ^ 32)" by (simp add: uint_sub_if')
  ultimately have u: "uint (a + b) = uint a + uint b - (if a + b < a then 2 ^ 32 else 0)" "uint (a + b) = uint a + uint b - (if a + b < b then 2 ^ 32 else 0)"
    "uint (a - b) = uint a - uint b + (if a - b > a then 2 ^ 32 else 0)"
    using lt unfolding word_less_def by (auto split: if_splits)
  show "lo (a + b) = lo a + lo b - hi (of_cond (a + b < a))" unfolding lo_uint c u(1) by (simp only: wi_hom_add wi_hom_sub)
  show "lo (a + b) = lo a + lo b - hi (of_cond (a + b < b))" unfolding lo_uint c u(2) by (simp only: wi_hom_add wi_hom_sub)
  show "lo (a - b) = lo a - lo b + hi (of_cond (a - b > a))" unfolding lo_uint c u(3) by (simp only: wi_hom_add wi_hom_sub)
qed

lemma adddi3_eq: "adddi3 a b = a + b"
proof -
  have "adddi3 a b = (hi (ui_H a) + lo (ui_L a)) + (hi (ui_H b) + lo (ui_L b))"
    unfolding adddi3_def Let_def uu_add hi_ring lo_carry(2) [of "ui_L a" "ui_L b"] by (simp add: algebra_simps)
  then show ?thesis by (simp flip: split_quad)
qed

lemma subdi3_eq: "subdi3 a b = a - b"
proof -
  have "subdi3 a b = (hi (ui_H a) + lo (ui_L a)) - (hi (ui_H b) + lo (ui_L b))"
    unfolding subdi3_def Let_def uu_add hi_ring lo_carry(3) [of "ui_L a" "ui_L b"] by (simp add: algebra_simps)
  then show ?thesis by (simp flip: split_quad)
qed

lemma negdi2_eq: "negdi2 a = - a"
proof -
  have "lo (- ui_L a) = - lo (ui_L a) + hi (of_cond (- ui_L a > 0))" using lo_carry(3) [of 0 "ui_L a"] by (simp add: lo_def)
  then have "negdi2 a = - (hi (ui_H a) + lo (ui_L a))"
    unfolding negdi2_def Let_def uu_add hi_ring by (simp add: algebra_simps)
  then show ?thesis by (simp flip: split_quad)
qed

lemma bitwise_eq: "anddi3 a b = a AND b" "iordi3 a b = a OR b" "xordi3 a b = a XOR b" "one_cmpldi2 a = NOT a"
  unfolding anddi3_def iordi3_def xordi3_def one_cmpldi2_def
  by (rule bit_word_eqI; auto simp: uu_def ui_H_def ui_L_def bit_simps dest: bit_imp_le_length)+

lemma uint_parts: "uint x = uint (ui_H x) * 2 ^ 32 + uint (ui_L x)"
proof -
  have "take_bit 64 (uint x) = uint x" using uint_lt2p [of x] by (simp add: take_bit_eq_mod)
  then have "uint (ui_H x) = take_bit 32 (drop_bit 32 (uint x))" unfolding ui_H_def by (simp add: unsigned_ucast_eq unsigned_drop_bit_eq)
  also have "\<dots> = uint x div 2 ^ 32"
  proof -
    have "uint x < 2 ^ 64" using uint_lt2p [of x] by simp
    then have "uint x div 2 ^ 32 < 2 ^ 32" by simp
    moreover have "0 \<le> uint x div 2 ^ 32" by (simp add: pos_imp_zdiv_nonneg_iff)
    ultimately show ?thesis by (simp add: take_bit_eq_mod drop_bit_eq_div mod_pos_pos_trivial)
  qed
  finally have "uint (ui_H x) = uint x div 2 ^ 32" .
  moreover have "uint (ui_L x) = uint x mod 2 ^ 32" by (simp add: ui_L_def unsigned_ucast_eq take_bit_eq_mod)
  ultimately show ?thesis by simp
qed

lemma signed_value:
  fixes k :: int
  assumes "0 \<le> k" and "k < 2 ^ Suc n"
  shows "signed_take_bit n k = (if k < 2 ^ n then k else k - 2 ^ Suc n)"
proof -
  have "bit k n \<longleftrightarrow> \<not> k < 2 ^ n"
  proof (cases "k < 2 ^ n")
    case True
    then show ?thesis using assms(1) by (simp add: bit_iff_odd)
  next
    case False
    then have "k div 2 ^ n = 1" using assms(2) by (intro div_pos_geq [THEN trans]) (simp_all add: div_pos_pos_trivial)
    then show ?thesis using False by (simp add: bit_iff_odd)
  qed
  moreover have "take_bit (Suc n) k = k" using assms by (simp add: take_bit_eq_mod)
  ultimately show ?thesis by (simp add: signed_take_bit_eq_take_bit_minus)
qed

lemma sint_cases: "sint (x :: u64) = (if uint x < 2 ^ 63 then uint x else uint x - 2 ^ 64)"
    "sint (y :: u32) = (if uint y < 2 ^ 31 then uint y else uint y - 2 ^ 32)"
  using signed_value [of "uint x" 63] signed_value [of "uint y" 31] uint_lt2p [of x] uint_lt2p [of y] by (simp_all add: sint_uint)

lemma sint_parts: "sint x = sint (ui_H x) * 2 ^ 32 + uint (ui_L x)"
proof -
  have "uint (ui_H x) * 2 ^ 32 + uint (ui_L x) < 2 ^ 63 \<longleftrightarrow> uint (ui_H x) < 2 ^ 31"
    using uint_lt2p [of "ui_L x"] uint_ge_0 [of "ui_L x"] by (simp; linarith)
  then show ?thesis using uint_parts [of x] by (simp add: sint_cases)
qed

lemma lex_parts:
  fixes l l' :: u32
  shows "h * 2 ^ 32 + uint l < h' * 2 ^ 32 + uint l' \<longleftrightarrow> h < h' \<or> h = h' \<and> l < l'"
proof -
  have lt: "uint l < 2 ^ 32" "uint l' < 2 ^ 32" "0 \<le> uint l" "0 \<le> uint l'" using uint_lt2p [of l] uint_lt2p [of l'] by simp_all
  show ?thesis
  proof (cases h h' rule: linorder_cases)
    case less
    then show ?thesis using lt by (simp, linarith)
  next
    case greater
    then show ?thesis using lt by (simp, linarith)
  qed (simp add: word_less_def)
qed

lemma cmpdi2_eq: "cmpdi2 a b = (if sint a < sint b then 0 else if sint a > sint b then 2 else 1)"
  unfolding sint_parts [of a] sint_parts [of b] lex_parts cmpdi2_def by auto

lemma ucmpdi2_eq: "ucmpdi2 a b = (if a < b then 0 else if a > b then 2 else 1)"
proof -
  have "x < y \<longleftrightarrow> ui_H x < ui_H y \<or> ui_H x = ui_H y \<and> ui_L x < ui_L y" for x y :: u64
    unfolding word_less_def [of x] uint_parts [of x] uint_parts [of y] lex_parts word_less_def [of "ui_H x"] by (simp only: word_uint_eq_iff)
  then show ?thesis unfolding ucmpdi2_def by auto
qed

lemma shift_eq:
  assumes "unat n < 64"
  shows "ashldi3 a n = Inr (push_bit (unat n) a)" "lshldi3 a n = Inr (push_bit (unat n) a)" "lshrdi3 a n = Inr (drop_bit (unat n) a)"
    "ashrdi3 a n = Inr (signed_drop_bit (unat n) a)"
proof -
  have l: "unat n \<ge> 32 \<Longrightarrow> uu (push_bit (unat n - 32) (ui_L a)) 0 = push_bit (unat n) a"
    by (rule bit_word_eqI) (auto simp: uu_def ui_L_def bit_simps)
  have s: "0 < unat n \<Longrightarrow> unat n < 32 \<Longrightarrow> uu (push_bit (unat n) (ui_H a) OR drop_bit (32 - unat n) (ui_L a)) (push_bit (unat n) (ui_L a)) = push_bit (unat n) a"
    by (rule bit_word_eqI) (auto simp: uu_def ui_L_def ui_H_def bit_simps)
  show "ashldi3 a n = Inr (push_bit (unat n) a)" "lshldi3 a n = Inr (push_bit (unat n) a)"
    using l s assms by (auto simp: ashldi3_def lshldi3_def shift_ok_def Let_def)
  have r: "unat n \<ge> 32 \<Longrightarrow> uu 0 (drop_bit (unat n - 32) (ui_H a)) = drop_bit (unat n) a"
    by (rule bit_word_eqI) (auto simp: uu_def ui_H_def bit_simps dest: bit_imp_le_length)
  have t: "0 < unat n \<Longrightarrow> unat n < 32 \<Longrightarrow> uu (drop_bit (unat n) (ui_H a)) (drop_bit (unat n) (ui_L a) OR push_bit (32 - unat n) (ui_H a)) = drop_bit (unat n) a"
    by (rule bit_word_eqI) (auto simp: uu_def ui_L_def ui_H_def bit_simps add.commute dest: bit_imp_le_length)
  show "lshrdi3 a n = Inr (drop_bit (unat n) a)" using r t assms by (auto simp: lshrdi3_def shift_ok_def Let_def)
  have p: "uu (signed_drop_bit 1 (signed_drop_bit 31 (ui_H a))) (signed_drop_bit (unat n - 32) (ui_H a)) = signed_drop_bit (unat n) a" if "32 \<le> unat n"
    using that assms by (intro bit_word_eqI) (auto simp: uu_def ui_H_def bit_simps min_def)
  have o: "uu (signed_drop_bit (unat n) (ui_H a)) (drop_bit (unat n) (ui_L a) OR push_bit (32 - unat n) (ui_H a)) = signed_drop_bit (unat n) a"
    if "0 < unat n" "unat n < 32"
  proof (rule bit_word_eqI)
    fix i assume i: "i < LENGTH(64)"
    show "bit (uu (signed_drop_bit (unat n) (ui_H a)) (drop_bit (unat n) (ui_L a) OR push_bit (32 - unat n) (ui_H a))) i = bit (signed_drop_bit (unat n) a) i"
    proof (cases "i < 32")
      case True
      then show ?thesis using that i
        by (cases "i + unat n < 32") (auto simp: uu_def ui_L_def ui_H_def bit_simps add.commute [of _ "unat n"])
    next
      case False
      then obtain j where "i = 32 + j" "j < 32" using i by (intro that [of "i - 32"]) simp_all
      then show ?thesis using that
        by (cases "j + unat n < 32") (auto simp: uu_def ui_L_def ui_H_def bit_simps add.commute [of _ "unat n"] add.left_commute [of _ "unat n"] add.assoc dest: bit_imp_le_length)
    qed
  qed
  show "ashrdi3 a n = Inr (signed_drop_bit (unat n) a)" using p o assms by (auto simp: ashrdi3_def shift_ok_def Let_def)
qed

section \<open>Multiplication\<close>

lemma halves: "uint (HHALF x) = uint x div 2 ^ 16" "uint (LHALF x) = uint x mod 2 ^ 16" "uint (HHALF x) < 2 ^ 16" "uint (LHALF x) < 2 ^ 16"
proof -
  show h: "uint (HHALF x) = uint x div 2 ^ 16" unfolding HHALF_def by (simp add: drop_bit_eq_div uint_div)
  have "LHALF x = take_bit 16 x" by (simp add: LHALF_def take_bit_eq_mask mask_eq_exp_minus_1)
  then show l: "uint (LHALF x) = uint x mod 2 ^ 16" by (simp add: take_bit_eq_mod uint_mod)
  have "uint x < 2 ^ 32" using uint_lt2p [of x] by simp
  then show "uint (HHALF x) < 2 ^ 16" unfolding h by simp
  show "uint (LHALF x) < 2 ^ 16" unfolding l by simp
qed

lemma lo_halves: "lo x = 2 ^ 16 * lo (HHALF x) + lo (LHALF x)"
proof -
  have "uint x = 2 ^ 16 * uint (HHALF x) + uint (LHALF x)" by (simp add: halves)
  then have "lo x = word_of_int (2 ^ 16 * uint (HHALF x) + uint (LHALF x))" by (simp only: lo_uint)
  then show ?thesis by (simp add: lo_uint)
qed

lemma up_halves: "hi (HHALF x) + lo (LHUP x) = 2 ^ 16 * lo x"
proof -
  have "hi (HHALF x) + lo (LHUP x) = push_bit 32 (ucast (HHALF x)) OR ucast (LHUP x)" by (simp add: uu_add flip: uu_def)
  also have "\<dots> = push_bit 16 (ucast x)"
    by (rule bit_word_eqI) (auto simp: HHALF_def LHUP_def bit_simps dest: bit_imp_le_length)
  finally show ?thesis by (simp add: push_bit_eq_mult lo_def mult.commute)
qed

lemma lo_mult: "uint a < 2 ^ 16 \<Longrightarrow> uint b < 2 ^ 16 \<Longrightarrow> lo (a * b) = lo a * lo b"
proof -
  assume ab: "uint a < 2 ^ 16" "uint b < 2 ^ 16"
  then have "uint a * uint b < 2 ^ 16 * 2 ^ 16" by (intro mult_strict_mono) simp_all
  then have "uint (a * b) = uint a * uint b" by (simp add: uint_word_ariths mod_pos_pos_trivial)
  then show ?thesis by (simp add: lo_uint)
qed

lemma lo_diff: "b \<le> a \<Longrightarrow> lo (a - b) = lo a - lo b"
  by (simp add: lo_uint uint_sub_if' word_le_def)

text \<open>Adding and subtracting with carry and borrow.\<close>

lemma uu_carry:
  "uu (h + (h' + of_cond (l + l' < l))) (l + l') = uu h l + (hi h' + lo l')"
  "uu (h - (h' + of_cond (l - l' > l))) (l - l') = uu h l - (hi h' + lo l')"
  using lo_carry(1,3) [of l l'] by (simp_all add: uu_add hi_ring)

lemma lmulq_eq: "lmulq u v = lo u * lo v"
proof -
  define u1 u0 v1 v0 where d: "u1 = HHALF u" "u0 = LHALF u" "v1 = HHALF v" "v0 = LHALF v"
  have lt: "uint u1 < 2 ^ 16" "uint u0 < 2 ^ 16" "uint v1 < 2 ^ 16" "uint v0 < 2 ^ 16" unfolding d by (rule halves(3) halves(4))+
  have lu: "lo u = 2 ^ 16 * lo u1 + lo u0" "lo v = 2 ^ 16 * lo v1 + lo v0" unfolding d by (rule lo_halves)+
  define low high where "low = u0 * v0" and "high = u1 * v1"
  have low: "lo low = lo u0 * lo v0" and high: "lo high = lo u1 * lo v1" unfolding low_def high_def by (rule lo_mult; fact lt)+
  show ?thesis
  proof (cases "u1 = 0 \<and> v1 = 0")
    case True
    then show ?thesis using low lu by (simp add: lmulq_def Let_def flip: d low_def) (simp add: lo_def)
  next
    case False
    define ud un where "ud = (if u1 \<ge> u0 then u1 - u0 else u0 - u1)" and "un = (\<not> u1 \<ge> u0)"
    define vd ng where "vd = (if v0 \<ge> v1 then v0 - v1 else v1 - v0)" and "ng = (if v0 \<ge> v1 then un else \<not> un)"
    define mid where "mid = ud * vd"
    have "uint u1 - uint u0 < 2 ^ 16" "uint u0 - uint u1 < 2 ^ 16" "uint v1 - uint v0 < 2 ^ 16" "uint v0 - uint v1 < 2 ^ 16"
      using lt uint_ge_0 [of u1] uint_ge_0 [of u0] uint_ge_0 [of v1] uint_ge_0 [of v0] by linarith+
    then have "uint ud < 2 ^ 16" "uint vd < 2 ^ 16" by (simp_all add: ud_def vd_def word_le_def uint_sub_if')
    then have "lo mid = lo ud * lo vd" unfolding mid_def by (rule lo_mult)
    then have mid: "(if ng then - lo mid else lo mid) = (lo u1 - lo u0) * (lo v0 - lo v1)"
      by (auto simp: ud_def vd_def ng_def un_def lo_diff algebra_simps)
    define P where "P = uu (high + HHALF high) (LHUP high)"
    have P: "P = 2 ^ 32 * lo high + 2 ^ 16 * lo high" using up_halves [of high] hi_ring(4) [of high 1]
      by (simp add: P_def uu_add hi_ring algebra_simps)
    define lq where "lq = (if ng then LHUP high - LHUP mid else LHUP high + LHUP mid)"
    define hq where "hq = (if ng then high + HHALF high - (HHALF mid + of_cond (lq > LHUP high)) else high + HHALF high + (HHALF mid + of_cond (lq < LHUP high)))"
    have Q: "uu hq lq = P + 2 ^ 16 * ((lo u1 - lo u0) * (lo v0 - lo v1))"
      unfolding hq_def lq_def mid [symmetric] P_def by (simp add: uu_carry up_halves)
    define lr hr where "lr = lq + LHUP low" and "hr = hq + (HHALF low + of_cond (lq + LHUP low < lq))"
    have R: "uu hr lr = uu hq lq + 2 ^ 16 * lo low" unfolding hr_def lr_def by (simp add: uu_carry up_halves)
    have "uu (if lr + low < low then hr + 1 else hr) (lr + low) = uu hr lr + lo low"
      using lo_carry(2) [of lr low] by (simp add: uu_add hi_ring of_cond_def)
    also have "\<dots> = lo u * lo v" unfolding R Q P low high lu by (simp add: algebra_simps)
    finally have "uu (if lr + low < low then hr + 1 else hr) (lr + low) = lo u * lo v" .
    moreover have "lmulq u v = uu (if lr + low < low then hr + 1 else hr) (lr + low)"
      unfolding lmulq_def Let_def d [symmetric] low_def [symmetric] high_def [symmetric] if_not_P [OF False]
      by (cases "u0 \<le> u1"; cases "v1 \<le> v0") (simp_all add: hr_def lr_def hq_def lq_def mid_def ud_def vd_def ng_def un_def)
    ultimately show ?thesis by simp
  qed
qed

lemma ui_L_of_int: "ui_L (word_of_int k) = word_of_int k"
proof -
  have "uint (word_of_int k :: u64) = k mod 2 ^ 64" by (simp add: unsigned_of_int take_bit_eq_mod)
  then have "ui_L (word_of_int k) = word_of_int (k mod 2 ^ 64)" unfolding ui_L_def ucast_eq by (simp only:)
  also have "\<dots> = word_of_int k" by (simp only: word_of_int_eq_iff take_bit_eq_mod) (simp add: mod_mod_cancel)
  finally show ?thesis .
qed

lemma ui_L_mult: "ui_L (lo a * lo b) = a * b"
proof -
  have "lo a * lo b = word_of_int (uint a * uint b)" by (simp only: lo_uint wi_hom_mult)
  then have "ui_L (lo a * lo b) = word_of_int (uint a * uint b)" by (simp only: ui_L_of_int)
  then show ?thesis by simp
qed

lemma hi_mult: "hi a * hi b = 0"
proof -
  have "hi a * hi b = word_of_int (2 ^ 64 * (uint a * uint b))" by (simp only: hi_uint wi_hom_mult) simp
  also have "\<dots> = 0" by (simp only: word_of_int_0 [symmetric] word_of_int_eq_iff take_bit_eq_mod) simp
  finally show ?thesis .
qed

lemma mul_abs_eq: "mul_abs u v = u * v"
proof -
  define u1 u0 v1 v0 where d: "u1 = ui_H u" "u0 = ui_L u" "v1 = ui_H v" "v0 = ui_L v"
  have uv: "u = hi u1 + lo u0" "v = hi v1 + lo v0" unfolding d by (rule split_quad)+
  define low where "low = lo u0 * lo v0"
  have l: "ui_L low = u0 * v0" by (simp add: low_def ui_L_mult)
  have prod: "u * v = hi (u1 * v0) + hi (u0 * v1) + low"
  proof -
    have "hi (u1 * v0) = hi u1 * lo v0" using hi_ring(4) [of v0 u1] by (simp add: mult.commute)
    then show ?thesis unfolding uv low_def by (simp add: hi_ring(4) [of u0 v1] hi_mult distrib_left distrib_right)
  qed
  show ?thesis
  proof (cases "u1 = 0 \<and> v1 = 0")
    case True
    then have "mul_abs u v = low" unfolding mul_abs_def Let_def d [symmetric] by (simp add: lmulq_eq low_def)
    then show ?thesis using True prod by (simp add: hi_ring)
  next
    case False
    have "mul_abs u v = uu (u1 * v1 + (u1 - u0) * (v0 - v1) + ui_L low + ui_H low) (ui_L low)"
      using False unfolding mul_abs_def Let_def d [symmetric] lmulq_eq low_def [symmetric] by (auto simp: algebra_simps)
    also have "u1 * v1 + (u1 - u0) * (v0 - v1) + ui_L low + ui_H low = u1 * v0 + u0 * v1 + ui_H low" unfolding l by (simp add: algebra_simps)
    also have "uu (u1 * v0 + u0 * v1 + ui_H low) (ui_L low) = hi (u1 * v0) + hi (u0 * v1) + (hi (ui_H low) + lo (ui_L low))"
      by (simp add: uu_add hi_ring)
    also have "hi (ui_H low) + lo (ui_L low) = low" by (rule split_quad [symmetric])
    finally show ?thesis using prod by simp
  qed
qed

lemma muldi3_eq: "muldi3 a b = a * b"
  by (simp add: muldi3_def mul_abs_eq)

section \<open>Properties\<close>

text \<open>C30: The 64-bit operations that gcc calls for \<^verbatim>\<open>long long\<close> (\<^verbatim>\<open>common/gcc-millicode\<close>), which work on the two 32-bit
  halves with carries, are the operations on 64-bit words: sum, difference, negation and product modulo \<open>2 ^ 64\<close>,
  the bitwise operations, signed and unsigned comparison (0, 1 or 2 for less, equal or greater), and, for every
  shift count below 64, left shift and logical and arithmetic right shift.\<close>

theorem quad_arithmetic:
  assumes "unat n < 64"
  shows "adddi3 a b = a + b \<and> subdi3 a b = a - b \<and> negdi2 a = - a \<and> muldi3 a b = a * b \<and>
    anddi3 a b = a AND b \<and> iordi3 a b = a OR b \<and> xordi3 a b = a XOR b \<and> one_cmpldi2 a = NOT a \<and>
    cmpdi2 a b = (if sint a < sint b then 0 else if sint a = sint b then 1 else 2) \<and>
    ucmpdi2 a b = (if a < b then 0 else if a = b then 1 else 2) \<and>
    ashldi3 a n = Inr (push_bit (unat n) a) \<and> lshldi3 a n = Inr (push_bit (unat n) a) \<and>
    lshrdi3 a n = Inr (drop_bit (unat n) a) \<and> ashrdi3 a n = Inr (signed_drop_bit (unat n) a)"
  using shift_eq [OF assms] by (auto simp: adddi3_eq subdi3_eq negdi2_eq muldi3_eq bitwise_eq cmpdi2_eq ucmpdi2_eq)

theorem quad_arithmetic_witness:
  "unat (35 :: u32) < 64 \<and> lshrdi3 0x123456789ABCDEF0 35 = Inr 0x2468ACF \<and> adddi3 0xFFFFFFFF 1 = 0x100000000 \<and>
    muldi3 0xFFFFFFFF 0xFFFFFFFF = 0xFFFFFFFE00000001"
proof -
  have n: "unat (35 :: u32) < 64" by simp
  have d: "drop_bit 35 (0x123456789ABCDEF0 :: u64) = 0x2468ACF" by (simp add: drop_bit_eq_div)
  show ?thesis
    using quad_arithmetic [OF n, of "0x123456789ABCDEF0" 0] quad_arithmetic [OF n, of "0xFFFFFFFF" 1]
      quad_arithmetic [OF n, of "0xFFFFFFFF" "0xFFFFFFFF"] n d by simp
qed

end
