(* ===== verification/Quad_Div.thy ===== *)
theory Quad_Div
  imports Quad "HOL-Library.Signed_Division"
begin

text \<open>
  The division of 64-bit numbers (\<^verbatim>\<open>common/gcc-millicode/qdivrem.c\<close> and its four callers), Knuth's algorithm D
  in base \<open>2 ^ 16\<close>. The arrays of digits are lists, pointers into them are offsets; an access outside an array and a
  division by zero are undefined. The algorithm is shown to return the quotient and the remainder of every division by
  a number other than zero: the estimate of a digit is at most one too large, and each round keeps the equation
  of the division.
\<close>

section \<open>Division\<close>

abbreviation (input) BASE :: u32 where "BASE \<equiv> 0x10000"

definition COMBINE :: "u32 \<Rightarrow> u32 \<Rightarrow> u32" where
  "COMBINE a b = push_bit 16 a OR b"

definition digit_at :: "u16 list \<Rightarrow> nat \<Rightarrow> u32 kres" where
  "digit_at p i = (if i < length p then Inr (ucast (p ! i)) else Inl (Undefined ''digit array''))"

definition set_digit :: "u16 list \<Rightarrow> nat \<Rightarrow> u32 \<Rightarrow> u16 list kres" where
  "set_digit p i x = (if i < length p then Inr (p[i := ucast x]) else Inl (Undefined ''digit array''))"

definition udiv :: "u32 \<Rightarrow> u32 \<Rightarrow> (u32 \<times> u32) kres" where
  "udiv a b = (if b = 0 then Inl (Undefined ''division by zero'') else Inr (a div b, a mod b))"

text \<open>\<^verbatim>\<open>shl(&p[b], len, sh)\<close>.\<close>

fun shl :: "u16 list \<Rightarrow> nat \<Rightarrow> nat \<Rightarrow> nat \<Rightarrow> u16 list kres" where
  "shl p b 0 sh = sbind (digit_at p b) (\<lambda>x. set_digit p b (LHALF (push_bit sh x)))"
| "shl p b (Suc len) sh =
     sbind (digit_at p b) (\<lambda>x.
     sbind (digit_at p (Suc b)) (\<lambda>y.
     sbind (set_digit p b (LHALF (push_bit sh x) OR drop_bit (16 - sh) y)) (\<lambda>p.
     shl p (Suc b) len sh)))"

text \<open>The division by one digit: the four rounds, with the remainder \<open>r\<close> and the quotient digits so far.\<close>

definition short_div :: "u32 \<Rightarrow> u32 \<Rightarrow> u32 \<Rightarrow> u32 \<Rightarrow> u32 \<Rightarrow> (u64 \<times> u64) kres" where
  "short_div t a1 a2 a3 a4 =
     sbind (udiv a1 t) (\<lambda>(q1, r).
     sbind (udiv (COMBINE r a2) t) (\<lambda>(q2, r).
     sbind (udiv (COMBINE r a3) t) (\<lambda>(q3, r).
     sbind (udiv (COMBINE r a4) t) (\<lambda>(q4, r).
     Inr (uu (COMBINE (LHALF q1) (LHALF q2)) (COMBINE (LHALF q3) (LHALF q4)), ucast r)))))"

text \<open>The loop \<^verbatim>\<open>for (n = 4; v[1] == 0; v++)\<close>: the offset of \<^verbatim>\<open>v\<close> and \<^verbatim>\<open>n\<close>, or none when \<^verbatim>\<open>n\<close> gets to 1.\<close>

function skip_v :: "u16 list \<Rightarrow> nat \<Rightarrow> nat \<Rightarrow> (nat \<times> nat) option kres" where
  "skip_v vs vo n =
     (if vo + 1 < length vs then
        if vs ! (vo + 1) = 0 then if n - 1 = 1 then Inr None else skip_v vs (vo + 1) (n - 1)
        else Inr (Some (vo, n))
      else Inl (Undefined ''digit array''))"
  by pat_completeness auto
termination by (relation "measure (\<lambda>(vs, vo, n). length vs - vo)") auto

text \<open>The loop \<^verbatim>\<open>for (m = 4 - n; u[1] == 0; u++)\<close>: the offset of \<^verbatim>\<open>u\<close> and \<^verbatim>\<open>m\<close>.\<close>

function skip_u :: "u16 list \<Rightarrow> nat \<Rightarrow> int \<Rightarrow> (nat \<times> int) kres" where
  "skip_u us uo m =
     (if uo + 1 < length us then if us ! (uo + 1) = 0 then skip_u us (uo + 1) (m - 1) else Inr (uo, m)
      else Inl (Undefined ''digit array''))"
  by pat_completeness auto
termination by (relation "measure (\<lambda>(us, uo, m). length us - uo)") auto

declare skip_v.simps [simp del] skip_u.simps [simp del]

text \<open>The loop \<^verbatim>\<open>for (i = 4 - m; --i >= 0;)\<close>.\<close>

fun clear_q :: "u16 list \<Rightarrow> nat \<Rightarrow> u16 list kres" where
  "clear_q qs 0 = Inr qs"
| "clear_q qs (Suc i) = sbind (set_digit qs i 0) (\<lambda>qs. clear_q qs i)"

text \<open>D1, the loop that finds the multiplier.\<close>

partial_function (option) find_shift :: "u32 \<Rightarrow> nat \<Rightarrow> nat option" where
  "find_shift t d = (if t < BASE div 2 then find_shift (push_bit 1 t) (d + 1) else Some d)"

text \<open>D3, the estimate of a digit.\<close>

partial_function (option) qhat_loop :: "u32 \<Rightarrow> u32 \<Rightarrow> u32 \<Rightarrow> u32 \<Rightarrow> u32 \<Rightarrow> u32 option" where
  "qhat_loop v1 v2 uj2 qhat rhat =
     (if v2 * qhat > COMBINE rhat uj2 then
        let qhat = qhat - 1; rhat = rhat + v1
        in if rhat \<ge> BASE then Some qhat else qhat_loop v1 v2 uj2 qhat rhat
      else Some qhat)"

definition estimate :: "u32 \<Rightarrow> u32 \<Rightarrow> u32 \<Rightarrow> u32 \<Rightarrow> u32 \<Rightarrow> u32 kres" where
  "estimate uj0 uj1 uj2 v1 v2 =
     (if uj0 = v1 then
        let qhat = BASE - 1; rhat = uj1 + v1
        in if rhat \<ge> BASE then Inr qhat
           else (case qhat_loop v1 v2 uj2 qhat rhat of None \<Rightarrow> Inl Spinning | Some q \<Rightarrow> Inr q)
      else
        sbind (udiv (COMBINE uj0 uj1) v1) (\<lambda>(qhat, rhat).
        case qhat_loop v1 v2 uj2 qhat rhat of None \<Rightarrow> Inl Spinning | Some q \<Rightarrow> Inr q))"

text \<open>D4, with \<open>ub\<close> the position of \<^verbatim>\<open>u[j]\<close> and \<open>vb\<close> that of \<^verbatim>\<open>v[0]\<close>, for \<^verbatim>\<open>i\<close> downto 1.\<close>

fun mulsub :: "nat \<Rightarrow> nat \<Rightarrow> nat \<Rightarrow> u32 \<Rightarrow> u32 \<Rightarrow> u16 list \<Rightarrow> u16 list \<Rightarrow> (u32 \<times> u16 list) kres" where
  "mulsub 0 ub vb qhat t us vs = Inr (t, us)"
| "mulsub (Suc i) ub vb qhat t us vs =
     sbind (digit_at us (ub + Suc i)) (\<lambda>x.
     sbind (digit_at vs (vb + Suc i)) (\<lambda>y.
     let t = x - y * qhat - t
     in sbind (set_digit us (ub + Suc i) (LHALF t)) (\<lambda>us.
        mulsub i ub vb qhat ((BASE - HHALF t) AND (BASE - 1)) us vs)))"

text \<open>D6.\<close>

fun addback :: "nat \<Rightarrow> nat \<Rightarrow> nat \<Rightarrow> u32 \<Rightarrow> u16 list \<Rightarrow> u16 list \<Rightarrow> (u32 \<times> u16 list) kres" where
  "addback 0 ub vb t us vs = Inr (t, us)"
| "addback (Suc i) ub vb t us vs =
     sbind (digit_at us (ub + Suc i)) (\<lambda>x.
     sbind (digit_at vs (vb + Suc i)) (\<lambda>y.
     let t = t + (x + y)
     in sbind (set_digit us (ub + Suc i) (LHALF t)) (\<lambda>us.
        addback i ub vb (HHALF t) us vs)))"

text \<open>One round of the main loop: the digit of the quotient and the new \<^verbatim>\<open>u\<close>.\<close>

definition div_round :: "nat \<Rightarrow> nat \<Rightarrow> nat \<Rightarrow> u16 list \<Rightarrow> u16 list \<Rightarrow> (u32 \<times> u16 list) kres" where
  "div_round n ub vb us vs =
     sbind (digit_at vs (vb + 1)) (\<lambda>v1.
     sbind (digit_at vs (vb + 2)) (\<lambda>v2.
     sbind (digit_at us ub) (\<lambda>uj0.
     sbind (digit_at us (ub + 1)) (\<lambda>uj1.
     sbind (digit_at us (ub + 2)) (\<lambda>uj2.
     sbind (estimate uj0 uj1 uj2 v1 v2) (\<lambda>qhat.
     sbind (mulsub n ub vb qhat 0 us vs) (\<lambda>(t, us).
     sbind (digit_at us ub) (\<lambda>x.
     let t = x - t
     in sbind (set_digit us ub (LHALF t)) (\<lambda>us.
        if HHALF t \<noteq> 0 then
          sbind (addback n ub vb 0 us vs) (\<lambda>(t, us).
          sbind (digit_at us ub) (\<lambda>x.
          sbind (set_digit us ub (LHALF (x + t))) (\<lambda>us. Inr (qhat - 1, us))))
        else Inr (qhat, us))))))))))"

text \<open>The main loop for \<open>k\<close> rounds from \<^verbatim>\<open>j\<close>; \<open>qb\<close> is the position of \<^verbatim>\<open>q[0]\<close>.\<close>

fun div_loop :: "nat \<Rightarrow> nat \<Rightarrow> nat \<Rightarrow> nat \<Rightarrow> nat \<Rightarrow> nat \<Rightarrow> u16 list \<Rightarrow> u16 list \<Rightarrow> u16 list \<Rightarrow> (u16 list \<times> u16 list) kres" where
  "div_loop 0 j n ub vb qb us vs qs = Inr (us, qs)"
| "div_loop (Suc k) j n ub vb qb us vs qs =
     sbind (div_round n (ub + j) vb us vs) (\<lambda>(qhat, us).
     sbind (set_digit qs (qb + j) qhat) (\<lambda>qs.
     div_loop k (j + 1) n ub vb qb us vs qs))"

text \<open>The shift of the remainder: the loop for \<open>k\<close> digits down from position \<open>i\<close>, then \<^verbatim>\<open>u[i] = 0\<close>.\<close>

fun shr_rem :: "nat \<Rightarrow> nat \<Rightarrow> nat \<Rightarrow> u16 list \<Rightarrow> u16 list kres" where
  "shr_rem 0 b d us = set_digit us b 0"
| "shr_rem (Suc k) b d us =
     sbind (digit_at us (b + Suc k)) (\<lambda>x.
     sbind (digit_at us (b + k)) (\<lambda>y.
     sbind (set_digit us (b + Suc k) (drop_bit d x OR LHALF (push_bit (16 - d) y))) (\<lambda>us.
     shr_rem k b d us)))"

definition from_digits :: "u16 list \<Rightarrow> u64 kres" where
  "from_digits p =
     sbind (digit_at p 1) (\<lambda>a. sbind (digit_at p 2) (\<lambda>b. sbind (digit_at p 3) (\<lambda>c. sbind (digit_at p 4) (\<lambda>d.
     Inr (uu (COMBINE a b) (COMBINE c d))))))"

definition to_digits :: "u16 \<Rightarrow> u64 \<Rightarrow> u16 list" where
  "to_digits x0 x = [x0, ucast (HHALF (ui_H x)), ucast (LHALF (ui_H x)), ucast (HHALF (ui_L x)), ucast (LHALF (ui_L x))]"

text \<open>\<^verbatim>\<open>__qdivrem\<close> with at least two digits in the divisor.\<close>

definition long_div :: "bool \<Rightarrow> nat \<Rightarrow> nat \<Rightarrow> u16 list \<Rightarrow> u16 list \<Rightarrow> u16 list \<Rightarrow> (u64 \<times> u64 option) kres" where
  "long_div arq vo n us vs qs =
     sbind (skip_u us 0 (4 - int n)) (\<lambda>(uo, m).
     let m = nat m
     in sbind (clear_q qs (4 - m)) (\<lambda>qs.
        sbind (digit_at vs (vo + 1)) (\<lambda>v1.
        sbind (case find_shift v1 0 of None \<Rightarrow> Inl Spinning | Some d \<Rightarrow> Inr d) (\<lambda>d.
        sbind (if d > 0 then
                 sbind (shl us uo (m + n) d) (\<lambda>us. sbind (shl vs (vo + 1) (n - 1) d) (\<lambda>vs. Inr (us, vs)))
               else Inr (us, vs)) (\<lambda>(us, vs).
        sbind (div_loop (m + 1) 0 n uo vo (4 - m) us vs qs) (\<lambda>(us, qs).
        sbind (if arq then
                 sbind (if d > 0 then shr_rem n (uo + m) d us else Inr us) (\<lambda>us.
                 sbind (from_digits us) (\<lambda>r. Inr (Some r)))
               else Inr None) (\<lambda>rem.
        sbind (from_digits qs) (\<lambda>q. Inr (q, rem)))))))))"

text \<open>The division: the quotient and, if \<^verbatim>\<open>arq\<close> is not null, the remainder. \<open>v0\<close> and \<open>qs\<close> are what the arrays
  \<^verbatim>\<open>vspace\<close> and \<^verbatim>\<open>qspace\<close> hold on entry.\<close>

definition qdivrem :: "u16 \<Rightarrow> u16 list \<Rightarrow> bool \<Rightarrow> u64 \<Rightarrow> u64 \<Rightarrow> (u64 \<times> u64 option) kres" where
  "qdivrem v0 qs arq ull vll =
     (if vll = 0 then Inl (Undefined ''division by zero'')
      else if ull < vll then Inr (0, if arq then Some ull else None)
      else
        let us = to_digits 0 ull; vs = to_digits v0 vll
        in sbind (skip_v vs 0 4) (\<lambda>r. case r of
             None \<Rightarrow>
               sbind (short_div (ucast (vs ! 4)) (ucast (us ! 1)) (ucast (us ! 2)) (ucast (us ! 3)) (ucast (us ! 4))) (\<lambda>(q, r).
               Inr (q, if arq then Some r else None))
           | Some (vo, n) \<Rightarrow> long_div arq vo n us vs qs))"

definition udivdi3 :: "u16 \<Rightarrow> u16 list \<Rightarrow> u64 \<Rightarrow> u64 \<Rightarrow> u64 kres" where
  "udivdi3 v0 qs a b = sbind (qdivrem v0 qs False a b) (\<lambda>(q, _). Inr q)"

definition umoddi3 :: "u16 \<Rightarrow> u16 list \<Rightarrow> u64 \<Rightarrow> u64 \<Rightarrow> u64 kres" where
  "umoddi3 v0 qs a b =
     sbind (qdivrem v0 qs True a b) (\<lambda>(_, r).
     case r of None \<Rightarrow> Inl (Undefined ''r'') | Some r \<Rightarrow> Inr r)"

definition divdi3 :: "u16 \<Rightarrow> u16 list \<Rightarrow> u64 \<Rightarrow> u64 \<Rightarrow> u64 kres" where
  "divdi3 v0 qs a b =
     (let (ua, neg) = (if sint a < 0 then (- a, True) else (a, False));
          (ub, neg) = (if sint b < 0 then (- b, \<not> neg) else (b, neg))
      in sbind (qdivrem v0 qs False ua ub) (\<lambda>(uq, _). Inr (if neg then - uq else uq)))"

definition moddi3 :: "u16 \<Rightarrow> u16 list \<Rightarrow> u64 \<Rightarrow> u64 \<Rightarrow> u64 kres" where
  "moddi3 v0 qs a b =
     (let (ua, neg) = (if sint a < 0 then (- a, True) else (a, False));
          ub = (if sint b < 0 then - b else b)
      in sbind (qdivrem v0 qs True ua ub) (\<lambda>(_, r).
         case r of None \<Rightarrow> Inl (Undefined ''ur'') | Some ur \<Rightarrow> Inr (if neg then - ur else ur)))"

section \<open>Numbers of digits\<close>

text \<open>The value of the \<open>n\<close> digits from position \<open>k\<close>, the most significant one first.\<close>

primrec dval :: "u16 list \<Rightarrow> nat \<Rightarrow> nat \<Rightarrow> nat" where
  "dval p k 0 = 0"
| "dval p k (Suc n) = dval p k n * 65536 + unat (p ! (k + n))"

lemma digit_lt: "unat (x :: u16) < 65536"
  using unsigned_less [of x] by simp

lemma dval_lt: "dval p k n < 65536 ^ n"
proof (induction n)
  case (Suc n)
  have "dval p k n * 65536 + unat (p ! (k + n)) < (dval p k n + 1) * 65536" using digit_lt [of "p ! (k + n)"] by simp
  also have "\<dots> \<le> 65536 ^ n * 65536" using Suc by (intro mult_right_mono) simp_all
  finally show ?case by (simp add: mult.commute)
qed simp

lemma dval_cong: "(\<And>i. k \<le> i \<Longrightarrow> i < k + n \<Longrightarrow> p ! i = p' ! i) \<Longrightarrow> dval p k n = dval p' k n"
  by (induction n) simp_all

lemma dval_head: "dval p k (Suc n) = unat (p ! k) * 65536 ^ n + dval p (Suc k) n"
  by (induction n) (simp_all add: algebra_simps)

lemma dval_append: "dval p k (n + m) = dval p k n * 65536 ^ m + dval p (k + n) m"
  by (induction m) (simp_all add: algebra_simps)

lemma dval_upd [simp]: "i < k \<or> k + n \<le> i \<Longrightarrow> dval (p[i := x]) k n = dval p k n"
  by (rule dval_cong) (auto simp: nth_list_update)

lemma dval_zero: "(\<And>i. k \<le> i \<Longrightarrow> i < k + n \<Longrightarrow> p ! i = 0) \<Longrightarrow> dval p k n = 0"
  by (induction n) simp_all

lemma unat_halves: "unat (HHALF x) = unat x div 65536" "unat (LHALF x) = unat x mod 65536"
proof -
  have "int (unat (HHALF x)) = int (unat x div 65536)" "int (unat (LHALF x)) = int (unat x mod 65536)"
    using halves(1,2) [of x] by (simp_all add: zdiv_int zmod_int)
  then show "unat (HHALF x) = unat x div 65536" "unat (LHALF x) = unat x mod 65536" by (simp_all only: of_nat_eq_iff)
qed

lemma unat_digit [simp]: "unat (ucast (x :: u16) :: u32) = unat x"
  using digit_lt [of x] by (simp add: unsigned_ucast_eq take_bit_eq_mod)

lemma unat_to_digit: "unat (ucast (x :: u32) :: u16) = unat x mod 65536"
  by (simp add: unsigned_ucast_eq take_bit_eq_mod)

lemma unat_COMBINE: "unat a < 65536 \<Longrightarrow> unat b < 65536 \<Longrightarrow> unat (COMBINE a b) = unat a * 65536 + unat b"
proof -
  assume ab: "unat a < 65536" "unat b < 65536"
  have "\<not> bit b n" if "16 \<le> n" for n
  proof -
    have "unat b < 2 ^ n" using ab(2) power_increasing [OF that, of "2 :: nat"] by simp
    then have "\<not> bit (unat b) n" by (simp add: bit_iff_odd)
    then show ?thesis by (simp add: bit_unsigned_iff)
  qed
  then have "push_bit 16 a + b = push_bit 16 a OR b" by (intro disjunctive_add) (auto simp: bit_simps)
  then have "COMBINE a b = push_bit 16 a + b" by (simp add: COMBINE_def)
  then show ?thesis using ab by (simp add: push_bit_eq_mult unat_word_ariths)
qed

lemma unat_uu: "unat (uu h l) = unat h * 2 ^ 32 + unat l"
proof -
  have "uint (uu h l) = uint h * 2 ^ 32 + uint l" using uint_parts [of "uu h l"] by simp
  then have "int (unat (uu h l)) = int (unat h * 2 ^ 32 + unat l)" by simp
  then show ?thesis by (simp only: of_nat_eq_iff)
qed

section \<open>The loops over digits\<close>

lemma word_lt: "unat (x :: u32) < 4294967296"
  using unsigned_less [of x] by simp

lemma mul_bound: "(a :: nat) \<le> 65535 \<Longrightarrow> b \<le> 65535 \<Longrightarrow> a * b \<le> 4294836225"
  using mult_le_mono [of a 65535 b 65535] by simp

lemma mulsub_digit:
  fixes x y qhat t :: u32
  assumes lt: "unat x < 65536" "unat y < 65536" "unat qhat < 65536" "unat t < 65536"
  defines "w \<equiv> x - y * qhat - t"
  shows "unat w mod 65536 + unat y * unat qhat + unat t = unat x + unat ((BASE - HHALF w) AND (BASE - 1)) * 65536"
    "unat ((BASE - HHALF w) AND (BASE - 1)) < 65536"
proof -
  let ?N = "unat y * unat qhat + unat t"
  have N: "?N \<le> 4294901760" using mul_bound [of "unat y" "unat qhat"] lt by simp
  have "unat (y * qhat + t) = ?N" using N by (simp add: unat_word_ariths)
  moreover have "w = x - (y * qhat + t)" by (simp add: w_def)
  ultimately have w: "unat w = (if ?N \<le> unat x then unat x - ?N else unat x + 4294967296 - ?N)" by (simp add: unat_sub_if')
  have "HHALF w \<le> BASE" using unat_halves(1) [of w] word_lt [of w] by (simp add: word_le_nat_alt)
  then have "unat (BASE - HHALF w) = 65536 - unat w div 65536" by (simp add: unat_sub unat_halves)
  then have t: "unat ((BASE - HHALF w) AND (BASE - 1)) = (65536 - unat w div 65536) mod 65536"
    using unat_halves(2) [of "BASE - HHALF w"] by (simp add: LHALF_def)
  then show "unat ((BASE - HHALF w) AND (BASE - 1)) < 65536" by simp
  show "unat w mod 65536 + unat y * unat qhat + unat t = unat x + unat ((BASE - HHALF w) AND (BASE - 1)) * 65536"
  proof (cases "?N \<le> unat x")
    case True
    then show ?thesis using w t lt(1) by simp
  next
    case False
    define h l where "h = unat w div 65536" and "l = unat w mod 65536"
    have hl: "unat w = h * 65536 + l" by (simp add: h_def l_def)
    have "65536 \<le> unat w" "unat w < 4294967296" using w False N word_lt [of w] by simp_all
    then have h: "1 \<le> h" "h < 65536" by (auto simp: h_def less_mult_imp_div_less le_div_geq)
    then have "unat ((BASE - HHALF w) AND (BASE - 1)) = 65536 - h" unfolding t by (simp flip: h_def)
    moreover have "h * 65536 + l + ?N = unat x + 4294967296" using hl w False N by simp
    ultimately show ?thesis using h by (simp add: diff_mult_distrib flip: l_def)
  qed
qed

lemma set_digit_ok: "i < length p \<Longrightarrow> set_digit p i x = Inr (p[i := ucast x])"
  by (simp add: set_digit_def)

lemma digit_at_ok: "i < length p \<Longrightarrow> digit_at p i = Inr (ucast (p ! i))"
  by (simp add: digit_at_def)

lemma mulsub_ok:
  assumes "ub + n < length us" "vb + n < length vs" "unat qhat < 65536" "unat t < 65536"
  shows "\<exists>t' us'. mulsub n ub vb qhat t us vs = Inr (t', us') \<and> length us' = length us \<and> unat t' < 65536 \<and>
    (\<forall>i. i \<le> ub \<or> ub + n < i \<longrightarrow> us' ! i = us ! i) \<and>
    dval us' (ub + 1) n + dval vs (vb + 1) n * unat qhat + unat t = dval us (ub + 1) n + unat t' * 65536 ^ n"
  using assms
proof (induction n arbitrary: us t)
  case 0
  then show ?case by simp
next
  case (Suc n)
  define x y where xy: "x = (ucast (us ! (ub + Suc n)) :: u32)" "y = (ucast (vs ! (vb + Suc n)) :: u32)"
  have lt: "unat x < 65536" "unat y < 65536" by (simp_all add: xy digit_lt)
  define w where "w = x - y * qhat - t"
  define t1 where "t1 = (BASE - HHALF w) AND (BASE - 1)"
  define us1 where "us1 = us[ub + Suc n := ucast (LHALF w)]"
  note d = mulsub_digit [OF lt Suc.prems(3,4), folded w_def, folded t1_def]
  have eq: "mulsub (Suc n) ub vb qhat t us vs = mulsub n ub vb qhat t1 us1 vs"
    using Suc.prems by (simp add: digit_at_ok set_digit_ok Let_def t1_def us1_def w_def xy)
  have "ub + n < length us1" "vb + n < length vs" using Suc.prems by (simp_all add: us1_def)
  from Suc.IH [OF this Suc.prems(3) d(2)] obtain t' us' where
    r: "mulsub n ub vb qhat t1 us1 vs = Inr (t', us')" "length us' = length us1" "unat t' < 65536"
      "\<And>i. i \<le> ub \<or> ub + n < i \<Longrightarrow> us' ! i = us1 ! i"
      "dval us' (ub + 1) n + dval vs (vb + 1) n * unat qhat + unat t1 = dval us1 (ub + 1) n + unat t' * 65536 ^ n" by blast
  have low: "unat (us' ! (ub + Suc n)) = unat w mod 65536"
    using r(4) [of "ub + Suc n"] Suc.prems(1) by (simp add: us1_def unat_to_digit unat_halves)
  have "(dval us' (ub + 1) n + dval vs (vb + 1) n * unat qhat + unat t1) * 65536 = (dval us (ub + 1) n + unat t' * 65536 ^ n) * 65536"
    unfolding r(5) by (simp add: us1_def)
  then have "dval us' (ub + 1) (Suc n) + dval vs (vb + 1) (Suc n) * unat qhat + unat t = dval us (ub + 1) (Suc n) + unat t' * 65536 ^ Suc n"
    using low d(1) xy by (simp add: algebra_simps)
  moreover have "us' ! i = us ! i" if "i \<le> ub \<or> ub + Suc n < i" for i using r(4) [of i] that by (auto simp: us1_def)
  moreover have "length us' = length us" using r(2) by (simp add: us1_def)
  ultimately show ?case unfolding eq using r(1,3) by blast
qed

lemma addback_digit:
  fixes x y t :: u32
  assumes lt: "unat x < 65536" "unat y < 65536" "unat t \<le> 1"
  shows "unat (t + (x + y)) mod 65536 + unat (HHALF (t + (x + y))) * 65536 = unat t + unat x + unat y" "unat (HHALF (t + (x + y))) \<le> 1"
proof -
  have "unat (t + (x + y)) = unat t + unat x + unat y" using lt by (simp add: unat_word_ariths)
  then show "unat (t + (x + y)) mod 65536 + unat (HHALF (t + (x + y))) * 65536 = unat t + unat x + unat y" "unat (HHALF (t + (x + y))) \<le> 1"
    using lt by (simp_all add: unat_halves) 
qed

lemma addback_ok:
  assumes "ub + n < length us" "vb + n < length vs" "unat t \<le> 1"
  shows "\<exists>t' us'. addback n ub vb t us vs = Inr (t', us') \<and> length us' = length us \<and> unat t' \<le> 1 \<and>
    (\<forall>i. i \<le> ub \<or> ub + n < i \<longrightarrow> us' ! i = us ! i) \<and>
    dval us' (ub + 1) n + unat t' * 65536 ^ n = dval us (ub + 1) n + dval vs (vb + 1) n + unat t"
  using assms
proof (induction n arbitrary: us t)
  case 0
  then show ?case by simp
next
  case (Suc n)
  define x y where xy: "x = (ucast (us ! (ub + Suc n)) :: u32)" "y = (ucast (vs ! (vb + Suc n)) :: u32)"
  have lt: "unat x < 65536" "unat y < 65536" by (simp_all add: xy digit_lt)
  define w where "w = t + (x + y)"
  define us1 where "us1 = us[ub + Suc n := ucast (LHALF w)]"
  note d = addback_digit [OF lt Suc.prems(3), folded w_def]
  have eq: "addback (Suc n) ub vb t us vs = addback n ub vb (HHALF w) us1 vs"
    using Suc.prems by (simp add: digit_at_ok set_digit_ok Let_def us1_def w_def xy)
  have "ub + n < length us1" "vb + n < length vs" using Suc.prems by (simp_all add: us1_def)
  from Suc.IH [OF this d(2)] obtain t' us' where
    r: "addback n ub vb (HHALF w) us1 vs = Inr (t', us')" "length us' = length us1" "unat t' \<le> 1"
      "\<And>i. i \<le> ub \<or> ub + n < i \<Longrightarrow> us' ! i = us1 ! i"
      "dval us' (ub + 1) n + unat t' * 65536 ^ n = dval us1 (ub + 1) n + dval vs (vb + 1) n + unat (HHALF w)" by blast
  have low: "unat (us' ! (ub + Suc n)) = unat w mod 65536"
    using r(4) [of "ub + Suc n"] Suc.prems(1) by (simp add: us1_def unat_to_digit unat_halves)
  have "(dval us' (ub + 1) n + unat t' * 65536 ^ n) * 65536 = (dval us (ub + 1) n + dval vs (vb + 1) n + unat (HHALF w)) * 65536"
    unfolding r(5) by (simp add: us1_def)
  then have "dval us' (ub + 1) (Suc n) + unat t' * 65536 ^ Suc n = dval us (ub + 1) (Suc n) + dval vs (vb + 1) (Suc n) + unat t"
    using low d(1) xy by (simp add: algebra_simps)
  moreover have "us' ! i = us ! i" if "i \<le> ub \<or> ub + Suc n < i" for i using r(4) [of i] that by (auto simp: us1_def)
  moreover have "length us' = length us" using r(2) by (simp add: us1_def)
  ultimately show ?case unfolding eq using r(1,3) by blast
qed

lemma pow_split: "sh \<le> 16 \<Longrightarrow> 2 ^ sh * 2 ^ (16 - sh) = (65536 :: nat)"
  by (simp flip: power_add)

lemma div_pow: "sh \<le> 16 \<Longrightarrow> (x :: nat) * 2 ^ sh div 65536 = x div 2 ^ (16 - sh)"
  using pow_split [of sh] by (metis div_mult_mult1 mult.commute power_not_zero zero_neq_numeral)

lemma unat_small: "unat (x :: u32) < 2 ^ k \<Longrightarrow> \<not> bit x n" if "k \<le> n"
proof -
  assume "unat x < 2 ^ k"
  then have "unat x < 2 ^ n" by (rule less_le_trans) (use that in \<open>simp add: power_increasing\<close>)
  then have "\<not> bit (unat x) n" by (simp add: bit_iff_odd)
  then show ?thesis by (simp add: bit_unsigned_iff)
qed

lemma unat_or:
  assumes "unat (b :: u32) < 2 ^ k" and "2 ^ k dvd unat a"
  shows "unat (a OR b) = unat a + unat b"
proof -
  have "\<not> bit a n" if "n < k" for n
  proof -
    obtain c where "unat a = 2 ^ k * c" using assms(2) by blast
    then have "unat a = 2 ^ n * (2 ^ (k - n) * c)" using that by (simp flip: mult.assoc power_add)
    then have "unat a div 2 ^ n = 2 ^ (k - n) * c" by simp
    then have "\<not> bit (unat a) n" using that by (simp add: bit_iff_odd)
    then show ?thesis by (simp add: bit_unsigned_iff)
  qed
  moreover have "\<not> bit b n" if "k \<le> n" for n using unat_small [OF that assms(1)] .
  ultimately have no: "\<not> bit a n \<or> \<not> bit b n" for n by (meson not_le)
  then have "a + b = a OR b" by (rule disjunctive_add)
  moreover have "unat a + unat b = unat a OR unat b" using no by (intro disjunctive_add) (simp add: bit_unsigned_iff)
  ultimately show ?thesis by (simp add: unsigned_or_eq)
qed

lemma unat_push: "n < 32 \<Longrightarrow> unat (push_bit n (x :: u32)) = unat x * 2 ^ n mod 4294967296"
  by (subst unsigned_push_bit_eq) (simp_all add: take_bit_eq_mod push_bit_eq_mult)

lemma unat_drop: "unat (drop_bit n (x :: u32)) = unat x div 2 ^ n"
  by (subst unat_drop_bit_eq) (rule drop_bit_eq_div)

lemma shl_digit:
  fixes x y :: u16
  assumes "0 < sh" "sh < 16"
  shows "unat (LHALF (push_bit sh (ucast x)) OR drop_bit (16 - sh) (ucast y)) = unat x * 2 ^ sh mod 65536 + unat y div 2 ^ (16 - sh)"
    "unat x * 2 ^ sh mod 65536 + unat y div 2 ^ (16 - sh) < 65536"
    "unat (LHALF (push_bit sh (ucast x))) = unat x * 2 ^ sh mod 65536"
proof -
  have l: "unat (LHALF (push_bit sh (ucast x))) = unat x * 2 ^ sh mod 65536"
    using assms by (simp add: unat_halves unat_push mod_mod_cancel)
  then show "unat (LHALF (push_bit sh (ucast x))) = unat x * 2 ^ sh mod 65536" .
  have "unat y < 2 ^ sh * 2 ^ (16 - sh)" using digit_lt [of y] pow_split [of sh] assms by simp
  then have y: "unat y div 2 ^ (16 - sh) < 2 ^ sh" by (rule less_mult_imp_div_less)
  have dv: "(2 :: nat) ^ sh dvd 65536" using pow_split [of sh] assms by (metis dvd_triv_left less_imp_le)
  then have x: "2 ^ sh dvd unat x * 2 ^ sh mod 65536" by (simp add: dvd_mod_iff)
  show "unat (LHALF (push_bit sh (ucast x)) OR drop_bit (16 - sh) (ucast y)) = unat x * 2 ^ sh mod 65536 + unat y div 2 ^ (16 - sh)"
    using unat_or [of "drop_bit (16 - sh) (ucast y)" sh "LHALF (push_bit sh (ucast x))"] y x by (simp add: l unat_drop)
  obtain c where c: "unat x * 2 ^ sh mod 65536 = 2 ^ sh * c" using x by blast
  obtain e where e: "65536 = (2 :: nat) ^ sh * e" using dv by blast
  have "2 ^ sh * c < 2 ^ sh * e" unfolding c [symmetric] e [symmetric] by simp
  then have "2 ^ sh * c + 2 ^ sh \<le> 2 ^ sh * e" by (metis add.commute mult_Suc_right mult_le_mono2 mult_less_cancel1 Suc_leI)
  then show "unat x * 2 ^ sh mod 65536 + unat y div 2 ^ (16 - sh) < 65536" using y c e by linarith
qed

lemma shl_ok:
  assumes "b + len < length p" "0 < sh" "sh < 16"
  shows "\<exists>p'. shl p b len sh = Inr p' \<and> length p' = length p \<and> (\<forall>i. i < b \<or> b + len < i \<longrightarrow> p' ! i = p ! i) \<and>
    dval p' b (Suc len) + unat (p ! b) div 2 ^ (16 - sh) * 65536 ^ Suc len = dval p b (Suc len) * 2 ^ sh"
  using assms
proof (induction len arbitrary: b p)
  case 0
  have "unat (p ! b) * 2 ^ sh mod 65536 + unat (p ! b) div 2 ^ (16 - sh) * 65536 = unat (p ! b) * 2 ^ sh"
    using div_pow [of sh "unat (p ! b)"] 0 by (metis less_imp_le mod_div_mult_eq)
  then show ?case using 0 shl_digit(3) [OF 0(2,3), of "p ! b"]
    by (simp add: digit_at_ok set_digit_ok unat_to_digit mod_mod_trivial)
next
  case (Suc len)
  define x where "x = unat (p ! b) * 2 ^ sh mod 65536 + unat (p ! Suc b) div 2 ^ (16 - sh)"
  define p1 where "p1 = p[b := ucast (LHALF (push_bit sh (ucast (p ! b))) OR drop_bit (16 - sh) (ucast (p ! Suc b)) :: u32)]"
  have eq: "shl p b (Suc len) sh = shl p1 (Suc b) len sh" using Suc.prems by (simp add: digit_at_ok set_digit_ok p1_def)
  have pb: "unat (p1 ! b) = x" using Suc.prems shl_digit(1,2) [OF Suc.prems(2,3), of "p ! b" "p ! Suc b"]
    by (simp add: p1_def unat_to_digit x_def)
  have "Suc b + len < length p1" using Suc.prems by (simp add: p1_def)
  from Suc.IH [OF this Suc.prems(2,3)] obtain p' where
    r: "shl p1 (Suc b) len sh = Inr p'" "length p' = length p1" "\<And>i. i < Suc b \<or> Suc b + len < i \<Longrightarrow> p' ! i = p1 ! i"
      "dval p' (Suc b) (Suc len) + unat (p1 ! Suc b) div 2 ^ (16 - sh) * 65536 ^ Suc len = dval p1 (Suc b) (Suc len) * 2 ^ sh" by blast
  have same: "dval p1 (Suc b) (Suc len) = dval p (Suc b) (Suc len)" "p1 ! Suc b = p ! Suc b" unfolding p1_def by (simp_all add: del: dval.simps)
  have "dval p' b (Suc (Suc len)) = x * 65536 ^ Suc len + dval p' (Suc b) (Suc len)"
    using r(3) [of b] pb by (simp add: dval_head [of p' b "Suc len"] del: dval.simps)
  moreover have "dval p b (Suc (Suc len)) = unat (p ! b) * 65536 ^ Suc len + dval p (Suc b) (Suc len)" by (rule dval_head)
  moreover have "unat (p ! b) * 2 ^ sh mod 65536 + unat (p ! b) div 2 ^ (16 - sh) * 65536 = unat (p ! b) * 2 ^ sh"
    using div_pow [of sh "unat (p ! b)"] Suc.prems by (metis less_imp_le mod_div_mult_eq)
  then have "unat (p ! b) * 2 ^ sh * 65536 ^ Suc len = (unat (p ! b) * 2 ^ sh mod 65536 + unat (p ! b) div 2 ^ (16 - sh) * 65536) * 65536 ^ Suc len" by simp
  ultimately have "dval p' b (Suc (Suc len)) + unat (p ! b) div 2 ^ (16 - sh) * 65536 ^ Suc (Suc len) = dval p b (Suc (Suc len)) * 2 ^ sh"
    using r(4) unfolding same x_def by (simp add: algebra_simps del: dval.simps)
  moreover have "p' ! i = p ! i" if "i < b \<or> b + Suc len < i" for i using r(3) [of i] that by (auto simp: p1_def)
  moreover have "length p' = length p" using r(2) by (simp add: p1_def)
  ultimately show ?case unfolding eq using r(1) by blast
qed

lemma shr_digit:
  fixes x y :: u16
  assumes "0 < d" "d < 16"
  shows "unat (drop_bit d (ucast x) OR LHALF (push_bit (16 - d) (ucast y))) * 2 ^ d + unat x mod 2 ^ d = unat x + unat y mod 2 ^ d * 65536"
    "unat (drop_bit d (ucast x) OR LHALF (push_bit (16 - d) (ucast y))) < 65536"
proof -
  have s: "0 < 16 - d" "16 - d < 16" "16 - (16 - d) = d" using assms by simp_all
  have c: "drop_bit d (ucast x) OR LHALF (push_bit (16 - d) (ucast y)) = LHALF (push_bit (16 - d) (ucast y)) OR drop_bit (16 - (16 - d)) (ucast x)"
    using s(3) by (simp add: or.commute)
  have e: "unat (drop_bit d (ucast x) OR LHALF (push_bit (16 - d) (ucast y))) = unat y * 2 ^ (16 - d) mod 65536 + unat x div 2 ^ d"
    using shl_digit(1) [OF s(1,2), of y x] unfolding c unfolding s(3) .
  have "unat y * 2 ^ (16 - d) mod (2 ^ d * 2 ^ (16 - d)) = unat y mod 2 ^ d * 2 ^ (16 - d)" by (rule mult_mod_left [symmetric])
  then have "unat y * 2 ^ (16 - d) mod 65536 * 2 ^ d = unat y mod 2 ^ d * 65536"
    using pow_split [of d] assms by (simp add: mult.assoc mult.commute)
  then show "unat (drop_bit d (ucast x) OR LHALF (push_bit (16 - d) (ucast y))) * 2 ^ d + unat x mod 2 ^ d = unat x + unat y mod 2 ^ d * 65536"
    unfolding e using div_mult_mod_eq [of "unat x" "2 ^ d"] by (simp only: distrib_right)
  show "unat (drop_bit d (ucast x) OR LHALF (push_bit (16 - d) (ucast y))) < 65536"
    using shl_digit(2) [OF s(1,2), of y x] unfolding e unfolding s(3) .
qed

lemma shr_ok:
  assumes "b + k < length us" "0 < d" "d < 16" "unat (us ! b) < 2 ^ d"
  shows "\<exists>us'. shr_rem k b d us = Inr us' \<and> length us' = length us \<and> us' ! b = 0 \<and> (\<forall>i. i < b \<or> b + k < i \<longrightarrow> us' ! i = us ! i) \<and>
    dval us' (b + 1) k * 2 ^ d + unat (us ! (b + k)) mod 2 ^ d = dval us b (Suc k)"
  using assms
proof (induction k arbitrary: us)
  case 0
  then show ?case by (simp add: set_digit_ok)
next
  case (Suc k)
  define x where "x = (drop_bit d (ucast (us ! (b + Suc k))) OR LHALF (push_bit (16 - d) (ucast (us ! (b + k)))) :: u32)"
  define us1 where "us1 = us[b + Suc k := ucast x]"
  have eq: "shr_rem (Suc k) b d us = shr_rem k b d us1" using Suc.prems by (simp add: digit_at_ok set_digit_ok us1_def x_def)
  note dg = shr_digit [OF Suc.prems(2,3), of "us ! (b + Suc k)" "us ! (b + k)", folded x_def]
  have "b + k < length us1" "unat (us1 ! b) < 2 ^ d" using Suc.prems by (simp_all add: us1_def)
  from Suc.IH [OF this(1) Suc.prems(2,3) this(2)] obtain us' where
    r: "shr_rem k b d us1 = Inr us'" "length us' = length us1" "us' ! b = 0" "\<And>i. i < b \<or> b + k < i \<Longrightarrow> us' ! i = us1 ! i"
      "dval us' (b + 1) k * 2 ^ d + unat (us1 ! (b + k)) mod 2 ^ d = dval us1 b (Suc k)" by blast
  have top: "unat (us' ! (b + Suc k)) = unat x" using r(4) [of "b + Suc k"] Suc.prems(1) dg(2) by (simp add: us1_def unat_to_digit)
  have same: "us1 ! (b + k) = us ! (b + k)" "dval us1 b (Suc k) = dval us b (Suc k)" unfolding us1_def by (simp_all del: dval.simps)
  have "(dval us' (b + 1) k * 2 ^ d + unat (us ! (b + k)) mod 2 ^ d) * 65536 = dval us b (Suc k) * 65536" using r(5) unfolding same by simp
  then have "dval us' (b + 1) (Suc k) * 2 ^ d + unat (us ! (b + Suc k)) mod 2 ^ d = dval us b (Suc (Suc k))"
    using dg(1) top by (simp add: algebra_simps)
  moreover have "us' ! i = us ! i" if "i < b \<or> b + Suc k < i" for i using r(4) [of i] that by (auto simp: us1_def)
  moreover have "length us' = length us" using r(2) by (simp add: us1_def)
  ultimately show ?case unfolding eq using r(1,3) by blast
qed

lemma find_shift_ok:
  assumes "0 < unat t" "unat t < 65536"
  shows "\<exists>e. find_shift t d = Some (d + e) \<and> 32768 \<le> unat t * 2 ^ e \<and> unat t * 2 ^ e < 65536"
  using assms
proof (induction "65536 - unat t" arbitrary: t d rule: less_induct)
  case less
  show ?case
  proof (cases "unat t < 32768")
    case True
    have p: "unat (push_bit 1 t) = unat t * 2" using True by (subst unat_push) simp_all
    then have "65536 - unat (push_bit 1 t) < 65536 - unat t" "0 < unat (push_bit 1 t)" "unat (push_bit 1 t) < 65536" using True less.prems by simp_all
    from less.hyps [OF this, of "d + 1"] obtain e where
      "find_shift (push_bit 1 t) (d + 1) = Some (d + 1 + e)" "32768 \<le> unat t * 2 * 2 ^ e" "unat t * 2 * 2 ^ e < 65536" unfolding p by blast
    then show ?thesis using True by (intro exI [of _ "Suc e"]) (subst find_shift.simps, simp add: word_less_nat_alt mult.assoc)
  next
    case False
    then show ?thesis using less.prems by (intro exI [of _ 0]) (subst find_shift.simps, simp add: word_less_nat_alt)
  qed
qed

lemma shift_lt: "0 < (x :: nat) \<Longrightarrow> x * 2 ^ e < 65536 \<Longrightarrow> e < (16 :: nat)"
proof -
  assume "0 < x" "x * 2 ^ e < 65536"
  then have "(2 :: nat) ^ e < 2 ^ 16" using le_less_trans [of "2 ^ e" "x * 2 ^ e"] by simp
  then show ?thesis by (simp only: power_strict_increasing_iff [of 2] one_less_numeral_iff semiring_norm)
qed

section \<open>The estimate of a digit\<close>

lemma div_unique: "q * w \<le> (u :: nat) \<Longrightarrow> u < (q + 1) * w \<Longrightarrow> u div w = q"
  by (metis Suc_eq_plus1 div_nat_eqI mult.commute)

lemma qhat_loop_ok:
  assumes v1: "32768 \<le> unat v1" "unat v1 < 65536" and v2: "unat v2 < 65536" and u2: "unat u2 < 65536"
    and q: "unat qhat < 65536" and r: "unat rhat < 65536" and u: "u01 = unat qhat * unat v1 + unat rhat"
    and top: "unat qhat = 65535 \<or> u01 * 65536 + unat u2 < (unat qhat + 1) * (unat v1 * 65536 + unat v2)"
  shows "\<exists>q. qhat_loop v1 v2 u2 qhat rhat = Some q \<and> unat q = min ((u01 * 65536 + unat u2) div (unat v1 * 65536 + unat v2)) 65535"
  using q r u top
proof (induction "65536 - unat rhat" arbitrary: qhat rhat rule: less_induct)
  case less
  let ?w = "unat v1 * 65536 + unat v2" and ?u = "u01 * 65536 + unat u2"
  have c: "unat (COMBINE rhat u2) = unat rhat * 65536 + unat u2" by (rule unat_COMBINE [OF less.prems(2) u2])
  have p: "unat (v2 * qhat) = unat v2 * unat qhat" using mul_bound [of "unat v2" "unat qhat"] v2 less.prems(1) by (simp add: unat_word_ariths)
  have test: "v2 * qhat > COMBINE rhat u2 \<longleftrightarrow> ?u < unat qhat * ?w"
    unfolding word_less_nat_alt c p less.prems(3) by (simp add: algebra_simps)
  show ?case
  proof (cases "v2 * qhat > COMBINE rhat u2")
    case False
    then have le: "unat qhat * ?w \<le> ?u" using test by simp
    have "min (?u div ?w) 65535 = unat qhat"
    proof (cases "unat qhat = 65535")
      case True
      then have "65535 \<le> ?u div ?w" using le v1 by (simp add: less_eq_div_iff_mult_less_eq)
      then show ?thesis using True by simp
    next
      case False
      then show ?thesis using div_unique [OF le] less.prems(1,4) by simp
    qed
    then show ?thesis using False by (subst qhat_loop.simps) simp
  next
    case True
    then have gt: "?u < unat qhat * ?w" using test by simp
    then have "unat qhat \<noteq> 0" by (metis mult_0 not_less0)
    then have q1: "unat (qhat - 1) = unat qhat - 1" by (simp add: unat_minus_one unat_eq_0)
    have r1: "unat (rhat + v1) = unat rhat + unat v1" using less.prems(2) v1 by (simp add: unat_word_ariths)
    have u': "u01 = unat (qhat - 1) * unat v1 + unat (rhat + v1)"
      unfolding q1 r1 less.prems(3) using \<open>unat qhat \<noteq> 0\<close> by (cases "unat qhat") simp_all
    have top': "?u < (unat (qhat - 1) + 1) * ?w" using gt q1 \<open>unat qhat \<noteq> 0\<close> by simp
    show ?thesis
    proof (cases "rhat + v1 \<ge> BASE")
      case stop: True
      have "unat (qhat - 1) * unat v2 \<le> 65536 * 65536" using q1 less.prems(1) v2 by (intro mult_le_mono) simp_all
      also have "65536 * 65536 \<le> unat (rhat + v1) * 65536" using stop by (simp add: word_le_nat_alt)
      finally have "unat (qhat - 1) * ?w \<le> ?u" unfolding u' by (simp add: algebra_simps)
      then have "?u div ?w = unat (qhat - 1)" using top' by (rule div_unique)
      then show ?thesis using True stop q1 less.prems(1) by (subst qhat_loop.simps) simp
    next
      case go: False
      then have lt: "unat (rhat + v1) < 65536" by (simp add: word_le_nat_alt)
      have "65536 - unat (rhat + v1) < 65536 - unat rhat" using r1 v1 less.prems(2) by simp
      from less.hyps [OF this _ lt u' disjI2 [OF top']] q1 less.prems(1) show ?thesis using True go by (subst qhat_loop.simps) simp
    qed
  qed
qed

lemma estimate_ok:
  assumes v1: "32768 \<le> unat v1" "unat v1 < 65536" and v2: "unat v2 < 65536"
    and u: "unat u0 \<le> unat v1" "unat u1 < 65536" "unat u2 < 65536"
  shows "\<exists>q. estimate u0 u1 u2 v1 v2 = Inr q \<and>
    unat q = min ((unat u0 * 4294967296 + unat u1 * 65536 + unat u2) div (unat v1 * 65536 + unat v2)) 65535"
proof (cases "u0 = v1")
  case True
  let ?u = "(unat v1 * 65536 + unat u1) * 65536 + unat u2" and ?w = "unat v1 * 65536 + unat v2"
  have u01: "unat u0 * 4294967296 + unat u1 * 65536 + unat u2 = ?u" using True by simp
  have m: "unat (BASE - 1 :: u32) = 65535" by simp
  have r: "unat (u1 + v1) = unat u1 + unat v1" using u v1 by (simp add: unat_word_ariths)
  show ?thesis
  proof (cases "u1 + v1 \<ge> BASE")
    case big: True
    then have "65536 \<le> unat u1 + unat v1" using r by (simp add: word_le_nat_alt)
    then have "65535 * ?w \<le> ?u" using v2 by simp
    then have "65535 \<le> ?u div ?w" using v1 by (simp add: less_eq_div_iff_mult_less_eq)
    then have "min (?u div ?w) 65535 = 65535" by simp
    then show ?thesis unfolding u01 using True big by (intro exI [of _ "BASE - 1"]) (simp add: estimate_def)
  next
    case False
    have lt: "unat (u1 + v1) < 65536" using False by (simp add: word_le_nat_alt)
    have e: "unat v1 * 65536 + unat u1 = unat (BASE - 1 :: u32) * unat v1 + unat (u1 + v1)" unfolding m r by simp
    from qhat_loop_ok [OF v1 v2 u(3) _ lt e] m obtain q where
      "qhat_loop v1 v2 u2 (BASE - 1) (u1 + v1) = Some q" "unat q = min (?u div ?w) 65535" by auto
    then show ?thesis unfolding u01 using True False by (simp add: estimate_def)
  qed
next
  case False
  then have u0: "unat u0 < unat v1" using u(1) by (metis le_neq_implies_less word_unat_eq_iff)
  let ?n = "COMBINE u0 u1"
  have n: "unat ?n = unat u0 * 65536 + unat u1" using unat_COMBINE [of u0 u1] u0 v1 u by simp
  have q: "unat (?n div v1) = unat ?n div unat v1" "unat (?n mod v1) = unat ?n mod unat v1" by (simp_all add: unat_div unat_mod)
  have "unat ?n < 65536 * unat v1" using n u0 u(2) by simp
  then have q1: "unat (?n div v1) < 65536" unfolding q by (simp add: less_mult_imp_div_less)
  have r1: "unat (?n mod v1) < 65536" unfolding q using v1 by (meson less_trans mod_less_divisor less_le_trans zero_less_numeral)
  have e: "unat ?n = unat (?n div v1) * unat v1 + unat (?n mod v1)" unfolding q by simp
  have "unat ?n < (unat (?n div v1) + 1) * unat v1" unfolding q using v1 by (simp add: dividend_less_div_times)
  then have "unat ?n * 65536 + unat u2 < (unat (?n div v1) + 1) * unat v1 * 65536" using u(3) by simp
  also have "\<dots> \<le> (unat (?n div v1) + 1) * (unat v1 * 65536 + unat v2)" by (simp add: algebra_simps)
  finally have t: "unat ?n * 65536 + unat u2 < (unat (?n div v1) + 1) * (unat v1 * 65536 + unat v2)" .
  from qhat_loop_ok [OF v1 v2 u(3) q1 r1 e disjI2 [OF t]] obtain r where
    "qhat_loop v1 v2 u2 (?n div v1) (?n mod v1) = Some r" "unat r = min ((unat ?n * 65536 + unat u2) div (unat v1 * 65536 + unat v2)) 65535" by blast
  moreover have "unat ?n * 65536 + unat u2 = unat u0 * 4294967296 + unat u1 * 65536 + unat u2" using n by simp
  moreover have "v1 \<noteq> 0" using v1 by auto
  ultimately show ?thesis using False by (simp add: estimate_def udiv_def)
qed

section \<open>The rounds\<close>

lemma knuth_bounds:
  fixes u V w P lowU lowV :: nat
  assumes "U = u * P + lowU" "lowU < P" "V = w * P + lowV" "lowV < P" "U < V * 65536" "65536 \<le> w"
  shows "U div V \<le> min (u div w) 65535" "min (u div w) 65535 \<le> U div V + 1"
proof -
  let ?q = "U div V" and ?h = "min (u div w) 65535"
  have V: "0 < V" using assms(2,3,6) by simp
  have q: "?q < 65536" using assms(5) by (simp add: less_mult_imp_div_less mult.commute)
  have "?q * w * P \<le> ?q * V" unfolding assms(3) by (simp add: algebra_simps)
  also have "\<dots> \<le> U" by (simp add: div_times_less_eq_dividend)
  also have "\<dots> < (u + 1) * P" using assms(1,2) by simp
  finally have "?q * w < u + 1" by (rule mult_right_less_imp_less) simp
  then have "?q \<le> u div w" using assms(6) by (simp add: less_eq_div_iff_mult_less_eq)
  then show "?q \<le> ?h" using q by simp
  show "?h \<le> ?q + 1"
  proof (cases "?h = 0")
    case False
    have "?h * w \<le> u" using assms(6) by (metis div_times_less_eq_dividend le_trans min.cobounded1 mult_le_mono1)
    then have "?h * w * P \<le> U" using assms(1) by (metis le_add1 le_trans mult_le_mono1)
    moreover have "(?h - 1) * V \<le> (?h - 1) * ((w + 1) * P)" using assms(3,4) by (intro mult_le_mono2) simp
    moreover have "(?h - 1) * ((w + 1) * P) \<le> ?h * w * P"
    proof -
      have "?h \<le> w" using assms(6) by simp
      then have "(?h - 1) * (w + 1) \<le> ?h * w" using False by (cases ?h) simp_all
      then show ?thesis using mult_le_mono1 [of "(?h - 1) * (w + 1)" "?h * w" P] by (simp only: mult.assoc)
    qed
    ultimately have "(?h - 1) * V \<le> U" by linarith
    then have "?h - 1 \<le> ?q" using V by (simp add: less_eq_div_iff_mult_less_eq)
    then show ?thesis by simp
  qed simp
qed

lemma digits_unique:
  fixes D R a b P :: nat
  assumes "D + a * P = R + b * P" "D < P" "R < P"
  shows "D = R" "a = b"
proof -
  show "D = R" using assms by (metis mod_less mod_mult_self1)
  then show "a = b" using assms by simp
qed

lemma borrow_one:
  fixes D V R P :: nat
  assumes "D + V + u * P = R + t * P" "D < P" "V < P" "R < V"
  shows "t = u + 1" "D + V = R + P"
proof -
  have "u < t"
  proof (rule ccontr)
    assume "\<not> u < t"
    then have "t * P \<le> u * P" by simp
    then show False using assms by linarith
  qed
  moreover have "t < u + 2"
  proof (rule ccontr)
    assume "\<not> t < u + 2"
    then have "(u + 2) * P \<le> t * P" by (intro mult_right_mono) simp_all
    then show False using assms by (simp add: algebra_simps)
  qed
  ultimately show "t = u + 1" by simp
  then show "D + V = R + P" using assms(1) by simp
qed

lemma dval_set_head: "k < length p \<Longrightarrow> dval (p[k := x]) k (Suc n) = unat x * 65536 ^ n + dval p (k + 1) n"
  by (simp add: dval_head del: dval.simps)

lemma div_round_ok:
  assumes n: "2 \<le> n" "ub + n < length us" "vb + n < length vs" and v1: "32768 \<le> unat (vs ! (vb + 1))"
    and lt: "dval us ub (Suc n) < dval vs (vb + 1) n * 65536"
  shows "\<exists>q us'. div_round n ub vb us vs = Inr (q, us') \<and> length us' = length us \<and>
    unat q = dval us ub (Suc n) div dval vs (vb + 1) n \<and> dval us' ub (Suc n) = dval us ub (Suc n) mod dval vs (vb + 1) n \<and>
    (\<forall>i. i < ub \<or> ub + n < i \<longrightarrow> us' ! i = us ! i)"
proof -
  define U V where "U = dval us ub (Suc n)" and "V = dval vs (vb + 1) n"
  define u0 u1 u2 where u: "u0 = unat (us ! ub)" "u1 = unat (us ! (ub + 1))" "u2 = unat (us ! (ub + 2))"
  define w1 w2 where w: "w1 = unat (vs ! (vb + 1))" "w2 = unat (vs ! (vb + 2))"
  obtain k where k: "n = Suc (Suc k)" using n(1) by (metis Suc_le_D numeral_2_eq_2 Suc_le_mono)
  have U: "U = (u0 * 4294967296 + u1 * 65536 + u2) * 65536 ^ k + dval us (ub + 3) k"
    using dval_append [of us ub 3 k] by (simp add: U_def u k numeral_3_eq_3 numeral_2_eq_2 algebra_simps)
  have V: "V = (w1 * 65536 + w2) * 65536 ^ k + dval vs (vb + 3) k"
    using dval_append [of vs "vb + 1" 2 k] by (simp add: V_def w k numeral_3_eq_3 numeral_2_eq_2 algebra_simps)
  have U0: "U = u0 * 65536 ^ n + dval us (ub + 1) n" by (simp add: U_def u dval_head del: dval.simps)
  have lts: "u1 < 65536" "u2 < 65536" "w1 < 65536" "w2 < 65536" by (simp_all add: u w digit_lt)
  have Vn: "V < 65536 ^ n" unfolding V_def by (rule dval_lt)
  have lt': "U < V * 65536" using lt by (simp add: U_def V_def)
  have "u0 \<le> w1"
  proof -
    have "V < (w1 * 65536 + w2 + 1) * 65536 ^ k" unfolding V using dval_lt [of vs "vb + 3" k] by simp
    also have "\<dots> \<le> (w1 + 1) * 65536 * 65536 ^ k" using lts(4) by (intro mult_right_mono) simp_all
    finally have "V * 65536 < (w1 + 1) * 65536 * 65536 ^ k * 65536" by (rule mult_strict_right_mono) simp
    also have "\<dots> = (w1 + 1) * 65536 ^ n" by (simp only: k power_Suc mult.assoc mult.commute mult.left_commute)
    finally have "u0 * 65536 ^ n < (w1 + 1) * 65536 ^ n" using lt' U0 by linarith
    then have "u0 < w1 + 1" by (rule mult_right_less_imp_less) simp
    then show ?thesis by simp
  qed
  then obtain q where q: "estimate (ucast (us ! ub)) (ucast (us ! (ub + 1))) (ucast (us ! (ub + 2))) (ucast (vs ! (vb + 1))) (ucast (vs ! (vb + 2))) = Inr q"
    "unat q = min ((u0 * 4294967296 + u1 * 65536 + u2) div (w1 * 65536 + w2)) 65535"
    using estimate_ok [of "ucast (vs ! (vb + 1))" "ucast (vs ! (vb + 2))" "ucast (us ! ub)" "ucast (us ! (ub + 1))" "ucast (us ! (ub + 2))"] v1 lts
    by (auto simp: u w)
  have wb: "65536 \<le> w1 * 65536 + w2" using v1 w(1) by simp
  have qb: "U div V \<le> unat q" "unat q \<le> U div V + 1" "unat q < 65536"
    unfolding q(2) using knuth_bounds [OF U dval_lt V dval_lt lt' wb] by simp_all
  from mulsub_ok [OF n(2,3) qb(3), of 0] obtain t us1 where
    m: "mulsub n ub vb q 0 us vs = Inr (t, us1)" "length us1 = length us" "unat t < 65536" "\<And>i. i \<le> ub \<or> ub + n < i \<Longrightarrow> us1 ! i = us ! i"
      "dval us1 (ub + 1) n + V * unat q = dval us (ub + 1) n + unat t * 65536 ^ n" by (auto simp: V_def)
  have ds: "dval us1 (ub + 1) n < 65536 ^ n" by (rule dval_lt)
  define x where "x = (ucast (us ! ub) :: u32) - t"
  define us2 where "us2 = us1[ub := ucast (LHALF x)]"
  have V0: "0 < V" using V wb by (cases "w1 = 0") simp_all
  have reads: "div_round n ub vb us vs = (if HHALF x \<noteq> 0 then sbind (addback n ub vb 0 us2 vs) (\<lambda>(t, us). sbind (digit_at us ub) (\<lambda>x.
      sbind (set_digit us ub (LHALF (x + t))) (\<lambda>us. Inr (q - 1, us)))) else Inr (q, us2))"
    using n q(1) m(1,2) m(4) [of ub] by (simp add: div_round_def digit_at_ok set_digit_ok x_def us2_def Let_def)
  have eqn: "dval us1 (ub + 1) n + V * unat q + u0 * 65536 ^ n = U + unat t * 65536 ^ n" using m(5) U0 by simp
  have qr: "U = V * (U div V) + U mod V" by simp
  have R: "U mod V < V" "U mod V < 65536 ^ n" using V0 Vn by (simp_all add: less_trans [OF mod_less_divisor])
  from qb(1,2) consider "unat q = U div V" | "unat q = U div V + 1" by linarith
  then have "\<exists>r us'. div_round n ub vb us vs = Inr (r, us') \<and> length us' = length us \<and> unat r = U div V \<and> dval us' ub (Suc n) = U mod V \<and>
    (\<forall>i. i < ub \<or> ub + n < i \<longrightarrow> us' ! i = us ! i)"
  proof cases
    case 1
    have "dval us1 (ub + 1) n + u0 * 65536 ^ n = U mod V + unat t * 65536 ^ n" using eqn qr unfolding 1 by linarith
    note e = digits_unique [OF this ds R(2)]
    have "ucast (us ! ub) = t" using e(2) by (simp add: u word_unat_eq_iff)
    then have "x = 0" by (simp add: x_def)
    then have "div_round n ub vb us vs = Inr (q, us2)" "us2 = us1[ub := 0]" by (simp_all add: reads us2_def HHALF_def LHALF_def)
    moreover have "dval (us1[ub := 0]) ub (Suc n) = U mod V" using n m(2) e(1) by (simp add: dval_set_head del: dval.simps)
    ultimately show ?thesis using 1 m(2,4) n by (auto simp: nth_list_update)
  next
    case 2
    have d: "dval us1 (ub + 1) n + V + u0 * 65536 ^ n = U mod V + unat t * 65536 ^ n"
      using eqn qr unfolding 2 by (simp only: distrib_left mult_1_right)
    have tb: "unat t = u0 + 1" "dval us1 (ub + 1) n + V = U mod V + 65536 ^ n" using borrow_one [OF d ds Vn R(1)] by simp_all
    have "x = - 1"
    proof -
      have "t = ucast (us ! ub) + 1" using tb(1) m(3) by (simp add: u word_unat_eq_iff unat_word_ariths)
      then show ?thesis by (simp add: x_def)
    qed
    then have h: "HHALF x \<noteq> 0" "LHALF x = 65535" by (simp_all add: HHALF_def LHALF_def drop_bit_eq_div)
    have us2: "length us2 = length us" "us2 ! ub = 65535" "dval us2 (ub + 1) n = dval us1 (ub + 1) n" "\<And>i. i < ub \<or> ub + n < i \<Longrightarrow> us2 ! i = us ! i"
      using n m(2,4) h(2) by (auto simp: us2_def nth_list_update)
    from addback_ok [of ub n us2 vb vs 0] n us2(1,3) obtain t2 us3 where
      a: "addback n ub vb 0 us2 vs = Inr (t2, us3)" "length us3 = length us" "\<And>i. i \<le> ub \<or> ub + n < i \<Longrightarrow> us3 ! i = us2 ! i"
        "dval us3 (ub + 1) n + unat t2 * 65536 ^ n = dval us1 (ub + 1) n + V" by (auto simp: V_def)
    have "dval us3 (ub + 1) n + unat t2 * 65536 ^ n = U mod V + 1 * 65536 ^ n" using a(4) tb(2) by simp
    note e = digits_unique [OF this dval_lt R(2)]
    have "t2 = 1" using e(2) by (simp add: word_unat_eq_iff)
    then have "div_round n ub vb us vs = Inr (q - 1, us3[ub := 0])"
      using h n a us2 by (simp add: reads digit_at_ok set_digit_ok LHALF_def)
    moreover have "unat (q - 1) = U div V" using 2 unat_minus_one [of q] by (cases "q = 0") simp_all
    moreover have "dval (us3[ub := 0]) ub (Suc n) = U mod V" using n a(2) e(1) by (simp add: dval_set_head del: dval.simps)
    ultimately show ?thesis using a(2,3) us2(4) n by (auto simp: nth_list_update)
  qed
  then show ?thesis unfolding U_def V_def .
qed

lemma step_div:
  fixes U V P r :: nat
  assumes "X = U * P + r" "X' = U mod V * P + r" "0 < V"
  shows "X div V = U div V * P + X' div V" "X mod V = X' mod V"
proof -
  define d m where dm: "d = U div V" "m = U mod V"
  have "U = d * V + m" unfolding dm by (simp only: div_mult_mod_eq)
  then have e: "X = X' + U div V * P * V" unfolding assms(1,2) dm [symmetric] by (simp add: algebra_simps)
  show "X div V = U div V * P + X' div V" unfolding e using assms(3) by simp
  show "X mod V = X' mod V" unfolding e by simp
qed

lemma round_bounds:
  fixes U V P r :: nat
  assumes "U * P + r < V * (P * 65536)" "r < P"
  shows "U < V * 65536" and "U mod V * P + r < V * P"
proof -
  have "U * P < V * (P * 65536)" using assms(1) by linarith
  also have "\<dots> = V * 65536 * P" by (simp only: mult.assoc mult.commute mult.left_commute)
  finally have "U * P < V * 65536 * P" .
  then show "U < V * 65536" by (rule mult_right_less_imp_less) simp
  then have "U mod V + 1 \<le> V" by (simp add: Suc_leI gr0I)
  then have "(U mod V + 1) * P \<le> V * P" by (rule mult_right_mono) simp
  then show "U mod V * P + r < V * P" using assms(2) by simp
qed

lemma dval_small: "dval p b (Suc n) < 65536 ^ n \<Longrightarrow> p ! b = 0 \<and> dval p (b + 1) n = dval p b (Suc n)"
proof -
  assume a: "dval p b (Suc n) < 65536 ^ n"
  have h: "dval p b (Suc n) = unat (p ! b) * 65536 ^ n + dval p (b + 1) n" by (simp add: dval_head del: dval.simps)
  have "unat (p ! b) = 0" using a unfolding h by (cases "unat (p ! b)") simp_all
  then show ?thesis unfolding h by (simp add: unat_eq_0)
qed

lemma div_loop_ok:
  assumes "2 \<le> n" "ub + j + n + k \<le> length us" "vb + n < length vs" "qb + j + k \<le> length qs" "32768 \<le> unat (vs ! (vb + 1))"
    "dval us (ub + j) (n + k) < dval vs (vb + 1) n * 65536 ^ k"
  shows "\<exists>us' qs'. div_loop k j n ub vb qb us vs qs = Inr (us', qs') \<and> length us' = length us \<and> length qs' = length qs \<and>
    dval qs' (qb + j) k = dval us (ub + j) (n + k) div dval vs (vb + 1) n \<and>
    dval us' (ub + j) (n + k) = dval us (ub + j) (n + k) mod dval vs (vb + 1) n \<and>
    (\<forall>i < ub + j. us' ! i = us ! i) \<and> (\<forall>i. i < qb + j \<or> qb + j + k \<le> i \<longrightarrow> qs' ! i = qs ! i)"
  using assms(2,4,6)
proof (induction k arbitrary: j us qs)
  case 0
  then show ?case by simp
next
  case (Suc k)
  let ?V = "dval vs (vb + 1) n"
  have V0: "0 < ?V" using Suc.prems(3) by (cases ?V) simp_all
  have Vn: "?V < 65536 ^ n" by (rule dval_lt)
  have X: "dval us (ub + j) (n + Suc k) = dval us (ub + j) (Suc n) * 65536 ^ k + dval us (ub + j + Suc n) k"
    using dval_append [of us "ub + j" "Suc n" k] by (simp del: dval.simps)
  note b = round_bounds [OF Suc.prems(3) [unfolded X power_Suc mult.commute [of 65536]] dval_lt]
  from div_round_ok [OF assms(1) _ assms(3,5) b(1)] Suc.prems(1) obtain q us1 where
    r: "div_round n (ub + j) vb us vs = Inr (q, us1)" "length us1 = length us" "unat q = dval us (ub + j) (Suc n) div ?V"
      "dval us1 (ub + j) (Suc n) = dval us (ub + j) (Suc n) mod ?V" "\<And>i. i < ub + j \<or> ub + j + n < i \<Longrightarrow> us1 ! i = us ! i"
    by (auto simp del: dval.simps)
  have q: "unat q < 65536" unfolding r(3) using b(1) by (simp add: less_mult_imp_div_less mult.commute del: dval.simps)
  have R: "dval us1 (ub + j) (Suc n) < 65536 ^ n" unfolding r(4) using V0 Vn less_trans mod_less_divisor by blast
  note z = dval_small [OF R]
  have X': "dval us1 (ub + (j + 1)) (n + k) = dval us (ub + j) (Suc n) mod ?V * 65536 ^ k + dval us (ub + j + Suc n) k"
  proof -
    have "dval us1 (ub + j + 1 + n) k = dval us (ub + j + Suc n) k" using r(5) by (auto intro: dval_cong)
    then show ?thesis using dval_append [of us1 "ub + j + 1" n k] z r(4) by (simp add: add.assoc del: dval.simps)
  qed
  define qs1 where "qs1 = qs[qb + j := ucast q]"
  have "dval us1 (ub + (j + 1)) (n + k) < ?V * 65536 ^ k" using b(2) unfolding X' .
  from Suc.IH [OF _ _ this, of qs1] Suc.prems(1,2) r(2) obtain us2 qs2 where
    l: "div_loop k (j + 1) n ub vb qb us1 vs qs1 = Inr (us2, qs2)" "length us2 = length us" "length qs2 = length qs"
      "dval qs2 (qb + (j + 1)) k = dval us1 (ub + (j + 1)) (n + k) div ?V" "dval us2 (ub + (j + 1)) (n + k) = dval us1 (ub + (j + 1)) (n + k) mod ?V"
      "\<forall>i < ub + (j + 1). us2 ! i = us1 ! i" "\<forall>i. i < qb + (j + 1) \<or> qb + (j + 1) + k \<le> i \<longrightarrow> qs2 ! i = qs1 ! i"
    by (auto simp: qs1_def simp del: dval.simps)
  note s = step_div [OF X X' V0]
  have "unat (qs2 ! (qb + j)) = dval us (ub + j) (Suc n) div ?V"
    using l(7) Suc.prems(2) q r(3) by (simp add: qs1_def unat_to_digit del: dval.simps)
  then have "dval qs2 (qb + j) (Suc k) = dval us (ub + j) (n + Suc k) div ?V" using l(4) s(1) by (simp add: dval_head del: dval.simps)
  moreover have "us2 ! (ub + j) = 0" using l(6) z by simp
  then have "dval us2 (ub + j) (n + Suc k) = dval us (ub + j) (n + Suc k) mod ?V"
    using l(5) s(2) by (simp add: dval_head [of us2 "ub + j"] del: dval.simps)
  moreover have "div_loop (Suc k) j n ub vb qb us vs qs = Inr (us2, qs2)" using Suc.prems(2) r(1) l(1) by (simp add: set_digit_ok qs1_def)
  moreover have "\<forall>i < ub + j. us2 ! i = us ! i" using l(6) r(5) by simp
  moreover have "\<forall>i. i < qb + j \<or> qb + j + Suc k \<le> i \<longrightarrow> qs2 ! i = qs ! i" using l(7) by (auto simp: qs1_def)
  ultimately show ?case using l(2,3) by blast
qed

section \<open>The digits of the operands\<close>

lemma clear_q_ok:
  assumes "k \<le> length qs"
  shows "\<exists>qs'. clear_q qs k = Inr qs' \<and> length qs' = length qs \<and> (\<forall>i < k. qs' ! i = 0)"
proof -
  have "\<exists>qs'. clear_q qs k = Inr qs' \<and> length qs' = length qs \<and> (\<forall>i < k. qs' ! i = 0) \<and> (\<forall>i \<ge> k. qs' ! i = qs ! i)"
    using assms
  proof (induction k arbitrary: qs)
    case (Suc k)
    from Suc.IH [of "qs[k := 0]"] Suc.prems obtain qs' where
      "clear_q (qs[k := 0]) k = Inr qs'" "length qs' = length qs" "\<forall>i < k. qs' ! i = 0" "\<forall>i \<ge> k. qs' ! i = qs[k := 0] ! i" by auto
    then show ?case using Suc.prems by (auto simp: set_digit_ok less_Suc_eq)
  qed simp
  then show ?thesis by blast
qed

lemma unat_parts: "unat x = unat (ui_H x) * 4294967296 + unat (ui_L x)"
proof -
  have "int (unat x) = int (unat (ui_H x) * 4294967296 + unat (ui_L x))" using uint_parts [of x] by simp
  then show ?thesis by (simp only: of_nat_eq_iff)
qed

lemma dval_four: "dval p 1 4 = ((unat (p ! 1) * 65536 + unat (p ! 2)) * 65536 + unat (p ! 3)) * 65536 + unat (p ! 4)"
proof -
  have "4 = Suc (Suc (Suc (Suc 0)))" "2 = Suc (Suc 0)" "3 = Suc (Suc (Suc 0))" by simp_all
  then show ?thesis by (simp only: dval.simps One_nat_def add_Suc add_Suc_right add_0_right add_0_left mult_0)
qed

lemma to_digits_ok: "length (to_digits x0 x) = 5" "to_digits x0 x ! 0 = x0" "dval (to_digits x0 x) 1 4 = unat x"
proof -
  have m: "unat y div 65536 mod 65536 = unat y div 65536" for y :: u32 using word_lt [of y] by simp
  have "dval (to_digits x0 x) 1 4 = unat (ui_H x) * 4294967296 + unat (ui_L x)"
    unfolding dval_four using div_mult_mod_eq [of "unat (ui_H x)" 65536] div_mult_mod_eq [of "unat (ui_L x)" 65536]
    by (simp add: to_digits_def unat_to_digit unat_halves m)
  then show "dval (to_digits x0 x) 1 4 = unat x" by (simp only: unat_parts)
qed (simp_all add: to_digits_def)

lemma from_digits_ok: "length p = 5 \<Longrightarrow> \<exists>x. from_digits p = Inr x \<and> unat x = dval p 1 4"
  unfolding dval_four by (simp add: from_digits_def digit_at_ok unat_uu unat_COMBINE digit_lt)

lemma from_digits_all:
  assumes "length p = 5" "dval p 0 5 = unat (x :: u64)"
  shows "from_digits p = Inr x"
proof -
  have "dval p 0 (Suc 4) < 65536 ^ 4" using assms(2) unsigned_less [of x] by simp
  from dval_small [OF this] have "dval p 1 4 = unat x" using assms(2) by simp
  then show ?thesis using from_digits_ok [OF assms(1)] by (auto simp: word_unat_eq_iff)
qed

lemma dval_skip:
  assumes "\<And>i. i < b \<Longrightarrow> p ! i = 0"
  shows "dval p 0 (b + n) = dval p b n"
  using dval_append [of p 0 b n] dval_zero [of 0 b p] assms by simp

lemma dval_top_zero:
  assumes "dval p b (k + n) < 65536 ^ n"
  shows "dval p (b + k) n = dval p b (k + n)" "i < k \<Longrightarrow> p ! (b + i) = 0"
proof -
  have z: "dval p b k = 0" using assms unfolding dval_append by (cases "dval p b k") simp_all
  then show "dval p (b + k) n = dval p b (k + n)" by (simp add: dval_append)
  show "i < k \<Longrightarrow> p ! (b + i) = 0" using z by (induction k) (auto simp: less_Suc_eq unat_eq_0)
qed

lemma skip_v_ok:
  assumes "length vs = 5" "vo + n = 4" "2 \<le> n"
  shows "skip_v vs vo n = Inr None \<and> (\<forall>i. vo < i \<and> i < 4 \<longrightarrow> vs ! i = 0) \<or>
    (\<exists>vo' n'. skip_v vs vo n = Inr (Some (vo', n')) \<and> vo \<le> vo' \<and> vo' + n' = 4 \<and> 2 \<le> n' \<and> vs ! (vo' + 1) \<noteq> 0 \<and> (\<forall>i. vo < i \<and> i \<le> vo' \<longrightarrow> vs ! i = 0))"
  using assms
proof (induction vs vo n rule: skip_v.induct)
  case (1 vs vo n)
  have l: "vo + 1 < length vs" using 1(2-4) by simp
  show ?case
  proof (cases "vs ! (vo + 1) = 0")
    case True
    show ?thesis
    proof (cases "n - 1 = 1")
      case n1: True
      then have "vo < i \<and> i < 4 \<Longrightarrow> i = vo + 1" for i using 1(3) by auto
      then have "\<forall>i. vo < i \<and> i < 4 \<longrightarrow> vs ! i = 0" using True by blast
      then show ?thesis using True n1 l by (simp add: skip_v.simps [of vs vo])
    next
      case False
      have "skip_v vs vo n = skip_v vs (vo + 1) (n - 1)" using True False l by (simp add: skip_v.simps [of vs vo])
      moreover have z: "\<forall>i. vo < i \<and> P i \<longrightarrow> vs ! i = 0" if "\<forall>i. vo + 1 < i \<and> P i \<longrightarrow> vs ! i = 0" for P
        using True that by (metis Suc_eq_plus1 Suc_lessI)
      have "vo + 1 + (n - 1) = 4" "2 \<le> n - 1" using 1(3,4) False by simp_all
      from 1(1) [OF l True False 1(2) this] consider
          "skip_v vs (vo + 1) (n - 1) = Inr None" "\<forall>i. vo + 1 < i \<and> i < 4 \<longrightarrow> vs ! i = 0"
        | vo' n' where "skip_v vs (vo + 1) (n - 1) = Inr (Some (vo', n'))" "vo + 1 \<le> vo'" "vo' + n' = 4" "2 \<le> n'" "vs ! (vo' + 1) \<noteq> 0"
            "\<forall>i. vo + 1 < i \<and> i \<le> vo' \<longrightarrow> vs ! i = 0" by blast
      then show ?thesis
      proof cases
        case 1
        then show ?thesis using calculation z [OF 1(2)] by simp
      next
        case 2
        then show ?thesis using calculation z [OF 2(6)] by simp
      qed
    qed
  next
    case False
    then have "skip_v vs vo n = Inr (Some (vo, n))" using l by (simp add: skip_v.simps [of vs vo])
    then show ?thesis using False 1 by auto
  qed
qed

lemma skip_u_ok:
  assumes "uo < x" "x < length us" "us ! x \<noteq> 0"
  shows "\<exists>k. skip_u us uo m = Inr (uo + k, m - int k) \<and> uo + k < x \<and> us ! (uo + k + 1) \<noteq> 0 \<and> (\<forall>i. uo < i \<and> i \<le> uo + k \<longrightarrow> us ! i = 0)"
  using assms
proof (induction us uo m rule: skip_u.induct)
  case (1 us uo m)
  have l: "uo + 1 < length us" using 1(2,3) by simp
  show ?case
  proof (cases "us ! (uo + 1) = 0")
    case True
    then have "uo + 1 < x" using 1(2,4) by (metis Suc_eq_plus1 Suc_lessI)
    from 1(1) [OF l True this 1(3,4)] obtain k where
      k: "skip_u us (uo + 1) (m - 1) = Inr (uo + 1 + k, m - 1 - int k)" "uo + 1 + k < x" "us ! (uo + 1 + k + 1) \<noteq> 0" "\<forall>i. uo + 1 < i \<and> i \<le> uo + 1 + k \<longrightarrow> us ! i = 0" by blast
    have "\<forall>i. uo < i \<and> i \<le> uo + Suc k \<longrightarrow> us ! i = 0" using k(4) True by (metis Suc_eq_plus1 Suc_lessI add_Suc_right add_Suc)
    moreover have "skip_u us uo m = Inr (uo + Suc k, m - int (Suc k))" using k(1) True l by (simp add: skip_u.simps [of us uo])
    moreover have "uo + Suc k < x" "us ! (uo + Suc k + 1) \<noteq> 0" using k(2,3) by simp_all
    ultimately show ?thesis by blast
  next
    case False
    then have "skip_u us uo m = Inr (uo + 0, m - int 0)" using l by (simp add: skip_u.simps [of us uo])
    then show ?thesis using False 1(2) by (intro exI [of _ 0]) auto
  qed
qed

section \<open>The whole division\<close>

text \<open>After D1 both numbers are multiplied by a power of two and the first digit of the divisor is at least \<^verbatim>\<open>B/2\<close>.\<close>

lemma normalise_ok:
  assumes us: "uo + l < length us" "us ! uo = 0" and vs: "b + k < length vs" "unat (vs ! b) * 2 ^ d < 65536" "32768 \<le> unat (vs ! b) * 2 ^ d"
  shows "\<exists>us' vs'. (if 0 < d then sbind (shl us uo l d) (\<lambda>us. sbind (shl vs b k d) (\<lambda>vs. Inr (us, vs))) else Inr (us, vs)) = Inr (us', vs') \<and>
    length us' = length us \<and> length vs' = length vs \<and> dval us' uo (Suc l) = dval us uo (Suc l) * 2 ^ d \<and>
    dval vs' b (Suc k) = dval vs b (Suc k) * 2 ^ d \<and> 32768 \<le> unat (vs' ! b) \<and> (\<forall>i < uo. us' ! i = us ! i)"
proof (cases "0 < d")
  case True
  have d: "d < 16" by (rule shift_lt [OF _ vs(2)]) (use vs(3) in \<open>cases "unat (vs ! b)"; simp\<close>)
  from shl_ok [OF us(1) True d] us(2) obtain us' where
    u: "shl us uo l d = Inr us'" "length us' = length us" "\<forall>i. i < uo \<or> uo + l < i \<longrightarrow> us' ! i = us ! i" "dval us' uo (Suc l) = dval us uo (Suc l) * 2 ^ d"
    by (auto simp del: dval.simps)
  have "unat (vs ! b) < 2 ^ (16 - d)"
  proof -
    have "unat (vs ! b) * 2 ^ d < 2 ^ (16 - d) * 2 ^ d" using vs(2) pow_split [of d] d by (simp add: mult.commute)
    then show ?thesis by (rule mult_right_less_imp_less) simp
  qed
  with shl_ok [OF vs(1) True d] obtain vs' where
    v: "shl vs b k d = Inr vs'" "length vs' = length vs" "dval vs' b (Suc k) = dval vs b (Suc k) * 2 ^ d" by (auto simp del: dval.simps)
  have "32768 * 65536 ^ k < (unat (vs' ! b) + 1) * 65536 ^ k"
  proof -
    have "32768 * 65536 ^ k \<le> unat (vs ! b) * 2 ^ d * 65536 ^ k" using vs(3) by (rule mult_right_mono) simp
    also have "\<dots> \<le> dval vs b (Suc k) * 2 ^ d" by (simp add: dval_head algebra_simps del: dval.simps)
    also have "\<dots> = unat (vs' ! b) * 65536 ^ k + dval vs' (Suc b) k" unfolding v(3) [symmetric] by (simp only: dval_head)
    also have "\<dots> < (unat (vs' ! b) + 1) * 65536 ^ k" using dval_lt [of vs' "Suc b" k] by simp
    finally show ?thesis .
  qed
  then have "32768 < unat (vs' ! b) + 1" by (rule mult_right_less_imp_less) simp
  then show ?thesis using True u v by (simp del: dval.simps)
qed (use vs in simp)

lemma remainder_ok:
  assumes us: "length us = 5" "uo + m + n = 4" "\<forall>i < uo. us ! i = 0" and R: "dval us uo (m + Suc n) = unat (R :: u64) * 2 ^ d" "unat R < 65536 ^ n" and d: "d < 16"
  shows "sbind (if 0 < d then shr_rem n (uo + m) d us else Inr us) from_digits = Inr R"
proof (cases "0 < d")
  case True
  have "unat R * 2 ^ d < 65536 ^ n * 2 ^ d" using R(2) by simp
  also have "\<dots> \<le> 65536 ^ n * 65536"
  proof -
    have "(2 :: nat) ^ d \<le> 2 ^ 16" using d by (intro power_increasing) simp_all
    then show ?thesis by simp
  qed
  finally have "dval us uo (m + Suc n) < 65536 ^ Suc n" unfolding R(1) by (simp add: mult.commute)
  note z = dval_top_zero [OF this]
  have "unat (us ! (uo + m)) * 65536 ^ n \<le> dval us (uo + m) (Suc n)" by (simp add: dval_head del: dval.simps)
  also have "\<dots> < 2 ^ d * 65536 ^ n" using R z(1) by (simp add: mult.commute del: dval.simps)
  finally have "unat (us ! (uo + m)) < 2 ^ d" by (rule mult_right_less_imp_less) simp
  from shr_ok [OF _ True d this, of n] us obtain us' where
    s: "shr_rem n (uo + m) d us = Inr us'" "length us' = 5" "us' ! (uo + m) = 0" "\<forall>i < uo + m. us' ! i = us ! i"
      "dval us' (uo + m + 1) n * 2 ^ d + unat (us ! (uo + m + n)) mod 2 ^ d = unat R * 2 ^ d" using R(1) z(1) by (auto simp del: dval.simps)
  have "dval us' (uo + m + 1) n = unat R"
    by (rule digits_unique(2) [of "unat (us ! (uo + m + n)) mod 2 ^ d" _ "2 ^ d" 0]) (use s(5) in simp_all)
  moreover have "us' ! i = 0" if "i < uo + m + 1" for i
    using that s(3,4) us(3) z(2) [of "i - uo"] by (cases "i = uo + m"; cases "i < uo") auto
  ultimately have "dval us' 0 5 = unat R" using dval_skip [of "uo + m + 1" us' n] us(2) by simp
  then show ?thesis using True s(1,2) by (simp add: from_digits_all)
next
  case False
  have e: "uo + (m + Suc n) = 5" using us(2) by simp
  have "dval us 0 5 = unat R" using dval_skip [of uo us "m + Suc n"] us(3) R(1) False unfolding e by simp
  then show ?thesis using False us(1) by (simp add: from_digits_all)
qed

text \<open>The digits of the dividend, once the leading zeros are skipped.\<close>

lemma dividend_digits:
  assumes us: "length us = 5" "us ! 0 = 0" "dval us 1 4 = unat (u :: u64)" and n: "0 < n" "65536 ^ (n - 1) \<le> unat u"
  shows "\<exists>uo m. skip_u us 0 (4 - int n) = Inr (uo, int m) \<and> uo + m + n = 4 \<and> (\<forall>i \<le> uo. us ! i = 0) \<and>
    dval us uo (Suc (m + n)) = unat u \<and> unat u < 65536 ^ (m + n)"
proof -
  have "unat u \<noteq> 0" using n(2) by (metis le_zero_eq power_not_zero zero_neq_numeral)
  then have "\<not> (\<forall>i. 1 \<le> i \<and> i < 1 + 4 \<longrightarrow> us ! i = 0)" using dval_zero [of 1 4 us] us(3) by auto
  then obtain x where x: "1 \<le> x" "x < 5" "us ! x \<noteq> 0" by auto
  from skip_u_ok [of 0 x us "4 - int n"] x us(1) obtain uo where
    uo: "skip_u us 0 (4 - int n) = Inr (uo, 4 - int n - int uo)" "uo < x" "\<forall>i \<le> uo. us ! i = 0"
    using us(2) by (auto simp: le_eq_less_or_eq) (metis gr0I less_imp_le_nat)
  have "dval us 0 5 = unat u" using dval_head [of us 0 4] us(2,3) by (simp del: dval.simps)
  then have N: "dval us uo (5 - uo) = unat u" "unat u < 65536 ^ (4 - uo)"
    using dval_skip [of uo us "5 - uo"] dval_skip [of "uo + 1" us "4 - uo"] dval_lt [of us "uo + 1" "4 - uo"] uo(2,3) x(2) by simp_all
  have "(65536 :: nat) ^ (n - 1) < 65536 ^ (4 - uo)" using n(2) N(2) by linarith
  then have "n - 1 < 4 - uo" by (simp only: power_strict_increasing_iff one_less_numeral_iff semiring_norm)
  then have m: "uo + (4 - uo - n) + n = 4" using n(1) by simp
  then have e: "5 - uo = Suc (4 - uo - n + n)" "4 - uo = 4 - uo - n + n" "4 - int n - int uo = int (4 - uo - n)" by simp_all
  show ?thesis
  proof (intro exI conjI)
    show "skip_u us 0 (4 - int n) = Inr (uo, int (4 - uo - n))" using uo(1) unfolding e(3) .
    show "dval us uo (Suc (4 - uo - n + n)) = unat u" using N(1) unfolding e(1) .
    show "unat u < 65536 ^ (4 - uo - n + n)" using N(2) e(2) by simp
  qed (use m uo(3) in simp_all)
qed

text \<open>The main loop on the normalised numbers.\<close>

lemma normalised_div:
  assumes u: "length us = 5" "uo + m + n = 4" "dval us uo (Suc (m + n)) = unat (u :: u64) * 2 ^ d" "unat u < unat v * 65536 ^ (m + 1)"
    and v: "length vs = 5" "vo + n = 4" "2 \<le> n" "32768 \<le> unat (vs ! (vo + 1))" "dval vs (vo + 1) n = unat (v :: u64) * 2 ^ d"
    and qs: "length qs = 5" "\<forall>i < 4 - m. qs ! i = 0"
  shows "\<exists>us' qs'. div_loop (m + 1) 0 n uo vo (4 - m) us vs qs = Inr (us', qs') \<and> length us' = 5 \<and> (\<forall>i < uo. us' ! i = us ! i) \<and>
    from_digits qs' = Inr (u div v) \<and> dval us' uo (m + Suc n) = unat (u mod v) * 2 ^ d"
proof -
  have U: "dval us (uo + 0) (n + (m + 1)) = unat u * 2 ^ d" using u(3) by (simp add: add.commute)
  then have lt: "dval us (uo + 0) (n + (m + 1)) < dval vs (vo + 1) n * 65536 ^ (m + 1)" using u(4) unfolding U v(5) by (simp add: ac_simps)
  have len: "uo + 0 + n + (m + 1) \<le> length us" "vo + n < length vs" "4 - m + 0 + (m + 1) \<le> length qs" using u(1,2) v(1,2) qs(1) by simp_all
  from div_loop_ok [OF v(3) len v(4) lt, unfolded add_0_right U [unfolded add_0_right] v(5) u(1) qs(1)] obtain us2 qs2 where
    l: "div_loop (m + 1) 0 n uo vo (4 - m) us vs qs = Inr (us2, qs2)" "length us2 = 5" "length qs2 = 5"
      "dval qs2 (4 - m) (m + 1) = unat u * 2 ^ d div (unat v * 2 ^ d)" "dval us2 uo (n + (m + 1)) = unat u * 2 ^ d mod (unat v * 2 ^ d)"
      "\<forall>i < uo. us2 ! i = us ! i" "\<forall>i < 4 - m. qs2 ! i = qs ! i"
    by blast
  have e: "4 - m + (m + 1) = 5" "n + (m + 1) = m + Suc n" using u(2) by simp_all
  have "dval qs2 0 5 = dval qs2 (4 - m) (m + 1)" using dval_skip [of "4 - m" qs2 "m + 1"] l(7) qs(2) unfolding e(1) by simp
  also have "\<dots> = unat (u div v)" unfolding l(4) unat_div by (rule div_mult_mult2) simp
  finally have "from_digits qs2 = Inr (u div v)" by (rule from_digits_all [OF l(3)])
  moreover have "dval us2 uo (m + Suc n) = unat (u mod v) * 2 ^ d" using l(5) unfolding e(2) unat_mod mod_mult_mult2 .
  ultimately show ?thesis using l(1,2,6) by blast
qed

lemma long_div_ok:
  assumes us: "length us = 5" "us ! 0 = 0" "dval us 1 4 = unat (u :: u64)"
    and vs: "length vs = 5" "vo + n = 4" "2 \<le> n" "vs ! (vo + 1) \<noteq> 0" "dval vs (vo + 1) n = unat (v :: u64)"
    and qs: "length qs = 5" and le: "v \<le> u"
  shows "long_div arq vo n us vs qs = Inr (u div v, if arq then Some (u mod v) else None)"
proof -
  obtain k where k: "n = Suc k" using vs(3) by (cases n) simp_all
  have le': "unat v \<le> unat u" using le by (simp add: word_le_nat_alt)
  have v1: "0 < unat (vs ! (vo + 1))" "unat (vs ! (vo + 1)) < 65536" using vs(4) by (simp_all add: unat_gt_0 digit_lt)
  have vk: "65536 ^ k \<le> unat v" using v1 by (simp add: vs(5) [symmetric] k dval_head trans_le_add1 del: dval.simps)
  from dividend_digits [OF us, of n] vk le' k obtain uo m where
    uo: "skip_u us 0 (4 - int n) = Inr (uo, int m)" "uo + m + n = 4" "\<forall>i \<le> uo. us ! i = 0" "dval us uo (Suc (m + n)) = unat u" "unat u < 65536 ^ (m + n)"
    by (auto simp del: dval.simps)
  have "4 - m \<le> length qs" using qs by simp
  from clear_q_ok [OF this] qs obtain qs1 where q1: "clear_q qs (4 - m) = Inr qs1" "length qs1 = 5" "\<forall>i < 4 - m. qs1 ! i = 0" by auto
  from find_shift_ok [of "ucast (vs ! (vo + 1))" 0] v1 obtain d where
    d: "find_shift (ucast (vs ! (vo + 1))) 0 = Some d" "32768 \<le> unat (vs ! (vo + 1)) * 2 ^ d" "unat (vs ! (vo + 1)) * 2 ^ d < 65536" by auto
  from normalise_ok [of uo "m + n" us "vo + 1" "n - 1" vs d] us(1) uo(2,3) vs(1,2,3) d(2,3) obtain us1 vs1 where
    s: "(if 0 < d then sbind (shl us uo (m + n) d) (\<lambda>us. sbind (shl vs (vo + 1) (n - 1) d) (\<lambda>vs. Inr (us, vs))) else Inr (us, vs)) = Inr (us1, vs1)"
      "length us1 = 5" "length vs1 = 5" "dval us1 uo (Suc (m + n)) = unat u * 2 ^ d"
      "dval vs1 (vo + 1) n = unat v * 2 ^ d" "32768 \<le> unat (vs1 ! (vo + 1))" "\<forall>i < uo. us1 ! i = 0"
    using uo(4) vs(5) by (auto simp: k simp del: dval.simps)
  have "(65536 :: nat) ^ (m + n) \<le> unat v * 65536 ^ (m + 1)" using mult_right_mono [OF vk, of "65536 ^ (m + 1)"] by (simp add: k power_add)
  then have "unat u < unat v * 65536 ^ (m + 1)" using uo(5) by linarith
  from normalised_div [OF s(2) uo(2) s(4) this s(3) vs(2,3) s(6,5) q1(2,3)] obtain us2 qs2 where
    l: "div_loop (m + 1) 0 n uo vo (4 - m) us1 vs1 qs1 = Inr (us2, qs2)" "length us2 = 5" "\<forall>i < uo. us2 ! i = us1 ! i"
      "from_digits qs2 = Inr (u div v)" "dval us2 uo (m + Suc n) = unat (u mod v) * 2 ^ d" by blast
  have "0 < unat v" using vk by (metis gr0I le_zero_eq power_not_zero zero_neq_numeral)
  then have "unat (u mod v) < unat v" by (simp add: unat_mod)
  also have "\<dots> < 65536 ^ n" unfolding vs(5) [symmetric] by (rule dval_lt)
  finally have R: "sbind (if 0 < d then shr_rem n (uo + m) d us2 else Inr us2) from_digits = Inr (u mod v)"
    using remainder_ok [OF l(2) uo(2) _ l(5) _ shift_lt [OF v1(1) d(3)]] l(3) s(7) by simp
  have dig: "digit_at vs (vo + 1) = Inr (ucast (vs ! (vo + 1)))" using vs(1,2,3) by (simp add: digit_at_ok)
  have "sbind (if 0 < d then shr_rem n (uo + m) d us2 else Inr us2) (\<lambda>us. sbind (from_digits us) (\<lambda>r. Inr (Some r))) = Inr (Some (u mod v))"
    using R by (simp add: sbind_assoc [symmetric])
  then show ?thesis
    unfolding long_div_def by (simp only: uo(1) sbind.simps prod.case Let_def nat_int q1(1) dig d(1) option.case s(1) l(1,4)) simp
qed

lemma short_step:
  assumes t: "0 < unat t" "unat t < 65536" and y: "unat y < 65536" and r: "unat r = U mod unat t"
  shows "unat (COMBINE r y mod t) = (U * 65536 + unat y) mod unat t"
    "unat (LHALF (COMBINE r y div t)) < 65536"
    "(U * 65536 + unat y) div unat t = U div unat t * 65536 + unat (LHALF (COMBINE r y div t))"
proof -
  have rt: "unat r < unat t" using t(1) by (simp add: r)
  have c: "unat (COMBINE r y) = U mod unat t * 65536 + unat y" using unat_COMBINE [of r y] rt t(2) y by (simp add: r)
  have "unat (COMBINE r y) < unat t * 65536" unfolding c using rt y by (simp add: r)
  then have "unat (COMBINE r y div t) < 65536" by (simp add: unat_div less_mult_imp_div_less mult.commute)
  then have q: "unat (LHALF (COMBINE r y div t)) = unat (COMBINE r y) div unat t" "unat (COMBINE r y) div unat t < 65536"
    by (simp_all add: unat_halves unat_div)
  then show "unat (LHALF (COMBINE r y div t)) < 65536" by simp
  note s = step_div [OF refl c t(1)]
  show "unat (COMBINE r y mod t) = (U * 65536 + unat y) mod unat t" unfolding unat_mod s(2) ..
  show "(U * 65536 + unat y) div unat t = U div unat t * 65536 + unat (LHALF (COMBINE r y div t))" unfolding q(1) by (rule s(1))
qed

lemma unat_ucast64: "unat (ucast (x :: u32) :: u64) = unat x"
  using word_lt [of x] by (simp add: unsigned_ucast_eq take_bit_eq_mod)

lemma short_div_ok:
  assumes t: "0 < unat t" "unat t < 65536" and a: "unat a1 < 65536" "unat a2 < 65536" "unat a3 < 65536" "unat a4 < 65536"
    and u: "unat (u :: u64) = ((unat a1 * 65536 + unat a2) * 65536 + unat a3) * 65536 + unat a4" and v: "unat v = unat t"
  shows "short_div t a1 a2 a3 a4 = Inr (u div v, u mod v)"
proof -
  have z: "t \<noteq> 0" using t(1) by auto
  note s2 = short_step [OF t a(2) unat_mod [of a1 t]]
  note s3 = short_step [OF t a(3) s2(1)]
  note s4 = short_step [OF t a(4) s3(1)]
  have q1: "unat (LHALF (a1 div t)) = unat a1 div unat t" "unat a1 div unat t < 65536"
    using a(1) le_less_trans [OF div_le_dividend, of "unat a1" 65536 "unat t"] by (simp_all add: unat_halves unat_div)
  let ?q2 = "LHALF (COMBINE (a1 mod t) a2 div t)" and ?q3 = "LHALF (COMBINE (COMBINE (a1 mod t) a2 mod t) a3 div t)"
    and ?q4 = "LHALF (COMBINE (COMBINE (COMBINE (a1 mod t) a2 mod t) a3 mod t) a4 div t)"
  have "unat (uu (COMBINE (LHALF (a1 div t)) ?q2) (COMBINE ?q3 ?q4)) = unat (u div v)"
    unfolding unat_div u v s4(3) s3(3) s2(3) unat_uu using q1 s2(2) s3(2) s4(2) by (simp add: unat_COMBINE)
  moreover have "unat (ucast (COMBINE (COMBINE (COMBINE (a1 mod t) a2 mod t) a3 mod t) a4 mod t) :: u64) = unat (u mod v)"
    unfolding unat_ucast64 s4(1) using u v by (simp only: unat_mod)
  ultimately show ?thesis using z by (simp add: short_div_def udiv_def word_unat_eq_iff)
qed

lemma qdivrem_correct:
  assumes "v \<noteq> 0" "length qs = 5"
  shows "qdivrem v0 qs arq u v = Inr (u div v, if arq then Some (u mod v) else None)"
proof (cases "u < v")
  case True
  then have "unat u div unat v = 0" "unat u mod unat v = unat u" by (simp_all add: word_less_nat_alt)
  then have "u div v = 0" "u mod v = u" by (simp_all add: word_unat_eq_iff unat_div unat_mod)
  then show ?thesis using True assms(1) by (simp add: qdivrem_def)
next
  case False
  define us vs where us: "us = to_digits 0 u" and vs: "vs = to_digits v0 v"
  note U = to_digits_ok [of 0 u, folded us] and V = to_digits_ok [of v0 v, folded vs]
  have d: "qdivrem v0 qs arq u v = sbind (skip_v vs 0 4) (\<lambda>r. case r of
      None \<Rightarrow> sbind (short_div (ucast (vs ! 4)) (ucast (us ! 1)) (ucast (us ! 2)) (ucast (us ! 3)) (ucast (us ! 4))) (\<lambda>(q, r). Inr (q, if arq then Some r else None))
    | Some (vo, n) \<Rightarrow> long_div arq vo n us vs qs)"
    unfolding us vs qdivrem_def Let_def if_not_P [OF False] if_not_P [OF assms(1)] ..
  from skip_v_ok [OF V(1), of 0 4] consider "skip_v vs 0 4 = Inr None" "\<forall>i. 0 < i \<and> i < 4 \<longrightarrow> vs ! i = 0"
    | vo n where "skip_v vs 0 4 = Inr (Some (vo, n))" "vo + n = 4" "2 \<le> n" "vs ! (vo + 1) \<noteq> 0" "\<forall>i. 0 < i \<and> i \<le> vo \<longrightarrow> vs ! i = 0" by auto
  then show ?thesis
  proof cases
    case 1
    have v4: "unat (vs ! 4) = unat v" using 1(2) V(3) unfolding dval_four by simp
    moreover have "0 < unat v" "unat v < 65536" using assms(1) digit_lt [of "vs ! 4", unfolded v4] by (simp_all add: unat_gt_0)
    ultimately have "short_div (ucast (vs ! 4)) (ucast (us ! 1)) (ucast (us ! 2)) (ucast (us ! 3)) (ucast (us ! 4)) = Inr (u div v, u mod v)"
      by (intro short_div_ok) (simp_all add: digit_lt U(3) [symmetric, unfolded dval_four])
    then show ?thesis unfolding d 1(1) by simp
  next
    case 2
    have "dval vs 1 4 = dval vs (vo + 1) n" using dval_append [of vs 1 vo n] dval_zero [of 1 vo vs] 2(2,5) by (simp add: add.commute del: dval.simps)
    then have "dval vs (vo + 1) n = unat v" using V(3) by simp
    from long_div_ok [OF U V(1) 2(2-4) this assms(2)] False show ?thesis unfolding d 2(1) by simp
  qed
qed

text \<open>The signed operations work on the absolute values.\<close>

lemma uint_abs: "uint (if sint a < 0 then - a else a) = \<bar>sint (a :: u64)\<bar>"
proof (cases "sint a < 0")
  case True
  have "0 \<le> - sint a" "- sint a < 2 ^ 64" using True sint_ge [of a] by simp_all
  moreover have "- a = word_of_int (- sint a)" by simp
  ultimately have "uint (- a) = - sint a" by (simp only: uint_word_of_int mod_pos_pos_trivial len_bit0 len_num1) simp
  then show ?thesis using True by simp
next
  case False
  then show ?thesis using sint_cases(1) [of a] uint_lt2p [of a] by (simp split: if_splits)
qed

lemma word_of_abs:
  defines "ab \<equiv> \<lambda>a :: u64. if sint a < 0 then - a else a"
  shows "ab a div ab b = word_of_int (\<bar>sint a\<bar> div \<bar>sint b\<bar>)" "ab a mod ab b = word_of_int (\<bar>sint a\<bar> mod \<bar>sint b\<bar>)" "ab b = 0 \<longleftrightarrow> b = 0"
  unfolding uint_abs [symmetric] ab_def by (simp_all only: word_div_def word_mod_def) simp

lemma divdi3_eq:
  assumes "b \<noteq> 0" "length qs = 5"
  shows "divdi3 v0 qs a b = Inr (word_of_int (sint a sdiv sint b))"
proof -
  define A B where AB: "A = (if sint a < 0 then - a else a)" "B = (if sint b < 0 then - b else b)"
  note w = word_of_abs(1,2) [of a b, folded AB] word_of_abs(3) [of b, folded AB]
  have q: "qdivrem v0 qs False A B = Inr (A div B, None)" using qdivrem_correct [of B qs v0 False A] assms w(3) by simp
  have "divdi3 v0 qs a b = sbind (qdivrem v0 qs False A B) (\<lambda>(uq, _). Inr (if (sint a < 0) \<noteq> (sint b < 0) then - uq else uq))"
    by (cases "sint a < 0"; cases "sint b < 0") (simp_all add: divdi3_def AB)
  also have "\<dots> = Inr (word_of_int (if (sint a < 0) \<noteq> (sint b < 0) then - (\<bar>sint a\<bar> div \<bar>sint b\<bar>) else \<bar>sint a\<bar> div \<bar>sint b\<bar>))"
    unfolding q w(1) by (simp flip: wi_hom_neg)
  also have "(if (sint a < 0) \<noteq> (sint b < 0) then - (\<bar>sint a\<bar> div \<bar>sint b\<bar>) else \<bar>sint a\<bar> div \<bar>sint b\<bar>) = sint a sdiv sint b"
    by (auto simp: signed_divide_int_def sgn_if)
  finally show ?thesis .
qed

lemma moddi3_eq:
  assumes "b \<noteq> 0" "length qs = 5"
  shows "moddi3 v0 qs a b = Inr (word_of_int (sint a smod sint b))"
proof -
  define A B where AB: "A = (if sint a < 0 then - a else a)" "B = (if sint b < 0 then - b else b)"
  note w = word_of_abs(1,2) [of a b, folded AB] word_of_abs(3) [of b, folded AB]
  have q: "qdivrem v0 qs True A B = Inr (A div B, Some (A mod B))" using qdivrem_correct [of B qs v0 True A] assms w(3) by simp
  have "moddi3 v0 qs a b = Inr (if sint a < 0 then - (A mod B) else A mod B)"
    using q by (cases "sint a < 0"; cases "sint b < 0") (simp_all add: moddi3_def AB)
  also have "\<dots> = Inr (word_of_int (if sint a < 0 then - (\<bar>sint a\<bar> mod \<bar>sint b\<bar>) else \<bar>sint a\<bar> mod \<bar>sint b\<bar>))"
    unfolding w(2) by (simp flip: wi_hom_neg)
  also have "(if sint a < 0 then - (\<bar>sint a\<bar> mod \<bar>sint b\<bar>) else \<bar>sint a\<bar> mod \<bar>sint b\<bar>) = sint a smod sint b"
    by (auto simp: signed_modulo_int_def sgn_if)
  finally show ?thesis .
qed

section \<open>Properties\<close>

text \<open>C18: The division routines that gcc calls for \<^verbatim>\<open>long long\<close> (\<^verbatim>\<open>common/gcc-millicode\<close>: \<^verbatim>\<open>__qdivrem\<close>, which is Knuth's
  algorithm D on four digits of 16 bits, and its callers) return for every divisor other than zero, whatever their
  uninitialised arrays hold, and their results are right: \<^verbatim>\<open>__udivdi3\<close> and \<^verbatim>\<open>__umoddi3\<close> give the quotient and the
  remainder of the unsigned numbers, \<^verbatim>\<open>__divdi3\<close> and \<^verbatim>\<open>__moddi3\<close> those of the signed division of C, which rounds
  towards zero.\<close>

theorem quad_division:
  assumes "b \<noteq> 0" "length qs = 5"
  shows "udivdi3 v0 qs a b = Inr (a div b) \<and> umoddi3 v0 qs a b = Inr (a mod b) \<and>
    divdi3 v0 qs a b = Inr (word_of_int (sint a sdiv sint b)) \<and> moddi3 v0 qs a b = Inr (word_of_int (sint a smod sint b))"
  using qdivrem_correct [OF assms] divdi3_eq [OF assms] moddi3_eq [OF assms] by (simp add: udivdi3_def umoddi3_def)

theorem quad_division_witness:
  "udivdi3 7 [1, 2, 3, 4, 5] 0x8000000000000000 0x100000001 = Inr 0x7FFFFFFF \<and>
    umoddi3 7 [1, 2, 3, 4, 5] 0x8000000000000000 0x100000001 = Inr 0x80000001 \<and> divdi3 7 [1, 2, 3, 4, 5] (- 7) 2 = Inr (- 3)"
proof -
  have "(0x100000001 :: u64) \<noteq> 0" "(2 :: u64) \<noteq> 0" "length [1, 2, 3, 4, 5 :: u16] = 5" by simp_all
  then show ?thesis
    using quad_division [of "0x100000001" "[1, 2, 3, 4, 5]" 7 "0x8000000000000000"] quad_division [of 2 "[1, 2, 3, 4, 5]" 7 "- 7"]
    by (simp add: signed_divide_int_def)
qed

end
