(* ===== verification/Threadlist.thy ===== *)
theory Threadlist
  imports Kernel_Prelude
begin

text \<open>
  Doubly linked lists of threads with bookends (\<^verbatim>\<open>kern/thread/threadlist.c\<close>), over an explicit store of
  nodes: the nodes of all threads and the bookends of all lists share one store, so an operation on one
  list may a priori damage another one. The operations implement finite sequences, the contract
  \<open>thread_lists\<close>.
\<close>

section \<open>Operations\<close>

text \<open>A node is a bookend of a list or the node inside a thread.\<close>

datatype lnode = LHead nat | LTail nat | LNode nat

record tl_store =
  tln_next :: "lnode \<Rightarrow> lnode option"
  tln_prev :: "lnode \<Rightarrow> lnode option"
  tln_self :: "lnode \<Rightarrow> nat option"
  tl_count :: "nat \<Rightarrow> u32"

definition set_next :: "lnode \<Rightarrow> lnode option \<Rightarrow> tl_store \<Rightarrow> tl_store" where
  "set_next n v s = s\<lparr>tln_next := (tln_next s)(n := v)\<rparr>"

definition set_prev :: "lnode \<Rightarrow> lnode option \<Rightarrow> tl_store \<Rightarrow> tl_store" where
  "set_prev n v s = s\<lparr>tln_prev := (tln_prev s)(n := v)\<rparr>"

text \<open>A dereferenced pointer.\<close>

definition deref :: "'a option \<Rightarrow> 'a kres" where
  "deref p = (case p of None \<Rightarrow> Inl (Undefined ''null pointer'') | Some n \<Rightarrow> Inr n)"

definition threadlistnode_init :: "nat \<Rightarrow> tl_store \<Rightarrow> tl_store" where
  "threadlistnode_init t s =
     (let s = set_prev (LNode t) None (set_next (LNode t) None s)
      in s\<lparr>tln_self := (tln_self s)(LNode t := Some t)\<rparr>)"

definition threadlistnode_cleanup :: "nat \<Rightarrow> tl_store \<Rightarrow> unit kres" where
  "threadlistnode_cleanup t s =
     kassert (tln_next s (LNode t) = None) ''tln->tln_next == NULL'' (
     kassert (tln_prev s (LNode t) = None) ''tln->tln_prev == NULL'' (
     kassert (tln_self s (LNode t) \<noteq> None) ''tln->tln_self != NULL'' (Inr ())))"

definition threadlist_init :: "nat \<Rightarrow> tl_store \<Rightarrow> tl_store" where
  "threadlist_init l s =
     (let s = set_next (LHead l) (Some (LTail l)) s;
          s = set_prev (LHead l) None s;
          s = set_next (LTail l) None s;
          s = set_prev (LTail l) (Some (LHead l)) s
      in s\<lparr>tln_self := (tln_self s)(LHead l := None, LTail l := None), tl_count := (tl_count s)(l := 0)\<rparr>)"

definition threadlist_isempty :: "nat \<Rightarrow> tl_store \<Rightarrow> bool" where
  "threadlist_isempty l s \<longleftrightarrow> tl_count s l = 0"

definition threadlist_cleanup :: "nat \<Rightarrow> tl_store \<Rightarrow> unit kres" where
  "threadlist_cleanup l s =
     kassert (threadlist_isempty l s) ''threadlist_isempty(tl)'' (
     kassert (tl_count s l = 0) ''tl->tl_count == 0'' (Inr ()))"

definition threadlist_insertafternode :: "lnode \<Rightarrow> nat \<Rightarrow> tl_store \<Rightarrow> tl_store kres" where
  "threadlist_insertafternode onlist t s =
     (let addee = LNode t;
          s = set_prev addee (Some onlist) s;
          s = set_next addee (tln_next s onlist) s
      in sbind (deref (tln_prev s addee)) (\<lambda>p.
         let s = set_next p (Some addee) s
         in sbind (deref (tln_next s addee)) (\<lambda>n.
            Inr (set_prev n (Some addee) s))))"

definition threadlist_insertbeforenode :: "nat \<Rightarrow> lnode \<Rightarrow> tl_store \<Rightarrow> tl_store kres" where
  "threadlist_insertbeforenode t onlist s =
     (let addee = LNode t;
          s = set_prev addee (tln_prev s onlist) s;
          s = set_next addee (Some onlist) s
      in sbind (deref (tln_prev s addee)) (\<lambda>p.
         let s = set_next p (Some addee) s
         in sbind (deref (tln_next s addee)) (\<lambda>n.
            Inr (set_prev n (Some addee) s))))"

definition threadlist_removenode :: "lnode \<Rightarrow> tl_store \<Rightarrow> tl_store kres" where
  "threadlist_removenode tln s =
     sbind (deref (tln_prev s tln)) (\<lambda>p.
     let s = set_next p (tln_next s tln) s
     in sbind (deref (tln_next s tln)) (\<lambda>n.
        let s = set_prev n (tln_prev s tln) s
        in Inr (set_next tln None (set_prev tln None s))))"

definition tl_incr :: "nat \<Rightarrow> tl_store \<Rightarrow> tl_store" where
  "tl_incr l s = s\<lparr>tl_count := (tl_count s)(l := tl_count s l + 1)\<rparr>"

definition tl_decr :: "nat \<Rightarrow> tl_store \<Rightarrow> tl_store" where
  "tl_decr l s = s\<lparr>tl_count := (tl_count s)(l := tl_count s l - 1)\<rparr>"

definition threadlist_addhead :: "nat \<Rightarrow> nat \<Rightarrow> tl_store \<Rightarrow> tl_store kres" where
  "threadlist_addhead l t s = sbind (threadlist_insertafternode (LHead l) t s) (\<lambda>s. Inr (tl_incr l s))"

definition threadlist_addtail :: "nat \<Rightarrow> nat \<Rightarrow> tl_store \<Rightarrow> tl_store kres" where
  "threadlist_addtail l t s = sbind (threadlist_insertbeforenode t (LTail l) s) (\<lambda>s. Inr (tl_incr l s))"

definition threadlist_remhead :: "nat \<Rightarrow> tl_store \<Rightarrow> (nat option \<times> tl_store) kres" where
  "threadlist_remhead l s =
     sbind (deref (tln_next s (LHead l))) (\<lambda>tln.
     if tln_next s tln = None then Inr (None, s)
     else sbind (threadlist_removenode tln s) (\<lambda>s. let s = tl_decr l s in Inr (tln_self s tln, s)))"

definition threadlist_remtail :: "nat \<Rightarrow> tl_store \<Rightarrow> (nat option \<times> tl_store) kres" where
  "threadlist_remtail l s =
     sbind (deref (tln_prev s (LTail l))) (\<lambda>tln.
     if tln_prev s tln = None then Inr (None, s)
     else sbind (threadlist_removenode tln s) (\<lambda>s. let s = tl_decr l s in Inr (tln_self s tln, s)))"

definition threadlist_insertafter :: "nat \<Rightarrow> nat \<Rightarrow> nat \<Rightarrow> tl_store \<Rightarrow> tl_store kres" where
  "threadlist_insertafter l onlist addee s =
     sbind (threadlist_insertafternode (LNode onlist) addee s) (\<lambda>s. Inr (tl_incr l s))"

definition threadlist_insertbefore :: "nat \<Rightarrow> nat \<Rightarrow> nat \<Rightarrow> tl_store \<Rightarrow> tl_store kres" where
  "threadlist_insertbefore l addee onlist s =
     sbind (threadlist_insertbeforenode addee (LNode onlist) s) (\<lambda>s. Inr (tl_incr l s))"

definition threadlist_remove :: "nat \<Rightarrow> nat \<Rightarrow> tl_store \<Rightarrow> tl_store kres" where
  "threadlist_remove l t s = sbind (threadlist_removenode (LNode t) s) (\<lambda>s. Inr (tl_decr l s))"

section \<open>Chains of nodes\<close>

fun linked :: "tl_store \<Rightarrow> lnode list \<Rightarrow> bool" where
  "linked s (a # b # ns) \<longleftrightarrow> tln_next s a = Some b \<and> tln_prev s b = Some a \<and> linked s (b # ns)"
| "linked s ns \<longleftrightarrow> True"

lemma linked_append: "linked s (xs @ a # ys) \<longleftrightarrow> linked s (xs @ [a]) \<and> linked s (a # ys)"
proof (induction xs)
  case (Cons x xs)
  then show ?case by (cases xs) auto
qed (cases ys, auto)

text \<open>A chain depends on the links between its nodes only.\<close>

lemma linked_cong:
  "(\<And>n. n \<in> set (butlast ns) \<Longrightarrow> tln_next s' n = tln_next s n) \<Longrightarrow>
   (\<And>n. n \<in> set (tl ns) \<Longrightarrow> tln_prev s' n = tln_prev s n) \<Longrightarrow> linked s' ns = linked s ns"
proof (induction ns rule: linked.induct [of _ s])
  case (1 s a b ns)
  have "linked s' (b # ns) = linked s (b # ns)" using 1 by (intro "1.IH") auto
  then show ?case using "1.prems" by simp
qed auto

lemma set_tlD: "x \<in> set (tl xs) \<Longrightarrow> x \<in> set xs"
  by (cases xs) auto

definition node_ins :: "lnode \<Rightarrow> lnode \<Rightarrow> lnode \<Rightarrow> tl_store \<Rightarrow> tl_store" where
  "node_ins a n b s = s\<lparr>tln_next := (tln_next s)(n := Some b, a := Some n), tln_prev := (tln_prev s)(n := Some a, b := Some n)\<rparr>"

definition node_del :: "lnode \<Rightarrow> lnode \<Rightarrow> lnode \<Rightarrow> tl_store \<Rightarrow> tl_store" where
  "node_del a n b s = s\<lparr>tln_next := (tln_next s)(a := Some b, n := None), tln_prev := (tln_prev s)(b := Some a, n := None)\<rparr>"

lemma linked_ins:
  assumes "linked s (xs @ a # b # ys)" and "distinct (xs @ a # b # ys)" and "n \<notin> set (xs @ a # b # ys)"
  shows "linked (node_ins a n b s) (xs @ a # n # b # ys)"
proof -
  have "linked s (xs @ [a])" "linked s (b # ys)" using assms(1) linked_append [of s xs a "b # ys"] by auto
  moreover have "linked (node_ins a n b s) (xs @ [a]) = linked s (xs @ [a])"
    using assms(2,3) by (intro linked_cong) (auto simp: node_ins_def dest: set_tlD)
  moreover have "linked (node_ins a n b s) (b # ys) = linked s (b # ys)"
    using assms(2,3) by (intro linked_cong) (auto simp: node_ins_def dest: in_set_butlastD split: if_splits)
  moreover have "a \<noteq> n" "b \<noteq> n" "a \<noteq> b" using assms(2,3) by auto
  ultimately show ?thesis
    using linked_append [of "node_ins a n b s" xs a "n # b # ys"] by (simp add: node_ins_def)
qed

lemma linked_del:
  assumes "linked s (xs @ a # n # b # ys)" and "distinct (xs @ a # n # b # ys)"
  shows "linked (node_del a n b s) (xs @ a # b # ys)"
proof -
  have "linked s (xs @ [a])" "linked s (b # ys)" using assms(1) linked_append [of s xs a "n # b # ys"] by auto
  moreover have "linked (node_del a n b s) (xs @ [a]) = linked s (xs @ [a])"
    using assms(2) by (intro linked_cong) (auto simp: node_del_def dest: set_tlD)
  moreover have "linked (node_del a n b s) (b # ys) = linked s (b # ys)"
    using assms(2) by (intro linked_cong) (auto simp: node_del_def dest: in_set_butlastD split: if_splits)
  moreover have "a \<noteq> n" "b \<noteq> n" "a \<noteq> b" using assms(2) by auto
  ultimately show ?thesis
    using linked_append [of "node_del a n b s" xs a "b # ys"] by (simp add: node_del_def)
qed

text \<open>The code's assignments have these effects, in the order in which it makes them.\<close>

lemma insertafternode_ins:
  "tln_next s a = Some b \<Longrightarrow> a \<noteq> LNode t \<Longrightarrow> b \<noteq> LNode t \<Longrightarrow>
    threadlist_insertafternode a t s = Inr (node_ins a (LNode t) b s)"
  by (simp add: threadlist_insertafternode_def set_next_def set_prev_def deref_def node_ins_def Let_def)

lemma insertbeforenode_ins:
  "tln_prev s b = Some a \<Longrightarrow> a \<noteq> LNode t \<Longrightarrow> b \<noteq> LNode t \<Longrightarrow>
    threadlist_insertbeforenode t b s = Inr (node_ins a (LNode t) b s)"
  by (simp add: threadlist_insertbeforenode_def set_next_def set_prev_def deref_def node_ins_def Let_def fun_upd_twist)

lemma removenode_del:
  "tln_prev s n = Some a \<Longrightarrow> tln_next s n = Some b \<Longrightarrow> a \<noteq> n \<Longrightarrow> b \<noteq> n \<Longrightarrow>
    threadlist_removenode n s = Inr (node_del a n b s)"
  by (simp add: threadlist_removenode_def set_next_def set_prev_def deref_def node_del_def Let_def fun_upd_twist)

section \<open>The contract of sequences\<close>

text \<open>The sequences in the lists of a store, and the threads whose nodes are initialised: those in no list are
  free. The laws speak of all lists at once, so an operation on one list leaves the others as they are.\<close>

locale thread_lists =
  fixes rep :: "'s \<Rightarrow> nat set \<Rightarrow> (nat \<rightharpoonup> nat list) \<Rightarrow> bool"
    and addhead :: "nat \<Rightarrow> nat \<Rightarrow> 's \<Rightarrow> 's kres"
    and addtail :: "nat \<Rightarrow> nat \<Rightarrow> 's \<Rightarrow> 's kres"
    and remhead :: "nat \<Rightarrow> 's \<Rightarrow> (nat option \<times> 's) kres"
    and remtail :: "nat \<Rightarrow> 's \<Rightarrow> (nat option \<times> 's) kres"
  assumes disjoint: "rep s T A \<Longrightarrow> A l = Some ts \<Longrightarrow> A l' = Some ts' \<Longrightarrow> l \<noteq> l' \<Longrightarrow> set ts \<inter> set ts' = {}"
    and once: "rep s T A \<Longrightarrow> A l = Some ts \<Longrightarrow> distinct ts \<and> set ts \<subseteq> T"
    and addhead_Cons: "rep s T A \<Longrightarrow> A l = Some ts \<Longrightarrow> t \<in> T \<Longrightarrow> t \<notin> \<Union> (set ` ran A) \<Longrightarrow>
      \<exists>s'. addhead l t s = Inr s' \<and> rep s' T (A(l \<mapsto> t # ts))"
    and addtail_snoc: "rep s T A \<Longrightarrow> A l = Some ts \<Longrightarrow> t \<in> T \<Longrightarrow> t \<notin> \<Union> (set ` ran A) \<Longrightarrow>
      \<exists>s'. addtail l t s = Inr s' \<and> rep s' T (A(l \<mapsto> ts @ [t]))"
    and remhead_Nil: "rep s T A \<Longrightarrow> A l = Some [] \<Longrightarrow> remhead l s = Inr (None, s)"
    and remhead_Cons: "rep s T A \<Longrightarrow> A l = Some (t # ts) \<Longrightarrow>
      \<exists>s'. remhead l s = Inr (Some t, s') \<and> rep s' T (A(l \<mapsto> ts))"
    and remtail_Nil: "rep s T A \<Longrightarrow> A l = Some [] \<Longrightarrow> remtail l s = Inr (None, s)"
    and remtail_snoc: "rep s T A \<Longrightarrow> A l = Some (ts @ [t]) \<Longrightarrow>
      \<exists>s'. remtail l s = Inr (Some t, s') \<and> rep s' T (A(l \<mapsto> ts))"
begin

text \<open>Threads queued at the tail come out of the head in the order in which they were queued, behind those that
  were there before.\<close>

fun queue_all :: "nat \<Rightarrow> nat list \<Rightarrow> 's \<Rightarrow> 's kres" where
  "queue_all l [] s = Inr s"
| "queue_all l (t # us) s = sbind (addtail l t s) (queue_all l us)"

fun take_n :: "nat \<Rightarrow> nat \<Rightarrow> 's \<Rightarrow> (nat list \<times> 's) kres" where
  "take_n l 0 s = Inr ([], s)"
| "take_n l (Suc n) s =
     sbind (remhead l s) (\<lambda>(t, s).
     case t of None \<Rightarrow> Inr ([], s) | Some t \<Rightarrow> sbind (take_n l n s) (\<lambda>(us, s). Inr (t # us, s)))"

lemma queue_all_rep:
  assumes "rep s T A" and "A l = Some ts" and "set us \<subseteq> T" and "distinct us" and "set us \<inter> \<Union> (set ` ran A) = {}"
  shows "\<exists>s'. queue_all l us s = Inr s' \<and> rep s' T (A(l \<mapsto> ts @ us))"
  using assms
proof (induction us arbitrary: s A ts)
  case Nil
  then show ?case by (simp add: fun_upd_idem)
next
  case (Cons t us)
  from addtail_snoc [OF Cons.prems(1,2), of t] Cons.prems(3,5) obtain s1 where
    s1: "addtail l t s = Inr s1" "rep s1 T (A(l \<mapsto> ts @ [t]))" by auto
  have dis: "set us \<inter> \<Union> (set ` ran (A(l \<mapsto> ts @ [t]))) = {}"
    using Cons.prems(2,4,5) ranI [of A l ts] by (fastforce simp: ran_def split: if_splits)
  have l1: "(A(l \<mapsto> ts @ [t])) l = Some (ts @ [t])" by simp
  have "set us \<subseteq> T" "distinct us" using Cons.prems(3,4) by simp_all
  from Cons.IH [OF s1(2) l1 this dis] obtain s2 where
    "queue_all l us s1 = Inr s2" "rep s2 T (A(l \<mapsto> ts @ [t], l \<mapsto> (ts @ [t]) @ us))" by blast
  then show ?case using s1(1) by (simp only: queue_all.simps sbind.simps fun_upd_upd append_assoc append_Cons append_Nil) blast
qed

lemma take_n_rep:
  assumes "rep s T A" and "A l = Some ts"
  shows "\<exists>s'. take_n l n s = Inr (take n ts, s') \<and> rep s' T (A(l \<mapsto> drop n ts))"
  using assms
proof (induction n arbitrary: s A ts)
  case 0
  then show ?case by (simp add: fun_upd_idem)
next
  case (Suc n)
  show ?case
  proof (cases ts)
    case Nil
    then show ?thesis using remhead_Nil [of s T A l] Suc.prems by (simp add: fun_upd_idem)
  next
    case (Cons t us)
    from remhead_Cons [of s T A l t us] Suc.prems Cons obtain s1 where
      s1: "remhead l s = Inr (Some t, s1)" "rep s1 T (A(l \<mapsto> us))" by auto
    have "(A(l \<mapsto> us)) l = Some us" by simp
    from Suc.IH [OF s1(2) this] s1(1) Cons show ?thesis by (auto simp only: take_n.simps sbind.simps
      prod.case option.case take_Suc_Cons drop_Suc_Cons fun_upd_upd)
  qed
qed

end

section \<open>The linked lists implement the contract\<close>

definition tl_nodes :: "nat \<Rightarrow> nat list \<Rightarrow> lnode list" where
  "tl_nodes l ts = LHead l # map LNode ts @ [LTail l]"

definition tl_ok :: "tl_store \<Rightarrow> nat \<Rightarrow> nat list \<Rightarrow> bool" where
  "tl_ok s l ts \<longleftrightarrow> distinct ts \<and> linked s (tl_nodes l ts) \<and> tln_prev s (LHead l) = None \<and> tln_next s (LTail l) = None \<and>
     tl_count s l = of_nat (length ts)"

definition tl_rep :: "tl_store \<Rightarrow> nat set \<Rightarrow> (nat \<rightharpoonup> nat list) \<Rightarrow> bool" where
  "tl_rep s T A \<longleftrightarrow>
     (\<forall>l ts. A l = Some ts \<longrightarrow> tl_ok s l ts \<and> set ts \<subseteq> T) \<and>
     (\<forall>l l' ts ts'. A l = Some ts \<longrightarrow> A l' = Some ts' \<longrightarrow> l \<noteq> l' \<longrightarrow> set ts \<inter> set ts' = {}) \<and>
     (\<forall>t \<in> T. tln_self s (LNode t) = Some t) \<and>
     (\<forall>t \<in> T. t \<notin> \<Union> (set ` ran A) \<longrightarrow> tln_next s (LNode t) = None \<and> tln_prev s (LNode t) = None)"

lemma tl_repD: "tl_rep s T A \<Longrightarrow> A l = Some ts \<Longrightarrow> tl_ok s l ts \<and> set ts \<subseteq> T"
  by (simp add: tl_rep_def)

lemma tl_okI:
  assumes "tl_ok s l ts" and "\<And>n. n \<in> set (tl_nodes l ts) \<Longrightarrow> tln_next s' n = tln_next s n \<and> tln_prev s' n = tln_prev s n"
    and "tl_count s' l = tl_count s l"
  shows "tl_ok s' l ts"
proof -
  have "linked s' (tl_nodes l ts) = linked s (tl_nodes l ts)"
    using assms(2) by (intro linked_cong) (auto dest: set_tlD in_set_butlastD)
  then show ?thesis using assms by (simp add: tl_ok_def tl_nodes_def)
qed

text \<open>One list is replaced; the nodes that change belong to it or to the thread that moves.\<close>

lemma tl_rep_update:
  assumes rep: "tl_rep s T A" and l: "A l = Some ts"
    and new: "tl_ok s' l ts'" "set ts' \<subseteq> T" "set ts' \<subseteq> insert t (set ts)" "t \<in> set ts \<or> t \<notin> \<Union> (set ` ran A)"
    and gone: "set ts \<subseteq> insert t (set ts')" "t \<in> set ts' \<or> tln_next s' (LNode t) = None \<and> tln_prev s' (LNode t) = None"
    and frame: "\<And>n. n \<notin> set (tl_nodes l (t # ts)) \<Longrightarrow> tln_next s' n = tln_next s n \<and> tln_prev s' n = tln_prev s n"
      "\<And>k. k \<noteq> l \<Longrightarrow> tl_count s' k = tl_count s k" "tln_self s' = tln_self s"
  shows "tl_rep s' T (A(l \<mapsto> ts'))"
proof -
  have dis: "t \<notin> set us" "set ts' \<inter> set us = {}" if "A k = Some us" "k \<noteq> l" for k us
  proof -
    have "set ts \<inter> set us = {}" using rep l that unfolding tl_rep_def by blast
    then show "t \<notin> set us" using new(4) that by (auto simp: ran_def)
    then show "set ts' \<inter> set us = {}" using \<open>set ts \<inter> set us = {}\<close> new(3) by blast
  qed
  have "tl_ok s' k us" if "A k = Some us" "k \<noteq> l" for k us
  proof (rule tl_okI)
    show "tl_ok s k us" using rep that unfolding tl_rep_def by blast
    have "set ts \<inter> set us = {}" using rep l that unfolding tl_rep_def by blast
    then show "tln_next s' n = tln_next s n \<and> tln_prev s' n = tln_prev s n" if "n \<in> set (tl_nodes k us)" for n
      using that \<open>k \<noteq> l\<close> dis(1) [OF \<open>A k = Some us\<close> \<open>k \<noteq> l\<close>] by (intro frame(1)) (auto simp: tl_nodes_def)
    show "tl_count s' k = tl_count s k" by (rule frame(2) [OF that(2)])
  qed
  moreover have "tln_next s' (LNode u) = None \<and> tln_prev s' (LNode u) = None"
    if u: "u \<in> T" "u \<notin> \<Union> (set ` ran (A(l \<mapsto> ts')))" for u
  proof (cases "u = t")
    case True
    have "t \<notin> set ts'" using u(2) True ranI [of "A(l \<mapsto> ts')" l ts'] by auto
    then show ?thesis using gone(2) True by blast
  next
    case False
    have "u \<notin> set ts'" using u(2) ranI [of "A(l \<mapsto> ts')" l ts'] by auto
    then have "u \<notin> set ts" using gone(1) False by blast
    moreover have "u \<notin> set us" if "A k = Some us" for k us
      using u(2) ranI [of "A(l \<mapsto> ts')" k us] that calculation l by (cases "k = l") auto
    then have "u \<notin> \<Union> (set ` ran A)" by (auto simp: ran_def)
    ultimately show ?thesis using rep u(1) False frame(1) [of "LNode u"] unfolding tl_rep_def by (auto simp: tl_nodes_def)
  qed
  ultimately show ?thesis using rep new(1,2) dis(2) frame(3) unfolding tl_rep_def
    by (auto simp del: Union_iff split: if_splits) (metis disjoint_iff)+
qed

lemma tl_nodes_distinct: "distinct ts \<Longrightarrow> distinct (tl_nodes l ts)"
  by (auto simp: tl_nodes_def distinct_map inj_on_def)

lemma tl_nodes_split: "tl_nodes l (us @ vs) = (LHead l # map LNode us) @ map LNode vs @ [LTail l]"
  by (simp add: tl_nodes_def)

text \<open>The node before the \<open>k\<close>-th thread of a list, or before its end.\<close>

lemma tl_nodes_around:
  "\<exists>xs a b ys. tl_nodes l (us @ vs) = xs @ a # b # ys \<and> tl_nodes l (us @ t # vs) = xs @ a # LNode t # b # ys \<and>
    a = (if us = [] then LHead l else LNode (last us)) \<and> b = (if vs = [] then LTail l else LNode (hd vs))"
proof -
  have "\<exists>xs a. LHead l # map LNode us = xs @ [a] \<and> a = (if us = [] then LHead l else LNode (last us))"
    by (cases us rule: rev_cases) auto
  moreover have "\<exists>b ys. map LNode vs @ [LTail l] = b # ys \<and> b = (if vs = [] then LTail l else LNode (hd vs))"
    by (cases vs) auto
  ultimately obtain xs a b ys where "LHead l # map LNode us = xs @ [a]" "map LNode vs @ [LTail l] = b # ys"
    "a = (if us = [] then LHead l else LNode (last us))" "b = (if vs = [] then LTail l else LNode (hd vs))" by blast
  then show ?thesis using tl_nodes_split [of l us vs] tl_nodes_split [of l us "t # vs"] by fastforce
qed

lemma tl_bound_nodes:
  "(if us = [] then LHead l else LNode (last us)) \<in> set (tl_nodes l (us @ vs))"
  "(if vs = [] then LTail l else LNode (hd vs)) \<in> set (tl_nodes l (us @ vs))"
  by (cases us rule: rev_cases; simp add: tl_nodes_def) (cases vs; simp add: tl_nodes_def)

lemma tl_ok_ins:
  assumes ok: "tl_ok s l (us @ vs)" and t: "t \<notin> set (us @ vs)"
    and a: "a = (if us = [] then LHead l else LNode (last us))" and b: "b = (if vs = [] then LTail l else LNode (hd vs))"
  shows "tln_next s a = Some b" "tln_prev s b = Some a" "a \<noteq> LNode t" "b \<noteq> LNode t"
    "tl_ok (tl_incr l (node_ins a (LNode t) b s)) l (us @ t # vs)"
proof -
  obtain xs ys where ns: "tl_nodes l (us @ vs) = xs @ a # b # ys" "tl_nodes l (us @ t # vs) = xs @ a # LNode t # b # ys"
    using tl_nodes_around [of l us vs t] a b by blast
  have dist: "distinct (xs @ a # b # ys)" using ok tl_nodes_distinct [of "us @ vs" l] by (simp add: tl_ok_def flip: ns)
  have "linked s (xs @ a # b # ys)" using ok by (simp add: tl_ok_def flip: ns)
  moreover have "LNode t \<notin> set (xs @ a # b # ys)" unfolding ns(1) [symmetric] using t by (auto simp: tl_nodes_def)
  ultimately have lk: "linked (node_ins a (LNode t) b s) (xs @ a # LNode t # b # ys)" using dist by (intro linked_ins)
  show "tln_next s a = Some b" "tln_prev s b = Some a"
    using ok linked_append [of s xs a "b # ys"] by (simp_all add: tl_ok_def ns)
  show "a \<noteq> LNode t" "b \<noteq> LNode t" using t a b by (auto split: if_splits)
  have "linked (tl_incr l (node_ins a (LNode t) b s)) (tl_nodes l (us @ t # vs)) =
      linked (node_ins a (LNode t) b s) (tl_nodes l (us @ t # vs))"
    by (intro linked_cong) (simp_all add: tl_incr_def)
  then show "tl_ok (tl_incr l (node_ins a (LNode t) b s)) l (us @ t # vs)"
    using ok lk t a b by (auto simp: tl_ok_def ns(2) tl_incr_def node_ins_def)
qed

lemma tl_ok_del:
  assumes ok: "tl_ok s l (us @ t # vs)"
    and a: "a = (if us = [] then LHead l else LNode (last us))" and b: "b = (if vs = [] then LTail l else LNode (hd vs))"
  shows "tln_prev s (LNode t) = Some a" "tln_next s (LNode t) = Some b" "tln_next s a = Some (LNode t)"
    "tln_prev s b = Some (LNode t)" "a \<noteq> LNode t" "b \<noteq> LNode t"
    "tl_ok (tl_decr l (node_del a (LNode t) b s)) l (us @ vs)"
proof -
  obtain xs ys where ns: "tl_nodes l (us @ vs) = xs @ a # b # ys" "tl_nodes l (us @ t # vs) = xs @ a # LNode t # b # ys"
    using tl_nodes_around [of l us vs t] a b by blast
  have dist: "distinct (xs @ a # LNode t # b # ys)"
    using ok tl_nodes_distinct [of "us @ t # vs" l] by (simp add: tl_ok_def flip: ns)
  have "linked s (xs @ a # LNode t # b # ys)" using ok by (simp add: tl_ok_def flip: ns)
  then have lk: "linked (node_del a (LNode t) b s) (xs @ a # b # ys)" using dist by (intro linked_del)
  show "tln_prev s (LNode t) = Some a" "tln_next s (LNode t) = Some b" "tln_next s a = Some (LNode t)"
      "tln_prev s b = Some (LNode t)"
    using ok linked_append [of s xs a "LNode t # b # ys"] by (simp_all add: tl_ok_def ns)
  show "a \<noteq> LNode t" "b \<noteq> LNode t" using dist by auto
  have "linked (tl_decr l (node_del a (LNode t) b s)) (tl_nodes l (us @ vs)) =
      linked (node_del a (LNode t) b s) (tl_nodes l (us @ vs))"
    by (intro linked_cong) (simp_all add: tl_decr_def)
  then show "tl_ok (tl_decr l (node_del a (LNode t) b s)) l (us @ vs)"
    using ok lk a b by (auto simp: tl_ok_def ns(1) tl_decr_def node_del_def)
qed

lemma tl_rep_ins:
  assumes rep: "tl_rep s T A" and l: "A l = Some (us @ vs)" and t: "t \<in> T" "t \<notin> \<Union> (set ` ran A)"
    and a: "a = (if us = [] then LHead l else LNode (last us))" and b: "b = (if vs = [] then LTail l else LNode (hd vs))"
  shows "tl_rep (tl_incr l (node_ins a (LNode t) b s)) T (A(l \<mapsto> us @ t # vs))"
proof (rule tl_rep_update [OF rep l, of _ _ t])
  have ok: "tl_ok s l (us @ vs)" "set (us @ vs) \<subseteq> T" using tl_repD [OF rep l] by auto
  have "t \<notin> set (us @ vs)" using t(2) l by (auto simp: ran_def)
  then show "tl_ok (tl_incr l (node_ins a (LNode t) b s)) l (us @ t # vs)" using tl_ok_ins [OF ok(1) _ a b] by blast
  show "set (us @ t # vs) \<subseteq> T" using t(1) ok(2) by auto
qed (use t tl_bound_nodes [where us = us and vs = vs and l = l, folded a b] in
  \<open>auto simp: tl_incr_def node_ins_def tl_nodes_def\<close>)

lemma tl_rep_del:
  assumes rep: "tl_rep s T A" and l: "A l = Some (us @ t # vs)"
    and a: "a = (if us = [] then LHead l else LNode (last us))" and b: "b = (if vs = [] then LTail l else LNode (hd vs))"
  shows "tl_rep (tl_decr l (node_del a (LNode t) b s)) T (A(l \<mapsto> us @ vs))"
proof (rule tl_rep_update [OF rep l, of _ _ t])
  have ok: "tl_ok s l (us @ t # vs)" "set (us @ t # vs) \<subseteq> T" using tl_repD [OF rep l] by auto
  then show "tl_ok (tl_decr l (node_del a (LNode t) b s)) l (us @ vs)" using tl_ok_del [OF _ a b] by blast
  show "set (us @ vs) \<subseteq> T" using ok(2) by auto
qed (use tl_bound_nodes [where us = us and vs = vs and l = l, folded a b] in
  \<open>auto simp: tl_decr_def node_del_def tl_nodes_def\<close>)

interpretation tlist: thread_lists tl_rep threadlist_addhead threadlist_addtail threadlist_remhead threadlist_remtail
proof (unfold_locales, goal_cases)
  case (1 s T A l ts l' ts')
  then show ?case unfolding tl_rep_def by blast
next
  case (2 s T A l ts)
  then show ?case using tl_repD [of s T A l ts] by (simp add: tl_ok_def)
next
  case (3 s T A l ts t)
  have "tl_ok s l ([] @ ts)" "t \<notin> set ([] @ ts)" using tl_repD [OF 3(1,2)] 3(2,4) by (auto simp: ran_def)
  from tl_ok_ins(1-4) [OF this refl refl] tl_rep_ins [of s T A l "[]" ts t, OF 3(1) _ 3(3,4) refl refl] 3(2)
  show ?case by (simp add: threadlist_addhead_def insertafternode_ins)
next
  case (4 s T A l ts t)
  have "tl_ok s l (ts @ [])" "t \<notin> set (ts @ [])" using tl_repD [OF 4(1,2)] 4(2,4) by (auto simp: ran_def)
  from tl_ok_ins(1-4) [OF this refl refl] tl_rep_ins [of s T A l ts "[]" t, OF 4(1) _ 4(3,4) refl refl] 4(2)
  show ?case by (simp add: threadlist_addtail_def insertbeforenode_ins)
next
  case (5 s T A l)
  then show ?case using tl_repD [OF 5]
    by (simp add: tl_ok_def tl_nodes_def threadlist_remhead_def deref_def)
next
  case (6 s T A l t ts)
  then have ok: "tl_ok s l ([] @ t # ts)" "tln_self s (LNode t) = Some t"
    using tl_repD [OF 6] by (auto simp: tl_rep_def)
  from tl_ok_del [OF ok(1) refl refl] tl_rep_del [of s T A l "[]" t ts, OF 6(1) _ refl refl] 6(2) ok(2)
  show ?case by (simp add: threadlist_remhead_def removenode_del deref_def Let_def tl_decr_def node_del_def)
next
  case (7 s T A l)
  then show ?case using tl_repD [OF 7]
    by (simp add: tl_ok_def tl_nodes_def threadlist_remtail_def deref_def)
next
  case (8 s T A l ts t)
  then have ok: "tl_ok s l (ts @ t # [])" "tln_self s (LNode t) = Some t"
    using tl_repD [OF 8] by (auto simp: tl_rep_def)
  from tl_ok_del [OF ok(1) refl refl] tl_rep_del [of s T A l ts t "[]", OF 8(1) _ refl refl] 8(2) ok(2)
  show ?case by (simp add: threadlist_remtail_def removenode_del deref_def Let_def tl_decr_def node_del_def)
qed

text \<open>Insertion and removal in the middle.\<close>

lemma threadlist_insertafter_ok:
  assumes "tl_rep s T A" and "A l = Some (us @ x # vs)" and "t \<in> T" and "t \<notin> \<Union> (set ` ran A)"
  shows "\<exists>s'. threadlist_insertafter l x t s = Inr s' \<and> tl_rep s' T (A(l \<mapsto> us @ x # t # vs))"
proof -
  have "tl_ok s l ((us @ [x]) @ vs)" "t \<notin> set ((us @ [x]) @ vs)" using tl_repD [OF assms(1,2)] assms(2,4) by (auto simp: ran_def)
  from tl_ok_ins(1-4) [OF this refl refl] tl_rep_ins [of s T A l "us @ [x]" vs t, OF assms(1) _ assms(3,4) refl refl] assms(2)
  show ?thesis by (simp add: threadlist_insertafter_def insertafternode_ins)
qed

lemma threadlist_insertbefore_ok:
  assumes "tl_rep s T A" and "A l = Some (us @ x # vs)" and "t \<in> T" and "t \<notin> \<Union> (set ` ran A)"
  shows "\<exists>s'. threadlist_insertbefore l t x s = Inr s' \<and> tl_rep s' T (A(l \<mapsto> us @ t # x # vs))"
proof -
  have "tl_ok s l (us @ x # vs)" "t \<notin> set (us @ x # vs)" using tl_repD [OF assms(1,2)] assms(2,4) by (auto simp: ran_def)
  from tl_ok_ins(1-4) [OF this refl refl] tl_rep_ins [of s T A l us "x # vs" t, OF assms(1) _ assms(3,4) refl refl] assms(2)
  show ?thesis by (simp add: threadlist_insertbefore_def insertbeforenode_ins)
qed

lemma threadlist_remove_ok:
  assumes "tl_rep s T A" and "A l = Some (us @ t # vs)"
  shows "\<exists>s'. threadlist_remove l t s = Inr s' \<and> tl_rep s' T (A(l \<mapsto> us @ vs))"
  using tl_ok_del(1-6) [OF tl_repD [OF assms, THEN conjunct1] refl refl] tl_rep_del [OF assms refl refl]
  by (simp add: threadlist_remove_def removenode_del)

lemma threadlist_isempty_ok:
  assumes "tl_rep s T A" and "A l = Some ts" and "length ts < 2 ^ 32"
  shows "threadlist_isempty l s \<longleftrightarrow> ts = []"
proof -
  have "tl_count s l = of_nat (length ts)" using tl_repD [OF assms(1,2)] by (simp add: tl_ok_def)
  moreover have "unat (of_nat (length ts) :: u32) = length ts" using assms(3) by (simp add: unat_of_nat)
  ultimately show ?thesis unfolding threadlist_isempty_def unat_eq_zero [symmetric] by simp
qed

section \<open>Lists of threads as sequences\<close>

lemma threadlist_init_ok:
  assumes "tl_rep s T A" and "A l = None"
  shows "tl_rep (threadlist_init l s) T (A(l \<mapsto> []))"
proof -
  have "tl_ok (threadlist_init l s) k us" if "A k = Some us" for k us
  proof (rule tl_okI)
    show "tl_ok s k us" using tl_repD [OF assms(1) that] by blast
  qed (use that assms(2) in \<open>auto simp: threadlist_init_def set_next_def set_prev_def tl_nodes_def Let_def\<close>)
  moreover have "tl_ok (threadlist_init l s) l []"
    by (simp add: tl_ok_def tl_nodes_def threadlist_init_def set_next_def set_prev_def Let_def)
  moreover have "tln_self (threadlist_init l s) (LNode t) = tln_self s (LNode t) \<and>
      tln_next (threadlist_init l s) (LNode t) = tln_next s (LNode t) \<and>
      tln_prev (threadlist_init l s) (LNode t) = tln_prev s (LNode t)" for t
    by (simp add: threadlist_init_def set_next_def set_prev_def Let_def)
  ultimately show ?thesis using assms unfolding tl_rep_def by auto
qed

text \<open>Nodes of threads come and go.\<close>

lemma threadlistnode_init_ok:
  assumes "tl_rep s T A" and "t \<notin> T"
  shows "tl_rep (threadlistnode_init t s) (insert t T) A"
proof -
  have "tl_ok (threadlistnode_init t s) k us" if "A k = Some us" for k us
  proof (rule tl_okI)
    show "tl_ok s k us" using tl_repD [OF assms(1) that] by blast
    have "t \<notin> set us" using tl_repD [OF assms(1) that] assms(2) by blast
    then show "tln_next (threadlistnode_init t s) n = tln_next s n \<and> tln_prev (threadlistnode_init t s) n = tln_prev s n"
      if "n \<in> set (tl_nodes k us)" for n
      using that by (auto simp: threadlistnode_init_def set_next_def set_prev_def tl_nodes_def Let_def)
  qed (simp add: threadlistnode_init_def set_next_def set_prev_def Let_def)
  moreover have "tln_self (threadlistnode_init t s) (LNode u) = (if u = t then Some t else tln_self s (LNode u))"
    "tln_next (threadlistnode_init t s) (LNode u) = (if u = t then None else tln_next s (LNode u))"
    "tln_prev (threadlistnode_init t s) (LNode u) = (if u = t then None else tln_prev s (LNode u))" for u
    by (simp_all add: threadlistnode_init_def set_next_def set_prev_def Let_def)
  ultimately show ?thesis using assms(1) unfolding tl_rep_def by (simp add: subset_insertI2)
qed

lemma threadlistnode_cleanup_ok:
  "tl_rep s T A \<Longrightarrow> t \<in> T \<Longrightarrow> t \<notin> \<Union> (set ` ran A) \<Longrightarrow> threadlistnode_cleanup t s = Inr () \<and> tl_rep s (T - {t}) A"
  unfolding tl_rep_def threadlistnode_cleanup_def by (auto simp: ran_def)

lemma threadlist_cleanup_ok:
  assumes "tl_rep s T A" and "A l = Some []"
  shows "threadlist_cleanup l s = Inr () \<and> tl_rep s T (A(l := None))"
proof -
  have "tl_count s l = 0" using tl_repD [OF assms] by (simp add: tl_ok_def)
  moreover have "\<Union> (set ` ran (A(l := None))) = \<Union> (set ` ran A)" using assms(2)
    by (auto simp: ran_def split: if_splits) (metis empty_iff empty_set option.inject)
  ultimately show ?thesis using assms(1) unfolding tl_rep_def threadlist_cleanup_def threadlist_isempty_def by auto
qed

definition tl_sample :: tl_store where
  "tl_sample = \<lparr>tln_next = [LHead 0 \<mapsto> LNode 1, LNode 1 \<mapsto> LTail 0], tln_prev = [LTail 0 \<mapsto> LNode 1, LNode 1 \<mapsto> LHead 0],
     tln_self = \<lambda>n. case n of LNode t \<Rightarrow> Some t | _ \<Rightarrow> None, tl_count = (\<lambda>_. 0)(0 := 1)\<rparr>"

lemma tl_sample_rep: "tl_rep tl_sample {1, 2} [0 \<mapsto> [1]]"
  by (auto simp: tl_rep_def tl_ok_def tl_nodes_def tl_sample_def ran_def split: if_splits)

text \<open>C11: Over a store that holds any number of thread lists, each operation on one list has the effect of the
  corresponding operation on a sequence of threads, and no effect on any other list: addition at the head and at the
  tail of a thread that is in no list, removal from the head and from the tail, which returns null exactly on an
  empty list. No operation follows a null pointer.\<close>
theorem threadlist_refines_sequences:
  assumes rep: "tl_rep s T A" and l: "A l = Some ts" and t: "t \<in> T" "\<forall>us \<in> ran A. t \<notin> set us"
  shows "(\<exists>s'. threadlist_addhead l t s = Inr s' \<and> tl_rep s' T (A(l \<mapsto> t # ts))) \<and>
    (\<exists>s'. threadlist_addtail l t s = Inr s' \<and> tl_rep s' T (A(l \<mapsto> ts @ [t]))) \<and>
    (\<exists>s'. threadlist_remhead l s = Inr (if ts = [] then None else Some (hd ts), s') \<and> tl_rep s' T (A(l \<mapsto> tl ts))) \<and>
    (\<exists>s'. threadlist_remtail l s = Inr (if ts = [] then None else Some (last ts), s') \<and> tl_rep s' T (A(l \<mapsto> butlast ts)))"
proof (intro conjI)
  have t2: "t \<notin> \<Union> (set ` ran A)" using t(2) by blast
  show "\<exists>s'. threadlist_addhead l t s = Inr s' \<and> tl_rep s' T (A(l \<mapsto> t # ts))" by (rule tlist.addhead_Cons [OF rep l t(1) t2])
  show "\<exists>s'. threadlist_addtail l t s = Inr s' \<and> tl_rep s' T (A(l \<mapsto> ts @ [t]))" by (rule tlist.addtail_snoc [OF rep l t(1) t2])
  have nil: "A(l \<mapsto> []) = A" if "ts = []" using l that by (simp add: fun_upd_idem)
  show "\<exists>s'. threadlist_remhead l s = Inr (if ts = [] then None else Some (hd ts), s') \<and> tl_rep s' T (A(l \<mapsto> tl ts))"
    using tlist.remhead_Nil [OF rep, of l] tlist.remhead_Cons [OF rep, of l] l rep nil by (cases ts) auto
  show "\<exists>s'. threadlist_remtail l s = Inr (if ts = [] then None else Some (last ts), s') \<and> tl_rep s' T (A(l \<mapsto> butlast ts))"
    using tlist.remtail_Nil [OF rep, of l] tlist.remtail_snoc [OF rep, of l] l rep nil by (cases ts rule: rev_cases) auto
qed

theorem threadlist_refines_sequences_witness:
  "\<exists>s'. threadlist_addtail 0 2 tl_sample = Inr s' \<and> tl_rep s' {1, 2} [0 \<mapsto> [1, 2]]"
  using threadlist_refines_sequences [OF tl_sample_rep, of 0 "[1]" 2] by (auto simp: ran_def)

end
