(* ===== verification/Sched.thy ===== *)
theory Sched
  imports Spinlock Threadlist
begin

text \<open>
  The thread system on several CPUs (\<^verbatim>\<open>kern/thread/thread.c\<close>, \<^verbatim>\<open>kern/thread/clock.c\<close>, the interrupt part of
  \<^verbatim>\<open>kern/arch/mips/locore/trap.c\<close>): creation and end of threads, context switches with the idle loop, wait
  channels, interprocessor interrupts, the timer interrupt and the migration of threads between run queues. The
  operations use the thread lists of \<open>Threadlist\<close> and the spinlocks and interrupt levels of \<open>Spinlock\<close>. The
  code between two operations on a run queue lock is atomic for the other CPUs, so the functions that give the lock
  back in the middle are cut there, and \<open>sched_step\<close> interleaves the pieces of all CPUs.
\<close>

section \<open>State\<close>

datatype threadstate = S_RUN | S_READY | S_SLEEP | S_ZOMBIE

text \<open>The saved registers of a thread that does not run: it starts in \<^verbatim>\<open>thread_startup\<close>, or it is inside
  \<^verbatim>\<open>thread_switch\<close>, whose local variable \<^verbatim>\<open>spl\<close> is on its stack.\<close>

datatype switchframe = Startup | InSwitch int

text \<open>The stack is represented by the guard words at its end. \<open>t_adjust\<close> is the local variable \<^verbatim>\<open>doadjust\<close> of the
  frame of \<^verbatim>\<open>mips_trap\<close> when the thread is inside an interrupt.\<close>

record thread =
  t_name :: string
  t_wchan_name :: "string option"
  t_state :: threadstate
  tm_badfaultfunc :: bool
  t_stack :: "u32 list option"
  t_context :: "switchframe option"
  t_cpu :: "nat option"
  t_proc :: "nat option"
  t_in_intr :: bool
  t_spl :: int
  t_ipl_count :: int
  t_adjust :: bool

text \<open>Where a CPU is when it is not in a function that runs to its end: in the second loop of
  \<^verbatim>\<open>wchan_wakeall\<close>, or in the two loops over the CPUs of \<^verbatim>\<open>thread_consider_migration\<close> with their variables
  (the index, \<^verbatim>\<open>my_count\<close> and \<^verbatim>\<open>total_count\<close>; the index, \<^verbatim>\<open>one_share\<close> and \<^verbatim>\<open>to_send\<close>).\<close>

datatype cpu_pc = Plain | Waking nat | Counting nat u32 u32 | Sending nat u32 nat

text \<open>\<open>c_spins\<close> is \<^verbatim>\<open>c_spinlocks\<close>, \<open>c_irq\<close> the interrupt enable bit, \<open>c_frame\<close> the variable \<^verbatim>\<open>spl\<close> of the
  \<^verbatim>\<open>thread_switch\<close> that is in progress while the CPU is idle, \<open>c_shootdown\<close> the \<^verbatim>\<open>c_numshootdown\<close> entries in use.\<close>

record 'm cpu =
  c_curthread :: nat
  c_hardclocks :: u32
  c_spins :: nat
  c_irq :: bool
  c_isidle :: bool
  c_runqueue_lock :: spinlock
  c_ipi_pending :: u32
  c_shootdown :: "'m list"
  c_ipi_lock :: spinlock
  c_frame :: int
  c_pc :: cpu_pc

text \<open>The virtual memory system is the component \<open>sys_vm\<close>, of any type, and its operations are arguments.\<close>

record ('m, 'v) sys =
  cpus :: "nat \<Rightarrow> 'm cpu"
  numcpus :: nat
  threads :: "nat \<rightharpoonup> thread"
  tls :: tl_store
  wchans :: "nat set"
  wc_name :: "nat \<Rightarrow> string"
  wc_lock :: "nat \<Rightarrow> spinlock"
  p_numthreads :: "nat \<Rightarrow> u32"
  sys_vm :: 'v

record ('m, 'v) vm_ops =
  vm_activate :: "nat option \<Rightarrow> 'v \<Rightarrow> 'v kres"
  vm_lru :: "'v \<Rightarrow> 'v kres"
  vm_shootdown :: "'m \<Rightarrow> 'v \<Rightarrow> 'v kres"

abbreviation (input) IPI_PANIC :: nat where "IPI_PANIC \<equiv> 0"
abbreviation (input) IPI_OFFLINE :: nat where "IPI_OFFLINE \<equiv> 1"
abbreviation (input) IPI_UNIDLE :: nat where "IPI_UNIDLE \<equiv> 2"
abbreviation (input) IPI_TLBSHOOTDOWN :: nat where "IPI_TLBSHOOTDOWN \<equiv> 3"
abbreviation (input) TLBSHOOTDOWN_MAX :: nat where "TLBSHOOTDOWN_MAX \<equiv> 16"
abbreviation (input) THREAD_STACK_MAGIC :: u32 where "THREAD_STACK_MAGIC \<equiv> 0xbaadf00d"
abbreviation (input) MAXCPUS :: nat where "MAXCPUS \<equiv> 32"
abbreviation (input) MIGRATE_HARDCLOCKS :: u32 where "MIGRATE_HARDCLOCKS \<equiv> 16"

text \<open>The lists of the store: the run queue and the zombies of a CPU, the list that is a local variable of
  \<^verbatim>\<open>wchan_wakeall\<close> or \<^verbatim>\<open>thread_consider_migration\<close>, and the sleepers of a wait channel.\<close>

definition c_runqueue :: "nat \<Rightarrow> nat" where
  "c_runqueue c = 4 * c"

definition c_zombies :: "nat \<Rightarrow> nat" where
  "c_zombies c = 4 * c + 1"

definition victims :: "nat \<Rightarrow> nat" where
  "victims c = 4 * c + 2"

definition wc_threads :: "nat \<Rightarrow> nat" where
  "wc_threads w = 4 * w + 3"

definition cur :: "nat \<Rightarrow> ('m, 'v) sys \<Rightarrow> nat" where
  "cur c s = c_curthread (cpus s c)"

definition upd_cpu :: "nat \<Rightarrow> ('m cpu \<Rightarrow> 'm cpu) \<Rightarrow> ('m, 'v) sys \<Rightarrow> ('m, 'v) sys" where
  "upd_cpu c f s = s\<lparr>cpus := (cpus s)(c := f (cpus s c))\<rparr>"

definition upd_thread :: "nat \<Rightarrow> (thread \<Rightarrow> thread) \<Rightarrow> ('m, 'v) sys \<Rightarrow> ('m, 'v) sys" where
  "upd_thread t f s = s\<lparr>threads := (threads s)(t := map_option f (threads s t))\<rparr>"

definition on_lists :: "(tl_store \<Rightarrow> tl_store kres) \<Rightarrow> ('m, 'v) sys \<Rightarrow> ('m, 'v) sys kres" where
  "on_lists f s = sbind (f (tls s)) (\<lambda>q. Inr (s\<lparr>tls := q\<rparr>))"

section \<open>Spinlocks and interrupt levels of one CPU\<close>

text \<open>What the code of \<open>Spinlock\<close> sees of a CPU: the fields of its current thread and its own.\<close>

definition cpu_view :: "nat \<Rightarrow> ('m, 'v) sys \<Rightarrow> cpu_state kres" where
  "cpu_view c s =
     sbind (deref (threads s (cur c s))) (\<lambda>th.
     Inr \<lparr>curcpu_exists = True, c_self = c, c_spinlocks = c_spins (cpus s c), t_curspl = t_spl th,
          t_iplhigh_count = t_ipl_count th, t_in_interrupt = t_in_intr th, irqs_on = c_irq (cpus s c)\<rparr>)"

definition put_view :: "nat \<Rightarrow> cpu_state \<Rightarrow> ('m, 'v) sys \<Rightarrow> ('m, 'v) sys" where
  "put_view c k s =
     upd_cpu c (\<lambda>p. p\<lparr>c_spins := c_spinlocks k, c_irq := irqs_on k\<rparr>)
       (upd_thread (cur c s) (\<lambda>th. th\<lparr>t_spl := t_curspl k, t_ipl_count := t_iplhigh_count k\<rparr>) s)"

definition on_cpu :: "nat \<Rightarrow> (cpu_state \<Rightarrow> ('x \<times> cpu_state) kres) \<Rightarrow> ('m, 'v) sys \<Rightarrow> ('x \<times> ('m, 'v) sys) kres" where
  "on_cpu c f s = sbind (cpu_view c s) (\<lambda>k. sbind (f k) (\<lambda>(x, k). Inr (x, put_view c k s)))"

definition set_spl :: "nat \<Rightarrow> int \<Rightarrow> ('m, 'v) sys \<Rightarrow> (int \<times> ('m, 'v) sys) kres" where
  "set_spl c x s = on_cpu c (splx x) s"

definition rq_acquire :: "nat \<Rightarrow> nat \<Rightarrow> ('m, 'v) sys \<Rightarrow> ('m, 'v) sys kres" where
  "rq_acquire c d s =
     sbind (on_cpu c (spinlock_acquire (c_runqueue_lock (cpus s d))) s) (\<lambda>(lk, s).
     Inr (upd_cpu d (\<lambda>p. p\<lparr>c_runqueue_lock := lk\<rparr>) s))"

definition rq_release :: "nat \<Rightarrow> nat \<Rightarrow> ('m, 'v) sys \<Rightarrow> ('m, 'v) sys kres" where
  "rq_release c d s =
     sbind (on_cpu c (spinlock_release (c_runqueue_lock (cpus s d))) s) (\<lambda>(lk, s).
     Inr (upd_cpu d (\<lambda>p. p\<lparr>c_runqueue_lock := lk\<rparr>) s))"

definition ipi_acquire :: "nat \<Rightarrow> nat \<Rightarrow> ('m, 'v) sys \<Rightarrow> ('m, 'v) sys kres" where
  "ipi_acquire c d s =
     sbind (on_cpu c (spinlock_acquire (c_ipi_lock (cpus s d))) s) (\<lambda>(lk, s).
     Inr (upd_cpu d (\<lambda>p. p\<lparr>c_ipi_lock := lk\<rparr>) s))"

definition ipi_release :: "nat \<Rightarrow> nat \<Rightarrow> ('m, 'v) sys \<Rightarrow> ('m, 'v) sys kres" where
  "ipi_release c d s =
     sbind (on_cpu c (spinlock_release (c_ipi_lock (cpus s d))) s) (\<lambda>(lk, s).
     Inr (upd_cpu d (\<lambda>p. p\<lparr>c_ipi_lock := lk\<rparr>) s))"

definition wc_acquire :: "nat \<Rightarrow> nat \<Rightarrow> ('m, 'v) sys \<Rightarrow> ('m, 'v) sys kres" where
  "wc_acquire c w s =
     sbind (on_cpu c (spinlock_acquire (wc_lock s w)) s) (\<lambda>(lk, s). Inr (s\<lparr>wc_lock := (wc_lock s)(w := lk)\<rparr>))"

definition wc_release :: "nat \<Rightarrow> nat \<Rightarrow> ('m, 'v) sys \<Rightarrow> ('m, 'v) sys kres" where
  "wc_release c w s =
     sbind (on_cpu c (spinlock_release (wc_lock s w)) s) (\<lambda>(lk, s). Inr (s\<lparr>wc_lock := (wc_lock s)(w := lk)\<rparr>))"

definition assert_hold :: "nat \<Rightarrow> spinlock \<Rightarrow> ('m, 'v) sys \<Rightarrow> unit kres" where
  "assert_hold c lk s = sbind (cpu_view c s) (\<lambda>k. kassert (spinlock_do_i_hold lk k) ''spinlock_do_i_hold'' (Inr ()))"

section \<open>Threads\<close>

definition thread_checkstack_init :: "nat \<Rightarrow> ('m, 'v) sys \<Rightarrow> ('m, 'v) sys" where
  "thread_checkstack_init t s = upd_thread t (\<lambda>th. th\<lparr>t_stack := Some (replicate 4 THREAD_STACK_MAGIC)\<rparr>) s"

definition thread_checkstack :: "thread \<Rightarrow> unit kres" where
  "thread_checkstack th =
     (case t_stack th of None \<Rightarrow> Inr ()
      | Some g \<Rightarrow> kassert (g = replicate 4 THREAD_STACK_MAGIC) ''t_stack == THREAD_STACK_MAGIC'' (Inr ()))"

text \<open>The result of \<^verbatim>\<open>kmalloc\<close>, a thread structure or null, and whether \<^verbatim>\<open>kstrdup\<close> finds memory, are arguments.\<close>

definition thread_create :: "string \<Rightarrow> nat option \<Rightarrow> bool \<Rightarrow> ('m, 'v) sys \<Rightarrow> nat option \<times> ('m, 'v) sys" where
  "thread_create name mem dup s =
     (case mem of None \<Rightarrow> (None, s)
      | Some t \<Rightarrow>
        if \<not> dup then (None, s)
        else (Some t, s\<lparr>threads := (threads s)(t \<mapsto>
          \<lparr>t_name = name, t_wchan_name = Some ''NEW'', t_state = S_READY, tm_badfaultfunc = False, t_stack = None,
           t_context = None, t_cpu = None, t_proc = None, t_in_intr = False, t_spl = IPL_HIGH, t_ipl_count = 1,
           t_adjust = False\<rparr>), tls := threadlistnode_init t (tls s)\<rparr>))"

definition thread_destroy :: "nat \<Rightarrow> nat \<Rightarrow> ('m, 'v) sys \<Rightarrow> ('m, 'v) sys kres" where
  "thread_destroy c t s =
     kassert (t \<noteq> cur c s) ''thread != curthread'' (
     sbind (deref (threads s t)) (\<lambda>th.
     kassert (t_state th \<noteq> S_RUN) ''thread->t_state != S_RUN'' (
     kassert (t_proc th = None) ''thread->t_proc == NULL'' (
     sbind (threadlistnode_cleanup t (tls s)) (\<lambda>_.
     kassert (\<not> tm_badfaultfunc th) ''tm->tm_badfaultfunc == NULL'' (
     Inr (s\<lparr>threads := (threads s)(t := None)\<rparr>)))))))"

partial_function (option) exorcise :: "nat \<Rightarrow> ('m, 'v) sys \<Rightarrow> ('m, 'v) sys kres option" where
  "exorcise c s =
     (case threadlist_remhead (c_zombies c) (tls s) of
        Inl e \<Rightarrow> Some (Inl e)
      | Inr (z, q) \<Rightarrow>
        (let s = s\<lparr>tls := q\<rparr>
         in case z of None \<Rightarrow> Some (Inr s)
            | Some z \<Rightarrow>
              (case sbind (deref (threads s z)) (\<lambda>th.
                     kassert (z \<noteq> cur c s) ''z != curthread'' (
                     kassert (t_state th = S_ZOMBIE) ''z->t_state == S_ZOMBIE'' (thread_destroy c z s))) of
                 Inl e \<Rightarrow> Some (Inl e)
               | Inr s \<Rightarrow> exorcise c s)))"

text \<open>\<^verbatim>\<open>proc_addthread\<close> and \<^verbatim>\<open>proc_remthread\<close>, with the counters of threads of the processes. The lock of the
  process protects the update of the counter and is free again after it.\<close>

definition attach_thread :: "nat \<Rightarrow> nat \<Rightarrow> ('m, 'v) sys \<Rightarrow> ('m, 'v) sys kres" where
  "attach_thread p t s =
     sbind (deref (threads s t)) (\<lambda>th.
     kassert (t_proc th = None) ''t->t_proc == NULL'' (
     let s = s\<lparr>p_numthreads := (p_numthreads s)(p := p_numthreads s p + 1)\<rparr>
     in Inr (upd_thread t (\<lambda>th. th\<lparr>t_proc := Some p\<rparr>) s)))"

definition detach_thread :: "nat \<Rightarrow> ('m, 'v) sys \<Rightarrow> ('m, 'v) sys kres" where
  "detach_thread t s =
     sbind (deref (threads s t)) (\<lambda>th.
     kassert (t_proc th \<noteq> None) ''proc != NULL'' (
     sbind (deref (t_proc th)) (\<lambda>p.
     kassert (p_numthreads s p > 0) ''proc->p_numthreads > 0'' (
     let s = s\<lparr>p_numthreads := (p_numthreads s)(p := p_numthreads s p - 1)\<rparr>
     in Inr (upd_thread t (\<lambda>th. th\<lparr>t_proc := None\<rparr>) s)))))"

definition switchframe_init :: "nat \<Rightarrow> ('m, 'v) sys \<Rightarrow> ('m, 'v) sys" where
  "switchframe_init t s = upd_thread t (\<lambda>th. th\<lparr>t_context := Some Startup\<rparr>) s"

text \<open>Sending the signal to the other processor, \<^verbatim>\<open>mainbus_send_ipi\<close>, has no effect on the memory.\<close>

definition ipi_send :: "nat \<Rightarrow> nat \<Rightarrow> nat \<Rightarrow> ('m, 'v) sys \<Rightarrow> ('m, 'v) sys kres" where
  "ipi_send c target code s =
     kassert (code < 32) ''code >= 0 && code < 32'' (
     sbind (ipi_acquire c target s) (\<lambda>s.
     let s = upd_cpu target (\<lambda>p. p\<lparr>c_ipi_pending := c_ipi_pending p OR push_bit code 1\<rparr>) s
     in ipi_release c target s))"

definition thread_make_runnable :: "nat \<Rightarrow> nat \<Rightarrow> bool \<Rightarrow> ('m, 'v) sys \<Rightarrow> ('m, 'v) sys kres" where
  "thread_make_runnable c target already_have_lock s =
     sbind (deref (threads s target)) (\<lambda>th.
     sbind (deref (t_cpu th)) (\<lambda>targetcpu.
     sbind (if already_have_lock then
              sbind (assert_hold c (c_runqueue_lock (cpus s targetcpu)) s) (\<lambda>_. Inr s)
            else rq_acquire c targetcpu s) (\<lambda>s.
     let s = upd_thread target (\<lambda>th. th\<lparr>t_state := S_READY\<rparr>) s
     in sbind (on_lists (threadlist_addtail (c_runqueue targetcpu) target) s) (\<lambda>s.
     sbind (if c_isidle (cpus s targetcpu) \<and> targetcpu \<noteq> c then ipi_send c targetcpu IPI_UNIDLE s else Inr s) (\<lambda>s.
     if already_have_lock then Inr s else rq_release c targetcpu s)))))"

definition thread_fork ::
  "nat \<Rightarrow> string \<Rightarrow> nat option \<Rightarrow> nat option \<Rightarrow> bool \<Rightarrow> bool \<Rightarrow> ('m, 'v) sys \<Rightarrow> (errno \<times> ('m, 'v) sys) kres" where
  "thread_fork c name proc mem dup stack s =
     (case thread_create name mem dup s of
        (None, s) \<Rightarrow> Inr (ENOMEM, s)
      | (Some newthread, s) \<Rightarrow>
        if \<not> stack then sbind (thread_destroy c newthread s) (\<lambda>s. Inr (ENOMEM, s))
        else
          let s = thread_checkstack_init newthread s
          in sbind (deref (threads s (cur c s))) (\<lambda>me.
             let s = upd_thread newthread (\<lambda>th. th\<lparr>t_cpu := t_cpu me\<rparr>) s
             in sbind (deref (case proc of None \<Rightarrow> t_proc me | Some p \<Rightarrow> Some p)) (\<lambda>p.
                sbind (attach_thread p newthread s) (\<lambda>s.
                let s = upd_thread newthread (\<lambda>th. th\<lparr>t_ipl_count := t_ipl_count th + 1\<rparr>) s;
                    s = switchframe_init newthread s
                in sbind (thread_make_runnable c newthread False s) (\<lambda>s. Inr (0, s))))))"

definition cpu_create :: "nat \<Rightarrow> bool \<Rightarrow> nat option \<Rightarrow> bool \<Rightarrow> bool \<Rightarrow> ('m, 'v) sys \<Rightarrow> ('m, 'v) sys kres" where
  "cpu_create kproc mem_c mem dup stack s =
     (if \<not> mem_c then Inl (Panic ''cpu_create: Out of memory'')
      else
        let c = numcpus s;
            s = s\<lparr>tls := threadlist_init (c_runqueue c) (threadlist_init (c_zombies c) (tls s)), numcpus := c + 1\<rparr>
        in case thread_create ''<boot #>'' mem dup s of
             (None, s) \<Rightarrow> Inl (Panic ''cpu_create: thread_create failed'')
           | (Some t, s) \<Rightarrow>
             let s = s\<lparr>cpus := (cpus s)(c := \<lparr>c_curthread = t, c_hardclocks = 0, c_spins = 0, c_irq = False,
                   c_isidle = False, c_runqueue_lock = spinlock_init, c_ipi_pending = 0, c_shootdown = [],
                   c_ipi_lock = spinlock_init, c_frame = 0, c_pc = Plain\<rparr>)\<rparr>;
                 s = upd_thread t (\<lambda>th. th\<lparr>t_cpu := Some c\<rparr>) s
             in if c \<noteq> 0 \<and> \<not> stack then Inl (Panic ''cpu_create: couldn't allocate stack'')
                else
                  let s = (if c = 0 then s else thread_checkstack_init t s)
                  in sbind (attach_thread kproc t s) (\<lambda>s. kassert (c < MAXCPUS) ''c->c_number < MAXCPUS'' (Inr s)))"

section \<open>Context switch\<close>

definition activate :: "('m, 'v) vm_ops \<Rightarrow> nat \<Rightarrow> ('m, 'v) sys \<Rightarrow> ('m, 'v) sys kres" where
  "activate ops c s =
     sbind (deref (threads s (cur c s))) (\<lambda>th.
     sbind (vm_activate ops (t_proc th) (sys_vm s)) (\<lambda>v. Inr (s\<lparr>sys_vm := v\<rparr>)))"

text \<open>The end of \<^verbatim>\<open>thread_switch\<close>, in the thread that runs now, and its counterpart for new threads.\<close>

definition switch_tail :: "('m, 'v) vm_ops \<Rightarrow> nat \<Rightarrow> int \<Rightarrow> ('m, 'v) sys \<Rightarrow> ('m, 'v) sys kres" where
  "switch_tail ops c spl s =
     (let s = upd_thread (cur c s) (\<lambda>th. th\<lparr>t_wchan_name := None, t_state := S_RUN\<rparr>) s
      in sbind (rq_release c c s) (\<lambda>s.
         sbind (activate ops c s) (\<lambda>s.
         sbind (loop_result (exorcise c s)) (\<lambda>s.
         sbind (set_spl c spl s) (\<lambda>(_, s). Inr s)))))"

definition thread_startup :: "('m, 'v) vm_ops \<Rightarrow> nat \<Rightarrow> ('m, 'v) sys \<Rightarrow> ('m, 'v) sys kres" where
  "thread_startup ops c s =
     (let s = upd_thread (cur c s) (\<lambda>th. th\<lparr>t_wchan_name := None, t_state := S_RUN\<rparr>) s
      in sbind (rq_release c c s) (\<lambda>s.
         sbind (activate ops c s) (\<lambda>s.
         sbind (loop_result (exorcise c s)) (\<lambda>s.
         sbind (set_spl c IPL_NONE s) (\<lambda>(_, s). Inr s)))))"

text \<open>One round of the loop for the next thread, with the run queue locked: without one the CPU gives the lock back
  and waits for an interrupt, with one it switches to its stack.\<close>

definition switch_pick :: "('m, 'v) vm_ops \<Rightarrow> nat \<Rightarrow> ('m, 'v) sys \<Rightarrow> ('m, 'v) sys kres" where
  "switch_pick ops c s =
     sbind (threadlist_remhead (c_runqueue c) (tls s)) (\<lambda>(n, q).
     let s = s\<lparr>tls := q\<rparr>
     in case n of None \<Rightarrow> rq_release c c s
        | Some n \<Rightarrow>
          let spl = c_frame (cpus s c); old = cur c s;
              s = upd_cpu c (\<lambda>p. p\<lparr>c_isidle := False, c_curthread := n\<rparr>) s;
              s = upd_thread old (\<lambda>th. th\<lparr>t_context := Some (InSwitch spl)\<rparr>) s
          in sbind (deref (threads s n)) (\<lambda>th.
             sbind (deref (t_context th)) (\<lambda>f.
             case f of Startup \<Rightarrow> thread_startup ops c s | InSwitch spl \<Rightarrow> switch_tail ops c spl s)))"

definition idle_wake :: "('m, 'v) vm_ops \<Rightarrow> nat \<Rightarrow> ('m, 'v) sys \<Rightarrow> ('m, 'v) sys kres" where
  "idle_wake ops c s = sbind (rq_acquire c c s) (switch_pick ops c)"

text \<open>\<^verbatim>\<open>Put the thread in the right place.\<close>\<close>

definition put_away :: "nat \<Rightarrow> threadstate \<Rightarrow> nat \<Rightarrow> ('m, 'v) sys \<Rightarrow> ('m, 'v) sys kres" where
  "put_away c newstate wc s =
     (case newstate of
        S_RUN \<Rightarrow> Inl (Panic ''Illegal S_RUN in thread_switch'')
      | S_READY \<Rightarrow> thread_make_runnable c (cur c s) True s
      | S_SLEEP \<Rightarrow>
        let s = upd_thread (cur c s) (\<lambda>th. th\<lparr>t_wchan_name := Some (wc_name s wc)\<rparr>) s
        in sbind (on_lists (threadlist_addtail (wc_threads wc) (cur c s)) s) (wc_release c wc)
      | S_ZOMBIE \<Rightarrow>
        let s = upd_thread (cur c s) (\<lambda>th. th\<lparr>t_wchan_name := Some ''ZOMBIE''\<rparr>) s
        in on_lists (threadlist_addtail (c_zombies c) (cur c s)) s)"

definition thread_switch :: "('m, 'v) vm_ops \<Rightarrow> nat \<Rightarrow> threadstate \<Rightarrow> nat \<Rightarrow> ('m, 'v) sys \<Rightarrow> ('m, 'v) sys kres" where
  "thread_switch ops c newstate wc s =
     sbind (set_spl c IPL_HIGH s) (\<lambda>(spl, s).
     if c_isidle (cpus s c) then sbind (set_spl c spl s) (\<lambda>(_, s). Inr s)
     else
       sbind (deref (threads s (cur c s))) (\<lambda>th.
       sbind (thread_checkstack th) (\<lambda>_.
       sbind (rq_acquire c c s) (\<lambda>s.
       if newstate = S_READY \<and> threadlist_isempty (c_runqueue c) (tls s) then
         sbind (rq_release c c s) (\<lambda>s. sbind (set_spl c spl s) (\<lambda>(_, s). Inr s))
       else
         sbind (put_away c newstate wc s) (\<lambda>s.
         let s = upd_thread (cur c s) (\<lambda>th. th\<lparr>t_state := newstate\<rparr>) s;
             s = upd_cpu c (\<lambda>p. p\<lparr>c_isidle := True, c_frame := spl\<rparr>) s
         in switch_pick ops c s)))))"

definition thread_yield :: "('m, 'v) vm_ops \<Rightarrow> nat \<Rightarrow> ('m, 'v) sys \<Rightarrow> ('m, 'v) sys kres" where
  "thread_yield ops c s = thread_switch ops c S_READY 0 s"

text \<open>\<^verbatim>\<open>thread_exit\<close> comes back to its caller only when the CPU is idle. It is one step: an interrupt between the
  detaching of the thread and \<^verbatim>\<open>splhigh\<close> is not modelled.\<close>

definition thread_exit :: "('m, 'v) vm_ops \<Rightarrow> nat \<Rightarrow> ('m, 'v) sys \<Rightarrow> ('m, 'v) sys kres" where
  "thread_exit ops c s =
     sbind (detach_thread (cur c s) s) (\<lambda>s.
     sbind (deref (threads s (cur c s))) (\<lambda>th.
     kassert (t_proc th = None) ''cur->t_proc == NULL'' (
     sbind (thread_checkstack th) (\<lambda>_.
     sbind (set_spl c IPL_HIGH s) (\<lambda>(_, s).
     sbind (thread_switch ops c S_ZOMBIE 0 s) (\<lambda>s'.
     if c_isidle (cpus s c) then Inl (Panic ''braaaaaaaiiiiiiiiiiinssssss'') else Inr s'))))))"

section \<open>Wait channels\<close>

definition wch_create :: "nat \<Rightarrow> string \<Rightarrow> ('m, 'v) sys \<Rightarrow> ('m, 'v) sys" where
  "wch_create w name s =
     s\<lparr>tls := threadlist_init (wc_threads w) (tls s), wchans := insert w (wchans s), wc_name := (wc_name s)(w := name)\<rparr>"

definition wch_destroy :: "nat \<Rightarrow> ('m, 'v) sys \<Rightarrow> ('m, 'v) sys kres" where
  "wch_destroy w s =
     sbind (threadlist_cleanup (wc_threads w) (tls s)) (\<lambda>_. Inr (s\<lparr>wchans := wchans s - {w}\<rparr>))"

text \<open>The lock is taken again by the thread when it has been woken and runs.\<close>

definition wch_sleep :: "('m, 'v) vm_ops \<Rightarrow> nat \<Rightarrow> nat \<Rightarrow> ('m, 'v) sys \<Rightarrow> ('m, 'v) sys kres" where
  "wch_sleep ops c w s =
     sbind (deref (threads s (cur c s))) (\<lambda>th.
     kassert (\<not> t_in_intr th) ''!curthread->t_in_interrupt'' (
     sbind (assert_hold c (wc_lock s w) s) (\<lambda>_.
     kassert (c_spins (cpus s c) = 1) ''curcpu->c_spinlocks == 1'' (
     thread_switch ops c S_SLEEP w s))))"

definition wch_wakeone :: "nat \<Rightarrow> nat \<Rightarrow> ('m, 'v) sys \<Rightarrow> ('m, 'v) sys kres" where
  "wch_wakeone c w s =
     sbind (assert_hold c (wc_lock s w) s) (\<lambda>_.
     sbind (threadlist_remhead (wc_threads w) (tls s)) (\<lambda>(target, q).
     let s = s\<lparr>tls := q\<rparr>
     in case target of None \<Rightarrow> Inr s | Some target \<Rightarrow> thread_make_runnable c target False s))"

text \<open>The two loops of \<^verbatim>\<open>wchan_wakeall\<close>. The first moves all sleepers to the private list, under the lock of the
  channel; the second makes one thread runnable in each round.\<close>

partial_function (option) take_all :: "nat \<Rightarrow> nat \<Rightarrow> tl_store \<Rightarrow> tl_store kres option" where
  "take_all l l' q =
     (case threadlist_remhead l q of
        Inl e \<Rightarrow> Some (Inl e)
      | Inr (t, q) \<Rightarrow>
        (case t of None \<Rightarrow> Some (Inr q)
         | Some t \<Rightarrow> (case threadlist_addtail l' t q of Inl e \<Rightarrow> Some (Inl e) | Inr q \<Rightarrow> take_all l l' q)))"

definition set_pc :: "nat \<Rightarrow> cpu_pc \<Rightarrow> ('m, 'v) sys \<Rightarrow> ('m, 'v) sys" where
  "set_pc c pc s = upd_cpu c (\<lambda>p. p\<lparr>c_pc := pc\<rparr>) s"

definition wch_wakeall :: "nat \<Rightarrow> nat \<Rightarrow> ('m, 'v) sys \<Rightarrow> ('m, 'v) sys kres" where
  "wch_wakeall c w s =
     sbind (assert_hold c (wc_lock s w) s) (\<lambda>_.
     let s = s\<lparr>tls := threadlist_init (victims c) (tls s)\<rparr>
     in sbind (on_lists (\<lambda>q. loop_result (take_all (wc_threads w) (victims c) q)) s) (\<lambda>s.
        Inr (set_pc c (Waking w) s)))"

definition wakeall_next :: "nat \<Rightarrow> ('m, 'v) sys \<Rightarrow> ('m, 'v) sys kres" where
  "wakeall_next c s =
     sbind (threadlist_remhead (victims c) (tls s)) (\<lambda>(target, q).
     let s = s\<lparr>tls := q\<rparr>
     in case target of
          None \<Rightarrow> sbind (threadlist_cleanup (victims c) (tls s)) (\<lambda>_. Inr (set_pc c Plain s))
        | Some target \<Rightarrow> thread_make_runnable c target False s)"

section \<open>Timer interrupt and migration\<close>

fun take_victims :: "nat \<Rightarrow> nat \<Rightarrow> tl_store \<Rightarrow> tl_store kres" where
  "take_victims c 0 q = Inr q"
| "take_victims c (Suc n) q =
     sbind (threadlist_remtail (c_runqueue c) q) (\<lambda>(t, q).
     sbind (deref t) (\<lambda>t.
     sbind (threadlist_addhead (victims c) t q) (take_victims c n)))"

fun send_victims :: "nat \<Rightarrow> nat \<Rightarrow> u32 \<Rightarrow> nat \<Rightarrow> ('m, 'v) sys \<Rightarrow> (nat \<times> ('m, 'v) sys) kres" where
  "send_victims c d one_share 0 s = Inr (0, s)"
| "send_victims c d one_share (Suc to_send) s =
     (if tl_count (tls s) (c_runqueue d) < one_share then
        sbind (threadlist_remhead (victims c) (tls s)) (\<lambda>(t, q).
        let s = s\<lparr>tls := q\<rparr>
        in sbind (deref t) (\<lambda>t.
           if t = cur c s then
             sbind (on_lists (threadlist_addtail (victims c) t) s) (send_victims c d one_share to_send)
           else
             let s = upd_thread t (\<lambda>th. th\<lparr>t_cpu := Some d\<rparr>) s
             in sbind (on_lists (threadlist_addtail (c_runqueue d) t) s) (\<lambda>s.
                sbind (if c_isidle (cpus s d) then ipi_send c d IPI_UNIDLE s else Inr s)
                  (send_victims c d one_share to_send))))
      else Inr (Suc to_send, s))"

definition finish_hardclock :: "('m, 'v) vm_ops \<Rightarrow> nat \<Rightarrow> ('m, 'v) sys \<Rightarrow> ('m, 'v) sys kres" where
  "finish_hardclock ops c s = thread_yield ops c (set_pc c Plain s)"

definition migrate_count :: "('m, 'v) vm_ops \<Rightarrow> nat \<Rightarrow> nat \<Rightarrow> u32 \<Rightarrow> u32 \<Rightarrow> ('m, 'v) sys \<Rightarrow> ('m, 'v) sys kres" where
  "migrate_count ops c i my_count total_count s =
     (if i < numcpus s then
        sbind (rq_acquire c i s) (\<lambda>s.
        let n = tl_count (tls s) (c_runqueue i);
            s = set_pc c (Counting (Suc i) (if i = c then n else my_count) (total_count + n)) s
        in rq_release c i s)
      else
        let one_share = (total_count + of_nat (numcpus s) - 1) div of_nat (numcpus s)
        in if my_count < one_share then finish_hardclock ops c s
           else
             let to_send = my_count - one_share;
                 s = s\<lparr>tls := threadlist_init (victims c) (tls s)\<rparr>
             in sbind (rq_acquire c c s) (\<lambda>s.
                sbind (on_lists (take_victims c (unat to_send)) s) (\<lambda>s.
                rq_release c c (set_pc c (Sending 0 one_share (unat to_send)) s))))"

definition migrate_send :: "('m, 'v) vm_ops \<Rightarrow> nat \<Rightarrow> nat \<Rightarrow> u32 \<Rightarrow> nat \<Rightarrow> ('m, 'v) sys \<Rightarrow> ('m, 'v) sys kres" where
  "migrate_send ops c i one_share to_send s =
     (if i < numcpus s \<and> to_send > 0 then
        if i = c then Inr (set_pc c (Sending (Suc i) one_share to_send) s)
        else
          sbind (rq_acquire c i s) (\<lambda>s.
          sbind (send_victims c i one_share to_send s) (\<lambda>(to_send, s).
          rq_release c i (set_pc c (Sending (Suc i) one_share to_send) s)))
      else
        sbind (if \<not> threadlist_isempty (victims c) (tls s) then
                 sbind (rq_acquire c c s) (\<lambda>s.
                 sbind (on_lists (\<lambda>q. loop_result (take_all (victims c) (c_runqueue c) q)) s) (rq_release c c))
               else Inr s) (\<lambda>s.
        kassert (threadlist_isempty (victims c) (tls s)) ''threadlist_isempty(&victims)'' (
        sbind (threadlist_cleanup (victims c) (tls s)) (\<lambda>_. finish_hardclock ops c s))))"

definition hardclock :: "('m, 'v) vm_ops \<Rightarrow> nat \<Rightarrow> ('m, 'v) sys \<Rightarrow> ('m, 'v) sys kres" where
  "hardclock ops c s =
     sbind (vm_lru ops (sys_vm s)) (\<lambda>v.
     let s = s\<lparr>sys_vm := v\<rparr>;
         s = upd_cpu c (\<lambda>p. p\<lparr>c_hardclocks := c_hardclocks p + 1\<rparr>) s
     in if c_hardclocks (cpus s c) mod MIGRATE_HARDCLOCKS = 0 then Inr (set_pc c (Counting 0 0 0) s)
        else thread_yield ops c s)"

section \<open>Interrupts\<close>

text \<open>The interrupt part of \<^verbatim>\<open>mips_trap\<close>, up to and after the call of \<^verbatim>\<open>mainbus_interrupt\<close>. The processor turns
  interrupts off, and restores the bit when it returns from the exception.\<close>

definition intr_enter :: "nat \<Rightarrow> ('m, 'v) sys \<Rightarrow> ('m, 'v) sys kres" where
  "intr_enter c s =
     sbind (deref (threads s (cur c s))) (\<lambda>th.
     let s = upd_cpu c (\<lambda>p. p\<lparr>c_irq := False\<rparr>) s;
         s = upd_thread (cur c s) (\<lambda>th. th\<lparr>t_in_intr := True\<rparr>) s
     in if t_spl th = 0 then
          kassert (t_ipl_count th = 0) ''curthread->t_iplhigh_count == 0'' (
          Inr (upd_thread (cur c s) (\<lambda>th. th\<lparr>t_spl := IPL_HIGH, t_ipl_count := t_ipl_count th + 1, t_adjust := True\<rparr>) s))
        else Inr (upd_thread (cur c s) (\<lambda>th. th\<lparr>t_adjust := False\<rparr>) s))"

definition intr_exit :: "nat \<Rightarrow> ('m, 'v) sys \<Rightarrow> ('m, 'v) sys kres" where
  "intr_exit c s =
     sbind (deref (threads s (cur c s))) (\<lambda>th.
     if t_adjust th then
       kassert (t_spl th = IPL_HIGH) ''curthread->t_curspl == IPL_HIGH'' (
       kassert (t_ipl_count th = 1) ''curthread->t_iplhigh_count == 1'' (
       let s = upd_thread (cur c s) (\<lambda>th. th\<lparr>t_spl := 0, t_ipl_count := t_ipl_count th - 1, t_in_intr := False\<rparr>) s
       in Inr (upd_cpu c (\<lambda>p. p\<lparr>c_irq := True\<rparr>) s)))
     else Inr (upd_thread (cur c s) (\<lambda>th. th\<lparr>t_in_intr := False\<rparr>) s))"

definition ipi_tlbshootdown :: "nat \<Rightarrow> nat \<Rightarrow> 'm \<Rightarrow> ('m, 'v) sys \<Rightarrow> ('m, 'v) sys kres" where
  "ipi_tlbshootdown c target mapping s =
     sbind (ipi_acquire c target s) (\<lambda>s.
     if length (c_shootdown (cpus s target)) = TLBSHOOTDOWN_MAX then
       Inl (Panic ''ipi_tlbshootdown: Too many shootdowns queued'')
     else
       let s = upd_cpu target (\<lambda>p. p\<lparr>c_shootdown := c_shootdown p @ [mapping]\<rparr>) s;
           s = upd_cpu target (\<lambda>p. p\<lparr>c_ipi_pending := c_ipi_pending p OR push_bit IPI_TLBSHOOTDOWN 1\<rparr>) s
       in ipi_release c target s)"

definition ipi_broadcast :: "nat \<Rightarrow> nat \<Rightarrow> ('m, 'v) sys \<Rightarrow> ('m, 'v) sys kres" where
  "ipi_broadcast c code s = kfor [0..<numcpus s] (\<lambda>i s. if i \<noteq> c then ipi_send c i code s else Inr s) s"

definition thread_shutdown :: "nat \<Rightarrow> ('m, 'v) sys \<Rightarrow> ('m, 'v) sys kres" where
  "thread_shutdown c s = ipi_broadcast c IPI_OFFLINE s"

definition thread_panic :: "nat \<Rightarrow> ('m, 'v) sys \<Rightarrow> ('m, 'v) sys kres" where
  "thread_panic c s =
     sbind (ipi_broadcast c IPI_PANIC s) (\<lambda>s.
     let l = c_runqueue c;
         q = (tls s)\<lparr>tl_count := (tl_count (tls s))(l := 0)\<rparr>
     in Inr (s\<lparr>tls := set_prev (LTail l) (Some (LHead l)) (set_next (LHead l) (Some (LTail l)) q)\<rparr>))"

text \<open>Whether the CPU halts, and the new state.\<close>

definition interprocessor_interrupt :: "('m, 'v) vm_ops \<Rightarrow> nat \<Rightarrow> ('m, 'v) sys \<Rightarrow> (bool \<times> ('m, 'v) sys) kres" where
  "interprocessor_interrupt ops c s =
     sbind (ipi_acquire c c s) (\<lambda>s.
     let bits = c_ipi_pending (cpus s c)
     in if bit bits IPI_PANIC then sbind (ipi_release c c s) (\<lambda>s. Inr (True, s))
        else if bit bits IPI_OFFLINE then
          sbind (ipi_release c c s) (\<lambda>s.
          sbind (rq_acquire c c s) (\<lambda>s.
          sbind (rq_release c c s) (\<lambda>s. Inr (True, s))))
        else
          sbind (if bit bits IPI_TLBSHOOTDOWN then
                   sbind (kfor (c_shootdown (cpus s c)) (\<lambda>m s.
                     sbind (vm_shootdown ops m (sys_vm s)) (\<lambda>v. Inr (s\<lparr>sys_vm := v\<rparr>))) s) (\<lambda>s.
                   Inr (upd_cpu c (\<lambda>p. p\<lparr>c_shootdown := []\<rparr>) s))
                 else Inr s) (\<lambda>s.
          let s = upd_cpu c (\<lambda>p. p\<lparr>c_ipi_pending := 0\<rparr>) s
          in sbind (ipi_release c c s) (\<lambda>s. Inr (False, s))))"

section \<open>Interleaving of the CPUs\<close>

definition in_intr :: "nat \<Rightarrow> ('m, 'v) sys \<Rightarrow> bool" where
  "in_intr c s \<longleftrightarrow> (case threads s (cur c s) of None \<Rightarrow> False | Some th \<Rightarrow> t_in_intr th)"

definition snd_kres :: "('a \<times> 'b) kres \<Rightarrow> 'b kres" where
  "snd_kres r = sbind r (\<lambda>(_, s). Inr s)"

text \<open>A step of CPU \<open>c\<close>: a piece of code that its current thread, its idle loop or an interrupt handler runs. The
  guards are what the callers owe: a wait channel is used with its lock held, a thread gives the CPU away without
  other spinlocks and not in an interrupt handler, a new thread structure is not in use. A CPU that has to wait for a
  lock does not step.\<close>

inductive sched_step :: "('m, 'v) vm_ops \<Rightarrow> ('m, 'v) sys \<Rightarrow> ('m, 'v) sys kres \<Rightarrow> bool" for ops where
  step_lock: "c < numcpus s \<Longrightarrow> c_pc (cpus s c) = Plain \<Longrightarrow> \<not> c_isidle (cpus s c) \<or> in_intr c s \<Longrightarrow> w \<in> wchans s \<Longrightarrow>
    splk_lock (wc_lock s w) = 0 \<Longrightarrow> sched_step ops s (wc_acquire c w s)"
| step_unlock: "c < numcpus s \<Longrightarrow> c_pc (cpus s c) = Plain \<Longrightarrow> splk_holder (wc_lock s w) = Some c \<Longrightarrow>
    sched_step ops s (wc_release c w s)"
| step_spl: "c < numcpus s \<Longrightarrow> c_pc (cpus s c) = Plain \<Longrightarrow> \<not> c_isidle (cpus s c) \<Longrightarrow> \<not> in_intr c s \<Longrightarrow>
    spl \<in> {IPL_NONE, IPL_HIGH} \<Longrightarrow> sched_step ops s (snd_kres (set_spl c spl s))"
| step_create: "w \<notin> wchans s \<Longrightarrow> sched_step ops s (Inr (wch_create w name s))"
| step_destroy: "w \<in> wchans s \<Longrightarrow> threadlist_isempty (wc_threads w) (tls s) \<Longrightarrow> splk_holder (wc_lock s w) = None \<Longrightarrow>
    sched_step ops s (wch_destroy w s)"
| step_sleep: "c < numcpus s \<Longrightarrow> c_pc (cpus s c) = Plain \<Longrightarrow> \<not> c_isidle (cpus s c) \<Longrightarrow> \<not> in_intr c s \<Longrightarrow>
    splk_holder (wc_lock s w) = Some c \<Longrightarrow> c_spins (cpus s c) = 1 \<Longrightarrow> sched_step ops s (wch_sleep ops c w s)"
| step_wakeone: "c < numcpus s \<Longrightarrow> c_pc (cpus s c) = Plain \<Longrightarrow> splk_holder (wc_lock s w) = Some c \<Longrightarrow>
    sched_step ops s (wch_wakeone c w s)"
| step_wakeall: "c < numcpus s \<Longrightarrow> c_pc (cpus s c) = Plain \<Longrightarrow> splk_holder (wc_lock s w) = Some c \<Longrightarrow>
    sched_step ops s (wch_wakeall c w s)"
| step_wakeall_next: "c < numcpus s \<Longrightarrow> c_pc (cpus s c) = Waking w \<Longrightarrow> sched_step ops s (wakeall_next c s)"
| step_fork: "c < numcpus s \<Longrightarrow> c_pc (cpus s c) = Plain \<Longrightarrow> \<not> c_isidle (cpus s c) \<Longrightarrow>
    (\<forall>t. mem = Some t \<longrightarrow> threads s t = None \<and> 0 < t \<and> t < 2 ^ 32) \<Longrightarrow>
    sched_step ops s (snd_kres (thread_fork c name proc mem dup stack s))"
| step_cpu: "numcpus s < MAXCPUS \<Longrightarrow> threads s t = None \<Longrightarrow> 0 < t \<Longrightarrow> t < 2 ^ 32 \<Longrightarrow>
    sched_step ops s (cpu_create kproc True (Some t) True True s)"
| step_yield: "c < numcpus s \<Longrightarrow> c_pc (cpus s c) = Plain \<Longrightarrow> \<not> c_isidle (cpus s c) \<Longrightarrow> c_spins (cpus s c) = 0 \<Longrightarrow>
    sched_step ops s (thread_yield ops c s)"
| step_exit: "c < numcpus s \<Longrightarrow> c_pc (cpus s c) = Plain \<Longrightarrow> \<not> c_isidle (cpus s c) \<Longrightarrow> \<not> in_intr c s \<Longrightarrow>
    c_spins (cpus s c) = 0 \<Longrightarrow> sched_step ops s (thread_exit ops c s)"
| step_idle: "c < numcpus s \<Longrightarrow> c_pc (cpus s c) = Plain \<Longrightarrow> c_isidle (cpus s c) \<Longrightarrow> \<not> in_intr c s \<Longrightarrow>
    sched_step ops s (idle_wake ops c s)"
| step_intr: "c < numcpus s \<Longrightarrow> c_pc (cpus s c) = Plain \<Longrightarrow> c_irq (cpus s c) \<or> c_isidle (cpus s c) \<Longrightarrow> \<not> in_intr c s \<Longrightarrow>
    sched_step ops s (intr_enter c s)"
| step_intr_end: "c < numcpus s \<Longrightarrow> c_pc (cpus s c) = Plain \<Longrightarrow> in_intr c s \<Longrightarrow> c_spins (cpus s c) = 0 \<Longrightarrow>
    sched_step ops s (intr_exit c s)"
| step_hardclock: "c < numcpus s \<Longrightarrow> c_pc (cpus s c) = Plain \<Longrightarrow> in_intr c s \<Longrightarrow> c_spins (cpus s c) = 0 \<Longrightarrow>
    sched_step ops s (hardclock ops c s)"
| step_count: "c < numcpus s \<Longrightarrow> c_pc (cpus s c) = Counting i my_count total_count \<Longrightarrow>
    sched_step ops s (migrate_count ops c i my_count total_count s)"
| step_send: "c < numcpus s \<Longrightarrow> c_pc (cpus s c) = Sending i one_share to_send \<Longrightarrow>
    sched_step ops s (migrate_send ops c i one_share to_send s)"
| step_ipi: "c < numcpus s \<Longrightarrow> c_pc (cpus s c) = Plain \<Longrightarrow> in_intr c s \<Longrightarrow> c_spins (cpus s c) = 0 \<Longrightarrow>
    sched_step ops s (snd_kres (interprocessor_interrupt ops c s))"

text \<open>The memory before \<^verbatim>\<open>thread_bootstrap\<close>, which creates the first CPU and its thread.\<close>

definition sys_empty :: "tl_store \<Rightarrow> 'm cpu \<Rightarrow> 'v \<Rightarrow> ('m, 'v) sys" where
  "sys_empty q k v = \<lparr>cpus = (\<lambda>_. k), numcpus = 0, threads = Map.empty, tls = q, wchans = {}, wc_name = (\<lambda>_. []),
     wc_lock = (\<lambda>_. spinlock_init), p_numthreads = (\<lambda>_. 0), sys_vm = v\<rparr>"

definition thread_bootstrap :: "nat \<Rightarrow> nat \<Rightarrow> tl_store \<Rightarrow> 'm cpu \<Rightarrow> 'v \<Rightarrow> ('m, 'v) sys kres" where
  "thread_bootstrap kproc t q k v = cpu_create kproc True (Some t) True True (sys_empty q k v)"

inductive sched_reach :: "('m, 'v) vm_ops \<Rightarrow> ('m, 'v) sys \<Rightarrow> bool" for ops where
  reach_boot: "0 < t \<Longrightarrow> t < 2 ^ 32 \<Longrightarrow> thread_bootstrap kproc t q k v = Inr s \<Longrightarrow> sched_reach ops s"
| reach_step: "sched_reach ops s \<Longrightarrow> sched_step ops s (Inr s') \<Longrightarrow> sched_reach ops s'"

end
