(* ===== verification/Sched_Inv.thy ===== *)
theory Sched_Inv
  imports Sched
begin

text \<open>
  Safety of the thread system: in every interleaving of the CPUs each thread is in exactly one place, no two CPUs
  run on the same stack, and no assertion of the code fails.
\<close>

section \<open>The invariant\<close>

text \<open>Where a thread is: on a CPU, in a run queue, among the zombies, in the private list of a CPU, asleep on a
  channel, or, in the middle of a function, in none of these.\<close>

datatype place = Running nat | Ready nat | Dead nat | Held nat | Sleeping nat | Nowhere

definition place_ok :: "('m, 'v) sys \<Rightarrow> place \<Rightarrow> nat \<Rightarrow> thread \<Rightarrow> bool" where
  "place_ok s pl t th \<longleftrightarrow> (\<exists>d < numcpus s. t_cpu th = Some d) \<and> (t_proc th = None \<longleftrightarrow> (\<exists>c. pl = Dead c)) \<and>
     (case pl of
        Running c \<Rightarrow> t_cpu th = Some c \<and> cur c s = t \<and> \<not> c_isidle (cpus s c) \<and> t_state th \<in> {S_RUN, S_READY}
      | Ready c \<Rightarrow> t_cpu th = Some c \<and> t_state th = S_READY
      | Dead c \<Rightarrow> t_cpu th = Some c \<and> t_state th = S_ZOMBIE
      | Held c \<Rightarrow> c < numcpus s \<and> (case c_pc (cpus s c) of Waking w \<Rightarrow> t_state th = S_SLEEP
          | Sending i n k \<Rightarrow> t_cpu th = Some c \<and> t_state th = S_READY | _ \<Rightarrow> False)
      | Sleeping w \<Rightarrow> w \<in> wchans s \<and> t_state th = S_SLEEP
      | Nowhere \<Rightarrow> True)"

definition parked :: "thread \<Rightarrow> bool" where
  "parked th \<longleftrightarrow> t_spl th = 1 \<and> t_ipl_count th = 2 \<and> (t_in_intr th \<longrightarrow> t_adjust th) \<and>
     (t_context th = Some Startup \<and> \<not> t_in_intr th \<or>
      (\<exists>x. t_context th = Some (InSwitch x) \<and> (x = 1 \<or> x = 0 \<and> \<not> t_in_intr th)))"

definition thread_inv :: "('m, 'v) sys \<Rightarrow> place \<Rightarrow> nat \<Rightarrow> thread \<Rightarrow> bool" where
  "thread_inv s pl t th \<longleftrightarrow> place_ok s pl t th \<and> \<not> tm_badfaultfunc th \<and>
     (t_stack th = None \<or> t_stack th = Some (replicate 4 THREAD_STACK_MAGIC)) \<and>
     ((\<forall>c < numcpus s. cur c s \<noteq> t) \<longrightarrow> parked th)"

definition held_locks :: "nat \<Rightarrow> ('m, 'v) sys \<Rightarrow> nat set" where
  "held_locks c s = {w. splk_holder (wc_lock s w) = Some c}"

definition spl_ok :: "'m cpu \<Rightarrow> thread \<Rightarrow> bool" where
  "spl_ok k th \<longleftrightarrow> t_spl th \<in> {0, 1} \<and> t_ipl_count th = t_spl th + int (c_spins k) \<and> (c_irq k \<longleftrightarrow> t_ipl_count th = 0) \<and>
     (c_isidle k \<longrightarrow> t_spl th = 1 \<and> c_frame k \<in> {0, 1} \<and> (\<not> t_in_intr th \<longrightarrow> c_spins k = 0)) \<and>
     (t_in_intr th \<longrightarrow> t_spl th = 1 \<and> (t_adjust th \<longleftrightarrow> \<not> c_isidle k))"

definition pc_ok :: "('m, 'v) sys \<Rightarrow> nat \<Rightarrow> thread \<Rightarrow> nat list \<Rightarrow> nat list option \<Rightarrow> bool" where
  "pc_ok s c th r v \<longleftrightarrow>
     (case c_pc (cpus s c) of
        Plain \<Rightarrow> v = None
      | Waking w \<Rightarrow> v \<noteq> None \<and> w \<in> wchans s \<and> splk_holder (wc_lock s w) = Some c
      | Counting i m n \<Rightarrow> v = None \<and> t_in_intr th \<and> c_spins (cpus s c) = 0 \<and> unat m \<le> length r
      | Sending i n k \<Rightarrow> t_in_intr th \<and> c_spins (cpus s c) = 0 \<and> (\<exists>q. v = Some q \<and> k \<le> length q))"

definition cpu_inv :: "('m, 'v) sys \<Rightarrow> (nat \<Rightarrow> place) \<Rightarrow> nat list \<Rightarrow> nat list option \<Rightarrow> nat \<Rightarrow> bool" where
  "cpu_inv s P r v c \<longleftrightarrow>
     (\<exists>th. threads s (cur c s) = Some th \<and> t_cpu th = Some c \<and> spl_ok (cpus s c) th \<and> pc_ok s c th r v) \<and>
     c_runqueue_lock (cpus s c) = spinlock_init \<and> c_ipi_lock (cpus s c) = spinlock_init \<and>
     c_ipi_pending (cpus s c) \<in> {0, 4} \<and> c_shootdown (cpus s c) = [] \<and>
     c_spins (cpus s c) = card (held_locks c s) \<and> (\<not> c_isidle (cpus s c) \<longrightarrow> P (cur c s) = Running c)"

definition locks_inv :: "('m, 'v) sys \<Rightarrow> bool" where
  "locks_inv s \<longleftrightarrow> finite (wchans s) \<and>
     (\<forall>w. wc_lock s w = spinlock_init \<or> w \<in> wchans s \<and> (\<exists>c < numcpus s. wc_lock s w = held_by c))"

definition procs_inv :: "('m, 'v) sys \<Rightarrow> bool" where
  "procs_inv s \<longleftrightarrow> (\<forall>p. p_numthreads s p = of_nat (card {t. \<exists>th. threads s t = Some th \<and> t_proc th = Some p}))"

text \<open>The contents of the lists of the store.\<close>

definition qmap :: "nat \<Rightarrow> (nat \<Rightarrow> nat list) \<Rightarrow> (nat \<Rightarrow> nat list) \<Rightarrow> (nat \<Rightarrow> nat list option) \<Rightarrow> (nat \<Rightarrow> nat list option) \<Rightarrow>
    nat \<Rightarrow> nat list option" where
  "qmap n R Z V W l =
     (if l mod 4 = 0 then if l div 4 < n then Some (R (l div 4)) else None
      else if l mod 4 = 1 then if l div 4 < n then Some (Z (l div 4)) else None
      else if l mod 4 = 2 then if l div 4 < n then V (l div 4) else None
      else W (l div 4))"

definition at_place :: "('m, 'v) sys \<Rightarrow> (nat \<Rightarrow> place) \<Rightarrow> place \<Rightarrow> nat set" where
  "at_place s P pl = {t \<in> dom (threads s). P t = pl}"

definition lists_inv :: "('m, 'v) sys \<Rightarrow> (nat \<Rightarrow> place) \<Rightarrow> (nat \<Rightarrow> nat list) \<Rightarrow> (nat \<Rightarrow> nat list) \<Rightarrow>
    (nat \<Rightarrow> nat list option) \<Rightarrow> (nat \<Rightarrow> nat list option) \<Rightarrow> bool" where
  "lists_inv s P R Z V W \<longleftrightarrow>
     tl_rep (tls s) (dom (threads s)) (qmap (numcpus s) R Z V W) \<and> dom (threads s) \<subseteq> {0<..<2 ^ 32} \<and> dom W = wchans s \<and>
     (\<forall>c < numcpus s. set (R c) = at_place s P (Ready c) \<and> set (Z c) = at_place s P (Dead c) \<and>
        (\<forall>q. V c = Some q \<longrightarrow> set q = at_place s P (Held c))) \<and>
     (\<forall>w q. W w = Some q \<longrightarrow> set q = at_place s P (Sleeping w))"

definition sched_inv :: "('m, 'v) sys \<Rightarrow> (nat \<Rightarrow> place) \<Rightarrow> (nat \<Rightarrow> nat list) \<Rightarrow> (nat \<Rightarrow> nat list) \<Rightarrow>
    (nat \<Rightarrow> nat list option) \<Rightarrow> (nat \<Rightarrow> nat list option) \<Rightarrow> bool" where
  "sched_inv s P R Z V W \<longleftrightarrow> numcpus s \<le> MAXCPUS \<and> lists_inv s P R Z V W \<and> locks_inv s \<and> procs_inv s \<and>
     (\<forall>t th. threads s t = Some th \<longrightarrow> thread_inv s (P t) t th) \<and>
     (\<forall>c < numcpus s. cpu_inv s P (R c) (V c) c)"

section \<open>Locks\<close>

text \<open>The effect of a spinlock operation on the CPU and on its current thread.\<close>

definition hold :: "nat \<Rightarrow> ('m, 'v) sys \<Rightarrow> ('m, 'v) sys" where
  "hold c s = upd_cpu c (\<lambda>p. p\<lparr>c_spins := c_spins p + 1, c_irq := False\<rparr>)
     (upd_thread (cur c s) (\<lambda>th. th\<lparr>t_ipl_count := t_ipl_count th + 1\<rparr>) s)"

definition view_ok :: "nat \<Rightarrow> ('m, 'v) sys \<Rightarrow> bool" where
  "view_ok c s \<longleftrightarrow> (\<exists>th. threads s (cur c s) = Some th \<and> 0 \<le> t_ipl_count th \<and> (c_irq (cpus s c) \<longleftrightarrow> t_ipl_count th = 0))"

lemmas sys_defs = upd_cpu_def upd_thread_def cur_def

lemma cpu_idem [simp]:
  "c_runqueue_lock k = l \<Longrightarrow> k\<lparr>c_runqueue_lock := l\<rparr> = k" "c_ipi_lock k = l \<Longrightarrow> k\<lparr>c_ipi_lock := l\<rparr> = k"
  "c_irq k = b \<Longrightarrow> k\<lparr>c_irq := b\<rparr> = k" "c_ipi_pending k = x \<Longrightarrow> k\<lparr>c_ipi_pending := x\<rparr> = k"
  by (cases k; simp)+

lemma thread_idem [simp]:
  "t_ipl_count th = x \<Longrightarrow> th\<lparr>t_ipl_count := x\<rparr> = th" "t_spl th = y \<Longrightarrow> th\<lparr>t_spl := y\<rparr> = th"
  by (cases th; simp)+

lemma sys_idem [simp]: "s\<lparr>tls := tls s\<rparr> = s" "s\<lparr>sys_vm := sys_vm s\<rparr> = s"
  by (cases s; simp)+

lemma view_hold: "view_ok c s \<Longrightarrow> view_ok c (hold c s)"
  by (auto simp: view_ok_def hold_def sys_defs)

lemma rq_acquire_eq:
  assumes "view_ok c s" and "c_runqueue_lock (cpus s d) = spinlock_init"
  shows "rq_acquire c d s = Inr (upd_cpu d (\<lambda>p. p\<lparr>c_runqueue_lock := held_by c\<rparr>) (hold c s))"
  using assms by (cases "c = d") (auto simp: rq_acquire_def on_cpu_def cpu_view_def put_view_def deref_def spinlock_acquire_def splraise_def
    spinlock_spin_def spinlock_init_def held_by_def view_ok_def hold_def sys_defs fun_eq_iff)

lemma ipi_acquire_eq:
  assumes "view_ok c s" and "c_ipi_lock (cpus s d) = spinlock_init"
  shows "ipi_acquire c d s = Inr (upd_cpu d (\<lambda>p. p\<lparr>c_ipi_lock := held_by c\<rparr>) (hold c s))"
  using assms by (cases "c = d") (auto simp: ipi_acquire_def on_cpu_def cpu_view_def put_view_def deref_def spinlock_acquire_def splraise_def
    spinlock_spin_def spinlock_init_def held_by_def view_ok_def hold_def sys_defs fun_eq_iff)

lemma wc_acquire_eq:
  assumes "view_ok c s" and "wc_lock s w = spinlock_init"
  shows "wc_acquire c w s = Inr ((hold c s)\<lparr>wc_lock := (wc_lock s)(w := held_by c)\<rparr>)"
  using assms by (auto simp: wc_acquire_def on_cpu_def cpu_view_def put_view_def deref_def spinlock_acquire_def splraise_def
    spinlock_spin_def spinlock_init_def held_by_def view_ok_def hold_def sys_defs fun_eq_iff)

text \<open>A release undoes the acquisition, whatever else was changed in between: \<open>s\<close> is the state without the lock.\<close>

lemma rq_release_eq:
  assumes "view_ok c s" and "c_runqueue_lock (cpus s d) = spinlock_init"
  shows "rq_release c d (upd_cpu d (\<lambda>p. p\<lparr>c_runqueue_lock := held_by c\<rparr>) (hold c s)) = Inr s"
  using assms by (cases "c = d") (auto simp: rq_release_def on_cpu_def cpu_view_def put_view_def deref_def spinlock_release_def spllower_def
    spinlock_init_def held_by_def view_ok_def hold_def sys_defs fun_eq_iff intro!: sys.equality)

lemma ipi_release_eq:
  assumes "view_ok c s" and "c_ipi_lock (cpus s d) = spinlock_init"
  shows "ipi_release c d (upd_cpu d (\<lambda>p. p\<lparr>c_ipi_lock := held_by c\<rparr>) (hold c s)) = Inr s"
  using assms by (cases "c = d") (auto simp: ipi_release_def on_cpu_def cpu_view_def put_view_def deref_def spinlock_release_def spllower_def
    spinlock_init_def held_by_def view_ok_def hold_def sys_defs fun_eq_iff intro!: sys.equality)

lemma wc_release_eq:
  assumes "view_ok c s" and "wc_lock s w = spinlock_init"
  shows "wc_release c w ((hold c s)\<lparr>wc_lock := (wc_lock s)(w := held_by c)\<rparr>) = Inr s"
  using assms by (auto simp: wc_release_def on_cpu_def cpu_view_def put_view_def deref_def spinlock_release_def spllower_def
    spinlock_init_def held_by_def view_ok_def hold_def sys_defs fun_eq_iff intro!: sys.equality)

text \<open>Changes that do not depend on the locks.\<close>

lemma hold_upd_thread:
  assumes "\<And>th n. f (th\<lparr>t_ipl_count := n\<rparr>) = (f th)\<lparr>t_ipl_count := n\<rparr>" and "\<And>th. t_ipl_count (f th) = t_ipl_count th"
  shows "hold c (upd_thread t f s) = upd_thread t f (hold c s)"
  using assms by (auto simp: hold_def sys_defs fun_eq_iff option.map_comp comp_def intro!: sys.equality)

lemma hold_upd_cpu:
  assumes "\<And>k. f (k\<lparr>c_spins := c_spins k + 1, c_irq := False\<rparr>) = (f k)\<lparr>c_spins := c_spins (f k) + 1, c_irq := False\<rparr>"
    and "\<And>k. c_curthread (f k) = c_curthread k"
  shows "hold c (upd_cpu d f s) = upd_cpu d f (hold c s)"
  using assms by (auto simp: hold_def sys_defs fun_eq_iff intro!: sys.equality)

lemma hold_tls: "hold c (s\<lparr>tls := q\<rparr>) = (hold c s)\<lparr>tls := q\<rparr>"
  by (simp add: hold_def sys_defs)

lemma hold_sel [simp]: "tls (hold c s) = tls s" "numcpus (hold c s) = numcpus s" "wc_lock (hold c s) = wc_lock s" "wchans (hold c s) = wchans s"
  "wc_name (hold c s) = wc_name s" "sys_vm (hold c s) = sys_vm s" "cur d (hold c s) = cur d s" "c_isidle (cpus (hold c s) d) = c_isidle (cpus s d)"
  "c_runqueue_lock (cpus (hold c s) d) = c_runqueue_lock (cpus s d)" "c_ipi_lock (cpus (hold c s) d) = c_ipi_lock (cpus s d)"
  "c_frame (cpus (hold c s) d) = c_frame (cpus s d)" "p_numthreads (hold c s) = p_numthreads s"
  by (simp_all add: hold_def sys_defs)

lemma upd_cpu_sel [simp]: "tls (upd_cpu d f s) = tls s" "numcpus (upd_cpu d f s) = numcpus s" "threads (upd_cpu d f s) = threads s"
  "wc_lock (upd_cpu d f s) = wc_lock s" "wchans (upd_cpu d f s) = wchans s" "wc_name (upd_cpu d f s) = wc_name s"
  "sys_vm (upd_cpu d f s) = sys_vm s" "cpus (upd_cpu d f s) e = (if e = d then f (cpus s d) else cpus s e)"
  "p_numthreads (upd_cpu d f s) = p_numthreads s"
  by (simp_all add: sys_defs)

lemma upd_thread_sel [simp]: "tls (upd_thread t g s) = tls s" "numcpus (upd_thread t g s) = numcpus s" "cpus (upd_thread t g s) = cpus s"
  "wc_lock (upd_thread t g s) = wc_lock s" "wchans (upd_thread t g s) = wchans s" "wc_name (upd_thread t g s) = wc_name s"
  "sys_vm (upd_thread t g s) = sys_vm s" "threads (upd_thread t g s) u = (if u = t then map_option g (threads s t) else threads s u)"
  "p_numthreads (upd_thread t g s) = p_numthreads s" "cur c (upd_thread t g s) = cur c s"
  by (simp_all add: sys_defs)

lemma upd_swap:
  "upd_thread t g (upd_cpu d f s) = upd_cpu d f (upd_thread t g s)"
  "upd_cpu d f s\<lparr>tls := q\<rparr> = upd_cpu d f (s\<lparr>tls := q\<rparr>)" "upd_thread t g s\<lparr>tls := q\<rparr> = upd_thread t g (s\<lparr>tls := q\<rparr>)"
  by (simp_all add: sys_defs)

lemma upd_cpu_comm: "(\<And>k. f (g k) = g (f k)) \<Longrightarrow> upd_cpu d f (upd_cpu d g s) = upd_cpu d g (upd_cpu d f s)"
  by (simp add: sys_defs)

lemma cur_upd_cpu: "(\<And>k. c_curthread (f k) = c_curthread k) \<Longrightarrow> cur c (upd_cpu d f s) = cur c s"
  by (simp add: sys_defs)

lemma cur_tls [simp]: "cur c (s\<lparr>tls := q\<rparr>) = cur c s" "cur c (s\<lparr>sys_vm := v\<rparr>) = cur c s"
  by (simp_all add: cur_def)

lemma threads_hold: "threads s t = Some th \<Longrightarrow>
    threads (hold c s) t = Some (if t = cur c s then th\<lparr>t_ipl_count := t_ipl_count th + 1\<rparr> else th)"
  by (auto simp: hold_def sys_defs)

lemma view_upd [simp]:
  "view_ok c (s\<lparr>tls := q\<rparr>) = view_ok c s" "view_ok c (s\<lparr>sys_vm := v\<rparr>) = view_ok c s"
  by (simp_all add: view_ok_def cur_def)

lemma view_upd_cpu: "(\<And>k. c_curthread (f k) = c_curthread k) \<Longrightarrow> (\<And>k. c_irq (f k) = c_irq k) \<Longrightarrow> view_ok c (upd_cpu d f s) = view_ok c s"
  by (simp add: view_ok_def cur_def)

lemma view_upd_thread: "(\<And>th. t_ipl_count (g th) = t_ipl_count th) \<Longrightarrow> view_ok c (upd_thread t g s) = view_ok c s"
  by (auto simp: view_ok_def)

lemma ipi_send_eq:
  assumes "view_ok c s" and "c_ipi_lock (cpus s d) = spinlock_init" and "code < 32"
  shows "ipi_send c d code s = Inr (upd_cpu d (\<lambda>p. p\<lparr>c_ipi_pending := c_ipi_pending p OR push_bit code 1\<rparr>) s)"
proof -
  let ?f = "\<lambda>p. p\<lparr>c_ipi_pending := c_ipi_pending p OR push_bit code 1\<rparr>"
  have "upd_cpu d ?f (upd_cpu d (\<lambda>p. p\<lparr>c_ipi_lock := held_by c\<rparr>) (hold c s)) =
      upd_cpu d (\<lambda>p. p\<lparr>c_ipi_lock := held_by c\<rparr>) (hold c (upd_cpu d ?f s))"
    by (subst hold_upd_cpu; simp) (rule upd_cpu_comm; simp)
  moreover have "view_ok c (upd_cpu d ?f s)" using assms(1) by (simp add: view_upd_cpu)
  ultimately show ?thesis using assms(2,3) ipi_release_eq [of c "upd_cpu d ?f s" d]
    by (simp add: ipi_send_def ipi_acquire_eq [OF assms(1,2)] Let_def)
qed

text \<open>The thread is queued on its CPU, which is told to look when it is idle.\<close>

definition runnable :: "nat \<Rightarrow> nat \<Rightarrow> nat \<Rightarrow> tl_store \<Rightarrow> ('m, 'v) sys \<Rightarrow> ('m, 'v) sys" where
  "runnable c t d q s = upd_cpu d (\<lambda>p. if c_isidle p \<and> d \<noteq> c then p\<lparr>c_ipi_pending := c_ipi_pending p OR push_bit 2 1\<rparr> else p)
     (upd_thread t (\<lambda>th. th\<lparr>t_state := S_READY\<rparr>) (s\<lparr>tls := q\<rparr>))"

lemma make_runnable_eq:
  assumes v: "view_ok c s" and locks: "c_runqueue_lock (cpus s d) = spinlock_init" "c_ipi_lock (cpus s d) = spinlock_init"
    and t: "threads s t = Some th" "t_cpu th = Some d" and q: "threadlist_addtail (c_runqueue d) t (tls s) = Inr q"
  shows "thread_make_runnable c t False s = Inr (runnable c t d q s)"
proof -
  define s1 where "s1 = upd_thread t (\<lambda>th. th\<lparr>t_state := S_READY\<rparr>) (s\<lparr>tls := q\<rparr>)"
  define lk where "lk = upd_cpu d (\<lambda>p :: 'a cpu. p\<lparr>c_runqueue_lock := held_by c\<rparr>) \<circ> (hold c :: ('a, 'b) sys \<Rightarrow> _)"
  have v1: "view_ok c s1" using v by (simp add: s1_def view_upd_thread)
  have v2: "view_ok c (lk s1)" using view_hold [OF v1] by (simp add: lk_def view_upd_cpu)
  have a: "upd_thread t (\<lambda>th. th\<lparr>t_state := S_READY\<rparr>) (lk s)\<lparr>tls := q\<rparr> = lk s1"
    by (simp add: lk_def s1_def hold_upd_thread hold_tls upd_swap)
  have rel: "rq_release c d (lk u) = Inr u" if "view_ok c u" "c_runqueue_lock (cpus u d) = spinlock_init" for u
    using rq_release_eq [OF that] by (simp add: lk_def)
  have tls: "tls (lk s) = tls s" by (simp add: lk_def)
  have lock3: "c_runqueue_lock (cpus (runnable c t d q s) d) = spinlock_init" using locks by (simp add: runnable_def)
  show ?thesis
  proof (cases "c_isidle (cpus s d) \<and> d \<noteq> c")
    case True
    let ?f = "\<lambda>p :: 'a cpu. p\<lparr>c_ipi_pending := c_ipi_pending p OR push_bit 2 1\<rparr>"
    have "ipi_send c d 2 (lk s1) = Inr (upd_cpu d ?f (lk s1))"
      using ipi_send_eq [OF v2, of d 2] locks by (simp add: lk_def s1_def)
    also have "upd_cpu d ?f (lk s1) = lk (upd_cpu d ?f s1)"
      unfolding lk_def comp_def by (subst hold_upd_cpu; simp) (rule upd_cpu_comm; simp)
    finally have "ipi_send c d 2 (lk s1) = Inr (lk (upd_cpu d ?f s1))" .
    moreover have "upd_cpu d ?f s1 = runnable c t d q s" using True by (simp add: runnable_def s1_def sys_defs)
    moreover have "view_ok c (upd_cpu d ?f s1)" using v1 by (simp add: view_upd_cpu)
    moreover note lock3
    ultimately show ?thesis using True t rel [of "upd_cpu d ?f s1"] locks
      by (simp add: thread_make_runnable_def deref_def rq_acquire_eq [OF v locks(1), folded comp_apply [of "upd_cpu d _" "hold c" s], folded lk_def]
        on_lists_def q tls a Let_def) (simp add: lk_def s1_def)
  next
    case False
    have "s1 = runnable c t d q s" using False by (auto simp: runnable_def s1_def sys_defs)
    moreover have "c_isidle (cpus (lk s1) d) = c_isidle (cpus s d)" by (simp add: lk_def s1_def)
    ultimately show ?thesis using False t rel [OF v1] locks lock3
      by (simp add: thread_make_runnable_def deref_def rq_acquire_eq [OF v locks(1), folded comp_apply [of "upd_cpu d _" "hold c" s], folded lk_def]
        on_lists_def q tls a Let_def) auto
  qed
qed

section \<open>Lists and places\<close>

lemma list_div:
  "c_runqueue c div 4 = c" "c_runqueue c mod 4 = 0" "c_zombies c div 4 = c" "c_zombies c mod 4 = 1"
  "victims c div 4 = c" "victims c mod 4 = 2" "wc_threads c div 4 = c" "wc_threads c mod 4 = 3"
  unfolding c_runqueue_def c_zombies_def victims_def wc_threads_def 
  by (simp_all only: div_mult_self4 mod_mult_self4 nonzero_mult_div_cancel_left mod_mult_self1_is_0) simp_all

lemma list_number:
  "(l = c_runqueue c) = (l div 4 = c \<and> l mod 4 = 0)" "(l = c_zombies c) = (l div 4 = c \<and> l mod 4 = 1)"
  "(l = victims c) = (l div 4 = c \<and> l mod 4 = 2)" "(l = wc_threads c) = (l div 4 = c \<and> l mod 4 = 3)"
  by (metis list_div(1,2) mult_div_mod_eq c_runqueue_def add_0_right, metis list_div(3,4) mult_div_mod_eq c_zombies_def,
    metis list_div(5,6) mult_div_mod_eq victims_def, metis list_div(7,8) mult_div_mod_eq wc_threads_def)

lemma mod_4_cases: "(l :: nat) mod 4 = 0 \<or> l mod 4 = 1 \<or> l mod 4 = 2 \<or> l mod 4 = 3"
  by presburger

lemma qmap_get [simp]:
  "c < n \<Longrightarrow> qmap n R Z V W (c_runqueue c) = Some (R c)" "c < n \<Longrightarrow> qmap n R Z V W (c_zombies c) = Some (Z c)"
  "c < n \<Longrightarrow> qmap n R Z V W (victims c) = V c" "qmap n R Z V W (wc_threads w) = W w"
  by (simp_all add: qmap_def list_div)

lemma qmap_upd [simp]:
  "c < n \<Longrightarrow> (qmap n R Z V W)(c_runqueue c \<mapsto> x) = qmap n (R(c := x)) Z V W"
  "c < n \<Longrightarrow> (qmap n R Z V W)(c_zombies c \<mapsto> x) = qmap n R (Z(c := x)) V W"
  "c < n \<Longrightarrow> (qmap n R Z V W)(victims c := y) = qmap n R Z (V(c := y)) W"
  "(qmap n R Z V W)(wc_threads w := y) = qmap n R Z V (W(w := y))"
  by (rule ext, use mod_4_cases in \<open>auto simp: qmap_def list_number fun_upd_def\<close>)+

lemma qmap_cases:
  assumes "q \<in> ran (qmap n R Z V W)"
  obtains c where "c < n" "q = R c" | c where "c < n" "q = Z c" | c where "c < n" "V c = Some q" | w where "W w = Some q"
  using assms by (auto simp: ran_def qmap_def split: if_splits)

lemma free_thread:
  assumes "lists_inv s P R Z V W" and "P t = Nowhere \<or> P t = Running c"
  shows "t \<notin> \<Union> (set ` ran (qmap (numcpus s) R Z V W))"
proof
  assume "t \<in> \<Union> (set ` ran (qmap (numcpus s) R Z V W))"
  then obtain q where "t \<in> set q" and q: "q \<in> ran (qmap (numcpus s) R Z V W)" by blast
  from q show False using assms \<open>t \<in> set q\<close> by (cases rule: qmap_cases) (auto simp: lists_inv_def at_place_def)
qed

lemma at_place_upd:
  "t \<in> dom (threads s) \<Longrightarrow> at_place s (P(t := pl)) pl' = (if pl = pl' then insert t (at_place s P pl') else at_place s P pl' - {t})"
  by (auto simp: at_place_def)

lemma at_place_cong: "dom (threads s') = dom (threads s) \<Longrightarrow> at_place s' P pl = at_place s P pl"
  by (simp add: at_place_def)

text \<open>A thread moves to the end of a list, or out of the head of one.\<close>

lemma lists_put:
  assumes inv: "lists_inv s P R Z V W" and t: "t \<in> dom (threads s)" "P t = Nowhere \<or> P t = Running e"
  shows "d < numcpus s \<Longrightarrow> \<exists>q. threadlist_addtail (c_runqueue d) t (tls s) = Inr q \<and>
      lists_inv (s\<lparr>tls := q\<rparr>) (P(t := Ready d)) (R(d := R d @ [t])) Z V W"
    and "d < numcpus s \<Longrightarrow> \<exists>q. threadlist_addtail (c_zombies d) t (tls s) = Inr q \<and>
      lists_inv (s\<lparr>tls := q\<rparr>) (P(t := Dead d)) R (Z(d := Z d @ [t])) V W"
    and "d < numcpus s \<Longrightarrow> V d = Some vs \<Longrightarrow> \<exists>q. threadlist_addtail (victims d) t (tls s) = Inr q \<and>
      lists_inv (s\<lparr>tls := q\<rparr>) (P(t := Held d)) R Z (V(d \<mapsto> vs @ [t])) W"
    and "d < numcpus s \<Longrightarrow> V d = Some vs \<Longrightarrow> \<exists>q. threadlist_addhead (victims d) t (tls s) = Inr q \<and>
      lists_inv (s\<lparr>tls := q\<rparr>) (P(t := Held d)) R Z (V(d \<mapsto> t # vs)) W"
    and "W w = Some ws \<Longrightarrow> \<exists>q. threadlist_addtail (wc_threads w) t (tls s) = Inr q \<and>
      lists_inv (s\<lparr>tls := q\<rparr>) (P(t := Sleeping w)) R Z V (W(w \<mapsto> ws @ [t]))"
proof -
  note free = free_thread [OF inv t(2)]
  have rep: "tl_rep (tls s) (dom (threads s)) (qmap (numcpus s) R Z V W)" using inv by (simp add: lists_inv_def)
  note add = tlist.addtail_snoc [OF rep _ t(1) free] and addh = tlist.addhead_Cons [OF rep _ t(1) free]
  have dom: "at_place (s\<lparr>tls := q\<rparr>) P' pl = at_place s P' pl" for q P' pl by (simp add: at_place_def)
  have gone: "at_place s P pl - {t} = at_place s P pl" if "pl \<noteq> Nowhere" "\<forall>e. pl \<noteq> Running e" for pl
    using t(2) that by (auto simp: at_place_def)
  note s = lists_inv_def dom at_place_upd [OF t(1)] gone
  show "\<exists>q. threadlist_addtail (c_runqueue d) t (tls s) = Inr q \<and> lists_inv (s\<lparr>tls := q\<rparr>) (P(t := Ready d)) (R(d := R d @ [t])) Z V W"
    if "d < numcpus s" using add [of "c_runqueue d" "R d"] that inv by (auto simp: s)
  show "\<exists>q. threadlist_addtail (c_zombies d) t (tls s) = Inr q \<and> lists_inv (s\<lparr>tls := q\<rparr>) (P(t := Dead d)) R (Z(d := Z d @ [t])) V W"
    if "d < numcpus s" using add [of "c_zombies d" "Z d"] that inv by (auto simp: s)
  show "\<exists>q. threadlist_addtail (victims d) t (tls s) = Inr q \<and> lists_inv (s\<lparr>tls := q\<rparr>) (P(t := Held d)) R Z (V(d \<mapsto> vs @ [t])) W"
    if "d < numcpus s" "V d = Some vs" using add [of "victims d" vs] that inv by (auto simp: s)
  show "\<exists>q. threadlist_addhead (victims d) t (tls s) = Inr q \<and> lists_inv (s\<lparr>tls := q\<rparr>) (P(t := Held d)) R Z (V(d \<mapsto> t # vs)) W"
    if "d < numcpus s" "V d = Some vs" using addh [of "victims d" vs] that inv by (auto simp: s)
  show "\<exists>q. threadlist_addtail (wc_threads w) t (tls s) = Inr q \<and> lists_inv (s\<lparr>tls := q\<rparr>) (P(t := Sleeping w)) R Z V (W(w \<mapsto> ws @ [t]))"
    if "W w = Some ws" using add [of "wc_threads w" ws] that inv by (auto simp: s)
qed

lemma lists_take:
  assumes inv: "lists_inv s P R Z V W"
  shows "c < numcpus s \<Longrightarrow> R c = t # ts \<Longrightarrow> \<exists>q. threadlist_remhead (c_runqueue c) (tls s) = Inr (Some t, q) \<and>
      lists_inv (s\<lparr>tls := q\<rparr>) (P(t := Nowhere)) (R(c := ts)) Z V W"
    and "c < numcpus s \<Longrightarrow> R c = ts @ [t] \<Longrightarrow> \<exists>q. threadlist_remtail (c_runqueue c) (tls s) = Inr (Some t, q) \<and>
      lists_inv (s\<lparr>tls := q\<rparr>) (P(t := Nowhere)) (R(c := ts)) Z V W"
    and "c < numcpus s \<Longrightarrow> Z c = t # ts \<Longrightarrow> \<exists>q. threadlist_remhead (c_zombies c) (tls s) = Inr (Some t, q) \<and>
      lists_inv (s\<lparr>tls := q\<rparr>) (P(t := Nowhere)) R (Z(c := ts)) V W"
    and "c < numcpus s \<Longrightarrow> V c = Some (t # ts) \<Longrightarrow> \<exists>q. threadlist_remhead (victims c) (tls s) = Inr (Some t, q) \<and>
      lists_inv (s\<lparr>tls := q\<rparr>) (P(t := Nowhere)) R Z (V(c \<mapsto> ts)) W"
    and "W w = Some (t # ts) \<Longrightarrow> \<exists>q. threadlist_remhead (wc_threads w) (tls s) = Inr (Some t, q) \<and>
      lists_inv (s\<lparr>tls := q\<rparr>) (P(t := Nowhere)) R Z V (W(w \<mapsto> ts))"
proof -
  have rep: "tl_rep (tls s) (dom (threads s)) (qmap (numcpus s) R Z V W)" using inv by (simp add: lists_inv_def)
  note rem = tlist.remhead_Cons [OF rep] and remt = tlist.remtail_snoc [OF rep] and once = tlist.once [OF rep]
  have dom: "at_place (s\<lparr>tls := q\<rparr>) P' pl = at_place s P' pl" for q P' pl by (simp add: at_place_def)
  have gone: "at_place s (P(t := Nowhere)) pl = (if P t = pl then at_place s P pl - {t} else at_place s P pl)" if "pl \<noteq> Nowhere" for pl
    using that by (auto simp: at_place_def)
  have key: "P t = pl \<and> at_place s P pl - {t} = set ts" if "set xs = at_place s P pl" "set xs = insert t (set ts)" "t \<notin> set ts" for xs pl
    using that by (auto simp: at_place_def)
  note s = lists_inv_def dom gone
  show "\<exists>q. threadlist_remhead (c_runqueue c) (tls s) = Inr (Some t, q) \<and> lists_inv (s\<lparr>tls := q\<rparr>) (P(t := Nowhere)) (R(c := ts)) Z V W"
    if "c < numcpus s" "R c = t # ts"
  proof -
    have "set (R c) = at_place s P (Ready c)" using inv that unfolding lists_inv_def by blast
    from key [OF this] once [of "c_runqueue c" "R c"] rem [of "c_runqueue c" t ts] that inv
    show ?thesis by (auto simp: s split: if_splits)
  qed
  show "\<exists>q. threadlist_remtail (c_runqueue c) (tls s) = Inr (Some t, q) \<and> lists_inv (s\<lparr>tls := q\<rparr>) (P(t := Nowhere)) (R(c := ts)) Z V W"
    if "c < numcpus s" "R c = ts @ [t]"
  proof -
    have "set (R c) = at_place s P (Ready c)" using inv that unfolding lists_inv_def by blast
    from key [OF this] once [of "c_runqueue c" "R c"] remt [of "c_runqueue c" ts t] that inv
    show ?thesis by (auto simp: s split: if_splits)
  qed
  show "\<exists>q. threadlist_remhead (c_zombies c) (tls s) = Inr (Some t, q) \<and> lists_inv (s\<lparr>tls := q\<rparr>) (P(t := Nowhere)) R (Z(c := ts)) V W"
    if "c < numcpus s" "Z c = t # ts"
  proof -
    have "set (Z c) = at_place s P (Dead c)" using inv that unfolding lists_inv_def by blast
    from key [OF this] once [of "c_zombies c" "Z c"] rem [of "c_zombies c" t ts] that inv
    show ?thesis by (auto simp: s split: if_splits)
  qed
  show "\<exists>q. threadlist_remhead (victims c) (tls s) = Inr (Some t, q) \<and> lists_inv (s\<lparr>tls := q\<rparr>) (P(t := Nowhere)) R Z (V(c \<mapsto> ts)) W"
    if "c < numcpus s" "V c = Some (t # ts)"
  proof -
    have "set (t # ts) = at_place s P (Held c)" using inv that unfolding lists_inv_def by blast
    from key [OF this] once [of "victims c" "t # ts"] rem [of "victims c" t ts] that inv
    show ?thesis by (auto simp: s split: if_splits)
  qed
  show "\<exists>q. threadlist_remhead (wc_threads w) (tls s) = Inr (Some t, q) \<and> lists_inv (s\<lparr>tls := q\<rparr>) (P(t := Nowhere)) R Z V (W(w \<mapsto> ts))"
    if "W w = Some (t # ts)"
  proof -
    have "set (t # ts) = at_place s P (Sleeping w)" using inv that unfolding lists_inv_def by blast
    from key [OF this] once [of "wc_threads w" "t # ts"] rem [of "wc_threads w" t ts] that inv
    show ?thesis by (auto simp: s split: if_splits)
  qed
qed

lemma lists_none:
  assumes inv: "lists_inv s P R Z V W"
  shows "c < numcpus s \<Longrightarrow> R c = [] \<Longrightarrow> threadlist_remhead (c_runqueue c) (tls s) = Inr (None, tls s)"
    and "c < numcpus s \<Longrightarrow> Z c = [] \<Longrightarrow> threadlist_remhead (c_zombies c) (tls s) = Inr (None, tls s)"
    and "c < numcpus s \<Longrightarrow> V c = Some [] \<Longrightarrow> threadlist_remhead (victims c) (tls s) = Inr (None, tls s)"
    and "W w = Some [] \<Longrightarrow> threadlist_remhead (wc_threads w) (tls s) = Inr (None, tls s)"
  using inv tlist.remhead_Nil [of "tls s" "dom (threads s)" "qmap (numcpus s) R Z V W"] by (simp_all add: lists_inv_def)

text \<open>The counts of the lists are their lengths, because threads are addresses.\<close>

lemma lists_length:
  assumes inv: "lists_inv s P R Z V W" and l: "qmap (numcpus s) R Z V W l = Some q"
  shows "length q < 2 ^ 32" "tl_count (tls s) l = of_nat (length q)" "threadlist_isempty l (tls s) \<longleftrightarrow> q = []"
proof -
  have rep: "tl_rep (tls s) (dom (threads s)) (qmap (numcpus s) R Z V W)" using inv by (simp add: lists_inv_def)
  have "distinct q" "set q \<subseteq> dom (threads s)" using tlist.once [OF rep l] by simp_all
  moreover have "dom (threads s) \<subseteq> {0<..<2 ^ 32}" using inv by (simp add: lists_inv_def)
  ultimately have "card (set q) \<le> card {0<..<2 ^ 32 :: nat}" by (intro card_mono) auto
  then show len: "length q < 2 ^ 32" using \<open>distinct q\<close> by (simp add: distinct_card)
  show "tl_count (tls s) l = of_nat (length q)" using tl_repD [OF rep l] by (simp add: tl_ok_def)
  show "threadlist_isempty l (tls s) \<longleftrightarrow> q = []" by (rule threadlist_isempty_ok [OF rep l len])
qed

section \<open>Steps of the invariant\<close>

lemma sched_invD:
  assumes "sched_inv s P R Z V W"
  shows "lists_inv s P R Z V W" "locks_inv s" "procs_inv s" "numcpus s \<le> MAXCPUS"
    "threads s t = Some th \<Longrightarrow> thread_inv s (P t) t th" "c < numcpus s \<Longrightarrow> cpu_inv s P (R c) (V c) c"
  using assms by (simp_all add: sched_inv_def)

lemma inv_view:
  assumes "sched_inv s P R Z V W" and "c < numcpus s"
  shows "view_ok c s" "c_runqueue_lock (cpus s c) = spinlock_init" "c_ipi_lock (cpus s c) = spinlock_init"
  using sched_invD(6) [OF assms] by (auto simp: view_ok_def cpu_inv_def spl_ok_def)

lemma inv_cur:
  assumes "sched_inv s P R Z V W" and "c < numcpus s"
  obtains me where "threads s (cur c s) = Some me" "t_cpu me = Some c" "spl_ok (cpus s c) me" "pc_ok s c me (R c) (V c)"
    "thread_inv s (P (cur c s)) (cur c s) me" "in_intr c s = t_in_intr me"
  using sched_invD(6) [OF assms] sched_invD(5) [OF assms(1)] by (auto simp: cpu_inv_def in_intr_def)

lemma inv_cur_unique:
  assumes "sched_inv s P R Z V W" and "c < numcpus s" and "d < numcpus s" and "cur c s = cur d s"
  shows "c = d"
  using sched_invD(6) [OF assms(1,2)] sched_invD(6) [OF assms(1,3)] assms(4) by (auto simp: cpu_inv_def)

lemma place_ok_cong:
  assumes "numcpus s' = numcpus s" "wchans s' = wchans s" "\<And>c. cur c s' = cur c s" "\<And>c. c_isidle (cpus s' c) = c_isidle (cpus s c)"
    "\<And>c. c_pc (cpus s' c) = c_pc (cpus s c)"
  shows "place_ok s' = place_ok s"
  unfolding place_ok_def fun_eq_iff assms by blast

lemma thread_inv_cong:
  assumes "numcpus s' = numcpus s" "wchans s' = wchans s" "\<And>c. cur c s' = cur c s" "\<And>c. c_isidle (cpus s' c) = c_isidle (cpus s c)"
    "\<And>c. c_pc (cpus s' c) = c_pc (cpus s c)"
  shows "thread_inv s' = thread_inv s"
  unfolding thread_inv_def fun_eq_iff place_ok_cong [OF assms] assms(1,3) by simp

lemma pc_ok_cong:
  "c_pc (cpus s' c) = c_pc (cpus s c) \<Longrightarrow> c_spins (cpus s' c) = c_spins (cpus s c) \<Longrightarrow> wchans s' = wchans s \<Longrightarrow> wc_lock s' = wc_lock s \<Longrightarrow>
    pc_ok s' c = pc_ok s c"
  unfolding pc_ok_def fun_eq_iff by (simp split: cpu_pc.split)

text \<open>One thread moves and changes fields that the interrupt levels do not depend on.\<close>

lemma sched_inv_move:
  assumes inv: "sched_inv s P R Z V W" and th: "threads s t = Some th"
    and l: "lists_inv (s\<lparr>tls := q\<rparr>) (P(t := pl)) R' Z' V' W'"
    and pl: "place_ok s pl t (f th)" "\<And>c. P t \<noteq> Running c"
    and f: "tm_badfaultfunc (f th) = tm_badfaultfunc th" "t_stack (f th) = t_stack th" "t_proc (f th) = t_proc th"
      "t_spl (f th) = t_spl th" "t_ipl_count (f th) = t_ipl_count th" "t_in_intr (f th) = t_in_intr th"
      "t_adjust (f th) = t_adjust th" "t_context (f th) = t_context th"
      "t_cpu (f th) = t_cpu th \<or> (\<forall>c < numcpus s. cur c s \<noteq> t)"
    and pc: "\<And>c me. c < numcpus s \<Longrightarrow> pc_ok s c me (R c) (V c) \<Longrightarrow> pc_ok s c me (R' c) (V' c)"
  shows "sched_inv (upd_thread t f (s\<lparr>tls := q\<rparr>)) (P(t := pl)) R' Z' V' W'"
proof -
  let ?s = "upd_thread t f (s\<lparr>tls := q\<rparr>)"
  have sel: "cpus ?s = cpus s" "numcpus ?s = numcpus s" "wchans ?s = wchans s" "wc_lock ?s = wc_lock s" "\<And>c. cur c ?s = cur c s"
    "p_numthreads ?s = p_numthreads s" "tls ?s = q" by simp_all
  have cong: "thread_inv ?s = thread_inv s" "\<And>c. pc_ok ?s c = pc_ok s c" by (rule thread_inv_cong pc_ok_cong; simp)+
  have dom: "dom (threads ?s) = dom (threads s)" using th by (auto split: if_splits)
  have "lists_inv ?s (P(t := pl)) R' Z' V' W'" using l dom by (simp add: lists_inv_def at_place_def)
  moreover have "locks_inv ?s" using sched_invD(2) [OF inv] by (simp add: locks_inv_def)
  moreover have "procs_inv ?s"
  proof -
    have "(\<exists>x. threads ?s u = Some x \<and> t_proc x = Some p) = (\<exists>x. threads s u = Some x \<and> t_proc x = Some p)" for u p
      using th f(3) by auto
    then show ?thesis using sched_invD(3) [OF inv] by (simp add: procs_inv_def)
  qed
  moreover have "thread_inv ?s ((P(t := pl)) u) u x" if "threads ?s u = Some x" for u x
  proof (cases "u = t")
    case True
    then have "x = f th" using that th by simp
    moreover have "parked (f th) = parked th" using f by (simp add: parked_def)
    ultimately show ?thesis using sched_invD(5) [OF inv th] pl f(1,2) True unfolding cong by (simp add: thread_inv_def)
  next
    case False
    then show ?thesis using sched_invD(5) [OF inv, of u x] that unfolding cong by simp
  qed
  moreover have "cpu_inv ?s (P(t := pl)) (R' c) (V' c) c" if c: "c < numcpus s" for c
  proof -
    obtain me where me: "threads s (cur c s) = Some me" "t_cpu me = Some c" "spl_ok (cpus s c) me" "pc_ok s c me (R c) (V c)"
      using sched_invD(6) [OF inv c] by (auto simp: cpu_inv_def)
    define me' where "me' = (if cur c s = t then f me else me)"
    have same: "t_spl me' = t_spl me" "t_ipl_count me' = t_ipl_count me" "t_in_intr me' = t_in_intr me" "t_adjust me' = t_adjust me"
      using me(1) th f(4-7) by (cases "cur c s = t"; simp add: me'_def)+
    have "threads ?s (cur c s) = Some me'" using me(1) th by (auto simp: me'_def)
    moreover have "t_cpu me' = Some c" using me(1,2) th f(9) c by (cases "cur c s = t") (auto simp: me'_def)
    moreover have "spl_ok (cpus s c) me'" using me(3) same by (simp add: spl_ok_def)
    ultimately have me': "threads ?s (cur c s) = Some me'" "t_cpu me' = Some c" "spl_ok (cpus s c) me'" by blast+
    have "pc_ok s c me' (R' c) (V' c) = pc_ok s c me (R' c) (V' c)" unfolding pc_ok_def same ..
    then have "pc_ok ?s c me' (R' c) (V' c)" using pc [OF c me(4)] by (simp add: cong)
    then show ?thesis using me' sched_invD(6) [OF inv c] pl(2) by (auto simp: cpu_inv_def sel held_locks_def)
  qed
  ultimately show ?thesis using sched_invD(4) [OF inv] by (simp add: sched_inv_def sel)
qed

lemma sched_inv_vm [simp]: "sched_inv (s\<lparr>sys_vm := v\<rparr>) P R Z V W = sched_inv s P R Z V W"
proof -
  have "thread_inv (s\<lparr>sys_vm := v\<rparr>) = thread_inv s" "\<And>c. pc_ok (s\<lparr>sys_vm := v\<rparr>) c = pc_ok s c" by (rule thread_inv_cong pc_ok_cong; simp)+
  then show ?thesis by (simp add: sched_inv_def lists_inv_def at_place_def locks_inv_def procs_inv_def cpu_inv_def held_locks_def)
qed

text \<open>A CPU changes its state of interrupts, the fields of its current thread that go with it, and locks of channels.\<close>

lemma sched_inv_cur:
  assumes inv: "sched_inv s P R Z V W" and c: "c < numcpus s" and me: "threads s (cur c s) = Some me"
    and f: "c_curthread (f (cpus s c)) = c_curthread (cpus s c)" "c_isidle (f (cpus s c)) = c_isidle (cpus s c)"
      "c_pc (f (cpus s c)) = c_pc (cpus s c)" "c_runqueue_lock (f (cpus s c)) = spinlock_init" "c_ipi_lock (f (cpus s c)) = spinlock_init"
      "c_ipi_pending (f (cpus s c)) \<in> {0, 4}" "c_shootdown (f (cpus s c)) = []"
    and g: "t_state (g me) = t_state me" "tm_badfaultfunc (g me) = tm_badfaultfunc me" "t_stack (g me) = t_stack me"
      "t_proc (g me) = t_proc me" "t_cpu (g me) = t_cpu me"
    and spl: "spl_ok (f (cpus s c)) (g me)"
    and L: "c_spins (f (cpus s c)) = card {w. splk_holder (L w) = Some c}" "\<And>d. d \<noteq> c \<Longrightarrow> {w. splk_holder (L w) = Some d} = held_locks d s"
      "\<And>w. L w = spinlock_init \<or> w \<in> wchans s \<and> (\<exists>d < numcpus s. L w = held_by d)"
    and pc: "pc_ok (upd_cpu c f (s\<lparr>wc_lock := L\<rparr>)) c (g me) (R c) (V c)"
  shows "sched_inv (upd_cpu c f (upd_thread (cur c s) g (s\<lparr>wc_lock := L\<rparr>))) P R Z V W"
proof -
  let ?s = "upd_cpu c f (upd_thread (cur c s) g (s\<lparr>wc_lock := L\<rparr>))"
  have cur: "cur d ?s = cur d s" for d using f(1) by (simp add: cur_def)
  have ti: "thread_inv ?s = thread_inv s" by (rule thread_inv_cong) (use f cur in auto)
  have dom: "dom (threads ?s) = dom (threads s)" using me by (auto split: if_splits)
  have "lists_inv ?s P R Z V W" using sched_invD(1) [OF inv] unfolding lists_inv_def at_place_def dom by simp
  moreover have "locks_inv ?s" using sched_invD(2) [OF inv] L(3) by (simp add: locks_inv_def)
  moreover have "procs_inv ?s"
  proof -
    have "(\<exists>x. threads ?s u = Some x \<and> t_proc x = Some p) = (\<exists>x. threads s u = Some x \<and> t_proc x = Some p)" for u p
      using me g(4) by auto
    then show ?thesis using sched_invD(3) [OF inv] by (simp add: procs_inv_def)
  qed
  moreover have "thread_inv ?s (P u) u x" if "threads ?s u = Some x" for u x
  proof (cases "u = cur c s")
    case True
    then have x: "x = g me" using that me by simp
    have "place_ok s (P u) u (g me) = place_ok s (P u) u me" unfolding place_ok_def g ..
    then show ?thesis using sched_invD(5) [OF inv me] True c g(2,3) unfolding ti x by (auto simp: thread_inv_def)
  next
    case False
    then show ?thesis using sched_invD(5) [OF inv, of u x] that unfolding ti by simp
  qed
  moreover have "cpu_inv ?s P (R d) (V d) d" if d: "d < numcpus s" for d
  proof (cases "d = c")
    case True
    have "pc_ok ?s c = pc_ok (upd_cpu c f (s\<lparr>wc_lock := L\<rparr>)) c" by (rule pc_ok_cong) simp_all
    then show ?thesis using sched_invD(6) [OF inv c] me f g(5) spl L(1) pc True unfolding cpu_inv_def cur held_locks_def by simp
  next
    case False
    have "cur d s \<noteq> cur c s" using inv_cur_unique [OF inv d c] False by blast
    moreover have "{w. splk_holder (wc_lock ?s w) = Some d} = held_locks d s" using L(2) [OF False] by simp
    moreover have "splk_holder (L w) = Some d" if "splk_holder (wc_lock s w) = Some d" for w
      using L(2) [OF False] that unfolding held_locks_def by blast
    then have "pc_ok ?s d x (R d) (V d)" if "pc_ok s d x (R d) (V d)" for x using that False by (auto simp: pc_ok_def split: cpu_pc.splits)
    ultimately show ?thesis using sched_invD(6) [OF inv d] False unfolding cpu_inv_def cur held_locks_def by auto
  qed
  ultimately show ?thesis using sched_invD(4) [OF inv] by (simp add: sched_inv_def)
qed

text \<open>Fields of a CPU that nothing else depends on.\<close>

lemma sched_inv_cpu:
  assumes inv: "sched_inv s P R Z V W" and c: "c < numcpus s"
    and f: "c_curthread (f (cpus s c)) = c_curthread (cpus s c)" "c_isidle (f (cpus s c)) = c_isidle (cpus s c)"
      "c_pc (f (cpus s c)) = c_pc (cpus s c)" "c_runqueue_lock (f (cpus s c)) = spinlock_init" "c_ipi_lock (f (cpus s c)) = spinlock_init"
      "c_ipi_pending (f (cpus s c)) \<in> {0, 4}" "c_shootdown (f (cpus s c)) = []"
      "c_spins (f (cpus s c)) = c_spins (cpus s c)" "c_irq (f (cpus s c)) = c_irq (cpus s c)" "c_frame (f (cpus s c)) = c_frame (cpus s c)"
  shows "sched_inv (upd_cpu c f s) P R Z V W"
proof -
  obtain me where me: "threads s (cur c s) = Some me" "spl_ok (cpus s c) me" "pc_ok s c me (R c) (V c)"
    using sched_invD(6) [OF inv c] by (auto simp: cpu_inv_def)
  have "upd_cpu c f (upd_thread (cur c s) (\<lambda>x. x) (s\<lparr>wc_lock := wc_lock s\<rparr>)) = upd_cpu c f s"
    by (auto simp: sys_defs option.map_ident intro!: sys.equality)
  moreover have "pc_ok (upd_cpu c f s) c = pc_ok s c" by (rule pc_ok_cong) (use f in simp_all)
  moreover have "card (held_locks c s) = c_spins (cpus s c)" using sched_invD(6) [OF inv c] by (simp add: cpu_inv_def)
  moreover have "wc_lock s w = spinlock_init \<or> w \<in> wchans s \<and> (\<exists>d<numcpus s. wc_lock s w = held_by d)" for w
    using sched_invD(2) [OF inv] by (simp add: locks_inv_def)
  moreover have "spl_ok (f (cpus s c)) me" using me(2) f by (simp add: spl_ok_def)
  ultimately show ?thesis 
    using sched_inv_cur [where f = f and g = "\<lambda>x. x" and L = "wc_lock s", OF inv c me(1) f(1-7)] me f(8) by (simp add: held_locks_def)
qed

lemma sched_inv_pending:
  assumes "sched_inv s P R Z V W" and "c < numcpus s"
  shows "sched_inv (upd_cpu c (\<lambda>p. if b p then p\<lparr>c_ipi_pending := c_ipi_pending p OR push_bit 2 1\<rparr> else p) s) P R Z V W"
proof (rule sched_inv_cpu [OF assms])
  have "c_ipi_pending (cpus s c) \<in> {0, 4}" using sched_invD(6) [OF assms] by (simp add: cpu_inv_def)
  then show "c_ipi_pending (if b (cpus s c) then (cpus s c)\<lparr>c_ipi_pending := c_ipi_pending (cpus s c) OR push_bit 2 1\<rparr> else cpus s c) \<in> {0, 4}"
    by auto
qed (use sched_invD(6) [OF assms] in \<open>auto simp: cpu_inv_def\<close>)

lemma place_ok_Ready:
  "place_ok s Nowhere t th \<Longrightarrow> t_cpu th = Some d \<Longrightarrow> place_ok s (Ready d) t (th\<lparr>t_state := S_READY\<rparr>)"
  by (simp add: place_ok_def)

lemma make_runnable_inv:
  assumes inv: "sched_inv s P R Z V W" and c: "c < numcpus s" and t: "threads s t = Some th" "P t = Nowhere"
  shows "\<exists>d s'. thread_make_runnable c t False s = Inr s' \<and> sched_inv s' (P(t := Ready d)) (R(d := R d @ [t])) Z V W \<and>
    numcpus s' = numcpus s \<and> c_pc (cpus s' c) = c_pc (cpus s c) \<and> t_cpu th = Some d"
proof -
  have pl: "place_ok s Nowhere t th" using sched_invD(5) [OF inv t(1)] t(2) by (simp add: thread_inv_def)
  then obtain d where d: "d < numcpus s" "t_cpu th = Some d" by (auto simp: place_ok_def)
  have "t \<in> dom (threads s)" using t by blast
  from lists_put(1) [OF sched_invD(1) [OF inv] this _ d(1)] t(2) obtain q where
    q: "threadlist_addtail (c_runqueue d) t (tls s) = Inr q" "lists_inv (s\<lparr>tls := q\<rparr>) (P(t := Ready d)) (R(d := R d @ [t])) Z V W" by blast
  have "sched_inv (upd_thread t (\<lambda>th. th\<lparr>t_state := S_READY\<rparr>) (s\<lparr>tls := q\<rparr>)) (P(t := Ready d)) (R(d := R d @ [t])) Z V W"
    by (rule sched_inv_move [where f = "\<lambda>th. th\<lparr>t_state := S_READY\<rparr>", OF inv t(1) q(2) place_ok_Ready [OF pl d(2)]])
      (use t(2) in \<open>auto simp: pc_ok_def split: cpu_pc.splits\<close>)
  then have "sched_inv (runnable c t d q s) (P(t := Ready d)) (R(d := R d @ [t])) Z V W"
    unfolding runnable_def by (rule sched_inv_pending) (simp add: d(1))
  then show ?thesis using make_runnable_eq [OF inv_view(1) [OF inv c] inv_view(2,3) [OF inv d(1)] t(1) d(2) q(1)] d(2)
    by (intro exI [of _ d] exI [of _ "runnable c t d q s"]) (auto simp: runnable_def)
qed

lemma lock_cases:
  assumes "sched_inv s P R Z V W"
  shows "wc_lock s w = spinlock_init \<or> w \<in> wchans s \<and> (\<exists>d < numcpus s. wc_lock s w = held_by d)"
    "splk_holder (wc_lock s w) = Some d \<Longrightarrow> wc_lock s w = held_by d \<and> d < numcpus s \<and> w \<in> wchans s"
    "splk_lock (wc_lock s w) = 0 \<Longrightarrow> wc_lock s w = spinlock_init" "finite (held_locks d s)"
proof -
  show *: "wc_lock s w = spinlock_init \<or> w \<in> wchans s \<and> (\<exists>d < numcpus s. wc_lock s w = held_by d)" for w
    using sched_invD(2) [OF assms] by (simp add: locks_inv_def)
  then show "splk_holder (wc_lock s w) = Some d \<Longrightarrow> wc_lock s w = held_by d \<and> d < numcpus s \<and> w \<in> wchans s"
    "splk_lock (wc_lock s w) = 0 \<Longrightarrow> wc_lock s w = spinlock_init"
    by (metis held_by_def spinlock.select_convs(1,2) spinlock_init_def option.distinct(1) option.inject zero_neq_one)+
  have "held_locks d s \<subseteq> wchans s" using * by (force simp: held_locks_def spinlock_init_def)
  then show "finite (held_locks d s)" using sched_invD(2) [OF assms] finite_subset by (auto simp: locks_inv_def)
qed

lemma wc_acquire_inv:
  assumes inv: "sched_inv s P R Z V W" and c: "c < numcpus s" "c_pc (cpus s c) = Plain" "\<not> c_isidle (cpus s c) \<or> in_intr c s"
    and w: "w \<in> wchans s" "splk_lock (wc_lock s w) = 0"
  shows "\<exists>s'. wc_acquire c w s = Inr s' \<and> sched_inv s' P R Z V W"
proof -
  obtain me where me: "threads s (cur c s) = Some me" "spl_ok (cpus s c) me" "pc_ok s c me (R c) (V c)" "in_intr c s = t_in_intr me"
    by (rule inv_cur [OF inv c(1)])
  have init: "wc_lock s w = spinlock_init" by (rule lock_cases(3) [OF inv w(2)])
  let ?L = "(wc_lock s)(w := held_by c)" and ?f = "\<lambda>p :: 'a cpu. p\<lparr>c_spins := c_spins p + 1, c_irq := False\<rparr>"
    and ?g = "\<lambda>th. th\<lparr>t_ipl_count := t_ipl_count th + 1\<rparr>"
  have eq: "(hold c s)\<lparr>wc_lock := ?L\<rparr> = upd_cpu c ?f (upd_thread (cur c s) ?g (s\<lparr>wc_lock := ?L\<rparr>))"
    by (simp add: hold_def sys_defs)
  have "w \<notin> held_locks c s" using init by (simp add: held_locks_def spinlock_init_def)
  moreover have "{v. splk_holder (?L v) = Some c} = insert w (held_locks c s)" by (auto simp: held_locks_def held_by_def)
  ultimately have card: "c_spins (?f (cpus s c)) = card {v. splk_holder (?L v) = Some c}"
    using sched_invD(6) [OF inv c(1)] lock_cases(4) [OF inv, of c] by (simp add: cpu_inv_def)
  have "sched_inv (upd_cpu c ?f (upd_thread (cur c s) ?g (s\<lparr>wc_lock := ?L\<rparr>))) P R Z V W"
  proof (rule sched_inv_cur [where f = ?f and g = ?g and L = ?L, OF inv c(1) me(1)])
    show "spl_ok (?f (cpus s c)) (?g me)" using me(2,4) c(3) by (auto simp: spl_ok_def)
    show "{v. splk_holder (?L v) = Some d} = held_locks d s" if "d \<noteq> c" for d
      using init that by (auto simp: held_locks_def held_by_def spinlock_init_def)
    show "?L v = spinlock_init \<or> v \<in> wchans s \<and> (\<exists>d<numcpus s. ?L v = held_by d)" for v
      using lock_cases(1) [OF inv, of v] w(1) c(1) by auto
    show "pc_ok (upd_cpu c ?f (s\<lparr>wc_lock := ?L\<rparr>)) c (?g me) (R c) (V c)" using me(3) c(2) by (simp add: pc_ok_def)
  qed (use sched_invD(6) [OF inv c(1)] card in \<open>simp_all add: cpu_inv_def\<close>)
  then show ?thesis using wc_acquire_eq [OF inv_view(1) [OF inv c(1)] init] by (simp only: eq) blast
qed

text \<open>The state without a lock that the CPU holds.\<close>

definition unlocked :: "nat \<Rightarrow> nat \<Rightarrow> ('m, 'v) sys \<Rightarrow> ('m, 'v) sys" where
  "unlocked c w s = upd_cpu c (\<lambda>p. p\<lparr>c_spins := c_spins p - 1, c_irq := (t_ipl_count (the (threads s (cur c s))) = 1)\<rparr>)
     (upd_thread (cur c s) (\<lambda>th. th\<lparr>t_ipl_count := t_ipl_count th - 1\<rparr>) (s\<lparr>wc_lock := (wc_lock s)(w := spinlock_init)\<rparr>))"

lemma wc_release_unlocked:
  assumes me: "threads s (cur c s) = Some me" "1 \<le> t_ipl_count me" "\<not> c_irq (cpus s c)" and w: "wc_lock s w = held_by c" "0 < c_spins (cpus s c)"
  shows "wc_release c w s = Inr (unlocked c w s)"
proof -
  have v: "view_ok c (unlocked c w s)" using me by (auto simp: view_ok_def unlocked_def sys_defs)
  have "(hold c (unlocked c w s))\<lparr>wc_lock := (wc_lock (unlocked c w s))(w := held_by c)\<rparr> = s"
  proof (rule sys.equality)
    show "cpus ((hold c (unlocked c w s))\<lparr>wc_lock := (wc_lock (unlocked c w s))(w := held_by c)\<rparr>) = cpus s"
      using me w by (simp add: hold_def unlocked_def sys_defs fun_upd_idem)
    show "threads ((hold c (unlocked c w s))\<lparr>wc_lock := (wc_lock (unlocked c w s))(w := held_by c)\<rparr>) = threads s"
      using me w by (simp add: hold_def unlocked_def sys_defs fun_upd_idem)
    show "wc_lock ((hold c (unlocked c w s))\<lparr>wc_lock := (wc_lock (unlocked c w s))(w := held_by c)\<rparr>) = wc_lock s"
      using w by (simp add: unlocked_def sys_defs fun_upd_idem)
  qed (simp_all add: hold_def unlocked_def sys_defs)
  moreover have "wc_lock (unlocked c w s) w = spinlock_init" by (simp add: unlocked_def)
  ultimately show ?thesis using wc_release_eq [OF v, of w] by simp
qed

lemma unlocked_inv:
  assumes inv: "sched_inv s P R Z V W" and c: "c < numcpus s" "c_pc (cpus s c) = Plain" and w: "splk_holder (wc_lock s w) = Some c"
  shows "wc_release c w s = Inr (unlocked c w s)" "sched_inv (unlocked c w s) P R Z V W"
proof -
  obtain me where me: "threads s (cur c s) = Some me" "spl_ok (cpus s c) me" "pc_ok s c me (R c) (V c)"
    by (rule inv_cur [OF inv c(1)])
  let ?L = "(wc_lock s)(w := spinlock_init)" and ?f = "\<lambda>p :: 'a cpu. p\<lparr>c_spins := c_spins p - 1, c_irq := (t_ipl_count (the (threads s (cur c s))) = 1)\<rparr>"
    and ?g = "\<lambda>th. th\<lparr>t_ipl_count := t_ipl_count th - 1\<rparr>"
  have fin: "finite (held_locks c s)" by (rule lock_cases(4) [OF inv])
  moreover have wh: "w \<in> held_locks c s" using w by (simp add: held_locks_def)
  ultimately have "0 < card (held_locks c s)" by (auto simp: card_gt_0_iff)
  then have pos: "0 < c_spins (cpus s c)" using sched_invD(6) [OF inv c(1)] by (simp add: cpu_inv_def)
  have irq: "1 \<le> t_ipl_count me" "\<not> c_irq (cpus s c)" using me(2) pos by (auto simp: spl_ok_def)
  from wc_release_unlocked [OF me(1) irq _ pos] lock_cases(2) [OF inv w]
  show "wc_release c w s = Inr (unlocked c w s)" by blast
  have "{v. splk_holder (?L v) = Some c} = held_locks c s - {w}" by (auto simp: held_locks_def spinlock_init_def)
  then have card: "c_spins (?f (cpus s c)) = card {v. splk_holder (?L v) = Some c}"
    using sched_invD(6) [OF inv c(1)] wh by (simp add: cpu_inv_def card_Diff_singleton)
  show "sched_inv (unlocked c w s) P R Z V W" unfolding unlocked_def
  proof (rule sched_inv_cur [where f = ?f and g = ?g and L = ?L, OF inv c(1) me(1)])
    have "c_isidle (cpus s c) \<longrightarrow> t_in_intr me" using me(2) pos by (auto simp: spl_ok_def)
    then show "spl_ok (?f (cpus s c)) (?g me)" using me(1,2) pos by (auto simp: spl_ok_def of_nat_diff)
    show "{v. splk_holder (?L v) = Some d} = held_locks d s" if "d \<noteq> c" for d
      using w that by (auto simp: held_locks_def spinlock_init_def)
    show "?L v = spinlock_init \<or> v \<in> wchans s \<and> (\<exists>d<numcpus s. ?L v = held_by d)" for v
      using lock_cases(1) [OF inv, of v] by auto
    show "pc_ok (upd_cpu c ?f (s\<lparr>wc_lock := ?L\<rparr>)) c (?g me) (R c) (V c)" using me(3) c(2) by (simp add: pc_ok_def)
  qed (use sched_invD(6) [OF inv c(1)] card in \<open>simp_all add: cpu_inv_def\<close>)
qed

text \<open>Interrupt levels.\<close>

definition with_spl :: "nat \<Rightarrow> int \<Rightarrow> ('m, 'v) sys \<Rightarrow> ('m, 'v) sys" where
  "with_spl c x s = (let me = the (threads s (cur c s)) in
     upd_cpu c (\<lambda>p. p\<lparr>c_irq := (t_ipl_count me + x - t_spl me = 0)\<rparr>)
     (upd_thread (cur c s) (\<lambda>th. th\<lparr>t_spl := x, t_ipl_count := t_ipl_count th + x - t_spl th\<rparr>) s))"

lemma cpu_spins_idem: "c_spins k = x \<Longrightarrow> k\<lparr>c_spins := x, c_irq := b\<rparr> = k\<lparr>c_irq := b\<rparr>"
  by (cases k) simp

lemma set_spl_eq:
  assumes "view_ok c s" and "threads s (cur c s) = Some me" and "t_spl me \<in> {0, 1}" and "x \<in> {0, 1}" and "t_spl me \<le> t_ipl_count me"
  shows "set_spl c x s = Inr (t_spl me, with_spl c x s)"
  using assms by (auto simp: set_spl_def on_cpu_def cpu_view_def put_view_def deref_def splx_def splraise_def spllower_def
    view_ok_def with_spl_def sys_defs fun_eq_iff Let_def cpu_spins_idem intro!: sys.equality)

lemma with_spl_inv:
  assumes inv: "sched_inv s P R Z V W" and c: "c < numcpus s" "c_pc (cpus s c) = Plain" and x: "x \<in> {0, 1}"
    and ok: "\<not> c_isidle (cpus s c) \<and> (\<not> in_intr c s) \<or> x = 1"
  shows "\<exists>l \<in> {0, 1}. set_spl c x s = Inr (l, with_spl c x s) \<and> (in_intr c s \<longrightarrow> l = 1)" "sched_inv (with_spl c x s) P R Z V W"
proof -
  obtain me where me: "threads s (cur c s) = Some me" "spl_ok (cpus s c) me" "pc_ok s c me (R c) (V c)" "in_intr c s = t_in_intr me"
    by (rule inv_cur [OF inv c(1)])
  have "set_spl c x s = Inr (t_spl me, with_spl c x s)"
    using me(2) x by (intro set_spl_eq [OF inv_view(1) [OF inv c(1)] me(1)]) (auto simp: spl_ok_def)
  then show "\<exists>l \<in> {0, 1}. set_spl c x s = Inr (l, with_spl c x s) \<and> (in_intr c s \<longrightarrow> l = 1)" using me(2,4) by (auto simp: spl_ok_def)
  let ?f = "\<lambda>p :: 'a cpu. p\<lparr>c_irq := (t_ipl_count me + x - t_spl me = 0)\<rparr>"
    and ?g = "\<lambda>th. th\<lparr>t_spl := x, t_ipl_count := t_ipl_count th + x - t_spl th\<rparr>"
  have eq: "with_spl c x s = upd_cpu c ?f (upd_thread (cur c s) ?g (s\<lparr>wc_lock := wc_lock s\<rparr>))"
    using me(1) by (simp add: with_spl_def Let_def)
  show "sched_inv (with_spl c x s) P R Z V W" unfolding eq
  proof (rule sched_inv_cur [where f = ?f and g = ?g and L = "wc_lock s", OF inv c(1) me(1)])
    show "spl_ok (?f (cpus s c)) (?g me)" using me(2,4) x ok by (auto simp: spl_ok_def)
    show "wc_lock s w = spinlock_init \<or> w \<in> wchans s \<and> (\<exists>d<numcpus s. wc_lock s w = held_by d)" for w by (rule lock_cases(1) [OF inv])
    show "pc_ok (upd_cpu c ?f (s\<lparr>wc_lock := wc_lock s\<rparr>)) c (?g me) (R c) (V c)" using me(3) c(2) by (simp add: pc_ok_def)
  qed (use sched_invD(6) [OF inv c(1)] in \<open>simp_all add: cpu_inv_def held_locks_def\<close>)
qed

lemma intr_enter_inv:
  assumes inv: "sched_inv s P R Z V W" and c: "c < numcpus s" "c_pc (cpus s c) = Plain" "c_irq (cpus s c) \<or> c_isidle (cpus s c)" "\<not> in_intr c s"
  shows "\<exists>s'. intr_enter c s = Inr s' \<and> sched_inv s' P R Z V W"
proof -
  obtain me where me: "threads s (cur c s) = Some me" "spl_ok (cpus s c) me" "pc_ok s c me (R c) (V c)" "in_intr c s = t_in_intr me"
    by (rule inv_cur [OF inv c(1)])
  let ?f = "\<lambda>p :: 'a cpu. p\<lparr>c_irq := False\<rparr>"
    and ?g = "\<lambda>th. th\<lparr>t_in_intr := True, t_ipl_count := t_ipl_count th + 1 - t_spl th, t_adjust := (t_spl th = 0), t_spl := 1\<rparr>"
  have "intr_enter c s = Inr (upd_cpu c ?f (upd_thread (cur c s) ?g (s\<lparr>wc_lock := wc_lock s\<rparr>)))"
    using me(1,2,4) c(3,4) by (auto simp: intr_enter_def deref_def spl_ok_def sys_defs Let_def intro!: sys.equality)
  moreover have "sched_inv (upd_cpu c ?f (upd_thread (cur c s) ?g (s\<lparr>wc_lock := wc_lock s\<rparr>))) P R Z V W"
  proof (rule sched_inv_cur [where f = ?f and g = ?g and L = "wc_lock s", OF inv c(1) me(1)])
    show "spl_ok (?f (cpus s c)) (?g me)" using me(2,4) c(3,4) by (auto simp: spl_ok_def)
    show "wc_lock s w = spinlock_init \<or> w \<in> wchans s \<and> (\<exists>d<numcpus s. wc_lock s w = held_by d)" for w by (rule lock_cases(1) [OF inv])
    show "pc_ok (upd_cpu c ?f (s\<lparr>wc_lock := wc_lock s\<rparr>)) c (?g me) (R c) (V c)" using me(3) c(2) by (simp add: pc_ok_def)
  qed (use sched_invD(6) [OF inv c(1)] in \<open>simp_all add: cpu_inv_def held_locks_def\<close>)
  ultimately show ?thesis by blast
qed

lemma intr_exit_inv:
  assumes inv: "sched_inv s P R Z V W" and c: "c < numcpus s" "c_pc (cpus s c) = Plain" "in_intr c s" "c_spins (cpus s c) = 0"
  shows "\<exists>s'. intr_exit c s = Inr s' \<and> sched_inv s' P R Z V W"
proof -
  obtain me where me: "threads s (cur c s) = Some me" "spl_ok (cpus s c) me" "pc_ok s c me (R c) (V c)" "in_intr c s = t_in_intr me"
    by (rule inv_cur [OF inv c(1)])
  let ?f = "\<lambda>p :: 'a cpu. p\<lparr>c_irq := \<not> c_isidle p\<rparr>"
    and ?g = "\<lambda>th. th\<lparr>t_spl := (if t_adjust th then 0 else 1), t_ipl_count := (if t_adjust th then 0 else 1), t_in_intr := False\<rparr>"
  have "intr_exit c s = Inr (upd_cpu c ?f (upd_thread (cur c s) ?g (s\<lparr>wc_lock := wc_lock s\<rparr>)))"
    using me(1,2,4) c(3,4) by (auto simp: intr_exit_def deref_def spl_ok_def sys_defs Let_def kassert_def intro!: sys.equality)
  moreover have "sched_inv (upd_cpu c ?f (upd_thread (cur c s) ?g (s\<lparr>wc_lock := wc_lock s\<rparr>))) P R Z V W"
  proof (rule sched_inv_cur [where f = ?f and g = ?g and L = "wc_lock s", OF inv c(1) me(1)])
    show "spl_ok (?f (cpus s c)) (?g me)" using me(2,4) c(3,4) by (auto simp: spl_ok_def)
    show "wc_lock s w = spinlock_init \<or> w \<in> wchans s \<and> (\<exists>d<numcpus s. wc_lock s w = held_by d)" for w by (rule lock_cases(1) [OF inv])
    show "pc_ok (upd_cpu c ?f (s\<lparr>wc_lock := wc_lock s\<rparr>)) c (?g me) (R c) (V c)" using me(3) c(2) by (simp add: pc_ok_def)
  qed (use sched_invD(6) [OF inv c(1)] in \<open>simp_all add: cpu_inv_def held_locks_def\<close>)
  ultimately show ?thesis by blast
qed

section \<open>Wait channels\<close>

lemma sched_inv_wchans:
  assumes inv: "sched_inv s P R Z V W" and l: "lists_inv (s\<lparr>tls := q, wchans := X, wc_name := N\<rparr>) P R Z V W'"
    and X: "finite X" "\<And>t w. t \<in> dom (threads s) \<Longrightarrow> P t = Sleeping w \<Longrightarrow> w \<in> X" "\<And>w. w \<in> wchans s \<Longrightarrow> splk_holder (wc_lock s w) \<noteq> None \<Longrightarrow> w \<in> X"
  shows "sched_inv (s\<lparr>tls := q, wchans := X, wc_name := N\<rparr>) P R Z V W'"
proof -
  let ?s = "s\<lparr>tls := q, wchans := X, wc_name := N\<rparr>"
  have cur: "cur c ?s = cur c s" for c by (simp add: cur_def)
  have "locks_inv ?s" using sched_invD(2) [OF inv] X(1,3) by (force simp: locks_inv_def held_by_def)
  moreover have "procs_inv ?s" using sched_invD(3) [OF inv] by (simp add: procs_inv_def)
  moreover have "thread_inv ?s (P t) t th" if "threads s t = Some th" for t th
    using sched_invD(5) [OF inv that] X(2) [of t] that by (cases "P t") (auto simp: thread_inv_def place_ok_def cur)
  moreover have "pc_ok ?s c th (R c) (V c)" if "pc_ok s c th (R c) (V c)" for c th
    using that X(3) by (auto simp: pc_ok_def split: cpu_pc.splits)
  then have "cpu_inv ?s P (R c) (V c) c" if "c < numcpus s" for c
    using sched_invD(6) [OF inv that] by (auto simp: cpu_inv_def cur held_locks_def)
  ultimately show ?thesis using l sched_invD(4) [OF inv] by (simp add: sched_inv_def)
qed

lemma wch_create_inv:
  assumes inv: "sched_inv s P R Z V W" and w: "w \<notin> wchans s"
  shows "sched_inv (wch_create w name s) P R Z V (W(w \<mapsto> []))"
  unfolding wch_create_def
proof (rule sched_inv_wchans [OF inv])
  have l: "lists_inv s P R Z V W" by (rule sched_invD(1) [OF inv])
  then have "W w = None" using w unfolding lists_inv_def by blast
  then have "tl_rep (threadlist_init (wc_threads w) (tls s)) (dom (threads s)) (qmap (numcpus s) R Z V (W(w \<mapsto> [])))"
    using l threadlist_init_ok [of "tls s" "dom (threads s)" "qmap (numcpus s) R Z V W" "wc_threads w"] by (simp add: lists_inv_def)
  moreover have none: "P t \<noteq> Sleeping w" if "threads s t = Some th" for t th
    using sched_invD(5) [OF inv that] w by (auto simp: thread_inv_def place_ok_def)
  ultimately show "lists_inv (s\<lparr>tls := threadlist_init (wc_threads w) (tls s), wchans := insert w (wchans s), wc_name := (wc_name s)(w := name)\<rparr>) P R Z V (W(w \<mapsto> []))"
    using l by (auto simp: lists_inv_def at_place_def)
  show "v \<in> insert w (wchans s)" if "t \<in> dom (threads s)" "P t = Sleeping v" for t v
    using that sched_invD(5) [OF inv, of t] by (auto simp: thread_inv_def place_ok_def)
qed (use sched_invD(2) [OF inv] in \<open>auto simp: locks_inv_def\<close>)

lemma wch_destroy_inv:
  assumes inv: "sched_inv s P R Z V W" and w: "w \<in> wchans s" "threadlist_isempty (wc_threads w) (tls s)" "splk_holder (wc_lock s w) = None"
  shows "\<exists>s'. wch_destroy w s = Inr s' \<and> sched_inv s' P R Z V (W(w := None))"
proof -
  have l: "lists_inv s P R Z V W" by (rule sched_invD(1) [OF inv])
  then obtain ws where "W w = Some ws" using w(1) unfolding lists_inv_def by blast
  then have W: "W w = Some []" using lists_length(3) [OF l, of "wc_threads w" ws] w(2) by simp
  have "threadlist_cleanup (wc_threads w) (tls s) = Inr () \<and> tl_rep (tls s) (dom (threads s)) (qmap (numcpus s) R Z V (W(w := None)))"
    using l threadlist_cleanup_ok [of "tls s" "dom (threads s)" "qmap (numcpus s) R Z V W" "wc_threads w"] W by (simp add: lists_inv_def)
  moreover have "sched_inv (s\<lparr>tls := tls s, wchans := wchans s - {w}, wc_name := wc_name s\<rparr>) P R Z V (W(w := None))"
  proof (rule sched_inv_wchans [OF inv])
    show "lists_inv (s\<lparr>tls := tls s, wchans := wchans s - {w}, wc_name := wc_name s\<rparr>) P R Z V (W(w := None))"
      using l calculation by (auto simp: lists_inv_def at_place_def)
    have "set [] = at_place s P (Sleeping w)" using l W unfolding lists_inv_def by blast
    then have "P t \<noteq> Sleeping w" if "t \<in> dom (threads s)" for t using that by (auto simp: at_place_def)
    then show "v \<in> wchans s - {w}" if "t \<in> dom (threads s)" "P t = Sleeping v" for t v
      using that sched_invD(5) [OF inv, of t] by (auto simp: thread_inv_def place_ok_def)
  qed (use sched_invD(2) [OF inv] w(3) in \<open>auto simp: locks_inv_def\<close>)
  moreover have "s\<lparr>tls := tls s, wchans := X, wc_name := wc_name s\<rparr> = s\<lparr>wchans := X\<rparr>" for X by simp
  ultimately show ?thesis by (simp only: wch_destroy_def sbind.simps) blast
qed

text \<open>A thread in hand.\<close>

lemma sched_inv_take:
  assumes inv: "sched_inv s P R Z V W" and th: "threads s t = Some th" "\<And>c. P t \<noteq> Running c" "\<And>c. P t \<noteq> Dead c"
    and l: "lists_inv (s\<lparr>tls := q\<rparr>) (P(t := Nowhere)) R' Z' V' W'"
    and pc: "\<And>c me. c < numcpus s \<Longrightarrow> pc_ok s c me (R c) (V c) \<Longrightarrow> pc_ok s c me (R' c) (V' c)"
  shows "sched_inv (s\<lparr>tls := q\<rparr>) (P(t := Nowhere)) R' Z' V' W'"
proof -
  have "place_ok s Nowhere t th" using sched_invD(5) [OF inv th(1)] th(3) by (auto simp: thread_inv_def place_ok_def)
  then have "sched_inv (upd_thread t (\<lambda>x. x) (s\<lparr>tls := q\<rparr>)) (P(t := Nowhere)) R' Z' V' W'"
    by (intro sched_inv_move [where f = "\<lambda>x. x", OF inv th(1) l _ th(2)]) (use pc in auto)
  moreover have "upd_thread t (\<lambda>x. x) (s\<lparr>tls := q\<rparr>) = s\<lparr>tls := q\<rparr>" by (simp add: sys_defs option.map_ident fun_upd_idem)
  ultimately show ?thesis by simp
qed

lemma lists_head:
  assumes "lists_inv s P R Z V W"
  shows "c < numcpus s \<Longrightarrow> t \<in> set (R c) \<Longrightarrow> t \<in> dom (threads s) \<and> P t = Ready c"
    "c < numcpus s \<Longrightarrow> t \<in> set (Z c) \<Longrightarrow> t \<in> dom (threads s) \<and> P t = Dead c"
    "c < numcpus s \<Longrightarrow> V c = Some q \<Longrightarrow> t \<in> set q \<Longrightarrow> t \<in> dom (threads s) \<and> P t = Held c"
    "W w = Some q \<Longrightarrow> t \<in> set q \<Longrightarrow> t \<in> dom (threads s) \<and> P t = Sleeping w"
  using assms by (auto simp: lists_inv_def at_place_def)

lemma assert_hold_ok:
  assumes "sched_inv s P R Z V W" and "c < numcpus s" and "splk_holder lk = Some c"
  shows "assert_hold c lk s = Inr ()"
  using inv_view(1) [OF assms(1,2)] assms(3)
  by (auto simp: assert_hold_def cpu_view_def view_ok_def deref_def spinlock_do_i_hold_def)

text \<open>Between the steps every thread has a place.\<close>

definition placed :: "(nat \<Rightarrow> place) \<Rightarrow> bool" where
  "placed P \<longleftrightarrow> (\<forall>t. P t \<noteq> Nowhere)"

lemma placed_upd [simp]: "placed P \<Longrightarrow> pl \<noteq> Nowhere \<Longrightarrow> placed (P(t := pl))"
  by (simp add: placed_def)

lemma wake_inv:
  assumes "sched_inv s (P(t := Nowhere)) R Z V W" and "c < numcpus s" and "threads s t = Some th" and "placed P"
  shows "\<exists>s' P' R'. thread_make_runnable c t False s = Inr s' \<and> sched_inv s' P' R' Z V W \<and> placed P'"
proof -
  from make_runnable_inv [OF assms(1-3)] obtain d s' where
    "thread_make_runnable c t False s = Inr s'" "sched_inv s' (P(t := Ready d)) (R(d := R d @ [t])) Z V W" by auto
  moreover have "placed (P(t := Ready d))" using assms(4) by simp
  ultimately show ?thesis by blast
qed

lemma wch_wakeone_inv:
  assumes inv: "sched_inv s P R Z V W" and c: "c < numcpus s" and w: "splk_holder (wc_lock s w) = Some c" and placed: "placed P"
  shows "\<exists>s' P' R' W'. wch_wakeone c w s = Inr s' \<and> sched_inv s' P' R' Z V W' \<and> placed P'"
proof -
  note l = sched_invD(1) [OF inv]
  from l lock_cases(2) [OF inv w] obtain ws where W: "W w = Some ws" unfolding lists_inv_def by blast
  show ?thesis
  proof (cases ws)
    case Nil
    then show ?thesis using lists_none(4) [OF l, of w] W inv assert_hold_ok [OF inv c w] placed by (auto simp: wch_wakeone_def)
  next
    case (Cons t ts)
    from lists_take(5) [OF l, of w t ts] W Cons obtain q where
      q: "threadlist_remhead (wc_threads w) (tls s) = Inr (Some t, q)" "lists_inv (s\<lparr>tls := q\<rparr>) (P(t := Nowhere)) R Z V (W(w \<mapsto> ts))" by blast
    from lists_head(4) [OF l W, of t] Cons obtain th where t: "threads s t = Some th" "P t = Sleeping w" by auto
    have "sched_inv (s\<lparr>tls := q\<rparr>) (P(t := Nowhere)) R Z V (W(w \<mapsto> ts))" by (rule sched_inv_take [OF inv t(1) _ _ q(2)]) (use t(2) in auto)
    from wake_inv [OF this, of c th] c t(1) q(1) assert_hold_ok [OF inv c w] placed show ?thesis by (auto simp: wch_wakeone_def Let_def)
  qed
qed

text \<open>The loops that empty a list into another one.\<close>

lemma take_all_rep:
  assumes "tl_rep q T A" and "A l = Some xs" and "A l' = Some ys" and "l \<noteq> l'"
  shows "\<exists>q'. take_all l l' q = Some (Inr q') \<and> tl_rep q' T (A(l \<mapsto> [], l' \<mapsto> ys @ xs))"
  using assms
proof (induction xs arbitrary: q A ys)
  case Nil
  then show ?case using tlist.remhead_Nil [of q T A l] by (subst take_all.simps) (simp add: fun_upd_idem)
next
  case (Cons t ts)
  from tlist.remhead_Cons [OF Cons.prems(1,2)] obtain q1 where
    q1: "threadlist_remhead l q = Inr (Some t, q1)" "tl_rep q1 T (A(l \<mapsto> ts))" by blast
  have ys: "(A(l \<mapsto> ts)) l' = Some ys" using Cons.prems(3,4) by simp
  have "t \<in> T" "distinct (t # ts)" using tlist.once [OF Cons.prems(1,2)] by auto
  moreover have "t \<notin> set us" if "A k = Some us" "k \<noteq> l" for k us
    using tlist.disjoint [OF Cons.prems(1) that(1) Cons.prems(2) that(2)] by auto
  ultimately have "t \<notin> \<Union> (set ` ran (A(l \<mapsto> ts)))" by (auto simp: ran_def split: if_splits)
  from tlist.addtail_snoc [OF q1(2) ys \<open>t \<in> T\<close> this] obtain q2 where
    q2: "threadlist_addtail l' t q1 = Inr q2" "tl_rep q2 T (A(l \<mapsto> ts, l' \<mapsto> ys @ [t]))" by blast
  have "(A(l \<mapsto> ts, l' \<mapsto> ys @ [t])) l = Some ts" "(A(l \<mapsto> ts, l' \<mapsto> ys @ [t])) l' = Some (ys @ [t])" using Cons.prems(4) by simp_all
  from Cons.IH [OF q2(2) this Cons.prems(4)] obtain q3 where
    "take_all l l' q2 = Some (Inr q3)" "tl_rep q3 T (A(l \<mapsto> ts, l' \<mapsto> ys @ [t], l \<mapsto> [], l' \<mapsto> (ys @ [t]) @ ts))" by blast
  moreover have "A(l \<mapsto> ts, l' \<mapsto> ys @ [t], l \<mapsto> [], l' \<mapsto> (ys @ [t]) @ ts) = A(l \<mapsto> [], l' \<mapsto> ys @ t # ts)" by auto
  ultimately show ?case using q1(1) q2(1) by (subst take_all.simps) (simp del: fun_upd_apply)
qed

lemma set_pc_sel [simp]: "tls (set_pc c pc s) = tls s" "numcpus (set_pc c pc s) = numcpus s" "threads (set_pc c pc s) = threads s"
  "wc_lock (set_pc c pc s) = wc_lock s" "wchans (set_pc c pc s) = wchans s" "p_numthreads (set_pc c pc s) = p_numthreads s"
  "cur d (set_pc c pc s) = cur d s" "c_isidle (cpus (set_pc c pc s) d) = c_isidle (cpus s d)" "c_spins (cpus (set_pc c pc s) d) = c_spins (cpus s d)"
  "c_pc (cpus (set_pc c pc s) d) = (if d = c then pc else c_pc (cpus s d))" "c_runqueue_lock (cpus (set_pc c pc s) d) = c_runqueue_lock (cpus s d)"
  "in_intr d (set_pc c pc s) = in_intr d s"
  by (simp_all add: set_pc_def cur_def in_intr_def)

text \<open>A CPU goes on in its program, and threads that keep their fields move.\<close>

lemma sched_inv_bulk:
  assumes inv: "sched_inv s P R Z V W" and l: "lists_inv (s\<lparr>tls := q\<rparr>) P' R' Z V' W'"
    and pl: "\<And>t th. threads s t = Some th \<Longrightarrow> place_ok (set_pc c pc s) (P' t) t th"
    and run: "\<And>d. d < numcpus s \<Longrightarrow> \<not> c_isidle (cpus s d) \<Longrightarrow> P' (cur d s) = Running d"
    and pcs: "\<And>d me. d < numcpus s \<Longrightarrow> threads s (cur d s) = Some me \<Longrightarrow> pc_ok s d me (R d) (V d) \<Longrightarrow>
      pc_ok (set_pc c pc s) d me (R' d) (V' d)"
  shows "sched_inv (set_pc c pc (s\<lparr>tls := q\<rparr>)) P' R' Z V' W'"
proof -
  let ?s = "set_pc c pc (s\<lparr>tls := q\<rparr>)"
  have eqs: "c_irq (cpus ?s d) = c_irq (cpus s d)" "c_frame (cpus ?s d) = c_frame (cpus s d)" "c_ipi_lock (cpus ?s d) = c_ipi_lock (cpus s d)"
    "c_ipi_pending (cpus ?s d) = c_ipi_pending (cpus s d)" "c_shootdown (cpus ?s d) = c_shootdown (cpus s d)" for d
    by (simp_all add: set_pc_def)
  have "place_ok ?s = place_ok (set_pc c pc s)" by (rule place_ok_cong) simp_all
  then have "thread_inv ?s (P' t) t th" if "threads s t = Some th" for t th
    using sched_invD(5) [OF inv that] pl [OF that] by (simp add: thread_inv_def)
  moreover have "cpu_inv ?s P' (R' d) (V' d) d" if d: "d < numcpus s" for d
  proof -
    obtain me where me: "threads s (cur d s) = Some me" "t_cpu me = Some d" "spl_ok (cpus s d) me" "pc_ok s d me (R d) (V d)"
      using sched_invD(6) [OF inv d] by (auto simp: cpu_inv_def)
    have "pc_ok ?s d = pc_ok (set_pc c pc s) d" by (rule pc_ok_cong) simp_all
    then have "pc_ok ?s d me (R' d) (V' d)" using pcs [OF d me(1,4)] by simp
    moreover have "spl_ok (cpus ?s d) me" using me(3) by (simp add: spl_ok_def eqs)
    ultimately show ?thesis using sched_invD(6) [OF inv d] run [OF d] me(1,2) unfolding cpu_inv_def by (simp add: held_locks_def eqs)
  qed
  moreover have "lists_inv ?s P' R' Z V' W'" using l by (simp add: lists_inv_def at_place_def)
  moreover have "locks_inv ?s" "procs_inv ?s" using sched_invD(2,3) [OF inv] by (simp_all add: locks_inv_def procs_inv_def)
  ultimately show ?thesis using sched_invD(4) [OF inv] by (simp add: sched_inv_def)
qed

lemma no_held:
  assumes "sched_inv s P R Z V W" and "c_pc (cpus s c) = Plain \<or> c_pc (cpus s c) = Counting i m n" and "threads s t = Some th"
  shows "P t \<noteq> Held c"
  using sched_invD(5) [OF assms(1,3)] assms(2) by (auto simp: thread_inv_def place_ok_def)

lemma inv_running:
  assumes "sched_inv s P R Z V W" and "d < numcpus s" and "\<not> c_isidle (cpus s d)"
  shows "P (cur d s) = Running d"
  using sched_invD(6) [OF assms(1,2)] assms(3) by (simp add: cpu_inv_def)

lemma lists_init_victims:
  assumes inv: "sched_inv s P R Z V W" and c: "c < numcpus s" "V c = None"
  shows "tl_rep (threadlist_init (victims c) (tls s)) (dom (threads s)) (qmap (numcpus s) R Z (V(c \<mapsto> [])) W)"
  using sched_invD(1) [OF inv] threadlist_init_ok [of "tls s" "dom (threads s)" "qmap (numcpus s) R Z V W" "victims c"] c
  by (simp add: lists_inv_def)

lemma wch_wakeall_inv:
  assumes inv: "sched_inv s P R Z V W" and c: "c < numcpus s" "c_pc (cpus s c) = Plain" and w: "splk_holder (wc_lock s w) = Some c"
    and placed: "placed P"
  shows "\<exists>s' P' V' W'. wch_wakeall c w s = Inr s' \<and> sched_inv s' P' R Z V' W' \<and> placed P'"
proof -
  note l = sched_invD(1) [OF inv] and wch = lock_cases(2) [OF inv w]
  from l wch obtain ws where W: "W w = Some ws" unfolding lists_inv_def by blast
  have V: "V c = None" using sched_invD(6) [OF inv c(1)] c(2) by (auto simp: cpu_inv_def pc_ok_def)
  have "wc_threads w \<noteq> victims c" using list_div(6) [of c] list_div(8) [of w] by fastforce
  from take_all_rep [OF lists_init_victims [OF inv c(1) V] _ _ this, of ws "[]"] W c(1) obtain q where
    q: "take_all (wc_threads w) (victims c) (threadlist_init (victims c) (tls s)) = Some (Inr q)"
      "tl_rep q (dom (threads s)) (qmap (numcpus s) R Z (V(c \<mapsto> ws)) (W(w \<mapsto> [])))" by auto
  define P' where "P' t = (if t \<in> set ws then Held c else P t)" for t
  have ws: "P t = Sleeping w \<longleftrightarrow> t \<in> set ws" if "t \<in> dom (threads s)" for t
    using l W that unfolding lists_inv_def at_place_def by blast
  have wsd: "set ws \<subseteq> dom (threads s)" using l W unfolding lists_inv_def at_place_def by blast
  have nh: "P t \<noteq> Held c" if "t \<in> dom (threads s)" for t using no_held [OF inv disjI1 [OF c(2)]] that by blast
  have ap: "at_place s P' pl = (if pl = Held c then set ws else if pl = Sleeping w then {} else at_place s P pl)" for pl
    using ws wsd nh by (auto simp: at_place_def P'_def split: if_splits)
  have "lists_inv (s\<lparr>tls := q\<rparr>) P' R Z (V(c \<mapsto> ws)) (W(w \<mapsto> []))"
    using l q(2) W ap by (auto simp: lists_inv_def at_place_def [of "s\<lparr>tls := q\<rparr>"] at_place_def [of s, symmetric])
  then have "sched_inv (set_pc c (Waking w) (s\<lparr>tls := q\<rparr>)) P' R Z (V(c \<mapsto> ws)) (W(w \<mapsto> []))"
  proof (rule sched_inv_bulk [OF inv])
    show "place_ok (set_pc c (Waking w) s) (P' t) t th" if t: "threads s t = Some th" for t th
      using sched_invD(5) [OF inv t] c(1) ws [of t] nh [of t] t
      by (cases "P t") (auto simp: P'_def thread_inv_def place_ok_def)
    show "P' (cur d s) = Running d" if "d < numcpus s" "\<not> c_isidle (cpus s d)" for d
      using inv_running [OF inv that] ws inv_cur [OF inv that(1)] by (metis P'_def domI place.distinct(7))
    show "pc_ok (set_pc c (Waking w) s) d me (R d) ((V(c \<mapsto> ws)) d)" if "pc_ok s d me (R d) (V d)" for d me
      using that w wch by (auto simp: pc_ok_def split: cpu_pc.splits)
  qed
  moreover have "placed P'" using placed by (simp add: P'_def placed_def)
  ultimately show ?thesis using assert_hold_ok [OF inv c(1) w] q(1)
    by (auto simp: wch_wakeall_def on_lists_def loop_result_def)
qed

lemma drop_victims:
  assumes inv: "sched_inv s P R Z V W" and c: "c < numcpus s" "V c = Some []"
  shows "threadlist_cleanup (victims c) (tls s) = Inr ()" "sched_inv (set_pc c Plain s) P R Z (V(c := None)) W"
proof -
  note l = sched_invD(1) [OF inv]
  have cl: "threadlist_cleanup (victims c) (tls s) = Inr () \<and> tl_rep (tls s) (dom (threads s)) (qmap (numcpus s) R Z (V(c := None)) W)"
    using l threadlist_cleanup_ok [of "tls s" "dom (threads s)" "qmap (numcpus s) R Z V W" "victims c"] c by (simp add: lists_inv_def)
  then show "threadlist_cleanup (victims c) (tls s) = Inr ()" by blast
  have nh: "P t \<noteq> Held c" if "t \<in> dom (threads s)" for t
    using l c that unfolding lists_inv_def at_place_def by (metis (mono_tags, lifting) empty_iff empty_set mem_Collect_eq)
  have "lists_inv (s\<lparr>tls := tls s\<rparr>) P R Z (V(c := None)) W" using l cl by (simp add: lists_inv_def)
  then have "sched_inv (set_pc c Plain (s\<lparr>tls := tls s\<rparr>)) P R Z (V(c := None)) W"
  proof (rule sched_inv_bulk [OF inv])
    show "place_ok (set_pc c Plain s) (P t) t th" if t: "threads s t = Some th" for t th
      using sched_invD(5) [OF inv t] nh [of t] t by (cases "P t") (auto simp: thread_inv_def place_ok_def)
    show "pc_ok (set_pc c Plain s) d me (R d) ((V(c := None)) d)" if "pc_ok s d me (R d) (V d)" for d me
      using that by (auto simp: pc_ok_def split: cpu_pc.splits)
  qed (rule inv_running [OF inv])
  then show "sched_inv (set_pc c Plain s) P R Z (V(c := None)) W" by simp
qed

lemma wakeall_next_inv:
  assumes inv: "sched_inv s P R Z V W" and c: "c < numcpus s" "c_pc (cpus s c) = Waking w" and placed: "placed P"
  shows "\<exists>s' P' R' V'. wakeall_next c s = Inr s' \<and> sched_inv s' P' R' Z V' W \<and> placed P'"
proof -
  note l = sched_invD(1) [OF inv]
  obtain vs where V: "V c = Some vs" using sched_invD(6) [OF inv c(1)] c(2) by (auto simp: cpu_inv_def pc_ok_def)
  show ?thesis
  proof (cases vs)
    case Nil
    then show ?thesis using lists_none(3) [OF l c(1)] V drop_victims [OF inv c(1)] placed by (auto simp: wakeall_next_def)
  next
    case (Cons t ts)
    from lists_take(4) [OF l c(1), of t ts] V Cons obtain q where
      q: "threadlist_remhead (victims c) (tls s) = Inr (Some t, q)" "lists_inv (s\<lparr>tls := q\<rparr>) (P(t := Nowhere)) R Z (V(c \<mapsto> ts)) W" by blast
    from lists_head(3) [OF l c(1) V, of t] Cons obtain th where t: "threads s t = Some th" "P t = Held c" by auto
    have "sched_inv (s\<lparr>tls := q\<rparr>) (P(t := Nowhere)) R Z (V(c \<mapsto> ts)) W"
      by (rule sched_inv_take [OF inv t(1) _ _ q(2)]) (use t(2) c(2) in \<open>auto simp: pc_ok_def split: cpu_pc.splits\<close>)
    from wake_inv [OF this, of c th] c t(1) q(1) placed show ?thesis by (auto simp: wakeall_next_def Let_def)
  qed
qed

section \<open>Creation and end of threads\<close>

lemma set_pc_same: "set_pc c (c_pc (cpus s c)) s = s"
  by (simp add: set_pc_def sys_defs)

lemma sched_inv_tls:
  assumes inv: "sched_inv s P R Z V W" and l: "lists_inv (s\<lparr>tls := q\<rparr>) P R Z V W"
  shows "sched_inv (s\<lparr>tls := q\<rparr>) P R Z V W"
proof -
  have same: "set_pc 0 (c_pc (cpus s 0)) s = s" "set_pc 0 (c_pc (cpus s 0)) (s\<lparr>tls := q\<rparr>) = s\<lparr>tls := q\<rparr>"
    using set_pc_same [of 0 s] set_pc_same [of 0 "s\<lparr>tls := q\<rparr>"] by simp_all
  have "sched_inv (set_pc 0 (c_pc (cpus s 0)) (s\<lparr>tls := q\<rparr>)) P R Z V W"
    by (rule sched_inv_bulk [OF inv l]) (use sched_invD(5) [OF inv] inv_running [OF inv] in \<open>auto simp: same thread_inv_def\<close>)
  then show ?thesis by (simp add: same)
qed

lemma at_place_new: "threads s t = None \<Longrightarrow> pl \<noteq> Nowhere \<Longrightarrow> dom (threads s') = insert t (dom (threads s)) \<Longrightarrow>
    at_place s' (P(t := Nowhere)) pl = at_place s P pl"
  by (auto simp: at_place_def)

lemma card_attach:
  assumes "threads s t = None" and "finite (dom (threads s))" and "t_proc th = Some p"
  shows "card {u. \<exists>x. ((threads s)(t \<mapsto> th)) u = Some x \<and> t_proc x = Some p'} =
    card {u. \<exists>x. threads s u = Some x \<and> t_proc x = Some p'} + (if p' = p then 1 else 0)"
proof -
  let ?S = "{u. \<exists>x. threads s u = Some x \<and> t_proc x = Some p'}"
  have "finite ?S" using assms(2) by (rule rev_finite_subset) auto
  moreover have "t \<notin> ?S" using assms(1) by simp
  moreover have "{u. \<exists>x. ((threads s)(t \<mapsto> th)) u = Some x \<and> t_proc x = Some p'} = (if p' = p then insert t ?S else ?S)"
    using assms(1,3) by (auto split: if_splits)
  ultimately show ?thesis by (simp only: card_insert_disjoint if_split) auto
qed

lemma inv_finite: "sched_inv s P R Z V W \<Longrightarrow> finite (dom (threads s))"
  using finite_subset [of "dom (threads s)" "{0<..<2 ^ 32}"] by (auto dest: sched_invD(1) simp: lists_inv_def)

definition with_thread :: "nat \<Rightarrow> thread \<Rightarrow> nat \<Rightarrow> ('m, 'v) sys \<Rightarrow> ('m, 'v) sys" where
  "with_thread t th p s = s\<lparr>tls := threadlistnode_init t (tls s), p_numthreads := (p_numthreads s)(p := p_numthreads s p + 1),
     threads := (threads s)(t \<mapsto> th)\<rparr>"

lemma sched_inv_new:
  assumes inv: "sched_inv s P R Z V W" and t: "threads s t = None" "0 < t" "t < 2 ^ 32"
    and th: "t_proc th = Some p" "t_cpu th = Some d" "d < numcpus s" "parked th" "\<not> tm_badfaultfunc th"
      "t_stack th = Some (replicate 4 THREAD_STACK_MAGIC)"
  shows "sched_inv (with_thread t th p s) (P(t := Nowhere)) R Z V W"
proof -
  let ?s = "with_thread t th p s"
  note l = sched_invD(1) [OF inv]
  have dom: "dom (threads ?s) = insert t (dom (threads s))" by (auto simp: with_thread_def)
  have sel: "numcpus ?s = numcpus s" "wchans ?s = wchans s" "cpus ?s = cpus s" "wc_lock ?s = wc_lock s" "cur c ?s = cur c s" for c
    by (simp_all add: with_thread_def cur_def)
  have ti: "thread_inv ?s = thread_inv s" "place_ok ?s = place_ok s" "\<And>c. pc_ok ?s c = pc_ok s c"
    by (rule thread_inv_cong place_ok_cong pc_ok_cong; simp add: sel)+
  have "tl_rep (threadlistnode_init t (tls s)) (insert t (dom (threads s))) (qmap (numcpus s) R Z V W)"
    using l t(1) by (intro threadlistnode_init_ok) (auto simp: lists_inv_def)
  then have "lists_inv ?s (P(t := Nowhere)) R Z V W"
    using l t at_place_new [OF t(1) _ dom] by (simp add: lists_inv_def dom sel) (simp add: with_thread_def)
  moreover have "procs_inv ?s" using sched_invD(3) [OF inv] card_attach [OF t(1) inv_finite [OF inv] th(1)]
    by (auto simp: procs_inv_def with_thread_def simp del: fun_upd_apply) (auto simp: fun_upd_apply)
  moreover have "locks_inv ?s" using sched_invD(2) [OF inv] by (simp add: locks_inv_def sel)
  moreover have "thread_inv ?s ((P(t := Nowhere)) u) u x" if "threads ?s u = Some x" for u x
  proof (cases "u = t")
    case True
    then have "x = th" using that by (simp add: with_thread_def)
    then show ?thesis using True th unfolding ti by (simp add: thread_inv_def place_ok_def)
  next
    case False
    then show ?thesis using that sched_invD(5) [OF inv, of u x] unfolding ti by (simp add: with_thread_def)
  qed
  moreover have "cpu_inv ?s (P(t := Nowhere)) (R c) (V c) c" if c: "c < numcpus s" for c
  proof -
    have "cur c s \<noteq> t" using sched_invD(6) [OF inv c] t(1) by (auto simp: cpu_inv_def)
    moreover from this have "threads ?s (cur c s) = threads s (cur c s)" by (simp add: with_thread_def)
    ultimately show ?thesis using sched_invD(6) [OF inv c] unfolding cpu_inv_def sel ti held_locks_def by simp
  qed
  ultimately show ?thesis using sched_invD(4) [OF inv] by (simp add: sched_inv_def sel)
qed

lemma thread_fork_inv:
  assumes inv: "sched_inv s P R Z V W" and c: "c < numcpus s" "\<not> c_isidle (cpus s c)"
    and mem: "\<And>t. mem = Some t \<Longrightarrow> threads s t = None \<and> 0 < t \<and> t < 2 ^ 32" and placed: "placed P"
  shows "\<exists>e s' P' R'. thread_fork c name proc mem dup stack s = Inr (e, s') \<and> sched_inv s' P' R' Z V W \<and> placed P'"
proof (cases "mem = None \<or> \<not> dup")
  case True
  then show ?thesis using inv placed by (auto simp: thread_fork_def thread_create_def split: option.splits)
next
  case False
  then obtain t where t: "mem = Some t" "dup" by auto
  note m = mem [OF t(1)] and l = sched_invD(1) [OF inv]
  obtain me where me: "threads s (cur c s) = Some me" "t_cpu me = Some c" "thread_inv s (P (cur c s)) (cur c s) me" by (rule inv_cur [OF inv c(1)])
  have ne: "cur c s \<noteq> t" using me(1) m by auto
  show ?thesis
  proof (cases stack)
    case False
    have rep: "tl_rep (threadlistnode_init t (tls s)) (insert t (dom (threads s))) (qmap (numcpus s) R Z V W)"
      using l m by (intro threadlistnode_init_ok) (auto simp: lists_inv_def)
    have "t \<notin> \<Union> (set ` ran (qmap (numcpus s) R Z V W))" using l m tlist.once [of "tls s" "dom (threads s)"]
      by (fastforce simp: lists_inv_def ran_def)
    from threadlistnode_cleanup_ok [OF rep _ this] have cl: "threadlistnode_cleanup t (threadlistnode_init t (tls s)) = Inr ()"
      "tl_rep (threadlistnode_init t (tls s)) (dom (threads s)) (qmap (numcpus s) R Z V W)" using m by (auto simp: insert_Diff_if domIff)
    then have "sched_inv (s\<lparr>tls := threadlistnode_init t (tls s)\<rparr>) P R Z V W"
      using l by (intro sched_inv_tls [OF inv]) (simp add: lists_inv_def at_place_def)
    moreover have "thread_fork c name proc mem dup stack s = Inr (ENOMEM, s\<lparr>tls := threadlistnode_init t (tls s)\<rparr>)"
      using False t cl(1) m ne by (simp add: thread_fork_def thread_create_def thread_destroy_def deref_def cur_def fun_upd_idem)
    ultimately show ?thesis using placed by blast
  next
    case True
    have "t_proc me \<noteq> None" using me(3) inv_running [OF inv c] by (simp add: thread_inv_def place_ok_def)
    then obtain p where p: "(case proc of None \<Rightarrow> t_proc me | Some p \<Rightarrow> Some p) = Some p" by (cases proc) auto
    define th where "th = \<lparr>t_name = name, t_wchan_name = Some ''NEW'', t_state = S_READY, tm_badfaultfunc = False,
      t_stack = Some (replicate 4 THREAD_STACK_MAGIC), t_context = Some Startup, t_cpu = Some c, t_proc = Some p, t_in_intr = False,
      t_spl = 1, t_ipl_count = 2, t_adjust = False\<rparr>"
    have "sched_inv (with_thread t th p s) (P(t := Nowhere)) R Z V W"
      by (rule sched_inv_new [OF inv]) (use m c(1) in \<open>simp_all add: th_def parked_def\<close>)
    from wake_inv [OF this, of c th] c(1) placed obtain s' P' R' where
      "thread_make_runnable c t False (with_thread t th p s) = Inr s'" "sched_inv s' P' R' Z V W" "placed P'"
      by (auto simp: with_thread_def)
    moreover have "thread_fork c name proc mem dup stack s = sbind (thread_make_runnable c t False (with_thread t th p s)) (\<lambda>s. Inr (0, s))"
      using True t me(1,2) ne p m by (simp add: thread_fork_def thread_create_def thread_checkstack_init_def attach_thread_def deref_def switchframe_init_def
        sys_defs with_thread_def th_def Let_def)
    ultimately show ?thesis by auto
  qed
qed

lemma exorcise_inv:
  assumes "sched_inv s P R Z V W" and "c < numcpus s" and "\<not> c_isidle (cpus s c)"
  shows "\<exists>s'. exorcise c s = Some (Inr s') \<and> sched_inv s' P R (Z(c := [])) V W \<and> cpus s' = cpus s \<and> numcpus s' = numcpus s \<and>
    threads s' (cur c s) = threads s (cur c s)"
  using assms
proof (induction "Z c" arbitrary: s Z)
  case Nil
  then have "exorcise c s = Some (Inr s)" using lists_none(2) [OF sched_invD(1) [OF Nil(2)] Nil(3)] by (subst exorcise.simps) simp
  then show ?case using Nil by (auto simp: fun_upd_idem)
next
  case (Cons z zs)
  note inv = Cons.prems(1) and c = Cons.prems(2,3)
  note l = sched_invD(1) [OF inv]
  from lists_take(3) [OF l c(1), of z zs] Cons.hyps(2) obtain q where
    q: "threadlist_remhead (c_zombies c) (tls s) = Inr (Some z, q)" "lists_inv (s\<lparr>tls := q\<rparr>) (P(z := Nowhere)) R (Z(c := zs)) V W" by auto
  from lists_head(2) [OF l c(1), of z] Cons.hyps(2) obtain th where z: "threads s z = Some th" "P z = Dead c" by (metis domD list.set_intros(1))
  have th: "t_cpu th = Some c" "t_state th = S_ZOMBIE" "t_proc th = None" "\<not> tm_badfaultfunc th"
    using sched_invD(5) [OF inv z(1)] z(2) by (auto simp: thread_inv_def place_ok_def)
  have other: "cur d s \<noteq> z" if d: "d < numcpus s" for d
    using sched_invD(6) [OF inv d] z inv_running [OF inv c] th(1) by (auto simp: cpu_inv_def)
  let ?s = "s\<lparr>tls := q, threads := (threads s)(z := None)\<rparr>"
  have "z \<notin> \<Union> (set ` ran (qmap (numcpus s) R (Z(c := zs)) V W))" using free_thread [OF q(2), of z] by simp
  then have cl: "threadlistnode_cleanup z q = Inr () \<and> tl_rep q (dom (threads s) - {z}) (qmap (numcpus s) R (Z(c := zs)) V W)"
    using q(2) z(1) by (intro threadlistnode_cleanup_ok) (auto simp: lists_inv_def)
  have cur: "cur d ?s = cur d s" for d by (simp add: cur_def)
  have cong: "thread_inv ?s = thread_inv s" "\<And>d. pc_ok ?s d = pc_ok s d" by (rule thread_inv_cong pc_ok_cong; simp add: cur)+
  have dom: "dom (threads ?s) = dom (threads s) - {z}" by auto
  have ap: "at_place ?s P pl = at_place (s\<lparr>tls := q\<rparr>) (P(z := Nowhere)) pl" if "pl \<noteq> Nowhere" for pl using that by (auto simp: at_place_def)
  have "lists_inv ?s P R (Z(c := zs)) V W" using q(2) cl by (auto simp: lists_inv_def dom ap simp del: fun_upd_apply)
  moreover have "{t. \<exists>x. threads ?s t = Some x \<and> t_proc x = Some p} = {t. \<exists>x. threads s t = Some x \<and> t_proc x = Some p}" for p
    using z(1) th(3) by auto
  then have "procs_inv ?s" using sched_invD(3) [OF inv] by (simp add: procs_inv_def)
  moreover have "locks_inv ?s" using sched_invD(2) [OF inv] by (simp add: locks_inv_def)
  moreover have "cpu_inv ?s P (R d) (V d) d" if d: "d < numcpus s" for d
    using sched_invD(6) [OF inv d] other [OF d] unfolding cpu_inv_def cong cur held_locks_def by simp
  ultimately have inv': "sched_inv ?s P R (Z(c := zs)) V W"
    using sched_invD(4,5) [OF inv] by (simp add: sched_inv_def cong split: if_splits)
  have "exorcise c s = exorcise c ?s" using q(1) z(1) th other [OF c(1)] cl
    by (subst exorcise.simps) (simp add: deref_def thread_destroy_def cur_def)
  moreover from Cons.hyps(1) [of "Z(c := zs)" ?s] inv' c obtain s' where "exorcise c ?s = Some (Inr s')" "sched_inv s' P R (Z(c := [])) V W"
    "cpus s' = cpus s" "numcpus s' = numcpus s" "threads s' (cur c s) = threads ?s (cur c s)" by (auto simp: cur)
  ultimately show ?case using other [OF c(1)] by auto
qed

section \<open>Context switch\<close>

definition vm_fails :: "('m, 'v) vm_ops \<Rightarrow> kfail \<Rightarrow> bool" where
  "vm_fails ops e \<longleftrightarrow> (\<exists>p v. vm_activate ops p v = Inl e) \<or> (\<exists>v. vm_lru ops v = Inl e)"

definition sched_ok :: "('m, 'v) vm_ops \<Rightarrow> ('m, 'v) sys kres \<Rightarrow> bool" where
  "sched_ok ops r \<longleftrightarrow> (case r of Inl e \<Rightarrow> vm_fails ops e | Inr s \<Rightarrow> \<exists>P R Z V W. sched_inv s P R Z V W \<and> placed P)"

lemma sched_okI: "r = Inr s \<Longrightarrow> sched_inv s P R Z V W \<Longrightarrow> placed P \<Longrightarrow> sched_ok ops r"
  by (simp add: sched_ok_def) blast

definition switch_end :: "('m, 'v) vm_ops \<Rightarrow> nat \<Rightarrow> int \<Rightarrow> ('m, 'v) sys \<Rightarrow> ('m, 'v) sys kres" where
  "switch_end ops c x s = sbind (activate ops c s) (\<lambda>s. sbind (loop_result (exorcise c s)) (\<lambda>s. sbind (set_spl c x s) (\<lambda>(_, s). Inr s)))"

lemma switch_end_ok:
  assumes inv: "sched_inv s P R Z V W" and c: "c < numcpus s" "c_pc (cpus s c) = Plain" "\<not> c_isidle (cpus s c)"
    and x: "x \<in> {0, 1}" "in_intr c s \<Longrightarrow> x = 1" and placed: "placed P"
  shows "sched_ok ops (switch_end ops c x s)"
proof -
  obtain me where me: "threads s (cur c s) = Some me" by (rule inv_cur [OF inv c(1)])
  show ?thesis
  proof (cases "vm_activate ops (t_proc me) (sys_vm s)")
    case (Inl e)
    then show ?thesis using me by (auto simp: switch_end_def activate_def deref_def sched_ok_def vm_fails_def)
  next
    case (Inr v)
    have inv1: "sched_inv (s\<lparr>sys_vm := v\<rparr>) P R Z V W" using inv by simp
    from exorcise_inv [OF inv1, of c] c obtain s1 where
      s1: "exorcise c (s\<lparr>sys_vm := v\<rparr>) = Some (Inr s1)" "sched_inv s1 P R (Z(c := [])) V W" "cpus s1 = cpus s" "numcpus s1 = numcpus s"
        "threads s1 (cur c s) = threads s (cur c s)" by auto
    have "in_intr c s1 = in_intr c s" using s1(3,5) by (simp add: in_intr_def cur_def)
    with with_spl_inv [OF s1(2), of c x] c s1(3,4) x obtain l where
      "set_spl c x s1 = Inr (l, with_spl c x s1)" "sched_inv (with_spl c x s1) P R (Z(c := [])) V W" by auto
    then show ?thesis using me Inr s1(1) placed
      by (intro sched_okI [of _ "with_spl c x s1"]) (simp_all add: switch_end_def activate_def deref_def loop_result_def)
  qed
qed

lemma idle_wake_none:
  assumes inv: "sched_inv s P R Z V W" and c: "c < numcpus s" and R: "R c = []"
  shows "idle_wake ops c s = Inr s"
proof -
  have rem: "threadlist_remhead (c_runqueue c) (tls s) = Inr (None, tls s)" by (rule lists_none(1) [OF sched_invD(1) [OF inv] c R])
  define L where "L = upd_cpu c (\<lambda>p. p\<lparr>c_runqueue_lock := held_by c\<rparr>) (hold c s)"
  have L: "L\<lparr>tls := tls s\<rparr> = L" "tls L = tls s" using sys_idem(1) [of L] by (simp_all add: L_def)
  show ?thesis using rem rq_acquire_eq [OF inv_view(1,2) [OF inv c], folded L_def] rq_release_eq [OF inv_view(1,2) [OF inv c], folded L_def]
    by (simp add: idle_wake_def switch_pick_def L)
qed

text \<open>The state right after the run queue lock was released in the thread \<open>n\<close>.\<close>

definition picked :: "nat \<Rightarrow> nat \<Rightarrow> tl_store \<Rightarrow> ('m, 'v) sys \<Rightarrow> ('m, 'v) sys" where
  "picked c n q s =
     upd_thread n (\<lambda>th. th\<lparr>t_wchan_name := None, t_state := S_RUN, t_ipl_count := 1\<rparr>)
       (upd_thread (cur c s) (\<lambda>th. th\<lparr>t_ipl_count := 2, t_context := Some (InSwitch (c_frame (cpus s c)))\<rparr>)
         (upd_cpu c (\<lambda>p. p\<lparr>c_isidle := False, c_curthread := n\<rparr>) (s\<lparr>tls := q\<rparr>)))"

lemma idle_wake_some:
  assumes v: "view_ok c s" "c_runqueue_lock (cpus s c) = spinlock_init"
    and me: "threads s (cur c s) = Some me" "t_ipl_count me = 1" "c_spins (cpus s c) = 0" "\<not> c_irq (cpus s c)"
    and q: "threadlist_remhead (c_runqueue c) (tls s) = Inr (Some n, q)"
    and n: "threads s n = Some th" "t_ipl_count th = (if n = cur c s then 1 else 2)"
      "(if n = cur c s then Some (InSwitch (c_frame (cpus s c))) else t_context th) = Some f"
  shows "idle_wake ops c s = switch_end ops c (case f of Startup \<Rightarrow> 0 | InSwitch x \<Rightarrow> x) (picked c n q s)"
proof -
  define lk where "lk = upd_cpu c (\<lambda>p :: 'a cpu. p\<lparr>c_runqueue_lock := held_by c\<rparr>) \<circ> (hold c :: ('a, 'b) sys \<Rightarrow> _)"
  define X where "X = upd_thread (cur c s) (\<lambda>th. th\<lparr>t_context := Some (InSwitch (c_frame (cpus s c)))\<rparr>)
    (upd_cpu c (\<lambda>p. p\<lparr>c_isidle := False, c_curthread := n\<rparr>) ((lk s)\<lparr>tls := q\<rparr>))"
  have Y: "upd_thread n (\<lambda>th. th\<lparr>t_wchan_name := None, t_state := S_RUN\<rparr>) X = lk (picked c n q s)"
    using me n(1,2) by (cases "n = cur c s") (auto simp: X_def lk_def hold_def picked_def sys_defs fun_eq_iff intro!: sys.equality)
  have p: "view_ok c (picked c n q s)" "c_runqueue_lock (cpus (picked c n q s) c) = spinlock_init"
    using me v n by (auto simp: view_ok_def picked_def cur_def)
  have rel: "rq_release c c (lk (picked c n q s)) = Inr (picked c n q s)" using rq_release_eq [OF p] by (simp add: lk_def)
  have cur: "cur c X = n" by (simp add: X_def cur_def)
  obtain tx where tx: "threads X n = Some tx" "t_context tx = Some f"
    using me n by (cases "n = cur c s") (auto simp: X_def lk_def hold_def sys_defs)
  have acq: "rq_acquire c c s = Inr (lk s)" using rq_acquire_eq [OF v] by (simp add: lk_def)
  have sel: "tls (lk s) = tls s" "c_frame (cpus (lk s) c) = c_frame (cpus s c)" "cur c (lk s) = cur c s"
    by (simp_all add: lk_def cur_upd_cpu)
  have "switch_pick ops c (lk s) = (case f of Startup \<Rightarrow> thread_startup ops c X | InSwitch x \<Rightarrow> switch_tail ops c x X)"
    using tx by (simp add: switch_pick_def sel q Let_def deref_def flip: X_def del: upd_thread_sel(8))
  moreover have "switch_tail ops c x X = switch_end ops c x (picked c n q s)" for x
    by (simp add: switch_tail_def cur Y rel switch_end_def)
  moreover have "thread_startup ops c X = switch_end ops c 0 (picked c n q s)" by (simp add: thread_startup_def cur Y rel switch_end_def)
  ultimately show ?thesis by (simp add: idle_wake_def acq split: switchframe.split)
qed

lemma picked_inv:
  fixes s0 :: "('m, 'v) sys"
  defines "fl \<equiv> \<lambda>b th. if b then th\<lparr>t_in_intr := True, t_adjust := True\<rparr> else th"
  assumes inv: "sched_inv s0 P R Z V W" and c: "c < numcpus s0" "c_pc (cpus s0 c) = Plain" "c_isidle (cpus s0 c)" "\<not> in_intr c s0"
    and R: "R c = n # ns" and l: "lists_inv (s0\<lparr>tls := q\<rparr>) (P(n := Nowhere)) (R(c := ns)) Z V W"
    and b: "b \<Longrightarrow> n \<noteq> cur c s0 \<and> c_frame (cpus s0 c) = 1"
    and s: "s = upd_thread (cur c s0) (fl b) s0"
  shows "sched_inv (picked c n q s) (P(n := Running c)) (R(c := ns)) Z V W"
proof -
  let ?s = "picked c n q s" and ?old = "cur c s0"
  obtain me where me: "threads s0 ?old = Some me" "t_cpu me = Some c" "spl_ok (cpus s0 c) me" "pc_ok s0 c me (R c) (V c)"
    "thread_inv s0 (P ?old) ?old me" "in_intr c s0 = t_in_intr me" by (rule inv_cur [OF inv c(1)])
  from lists_head(1) [OF sched_invD(1) [OF inv] c(1), of n] R obtain th where n: "threads s0 n = Some th" "P n = Ready c" by auto
  note nth = sched_invD(5) [OF inv n(1), unfolded n(2)]
  have ncpu: "t_cpu th = Some c" "t_proc th \<noteq> None" using nth by (auto simp: thread_inv_def place_ok_def)
  have other: "cur d s0 \<noteq> n" "cur d s0 \<noteq> ?old" if "d < numcpus s0" "d \<noteq> c" for d
    using sched_invD(6) [OF inv that(1)] n(1) ncpu(1) me(1,2) that(2) by (auto simp: cpu_inv_def)
  have npark: "parked th" if "n \<noteq> ?old" using nth other(1) that by (auto simp: thread_inv_def)
  have sp: "t_spl me = 1" "t_ipl_count me = 1" "\<not> t_in_intr me" "c_spins (cpus s0 c) = 0" "c_frame (cpus s0 c) \<in> {0, 1}" "\<not> c_irq (cpus s0 c)"
    using me(3,6) c(3,4) by (auto simp: spl_ok_def)
  define th' where "th' = (if n = ?old then th\<lparr>t_context := Some (InSwitch (c_frame (cpus s0 c)))\<rparr> else th)\<lparr>t_wchan_name := None, t_state := S_RUN, t_ipl_count := 1\<rparr>"
  define old' where "old' = (fl b me)\<lparr>t_ipl_count := 2, t_context := Some (InSwitch (c_frame (cpus s0 c)))\<rparr>"
  have thr: "threads ?s u = (if u = n then Some th' else if u = ?old then Some old' else threads s0 u)" for u
    using n(1) me(1) b by (cases b) (auto simp: picked_def s th'_def old'_def fl_def cur_def)
  have sel: "numcpus ?s = numcpus s0" "wchans ?s = wchans s0" "wc_lock ?s = wc_lock s0" "p_numthreads ?s = p_numthreads s0" "tls ?s = q"
    "cpus ?s d = (if d = c then (cpus s0 c)\<lparr>c_isidle := False, c_curthread := n\<rparr> else cpus s0 d)"
    "cur d ?s = (if d = c then n else cur d s0)" for d
    by (simp_all add: picked_def s cur_def)
  have dom: "dom (threads ?s) = dom (threads s0)" using thr n(1) me(1) by (auto split: if_splits)
  have th'f: "t_cpu th' = Some c" "t_proc th' = t_proc th" "t_spl th' = 1" "t_ipl_count th' = 1" "t_in_intr th' \<longrightarrow> t_adjust th'" "t_state th' = S_RUN"
    "t_stack th' = t_stack th" "tm_badfaultfunc th' = tm_badfaultfunc th"
    using ncpu npark sp me(1) n(1) by (cases "n = ?old"; auto simp: th'_def parked_def)+
  have old'f: "parked old'" "t_cpu old' = t_cpu me" "t_proc old' = t_proc me" "t_state old' = t_state me" "t_stack old' = t_stack me" "tm_badfaultfunc old' = tm_badfaultfunc me"
    using sp b by (auto simp: old'_def fl_def parked_def)
  have "at_place ?s (P(n := Running c)) pl = at_place (s0\<lparr>tls := q\<rparr>) (P(n := Nowhere)) pl" if "pl \<noteq> Nowhere" "\<forall>d. pl \<noteq> Running d" for pl
    using that unfolding at_place_def dom by auto
  then have "lists_inv ?s (P(n := Running c)) (R(c := ns)) Z V W" using l by (auto simp: lists_inv_def dom sel simp del: fun_upd_apply)
  moreover have "locks_inv ?s" using sched_invD(2) [OF inv] by (simp add: locks_inv_def sel)
  moreover have "procs_inv ?s"
  proof -
    have "(\<exists>x. threads ?s u = Some x \<and> t_proc x = Some p) = (\<exists>x. threads s0 u = Some x \<and> t_proc x = Some p)" for u p
      using thr [of u] n(1) me(1) th'f(2) old'f(3) by auto
    then show ?thesis using sched_invD(3) [OF inv] by (simp add: procs_inv_def sel)
  qed
  moreover have "thread_inv ?s ((P(n := Running c)) u) u x" if ux: "threads ?s u = Some x" for u x
  proof (cases "u = n")
    case True
    then show ?thesis using ux thr [of u] th'f ncpu c(1) nth by (auto simp: thread_inv_def place_ok_def sel)
  next
    case False
    obtain y where y: "threads s0 u = Some y" "t_cpu x = t_cpu y" "t_proc x = t_proc y" "t_state x = t_state y" "t_stack x = t_stack y"
      "tm_badfaultfunc x = tm_badfaultfunc y" "u \<noteq> ?old \<longrightarrow> x = y" "u = ?old \<longrightarrow> parked x"
      using ux thr [of u] False me(1) old'f by (cases "u = ?old") auto
    have ti: "thread_inv s0 (P u) u y" by (rule sched_invD(5) [OF inv y(1)])
    have "place_ok s0 (P u) u x = place_ok s0 (P u) u y" unfolding place_ok_def y(2-4) ..
    then have "place_ok s0 (P u) u x" using ti by (simp add: thread_inv_def)
    then have "place_ok ?s (P u) u x" using c(3) by (cases "P u") (auto simp: place_ok_def sel)
    moreover have "parked x" if "\<forall>d < numcpus s0. cur d ?s \<noteq> u"
    proof (cases "u = ?old")
      case True
      then show ?thesis using y by blast
    next
      case no: False
      then have "cur d s0 \<noteq> u" if "d < numcpus s0" for d using \<open>\<forall>d < numcpus s0. cur d ?s \<noteq> u\<close> that sel(7) [of d] by (cases "d = c") auto
      then show ?thesis using ti y(7) no by (auto simp: thread_inv_def)
    qed
    ultimately show ?thesis using ti y False by (simp add: thread_inv_def sel)
  qed
  moreover have "cpu_inv ?s (P(n := Running c)) ((R(c := ns)) d) (V d) d" if d: "d < numcpus s0" for d
  proof (cases "d = c")
    case True
    have "spl_ok (cpus ?s c) th'" using th'f(3-5) sp by (simp add: spl_ok_def sel)
    moreover have "pc_ok ?s c th' ns (V c)" using me(4) c(2) by (simp add: pc_ok_def sel)
    ultimately show ?thesis using True th'f(1) sched_invD(6) [OF inv c(1)] thr [of n] by (simp add: cpu_inv_def sel held_locks_def)
  next
    case False
    have "pc_ok ?s d = pc_ok s0 d" by (rule pc_ok_cong) (simp_all add: sel False)
    moreover have "threads ?s (cur d s0) = threads s0 (cur d s0)" using thr [of "cur d s0"] other [OF d False] by simp
    ultimately show ?thesis using sched_invD(6) [OF inv d] False other(1) [OF d False] by (simp add: cpu_inv_def sel held_locks_def)
  qed
  ultimately show ?thesis using sched_invD(4) [OF inv] by (simp add: sched_inv_def sel)
qed

lemma idle_wake_ok:
  assumes inv: "sched_inv s0 P R Z V W" and c: "c < numcpus s0" "c_pc (cpus s0 c) = Plain" "c_isidle (cpus s0 c)" "\<not> in_intr c s0"
    and b: "b \<Longrightarrow> R c \<noteq> [] \<and> hd (R c) \<noteq> cur c s0 \<and> c_frame (cpus s0 c) = 1" and placed: "placed P"
  shows "sched_ok ops (idle_wake ops c (upd_thread (cur c s0) (\<lambda>th. if b then th\<lparr>t_in_intr := True, t_adjust := True\<rparr> else th) s0))"
proof (cases "R c")
  case Nil
  then have "\<not> b" using b by blast
  then have "upd_thread (cur c s0) (\<lambda>th. if b then th\<lparr>t_in_intr := True, t_adjust := True\<rparr> else th) s0 = s0"
    by (simp add: sys_defs option.map_ident)
  then show ?thesis using idle_wake_none [OF inv c(1) Nil] inv placed by (simp add: sched_okI)
next
  case (Cons n ns)
  let ?old = "cur c s0"
  define s where "s = upd_thread (cur c s0) (\<lambda>th. if b then th\<lparr>t_in_intr := True, t_adjust := True\<rparr> else th) s0"
  from lists_take(1) [OF sched_invD(1) [OF inv] c(1) Cons] obtain q where
    q: "threadlist_remhead (c_runqueue c) (tls s0) = Inr (Some n, q)" "lists_inv (s0\<lparr>tls := q\<rparr>) (P(n := Nowhere)) (R(c := ns)) Z V W" by blast
  obtain me where me: "threads s0 ?old = Some me" "t_cpu me = Some c" "spl_ok (cpus s0 c) me" "in_intr c s0 = t_in_intr me" by (rule inv_cur [OF inv c(1)])
  from lists_head(1) [OF sched_invD(1) [OF inv] c(1), of n] Cons obtain th where n: "threads s0 n = Some th" "P n = Ready c" by auto
  have inv1: "sched_inv (picked c n q s) (P(n := Running c)) (R(c := ns)) Z V W"
    by (rule picked_inv [OF inv c Cons q(2) _ s_def]) (use b Cons in auto)
  have sp: "t_spl me = 1" "t_ipl_count me = 1" "\<not> t_in_intr me" "c_spins (cpus s0 c) = 0" "c_frame (cpus s0 c) \<in> {0, 1}" "\<not> c_irq (cpus s0 c)"
    using me(3,4) c(3,4) by (auto simp: spl_ok_def)
  have npark: "parked th" if "n \<noteq> ?old"
  proof -
    have "cur d s0 \<noteq> n" if "d < numcpus s0" for d
      using sched_invD(6) [OF inv that] sched_invD(5) [OF inv n(1)] n \<open>n \<noteq> ?old\<close> by (auto simp: cpu_inv_def thread_inv_def place_ok_def)
    then show ?thesis using sched_invD(5) [OF inv n(1)] by (auto simp: thread_inv_def)
  qed
  have cs: "cur c s = ?old" "cpus s = cpus s0" "tls s = tls s0" by (simp_all add: s_def)
  obtain me' where me': "threads s ?old = Some me'" "t_ipl_count me' = 1" using me(1) sp(2) by (auto simp: s_def)
  have v: "view_ok c s" "c_runqueue_lock (cpus s c) = spinlock_init" using inv_view [OF inv c(1)] me' sp by (auto simp: view_ok_def cs)
  obtain f where f: "(if n = ?old then Some (InSwitch (c_frame (cpus s0 c))) else t_context th) = Some f"
    "f = InSwitch 0 \<or> f = InSwitch 1 \<or> f = Startup" "n \<noteq> ?old \<longrightarrow> t_in_intr th \<longrightarrow> f = InSwitch 1"
    using npark sp(5) by (cases "n = ?old") (auto simp: parked_def)
  obtain th1 where th1: "threads s n = Some th1" "t_ipl_count th1 = (if n = ?old then 1 else 2)" "n \<noteq> ?old \<longrightarrow> th1 = th"
    using n(1) me(1) me' npark by (cases "n = ?old") (auto simp: s_def parked_def)
  have "idle_wake ops c s = switch_end ops c (case f of Startup \<Rightarrow> 0 | InSwitch x \<Rightarrow> x) (picked c n q s)"
    by (rule idle_wake_some [OF v, of me' n q th1]) (use me' sp q(1) th1 f in \<open>auto simp: cs\<close>)
  moreover have "sched_ok ops (switch_end ops c (case f of Startup \<Rightarrow> 0 | InSwitch x \<Rightarrow> x) (picked c n q s))"
  proof (rule switch_end_ok [OF inv1])
    show "c < numcpus (picked c n q s)" "c_pc (cpus (picked c n q s) c) = Plain" "\<not> c_isidle (cpus (picked c n q s) c)"
      using c by (simp_all add: picked_def s_def)
    have "in_intr c (picked c n q s) = (n \<noteq> ?old \<and> t_in_intr th)"
      using n(1) me(1) sp(3) b Cons by (auto simp: in_intr_def picked_def s_def cur_def)
    then show "in_intr c (picked c n q s) \<Longrightarrow> (case f of Startup \<Rightarrow> 0 | InSwitch x \<Rightarrow> x) = 1" using f(3) by auto
  qed (use f(2) placed in auto)
  ultimately show ?thesis by (simp only: s_def)
qed

text \<open>The current thread of a CPU goes away and the CPU becomes idle.\<close>

lemma sched_inv_idle:
  assumes inv: "sched_inv s P R Z V W" and c: "c < numcpus s" "c_pc (cpus s c) = Plain" "\<not> c_isidle (cpus s c)" "c_spins (cpus s c) = 0"
    and me: "threads s (cur c s) = Some me" "t_spl me = 1" and x: "x \<in> {0, 1}"
    and l: "lists_inv (s\<lparr>tls := q\<rparr>) (P(cur c s := pl)) R' Z' V W'"
    and g: "t_cpu (g me) = t_cpu me" "t_stack (g me) = t_stack me" "tm_badfaultfunc (g me) = tm_badfaultfunc me" "t_spl (g me) = 1"
      "t_ipl_count (g me) = t_ipl_count me" "\<not> t_in_intr (g me)"
    and pl: "place_ok s pl (cur c s) (g me)" "\<forall>d. pl \<noteq> Running d"
    and procs: "procs_inv (upd_thread (cur c s) g (s\<lparr>tls := q, p_numthreads := N\<rparr>))"
    and pc: "\<And>d x. d < numcpus s \<Longrightarrow> pc_ok s d x (R d) (V d) \<Longrightarrow> pc_ok s d x (R' d) (V d)"
  shows "sched_inv (upd_cpu c (\<lambda>p. p\<lparr>c_isidle := True, c_frame := x\<rparr>) (upd_thread (cur c s) g (s\<lparr>tls := q, p_numthreads := N\<rparr>)))
    (P(cur c s := pl)) R' Z' V W'"
proof -
  let ?s = "upd_cpu c (\<lambda>p. p\<lparr>c_isidle := True, c_frame := x\<rparr>) (upd_thread (cur c s) g (s\<lparr>tls := q, p_numthreads := N\<rparr>))"
  obtain me2 where me2: "threads s (cur c s) = Some me2" "t_cpu me2 = Some c" "spl_ok (cpus s c) me2" "pc_ok s c me2 (R c) (V c)" "thread_inv s (P (cur c s)) (cur c s) me2"
    by (rule inv_cur [OF inv c(1)])
  have [simp]: "me2 = me" using me(1) me2(1) by simp
  have sel: "numcpus ?s = numcpus s" "wchans ?s = wchans s" "wc_lock ?s = wc_lock s" "tls ?s = q" "cur d ?s = cur d s"
    "threads ?s u = (if u = cur c s then Some (g me) else threads s u)" "c_pc (cpus ?s d) = c_pc (cpus s d)" "c_spins (cpus ?s d) = c_spins (cpus s d)"
    "d \<noteq> c \<Longrightarrow> cpus ?s d = cpus s d" for d u
    using me(1) by (simp_all add: cur_def)
  have dom: "dom (threads ?s) = dom (threads s)" using sel(6) me(1) by (auto split: if_splits)
  have "lists_inv ?s (P(cur c s := pl)) R' Z' V W'" using l unfolding lists_inv_def at_place_def dom by (simp add: sel)
  moreover have "locks_inv ?s" using sched_invD(2) [OF inv] by (simp add: locks_inv_def sel)
  moreover have "procs_inv ?s" using procs by (simp add: procs_inv_def)
  moreover have other: "cur d s \<noteq> cur c s" if "d < numcpus s" "d \<noteq> c" for d using inv_cur_unique [OF inv that(1) c(1)] that(2) by blast
  moreover have "thread_inv ?s ((P(cur c s := pl)) u) u y" if uy: "threads ?s u = Some y" for u y
  proof (cases "u = cur c s")
    case True
    then have y: "y = g me" using uy me(1) by simp
    have "place_ok ?s pl u (g me)" using pl True by (cases pl) (auto simp: place_ok_def sel)
    then show ?thesis using True y me2(5) g(2,3) c(1) by (auto simp: thread_inv_def sel)
  next
    case False
    then have y: "threads s u = Some y" using uy by simp
    have ti: "thread_inv s (P u) u y" by (rule sched_invD(5) [OF inv y])
    have "P u \<noteq> Running c" using ti False by (auto simp: thread_inv_def place_ok_def)
    then have "place_ok ?s (P u) u y" using ti by (cases "P u") (auto simp: thread_inv_def place_ok_def sel)
    then show ?thesis using ti False by (simp add: thread_inv_def sel)
  qed
  moreover have "cpu_inv ?s (P(cur c s := pl)) (R' d) (V d) d" if d: "d < numcpus s" for d
  proof (cases "d = c")
    case True
    have "spl_ok (cpus ?s c) (g me)" using me2(3) me(2) g(4-6) x c(4) by (auto simp: spl_ok_def)
    moreover have "pc_ok ?s c (g me) (R' c) (V c)" using me2(4) c(2) by (simp add: pc_ok_def)
    ultimately show ?thesis using True me(1) me2(2) g(1) sched_invD(6) [OF inv c(1)] by (simp add: cpu_inv_def sel held_locks_def)
  next
    case False
    have "pc_ok ?s d = pc_ok s d" by (rule pc_ok_cong) (simp_all add: sel)
    then show ?thesis using sched_invD(6) [OF inv d] False other [OF d False] pc [OF d] by (auto simp: cpu_inv_def sel held_locks_def)
  qed
  ultimately show ?thesis using sched_invD(4) [OF inv] by (simp add: sched_inv_def sel)
qed

definition rq_locked :: "nat \<Rightarrow> ('m, 'v) sys \<Rightarrow> ('m, 'v) sys" where
  "rq_locked c s = upd_cpu c (\<lambda>p. p\<lparr>c_runqueue_lock := held_by c\<rparr>) (hold c s)"

lemma rq_locked_upd_thread:
  assumes "\<And>th n. f (th\<lparr>t_ipl_count := n\<rparr>) = (f th)\<lparr>t_ipl_count := n\<rparr>" and "\<And>th. t_ipl_count (f th) = t_ipl_count th"
  shows "upd_thread t f (rq_locked c s) = rq_locked c (upd_thread t f s)"
  unfolding rq_locked_def hold_upd_thread [OF assms] by (simp add: upd_swap)

lemma rq_locked_tls: "(rq_locked c s)\<lparr>tls := q\<rparr> = rq_locked c (s\<lparr>tls := q\<rparr>)"
  by (simp add: rq_locked_def hold_tls upd_swap)

lemma rq_locked_idle:
  "upd_cpu c (\<lambda>p. p\<lparr>c_isidle := True, c_frame := x\<rparr>) (rq_locked c s) = rq_locked c (upd_cpu c (\<lambda>p. p\<lparr>c_isidle := True, c_frame := x\<rparr>) s)"
  unfolding rq_locked_def by (subst hold_upd_cpu, simp, simp) (rule upd_cpu_comm, simp)

lemma rq_locked_sel [simp]: "tls (rq_locked c s) = tls s" "cur d (rq_locked c s) = cur d s" "wc_name (rq_locked c s) = wc_name s"
  "c_isidle (cpus (rq_locked c s) d) = c_isidle (cpus s d)" "c_runqueue_lock (cpus (rq_locked c s) c) = held_by c" "wc_lock (rq_locked c s) = wc_lock s"
  by (simp_all add: rq_locked_def cur_upd_cpu)

text \<open>Once the thread is put away, the rest of \<^verbatim>\<open>thread_switch\<close> is a round of the idle loop.\<close>

lemma switch_out_eq:
  assumes v: "view_ok c s" "c_runqueue_lock (cpus s c) = spinlock_init" and idle: "\<not> c_isidle (cpus s c)"
    and me: "threads s (cur c s) = Some me" "t_spl me \<in> {0, 1}" "t_spl me \<le> t_ipl_count me" "thread_checkstack me = Inr ()"
    and ready: "ns = S_READY \<Longrightarrow> \<not> threadlist_isempty (c_runqueue c) (tls s)"
    and put: "put_away c ns w (rq_locked c (with_spl c 1 s)) = Inr (rq_locked c s')" "cur c s' = cur c s" "view_ok c s'" "c_runqueue_lock (cpus s' c) = spinlock_init"
  shows "thread_switch ops c ns w s =
    idle_wake ops c (upd_cpu c (\<lambda>p. p\<lparr>c_isidle := True, c_frame := t_spl me\<rparr>) (upd_thread (cur c s) (\<lambda>th. th\<lparr>t_state := ns\<rparr>) s'))"
proof -
  define s1 where "s1 = with_spl c 1 s"
  have s1: "cur c s1 = cur c s" "tls s1 = tls s" "c_isidle (cpus s1 c) = c_isidle (cpus s c)"
    "c_runqueue_lock (cpus s1 c) = spinlock_init" by (simp_all add: s1_def with_spl_def Let_def v cur_def)
  obtain m1 where m1: "threads s1 (cur c s) = Some m1" "thread_checkstack m1 = Inr ()"
    using me by (simp add: s1_def with_spl_def Let_def thread_checkstack_def)
  have v1: "view_ok c s1" using me by (auto simp: view_ok_def s1_def with_spl_def Let_def cur_def)
  let ?i = "upd_cpu c (\<lambda>p. p\<lparr>c_isidle := True, c_frame := t_spl me\<rparr>) (upd_thread (cur c s) (\<lambda>th. th\<lparr>t_state := ns\<rparr>) s')"
  have spl: "set_spl c 1 s = Inr (t_spl me, s1)" unfolding s1_def using me by (intro set_spl_eq [OF v(1)]) auto
  have acq: "rq_acquire c c s1 = Inr (rq_locked c s1)" using rq_acquire_eq [OF v1 s1(4)] by (simp add: rq_locked_def)
  have "view_ok c ?i" "c_runqueue_lock (cpus ?i c) = spinlock_init" using put(3,4) by (simp_all add: view_upd_cpu view_upd_thread)
  from rq_acquire_eq [OF this] have "idle_wake ops c ?i = switch_pick ops c (rq_locked c ?i)" by (simp add: idle_wake_def rq_locked_def)
  also have "rq_locked c ?i = upd_cpu c (\<lambda>p. p\<lparr>c_isidle := True, c_frame := t_spl me\<rparr>) (upd_thread (cur c s) (\<lambda>th. th\<lparr>t_state := ns\<rparr>) (rq_locked c s'))"
    by (simp add: rq_locked_upd_thread rq_locked_idle)
  finally have wake: "idle_wake ops c ?i = switch_pick ops c \<dots>" .
  show ?thesis unfolding wake thread_switch_def spl sbind.simps
    using idle ready put(1,2) acq m1 by (auto simp: s1 deref_def Let_def simp flip: s1_def)
qed

lemma cur_procs [simp]: "cur c (s\<lparr>p_numthreads := N\<rparr>) = cur c s" "cur c (s\<lparr>wc_lock := L\<rparr>) = cur c s"
  by (simp_all add: cur_def)

lemma with_spl_sel [simp]: "cur d (with_spl c x s) = cur d s" "tls (with_spl c x s) = tls s" "numcpus (with_spl c x s) = numcpus s"
  "c_isidle (cpus (with_spl c x s) d) = c_isidle (cpus s d)" "c_pc (cpus (with_spl c x s) d) = c_pc (cpus s d)"
  "c_spins (cpus (with_spl c x s) d) = c_spins (cpus s d)" "wc_lock (with_spl c x s) = wc_lock s" "wchans (with_spl c x s) = wchans s"
  "wc_name (with_spl c x s) = wc_name s" "p_numthreads (with_spl c x s) = p_numthreads s"
  "c_runqueue_lock (cpus (with_spl c x s) d) = c_runqueue_lock (cpus s d)"
  by (simp_all add: with_spl_def Let_def cur_def)

lemma with_spl_cur: "threads s (cur c s) = Some me \<Longrightarrow>
    threads (with_spl c x s) (cur c s) = Some (me\<lparr>t_spl := x, t_ipl_count := t_ipl_count me + x - t_spl me\<rparr>)"
  by (simp add: with_spl_def Let_def)

lemma inv_checkstack:
  assumes "sched_inv s P R Z V W" and "threads s t = Some th"
  shows "thread_checkstack th = Inr ()"
  using sched_invD(5) [OF assms] by (auto simp: thread_checkstack_def thread_inv_def)

lemma upd_same_thread: "threads s t = Some th \<Longrightarrow> f th = g th \<Longrightarrow> upd_thread t f s = upd_thread t g s"
  by (simp add: sys_defs)

lemma procs_idem: "s\<lparr>tls := q, p_numthreads := p_numthreads s\<rparr> = s\<lparr>tls := q\<rparr>"
  by (cases s) simp

lemma upd_thread_twice: "threads s t = Some th \<Longrightarrow> f (g th) = h th \<Longrightarrow> upd_thread t f (upd_thread t g s) = upd_thread t h s"
  by (simp add: sys_defs)

lemma upd_thread_cpu_twice: "threads s t = Some th \<Longrightarrow> f (g th) = h th \<Longrightarrow> upd_thread t f (upd_cpu c k (upd_thread t g s)) = upd_cpu c k (upd_thread t h s)"
  by (simp add: sys_defs)

text \<open>The round of the idle loop after the current thread was put away; in an interrupt handler some other thread is
  ready.\<close>

lemma idle_after_ok:
  assumes inv: "sched_inv u P R Z V W" and c: "c < numcpus u" "c_pc (cpus u c) = Plain" "\<not> c_isidle (cpus u c)" "c_spins (cpus u c) = 0"
    and me: "threads u (cur c u) = Some m" "t_spl m = 1" and x: "x \<in> {0, 1}"
    and l: "lists_inv (u\<lparr>tls := q\<rparr>) (P(cur c u := pl)) R' Z' V W'"
    and h: "t_cpu (h m) = t_cpu m" "t_stack (h m) = t_stack m" "tm_badfaultfunc (h m) = tm_badfaultfunc m" "t_spl (h m) = t_spl m"
      "t_ipl_count (h m) = t_ipl_count m" "t_in_intr (h m) = t_in_intr m" "t_adjust (h m) = t_adjust m"
    and pl: "place_ok u pl (cur c u) (h m)" "\<forall>d. pl \<noteq> Running d" and placed: "placed P" "pl \<noteq> Nowhere"
    and procs: "procs_inv (upd_thread (cur c u) h (u\<lparr>tls := q, p_numthreads := N\<rparr>))"
    and pc: "\<And>d y. d < numcpus u \<Longrightarrow> pc_ok u d y (R d) (V d) \<Longrightarrow> pc_ok u d y (R' d) (V d)"
    and intr: "in_intr c u \<Longrightarrow> R' c \<noteq> [] \<and> hd (R' c) \<noteq> cur c u \<and> x = 1"
  shows "sched_ok ops (idle_wake ops c (upd_cpu c (\<lambda>p. p\<lparr>c_isidle := True, c_frame := x\<rparr>)
    (upd_thread (cur c u) h (u\<lparr>tls := q, p_numthreads := N\<rparr>))))"
proof -
  define b where "b = t_in_intr m"
  define g where "g th = (if b then (h th)\<lparr>t_in_intr := False, t_adjust := False\<rparr> else h th)" for th
  define s0 where "s0 = upd_cpu c (\<lambda>p. p\<lparr>c_isidle := True, c_frame := x\<rparr>) (upd_thread (cur c u) g (u\<lparr>tls := q, p_numthreads := N\<rparr>))"
  have b: "b = in_intr c u" using me(1) by (simp add: b_def in_intr_def)
  have adj: "b \<Longrightarrow> t_adjust m" using sched_invD(6) [OF inv c(1)] me(1) c(3) by (auto simp: b_def cpu_inv_def spl_ok_def)
  have cur: "cur c s0 = cur c u" by (simp add: s0_def cur_upd_cpu)
  have "(if b then (g m)\<lparr>t_in_intr := True, t_adjust := True\<rparr> else g m) = h m"
    using adj h(6,7) by (cases "h m") (auto simp: g_def b_def)
  then have eq: "upd_thread (cur c s0) (\<lambda>th. if b then th\<lparr>t_in_intr := True, t_adjust := True\<rparr> else th) s0 =
      upd_cpu c (\<lambda>p. p\<lparr>c_isidle := True, c_frame := x\<rparr>) (upd_thread (cur c u) h (u\<lparr>tls := q, p_numthreads := N\<rparr>))"
    using me(1) unfolding cur unfolding s0_def by (intro upd_thread_cpu_twice) auto
  have gm: "t_cpu (g m) = t_cpu m" "t_stack (g m) = t_stack m" "tm_badfaultfunc (g m) = tm_badfaultfunc m" "t_spl (g m) = 1"
    "t_ipl_count (g m) = t_ipl_count m" "\<not> t_in_intr (g m)" "t_state (g m) = t_state (h m)" "t_proc (g m) = t_proc (h m)"
    using h me(2) by (auto simp: g_def b_def)
  have inv0: "sched_inv s0 (P(cur c u := pl)) R' Z' V W'" unfolding s0_def
  proof (rule sched_inv_idle [where g = g, OF inv c me x l gm(1-6) _ pl(2) _ pc])
    have "place_ok u pl (cur c u) (g m) = place_ok u pl (cur c u) (h m)" unfolding place_ok_def gm h(1) ..
    then show "place_ok u pl (cur c u) (g m)" using pl(1) by simp
    have "(\<exists>y. threads (upd_thread (cur c u) g (u\<lparr>tls := q, p_numthreads := N\<rparr>)) t = Some y \<and> t_proc y = Some p) =
        (\<exists>y. threads (upd_thread (cur c u) h (u\<lparr>tls := q, p_numthreads := N\<rparr>)) t = Some y \<and> t_proc y = Some p)" for t p
      using me(1) gm(8) by auto
    then show "procs_inv (upd_thread (cur c u) g (u\<lparr>tls := q, p_numthreads := N\<rparr>))" using procs by (simp add: procs_inv_def del: upd_thread_sel(8))
  qed
  have "threads s0 (cur c s0) = Some (g m)" using me(1) unfolding cur by (simp add: s0_def)
  then have "\<not> in_intr c s0" using gm(6) by (simp add: in_intr_def)
  then have "sched_ok ops (idle_wake ops c (upd_thread (cur c s0) (\<lambda>th. if b then th\<lparr>t_in_intr := True, t_adjust := True\<rparr> else th) s0))"
    using c intr placed unfolding b by (intro idle_wake_ok [OF inv0]) (auto simp: cur, simp_all add: s0_def)
  then show ?thesis by (simp only: eq)
qed

text \<open>What every switch begins with.\<close>

lemma switch_begin:
  assumes inv: "sched_inv s P R Z V W" and c: "c < numcpus s" "c_pc (cpus s c) = Plain" and me: "threads s (cur c s) = Some me"
  defines "m \<equiv> me\<lparr>t_spl := 1, t_ipl_count := t_ipl_count me + 1 - t_spl me\<rparr>"
  shows "sched_inv (with_spl c 1 s) P R Z V W" "set_spl c 1 s = Inr (t_spl me, with_spl c 1 s)" "threads (with_spl c 1 s) (cur c s) = Some m"
    "in_intr c (with_spl c 1 s) = in_intr c s" "t_spl me \<in> {0, 1}" "t_spl me \<le> t_ipl_count me" "in_intr c s \<Longrightarrow> t_spl me = 1" "t_cpu me = Some c"
    "\<exists>s2. set_spl c (t_spl me) (with_spl c 1 s) = Inr (1, s2) \<and> sched_inv s2 P R Z V W"
proof -
  have sp: "spl_ok (cpus s c) me" "t_cpu me = Some c" using sched_invD(6) [OF inv c(1)] me by (auto simp: cpu_inv_def)
  show *: "t_spl me \<in> {0, 1}" "t_spl me \<le> t_ipl_count me" "in_intr c s \<Longrightarrow> t_spl me = 1" "t_cpu me = Some c"
    using sp me by (auto simp: spl_ok_def in_intr_def)
  show inv1: "sched_inv (with_spl c 1 s) P R Z V W" using with_spl_inv [OF inv c, of 1] by simp
  show "set_spl c 1 s = Inr (t_spl me, with_spl c 1 s)" using * by (intro set_spl_eq [OF inv_view(1) [OF inv c(1)] me]) auto
  show m: "threads (with_spl c 1 s) (cur c s) = Some m" using with_spl_cur [OF me, of 1] by (simp add: m_def)
  then show intr: "in_intr c (with_spl c 1 s) = in_intr c s" using me by (simp add: in_intr_def m_def)
  have "(\<not> c_isidle (cpus s c) \<and> \<not> in_intr c s) \<or> t_spl me = 1" using sp(1) me by (auto simp: spl_ok_def in_intr_def)
  then have "sched_inv (with_spl c (t_spl me) (with_spl c 1 s)) P R Z V W"
    using with_spl_inv(2) [OF inv1, of c "t_spl me"] c *(1) intr by simp
  moreover have "set_spl c (t_spl me) (with_spl c 1 s) = Inr (t_spl m, with_spl c (t_spl me) (with_spl c 1 s))"
    using * m c by (intro set_spl_eq [OF inv_view(1) [OF inv1]]) (auto simp: m_def)
  ultimately show "\<exists>s2. set_spl c (t_spl me) (with_spl c 1 s) = Inr (1, s2) \<and> sched_inv s2 P R Z V W" by (auto simp: m_def)
qed

lemma put_ready:
  assumes m: "threads s (cur c s) = Some m" "t_cpu m = Some c" and idle: "\<not> c_isidle (cpus s c)"
    and q: "threadlist_addtail (c_runqueue c) (cur c s) (tls s) = Inr q"
  shows "put_away c S_READY w (rq_locked c s) = Inr (rq_locked c (upd_thread (cur c s) (\<lambda>th. th\<lparr>t_state := S_READY\<rparr>) (s\<lparr>tls := q\<rparr>)))"
proof -
  obtain mk where "threads (rq_locked c s) (cur c s) = Some mk" "t_cpu mk = Some c"
    using threads_hold [OF m(1), of c] m(2) by (auto simp: rq_locked_def)
  then show ?thesis using q idle by (simp add: put_away_def thread_make_runnable_def deref_def assert_hold_def cpu_view_def spinlock_do_i_hold_def held_by_def
    on_lists_def rq_locked_upd_thread rq_locked_tls upd_swap)
qed

lemma thread_yield_ok:
  assumes inv: "sched_inv s P R Z V W" and c: "c < numcpus s" "c_pc (cpus s c) = Plain" "c_spins (cpus s c) = 0" and placed: "placed P"
  shows "sched_ok ops (thread_yield ops c s)"
proof -
  obtain me where me: "threads s (cur c s) = Some me" "thread_inv s (P (cur c s)) (cur c s) me" by (rule inv_cur [OF inv c(1)])
  define u where "u = with_spl c 1 s"
  note b = switch_begin [OF inv c(1,2) me(1), folded u_def]
  have n: "c < numcpus u" and cu: "cur c u = cur c s" using c(1) by (simp_all add: u_def)
  have emp: "threadlist_isempty (c_runqueue c) (tls s) \<longleftrightarrow> R c = []"
    using lists_length(3) [OF sched_invD(1) [OF inv], of "c_runqueue c" "R c"] c(1) by simp
  consider "c_isidle (cpus s c)" | "\<not> c_isidle (cpus s c)" "R c = []" | "\<not> c_isidle (cpus s c)" "R c \<noteq> []" by blast
  then show ?thesis
  proof cases
    case 1
    then show ?thesis using b(2,9) placed by (auto simp: thread_yield_def thread_switch_def u_def intro: sched_okI)
  next
    case 2
    have "rq_acquire c c u = Inr (rq_locked c u)" "rq_release c c (rq_locked c u) = Inr u"
      using rq_acquire_eq [OF inv_view(1,2) [OF b(1) n]] rq_release_eq [OF inv_view(1,2) [OF b(1) n]] by (simp_all add: rq_locked_def)
    then show ?thesis using b(2,3,9) emp 2 inv_checkstack [OF b(1,3)] placed
      by (auto simp: thread_yield_def thread_switch_def deref_def cu intro: sched_okI) (auto simp: u_def intro: sched_okI)
  next
    case 3
    note run = inv_running [OF inv c(1) 3(1)]
    let ?m = "me\<lparr>t_spl := 1, t_ipl_count := t_ipl_count me + 1 - t_spl me\<rparr>" and ?h = "\<lambda>th. th\<lparr>t_state := S_READY\<rparr>"
    from lists_put(1) [OF sched_invD(1) [OF b(1)], of "cur c u" c c] b(3) run n obtain q where
      q: "threadlist_addtail (c_runqueue c) (cur c u) (tls u) = Inr q" "lists_inv (u\<lparr>tls := q\<rparr>) (P(cur c u := Ready c)) (R(c := R c @ [cur c u])) Z V W"
      by (auto simp: cu)
    define s' where "s' = upd_thread (cur c u) ?h (u\<lparr>tls := q\<rparr>)"
    have "put_away c S_READY 0 (rq_locked c u) = Inr (rq_locked c s')" unfolding s'_def
      by (rule put_ready [OF b(3) [folded cu]]) (use b(8) 3(1) q(1) in \<open>auto simp: u_def\<close>)
    moreover have "view_ok c s'" "c_runqueue_lock (cpus s' c) = spinlock_init" "cur c s' = cur c s"
      using inv_view(1,2) [OF b(1) n] by (simp_all add: s'_def cu view_upd_thread)
    ultimately have eq: "thread_yield ops c s = idle_wake ops c (upd_cpu c (\<lambda>p. p\<lparr>c_isidle := True, c_frame := t_spl me\<rparr>) (upd_thread (cur c s) ?h s'))"
      unfolding thread_yield_def using inv_view(1,2) [OF inv c(1)] 3 me(1) b(5,6) inv_checkstack [OF inv me(1)] emp
      by (intro switch_out_eq) (auto simp: u_def)
    also have "upd_thread (cur c s) ?h s' = upd_thread (cur c u) ?h (u\<lparr>tls := q, p_numthreads := p_numthreads u\<rparr>)"
      unfolding s'_def cu procs_idem by (rule upd_thread_twice [of _ _ ?m]) (use b(3) in simp_all)
    finally show ?thesis
    proof (simp only:, intro idle_after_ok [OF b(1) n _ _ _ b(3) [folded cu] _ b(5) q(2)])
      have "t_proc me \<noteq> None" using me(2) run by (auto simp: thread_inv_def place_ok_def)
      then show "place_ok u (Ready c) (cur c u) (?h ?m)" using b(8) n by (simp add: place_ok_def)
      have "(\<exists>y. threads (upd_thread (cur c u) ?h (u\<lparr>tls := q, p_numthreads := p_numthreads u\<rparr>)) t = Some y \<and> t_proc y = Some p) =
        (\<exists>y. threads u t = Some y \<and> t_proc y = Some p)" for t p by auto
      then show "procs_inv (upd_thread (cur c u) ?h (u\<lparr>tls := q, p_numthreads := p_numthreads u\<rparr>))" using sched_invD(3) [OF b(1)] by (simp add: procs_inv_def)
      show "pc_ok u d y ((R(c := R c @ [cur c u])) d) (V d)" if "pc_ok u d y (R d) (V d)" for d y
        using that by (auto simp: pc_ok_def split: cpu_pc.splits)
      have "hd (R c) \<noteq> cur c s" using lists_head(1) [OF sched_invD(1) [OF inv] c(1), of "hd (R c)"] 3(2) run by auto
      then show "in_intr c u \<Longrightarrow> (R(c := R c @ [cur c u])) c \<noteq> [] \<and> hd ((R(c := R c @ [cur c u])) c) \<noteq> cur c u \<and> t_spl me = 1"
        using b(4,7) 3(2) cu by simp
    qed (use 3(1) c placed in \<open>simp_all add: u_def\<close>)
  qed
qed

lemma rq_locked_cpu [simp]: "\<not> c_irq (cpus (rq_locked c s) c)" "c_spins (cpus (rq_locked c s) c) = Suc (c_spins (cpus s c))"
  by (simp_all add: rq_locked_def hold_def)

lemma wc_release_locked:
  assumes m: "threads v (cur c v) = Some m" "1 \<le> t_ipl_count m" and w: "wc_lock v w = held_by c" "0 < c_spins (cpus v c)"
  shows "wc_release c w (rq_locked c v) = Inr (rq_locked c (unlocked c w v))"
proof -
  obtain mk where mk: "threads (rq_locked c v) (cur c v) = Some mk" "t_ipl_count mk = t_ipl_count m + 1"
    using threads_hold [OF m(1), of c] by (simp add: rq_locked_def)
  have "wc_release c w (rq_locked c v) = Inr (unlocked c w (rq_locked c v))"
    by (rule wc_release_unlocked [of _ _ mk]) (use mk m w in simp_all)
  also have "unlocked c w (rq_locked c v) = rq_locked c (unlocked c w v)"
    using m w(2) by (auto simp: unlocked_def rq_locked_def hold_def sys_defs fun_eq_iff intro!: sys.equality)
  finally show ?thesis .
qed

lemma wch_sleep_ok:
  assumes inv: "sched_inv s P R Z V W" and c: "c < numcpus s" "c_pc (cpus s c) = Plain" "\<not> c_isidle (cpus s c)" "\<not> in_intr c s"
    and w: "splk_holder (wc_lock s w) = Some c" "c_spins (cpus s c) = 1" and placed: "placed P"
  shows "sched_ok ops (wch_sleep ops c w s)"
proof -
  obtain me where me: "threads s (cur c s) = Some me" "thread_inv s (P (cur c s)) (cur c s) me" "in_intr c s = t_in_intr me" by (rule inv_cur [OF inv c(1)])
  define u where "u = with_spl c 1 s"
  define u2 where "u2 = unlocked c w u"
  note b = switch_begin [OF inv c(1,2) me(1), folded u_def] and run = inv_running [OF inv c(1,3)]
  have n: "c < numcpus u" "c_pc (cpus u c) = Plain" "splk_holder (wc_lock u w) = Some c" and cu: "cur c u = cur c s" using c w by (simp_all add: u_def)
  have inv2: "sched_inv u2 P R Z V W" using unlocked_inv(2) [OF b(1) n] by (simp add: u2_def)
  let ?m = "me\<lparr>t_spl := 1, t_ipl_count := t_ipl_count me + 1 - t_spl me\<rparr>"
  let ?m2 = "?m\<lparr>t_ipl_count := t_ipl_count ?m - 1\<rparr>" and ?f = "\<lambda>th. th\<lparr>t_wchan_name := Some (wc_name s w)\<rparr>"
  have u2: "cur c u2 = cur c s" "threads u2 (cur c s) = Some ?m2" "tls u2 = tls u" "c_spins (cpus u2 c) = 0" "c_pc (cpus u2 c) = Plain" "\<not> c_isidle (cpus u2 c)"
    "c < numcpus u2" "wchans u2 = wchans s"
    using b(3) c w(2) by (simp_all add: u2_def unlocked_def cur_upd_cpu cu) (simp_all add: u_def)
  obtain ws where W: "W w = Some ws" using sched_invD(1) [OF inv] lock_cases(2) [OF inv w(1)] unfolding lists_inv_def by blast
  from lists_put(5) [OF sched_invD(1) [OF inv2] _ _ W, of "cur c u2" c] u2 run obtain q where
    q: "threadlist_addtail (wc_threads w) (cur c u2) (tls u2) = Inr q" "lists_inv (u2\<lparr>tls := q\<rparr>) (P(cur c u2 := Sleeping w)) R Z V (W(w \<mapsto> ws @ [cur c u2]))" by auto
  define s' where "s' = upd_thread (cur c s) ?f (u2\<lparr>tls := q\<rparr>)"
  have un: "unlocked c w (upd_thread (cur c s) ?f (u\<lparr>tls := q\<rparr>)) = s'"
    using b(3) by (auto simp: s'_def u2_def unlocked_def sys_defs cu [unfolded cur_def] intro!: sys.equality)
  have sp: "spl_ok (cpus s c) me" using sched_invD(6) [OF inv c(1)] me(1) by (auto simp: cpu_inv_def)
  have "wc_release c w (rq_locked c (upd_thread (cur c s) ?f (u\<lparr>tls := q\<rparr>))) = Inr (rq_locked c s')"
    unfolding un [symmetric] by (rule wc_release_locked [of _ _ "?f ?m"]) (use b(3) sp w lock_cases(2) [OF inv w(1)] in \<open>auto simp: cu spl_ok_def, auto simp: u_def\<close>)
  then have "put_away c S_SLEEP w (rq_locked c u) = Inr (rq_locked c s')"
    using q(1) u2(1,3) by (simp add: put_away_def Let_def on_lists_def rq_locked_upd_thread rq_locked_tls upd_swap cu) (simp add: u_def)
  moreover have "view_ok c s'" "c_runqueue_lock (cpus s' c) = spinlock_init" "cur c s' = cur c s"
    using inv_view(1,2) [OF inv2 u2(7)] u2(1) by (simp_all add: s'_def view_upd_thread)
  ultimately have "thread_switch ops c S_SLEEP w s =
      idle_wake ops c (upd_cpu c (\<lambda>p. p\<lparr>c_isidle := True, c_frame := t_spl me\<rparr>) (upd_thread (cur c s) (\<lambda>th. th\<lparr>t_state := S_SLEEP\<rparr>) s'))"
    using inv_view(1,2) [OF inv c(1)] c(3) me(1) b(5,6) inv_checkstack [OF inv me(1)] by (intro switch_out_eq) (auto simp: u_def)
  also have "upd_thread (cur c s) (\<lambda>th. th\<lparr>t_state := S_SLEEP\<rparr>) s' =
      upd_thread (cur c u2) (\<lambda>th. (?f th)\<lparr>t_state := S_SLEEP\<rparr>) (u2\<lparr>tls := q, p_numthreads := p_numthreads u2\<rparr>)"
    unfolding s'_def u2(1) procs_idem by (rule upd_thread_twice [of _ _ ?m2]) (use u2(2) in simp_all)
  finally have eq: "thread_switch ops c S_SLEEP w s = idle_wake ops c (upd_cpu c (\<lambda>p. p\<lparr>c_isidle := True, c_frame := t_spl me\<rparr>)
      (upd_thread (cur c u2) (\<lambda>th. (?f th)\<lparr>t_state := S_SLEEP\<rparr>) (u2\<lparr>tls := q, p_numthreads := p_numthreads u2\<rparr>)))" .
  have "sched_ok ops (thread_switch ops c S_SLEEP w s)" unfolding eq
  proof (rule idle_after_ok [OF inv2 u2(7,5,6,4) u2(2) [folded u2(1)] _ b(5) q(2)])
    have "t_proc me \<noteq> None" using me(2) run by (auto simp: thread_inv_def place_ok_def)
    then show "place_ok u2 (Sleeping w) (cur c u2) ((?f ?m2)\<lparr>t_state := S_SLEEP\<rparr>)" using b(8) u2(7,8) lock_cases(2) [OF inv w(1)] by (simp add: place_ok_def)
    have "(\<exists>y. threads (upd_thread (cur c u2) (\<lambda>th. (?f th)\<lparr>t_state := S_SLEEP\<rparr>) (u2\<lparr>tls := q, p_numthreads := p_numthreads u2\<rparr>)) t = Some y \<and> t_proc y = Some p) =
      (\<exists>y. threads u2 t = Some y \<and> t_proc y = Some p)" for t p by auto
    then show "procs_inv (upd_thread (cur c u2) (\<lambda>th. (?f th)\<lparr>t_state := S_SLEEP\<rparr>) (u2\<lparr>tls := q, p_numthreads := p_numthreads u2\<rparr>))"
      using sched_invD(3) [OF inv2] by (simp add: procs_inv_def)
    show "in_intr c u2 \<Longrightarrow> R c \<noteq> [] \<and> hd (R c) \<noteq> cur c u2 \<and> t_spl me = 1" using u2(1,2) me(3) c(4) by (simp add: in_intr_def)
  qed (use placed in simp_all)
  then show ?thesis using me(1,3) c(4) w assert_hold_ok [OF inv c(1) w(1)] by (simp add: wch_sleep_def deref_def)
qed

lemma card_detach:
  assumes "threads s t = Some th" and "t_proc th = Some p" and "finite (dom (threads s))" and "t_proc th' = None"
  shows "card {u. \<exists>x. ((threads s)(t \<mapsto> th')) u = Some x \<and> t_proc x = Some p'} =
    card {u. \<exists>x. threads s u = Some x \<and> t_proc x = Some p'} - (if p' = p then 1 else 0)"
    "0 < card {u. \<exists>x. threads s u = Some x \<and> t_proc x = Some p}"
proof -
  let ?S = "\<lambda>p'. {u. \<exists>x. threads s u = Some x \<and> t_proc x = Some p'}"
  have fin: "finite (?S p')" for p' using assms(3) by (rule rev_finite_subset) auto
  have t: "t \<in> ?S p" using assms(1,2) by simp
  have "{u. \<exists>x. ((threads s)(t \<mapsto> th')) u = Some x \<and> t_proc x = Some p'} = (if p' = p then ?S p - {t} else ?S p')"
    using assms(1,2,4) by (auto split: if_splits)
  then show "card {u. \<exists>x. ((threads s)(t \<mapsto> th')) u = Some x \<and> t_proc x = Some p'} = card (?S p') - (if p' = p then 1 else 0)"
    using t by (auto simp: card_Diff_singleton)
  show "0 < card (?S p)" using t fin by (auto simp: card_gt_0_iff)
qed

lemma detach_ok:
  assumes inv: "sched_inv s P R Z V W" and t: "threads s t = Some th" "t_proc th = Some p"
  defines "N \<equiv> (p_numthreads s)(p := p_numthreads s p - 1)"
  shows "detach_thread t s = Inr (upd_thread t (\<lambda>th. th\<lparr>t_proc := None\<rparr>) (s\<lparr>p_numthreads := N\<rparr>))"
    "t_proc (h th) = None \<Longrightarrow> threads u = threads s \<Longrightarrow> procs_inv (upd_thread t h (u\<lparr>tls := q, p_numthreads := N\<rparr>))"
proof -
  let ?n = "card {u. \<exists>x. threads s u = Some x \<and> t_proc x = Some p}"
  have pos: "0 < ?n" by (rule card_detach(2) [OF t inv_finite [OF inv], of "th\<lparr>t_proc := None\<rparr>"]) simp
  have dom: "dom (threads s) \<subseteq> {0<..<2 ^ 32}" using sched_invD(1) [OF inv] by (simp add: lists_inv_def)
  have "?n \<le> card {0<..<2 ^ 32 :: nat}" by (rule card_mono) (use dom in auto)
  then have lt: "?n < 2 ^ 32" by simp
  have np: "p_numthreads s p' = of_nat (card {u. \<exists>x. threads s u = Some x \<and> t_proc x = Some p'})" for p'
    using sched_invD(3) [OF inv] by (simp add: procs_inv_def)
  have "unat (p_numthreads s p) = ?n" using lt by (simp add: np unat_of_nat)
  then have "p_numthreads s p > 0" using pos by (metis word_gt_0_no neq0_conv unat_0 word_gt_0)
  then show "detach_thread t s = Inr (upd_thread t (\<lambda>th. th\<lparr>t_proc := None\<rparr>) (s\<lparr>p_numthreads := N\<rparr>))"
    using t by (simp add: detach_thread_def deref_def N_def Let_def)
  assume h: "t_proc (h th) = None" "threads u = threads s"
  let ?s = "upd_thread t h (u\<lparr>tls := q, p_numthreads := N\<rparr>)"
  have "threads ?s = (threads s)(t \<mapsto> h th)" using t(1) h(2) by auto
  then have "p_numthreads ?s p' = of_nat (card {v. \<exists>x. threads ?s v = Some x \<and> t_proc x = Some p'})" for p'
    using card_detach(1) [OF t inv_finite [OF inv] h(1), of p'] np pos by (auto simp: N_def of_nat_diff)
  then show "procs_inv ?s" unfolding procs_inv_def by blast
qed

lemma with_spl_again: "threads s (cur c s) = Some m \<Longrightarrow> t_spl m = x \<Longrightarrow> c_irq (cpus s c) = (t_ipl_count m = 0) \<Longrightarrow> with_spl c x s = s"
  by (simp add: with_spl_def sys_defs fun_upd_idem)

lemma thread_exit_ok:
  assumes inv: "sched_inv s P R Z V W" and c: "c < numcpus s" "c_pc (cpus s c) = Plain" "\<not> c_isidle (cpus s c)" "\<not> in_intr c s" "c_spins (cpus s c) = 0"
    and placed: "placed P"
  shows "sched_ok ops (thread_exit ops c s)"
proof -
  obtain me where me: "threads s (cur c s) = Some me" "thread_inv s (P (cur c s)) (cur c s) me" "in_intr c s = t_in_intr me" by (rule inv_cur [OF inv c(1)])
  define u where "u = with_spl c 1 s"
  note b = switch_begin [OF inv c(1,2) me(1), folded u_def] and run = inv_running [OF inv c(1,3)]
  have cu: "cur c u = cur c s" by (simp add: u_def)
  let ?m = "me\<lparr>t_spl := 1, t_ipl_count := t_ipl_count me + 1 - t_spl me\<rparr>" and ?d = "\<lambda>th. th\<lparr>t_proc := None\<rparr>"
    and ?f = "\<lambda>th. th\<lparr>t_wchan_name := Some ''ZOMBIE''\<rparr>"
  obtain p where p: "t_proc me = Some p" using me(2) run by (auto simp: thread_inv_def place_ok_def)
  define N where "N = (p_numthreads s)(p := p_numthreads s p - 1)"
  define sx where "sx = upd_thread (cur c s) ?d (u\<lparr>p_numthreads := N\<rparr>)"
  have sx: "with_spl c 1 (upd_thread (cur c s) ?d (s\<lparr>p_numthreads := N\<rparr>)) = sx"
    using me(1) by (auto simp: sx_def u_def with_spl_def Let_def sys_defs intro!: sys.equality)
  have mx: "threads sx (cur c sx) = Some (?d ?m)" "cur c sx = cur c s" using b(3) cu by (simp_all add: sx_def)
  have irq: "c_irq (cpus sx c) = (t_ipl_count ?m = 0)" using me(1) by (simp add: sx_def u_def with_spl_def Let_def)
  have nn: "0 \<le> t_ipl_count ?m" "1 \<le> t_ipl_count ?m" using b(5,6) by auto
  from lists_put(2) [OF sched_invD(1) [OF b(1)], of "cur c u" c c] b(3) run c(1) obtain q where
    q: "threadlist_addtail (c_zombies c) (cur c u) (tls u) = Inr q" "lists_inv (u\<lparr>tls := q\<rparr>) (P(cur c u := Dead c)) R (Z(c := Z c @ [cur c u])) V W"
    by (auto simp: cu u_def)
  define s' where "s' = upd_thread (cur c s) ?f (sx\<lparr>tls := q\<rparr>)"
  have vx: "view_ok c sx" "c_runqueue_lock (cpus sx c) = spinlock_init" using mx irq nn inv_view(2) [OF inv c(1)] by (auto simp: view_ok_def) (simp add: sx_def u_def)
  have again: "with_spl c 1 sx = sx" by (rule with_spl_again [OF mx(1)]) (use irq in simp_all)
  have "put_away c S_ZOMBIE 0 (rq_locked c (with_spl c 1 sx)) = Inr (rq_locked c s')"
    using q(1) mx(2)
    by (simp add: again put_away_def Let_def on_lists_def rq_locked_upd_thread rq_locked_tls upd_swap s'_def cu) (simp add: sx_def)
  moreover have "view_ok c s'" "c_runqueue_lock (cpus s' c) = spinlock_init" "cur c s' = cur c sx" using vx mx(2) by (simp_all add: s'_def view_upd_thread)
  moreover have "thread_checkstack (?d ?m) = Inr ()" using inv_checkstack [OF inv me(1)] by (simp add: thread_checkstack_def)
  moreover have ni: "\<not> c_isidle (cpus sx c)" using c(3) by (simp add: sx_def u_def)
  ultimately have "thread_switch ops c S_ZOMBIE 0 sx =
      idle_wake ops c (upd_cpu c (\<lambda>p. p\<lparr>c_isidle := True, c_frame := 1\<rparr>) (upd_thread (cur c s) (\<lambda>th. th\<lparr>t_state := S_ZOMBIE\<rparr>) s'))"
    using switch_out_eq [OF vx _ mx(1), of S_ZOMBIE 0 s' ops] nn(2) by (simp add: mx(2))
  also have "upd_thread (cur c s) (\<lambda>th. th\<lparr>t_state := S_ZOMBIE\<rparr>) s' =
      upd_thread (cur c u) (\<lambda>th. (?f (?d th))\<lparr>t_state := S_ZOMBIE\<rparr>) (u\<lparr>tls := q, p_numthreads := N\<rparr>)"
    using b(3) by (auto simp: s'_def sx_def cu [unfolded cur_def] sys_defs intro!: sys.equality)
  finally have eq: "thread_switch ops c S_ZOMBIE 0 sx = idle_wake ops c (upd_cpu c (\<lambda>p. p\<lparr>c_isidle := True, c_frame := 1\<rparr>)
      (upd_thread (cur c u) (\<lambda>th. (?f (?d th))\<lparr>t_state := S_ZOMBIE\<rparr>) (u\<lparr>tls := q, p_numthreads := N\<rparr>)))" .
  have ok: "sched_ok ops (thread_switch ops c S_ZOMBIE 0 sx)" unfolding eq
  proof (rule idle_after_ok [OF b(1) _ _ _ _ b(3) [folded cu] _ _ q(2)])
    show "place_ok u (Dead c) (cur c u) ((?f (?d ?m))\<lparr>t_state := S_ZOMBIE\<rparr>)" using b(8) c(1) by (simp add: place_ok_def u_def)
    have "procs_inv (upd_thread (cur c u) (\<lambda>th. (?f (?d th))\<lparr>t_state := S_ZOMBIE\<rparr>) (u\<lparr>tls := q, p_numthreads := (p_numthreads u)(p := p_numthreads u p - 1)\<rparr>))"
      by (rule detach_ok(2) [OF b(1) b(3) [folded cu]]) (use p in simp_all)
    then show "procs_inv (upd_thread (cur c u) (\<lambda>th. (?f (?d th))\<lparr>t_state := S_ZOMBIE\<rparr>) (u\<lparr>tls := q, p_numthreads := N\<rparr>))"
      by (simp add: N_def u_def)
    show "in_intr c u \<Longrightarrow> R c \<noteq> [] \<and> hd (R c) \<noteq> cur c u \<and> 1 = (1 :: int)" using b(4) c(4) by simp
  qed (use c placed in \<open>simp_all add: u_def\<close>)
  have "set_spl c 1 (upd_thread (cur c s) ?d (s\<lparr>p_numthreads := N\<rparr>)) = Inr (t_spl me, sx)"
    using set_spl_eq [of c "upd_thread (cur c s) ?d (s\<lparr>p_numthreads := N\<rparr>)" "?d me" 1] inv_view(1) [OF inv c(1)] me(1) b(5,6)
    by (simp add: view_upd_thread sx) (auto simp: view_ok_def)
  then have "thread_exit ops c s = sbind (thread_switch ops c S_ZOMBIE 0 sx) Inr"
    using detach_ok(1) [OF inv me(1) p] me(1) c(3) inv_checkstack [OF inv me(1)]
    by (simp add: thread_exit_def N_def deref_def thread_checkstack_def ni)
  moreover have "sbind r Inr = r" for r :: "('a, 'b) sys kres" by (cases r) simp_all
  ultimately show ?thesis using ok by simp
qed

end
