(* ===== verification/Sched_Safe.thy ===== *)
theory Sched_Safe
  imports Sched_Inv
begin

text \<open>The safety of the thread system, \<^verbatim>\<open>kern/thread/thread.c\<close>: the invariant of \<^verbatim>\<open>Sched_Inv\<close>
  is kept by the clock interrupt with the migration of threads between CPUs, by interprocessor interrupts and by the
  creation of CPUs, hence by every step, and so holds in every state that is reached from \<^verbatim>\<open>thread_bootstrap\<close>.\<close>

section \<open>Migration\<close>

definition locked :: "nat \<Rightarrow> nat \<Rightarrow> ('m, 'v) sys \<Rightarrow> ('m, 'v) sys" where
  "locked c d s = upd_cpu d (\<lambda>p. p\<lparr>c_runqueue_lock := held_by c\<rparr>) (hold c s)"

lemma upd_cpu_commute:
  assumes "\<And>k. f (g k) = g (f k)"
  shows "upd_cpu d f (upd_cpu e g s) = upd_cpu e g (upd_cpu d f s)"
  using assms by (cases "d = e") (auto simp: sys_defs fun_upd_twist intro!: sys.equality)

lemma locked_set_pc: "set_pc e pc (locked c d s) = locked c d (set_pc e pc s)"
proof -
  have "hold c (set_pc e pc s) = set_pc e pc (hold c s)" unfolding set_pc_def by (rule hold_upd_cpu) simp_all
  then show ?thesis unfolding locked_def by (simp add: set_pc_def) (rule upd_cpu_commute, simp)
qed

lemma locked_sel [simp]: "tls (locked c d s) = tls s" "cur e (locked c d s) = cur e s" "numcpus (locked c d s) = numcpus s"
  "c_isidle (cpus (locked c d s) e) = c_isidle (cpus s e)" "c_ipi_lock (cpus (locked c d s) e) = c_ipi_lock (cpus s e)"
  by (simp_all add: locked_def cur_upd_cpu)

lemma locked_tls: "(locked c d s)\<lparr>tls := q\<rparr> = locked c d (s\<lparr>tls := q\<rparr>)"
  by (simp add: locked_def hold_tls upd_swap)

lemma locked_ok:
  assumes "sched_inv s P R Z V W" and "c < numcpus s" and "d < numcpus s"
  shows "rq_acquire c d s = Inr (locked c d s)" "rq_release c d (locked c d s) = Inr s" "view_ok c (locked c d s)"
  using rq_acquire_eq [OF inv_view(1) [OF assms(1,2)] inv_view(2) [OF assms(1,3)]]
    rq_release_eq [OF inv_view(1) [OF assms(1,2)] inv_view(2) [OF assms(1,3)]] view_hold [OF inv_view(1) [OF assms(1,2)]]
  by (simp_all add: locked_def view_upd_cpu)

lemma tls_same: "s\<lparr>tls := tls s\<rparr> = s" by simp

text \<open>Only the program counter of a CPU changes.\<close>

lemma sched_inv_pc:
  assumes inv: "sched_inv s P R Z V W" and c: "c < numcpus s"
    and held: "\<And>t th. threads s t = Some th \<Longrightarrow> P t = Held c \<Longrightarrow> place_ok (set_pc c pc s) (Held c) t th"
    and pc: "\<And>me. threads s (cur c s) = Some me \<Longrightarrow> pc_ok s c me (R c) (V c) \<Longrightarrow> pc_ok (set_pc c pc s) c me (R c) (V c)"
  shows "sched_inv (set_pc c pc s) P R Z V W"
proof -
  have "lists_inv (s\<lparr>tls := tls s\<rparr>) P R Z V W" using sched_invD(1) [OF inv] by simp
  then have "sched_inv (set_pc c pc (s\<lparr>tls := tls s\<rparr>)) P R Z V W"
  proof (rule sched_inv_bulk [OF inv])
    show "place_ok (set_pc c pc s) (P t) t th" if t: "threads s t = Some th" for t th
      using sched_invD(5) [OF inv t] held [OF t] by (cases "P t") (auto simp: thread_inv_def place_ok_def)
    show "pc_ok (set_pc c pc s) d me (R d) (V d)" if "threads s (cur d s) = Some me" "pc_ok s d me (R d) (V d)" for d me
      using that pc [of me] by (cases "d = c") (auto simp: pc_ok_def split: cpu_pc.splits)
  qed (rule inv_running [OF inv])
  then show ?thesis by (simp only: tls_same)
qed

lemma hardclock_ok:
  assumes inv: "sched_inv s P R Z V W" and c: "c < numcpus s" "c_pc (cpus s c) = Plain" "in_intr c s" "c_spins (cpus s c) = 0"
    and placed: "placed P"
  shows "sched_ok ops (hardclock ops c s)"
proof (cases "vm_lru ops (sys_vm s)")
  case (Inl e)
  then show ?thesis by (auto simp: hardclock_def sched_ok_def vm_fails_def)
next
  case (Inr v)
  define s1 where "s1 = upd_cpu c (\<lambda>p. p\<lparr>c_hardclocks := c_hardclocks p + 1\<rparr>) (s\<lparr>sys_vm := v\<rparr>)"
  have inv1: "sched_inv s1 P R Z V W" unfolding s1_def
    by (rule sched_inv_cpu) (use inv c sched_invD(6) [OF inv c(1)] in \<open>auto simp: cpu_inv_def\<close>)
  have c1: "c < numcpus s1" "c_pc (cpus s1 c) = Plain" "c_spins (cpus s1 c) = 0" "in_intr c s1" using c by (simp_all add: s1_def in_intr_def cur_def)
  have "sched_inv (set_pc c (Counting 0 0 0) s1) P R Z V W"
  proof (rule sched_inv_pc [OF inv1 c1(1)])
    show "place_ok (set_pc c (Counting 0 0 0) s1) (Held c) t th" if "threads s1 t = Some th" "P t = Held c" for t th
      using no_held [OF inv1 disjI1 [OF c1(2)] that(1)] that(2) by blast
  qed (use c1 in \<open>auto simp: pc_ok_def in_intr_def\<close>)
  then show ?thesis using thread_yield_ok [OF inv1 c1(1-3) placed, of ops] Inr placed
    by (simp add: hardclock_def flip: s1_def) (auto intro: sched_okI)
qed

text \<open>The last part of the interrupt.\<close>

lemma finish_ok:
  assumes inv: "sched_inv (set_pc c Plain s) P R Z V W" and c: "c < numcpus s" "c_spins (cpus s c) = 0" and placed: "placed P"
  shows "sched_ok ops (finish_hardclock ops c s)"
  unfolding finish_hardclock_def by (rule thread_yield_ok [OF inv]) (use c placed in simp_all)

lemma take_victims_rep:
  assumes "tl_rep q T A" and "A (c_runqueue c) = Some r" and "A (victims c) = Some v" and "k \<le> length r"
  shows "\<exists>q'. take_victims c k q = Inr q' \<and>
    tl_rep q' T (A(c_runqueue c \<mapsto> take (length r - k) r, victims c \<mapsto> drop (length r - k) r @ v))"
  using assms
proof (induction k arbitrary: q A r v)
  case 0
  then show ?case by (simp add: fun_upd_idem)
next
  case (Suc k)
  have ne: "c_runqueue c \<noteq> victims c" using list_div(2,6) [of c] by fastforce
  from Suc.prems(4) obtain r' t where r: "r = r' @ [t]" by (cases r rule: rev_cases) auto
  from tlist.remtail_snoc [OF Suc.prems(1) Suc.prems(2) [unfolded r]] obtain q1 where
    q1: "threadlist_remtail (c_runqueue c) q = Inr (Some t, q1)" "tl_rep q1 T (A(c_runqueue c \<mapsto> r'))" by blast
  have t: "t \<in> T" "t \<notin> set r'" using tlist.once [OF Suc.prems(1,2)] r by auto
  have "t \<notin> set us" if "A l = Some us" "l \<noteq> c_runqueue c" for l us
    using tlist.disjoint [OF Suc.prems(1) that(1) Suc.prems(2) that(2)] r by auto
  then have free: "t \<notin> \<Union> (set ` ran (A(c_runqueue c \<mapsto> r')))" using t(2) by (auto simp: ran_def split: if_splits)
  have "(A(c_runqueue c \<mapsto> r')) (victims c) = Some v" using Suc.prems(3) ne by simp
  from tlist.addhead_Cons [OF q1(2) this t(1) free] obtain q2 where
    q2: "threadlist_addhead (victims c) t q1 = Inr q2" "tl_rep q2 T (A(c_runqueue c \<mapsto> r', victims c \<mapsto> t # v))" by blast
  have "(A(c_runqueue c \<mapsto> r', victims c \<mapsto> t # v)) (c_runqueue c) = Some r'"
    "(A(c_runqueue c \<mapsto> r', victims c \<mapsto> t # v)) (victims c) = Some (t # v)" "k \<le> length r'" using ne r Suc.prems(4) by simp_all
  from Suc.IH [OF q2(2) this] obtain q3 where
    q3: "take_victims c k q2 = Inr q3" "tl_rep q3 T (A(c_runqueue c \<mapsto> r', victims c \<mapsto> t # v,
      c_runqueue c \<mapsto> take (length r' - k) r', victims c \<mapsto> drop (length r' - k) r' @ t # v))" by blast
  have "A(c_runqueue c \<mapsto> r', victims c \<mapsto> t # v, c_runqueue c \<mapsto> x, victims c \<mapsto> y) = A(c_runqueue c \<mapsto> x, victims c \<mapsto> y)" for x y
    using ne by auto
  then show ?case using q1(1) q2(1) q3 r by (simp add: deref_def del: fun_upd_apply)
qed

lemma migrate_count_ok:
  assumes inv: "sched_inv s P R Z V W" and c: "c < numcpus s" "c_pc (cpus s c) = Counting i my tot" and placed: "placed P"
  shows "sched_ok ops (migrate_count ops c i my tot s)"
proof -
  note l = sched_invD(1) [OF inv]
  obtain me where me: "threads s (cur c s) = Some me" "pc_ok s c me (R c) (V c)" by (rule inv_cur [OF inv c(1)])
  have pc: "V c = None" "t_in_intr me" "c_spins (cpus s c) = 0" "unat my \<le> length (R c)" using me(2) c(2) by (auto simp: pc_ok_def)
  have held: "P t \<noteq> Held c" if "threads s t = Some th" for t th using no_held [OF inv disjI2 [OF c(2)] that] .
  have go: "sched_inv (set_pc c (Counting j m n) s) P R Z V W" if "unat m \<le> length (R c)" for j m n
    by (rule sched_inv_pc [OF inv c(1)]) (use held pc me(1) that in \<open>auto simp: pc_ok_def\<close>)
  show ?thesis
  proof (cases "i < numcpus s")
    case True
    define n where "n = tl_count (tls s) (c_runqueue i)"
    define pc' where "pc' = Counting (Suc i) (if i = c then n else my) (tot + n)"
    have "length (R i) < 2 ^ 32" "n = of_nat (length (R i))"
      using lists_length(1,2) [OF l, of "c_runqueue i" "R i"] True by (simp_all add: n_def)
    then have "unat n = length (R i)" by (simp add: unat_of_nat)
    then have inv1: "sched_inv (set_pc c pc' s) P R Z V W" unfolding pc'_def using pc(4) by (intro go) simp
    have "migrate_count ops c i my tot s = rq_release c i (locked c i (set_pc c pc' s))"
      using True locked_ok(1) [OF inv c(1) True] by (simp only: migrate_count_def Let_def locked_set_pc if_True sbind.simps locked_sel n_def pc'_def)
    then show ?thesis using locked_ok(2) [OF inv1, of c i] c(1) True inv1 placed by (auto intro: sched_okI)
  next
    case False
    define share where "share = (tot + of_nat (numcpus s) - 1) div of_nat (numcpus s)"
    show ?thesis
    proof (cases "my < share")
      case True
      have "sched_inv (set_pc c Plain s) P R Z V W"
        by (rule sched_inv_pc [OF inv c(1)]) (use held pc in \<open>auto simp: pc_ok_def\<close>)
      from finish_ok [OF this c(1) pc(3) placed] show ?thesis using True False by (simp add: migrate_count_def share_def)
    next
      case no: False
      define k where "k = unat (my - share)"
      have "k \<le> length (R c)" using no pc(4) by (simp add: k_def unat_sub)
      from take_victims_rep [OF lists_init_victims [OF inv c(1) pc(1)] _ _ this, where v = "[]" and c = c] c(1) obtain q where
        q: "take_victims c k (threadlist_init (victims c) (tls s)) = Inr q"
          "tl_rep q (dom (threads s)) (qmap (numcpus s) (R(c := take (length (R c) - k) (R c))) Z (V(c \<mapsto> drop (length (R c) - k) (R c))) W)" by auto
      define r v where rv: "r = take (length (R c) - k) (R c)" "v = drop (length (R c) - k) (R c)"
      have "distinct (R c)" using tlist.once [of "tls s" "dom (threads s)" "qmap (numcpus s) R Z V W" "c_runqueue c" "R c"] l c(1)
        by (simp add: lists_inv_def)
      then have dist: "set r \<inter> set v = {}" by (simp add: rv set_take_disj_set_drop_if_distinct)
      have un: "set r \<union> set v = set (R c)" by (simp add: rv flip: set_append)
      define P' where "P' t = (if t \<in> set v then Held c else P t)" for t
      have Rc: "t \<in> set (R c) \<longleftrightarrow> t \<in> dom (threads s) \<and> P t = Ready c" for t using l c(1) by (auto simp: lists_inv_def at_place_def)
      have vR: "P t = Ready c" if "t \<in> set v" for t using Rc un that by blast
      have ap: "at_place s P' pl = (if pl = Held c then set v else if pl = Ready c then set r else at_place s P pl)" for pl
        using Rc dist un held by (fastforce simp: at_place_def P'_def split: if_splits)
      have "lists_inv (s\<lparr>tls := q\<rparr>) P' (R(c := r)) Z (V(c \<mapsto> v)) W"
        using l q(2) [folded rv] ap by (auto simp: lists_inv_def at_place_def [of "s\<lparr>tls := q\<rparr>"] at_place_def [of s, symmetric])
      then have inv1: "sched_inv (set_pc c (Sending 0 share k) (s\<lparr>tls := q\<rparr>)) P' (R(c := r)) Z (V(c \<mapsto> v)) W"
      proof (rule sched_inv_bulk [OF inv])
        show "place_ok (set_pc c (Sending 0 share k) s) (P' t) t th" if t: "threads s t = Some th" for t th
          using sched_invD(5) [OF inv t] c(1) vR [of t] held [OF t]
          by (cases "t \<in> set v"; cases "P t") (auto simp: P'_def thread_inv_def place_ok_def)
        show "P' (cur d s) = Running d" if "d < numcpus s" "\<not> c_isidle (cpus s d)" for d
          using inv_running [OF inv that] vR [of "cur d s"] by (auto simp: P'_def)
        show "pc_ok (set_pc c (Sending 0 share k) s) d m ((R(c := r)) d) ((V(c \<mapsto> v)) d)"
          if "threads s (cur d s) = Some m" "pc_ok s d m (R d) (V d)" for d m
          using that me(1) pc \<open>k \<le> length (R c)\<close> rv(2) by (cases "d = c") (auto simp: pc_ok_def split: cpu_pc.splits)
      qed
      define s0 where "s0 = s\<lparr>tls := threadlist_init (victims c) (tls s)\<rparr>"
      have "rq_acquire c c s0 = Inr (locked c c s0)" using inv_view(1,2) [OF inv c(1)] rq_acquire_eq [of c s0 c] by (simp add: s0_def locked_def)
      then have "migrate_count ops c i my tot s = rq_release c c (locked c c (set_pc c (Sending 0 share k) (s\<lparr>tls := q\<rparr>)))"
        using False no q(1) by (simp add: migrate_count_def Let_def on_lists_def locked_tls locked_set_pc flip: share_def k_def s0_def) (simp add: s0_def locked_set_pc)
      moreover have "placed P'" using placed by (simp add: P'_def placed_def)
      ultimately show ?thesis using locked_ok(2) [OF inv1, of c c] c(1) inv1 by (auto intro: sched_okI)
    qed
  qed
qed

text \<open>Victims are sent: the state is that of the invariant but for the program counter, which the loop does not read.\<close>

lemma set_pc_twice [simp]: "set_pc c pc (set_pc c pc' s) = set_pc c pc s"
  by (simp add: set_pc_def sys_defs)

lemma set_pc_tls: "(set_pc c pc s)\<lparr>tls := q\<rparr> = set_pc c pc (s\<lparr>tls := q\<rparr>)"
  by (simp add: set_pc_def sys_defs)

lemma set_pc_upd_thread: "upd_thread t f (set_pc c pc s) = set_pc c pc (upd_thread t f s)"
  by (simp add: set_pc_def sys_defs)

lemma upd_thread_id: "upd_thread t (\<lambda>x. x) s = s"
  by (auto simp: sys_defs option.map_ident intro!: sys.equality)

lemma locked_upd_thread: "upd_thread t (\<lambda>th. th\<lparr>t_cpu := x\<rparr>) (locked c d s) = locked c d (upd_thread t (\<lambda>th. th\<lparr>t_cpu := x\<rparr>) s)"
  unfolding locked_def by (subst hold_upd_thread; simp add: sys_defs)

definition pended :: "nat \<Rightarrow> ('m, 'v) sys \<Rightarrow> ('m, 'v) sys" where
  "pended d s = upd_cpu d (\<lambda>p. if c_isidle p then p\<lparr>c_ipi_pending := c_ipi_pending p OR push_bit 2 1\<rparr> else p) s"

lemma pended_pc: "pended d (set_pc c pc s) = set_pc c pc (pended d s)"
  unfolding pended_def set_pc_def by (rule upd_cpu_commute) simp

lemma ipi_send_locked:
  assumes "view_ok c (locked c d s)" and "c_ipi_lock (cpus s d) = spinlock_init"
  shows "(if c_isidle (cpus (locked c d s) d) then ipi_send c d IPI_UNIDLE (locked c d s) else Inr (locked c d s)) = Inr (locked c d (pended d s))"
proof (cases "c_isidle (cpus s d)")
  case True
  then have "pended d s = upd_cpu d (\<lambda>p. p\<lparr>c_ipi_pending := c_ipi_pending p OR push_bit 2 1\<rparr>) s" by (simp add: pended_def sys_defs)
  moreover have "locked c d (upd_cpu d (\<lambda>p. p\<lparr>c_ipi_pending := c_ipi_pending p OR push_bit 2 1\<rparr>) s) =
      upd_cpu d (\<lambda>p. p\<lparr>c_ipi_pending := c_ipi_pending p OR push_bit 2 1\<rparr>) (locked c d s)"
    unfolding locked_def by (subst hold_upd_cpu; simp) (rule upd_cpu_comm; simp)
  ultimately show ?thesis using True ipi_send_eq [OF assms(1), of d IPI_UNIDLE] assms(2) by simp
next
  case False
  then show ?thesis by (simp add: pended_def sys_defs)
qed

lemma pc_ok_mono: "pc_ok s c me r v \<Longrightarrow> length r \<le> length r' \<Longrightarrow> pc_ok s c me r' v"
  by (auto simp: pc_ok_def split: cpu_pc.splits)

lemma send_one:
  assumes inv: "sched_inv (set_pc c (Sending j one (Suc k)) s) P R Z V W" and c: "c < numcpus s" and d: "d < numcpus s"
    and less: "tl_count (tls s) (c_runqueue d) < one" and placed: "placed P"
  shows "\<exists>s' P' R' V'. send_victims c d one (Suc k) (locked c d s) = send_victims c d one k (locked c d s') \<and>
    sched_inv (set_pc c (Sending j one k) s') P' R' Z V' W \<and> numcpus s' = numcpus s \<and> placed P'"
proof -
  let ?S = "set_pc c (Sending j one k)"
  obtain me where "threads s (cur c s) = Some me" "pc_ok (set_pc c (Sending j one (Suc k)) s) c me (R c) (V c)"
    using inv_cur [OF inv, of c] c by auto
  then obtain t ts where V: "V c = Some (t # ts)" "k \<le> length ts" by (auto simp: pc_ok_def Suc_le_length_iff)
  have "sched_inv (set_pc c (Sending j one k) (set_pc c (Sending j one (Suc k)) s)) P R Z V W"
  proof (rule sched_inv_pc [OF inv])
    show "place_ok (set_pc c (Sending j one k) (set_pc c (Sending j one (Suc k)) s)) (Held c) t th"
      if "threads (set_pc c (Sending j one (Suc k)) s) t = Some th" "P t = Held c" for t th
      using sched_invD(5) [OF inv that(1)] that(2) by (simp add: thread_inv_def place_ok_def)
  qed (use c in \<open>auto simp: pc_ok_def\<close>)
  then have inv0: "sched_inv (?S s) P R Z V W" by simp
  note l = sched_invD(1) [OF inv0]
  from lists_head(3) [OF l _ V(1), of t] c obtain th where t: "threads s t = Some th" "P t = Held c" by auto
  have pl: "place_ok (?S s) (Held c) t th" using sched_invD(5) [OF inv0, of t th] t by (simp add: thread_inv_def)
  from lists_take(4) [OF l _ V(1)] c obtain q where
    q: "threadlist_remhead (victims c) (tls s) = Inr (Some t, q)" "lists_inv (?S s\<lparr>tls := q\<rparr>) (P(t := Nowhere)) R Z (V(c \<mapsto> ts)) W" by auto
  have inv1: "sched_inv (?S s\<lparr>tls := q\<rparr>) (P(t := Nowhere)) R Z (V(c \<mapsto> ts)) W"
    by (rule sched_inv_take [OF inv0 _ _ _ q(2)]) (use t V(2) in \<open>auto simp: pc_ok_def split: cpu_pc.splits if_splits\<close>)
  note l1 = sched_invD(1) [OF inv1]
  show ?thesis
  proof (cases "t = cur c s")
    case True
    from lists_put(3) [OF l1, of t c c ts] t c obtain q2 where
      q2: "threadlist_addtail (victims c) t q = Inr q2" "lists_inv (?S s\<lparr>tls := q, tls := q2\<rparr>) (P(t := Nowhere, t := Held c)) R Z (V(c \<mapsto> ts, c \<mapsto> ts @ [t])) W" by auto
    have "sched_inv (upd_thread t (\<lambda>x. x) (?S s\<lparr>tls := q, tls := q2\<rparr>)) (P(t := Nowhere, t := Held c)) R Z (V(c \<mapsto> ts, c \<mapsto> ts @ [t])) W"
      by (rule sched_inv_move [where f = "\<lambda>x. x", OF inv1 _ q2(2)]) (use t pl V(2) in \<open>auto simp: pc_ok_def place_ok_def split: cpu_pc.splits if_splits\<close>)
    then have "sched_inv (?S (s\<lparr>tls := q2\<rparr>)) (P(t := Held c)) R Z (V(c \<mapsto> ts @ [t])) W" by (simp add: upd_thread_id set_pc_tls)
    moreover have "send_victims c d one (Suc k) (locked c d s) = send_victims c d one k (locked c d (s\<lparr>tls := q2\<rparr>))"
      using less q(1) q2(1) True by (simp add: Let_def deref_def on_lists_def locked_tls)
    moreover have "placed (P(t := Held c))" using placed by simp
    ultimately show ?thesis by (intro exI [of _ "s\<lparr>tls := q2\<rparr>"]) auto
  next
    case False
    let ?f = "\<lambda>th. th\<lparr>t_cpu := Some d\<rparr>"
    from lists_put(1) [OF l1, of t c d] t d obtain q2 where
      q2: "threadlist_addtail (c_runqueue d) t q = Inr q2" "lists_inv (?S s\<lparr>tls := q, tls := q2\<rparr>) (P(t := Nowhere, t := Ready d)) (R(d := R d @ [t])) Z (V(c \<mapsto> ts)) W" by auto
    have "t_cpu th = Some c" using pl by (simp add: place_ok_def)
    then have ncur: "cur e s \<noteq> t" if "e < numcpus s" for e
      using sched_invD(6) [OF inv0, of e] that t(1) False by (auto simp: cpu_inv_def)
    have "sched_inv (upd_thread t ?f (?S s\<lparr>tls := q, tls := q2\<rparr>)) (P(t := Nowhere, t := Ready d)) (R(d := R d @ [t])) Z (V(c \<mapsto> ts)) W"
    proof (rule sched_inv_move [where f = ?f, OF inv1 _ q2(2)])
      show "place_ok (?S s\<lparr>tls := q\<rparr>) (Ready d) t (?f th)" using pl d by (simp add: place_ok_def)
      show "pc_ok (?S s\<lparr>tls := q\<rparr>) e me ((R(d := R d @ [t])) e) ((V(c \<mapsto> ts)) e)"
        if "pc_ok (?S s\<lparr>tls := q\<rparr>) e me (R e) ((V(c \<mapsto> ts)) e)" for e me
        using that by (rule pc_ok_mono) simp
    qed (use t ncur in simp_all)
    note invm = this
    then have "sched_inv (pended d (upd_thread t ?f (?S s\<lparr>tls := q, tls := q2\<rparr>))) (P(t := Nowhere, t := Ready d)) (R(d := R d @ [t])) Z (V(c \<mapsto> ts)) W"
      unfolding pended_def by (rule sched_inv_pending) (simp add: d)
    then have inv2: "sched_inv (?S (pended d (upd_thread t ?f (s\<lparr>tls := q2\<rparr>)))) (P(t := Ready d)) (R(d := R d @ [t])) Z (V(c \<mapsto> ts)) W"
      by (simp add: set_pc_tls set_pc_upd_thread pended_pc)
    let ?s = "upd_thread t ?f (s\<lparr>tls := q2\<rparr>)"
    have invs: "sched_inv (?S ?s) (P(t := Ready d)) (R(d := R d @ [t])) Z (V(c \<mapsto> ts)) W"
      using invm by (simp add: set_pc_tls set_pc_upd_thread)
    have "view_ok c (set_pc c (Sending j one k) (locked c d ?s))"
      using locked_ok(3) [OF invs, of c d] c d by (simp add: locked_set_pc)
    then have "view_ok c (locked c d ?s)" by (simp add: set_pc_def view_upd_cpu)
    moreover have "c_ipi_lock (cpus ?s d) = spinlock_init" using inv_view(3) [OF invs, of d] d by (simp add: set_pc_def split: if_splits)
    ultimately have "view_ok c (locked c d ?s)" "c_ipi_lock (cpus ?s d) = spinlock_init" by blast+
    note ipi = ipi_send_locked [OF this]
    have "(upd_thread t ?f (locked c d (s\<lparr>tls := q\<rparr>)))\<lparr>tls := q2\<rparr> = locked c d ?s" by (simp add: locked_upd_thread locked_tls upd_swap)
    then have "send_victims c d one (Suc k) (locked c d s) = send_victims c d one k (locked c d (pended d ?s))"
      using less q(1) q2(1) False ipi by (simp add: Let_def deref_def on_lists_def locked_tls)
    moreover have "placed (P(t := Ready d))" using placed by simp
    ultimately show ?thesis using inv2 by (intro exI [of _ "pended d ?s"]) (auto simp: pended_def)
  qed
qed

lemma send_victims_ok:
  assumes "sched_inv (set_pc c (Sending j one k) s) P R Z V W" and "c < numcpus s" and "d < numcpus s" and "placed P"
  shows "\<exists>k' s' P' R' V'. send_victims c d one k (locked c d s) = Inr (k', locked c d s') \<and>
    sched_inv (set_pc c (Sending j one k') s') P' R' Z V' W \<and> numcpus s' = numcpus s \<and> placed P'"
  using assms
proof (induction k arbitrary: s P R V)
  case 0
  then show ?case by auto
next
  case (Suc k)
  show ?case
  proof (cases "tl_count (tls s) (c_runqueue d) < one")
    case True
    from send_one [OF Suc.prems(1-3) True Suc.prems(4)] obtain s1 P1 R1 V1 where
      s1: "send_victims c d one (Suc k) (locked c d s) = send_victims c d one k (locked c d s1)"
        "sched_inv (set_pc c (Sending j one k) s1) P1 R1 Z V1 W" "numcpus s1 = numcpus s" "placed P1" by blast
    then show ?thesis using Suc.IH [OF s1(2)] Suc.prems(2,3) by simp
  next
    case False
    then show ?thesis using Suc.prems(1,4) by auto
  qed
qed

text \<open>The threads that found no CPU go back to the run queue.\<close>

lemma give_back:
  assumes inv: "sched_inv s P R Z V W" and c: "c < numcpus s" "c_pc (cpus s c) = Sending i one k" and vs: "V c = Some vs" and placed: "placed P"
  shows "\<exists>q P' R'. (if \<not> threadlist_isempty (victims c) (tls s) then
         sbind (rq_acquire c c s) (\<lambda>s. sbind (on_lists (\<lambda>q. loop_result (take_all (victims c) (c_runqueue c) q)) s) (rq_release c c))
       else Inr s) = Inr (s\<lparr>tls := q\<rparr>) \<and> sched_inv (set_pc c (Sending i one 0) (s\<lparr>tls := q\<rparr>)) P' R' Z (V(c \<mapsto> [])) W \<and> placed P'"
proof (cases "vs = []")
  case True
  have "sched_inv (set_pc c (Sending i one 0) s) P R Z V W"
  proof (rule sched_inv_pc [OF inv c(1)])
    show "place_ok (set_pc c (Sending i one 0) s) (Held c) t th" if "threads s t = Some th" "P t = Held c" for t th
      using sched_invD(5) [OF inv that(1)] that(2) c by (simp add: thread_inv_def place_ok_def)
  qed (use c(2) in \<open>auto simp: pc_ok_def\<close>)
  moreover have "V(c \<mapsto> []) = V" using vs True by (simp add: fun_upd_idem)
  moreover have "threadlist_isempty (victims c) (tls s)"
    using lists_length(3) [OF sched_invD(1) [OF inv], of "victims c" vs] vs c(1) True by simp
  ultimately show ?thesis using placed by (intro exI [of _ "tls s"] exI [of _ P] exI [of _ R]) simp
next
  case False
  note l = sched_invD(1) [OF inv]
  have ne: "victims c \<noteq> c_runqueue c" using list_div(2,6) [of c] by fastforce
  have rep: "tl_rep (tls s) (dom (threads s)) (qmap (numcpus s) R Z V W)" using l by (simp add: lists_inv_def)
  from take_all_rep [OF rep _ _ ne, of vs "R c"] vs c(1) obtain q where
    q: "take_all (victims c) (c_runqueue c) (tls s) = Some (Inr q)"
      "tl_rep q (dom (threads s)) (qmap (numcpus s) (R(c := R c @ vs)) Z (V(c \<mapsto> [])) W)" by auto
  define P' where "P' t = (if t \<in> set vs then Ready c else P t)" for t
  have v: "t \<in> set vs \<longleftrightarrow> t \<in> dom (threads s) \<and> P t = Held c" for t using l vs c(1) by (auto simp: lists_inv_def at_place_def)
  have Rc: "set (R c) = at_place s P (Ready c)" using l c(1) by (simp add: lists_inv_def)
  have ap: "at_place s P' pl = (if pl = Held c then {} else if pl = Ready c then set (R c @ vs) else at_place s P pl)" for pl
    using v Rc by (auto simp: at_place_def P'_def split: if_splits)
  have "lists_inv (s\<lparr>tls := q\<rparr>) P' (R(c := R c @ vs)) Z (V(c \<mapsto> [])) W"
    using l q(2) ap by (auto simp: lists_inv_def at_place_def [of "s\<lparr>tls := q\<rparr>"] at_place_def [of s, symmetric])
  then have inv1: "sched_inv (set_pc c (Sending i one 0) (s\<lparr>tls := q\<rparr>)) P' (R(c := R c @ vs)) Z (V(c \<mapsto> [])) W"
  proof (rule sched_inv_bulk [OF inv])
    show "place_ok (set_pc c (Sending i one 0) s) (P' t) t th" if t: "threads s t = Some th" for t th
      using sched_invD(5) [OF inv t] c v [of t] t
      by (cases "t \<in> set vs"; cases "P t") (auto simp: P'_def thread_inv_def place_ok_def)
    show "P' (cur d s) = Running d" if "d < numcpus s" "\<not> c_isidle (cpus s d)" for d
      using inv_running [OF inv that] v [of "cur d s"] by (auto simp: P'_def)
    show "pc_ok (set_pc c (Sending i one 0) s) d m ((R(c := R c @ vs)) d) ((V(c \<mapsto> [])) d)" if "pc_ok s d m (R d) (V d)" for d m
      using that c(2) vs by (cases "d = c") (auto simp: pc_ok_def split: cpu_pc.splits)
  qed
  have "rq_release c c (locked c c (s\<lparr>tls := q\<rparr>)) = Inr (s\<lparr>tls := q\<rparr>)"
    using inv_view(1,2) [OF inv c(1)] rq_release_eq [of c "s\<lparr>tls := q\<rparr>" c] by (simp add: locked_def)
  moreover have "placed P'" using placed by (simp add: P'_def placed_def)
  ultimately show ?thesis using q(1) locked_ok(1) [OF inv c(1,1)] lists_length(3) [OF l, of "victims c" vs] vs c(1) inv1 False
    by (auto simp: on_lists_def loop_result_def locked_tls)
qed

lemma migrate_send_ok:
  assumes inv: "sched_inv s P R Z V W" and c: "c < numcpus s" "c_pc (cpus s c) = Sending i one k" and placed: "placed P"
  shows "sched_ok ops (migrate_send ops c i one k s)"
proof -
  note l = sched_invD(1) [OF inv]
  obtain me where me: "threads s (cur c s) = Some me" "pc_ok s c me (R c) (V c)" by (rule inv_cur [OF inv c(1)])
  obtain vs where vs: "V c = Some vs" "k \<le> length vs" "t_in_intr me" "c_spins (cpus s c) = 0" using me(2) c(2) by (auto simp: pc_ok_def)
  have held: "t_cpu th = Some c \<and> t_state th = S_READY \<and> t_proc th \<noteq> None" if "threads s t = Some th" "P t = Held c" for t th
    using sched_invD(5) [OF inv that(1)] that(2) c by (simp add: thread_inv_def place_ok_def)
  have go: "sched_inv (set_pc c (Sending j one k) s) P R Z V W" for j
    by (rule sched_inv_pc [OF inv c(1)]) (use held c vs me(1) in \<open>auto simp: pc_ok_def place_ok_def\<close>)
  consider "i < numcpus s" "k > 0" "i = c" | "i < numcpus s" "k > 0" "i \<noteq> c" | "\<not> (i < numcpus s \<and> k > 0)" by blast
  then show ?thesis
  proof cases
    case 1
    then show ?thesis using go placed by (auto simp: migrate_send_def intro: sched_okI)
  next
    case 2
    from send_victims_ok [OF go c(1) 2(1) placed] obtain k' s' P' R' V' where
      s': "send_victims c i one k (locked c i s) = Inr (k', locked c i s')" "sched_inv (set_pc c (Sending (Suc i) one k') s') P' R' Z V' W"
        "numcpus s' = numcpus s" "placed P'" by blast
    have "rq_release c i (set_pc c (Sending (Suc i) one k') (locked c i s')) = Inr (set_pc c (Sending (Suc i) one k') s')"
      using locked_ok(2) [OF s'(2), of c i] s'(3) c(1) 2(1) by (simp add: locked_set_pc)
    then show ?thesis using 2 s' locked_ok(1) [OF inv c(1) 2(1)] by (auto simp: migrate_send_def intro: sched_okI)
  next
    case 3
    from give_back [OF inv c vs(1) placed] obtain q P' R' where
      q: "(if \<not> threadlist_isempty (victims c) (tls s) then
         sbind (rq_acquire c c s) (\<lambda>s. sbind (on_lists (\<lambda>q. loop_result (take_all (victims c) (c_runqueue c) q)) s) (rq_release c c))
       else Inr s) = Inr (s\<lparr>tls := q\<rparr>)"
        "sched_inv (set_pc c (Sending i one 0) (s\<lparr>tls := q\<rparr>)) P' R' Z (V(c \<mapsto> [])) W" "placed P'" by blast
    have e: "threadlist_isempty (victims c) q"
      using lists_length(3) [OF sched_invD(1) [OF q(2)], of "victims c" "[]"] c(1) by simp
    have d: "threadlist_cleanup (victims c) q = Inr ()" "sched_inv (set_pc c Plain (s\<lparr>tls := q\<rparr>)) P' R' Z (V(c := None)) W"
      using drop_victims [OF q(2), of c] c(1) by simp_all
    have "migrate_send ops c i one k s = finish_hardclock ops c (s\<lparr>tls := q\<rparr>)"
      unfolding migrate_send_def if_not_P [OF 3] q(1) using e d(1) by simp
    then show ?thesis using finish_ok [OF d(2)] c(1) vs(4) q(3) by simp
  qed
qed

section \<open>Interprocessor interrupts and new CPUs\<close>

lemma interprocessor_interrupt_inv:
  assumes inv: "sched_inv s P R Z V W" and c: "c < numcpus s"
  shows "\<exists>s'. interprocessor_interrupt ops c s = Inr (False, s') \<and> sched_inv s' P R Z V W \<and> threads s' = threads s"
proof -
  let ?f = "\<lambda>p :: 'a cpu. p\<lparr>c_ipi_pending := 0\<rparr>" and ?l = "\<lambda>p :: 'a cpu. p\<lparr>c_ipi_lock := held_by c\<rparr>"
  have k: "c_ipi_pending (cpus s c) \<in> {0, 4}" "c_ipi_lock (cpus s c) = spinlock_init" "c_shootdown (cpus s c) = []"
    "c_runqueue_lock (cpus s c) = spinlock_init" using sched_invD(6) [OF inv c] by (auto simp: cpu_inv_def)
  note v = inv_view(1) [OF inv c]
  have bits: "\<not> bit (c_ipi_pending (cpus s c)) 0" "\<not> bit (c_ipi_pending (cpus s c)) 1" "\<not> bit (c_ipi_pending (cpus s c)) 3"
    using k(1) by (auto simp: bit_simps)
  have "upd_cpu c ?f (upd_cpu c ?l (hold c s)) = upd_cpu c ?l (hold c (upd_cpu c ?f s))"
  proof (subst hold_upd_cpu)
    show "upd_cpu c ?f (upd_cpu c ?l (hold c s)) = upd_cpu c ?l (upd_cpu c ?f (hold c s))" by (rule upd_cpu_comm) simp
  qed simp_all
  then have "interprocessor_interrupt ops c s = Inr (False, upd_cpu c ?f s)"
    using bits ipi_acquire_eq [OF v k(2)] ipi_release_eq [of c "upd_cpu c ?f s" c] v k(2)
    by (simp add: interprocessor_interrupt_def Let_def view_upd_cpu hold_def)
  moreover have "sched_inv (upd_cpu c ?f s) P R Z V W" by (rule sched_inv_cpu [OF inv c]) (use k in simp_all)
  ultimately show ?thesis by auto
qed

lemma qmap_new:
  "(qmap n R Z V W)(c_zombies n \<mapsto> [], c_runqueue n \<mapsto> []) = qmap (Suc n) (R(n := [])) (Z(n := [])) (V(n := None)) W"
  by (rule ext, use mod_4_cases in \<open>auto simp: qmap_def list_number fun_upd_def\<close>)

definition with_cpu :: "nat \<Rightarrow> thread \<Rightarrow> nat \<Rightarrow> ('m, 'v) sys \<Rightarrow> ('m, 'v) sys" where
  "with_cpu t th p s = s\<lparr>cpus := (cpus s)(numcpus s := \<lparr>c_curthread = t, c_hardclocks = 0, c_spins = 0, c_irq = False,
       c_isidle = False, c_runqueue_lock = spinlock_init, c_ipi_pending = 0, c_shootdown = [],
       c_ipi_lock = spinlock_init, c_frame = 0, c_pc = Plain\<rparr>), numcpus := Suc (numcpus s),
     threads := (threads s)(t \<mapsto> th),
     tls := threadlistnode_init t (threadlist_init (c_runqueue (numcpus s)) (threadlist_init (c_zombies (numcpus s)) (tls s))),
     p_numthreads := (p_numthreads s)(p := p_numthreads s p + 1)\<rparr>"

lemma with_cpu_inv:
  assumes inv: "sched_inv s P R Z V W" and n: "numcpus s < MAXCPUS" and t: "threads s t = None" "0 < t" "t < 2 ^ 32"
    and th: "t_proc th = Some p" "t_cpu th = Some (numcpus s)" "t_state th = S_READY" "\<not> tm_badfaultfunc th" "t_spl th = 1"
      "t_ipl_count th = 1" "\<not> t_in_intr th" "t_stack th = None \<or> t_stack th = Some (replicate 4 THREAD_STACK_MAGIC)"
  shows "sched_inv (with_cpu t th p s) (P(t := Running (numcpus s))) (R(numcpus s := [])) (Z(numcpus s := [])) (V(numcpus s := None)) W"
proof -
  let ?s = "with_cpu t th p s" and ?n = "numcpus s" and ?P = "P(t := Running (numcpus s))"
  note l = sched_invD(1) [OF inv]
  have rep: "tl_rep (tls s) (dom (threads s)) (qmap ?n R Z V W)" using l by (simp add: lists_inv_def)
  have sel: "numcpus ?s = Suc ?n" "wchans ?s = wchans s" "wc_lock ?s = wc_lock s" "dom (threads ?s) = insert t (dom (threads s))"
    "threads ?s u = (if u = t then Some th else threads s u)" "cur ?n ?s = t" "d \<noteq> ?n \<Longrightarrow> cpus ?s d = cpus s d" "d \<noteq> ?n \<Longrightarrow> cur d ?s = cur d s" for u d
    by (auto simp: with_cpu_def cur_def)
  have none: "qmap ?n R Z V W (c_zombies ?n) = None" "c_runqueue ?n \<noteq> c_zombies ?n" "qmap ?n R Z V W (c_runqueue ?n) = None"
    by (simp_all add: qmap_def list_div list_number)
  have "tl_rep (threadlist_init (c_zombies ?n) (tls s)) (dom (threads s)) ((qmap ?n R Z V W)(c_zombies ?n \<mapsto> []))"
    by (rule threadlist_init_ok [OF rep none(1)])
  then have "tl_rep (threadlist_init (c_runqueue ?n) (threadlist_init (c_zombies ?n) (tls s))) (dom (threads s))
      (qmap (Suc ?n) (R(?n := [])) (Z(?n := [])) (V(?n := None)) W)"
    using none by (subst qmap_new [symmetric]) (rule threadlist_init_ok, simp_all)
  then have rep': "tl_rep (tls ?s) (dom (threads ?s)) (qmap (numcpus ?s) (R(?n := [])) (Z(?n := [])) (V(?n := None)) W)"
    unfolding sel(1,4) using threadlistnode_init_ok [of _ "dom (threads s)"] t(1) by (simp add: with_cpu_def domIff)
  have "P u \<noteq> Ready ?n \<and> P u \<noteq> Dead ?n" if "u \<in> dom (threads s)" for u
    using sched_invD(5) [OF inv] that by (fastforce simp: thread_inv_def place_ok_def)
  then have "at_place ?s ?P (Ready ?n) = {}" "at_place ?s ?P (Dead ?n) = {}" by (auto simp: at_place_def sel)
  moreover have "at_place ?s ?P pl = at_place s P pl" if "\<And>c. pl \<noteq> Running c" for pl using that t(1) by (auto simp: at_place_def sel)
  ultimately have "lists_inv ?s ?P (R(?n := [])) (Z(?n := [])) (V(?n := None)) W"
    using l t rep' unfolding lists_inv_def by (auto simp: sel less_Suc_eq)
  moreover have "procs_inv ?s" using sched_invD(3) [OF inv] card_attach [OF t(1) inv_finite [OF inv] th(1)]
    by (auto simp: procs_inv_def with_cpu_def simp del: fun_upd_apply) (auto simp: fun_upd_apply)
  moreover have locks: "locks_inv ?s" using sched_invD(2) [OF inv] unfolding locks_inv_def sel by (meson less_SucI)
  moreover have "thread_inv ?s (?P u) u x" if u: "threads ?s u = Some x" for u x
  proof (cases "u = t")
    case True
    then have "x = th" using u by (simp add: sel)
    moreover have "\<not> c_isidle (cpus ?s ?n)" by (simp add: with_cpu_def)
    ultimately show ?thesis using True th sel(1,6) by (auto simp: thread_inv_def place_ok_def)
  next
    case False
    then have "thread_inv s (P u) u x" using u sched_invD(5) [OF inv, of u x] by (simp add: sel)
    then show ?thesis using False by (auto simp: thread_inv_def place_ok_def sel less_Suc_eq split: place.splits cpu_pc.splits)
  qed
  moreover have "cpu_inv ?s ?P ((R(?n := [])) d) ((V(?n := None)) d) d" if "d < Suc ?n" for d
  proof (cases "d = ?n")
    case True
    have "splk_holder (wc_lock s w) \<noteq> Some ?n" for w using lock_cases(2) [OF inv, of w ?n] by blast
    then have "held_locks ?n ?s = {}" by (auto simp: held_locks_def sel)
    then show ?thesis using True th sel(5,6) by (simp add: cpu_inv_def spl_ok_def pc_ok_def) (simp add: with_cpu_def)
  next
    case False
    then have d: "d < ?n" using that by simp
    have "cur d s \<noteq> t" using sched_invD(6) [OF inv d] t(1) by (auto simp: cpu_inv_def)
    moreover have "pc_ok ?s d = pc_ok s d" using False by (intro pc_ok_cong) (simp_all add: sel)
    ultimately show ?thesis using sched_invD(6) [OF inv d] False unfolding cpu_inv_def held_locks_def by (simp add: sel)
  qed
  ultimately show ?thesis using n by (simp add: sched_inv_def sel)
qed

definition boot_thread :: "nat \<Rightarrow> nat \<Rightarrow> thread" where
  "boot_thread c p = \<lparr>t_name = ''<boot #>'', t_wchan_name = Some ''NEW'', t_state = S_READY, tm_badfaultfunc = False,
     t_stack = (if c = 0 then None else Some (replicate 4 THREAD_STACK_MAGIC)), t_context = None, t_cpu = Some c,
     t_proc = Some p, t_in_intr = False, t_spl = 1, t_ipl_count = 1, t_adjust = False\<rparr>"

lemma cpu_create_eq:
  "numcpus s < MAXCPUS \<Longrightarrow> cpu_create kproc True (Some t) True True s = Inr (with_cpu t (boot_thread (numcpus s) kproc) kproc s)"
  by (simp add: cpu_create_def thread_create_def attach_thread_def thread_checkstack_init_def deref_def with_cpu_def boot_thread_def sys_defs Let_def)

lemma cpu_create_inv:
  assumes inv: "sched_inv s P R Z V W" and n: "numcpus s < MAXCPUS" and t: "threads s t = None" "0 < t" "t < 2 ^ 32"
  shows "\<exists>s' R' Z' V'. cpu_create kproc True (Some t) True True s = Inr s' \<and> sched_inv s' (P(t := Running (numcpus s))) R' Z' V' W"
proof -
  have "sched_inv (with_cpu t (boot_thread (numcpus s) kproc) kproc s) (P(t := Running (numcpus s))) (R(numcpus s := [])) (Z(numcpus s := []))
      (V(numcpus s := None)) W"
    by (rule with_cpu_inv [OF inv n t]) (simp_all add: boot_thread_def)
  then show ?thesis using cpu_create_eq [OF n] by blast
qed

lemma sys_empty_inv: "sched_inv (sys_empty q k v) P (\<lambda>_. []) (\<lambda>_. []) (\<lambda>_. None) (\<lambda>_. None)"
  by (simp add: sched_inv_def sys_empty_def lists_inv_def locks_inv_def procs_inv_def at_place_def qmap_def tl_rep_def)

section \<open>Every step and every reachable state\<close>

lemma sched_step_ok:
  assumes "sched_step ops s r" and inv: "sched_inv s P R Z V W" "placed P"
  shows "sched_ok ops r"
  using assms(1)
proof (cases rule: sched_step.cases)
  case (step_lock c w)
  then show ?thesis using wc_acquire_inv [OF inv(1) step_lock(2-6)] inv(2) by (auto intro: sched_okI)
next
  case (step_unlock c w)
  then show ?thesis using unlocked_inv [OF inv(1) step_unlock(2-4)] inv(2) by (auto intro: sched_okI)
next
  case (step_spl c spl)
  then show ?thesis using with_spl_inv [OF inv(1) step_spl(2,3), of spl] inv(2) by (auto simp: snd_kres_def intro: sched_okI)
next
  case (step_create w name)
  then show ?thesis using wch_create_inv [OF inv(1) step_create(2)] inv(2) by (auto intro: sched_okI)
next
  case (step_destroy w)
  then show ?thesis using wch_destroy_inv [OF inv(1) step_destroy(2-4)] inv(2) by (auto intro: sched_okI)
next
  case (step_sleep c w)
  then show ?thesis using wch_sleep_ok [OF inv(1) step_sleep(2-7) inv(2)] by simp
next
  case (step_wakeone c w)
  then show ?thesis using wch_wakeone_inv [OF inv(1) step_wakeone(2,4) inv(2)] by (auto intro: sched_okI)
next
  case (step_wakeall c w)
  then show ?thesis using wch_wakeall_inv [OF inv(1) step_wakeall(2-4) inv(2)] by (auto intro: sched_okI)
next
  case (step_wakeall_next c w)
  then show ?thesis using wakeall_next_inv [OF inv(1) step_wakeall_next(2,3) inv(2)] by (auto intro: sched_okI)
next
  case (step_fork c mem name proc dup stack)
  from thread_fork_inv [OF inv(1) step_fork(2,4), of mem name proc dup stack] step_fork(5) inv(2) step_fork(1)
  show ?thesis by (auto simp: snd_kres_def intro: sched_okI)
next
  case (step_cpu t kproc)
  from cpu_create_inv [OF inv(1) step_cpu(2-5), of kproc] obtain s' R' Z' V' where
    "r = Inr s'" "sched_inv s' (P(t := Running (numcpus s))) R' Z' V' W" using step_cpu(1) by auto
  then show ?thesis using inv(2) by (auto intro: sched_okI)
next
  case (step_yield c)
  then show ?thesis using thread_yield_ok [OF inv(1) step_yield(2,3,5) inv(2)] by simp
next
  case (step_exit c)
  then show ?thesis using thread_exit_ok [OF inv(1) step_exit(2-6) inv(2)] by simp
next
  case (step_idle c)
  then show ?thesis using idle_wake_ok [OF inv(1) step_idle(2-5), of False] inv(2) by (simp add: upd_thread_id)
next
  case (step_intr c)
  then show ?thesis using intr_enter_inv [OF inv(1) step_intr(2-5)] inv(2) by (auto intro: sched_okI)
next
  case (step_intr_end c)
  then show ?thesis using intr_exit_inv [OF inv(1) step_intr_end(2-5)] inv(2) by (auto intro: sched_okI)
next
  case (step_hardclock c)
  then show ?thesis using hardclock_ok [OF inv(1) step_hardclock(2-5) inv(2)] by simp
next
  case (step_count c i my tot)
  then show ?thesis using migrate_count_ok [OF inv(1) step_count(2,3) inv(2)] by simp
next
  case (step_send c i one k)
  then show ?thesis using migrate_send_ok [OF inv(1) step_send(2,3) inv(2)] by simp
next
  case (step_ipi c)
  then show ?thesis using interprocessor_interrupt_inv [OF inv(1) step_ipi(2), of ops] inv(2) by (auto simp: snd_kres_def intro: sched_okI)
qed

lemma sched_reach_inv: "sched_reach ops s \<Longrightarrow> \<exists>P R Z V W. sched_inv s P R Z V W \<and> placed P"
proof (induction rule: sched_reach.induct)
  case (reach_boot t kproc q k v s)
  have inv: "sched_inv (sys_empty q k v) (\<lambda>_. Sleeping 0) (\<lambda>_. []) (\<lambda>_. []) (\<lambda>_. None) (\<lambda>_. None)" by (rule sys_empty_inv)
  have e: "numcpus (sys_empty q k v) < MAXCPUS" "threads (sys_empty q k v) t = None" by (simp_all add: sys_empty_def)
  from cpu_create_inv [OF inv e reach_boot(1,2), of kproc] reach_boot(3) obtain R Z V where
    "sched_inv s ((\<lambda>_. Sleeping 0)(t := Running (numcpus (sys_empty q k v)))) R Z V (\<lambda>_. None)" by (auto simp: thread_bootstrap_def)
  moreover have "placed ((\<lambda>_. Sleeping 0)(t := Running (numcpus (sys_empty q k v))))" by (simp add: placed_def)
  ultimately show ?case by blast
next
  case (reach_step s s')
  then obtain P R Z V W where "sched_inv s P R Z V W" "placed P" by blast
  from sched_step_ok [OF reach_step.hyps(2) this] show ?case by (simp add: sched_ok_def)
qed

text \<open>The places of the threads of a reachable state.\<close>

definition thread_place :: "('m, 'v) sys \<Rightarrow> (nat \<rightharpoonup> nat list) \<Rightarrow> nat \<Rightarrow> thread \<Rightarrow> bool" where
  "thread_place s A t th \<longleftrightarrow> (\<exists>c < numcpus s. t_cpu th = Some c \<and>
     (case t_state th of
        S_RUN \<Rightarrow> cur c s = t \<and> \<not> c_isidle (cpus s c) \<and> (\<forall>us \<in> ran A. t \<notin> set us)
      | S_READY \<Rightarrow> cur c s = t \<and> \<not> c_isidle (cpus s c) \<and> (\<forall>us \<in> ran A. t \<notin> set us) \<or>
          (\<exists>us. A (c_runqueue c) = Some us \<and> t \<in> set us) \<or>
          (\<exists>us i n k. c_pc (cpus s c) = Sending i n k \<and> A (victims c) = Some us \<and> t \<in> set us)
      | S_SLEEP \<Rightarrow> (\<exists>w \<in> wchans s. \<exists>us. A (wc_threads w) = Some us \<and> t \<in> set us) \<or>
          (\<exists>d < numcpus s. \<exists>w us. c_pc (cpus s d) = Waking w \<and> A (victims d) = Some us \<and> t \<in> set us)
      | S_ZOMBIE \<Rightarrow> t_proc th = None \<and> (\<exists>us. A (c_zombies c) = Some us \<and> t \<in> set us)))"

lemma inv_place:
  assumes inv: "sched_inv s P R Z V W" and placed: "placed P" and t: "threads s t = Some th"
  shows "thread_place s (qmap (numcpus s) R Z V W) t th"
proof -
  note l = sched_invD(1) [OF inv]
  have pl: "place_ok s (P t) t th" using sched_invD(5) [OF inv t] by (simp add: thread_inv_def)
  obtain c where c: "c < numcpus s" "t_cpu th = Some c" using pl by (auto simp: place_ok_def)
  have out: "\<forall>us \<in> ran (qmap (numcpus s) R Z V W). t \<notin> set us" if "P t = Running d" for d
    using free_thread [OF l, of t d] that by blast
  show ?thesis
  proof (cases "P t")
    case (Running d)
    then show ?thesis using pl c out [OF Running] by (auto simp: place_ok_def thread_place_def)
  next
    case (Ready d)
    then have "t \<in> set (R c)" using l c t pl by (auto simp: lists_inv_def at_place_def place_ok_def)
    then show ?thesis using pl c Ready by (auto simp: place_ok_def thread_place_def)
  next
    case (Dead d)
    then have "t \<in> set (Z c)" using l c t pl by (auto simp: lists_inv_def at_place_def place_ok_def)
    then show ?thesis using pl c Dead by (auto simp: place_ok_def thread_place_def)
  next
    case (Held d)
    then have d: "d < numcpus s" using pl by (simp add: place_ok_def)
    obtain me where "pc_ok s d me (R d) (V d)" by (rule inv_cur [OF inv d])
    then obtain us where us: "V d = Some us" using pl Held by (auto simp: place_ok_def pc_ok_def split: cpu_pc.splits)
    then have "t \<in> set us" using l d t Held by (auto simp: lists_inv_def at_place_def)
    then show ?thesis using pl c d us Held by (auto simp: place_ok_def thread_place_def split: cpu_pc.splits)
  next
    case (Sleeping w)
    then have w: "w \<in> wchans s" using pl by (simp add: place_ok_def)
    then obtain us where us: "W w = Some us" using l unfolding lists_inv_def by blast
    then have "t \<in> set us" using l t Sleeping by (auto simp: lists_inv_def at_place_def)
    then show ?thesis using pl c w us Sleeping by (auto simp: place_ok_def thread_place_def)
  next
    case Nowhere
    then show ?thesis using placed by (simp add: placed_def)
  qed
qed

text \<open>Two CPUs that are up, to apply the theorems to.\<close>

lemma two_cpus:
  fixes ops :: "(nat, nat) vm_ops"
  shows "\<exists>s. sched_reach ops s \<and> numcpus s = 2 \<and> dom (threads s) = {7, 9}"
proof -
  define q where "q = \<lparr>tln_next = (\<lambda>_. None), tln_prev = (\<lambda>_. None), tln_self = (\<lambda>_. None), tl_count = (\<lambda>_. 0)\<rparr>"
  define e :: "(nat, nat) sys" where "e = sys_empty q undefined 5"
  define s1 where "s1 = with_cpu 7 (boot_thread 0 1) 1 e"
  have e: "numcpus e = 0" "threads e = Map.empty" by (simp_all add: e_def sys_empty_def)
  have "sched_reach ops s1"
    by (rule reach_boot [of 7 1 q undefined 5]) (use cpu_create_eq [of e 1 7] e in \<open>simp_all add: thread_bootstrap_def s1_def flip: e_def\<close>)
  moreover have s1: "numcpus s1 = 1" "threads s1 = [7 \<mapsto> boot_thread 0 1]" by (simp_all add: s1_def with_cpu_def e)
  then have "sched_step ops s1 (Inr (with_cpu 9 (boot_thread 1 1) 1 s1))"
    using step_cpu [of s1 9 ops 1] cpu_create_eq [of s1 1 9] by simp
  ultimately have "sched_reach ops (with_cpu 9 (boot_thread 1 1) 1 s1)" by (rule reach_step)
  then show ?thesis using s1 by (intro exI [of _ "with_cpu 9 (boot_thread 1 1) 1 s1"]) (auto simp: with_cpu_def)
qed

text \<open>C1: in every state that the scheduler reaches from \<^verbatim>\<open>thread_bootstrap\<close>, with any number of CPUs and any interleaving of
  their steps, a step fails only because the virtual memory system fails: no assertion of \<^verbatim>\<open>thread.c\<close>,
  \<^verbatim>\<open>threadlist.c\<close>, \<^verbatim>\<open>spinlock.c\<close> and \<^verbatim>\<open>spl.c\<close> fails, no pointer to a freed thread is followed, no loop runs
  forever; and two CPUs never run the same thread, so no stack is shared.\<close>

theorem thread_system_safe:
  assumes "sched_reach ops s"
  shows "(\<forall>e. sched_step ops s (Inl e) \<longrightarrow> (\<exists>p v. vm_activate ops p v = Inl e) \<or> (\<exists>v. vm_lru ops v = Inl e)) \<and>
    (\<forall>c d. c < numcpus s \<and> d < numcpus s \<and> cur c s = cur d s \<longrightarrow> c = d)"
proof -
  from sched_reach_inv [OF assms] obtain P R Z V W where inv: "sched_inv s P R Z V W" "placed P" by blast
  have "vm_fails ops e" if "sched_step ops s (Inl e)" for e using sched_step_ok [OF that inv] by (simp add: sched_ok_def)
  then show ?thesis using inv_cur_unique [OF inv(1)] by (auto simp: vm_fails_def)
qed

theorem thread_system_safe_witness:
  "\<exists>(ops :: (nat, nat) vm_ops) s. sched_reach ops s \<and> numcpus s = 2 \<and> cur 0 s \<noteq> cur 1 s \<and>
    (\<forall>e. \<not> sched_step ops s (Inl e))"
proof -
  define ops :: "(nat, nat) vm_ops" where "ops = \<lparr>vm_activate = (\<lambda>p v. Inr v), vm_lru = (\<lambda>v. Inr (v + 1)), vm_shootdown = (\<lambda>m v. Inr v)\<rparr>"
  obtain s where s: "sched_reach ops s" "numcpus s = 2" using two_cpus by blast
  from thread_system_safe [OF s(1)] have "\<not> sched_step ops s (Inl e)" for e by (simp add: ops_def)
  moreover from thread_system_safe [OF s(1)] have "cur 0 s \<noteq> cur 1 s" using s(2) by force
  ultimately show ?thesis using s by blast
qed

text \<open>C4: no thread is lost or duplicated: in every reachable state the lists of the thread system are well formed and pairwise
  disjoint, and each thread structure is where its state says: a running thread is the current thread of its CPU and in
  no list, a ready one in the run queue of its CPU (or being migrated by it, or the first thread of a CPU), a sleeping one on a wait
  channel (or being woken up), a zombie in the zombie list of its CPU and in no process. The thread count of each process is
  the number of its threads.\<close>

theorem no_thread_lost:
  assumes "sched_reach ops s"
  shows "\<exists>A. tl_rep (tls s) (dom (threads s)) A \<and>
    (\<forall>l k us ws. A l = Some us \<and> A k = Some ws \<and> l \<noteq> k \<longrightarrow> set us \<inter> set ws = {}) \<and>
    (\<forall>t th. threads s t = Some th \<longrightarrow> thread_place s A t th) \<and>
    (\<forall>p. p_numthreads s p = of_nat (card {t. \<exists>th. threads s t = Some th \<and> t_proc th = Some p}))"
proof -
  from sched_reach_inv [OF assms] obtain P R Z V W where inv: "sched_inv s P R Z V W" "placed P" by blast
  have rep: "tl_rep (tls s) (dom (threads s)) (qmap (numcpus s) R Z V W)" using sched_invD(1) [OF inv(1)] by (simp add: lists_inv_def)
  moreover have "p_numthreads s p = of_nat (card {t. \<exists>th. threads s t = Some th \<and> t_proc th = Some p})" for p
    using sched_invD(3) [OF inv(1)] by (simp add: procs_inv_def)
  ultimately show ?thesis using inv_place [OF inv] tlist.disjoint [OF rep] by blast
qed

theorem no_thread_lost_witness:
  "\<exists>(ops :: (nat, nat) vm_ops) s A th. sched_reach ops s \<and> threads s 9 = Some th \<and> thread_place s A 9 th"
proof -
  obtain s :: "(nat, nat) sys" where s: "sched_reach \<lparr>vm_activate = (\<lambda>p v. Inr v), vm_lru = Inr, vm_shootdown = (\<lambda>m v. Inr v)\<rparr> s" "9 \<in> dom (threads s)"
    using two_cpus by blast
  then obtain th where "threads s 9 = Some th" by blast
  with no_thread_lost [OF s(1)] s(1) show ?thesis by blast
qed

end
