(* ===== verification/Semaphore.thy ===== *)
theory Semaphore
  imports Threadlist
begin

text \<open>
  Semaphores and wait channels (\<^verbatim>\<open>kern/thread/synch.c\<close>, \<^verbatim>\<open>kern/thread/thread.c\<close>) shared by any number of
  threads on any number of processors. The spinlock of the semaphore makes the code between two of its
  operations atomic, so the calls are cut there; the steps of all threads interleave freely. Sleeping
  threads are in the list of the wait channel, whose operations are those of \<open>Threadlist\<close>. A thread may call with
  other spinlocks held; a call from an interrupt handler is that of a thread of its own, which is in an interrupt.
\<close>

section \<open>Operations\<close>

text \<open>Where a thread is: outside of any call, waiting for the spinlock at the start of \<^verbatim>\<open>P\<close> or after having been
  woken, in the loop of \<^verbatim>\<open>P\<close> with the lock (for the first time or again), asleep, or in \<^verbatim>\<open>V\<close>.\<close>

datatype sem_pc = Outside | PEnter | PLoop bool | Asleep | Woken | VEnter | VBody

text \<open>\<open>sem_intr\<close> is \<^verbatim>\<open>t_in_interrupt\<close> of each thread, \<open>sem_others\<close> the number of spinlocks that its CPU holds for it besides
  that of the semaphore. The counters \<open>sem_downs\<close> and \<open>sem_ups\<close> of completed calls are not part of the code.\<close>

record sem_state =
  sem_count :: u32
  sem_lock :: "nat option"
  sem_wchan :: tl_store
  sem_pc :: "nat \<Rightarrow> sem_pc"
  sem_intr :: "nat \<Rightarrow> bool"
  sem_others :: "nat \<Rightarrow> nat"
  sem_downs :: nat
  sem_ups :: nat

abbreviation (input) WC_THREADS :: nat where "WC_THREADS \<equiv> 0"

definition wchan_create :: "tl_store \<Rightarrow> tl_store" where
  "wchan_create w = threadlist_init WC_THREADS w"

definition sem_create :: "u32 \<Rightarrow> tl_store \<Rightarrow> sem_state" where
  "sem_create initial_count w =
     \<lparr>sem_count = initial_count, sem_lock = None, sem_wchan = wchan_create w, sem_pc = \<lambda>_. Outside,
      sem_intr = \<lambda>_. False, sem_others = \<lambda>_. 0, sem_downs = 0, sem_ups = 0\<rparr>"

definition wchan_destroy :: "tl_store \<Rightarrow> unit kres" where
  "wchan_destroy w = threadlist_cleanup WC_THREADS w"

definition sem_destroy :: "sem_state \<Rightarrow> unit kres" where
  "sem_destroy s =
     kassert (sem_lock s = None) ''splk->splk_holder == NULL'' (wchan_destroy (sem_wchan s))"

text \<open>Up to the point where the thread is on the list and the spinlock is released; it takes the spinlock again
  after it has been woken.\<close>

definition wchan_sleep :: "nat \<Rightarrow> sem_state \<Rightarrow> sem_state kres" where
  "wchan_sleep t s =
     kassert (\<not> sem_intr s t) ''!curthread->t_in_interrupt'' (
     kassert (sem_lock s = Some t) ''spinlock_do_i_hold(lk)'' (
     kassert (sem_others s t + 1 = 1) ''curcpu->c_spinlocks == 1'' (
     sbind (threadlist_addtail WC_THREADS t (sem_wchan s)) (\<lambda>w.
     Inr (s\<lparr>sem_wchan := w, sem_lock := None, sem_pc := (sem_pc s)(t := Asleep)\<rparr>)))))"

definition wchan_wakeone :: "nat \<Rightarrow> sem_state \<Rightarrow> sem_state kres" where
  "wchan_wakeone t s =
     kassert (sem_lock s = Some t) ''spinlock_do_i_hold(lk)'' (
     sbind (threadlist_remhead WC_THREADS (sem_wchan s)) (\<lambda>(target, w).
     let s = s\<lparr>sem_wchan := w\<rparr>
     in case target of
          None \<Rightarrow> Inr s
        | Some u \<Rightarrow> Inr (s\<lparr>sem_pc := (sem_pc s)(u := Woken)\<rparr>)))"

definition wchan_isempty :: "nat \<Rightarrow> sem_state \<Rightarrow> bool kres" where
  "wchan_isempty t s =
     kassert (sem_lock s = Some t) ''spinlock_do_i_hold(lk)'' (Inr (threadlist_isempty WC_THREADS (sem_wchan s)))"

text \<open>The start of \<^verbatim>\<open>P\<close>, up to the acquisition of the spinlock.\<close>

definition P_start :: "nat \<Rightarrow> sem_state \<Rightarrow> sem_state kres" where
  "P_start t s =
     kassert (\<not> sem_intr s t) ''curthread->t_in_interrupt == false'' (Inr (s\<lparr>sem_pc := (sem_pc s)(t := PEnter)\<rparr>))"

text \<open>From the test of the loop in \<^verbatim>\<open>P\<close>, with the spinlock, to the next release of the spinlock.\<close>

definition P_loop :: "nat \<Rightarrow> sem_state \<Rightarrow> sem_state kres" where
  "P_loop t s =
     (if sem_count s = 0 then wchan_sleep t s
      else kassert (sem_count s > 0) ''sem->sem_count > 0'' (
        Inr (s\<lparr>sem_count := sem_count s - 1, sem_lock := None, sem_pc := (sem_pc s)(t := Outside),
               sem_downs := sem_downs s + 1\<rparr>)))"

text \<open>The body of \<^verbatim>\<open>V\<close>, with the spinlock.\<close>

definition V_body :: "nat \<Rightarrow> sem_state \<Rightarrow> sem_state kres" where
  "V_body t s =
     (let s = s\<lparr>sem_count := sem_count s + 1\<rparr>
      in kassert (sem_count s > 0) ''sem->sem_count > 0'' (
         sbind (wchan_wakeone t s) (\<lambda>s.
         Inr (s\<lparr>sem_lock := None, sem_pc := (sem_pc s)(t := Outside), sem_ups := sem_ups s + 1\<rparr>))))"

text \<open>Outside of the calls a thread may take and release other spinlocks and enter and leave interrupts.\<close>

inductive sem_step :: "sem_state \<Rightarrow> sem_state \<Rightarrow> bool" where
  elsewhere: "sem_pc s t = Outside \<Longrightarrow>
    sem_step s (s\<lparr>sem_intr := (sem_intr s)(t := b), sem_others := (sem_others s)(t := n)\<rparr>)"
| call_P: "sem_pc s t = Outside \<Longrightarrow> P_start t s = Inr s' \<Longrightarrow> sem_step s s'"
| call_V: "sem_pc s t = Outside \<Longrightarrow> sem_step s (s\<lparr>sem_pc := (sem_pc s)(t := VEnter)\<rparr>)"
| enter_P: "sem_pc s t = PEnter \<Longrightarrow> sem_lock s = None \<Longrightarrow>
    sem_step s (s\<lparr>sem_lock := Some t, sem_pc := (sem_pc s)(t := PLoop False)\<rparr>)"
| again_P: "sem_pc s t = Woken \<Longrightarrow> sem_lock s = None \<Longrightarrow>
    sem_step s (s\<lparr>sem_lock := Some t, sem_pc := (sem_pc s)(t := PLoop True)\<rparr>)"
| loop_P: "sem_pc s t = PLoop again \<Longrightarrow> P_loop t s = Inr s' \<Longrightarrow> sem_step s s'"
| enter_V: "sem_pc s t = VEnter \<Longrightarrow> sem_lock s = None \<Longrightarrow>
    sem_step s (s\<lparr>sem_lock := Some t, sem_pc := (sem_pc s)(t := VBody)\<rparr>)"
| body_V: "sem_pc s t = VBody \<Longrightarrow> V_body t s = Inr s' \<Longrightarrow> sem_step s s'"

section \<open>The invariant\<close>

text \<open>The threads that have been woken and have not yet got past the loop or gone back to sleep.\<close>

definition pending :: "sem_state \<Rightarrow> nat set" where
  "pending s = {t. sem_pc s t = Woken \<or> sem_pc s t = PLoop True}"

definition in_lock :: "sem_pc \<Rightarrow> bool" where
  "in_lock pc \<longleftrightarrow> (case pc of PLoop _ \<Rightarrow> True | VBody \<Rightarrow> True | _ \<Rightarrow> False)"

definition in_P :: "sem_pc \<Rightarrow> bool" where
  "in_P pc \<longleftrightarrow> (case pc of PEnter \<Rightarrow> True | PLoop _ \<Rightarrow> True | Asleep \<Rightarrow> True | Woken \<Rightarrow> True | _ \<Rightarrow> False)"

definition sem_queue :: "sem_state \<Rightarrow> nat list \<Rightarrow> bool" where
  "sem_queue s q \<longleftrightarrow> tl_rep (sem_wchan s) UNIV [WC_THREADS \<mapsto> q] \<and> set q = {t. sem_pc s t = Asleep} \<and>
     (q \<noteq> [] \<longrightarrow> unat (sem_count s) \<le> card (pending s))"

definition sem_inv :: "u32 \<Rightarrow> sem_state \<Rightarrow> bool" where
  "sem_inv initial s \<longleftrightarrow> (\<exists>q. sem_queue s q) \<and> finite {t. sem_pc s t \<noteq> Outside} \<and>
     (\<forall>t. in_lock (sem_pc s t) \<longleftrightarrow> sem_lock s = Some t) \<and> (\<forall>t. in_P (sem_pc s t) \<longrightarrow> \<not> sem_intr s t) \<and>
     unat (sem_count s) + sem_downs s = unat initial + sem_ups s"

lemma ran_single: "ran [l \<mapsto> q] = {q}"
  by (auto simp: ran_def)

lemma finite_pending: "finite {t. sem_pc s t \<noteq> Outside} \<Longrightarrow> finite (pending s)"
  by (rule finite_subset [of _ "{t. sem_pc s t \<noteq> Outside}"]) (auto simp: pending_def)

lemma sem_inv_finite: "sem_inv i s \<Longrightarrow> finite {t. sem_pc s t \<noteq> Outside}"
  by (simp add: sem_inv_def)

lemma finite_pc_upd:
  assumes "finite {u. f u \<noteq> Outside}"
  shows "finite {u. (f(t := pc)) u \<noteq> Outside}"
  by (rule finite_subset [of _ "insert t {u. f u \<noteq> Outside}"]) (use assms in auto)

text \<open>A step that moves one thread and neither sleeps nor wakes.\<close>

lemma sem_inv_move:
  assumes inv: "sem_inv i s"
    and pc: "sem_pc s t \<noteq> Asleep" "pc \<noteq> Asleep" "(sem_pc s t = Woken \<or> sem_pc s t = PLoop True) = (pc = Woken \<or> pc = PLoop True)"
    and lock: "\<And>u. in_lock (((sem_pc s)(t := pc)) u) \<longleftrightarrow> lk = Some u" and intr: "in_P pc \<Longrightarrow> \<not> sem_intr s t"
  shows "sem_inv i (s\<lparr>sem_lock := lk, sem_pc := (sem_pc s)(t := pc)\<rparr>)"
proof -
  let ?s = "s\<lparr>sem_lock := lk, sem_pc := (sem_pc s)(t := pc)\<rparr>"
  have "pending ?s = pending s" unfolding pending_def by (rule Collect_cong) (simp add: pc(3))
  moreover have "{u. sem_pc ?s u = Asleep} = {u. sem_pc s u = Asleep}" by (rule Collect_cong) (simp add: pc(1,2))
  moreover have "finite {u. sem_pc ?s u \<noteq> Outside}"
    using finite_pc_upd [OF sem_inv_finite [OF inv]] by simp
  ultimately show ?thesis using inv lock intr by (simp add: sem_inv_def sem_queue_def)
qed

lemma sem_inv_intr: "sem_inv i s \<Longrightarrow> in_P (sem_pc s t) \<Longrightarrow> \<not> sem_intr s t"
  by (simp add: sem_inv_def)

lemma sem_inv_lock: "sem_inv i s \<Longrightarrow> in_lock (sem_pc s t) \<longleftrightarrow> sem_lock s = Some t"
  by (simp add: sem_inv_def)

text \<open>A thread that enters or leaves the spinlock.\<close>

lemma in_lock_upd:
  assumes "sem_inv i s" and "sem_lock s = None \<or> sem_lock s = Some t"
  shows "in_lock (((sem_pc s)(t := pc)) u) \<longleftrightarrow> (if in_lock pc then Some t else None) = Some u"
  using assms sem_inv_lock [OF assms(1), of u] by auto

lemma sleep_inv:
  assumes inv: "sem_inv i s" and t: "sem_pc s t = PLoop again" and c: "sem_count s = 0" and o: "sem_others s t = 0"
  shows "\<exists>s'. wchan_sleep t s = Inr s' \<and> sem_inv i s'"
proof -
  have lk: "sem_lock s = Some t" using sem_inv_lock [OF inv, of t] t by (simp add: in_lock_def)
  have intr: "\<not> sem_intr s t" using sem_inv_intr [OF inv, of t] t by (simp add: in_P_def)
  from inv obtain q where q: "tl_rep (sem_wchan s) UNIV [0 \<mapsto> q]" "set q = {t. sem_pc s t = Asleep}"
    by (auto simp: sem_inv_def sem_queue_def)
  have "t \<notin> set q" using q(2) t by simp
  then obtain w where w: "threadlist_addtail 0 t (sem_wchan s) = Inr w" "tl_rep w UNIV [0 \<mapsto> q @ [t]]"
    using tlist.addtail_snoc [OF q(1), of 0 q t] by (auto simp: ran_single)
  let ?s = "s\<lparr>sem_wchan := w, sem_lock := None, sem_pc := (sem_pc s)(t := Asleep)\<rparr>"
  have "set (q @ [t]) = {u. sem_pc ?s u = Asleep}" using q(2) by auto
  then have "sem_queue ?s (q @ [t])" using w(2) c by (simp add: sem_queue_def)
  moreover have "finite {u. sem_pc ?s u \<noteq> Outside}"
    using finite_pc_upd [OF sem_inv_finite [OF inv]] by simp
  ultimately have "sem_inv i ?s"
    using inv in_lock_upd [OF inv, of t Asleep] lk intr unfolding sem_inv_def by (auto simp: in_lock_def)
  then show ?thesis using w(1) lk intr o by (simp add: wchan_sleep_def)
qed

lemma take_inv:
  assumes inv: "sem_inv i s" and t: "sem_pc s t = PLoop again" and c: "sem_count s \<noteq> 0"
  shows "sem_inv i (s\<lparr>sem_count := sem_count s - 1, sem_lock := None, sem_pc := (sem_pc s)(t := Outside),
    sem_downs := sem_downs s + 1\<rparr>)" (is "sem_inv i ?s")
proof -
  have lk: "sem_lock s = Some t" using sem_inv_lock [OF inv, of t] t by (simp add: in_lock_def)
  have pos: "0 < unat (sem_count s)" using c by (simp add: unat_gt_0)
  then have cnt: "unat (sem_count ?s) = unat (sem_count s) - 1" by (simp add: unat_sub word_le_nat_alt)
  have fin: "finite (pending s)" using inv finite_pending by (simp add: sem_inv_def)
  have "pending s \<subseteq> insert t (pending ?s)" by (auto simp: pending_def)
  moreover have "pending ?s \<subseteq> pending s" by (auto simp: pending_def)
  ultimately have "card (pending s) \<le> Suc (card (pending ?s))"
    using fin card_mono [of "insert t (pending ?s)" "pending s"] card_insert_le_m1 card_insert_if [of "pending ?s" t]
    by (auto dest: finite_subset split: if_splits)
  moreover from inv obtain q where "sem_queue s q" by (auto simp: sem_inv_def)
  moreover have "{u. sem_pc ?s u = Asleep} = {u. sem_pc s u = Asleep}" using t by auto
  ultimately have "sem_queue ?s q" using cnt by (auto simp: sem_queue_def)
  moreover have "finite {u. sem_pc ?s u \<noteq> Outside}"
    using finite_pc_upd [OF sem_inv_finite [OF inv]] by simp
  ultimately show ?thesis
    using inv cnt pos in_lock_upd [OF inv, of t Outside] lk unfolding sem_inv_def by (auto simp: in_lock_def in_P_def)
qed

lemma unat_incr:
  assumes "(c :: u32) + 1 \<noteq> 0"
  shows "unat (c + 1) = unat c + 1"
proof (cases "unat c + 1 < 2 ^ 32")
  case True
  then show ?thesis by (subst unat_add_lem [THEN iffD1]) simp_all
next
  case False
  moreover have "unat c < 2 ^ 32" using unsigned_less [of c, where 'a = nat] by simp
  ultimately have "unat c + 1 = 2 ^ 32" by simp
  then have "unat (c + 1) = 0" by (simp add: unat_word_ariths)
  then show ?thesis using assms by (simp add: unat_eq_zero)
qed

lemma post_queue:
  assumes q: "sem_queue s q" and t: "sem_pc s t = VBody" and lk: "sem_lock s = Some t" and c: "sem_count s + 1 \<noteq> 0"
    and fin: "finite (pending s)"
  shows "\<exists>w f. V_body t s = Inr (s\<lparr>sem_count := sem_count s + 1, sem_lock := None, sem_wchan := w, sem_pc := f(t := Outside),
      sem_ups := sem_ups s + 1\<rparr>) \<and>
    (f = sem_pc s \<or> (\<exists>u. sem_pc s u = Asleep \<and> f = (sem_pc s)(u := Woken))) \<and>
    sem_queue (s\<lparr>sem_count := sem_count s + 1, sem_lock := None, sem_wchan := w, sem_pc := f(t := Outside),
      sem_ups := sem_ups s + 1\<rparr>) (tl q)"
proof -
  have rep: "tl_rep (sem_wchan s) UNIV [0 \<mapsto> q]" using q by (simp add: sem_queue_def)
  have up: "sem_count s + 1 > 0" using c by (simp add: word_gt_0)
  show ?thesis
  proof (cases q)
    case Nil
    then have "threadlist_remhead 0 (sem_wchan s) = Inr (None, sem_wchan s)" using tlist.remhead_Nil [OF rep] by simp
    then have "V_body t s = Inr (s\<lparr>sem_count := sem_count s + 1, sem_lock := None, sem_wchan := sem_wchan s,
        sem_pc := (sem_pc s)(t := Outside), sem_ups := sem_ups s + 1\<rparr>)"
      using lk up by (simp add: V_body_def wchan_wakeone_def)
    moreover have "{u. u \<noteq> t \<and> sem_pc s u = Asleep} = {u. sem_pc s u = Asleep}" using t by auto
    ultimately show ?thesis using q Nil by (intro exI [of _ "sem_wchan s"] exI [of _ "sem_pc s"]) (auto simp: sem_queue_def)
  next
    case (Cons u us)
    then obtain w where w: "threadlist_remhead 0 (sem_wchan s) = Inr (Some u, w)" "tl_rep w UNIV [0 \<mapsto> us]"
      using tlist.remhead_Cons [OF rep, of 0 u us] by auto
    have "u \<in> {v. sem_pc s v = Asleep}" using q Cons unfolding sem_queue_def by auto
    then have u: "sem_pc s u = Asleep" "u \<noteq> t" using t by auto
    let ?s = "s\<lparr>sem_count := sem_count s + 1, sem_lock := None, sem_wchan := w,
        sem_pc := (sem_pc s)(u := Woken, t := Outside), sem_ups := sem_ups s + 1\<rparr>"
    have "V_body t s = Inr ?s" using lk up w(1) by (simp add: V_body_def wchan_wakeone_def)
    moreover have "distinct q" using tlist.once [OF rep, of 0 q] by simp
    then have "set us = {v. sem_pc ?s v = Asleep}" using q t u Cons by (auto simp: sem_queue_def)
    moreover have "pending ?s = insert u (pending s)" "u \<notin> pending s" using t u by (auto simp: pending_def)
    then have "card (pending ?s) = Suc (card (pending s))" using fin by simp
    ultimately show ?thesis using q Cons w(2) unat_incr [OF c] u
      by (intro exI [of _ w] exI [of _ "(sem_pc s)(u := Woken)"]) (auto simp: sem_queue_def)
  qed
qed

lemma post_inv:
  assumes inv: "sem_inv i s" and t: "sem_pc s t = VBody" and c: "sem_count s + 1 \<noteq> 0"
  shows "\<exists>s'. V_body t s = Inr s' \<and> sem_inv i s'"
proof -
  have lk: "sem_lock s = Some t" using sem_inv_lock [OF inv, of t] t by (simp add: in_lock_def)
  have fin: "finite {u. sem_pc s u \<noteq> Outside}" using inv by (simp add: sem_inv_def)
  from inv obtain q where "sem_queue s q" by (auto simp: sem_inv_def)
  from post_queue [OF this t lk c finite_pending [OF fin]] obtain w f s' where
    s': "V_body t s = Inr s'" "s' = s\<lparr>sem_count := sem_count s + 1, sem_lock := None, sem_wchan := w, sem_pc := f(t := Outside),
      sem_ups := sem_ups s + 1\<rparr>"
    and f: "f = sem_pc s \<or> (\<exists>u. sem_pc s u = Asleep \<and> f = (sem_pc s)(u := Woken))" and q: "sem_queue s' (tl q)" by blast
  have f_out: "f u \<noteq> Outside \<Longrightarrow> sem_pc s u \<noteq> Outside" and f_lock: "in_lock (f u) = in_lock (sem_pc s u)" and f_P: "in_P (f u) = in_P (sem_pc s u)" for u
    using f by (auto simp: in_lock_def in_P_def split: if_splits)
  have "\<not> sem_intr s' u" if "in_P (sem_pc s' u)" for u
    using that sem_inv_intr [OF inv, of u] f_P [of u] by (auto simp: s'(2) in_P_def split: if_splits)
  moreover
  have "in_lock (sem_pc s' u) \<longleftrightarrow> sem_lock s' = Some u" for u
    using in_lock_upd [OF inv, of t Outside u] lk f_lock [of u] by (auto simp: in_lock_def s'(2))
  moreover have "finite {u. sem_pc s' u \<noteq> Outside}"
    by (rule finite_subset [OF _ fin]) (use f_out in \<open>auto simp: s'(2)\<close>)
  moreover have "unat (sem_count s') + sem_downs s' = unat i + sem_ups s'"
    using inv unat_incr [OF c] by (simp add: sem_inv_def s'(2))
  ultimately show ?thesis using s'(1) q unfolding sem_inv_def by blast
qed

lemma in_lock_stay:
  assumes "sem_inv i s" and "\<not> in_lock (sem_pc s t)" and "\<not> in_lock pc"
  shows "in_lock (((sem_pc s)(t := pc)) u) \<longleftrightarrow> sem_lock s = Some u"
  using assms(2,3) sem_inv_lock [OF assms(1), of u] by (cases "u = t") auto

lemma sem_inv_call:
  assumes "sem_inv i s" and "sem_pc s t = Outside" and "pc = PEnter \<and> \<not> sem_intr s t \<or> pc = VEnter"
  shows "sem_inv i (s\<lparr>sem_pc := (sem_pc s)(t := pc)\<rparr>)"
proof -
  have "sem_inv i (s\<lparr>sem_lock := sem_lock s, sem_pc := (sem_pc s)(t := pc)\<rparr>)"
  proof (rule sem_inv_move [OF assms(1)])
    show "in_lock (((sem_pc s)(t := pc)) u) \<longleftrightarrow> sem_lock s = Some u" for u
      using in_lock_stay [OF assms(1), of t pc u] assms(2,3) by (auto simp: in_lock_def)
  qed (use assms(2,3) in \<open>auto simp: in_P_def\<close>)
  then show ?thesis by simp
qed

lemma sem_inv_enter:
  assumes "sem_inv i s" and "sem_lock s = None"
    and "(sem_pc s t, pc) \<in> {(PEnter, PLoop False), (Woken, PLoop True), (VEnter, VBody)}"
  shows "sem_inv i (s\<lparr>sem_lock := Some t, sem_pc := (sem_pc s)(t := pc)\<rparr>)"
proof (rule sem_inv_move [OF assms(1)])
  show "in_lock (((sem_pc s)(t := pc)) u) \<longleftrightarrow> Some t = Some u" for u
    using in_lock_upd [OF assms(1), of t pc u] assms(2,3) by (auto simp: in_lock_def)
qed (use assms(3) sem_inv_intr [OF assms(1), of t] in \<open>auto simp: in_P_def\<close>)

text \<open>A thread outside of the calls may change what else it holds.\<close>

lemma sem_inv_elsewhere:
  assumes "sem_inv i s" and "sem_pc s t = Outside"
  shows "sem_inv i (s\<lparr>sem_intr := (sem_intr s)(t := b), sem_others := (sem_others s)(t := n)\<rparr>)"
  using assms by (auto simp: sem_inv_def sem_queue_def pending_def in_P_def)

lemma sem_step_inv:
  assumes "sem_step s s'" and "sem_inv i s"
  shows "sem_inv i s'"
  using assms
proof (induction rule: sem_step.induct)
  case (call_P s t s')
  then have "\<not> sem_intr s t" "s' = s\<lparr>sem_pc := (sem_pc s)(t := PEnter)\<rparr>" by (auto simp: P_start_def kassert_def split: if_splits)
  then show ?case using sem_inv_call [of i s t PEnter] call_P by simp
next
  case (loop_P s t again s')
  show ?case
  proof (cases "sem_count s = 0")
    case True
    then have "sem_others s t = 0" using loop_P(2) by (auto simp: P_loop_def wchan_sleep_def kassert_def split: if_splits)
    then show ?thesis using sleep_inv [OF loop_P(3,1) True] loop_P(2) True by (auto simp: P_loop_def)
  next
    case False
    then show ?thesis using take_inv [OF loop_P(3,1) False] loop_P(2) by (auto simp: P_loop_def word_gt_0)
  qed
next
  case (body_V s t s')
  then have "sem_count s + 1 \<noteq> 0" by (auto simp: V_body_def Let_def word_gt_0)
  then show ?case using post_inv [of i s t] body_V by auto
qed (simp_all add: sem_inv_call sem_inv_enter sem_inv_elsewhere)

section \<open>Reachable states\<close>

lemma sem_create_inv:
  assumes "tl_rep w UNIV Map.empty"
  shows "sem_inv c (sem_create c w)"
proof -
  have "tl_rep (wchan_create w) UNIV [0 \<mapsto> []]"
    using threadlist_init_ok [OF assms, of 0] by (simp add: wchan_create_def)
  then have "sem_queue (sem_create c w) []" by (simp add: sem_queue_def sem_create_def)
  then show ?thesis by (auto simp: sem_inv_def sem_create_def in_lock_def)
qed

lemma sem_reach_inv:
  assumes "sem_step\<^sup>*\<^sup>* s s'" and "sem_inv i s"
  shows "sem_inv i s'"
  using assms by (induction rule: rtranclp_induct) (blast intro: sem_step_inv)+

text \<open>A store in which all threads have initialised nodes and no list exists yet.\<close>

definition wchan_store :: tl_store where
  "wchan_store = \<lparr>tln_next = Map.empty, tln_prev = Map.empty,
     tln_self = \<lambda>n. case n of LNode t \<Rightarrow> Some t | _ \<Rightarrow> None, tl_count = \<lambda>_. 0\<rparr>"

lemma wchan_store_rep: "tl_rep wchan_store UNIV Map.empty"
  by (simp add: tl_rep_def wchan_store_def)

text \<open>C10: Whatever the interleaving of the P and V calls of any number of threads, which may call with other spinlocks held
  and from interrupt handlers: the count of a semaphore is its initial value plus the completed V calls minus the
  completed P calls, so P calls never overtake. P fails its assertion when it is called in an interrupt, and only then
  fails before it has the spinlock of the semaphore. With it, P runs to the next release of the spinlock, except that
  a thread which holds another spinlock fails the assertion on \<^verbatim>\<open>c_spinlocks\<close> when the count is zero and it has to
  sleep. V runs to its end, except that it fails its assertion when the count wraps. And no wakeup is lost: while the
  count is positive and some thread sleeps on the channel, another thread has been woken and is on its way through
  the loop of P.\<close>
theorem semaphore_safe:
  assumes "tl_rep w UNIV Map.empty" and "sem_step\<^sup>*\<^sup>* (sem_create c w) s"
  shows "unat (sem_count s) + sem_downs s = unat c + sem_ups s \<and>
    (\<forall>t. P_start t s = (if sem_intr s t then Inl (AssertFail ''curthread->t_in_interrupt == false'')
       else Inr (s\<lparr>sem_pc := (sem_pc s)(t := PEnter)\<rparr>))) \<and>
    (\<forall>t again. sem_pc s t = PLoop again \<longrightarrow>
       (if sem_count s = 0 \<and> sem_others s t \<noteq> 0 then P_loop t s = Inl (AssertFail ''curcpu->c_spinlocks == 1'')
        else \<exists>s'. P_loop t s = Inr s')) \<and>
    (\<forall>t. sem_pc s t = VBody \<longrightarrow>
       (if sem_count s + 1 = 0 then V_body t s = Inl (AssertFail ''sem->sem_count > 0'') else \<exists>s'. V_body t s = Inr s')) \<and>
    (\<forall>t. sem_pc s t = Asleep \<longrightarrow> sem_count s > 0 \<longrightarrow> (\<exists>u. sem_pc s u = Woken \<or> sem_pc s u = PLoop True))"
proof -
  have inv: "sem_inv c s" by (rule sem_reach_inv [OF assms(2) sem_create_inv [OF assms(1)]])
  have "if sem_count s = 0 \<and> sem_others s t \<noteq> 0 then P_loop t s = Inl (AssertFail ''curcpu->c_spinlocks == 1'')
      else \<exists>s'. P_loop t s = Inr s'" if t: "sem_pc s t = PLoop again" for t again
  proof -
    have "\<not> sem_intr s t" "sem_lock s = Some t"
      using sem_inv_intr [OF inv, of t] sem_inv_lock [OF inv, of t] t by (simp_all add: in_P_def in_lock_def)
    then show ?thesis using sleep_inv [OF inv t]
      by (cases "sem_count s = 0") (auto simp: P_loop_def wchan_sleep_def word_gt_0)
  qed
  moreover have "\<exists>u. u \<in> pending s" if t: "sem_pc s t = Asleep" "sem_count s > 0" for t
  proof -
    from inv obtain q where "sem_queue s q" by (auto simp: sem_inv_def)
    moreover from this have "t \<in> set q" using t(1) by (simp add: sem_queue_def)
    moreover have "0 < unat (sem_count s)" using t(2) by (simp add: word_less_nat_alt)
    ultimately have "0 < card (pending s)" by (force simp: sem_queue_def)
    then show ?thesis using card_gt_0_iff [of "pending s"] by blast
  qed
  moreover have "if sem_count s + 1 = 0 then V_body t s = Inl (AssertFail ''sem->sem_count > 0'') else \<exists>s'. V_body t s = Inr s'"
    if "sem_pc s t = VBody" for t
    using post_inv [OF inv that] by (auto simp: V_body_def Let_def)
  moreover have "unat (sem_count s) + sem_downs s = unat c + sem_ups s" using inv by (simp add: sem_inv_def)
  moreover have "P_start t s = (if sem_intr s t then Inl (AssertFail ''curthread->t_in_interrupt == false'')
      else Inr (s\<lparr>sem_pc := (sem_pc s)(t := PEnter)\<rparr>))" for t
    by (simp add: P_start_def kassert_def)
  ultimately show ?thesis unfolding pending_def mem_Collect_eq by blast
qed

theorem semaphore_safe_witness:
  "\<exists>s s'. sem_step\<^sup>*\<^sup>* (sem_create 1 wchan_store) s \<and> sem_pc s 5 = PLoop False \<and> sem_others s 5 = 2 \<and> P_loop 5 s = Inr s'"
proof -
  let ?s0 = "sem_create 1 wchan_store"
  let ?sx = "?s0\<lparr>sem_intr := (sem_intr ?s0)(5 := False), sem_others := (sem_others ?s0)(5 := 2)\<rparr>"
  let ?s1 = "?sx\<lparr>sem_pc := (sem_pc ?sx)(5 := PEnter)\<rparr>"
  let ?s2 = "?s1\<lparr>sem_lock := Some 5, sem_pc := (sem_pc ?s1)(5 := PLoop False)\<rparr>"
  have "sem_step ?s0 ?sx" by (rule elsewhere) (simp add: sem_create_def)
  then have "sem_step\<^sup>*\<^sup>* ?s0 ?sx" by (rule r_into_rtranclp)
  moreover have "sem_step ?sx ?s1" by (rule call_P [of _ 5]) (simp_all add: sem_create_def P_start_def)
  moreover have "sem_step ?s1 ?s2" by (rule enter_P) (simp_all add: sem_create_def)
  ultimately have r: "sem_step\<^sup>*\<^sup>* ?s0 ?s2" by (meson rtranclp.rtrancl_into_rtrancl)
  have pc: "sem_pc ?s2 5 = PLoop False" "sem_count ?s2 \<noteq> 0" "sem_others ?s2 5 = 2" by (simp_all add: sem_create_def)
  from semaphore_safe [OF wchan_store_rep r] pc obtain s' where "P_loop 5 ?s2 = Inr s'" by metis
  with r pc show ?thesis by blast
qed

end
