(* ===== verification/Bitmap.thy ===== *)
theory Bitmap
  imports Kernel_Prelude
begin

text \<open>
  Bit maps (\<^verbatim>\<open>kern/lib/bitmap.c\<close>): a bit per object, eight to a byte, with the bits behind the end
  marked as used. The contract that the file system relies on, a finite set of numbers from which the
  lowest unused one is taken, is the locale \<open>bit_set\<close>.
\<close>

section \<open>Operations\<close>

abbreviation (input) BITS_PER_WORD :: nat where "BITS_PER_WORD \<equiv> 8"
abbreviation (input) WORD_ALLBITS :: u8 where "WORD_ALLBITS \<equiv> 0xff"

record bitmap =
  nbits :: u32
  bm_v :: "u8 list"

definition bm_words :: "u32 \<Rightarrow> nat" where
  "bm_words n = unat ((n + 8 - 1) div 8)"

text \<open>The two arguments say whether the two calls of \<^verbatim>\<open>kmalloc\<close> return a block.\<close>

definition bitmap_create :: "bool \<Rightarrow> bool \<Rightarrow> u32 \<Rightarrow> bitmap option kres" where
  "bitmap_create ok1 ok2 n =
     (let words = bm_words n
      in if \<not> ok1 then Inr None
         else if \<not> ok2 then Inr None
         else
           let b = \<lparr>nbits = n, bm_v = replicate words 0\<rparr>
           in if words > unat n div BITS_PER_WORD then
                let ix = words - 1; overbits = unat n - ix * BITS_PER_WORD
                in kassert (unat n div BITS_PER_WORD = words - 1) ''nbits / BITS_PER_WORD == words-1'' (
                   kassert (0 < overbits \<and> overbits < BITS_PER_WORD)
                     ''overbits > 0 && overbits < BITS_PER_WORD'' (
                   Inr (Some (b\<lparr>bm_v := (bm_v b)[ix :=
                     fold (\<lambda>j w. w OR push_bit j 1) [overbits..<BITS_PER_WORD] (bm_v b ! ix)]\<rparr>))))
              else Inr (Some b))"

definition bitmap_getdata :: "bitmap \<Rightarrow> u8 list" where
  "bitmap_getdata b = bm_v b"

definition bitmap_alloc :: "bitmap \<Rightarrow> (errno \<times> nat option \<times> bitmap) kres" where
  "bitmap_alloc b =
     (let maxix = bm_words (nbits b);
          ix = find_first (\<lambda>w. w \<noteq> WORD_ALLBITS) 0 (take maxix (bm_v b))
      in if ix = -1 then Inr (ENOSPC, None, b)
         else
           let w = bm_v b ! nat ix;
               offset = find_first (\<lambda>offset. w AND push_bit offset 1 = 0) 0 [0..<BITS_PER_WORD]
           in if offset = -1 then Inl (AssertFail ''0'')
              else
                let index = nat ix * BITS_PER_WORD + nat offset
                in kassert (index < unat (nbits b)) ''*index < b->nbits'' (
                   Inr (0, Some index,
                     b\<lparr>bm_v := (bm_v b)[nat ix := w OR push_bit (nat offset) 1]\<rparr>)))"

definition bitmap_translate :: "nat \<Rightarrow> nat \<times> u8" where
  "bitmap_translate bitno =
     (let ix = bitno div BITS_PER_WORD; offset = bitno mod BITS_PER_WORD in (ix, push_bit offset 1))"

abbreviation (input) BM_INDEX :: kfail where "BM_INDEX \<equiv> Undefined ''bitmap index''"

definition bitmap_mark :: "nat \<Rightarrow> bitmap \<Rightarrow> bitmap kres" where
  "bitmap_mark index b =
     kassert (index < unat (nbits b)) ''index < b->nbits'' (
     let (ix, mask) = bitmap_translate index
     in if ix \<ge> length (bm_v b) then Inl BM_INDEX
        else
          kassert (bm_v b ! ix AND mask = 0) ''(b->v[ix] & mask)==0'' (
          Inr (b\<lparr>bm_v := (bm_v b)[ix := bm_v b ! ix OR mask]\<rparr>)))"

definition bitmap_unmark :: "nat \<Rightarrow> bitmap \<Rightarrow> bitmap kres" where
  "bitmap_unmark index b =
     kassert (index < unat (nbits b)) ''index < b->nbits'' (
     let (ix, mask) = bitmap_translate index
     in if ix \<ge> length (bm_v b) then Inl BM_INDEX
        else
          kassert (bm_v b ! ix AND mask \<noteq> 0) ''(b->v[ix] & mask)!=0'' (
          Inr (b\<lparr>bm_v := (bm_v b)[ix := bm_v b ! ix AND NOT mask]\<rparr>)))"

definition bitmap_isset :: "bitmap \<Rightarrow> nat \<Rightarrow> u8 kres" where
  "bitmap_isset b index =
     (let (ix, mask) = bitmap_translate index
      in if ix \<ge> length (bm_v b) then Inl BM_INDEX else Inr (bm_v b ! ix AND mask))"

section \<open>The contract of a set of numbers\<close>

text \<open>Taking \<open>n\<close> numbers in a row, until one is refused.\<close>

fun alloc_run :: "('b \<Rightarrow> (errno \<times> nat option \<times> 'b) kres) \<Rightarrow> nat \<Rightarrow> 'b \<Rightarrow> (nat list \<times> 'b) kres" where
  "alloc_run alloc 0 b = Inr ([], b)"
| "alloc_run alloc (Suc n) b =
     sbind (alloc b) (\<lambda>(err, i, b).
     case i of
       None \<Rightarrow> Inr ([], b)
     | Some i \<Rightarrow> sbind (alloc_run alloc n b) (\<lambda>(is, b). Inr (i # is, b)))"

locale bit_set =
  fixes alloc :: "'b \<Rightarrow> (errno \<times> nat option \<times> 'b) kres"
    and mark :: "nat \<Rightarrow> 'b \<Rightarrow> 'b kres"
    and unmark :: "nat \<Rightarrow> 'b \<Rightarrow> 'b kres"
    and isset :: "'b \<Rightarrow> nat \<Rightarrow> u8 kres"
    and inv :: "'b \<Rightarrow> bool"
    and size :: "'b \<Rightarrow> nat"
    and elems :: "'b \<Rightarrow> nat set"
  assumes elems_sub: "inv b \<Longrightarrow> elems b \<subseteq> {..<size b}"
    and alloc_full: "inv b \<Longrightarrow> elems b = {..<size b} \<Longrightarrow> alloc b = Inr (ENOSPC, None, b)"
    and alloc_least: "inv b \<Longrightarrow> elems b \<noteq> {..<size b} \<Longrightarrow>
      \<exists>i b'. alloc b = Inr (0, Some i, b') \<and> i < size b \<and> i \<notin> elems b \<and> {..<i} \<subseteq> elems b \<and> inv b' \<and>
        size b' = size b \<and> elems b' = insert i (elems b)"
    and mark_new: "inv b \<Longrightarrow> i < size b \<Longrightarrow> i \<notin> elems b \<Longrightarrow>
      \<exists>b'. mark i b = Inr b' \<and> inv b' \<and> size b' = size b \<and> elems b' = insert i (elems b)"
    and unmark_old: "inv b \<Longrightarrow> i \<in> elems b \<Longrightarrow>
      \<exists>b'. unmark i b = Inr b' \<and> inv b' \<and> size b' = size b \<and> elems b' = elems b - {i}"
    and isset_elem: "inv b \<Longrightarrow> i < size b \<Longrightarrow> \<exists>r. isset b i = Inr r \<and> (r \<noteq> 0 \<longleftrightarrow> i \<in> elems b)"
begin

lemma finite_elems: "inv b \<Longrightarrow> finite (elems b)"
  using elems_sub finite_subset by blast

text \<open>Numbers taken in a row are distinct, fresh, in ascending order, and as many as there are.\<close>

lemma alloc_run_fresh:
  assumes "inv b"
  shows "\<exists>is b'. alloc_run alloc n b = Inr (is, b') \<and> inv b' \<and> size b' = size b \<and> distinct is \<and>
    set is \<inter> elems b = {} \<and> elems b' = elems b \<union> set is \<and>
    length is = min n (size b - card (elems b))"
  using assms
proof (induction n arbitrary: b)
  case 0
  then show ?case by simp
next
  case (Suc n)
  show ?case
  proof (cases "elems b = {..<size b}")
    case True
    then show ?thesis using alloc_full [OF Suc.prems] Suc.prems by simp
  next
    case False
    from alloc_least [OF Suc.prems this] obtain i b1 where b1: "alloc b = Inr (0, Some i, b1)" "i < size b"
      "i \<notin> elems b" "inv b1" "size b1 = size b" "elems b1 = insert i (elems b)" by blast
    from Suc.IH [OF b1(4)] obtain "is" b2 where b2: "alloc_run alloc n b1 = Inr (is, b2)" "inv b2"
      "size b2 = size b1" "distinct is" "set is \<inter> elems b1 = {}" "elems b2 = elems b1 \<union> set is"
      "length is = min n (size b1 - card (elems b1))" by blast
    have "card (elems b1) = Suc (card (elems b))" using b1 finite_elems [OF Suc.prems] by simp
    moreover have "card (elems b) < size b"
      using False elems_sub [OF Suc.prems] psubset_card_mono [of "{..<size b}" "elems b"] by auto
    ultimately show ?thesis using b1 b2 by auto
  qed
qed

lemma mark_unmark:
  assumes "inv b" and "i < size b" and "i \<notin> elems b"
  shows "\<exists>b1 b2. mark i b = Inr b1 \<and> unmark i b1 = Inr b2 \<and> inv b2 \<and> elems b2 = elems b"
proof -
  from mark_new [OF assms] obtain b1 where "mark i b = Inr b1" "inv b1" "elems b1 = insert i (elems b)" by blast
  moreover from this obtain b2 where "unmark i b1 = Inr b2" "inv b2" "elems b2 = elems b1 - {i}"
    using unmark_old [of b1 i] by auto
  ultimately show ?thesis using assms(3) by auto
qed

end

section \<open>The bit map implements the contract\<close>

definition bm_bit :: "bitmap \<Rightarrow> nat \<Rightarrow> bool" where
  "bm_bit b i = bit (bm_v b ! (i div 8)) (i mod 8)"

definition bm_set :: "bitmap \<Rightarrow> nat set" where
  "bm_set b = {i. i < unat (nbits b) \<and> bm_bit b i}"

abbreviation (input) bm_size :: "bitmap \<Rightarrow> nat" where "bm_size b \<equiv> unat (nbits b)"

text \<open>The array covers all the bits, and the bits of the last byte behind the end are marked.\<close>

definition bitmap_inv :: "bitmap \<Rightarrow> bool" where
  "bitmap_inv b \<longleftrightarrow> bm_size b + 7 < 2 ^ 32 \<and> length (bm_v b) = (bm_size b + 7) div 8 \<and>
     (\<forall>i \<in> {bm_size b..<8 * length (bm_v b)}. bm_bit b i)"

lemma bm_words_eq: "unat n + 7 < 2 ^ 32 \<Longrightarrow> bm_words n = (unat n + 7) div 8"
proof -
  assume "unat n + 7 < 2 ^ 32"
  then have "unat (n + 7) = unat n + 7" by (subst unat_add_lem [THEN iffD1]) simp_all
  moreover have "n + 8 - 1 = n + 7" by simp
  ultimately show ?thesis unfolding bm_words_def by (simp only: unat_div) simp
qed

lemma and_bit_zero [simp]: "(w :: u8) AND 2 ^ k = 0 \<longleftrightarrow> \<not> bit w k"
  by (simp add: and_exp_eq_0_iff_not_bit)

lemma byte_allbits: "(w :: u8) = 0xff \<longleftrightarrow> (\<forall>k < 8. bit w k)"
proof -
  have "(0xff :: u8) = mask 8" by (simp add: mask_eq_exp_minus_1)
  then show ?thesis by (auto simp: bit_eq_iff bit_mask_iff dest: bit_imp_le_length)
qed

lemma bit_single: "bit (2 ^ m :: u8) k \<longleftrightarrow> k = m \<and> k < 8"
  by (auto simp: bit_exp_iff dest: bit_imp_le_length)

lemma div_mod_8_eq: "(i :: nat) div 8 = j div 8 \<Longrightarrow> i mod 8 = j mod 8 \<Longrightarrow> i = j"
  by (metis div_mult_mod_eq)

lemma bm_bit_mark:
  assumes "i div 8 < length (bm_v b)"
  shows "bm_bit (b\<lparr>bm_v := (bm_v b)[i div 8 := bm_v b ! (i div 8) OR push_bit (i mod 8) 1]\<rparr>) j
    \<longleftrightarrow> j = i \<or> bm_bit b j"
  using assms div_mod_8_eq [of j i]
  by (cases "j div 8 = i div 8") (auto simp: bm_bit_def bit_or_iff bit_single)

lemma bm_bit_unmark:
  assumes "i div 8 < length (bm_v b)"
  shows "bm_bit (b\<lparr>bm_v := (bm_v b)[i div 8 := bm_v b ! (i div 8) AND NOT (push_bit (i mod 8) 1)]\<rparr>) j
    \<longleftrightarrow> j \<noteq> i \<and> bm_bit b j"
  using assms div_mod_8_eq [of j i]
  by (cases "j div 8 = i div 8") (auto simp: bm_bit_def bit_and_iff bit_not_iff bit_single)

lemma bm_byte: "bitmap_inv b \<Longrightarrow> i < bm_size b \<Longrightarrow> i div 8 < length (bm_v b)"
  by (simp add: bitmap_inv_def)

lemma bm_set_eq_all: "bm_set b = {..<bm_size b} \<longleftrightarrow> (\<forall>i < bm_size b. bm_bit b i)"
  by (auto simp: bm_set_def)

lemma bm_bytes_full:
  assumes "bitmap_inv b" and "i < length (bm_v b)" and "\<forall>j < bm_size b. bm_bit b j"
  shows "bm_v b ! i = 0xff"
proof -
  have "bit (bm_v b ! i) k" if "k < 8" for k
  proof -
    have "bm_bit b (8 * i + k)"
      using assms that by (cases "8 * i + k < bm_size b") (auto simp: bitmap_inv_def)
    then show ?thesis using that by (simp add: bm_bit_def)
  qed
  then show ?thesis by (simp add: byte_allbits)
qed

lemma bitmap_alloc_full:
  assumes "bitmap_inv b" and "bm_set b = {..<bm_size b}"
  shows "bitmap_alloc b = Inr (ENOSPC, None, b)"
proof -
  have "find_first (\<lambda>w. w \<noteq> 0xff) 0 (take (bm_words (nbits b)) (bm_v b)) = -1"
    using assms bm_bytes_full [OF assms(1)]
    by (auto simp: find_first_none bm_set_eq_all in_set_conv_nth)
  then show ?thesis by (simp add: bitmap_alloc_def)
qed

lemma bitmap_alloc_ix:
  assumes inv: "bitmap_inv b" and i: "i < bm_size b" "\<not> bm_bit b i" and least: "\<forall>j < i. bm_bit b j"
  shows "find_first (\<lambda>w. w \<noteq> 0xff) 0 (take (bm_words (nbits b)) (bm_v b)) = int (i div 8)"
proof -
  have len: "bm_words (nbits b) = length (bm_v b)" using inv by (simp add: bitmap_inv_def bm_words_eq)
  have "bm_v b ! (i div 8) \<noteq> 0xff" using i byte_allbits [of "bm_v b ! (i div 8)"] by (auto simp: bm_bit_def)
  moreover have "bm_v b ! j = 0xff" if j: "j < i div 8" for j
  proof -
    have "bit (bm_v b ! j) k" if "k < 8" for k
      using least [rule_format, of "8 * j + k"] that j by (simp add: bm_bit_def)
    then show ?thesis by (simp add: byte_allbits)
  qed
  ultimately show ?thesis using len bm_byte [OF inv i(1)]
    by (subst find_first_unique [of "i div 8"]) auto
qed

lemma bitmap_alloc_offset:
  assumes "\<not> bm_bit b i" and "\<forall>j < i. bm_bit b j"
  shows "find_first (\<lambda>k. bm_v b ! (i div 8) AND push_bit k 1 = 0) 0 [0..<8] = int (i mod 8)"
proof -
  have "bit (bm_v b ! (i div 8)) k" if "k < i mod 8" for k
  proof -
    have "8 * (i div 8) + k < i" using that mult_div_mod_eq [of 8 i] by linarith
    then have "bm_bit b (8 * (i div 8) + k)" using assms(2) by blast
    then show ?thesis using that by (simp add: bm_bit_def)
  qed
  then show ?thesis using assms(1)
    by (subst find_first_unique [of "i mod 8"]) (auto simp: bm_bit_def simp del: upt_rec_numeral)
qed

text \<open>Marking and unmarking one bit keeps the invariant.\<close>

lemma bitmap_inv_update:
  assumes "bitmap_inv b" and "nbits b' = nbits b" and "length (bm_v b') = length (bm_v b)"
    and "\<And>j. bm_size b \<le> j \<Longrightarrow> bm_bit b j \<Longrightarrow> bm_bit b' j"
  shows "bitmap_inv b'"
  using assms by (simp add: bitmap_inv_def)

lemma bitmap_alloc_least:
  assumes inv: "bitmap_inv b" and free: "bm_set b \<noteq> {..<bm_size b}"
  shows "\<exists>i b'. bitmap_alloc b = Inr (0, Some i, b') \<and> i < bm_size b \<and> i \<notin> bm_set b \<and> {..<i} \<subseteq> bm_set b \<and>
    bitmap_inv b' \<and> bm_size b' = bm_size b \<and> bm_set b' = insert i (bm_set b)"
proof -
  define i where "i = (LEAST i. i < bm_size b \<and> \<not> bm_bit b i)"
  have "\<exists>i. i < bm_size b \<and> \<not> bm_bit b i" using free by (auto simp: bm_set_eq_all)
  then have i: "i < bm_size b" "\<not> bm_bit b i" unfolding i_def by (rule LeastI2_ex, blast)+
  have least: "bm_bit b j" if "j < i" for j
    using not_less_Least [of j "\<lambda>i. i < bm_size b \<and> \<not> bm_bit b i"] that i(1) unfolding i_def by auto
  define b' where "b' = b\<lparr>bm_v := (bm_v b)[i div 8 := bm_v b ! (i div 8) OR push_bit (i mod 8) 1]\<rparr>"
  have bit': "bm_bit b' j \<longleftrightarrow> j = i \<or> bm_bit b j" for j
    unfolding b'_def by (rule bm_bit_mark [OF bm_byte [OF inv i(1)]])
  have "bitmap_inv b'" by (rule bitmap_inv_update [OF inv]) (simp_all add: bit', simp_all add: b'_def)
  moreover have "nbits b' = nbits b" by (simp add: b'_def)
  moreover from this have "bm_set b' = insert i (bm_set b)" using i by (auto simp: bm_set_def bit')
  moreover have "bitmap_alloc b = Inr (0, Some i, b')"
    using bitmap_alloc_ix [OF inv i] bitmap_alloc_offset [OF i(2)] least i(1)
    by (simp add: bitmap_alloc_def b'_def div_mult_mod_eq del: upt_rec_numeral)
  ultimately show ?thesis using i least by (auto simp: bm_set_def)
qed

lemma bitmap_mark_new:
  assumes inv: "bitmap_inv b" and i: "i < bm_size b" "i \<notin> bm_set b"
  shows "\<exists>b'. bitmap_mark i b = Inr b' \<and> bitmap_inv b' \<and> bm_size b' = bm_size b \<and> bm_set b' = insert i (bm_set b)"
proof -
  define b' where "b' = b\<lparr>bm_v := (bm_v b)[i div 8 := bm_v b ! (i div 8) OR push_bit (i mod 8) 1]\<rparr>"
  have bit': "bm_bit b' j \<longleftrightarrow> j = i \<or> bm_bit b j" for j
    unfolding b'_def by (rule bm_bit_mark [OF bm_byte [OF inv i(1)]])
  have "bitmap_inv b'" by (rule bitmap_inv_update [OF inv]) (simp_all add: bit', simp_all add: b'_def)
  moreover have "nbits b' = nbits b" by (simp add: b'_def)
  moreover from this have "bm_set b' = insert i (bm_set b)" using i by (auto simp: bm_set_def bit')
  moreover have "bitmap_mark i b = Inr b'"
    using i bm_byte [OF inv i(1)] by (simp add: bitmap_mark_def bitmap_translate_def b'_def bm_set_def bm_bit_def)
  ultimately show ?thesis by simp
qed

lemma bitmap_unmark_old:
  assumes inv: "bitmap_inv b" and "i \<in> bm_set b"
  shows "\<exists>b'. bitmap_unmark i b = Inr b' \<and> bitmap_inv b' \<and> bm_size b' = bm_size b \<and> bm_set b' = bm_set b - {i}"
proof -
  have i: "i < bm_size b" "bm_bit b i" using assms(2) by (simp_all add: bm_set_def)
  define b' where "b' = b\<lparr>bm_v := (bm_v b)[i div 8 := bm_v b ! (i div 8) AND NOT (push_bit (i mod 8) 1)]\<rparr>"
  have bit': "bm_bit b' j \<longleftrightarrow> j \<noteq> i \<and> bm_bit b j" for j
    unfolding b'_def by (rule bm_bit_unmark [OF bm_byte [OF inv i(1)]])
  have nb: "nbits b' = nbits b" by (simp add: b'_def)
  have "bitmap_inv b'"
    using i by (intro bitmap_inv_update [OF inv nb]) (auto simp: bit', simp_all add: b'_def)
  moreover have "bm_set b' = bm_set b - {i}" using i nb by (auto simp: bm_set_def bit')
  moreover have "bitmap_unmark i b = Inr b'"
    using i bm_byte [OF inv i(1)] by (simp add: bitmap_unmark_def bitmap_translate_def b'_def bm_bit_def)
  ultimately show ?thesis using nb by simp
qed

interpretation bm: bit_set bitmap_alloc bitmap_mark bitmap_unmark bitmap_isset bitmap_inv bm_size bm_set
proof (unfold_locales, goal_cases)
  case (1 b)
  then show ?case by (auto simp: bm_set_def)
next
  case (2 b)
  then show ?case by (rule bitmap_alloc_full)
next
  case (3 b)
  then show ?case by (rule bitmap_alloc_least)
next
  case (4 b i)
  then show ?case by (rule bitmap_mark_new)
next
  case (5 b i)
  then show ?case by (rule bitmap_unmark_old)
next
  case (6 b i)
  then show ?case using bm_byte [of b i]
    by (simp add: bitmap_isset_def bitmap_translate_def bm_set_def bm_bit_def)
qed

section \<open>A new bit map\<close>

lemma bit_fold_or: "bit (fold (\<lambda>j w. w OR 2 ^ j) js (w :: u8)) k \<longleftrightarrow> bit w k \<or> (k \<in> set js \<and> k < 8)"
  by (induction js arbitrary: w) (auto simp: bit_or_iff bit_single)

lemma div_round_up_8: "((m :: nat) + 7) div 8 = (if m mod 8 = 0 then m div 8 else Suc (m div 8))"
  by presburger

lemma bitmap_create_ok:
  assumes "unat n + 7 < 2 ^ 32"
  shows "\<exists>b. bitmap_create True True n = Inr (Some b) \<and> bitmap_inv b \<and> nbits b = n \<and> bm_set b = {}"
proof (cases "unat n mod 8 = 0")
  case True
  then have w: "bm_words n = unat n div 8" using assms by (simp add: bm_words_eq div_round_up_8)
  define b where "b = \<lparr>nbits = n, bm_v = replicate (unat n div 8) 0\<rparr>"
  have "bitmap_create True True n = Inr (Some b)" using w by (simp add: bitmap_create_def b_def)
  moreover have "bitmap_inv b" using assms True by (auto simp: bitmap_inv_def b_def)
  moreover have "bm_set b = {}" using True by (auto simp: b_def bm_set_def bm_bit_def)
  ultimately show ?thesis by (auto simp: b_def)
next
  case False
  let ?q = "unat n div 8" let ?r = "unat n mod 8"
  have w: "bm_words n = Suc ?q" using False assms by (simp add: bm_words_eq div_round_up_8)
  define b where "b = \<lparr>nbits = n, bm_v = (replicate (Suc ?q) 0)[?q := fold (\<lambda>j w. w OR 2 ^ j) [?r..<8] 0]\<rparr>"
  have r: "unat n - ?q * 8 = ?r" by (simp add: minus_div_mult_eq_mod)
  have "bitmap_create True True n = Inr (Some b)"
    using w r False by (simp add: bitmap_create_def b_def Let_def del: replicate_Suc)
  moreover have bits: "bm_bit b i \<longleftrightarrow> unat n \<le> i" if "i div 8 \<le> ?q" for i
  proof (cases "i div 8 = ?q")
    case True
    then have "unat n \<le> i \<longleftrightarrow> ?r \<le> i mod 8" using div_mult_mod_eq [of i 8] div_mult_mod_eq [of "unat n" 8] by linarith
    then show ?thesis using True
      by (simp add: bm_bit_def b_def bit_fold_or del: replicate_Suc)
  next
    case False
    with that have "i < unat n" by (meson div_le_mono le_less_trans not_le order.strict_iff_order)
    then show ?thesis using that False
      by (simp add: bm_bit_def b_def del: replicate_Suc)
  qed
  have len: "length (bm_v b) = Suc ?q" "nbits b = n" by (simp_all add: b_def del: replicate_Suc)
  have "bitmap_inv b" using assms w bm_words_eq [OF assms] bits by (auto simp: bitmap_inv_def len)
  moreover have "bm_set b = {}" using bits by (auto simp: bm_set_def len div_le_mono)
  ultimately show ?thesis using len by auto
qed

section \<open>Taking numbers from a bit map\<close>

definition bitmap_sample :: bitmap where
  "bitmap_sample = \<lparr>nbits = 10, bm_v = [0x05, 0xfc]\<rparr>"

lemma bitmap_sample_inv: "bitmap_inv bitmap_sample"
  by (auto simp: bitmap_inv_def bitmap_sample_def bm_bit_def bit_numeral_simps atLeastLessThan_nat_numeral)

text \<open>C25: Numbers taken one after the other from a bit map whose spare bits are marked are distinct, in range
  and were unused before; afterwards exactly they are marked in addition, and a request for \<open>k\<close> numbers is met in
  full as long as so many bits are clear: bitmap_alloc fails with ENOSPC only when the map is full, and none of its
  assertions can fail.\<close>
theorem bitmap_alloc_run_fresh:
  assumes "bitmap_inv b"
  shows "\<exists>is b'. alloc_run bitmap_alloc k b = Inr (is, b') \<and> bitmap_inv b' \<and> distinct is \<and>
    set is \<subseteq> {..<unat (nbits b)} - bm_set b \<and> bm_set b' = bm_set b \<union> set is \<and>
    length is = min k (unat (nbits b) - card (bm_set b))"
proof -
  from bm.alloc_run_fresh [OF assms, of k] obtain "is" b' where r: "alloc_run bitmap_alloc k b = Inr (is, b')"
    "bitmap_inv b'" "bm_size b' = bm_size b" "distinct is" "set is \<inter> bm_set b = {}" "bm_set b' = bm_set b \<union> set is"
    "length is = min k (bm_size b - card (bm_set b))" by blast
  then have "set is \<subseteq> {..<bm_size b}" using bm.elems_sub [OF r(2)] by auto
  with r show ?thesis by auto
qed

theorem bitmap_alloc_run_fresh_witness:
  "\<exists>is b'. alloc_run bitmap_alloc 3 bitmap_sample = Inr (is, b') \<and> distinct is \<and> set is \<inter> bm_set bitmap_sample = {}"
  using bitmap_alloc_run_fresh [OF bitmap_sample_inv, of 3] by blast

end
