(* ===== verification/Lhd.thy ===== *)
theory Lhd
  imports Uio
begin

text \<open>
  The driver of the disk (\<^verbatim>\<open>kern/dev/lamebus/lhd.c\<close>) and the contract of a block device that the file system
  relies on, the locale \<open>block_device\<close>. The buffers of the callers are lists of bytes: a uio is a buffer with a
  position in it. The drive is hardware: a function that, for a sector number, a direction, the contents of the
  buffer on the card and its own state, gives a status code, the new contents of the buffer and a new state.
\<close>

section \<open>Transfers from and to a buffer\<close>

text \<open>\<open>bu_err k\<close> is the error that copying at position \<open>k\<close> gives (0 for none), as for a buffer in user space.\<close>

record buf_uio =
  bu_data :: "u8 list"
  bu_err :: "nat \<Rightarrow> errno"
  bu_pos :: nat
  bu_offset :: nat
  bu_resid :: nat
  bu_rw :: uio_rw

definition buf_uiomove :: "u8 list \<Rightarrow> nat \<Rightarrow> buf_uio \<Rightarrow> errno \<times> u8 list \<times> buf_uio" where
  "buf_uiomove ptr n u =
     (let k = min n (bu_resid u); err = bu_err u (bu_pos u);
          u' = u\<lparr>bu_pos := bu_pos u + k, bu_offset := bu_offset u + k, bu_resid := bu_resid u - k\<rparr>
      in if k = 0 then (0, ptr, u)
         else if err \<noteq> 0 then (err, ptr, u)
         else if bu_rw u = UIO_READ then
           (0, ptr, u'\<lparr>bu_data := take (bu_pos u) (bu_data u) @ take k ptr @ drop (bu_pos u + k) (bu_data u)\<rparr>)
         else (0, take k (drop (bu_pos u) (bu_data u)) @ drop k ptr, u'))"

definition buf_kinit :: "u8 list \<Rightarrow> nat \<Rightarrow> uio_rw \<Rightarrow> buf_uio" where
  "buf_kinit kbuf pos rw =
     \<lparr>bu_data = kbuf, bu_err = (\<lambda>k. 0), bu_pos = 0, bu_offset = pos, bu_resid = length kbuf, bu_rw = rw\<rparr>"

section \<open>The driver\<close>

abbreviation (input) LHD_SECTSIZE :: nat where "LHD_SECTSIZE \<equiv> 512"
abbreviation (input) LHD_IDLE :: u32 where "LHD_IDLE \<equiv> 0"
abbreviation (input) LHD_WORKING :: u32 where "LHD_WORKING \<equiv> 1"
abbreviation (input) LHD_OK :: u32 where "LHD_OK \<equiv> 4"
abbreviation (input) LHD_INVSECT :: u32 where "LHD_INVSECT \<equiv> 12"
abbreviation (input) LHD_MEDIA :: u32 where "LHD_MEDIA \<equiv> 20"
abbreviation (input) LHD_ISWRITE :: u32 where "LHD_ISWRITE \<equiv> 2"
abbreviation (input) LHD_STATEMASK :: u32 where "LHD_STATEMASK \<equiv> 0x1d"


type_synonym 'h drive = "u32 \<Rightarrow> bool \<Rightarrow> u8 list \<Rightarrow> 'h \<Rightarrow> u32 \<times> u8 list \<times> 'h"

record 'h lhd_softc =
  lh_drive :: "'h drive"
  lh_card :: 'h
  lh_buf :: "u8 list"
  lh_sect :: u32
  lh_stat :: u32
  lh_result :: errno
  lh_clear :: nat
  lh_done :: nat
  d_blocks :: u32

text \<open>Writing a working state to the status register starts the operation, whose end the drive reports in the
  same register.\<close>

definition lhd_wreg_stat :: "u32 \<Rightarrow> 'h lhd_softc \<Rightarrow> 'h lhd_softc" where
  "lhd_wreg_stat val lh =
     (if val AND LHD_STATEMASK = LHD_WORKING then
        let (code, buf, card) = lh_drive lh (lh_sect lh) (val AND LHD_ISWRITE \<noteq> 0) (lh_buf lh) (lh_card lh)
        in lh\<lparr>lh_stat := code, lh_buf := buf, lh_card := card\<rparr>
      else lh\<lparr>lh_stat := val\<rparr>)"

definition lhd_code_to_errno :: "u32 \<Rightarrow> errno" where
  "lhd_code_to_errno code =
     (let s = code AND LHD_STATEMASK
      in if s = LHD_OK then 0 else if s = LHD_INVSECT then EINVAL else if s = LHD_MEDIA then EIO else EAGAIN)"

definition lhd_iodone :: "errno \<Rightarrow> 'h lhd_softc \<Rightarrow> 'h lhd_softc" where
  "lhd_iodone err lh = lh\<lparr>lh_result := err, lh_done := lh_done lh + 1\<rparr>"

definition lhd_irq :: "'h lhd_softc \<Rightarrow> 'h lhd_softc" where
  "lhd_irq lh =
     (let val = lh_stat lh; s = val AND LHD_STATEMASK
      in if s = LHD_IDLE \<or> s = LHD_WORKING then lh
         else if s = LHD_OK \<or> s = LHD_INVSECT \<or> s = LHD_MEDIA then
           lhd_iodone (lhd_code_to_errno val) (lhd_wreg_stat 0 lh)
         else lh)"

text \<open>Waiting on the two semaphores, with no other thread at work: on a count of zero the caller waits forever.\<close>

definition P_clear :: "'h lhd_softc \<Rightarrow> 'h lhd_softc kres" where
  "P_clear lh = (if lh_clear lh = 0 then Inl Spinning else Inr (lh\<lparr>lh_clear := lh_clear lh - 1\<rparr>))"

definition P_done :: "'h lhd_softc \<Rightarrow> 'h lhd_softc kres" where
  "P_done lh = (if lh_done lh = 0 then Inl Spinning else Inr (lh\<lparr>lh_done := lh_done lh - 1\<rparr>))"

definition V_clear :: "'h lhd_softc \<Rightarrow> 'h lhd_softc" where
  "V_clear lh = lh\<lparr>lh_clear := lh_clear lh + 1\<rparr>"

text \<open>One round of the loop of \<^verbatim>\<open>lhd_io\<close>; the interrupt comes when the operation has ended.\<close>

definition lhd_sector :: "u32 \<Rightarrow> u32 \<Rightarrow> buf_uio \<Rightarrow> 'h lhd_softc \<Rightarrow> (errno \<times> buf_uio \<times> 'h lhd_softc) kres" where
  "lhd_sector sector statval u lh =
     sbind (P_clear lh) (\<lambda>lh.
     let (result, buf, u) = (if bu_rw u = UIO_WRITE then buf_uiomove (lh_buf lh) LHD_SECTSIZE u else (0, lh_buf lh, u));
         lh = lh\<lparr>lh_buf := buf\<rparr>
     in if result \<noteq> 0 then Inr (result, u, V_clear lh)
        else
          sbind (P_done (lhd_irq (lhd_wreg_stat statval (lh\<lparr>lh_sect := sector\<rparr>)))) (\<lambda>lh.
          let result = lh_result lh;
              (result, u) = (if result = 0 \<and> bu_rw u = UIO_READ
                             then let (r, b, u) = buf_uiomove (lh_buf lh) LHD_SECTSIZE u in (r, u)
                             else (result, u))
          in Inr (result, u, V_clear lh)))"

fun lhd_loop :: "nat list \<Rightarrow> u32 \<Rightarrow> u32 \<Rightarrow> buf_uio \<Rightarrow> 'h lhd_softc \<Rightarrow> (errno \<times> buf_uio \<times> 'h lhd_softc) kres" where
  "lhd_loop [] sector statval u lh = Inr (0, u, lh)"
| "lhd_loop (i # is) sector statval u lh =
     sbind (lhd_sector (sector + of_nat i) statval u lh) (\<lambda>(result, u, lh).
     if result \<noteq> 0 then Inr (result, u, lh) else lhd_loop is sector statval u lh)"

definition lhd_io :: "buf_uio \<Rightarrow> 'h lhd_softc \<Rightarrow> (errno \<times> buf_uio \<times> 'h lhd_softc) kres" where
  "lhd_io u lh =
     (let sector = of_nat (bu_offset u div LHD_SECTSIZE); sectoff = bu_offset u mod LHD_SECTSIZE;
          len = bu_resid u div LHD_SECTSIZE; lenoff = bu_resid u mod LHD_SECTSIZE
      in if sectoff \<noteq> 0 \<or> lenoff \<noteq> 0 then Inr (EINVAL, u, lh)
         else if sector + of_nat len > d_blocks lh then Inr (EINVAL, u, lh)
         else
           let statval = (if bu_rw u = UIO_WRITE then LHD_WORKING OR LHD_ISWRITE else LHD_WORKING)
           in lhd_loop [0..<len] sector statval u lh)"

section \<open>Block devices\<close>

text \<open>
  What a file system may expect of a device in good order: a transfer of one block inside the device succeeds,
  moves the whole block, and changes no other block. \<open>medium\<close> is what the blocks hold.
\<close>

definition block_moved :: "buf_uio \<Rightarrow> u8 list \<Rightarrow> buf_uio" where
  "block_moved u blk =
     u\<lparr>bu_data := (if bu_rw u = UIO_READ then take (bu_pos u) (bu_data u) @ blk @ drop (bu_pos u + 512) (bu_data u)
                   else bu_data u),
       bu_pos := bu_pos u + 512, bu_offset := bu_offset u + 512, bu_resid := 0\<rparr>"

definition block_request :: "buf_uio \<Rightarrow> nat \<Rightarrow> uio_rw \<Rightarrow> bool" where
  "block_request u b rw \<longleftrightarrow> bu_offset u = 512 * b \<and> bu_resid u = 512 \<and> bu_pos u + 512 \<le> length (bu_data u) \<and>
     bu_rw u = rw \<and> bu_err u (bu_pos u) = 0"

locale block_device =
  fixes io :: "buf_uio \<Rightarrow> 'd \<Rightarrow> (errno \<times> buf_uio \<times> 'd) kres"
    and ok :: "'d \<Rightarrow> bool"
    and medium :: "'d \<Rightarrow> nat \<Rightarrow> u8 list"
    and nblocks :: "'d \<Rightarrow> nat"
  assumes medium_length: "ok d \<Longrightarrow> b < nblocks d \<Longrightarrow> length (medium d b) = 512"
    and io_read: "ok d \<Longrightarrow> b < nblocks d \<Longrightarrow> block_request u b UIO_READ \<Longrightarrow>
      \<exists>d'. io u d = Inr (0, block_moved u (medium d b), d') \<and> ok d' \<and> nblocks d' = nblocks d \<and> medium d' = medium d"
    and io_write: "ok d \<Longrightarrow> b < nblocks d \<Longrightarrow> block_request u b UIO_WRITE \<Longrightarrow>
      \<exists>d'. io u d = Inr (0, block_moved u [], d') \<and> ok d' \<and> nblocks d' = nblocks d \<and>
        medium d' = (medium d)(b := take 512 (drop (bu_pos u) (bu_data u)))"

section \<open>The disk is a block device\<close>

text \<open>A drive in good order whose sectors are \<open>sectors\<close>: it reports success, stores what is written, and returns
  what is stored.\<close>

definition drive_ok :: "'h drive \<Rightarrow> ('h \<Rightarrow> nat \<Rightarrow> u8 list) \<Rightarrow> nat \<Rightarrow> bool" where
  "drive_ok drive sectors n \<longleftrightarrow>
     (\<forall>s h buf. unat s < n \<longrightarrow> length buf = 512 \<longrightarrow>
       (\<exists>h'. drive s False buf h = (LHD_OK, sectors h (unat s), h') \<and> sectors h' = sectors h) \<and>
       (\<exists>h'. drive s True buf h = (LHD_OK OR LHD_ISWRITE, buf, h') \<and> sectors h' = (sectors h)(unat s := buf))) \<and>
     (\<forall>h b. b < n \<longrightarrow> length (sectors h b) = 512)"

definition lhd_ok :: "('h \<Rightarrow> nat \<Rightarrow> u8 list) \<Rightarrow> 'h lhd_softc \<Rightarrow> bool" where
  "lhd_ok sectors lh \<longleftrightarrow> drive_ok (lh_drive lh) sectors (unat (d_blocks lh)) \<and> lh_clear lh = 1 \<and> lh_done lh = 0 \<and>
     length (lh_buf lh) = 512"

definition lhd_medium :: "('h \<Rightarrow> nat \<Rightarrow> u8 list) \<Rightarrow> 'h lhd_softc \<Rightarrow> nat \<Rightarrow> u8 list" where
  "lhd_medium sectors lh = sectors (lh_card lh)"

lemmas lhd_defs = lhd_sector_def P_clear_def P_done_def V_clear_def lhd_irq_def lhd_iodone_def lhd_wreg_stat_def
  lhd_code_to_errno_def buf_uiomove_def block_moved_def

lemma drive_okD:
  assumes "drive_ok drive sectors n" and "unat s < n"
  shows drive_read: "length buf = 512 \<Longrightarrow> \<exists>h'. drive s False buf h = (LHD_OK, sectors h (unat s), h') \<and> sectors h' = sectors h"
    and drive_write: "length buf = 512 \<Longrightarrow>
      \<exists>h'. drive s True buf h = (LHD_OK OR LHD_ISWRITE, buf, h') \<and> sectors h' = (sectors h)(unat s := buf)"
    and drive_length: "length (sectors h (unat s)) = 512"
  using assms unfolding drive_ok_def by blast+

lemma lhd_sector_read:
  assumes ok: "lhd_ok sectors lh" and s: "unat s < unat (d_blocks lh)" and u: "block_request u b UIO_READ"
  shows "\<exists>lh'. lhd_sector s LHD_WORKING u lh = Inr (0, block_moved u (lhd_medium sectors lh (unat s)), lh') \<and>
    lhd_ok sectors lh' \<and> d_blocks lh' = d_blocks lh \<and> lhd_medium sectors lh' = lhd_medium sectors lh"
proof -
  from ok have d: "drive_ok (lh_drive lh) sectors (unat (d_blocks lh))" "lh_clear lh = 1" "lh_done lh = 0"
    "length (lh_buf lh) = 512" by (simp_all add: lhd_ok_def)
  from drive_read [OF d(1) s d(4)] obtain h' where
    "lh_drive lh s False (lh_buf lh) (lh_card lh) = (LHD_OK, sectors (lh_card lh) (unat s), h')" "sectors h' = sectors (lh_card lh)"
    by blast
  moreover have "length (sectors (lh_card lh) (unat s)) = 512" by (rule drive_length [OF d(1) s])
  ultimately show ?thesis using d u by (simp add: lhd_defs lhd_ok_def lhd_medium_def block_request_def)
qed

lemma lhd_sector_write:
  assumes ok: "lhd_ok sectors lh" and s: "unat s < unat (d_blocks lh)" and u: "block_request u b UIO_WRITE"
  shows "\<exists>lh'. lhd_sector s (LHD_WORKING OR LHD_ISWRITE) u lh = Inr (0, block_moved u [], lh') \<and>
    lhd_ok sectors lh' \<and> d_blocks lh' = d_blocks lh \<and>
    lhd_medium sectors lh' = (lhd_medium sectors lh)(unat s := take 512 (drop (bu_pos u) (bu_data u)))"
proof -
  let ?buf = "take 512 (drop (bu_pos u) (bu_data u))"
  from ok have d: "drive_ok (lh_drive lh) sectors (unat (d_blocks lh))" "lh_clear lh = 1" "lh_done lh = 0"
    "length (lh_buf lh) = 512" by (simp_all add: lhd_ok_def)
  have len: "length ?buf = 512" using u by (auto simp: block_request_def min_def)
  from drive_write [OF d(1) s len] obtain h' where
    "lh_drive lh s True ?buf (lh_card lh) = (LHD_OK OR LHD_ISWRITE, ?buf, h')" "sectors h' = (sectors (lh_card lh))(unat s := ?buf)"
    by blast
  then show ?thesis using d u len by (simp add: lhd_defs lhd_ok_def lhd_medium_def block_request_def)
qed

lemma lhd_io_block:
  assumes "block_request u b rw" and "b < unat (d_blocks lh)"
  shows "lhd_io u lh = lhd_loop [0] (of_nat b) (if rw = UIO_WRITE then LHD_WORKING OR LHD_ISWRITE else LHD_WORKING) u lh"
proof -
  have b: "unat (of_nat b + 1 :: u32) = b + 1" "unat (of_nat b :: u32) = b"
    using assms(2) unsigned_less [of "d_blocks lh", where 'a = nat]
    by (simp_all add: unat_of_nat unat_word_ariths)
  then have "\<not> (of_nat b + 1 :: u32) > d_blocks lh" using assms(2) by (simp add: word_less_nat_alt)
  then show ?thesis using assms(1) by (simp add: lhd_io_def block_request_def Let_def)
qed

interpretation disk: block_device lhd_io "lhd_ok sectors" "lhd_medium sectors" "\<lambda>lh. unat (d_blocks lh)" for sectors
proof (unfold_locales, goal_cases)
  case (1 d b)
  then show ?case by (simp add: lhd_ok_def lhd_medium_def drive_ok_def)
next
  case (2 d b u)
  then have "unat (of_nat b :: u32) = b" using unsigned_less [of "d_blocks d", where 'a = nat] by (simp add: unat_of_nat)
  then show ?case using lhd_sector_read [OF 2(1) _ 2(3), of "of_nat b"] lhd_io_block [OF 2(3,2)] 2(2) by auto
next
  case (3 d b u)
  then have "unat (of_nat b :: u32) = b" using unsigned_less [of "d_blocks d", where 'a = nat] by (simp add: unat_of_nat)
  then show ?case using lhd_sector_write [OF 3(1) _ 3(3), of "of_nat b"] lhd_io_block [OF 3(3,2)] 3(2) by auto
qed

section \<open>Buffers in memory\<close>

text \<open>The buffer of a uio with one block in the kernel, which starts \<open>bu_pos\<close> bytes behind \<open>base\<close>, and what a transfer
  does to it: \<^const>\<open>uiomove\<close> on the memory is \<^const>\<open>buf_uiomove\<close> on the contents.\<close>

definition mem_bytes :: "memory \<Rightarrow> u32 \<Rightarrow> nat \<Rightarrow> u8 list" where
  "mem_bytes m a n = map (\<lambda>i. bytes m (a + of_nat i)) [0..<n]"

definition buf_view :: "u32 \<Rightarrow> nat \<Rightarrow> uio \<Rightarrow> memory \<Rightarrow> buf_uio" where
  "buf_view base len u m = \<lparr>bu_data = mem_bytes m base len, bu_err = (\<lambda>k. 0),
     bu_pos = unat (iov_base (hd (uio_iov u)) - base), bu_offset = nat (uio_offset u), bu_resid = unat (uio_resid u), bu_rw = uio_rw u\<rparr>"

definition kernel_blocks :: "u32 \<Rightarrow> nat \<Rightarrow> u32 \<Rightarrow> nat \<Rightarrow> memory \<Rightarrow> bool" where
  "kernel_blocks base len ptr n m \<longleftrightarrow> unat base + len \<le> 2 ^ 32 \<and> unat ptr + n \<le> 2 ^ 32 \<and>
     (\<forall>i < len. rd_ok m (base + of_nat i) \<and> wr_ok m (base + of_nat i)) \<and>
     (\<forall>i < n. rd_ok m (ptr + of_nat i) \<and> wr_ok m (ptr + of_nat i)) \<and>
     (\<forall>i < n. \<forall>j < len. ptr + of_nat i \<noteq> base + of_nat j)"

lemma length_mem_bytes [simp]: "length (mem_bytes m a n) = n"
  by (simp add: mem_bytes_def)

lemma nth_mem_bytes [simp]: "i < n \<Longrightarrow> mem_bytes m a n ! i = bytes m (a + of_nat i)"
  by (simp add: mem_bytes_def)

lemma unat_of_nat_diff:
  assumes "i < 2 ^ 31" and "j < 2 ^ 31"
  shows "unat (of_nat i - of_nat j :: u32) = (if j \<le> i then i - j else i + 2 ^ 32 - j)"
proof -
  have "unat (of_nat i :: u32) = i" "unat (of_nat j :: u32) = j" using assms by (simp_all add: unat_of_nat)
  then show ?thesis by (simp add: unat_sub_if')
qed

lemma mem_bytes_move:
  assumes "pos + n \<le> len" and "len < 2 ^ 31"
  shows "mem_bytes (m\<lparr>bytes := move (base + of_nat pos) src n (bytes m)\<rparr>) base len =
    take pos (mem_bytes m base len) @ mem_bytes m src n @ drop (pos + n) (mem_bytes m base len)"
proof (rule nth_equalityI)
  fix i assume "i < length (mem_bytes (m\<lparr>bytes := move (base + of_nat pos) src n (bytes m)\<rparr>) base len)"
  then have i: "i < len" by simp
  have eq: "base + of_nat i - (base + of_nat pos) = of_nat i - of_nat pos" by simp
  have "unat (of_nat i - of_nat pos :: u32) = (if pos \<le> i then i - pos else i + 2 ^ 32 - pos)"
    using i assms by (intro unat_of_nat_diff) simp_all
  moreover have "(of_nat i - of_nat pos :: u32) = of_nat (i - pos)" if "pos \<le> i" using that by (simp add: of_nat_diff)
  ultimately show "mem_bytes (m\<lparr>bytes := move (base + of_nat pos) src n (bytes m)\<rparr>) base len ! i =
    (take pos (mem_bytes m base len) @ mem_bytes m src n @ drop (pos + n) (mem_bytes m base len)) ! i"
    using i assms by (auto simp: move_def eq nth_append)
qed (use assms in simp)

lemma mem_bytes_move_other:
  assumes "\<And>i. i < k \<Longrightarrow> \<not> unat (a + of_nat i - d) < n"
  shows "mem_bytes (m\<lparr>bytes := move d s n (bytes m)\<rparr>) a k = mem_bytes m a k"
  using assms by (simp add: mem_bytes_def move_def)

lemma apart:
  assumes "\<And>i j. i < n \<Longrightarrow> j < (len :: nat) \<Longrightarrow> ptr + of_nat i \<noteq> (base :: u32) + of_nat j" and "i < k" and "k \<le> len"
  shows "\<not> unat (base + of_nat i - ptr) < n"
proof
  assume "unat (base + of_nat i - ptr) < n"
  then have "ptr + of_nat (unat (base + of_nat i - ptr)) \<noteq> base + of_nat i" using assms(2,3) by (intro assms(1)) simp_all
  then show False by simp
qed

lemma uiomove_one_block:
  assumes "uio_iov u = [iov]" and "uio_segflg u = UIO_SYSSPACE" and "uio_space u = 0" and "0 < n" and "n \<le> iov_len iov" and "0 < uio_resid u"
    and "uio_copy ptr (iov_base iov) n u m = Inr (0, m')"
  shows "uiomove curas ptr n u m = Inr (0, u\<lparr>uio_iov := [iov\<lparr>iov_base := iov_base iov + n, iov_len := iov_len iov - n\<rparr>],
    uio_resid := uio_resid u - n, uio_offset := int64 (uio_offset u + uint n)\<rparr>, m')"
proof -
  have "n = (if iov_len iov > n then n else iov_len iov)" using assms(5) by auto
  from uiomove_loop_copy [OF assms(4,6,1) this] assms(4) have "uiomove_loop ptr n u m =
    uiomove_loop (ptr + n) 0 (u\<lparr>uio_iov := [iov\<lparr>iov_base := iov_base iov + n, iov_len := iov_len iov - n\<rparr>],
      uio_resid := uio_resid u - n, uio_offset := int64 (uio_offset u + uint n)\<rparr>) m'" using assms(7) by simp
  then show ?thesis using assms(2,3) by (simp add: uiomove_def uiomove_loop_done)
qed

text \<open>The transfer between a kernel block at \<open>ptr\<close> and a kernel uio, in both directions.\<close>

lemma uiomove_buffer:
  assumes u: "uio_iov u = [iov]" "iov_len iov = uio_resid u" "uio_segflg u = UIO_SYSSPACE" "uio_space u = 0"
    and n: "0 < n" "n \<le> uio_resid u" and off: "0 \<le> uio_offset u" "uio_offset u + uint n < 2 ^ 63"
    and pos: "iov_base iov = base + of_nat pos" "pos + unat n \<le> len" "len < 2 ^ 31"
    and mem: "kernel_blocks base len ptr (unat n) m"
  shows "\<exists>u' m'. uiomove curas ptr n u m = Inr (0, u', m') \<and>
    buf_uiomove (mem_bytes m ptr (unat n)) (unat n) (buf_view base len u m) = (0, mem_bytes m' ptr (unat n), buf_view base len u' m')"
proof -
  have up: "unat (of_nat pos :: u32) = pos" "unat (of_nat pos + n :: u32) = pos + unat n"
    using pos(2,3) by (simp_all add: unat_of_nat unat_word_ariths)
  have n': "unat n \<le> unat (uio_resid u)" "0 < unat n" using n by (simp_all add: word_le_nat_alt word_less_nat_alt)
  have resid: "unat (uio_resid u - n) = unat (uio_resid u) - unat n" "0 < uio_resid u" using n by (auto simp: unat_sub)
  have int64: "int64 (uio_offset u + uint n) = uio_offset u + uint n"
    unfolding int64_def by (rule signed_take_bit_int_eq_self) (use off unsigned_greater_eq [of n, where 'a = int] in linarith)+
  have off': "nat (uio_offset u + uint n) = nat (uio_offset u) + unat n" using off(1) by (simp add: nat_add_distrib)
  let ?ub = "base + of_nat pos"
  have part: "rd_ok m (?ub + of_nat i)" "wr_ok m (?ub + of_nat i)" if "i < unat n" for i
  proof -
    have "rd_ok m (base + of_nat (pos + i)) \<and> wr_ok m (base + of_nat (pos + i))" using mem that pos(2) unfolding kernel_blocks_def by (simp del: of_nat_add)
    then show "rd_ok m (?ub + of_nat i)" "wr_ok m (?ub + of_nat i)" by (simp_all add: add.assoc)
  qed
  then have blocks: "block_all (rd_ok m) ?ub (unat n)" "block_all (wr_ok m) ?ub (unat n)"
    "block_all (rd_ok m) ptr (unat n)" "block_all (wr_ok m) ptr (unat n)"
    using mem by (simp_all add: block_all_def list_all_iff kernel_blocks_def)
  have "unat ?ub = unat base + pos" using mem pos(2,3) up(1) n'(2) by (subst unat_add_lem [THEN iffD1]) (auto simp: kernel_blocks_def)
  then have ends: "unat ptr + unat n \<le> 2 ^ 32" "unat ?ub + unat n \<le> 2 ^ 32" using mem pos(2) by (simp_all add: kernel_blocks_def)
  have sep: "ptr + of_nat i \<noteq> base + of_nat j" if "i < unat n" "j < len" for i j using mem that by (simp add: kernel_blocks_def)
  let ?u' = "u\<lparr>uio_iov := [iov\<lparr>iov_base := iov_base iov + n, iov_len := iov_len iov - n\<rparr>],
    uio_resid := uio_resid u - n, uio_offset := int64 (uio_offset u + uint n)\<rparr>"
  note one = uiomove_one_block [OF u(1,3,4) n(1) _ resid(2)]
  have view: "buf_view base len ?u' m' = (buf_view base len u m)\<lparr>bu_data := mem_bytes m' base len, bu_pos := pos + unat n,
      bu_offset := nat (uio_offset u) + unat n, bu_resid := unat (uio_resid u) - unat n\<rparr>" for m'
    using u(1) pos(1) up resid(1) int64 off' by (simp add: buf_view_def add.assoc)
  show ?thesis
  proof (cases "uio_rw u")
    case UIO_READ
    let ?m = "m\<lparr>bytes := move ?ub ptr (unat n) (bytes m)\<rparr>"
    have "uio_copy ptr (iov_base iov) n u m = Inr (0, ?m)" using u(3) UIO_READ pos(1) memmove_move [OF blocks(3,2) ends] by (simp add: uio_copy_def)
    then have "uiomove curas ptr n u m = Inr (0, ?u', ?m)" using one n(2) u(2) by simp
    moreover have "mem_bytes ?m base len = take pos (mem_bytes m base len) @ mem_bytes m ptr (unat n) @ drop (pos + unat n) (mem_bytes m base len)"
      by (rule mem_bytes_move [OF pos(2,3)])
    moreover have "mem_bytes ?m ptr (unat n) = mem_bytes m ptr (unat n)"
    proof (rule mem_bytes_move_other)
      fix i assume i: "i < unat n"
      show "\<not> unat (ptr + of_nat i - ?ub) < unat n"
      proof
        assume l: "unat (ptr + of_nat i - ?ub) < unat n"
        have "ptr + of_nat i = base + of_nat (pos + unat (ptr + of_nat i - ?ub))" by simp
        then show False using sep [OF i, of "pos + unat (ptr + of_nat i - ?ub)"] l pos(2) by simp
      qed
    qed
    ultimately show ?thesis using view n' u(1) pos(1) up(1) UIO_READ
      by (intro exI [of _ ?u'] exI [of _ ?m]) (simp add: buf_uiomove_def buf_view_def Let_def min_def)
  next
    case UIO_WRITE
    let ?m = "m\<lparr>bytes := move ptr ?ub (unat n) (bytes m)\<rparr>"
    have "uio_copy ptr (iov_base iov) n u m = Inr (0, ?m)"
      using u(3) UIO_WRITE pos(1) memmove_move [OF blocks(1,4) ends(2,1)] by (simp add: uio_copy_def)
    then have "uiomove curas ptr n u m = Inr (0, ?u', ?m)" using one n(2) u(2) by simp
    moreover have "mem_bytes ?m base len = mem_bytes m base len"
      by (intro mem_bytes_move_other) (rule apart [OF sep _ order_refl])
    moreover have "mem_bytes ?m ptr (unat n) = take (unat n) (drop pos (mem_bytes m base len))"
      by (rule nth_equalityI) (use pos(2,3) in \<open>auto simp: move_def unat_of_nat add.assoc min_def\<close>)
    ultimately show ?thesis using view n' u(1) pos(1) up(1) UIO_WRITE
      by (intro exI [of _ ?u'] exI [of _ ?m]) (simp add: buf_uiomove_def buf_view_def Let_def min_def)
  qed
qed

end
