(* ===== verification/Sfs.thy ===== *)
theory Sfs
  imports Bitmap Lhd
begin

text \<open>
  The block level of the simple file system (\<^verbatim>\<open>kern/fs/sfs\<close>): block I/O with retries, the free map, the map
  from the blocks of a file to disk blocks with its indirect block, and truncation. The device is reached
  through its function \<^verbatim>\<open>devop_io\<close>, the first argument of the operations. The static buffers are lists of
  bytes: what they held before is overwritten or not used. The big lock of the file system is always held in
  the configuration \<^verbatim>\<open>PROJECTC1\<close>, whose locks are empty.
\<close>

section \<open>State\<close>

abbreviation (input) SFS_BLOCKSIZE :: nat where "SFS_BLOCKSIZE \<equiv> 512"
abbreviation (input) SFS_NDIRECT :: nat where "SFS_NDIRECT \<equiv> 15"
abbreviation (input) SFS_DBPERIDB :: nat where "SFS_DBPERIDB \<equiv> 128"
abbreviation (input) SFS_NINDIRECT :: nat where "SFS_NINDIRECT \<equiv> 1"
abbreviation (input) SFS_NOINO :: u32 where "SFS_NOINO \<equiv> 0"

record sfs_dinode =
  sfi_size :: u32
  sfi_type :: u16
  sfi_linkcount :: u16
  sfi_direct :: "u32 list"
  sfi_indirect :: u32

record sfs_vnode =
  sv_i :: sfs_dinode
  sv_ino :: u32
  sv_dirty :: bool

record 'd sfs_fs =
  sb_nblocks :: u32
  sfs_freemap :: bitmap
  sfs_freemapdirty :: bool
  sfs_device :: 'd

type_synonym 'd devop_io = "buf_uio \<Rightarrow> 'd \<Rightarrow> (errno \<times> buf_uio \<times> 'd) kres"

text \<open>A block of words in memory, the most significant byte of each word first.\<close>

definition u32_bytes :: "u32 \<Rightarrow> u8 list" where
  "u32_bytes w = [ucast (drop_bit 24 w), ucast (drop_bit 16 w), ucast (drop_bit 8 w), ucast w]"

definition u32_of :: "u8 \<Rightarrow> u8 \<Rightarrow> u8 \<Rightarrow> u8 \<Rightarrow> u32" where
  "u32_of a b c d = push_bit 24 (ucast a) OR push_bit 16 (ucast b) OR push_bit 8 (ucast c) OR ucast d"

fun block_words :: "u8 list \<Rightarrow> u32 list" where
  "block_words (a # b # c # d # bs) = u32_of a b c d # block_words bs"
| "block_words bs = []"

definition words_block :: "u32 list \<Rightarrow> u8 list" where
  "words_block ws = concat (map u32_bytes ws)"

section \<open>Block I/O\<close>

function sfs_rwblock :: "'d devop_io \<Rightarrow> nat \<Rightarrow> buf_uio \<Rightarrow> 'd sfs_fs \<Rightarrow> (errno \<times> buf_uio \<times> 'd sfs_fs) kres" where
  "sfs_rwblock devio tries u sfs =
     sbind (devio u (sfs_device sfs)) (\<lambda>(result, u, dev).
     let sfs = sfs\<lparr>sfs_device := dev\<rparr>
     in if result = EINVAL then Inl (Panic ''sfs: DEVOP_IO returned EINVAL'')
        else if result = EIO \<and> tries < 10 then sfs_rwblock devio (tries + 1) u sfs
        else Inr (result, u, sfs))"
  by pat_completeness auto
termination by (relation "measure (\<lambda>(devio, tries, u, sfs). 10 - tries)") auto

declare sfs_rwblock.simps [simp del]

definition sfs_readblock :: "'d devop_io \<Rightarrow> u32 \<Rightarrow> 'd sfs_fs \<Rightarrow> (errno \<times> u8 list \<times> 'd sfs_fs) kres" where
  "sfs_readblock devio block sfs =
     sbind (sfs_rwblock devio 0 (buf_kinit (replicate SFS_BLOCKSIZE 0) (unat block * SFS_BLOCKSIZE) UIO_READ) sfs)
       (\<lambda>(result, ku, sfs). Inr (result, bu_data ku, sfs))"

definition sfs_writeblock :: "'d devop_io \<Rightarrow> u32 \<Rightarrow> u8 list \<Rightarrow> 'd sfs_fs \<Rightarrow> (errno \<times> 'd sfs_fs) kres" where
  "sfs_writeblock devio block data sfs =
     kassert (length data = SFS_BLOCKSIZE) ''len == SFS_BLOCKSIZE'' (
     sbind (sfs_rwblock devio 0 (buf_kinit data (unat block * SFS_BLOCKSIZE) UIO_WRITE) sfs)
       (\<lambda>(result, ku, sfs). Inr (result, sfs)))"

section \<open>Free blocks\<close>

definition sfs_clearblock :: "'d devop_io \<Rightarrow> u32 \<Rightarrow> 'd sfs_fs \<Rightarrow> (errno \<times> 'd sfs_fs) kres" where
  "sfs_clearblock devio block sfs = sfs_writeblock devio block (replicate SFS_BLOCKSIZE 0) sfs"

definition sfs_balloc :: "'d devop_io \<Rightarrow> 'd sfs_fs \<Rightarrow> (errno \<times> u32 \<times> 'd sfs_fs) kres" where
  "sfs_balloc devio sfs =
     sbind (bitmap_alloc (sfs_freemap sfs)) (\<lambda>(result, index, map).
     case index of
       None \<Rightarrow> Inr (result, 0, sfs)
     | Some i \<Rightarrow>
         let diskblock = of_nat i; sfs = sfs\<lparr>sfs_freemap := map, sfs_freemapdirty := True\<rparr>
         in if diskblock \<ge> sb_nblocks sfs then Inl (Panic ''sfs: balloc: invalid block'')
            else
              sbind (sfs_clearblock devio diskblock sfs) (\<lambda>(result, sfs).
              if result \<noteq> 0 then
                sbind (bitmap_unmark (unat diskblock) (sfs_freemap sfs)) (\<lambda>map.
                Inr (result, diskblock, sfs\<lparr>sfs_freemap := map\<rparr>))
              else Inr (result, diskblock, sfs)))"

definition sfs_bfree :: "u32 \<Rightarrow> 'd sfs_fs \<Rightarrow> 'd sfs_fs kres" where
  "sfs_bfree diskblock sfs =
     sbind (bitmap_unmark (unat diskblock) (sfs_freemap sfs)) (\<lambda>map.
     Inr (sfs\<lparr>sfs_freemap := map, sfs_freemapdirty := True\<rparr>))"

definition sfs_bused :: "u32 \<Rightarrow> 'd sfs_fs \<Rightarrow> bool kres" where
  "sfs_bused diskblock sfs =
     (if diskblock \<ge> sb_nblocks sfs then Inl (Panic ''sfs: sfs_bused called on out of range block'')
      else sbind (bitmap_isset (sfs_freemap sfs) (unat diskblock)) (\<lambda>r. Inr (r \<noteq> 0)))"

section \<open>The blocks of a file\<close>

text \<open>The last step of both branches of \<^verbatim>\<open>sfs_bmap\<close>.\<close>

definition hand_back :: "u32 \<Rightarrow> sfs_vnode \<Rightarrow> 'd sfs_fs \<Rightarrow> (errno \<times> u32 \<times> sfs_vnode \<times> 'd sfs_fs) kres" where
  "hand_back block sv sfs =
     (if block \<noteq> 0 then
        sbind (sfs_bused block sfs) (\<lambda>used.
        if used then Inr (0, block, sv, sfs) else Inl (Panic ''sfs: Data block marked free''))
      else Inr (0, block, sv, sfs))"

definition bmap_direct :: "'d devop_io \<Rightarrow> nat \<Rightarrow> bool \<Rightarrow> sfs_vnode \<Rightarrow> 'd sfs_fs \<Rightarrow> (errno \<times> u32 \<times> sfs_vnode \<times> 'd sfs_fs) kres" where
  "bmap_direct devio fileblock doalloc sv sfs =
     (let block = sfi_direct (sv_i sv) ! fileblock
      in if block = 0 \<and> doalloc then
           sbind (sfs_balloc devio sfs) (\<lambda>(result, block, sfs).
           if result \<noteq> 0 then Inr (result, 0, sv, sfs)
           else hand_back block
             (sv\<lparr>sv_i := (sv_i sv)\<lparr>sfi_direct := (sfi_direct (sv_i sv))[fileblock := block]\<rparr>, sv_dirty := True\<rparr>) sfs)
         else hand_back block sv sfs)"

text \<open>From the lookup in the loaded indirect block on.\<close>

definition bmap_indirect ::
  "'d devop_io \<Rightarrow> u32 \<Rightarrow> nat \<Rightarrow> u32 list \<Rightarrow> bool \<Rightarrow> sfs_vnode \<Rightarrow> 'd sfs_fs \<Rightarrow> (errno \<times> u32 \<times> sfs_vnode \<times> 'd sfs_fs) kres" where
  "bmap_indirect devio idblock idoff idbuf doalloc sv sfs =
     (let block = idbuf ! idoff
      in if block = 0 \<and> doalloc then
           sbind (sfs_balloc devio sfs) (\<lambda>(result, block, sfs).
           if result \<noteq> 0 then Inr (result, 0, sv, sfs)
           else
             sbind (sfs_writeblock devio idblock (words_block (idbuf[idoff := block])) sfs) (\<lambda>(result, sfs).
             if result \<noteq> 0 then Inr (result, 0, sv, sfs) else hand_back block sv sfs))
         else hand_back block sv sfs)"

definition sfs_bmap :: "'d devop_io \<Rightarrow> sfs_vnode \<Rightarrow> nat \<Rightarrow> bool \<Rightarrow> 'd sfs_fs \<Rightarrow> (errno \<times> u32 \<times> sfs_vnode \<times> 'd sfs_fs) kres" where
  "sfs_bmap devio sv fileblock doalloc sfs =
     (if fileblock < SFS_NDIRECT then bmap_direct devio fileblock doalloc sv sfs
      else
        let fileblock = fileblock - SFS_NDIRECT;
            idnum = fileblock div SFS_DBPERIDB;
            idoff = fileblock mod SFS_DBPERIDB
        in if idnum \<ge> SFS_NINDIRECT then Inr (EFBIG, 0, sv, sfs)
           else
             let idblock = sfi_indirect (sv_i sv)
             in if idblock = 0 \<and> \<not> doalloc then Inr (0, 0, sv, sfs)
                else if idblock = 0 then
                  sbind (sfs_balloc devio sfs) (\<lambda>(result, idblock, sfs).
                  if result \<noteq> 0 then Inr (result, 0, sv, sfs)
                  else bmap_indirect devio idblock idoff (replicate SFS_DBPERIDB 0) doalloc
                    (sv\<lparr>sv_i := (sv_i sv)\<lparr>sfi_indirect := idblock\<rparr>, sv_dirty := True\<rparr>) sfs)
                else
                  sbind (sfs_readblock devio idblock sfs) (\<lambda>(result, data, sfs).
                  if result \<noteq> 0 then Inr (result, 0, sv, sfs)
                  else bmap_indirect devio idblock idoff (block_words data) doalloc sv sfs))"

section \<open>Truncation\<close>

definition trunc_direct :: "nat \<Rightarrow> nat \<Rightarrow> sfs_vnode \<times> 'd sfs_fs \<Rightarrow> (sfs_vnode \<times> 'd sfs_fs) kres" where
  "trunc_direct blocklen i = (\<lambda>(sv, sfs).
     let block = sfi_direct (sv_i sv) ! i
     in if i \<ge> blocklen \<and> block \<noteq> 0 then
          sbind (sfs_bfree block sfs) (\<lambda>sfs.
          Inr (sv\<lparr>sv_i := (sv_i sv)\<lparr>sfi_direct := (sfi_direct (sv_i sv))[i := 0]\<rparr>, sv_dirty := True\<rparr>, sfs))
        else Inr (sv, sfs))"

definition trunc_indirect :: "nat \<Rightarrow> nat \<Rightarrow> u32 list \<times> bool \<times> bool \<times> 'd sfs_fs \<Rightarrow> (u32 list \<times> bool \<times> bool \<times> 'd sfs_fs) kres" where
  "trunc_indirect blocklen j = (\<lambda>(idbuf, hasnonzero, iddirty, sfs).
     sbind (if blocklen < SFS_NDIRECT + j \<and> idbuf ! j \<noteq> 0 then
              sbind (sfs_bfree (idbuf ! j) sfs) (\<lambda>sfs. Inr (idbuf[j := 0], True, sfs))
            else Inr (idbuf, iddirty, sfs)) (\<lambda>(idbuf, iddirty, sfs).
     Inr (idbuf, hasnonzero \<or> idbuf ! j \<noteq> 0, iddirty, sfs)))"

definition set_size :: "nat \<Rightarrow> sfs_vnode \<Rightarrow> sfs_vnode" where
  "set_size len sv = sv\<lparr>sv_i := (sv_i sv)\<lparr>sfi_size := of_nat len\<rparr>, sv_dirty := True\<rparr>"

text \<open>The length is not negative.\<close>

definition sfs_itrunc :: "'d devop_io \<Rightarrow> sfs_vnode \<Rightarrow> nat \<Rightarrow> 'd sfs_fs \<Rightarrow> (errno \<times> sfs_vnode \<times> 'd sfs_fs) kres" where
  "sfs_itrunc devio sv len sfs =
     (let blocklen = unat (of_nat ((len + SFS_BLOCKSIZE - 1) div SFS_BLOCKSIZE) :: u32)
      in sbind (kfor [0..<SFS_NDIRECT] (trunc_direct blocklen) (sv, sfs)) (\<lambda>(sv, sfs).
         let idblock = sfi_indirect (sv_i sv); highblock = SFS_NDIRECT + SFS_DBPERIDB - 1
         in if blocklen < highblock \<and> idblock \<noteq> 0 then
              sbind (sfs_readblock devio idblock sfs) (\<lambda>(result, data, sfs).
              if result \<noteq> 0 then Inr (result, sv, sfs)
              else
                sbind (kfor [0..<SFS_DBPERIDB] (trunc_indirect blocklen) (block_words data, False, False, sfs))
                  (\<lambda>(idbuf, hasnonzero, iddirty, sfs).
                if \<not> hasnonzero then
                  sbind (sfs_bfree idblock sfs) (\<lambda>sfs.
                  Inr (0, set_size len (sv\<lparr>sv_i := (sv_i sv)\<lparr>sfi_indirect := 0\<rparr>, sv_dirty := True\<rparr>), sfs))
                else if iddirty then
                  sbind (sfs_writeblock devio idblock (words_block idbuf) sfs) (\<lambda>(result, sfs).
                  if result \<noteq> 0 then Inr (result, sv, sfs) else Inr (0, set_size len sv, sfs))
                else Inr (0, set_size len sv, sfs)))
            else Inr (0, set_size len sv, sfs)))"

section \<open>Blocks of words\<close>

lemma u32_of_bytes [simp]:
  "u32_of (ucast (drop_bit 24 w)) (ucast (drop_bit 16 w)) (ucast (drop_bit 8 w)) (ucast w) = w"
proof (rule bit_word_eqI)
  fix n assume "n < LENGTH(32)"
  then consider "n < 8" | "8 \<le> n" "n < 16" | "16 \<le> n" "n < 24" | "24 \<le> n" "n < 32" by fastforce
  then show "bit (u32_of (ucast (drop_bit 24 w)) (ucast (drop_bit 16 w)) (ucast (drop_bit 8 w)) (ucast w)) n = bit w n"
    by cases (auto simp: u32_of_def bit_simps)
qed

lemma block_words_words_block [simp]: "block_words (words_block ws) = ws"
  by (induction ws) (simp_all add: words_block_def u32_bytes_def)

lemma length_words_block [simp]: "length (words_block ws) = 4 * length ws"
  by (induction ws) (simp_all add: words_block_def u32_bytes_def)

lemma length_block_words [simp]: "length (block_words bs) = length bs div 4"
  by (induction bs rule: block_words.induct) simp_all

lemma block_words_zeros: "block_words (replicate (4 * n) 0) = replicate n 0"
proof -
  have "replicate (4 * n) 0 = words_block (replicate n 0)"
    by (induction n) (simp_all add: words_block_def u32_bytes_def replicate_add numeral_eq_Suc)
  then show ?thesis by simp
qed

lemma block_words_zero_block [simp]: "block_words (replicate 512 0) = replicate 128 0"
  using block_words_zeros [of 128] by simp

section \<open>The invariant of the file system\<close>

text \<open>The device is in good order and large enough; the free map covers the file system, and block 0, which
  holds the superblock, and the bits behind the end are marked. A full file system has no free block.\<close>

definition fs_ok :: "('d \<Rightarrow> bool) \<Rightarrow> ('d \<Rightarrow> nat) \<Rightarrow> 'd sfs_fs \<Rightarrow> bool" where
  "fs_ok ok nblks sfs \<longleftrightarrow> ok (sfs_device sfs) \<and> unat (sb_nblocks sfs) \<le> nblks (sfs_device sfs) \<and>
     bitmap_inv (sfs_freemap sfs) \<and> unat (sb_nblocks sfs) \<le> bm_size (sfs_freemap sfs) \<and>
     insert 0 {unat (sb_nblocks sfs)..<bm_size (sfs_freemap sfs)} \<subseteq> bm_set (sfs_freemap sfs)"

definition fs_full :: "'d sfs_fs \<Rightarrow> bool" where
  "fs_full sfs \<longleftrightarrow> bm_set (sfs_freemap sfs) = {..<bm_size (sfs_freemap sfs)}"

text \<open>The block pointers of a file: the direct ones, the one to the indirect block, and those in it.\<close>

definition indirect_words :: "(nat \<Rightarrow> u8 list) \<Rightarrow> sfs_vnode \<Rightarrow> u32 list" where
  "indirect_words disk sv =
     (if sfi_indirect (sv_i sv) = 0 then replicate SFS_DBPERIDB 0 else block_words (disk (unat (sfi_indirect (sv_i sv)))))"

definition file_ptrs :: "(nat \<Rightarrow> u8 list) \<Rightarrow> sfs_vnode \<Rightarrow> u32 list" where
  "file_ptrs disk sv = sfi_direct (sv_i sv) @ sfi_indirect (sv_i sv) # indirect_words disk sv"

text \<open>The disk block that holds block \<open>k\<close> of a file; 0 for a hole.\<close>

definition file_map :: "(nat \<Rightarrow> u8 list) \<Rightarrow> sfs_vnode \<Rightarrow> nat \<Rightarrow> u32" where
  "file_map disk sv k = file_ptrs disk sv ! (if k < SFS_NDIRECT then k else k + 1)"

definition nz_distinct :: "u32 list \<Rightarrow> bool" where
  "nz_distinct ps \<longleftrightarrow> (\<forall>i < length ps. \<forall>j < length ps. i \<noteq> j \<longrightarrow> ps ! i \<noteq> 0 \<longrightarrow> ps ! i \<noteq> ps ! j)"

text \<open>No block is used twice, and every block is inside the file system and marked.\<close>

definition ptrs_ok :: "u32 list \<Rightarrow> 'd sfs_fs \<Rightarrow> bool" where
  "ptrs_ok ps sfs \<longleftrightarrow> nz_distinct ps \<and>
     (\<forall>p \<in> set ps. p \<noteq> 0 \<longrightarrow> unat p < unat (sb_nblocks sfs) \<and> unat p \<in> bm_set (sfs_freemap sfs))"

definition file_ok :: "('d \<Rightarrow> nat \<Rightarrow> u8 list) \<Rightarrow> sfs_vnode \<Rightarrow> 'd sfs_fs \<Rightarrow> bool" where
  "file_ok medium sv sfs \<longleftrightarrow> length (sfi_direct (sv_i sv)) = SFS_NDIRECT \<and>
     ptrs_ok (file_ptrs (medium (sfs_device sfs)) sv) sfs"

lemma ptrs_ok_nth:
  "ptrs_ok ps sfs \<Longrightarrow> i < length ps \<Longrightarrow> ps ! i \<noteq> 0 \<Longrightarrow>
    unat (ps ! i) < unat (sb_nblocks sfs) \<and> unat (ps ! i) \<in> bm_set (sfs_freemap sfs)"
  by (simp add: ptrs_ok_def)

lemma ptrs_ok_add:
  assumes "ptrs_ok ps sfs" and "i < length ps" and "b \<notin> set ps" and "unat b < unat (sb_nblocks sfs')"
    and "bm_set (sfs_freemap sfs') = insert (unat b) (bm_set (sfs_freemap sfs))" and "sb_nblocks sfs' = sb_nblocks sfs"
  shows "ptrs_ok (ps[i := b]) sfs'"
proof -
  have "nz_distinct (ps[i := b])" using assms(1-3) unfolding ptrs_ok_def nz_distinct_def
    by (auto simp: nth_list_update)
  then show ?thesis using assms by (auto simp: ptrs_ok_def dest!: set_update_subset_insert [THEN subsetD])
qed

lemma ptrs_ok_drop:
  assumes "ptrs_ok ps sfs" and "i < length ps" and "ps ! i \<noteq> 0"
    and "bm_set (sfs_freemap sfs') = bm_set (sfs_freemap sfs) - {unat (ps ! i)}" and "sb_nblocks sfs' = sb_nblocks sfs"
  shows "ptrs_ok (ps[i := 0]) sfs'"
proof -
  have "nz_distinct (ps[i := 0])" using assms(1-3) unfolding ptrs_ok_def nz_distinct_def
    by (auto simp: nth_list_update)
  moreover have "unat p \<noteq> unat (ps ! i)" if p: "p \<in> set (ps[i := 0])" "p \<noteq> 0" for p
  proof -
    from p obtain j where j: "j < length ps" "j \<noteq> i" "p = ps ! j"
      by (metis in_set_conv_nth length_list_update nth_list_update_eq nth_list_update_neq)
    then have "ps ! j \<noteq> ps ! i" using assms(1,2) p(2) by (simp add: ptrs_ok_def nz_distinct_def)
    then show ?thesis using j(3) by (simp add: word_unat_eq_iff)
  qed
  ultimately show ?thesis using assms by (auto simp: ptrs_ok_def dest!: set_update_subset_insert [THEN subsetD])
qed

lemma ptrs_ok_mono: "ptrs_ok ps sfs \<Longrightarrow> bm_set (sfs_freemap sfs) \<subseteq> bm_set (sfs_freemap sfs') \<Longrightarrow>
    sb_nblocks sfs' = sb_nblocks sfs \<Longrightarrow> ptrs_ok ps sfs'"
  by (auto simp: ptrs_ok_def)

lemma hand_back_ok:
  assumes "fs_ok ok nblks sfs" and "b \<noteq> 0 \<Longrightarrow> unat b < unat (sb_nblocks sfs) \<and> unat b \<in> bm_set (sfs_freemap sfs)"
  shows "hand_back b sv sfs = Inr (0, b, sv, sfs)"
proof (cases "b = 0")
  case False
  then have b: "unat b < unat (sb_nblocks sfs)" "unat b \<in> bm_set (sfs_freemap sfs)" using assms(2) by simp_all
  have "unat b < bm_size (sfs_freemap sfs)" using b(1) assms(1) by (simp add: fs_ok_def)
  then obtain r where "bitmap_isset (sfs_freemap sfs) (unat b) = Inr r" "r \<noteq> 0"
    using bm.isset_elem [of "sfs_freemap sfs" "unat b"] assms(1) b(2) by (auto simp: fs_ok_def)
  then show ?thesis using b(1) by (simp add: hand_back_def sfs_bused_def word_le_nat_alt)
qed (simp add: hand_back_def)

section \<open>Allocation on a device in good order\<close>

context block_device
begin

abbreviation fs_good :: "'d sfs_fs \<Rightarrow> bool" where "fs_good \<equiv> fs_ok ok nblocks"

abbreviation disk :: "'d sfs_fs \<Rightarrow> nat \<Rightarrow> u8 list" where "disk sfs \<equiv> medium (sfs_device sfs)"

lemma rw_read:
  assumes "fs_good sfs" and "b < unat (sb_nblocks sfs)" and "block_request u b UIO_READ"
  shows "\<exists>d. sfs_rwblock io 0 u sfs = Inr (0, block_moved u (disk sfs b), sfs\<lparr>sfs_device := d\<rparr>) \<and>
    fs_good (sfs\<lparr>sfs_device := d\<rparr>) \<and> medium d = disk sfs"
proof -
  have "ok (sfs_device sfs)" "b < nblocks (sfs_device sfs)" using assms by (simp_all add: fs_ok_def)
  from io_read [OF this assms(3)] obtain d where d: "io u (sfs_device sfs) = Inr (0, block_moved u (disk sfs b), d)"
    "ok d" "nblocks d = nblocks (sfs_device sfs)" "medium d = disk sfs" by blast
  then have "sfs_rwblock io 0 u sfs = Inr (0, block_moved u (disk sfs b), sfs\<lparr>sfs_device := d\<rparr>)"
    by (subst sfs_rwblock.simps) simp
  then show ?thesis using d assms(1) by (intro exI [of _ d]) (simp add: fs_ok_def)
qed

lemma rw_write:
  assumes "fs_good sfs" and "b < unat (sb_nblocks sfs)" and "block_request u b UIO_WRITE"
  shows "\<exists>d. sfs_rwblock io 0 u sfs = Inr (0, block_moved u [], sfs\<lparr>sfs_device := d\<rparr>) \<and>
    fs_good (sfs\<lparr>sfs_device := d\<rparr>) \<and> medium d = (disk sfs)(b := take 512 (drop (bu_pos u) (bu_data u)))"
proof -
  have "ok (sfs_device sfs)" "b < nblocks (sfs_device sfs)" using assms by (simp_all add: fs_ok_def)
  from io_write [OF this assms(3)] obtain d where d: "io u (sfs_device sfs) = Inr (0, block_moved u [], d)"
    "ok d" "nblocks d = nblocks (sfs_device sfs)" "medium d = (disk sfs)(b := take 512 (drop (bu_pos u) (bu_data u)))"
    by blast
  then have "sfs_rwblock io 0 u sfs = Inr (0, block_moved u [], sfs\<lparr>sfs_device := d\<rparr>)"
    by (subst sfs_rwblock.simps) simp
  then show ?thesis using d assms(1) by (intro exI [of _ d]) (simp add: fs_ok_def)
qed

lemma read_block:
  assumes "fs_good sfs" and "unat b < unat (sb_nblocks sfs)"
  shows "\<exists>d. sfs_readblock io b sfs = Inr (0, disk sfs (unat b), sfs\<lparr>sfs_device := d\<rparr>) \<and>
    fs_good (sfs\<lparr>sfs_device := d\<rparr>) \<and> medium d = disk sfs"
proof -
  have "block_request (buf_kinit (replicate 512 0) (unat b * 512) UIO_READ) (unat b) UIO_READ"
    by (simp add: block_request_def buf_kinit_def)
  from rw_read [OF assms this] obtain d where
    "sfs_rwblock io 0 (buf_kinit (replicate 512 0) (unat b * 512) UIO_READ) sfs =
       Inr (0, block_moved (buf_kinit (replicate 512 0) (unat b * 512) UIO_READ) (disk sfs (unat b)), sfs\<lparr>sfs_device := d\<rparr>)"
    "fs_good (sfs\<lparr>sfs_device := d\<rparr>)" "medium d = disk sfs" by blast
  then show ?thesis by (intro exI [of _ d]) (simp add: sfs_readblock_def block_moved_def buf_kinit_def)
qed

lemma write_block:
  assumes "fs_good sfs" and "unat b < unat (sb_nblocks sfs)" and "length data = 512"
  shows "\<exists>d. sfs_writeblock io b data sfs = Inr (0, sfs\<lparr>sfs_device := d\<rparr>) \<and>
    fs_good (sfs\<lparr>sfs_device := d\<rparr>) \<and> medium d = (disk sfs)(unat b := data)"
proof -
  have "block_request (buf_kinit data (unat b * 512) UIO_WRITE) (unat b) UIO_WRITE" using assms(3)
    by (simp add: block_request_def buf_kinit_def)
  from rw_write [OF assms(1,2) this] obtain d where
    "sfs_rwblock io 0 (buf_kinit data (unat b * 512) UIO_WRITE) sfs =
       Inr (0, block_moved (buf_kinit data (unat b * 512) UIO_WRITE) [], sfs\<lparr>sfs_device := d\<rparr>)"
    "fs_good (sfs\<lparr>sfs_device := d\<rparr>)" "medium d = (disk sfs)(unat b := data)"
    using assms(3) by (auto simp: buf_kinit_def)
  then show ?thesis using assms(3) by (intro exI [of _ d]) (simp add: sfs_writeblock_def)
qed

text \<open>A new block is inside the file system, was free, and is cleared; no other block changes.\<close>

definition new_block :: "u32 \<Rightarrow> 'd sfs_fs \<Rightarrow> 'd sfs_fs \<Rightarrow> bool" where
  "new_block b sfs sfs' \<longleftrightarrow> b \<noteq> 0 \<and> unat b < unat (sb_nblocks sfs) \<and> unat b \<notin> bm_set (sfs_freemap sfs) \<and>
     bm_set (sfs_freemap sfs') = insert (unat b) (bm_set (sfs_freemap sfs)) \<and> sb_nblocks sfs' = sb_nblocks sfs \<and>
     disk sfs' = (disk sfs)(unat b := replicate 512 0)"

lemma balloc_cases:
  assumes "fs_good sfs"
  obtains "sfs_balloc io sfs = Inr (ENOSPC, 0, sfs)" "fs_full sfs"
  | b sfs' where "sfs_balloc io sfs = Inr (0, b, sfs')" "fs_good sfs'" "new_block b sfs sfs'"
proof (cases "bm_set (sfs_freemap sfs) = {..<bm_size (sfs_freemap sfs)}")
  case True
  then have "bitmap_alloc (sfs_freemap sfs) = Inr (ENOSPC, None, sfs_freemap sfs)"
    using bm.alloc_full assms by (simp add: fs_ok_def)
  then show ?thesis using that(1) True by (simp add: sfs_balloc_def fs_full_def)
next
  case False
  have fs: "bitmap_inv (sfs_freemap sfs)" "insert 0 {unat (sb_nblocks sfs)..<bm_size (sfs_freemap sfs)} \<subseteq> bm_set (sfs_freemap sfs)"
    using assms by (simp_all add: fs_ok_def)
  from bm.alloc_least [OF fs(1) False] obtain i m where m: "bitmap_alloc (sfs_freemap sfs) = Inr (0, Some i, m)"
    "i < bm_size (sfs_freemap sfs)" "i \<notin> bm_set (sfs_freemap sfs)" "bitmap_inv m"
    "bm_size m = bm_size (sfs_freemap sfs)" "bm_set m = insert i (bm_set (sfs_freemap sfs))" by blast
  have "i \<noteq> 0" using m(3) fs(2) by (cases i) auto
  moreover have "i < unat (sb_nblocks sfs)" 
    by (rule ccontr) (use m(2,3) subsetD [OF fs(2), of i] in simp)
  ultimately have i: "i \<noteq> 0" "i < unat (sb_nblocks sfs)" by simp_all
  define b where "b = (of_nat i :: u32)"
  have b: "unat b = i" using i(2) unsigned_less [of "sb_nblocks sfs", where 'a = nat] by (simp add: b_def unat_of_nat)
  let ?sfs = "sfs\<lparr>sfs_freemap := m, sfs_freemapdirty := True\<rparr>"
  have "fs_good ?sfs" using assms m(4-6) by (auto simp: fs_ok_def)
  from write_block [OF this, of b "replicate 512 0"] i(2) b obtain d where
    d: "sfs_writeblock io b (replicate 512 0) ?sfs = Inr (0, ?sfs\<lparr>sfs_device := d\<rparr>)"
    "fs_good (?sfs\<lparr>sfs_device := d\<rparr>)" "medium d = (disk sfs)(unat b := replicate 512 0)" by auto
  have "sfs_balloc io sfs = Inr (0, b, ?sfs\<lparr>sfs_device := d\<rparr>)"
    using m(1) d(1) i(2) b by (simp add: sfs_balloc_def sfs_clearblock_def b_def [symmetric] word_le_nat_alt)
  moreover have "new_block b sfs (?sfs\<lparr>sfs_device := d\<rparr>)"
    using i b m(3,6) d(3) by (auto simp: new_block_def)
  ultimately show ?thesis using that(2) d(2) by blast
qed

end

section \<open>The block map\<close>

context block_device
begin

abbreviation file_good :: "sfs_vnode \<Rightarrow> 'd sfs_fs \<Rightarrow> bool" where "file_good \<equiv> file_ok medium"

abbreviation ptrs :: "sfs_vnode \<Rightarrow> 'd sfs_fs \<Rightarrow> u32 list" where "ptrs sv sfs \<equiv> file_ptrs (disk sfs) sv"

abbreviation ind :: "sfs_vnode \<Rightarrow> u32" where "ind sv \<equiv> sfi_indirect (sv_i sv)"

lemma indirect_inside:
  assumes "file_good sv sfs" and "ind sv \<noteq> 0"
  shows "unat (ind sv) < unat (sb_nblocks sfs)" and "unat (ind sv) \<in> bm_set (sfs_freemap sfs)"
proof -
  have "ind sv \<in> set (ptrs sv sfs)" by (simp add: file_ptrs_def)
  then show "unat (ind sv) < unat (sb_nblocks sfs)" "unat (ind sv) \<in> bm_set (sfs_freemap sfs)"
    using assms by (auto simp: file_ok_def ptrs_ok_def)
qed

lemma length_indirect_words: "fs_good sfs \<Longrightarrow> file_good sv sfs \<Longrightarrow> length (indirect_words (disk sfs) sv) = 128"
  using indirect_inside [of sv sfs] medium_length [of "sfs_device sfs" "unat (ind sv)"]
  by (auto simp: indirect_words_def fs_ok_def)

lemma length_ptrs: "fs_good sfs \<Longrightarrow> file_good sv sfs \<Longrightarrow> length (ptrs sv sfs) = 144"
  by (simp add: file_ptrs_def length_indirect_words) (simp add: file_ok_def)

text \<open>One pointer of the file, a hole so far, leads to a new block; the blocks in use keep their contents, except
  for the indirect block.\<close>

definition grown :: "nat \<Rightarrow> u32 \<Rightarrow> sfs_vnode \<Rightarrow> 'd sfs_fs \<Rightarrow> sfs_vnode \<Rightarrow> 'd sfs_fs \<Rightarrow> bool" where
  "grown i b sv sfs sv' sfs' \<longleftrightarrow> fs_good sfs' \<and> file_good sv' sfs' \<and> ptrs sv' sfs' = (ptrs sv sfs)[i := b] \<and>
     sfi_size (sv_i sv') = sfi_size (sv_i sv) \<and> sfi_type (sv_i sv') = sfi_type (sv_i sv) \<and> b \<noteq> 0 \<and> unat b < unat (sb_nblocks sfs) \<and>
     unat b \<notin> bm_set (sfs_freemap sfs) \<and> bm_set (sfs_freemap sfs') = insert (unat b) (bm_set (sfs_freemap sfs)) \<and>
     sb_nblocks sfs' = sb_nblocks sfs \<and> disk sfs' (unat b) = replicate 512 0 \<and>
     (\<forall>x \<in> bm_set (sfs_freemap sfs). (ind sv \<noteq> 0 \<longrightarrow> x \<noteq> unat (ind sv)) \<longrightarrow> disk sfs' x = disk sfs x)"

lemma new_block_fresh: "file_good sv sfs \<Longrightarrow> new_block b sfs sfs' \<Longrightarrow> b \<notin> set (ptrs sv sfs)"
  by (auto simp: file_ok_def ptrs_ok_def new_block_def)

lemma new_block_words:
  assumes "file_good sv sfs" and "new_block b sfs sfs'"
  shows "indirect_words (disk sfs') sv = indirect_words (disk sfs) sv"
proof -
  have "unat (ind sv) \<noteq> unat b" if "ind sv \<noteq> 0"
    using indirect_inside(2) [OF assms(1) that] assms(2) by (auto simp: new_block_def)
  then show ?thesis using assms(2) by (simp add: indirect_words_def new_block_def)
qed

lemma grown_ok:
  assumes "fs_good sfs" "file_good sv sfs" and "fs_good sfs'" "new_block b sfs sfs'" and "i < 144"
    and "length (sfi_direct (sv_i sv')) = 15" and "ptrs sv' sfs' = (ptrs sv sfs)[i := b]"
  shows "file_good sv' sfs'"
proof -
  have "ptrs_ok ((ptrs sv sfs)[i := b]) sfs'" using assms(2,4,5) length_ptrs [OF assms(1,2)]
    by (intro ptrs_ok_add [of _ sfs] new_block_fresh [OF assms(2,4)]) (auto simp: file_ok_def new_block_def)
  then show ?thesis using assms(6,7) by (simp add: file_ok_def)
qed

lemma grown_direct:
  assumes "fs_good sfs" "file_good sv sfs" and "fs_good sfs'" "new_block b sfs sfs'" and "k < 15"
  shows "grown k b sv sfs (sv\<lparr>sv_i := (sv_i sv)\<lparr>sfi_direct := (sfi_direct (sv_i sv))[k := b]\<rparr>, sv_dirty := True\<rparr>) sfs'"
    (is "grown _ _ _ _ ?sv _")
proof -
  have "length (sfi_direct (sv_i sv)) = 15" using assms(2) by (simp add: file_ok_def)
  moreover have "indirect_words (disk sfs') ?sv = indirect_words (disk sfs) sv"
    using new_block_words [OF assms(2,4)] by (cases "ind sv = 0") (simp_all add: indirect_words_def)
  ultimately have "ptrs ?sv sfs' = (ptrs sv sfs)[k := b]" "length (sfi_direct (sv_i ?sv)) = 15"
    using assms(5) by (simp_all add: file_ptrs_def list_update_append)
  moreover from this have "file_good ?sv sfs'" using assms(5) by (intro grown_ok [OF assms(1-4)]) auto
  ultimately show ?thesis using assms(3,4) by (auto simp: grown_def new_block_def)
qed

lemma grown_indirect:
  assumes "fs_good sfs" "file_good sv sfs" and "fs_good sfs'" "new_block b sfs sfs'" and "ind sv = 0"
  shows "grown 15 b sv sfs (sv\<lparr>sv_i := (sv_i sv)\<lparr>sfi_indirect := b\<rparr>, sv_dirty := True\<rparr>) sfs'"
    (is "grown _ _ _ _ ?sv _")
proof -
  have d: "length (sfi_direct (sv_i sv)) = 15" using assms(2) by (simp add: file_ok_def)
  moreover have "indirect_words (disk sfs') ?sv = indirect_words (disk sfs) sv"
    using assms(4,5) by (simp add: indirect_words_def new_block_def)
  ultimately have "ptrs ?sv sfs' = (ptrs sv sfs)[15 := b]" by (simp add: file_ptrs_def list_update_append)
  moreover from this have "file_good ?sv sfs'" using d by (intro grown_ok [OF assms(1-4)]) auto
  ultimately show ?thesis using assms(3,4) by (auto simp: grown_def new_block_def)
qed

lemma grown_entry:
  assumes fs: "fs_good sfs" "file_good sv sfs" and b: "fs_good sfs'" "new_block b sfs sfs'" and "i < 128"
    and ind: "ind sv \<noteq> 0"
  obtains sfs2 where "sfs_writeblock io (ind sv) (words_block ((indirect_words (disk sfs) sv)[i := b])) sfs' = Inr (0, sfs2)"
    and "grown (16 + i) b sv sfs sv sfs2"
proof -
  let ?ws = "(indirect_words (disk sfs) sv)[i := b]"
  note len = length_indirect_words [OF fs]
  have "unat (ind sv) < unat (sb_nblocks sfs')" using indirect_inside(1) [OF fs(2) ind] b(2) by (simp add: new_block_def)
  from write_block [OF b(1) this, of "words_block ?ws"] len obtain d where
    d: "sfs_writeblock io (ind sv) (words_block ?ws) sfs' = Inr (0, sfs'\<lparr>sfs_device := d\<rparr>)"
    "fs_good (sfs'\<lparr>sfs_device := d\<rparr>)" "medium d = (disk sfs')(unat (ind sv) := words_block ?ws)" by auto
  let ?sfs = "sfs'\<lparr>sfs_device := d\<rparr>"
  have dl: "length (sfi_direct (sv_i sv)) = 15" using fs(2) by (simp add: file_ok_def)
  then have p: "ptrs sv ?sfs = (ptrs sv sfs)[16 + i := b]"
    using d(3) ind by (simp add: file_ptrs_def indirect_words_def list_update_append)
  have "ptrs_ok ((ptrs sv sfs)[16 + i := b]) ?sfs" using fs(2) b(2) assms(5) length_ptrs [OF fs]
    by (intro ptrs_ok_add [of _ sfs] new_block_fresh [OF fs(2) b(2)]) (auto simp: file_ok_def new_block_def)
  then have "file_good sv ?sfs" using dl p by (simp add: file_ok_def)
  moreover have "unat (ind sv) \<noteq> unat b" using indirect_inside(2) [OF fs(2) ind] b(2) by (auto simp: new_block_def)
  ultimately have "grown (16 + i) b sv sfs sv ?sfs" using d(2,3) p b(2) ind by (auto simp: grown_def new_block_def)
  then show ?thesis using that d(1) by blast
qed

end

context block_device
begin

abbreviation fmap :: "sfs_vnode \<Rightarrow> 'd sfs_fs \<Rightarrow> nat \<Rightarrow> u32" where "fmap sv sfs \<equiv> file_map (disk sfs) sv"

abbreviation used :: "'d sfs_fs \<Rightarrow> nat set" where "used sfs \<equiv> bm_set (sfs_freemap sfs)"

text \<open>The file system has only grown.\<close>

definition extends :: "sfs_vnode \<Rightarrow> 'd sfs_fs \<Rightarrow> sfs_vnode \<Rightarrow> 'd sfs_fs \<Rightarrow> bool" where
  "extends sv sfs sv' sfs' \<longleftrightarrow> fs_good sfs' \<and> file_good sv' sfs' \<and> sfi_size (sv_i sv') = sfi_size (sv_i sv) \<and> sfi_type (sv_i sv') = sfi_type (sv_i sv) \<and>
     sb_nblocks sfs' = sb_nblocks sfs \<and> used sfs \<subseteq> used sfs' \<and>
     (\<forall>p \<in> set (ptrs sv' sfs') - {0}. unat p \<in> used sfs \<longrightarrow> p \<in> set (ptrs sv sfs)) \<and>
     (\<forall>x \<in> used sfs. (ind sv \<noteq> 0 \<longrightarrow> x \<noteq> unat (ind sv)) \<longrightarrow> disk sfs' x = disk sfs x)"

lemma extends_refl: "fs_good sfs \<Longrightarrow> file_good sv sfs \<Longrightarrow> extends sv sfs sv sfs"
  by (simp add: extends_def)

lemma extends_grown: "grown i b sv sfs sv' sfs' \<Longrightarrow> extends sv sfs sv' sfs'"
  by (auto simp: extends_def grown_def dest!: set_update_subset_insert [THEN subsetD])

lemma extends_device:
  assumes "fs_good (sfs\<lparr>sfs_device := d\<rparr>)" and "medium d = disk sfs" and "file_good sv sfs"
  shows "extends sv sfs sv (sfs\<lparr>sfs_device := d\<rparr>)" and "file_good sv (sfs\<lparr>sfs_device := d\<rparr>)"
  using assms by (simp_all add: extends_def file_ok_def ptrs_ok_def)

definition bmap_done :: "nat \<Rightarrow> sfs_vnode \<Rightarrow> 'd sfs_fs \<Rightarrow> errno \<Rightarrow> u32 \<Rightarrow> sfs_vnode \<Rightarrow> 'd sfs_fs \<Rightarrow> bool" where
  "bmap_done k sv sfs e b sv' sfs' \<longleftrightarrow> extends sv sfs sv' sfs' \<and>
     (e = 0 \<and> b \<noteq> 0 \<and> fmap sv' sfs' = (fmap sv sfs)(k := b) \<and>
        (fmap sv sfs k \<noteq> 0 \<longrightarrow> b = fmap sv sfs k \<and> disk sfs' = disk sfs \<and> used sfs' = used sfs) \<and>
        (fmap sv sfs k = 0 \<longrightarrow> unat b \<notin> used sfs \<and> disk sfs' (unat b) = replicate 512 0) \<or>
      e = ENOSPC \<and> fmap sv sfs k = 0 \<and> fmap sv' sfs' = fmap sv sfs \<and> fs_full sfs')"

lemma fmap_update:
  assumes "fs_good sfs" "file_good sv sfs" and "ptrs sv' sfs' = (ptrs sv sfs)[(if k < 15 then k else k + 1) := b]" and "k < 143"
  shows "fmap sv' sfs' = (fmap sv sfs)(k := b)"
  using assms(3,4) length_ptrs [OF assms(1,2)] by (auto simp: file_map_def fun_eq_iff nth_list_update)

lemma fmap_update_15:
  assumes "ptrs sv' sfs' = (ptrs sv sfs)[15 := b]"
  shows "fmap sv' sfs' = fmap sv sfs"
  using assms by (auto simp: file_map_def fun_eq_iff nth_list_update)

lemma bmap_done_grown:
  assumes "fs_good sfs" "file_good sv sfs" and "grown (if k < 15 then k else k + 1) b sv sfs sv' sfs'" and "k < 143"
    and "fmap sv sfs k = 0"
  shows "bmap_done k sv sfs 0 b sv' sfs'"
  using assms(3,5) fmap_update [OF assms(1,2) _ assms(4), where sv' = sv' and sfs' = sfs' and b = b] extends_grown [OF assms(3)]
  by (auto simp: bmap_done_def grown_def)

lemma bmap_done_same:
  assumes "fs_good sfs" "file_good sv sfs" and "fmap sv sfs k = b" "b \<noteq> 0"
  shows "bmap_done k sv sfs 0 b sv sfs"
  using assms fun_upd_idem [of "fmap sv sfs" k b] by (simp add: bmap_done_def extends_refl)

lemma fmap_used:
  assumes "fs_good sfs" "file_good sv sfs" and "k < 143" and "fmap sv sfs k \<noteq> 0"
  shows "unat (fmap sv sfs k) < unat (sb_nblocks sfs) \<and> unat (fmap sv sfs k) \<in> used sfs"
  using assms(2-4) ptrs_ok_nth [of "ptrs sv sfs" sfs "if k < 15 then k else k + 1"] length_ptrs [OF assms(1,2)]
  by (simp add: file_ok_def file_map_def split: if_splits)

lemma bmap_direct_alloc:
  assumes fs: "fs_good sfs" "file_good sv sfs" and "k < 15"
  shows "\<exists>e b sv' sfs'. bmap_direct io k True sv sfs = Inr (e, b, sv', sfs') \<and> bmap_done k sv sfs e b sv' sfs'"
proof -
  have k: "k < length (sfi_direct (sv_i sv))" using fs(2) assms(3) by (simp add: file_ok_def)
  then have m: "fmap sv sfs k = sfi_direct (sv_i sv) ! k" using assms(3) by (simp add: file_map_def file_ptrs_def nth_append)
  show ?thesis
  proof (cases "fmap sv sfs k = 0")
    case True
    from fs(1) show ?thesis
    proof (cases rule: balloc_cases)
      case 1
      then show ?thesis using m True fs by (simp add: bmap_direct_def bmap_done_def extends_refl)
    next
      case (2 b sfs')
      note g = grown_direct [OF fs 2(2,3) assms(3)]
      then have "hand_back b sv' sfs' = Inr (0, b, sv', sfs')" for sv'
        by (intro hand_back_ok [OF 2(2)]) (simp add: grown_def)
      then show ?thesis using m True 2(1) g assms(3) by (simp add: bmap_direct_def bmap_done_grown [OF fs])
    qed
  next
    case False
    then have "hand_back (fmap sv sfs k) sv sfs = Inr (0, fmap sv sfs k, sv, sfs)"
      using assms(3) by (intro hand_back_ok [OF fs(1)] fmap_used [OF fs]) simp_all
    then show ?thesis using m False by (simp add: bmap_direct_def bmap_done_same [OF fs])
  qed
qed

lemma bmap_indirect_alloc:
  assumes fs: "fs_good sfs" "file_good sv sfs" and "i < 128" and ind: "ind sv \<noteq> 0"
  shows "\<exists>e b sv' sfs'. bmap_indirect io (ind sv) i (indirect_words (disk sfs) sv) True sv sfs = Inr (e, b, sv', sfs') \<and>
    bmap_done (15 + i) sv sfs e b sv' sfs'"
proof -
  have "length (sfi_direct (sv_i sv)) = 15" using fs(2) by (simp add: file_ok_def)
  then have m: "fmap sv sfs (15 + i) = indirect_words (disk sfs) sv ! i" by (simp add: file_map_def file_ptrs_def nth_append)
  show ?thesis
  proof (cases "fmap sv sfs (15 + i) = 0")
    case True
    from fs(1) show ?thesis
    proof (cases rule: balloc_cases)
      case 1
      then show ?thesis using m True fs by (simp add: bmap_indirect_def bmap_done_def extends_refl)
    next
      case (2 b sfs')
      from grown_entry [OF fs 2(2,3) assms(3) ind] obtain sfs2 where
        w: "sfs_writeblock io (ind sv) (words_block ((indirect_words (disk sfs) sv)[i := b])) sfs' = Inr (0, sfs2)"
        and g: "grown (16 + i) b sv sfs sv sfs2" .
      then have "hand_back b sv sfs2 = Inr (0, b, sv, sfs2)"
        by (intro hand_back_ok [of ok nblocks]) (simp_all add: grown_def)
      then show ?thesis using m True 2(1) w g assms(3)
        by (simp add: bmap_indirect_def bmap_done_grown [OF fs])
    qed
  next
    case False
    then have "hand_back (fmap sv sfs (15 + i)) sv sfs = Inr (0, fmap sv sfs (15 + i), sv, sfs)"
      using assms(3) by (intro hand_back_ok [OF fs(1)] fmap_used [OF fs]) simp_all
    then show ?thesis using m False by (simp add: bmap_indirect_def bmap_done_same [OF fs])
  qed
qed

end

context block_device
begin

lemma bmap_done_device:
  assumes "bmap_done k sv (sfs\<lparr>sfs_device := d\<rparr>) e b sv' sfs'" and "medium d = disk sfs"
  shows "bmap_done k sv sfs e b sv' sfs'"
  using assms by (simp add: bmap_done_def extends_def)

lemma bmap_done_after:
  assumes g: "grown 15 idb sv sfs sv1 sfs1" and i: "ind sv = 0" "ind sv1 = idb"
    and b: "bmap_done k sv1 sfs1 e b sv' sfs'" and z: "fmap sv sfs k = 0"
  shows "bmap_done k sv sfs e b sv' sfs'"
proof -
  have m: "fmap sv1 sfs1 = fmap sv sfs" using g by (intro fmap_update_15) (simp add: grown_def)
  have "extends sv1 sfs1 sv' sfs'" using b by (simp add: bmap_done_def)
  then have "extends sv sfs sv' sfs'" using extends_grown [OF g] g i by (fastforce simp: extends_def grown_def)
  moreover have "unat b \<notin> used sfs1 \<Longrightarrow> unat b \<notin> used sfs" using g by (simp add: grown_def)
  ultimately show ?thesis using b z by (auto simp: bmap_done_def m)
qed

lemma indirect_hole: "file_good sv sfs \<Longrightarrow> ind sv = 0 \<Longrightarrow> i < 128 \<Longrightarrow> fmap sv sfs (15 + i) = 0"
  by (simp add: file_ok_def file_map_def file_ptrs_def indirect_words_def nth_append)

lemma bmap_alloc:
  assumes fs: "fs_good sfs" "file_good sv sfs" and k: "k < 143"
  shows "\<exists>e b sv' sfs'. sfs_bmap io sv k True sfs = Inr (e, b, sv', sfs') \<and> bmap_done k sv sfs e b sv' sfs'"
proof (cases "k < 15")
  case True
  then show ?thesis using bmap_direct_alloc [OF fs] by (simp add: sfs_bmap_def)
next
  case False
  then obtain i where i: "k = 15 + i" "i < 128" using k le_Suc_ex [of 15 k] by auto
  show ?thesis
  proof (cases "ind sv = 0")
    case ind: True
    note z = indirect_hole [OF fs(2) ind i(2)]
    from fs(1) show ?thesis
    proof (cases rule: balloc_cases)
      case 1
      then show ?thesis using i ind z fs by (simp add: sfs_bmap_def bmap_done_def extends_refl)
    next
      case (2 idb sfs1)
      let ?sv = "sv\<lparr>sv_i := (sv_i sv)\<lparr>sfi_indirect := idb\<rparr>, sv_dirty := True\<rparr>"
      note g = grown_indirect [OF fs 2(2,3) ind]
      then have "indirect_words (disk sfs1) ?sv = replicate 128 0" "idb \<noteq> 0" "file_good ?sv sfs1"
        by (simp_all add: indirect_words_def grown_def)
      moreover from this obtain e b sv' sfs' where
        "bmap_indirect io idb i (replicate 128 0) True ?sv sfs1 = Inr (e, b, sv', sfs')" "bmap_done (15 + i) ?sv sfs1 e b sv' sfs'"
        using bmap_indirect_alloc [OF 2(2), of ?sv i] i(2) by auto
      moreover from this(2) have "bmap_done (15 + i) sv sfs e b sv' sfs'" by (intro bmap_done_after [OF g ind]) (simp_all add: z)
      ultimately show ?thesis using i ind 2(1) by (simp add: sfs_bmap_def del: replicate.simps)
    qed
  next
    case ind: False
    from read_block [OF fs(1) indirect_inside(1) [OF fs(2) ind]] obtain d where
      d: "sfs_readblock io (ind sv) sfs = Inr (0, disk sfs (unat (ind sv)), sfs\<lparr>sfs_device := d\<rparr>)"
      "fs_good (sfs\<lparr>sfs_device := d\<rparr>)" "medium d = disk sfs" by blast
    from bmap_indirect_alloc [OF d(2) extends_device(2) [OF d(2,3) fs(2)] i(2) ind] obtain e b sv' sfs' where
      "bmap_indirect io (ind sv) i (block_words (disk sfs (unat (ind sv)))) True sv (sfs\<lparr>sfs_device := d\<rparr>) = Inr (e, b, sv', sfs')"
      "bmap_done (15 + i) sv (sfs\<lparr>sfs_device := d\<rparr>) e b sv' sfs'" using d(3) ind by (auto simp: indirect_words_def)
    then show ?thesis using i ind d by (auto simp: sfs_bmap_def intro: bmap_done_device)
  qed
qed

text \<open>Without allocation the map is only looked up.\<close>

lemma bmap_lookup:
  assumes fs: "fs_good sfs" "file_good sv sfs" and k: "k < 143"
  shows "\<exists>d. sfs_bmap io sv k False sfs = Inr (0, fmap sv sfs k, sv, sfs\<lparr>sfs_device := d\<rparr>) \<and>
    fs_good (sfs\<lparr>sfs_device := d\<rparr>) \<and> medium d = disk sfs"
proof -
  have hb: "hand_back (fmap sv sfs k) sv sfs = Inr (0, fmap sv sfs k, sv, sfs)"
    by (rule hand_back_ok [OF fs(1) fmap_used [OF fs k]])
  have dir: "length (sfi_direct (sv_i sv)) = 15" using fs(2) by (simp add: file_ok_def)
  show ?thesis
  proof (cases "k < 15")
    case True
    then have "sfi_direct (sv_i sv) ! k = fmap sv sfs k" using dir by (simp add: file_map_def file_ptrs_def nth_append)
    then show ?thesis using True hb fs by (intro exI [of _ "sfs_device sfs"]) (simp add: sfs_bmap_def bmap_direct_def)
  next
    case False
    then obtain i where i: "k = 15 + i" "i < 128" using k le_Suc_ex [of 15 k] by auto
    show ?thesis
    proof (cases "ind sv = 0")
      case True
      then show ?thesis using i indirect_hole [OF fs(2) True i(2)] fs
        by (intro exI [of _ "sfs_device sfs"]) (simp add: sfs_bmap_def)
    next
      case ind: False
      from read_block [OF fs(1) indirect_inside(1) [OF fs(2) ind]] obtain d where
        d: "sfs_readblock io (ind sv) sfs = Inr (0, disk sfs (unat (ind sv)), sfs\<lparr>sfs_device := d\<rparr>)"
        "fs_good (sfs\<lparr>sfs_device := d\<rparr>)" "medium d = disk sfs" by blast
      have "block_words (disk sfs (unat (ind sv))) ! i = fmap sv sfs k"
        using i ind dir by (simp add: file_map_def file_ptrs_def indirect_words_def nth_append)
      moreover have "hand_back (fmap sv sfs k) sv (sfs\<lparr>sfs_device := d\<rparr>) = Inr (0, fmap sv sfs k, sv, sfs\<lparr>sfs_device := d\<rparr>)"
        using fmap_used [OF fs k] by (intro hand_back_ok [OF d(2)]) simp
      ultimately show ?thesis using i ind d by (intro exI [of _ d]) (simp add: sfs_bmap_def bmap_indirect_def)
    qed
  qed
qed

end

section \<open>Dropping blocks\<close>

definition zeroed :: "(nat \<Rightarrow> bool) \<Rightarrow> u32 list \<Rightarrow> u32 list" where
  "zeroed P ps = map (\<lambda>j. if P j then 0 else ps ! j) [0..<length ps]"

lemma length_zeroed [simp]: "length (zeroed P ps) = length ps"
  by (simp add: zeroed_def)

lemma nth_zeroed [simp]: "j < length ps \<Longrightarrow> zeroed P ps ! j = (if P j then 0 else ps ! j)"
  by (simp add: zeroed_def)

lemma zeroed_cong: "(\<And>j. j < length ps \<Longrightarrow> ps ! j \<noteq> 0 \<Longrightarrow> P j = Q j) \<Longrightarrow> zeroed P ps = zeroed Q ps"
  unfolding zeroed_def by (rule map_cong) (simp, metis atLeastLessThan_iff set_upt)

lemma zeroed_update: "(zeroed P ps)[i := 0] = zeroed (\<lambda>j. P j \<or> j = i) ps"
proof (rule nth_equalityI)
  fix j assume "j < length ((zeroed P ps)[i := 0])"
  then show "(zeroed P ps)[i := 0] ! j = zeroed (\<lambda>j. P j \<or> j = i) ps ! j" by (cases "j = i") simp_all
qed simp

text \<open>The pointers at the positions \<open>P\<close> have been given up and their blocks freed.\<close>

definition dropped :: "(nat \<Rightarrow> bool) \<Rightarrow> u32 list \<Rightarrow> 'd sfs_fs \<Rightarrow> 'd sfs_fs \<Rightarrow> bool" where
  "dropped P ps sfs sfs' \<longleftrightarrow> ptrs_ok (zeroed P ps) sfs' \<and> sb_nblocks sfs' = sb_nblocks sfs \<and>
     bm_set (sfs_freemap sfs') = bm_set (sfs_freemap sfs) - {unat (ps ! j) |j. j < length ps \<and> P j \<and> ps ! j \<noteq> 0}"

lemma dropped_cong:
  assumes "\<And>j. j < length ps \<Longrightarrow> ps ! j \<noteq> 0 \<Longrightarrow> P j = Q j"
  shows "dropped P ps sfs sfs' = dropped Q ps sfs sfs'"
proof -
  have "{unat (ps ! j) |j. j < length ps \<and> P j \<and> ps ! j \<noteq> 0} = {unat (ps ! j) |j. j < length ps \<and> Q j \<and> ps ! j \<noteq> 0}"
    using assms by blast
  moreover have "zeroed P ps = zeroed Q ps" by (rule zeroed_cong [OF assms])
  ultimately show ?thesis by (simp only: dropped_def)
qed

lemma zeroed_False [simp]: "zeroed (\<lambda>j. False) ps = ps"
  by (simp add: zeroed_def map_nth)

lemma dropped_none: "ptrs_ok ps sfs \<Longrightarrow> dropped (\<lambda>j. False) ps sfs sfs"
  by (simp add: dropped_def)

lemma dropped_device: "dropped P ps sfs (sfs'\<lparr>sfs_device := d\<rparr>) = dropped P ps sfs sfs'"
proof -
  have "sfs_freemap (sfs'\<lparr>sfs_device := d\<rparr>) = sfs_freemap sfs'" "sb_nblocks (sfs'\<lparr>sfs_device := d\<rparr>) = sb_nblocks sfs'"
    by simp_all
  then show ?thesis by (simp only: dropped_def ptrs_ok_def)
qed

lemma dropped_free:
  assumes d: "dropped P ps sfs sfs1" and fs: "fs_ok ok nblks sfs1" and i: "i < length ps" "\<not> P i" "ps ! i \<noteq> 0"
  shows "\<exists>sfs2. sfs_bfree (ps ! i) sfs1 = Inr sfs2 \<and> dropped (\<lambda>j. P j \<or> j = i) ps sfs sfs2 \<and> fs_ok ok nblks sfs2 \<and>
    sfs_device sfs2 = sfs_device sfs1"
proof -
  have u: "unat (ps ! i) < unat (sb_nblocks sfs1)" "unat (ps ! i) \<in> bm_set (sfs_freemap sfs1)"
    using d i ptrs_ok_nth [of "zeroed P ps" sfs1 i] by (simp_all add: dropped_def)
  from bm.unmark_old [OF _ u(2)] fs obtain m where m: "bitmap_unmark (unat (ps ! i)) (sfs_freemap sfs1) = Inr m"
    "bitmap_inv m" "bm_size m = bm_size (sfs_freemap sfs1)" "bm_set m = bm_set (sfs_freemap sfs1) - {unat (ps ! i)}"
    by (auto simp: fs_ok_def)
  let ?sfs = "sfs1\<lparr>sfs_freemap := m, sfs_freemapdirty := True\<rparr>"
  have "ptrs_ok ((zeroed P ps)[i := 0]) ?sfs" using d i m(4)
    by (intro ptrs_ok_drop [of _ sfs1]) (simp_all add: dropped_def)
  moreover have "bm_set m = bm_set (sfs_freemap sfs) - {unat (ps ! j) |j. j < length ps \<and> (P j \<or> j = i) \<and> ps ! j \<noteq> 0}"
    using d m(4) i by (auto simp: dropped_def)
  ultimately have "dropped (\<lambda>j. P j \<or> j = i) ps sfs ?sfs" using d by (simp add: dropped_def zeroed_update)
  moreover have "unat (ps ! i) \<noteq> 0" using i(3) by (simp add: word_unat_eq_iff)
  then have "fs_ok ok nblks ?sfs" using fs u(1) m(2-4) by (auto simp: fs_ok_def)
  ultimately show ?thesis using m(1) by (simp add: sfs_bfree_def)
qed

lemma dropped_range:
  assumes "ptrs_ok ps sfs"
  shows "{unat (ps ! j) |j. j < length ps \<and> P j \<and> ps ! j \<noteq> 0} = unat ` (set ps - set (zeroed P ps))"
proof -
  have "ps ! j \<notin> set (zeroed P ps)" if "j < length ps" "P j" "ps ! j \<noteq> 0" for j
    using that assms unfolding ptrs_ok_def nz_distinct_def by (fastforce simp: zeroed_def)
  moreover have "P j \<and> ps ! j \<noteq> 0" if "j < length ps" "ps ! j \<notin> set (zeroed P ps)" for j
  proof -
    have "zeroed P ps ! j \<in> set (zeroed P ps)" using that(1) by (intro nth_mem) simp
    then show ?thesis using that by (auto split: if_splits)
  qed
  ultimately show ?thesis
  proof (intro equalityI subsetI, goal_cases)
    case (1 x)
    then show ?case by auto
  next
    case (2 x)
    from 2(3) obtain p where p: "p \<in> set ps" "p \<notin> set (zeroed P ps)" "x = unat p" by blast
    from p(1) obtain j where "j < length ps" "p = ps ! j" by (auto simp: in_set_conv_nth)
    then show ?case using p(2,3) 2(2) by blast
  qed
qed

section \<open>Truncation\<close>

text \<open>The number of blocks that a file of length \<open>len\<close> has, as the code computes it.\<close>

definition trunc_blocks :: "nat \<Rightarrow> nat" where
  "trunc_blocks len = unat (of_nat ((len + SFS_BLOCKSIZE - 1) div SFS_BLOCKSIZE) :: u32)"

text \<open>The positions of the list of block pointers that truncation gives up.\<close>

definition cut_direct :: "nat \<Rightarrow> nat \<Rightarrow> nat \<Rightarrow> bool" where
  "cut_direct n i j \<longleftrightarrow> n \<le> j \<and> j < i"

definition cut :: "nat \<Rightarrow> nat \<Rightarrow> nat \<Rightarrow> bool" where
  "cut n i j \<longleftrightarrow> cut_direct n 15 j \<or> 16 \<le> j \<and> j < 16 + i \<and> n < j - 1"

context block_device
begin

lemma trunc_direct_loop:
  assumes fs: "fs_good sfs" "file_good sv sfs"
  shows "\<exists>sv' sfs'. kfor [0..<15] (trunc_direct n) (sv, sfs) = Inr (sv', sfs') \<and> fs_good sfs' \<and>
    dropped (cut_direct n 15) (ptrs sv sfs) sfs sfs' \<and> sfs_device sfs' = sfs_device sfs \<and> ind sv' = ind sv \<and>
    sfi_direct (sv_i sv') = take 15 (zeroed (cut_direct n 15) (ptrs sv sfs))"
proof -
  let ?ps = "ptrs sv sfs"
  let ?I = "\<lambda>i (sv', sfs'). fs_good sfs' \<and> dropped (cut_direct n i) ?ps sfs sfs' \<and> sfs_device sfs' = sfs_device sfs \<and>
    ind sv' = ind sv \<and> sfi_direct (sv_i sv') = take 15 (zeroed (cut_direct n i) ?ps)"
  note len = length_ptrs [OF fs]
  have dir: "length (sfi_direct (sv_i sv)) = 15" using fs(2) by (simp add: file_ok_def)
  have z: "cut_direct n 0 = (\<lambda>j. False)" by (simp add: cut_direct_def fun_eq_iff)
  have start: "?I 0 (sv, sfs)" unfolding z prod.case
    using fs dropped_none [of ?ps sfs] dir by (simp add: file_ok_def) (simp add: file_ptrs_def)
  have step: "\<exists>s'. trunc_direct n i s = Inr s' \<and> ?I (Suc i) s'" if i: "i < 15" and I: "?I i s" for i s
  proof -
    obtain sv1 sfs1 where s: "s = (sv1, sfs1)" by (cases s)
    have I': "fs_good sfs1" "dropped (cut_direct n i) ?ps sfs sfs1" "sfs_device sfs1 = sfs_device sfs"
      "ind sv1 = ind sv" "sfi_direct (sv_i sv1) = take 15 (zeroed (cut_direct n i) ?ps)" using I s by auto
    have b: "sfi_direct (sv_i sv1) ! i = ?ps ! i" using i len by (simp add: I'(5) cut_direct_def)
    show ?thesis
    proof (cases "n \<le> i \<and> ?ps ! i \<noteq> 0")
      case True
      have c: "(\<lambda>j. cut_direct n i j \<or> j = i) = cut_direct n (Suc i)" using True by (auto simp: cut_direct_def fun_eq_iff)
      have "\<not> cut_direct n i i" by (simp add: cut_direct_def)
      with dropped_free [OF I'(2,1), of i, unfolded c] True i len obtain sfs2 where "sfs_bfree (?ps ! i) sfs1 = Inr sfs2"
        "dropped (cut_direct n (Suc i)) ?ps sfs sfs2" "fs_good sfs2" "sfs_device sfs2 = sfs_device sfs1"
        by auto
      moreover have "(take 15 (zeroed (cut_direct n i) ?ps))[i := 0] = take 15 (zeroed (cut_direct n (Suc i)) ?ps)"
        by (simp only: take_update_swap [symmetric] zeroed_update c)
      ultimately show ?thesis using s b True I' by (simp add: trunc_direct_def)
    next
      case False
      then have c: "cut_direct n i j = cut_direct n (Suc i) j" if "?ps ! j \<noteq> 0" for j
        using that by (auto simp: cut_direct_def less_Suc_eq)
      have "trunc_direct n i s = Inr s" using False s b by (auto simp: trunc_direct_def)
      then show ?thesis using I' s c dropped_cong [of ?ps "cut_direct n i" "cut_direct n (Suc i)" sfs sfs1]
        zeroed_cong [of ?ps "cut_direct n i" "cut_direct n (Suc i)"] by simp
    qed
  qed
  from kfor_upt_invariant [of ?I "(sv, sfs)" 15 "trunc_direct n", OF start step] show ?thesis by auto
qed

end

context block_device
begin

lemma trunc_indirect_loop:
  assumes len: "length ps = 144" and fs: "fs_good sfs1" and d: "dropped (cut n 0) ps sfs sfs1"
  shows "\<exists>dirty sfs'. kfor [0..<128] (trunc_indirect n) (drop 16 ps, False, False, sfs1) =
      Inr (drop 16 (zeroed (cut n 128) ps), \<exists>j < 128. zeroed (cut n 128) ps ! (16 + j) \<noteq> 0, dirty, sfs') \<and>
    fs_good sfs' \<and> dropped (cut n 128) ps sfs sfs' \<and> sfs_device sfs' = sfs_device sfs1 \<and>
    (\<not> dirty \<longrightarrow> drop 16 (zeroed (cut n 128) ps) = drop 16 ps)"
proof -
  let ?I = "\<lambda>i (idbuf, nz, dirty, sfs'). idbuf = drop 16 (zeroed (cut n i) ps) \<and>
    (nz \<longleftrightarrow> (\<exists>j < i. zeroed (cut n i) ps ! (16 + j) \<noteq> 0)) \<and> fs_good sfs' \<and> dropped (cut n i) ps sfs sfs' \<and>
    sfs_device sfs' = sfs_device sfs1 \<and> (\<not> dirty \<longrightarrow> idbuf = drop 16 ps)"
  have "drop 16 (zeroed (cut n 0) ps) = drop 16 ps"
    by (rule nth_equalityI) (auto simp: len cut_def cut_direct_def)
  then have start: "?I 0 (drop 16 ps, False, False, sfs1)" using fs d by simp
  have step: "\<exists>s'. trunc_indirect n i s = Inr s' \<and> ?I (Suc i) s'" if i: "i < 128" and I: "?I i s" for i s
  proof -
    obtain idbuf nz dirty sfs2 where s: "s = (idbuf, nz, dirty, sfs2)" by (cases s)
    have I': "idbuf = drop 16 (zeroed (cut n i) ps)" "nz \<longleftrightarrow> (\<exists>j < i. zeroed (cut n i) ps ! (16 + j) \<noteq> 0)" "fs_good sfs2"
      "dropped (cut n i) ps sfs sfs2" "sfs_device sfs2 = sfs_device sfs1" "\<not> dirty \<longrightarrow> idbuf = drop 16 ps" using I s by auto
    have b: "idbuf ! i = ps ! (16 + i)" using i len by (simp add: I'(1) cut_def cut_direct_def)
    have old: "zeroed (cut n (Suc i)) ps ! (16 + j) = zeroed (cut n i) ps ! (16 + j)" if "j < i" for j
      using that i len by (simp add: cut_def)
    have new: "zeroed (cut n (Suc i)) ps ! (16 + i) = (if n < 15 + i then 0 else ps ! (16 + i))"
      using i len by (simp add: cut_def cut_direct_def)
    have nz: "(\<exists>j < Suc i. zeroed (cut n (Suc i)) ps ! (16 + j) \<noteq> 0) \<longleftrightarrow> nz \<or> \<not> n < 15 + i \<and> ps ! (16 + i) \<noteq> 0"
      unfolding I'(2) by (auto simp: less_Suc_eq old new split: if_splits)
    show ?thesis
    proof (cases "n < 15 + i \<and> ps ! (16 + i) \<noteq> 0")
      case True
      have c: "(\<lambda>j. cut n i j \<or> j = 16 + i) = cut n (Suc i)" using True by (auto simp: cut_def fun_eq_iff less_Suc_eq)
      have "\<not> cut n i (16 + i)" by (simp add: cut_def cut_direct_def)
      with dropped_free [OF I'(4,3), of "16 + i", unfolded c] True i len obtain sfs3 where
        f: "sfs_bfree (ps ! (16 + i)) sfs2 = Inr sfs3" "dropped (cut n (Suc i)) ps sfs sfs3" "fs_good sfs3"
        "sfs_device sfs3 = sfs_device sfs2" by auto
      have u: "idbuf[i := 0] = drop 16 (zeroed (cut n (Suc i)) ps)" using drop_update_swap [of 16 "16 + i" "zeroed (cut n i) ps" 0]
        by (simp add: I'(1) zeroed_update c)
      then have "trunc_indirect n i s = Inr (drop 16 (zeroed (cut n (Suc i)) ps), nz, True, sfs3)"
        using s b True f(1) i len new by (simp add: trunc_indirect_def)
      then show ?thesis using f I'(5) nz True by auto
    next
      case False
      then have c: "cut n i j = cut n (Suc i) j" if "ps ! j \<noteq> 0" for j
        using that by (cases "j = 16 + i") (auto simp: cut_def cut_direct_def)
      have "trunc_indirect n i s = Inr (idbuf, nz \<or> ps ! (16 + i) \<noteq> 0, dirty, sfs2)" using False s b by (auto simp: trunc_indirect_def)
      then show ?thesis using I' nz False c dropped_cong [of ps "cut n i" "cut n (Suc i)" sfs sfs2]
        zeroed_cong [of ps "cut n i" "cut n (Suc i)"] by auto
    qed
  qed
  from kfor_upt_invariant [of ?I "(drop 16 ps, False, False, sfs1)" 128 "trunc_indirect n", OF start step] show ?thesis by auto
qed

end

context block_device
begin

definition truncated :: "nat \<Rightarrow> sfs_vnode \<Rightarrow> 'd sfs_fs \<Rightarrow> sfs_vnode \<Rightarrow> 'd sfs_fs \<Rightarrow> bool" where
  "truncated n sv sfs sv' sfs' \<longleftrightarrow> fs_good sfs' \<and> file_good sv' sfs' \<and> sb_nblocks sfs' = sb_nblocks sfs \<and>
     (\<forall>x. (ind sv \<noteq> 0 \<longrightarrow> x \<noteq> unat (ind sv)) \<longrightarrow> disk sfs' x = disk sfs x) \<and>
     (\<forall>k < 143. fmap sv' sfs' k = (if (if k < 15 then n \<le> k else n < k) then 0 else fmap sv sfs k)) \<and>
     used sfs' = used sfs - unat ` (set (ptrs sv sfs) - set (ptrs sv' sfs'))"

lemma ptrs_split: "length ps = 144 \<Longrightarrow> ps = take 15 ps @ ps ! 15 # drop 16 ps"
  using id_take_nth_drop [of 15 ps] by simp

lemma truncated_intro:
  assumes fs: "fs_good sfs" "file_good sv sfs" and fs': "fs_good sfs'" "length (sfi_direct (sv_i sv')) = 15"
    and p: "ptrs sv' sfs' = zeroed Q (ptrs sv sfs)" and d: "dropped Q (ptrs sv sfs) sfs sfs'"
    and "\<And>x. (ind sv \<noteq> 0 \<longrightarrow> x \<noteq> unat (ind sv)) \<Longrightarrow> disk sfs' x = disk sfs x"
    and Q: "\<And>j. j < 144 \<Longrightarrow> j \<noteq> 15 \<Longrightarrow> ptrs sv sfs ! j \<noteq> 0 \<Longrightarrow> Q j = cut n 128 j"
  shows "truncated n sv sfs sv' sfs'"
proof -
  have "fmap sv' sfs' k = (if (if k < 15 then n \<le> k else n < k) then 0 else fmap sv sfs k)" if k: "k < 143" for k
  proof -
    let ?j = "if k < 15 then k else k + 1"
    have "fmap sv' sfs' k = (if Q ?j then 0 else fmap sv sfs k)"
      using k length_ptrs [OF fs] by (simp add: file_map_def p)
    moreover have "fmap sv sfs k \<noteq> 0 \<Longrightarrow> Q ?j = cut n 128 ?j" using k by (intro Q) (auto simp: file_map_def)
    moreover have "cut n 128 ?j \<longleftrightarrow> (if k < 15 then n \<le> k else n < k)" using k by (auto simp: cut_def cut_direct_def)
    ultimately show ?thesis by (cases "fmap sv sfs k = 0") (simp_all only: if_cancel not_False_eq_True)
  qed
  moreover have "ptrs_ok (ptrs sv sfs) sfs" using fs(2) by (simp add: file_ok_def)
  then have "used sfs' = used sfs - unat ` (set (ptrs sv sfs) - set (ptrs sv' sfs'))"
    using d by (simp add: dropped_def p dropped_range)
  moreover have "file_good sv' sfs'" using d fs'(2) p by (simp add: file_ok_def dropped_def)
  ultimately show ?thesis using assms(7) fs'(1) d by (simp add: truncated_def dropped_def)
qed

text \<open>The second half of \<^verbatim>\<open>sfs_itrunc\<close>: \<open>sv1\<close> and \<open>sfs1\<close> are the states after the direct blocks.\<close>

lemma trunc_rest:
  assumes fs: "fs_good sfs" "file_good sv sfs"
    and s1: "fs_good sfs1" "dropped (cut_direct n 15) (ptrs sv sfs) sfs sfs1" "sfs_device sfs1 = sfs_device sfs" "ind sv1 = ind sv"
      "sfi_direct (sv_i sv1) = take 15 (zeroed (cut_direct n 15) (ptrs sv sfs))"
    and ind: "ind sv \<noteq> 0"
  obtains d idbuf nz dirty sfs2 where
    "sfs_readblock io (ind sv) sfs1 = Inr (0, disk sfs (unat (ind sv)), sfs1\<lparr>sfs_device := d\<rparr>)"
    "kfor [0..<128] (trunc_indirect n) (block_words (disk sfs (unat (ind sv))), False, False, sfs1\<lparr>sfs_device := d\<rparr>) =
       Inr (idbuf, nz, dirty, sfs2)"
    "idbuf = drop 16 (zeroed (cut n 128) (ptrs sv sfs))" "fs_good sfs2" "disk sfs2 = disk sfs"
    "dropped (cut n 128) (ptrs sv sfs) sfs sfs2" "\<not> nz \<longrightarrow> idbuf = replicate 128 0"
    "\<not> dirty \<longrightarrow> idbuf = indirect_words (disk sfs) sv"
proof -
  let ?ps = "ptrs sv sfs"
  note len = length_ptrs [OF fs]
  have "unat (ind sv) < unat (sb_nblocks sfs1)" using indirect_inside(1) [OF fs(2) ind] s1(2) by (simp add: dropped_def)
  from read_block [OF s1(1) this] obtain d where
    d: "sfs_readblock io (ind sv) sfs1 = Inr (0, disk sfs (unat (ind sv)), sfs1\<lparr>sfs_device := d\<rparr>)"
    "fs_good (sfs1\<lparr>sfs_device := d\<rparr>)" "medium d = disk sfs" using s1(3) by auto
  have c: "cut n 0 = cut_direct n 15" by (auto simp: cut_def fun_eq_iff)
  then have "dropped (cut n 0) ?ps sfs (sfs1\<lparr>sfs_device := d\<rparr>)" using s1(2) by (simp add: dropped_device)
  from trunc_indirect_loop [OF len d(2) this] obtain dirty sfs2 where
    l: "kfor [0..<128] (trunc_indirect n) (drop 16 ?ps, False, False, sfs1\<lparr>sfs_device := d\<rparr>) =
      Inr (drop 16 (zeroed (cut n 128) ?ps), \<exists>j < 128. zeroed (cut n 128) ?ps ! (16 + j) \<noteq> 0, dirty, sfs2)"
    "fs_good sfs2" "dropped (cut n 128) ?ps sfs sfs2" "sfs_device sfs2 = d"
    "\<not> dirty \<longrightarrow> drop 16 (zeroed (cut n 128) ?ps) = drop 16 ?ps" by auto
  have w: "drop 16 ?ps = indirect_words (disk sfs) sv" using fs(2) by (simp add: file_ptrs_def file_ok_def)
  have z: "drop 16 (zeroed (cut n 128) ?ps) = replicate 128 0" if "\<not> (\<exists>j < 128. zeroed (cut n 128) ?ps ! (16 + j) \<noteq> 0)"
    using that len by (intro nth_equalityI) (simp_all del: nth_zeroed replicate.simps)
  have iw: "indirect_words (disk sfs) sv = block_words (disk sfs (unat (ind sv)))" using ind by (simp add: indirect_words_def)
  show ?thesis using that [OF d(1) l(1) [unfolded w iw] refl l(2)] d(3) l(3-5) w z iw by simp
qed

end

context block_device
begin

lemma take_zeroed: "(\<And>j. j < n \<Longrightarrow> P j = Q j) \<Longrightarrow> take n (zeroed P ps) = take n (zeroed Q ps)"
  by (rule nth_equalityI) simp_all

lemma itrunc_truncates:
  assumes fs: "fs_good sfs" "file_good sv sfs"
  shows "\<exists>sv' sfs'. sfs_itrunc io sv len sfs = Inr (0, sv', sfs') \<and> truncated (trunc_blocks len) sv sfs sv' sfs' \<and>
    sfi_size (sv_i sv') = of_nat len"
proof -
  define n where "n = trunc_blocks len"
  let ?ps = "ptrs sv sfs"
  note plen = length_ptrs [OF fs]
  have ps: "?ps ! 15 = ind sv" "drop 16 ?ps = indirect_words (disk sfs) sv" "drop 15 ?ps = ind sv # indirect_words (disk sfs) sv"
    using fs(2) by (simp_all add: file_ptrs_def file_ok_def nth_append)
  from trunc_direct_loop [OF fs, of n] obtain sv1 sfs1 where
    l: "kfor [0..<15] (trunc_direct n) (sv, sfs) = Inr (sv1, sfs1)" and s1: "fs_good sfs1"
      "dropped (cut_direct n 15) ?ps sfs sfs1" "sfs_device sfs1 = sfs_device sfs" "ind sv1 = ind sv"
      "sfi_direct (sv_i sv1) = take 15 (zeroed (cut_direct n 15) ?ps)" by blast
  have t: "take 15 (zeroed (cut_direct n 15) ?ps) = take 15 (zeroed (cut n 128) ?ps)"
    by (rule take_zeroed) (simp add: cut_def)
  show ?thesis
  proof (cases "n < 142 \<and> ind sv \<noteq> 0")
    case False
    have "drop 15 (zeroed (cut_direct n 15) ?ps) = drop 15 ?ps"
      by (rule nth_equalityI) (simp_all add: plen cut_direct_def)
    moreover have "indirect_words (disk sfs1) (set_size len sv1) = indirect_words (disk sfs) sv"
      using s1(3,4) by (simp add: indirect_words_def set_size_def)
    then have "ptrs (set_size len sv1) sfs1 = sfi_direct (sv_i sv1) @ ind sv # indirect_words (disk sfs) sv"
      using s1(4) by (simp add: file_ptrs_def set_size_def)
    ultimately have "ptrs (set_size len sv1) sfs1 = zeroed (cut_direct n 15) ?ps"
      using append_take_drop_id [of 15 "zeroed (cut_direct n 15) ?ps"] by (simp only: ps(3) s1(5))
    moreover have "cut_direct n 15 j = cut n 128 j" if j: "j < 144" "j \<noteq> 15" "?ps ! j \<noteq> 0" for j
    proof (cases "ind sv = 0")
      case True
      then have "?ps ! j = 0" if "16 \<le> j" using that j(1) fs(2)
        by (simp add: file_ptrs_def indirect_words_def file_ok_def nth_append nth_Cons')
      then show ?thesis using j(3) by (auto simp: cut_def)
    next
      case n: False
      then show ?thesis using j(1) False by (auto simp: cut_def)
    qed
    ultimately have "truncated n sv sfs (set_size len sv1) sfs1" using s1 plen
      by (intro truncated_intro [OF fs, where Q = "cut_direct n 15"]) (simp_all add: set_size_def)
    then show ?thesis using False l s1(4) by (auto simp: sfs_itrunc_def n_def trunc_blocks_def set_size_def)
  next
    case True
    then have ind: "ind sv \<noteq> 0" by simp
    from trunc_rest [OF fs s1 ind] obtain d idbuf nz dirty sfs2 where
      r: "sfs_readblock io (ind sv) sfs1 = Inr (0, disk sfs (unat (ind sv)), sfs1\<lparr>sfs_device := d\<rparr>)"
        "kfor [0..<128] (trunc_indirect n) (block_words (disk sfs (unat (ind sv))), False, False, sfs1\<lparr>sfs_device := d\<rparr>) =
          Inr (idbuf, nz, dirty, sfs2)"
      and s2: "idbuf = drop 16 (zeroed (cut n 128) ?ps)" "fs_good sfs2" "disk sfs2 = disk sfs"
        "dropped (cut n 128) ?ps sfs sfs2" "\<not> nz \<longrightarrow> idbuf = replicate 128 0" "\<not> dirty \<longrightarrow> idbuf = indirect_words (disk sfs) sv"
      by metis
    have cut15: "zeroed (cut n 128) ?ps ! 15 = ind sv" "\<not> cut n 128 15" using ps(1) plen by (simp_all add: cut_def cut_direct_def)
    have zs: "zeroed (cut n 128) ?ps = sfi_direct (sv_i sv1) @ ind sv # idbuf"
      using ptrs_split [of "zeroed (cut n 128) ?ps"] plen cut15(1) s1(5) t s2(1) by simp
    consider "\<not> nz" | "nz" "dirty" | "nz" "\<not> dirty" by blast
    then show ?thesis
    proof cases
      case 1
      let ?Q = "\<lambda>j. cut n 128 j \<or> j = 15" and ?sv = "set_size len (sv1\<lparr>sv_i := (sv_i sv1)\<lparr>sfi_indirect := 0\<rparr>, sv_dirty := True\<rparr>)"
      from dropped_free [OF s2(4,2), of 15] plen ind ps(1) cut15(2) obtain sfs3 where
        f: "sfs_bfree (ind sv) sfs2 = Inr sfs3" "dropped ?Q ?ps sfs sfs3" "fs_good sfs3" "sfs_device sfs3 = sfs_device sfs2" by auto
      have "ptrs ?sv sfs3 = (zeroed (cut n 128) ?ps)[15 := 0]"
        using zs s2(5) 1 s1(5) plen by (simp add: file_ptrs_def indirect_words_def set_size_def list_update_append)
      then have "truncated n sv sfs ?sv sfs3" using f s2(3) s1(5) plen
        by (intro truncated_intro [OF fs, where Q = ?Q]) (simp_all add: zeroed_update set_size_def)
      then show ?thesis using True l r f(1) 1 s1(4) by (auto simp: sfs_itrunc_def n_def trunc_blocks_def set_size_def)
    next
      case 2
      have "unat (ind sv) < unat (sb_nblocks sfs2)" using indirect_inside(1) [OF fs(2) ind] s2(4) by (simp add: dropped_def)
      from write_block [OF s2(2) this, of "words_block idbuf"] s2(1) plen obtain d' where
        w: "sfs_writeblock io (ind sv) (words_block idbuf) sfs2 = Inr (0, sfs2\<lparr>sfs_device := d'\<rparr>)"
        "fs_good (sfs2\<lparr>sfs_device := d'\<rparr>)" "medium d' = (disk sfs)(unat (ind sv) := words_block idbuf)" using s2(3) by auto
      have "ptrs (set_size len sv1) (sfs2\<lparr>sfs_device := d'\<rparr>) = zeroed (cut n 128) ?ps"
        using zs w(3) s1(4) ind by (simp add: file_ptrs_def indirect_words_def set_size_def)
      then have "truncated n sv sfs (set_size len sv1) (sfs2\<lparr>sfs_device := d'\<rparr>)" using w(2,3) s1(5) s2(4) plen ind
        by (intro truncated_intro [OF fs, where Q = "cut n 128"]) (simp_all add: dropped_device set_size_def)
      then show ?thesis using True l r w(1) 2 s1(4) by (auto simp: sfs_itrunc_def n_def trunc_blocks_def set_size_def)
    next
      case 3
      have "ptrs (set_size len sv1) sfs2 = zeroed (cut n 128) ?ps"
        using zs s2(3,6) 3 s1(4) by (simp add: file_ptrs_def indirect_words_def set_size_def)
      then have "truncated n sv sfs (set_size len sv1) sfs2" using s1(5) s2(2-4) plen
        by (intro truncated_intro [OF fs, where Q = "cut n 128"]) (simp_all add: set_size_def)
      then show ?thesis using True l r 3 s1(4) by (auto simp: sfs_itrunc_def n_def trunc_blocks_def set_size_def)
    qed
  qed
qed

end

section \<open>The file system on the disk\<close>

abbreviation disk_fs_ok :: "('h \<Rightarrow> nat \<Rightarrow> u8 list) \<Rightarrow> 'h lhd_softc sfs_fs \<Rightarrow> bool" where
  "disk_fs_ok sectors \<equiv> fs_ok (lhd_ok sectors) (\<lambda>lh. unat (d_blocks lh))"

abbreviation disk_file_ok :: "('h \<Rightarrow> nat \<Rightarrow> u8 list) \<Rightarrow> sfs_vnode \<Rightarrow> 'h lhd_softc sfs_fs \<Rightarrow> bool" where
  "disk_file_ok sectors \<equiv> file_ok (lhd_medium sectors)"

abbreviation disk_map :: "('h \<Rightarrow> nat \<Rightarrow> u8 list) \<Rightarrow> sfs_vnode \<Rightarrow> 'h lhd_softc sfs_fs \<Rightarrow> nat \<Rightarrow> u32" where
  "disk_map sectors sv sfs \<equiv> file_map (lhd_medium sectors (sfs_device sfs)) sv"

abbreviation disk_ptrs :: "('h \<Rightarrow> nat \<Rightarrow> u8 list) \<Rightarrow> sfs_vnode \<Rightarrow> 'h lhd_softc sfs_fs \<Rightarrow> u32 list" where
  "disk_ptrs sectors sv sfs \<equiv> file_ptrs (lhd_medium sectors (sfs_device sfs)) sv"

text \<open>A drive that stores whole sectors, and a small file system with an empty file.\<close>

definition sample_sectors :: "(nat \<Rightarrow> u8 list) \<Rightarrow> nat \<Rightarrow> u8 list" where
  "sample_sectors h b = take 512 (h b @ replicate 512 0)"

definition sample_drive :: "(nat \<Rightarrow> u8 list) drive" where
  "sample_drive s w buf h =
     (if w then (LHD_OK OR LHD_ISWRITE, buf, h(unat s := buf)) else (LHD_OK, sample_sectors h (unat s), h))"

definition sample_disk :: "(nat \<Rightarrow> u8 list) lhd_softc" where
  "sample_disk = \<lparr>lh_drive = sample_drive, lh_card = (\<lambda>b. []), lh_buf = replicate 512 0, lh_sect = 0, lh_stat = 0,
     lh_result = 0, lh_clear = 1, lh_done = 0, d_blocks = 16\<rparr>"

definition sample_fs :: "(nat \<Rightarrow> u8 list) lhd_softc sfs_fs" where
  "sample_fs = \<lparr>sb_nblocks = 16, sfs_freemap = \<lparr>nbits = 16, bm_v = [7, 0]\<rparr>, sfs_freemapdirty = False, sfs_device = sample_disk\<rparr>"

definition sample_file :: sfs_vnode where
  "sample_file = \<lparr>sv_i = \<lparr>sfi_size = 0, sfi_type = 1, sfi_linkcount = 1, sfi_direct = replicate 15 0, sfi_indirect = 0\<rparr>,
     sv_ino = 3, sv_dirty = False\<rparr>"

lemma sample_drive_ok: "drive_ok sample_drive sample_sectors n"
proof -
  have "sample_sectors (h(b := buf)) = (sample_sectors h)(b := buf)" if "length buf = 512" for h b buf
    using that by (auto simp: sample_sectors_def)
  moreover have "length (sample_sectors h b) = 512" for h b by (simp add: sample_sectors_def)
  ultimately show ?thesis by (simp add: drive_ok_def sample_drive_def)
qed

lemma sample_fs_ok: "disk_fs_ok sample_sectors sample_fs"
proof -
  have "bitmap_inv \<lparr>nbits = 16, bm_v = [7, 0]\<rparr>" by (simp add: bitmap_inv_def)
  moreover have "0 \<in> bm_set \<lparr>nbits = 16, bm_v = [7, 0]\<rparr>" by (simp add: bm_set_def bm_bit_def)
  ultimately show ?thesis using sample_drive_ok
    by (simp add: fs_ok_def sample_fs_def sample_disk_def lhd_ok_def)
qed

lemma sample_file_ok: "disk_file_ok sample_sectors sample_file sample_fs"
  by (simp add: file_ok_def sample_file_def file_ptrs_def indirect_words_def ptrs_ok_def nz_distinct_def nth_append nth_Cons'
      del: replicate.simps)

text \<open>C19: On a disk in good order, asking for the disk block of any of the 143 blocks of a file, allocating it if needed,
  succeeds or reports a full disk. A block that was there is found; a new one was free before. The block map of the
  file changes at this place only, all block pointers of the file stay distinct, inside the file system and marked,
  and the other blocks in use, the indirect block apart, keep their contents.\<close>
theorem sfs_bmap_allocates:
  assumes "disk_fs_ok sectors sfs" and "disk_file_ok sectors sv sfs" and "k < 143"
  shows "\<exists>e b sv' sfs'. sfs_bmap lhd_io sv k True sfs = Inr (e, b, sv', sfs') \<and>
    disk_fs_ok sectors sfs' \<and> disk_file_ok sectors sv' sfs' \<and>
    (\<forall>x \<in> bm_set (sfs_freemap sfs). sfi_indirect (sv_i sv) = 0 \<or> x \<noteq> unat (sfi_indirect (sv_i sv)) \<longrightarrow>
       lhd_medium sectors (sfs_device sfs') x = lhd_medium sectors (sfs_device sfs) x) \<and>
    (e = 0 \<and> b \<noteq> 0 \<and> disk_map sectors sv' sfs' = (disk_map sectors sv sfs)(k := b) \<and>
       (if disk_map sectors sv sfs k = 0 then unat b \<notin> bm_set (sfs_freemap sfs) else b = disk_map sectors sv sfs k) \<or>
     e = ENOSPC \<and> fs_full sfs' \<and> disk_map sectors sv sfs k = 0 \<and> disk_map sectors sv' sfs' = disk_map sectors sv sfs)"
proof -
  from disk.bmap_alloc [OF assms] obtain e b sv' sfs' where
    b: "sfs_bmap lhd_io sv k True sfs = Inr (e, b, sv', sfs')" "disk.bmap_done sectors k sv sfs e b sv' sfs'" by blast
  then show ?thesis unfolding disk.bmap_done_def disk.extends_def
    by (intro exI [of _ e] exI [of _ b] exI [of _ sv'] exI [of _ sfs']) (auto simp del: replicate.simps)
qed

theorem sfs_bmap_allocates_witness:
  "\<exists>e b sv' sfs'. sfs_bmap lhd_io sample_file 20 True sample_fs = Inr (e, b, sv', sfs') \<and>
    disk_fs_ok sample_sectors sfs' \<and> disk_file_ok sample_sectors sv' sfs'"
  using sfs_bmap_allocates [OF sample_fs_ok sample_file_ok, of 20] by auto

text \<open>C39: Truncation on a disk in good order succeeds and sets the length. With \<open>n\<close> the number of blocks of the new
  length, the direct blocks from \<open>n\<close> on become holes, but of the blocks reached through the indirect block only
  those after block \<open>n\<close>: block \<open>n\<close> itself, the first one past the end, stays. Exactly the blocks that the file
  no longer refers to are freed.\<close>
theorem sfs_itrunc_keeps_block:
  assumes "disk_fs_ok sectors sfs" and "disk_file_ok sectors sv sfs"
  shows "\<exists>sv' sfs'. sfs_itrunc lhd_io sv len sfs = Inr (0, sv', sfs') \<and> sfi_size (sv_i sv') = of_nat len \<and>
    disk_fs_ok sectors sfs' \<and> disk_file_ok sectors sv' sfs' \<and>
    (\<forall>k < 143. disk_map sectors sv' sfs' k =
       (if (if k < 15 then trunc_blocks len \<le> k else trunc_blocks len < k) then 0 else disk_map sectors sv sfs k)) \<and>
    bm_set (sfs_freemap sfs') = bm_set (sfs_freemap sfs) - unat ` (set (disk_ptrs sectors sv sfs) - set (disk_ptrs sectors sv' sfs'))"
  using disk.itrunc_truncates [OF assms, of len] unfolding disk.truncated_def by blast

theorem sfs_itrunc_keeps_block_witness:
  "\<exists>sv' sfs'. sfs_itrunc lhd_io sample_file 1000 sample_fs = Inr (0, sv', sfs') \<and> sfi_size (sv_i sv') = 1000 \<and>
    disk_file_ok sample_sectors sv' sfs'"
  using sfs_itrunc_keeps_block [OF sample_fs_ok sample_file_ok, of 1000] by auto

text \<open>C40: When the drive reports a media error for the write of a block, the block is not written again: the request has
  already been used up, so the retry transfers nothing, and \<^verbatim>\<open>sfs_writeblock\<close> returns success. The state of the
  drive is the one that the failed write left.\<close>
theorem sfs_writeblock_error_lost:
  assumes "lh_clear lh = 1" and "lh_done lh = 0" and "length data = 512" and "unat b < unat (d_blocks lh)"
    and "length (lh_buf lh) = 512" and "lh_drive lh b True data (lh_card lh) = (LHD_MEDIA OR LHD_ISWRITE, buf, h)"
  shows "\<exists>sfs'. sfs_writeblock lhd_io b data (sfs\<lparr>sfs_device := lh\<rparr>) = Inr (0, sfs') \<and> lh_card (sfs_device sfs') = h"
proof -
  let ?u = "buf_kinit data (unat b * 512) UIO_WRITE"
  define lh' where "lh' = lh\<lparr>lh_buf := buf, lh_card := h, lh_sect := b, lh_stat := 0, lh_result := EIO\<rparr>"
  have r: "block_request ?u (unat b) UIO_WRITE" using assms(3) by (simp add: block_request_def buf_kinit_def)
  have "lhd_sector b (LHD_WORKING OR LHD_ISWRITE) ?u lh = Inr (EIO, block_moved ?u [], lh')"
    using assms by (simp add: lhd_defs buf_kinit_def lh'_def)
  then have first: "lhd_io ?u lh = Inr (EIO, block_moved ?u [], lh')"
    using lhd_io_block [OF r assms(4)] by simp
  have "unat (b + 1) = unat b + 1" using assms(4) unsigned_less [of "d_blocks lh", where 'a = nat]
    by (simp add: unat_word_ariths)
  then have "\<not> b + 1 > d_blocks lh" using assms(4) by (simp add: word_less_nat_alt)
  then have again: "lhd_io (block_moved ?u []) lh' = Inr (0, block_moved ?u [], lh')"
    by (simp add: lhd_io_def block_moved_def buf_kinit_def lh'_def add.commute Let_def)
  have "sfs_rwblock lhd_io 0 ?u (sfs\<lparr>sfs_device := lh\<rparr>) = Inr (0, block_moved ?u [], sfs\<lparr>sfs_device := lh'\<rparr>)"
    using first again by (simp add: sfs_rwblock.simps [of lhd_io 0] sfs_rwblock.simps [of lhd_io "Suc 0"])
  then show ?thesis using assms(3) by (simp add: sfs_writeblock_def lh'_def)
qed

definition broken_disk :: "(nat \<Rightarrow> u8 list) lhd_softc" where
  "broken_disk = sample_disk\<lparr>lh_drive := (\<lambda>s w buf h. (LHD_MEDIA OR (if w then LHD_ISWRITE else 0), buf, h))\<rparr>"

theorem sfs_writeblock_error_lost_witness:
  "\<exists>sfs'. sfs_writeblock lhd_io 5 (replicate 512 1) (sample_fs\<lparr>sfs_device := broken_disk\<rparr>) = Inr (0, sfs') \<and>
    lh_card (sfs_device sfs') = (\<lambda>b. [])"
  using sfs_writeblock_error_lost [where lh = broken_disk and data = "replicate 512 1" and b = 5 and buf = "replicate 512 1"
      and h = "\<lambda>b. []" and sfs = sample_fs]
  by (simp add: broken_disk_def sample_disk_def)

end
