(* ===== verification/Sfs_File.thy ===== *)
theory Sfs_File
  imports Sfs
begin

text \<open>
  File and metadata I/O of the simple file system (\<^verbatim>\<open>kern/fs/sfs/sfs_io.c\<close>): partial and whole blocks, a whole
  region, and small objects. The main result is that on a device in good order a file behaves like an array of
  bytes: writing replaces the bytes of the region and nothing else, of this file or of any other.
\<close>

section \<open>Operations\<close>

type_synonym 'd io_result = "(errno \<times> buf_uio \<times> sfs_vnode \<times> 'd sfs_fs) kres"

definition sfs_partialio :: "'d devop_io \<Rightarrow> sfs_vnode \<Rightarrow> buf_uio \<Rightarrow> nat \<Rightarrow> nat \<Rightarrow> 'd sfs_fs \<Rightarrow> 'd io_result" where
  "sfs_partialio devio sv u skipstart len sfs =
     (let doalloc = (bu_rw u = UIO_WRITE)
      in kassert (skipstart + len \<le> SFS_BLOCKSIZE) ''skipstart + len <= SFS_BLOCKSIZE'' (
         let fileblock = unat (of_nat (bu_offset u div SFS_BLOCKSIZE) :: u32)
         in sbind (sfs_bmap devio sv fileblock doalloc sfs) (\<lambda>(result, diskblock, sv, sfs).
         if result \<noteq> 0 then Inr (result, u, sv, sfs)
         else
           sbind (if diskblock = 0
                  then kassert (bu_rw u = UIO_READ) ''uio->uio_rw == UIO_READ'' (Inr (0, replicate SFS_BLOCKSIZE 0, sfs))
                  else sfs_readblock devio diskblock sfs) (\<lambda>(result, iobuf, sfs).
           if result \<noteq> 0 then Inr (result, u, sv, sfs)
           else
             let (result, part, u) = buf_uiomove (drop skipstart iobuf) len u; iobuf = take skipstart iobuf @ part
             in if result \<noteq> 0 then Inr (result, u, sv, sfs)
                else if bu_rw u = UIO_WRITE then
                  sbind (sfs_writeblock devio diskblock iobuf sfs) (\<lambda>(result, sfs). Inr (result, u, sv, sfs))
                else Inr (0, u, sv, sfs)))))"

function buf_uiomovezeros :: "nat \<Rightarrow> buf_uio \<Rightarrow> errno \<times> buf_uio" where
  "buf_uiomovezeros n u =
     (if n > 0 then
        let amt = (if 16 > n then n else 16); (result, z, u) = buf_uiomove (replicate 16 0) amt u
        in if result \<noteq> 0 then (result, u) else buf_uiomovezeros (n - amt) u
      else (0, u))"
  by pat_completeness auto
termination by (relation "measure (\<lambda>(n, u). n)") auto

definition sfs_blockio :: "'d devop_io \<Rightarrow> sfs_vnode \<Rightarrow> buf_uio \<Rightarrow> 'd sfs_fs \<Rightarrow> 'd io_result" where
  "sfs_blockio devio sv u sfs =
     (let doalloc = (bu_rw u = UIO_WRITE); fileblock = unat (of_nat (bu_offset u div SFS_BLOCKSIZE) :: u32)
      in sbind (sfs_bmap devio sv fileblock doalloc sfs) (\<lambda>(result, diskblock, sv, sfs).
         if result \<noteq> 0 then Inr (result, u, sv, sfs)
         else if diskblock = 0 then
           kassert (bu_rw u = UIO_READ) ''uio->uio_rw == UIO_READ'' (
           let (result, u) = buf_uiomovezeros SFS_BLOCKSIZE u in Inr (result, u, sv, sfs))
         else
           let saveoff = bu_offset u; diskoff = unat (diskblock * of_nat SFS_BLOCKSIZE)
           in kassert (bu_resid u \<ge> SFS_BLOCKSIZE) ''uio->uio_resid >= SFS_BLOCKSIZE'' (
              let saveres = bu_resid u; diskres = SFS_BLOCKSIZE
              in sbind (sfs_rwblock devio 0 (u\<lparr>bu_offset := diskoff, bu_resid := diskres\<rparr>) sfs) (\<lambda>(result, u, sfs).
                 Inr (result, u\<lparr>bu_offset := bu_offset u + saveoff - diskoff, bu_resid := bu_resid u + saveres - diskres\<rparr>,
                   sv, sfs)))))"

text \<open>The body of \<^verbatim>\<open>sfs_io\<close> up to the label \<^verbatim>\<open>out\<close>: the loop over the whole blocks, the leading partial block, the
  trailing one, and their sequence.\<close>

fun io_blocks :: "'d devop_io \<Rightarrow> nat \<Rightarrow> sfs_vnode \<Rightarrow> buf_uio \<Rightarrow> 'd sfs_fs \<Rightarrow> 'd io_result" where
  "io_blocks devio 0 sv u sfs = Inr (0, u, sv, sfs)"
| "io_blocks devio (Suc n) sv u sfs =
     sbind (sfs_blockio devio sv u sfs) (\<lambda>(result, u, sv, sfs).
     if result \<noteq> 0 then Inr (result, u, sv, sfs) else io_blocks devio n sv u sfs)"

definition io_head :: "'d devop_io \<Rightarrow> sfs_vnode \<Rightarrow> buf_uio \<Rightarrow> 'd sfs_fs \<Rightarrow> 'd io_result" where
  "io_head devio sv u sfs =
     (let blkoff = bu_offset u mod SFS_BLOCKSIZE
      in if blkoff \<noteq> 0 then
           let skip = blkoff; len = SFS_BLOCKSIZE - blkoff; len = (if len > bu_resid u then bu_resid u else len)
           in sfs_partialio devio sv u skip len sfs
         else Inr (0, u, sv, sfs))"

definition io_tail :: "'d devop_io \<Rightarrow> buf_uio \<times> sfs_vnode \<times> 'd sfs_fs \<Rightarrow> 'd io_result" where
  "io_tail devio = (\<lambda>(u, sv, sfs).
     kassert (bu_resid u < SFS_BLOCKSIZE) ''uio->uio_resid < SFS_BLOCKSIZE'' (
     if bu_resid u > 0 then sfs_partialio devio sv u 0 (bu_resid u) sfs else Inr (0, u, sv, sfs)))"

definition io_aligned :: "'d devop_io \<Rightarrow> buf_uio \<times> sfs_vnode \<times> 'd sfs_fs \<Rightarrow> 'd io_result" where
  "io_aligned devio = (\<lambda>(u, sv, sfs).
     if bu_resid u = 0 then Inr (0, u, sv, sfs)
     else
       kassert (bu_offset u mod SFS_BLOCKSIZE = 0) ''uio->uio_offset % SFS_BLOCKSIZE == 0'' (
       let nblocks = bu_resid u div SFS_BLOCKSIZE
       in sbind (io_blocks devio nblocks sv u sfs) (\<lambda>(result, u, sv, sfs).
          if result \<noteq> 0 then Inr (result, u, sv, sfs) else io_tail devio (u, sv, sfs))))"

definition io_body :: "'d devop_io \<Rightarrow> sfs_vnode \<Rightarrow> buf_uio \<Rightarrow> 'd sfs_fs \<Rightarrow> 'd io_result" where
  "io_body devio sv u sfs =
     sbind (io_head devio sv u sfs) (\<lambda>(result, u, sv, sfs).
     if result \<noteq> 0 then Inr (result, u, sv, sfs) else io_aligned devio (u, sv, sfs))"

definition io_out :: "nat \<Rightarrow> nat \<Rightarrow> errno \<Rightarrow> buf_uio \<Rightarrow> sfs_vnode \<Rightarrow> 'd sfs_fs \<Rightarrow> 'd io_result" where
  "io_out origresid extraresid result u sv sfs =
     (let sv = (if bu_resid u \<noteq> origresid \<and> bu_rw u = UIO_WRITE \<and> bu_offset u > unat (sfi_size (sv_i sv))
                then sv\<lparr>sv_i := (sv_i sv)\<lparr>sfi_size := of_nat (bu_offset u)\<rparr>, sv_dirty := True\<rparr> else sv)
      in Inr (result, u\<lparr>bu_resid := bu_resid u + extraresid\<rparr>, sv, sfs))"

definition sfs_io :: "'d devop_io \<Rightarrow> sfs_vnode \<Rightarrow> buf_uio \<Rightarrow> 'd sfs_fs \<Rightarrow> 'd io_result" where
  "sfs_io devio sv u sfs =
     (let origresid = bu_resid u; size = unat (sfi_size (sv_i sv)); endpos = bu_offset u + bu_resid u;
          reading = (bu_rw u = UIO_READ);
          extraresid = (if reading \<and> endpos > size then endpos - size else 0)
      in if reading \<and> bu_offset u \<ge> size then Inr (0, u, sv, sfs)
         else
           kassert (extraresid > 0 \<longrightarrow> bu_resid u > extraresid) ''uio->uio_resid > extraresid'' (
           sbind (io_body devio sv (u\<lparr>bu_resid := bu_resid u - extraresid\<rparr>) sfs) (\<lambda>(result, u, sv, sfs).
           io_out origresid extraresid result u sv sfs)))"

definition sfs_metaio ::
  "'d devop_io \<Rightarrow> sfs_vnode \<Rightarrow> nat \<Rightarrow> u8 list \<Rightarrow> uio_rw \<Rightarrow> 'd sfs_fs \<Rightarrow> (errno \<times> u8 list \<times> sfs_vnode \<times> 'd sfs_fs) kres" where
  "sfs_metaio devio sv actualpos data rw sfs =
     (let vnblock = unat (of_nat (actualpos div SFS_BLOCKSIZE) :: u32); blockoffset = actualpos mod SFS_BLOCKSIZE;
          len = length data; doalloc = (rw = UIO_WRITE)
      in sbind (sfs_bmap devio sv vnblock doalloc sfs) (\<lambda>(result, diskblock, sv, sfs).
         if result \<noteq> 0 then Inr (result, data, sv, sfs)
         else if diskblock = 0 then
           kassert (rw = UIO_READ) ''rw == UIO_READ'' (Inr (0, replicate len 0, sv, sfs))
         else
           sbind (sfs_readblock devio diskblock sfs) (\<lambda>(result, metaiobuf, sfs).
           if result \<noteq> 0 then Inr (result, data, sv, sfs)
           else if blockoffset + len > SFS_BLOCKSIZE then Inl (Undefined ''metaiobuf'')
           else if rw = UIO_READ then Inr (0, take len (drop blockoffset metaiobuf), sv, sfs)
           else
             let metaiobuf = take blockoffset metaiobuf @ data @ drop (blockoffset + len) metaiobuf
             in sbind (sfs_writeblock devio diskblock metaiobuf sfs) (\<lambda>(result, sfs).
                if result \<noteq> 0 then Inr (result, data, sv, sfs)
                else
                  let endpos = actualpos + len;
                      sv = (if endpos > unat (sfi_size (sv_i sv))
                            then sv\<lparr>sv_i := (sv_i sv)\<lparr>sfi_size := of_nat endpos\<rparr>, sv_dirty := True\<rparr> else sv)
                  in Inr (0, data, sv, sfs)))))"

section \<open>A file as an array of bytes\<close>

abbreviation (input) SFS_MAXBLOCKS :: nat where "SFS_MAXBLOCKS \<equiv> 143"
abbreviation (input) SFS_MAXBYTES :: nat where "SFS_MAXBYTES \<equiv> 73216"

definition file_byte :: "(nat \<Rightarrow> u8 list) \<Rightarrow> sfs_vnode \<Rightarrow> nat \<Rightarrow> u8" where
  "file_byte disk sv p =
     (let b = file_map disk sv (p div SFS_BLOCKSIZE) in if b = 0 then 0 else disk (unat b) ! (p mod SFS_BLOCKSIZE))"

definition file_owns :: "(nat \<Rightarrow> u8 list) \<Rightarrow> sfs_vnode \<Rightarrow> nat set" where
  "file_owns disk sv = unat ` (set (file_ptrs disk sv) - {0})"

text \<open>A region of \<open>t\<close> bytes from \<open>q\<close> on meets a hole of the file.\<close>

definition file_hole :: "(nat \<Rightarrow> u8 list) \<Rightarrow> sfs_vnode \<Rightarrow> nat \<Rightarrow> nat \<Rightarrow> bool" where
  "file_hole disk sv q t \<longleftrightarrow> (\<exists>k < SFS_MAXBLOCKS. q < 512 * (k + 1) \<and> 512 * k < q + t \<and> file_map disk sv k = 0)"

text \<open>From \<open>sv\<close> and \<open>sfs\<close> the bytes from \<open>q\<close> on have been replaced by \<open>bs\<close>; blocks that are in use for something
  else have kept their contents and their owner, and blocks of the file have kept their place.\<close>

definition wrote ::
  "('d \<Rightarrow> bool) \<Rightarrow> ('d \<Rightarrow> nat) \<Rightarrow> ('d \<Rightarrow> nat \<Rightarrow> u8 list) \<Rightarrow> nat \<Rightarrow> u8 list \<Rightarrow>
    sfs_vnode \<Rightarrow> 'd sfs_fs \<Rightarrow> sfs_vnode \<Rightarrow> 'd sfs_fs \<Rightarrow> bool" where
  "wrote ok nblks medium q bs sv sfs sv' sfs' \<longleftrightarrow> fs_ok ok nblks sfs' \<and> file_ok medium sv' sfs' \<and>
     sb_nblocks sfs' = sb_nblocks sfs \<and> bm_set (sfs_freemap sfs) \<subseteq> bm_set (sfs_freemap sfs') \<and>
     (\<forall>x \<in> bm_set (sfs_freemap sfs) - file_owns (medium (sfs_device sfs)) sv.
        medium (sfs_device sfs') x = medium (sfs_device sfs) x \<and> x \<notin> file_owns (medium (sfs_device sfs')) sv') \<and>
     (\<forall>k < SFS_MAXBLOCKS. file_map (medium (sfs_device sfs)) sv k \<noteq> 0 \<longrightarrow>
        file_map (medium (sfs_device sfs')) sv' k = file_map (medium (sfs_device sfs)) sv k) \<and>
     (\<forall>p < SFS_MAXBYTES. file_byte (medium (sfs_device sfs')) sv' p =
        (if q \<le> p \<and> p < q + length bs then bs ! (p - q) else file_byte (medium (sfs_device sfs)) sv p))"

context block_device
begin

abbreviation fbyte :: "sfs_vnode \<Rightarrow> 'd sfs_fs \<Rightarrow> nat \<Rightarrow> u8" where "fbyte sv sfs \<equiv> file_byte (disk sfs) sv"

abbreviation owned :: "sfs_vnode \<Rightarrow> 'd sfs_fs \<Rightarrow> nat set" where "owned sv sfs \<equiv> file_owns (disk sfs) sv"

abbreviation written :: "nat \<Rightarrow> u8 list \<Rightarrow> sfs_vnode \<Rightarrow> 'd sfs_fs \<Rightarrow> sfs_vnode \<Rightarrow> 'd sfs_fs \<Rightarrow> bool" where
  "written \<equiv> wrote ok nblocks medium"

lemma written_refl: "fs_good sfs \<Longrightarrow> file_good sv sfs \<Longrightarrow> written q [] sv sfs sv sfs"
  by (auto simp: wrote_def)

lemma written_trans:
  assumes "written q bs sv sfs sv1 sfs1" and "written (q + length bs) cs sv1 sfs1 sv2 sfs2"
  shows "written q (bs @ cs) sv sfs sv2 sfs2"
  using assms by (auto simp: wrote_def nth_append)

lemma ptrs_differ:
  "file_good sv sfs \<Longrightarrow> i < length (ptrs sv sfs) \<Longrightarrow> j < length (ptrs sv sfs) \<Longrightarrow> i \<noteq> j \<Longrightarrow> ptrs sv sfs ! i \<noteq> 0 \<Longrightarrow>
    ptrs sv sfs ! i \<noteq> ptrs sv sfs ! j"
  by (simp add: file_ok_def ptrs_ok_def nz_distinct_def)

lemma fmap_distinct:
  assumes "fs_good sfs" "file_good sv sfs" and "j < 143" "k < 143" "j \<noteq> k" and "fmap sv sfs j \<noteq> 0"
  shows "fmap sv sfs j \<noteq> fmap sv sfs k"
  using assms(3-6) unfolding file_map_def by (intro ptrs_differ [OF assms(2)]) (auto simp: length_ptrs [OF assms(1,2)])

lemma fmap_not_indirect:
  assumes "fs_good sfs" "file_good sv sfs" and "k < 143" and "fmap sv sfs k \<noteq> 0"
  shows "fmap sv sfs k \<noteq> ind sv"
proof -
  have "ptrs sv sfs ! 15 = ind sv" using assms(2) by (simp add: file_ok_def file_ptrs_def nth_append)
  moreover have "fmap sv sfs k \<noteq> ptrs sv sfs ! 15"
    using assms(3,4) unfolding file_map_def by (intro ptrs_differ [OF assms(2)]) (auto simp: length_ptrs [OF assms(1,2)])
  ultimately show ?thesis by simp
qed

lemma fmap_in_ptrs: "fs_good sfs \<Longrightarrow> file_good sv sfs \<Longrightarrow> k < 143 \<Longrightarrow> fmap sv sfs k \<in> set (ptrs sv sfs)"
  using length_ptrs [of sfs sv] by (simp add: file_map_def)

text \<open>Allocating a block changes no byte.\<close>

lemma bmap_done_written:
  assumes fs: "fs_good sfs" "file_good sv sfs" and b: "bmap_done k sv sfs e b sv' sfs'"
  shows "written q [] sv sfs sv' sfs'"
proof -
  have ext: "extends sv sfs sv' sfs'" using b by (simp add: bmap_done_def)
  have kept: "disk sfs' (unat (fmap sv sfs j)) = disk sfs (unat (fmap sv sfs j))" if "j < 143" "fmap sv sfs j \<noteq> 0" for j
    using fmap_used [OF fs that] fmap_not_indirect [OF fs that] ext by (auto simp: extends_def word_unat_eq_iff)
  have new: "e = 0 \<Longrightarrow> fmap sv sfs k = 0 \<Longrightarrow> fmap sv' sfs' k = b \<and> disk sfs' (unat b) = replicate 512 0"
    using b by (simp_all only: bmap_done_def) simp
  have old: "fmap sv' sfs' j = fmap sv sfs j" if "j \<noteq> k \<or> e \<noteq> 0 \<or> fmap sv sfs k \<noteq> 0" for j
    using b that by (cases "e = 0"; cases "j = k") (simp_all add: bmap_done_def)
  have "fbyte sv' sfs' p = fbyte sv sfs p" if p: "p < 73216" for p
  proof -
    let ?j = "p div 512"
    have j: "?j < 143" using p by (simp add: less_mult_imp_div_less)
    show ?thesis
    proof (cases "e = 0 \<and> ?j = k \<and> fmap sv sfs k = 0")
      case True
      then show ?thesis using new by (simp add: file_byte_def Let_def del: replicate.simps)
    next
      case False
      then have "fmap sv' sfs' ?j = fmap sv sfs ?j" by (intro old) auto
      then show ?thesis using kept [OF j] by (simp add: file_byte_def Let_def)
    qed
  qed
  moreover have "disk sfs' x = disk sfs x" "x \<notin> owned sv' sfs'" if x: "x \<in> used sfs" "x \<notin> owned sv sfs" for x
  proof -
    have "ind sv \<noteq> 0 \<Longrightarrow> unat (ind sv) \<in> owned sv sfs" by (auto simp: file_owns_def file_ptrs_def)
    then show "disk sfs' x = disk sfs x" using ext x by (auto simp: extends_def)
    show "x \<notin> owned sv' sfs'" using ext x by (auto simp: extends_def file_owns_def)
  qed
  moreover have "\<not> (q \<le> p \<and> p < q)" for p by simp
  moreover have "fmap sv' sfs' j = fmap sv sfs j" if "fmap sv sfs j \<noteq> 0" for j using that by (intro old) auto
  ultimately show ?thesis using ext by (simp only: wrote_def extends_def list.size add_0_right if_False) simp
qed

end

context block_device
begin

text \<open>Overwriting a data block of a file, which is never its indirect block.\<close>

lemma put_block:
  assumes fs: "fs_good sfs" "file_good sv sfs" and k: "k < 143" "fmap sv sfs k \<noteq> 0"
    and d: "fs_good (sfs\<lparr>sfs_device := d\<rparr>)" "medium d = (disk sfs)(unat (fmap sv sfs k) := data)"
  shows "ptrs sv (sfs\<lparr>sfs_device := d\<rparr>) = ptrs sv sfs" and "file_good sv (sfs\<lparr>sfs_device := d\<rparr>)"
    and "p < 73216 \<Longrightarrow> fbyte sv (sfs\<lparr>sfs_device := d\<rparr>) p = (if p div 512 = k then data ! (p mod 512) else fbyte sv sfs p)"
proof -
  have "unat (ind sv) \<noteq> unat (fmap sv sfs k)" using fmap_not_indirect [OF fs k] by (simp add: word_unat_eq_iff)
  then have "indirect_words (medium d) sv = indirect_words (disk sfs) sv" by (simp add: d(2) indirect_words_def)
  then show p: "ptrs sv (sfs\<lparr>sfs_device := d\<rparr>) = ptrs sv sfs" by (simp add: file_ptrs_def)
  then show "file_good sv (sfs\<lparr>sfs_device := d\<rparr>)" using fs(2) by (simp add: file_ok_def ptrs_ok_def)
  from p have m: "file_map (medium d) sv = fmap sv sfs" by (simp add: file_map_def fun_eq_iff)
  show "fbyte sv (sfs\<lparr>sfs_device := d\<rparr>) p = (if p div 512 = k then data ! (p mod 512) else fbyte sv sfs p)" if "p < 73216"
  proof (cases "p div 512 = k")
    case True
    then show ?thesis using m k d(2) by (simp add: file_byte_def)
  next
    case False
    have "p div 512 < 143" using that by (simp add: less_mult_imp_div_less)
    then have "unat (fmap sv sfs (p div 512)) \<noteq> unat (fmap sv sfs k)"
      using fmap_distinct [OF fs k(1), of "p div 512"] k(2) False by (auto simp: word_unat_eq_iff)
    then show ?thesis using False m d(2) by (simp add: file_byte_def Let_def)
  qed
qed

text \<open>A write inside one block: look up or allocate the block, and store new contents that differ from the old
  ones only in the bytes from \<open>skip\<close> on.\<close>

lemma write_in_block:
  assumes fs: "fs_good sfs" "file_good sv sfs" and b: "bmap_done k sv sfs 0 b sv1 sfs1" and k: "k < 143"
    and d: "fs_good (sfs1\<lparr>sfs_device := d\<rparr>)"
      "medium d = (disk sfs1)(unat b := take skip (disk sfs1 (unat b)) @ bs @ drop (skip + length bs) (disk sfs1 (unat b)))"
    and len: "skip + length bs \<le> 512"
  shows "written (512 * k + skip) bs sv sfs sv1 (sfs1\<lparr>sfs_device := d\<rparr>)"
proof -
  let ?old = "disk sfs1 (unat b)" and ?sfs = "sfs1\<lparr>sfs_device := d\<rparr>"
  have w: "written (512 * k + skip) [] sv sfs sv1 sfs1" by (rule bmap_done_written [OF fs b])
  then have fs1: "fs_good sfs1" "file_good sv1 sfs1" by (simp_all add: wrote_def)
  have bk: "fmap sv1 sfs1 k = b" "b \<noteq> 0" using b by (simp_all only: bmap_done_def) (simp_all add: fun_eq_iff)
  then have b1: "unat b < unat (sb_nblocks sfs1)" using fmap_used [OF fs1 k] by simp
  then have old: "length ?old = 512" using fs1(1) by (intro medium_length) (simp_all add: fs_ok_def)
  note put = put_block [OF fs1 k, unfolded bk, OF bk(2) d]
  have "fbyte sv1 ?sfs p = (if 512 * k + skip \<le> p \<and> p < 512 * k + skip + length bs then bs ! (p - (512 * k + skip)) else fbyte sv1 sfs1 p)"
    if p: "p < 73216" for p
  proof (cases "p div 512 = k")
    case True
    then have pk: "p = 512 * k + p mod 512" using div_mult_mod_eq [of p 512] by simp
    then obtain i where i: "p = 512 * k + i" "i < 512" by (metis mod_less_divisor zero_less_numeral)
    then have "fbyte sv1 sfs1 p = ?old ! i" using bk by (simp add: file_byte_def)
    moreover have "(take skip ?old @ bs @ drop (skip + length bs) ?old) ! i =
      (if skip \<le> i \<and> i < skip + length bs then bs ! (i - skip) else ?old ! i)"
      using old len i(2) by (auto simp: nth_append)
    ultimately show ?thesis using put(3) [OF p] True i by (simp del: nth_append)
  next
    case False
    have "p div 512 = k" if "512 * k + skip \<le> p" "p < 512 * k + skip + length bs"
      using that len by (intro div_nat_eqI) auto
    then show ?thesis using put(3) [OF p] False by auto
  qed
  moreover have "unat b \<in> owned sv1 sfs1" using fmap_in_ptrs [OF fs1 k] bk by (auto simp: file_owns_def)
  moreover have "file_map (medium d) sv1 = fmap sv1 sfs1" using put(1) by (simp add: file_map_def fun_eq_iff)
  ultimately show ?thesis using w d put(1,2) by (auto simp: wrote_def file_owns_def)
qed

end

section \<open>Regions\<close>

definition uio_adv :: "nat \<Rightarrow> buf_uio \<Rightarrow> buf_uio" where
  "uio_adv m u = u\<lparr>bu_pos := bu_pos u + m, bu_offset := bu_offset u + m, bu_resid := bu_resid u - m\<rparr>"

text \<open>A buffer that can be copied from and to everywhere, with room for what is left to transfer.\<close>

definition uio_quiet :: "buf_uio \<Rightarrow> bool" where
  "uio_quiet u \<longleftrightarrow> bu_err u = (\<lambda>k. 0) \<and> bu_pos u + bu_resid u \<le> length (bu_data u)"

lemma uio_adv_simps [simp]:
  "bu_pos (uio_adv m u) = bu_pos u + m" "bu_offset (uio_adv m u) = bu_offset u + m" "bu_resid (uio_adv m u) = bu_resid u - m"
  "bu_data (uio_adv m u) = bu_data u" "bu_rw (uio_adv m u) = bu_rw u" "bu_err (uio_adv m u) = bu_err u"
  by (simp_all add: uio_adv_def)

lemma uio_adv_0 [simp]: "uio_adv 0 u = u"
  by (simp add: uio_adv_def)

lemma uio_adv_adv [simp]: "uio_adv n (uio_adv m u) = uio_adv (m + n) u"
  by (simp add: uio_adv_def add.assoc)

lemma uio_quiet_adv: "uio_quiet u \<Longrightarrow> m \<le> bu_resid u \<Longrightarrow> uio_quiet (uio_adv m u)"
  by (simp add: uio_quiet_def)

lemma uio_quiet_length: "uio_quiet u \<Longrightarrow> n \<le> bu_resid u \<Longrightarrow> length (take n (drop (bu_pos u) (bu_data u))) = n"
  by (auto simp: uio_quiet_def min_def)

lemma buf_uiomove_write:
  assumes "uio_quiet u" and "bu_rw u = UIO_WRITE" and "n \<le> bu_resid u"
  shows "buf_uiomove ptr n u = (0, take n (drop (bu_pos u) (bu_data u)) @ drop n ptr, uio_adv n u)"
  using assms by (auto simp: buf_uiomove_def uio_quiet_def uio_adv_def Let_def min_def)

lemma buf_uiomove_read:
  assumes "uio_quiet u" and "bu_rw u = UIO_READ" and "n \<le> bu_resid u"
  shows "buf_uiomove ptr n u = (0, ptr, (uio_adv n u)\<lparr>bu_data :=
    take (bu_pos u) (bu_data u) @ take n ptr @ drop (bu_pos u + n) (bu_data u)\<rparr>)"
  using assms by (auto simp: buf_uiomove_def uio_quiet_def uio_adv_def Let_def min_def)

lemma file_block_no: "q div 512 < 143 \<Longrightarrow> unat (of_nat (q div 512) :: u32) = q div 512"
  by (simp add: unat_of_nat)

context block_device
begin

text \<open>A write of \<open>t\<close> bytes from the buffer: either all of them are in the file, or the first \<open>m\<close> are, the file system
  is full, and the region had a hole.\<close>

abbreviation hole_in :: "nat \<Rightarrow> nat \<Rightarrow> sfs_vnode \<Rightarrow> 'd sfs_fs \<Rightarrow> bool" where
  "hole_in q t sv sfs \<equiv> file_hole (disk sfs) sv q t"

lemma hole_in_mono: "hole_in q t sv sfs \<Longrightarrow> t \<le> t' \<Longrightarrow> hole_in q t' sv sfs"
  by (fastforce simp: file_hole_def)

lemma hole_in_later:
  assumes "written q bs sv sfs sv' sfs'" and "hole_in (p + s) t sv' sfs'"
  shows "hole_in p (s + t) sv sfs"
proof -
  from assms(2) obtain k where k: "k < 143" "p + s < 512 * (k + 1)" "512 * k < p + s + t" "fmap sv' sfs' k = 0"
    unfolding file_hole_def by blast
  then have "fmap sv sfs k = 0" using assms(1) unfolding wrote_def by force
  then show ?thesis unfolding file_hole_def using k by (intro exI [of _ k]) simp
qed

lemma hole_in_block:
  assumes "q div 512 < 143" and "0 < t" and "fmap sv sfs (q div 512) = 0"
  shows "hole_in q t sv sfs"
proof -
  define k where "k = q div 512"
  have "512 * k + q mod 512 = q" "q mod 512 < 512" by (simp_all add: k_def)
  then have "q < 512 * (k + 1)" "512 * k < q + t" using assms(2) by simp_all
  then show ?thesis unfolding file_hole_def using assms(1,3) k_def by blast
qed

definition wrote_bytes :: "nat \<Rightarrow> buf_uio \<Rightarrow> sfs_vnode \<Rightarrow> 'd sfs_fs \<Rightarrow> 'd io_result \<Rightarrow> bool" where
  "wrote_bytes t u sv sfs r \<longleftrightarrow> (\<exists>e m sv' sfs'. r = Inr (e, uio_adv m u, sv', sfs') \<and> m \<le> t \<and>
     written (bu_offset u) (take m (drop (bu_pos u) (bu_data u))) sv sfs sv' sfs' \<and> sfi_size (sv_i sv') = sfi_size (sv_i sv) \<and>
     (e = 0 \<and> m = t \<or> e = ENOSPC \<and> fs_full sfs' \<and> hole_in (bu_offset u) t sv sfs))"

lemma wrote_bytes_0: "fs_good sfs \<Longrightarrow> file_good sv sfs \<Longrightarrow> wrote_bytes 0 u sv sfs (Inr (0, u, sv, sfs))"
  unfolding wrote_bytes_def by (intro exI [of _ 0]) (simp add: written_refl)

lemma wrote_bytes_then:
  assumes r: "wrote_bytes s u sv sfs r" and s: "s \<le> bu_resid u" and q: "uio_quiet u"
    and next_ok: "\<And>sv1 sfs1. fs_good sfs1 \<Longrightarrow> file_good sv1 sfs1 \<Longrightarrow> sb_nblocks sfs1 = sb_nblocks sfs \<Longrightarrow>
      wrote_bytes t (uio_adv s u) sv1 sfs1 (f (uio_adv s u, sv1, sfs1))"
  shows "wrote_bytes (s + t) u sv sfs (sbind r (\<lambda>(result, u, sv, sfs).
    if result \<noteq> 0 then Inr (result, u, sv, sfs) else f (u, sv, sfs)))"
proof -
  from r obtain e m sv1 sfs1 where r1: "r = Inr (e, uio_adv m u, sv1, sfs1)" "m \<le> s"
    "written (bu_offset u) (take m (drop (bu_pos u) (bu_data u))) sv sfs sv1 sfs1" "sfi_size (sv_i sv1) = sfi_size (sv_i sv)"
    "e = 0 \<and> m = s \<or> e = ENOSPC \<and> fs_full sfs1 \<and> hole_in (bu_offset u) s sv sfs" unfolding wrote_bytes_def by blast
  show ?thesis
  proof (cases "e = 0")
    case False
    then show ?thesis unfolding wrote_bytes_def using r1 hole_in_mono [where t = s and t' = "s + t" and sv = sv and sfs = sfs]
      by (intro exI [of _ e] exI [of _ m]) auto
  next
    case True
    then have m: "m = s" using r1(5) by simp
    have fs1: "fs_good sfs1" "file_good sv1 sfs1" "sb_nblocks sfs1 = sb_nblocks sfs" using r1(3) by (simp_all add: wrote_def)
    from next_ok [OF fs1] obtain e' m' sv2 sfs2 where r2: "f (uio_adv s u, sv1, sfs1) = Inr (e', uio_adv (s + m') u, sv2, sfs2)"
      "m' \<le> t" "written (bu_offset u + s) (take m' (drop (bu_pos u + s) (bu_data u))) sv1 sfs1 sv2 sfs2"
      "sfi_size (sv_i sv2) = sfi_size (sv_i sv1)" "e' = 0 \<and> m' = t \<or> e' = ENOSPC \<and> fs_full sfs2 \<and> hole_in (bu_offset u + s) t sv1 sfs1"
      unfolding wrote_bytes_def by auto
    have "length (take s (drop (bu_pos u) (bu_data u))) = s" by (rule uio_quiet_length [OF q s])
    then have "written (bu_offset u) (take s (drop (bu_pos u) (bu_data u)) @ take m' (drop (bu_pos u + s) (bu_data u))) sv sfs sv2 sfs2"
      using r1(3) r2(3) by (intro written_trans [of _ _ _ _ sv1 sfs1]) (simp_all only: m)
    then have "written (bu_offset u) (take (s + m') (drop (bu_pos u) (bu_data u))) sv sfs sv2 sfs2"
      by (simp only: take_add drop_drop add.commute [of s "bu_pos u"])
    then show ?thesis unfolding wrote_bytes_def using r1(1,4) r2 m True hole_in_later [OF r1(3)]
      by (intro exI [of _ e'] exI [of _ "s + m'"]) auto
  qed
qed

lemma partial_write:
  assumes fs: "fs_good sfs" "file_good sv sfs" and u: "uio_quiet u" "bu_rw u = UIO_WRITE" "len \<le> bu_resid u"
    and k: "bu_offset u div 512 < 143" and skip: "skip = bu_offset u mod 512" "skip + len \<le> 512" and len_pos: "0 < len"
  shows "wrote_bytes len u sv sfs (sfs_partialio io sv u skip len sfs)"
proof -
  let ?k = "bu_offset u div 512" and ?bs = "take len (drop (bu_pos u) (bu_data u))"
  from bmap_alloc [OF fs k] obtain e b sv1 sfs1 where b: "sfs_bmap io sv ?k True sfs = Inr (e, b, sv1, sfs1)"
    "bmap_done ?k sv sfs e b sv1 sfs1" by blast
  have size: "sfi_size (sv_i sv1) = sfi_size (sv_i sv)" using b(2) by (simp only: bmap_done_def extends_def)
  show ?thesis
  proof (cases "e = 0")
    case False
    then have "e = ENOSPC" "fs_full sfs1" "fmap sv sfs ?k = 0" using b(2) by (simp_all only: bmap_done_def) simp_all
    moreover have "written (bu_offset u) [] sv sfs sv1 sfs1" by (rule bmap_done_written [OF fs b(2)])
    ultimately show ?thesis unfolding wrote_bytes_def using b(1) skip(2) u(2) size hole_in_block [OF k len_pos]
      by (intro exI [of _ e] exI [of _ 0]) (simp add: sfs_partialio_def Let_def file_block_no [OF k])
  next
    case True
    note bd = b(2) [unfolded True]
    have fs1: "fs_good sfs1" "file_good sv1 sfs1" using bmap_done_written [OF fs bd] by (simp_all add: wrote_def)
    have bk: "fmap sv1 sfs1 ?k = b" "b \<noteq> 0" using bd by (simp_all only: bmap_done_def) (simp_all add: fun_eq_iff)
    then have b1: "unat b < unat (sb_nblocks sfs1)" using fmap_used [OF fs1 k] by simp
    from read_block [OF fs1(1) b1] obtain d where d: "sfs_readblock io b sfs1 = Inr (0, disk sfs1 (unat b), sfs1\<lparr>sfs_device := d\<rparr>)"
      "fs_good (sfs1\<lparr>sfs_device := d\<rparr>)" "medium d = disk sfs1" by blast
    let ?old = "disk sfs1 (unat b)"
    have old: "length ?old = 512" using fs1(1) b1 by (intro medium_length) (simp_all add: fs_ok_def)
    have bs: "length ?bs = len" by (rule uio_quiet_length [OF u(1,3)])
    let ?new = "take skip ?old @ ?bs @ drop (skip + len) ?old"
    from write_block [OF d(2), of b ?new] b1 bs old skip(2) obtain d2 where
      w: "sfs_writeblock io b ?new (sfs1\<lparr>sfs_device := d\<rparr>) = Inr (0, sfs1\<lparr>sfs_device := d2\<rparr>)"
      "fs_good (sfs1\<lparr>sfs_device := d2\<rparr>)" "medium d2 = (disk sfs1)(unat b := ?new)" using d(3) by auto
    have "written (512 * ?k + skip) ?bs sv sfs sv1 (sfs1\<lparr>sfs_device := d2\<rparr>)"
      using w(2,3) bs skip(2) by (intro write_in_block [OF fs bd k]) simp_all
    then have "written (bu_offset u) ?bs sv sfs sv1 (sfs1\<lparr>sfs_device := d2\<rparr>)"
      using skip(1) by (simp only: mult_div_mod_eq)
    moreover have "sfs_partialio io sv u skip len sfs = Inr (0, uio_adv len u, sv1, sfs1\<lparr>sfs_device := d2\<rparr>)"
      using b(1) True d(1) w(1) bk(2) skip(2) u(2) buf_uiomove_write [OF u, of "drop skip ?old"]
      by (simp add: sfs_partialio_def Let_def file_block_no [OF k] add.commute)
    ultimately show ?thesis unfolding wrote_bytes_def using size by (intro exI [of _ 0] exI [of _ len]) simp
  qed
qed

end

context block_device
begin

text \<open>The position of a block on the device is computed with 32 bits.\<close>

lemma block_offset:
  assumes "unat (b :: u32) < 2 ^ 23"
  shows "unat (b * of_nat 512) = 512 * unat b"
  using assms by (simp add: unat_word_ariths unat_of_nat)

lemma block_write:
  assumes fs: "fs_good sfs" "file_good sv sfs" "unat (sb_nblocks sfs) \<le> 2 ^ 23"
    and u: "uio_quiet u" "bu_rw u = UIO_WRITE" "512 \<le> bu_resid u"
    and k: "bu_offset u div 512 < 143" "bu_offset u mod 512 = 0"
  shows "wrote_bytes 512 u sv sfs (sfs_blockio io sv u sfs)"
proof -
  let ?k = "bu_offset u div 512" and ?bs = "take 512 (drop (bu_pos u) (bu_data u))"
  from bmap_alloc [OF fs(1,2) k(1)] obtain e b sv1 sfs1 where b: "sfs_bmap io sv ?k True sfs = Inr (e, b, sv1, sfs1)"
    "bmap_done ?k sv sfs e b sv1 sfs1" by blast
  have size: "sfi_size (sv_i sv1) = sfi_size (sv_i sv)" using b(2) by (simp only: bmap_done_def extends_def)
  show ?thesis
  proof (cases "e = 0")
    case False
    then have "e = ENOSPC" "fs_full sfs1" "fmap sv sfs ?k = 0" using b(2) by (simp_all only: bmap_done_def) simp_all
    moreover have "written (bu_offset u) [] sv sfs sv1 sfs1" by (rule bmap_done_written [OF fs(1,2) b(2)])
    ultimately show ?thesis unfolding wrote_bytes_def using b(1) u(2) size hole_in_block [OF k(1), of 512]
      by (intro exI [of _ e] exI [of _ 0]) (simp add: sfs_blockio_def Let_def file_block_no [OF k(1)])
  next
    case True
    note bd = b(2) [unfolded True]
    have fs1: "fs_good sfs1" "file_good sv1 sfs1" "sb_nblocks sfs1 = sb_nblocks sfs"
      using bmap_done_written [OF fs(1,2) bd] by (simp_all add: wrote_def)
    have bk: "fmap sv1 sfs1 ?k = b" "b \<noteq> 0" using bd by (simp_all only: bmap_done_def) (simp_all add: fun_eq_iff)
    then have b1: "unat b < unat (sb_nblocks sfs1)" using fmap_used [OF fs1(1,2) k(1)] by simp
    then have off: "unat (b * of_nat 512) = 512 * unat b" using fs(3) fs1(3) by (intro block_offset) simp
    let ?u = "u\<lparr>bu_offset := unat (b * of_nat 512), bu_resid := 512\<rparr>"
    have "block_request ?u (unat b) UIO_WRITE" using u off by (simp add: block_request_def uio_quiet_def)
    from rw_write [OF fs1(1) b1 this] obtain d where d: "sfs_rwblock io 0 ?u sfs1 = Inr (0, block_moved ?u [], sfs1\<lparr>sfs_device := d\<rparr>)"
      "fs_good (sfs1\<lparr>sfs_device := d\<rparr>)" "medium d = (disk sfs1)(unat b := ?bs)" by auto
    have bs: "length ?bs = 512" by (rule uio_quiet_length [OF u(1,3)])
    have "length (disk sfs1 (unat b)) = 512" using fs1(1) b1 by (intro medium_length) (simp_all add: fs_ok_def)
    then have "written (512 * ?k + 0) ?bs sv sfs sv1 (sfs1\<lparr>sfs_device := d\<rparr>)"
      using d(2,3) bs by (intro write_in_block [OF fs(1,2) bd k(1)]) simp_all
    then have "written (bu_offset u) ?bs sv sfs sv1 (sfs1\<lparr>sfs_device := d\<rparr>)"
      using k(2) mult_div_mod_eq [of 512 "bu_offset u"] by (simp only: add_0_right)
    moreover have "sfs_blockio io sv u sfs = Inr (0, uio_adv 512 u, sv1, sfs1\<lparr>sfs_device := d\<rparr>)"
      using b(1) True d(1) bk(2) u(2,3)
      by (simp add: sfs_blockio_def Let_def file_block_no [OF k(1)] block_moved_def uio_adv_def off)
    ultimately show ?thesis unfolding wrote_bytes_def using size by (intro exI [of _ 0] exI [of _ 512]) simp
  qed
qed

lemma blocks_write:
  assumes "fs_good sfs" "file_good sv sfs" "unat (sb_nblocks sfs) \<le> 2 ^ 23"
    and "uio_quiet u" "bu_rw u = UIO_WRITE" "512 * n \<le> bu_resid u"
    and "bu_offset u + bu_resid u \<le> 73216" "bu_offset u mod 512 = 0"
  shows "wrote_bytes (512 * n) u sv sfs (io_blocks io n sv u sfs)"
  using assms
proof (induction n arbitrary: u sv sfs)
  case 0
  then show ?case using wrote_bytes_0 by simp
next
  case (Suc n)
  have "bu_offset u div 512 < 143" using Suc.prems(6,7) by (simp add: less_mult_imp_div_less)
  then have first: "wrote_bytes 512 u sv sfs (sfs_blockio io sv u sfs)" using Suc.prems by (intro block_write) simp_all
  have rest: "wrote_bytes (512 * n) (uio_adv 512 u) sv1 sfs1 ((\<lambda>(u, sv, sfs). io_blocks io n sv u sfs) (uio_adv 512 u, sv1, sfs1))"
    if "fs_good sfs1" "file_good sv1 sfs1" "sb_nblocks sfs1 = sb_nblocks sfs" for sv1 sfs1
    unfolding prod.case
  proof (rule Suc.IH [OF that(1,2)])
    show "bu_offset (uio_adv 512 u) mod 512 = 0" using Suc.prems(8) by simp
    show "uio_quiet (uio_adv 512 u)" using Suc.prems(4,6) by (intro uio_quiet_adv) simp_all
    show "512 * n \<le> bu_resid (uio_adv 512 u)" "bu_offset (uio_adv 512 u) + bu_resid (uio_adv 512 u) \<le> 73216"
      using Suc.prems(6,7) by simp_all
  qed (use that(3) Suc.prems(3,5) in simp_all)
  have "512 \<le> bu_resid u" using Suc.prems(6) by simp
  from wrote_bytes_then [OF first this Suc.prems(4), where f = "\<lambda>(u, sv, sfs). io_blocks io n sv u sfs", OF rest]
  show ?case by (simp only: io_blocks.simps mult_Suc_right prod.case)
qed

end

context block_device
begin

text \<open>After the leading partial block the position is at a block boundary, or nothing is left.\<close>

lemma block_boundary:
  assumes "(r :: nat) - s > 0" and "s = (if q mod 512 = 0 then 0 else min (512 - q mod 512) r)"
  shows "((q :: nat) + s) mod 512 = 0"
proof (cases "q mod 512 = 0")
  case False
  then have "s = 512 - q mod 512" using assms by (auto simp: min_def split: if_splits)
  then have "q + s = q div 512 * 512 + 512"
    using div_mult_mod_eq [of q 512] mod_less_divisor [of 512 q] by linarith
  then show ?thesis by simp
qed (simp add: assms(2))

lemma tail_write:
  assumes fs: "fs_good sfs" "file_good sv sfs" and u: "uio_quiet u" "bu_rw u = UIO_WRITE" "bu_resid u < 512"
    and k: "bu_offset u + bu_resid u \<le> 73216" "bu_offset u mod 512 = 0"
  shows "wrote_bytes (bu_resid u) u sv sfs (io_tail io (u, sv, sfs))"
proof (cases "bu_resid u = 0")
  case True
  then show ?thesis using wrote_bytes_0 [OF fs, of u] by (simp add: io_tail_def)
next
  case False
  then have "bu_offset u div 512 < 143" using k(1) by (intro less_mult_imp_div_less) simp
  then have "wrote_bytes (bu_resid u) u sv sfs (sfs_partialio io sv u 0 (bu_resid u) sfs)"
    using u k(2) False by (intro partial_write [OF fs]) simp_all
  then show ?thesis using False u(3) by (simp add: io_tail_def)
qed

lemma aligned_write:
  assumes fs: "fs_good sfs" "file_good sv sfs" "unat (sb_nblocks sfs) \<le> 2 ^ 23" and u: "uio_quiet u" "bu_rw u = UIO_WRITE"
    and k: "bu_offset u + bu_resid u \<le> 73216" "bu_resid u > 0 \<Longrightarrow> bu_offset u mod 512 = 0"
  shows "wrote_bytes (bu_resid u) u sv sfs (io_aligned io (u, sv, sfs))"
proof (cases "bu_resid u = 0")
  case True
  then show ?thesis using wrote_bytes_0 [OF fs(1,2), of u] by (simp add: io_aligned_def)
next
  case False
  let ?s = "512 * (bu_resid u div 512)"
  have off: "bu_offset u mod 512 = 0" using k(2) False by simp
  have s: "?s \<le> bu_resid u" "bu_resid u - ?s = bu_resid u mod 512" "?s + bu_resid u mod 512 = bu_resid u"
    by (simp_all add: minus_mult_div_eq_mod)
  have blocks: "wrote_bytes ?s u sv sfs (io_blocks io (bu_resid u div 512) sv u sfs)"
    by (rule blocks_write [OF fs u s(1) k(1) off])
  have tail: "wrote_bytes (bu_resid u mod 512) (uio_adv ?s u) sv1 sfs1 (io_tail io (uio_adv ?s u, sv1, sfs1))"
    if "fs_good sfs1" "file_good sv1 sfs1" "sb_nblocks sfs1 = sb_nblocks sfs" for sv1 sfs1
  proof -
    have "uio_quiet (uio_adv ?s u)" by (rule uio_quiet_adv [OF u(1) s(1)])
    moreover have "bu_offset (uio_adv ?s u) mod 512 = 0" using off by (simp only: uio_adv_simps mod_mult_self2)
    moreover have "bu_offset (uio_adv ?s u) + bu_resid (uio_adv ?s u) \<le> 73216" using k(1) s(3) by (simp add: s(2))
    moreover have "bu_resid (uio_adv ?s u) = bu_resid u mod 512" by (simp add: s(2))
    moreover have "bu_resid u mod 512 < 512" by simp
    moreover have "bu_rw (uio_adv ?s u) = UIO_WRITE" using u(2) by simp
    ultimately show ?thesis using tail_write [OF that(1,2), of "uio_adv ?s u"] by (simp only:)
  qed
  have "io_aligned io (u, sv, sfs) = sbind (io_blocks io (bu_resid u div 512) sv u sfs) (\<lambda>(result, u, sv, sfs).
      if result \<noteq> 0 then Inr (result, u, sv, sfs) else io_tail io (u, sv, sfs))"
    using False off by (simp only: io_aligned_def prod.case if_False kassert_True simp_thms Let_def)
  with wrote_bytes_then [OF blocks s(1) u(1), where f = "io_tail io", OF tail] show ?thesis by (simp only: s(3))
qed

lemma body_write:
  assumes fs: "fs_good sfs" "file_good sv sfs" "unat (sb_nblocks sfs) \<le> 2 ^ 23" and u: "uio_quiet u" "bu_rw u = UIO_WRITE"
    and k: "bu_offset u + bu_resid u \<le> 73216" "bu_resid u > 0"
  shows "wrote_bytes (bu_resid u) u sv sfs (io_body io sv u sfs)"
proof -
  let ?o = "bu_offset u mod 512"
  define s where "s = (if ?o = 0 then 0 else min (512 - ?o) (bu_resid u))"
  have s: "s \<le> bu_resid u" by (simp add: s_def)
  have kb: "bu_offset u div 512 < 143" using k by (intro less_mult_imp_div_less) simp
  have "wrote_bytes s u sv sfs (io_head io sv u sfs)"
  proof (cases "?o = 0")
    case True
    then show ?thesis using wrote_bytes_0 [OF fs(1,2)] by (simp add: io_head_def s_def)
  next
    case False
    then have "io_head io sv u sfs = sfs_partialio io sv u ?o s sfs" by (auto simp: io_head_def s_def Let_def min_def)
    moreover have "s \<le> 512 - ?o" using False by (simp add: s_def)
    then have "?o + s \<le> 512" using mod_less_divisor [of 512 "bu_offset u"] by linarith
    moreover have "0 < s" using False k(2) mod_less_divisor [of 512 "bu_offset u"] by (simp add: s_def)
    ultimately show ?thesis using partial_write [OF fs(1,2) u s kb refl] by simp
  qed
  moreover have "wrote_bytes (bu_resid u - s) (uio_adv s u) sv1 sfs1 (io_aligned io (uio_adv s u, sv1, sfs1))"
    if f: "fs_good sfs1" "file_good sv1 sfs1" "sb_nblocks sfs1 = sb_nblocks sfs" for sv1 sfs1
  proof -
    have "(bu_offset u + s) mod 512 = 0" if "bu_resid u - s > 0"
      by (rule block_boundary [OF that s_def])
    then show ?thesis using aligned_write [OF f(1,2), of "uio_adv s u"] fs(3) f(3) u k(1) s uio_quiet_adv [OF u(1) s] by simp
  qed
  ultimately have "wrote_bytes (s + (bu_resid u - s)) u sv sfs (io_body io sv u sfs)"
    unfolding io_body_def by (rule wrote_bytes_then [OF _ s u(1)])
  then show ?thesis using s by simp
qed

end

lemma file_ptrs_resize [simp]:
  "file_ptrs d (sv\<lparr>sv_i := (sv_i sv)\<lparr>sfi_size := n\<rparr>, sv_dirty := b\<rparr>) = file_ptrs d sv"
  by (simp add: file_ptrs_def indirect_words_def)

lemma wrote_resize:
  "wrote ok nblks medium q bs sv sfs (sv'\<lparr>sv_i := (sv_i sv')\<lparr>sfi_size := n\<rparr>, sv_dirty := b\<rparr>) sfs' =
     wrote ok nblks medium q bs sv sfs sv' sfs'"
  by (simp add: wrote_def file_ok_def file_owns_def file_byte_def file_map_def)

text \<open>Filling a buffer.\<close>

definition uio_fill :: "u8 list \<Rightarrow> buf_uio \<Rightarrow> buf_uio" where
  "uio_fill bs u = (uio_adv (length bs) u)\<lparr>bu_data := take (bu_pos u) (bu_data u) @ bs @ drop (bu_pos u + length bs) (bu_data u)\<rparr>"

lemma uio_fill_simps [simp]:
  "bu_pos (uio_fill bs u) = bu_pos u + length bs" "bu_offset (uio_fill bs u) = bu_offset u + length bs"
  "bu_resid (uio_fill bs u) = bu_resid u - length bs" "bu_rw (uio_fill bs u) = bu_rw u" "bu_err (uio_fill bs u) = bu_err u"
  "bu_data (uio_fill bs u) = take (bu_pos u) (bu_data u) @ bs @ drop (bu_pos u + length bs) (bu_data u)"
  by (simp_all add: uio_fill_def)

lemma uio_fill_Nil [simp]: "uio_fill [] u = u"
  by (simp add: uio_fill_def)

lemma uio_fill_fill:
  "uio_quiet u \<Longrightarrow> length bs \<le> bu_resid u \<Longrightarrow> uio_fill cs (uio_fill bs u) = uio_fill (bs @ cs) u"
  by (simp add: uio_fill_def uio_adv_def uio_quiet_def ac_simps)

lemma uio_quiet_fill: "uio_quiet u \<Longrightarrow> length bs \<le> bu_resid u \<Longrightarrow> uio_quiet (uio_fill bs u)"
  by (simp add: uio_quiet_def)

lemma buf_uiomove_fill:
  "uio_quiet u \<Longrightarrow> bu_rw u = UIO_READ \<Longrightarrow> n \<le> bu_resid u \<Longrightarrow> n \<le> length ptr \<Longrightarrow>
    buf_uiomove ptr n u = (0, ptr, uio_fill (take n ptr) u)"
  by (simp add: buf_uiomove_read uio_fill_def min_def)

declare buf_uiomovezeros.simps [simp del]

lemma buf_uiomovezeros_fill:
  "uio_quiet u \<Longrightarrow> bu_rw u = UIO_READ \<Longrightarrow> n \<le> bu_resid u \<Longrightarrow> buf_uiomovezeros n u = (0, uio_fill (replicate n 0) u)"
proof (induction n u rule: buf_uiomovezeros.induct)
  case (1 n u)
  show ?case
  proof (cases "n = 0")
    case True
    then show ?thesis by (simp add: buf_uiomovezeros.simps [of 0])
  next
    case False
    define amt where "amt = (if 16 > n then n else 16)"
    have a: "amt \<le> n" "amt \<le> 16" "amt + (n - amt) = n" by (auto simp: amt_def)
    let ?u = "uio_fill (replicate amt 0) u"
    have mv: "buf_uiomove (replicate 16 0) amt u = (0, replicate 16 0, ?u)"
      using "1.prems" a by (subst buf_uiomove_fill) (simp_all add: min_def)
    have "buf_uiomovezeros n u = buf_uiomovezeros (n - amt) ?u"
      using False mv by (subst buf_uiomovezeros.simps) (simp add: amt_def [symmetric])
    also have "\<dots> = (0, uio_fill (replicate (n - amt) 0) ?u)"
      using False mv "1.prems" a by (intro "1.IH" [of amt "(0, replicate 16 0, ?u)" 0 "(replicate 16 0, ?u)" "replicate 16 0" ?u])
        (simp_all add: amt_def [symmetric] uio_quiet_fill)
    also have "uio_fill (replicate (n - amt) 0) ?u = uio_fill (replicate amt 0 @ replicate (n - amt) 0) u"
      using "1.prems" a by (intro uio_fill_fill) simp_all
    finally show ?thesis by (simp only: replicate_add [symmetric] a(3))
  qed
qed

context block_device
begin

text \<open>A write through \<^verbatim>\<open>sfs_io\<close>.\<close>

lemma write_file:
  assumes fs: "fs_good sfs" "file_good sv sfs" "unat (sb_nblocks sfs) \<le> 2 ^ 23" and u: "uio_quiet u" "bu_rw u = UIO_WRITE"
    and k: "bu_offset u + bu_resid u \<le> 73216" "bu_resid u > 0"
  shows "\<exists>e m sv' sfs'. sfs_io io sv u sfs = Inr (e, uio_adv m u, sv', sfs') \<and> m \<le> bu_resid u \<and>
    written (bu_offset u) (take m (drop (bu_pos u) (bu_data u))) sv sfs sv' sfs' \<and>
    unat (sfi_size (sv_i sv')) = max (unat (sfi_size (sv_i sv))) (if m = 0 then 0 else bu_offset u + m) \<and>
    (e = 0 \<and> m = bu_resid u \<or> e = ENOSPC \<and> fs_full sfs' \<and> hole_in (bu_offset u) (bu_resid u) sv sfs)"
proof -
  from body_write [OF fs u k] obtain e m sv1 sfs1 where w: "io_body io sv u sfs = Inr (e, uio_adv m u, sv1, sfs1)" "m \<le> bu_resid u"
    "written (bu_offset u) (take m (drop (bu_pos u) (bu_data u))) sv sfs sv1 sfs1" "sfi_size (sv_i sv1) = sfi_size (sv_i sv)"
    "e = 0 \<and> m = bu_resid u \<or> e = ENOSPC \<and> fs_full sfs1 \<and> hole_in (bu_offset u) (bu_resid u) sv sfs"
    unfolding wrote_bytes_def by blast
  define sv2 where "sv2 = (if m \<noteq> 0 \<and> bu_offset u + m > unat (sfi_size (sv_i sv))
    then sv1\<lparr>sv_i := (sv_i sv1)\<lparr>sfi_size := of_nat (bu_offset u + m)\<rparr>, sv_dirty := True\<rparr> else sv1)"
  have "bu_resid u - m \<noteq> bu_resid u \<longleftrightarrow> m \<noteq> 0" using w(2) k(2) by auto
  then have "io_out (bu_resid u) 0 e (uio_adv m u) sv1 sfs1 = Inr (e, uio_adv m u, sv2, sfs1)"
    using u(2) w(4) by (simp add: io_out_def sv2_def)
  then have "sfs_io io sv u sfs = Inr (e, uio_adv m u, sv2, sfs1)" using u(2) w(1) by (simp add: sfs_io_def)
  moreover have "written (bu_offset u) (take m (drop (bu_pos u) (bu_data u))) sv sfs sv2 sfs1"
    using w(3) by (simp add: sv2_def wrote_resize)
  moreover have "unat (of_nat (bu_offset u + m) :: u32) = bu_offset u + m" using w(2) k(1) by (subst unat_of_nat) simp
  then have "unat (sfi_size (sv_i sv2)) = max (unat (sfi_size (sv_i sv))) (if m = 0 then 0 else bu_offset u + m)"
    using w(4) by (simp add: sv2_def)
  ultimately show ?thesis using w(2,5) by blast
qed

end

context block_device
begin

text \<open>A read of \<open>t\<close> bytes fills the buffer with bytes of the file and changes nothing.\<close>

definition read_bytes :: "nat \<Rightarrow> buf_uio \<Rightarrow> sfs_vnode \<Rightarrow> 'd sfs_fs \<Rightarrow> 'd io_result \<Rightarrow> bool" where
  "read_bytes t u sv sfs r \<longleftrightarrow> (\<exists>d. r = Inr (0, uio_fill (map (fbyte sv sfs) [bu_offset u..<bu_offset u + t]) u, sv, sfs\<lparr>sfs_device := d\<rparr>) \<and>
     fs_good (sfs\<lparr>sfs_device := d\<rparr>) \<and> medium d = disk sfs)"

lemma read_bytes_0: "fs_good sfs \<Longrightarrow> read_bytes 0 u sv sfs (Inr (0, u, sv, sfs))"
  unfolding read_bytes_def by (intro exI [of _ "sfs_device sfs"]) simp

lemma read_bytes_then:
  assumes r: "read_bytes s u sv sfs r" and s: "s \<le> bu_resid u" and q: "uio_quiet u" and fs: "file_good sv sfs"
    and next_ok: "\<And>u1 sfs1. fs_good sfs1 \<Longrightarrow> file_good sv sfs1 \<Longrightarrow> sb_nblocks sfs1 = sb_nblocks sfs \<Longrightarrow> uio_quiet u1 \<Longrightarrow>
      bu_rw u1 = bu_rw u \<Longrightarrow> bu_offset u1 = bu_offset u + s \<Longrightarrow> bu_resid u1 = bu_resid u - s \<Longrightarrow>
      read_bytes t u1 sv sfs1 (f (u1, sv, sfs1))"
  shows "read_bytes (s + t) u sv sfs (sbind r (\<lambda>(result, u, sv, sfs).
    if result \<noteq> 0 then Inr (result, u, sv, sfs) else f (u, sv, sfs)))"
proof -
  let ?bs = "map (fbyte sv sfs) [bu_offset u..<bu_offset u + s]"
  have len: "length ?bs = s" by simp
  from r obtain d where d: "r = Inr (0, uio_fill ?bs u, sv, sfs\<lparr>sfs_device := d\<rparr>)" "fs_good (sfs\<lparr>sfs_device := d\<rparr>)"
    "medium d = disk sfs" unfolding read_bytes_def by blast
  have "read_bytes t (uio_fill ?bs u) sv (sfs\<lparr>sfs_device := d\<rparr>) (f (uio_fill ?bs u, sv, sfs\<lparr>sfs_device := d\<rparr>))"
    using uio_quiet_fill [OF q, of ?bs] s extends_device(2) [OF d(2,3) fs] by (intro next_ok [OF d(2)]) simp_all
  then obtain d2 where d2: "f (uio_fill ?bs u, sv, sfs\<lparr>sfs_device := d\<rparr>) =
      Inr (0, uio_fill (map (fbyte sv sfs) [bu_offset u + s..<bu_offset u + s + t]) (uio_fill ?bs u), sv, sfs\<lparr>sfs_device := d2\<rparr>)"
    "fs_good (sfs\<lparr>sfs_device := d2\<rparr>)" "medium d2 = disk sfs" unfolding read_bytes_def by (auto simp: d(3))
  have "uio_fill (map (fbyte sv sfs) [bu_offset u + s..<bu_offset u + s + t]) (uio_fill ?bs u) =
    uio_fill (?bs @ map (fbyte sv sfs) [bu_offset u + s..<bu_offset u + s + t]) u"
    by (rule uio_fill_fill [OF q]) (simp add: s)
  also have "\<dots> = uio_fill (map (fbyte sv sfs) [bu_offset u..<bu_offset u + (s + t)]) u"
    using upt_add_eq_append [of "bu_offset u" "bu_offset u + s" t] by (simp add: add.assoc flip: map_append)
  finally show ?thesis unfolding read_bytes_def using d(1) d2 by (intro exI [of _ d2]) simp
qed

text \<open>The contents of block \<open>k\<close> of a file, a hole being zeros.\<close>

lemma block_bytes:
  assumes "bs = (if fmap sv sfs k = 0 then replicate 512 0 else disk sfs (unat (fmap sv sfs k)))" and "length bs = 512"
    and "skip + len \<le> 512"
  shows "take len (drop skip bs) = map (fbyte sv sfs) [512 * k + skip..<512 * k + skip + len]"
proof (rule nth_equalityI)
  show "length (take len (drop skip bs)) = length (map (fbyte sv sfs) [512 * k + skip..<512 * k + skip + len])"
    using assms(2,3) by simp
  fix i assume i: "i < length (take len (drop skip bs))"
  then have "(512 * k + (skip + i)) div 512 = k" "(512 * k + (skip + i)) mod 512 = skip + i" using assms(2,3) by simp_all
  then have "fbyte sv sfs (512 * k + (skip + i)) = bs ! (skip + i)"
    using i assms(1-3) by (simp add: file_byte_def Let_def del: replicate.simps)
  then show "take len (drop skip bs) ! i = map (fbyte sv sfs) [512 * k + skip..<512 * k + skip + len] ! i"
    using i assms(2,3) by (simp add: add.assoc)
qed

lemma partial_read:
  assumes fs: "fs_good sfs" "file_good sv sfs" and u: "uio_quiet u" "bu_rw u = UIO_READ" "len \<le> bu_resid u"
    and k: "bu_offset u div 512 < 143" and skip: "skip = bu_offset u mod 512" "skip + len \<le> 512"
  shows "read_bytes len u sv sfs (sfs_partialio io sv u skip len sfs)"
proof -
  let ?k = "bu_offset u div 512"
  let ?bs = "if fmap sv sfs ?k = 0 then replicate 512 0 else disk sfs (unat (fmap sv sfs ?k))"
  from bmap_lookup [OF fs k] obtain d where d: "sfs_bmap io sv ?k False sfs = Inr (0, fmap sv sfs ?k, sv, sfs\<lparr>sfs_device := d\<rparr>)"
    "fs_good (sfs\<lparr>sfs_device := d\<rparr>)" "medium d = disk sfs" by blast
  have "\<exists>d'. (if fmap sv sfs ?k = 0 then kassert True ''uio->uio_rw == UIO_READ'' (Inr (0, replicate 512 0, sfs\<lparr>sfs_device := d\<rparr>))
      else sfs_readblock io (fmap sv sfs ?k) (sfs\<lparr>sfs_device := d\<rparr>)) = Inr (0, ?bs, sfs\<lparr>sfs_device := d'\<rparr>) \<and>
      fs_good (sfs\<lparr>sfs_device := d'\<rparr>) \<and> medium d' = disk sfs \<and> length ?bs = 512"
  proof (cases "fmap sv sfs ?k = 0")
    case True
    then show ?thesis using d(2,3) by (intro exI [of _ d]) simp
  next
    case False
    then have b: "unat (fmap sv sfs ?k) < unat (sb_nblocks sfs)" using fmap_used [OF fs k] by simp
    then have "length (disk sfs (unat (fmap sv sfs ?k))) = 512" using fs(1) by (intro medium_length) (simp_all add: fs_ok_def)
    then show ?thesis using False read_block [OF d(2), of "fmap sv sfs ?k"] b d(3) by auto
  qed
  then obtain d' where d': "(if fmap sv sfs ?k = 0 then kassert True ''uio->uio_rw == UIO_READ'' (Inr (0, replicate 512 0, sfs\<lparr>sfs_device := d\<rparr>))
      else sfs_readblock io (fmap sv sfs ?k) (sfs\<lparr>sfs_device := d\<rparr>)) = Inr (0, ?bs, sfs\<lparr>sfs_device := d'\<rparr>)"
    "fs_good (sfs\<lparr>sfs_device := d'\<rparr>)" "medium d' = disk sfs" "length ?bs = 512" by blast
  have "take len (drop skip ?bs) = map (fbyte sv sfs) [512 * ?k + skip..<512 * ?k + skip + len]"
    by (rule block_bytes [OF refl d'(4) skip(2)])
  then have bs: "take len (drop skip ?bs) = map (fbyte sv sfs) [bu_offset u..<bu_offset u + len]"
    using skip(1) by (simp only: mult_div_mod_eq)
  have "len \<le> length (drop skip ?bs)" unfolding length_drop d'(4) using skip(2) by simp
  from buf_uiomove_fill [OF u this]
  have mv: "buf_uiomove (drop skip ?bs) len u = (0, drop skip ?bs, uio_fill (map (fbyte sv sfs) [bu_offset u..<bu_offset u + len]) u)"
    by (simp only: bs)
  have doalloc: "(bu_rw u = UIO_WRITE) = False" "(bu_rw u = UIO_READ) = True" using u(2) by simp_all
  have "sfs_partialio io sv u skip len sfs = Inr (0, uio_fill (map (fbyte sv sfs) [bu_offset u..<bu_offset u + len]) u, sv, sfs\<lparr>sfs_device := d'\<rparr>)"
    unfolding sfs_partialio_def Let_def doalloc file_block_no [OF k] d(1) sbind.simps prod.case
    using d'(1) skip(2) mv u(2) by (simp del: replicate.simps)
  then show ?thesis unfolding read_bytes_def using d'(2,3) by blast
qed

end

context block_device
begin

lemma block_read:
  assumes fs: "fs_good sfs" "file_good sv sfs" "unat (sb_nblocks sfs) \<le> 2 ^ 23"
    and u: "uio_quiet u" "bu_rw u = UIO_READ" "512 \<le> bu_resid u"
    and k: "bu_offset u div 512 < 143" "bu_offset u mod 512 = 0"
  shows "read_bytes 512 u sv sfs (sfs_blockio io sv u sfs)"
proof -
  let ?k = "bu_offset u div 512"
  let ?b = "fmap sv sfs ?k"
  let ?bs = "if ?b = 0 then replicate 512 0 else disk sfs (unat ?b)"
  from bmap_lookup [OF fs(1,2) k(1)] obtain d where d: "sfs_bmap io sv ?k False sfs = Inr (0, ?b, sv, sfs\<lparr>sfs_device := d\<rparr>)"
    "fs_good (sfs\<lparr>sfs_device := d\<rparr>)" "medium d = disk sfs" by blast
  have used: "?b \<noteq> 0 \<Longrightarrow> unat ?b < unat (sb_nblocks sfs)" using fmap_used [OF fs(1,2) k(1)] by simp
  then have len: "length ?bs = 512" using fs(1) medium_length [of "sfs_device sfs" "unat ?b"] by (auto simp: fs_ok_def)
  have "take 512 (drop 0 ?bs) = map (fbyte sv sfs) [512 * ?k + 0..<512 * ?k + 0 + 512]" by (rule block_bytes [OF refl len]) simp
  then have bs: "?bs = map (fbyte sv sfs) [bu_offset u..<bu_offset u + 512]"
    using k(2) mult_div_mod_eq [of 512 "bu_offset u"] len by (simp only: add_0_right drop_0 take_all_iff order_refl take_all)
  have doalloc: "(bu_rw u = UIO_WRITE) = False" using u(2) by simp
  show ?thesis
  proof (cases "?b = 0")
    case True
    have "sfs_blockio io sv u sfs = Inr (0, uio_fill ?bs u, sv, sfs\<lparr>sfs_device := d\<rparr>)"
      unfolding sfs_blockio_def Let_def doalloc file_block_no [OF k(1)] d(1) sbind.simps prod.case
      using True buf_uiomovezeros_fill [OF u] u(2) by simp
    then show ?thesis unfolding read_bytes_def bs using d(2,3) by blast
  next
    case False
    then have off: "unat (?b * of_nat 512) = 512 * unat ?b" using fs(3) used by (intro block_offset) simp
    let ?u = "u\<lparr>bu_offset := unat (?b * of_nat 512), bu_resid := 512\<rparr>"
    have "block_request ?u (unat ?b) UIO_READ" using u off by (simp add: block_request_def uio_quiet_def)
    with rw_read [OF d(2), of "unat ?b" ?u] used [OF False] d(3) obtain d2 where
      d2: "sfs_rwblock io 0 ?u (sfs\<lparr>sfs_device := d\<rparr>) = Inr (0, block_moved ?u (disk sfs (unat ?b)), sfs\<lparr>sfs_device := d2\<rparr>)"
      "fs_good (sfs\<lparr>sfs_device := d2\<rparr>)" "medium d2 = disk sfs" by auto
    have "sfs_blockio io sv u sfs = Inr (0, uio_fill ?bs u, sv, sfs\<lparr>sfs_device := d2\<rparr>)"
      unfolding sfs_blockio_def Let_def doalloc file_block_no [OF k(1)] d(1) sbind.simps prod.case
      using False d2(1) u(2,3) len by (simp add: block_moved_def uio_fill_def uio_adv_def off)
    then show ?thesis unfolding read_bytes_def bs using d2(2,3) by blast
  qed
qed

lemma blocks_read:
  assumes "fs_good sfs" "file_good sv sfs" "unat (sb_nblocks sfs) \<le> 2 ^ 23"
    and "uio_quiet u" "bu_rw u = UIO_READ" "512 * n \<le> bu_resid u"
    and "bu_offset u + bu_resid u \<le> 73216" "bu_offset u mod 512 = 0"
  shows "read_bytes (512 * n) u sv sfs (io_blocks io n sv u sfs)"
  using assms
proof (induction n arbitrary: u sfs)
  case 0
  then show ?case using read_bytes_0 by simp
next
  case (Suc n)
  have res: "512 \<le> bu_resid u" using Suc.prems(6) by simp
  have "bu_offset u div 512 < 143" using Suc.prems(6,7) by (simp add: less_mult_imp_div_less)
  then have first: "read_bytes 512 u sv sfs (sfs_blockio io sv u sfs)" using Suc.prems res by (intro block_read) simp_all
  have rest: "read_bytes (512 * n) u1 sv sfs1 ((\<lambda>(u, sv, sfs). io_blocks io n sv u sfs) (u1, sv, sfs1))"
    if "fs_good sfs1" "file_good sv sfs1" "sb_nblocks sfs1 = sb_nblocks sfs" "uio_quiet u1" "bu_rw u1 = bu_rw u"
      "bu_offset u1 = bu_offset u + 512" "bu_resid u1 = bu_resid u - 512" for u1 sfs1
    unfolding prod.case
  proof (rule Suc.IH [OF that(1,2) _ that(4)])
    show "bu_offset u1 mod 512 = 0" unfolding that(6) using Suc.prems(8) by simp
    show "512 * n \<le> bu_resid u1" "bu_offset u1 + bu_resid u1 \<le> 73216" unfolding that(6,7)
      using Suc.prems(6,7) by simp_all
    show "unat (sb_nblocks sfs1) \<le> 2 ^ 23" unfolding that(3) by (rule Suc.prems(3))
    show "bu_rw u1 = UIO_READ" unfolding that(5) by (rule Suc.prems(5))
  qed
  have "read_bytes (512 + 512 * n) u sv sfs (sbind (sfs_blockio io sv u sfs) (\<lambda>(result, u, sv, sfs).
    if result \<noteq> 0 then Inr (result, u, sv, sfs) else (\<lambda>(u, sv, sfs). io_blocks io n sv u sfs) (u, sv, sfs)))"
    by (rule read_bytes_then [OF first res Suc.prems(4,2)]) (rule rest)
  then show ?case by (simp only: io_blocks.simps mult_Suc_right prod.case)
qed

lemma tail_read:
  assumes fs: "fs_good sfs" "file_good sv sfs" and u: "uio_quiet u" "bu_rw u = UIO_READ" "bu_resid u < 512"
    and k: "bu_offset u + bu_resid u \<le> 73216" "bu_offset u mod 512 = 0"
  shows "read_bytes (bu_resid u) u sv sfs (io_tail io (u, sv, sfs))"
proof (cases "bu_resid u = 0")
  case True
  then show ?thesis using read_bytes_0 [OF fs(1), of u sv] by (simp add: io_tail_def)
next
  case False
  then have "bu_offset u div 512 < 143" using k(1) by (intro less_mult_imp_div_less) simp
  then have "read_bytes (bu_resid u) u sv sfs (sfs_partialio io sv u 0 (bu_resid u) sfs)"
    using u k(2) by (intro partial_read [OF fs]) simp_all
  then show ?thesis using False u(3) by (simp add: io_tail_def)
qed

lemma aligned_read:
  assumes fs: "fs_good sfs" "file_good sv sfs" "unat (sb_nblocks sfs) \<le> 2 ^ 23" and u: "uio_quiet u" "bu_rw u = UIO_READ"
    and k: "bu_offset u + bu_resid u \<le> 73216" "bu_resid u > 0 \<Longrightarrow> bu_offset u mod 512 = 0"
  shows "read_bytes (bu_resid u) u sv sfs (io_aligned io (u, sv, sfs))"
proof (cases "bu_resid u = 0")
  case True
  then show ?thesis using read_bytes_0 [OF fs(1), of u sv] by (simp add: io_aligned_def)
next
  case False
  let ?s = "512 * (bu_resid u div 512)"
  have off: "bu_offset u mod 512 = 0" using k(2) False by simp
  have s: "?s \<le> bu_resid u" "bu_resid u - ?s = bu_resid u mod 512" "?s + bu_resid u mod 512 = bu_resid u"
    by (simp_all add: minus_mult_div_eq_mod)
  have blocks: "read_bytes ?s u sv sfs (io_blocks io (bu_resid u div 512) sv u sfs)"
    by (rule blocks_read [OF fs u s(1) k(1) off])
  have tail: "read_bytes (bu_resid u mod 512) u1 sv sfs1 (io_tail io (u1, sv, sfs1))"
    if "fs_good sfs1" "file_good sv sfs1" "sb_nblocks sfs1 = sb_nblocks sfs" "uio_quiet u1" "bu_rw u1 = bu_rw u"
      "bu_offset u1 = bu_offset u + ?s" "bu_resid u1 = bu_resid u - ?s" for u1 sfs1
  proof -
    have "bu_offset u1 mod 512 = 0" unfolding that(6) using off by (simp only: mod_mult_self2)
    moreover have "bu_offset u1 + bu_resid u1 \<le> 73216" unfolding that(6,7) using k(1) s(1) by linarith
    moreover have r: "bu_resid u1 = bu_resid u mod 512" unfolding that(7) by (rule s(2))
    then have "bu_resid u1 < 512" by simp
    moreover have "bu_rw u1 = UIO_READ" unfolding that(5) by (rule u(2))
    ultimately show ?thesis using tail_read [OF that(1,2,4)] by (simp only: r)
  qed
  have "io_aligned io (u, sv, sfs) = sbind (io_blocks io (bu_resid u div 512) sv u sfs) (\<lambda>(result, u, sv, sfs).
      if result \<noteq> 0 then Inr (result, u, sv, sfs) else io_tail io (u, sv, sfs))"
    using False off by (simp only: io_aligned_def prod.case if_False kassert_True simp_thms Let_def)
  moreover have "read_bytes (?s + bu_resid u mod 512) u sv sfs (sbind (io_blocks io (bu_resid u div 512) sv u sfs)
      (\<lambda>(result, u, sv, sfs). if result \<noteq> 0 then Inr (result, u, sv, sfs) else io_tail io (u, sv, sfs)))"
    by (rule read_bytes_then [OF blocks s(1) u(1) fs(2)]) (rule tail)
  ultimately show ?thesis by (simp only: s(3))
qed

end

context block_device
begin

lemma body_read:
  assumes fs: "fs_good sfs" "file_good sv sfs" "unat (sb_nblocks sfs) \<le> 2 ^ 23" and u: "uio_quiet u" "bu_rw u = UIO_READ"
    and k: "bu_offset u + bu_resid u \<le> 73216" "bu_resid u > 0"
  shows "read_bytes (bu_resid u) u sv sfs (io_body io sv u sfs)"
proof -
  let ?o = "bu_offset u mod 512"
  define s where "s = (if ?o = 0 then 0 else min (512 - ?o) (bu_resid u))"
  have s: "s \<le> bu_resid u" by (simp add: s_def)
  have kb: "bu_offset u div 512 < 143" using k by (intro less_mult_imp_div_less) simp
  have head: "read_bytes s u sv sfs (io_head io sv u sfs)"
  proof (cases "?o = 0")
    case True
    then show ?thesis using read_bytes_0 [OF fs(1)] by (simp add: io_head_def s_def)
  next
    case False
    then have "io_head io sv u sfs = sfs_partialio io sv u ?o s sfs" by (auto simp: io_head_def s_def Let_def min_def)
    moreover have "s \<le> 512 - ?o" using False by (simp add: s_def)
    then have "?o + s \<le> 512" using mod_less_divisor [of 512 "bu_offset u"] by linarith
    ultimately show ?thesis using partial_read [OF fs(1,2) u s kb refl] by simp
  qed
  have next_block: "(bu_offset u + s) mod 512 = 0" if "bu_resid u - s > 0"
    by (rule block_boundary [OF that s_def])
  have rest: "read_bytes (bu_resid u - s) u1 sv sfs1 (io_aligned io (u1, sv, sfs1))"
    if "fs_good sfs1" "file_good sv sfs1" "sb_nblocks sfs1 = sb_nblocks sfs" "uio_quiet u1" "bu_rw u1 = bu_rw u"
      "bu_offset u1 = bu_offset u + s" "bu_resid u1 = bu_resid u - s" for u1 sfs1
  proof -
    have "bu_offset u1 + bu_resid u1 \<le> 73216" unfolding that(6,7) using k(1) s by linarith
    moreover have "bu_offset u1 mod 512 = 0" if "bu_resid u1 > 0" using next_block that \<open>bu_offset u1 = _\<close> \<open>bu_resid u1 = _\<close> by simp
    ultimately show ?thesis using aligned_read [OF that(1,2) _ that(4)] fs(3) u(2) that(3,5,7) by simp
  qed
  have "read_bytes (s + (bu_resid u - s)) u sv sfs (io_body io sv u sfs)"
    unfolding io_body_def by (rule read_bytes_then [OF head s u(1) fs(2)]) (rule rest)
  then show ?thesis using s by simp
qed

text \<open>A read through \<^verbatim>\<open>sfs_io\<close> gives what there is of the region before the end of the file.\<close>

lemma read_file:
  assumes fs: "fs_good sfs" "file_good sv sfs" "unat (sb_nblocks sfs) \<le> 2 ^ 23" and u: "uio_quiet u" "bu_rw u = UIO_READ"
    and size: "unat (sfi_size (sv_i sv)) \<le> 73216" and k: "bu_resid u > 0"
  shows "\<exists>d. sfs_io io sv u sfs =
      Inr (0, uio_fill (map (fbyte sv sfs) [bu_offset u..<min (bu_offset u + bu_resid u) (unat (sfi_size (sv_i sv)))]) u,
        sv, sfs\<lparr>sfs_device := d\<rparr>) \<and> fs_good (sfs\<lparr>sfs_device := d\<rparr>) \<and> medium d = disk sfs"
proof (cases "bu_offset u \<ge> unat (sfi_size (sv_i sv))")
  case True
  then show ?thesis using u(2) fs(1) by (intro exI [of _ "sfs_device sfs"]) (simp add: sfs_io_def)
next
  case False
  let ?sz = "unat (sfi_size (sv_i sv))"
  define x where "x = (if bu_offset u + bu_resid u > ?sz then bu_offset u + bu_resid u - ?sz else 0)"
  have x: "x < bu_resid u" "bu_offset u + (bu_resid u - x) = min (bu_offset u + bu_resid u) ?sz" using False k by (auto simp: x_def)
  let ?u = "u\<lparr>bu_resid := bu_resid u - x\<rparr>"
  have "uio_quiet ?u" using u(1) by (auto simp: uio_quiet_def)
  moreover have "bu_offset ?u + bu_resid ?u \<le> 73216" using x(2) size by simp
  ultimately have "read_bytes (bu_resid u - x) ?u sv sfs (io_body io sv ?u sfs)"
    using body_read [OF fs, of ?u] u(2) x(1) by simp
  then obtain d where d: "io_body io sv ?u sfs = Inr (0, uio_fill (map (fbyte sv sfs) [bu_offset u..<min (bu_offset u + bu_resid u) ?sz]) ?u,
      sv, sfs\<lparr>sfs_device := d\<rparr>)" "fs_good (sfs\<lparr>sfs_device := d\<rparr>)" "medium d = disk sfs" unfolding read_bytes_def by (auto simp: x(2))
  have "bu_resid u - x - (min (bu_offset u + bu_resid u) ?sz - bu_offset u) + x =
    bu_resid u - (min (bu_offset u + bu_resid u) ?sz - bu_offset u)" using x by (auto simp: x_def)
  then have "io_out (bu_resid u) x 0 (uio_fill (map (fbyte sv sfs) [bu_offset u..<min (bu_offset u + bu_resid u) ?sz]) ?u) sv (sfs\<lparr>sfs_device := d\<rparr>) =
    Inr (0, uio_fill (map (fbyte sv sfs) [bu_offset u..<min (bu_offset u + bu_resid u) ?sz]) u, sv, sfs\<lparr>sfs_device := d\<rparr>)"
    using u(2) by (simp add: io_out_def uio_fill_def uio_adv_def)
  then have "sfs_io io sv u sfs = Inr (0, uio_fill (map (fbyte sv sfs) [bu_offset u..<min (bu_offset u + bu_resid u) ?sz]) u, sv, sfs\<lparr>sfs_device := d\<rparr>)"
    using False u(2) d(1) x(1) by (simp add: sfs_io_def x_def [symmetric])
  then show ?thesis using d(2,3) by blast
qed

end

section \<open>Files on the disk\<close>

abbreviation disk_wrote :: "('h \<Rightarrow> nat \<Rightarrow> u8 list) \<Rightarrow> nat \<Rightarrow> u8 list \<Rightarrow>
    sfs_vnode \<Rightarrow> 'h lhd_softc sfs_fs \<Rightarrow> sfs_vnode \<Rightarrow> 'h lhd_softc sfs_fs \<Rightarrow> bool" where
  "disk_wrote sectors \<equiv> wrote (lhd_ok sectors) (\<lambda>lh. unat (d_blocks lh)) (lhd_medium sectors)"

definition sample_uio :: "u8 list \<Rightarrow> nat \<Rightarrow> uio_rw \<Rightarrow> buf_uio" where
  "sample_uio bs pos rw = buf_kinit bs pos rw"

lemma sample_uio_quiet: "uio_quiet (sample_uio bs pos rw)"
  by (simp add: sample_uio_def uio_quiet_def buf_kinit_def)

text \<open>C7: Writing a region of a file refines an array of bytes. Let the disk be in good order, which includes that every
  transfer of a sector succeeds, and have at most \<open>2 ^ 23\<close> blocks, and let the region be nonempty and inside the maximal
  file size and the buffer accessible without a fault. Then the write returns success with the whole region replaced,
  or reports a full disk with the first \<open>m\<close> bytes replaced, which happens only when the disk is full and the region
  met a hole of the file; the residue, the offset and the length of the file follow. No other byte of the file
  changes, and no block that belongs to anything else.\<close>
theorem sfs_io_write_refines:
  assumes "disk_fs_ok sectors sfs" and "disk_file_ok sectors sv sfs" and "unat (sb_nblocks sfs) \<le> 2 ^ 23"
    and "uio_quiet u" and "bu_rw u = UIO_WRITE" and "bu_offset u + bu_resid u \<le> SFS_MAXBYTES" and "bu_resid u > 0"
  shows "\<exists>e m sv' sfs'. sfs_io lhd_io sv u sfs = Inr (e, uio_adv m u, sv', sfs') \<and> m \<le> bu_resid u \<and>
    disk_wrote sectors (bu_offset u) (take m (drop (bu_pos u) (bu_data u))) sv sfs sv' sfs' \<and>
    unat (sfi_size (sv_i sv')) = max (unat (sfi_size (sv_i sv))) (if m = 0 then 0 else bu_offset u + m) \<and>
    (e = 0 \<and> m = bu_resid u \<or>
     e = ENOSPC \<and> fs_full sfs' \<and> file_hole (lhd_medium sectors (sfs_device sfs)) sv (bu_offset u) (bu_resid u))"
  by (rule disk.write_file [OF assms])

theorem sfs_io_write_refines_witness:
  "\<exists>e m sv' sfs'. sfs_io lhd_io sample_file (sample_uio (replicate 700 7) 300 UIO_WRITE) sample_fs =
      Inr (e, uio_adv m (sample_uio (replicate 700 7) 300 UIO_WRITE), sv', sfs') \<and> m \<le> 700 \<and>
    disk_wrote sample_sectors 300 (replicate m 7) sample_file sample_fs sv' sfs'"
proof -
  let ?u = "sample_uio (replicate 700 7) 300 UIO_WRITE"
  have u: "bu_rw ?u = UIO_WRITE" "bu_offset ?u = 300" "bu_resid ?u = 700" "bu_pos ?u = 0" "bu_data ?u = replicate 700 7"
    by (simp_all add: sample_uio_def buf_kinit_def)
  have "unat (sb_nblocks sample_fs) \<le> 2 ^ 23" by (simp add: sample_fs_def)
  then show ?thesis
    using sfs_io_write_refines [OF sample_fs_ok sample_file_ok _ sample_uio_quiet, of "replicate 700 7" 300 UIO_WRITE] u
    by (fastforce simp: min_def)
qed

text \<open>C20: What has been written is read back. Let the disk be in good order, which includes that every transfer of a
  sector succeeds, and have at most \<open>2 ^ 23\<close> blocks, and let the file and the nonempty region be inside the maximal file
  size and both buffers accessible without a fault. After a write that returned success, reading the same region
  returns success and fills the buffer with the bytes that were written.\<close>
theorem sfs_io_roundtrip:
  assumes "disk_fs_ok sectors sfs" and "disk_file_ok sectors sv sfs" and "unat (sb_nblocks sfs) \<le> 2 ^ 23"
    and "unat (sfi_size (sv_i sv)) \<le> SFS_MAXBYTES"
    and "uio_quiet u" and "bu_rw u = UIO_WRITE" and "bu_offset u + bu_resid u \<le> SFS_MAXBYTES" and "bu_resid u > 0"
    and "sfs_io lhd_io sv u sfs = Inr (0, u', sv', sfs')"
    and "uio_quiet r" and "bu_rw r = UIO_READ" and "bu_offset r = bu_offset u" and "bu_resid r = bu_resid u"
  shows "\<exists>sfs2. sfs_io lhd_io sv' r sfs' = Inr (0, uio_fill (take (bu_resid u) (drop (bu_pos u) (bu_data u))) r, sv', sfs2)"
proof -
  let ?bs = "take (bu_resid u) (drop (bu_pos u) (bu_data u))"
  from disk.write_file [OF assms(1-3,5-8)] assms(9) have w: "disk_wrote sectors (bu_offset u) ?bs sv sfs sv' sfs'"
    "unat (sfi_size (sv_i sv')) = max (unat (sfi_size (sv_i sv))) (bu_offset u + bu_resid u)" using assms(8) by auto
  then have fs: "disk_fs_ok sectors sfs'" "disk_file_ok sectors sv' sfs'" "unat (sb_nblocks sfs') \<le> 2 ^ 23"
    using assms(3) by (simp_all add: wrote_def)
  have size: "unat (sfi_size (sv_i sv')) \<le> 73216" using w(2) assms(4,7) by simp
  have len: "length ?bs = bu_resid u" by (rule uio_quiet_length [OF assms(5)]) simp
  let ?f = "file_byte (lhd_medium sectors (sfs_device sfs')) sv'"
  have "map ?f [bu_offset u..<bu_offset u + bu_resid u] = ?bs"
  proof (rule nth_equalityI)
    fix i assume "i < length (map ?f [bu_offset u..<bu_offset u + bu_resid u])"
    then have i: "i < bu_resid u" by simp
    then have "?f (bu_offset u + i) = ?bs ! i" using w(1) assms(7) len by (simp add: wrote_def)
    then show "map ?f [bu_offset u..<bu_offset u + bu_resid u] ! i = ?bs ! i" using i by simp
  qed (simp add: len del: length_take length_drop)
  moreover have "min (bu_offset u + bu_resid u) (unat (sfi_size (sv_i sv'))) = bu_offset u + bu_resid u" using w(2) by simp
  ultimately show ?thesis using disk.read_file [OF fs assms(10,11) size] assms(8,12,13) by auto
qed

text \<open>A file whose first block is there.\<close>

definition sample_fs2 :: "(nat \<Rightarrow> u8 list) lhd_softc sfs_fs" where
  "sample_fs2 = sample_fs\<lparr>sfs_freemap := \<lparr>nbits = 16, bm_v = [0x27, 0]\<rparr>\<rparr>"

definition sample_file2 :: sfs_vnode where
  "sample_file2 = sample_file\<lparr>sv_i := (sv_i sample_file)\<lparr>sfi_direct := 5 # replicate 14 0, sfi_size := 100\<rparr>\<rparr>"

lemma sample_fs2_ok: "disk_fs_ok sample_sectors sample_fs2"
proof -
  have "bitmap_inv \<lparr>nbits = 16, bm_v = [0x27, 0]\<rparr>" by (simp add: bitmap_inv_def)
  moreover have "0 \<in> bm_set \<lparr>nbits = 16, bm_v = [0x27, 0]\<rparr>" by (simp add: bm_set_def bm_bit_def)
  ultimately show ?thesis using sample_drive_ok
    by (simp add: fs_ok_def sample_fs2_def sample_fs_def sample_disk_def lhd_ok_def)
qed

lemma sample_file2_ok: "disk_file_ok sample_sectors sample_file2 sample_fs2"
proof -
  have p: "disk_ptrs sample_sectors sample_file2 sample_fs2 = 5 # replicate 143 0"
  proof -
    have "replicate 143 (0 :: u32) = replicate 14 0 @ 0 # replicate 128 0"
      using replicate_add [of 14 129 "0 :: u32"] replicate_Suc [of 128 "0 :: u32"] by simp
    then show ?thesis by (simp add: file_ptrs_def sample_file2_def sample_file_def indirect_words_def del: replicate.simps)
  qed
  have "5 \<in> bm_set \<lparr>nbits = 16, bm_v = [0x27, 0]\<rparr>" by (simp add: bm_set_def bm_bit_def bit_numeral_simps)
  then have "ptrs_ok (5 # replicate 143 0) sample_fs2"
    by (auto simp: ptrs_ok_def nz_distinct_def nth_Cons' sample_fs2_def sample_fs_def simp del: replicate.simps)
  then show ?thesis using p by (simp add: file_ok_def sample_file2_def sample_file_def del: replicate.simps)
qed

theorem sfs_io_roundtrip_witness:
  "\<exists>u' sv' sfs' sfs2. sfs_io lhd_io sample_file2 (sample_uio [1, 2, 3] 100 UIO_WRITE) sample_fs2 = Inr (0, u', sv', sfs') \<and>
    sfs_io lhd_io sv' (sample_uio [0, 0, 0] 100 UIO_READ) sfs' = Inr (0, uio_fill [1, 2, 3] (sample_uio [0, 0, 0] 100 UIO_READ), sv', sfs2)"
proof -
  let ?w = "sample_uio [1, 2, 3] 100 UIO_WRITE" and ?r = "sample_uio [0, 0, 0] 100 UIO_READ"
  have w: "bu_rw ?w = UIO_WRITE" "bu_offset ?w = 100" "bu_resid ?w = 3" "bu_pos ?w = 0" "bu_data ?w = [1, 2, 3]"
    and r: "bu_rw ?r = UIO_READ" "bu_offset ?r = 100" "bu_resid ?r = 3" by (simp_all add: sample_uio_def buf_kinit_def)
  have n: "unat (sb_nblocks sample_fs2) \<le> 2 ^ 23" by (simp add: sample_fs2_def sample_fs_def)
  have "\<not> file_hole (lhd_medium sample_sectors (sfs_device sample_fs2)) sample_file2 100 3"
  proof
    assume "file_hole (lhd_medium sample_sectors (sfs_device sample_fs2)) sample_file2 100 3"
    then obtain k where k: "512 * k < 103" "disk_map sample_sectors sample_file2 sample_fs2 k = 0" by (auto simp: file_hole_def)
    then have "k = 0" by simp
    then show False using k(2) by (simp add: file_map_def file_ptrs_def sample_file2_def)
  qed
  then obtain u' sv' sfs' where s: "sfs_io lhd_io sample_file2 ?w sample_fs2 = Inr (0, u', sv', sfs')"
    using disk.write_file [OF sample_fs2_ok sample_file2_ok n sample_uio_quiet w(1)] w by auto
  have "unat (sfi_size (sv_i sample_file2)) \<le> 73216" by (simp add: sample_file2_def)
  from sfs_io_roundtrip [OF sample_fs2_ok sample_file2_ok n this sample_uio_quiet w(1) _ _ s sample_uio_quiet r(1)] s w r
  show ?thesis by auto
qed

end
