(* ===== verification/Sfs_Dir.thy ===== *)
theory Sfs_Dir
  imports Sfs_File
begin

text \<open>
  Directories of the simple file system (\<^verbatim>\<open>kern/fs/sfs/sfs_dir.c\<close>): an array of entries of 64 bytes, an inode
  number, 0 for a free slot, and a name of at most 59 characters. The main result is that a directory is a finite
  map from names to inode numbers. A name is the list of its characters, none of them zero.
\<close>

section \<open>Operations\<close>

abbreviation (input) SFS_NAMELEN :: nat where "SFS_NAMELEN \<equiv> 60"
abbreviation (input) SFS_DIRENTRY :: nat where "SFS_DIRENTRY \<equiv> 64"
abbreviation (input) SFS_TYPE_DIR :: u16 where "SFS_TYPE_DIR \<equiv> 2"

record sfs_direntry =
  sfd_ino :: u32
  sfd_name :: "u8 list"

definition direntry_bytes :: "sfs_direntry \<Rightarrow> u8 list" where
  "direntry_bytes sd = u32_bytes (sfd_ino sd) @ sfd_name sd"

definition bytes_direntry :: "u8 list \<Rightarrow> sfs_direntry" where
  "bytes_direntry bs = \<lparr>sfd_ino = u32_of (bs ! 0) (bs ! 1) (bs ! 2) (bs ! 3), sfd_name = drop 4 bs\<rparr>"

text \<open>The characters of a string before its end.\<close>

definition c_string :: "u8 list \<Rightarrow> u8 list" where
  "c_string bs = takeWhile (\<lambda>b. b \<noteq> 0) bs"

definition sfs_readdir :: "'d devop_io \<Rightarrow> sfs_vnode \<Rightarrow> nat \<Rightarrow> 'd sfs_fs \<Rightarrow> (errno \<times> sfs_direntry \<times> sfs_vnode \<times> 'd sfs_fs) kres" where
  "sfs_readdir devio sv slot sfs =
     (let actualpos = slot * SFS_DIRENTRY
      in sbind (sfs_metaio devio sv actualpos (replicate SFS_DIRENTRY 0) UIO_READ sfs) (\<lambda>(result, data, sv, sfs).
         Inr (result, bytes_direntry data, sv, sfs)))"

definition sfs_writedir :: "'d devop_io \<Rightarrow> sfs_vnode \<Rightarrow> int \<Rightarrow> sfs_direntry \<Rightarrow> 'd sfs_fs \<Rightarrow> (errno \<times> sfs_vnode \<times> 'd sfs_fs) kres" where
  "sfs_writedir devio sv slot sd sfs =
     kassert (slot \<ge> 0) ''slot>=0'' (
     let actualpos = nat slot * SFS_DIRENTRY
     in sbind (sfs_metaio devio sv actualpos (direntry_bytes sd) UIO_WRITE sfs) (\<lambda>(result, data, sv, sfs).
        Inr (result, sv, sfs)))"

definition sfs_dir_nentries :: "sfs_vnode \<Rightarrow> nat kres" where
  "sfs_dir_nentries sv =
     kassert (sfi_type (sv_i sv) = SFS_TYPE_DIR) ''sv->sv_i.sfi_type == SFS_TYPE_DIR'' (
     let size = unat (sfi_size (sv_i sv))
     in if size mod SFS_DIRENTRY \<noteq> 0 then Inl (Panic ''sfs: directory: Invalid size'')
        else Inr (size div SFS_DIRENTRY))"

text \<open>What the search hands back: whether the name was found, the inode number, the slot, and an empty slot.\<close>

record dir_search =
  ds_found :: bool
  ds_ino :: u32
  ds_slot :: int
  ds_emptyslot :: int

fun dir_scan :: "'d devop_io \<Rightarrow> u8 list \<Rightarrow> nat list \<Rightarrow> dir_search \<Rightarrow> sfs_vnode \<Rightarrow> 'd sfs_fs \<Rightarrow>
    (errno \<times> dir_search \<times> sfs_vnode \<times> 'd sfs_fs) kres" where
  "dir_scan devio name [] ds sv sfs = Inr (if ds_found ds then 0 else ENOENT, ds, sv, sfs)"
| "dir_scan devio name (i # is) ds sv sfs =
     sbind (sfs_readdir devio sv i sfs) (\<lambda>(result, tsd, sv, sfs).
     if result \<noteq> 0 then Inr (result, ds, sv, sfs)
     else if sfd_ino tsd = SFS_NOINO then dir_scan devio name is (ds\<lparr>ds_emptyslot := int i\<rparr>) sv sfs
     else
       let tsd = tsd\<lparr>sfd_name := (sfd_name tsd)[SFS_NAMELEN - 1 := 0]\<rparr>
       in if c_string (sfd_name tsd) = name then
            kassert (\<not> ds_found ds) ''found==0'' (
            dir_scan devio name is (ds\<lparr>ds_found := True, ds_slot := int i, ds_ino := sfd_ino tsd\<rparr>) sv sfs)
          else dir_scan devio name is ds sv sfs)"

definition sfs_dir_findname :: "'d devop_io \<Rightarrow> sfs_vnode \<Rightarrow> u8 list \<Rightarrow> 'd sfs_fs \<Rightarrow>
    (errno \<times> dir_search \<times> sfs_vnode \<times> 'd sfs_fs) kres" where
  "sfs_dir_findname devio sv name sfs =
     sbind (sfs_dir_nentries sv) (\<lambda>nentries.
     dir_scan devio name [0..<nentries] \<lparr>ds_found = False, ds_ino = 0, ds_slot = -1, ds_emptyslot = -1\<rparr> sv sfs)"

definition sfs_dir_link :: "'d devop_io \<Rightarrow> sfs_vnode \<Rightarrow> u8 list \<Rightarrow> u32 \<Rightarrow> 'd sfs_fs \<Rightarrow>
    (errno \<times> int \<times> sfs_vnode \<times> 'd sfs_fs) kres" where
  "sfs_dir_link devio sv name ino sfs =
     sbind (sfs_dir_findname devio sv name sfs) (\<lambda>(result, ds, sv, sfs).
     if result \<noteq> 0 \<and> result \<noteq> ENOENT then Inr (result, -1, sv, sfs)
     else if result = 0 then Inr (EEXIST, -1, sv, sfs)
     else if length name + 1 > SFS_NAMELEN then Inr (ENAMETOOLONG, -1, sv, sfs)
     else
       sbind (if ds_emptyslot ds < 0 then sbind (sfs_dir_nentries sv) (\<lambda>n. Inr (int n)) else Inr (ds_emptyslot ds)) (\<lambda>emptyslot.
       let sd = \<lparr>sfd_ino = ino, sfd_name = name @ replicate (SFS_NAMELEN - length name) 0\<rparr>
       in sbind (sfs_writedir devio sv emptyslot sd sfs) (\<lambda>(result, sv, sfs).
          Inr (result, emptyslot, sv, sfs))))"

definition sfs_dir_unlink :: "'d devop_io \<Rightarrow> sfs_vnode \<Rightarrow> int \<Rightarrow> 'd sfs_fs \<Rightarrow> (errno \<times> sfs_vnode \<times> 'd sfs_fs) kres" where
  "sfs_dir_unlink devio sv slot sfs =
     sfs_writedir devio sv slot \<lparr>sfd_ino = SFS_NOINO, sfd_name = replicate SFS_NAMELEN 0\<rparr> sfs"

section \<open>Small objects\<close>

context block_device
begin

lemma meta_read:
  assumes fs: "fs_good sfs" "file_good sv sfs" and k: "pos div 512 < 143" and len: "pos mod 512 + length data \<le> 512"
  shows "\<exists>d. sfs_metaio io sv pos data UIO_READ sfs =
      Inr (0, map (fbyte sv sfs) [pos..<pos + length data], sv, sfs\<lparr>sfs_device := d\<rparr>) \<and>
    fs_good (sfs\<lparr>sfs_device := d\<rparr>) \<and> medium d = disk sfs"
proof -
  let ?k = "pos div 512" and ?n = "length data"
  let ?b = "fmap sv sfs ?k"
  let ?bs = "if ?b = 0 then replicate 512 0 else disk sfs (unat ?b)"
  from bmap_lookup [OF fs k] obtain d where d: "sfs_bmap io sv ?k False sfs = Inr (0, ?b, sv, sfs\<lparr>sfs_device := d\<rparr>)"
    "fs_good (sfs\<lparr>sfs_device := d\<rparr>)" "medium d = disk sfs" by blast
  have used: "?b \<noteq> 0 \<Longrightarrow> unat ?b < unat (sb_nblocks sfs)" using fmap_used [OF fs k] by simp
  then have bl: "length ?bs = 512" using fs(1) medium_length [of "sfs_device sfs" "unat ?b"] by (auto simp: fs_ok_def)
  have "take ?n (drop (pos mod 512) ?bs) = map (fbyte sv sfs) [512 * ?k + pos mod 512..<512 * ?k + pos mod 512 + ?n]"
    by (rule block_bytes [OF refl bl len])
  then have bs: "take ?n (drop (pos mod 512) ?bs) = map (fbyte sv sfs) [pos..<pos + ?n]" by (simp only: mult_div_mod_eq)
  show ?thesis
  proof (cases "?b = 0")
    case True
    have "take ?n (drop (pos mod 512) (replicate 512 0)) = (replicate ?n 0 :: u8 list)" using len by (auto simp: min_def)
    with bs True have "map (fbyte sv sfs) [pos..<pos + ?n] = replicate ?n 0" by simp
    then show ?thesis using True d by (intro exI [of _ d]) (simp add: sfs_metaio_def Let_def file_block_no [OF k])
  next
    case False
    with read_block [OF d(2), of ?b] used d(3) obtain d2 where
      d2: "sfs_readblock io ?b (sfs\<lparr>sfs_device := d\<rparr>) = Inr (0, disk sfs (unat ?b), sfs\<lparr>sfs_device := d2\<rparr>)"
      "fs_good (sfs\<lparr>sfs_device := d2\<rparr>)" "medium d2 = disk sfs" by auto
    have "take ?n (drop (pos mod 512) (disk sfs (unat ?b))) = map (fbyte sv sfs) [pos..<pos + ?n]" using bs False by simp
    then show ?thesis using False d(1) d2 len
      by (intro exI [of _ d2]) (simp add: sfs_metaio_def Let_def file_block_no [OF k])
  qed
qed

lemma meta_write:
  assumes fs: "fs_good sfs" "file_good sv sfs" and k: "pos div 512 < 143" and len: "pos mod 512 + length data \<le> 512"
  shows "\<exists>e sv' sfs'. sfs_metaio io sv pos data UIO_WRITE sfs = Inr (e, data, sv', sfs') \<and>
    sfi_type (sv_i sv') = sfi_type (sv_i sv) \<and>
    (e = 0 \<and> written pos data sv sfs sv' sfs' \<and> unat (sfi_size (sv_i sv')) = max (unat (sfi_size (sv_i sv))) (pos + length data) \<or>
     e = ENOSPC \<and> written pos [] sv sfs sv' sfs' \<and> sfi_size (sv_i sv') = sfi_size (sv_i sv) \<and> fs_full sfs' \<and> fmap sv sfs (pos div 512) = 0)"
proof -
  let ?k = "pos div 512" and ?n = "length data" and ?o = "pos mod 512"
  from bmap_alloc [OF fs k] obtain e b sv1 sfs1 where b: "sfs_bmap io sv ?k True sfs = Inr (e, b, sv1, sfs1)"
    "bmap_done ?k sv sfs e b sv1 sfs1" by blast
  have inode: "sfi_size (sv_i sv1) = sfi_size (sv_i sv)" "sfi_type (sv_i sv1) = sfi_type (sv_i sv)"
    using b(2) by (simp_all only: bmap_done_def extends_def)
  show ?thesis
  proof (cases "e = 0")
    case False
    then have "e = ENOSPC" "fs_full sfs1" "fmap sv sfs ?k = 0" using b(2) by (simp_all only: bmap_done_def) simp_all
    then show ?thesis using b(1) inode bmap_done_written [OF fs b(2), of pos]
      by (intro exI [of _ e] exI [of _ sv1] exI [of _ sfs1]) (simp add: sfs_metaio_def Let_def file_block_no [OF k])
  next
    case True
    note bd = b(2) [unfolded True]
    have fs1: "fs_good sfs1" "file_good sv1 sfs1" using bmap_done_written [OF fs bd] by (simp_all add: wrote_def)
    have bk: "fmap sv1 sfs1 ?k = b" "b \<noteq> 0" using bd by (simp_all only: bmap_done_def) (simp_all add: fun_eq_iff)
    then have b1: "unat b < unat (sb_nblocks sfs1)" using fmap_used [OF fs1 k] by simp
    from read_block [OF fs1(1) b1] obtain d where d: "sfs_readblock io b sfs1 = Inr (0, disk sfs1 (unat b), sfs1\<lparr>sfs_device := d\<rparr>)"
      "fs_good (sfs1\<lparr>sfs_device := d\<rparr>)" "medium d = disk sfs1" by blast
    let ?old = "disk sfs1 (unat b)"
    have old: "length ?old = 512" using fs1(1) b1 by (intro medium_length) (simp_all add: fs_ok_def)
    let ?new = "take ?o ?old @ data @ drop (?o + ?n) ?old"
    from write_block [OF d(2), of b ?new] b1 old len obtain d2 where
      w: "sfs_writeblock io b ?new (sfs1\<lparr>sfs_device := d\<rparr>) = Inr (0, sfs1\<lparr>sfs_device := d2\<rparr>)"
      "fs_good (sfs1\<lparr>sfs_device := d2\<rparr>)" "medium d2 = (disk sfs1)(unat b := ?new)" using d(3) by auto
    have "written (512 * ?k + ?o) data sv sfs sv1 (sfs1\<lparr>sfs_device := d2\<rparr>)"
      using w(2,3) len by (intro write_in_block [OF fs bd k]) simp_all
    then have wr: "written pos data sv sfs sv1 (sfs1\<lparr>sfs_device := d2\<rparr>)" by (simp only: mult_div_mod_eq)
    define sv2 where "sv2 = (if pos + ?n > unat (sfi_size (sv_i sv1))
      then sv1\<lparr>sv_i := (sv_i sv1)\<lparr>sfi_size := of_nat (pos + ?n)\<rparr>, sv_dirty := True\<rparr> else sv1)"
    have "sfs_metaio io sv pos data UIO_WRITE sfs = Inr (0, data, sv2, sfs1\<lparr>sfs_device := d2\<rparr>)"
      using b(1) True d(1) w(1) bk(2) len by (simp add: sfs_metaio_def Let_def file_block_no [OF k] sv2_def)
    moreover have "written pos data sv sfs sv2 (sfs1\<lparr>sfs_device := d2\<rparr>)" using wr by (simp add: sv2_def wrote_resize)
    moreover have "pos + ?n \<le> 73216" using k len div_mult_mod_eq [of pos 512] by linarith
    then have "unat (of_nat (pos + ?n) :: u32) = pos + ?n" by (subst unat_of_nat) simp
    then have "unat (sfi_size (sv_i sv2)) = max (unat (sfi_size (sv_i sv))) (pos + ?n)" using inode(1) by (simp add: sv2_def)
    moreover have "sfi_type (sv_i sv2) = sfi_type (sv_i sv)" using inode(2) by (simp add: sv2_def)
    ultimately show ?thesis by blast
  qed
qed

end

section \<open>A directory as a map\<close>

definition dir_slot :: "(nat \<Rightarrow> u8 list) \<Rightarrow> sfs_vnode \<Rightarrow> nat \<Rightarrow> sfs_direntry" where
  "dir_slot disk sv i = bytes_direntry (map (file_byte disk sv) [i * SFS_DIRENTRY..<i * SFS_DIRENTRY + SFS_DIRENTRY])"

definition entry_name :: "sfs_direntry \<Rightarrow> u8 list" where
  "entry_name sd = c_string ((sfd_name sd)[SFS_NAMELEN - 1 := 0])"

definition dir_slots :: "sfs_vnode \<Rightarrow> nat" where
  "dir_slots sv = unat (sfi_size (sv_i sv)) div SFS_DIRENTRY"

definition dir_hit :: "(nat \<Rightarrow> u8 list) \<Rightarrow> sfs_vnode \<Rightarrow> u8 list \<Rightarrow> nat \<Rightarrow> bool" where
  "dir_hit disk sv name i \<longleftrightarrow> sfd_ino (dir_slot disk sv i) \<noteq> 0 \<and> entry_name (dir_slot disk sv i) = name"

text \<open>The names of a directory with their inode numbers.\<close>

definition dir_entries :: "(nat \<Rightarrow> u8 list) \<Rightarrow> sfs_vnode \<Rightarrow> (u8 list \<times> u32) set" where
  "dir_entries disk sv = {(name, sfd_ino (dir_slot disk sv i)) |name i. i < dir_slots sv \<and> dir_hit disk sv name i}"

definition dir_ok :: "(nat \<Rightarrow> u8 list) \<Rightarrow> sfs_vnode \<Rightarrow> bool" where
  "dir_ok disk sv \<longleftrightarrow> sfi_type (sv_i sv) = SFS_TYPE_DIR \<and> unat (sfi_size (sv_i sv)) mod SFS_DIRENTRY = 0 \<and>
     unat (sfi_size (sv_i sv)) \<le> SFS_MAXBYTES \<and>
     (\<forall>i < dir_slots sv. \<forall>j < dir_slots sv. \<forall>name. dir_hit disk sv name i \<longrightarrow> dir_hit disk sv name j \<longrightarrow> i = j)"

lemma dir_entriesI: "i < dir_slots sv \<Longrightarrow> dir_hit disk sv name i \<Longrightarrow> (name, sfd_ino (dir_slot disk sv i)) \<in> dir_entries disk sv"
  unfolding dir_entries_def by blast

lemma dir_entries_functional:
  "dir_ok disk sv \<Longrightarrow> (name, i) \<in> dir_entries disk sv \<Longrightarrow> (name, j) \<in> dir_entries disk sv \<Longrightarrow> i = j"
  unfolding dir_ok_def dir_entries_def by blast

lemma direntry_roundtrip: "bytes_direntry (direntry_bytes sd) = sd"
  by (simp add: bytes_direntry_def direntry_bytes_def u32_bytes_def)

lemma entry_name_new:
  assumes "length name < 60" and "0 \<notin> set name"
  shows "entry_name \<lparr>sfd_ino = ino, sfd_name = name @ replicate (60 - length name) 0\<rparr> = name"
proof -
  have "(name @ replicate (60 - length name) 0)[59 := 0] = name @ replicate (60 - length name) 0"
  proof (rule nth_equalityI)
    fix i assume "i < length ((name @ replicate (60 - length name) 0)[59 := 0])"
    then show "(name @ replicate (60 - length name) 0)[59 := 0] ! i = (name @ replicate (60 - length name) 0) ! i"
      using assms(1) by (cases "i = 59") (simp_all add: nth_append)
  qed simp
  moreover have "takeWhile (\<lambda>b. b \<noteq> 0) (name @ replicate (60 - length name) 0) = name"
    using assms by (cases "60 - length name") (auto simp: takeWhile_append2 takeWhile_tail)
  ultimately show ?thesis by (simp add: entry_name_def c_string_def)
qed

text \<open>What is known after the first \<open>i\<close> slots have been looked at.\<close>

definition scanned :: "(nat \<Rightarrow> u8 list) \<Rightarrow> sfs_vnode \<Rightarrow> u8 list \<Rightarrow> nat \<Rightarrow> dir_search \<Rightarrow> bool" where
  "scanned disk sv name i ds \<longleftrightarrow> (ds_found ds \<longleftrightarrow> (\<exists>s < i. dir_hit disk sv name s)) \<and>
     (\<forall>s < i. dir_hit disk sv name s \<longrightarrow> ds_slot ds = int s \<and> ds_ino ds = sfd_ino (dir_slot disk sv s)) \<and>
     (ds_emptyslot ds = -1 \<or> (\<exists>s < i. ds_emptyslot ds = int s \<and> sfd_ino (dir_slot disk sv s) = 0))"

lemma scanned_skip: "scanned disk sv name i ds \<Longrightarrow> \<not> dir_hit disk sv name i \<Longrightarrow> scanned disk sv name (Suc i) ds"
  by (auto simp: scanned_def less_Suc_eq)

lemma scanned_empty:
  "scanned disk sv name i ds \<Longrightarrow> sfd_ino (dir_slot disk sv i) = 0 \<Longrightarrow> scanned disk sv name (Suc i) (ds\<lparr>ds_emptyslot := int i\<rparr>)"
  by (auto simp: scanned_def less_Suc_eq dir_hit_def)

lemma scanned_hit:
  "scanned disk sv name i ds \<Longrightarrow> \<not> ds_found ds \<Longrightarrow> dir_hit disk sv name i \<Longrightarrow>
    scanned disk sv name (Suc i) (ds\<lparr>ds_found := True, ds_slot := int i, ds_ino := sfd_ino (dir_slot disk sv i)\<rparr>)"
  by (auto simp: scanned_def less_Suc_eq)

lemma slot_in_block: "i < 1144 \<Longrightarrow> i * 64 div 512 < 143" "i * 64 mod 512 + 64 \<le> (512 :: nat)"
proof -
  have "i * 64 mod 512 = i mod 8 * 64" using mult_mod_left [of i 8 64] by simp
  then show "i * 64 mod 512 + 64 \<le> 512" using mod_less_divisor [of 8 i] by linarith
qed simp

lemma dir_slots_bound: "dir_ok disk sv \<Longrightarrow> dir_slots sv \<le> 1144"
  using div_le_mono [of "unat (sfi_size (sv_i sv))" 73216 64] by (simp add: dir_ok_def dir_slots_def)

context block_device
begin

lemma readdir_slot:
  assumes fs: "fs_good sfs" "file_good sv sfs" and "i < 1144"
  shows "\<exists>d. sfs_readdir io sv i sfs = Inr (0, dir_slot (disk sfs) sv i, sv, sfs\<lparr>sfs_device := d\<rparr>) \<and>
    fs_good (sfs\<lparr>sfs_device := d\<rparr>) \<and> medium d = disk sfs"
  using meta_read [OF fs slot_in_block(1) [OF assms(3)], of "replicate 64 0"] slot_in_block(2) [of i]
  by (auto simp: sfs_readdir_def dir_slot_def simp del: replicate.simps)

lemma scan_slots:
  assumes "dir_ok dsk sv" and "i \<le> dir_slots sv" and "scanned dsk sv name i ds"
    and "fs_good sfs" "file_good sv sfs" "disk sfs = dsk"
  shows "\<exists>ds' d. dir_scan io name [i..<dir_slots sv] ds sv sfs = Inr (if ds_found ds' then 0 else ENOENT, ds', sv, sfs\<lparr>sfs_device := d\<rparr>) \<and>
    scanned dsk sv name (dir_slots sv) ds' \<and> fs_good (sfs\<lparr>sfs_device := d\<rparr>) \<and> medium d = dsk"
  using assms(2-)
proof (induction "dir_slots sv - i" arbitrary: i ds sfs)
  case 0
  then show ?case by (intro exI [of _ ds] exI [of _ "sfs_device sfs"]) simp
next
  case (Suc m)
  let ?e = "dir_slot dsk sv i"
  have i: "i < dir_slots sv" using Suc.hyps(2) by simp
  from readdir_slot [OF Suc.prems(3,4), of i] i dir_slots_bound [OF assms(1)] Suc.prems(5) obtain d where
    d: "sfs_readdir io sv i sfs = Inr (0, ?e, sv, sfs\<lparr>sfs_device := d\<rparr>)" "fs_good (sfs\<lparr>sfs_device := d\<rparr>)" "medium d = dsk" by auto
  have good: "file_good sv (sfs\<lparr>sfs_device := d\<rparr>)"
    using extends_device(2) [OF d(2) _ Suc.prems(4)] d(3) Suc.prems(5) by simp
  note ih = Suc.hyps(1) [of "Suc i" _ "sfs\<lparr>sfs_device := d\<rparr>", OF _ _ _ d(2) good]
  have up: "[i..<dir_slots sv] = i # [Suc i..<dir_slots sv]" using i by (simp add: upt_conv_Cons)
  consider "sfd_ino ?e = 0" | "sfd_ino ?e \<noteq> 0" "entry_name ?e \<noteq> name" | "dir_hit dsk sv name i" by (auto simp: dir_hit_def)
  then show ?case
  proof cases
    case 1
    then have "dir_scan io name [i..<dir_slots sv] ds sv sfs =
      dir_scan io name [Suc i..<dir_slots sv] (ds\<lparr>ds_emptyslot := int i\<rparr>) sv (sfs\<lparr>sfs_device := d\<rparr>)" using d(1) by (simp add: up)
    then show ?thesis using ih [OF _ _ scanned_empty [OF Suc.prems(2) 1]] Suc.hyps(2) i d(3) by auto
  next
    case 2
    then have "dir_scan io name [i..<dir_slots sv] ds sv sfs = dir_scan io name [Suc i..<dir_slots sv] ds sv (sfs\<lparr>sfs_device := d\<rparr>)"
      using d(1) by (simp add: up entry_name_def)
    moreover have "\<not> dir_hit dsk sv name i" using 2 by (simp add: dir_hit_def)
    ultimately show ?thesis using ih [OF _ _ scanned_skip [OF Suc.prems(2)]] Suc.hyps(2) i d(3) by auto
  next
    case 3
    have "\<not> ds_found ds"
    proof
      assume "ds_found ds"
      then obtain s where "s < i" "dir_hit dsk sv name s" using Suc.prems(2) by (auto simp: scanned_def)
      moreover from this have "s = i" using assms(1) 3 i unfolding dir_ok_def by (meson less_trans)
      ultimately show False by simp
    qed
    moreover from this have "dir_scan io name [i..<dir_slots sv] ds sv sfs = dir_scan io name [Suc i..<dir_slots sv]
      (ds\<lparr>ds_found := True, ds_slot := int i, ds_ino := sfd_ino ?e\<rparr>) sv (sfs\<lparr>sfs_device := d\<rparr>)"
      using d(1) 3 by (simp add: up entry_name_def dir_hit_def)
    ultimately show ?thesis using ih [OF _ _ scanned_hit [OF Suc.prems(2) _ 3]] Suc.hyps(2) i d(3) by auto
  qed
qed

end

text \<open>Slot \<open>s\<close> of a directory has become \<open>sd\<close>; the directory may have grown by this slot.\<close>

definition slot_set :: "nat \<Rightarrow> sfs_direntry \<Rightarrow> (nat \<Rightarrow> u8 list) \<Rightarrow> sfs_vnode \<Rightarrow> (nat \<Rightarrow> u8 list) \<Rightarrow> sfs_vnode \<Rightarrow> bool" where
  "slot_set s sd dsk sv dsk' sv' \<longleftrightarrow> (\<forall>i < 1144. dir_slot dsk' sv' i = (if i = s then sd else dir_slot dsk sv i)) \<and>
     sfi_type (sv_i sv') = sfi_type (sv_i sv) \<and> unat (sfi_size (sv_i sv')) = max (unat (sfi_size (sv_i sv))) (s * 64 + 64)"

lemma slot_set_size:
  assumes "slot_set s sd dsk sv dsk' sv'" and "dir_ok dsk sv" and "s \<le> dir_slots sv" and "s < 1144"
  shows "unat (sfi_size (sv_i sv')) mod 64 = 0" "unat (sfi_size (sv_i sv')) \<le> 73216" "dir_slots sv' = max (dir_slots sv) (Suc s)"
proof -
  have n: "unat (sfi_size (sv_i sv)) = dir_slots sv * 64" "dir_slots sv \<le> 1144"
    using assms(2) dir_slots_bound [OF assms(2)] by (simp_all add: dir_ok_def dir_slots_def dvd_div_mult_self mod_eq_0_iff_dvd)
  then have m: "unat (sfi_size (sv_i sv')) = max (dir_slots sv) (Suc s) * 64" using assms(1) by (simp add: slot_set_def max_def)
  then show "unat (sfi_size (sv_i sv')) mod 64 = 0" "dir_slots sv' = max (dir_slots sv) (Suc s)" by (simp_all add: dir_slots_def)
  show "unat (sfi_size (sv_i sv')) \<le> 73216" using m n(2) assms(4) by simp
qed

lemma slot_set_hit:
  assumes "slot_set s sd dsk sv dsk' sv'" and "i < 1144"
  shows "dir_hit dsk' sv' name i \<longleftrightarrow> (if i = s then sfd_ino sd \<noteq> 0 \<and> entry_name sd = name else dir_hit dsk sv name i)"
  using assms by (simp add: slot_set_def dir_hit_def)

lemma dir_ok_link:
  assumes s: "slot_set s sd dsk sv dsk' sv'" and ok: "dir_ok dsk sv" and "s \<le> dir_slots sv" "s < 1144"
    and new: "\<And>i. i < dir_slots sv \<Longrightarrow> \<not> dir_hit dsk sv (entry_name sd) i"
  shows "dir_ok dsk' sv'"
proof -
  note size = slot_set_size [OF s ok assms(3,4)]
  have "i = j" if h: "i < dir_slots sv'" "j < dir_slots sv'" "dir_hit dsk' sv' name i" "dir_hit dsk' sv' name j" for i j name
  proof -
    have b: "i < 1144" "j < 1144" using h(1,2) size(3) dir_slots_bound [OF ok] assms(4) by simp_all
    have old: "i \<noteq> s \<Longrightarrow> i < dir_slots sv" "j \<noteq> s \<Longrightarrow> j < dir_slots sv" using h(1,2) size(3) assms(3) by auto
    note hi = h(3) [unfolded slot_set_hit [OF s b(1)]] and hj = h(4) [unfolded slot_set_hit [OF s b(2)]]
    consider "i = s" "j = s" | "i = s" "j \<noteq> s" | "i \<noteq> s" "j = s" | "i \<noteq> s" "j \<noteq> s" by blast
    then show ?thesis
    proof cases
      case 2
      then show ?thesis using hi hj new [OF old(2)] by simp
    next
      case 3
      then show ?thesis using hi hj new [OF old(1)] by simp
    next
      case 4
      then show ?thesis using hi hj old ok unfolding dir_ok_def by (simp only: if_False) blast
    qed simp
  qed
  then show ?thesis using size(1,2) ok s by (auto simp: dir_ok_def slot_set_def)
qed

lemma dir_entries_link:
  assumes s: "slot_set s sd dsk sv dsk' sv'" and ok: "dir_ok dsk sv" and "s \<le> dir_slots sv" "s < 1144"
    and free: "s < dir_slots sv \<Longrightarrow> sfd_ino (dir_slot dsk sv s) = 0" and ino: "sfd_ino sd \<noteq> 0"
  shows "dir_entries dsk' sv' = insert (entry_name sd, sfd_ino sd) (dir_entries dsk sv)"
proof -
  note size = slot_set_size [OF s ok assms(3,4)]
  have hit: "dir_hit dsk' sv' name i \<longleftrightarrow> (if i = s then entry_name sd = name else dir_hit dsk sv name i)"
    "sfd_ino (dir_slot dsk' sv' i) = (if i = s then sfd_ino sd else sfd_ino (dir_slot dsk sv i))" if "i < dir_slots sv'" for i name
    using that slot_set_hit [OF s, of i name] s size(3) dir_slots_bound [OF ok] assms(4) ino by (simp_all add: slot_set_def)
  have old: "i < dir_slots sv" if "i < dir_slots sv'" "i \<noteq> s" for i using that size(3) assms(3) by auto
  have here: "s < dir_slots sv'" and keep: "\<And>i. i < dir_slots sv \<Longrightarrow> i < dir_slots sv'" using size(3) by simp_all
  have nohit: "\<not> dir_hit dsk sv name s" if "s < dir_slots sv" for name using free [OF that] by (simp add: dir_hit_def)
  show ?thesis
  proof (intro equalityI subsetI)
    fix p assume "p \<in> dir_entries dsk' sv'"
    then obtain name i where i: "p = (name, sfd_ino (dir_slot dsk' sv' i))" "i < dir_slots sv'" "dir_hit dsk' sv' name i"
      unfolding dir_entries_def by blast
    then show "p \<in> insert (entry_name sd, sfd_ino sd) (dir_entries dsk sv)"
      using hit [OF i(2)] dir_entriesI [OF old [OF i(2)], of dsk name] by (cases "i = s") simp_all
  next
    fix p assume "p \<in> insert (entry_name sd, sfd_ino sd) (dir_entries dsk sv)"
    then show "p \<in> dir_entries dsk' sv'"
    proof
      assume "p = (entry_name sd, sfd_ino sd)"
      then show ?thesis using hit [OF here] dir_entriesI [OF here, of dsk' "entry_name sd"] by simp
    next
      assume "p \<in> dir_entries dsk sv"
      then obtain name i where i: "p = (name, sfd_ino (dir_slot dsk sv i))" "i < dir_slots sv" "dir_hit dsk sv name i"
        unfolding dir_entries_def by blast
      moreover from this have "i \<noteq> s" using nohit by auto
      ultimately show ?thesis using hit [OF keep [OF i(2)]] dir_entriesI [OF keep [OF i(2)], of dsk' name] by simp
    qed
  qed
qed

lemma dir_entries_unlink:
  assumes s: "slot_set s sd dsk sv dsk' sv'" and ok: "dir_ok dsk sv" and "s < dir_slots sv" and "dir_hit dsk sv name s"
    and ino: "sfd_ino sd = 0"
  shows "dir_ok dsk' sv'" and "dir_entries dsk' sv' = dir_entries dsk sv - {name} \<times> UNIV"
proof -
  have s': "s < 1144" using assms(3) dir_slots_bound [OF ok] by simp
  note size = slot_set_size [OF s ok less_imp_le [OF assms(3)] s']
  have n: "dir_slots sv' = dir_slots sv" using size(3) assms(3) by simp
  have hit: "dir_hit dsk' sv' nm i \<longleftrightarrow> i \<noteq> s \<and> dir_hit dsk sv nm i"
    "i \<noteq> s \<Longrightarrow> sfd_ino (dir_slot dsk' sv' i) = sfd_ino (dir_slot dsk sv i)" if "i < dir_slots sv" for i nm
    using that slot_set_hit [OF s, of i nm] s dir_slots_bound [OF ok] ino by (simp_all add: slot_set_def)
  show "dir_ok dsk' sv'" using ok size(1,2) s hit(1) n unfolding dir_ok_def slot_set_def by (simp cong: conj_cong) blast
  have only: "i = s" if "i < dir_slots sv" "dir_hit dsk sv name i" for i using ok assms(3,4) that unfolding dir_ok_def by blast
  show "dir_entries dsk' sv' = dir_entries dsk sv - {name} \<times> UNIV"
  proof (intro equalityI subsetI)
    fix p assume "p \<in> dir_entries dsk' sv'"
    then obtain nm i where i: "p = (nm, sfd_ino (dir_slot dsk' sv' i))" "i < dir_slots sv" "dir_hit dsk' sv' nm i"
      unfolding dir_entries_def n by blast
    moreover from this have "nm \<noteq> name" using hit(1) only by blast
    ultimately show "p \<in> dir_entries dsk sv - {name} \<times> UNIV"
      using hit [OF i(2)] dir_entriesI [OF i(2), of dsk nm] by simp
  next
    fix p assume p: "p \<in> dir_entries dsk sv - {name} \<times> UNIV"
    then obtain nm i where i: "p = (nm, sfd_ino (dir_slot dsk sv i))" "i < dir_slots sv" "dir_hit dsk sv nm i" "nm \<noteq> name"
      unfolding dir_entries_def by blast
    moreover from this have "i \<noteq> s" using assms(4) by (auto simp: dir_hit_def)
    ultimately show "p \<in> dir_entries dsk' sv'"
      using hit [OF i(2)] dir_entriesI [of i sv' dsk' nm] n by simp
  qed
qed

lemma wrote_slot:
  assumes w: "wrote ok nblks medium (s * 64) (direntry_bytes sd) sv sfs sv' sfs'" and "length (sfd_name sd) = 60" and "i < 1144" and "s < 1144"
  shows "dir_slot (medium (sfs_device sfs')) sv' i = (if i = s then sd else dir_slot (medium (sfs_device sfs)) sv i)"
proof -
  let ?f = "file_byte (medium (sfs_device sfs)) sv" and ?f' = "file_byte (medium (sfs_device sfs')) sv'"
  have len: "length (direntry_bytes sd) = 64" using assms(2) by (simp add: direntry_bytes_def u32_bytes_def)
  have b: "?f' p = (if s * 64 \<le> p \<and> p < s * 64 + 64 then direntry_bytes sd ! (p - s * 64) else ?f p)" if "p < 73216" for p
    using w that by (simp add: wrote_def len)
  show ?thesis
  proof (cases "i = s")
    case True
    have "map ?f' [s * 64..<s * 64 + 64] = direntry_bytes sd"
      using assms(4) by (intro nth_equalityI) (simp_all add: len b)
    then show ?thesis using True by (simp add: dir_slot_def direntry_roundtrip)
  next
    case False
    have "?f' p = ?f p" if "p \<in> set [i * 64..<i * 64 + 64]" for p
    proof -
      have "\<not> (s * 64 \<le> p \<and> p < s * 64 + 64)" using that False by auto
      moreover have "p < 73216" using that assms(3) by simp
      ultimately show ?thesis using b by auto
    qed
    then have "map ?f' [i * 64..<i * 64 + 64] = map ?f [i * 64..<i * 64 + 64]" by (intro map_cong refl)
    then show ?thesis using False by (simp only: dir_slot_def if_False)
  qed
qed

lemma wrote_nothing_slot:
  assumes "wrote ok nblks medium q [] sv sfs sv' sfs'" and "i < 1144"
  shows "dir_slot (medium (sfs_device sfs')) sv' i = dir_slot (medium (sfs_device sfs)) sv i"
proof -
  have "file_byte (medium (sfs_device sfs')) sv' p = file_byte (medium (sfs_device sfs)) sv p"
    if "p \<in> set [i * 64..<i * 64 + 64]" for p
    using that assms by (auto simp: wrote_def)
  then have "map (file_byte (medium (sfs_device sfs')) sv') [i * 64..<i * 64 + 64] =
    map (file_byte (medium (sfs_device sfs)) sv) [i * 64..<i * 64 + 64]" by (intro map_cong refl)
  then show ?thesis by (simp only: dir_slot_def)
qed

text \<open>A directory that has kept all its slots.\<close>

lemma dir_same:
  assumes "\<And>i. i < 1144 \<Longrightarrow> dir_slot dsk' sv' i = dir_slot dsk sv i" and "sfi_type (sv_i sv') = sfi_type (sv_i sv)"
    and "sfi_size (sv_i sv') = sfi_size (sv_i sv)" and "dir_ok dsk sv"
  shows "dir_ok dsk' sv'" and "dir_entries dsk' sv' = dir_entries dsk sv"
proof -
  have n: "dir_slots sv' = dir_slots sv" using assms(3) by (simp add: dir_slots_def)
  have s: "dir_slot dsk' sv' i = dir_slot dsk sv i" if "i < dir_slots sv" for i
    using that dir_slots_bound [OF assms(4)] by (intro assms(1)) simp
  then have h: "dir_hit dsk' sv' name i = dir_hit dsk sv name i" if "i < dir_slots sv" for i name using that by (simp add: dir_hit_def)
  show "dir_ok dsk' sv'" using assms(2-4) h n unfolding dir_ok_def by (simp cong: conj_cong)
  show "dir_entries dsk' sv' = dir_entries dsk sv" unfolding dir_entries_def n using s h by (auto cong: conj_cong) metis+
qed

context block_device
begin

abbreviation entries :: "sfs_vnode \<Rightarrow> 'd sfs_fs \<Rightarrow> (u8 list \<times> u32) set" where "entries sv sfs \<equiv> dir_entries (disk sfs) sv"

lemma writedir_slot:
  assumes fs: "fs_good sfs" "file_good sv sfs" and s: "s < 1144" and sd: "length (sfd_name sd) = 60"
  shows "\<exists>e sv' sfs'. sfs_writedir io sv (int s) sd sfs = Inr (e, sv', sfs') \<and> fs_good sfs' \<and> file_good sv' sfs' \<and>
    (e = 0 \<and> slot_set s sd (disk sfs) sv (disk sfs') sv' \<or>
     e = ENOSPC \<and> fs_full sfs' \<and> fmap sv sfs (s * 64 div 512) = 0 \<and> (\<forall>i < 1144. dir_slot (disk sfs') sv' i = dir_slot (disk sfs) sv i) \<and>
       sfi_type (sv_i sv') = sfi_type (sv_i sv) \<and> sfi_size (sv_i sv') = sfi_size (sv_i sv))"
proof -
  have len: "length (direntry_bytes sd) = 64" using sd by (simp add: direntry_bytes_def u32_bytes_def)
  from meta_write [OF fs slot_in_block(1) [OF s], of "direntry_bytes sd"] slot_in_block(2) [of s] len obtain e sv' sfs' where
    w: "sfs_metaio io sv (s * 64) (direntry_bytes sd) UIO_WRITE sfs = Inr (e, direntry_bytes sd, sv', sfs')"
    "sfi_type (sv_i sv') = sfi_type (sv_i sv)"
    "e = 0 \<and> written (s * 64) (direntry_bytes sd) sv sfs sv' sfs' \<and> unat (sfi_size (sv_i sv')) = max (unat (sfi_size (sv_i sv))) (s * 64 + 64) \<or>
     e = ENOSPC \<and> written (s * 64) [] sv sfs sv' sfs' \<and> sfi_size (sv_i sv') = sfi_size (sv_i sv) \<and> fs_full sfs' \<and>
       fmap sv sfs (s * 64 div 512) = 0" by auto
  have "sfs_writedir io sv (int s) sd sfs = Inr (e, sv', sfs')" using w(1) by (simp add: sfs_writedir_def)
  moreover have "fs_good sfs' \<and> file_good sv' sfs'" using w(3) by (auto simp: wrote_def)
  moreover have "e = 0 \<and> slot_set s sd (disk sfs) sv (disk sfs') sv' \<or>
     e = ENOSPC \<and> fs_full sfs' \<and> fmap sv sfs (s * 64 div 512) = 0 \<and> (\<forall>i < 1144. dir_slot (disk sfs') sv' i = dir_slot (disk sfs) sv i) \<and>
       sfi_type (sv_i sv') = sfi_type (sv_i sv) \<and> sfi_size (sv_i sv') = sfi_size (sv_i sv)"
    using w(3)
  proof (elim disjE conjE)
    assume "written (s * 64) (direntry_bytes sd) sv sfs sv' sfs'"
    from wrote_slot [OF this sd _ s] show ?thesis if "e = 0" "unat (sfi_size (sv_i sv')) = max (unat (sfi_size (sv_i sv))) (s * 64 + 64)"
      using that w(2) by (simp add: slot_set_def)
  next
    assume "written (s * 64) [] sv sfs sv' sfs'"
    from wrote_nothing_slot [OF this] show ?thesis
      if "e = ENOSPC" "sfi_size (sv_i sv') = sfi_size (sv_i sv)" "fs_full sfs'" "fmap sv sfs (s * 64 div 512) = 0"
      using that w(2) by simp
  qed
  ultimately show ?thesis by blast
qed

lemma findname_search:
  assumes fs: "fs_good sfs" "file_good sv sfs" and ok: "dir_ok (disk sfs) sv"
  shows "\<exists>ds d. sfs_dir_findname io sv name sfs = Inr (if ds_found ds then 0 else ENOENT, ds, sv, sfs\<lparr>sfs_device := d\<rparr>) \<and>
    scanned (disk sfs) sv name (dir_slots sv) ds \<and> fs_good (sfs\<lparr>sfs_device := d\<rparr>) \<and> file_good sv (sfs\<lparr>sfs_device := d\<rparr>) \<and>
    medium d = disk sfs"
proof -
  have "sfs_dir_nentries sv = Inr (dir_slots sv)" using ok by (simp add: sfs_dir_nentries_def dir_ok_def dir_slots_def)
  moreover have "scanned (disk sfs) sv name 0 \<lparr>ds_found = False, ds_ino = 0, ds_slot = -1, ds_emptyslot = -1\<rparr>" by (simp add: scanned_def)
  from scan_slots [OF ok _ this fs refl] obtain ds d where
    "dir_scan io name [0..<dir_slots sv] \<lparr>ds_found = False, ds_ino = 0, ds_slot = -1, ds_emptyslot = -1\<rparr> sv sfs =
       Inr (if ds_found ds then 0 else ENOENT, ds, sv, sfs\<lparr>sfs_device := d\<rparr>)"
    "scanned (disk sfs) sv name (dir_slots sv) ds" "fs_good (sfs\<lparr>sfs_device := d\<rparr>)" "medium d = disk sfs" by auto
  ultimately show ?thesis using extends_device(2) [where sfs = sfs and d = d and sv = sv] fs(2) by (simp add: sfs_dir_findname_def) blast
qed

end

lemma dir_names: "name \<in> fst ` dir_entries disk sv \<longleftrightarrow> (\<exists>i < dir_slots sv. dir_hit disk sv name i)"
proof
  assume "name \<in> fst ` dir_entries disk sv"
  then show "\<exists>i < dir_slots sv. dir_hit disk sv name i" unfolding dir_entries_def by fastforce
next
  assume "\<exists>i < dir_slots sv. dir_hit disk sv name i"
  then obtain i where "(name, sfd_ino (dir_slot disk sv i)) \<in> dir_entries disk sv" using dir_entriesI by blast
  then show "name \<in> fst ` dir_entries disk sv" by (rule image_eqI [rotated]) simp
qed

lemma scanned_entries:
  assumes "scanned dsk sv name (dir_slots sv) ds"
  shows "ds_found ds \<longleftrightarrow> name \<in> fst ` dir_entries dsk sv"
    and "ds_found ds \<Longrightarrow> \<exists>s < dir_slots sv. dir_hit dsk sv name s \<and> ds_slot ds = int s \<and> (name, ds_ino ds) \<in> dir_entries dsk sv"
proof -
  show "ds_found ds \<longleftrightarrow> name \<in> fst ` dir_entries dsk sv" using assms by (simp only: scanned_def dir_names)
  assume "ds_found ds"
  then obtain s where s: "s < dir_slots sv" "dir_hit dsk sv name s" using assms by (auto simp: scanned_def)
  then have "ds_slot ds = int s" "ds_ino ds = sfd_ino (dir_slot dsk sv s)" using assms by (simp_all add: scanned_def)
  then show "\<exists>s < dir_slots sv. dir_hit dsk sv name s \<and> ds_slot ds = int s \<and> (name, ds_ino ds) \<in> dir_entries dsk sv"
    using s dir_entriesI [OF s] by auto
qed

context block_device
begin

lemma link_entry:
  assumes fs: "fs_good sfs" "file_good sv sfs" and ok: "dir_ok (disk sfs) sv" "dir_slots sv < 1144"
    and name: "0 \<notin> set name" "length name < 60" and ino: "ino \<noteq> 0"
  shows "\<exists>e slot sv' sfs'. sfs_dir_link io sv name ino sfs = Inr (e, slot, sv', sfs') \<and> fs_good sfs' \<and> file_good sv' sfs' \<and>
    dir_ok (disk sfs') sv' \<and>
    (e = 0 \<and> name \<notin> fst ` entries sv sfs \<and> entries sv' sfs' = insert (name, ino) (entries sv sfs) \<or>
     e = EEXIST \<and> name \<in> fst ` entries sv sfs \<and> entries sv' sfs' = entries sv sfs \<or>
     e = ENOSPC \<and> name \<notin> fst ` entries sv sfs \<and> entries sv' sfs' = entries sv sfs \<and> fs_full sfs' \<and>
       (\<exists>s \<le> dir_slots sv. fmap sv sfs (s * 64 div 512) = 0))"
proof -
  from findname_search [OF fs ok(1), of name] obtain ds d where
    f: "sfs_dir_findname io sv name sfs = Inr (if ds_found ds then 0 else ENOENT, ds, sv, sfs\<lparr>sfs_device := d\<rparr>)"
    "scanned (disk sfs) sv name (dir_slots sv) ds" "fs_good (sfs\<lparr>sfs_device := d\<rparr>)" "file_good sv (sfs\<lparr>sfs_device := d\<rparr>)"
    "medium d = disk sfs" by blast
  show ?thesis
  proof (cases "ds_found ds")
    case True
    then show ?thesis using f ok(1) scanned_entries(1) [OF f(2)]
      by (intro exI [of _ EEXIST] exI [of _ "-1"] exI [of _ sv] exI [of _ "sfs\<lparr>sfs_device := d\<rparr>"]) (simp add: sfs_dir_link_def)
  next
    case False
    then have new: "name \<notin> fst ` entries sv sfs" using scanned_entries(1) [OF f(2)] by simp
    define s where "s = (if ds_emptyslot ds < 0 then dir_slots sv else nat (ds_emptyslot ds))"
    have s: "s \<le> dir_slots sv" "s < 1144" "s < dir_slots sv \<Longrightarrow> sfd_ino (dir_slot (disk sfs) sv s) = 0"
      using f(2) ok(2) by (auto simp: s_def scanned_def)
    have pick: "(if ds_emptyslot ds < 0 then sbind (sfs_dir_nentries sv) (\<lambda>n. Inr (int n)) else Inr (ds_emptyslot ds)) = (Inr (int s) :: int kres)"
      using ok(1) by (simp add: s_def sfs_dir_nentries_def dir_ok_def dir_slots_def)
    let ?sd = "\<lparr>sfd_ino = ino, sfd_name = name @ replicate (60 - length name) 0\<rparr>"
    have sd: "length (sfd_name ?sd) = 60" "entry_name ?sd = name" using name entry_name_new by simp_all
    from writedir_slot [OF f(3,4) s(2) sd(1)] obtain e sv' sfs' where
      w: "sfs_writedir io sv (int s) ?sd (sfs\<lparr>sfs_device := d\<rparr>) = Inr (e, sv', sfs')" "fs_good sfs'" "file_good sv' sfs'"
      "e = 0 \<and> slot_set s ?sd (disk sfs) sv (disk sfs') sv' \<or>
       e = ENOSPC \<and> fs_full sfs' \<and> fmap sv sfs (s * 64 div 512) = 0 \<and>
         (\<forall>i < 1144. dir_slot (disk sfs') sv' i = dir_slot (disk sfs) sv i) \<and>
         sfi_type (sv_i sv') = sfi_type (sv_i sv) \<and> sfi_size (sv_i sv') = sfi_size (sv_i sv)" using f(5) by auto
    have l: "sfs_dir_link io sv name ino sfs = Inr (e, int s, sv', sfs')"
      using f(1) False name(2) w(1) by (simp add: sfs_dir_link_def pick)
    have nohit: "\<not> dir_hit (disk sfs) sv name i" if "i < dir_slots sv" for i using new that unfolding dir_names by blast
    from w(4) show ?thesis
    proof (elim disjE conjE)
      assume e: "e = 0" and set: "slot_set s ?sd (disk sfs) sv (disk sfs') sv'"
      have "dir_ok (disk sfs') sv'" using nohit sd(2) by (intro dir_ok_link [OF set ok(1) s(1,2)]) simp
      moreover have "entries sv' sfs' = insert (name, ino) (entries sv sfs)"
        using dir_entries_link [OF set ok(1) s] ino sd(2) by simp
      ultimately show ?thesis using l e w(2,3) new by blast
    next
      assume e: "e = ENOSPC" and full: "fs_full sfs'" "fmap sv sfs (s * 64 div 512) = 0" and same: "\<forall>i < 1144. dir_slot (disk sfs') sv' i = dir_slot (disk sfs) sv i"
        "sfi_type (sv_i sv') = sfi_type (sv_i sv)" "sfi_size (sv_i sv') = sfi_size (sv_i sv)"
      then show ?thesis using l w(2,3) new s(1) dir_same [of "disk sfs'" sv' "disk sfs" sv] ok(1) by blast
    qed
  qed
qed

lemma find_entry:
  assumes "fs_good sfs" "file_good sv sfs" "dir_ok (disk sfs) sv"
  shows "\<exists>e ds sfs'. sfs_dir_findname io sv name sfs = Inr (e, ds, sv, sfs') \<and>
    (if name \<in> fst ` entries sv sfs then e = 0 \<and> (name, ds_ino ds) \<in> entries sv sfs else e = ENOENT)"
proof -
  from findname_search [OF assms, of name] obtain ds d where
    f: "sfs_dir_findname io sv name sfs = Inr (if ds_found ds then 0 else ENOENT, ds, sv, sfs\<lparr>sfs_device := d\<rparr>)"
    "scanned (disk sfs) sv name (dir_slots sv) ds" by blast
  note e = scanned_entries [OF f(2)]
  show ?thesis
  proof (cases "ds_found ds")
    case True
    then show ?thesis using f(1) e(1) e(2) [OF True] by auto
  next
    case False
    then show ?thesis using f(1) e(1) by simp
  qed
qed

text \<open>The slots in a hole of a directory are free.\<close>

lemma hole_slot:
  assumes "fmap sv sfs (s * 64 div 512) = 0"
  shows "sfd_ino (dir_slot (disk sfs) sv s) = 0"
proof -
  have "fbyte sv sfs (s * 64 + j) = 0" if "j < 64" for j
  proof -
    have "(s * 64 + j) div 512 = s * 64 div 512"
      using that slot_in_block(2) [of s] div_mult_mod_eq [of "s * 64" 512] by (intro div_nat_eqI) auto
    then show ?thesis using assms by (simp add: file_byte_def)
  qed
  from this [of 0] this [of 1] this [of 2] this [of 3] show ?thesis
    by (simp add: dir_slot_def bytes_direntry_def u32_of_def)
qed

lemma unlink_entry:
  assumes fs: "fs_good sfs" "file_good sv sfs" and ok: "dir_ok (disk sfs) sv" and "s < dir_slots sv" "dir_hit (disk sfs) sv name s"
  shows "\<exists>sv' sfs'. sfs_dir_unlink io sv (int s) sfs = Inr (0, sv', sfs') \<and> fs_good sfs' \<and> file_good sv' sfs' \<and>
    dir_ok (disk sfs') sv' \<and> entries sv' sfs' = entries sv sfs - {name} \<times> UNIV"
proof -
  let ?sd = "\<lparr>sfd_ino = 0, sfd_name = replicate 60 0\<rparr>"
  have "s < 1144" using assms(4) dir_slots_bound [OF ok] by simp
  moreover have "fmap sv sfs (s * 64 div 512) \<noteq> 0" using hole_slot assms(5) by (auto simp: dir_hit_def)
  ultimately obtain sv' sfs' where
    w: "sfs_writedir io sv (int s) ?sd sfs = Inr (0, sv', sfs')" "fs_good sfs'" "file_good sv' sfs'"
    "slot_set s ?sd (disk sfs) sv (disk sfs') sv'" using writedir_slot [OF fs, of s ?sd] by auto
  then show ?thesis using dir_entries_unlink [OF w(4) ok assms(4,5)] by (simp add: sfs_dir_unlink_def del: replicate.simps)
qed

end

section \<open>Directories on the disk\<close>

abbreviation disk_dir :: "('h \<Rightarrow> nat \<Rightarrow> u8 list) \<Rightarrow> sfs_vnode \<Rightarrow> 'h lhd_softc sfs_fs \<Rightarrow> (u8 list \<times> u32) set" where
  "disk_dir sectors sv sfs \<equiv> dir_entries (lhd_medium sectors (sfs_device sfs)) sv"

abbreviation disk_dir_ok :: "('h \<Rightarrow> nat \<Rightarrow> u8 list) \<Rightarrow> sfs_vnode \<Rightarrow> 'h lhd_softc sfs_fs \<Rightarrow> bool" where
  "disk_dir_ok sectors sv sfs \<equiv> disk_fs_ok sectors sfs \<and> disk_file_ok sectors sv sfs \<and> dir_ok (lhd_medium sectors (sfs_device sfs)) sv"

definition sample_dir :: sfs_vnode where
  "sample_dir = sample_file2\<lparr>sv_i := (sv_i sample_file2)\<lparr>sfi_type := SFS_TYPE_DIR, sfi_size := 0\<rparr>\<rparr>"

lemma sample_dir_ok: "disk_dir_ok sample_sectors sample_dir sample_fs2"
proof -
  have "file_ptrs d sample_dir = file_ptrs d sample_file2" for d by (simp add: file_ptrs_def sample_dir_def indirect_words_def)
  then show ?thesis using sample_fs2_ok sample_file2_ok
    by (simp add: file_ok_def) (simp add: sample_dir_def sample_file2_def sample_file_def dir_ok_def dir_slots_def)
qed

text \<open>C12: Entering a name in a directory on a disk in good order refines the update of a finite map from names to inode
  numbers. The name has fewer than 60 characters and no zero byte, the inode number is not 0, and the directory has fewer than
  1144 slots, so that there is room for one more in a file. A new name is added with its number and everything else
  stays; a name that is there gives \<^verbatim>\<open>EEXIST\<close>. The call fails with \<^verbatim>\<open>ENOSPC\<close> only when the block of some slot has not
  been allocated and no block of the disk is free any more, and then the directory is as it was. Afterwards every
  search returns the number that the map has for the name, or \<^verbatim>\<open>ENOENT\<close> if it has none.\<close>
theorem sfs_dir_link_refines:
  assumes "disk_dir_ok sectors sv sfs" and "dir_slots sv < 1144"
    and "0 \<notin> set name" and "length name < SFS_NAMELEN" and "ino \<noteq> SFS_NOINO"
  shows "\<exists>e slot sv' sfs'. sfs_dir_link lhd_io sv name ino sfs = Inr (e, slot, sv', sfs') \<and> disk_dir_ok sectors sv' sfs' \<and>
    (if name \<in> fst ` disk_dir sectors sv sfs then e = EEXIST \<and> disk_dir sectors sv' sfs' = disk_dir sectors sv sfs
     else e = 0 \<and> disk_dir sectors sv' sfs' = insert (name, ino) (disk_dir sectors sv sfs) \<or>
       e = ENOSPC \<and> disk_dir sectors sv' sfs' = disk_dir sectors sv sfs \<and> fs_full sfs' \<and>
         (\<exists>s \<le> dir_slots sv. disk_map sectors sv sfs (s * 64 div 512) = 0)) \<and>
    (\<forall>nm. \<exists>e2 ds sfs2. sfs_dir_findname lhd_io sv' nm sfs' = Inr (e2, ds, sv', sfs2) \<and>
       (if nm \<in> fst ` disk_dir sectors sv' sfs' then e2 = 0 \<and> (nm, ds_ino ds) \<in> disk_dir sectors sv' sfs' else e2 = ENOENT))"
proof -
  have fs: "disk_fs_ok sectors sfs" "disk_file_ok sectors sv sfs" "dir_ok (lhd_medium sectors (sfs_device sfs)) sv"
    using assms(1) by simp_all
  from disk.link_entry [OF fs assms(2-5)] obtain e slot sv' sfs' where
    l: "sfs_dir_link lhd_io sv name ino sfs = Inr (e, slot, sv', sfs')" "disk_dir_ok sectors sv' sfs'"
    and r: "e = 0 \<and> name \<notin> fst ` disk_dir sectors sv sfs \<and> disk_dir sectors sv' sfs' = insert (name, ino) (disk_dir sectors sv sfs) \<or>
     e = EEXIST \<and> name \<in> fst ` disk_dir sectors sv sfs \<and> disk_dir sectors sv' sfs' = disk_dir sectors sv sfs \<or>
     e = ENOSPC \<and> name \<notin> fst ` disk_dir sectors sv sfs \<and> disk_dir sectors sv' sfs' = disk_dir sectors sv sfs \<and> fs_full sfs' \<and>
       (\<exists>s \<le> dir_slots sv. disk_map sectors sv sfs (s * 64 div 512) = 0)" by blast
  from r have "if name \<in> fst ` disk_dir sectors sv sfs then e = EEXIST \<and> disk_dir sectors sv' sfs' = disk_dir sectors sv sfs
     else e = 0 \<and> disk_dir sectors sv' sfs' = insert (name, ino) (disk_dir sectors sv sfs) \<or>
       e = ENOSPC \<and> disk_dir sectors sv' sfs' = disk_dir sectors sv sfs \<and> fs_full sfs' \<and>
         (\<exists>s \<le> dir_slots sv. disk_map sectors sv sfs (s * 64 div 512) = 0)" by (elim disjE) simp_all
  moreover have "\<exists>e2 ds sfs2. sfs_dir_findname lhd_io sv' nm sfs' = Inr (e2, ds, sv', sfs2) \<and>
    (if nm \<in> fst ` disk_dir sectors sv' sfs' then e2 = 0 \<and> (nm, ds_ino ds) \<in> disk_dir sectors sv' sfs' else e2 = ENOENT)" for nm
    using l(2) by (intro disk.find_entry) simp_all
  ultimately show ?thesis using l by blast
qed

theorem sfs_dir_link_refines_witness:
  "\<exists>slot sv' sfs'. sfs_dir_link lhd_io sample_dir [0x61] 9 sample_fs2 = Inr (0, slot, sv', sfs') \<and>
    disk_dir_ok sample_sectors sv' sfs' \<and> disk_dir sample_sectors sv' sfs' = {([0x61], 9)}"
proof -
  have n: "dir_slots sample_dir = 0" by (simp add: dir_slots_def sample_dir_def)
  then have empty: "disk_dir sample_sectors sample_dir sample_fs2 = {}" by (simp add: dir_entries_def)
  have "disk_map sample_sectors sample_dir sample_fs2 0 \<noteq> 0"
    by (simp add: file_map_def file_ptrs_def sample_dir_def sample_file2_def)
  moreover have "dir_slots sample_dir < 1144" "0 \<notin> set [0x61 :: u8]" "length [0x61 :: u8] < 60" "(9 :: u32) \<noteq> 0"
    using n by simp_all
  note sfs_dir_link_refines [OF sample_dir_ok this, unfolded empty n]
  ultimately show ?thesis by fastforce
qed

end
