(* ===== verification/Spec2Isabelle.thy ===== *)
theory Spec2Isabelle
  imports Coremap_Boot Free_Bitmap Kern_Array Kheap Proc_Vm Quad_Div Sched_Safe Semaphore Sfs_Dir
begin

text \<open>
  \<^bold>\<open>The program.\<close> OS/161 2.0.2, a small Unix-like kernel for a 32-bit big-endian MIPS machine with several
  processors, extended with a demand-paged virtual memory system (configuration \<^verbatim>\<open>PROJECTC1\<close>): a core map, an
  inverted page table, a swap file, software management of the TLB and a page fault handler that loads programs
  page by page. All paths below are relative to \<^verbatim>\<open>src/os161-base-2.0.2\<close>.

  \<^bold>\<open>How the kernel is modelled.\<close> Words keep their width: addresses, sizes and unsigned fields are 32-bit words,
  with the wrap-around of C. A C function is an Isabelle function with its state as argument and result. Code
  that can stop the kernel has the result type \<open>kres\<close> of \<open>Kernel_Prelude\<close>: a value, or \<open>Panic\<close>, \<open>AssertFail\<close>
  (a failed \<^verbatim>\<open>KASSERT\<close>), \<open>Spinning\<close> (a thread that can never go on) or \<open>Undefined\<close> (an access that C leaves
  undefined). Error numbers are values. Where several processors or threads matter (spinlocks, semaphores) the
  model is a step relation that interleaves them. Pointers that the code compares or stores are addresses in
  an explicit store. Hardware, the executable and code outside \<^verbatim>\<open>src\<close> are arguments of the definitions.

  \<^bold>\<open>The theories\<close>, with the files they model.

  \<^item> \<open>Kernel_Prelude\<close>: results, error numbers (\<^verbatim>\<open>kern/include/kern/errno.h\<close>), page geometry, lemmas on words and lists.
  \<^item> \<open>Spinlock\<close> (\<^verbatim>\<open>kern/thread/spl.c\<close>, \<^verbatim>\<open>kern/thread/spinlock.c\<close>): interrupt levels, spinlocks, and mutual
    exclusion over any number of CPUs. The locale \<open>lock_field\<close> is what a component knows of the lock it owns.
  \<^item> \<open>Ram\<close>, \<open>Coremap\<close> (\<^verbatim>\<open>kern/arch/mips/vm/ram.c\<close>, \<^verbatim>\<open>kern/vm/coremap.c\<close>): physical frames. The locale
    \<open>frame_allocator\<close> is the promise that frames handed out are apart; it is interpreted on \<open>getppages\<close> and
    \<open>freeppages\<close>. The locale \<open>boot_allocator\<close> is what \<^verbatim>\<open>coremap_bootstrap\<close> expects of the \<^verbatim>\<open>kmalloc\<close> it calls;
    \<open>Coremap_Boot\<close> interprets it on the kernel's own \<^verbatim>\<open>kmalloc\<close>, whose pages are stolen from the memory that is left.
  \<^item> \<open>Emu\<close> (\<^verbatim>\<open>kern/dev/lamebus/emu.c\<close>): the files of the emulator device, in one of which the swap file is kept. A transfer
    waits for the interrupt of the device, and fails an assertion when it has to sleep while a spinlock is held.
  \<^item> \<open>Page_Table\<close>, \<open>Vm_Stats\<close>, \<open>Vm_Tlb\<close>, \<open>Swapfile\<close>, \<open>Addrspace\<close> (\<^verbatim>\<open>kern/vm/pt.c\<close>, \<^verbatim>\<open>vm_stats.c\<close>,
    \<^verbatim>\<open>vm_tlb.c\<close>, \<^verbatim>\<open>swapfile.c\<close>, \<^verbatim>\<open>addrspace.c\<close>): the paging system. The records extend each other in this order,
    so the state of \<^verbatim>\<open>vm_fault\<close> contains that of all of them. The page table implements a queue of frames per
    process (locale \<open>page_queue\<close>) as long as no clock tick calls \<^verbatim>\<open>lru_update_cnt\<close>, after which the oldest page
    is no longer found; its other promises do not depend on the clock. Pages survive the swap file when the device
    is done before the thread has to sleep; the fault handler loads the right bytes.
    Several theorems state where the code deviates from its intention (arguments in the wrong order, locks
    taken twice, transfers with a spinlock held).
  \<^item> \<open>Kmalloc\<close>, \<open>Kheap\<close> (\<^verbatim>\<open>kern/vm/kmalloc.c\<close>): the kernel heap over \<open>alloc_kpages\<close>, and its correctness: blocks
    in use are apart and keep their contents (locale \<open>block_allocator\<close>), the consistency checks succeed.
  \<^item> \<open>Bitmap\<close>, \<open>Byte_Order\<close>, \<open>Kern_Array\<close>, \<open>Libc_String\<close>, \<open>Copyinout\<close>, \<open>Uio\<close> (\<^verbatim>\<open>kern/lib\<close>,
    \<^verbatim>\<open>common/libc/string\<close>, \<^verbatim>\<open>kern/vm/copyinout.c\<close>): the libraries, with the locales \<open>bit_set\<close> and
    \<open>pointer_list\<close>. Copies are shown equal to one simultaneous copy and confined to their destination.
  \<^item> \<open>Threadlist\<close>, \<open>Semaphore\<close> (\<^verbatim>\<open>kern/thread\<close>): lists of threads over a store of nodes, which implement
    sequences (locale \<open>thread_lists\<close>), and semaphores over wait channels as an interleaving of threads,
    with the assertions that forbid to sleep in an interrupt handler or with another spinlock held.
  \<^item> \<open>Sched\<close>, \<open>Sched_Inv\<close>, \<open>Sched_Safe\<close> (\<^verbatim>\<open>kern/thread/thread.c\<close>, \<^verbatim>\<open>kern/thread/clock.c\<close>, the interrupt part of
    \<^verbatim>\<open>kern/arch/mips/locore/trap.c\<close>): the thread system on several CPUs as a step relation, the invariant that
    says where every thread is, and that every step of every reachable state keeps it and does not fail. The
    conditions of a step are what its callers guarantee; \<^verbatim>\<open>thread_exit\<close> is one step from its removal from
    the process to its last switch.
  \<^item> \<open>Process\<close> (\<^verbatim>\<open>kern/proc/proc.c\<close>, \<^verbatim>\<open>kern/syscall\<close>): processes, process ids, open files and system calls.
    \<open>Proc_Vm\<close> joins it with \<open>Addrspace\<close>: what \<^verbatim>\<open>waitpid\<close> does with the address space of a process that has ended.
  \<^item> \<open>Lhd\<close>, \<open>Sfs\<close>, \<open>Sfs_File\<close>, \<open>Sfs_Dir\<close> (\<^verbatim>\<open>kern/dev/lamebus/lhd.c\<close>, \<^verbatim>\<open>kern/fs/sfs\<close>): from the disk driver,
    which implements the contract \<open>block_device\<close>, to files as arrays of bytes and directories as finite maps.
  \<^item> \<open>Free_Bitmap\<close> (\<^verbatim>\<open>kern/arch/mips/vm/free_bitmap.c\<close>): a map of free pages that no other code uses.
  \<^item> \<open>Quad\<close>, \<open>Quad_Div\<close> (\<^verbatim>\<open>common/gcc-millicode\<close>): the 64-bit arithmetic that gcc calls, on pairs of 32-bit words,
    and the division, Knuth's algorithm D in base \<open>2 ^ 16\<close>; both equal the arithmetic of 64-bit words.

  \<^bold>\<open>Bounds.\<close> Loops of the code are recursions that follow the data; walks over linked lists that could be cyclic
  are partial functions, whose endless runs are the result \<open>Spinning\<close>, and the theorems show that they return. The
  heap theorem covers requests below \<open>2 ^ 31 - 4096\<close> bytes, the largest that the address arithmetic of the
  direct-mapped segment can hold, and 256 requests that find no memory, since each of them can leave a page
  structure in use for good.

  \<^bold>\<open>Not modelled.\<close> The tables of operations above the modelled parts, which only dispatch to them or count
  references: \<^verbatim>\<open>kern/vfs\<close>, and \<^verbatim>\<open>sfs_inode.c\<close>, \<^verbatim>\<open>sfs_vnops.c\<close>, \<^verbatim>\<open>sfs_fsops.c\<close>; the modelled system calls and the
  fault handler take the operations of a vnode as arguments, the swap file only \<^verbatim>\<open>vfs_open\<close>. Pure I/O and hardware: the
  devices other than the disk and the emulator, of which opening files and directories are left out, the bus, the console, assembly, the dispatch of traps and system calls. \<^verbatim>\<open>loadelf.c\<close> and \<^verbatim>\<open>runprogram.c\<close>, which
  read segments through the VFS straight into user memory, so that page faults occur in the middle of a read.
  Code for people: formatted output, the menu, boot messages.
  \<^verbatim>\<open>kern/fs/semfs\<close>, whose locks and condition variables are empty in this configuration, and \<^verbatim>\<open>dumbvm.c\<close>, which it does
  not compile. The start of the secondary processors and \<^verbatim>\<open>clocksleep\<close> in the thread system. Test programs and user
  programs under \<^verbatim>\<open>kern/test\<close> and \<^verbatim>\<open>userland\<close>.
\<close>

end
